(* ===== verification/Ift_Prelude.thy ===== *)
theory Ift_Prelude
  imports Main "HOL-Library.Word" "HOL-Library.Monad_Syntax" "HOL-Library.List_Lexorder"
begin

text \<open>
  Shared vocabulary of the development: the status codes and the \<^verbatim>\<open>TRY\<close> macro of
  \<^verbatim>\<open>ift/common/try.h\<close>, bytes, the collections of rewrite rules the component theories
  extend, and generic facts on strictly ascending lists, bit lists and options that several
  components use.
\<close>

section \<open>Collections\<close>

named_theorems ift_eval \<open>equations that evaluate the model on concrete inputs\<close>
named_theorems ift_spec \<open>facts relating an operation to its abstract meaning\<close>

section \<open>Status and bytes\<close>

text \<open>
  An \<open>absl::Status\<close> other than OK, by its code. The message texts are not modelled.
\<close>

datatype status = InvalidArgumentError | InternalError | NotFoundError | FailedPreconditionError | UnimplementedError

type_synonym 'a status_or = "status + 'a"

text \<open>
  \<^verbatim>\<open>TRY(e)\<close> of \<^verbatim>\<open>ift/common/try.h\<close>: return the status when \<open>e\<close> failed, else go on with its
  value.
\<close>

fun TRY :: "'a status_or \<Rightarrow> ('a \<Rightarrow> 'b status_or) \<Rightarrow> 'b status_or" where
  "TRY (Inl s) f = Inl s"
| "TRY (Inr x) f = f x"

lemma TRY_eq_Inr: "TRY m f = Inr y \<longleftrightarrow> (\<exists>x. m = Inr x \<and> f x = Inr y)"
  by (cases m) auto

lemma TRY_eq_Inl: "TRY m f = Inl s \<longleftrightarrow> m = Inl s \<or> (\<exists>x. m = Inr x \<and> f x = Inl s)"
  by (cases m) auto

lemma TRY_cong [fundef_cong]:
  "m = m' \<Longrightarrow> (\<And>x. m' = Inr x \<Longrightarrow> f x = f' x) \<Longrightarrow> TRY m f = TRY m' f'"
  by (cases m') auto

text \<open>A loop whose body may fail: run the body over the list, stop at the first failure.\<close>

fun TRY_fold :: "('x \<Rightarrow> 's \<Rightarrow> 's status_or) \<Rightarrow> 'x list \<Rightarrow> 's \<Rightarrow> 's status_or" where
  "TRY_fold f [] s = Inr s"
| "TRY_fold f (x # xs) s = TRY (f x s) (TRY_fold f xs)"

lemma TRY_fold_append:
  "TRY_fold f (xs @ ys) s = TRY (TRY_fold f xs s) (TRY_fold f ys)"
proof (induction xs arbitrary: s)
  case Nil
  show ?case by simp
next
  case (Cons x xs)
  show ?case by (cases "f x s") (simp_all add: Cons.IH)
qed

text \<open>An invariant of the loop body is an invariant of the loop.\<close>

lemma TRY_fold_invariant:
  assumes "TRY_fold f xs s = Inr t" and "P s"
    and "\<And>x s t. x \<in> set xs \<Longrightarrow> P s \<Longrightarrow> f x s = Inr t \<Longrightarrow> P t"
  shows "P t"
  using assms
proof (induction xs arbitrary: s)
  case Nil
  then show ?case by simp
next
  case (Cons x xs)
  from Cons.prems(1) obtain u where u: "f x s = Inr u" and rest: "TRY_fold f xs u = Inr t"
    by (auto simp: TRY_eq_Inr)
  have "P u" using Cons.prems(2,3) u by auto
  with rest Cons.prems(3) show ?case by (intro Cons.IH) auto
qed

type_synonym byte = "8 word"
type_synonym bytes = "byte list"

text \<open>The largest \<open>uint32_t\<close>; harfbuzz reserves it as \<open>HB_SET_VALUE_INVALID\<close>.\<close>

abbreviation UINT32_MAX :: nat where "UINT32_MAX \<equiv> 4294967295"
abbreviation TWO32 :: nat where "TWO32 \<equiv> 4294967296"

text \<open>Unsigned 32 bit subtraction, with its wrap-around.\<close>

definition sub32 :: "nat \<Rightarrow> nat \<Rightarrow> nat" where
  "sub32 a b = (a + TWO32 - b mod TWO32) mod TWO32"

lemma sub32_le [simp]:
  assumes "b \<le> a" and "a < TWO32" shows "sub32 a b = a - b"
proof -
  have "b mod TWO32 = b" using assms by simp
  then have eq: "a + TWO32 - b mod TWO32 = TWO32 + (a - b)" using assms(1) by simp
  have "(TWO32 + d) mod TWO32 = d" if "d < TWO32" for d using that by simp
  from this [of "a - b"] assms show ?thesis unfolding sub32_def eq by simp
qed

section \<open>Strictly ascending lists\<close>

lemma strict_sorted_eqI:
  fixes xs ys :: "'a::linorder list"
  assumes "sorted_wrt (<) xs" "sorted_wrt (<) ys" "set xs = set ys"
  shows "xs = ys"
  using assms by (simp add: strict_sorted_equal)

lemma strict_sorted_filter:
  "sorted_wrt (<) (xs :: 'a::linorder list) \<Longrightarrow> sorted_wrt (<) (filter P xs)"
  by (rule sorted_wrt_filter)

lemma strict_sorted_distinct: "sorted_wrt (<) (xs :: 'a::linorder list) \<Longrightarrow> distinct xs"
  by (simp add: strict_sorted_iff)

lemma sorted_wrt_less_snoc:
  "sorted_wrt (<) (xs @ [x]) \<longleftrightarrow> sorted_wrt (<) xs \<and> (\<forall>y\<in>set xs. y < (x::'a::linorder))"
  by (auto simp: sorted_wrt_append)

fun ins_sorted :: "'a::linorder \<Rightarrow> 'a list \<Rightarrow> 'a list" where
  "ins_sorted x [] = [x]"
| "ins_sorted x (y # ys) =
     (if x < y then x # y # ys else if x = y then y # ys else y # ins_sorted x ys)"

fun merge_sorted :: "'a::linorder list \<Rightarrow> 'a list \<Rightarrow> 'a list" where
  "merge_sorted [] ys = ys"
| "merge_sorted xs [] = xs"
| "merge_sorted (x # xs) (y # ys) =
     (if x < y then x # merge_sorted xs (y # ys)
      else if y < x then y # merge_sorted (x # xs) ys
      else x # merge_sorted xs ys)"

lemma set_ins_sorted [simp]: "set (ins_sorted x xs) = insert x (set xs)"
  by (induction xs) auto

lemma sorted_ins_sorted: "sorted_wrt (<) xs \<Longrightarrow> sorted_wrt (<) (ins_sorted x xs)"
  by (induction xs) auto

lemma merge_sorted_Nil2 [simp]: "merge_sorted xs [] = xs"
  by (cases xs) auto

lemma set_merge_sorted [simp]: "set (merge_sorted xs ys) = set xs \<union> set ys"
  by (induction xs ys rule: merge_sorted.induct) auto

lemma sorted_merge_sorted:
  "sorted_wrt (<) xs \<Longrightarrow> sorted_wrt (<) ys \<Longrightarrow> sorted_wrt (<) (merge_sorted xs ys)"
  by (induction xs ys rule: merge_sorted.induct) auto

section \<open>Bits\<close>

text \<open>The \<open>n\<close> low bits of a value, least significant first, and the value of a bit list.\<close>

definition low_bits :: "nat \<Rightarrow> nat \<Rightarrow> bool list" where
  "low_bits n v = map (bit v) [0..<n]"

definition bits_value :: "bool list \<Rightarrow> nat" where
  "bits_value bs = horner_sum of_bool 2 bs"

lemma length_low_bits [simp]: "length (low_bits n v) = n"
  by (simp add: low_bits_def)

lemma nth_low_bits [simp]: "i < n \<Longrightarrow> low_bits n v ! i = bit v i"
  by (simp add: low_bits_def)

lemma bits_value_low_bits: "bits_value (low_bits n v) = take_bit n v"
  by (simp add: bits_value_def low_bits_def horner_sum_bit_eq_take_bit)

lemma low_bits_inject:
  assumes "low_bits n v = low_bits n w" and "v < 2 ^ n" and "w < 2 ^ n"
  shows "v = w"
proof -
  have "take_bit n v = take_bit n w"
    using assms(1) by (simp flip: bits_value_low_bits)
  then show ?thesis using assms(2,3) by (simp add: take_bit_nat_eq_self)
qed

lemma low_bits_take_bit [simp]: "low_bits n (take_bit n v) = low_bits n v"
  by (auto simp: low_bits_def bit_take_bit_iff)

section \<open>Aligned blocks\<close>

text \<open>
  The block of size \<open>2 ^ k\<close> that holds a value starts at \<open>align k x\<close>: the low \<open>k\<close> bits
  cleared.
\<close>

definition align :: "nat \<Rightarrow> nat \<Rightarrow> nat" where
  "align k x = x div 2 ^ k * 2 ^ k"

lemma align_le: "align k x \<le> x"
  by (simp add: align_def)

lemma align_upper: "x < align k x + 2 ^ k"
proof -
  have "x = x div 2 ^ k * 2 ^ k + x mod 2 ^ k" by (rule div_mult_mod_eq [symmetric])
  moreover have "x mod 2 ^ k < 2 ^ k" by simp
  ultimately show ?thesis unfolding align_def by linarith
qed

lemma align_dvd: "2 ^ k dvd align k x"
  by (simp add: align_def)

lemma align_eqI:
  assumes "2 ^ k dvd b" and "b \<le> x" and "x < b + 2 ^ k"
  shows "align k x = b"
proof -
  from assms(1) obtain q where q: "b = q * 2 ^ k" by (metis dvd_def mult.commute)
  have "x div 2 ^ k = q"
    using assms(2,3) q by (intro div_nat_eqI) (auto simp: algebra_simps)
  then show ?thesis by (simp add: align_def q)
qed

lemma align_eq_iff: "align k x = align k y \<longleftrightarrow> x div 2 ^ k = y div 2 ^ k"
  by (simp add: align_def)

lemma align_mono: "x \<le> y \<Longrightarrow> align k x \<le> align k y"
  by (simp add: align_def div_le_mono)

lemma align_align:
  assumes "j \<le> k" shows "align k (align j x) = align k x"
proof -
  have "x div 2 ^ j div 2 ^ (k - j) = x div 2 ^ k"
    using assms by (simp add: div_mult2_eq[symmetric] power_add[symmetric])
  moreover have "align j x div 2 ^ k = x div 2 ^ j div 2 ^ (k - j)"
  proof -
    have "(2::nat) ^ k = 2 ^ j * 2 ^ (k - j)" using assms by (simp add: power_add[symmetric])
    then show ?thesis by (simp add: align_def div_mult2_eq)
  qed
  ultimately show ?thesis by (simp add: align_def)
qed

lemma align_self: "2 ^ k dvd x \<Longrightarrow> align k x = x"
  by (simp add: align_def)

text \<open>A later block starts at or after the end of an earlier one.\<close>

lemma aligned_less_step:
  assumes "2 ^ k dvd (a::nat)" and "2 ^ k dvd b" and "a < b"
  shows "a + 2 ^ k \<le> b"
  using assms by (metis dvd_diff_nat le_add_diff_inverse less_imp_le_nat nat_dvd_not_less
      not_less zero_less_diff add_le_cancel_left)

end
