(* ===== verification/Int_Set.thy ===== *)
theory Int_Set
  imports Ift_Prelude
begin

text \<open>
  \<^verbatim>\<open>IntSet\<close> of \<^verbatim>\<open>ift/common/int_set.h\<close>, the set of 32 bit integers behind \<open>GlyphSet\<close>,
  \<open>CodepointSet\<close> and \<open>SegmentSet\<close>. The class owns a harfbuzz \<open>hb_set_t\<close>; a value of the
  model is what the class lets its clients see of it: the ascending list of its members, which
  is what iterating or \<^verbatim>\<open>to_vector\<close> returns. \<open>HB_SET_VALUE_INVALID\<close> is never a member, and
  adding it does nothing. The loops that the class writes itself (\<^verbatim>\<open>operator<\<close>,
  \<^verbatim>\<open>intersects\<close>) are modelled as loops.
\<close>

section \<open>The type\<close>

typedef int_set = "{xs :: nat list. sorted_wrt (<) xs \<and> (\<forall>x\<in>set xs. x < UINT32_MAX)}"
  morphisms to_vector Abs_int_set
  by (rule exI [of _ "[]"]) simp

setup_lifting type_definition_int_set

definition members :: "int_set \<Rightarrow> nat set" where
  "members s = set (to_vector s)"

lemma to_vector_sorted: "sorted_wrt (<) (to_vector s)"
  using to_vector [of s] by simp

lemma to_vector_distinct [simp]: "distinct (to_vector s)"
  by (rule strict_sorted_distinct [OF to_vector_sorted])

lemma members_bound: "x \<in> members s \<Longrightarrow> x < UINT32_MAX"
  using to_vector [of s] by (auto simp: members_def)

lemma finite_members [simp]: "finite (members s)"
  by (simp add: members_def)

lemma set_to_vector [simp]: "set (to_vector s) = members s"
  by (simp add: members_def)

lemma int_set_eqI: "members a = members b \<Longrightarrow> a = b"
  by (metis members_def strict_sorted_eqI to_vector_inject to_vector_sorted)

lemma int_set_eq_iff: "a = b \<longleftrightarrow> members a = members b"
  using int_set_eqI by auto

lemma to_vector_eq_iff: "a = b \<longleftrightarrow> to_vector a = to_vector b"
  by (simp add: to_vector_inject)

section \<open>Operations\<close>

lift_definition IntSet_empty :: int_set is "[]"
  by simp

lift_definition IntSet_insert :: "nat \<Rightarrow> int_set \<Rightarrow> int_set" is
  "\<lambda>x xs. if x < UINT32_MAX then ins_sorted x xs else xs"
  by (auto simp: sorted_ins_sorted)

text \<open>The constructor from an initializer list, and the loop that inserts a range of iterators.\<close>

definition IntSet_insert_all :: "nat list \<Rightarrow> int_set \<Rightarrow> int_set" where
  "IntSet_insert_all vs s = fold IntSet_insert vs s"

definition IntSet :: "nat list \<Rightarrow> int_set" where
  "IntSet vs = IntSet_insert_all vs IntSet_empty"

text \<open>
  \<^verbatim>\<open>insert_range\<close>: all values from \<open>start\<close> to \<open>end\<close>, both included; a range that runs
  backwards or touches \<open>HB_SET_VALUE_INVALID\<close> adds nothing.
\<close>

lift_definition IntSet_insert_range :: "nat \<Rightarrow> nat \<Rightarrow> int_set \<Rightarrow> int_set" is
  "\<lambda>a b xs. if a \<le> b \<and> b < UINT32_MAX then merge_sorted xs [a..<Suc b] else xs"
  by (auto simp: sorted_merge_sorted simp del: upt_Suc)

text \<open>
  \<^verbatim>\<open>insert_sorted_array\<close>: harfbuzz asks for ascending values, and stops at the first one that is
  smaller than the one before it.
\<close>

fun ascending_part :: "nat list \<Rightarrow> nat list" where
  "ascending_part (x # y # ys) = (if y < x then [x] else x # ascending_part (y # ys))"
| "ascending_part xs = xs"

definition IntSet_insert_sorted_array :: "nat list \<Rightarrow> int_set \<Rightarrow> int_set" where
  "IntSet_insert_sorted_array vs s = IntSet_insert_all (ascending_part vs) s"

definition IntSet_contains :: "int_set \<Rightarrow> nat \<Rightarrow> bool" where
  "IntSet_contains s x = List.member (to_vector s) x"

definition IntSet_size :: "int_set \<Rightarrow> nat" where
  "IntSet_size s = length (to_vector s)"

definition IntSet_is_empty :: "int_set \<Rightarrow> bool" where
  "IntSet_is_empty s = (to_vector s = [])"

definition IntSet_min :: "int_set \<Rightarrow> nat option" where
  "IntSet_min s = (case to_vector s of [] \<Rightarrow> None | x # _ \<Rightarrow> Some x)"

definition IntSet_max :: "int_set \<Rightarrow> nat option" where
  "IntSet_max s = (case to_vector s of [] \<Rightarrow> None | x # xs \<Rightarrow> Some (last (x # xs)))"

definition IntSet_is_subset_of :: "int_set \<Rightarrow> int_set \<Rightarrow> bool" where
  "IntSet_is_subset_of a b = list_all (IntSet_contains b) (to_vector a)"

text \<open>The private \<^verbatim>\<open>intersects\<close> walks the set with fewer members and probes the other.\<close>

definition IntSet_intersects :: "int_set \<Rightarrow> int_set \<Rightarrow> bool" where
  "IntSet_intersects a b =
     (if IntSet_size b < IntSet_size a
      then list_ex (IntSet_contains a) (to_vector b)
      else list_ex (IntSet_contains b) (to_vector a))"

lift_definition IntSet_del :: "nat \<Rightarrow> int_set \<Rightarrow> int_set" is "\<lambda>x xs. filter (\<lambda>y. y \<noteq> x) xs"
  by (auto simp: strict_sorted_filter)

text \<open>\<^verbatim>\<open>erase\<close> returns how many members it removed.\<close>

definition IntSet_erase :: "nat \<Rightarrow> int_set \<Rightarrow> int_set \<times> nat" where
  "IntSet_erase x s = (if IntSet_contains s x then (IntSet_del x s, 1) else (s, 0))"

lift_definition IntSet_union_set :: "int_set \<Rightarrow> int_set \<Rightarrow> int_set" is merge_sorted
  by (auto simp: sorted_merge_sorted)

lift_definition IntSet_intersect :: "int_set \<Rightarrow> int_set \<Rightarrow> int_set" is
  "\<lambda>xs ys. filter (List.member ys) xs"
  by (auto simp: strict_sorted_filter)

lift_definition IntSet_subtract :: "int_set \<Rightarrow> int_set \<Rightarrow> int_set" is
  "\<lambda>xs ys. filter (\<lambda>x. \<not> List.member ys x) xs"
  by (auto simp: strict_sorted_filter)

definition IntSet_symmetric_difference :: "int_set \<Rightarrow> int_set \<Rightarrow> int_set" where
  "IntSet_symmetric_difference a b = IntSet_union_set (IntSet_subtract a b) (IntSet_subtract b a)"

text \<open>Iterating from \<^verbatim>\<open>lower_bound(start)\<close> visits the members that are at least \<open>start\<close>.\<close>

definition IntSet_lower_bound :: "nat \<Rightarrow> int_set \<Rightarrow> nat list" where
  "IntSet_lower_bound start s = dropWhile (\<lambda>x. x < start) (to_vector s)"

text \<open>
  \<^verbatim>\<open>invert\<close>, by what iterating the inverted set visits. A lookup of \<open>HB_SET_VALUE_INVALID\<close> itself in an
  inverted harfbuzz set, which is not part of that list, is not modelled; no client makes it.
\<close>

lift_definition IntSet_invert :: "int_set \<Rightarrow> int_set" is
  "\<lambda>xs. filter (\<lambda>x. \<not> List.member xs x) [0..<UINT32_MAX]"
  by (auto simp: strict_sorted_filter)

section \<open>Meaning of the operations\<close>

lemma to_vector_empty [simp, ift_eval]: "to_vector IntSet_empty = []"
  by (rule IntSet_empty.rep_eq)

lemma to_vector_insert [ift_eval]:
  "to_vector (IntSet_insert x s) =
     (if x < UINT32_MAX then ins_sorted x (to_vector s) else to_vector s)"
  by (rule IntSet_insert.rep_eq)

lemma to_vector_union [ift_eval]:
  "to_vector (IntSet_union_set a b) = merge_sorted (to_vector a) (to_vector b)"
  by (rule IntSet_union_set.rep_eq)

lemma to_vector_del [ift_eval]:
  "to_vector (IntSet_del x s) = filter (\<lambda>y. y \<noteq> x) (to_vector s)"
  by (rule IntSet_del.rep_eq)

lemma to_vector_subtract [ift_eval]:
  "to_vector (IntSet_subtract a b) = filter (\<lambda>x. x \<notin> set (to_vector b)) (to_vector a)"
  by (simp add: IntSet_subtract.rep_eq del: set_to_vector)

lemma to_vector_intersect [ift_eval]:
  "to_vector (IntSet_intersect a b) = filter (\<lambda>x. x \<in> set (to_vector b)) (to_vector a)"
  unfolding IntSet_intersect.rep_eq by (rule filter_cong) simp_all

lemma members_empty [simp]: "members IntSet_empty = {}"
  by (simp add: members_def)

lemma members_insert [simp]:
  "members (IntSet_insert x s) = (if x < UINT32_MAX then insert x (members s) else members s)"
  by (simp add: members_def to_vector_insert del: set_to_vector)

lemma members_insert_all [simp]:
  "members (IntSet_insert_all vs s) = members s \<union> {v \<in> set vs. v < UINT32_MAX}"
  unfolding IntSet_insert_all_def by (induction vs arbitrary: s) auto

lemma members_IntSet [simp]: "members (IntSet vs) = {v \<in> set vs. v < UINT32_MAX}"
  by (simp add: IntSet_def)

lemma ascending_part_sorted: "sorted vs \<Longrightarrow> ascending_part vs = vs"
  by (induction vs rule: ascending_part.induct) auto

lemma members_insert_sorted_array:
  "sorted vs \<Longrightarrow> members (IntSet_insert_sorted_array vs s) = members s \<union> {v \<in> set vs. v < UINT32_MAX}"
  by (simp add: IntSet_insert_sorted_array_def ascending_part_sorted)

lemma members_insert_sorted_array_mono: "members s \<subseteq> members (IntSet_insert_sorted_array vs s)"
  by (simp add: IntSet_insert_sorted_array_def)

lemma members_insert_range [simp]:
  "members (IntSet_insert_range a b s) =
     (if a \<le> b \<and> b < UINT32_MAX then members s \<union> {a..b} else members s)"
  unfolding members_def IntSet_insert_range.rep_eq
  by (auto simp del: upt_Suc set_to_vector)

lemma members_union [simp]: "members (IntSet_union_set a b) = members a \<union> members b"
  by (simp add: members_def to_vector_union del: set_to_vector)

lemma members_del [simp]: "members (IntSet_del x s) = members s - {x}"
  by (auto simp add: members_def to_vector_del simp del: set_to_vector)

lemma members_subtract [simp]: "members (IntSet_subtract a b) = members a - members b"
  by (auto simp add: members_def to_vector_subtract simp del: set_to_vector)

lemma members_intersect [simp]: "members (IntSet_intersect a b) = members a \<inter> members b"
  by (auto simp add: members_def to_vector_intersect simp del: set_to_vector)

lemma members_symmetric_difference [simp]:
  "members (IntSet_symmetric_difference a b) = (members a - members b) \<union> (members b - members a)"
  by (simp add: IntSet_symmetric_difference_def)

lemma members_invert [simp]: "members (IntSet_invert s) = {x. x < UINT32_MAX} - members s"
  unfolding members_def IntSet_invert.rep_eq by auto

lemma contains_iff [simp]: "IntSet_contains s x \<longleftrightarrow> x \<in> members s"
  by (simp add: IntSet_contains_def)

lemma size_eq_card: "IntSet_size s = card (members s)"
  by (simp add: IntSet_size_def members_def distinct_card del: set_to_vector)

lemma is_empty_iff [simp]: "IntSet_is_empty s \<longleftrightarrow> members s = {}"
  by (simp add: IntSet_is_empty_def members_def del: set_to_vector)

lemma is_subset_of_iff [simp]: "IntSet_is_subset_of a b \<longleftrightarrow> members a \<subseteq> members b"
  by (auto simp: IntSet_is_subset_of_def list_all_iff)

lemma intersects_iff [simp]: "IntSet_intersects a b \<longleftrightarrow> members a \<inter> members b \<noteq> {}"
  by (auto simp: IntSet_intersects_def list_ex_iff)

lemma members_erase [simp]: "members (fst (IntSet_erase x s)) = members s - {x}"
  by (simp add: IntSet_erase_def)

lemma IntSet_min_eq: "IntSet_min s = (if members s = {} then None else Some (Min (members s)))"
proof (cases "to_vector s")
  case Nil
  then show ?thesis by (simp add: IntSet_min_def members_def del: set_to_vector)
next
  case (Cons x xs)
  then have "\<forall>y\<in>set xs. x < y" using to_vector_sorted [of s] by simp
  then have "Min (set (x # xs)) = x" by (intro Min_eqI) auto
  with Cons show ?thesis by (simp add: IntSet_min_def members_def del: set_to_vector)
qed

lemma IntSet_max_eq: "IntSet_max s = (if members s = {} then None else Some (Max (members s)))"
proof (cases "to_vector s" rule: rev_cases)
  case Nil
  then show ?thesis by (simp add: IntSet_max_def members_def del: set_to_vector)
next
  case (snoc xs x)
  then have "\<forall>y\<in>set xs. y < x" using to_vector_sorted [of s] by (simp add: sorted_wrt_less_snoc)
  then have "Max (set (xs @ [x])) = x" by (intro Max_eqI) auto
  moreover have "IntSet_max s = Some x" using snoc
    by (cases xs) (simp_all add: IntSet_max_def)
  ultimately show ?thesis using snoc by (simp add: members_def del: set_to_vector)
qed

lemma set_lower_bound: "set (IntSet_lower_bound v s) = {x \<in> members s. v \<le> x}"
proof -
  have "sorted_wrt (<) xs \<Longrightarrow> set (dropWhile (\<lambda>x. x < v) xs) = {x \<in> set xs. v \<le> x}"
    for xs :: "nat list"
    by (induction xs) auto
  then show ?thesis using to_vector_sorted by (simp add: IntSet_lower_bound_def)
qed

section \<open>The order and equality of sets\<close>

text \<open>
  \<^verbatim>\<open>operator<\<close> walks both sets in step: the first difference decides, and a set that runs out
  first is the smaller one.
\<close>

fun less_walk :: "nat list \<Rightarrow> nat list \<Rightarrow> bool" where
  "less_walk (a # as) (b # bs) =
     (if a < b then True else if b < a then False else less_walk as bs)"
| "less_walk [] [] = False"
| "less_walk [] (b # bs) = True"
| "less_walk (a # as) [] = False"

lemma less_walk_iff: "less_walk xs ys \<longleftrightarrow> xs < ys"
  by (induction xs ys rule: less_walk.induct) auto

definition IntSet_equal :: "int_set \<Rightarrow> int_set \<Rightarrow> bool" where
  "IntSet_equal a b \<longleftrightarrow> to_vector a = to_vector b"

instantiation int_set :: "{equal, size}"
begin
definition equal_int_set :: "int_set \<Rightarrow> int_set \<Rightarrow> bool" where
  "equal_int_set = IntSet_equal"
definition size_int_set :: "int_set \<Rightarrow> nat" where
  "size_int_set s = IntSet_size s"
instance by standard (simp add: equal_int_set_def IntSet_equal_def to_vector_inject)
end

instantiation int_set :: linorder
begin
definition less_int_set :: "int_set \<Rightarrow> int_set \<Rightarrow> bool" where
  "less_int_set a b \<longleftrightarrow> less_walk (to_vector a) (to_vector b)"
definition less_eq_int_set :: "int_set \<Rightarrow> int_set \<Rightarrow> bool" where
  "less_eq_int_set a b \<longleftrightarrow> a = b \<or> less_walk (to_vector a) (to_vector b)"
instance
proof
  fix a b c :: int_set
  show "a < b \<longleftrightarrow> a \<le> b \<and> \<not> b \<le> a"
    by (auto simp: less_int_set_def less_eq_int_set_def less_walk_iff to_vector_eq_iff)
  show "a \<le> a" by (simp add: less_eq_int_set_def)
  show "a \<le> b \<Longrightarrow> b \<le> c \<Longrightarrow> a \<le> c"
    by (auto simp: less_eq_int_set_def less_walk_iff)
  show "a \<le> b \<Longrightarrow> b \<le> a \<Longrightarrow> a = b"
    by (auto simp: less_eq_int_set_def less_walk_iff)
  show "a \<le> b \<or> b \<le> a"
    by (auto simp: less_eq_int_set_def less_walk_iff to_vector_eq_iff)
qed
end

lemma less_int_set_iff: "a < b \<longleftrightarrow> to_vector a < to_vector b"
  by (simp add: less_int_set_def less_walk_iff)

lemma less_eq_int_set_iff: "a \<le> b \<longleftrightarrow> to_vector a \<le> to_vector b"
  by (auto simp: less_eq_int_set_def less_walk_iff to_vector_eq_iff)

lemma size_int_set_eq: "size s = card (members s)"
  by (simp add: size_int_set_def size_eq_card)

text \<open>Evaluation of literals.\<close>

lemma to_vector_IntSet_Nil [ift_eval]: "to_vector (IntSet []) = []"
  by (simp add: IntSet_def IntSet_insert_all_def)

lemma to_vector_insert_all [ift_eval]:
  "to_vector (IntSet_insert_all vs s) =
     fold (\<lambda>x xs. if x < UINT32_MAX then ins_sorted x xs else xs) vs (to_vector s)"
  unfolding IntSet_insert_all_def
  by (induction vs arbitrary: s) (auto simp: to_vector_insert)

lemma to_vector_IntSet [ift_eval]:
  "to_vector (IntSet vs) = fold (\<lambda>x xs. if x < UINT32_MAX then ins_sorted x xs else xs) vs []"
  by (simp add: IntSet_def to_vector_insert_all)

lemma to_vector_insert_range [ift_eval]:
  "to_vector (IntSet_insert_range a b s) =
     (if a \<le> b \<and> b < UINT32_MAX then merge_sorted (to_vector s) [a..<Suc b] else to_vector s)"
  by (rule IntSet_insert_range.rep_eq)

lemmas int_set_eval =
  ift_eval IntSet_contains_def IntSet_size_def IntSet_is_empty_def IntSet_min_def IntSet_max_def
  IntSet_insert_sorted_array_def IntSet_is_subset_of_def IntSet_intersects_def
  to_vector_eq_iff less_int_set_def less_eq_int_set_def size_int_set_def

end
