(* ===== verification/Branch_Factor.thy ===== *)
theory Branch_Factor
  imports Ift_Prelude
begin

text \<open>
  \<^verbatim>\<open>ift/common/branch_factor.h\<close>: the four branch factors of a sparse bit set and the
  constant tables indexed by them, with the relations between the tables that the bit tricks of
  the encoder and the decoder rely on.
\<close>

datatype branch_factor = BF2 | BF4 | BF8 | BF32

fun kBFNodeSize :: "branch_factor \<Rightarrow> nat" where
  "kBFNodeSize BF2 = 2"
| "kBFNodeSize BF4 = 4"
| "kBFNodeSize BF8 = 8"
| "kBFNodeSize BF32 = 32"

fun kBFNodeSizeLog2 :: "branch_factor \<Rightarrow> nat" where
  "kBFNodeSizeLog2 BF2 = 1"
| "kBFNodeSizeLog2 BF4 = 2"
| "kBFNodeSizeLog2 BF8 = 3"
| "kBFNodeSizeLog2 BF32 = 5"

definition kBFTwigSize :: "branch_factor \<Rightarrow> nat" where
  "kBFTwigSize bf = kBFNodeSize bf * kBFNodeSize bf"

definition kBFTwigSizeLog2 :: "branch_factor \<Rightarrow> nat" where
  "kBFTwigSizeLog2 bf = kBFNodeSizeLog2 bf * 2"

fun kBFNodeSizeBitMask :: "branch_factor \<Rightarrow> nat" where
  "kBFNodeSizeBitMask BF2 = 1"
| "kBFNodeSizeBitMask BF4 = 3"
| "kBFNodeSizeBitMask BF8 = 7"
| "kBFNodeSizeBitMask BF32 = 31"

fun kBFTwigSizeBitMask :: "branch_factor \<Rightarrow> nat" where
  "kBFTwigSizeBitMask BF2 = 3"
| "kBFTwigSizeBitMask BF4 = 15"
| "kBFTwigSizeBitMask BF8 = 63"
| "kBFTwigSizeBitMask BF32 = 1023"

fun kBFMaxDepth :: "branch_factor \<Rightarrow> nat" where
  "kBFMaxDepth BF2 = 31"
| "kBFMaxDepth BF4 = 16"
| "kBFMaxDepth BF8 = 11"
| "kBFMaxDepth BF32 = 7"

section \<open>Relations between the tables\<close>

lemma node_size_pow: "kBFNodeSize bf = 2 ^ kBFNodeSizeLog2 bf"
  by (cases bf) simp_all

lemma twig_size_pow: "kBFTwigSize bf = 2 ^ kBFTwigSizeLog2 bf"
  by (cases bf) (simp_all add: kBFTwigSize_def kBFTwigSizeLog2_def)

lemma node_mask_pow: "kBFNodeSizeBitMask bf = mask (kBFNodeSizeLog2 bf)"
  by (cases bf) (simp_all add: mask_eq_exp_minus_1)

lemma twig_mask_pow: "kBFTwigSizeBitMask bf = mask (kBFTwigSizeLog2 bf)"
  by (cases bf) (simp_all add: mask_eq_exp_minus_1 kBFTwigSizeLog2_def)

lemma node_log_pos [simp]: "0 < kBFNodeSizeLog2 bf"
  by (cases bf) simp_all

lemma node_size_pos [simp]: "0 < kBFNodeSize bf"
  by (cases bf) simp_all

lemma node_size_le_32: "kBFNodeSize bf \<le> 32"
  by (cases bf) simp_all

text \<open>
  \<open>x & mask\<close> is the remainder, so \<open>(x & mask) == mask\<close> holds for the last value of a block,
  as the comments beside the bit operations say.
\<close>

lemma and_mask_eq_mod: "and x (mask k) = x mod (2 ^ k :: nat)"
  by (simp add: take_bit_eq_mask [symmetric] take_bit_eq_mod)

lemma and_mask_last: "and x (mask k) = mask k \<longleftrightarrow> Suc x mod 2 ^ k = (0::nat)"
proof -
  have "0 < (2::nat) ^ k" by simp
  then have "x mod 2 ^ k = 2 ^ k - 1 \<longleftrightarrow> Suc (x mod 2 ^ k) = 2 ^ k" by linarith
  also have "\<dots> \<longleftrightarrow> Suc x mod 2 ^ k = (0::nat)" by (simp add: mod_Suc)
  finally show ?thesis unfolding and_mask_eq_mod by (simp only: mask_eq_exp_minus_1)
qed

text \<open>
  The maximum depths keep the depth within the five bits of the header. They cover the whole
  32 bit range for every branch factor but \<open>BF2\<close>.
\<close>

lemma max_depth_le_31: "kBFMaxDepth bf \<le> 31"
  by (cases bf) simp_all

lemma max_depth_covers:
  "bf \<noteq> BF2 \<Longrightarrow> 2 ^ 32 \<le> (2::nat) ^ (kBFNodeSizeLog2 bf * kBFMaxDepth bf)"
  by (cases bf) simp_all

lemma max_depth_BF2: "2 ^ (kBFNodeSizeLog2 BF2 * kBFMaxDepth BF2) = (2::nat) ^ 31"
  by simp

end
