(* ===== verification/Bit_Buffer.thy ===== *)
theory Bit_Buffer
  imports Branch_Factor
begin

text \<open>
  \<^verbatim>\<open>BitOutputBuffer\<close> and \<^verbatim>\<open>BitInputBuffer\<close> (\<^verbatim>\<open>ift/common/bit_output_buffer.cc\<close>,
  \<^verbatim>\<open>bit_input_buffer.cc\<close>): a header byte with the branch factor and the depth, then the nodes
  of a sparse bit set, packed 4, 2 or 1 to a byte, or 4 bytes each. Both are related to one
  abstract stream, the bits of the bytes in order, least significant first; two locales state
  what a writer and a reader of nodes promise.
\<close>

unbundle bit_operations_syntax

text \<open>The conversions between \<open>uint32_t\<close> and \<open>unsigned char\<close>.\<close>

abbreviation to_byte :: "32 word \<Rightarrow> byte" where "to_byte \<equiv> ucast"
abbreviation of_byte :: "byte \<Rightarrow> 32 word" where "of_byte \<equiv> ucast"

section \<open>BitOutputBuffer\<close>

record bit_output_buffer =
  ob_branch_factor :: branch_factor
  ob_buffer :: bytes
  ob_current_pair :: nat
  ob_first_nibble :: bool

definition EncodeFirstByte :: "branch_factor \<Rightarrow> nat \<Rightarrow> byte" where
  "EncodeFirstByte bf depth =
     (let result = (case bf of BF2 \<Rightarrow> 0 | BF4 \<Rightarrow> 1 | BF8 \<Rightarrow> 2 | BF32 \<Rightarrow> 3)
      in result OR of_nat (push_bit 2 depth))"

definition BitOutputBuffer :: "branch_factor \<Rightarrow> nat \<Rightarrow> bit_output_buffer" where
  "BitOutputBuffer bf depth =
     \<lparr>ob_branch_factor = bf, ob_buffer = [EncodeFirstByte bf depth],
      ob_current_pair = 0, ob_first_nibble = True\<rparr>"

definition update_last :: "('a \<Rightarrow> 'a) \<Rightarrow> 'a list \<Rightarrow> 'a list" where
  "update_last f xs = xs[length xs - 1 := f (xs ! (length xs - 1))]"

definition ob_append :: "32 word \<Rightarrow> bit_output_buffer \<Rightarrow> bit_output_buffer" where
  "ob_append v ob =
     (case ob_branch_factor ob of
        BF2 \<Rightarrow>
          if ob_current_pair ob = 0 then
            ob\<lparr>ob_buffer := ob_buffer ob @ [to_byte v AND 3],
               ob_current_pair := Suc (ob_current_pair ob)\<rparr>
          else
            let two_bits = push_bit (2 * ob_current_pair ob) (to_byte (v AND 3));
                pair = Suc (ob_current_pair ob)
            in ob\<lparr>ob_buffer := update_last (\<lambda>b. b OR two_bits) (ob_buffer ob),
                  ob_current_pair := (if pair = 4 then 0 else pair)\<rparr>
      | BF4 \<Rightarrow>
          if ob_first_nibble ob then
            ob\<lparr>ob_buffer := ob_buffer ob @ [to_byte v AND 15], ob_first_nibble := False\<rparr>
          else
            ob\<lparr>ob_buffer := update_last
                 (\<lambda>b. (b AND 15) OR push_bit 4 (to_byte v AND 15)) (ob_buffer ob),
               ob_first_nibble := True\<rparr>
      | BF8 \<Rightarrow> ob\<lparr>ob_buffer := ob_buffer ob @ [to_byte v]\<rparr>
      | BF32 \<Rightarrow>
          ob\<lparr>ob_buffer := ob_buffer ob @
               [to_byte v, to_byte (drop_bit 8 v),
                to_byte (drop_bit 8 (drop_bit 8 v)),
                to_byte (drop_bit 8 (drop_bit 8 (drop_bit 8 v)))]\<rparr>)"

definition ob_to_string :: "bit_output_buffer \<Rightarrow> bytes" where
  "ob_to_string ob = ob_buffer ob"

section \<open>BitInputBuffer\<close>

record bit_input_buffer =
  ib_branch_factor :: branch_factor
  ib_depth :: nat
  ib_bits :: bytes
  ib_current_byte :: nat
  ib_current_pair :: nat
  ib_first_nibble :: bool

definition DecodeBranchFactor :: "bytes \<Rightarrow> branch_factor" where
  "DecodeBranchFactor bits =
     (case bits of [] \<Rightarrow> BF2
      | b # _ \<Rightarrow> if b AND 3 = 0 then BF2 else if b AND 3 = 1 then BF4
               else if b AND 3 = 2 then BF8 else BF32)"

definition DecodeDepth :: "bytes \<Rightarrow> nat" where
  "DecodeDepth bits =
     (case bits of [] \<Rightarrow> 0 | b # _ \<Rightarrow> unat (drop_bit 2 (b AND 0b01111100)))"

definition BitInputBuffer :: "bytes \<Rightarrow> bit_input_buffer" where
  "BitInputBuffer bits =
     \<lparr>ib_branch_factor = DecodeBranchFactor bits, ib_depth = DecodeDepth bits, ib_bits = bits,
      ib_current_byte = 1, ib_current_pair = 0, ib_first_nibble = True\<rparr>"

text \<open>\<open>ClippedSubstr(bits, n)\<close> is \<open>drop n bits\<close>: the offset is clipped to the length.\<close>

definition ib_Remaining :: "bit_input_buffer \<Rightarrow> bytes" where
  "ib_Remaining ib =
     (case ib_branch_factor ib of
        BF2 \<Rightarrow> drop (ib_current_byte ib + (if 0 < ib_current_pair ib then 1 else 0)) (ib_bits ib)
      | BF4 \<Rightarrow> drop (ib_current_byte ib + (if \<not> ib_first_nibble ib then 1 else 0)) (ib_bits ib)
      | BF8 \<Rightarrow> drop (ib_current_byte ib) (ib_bits ib)
      | BF32 \<Rightarrow> drop (ib_current_byte ib) (ib_bits ib))"

text \<open>
  \<^verbatim>\<open>read\<close> returns false (\<open>None\<close>) when the bytes have run out; else the value and the buffer
  behind it. The right shift of the (possibly signed) \<open>char\<close> is followed by a mask of two bits,
  so it can be taken as unsigned.
\<close>

definition ib_read :: "bit_input_buffer \<Rightarrow> (32 word \<times> bit_input_buffer) option" where
  "ib_read ib =
     (let byte = (\<lambda>i. of_byte (ib_bits ib ! (ib_current_byte ib + i)))
      in case ib_branch_factor ib of
        BF2 \<Rightarrow>
          if length (ib_bits ib) \<le> ib_current_byte ib then None
          else
            let v = drop_bit (2 * ib_current_pair ib) (byte 0) AND 3;
                pair = Suc (ib_current_pair ib)
            in Some (v, if pair = 4
                        then ib\<lparr>ib_current_byte := Suc (ib_current_byte ib), ib_current_pair := 0\<rparr>
                        else ib\<lparr>ib_current_pair := pair\<rparr>)
      | BF4 \<Rightarrow>
          if length (ib_bits ib) \<le> ib_current_byte ib then None
          else if ib_first_nibble ib then Some (byte 0 AND 15, ib\<lparr>ib_first_nibble := False\<rparr>)
          else Some (drop_bit 4 (byte 0),
                     ib\<lparr>ib_current_byte := Suc (ib_current_byte ib), ib_first_nibble := True\<rparr>)
      | BF8 \<Rightarrow>
          if length (ib_bits ib) \<le> ib_current_byte ib then None
          else Some (byte 0, ib\<lparr>ib_current_byte := Suc (ib_current_byte ib)\<rparr>)
      | BF32 \<Rightarrow>
          if length (ib_bits ib) \<le> ib_current_byte ib + 3 then None
          else Some (push_bit 24 (byte 3) OR push_bit 16 (byte 2) OR push_bit 8 (byte 1) OR byte 0,
                     ib\<lparr>ib_current_byte := ib_current_byte ib + 4\<rparr>))"

section \<open>The bit stream\<close>

definition byte_bits :: "byte \<Rightarrow> bool list" where
  "byte_bits b = map (bit b) [0..<8]"

definition stream :: "bytes \<Rightarrow> bool list" where
  "stream bs = concat (map byte_bits bs)"

definition node_bits :: "branch_factor \<Rightarrow> 32 word \<Rightarrow> bool list" where
  "node_bits bf v = map (bit v) [0..<kBFNodeSize bf]"

lemma length_byte_bits [simp]: "length (byte_bits b) = 8"
  by (simp add: byte_bits_def)

lemma length_node_bits [simp]: "length (node_bits bf v) = kBFNodeSize bf"
  by (simp add: node_bits_def)

lemma stream_simps [simp]:
  "stream [] = []" "stream (b # bs) = byte_bits b @ stream bs"
  "stream (xs @ ys) = stream xs @ stream ys"
  by (simp_all add: stream_def)

lemma length_stream [simp]: "length (stream bs) = 8 * length bs"
  by (induction bs) auto

lemma drop_stream: "drop (8 * n) (stream bs) = stream (drop n bs)"
proof (induction bs arbitrary: n)
  case Nil
  show ?case by simp
next
  case (Cons b bs)
  show ?case by (cases n) (simp_all add: Cons.IH)
qed

lemma upt_8: "[0..<8] = [0, 1, 2, 3, 4, 5, 6, 7]"
  by (simp add: upt_rec)

lemma upt_32: "[0..<32] = [0, 1, 2, 3, 4, 5, 6, 7, 8, 9, 10, 11, 12, 13, 14, 15, 16, 17, 18, 19,
  20, 21, 22, 23, 24, 25, 26, 27, 28, 29, 30, 31]"
  by (simp add: upt_rec)

lemma upt_2_4: "[0..<2] = [0, 1]" "[0..<4] = [0, 1, 2, 3]"
  by (simp_all add: upt_rec)

lemma bit_3_15 [simp]: "bit (3 :: int) n \<longleftrightarrow> n < 2" "bit (15 :: int) n \<longleftrightarrow> n < 4"
proof -
  have "(3 :: int) = mask 2" "(15 :: int) = mask 4" by (simp_all add: mask_eq_exp_minus_1)
  then show "bit (3 :: int) n \<longleftrightarrow> n < 2" "bit (15 :: int) n \<longleftrightarrow> n < 4"
    by (simp_all only: bit_mask_iff possible_bit_int simp_thms)
qed

section \<open>Writing\<close>

text \<open>
  The bits of the last byte that are still free, and the node bits written so far. A
  well-formed buffer has the header byte and zeros in the free bits.
\<close>

definition ob_free :: "bit_output_buffer \<Rightarrow> nat" where
  "ob_free ob =
     (case ob_branch_factor ob of
        BF2 \<Rightarrow> if ob_current_pair ob = 0 then 0 else 8 - 2 * ob_current_pair ob
      | BF4 \<Rightarrow> if ob_first_nibble ob then 0 else 4
      | _ \<Rightarrow> 0)"

definition ob_ok :: "bit_output_buffer \<Rightarrow> bool" where
  "ob_ok ob \<longleftrightarrow> ob_current_pair ob < 4 \<and> ob_buffer ob \<noteq> [] \<and>
     (0 < ob_free ob \<longrightarrow>
        1 < length (ob_buffer ob) \<and> (\<forall>i. 8 - ob_free ob \<le> i \<longrightarrow> \<not> bit (last (ob_buffer ob)) i))"

definition ob_written :: "bit_output_buffer \<Rightarrow> bool list" where
  "ob_written ob =
     take (8 * length (tl (ob_buffer ob)) - ob_free ob) (stream (tl (ob_buffer ob)))"

lemma update_last_snoc [simp]: "update_last f (xs @ [x]) = xs @ [f x]"
  by (simp add: update_last_def list_update_append)

lemma update_last_Cons_snoc [simp]: "update_last f (h # xs @ [x]) = h # xs @ [f x]"
  using update_last_snoc [of f "h # xs" x] by simp

lemma ob_buffer_cases:
  assumes "ob_ok ob" and "0 < ob_free ob"
  obtains h xs b where "ob_buffer ob = h # xs @ [b]"
    and "\<And>i. 8 - ob_free ob \<le> i \<Longrightarrow> \<not> bit b i"
proof -
  from assms have len: "1 < length (ob_buffer ob)"
    and z: "\<And>i. 8 - ob_free ob \<le> i \<Longrightarrow> \<not> bit (last (ob_buffer ob)) i"
    by (auto simp: ob_ok_def)
  from len obtain h ys where hy: "ob_buffer ob = h # ys" "ys \<noteq> []"
    by (cases "ob_buffer ob") auto
  then have "ob_buffer ob = h # butlast ys @ [last ys]" by simp
  moreover have "\<not> bit (last ys) i" if "8 - ob_free ob \<le> i" for i using z [OF that] hy by simp
  ultimately show ?thesis by (rule that)
qed

lemma ob_append_fresh_byte:
  assumes "tl (ob_buffer ob') = tl (ob_buffer ob) @ [b]" and "ob_free ob = 0"
    and "take (8 - ob_free ob') (byte_bits b) = node_bits bf v" and "ob_free ob' \<le> 8"
  shows "ob_written ob' = ob_written ob @ node_bits bf v"
  using assms by (simp add: ob_written_def)

lemma ob_append_last_byte:
  assumes "ob_buffer ob = h # xs @ [b]" and "ob_buffer ob' = h # xs @ [b']"
    and "ob_free ob' \<le> 8" and "ob_free ob \<le> 8"
    and "take (8 - ob_free ob') (byte_bits b') = take (8 - ob_free ob) (byte_bits b) @ node_bits bf v"
  shows "ob_written ob' = ob_written ob @ node_bits bf v"
  using assms by (simp add: ob_written_def)

lemma less_4_cases:
  "(n::nat) < 4 \<Longrightarrow> n \<noteq> 0 \<Longrightarrow> n = 1 \<or> n = 2 \<or> n = 3"
  by auto

lemma ob_append_BF2:
  assumes ok: "ob_ok ob" and bf: "ob_branch_factor ob = BF2"
  shows "ob_ok (ob_append v ob) \<and> ob_written (ob_append v ob) = ob_written ob @ node_bits BF2 v"
proof (cases "ob_current_pair ob = 0")
  case True
  let ?ob = "ob_append v ob" and ?b = "to_byte v AND 3"
  have eq: "?ob = ob\<lparr>ob_buffer := ob_buffer ob @ [?b], ob_current_pair := 1\<rparr>"
    using True bf by (simp add: ob_append_def)
  have "ob_buffer ob \<noteq> []" using ok by (simp add: ob_ok_def)
  then have "ob_written ?ob = ob_written ob @ node_bits BF2 v"
    by (intro ob_append_fresh_byte [where b = ?b])
      (auto simp: eq ob_free_def bf True byte_bits_def node_bits_def upt_8 upt_2_4 bit_simps)
  moreover have "ob_ok ?ob" using \<open>ob_buffer ob \<noteq> []\<close>
    by (auto simp: ob_ok_def eq ob_free_def bf bit_simps Suc_le_eq)
  ultimately show ?thesis by simp
next
  case False
  from ok have p4: "ob_current_pair ob < 4" by (simp add: ob_ok_def)
  from False p4 have fr: "0 < ob_free ob" "ob_free ob = 8 - 2 * ob_current_pair ob"
    by (auto simp: ob_free_def bf)
  obtain h xs b where buf: "ob_buffer ob = h # xs @ [b]"
    and z: "\<And>i. 8 - ob_free ob \<le> i \<Longrightarrow> \<not> bit b i"
    using ob_buffer_cases [OF ok fr(1)] by blast
  let ?ob = "ob_append v ob"
  let ?p = "ob_current_pair ob" let ?b = "b OR push_bit (2 * ?p) (to_byte (v AND 3))"
  have eq: "?ob = ob\<lparr>ob_buffer := h # xs @ [?b],
      ob_current_pair := (if Suc ?p = 4 then 0 else Suc ?p)\<rparr>"
    using False bf by (simp add: ob_append_def buf Let_def)
  have "ob_written ?ob = ob_written ob @ node_bits BF2 v"
    using less_4_cases [OF p4 False] z
    by (intro ob_append_last_byte [OF buf])
      (auto simp: eq ob_free_def bf byte_bits_def node_bits_def upt_8 upt_2_4 bit_simps fr(2))
  moreover have "ob_ok ?ob"
    using less_4_cases [OF p4 False] z
    by (auto simp: ob_ok_def eq ob_free_def bf bit_simps fr(2))
  ultimately show ?thesis by simp
qed

lemma ob_append_BF4:
  assumes ok: "ob_ok ob" and bf: "ob_branch_factor ob = BF4"
  shows "ob_ok (ob_append v ob) \<and> ob_written (ob_append v ob) = ob_written ob @ node_bits BF4 v"
proof (cases "ob_first_nibble ob")
  case True
  let ?ob = "ob_append v ob" and ?b = "to_byte v AND 15"
  have eq: "?ob = ob\<lparr>ob_buffer := ob_buffer ob @ [?b], ob_first_nibble := False\<rparr>"
    using True bf by (simp add: ob_append_def)
  have "ob_buffer ob \<noteq> []" "ob_current_pair ob < 4" using ok by (simp_all add: ob_ok_def)
  then show ?thesis using ob_append_fresh_byte [of ?ob ob ?b BF4 v]
    by (auto simp: ob_ok_def eq ob_free_def bf True byte_bits_def node_bits_def upt_8 upt_2_4
        bit_simps Suc_le_eq)
next
  case False
  have fr: "ob_free ob = 4" using False by (simp add: ob_free_def bf)
  obtain h xs b where buf: "ob_buffer ob = h # xs @ [b]"
    and z: "\<And>i. 8 - ob_free ob \<le> i \<Longrightarrow> \<not> bit b i"
    using ob_buffer_cases [OF ok] fr by auto
  let ?ob = "ob_append v ob"
  let ?f = "\<lambda>b. (b AND 15) OR push_bit 4 (to_byte v AND 15)"
  have eq: "?ob = ob\<lparr>ob_buffer := h # xs @ [?f b], ob_first_nibble := True\<rparr>"
    using False bf by (simp add: ob_append_def buf)
  have "ob_written ?ob = ob_written ob @ node_bits BF4 v"
    by (intro ob_append_last_byte [OF buf])
      (auto simp: eq ob_free_def bf fr byte_bits_def node_bits_def upt_8 upt_2_4 bit_simps False)
  moreover have "ob_ok ?ob" using ok by (simp add: ob_ok_def eq ob_free_def bf)
  ultimately show ?thesis by simp
qed

lemma ob_append_BF8:
  assumes ok: "ob_ok ob" and bf: "ob_branch_factor ob = BF8"
  shows "ob_ok (ob_append v ob) \<and> ob_written (ob_append v ob) = ob_written ob @ node_bits BF8 v"
proof -
  have "ob_buffer ob \<noteq> []" "ob_current_pair ob < 4" using ok by (simp_all add: ob_ok_def)
  then show ?thesis using ob_append_fresh_byte [of "ob_append v ob" ob "to_byte v" BF8 v]
    by (simp add: ob_ok_def ob_append_def ob_free_def bf byte_bits_def node_bits_def upt_8 bit_simps)
qed

lemma byte_bits_shifted:
  "byte_bits (to_byte (drop_bit k v)) = map (bit v) [k, k + 1, k + 2, k + 3, k + 4, k + 5, k + 6, k + 7]"
  by (simp add: byte_bits_def upt_8 bit_simps add.commute)

lemma ob_append_BF32:
  assumes ok: "ob_ok ob" and bf: "ob_branch_factor ob = BF32"
  shows "ob_ok (ob_append v ob) \<and> ob_written (ob_append v ob) = ob_written ob @ node_bits BF32 v"
proof -
  have ne: "ob_buffer ob \<noteq> []" "ob_current_pair ob < 4" using ok by (simp_all add: ob_ok_def)
  have "byte_bits (to_byte v) @ byte_bits (to_byte (drop_bit 8 v)) @
      byte_bits (to_byte (drop_bit 16 v)) @ byte_bits (to_byte (drop_bit 24 v)) = node_bits BF32 v"
    using byte_bits_shifted [of 0 v]
    by (simp add: byte_bits_shifted node_bits_def upt_32 numeral_2_eq_2)
  then show ?thesis using ne
    by (cases "ob_buffer ob") (simp_all add: ob_ok_def ob_append_def ob_free_def bf ob_written_def)
qed

lemma ob_append_spec:
  assumes "ob_ok ob"
  shows "ob_ok (ob_append v ob)"
    and "ob_written (ob_append v ob) = ob_written ob @ node_bits (ob_branch_factor ob) v"
  using assms ob_append_BF2 ob_append_BF4 ob_append_BF8 ob_append_BF32
  by (cases "ob_branch_factor ob"; simp)+

lemma ob_append_frame [simp]:
  "ob_branch_factor (ob_append v ob) = ob_branch_factor ob"
  by (simp add: ob_append_def Let_def split: branch_factor.split)

section \<open>Reading\<close>

text \<open>The position of the reader in the bit stream, and the values it is well-formed for.\<close>

definition ib_pos :: "bit_input_buffer \<Rightarrow> nat" where
  "ib_pos ib = 8 * ib_current_byte ib + 2 * ib_current_pair ib + (if ib_first_nibble ib then 0 else 4)"

definition ib_ok :: "bit_input_buffer \<Rightarrow> bool" where
  "ib_ok ib \<longleftrightarrow> ib_current_pair ib < 4 \<and>
     (ib_branch_factor ib \<noteq> BF2 \<longrightarrow> ib_current_pair ib = 0) \<and>
     (ib_branch_factor ib \<noteq> BF4 \<longrightarrow> ib_first_nibble ib)"

definition ib_stream :: "bit_input_buffer \<Rightarrow> bool list" where
  "ib_stream ib = drop (ib_pos ib) (stream (ib_bits ib))"

lemma length_ib_stream [simp]: "length (ib_stream ib) = 8 * length (ib_bits ib) - ib_pos ib"
  by (simp add: ib_stream_def)

lemma stream_at:
  assumes "n < length bs"
  shows "drop (8 * n + j) (stream bs) = drop j (byte_bits (bs ! n) @ stream (drop (Suc n) bs))"
proof -
  have "drop (8 * n) (stream bs) = stream (drop n bs)" by (rule drop_stream)
  also have "drop n bs = bs ! n # drop (Suc n) bs" using assms by (simp add: Cons_nth_drop_Suc)
  finally have eq: "drop (8 * n) (stream bs) = byte_bits (bs ! n) @ stream (drop (Suc n) bs)" by simp
  have "drop (8 * n + j) (stream bs) = drop j (drop (8 * n) (stream bs))" by (simp add: add.commute)
  with eq show ?thesis by simp
qed

lemma byte_high_bit [simp]: "8 \<le> n \<Longrightarrow> \<not> bit (b :: byte) n"
  using bit_imp_le_length [of b n] by auto

lemma bit_pair:
  assumes "p < 4"
  shows "node_bits BF2 (drop_bit (2 * p) (of_byte b) AND 3) = take 2 (drop (2 * p) (byte_bits b))"
proof -
  from assms consider "p = 0" | "p = 1" | "p = 2" | "p = 3" by linarith
  then show ?thesis by cases (simp_all add: byte_bits_def node_bits_def upt_8 upt_2_4 bit_simps)
qed

lemma bit_nibble:
  "node_bits BF4 (of_byte b AND 15) = take 4 (byte_bits b)"
  "node_bits BF4 (drop_bit 4 (of_byte b)) = take 4 (drop 4 (byte_bits b))"
  by (simp_all add: byte_bits_def node_bits_def upt_8 upt_2_4 bit_simps)

lemma bit_byte: "node_bits BF8 (of_byte b) = byte_bits b"
  by (simp add: byte_bits_def node_bits_def upt_8 bit_simps)

lemma bit_bytes4:
  "node_bits BF32 (push_bit 24 (of_byte b3) OR push_bit 16 (of_byte b2) OR push_bit 8 (of_byte b1)
     OR of_byte b0) = byte_bits b0 @ byte_bits b1 @ byte_bits b2 @ byte_bits b3"
  by (simp add: byte_bits_def node_bits_def upt_8 upt_32 bit_simps)

definition fits :: "branch_factor \<Rightarrow> 32 word \<Rightarrow> bool" where
  "fits bf v \<longleftrightarrow> (\<forall>i. kBFNodeSize bf \<le> i \<longrightarrow> \<not> bit v i)"

text \<open>
  One read: it fails when fewer bits than one node are left, else it returns the next node and
  moves past it.
\<close>

lemma ib_read_spec:
  assumes ok: "ib_ok ib" and rd: "ib_read ib = Some (v, ib')"
  shows "ib_ok ib'" "ib_pos ib' = ib_pos ib + kBFNodeSize (ib_branch_factor ib)"
    "node_bits (ib_branch_factor ib) v = take (kBFNodeSize (ib_branch_factor ib)) (ib_stream ib)"
    "fits (ib_branch_factor ib) v" "ib_bits ib' = ib_bits ib"
    "ib_branch_factor ib' = ib_branch_factor ib" "ib_depth ib' = ib_depth ib"
    "kBFNodeSize (ib_branch_factor ib) \<le> length (ib_stream ib)"
proof -
  have "ib_ok ib' \<and> ib_pos ib' = ib_pos ib + kBFNodeSize (ib_branch_factor ib) \<and>
    node_bits (ib_branch_factor ib) v = take (kBFNodeSize (ib_branch_factor ib)) (ib_stream ib) \<and>
    fits (ib_branch_factor ib) v \<and> ib_bits ib' = ib_bits ib \<and>
    ib_branch_factor ib' = ib_branch_factor ib \<and> ib_depth ib' = ib_depth ib \<and>
    kBFNodeSize (ib_branch_factor ib) \<le> length (ib_stream ib)"
  proof (cases "ib_branch_factor ib")
    case BF2
    with ok have p: "ib_current_pair ib < 4" "ib_first_nibble ib" by (simp_all add: ib_ok_def)
    from rd BF2 have lt: "ib_current_byte ib < length (ib_bits ib)"
      and v: "v = drop_bit (2 * ib_current_pair ib) (of_byte (ib_bits ib ! ib_current_byte ib)) AND 3"
      and ib': "ib' = (if Suc (ib_current_pair ib) = 4
                       then ib\<lparr>ib_current_byte := Suc (ib_current_byte ib), ib_current_pair := 0\<rparr>
                       else ib\<lparr>ib_current_pair := Suc (ib_current_pair ib)\<rparr>)"
      by (auto simp: ib_read_def Let_def split: if_splits)
    have "ib_stream ib = drop (2 * ib_current_pair ib)
        (byte_bits (ib_bits ib ! ib_current_byte ib) @ stream (drop (Suc (ib_current_byte ib)) (ib_bits ib)))"
      using lt p by (simp only: ib_stream_def ib_pos_def if_True add_0_right stream_at)
    moreover have "2 * ib_current_pair ib + 2 \<le> 8" using p by simp
    ultimately have st: "take 2 (ib_stream ib) = take 2 (drop (2 * ib_current_pair ib) (byte_bits (ib_bits ib ! ib_current_byte ib)))"
      by simp
    have "fits BF2 v" by (simp add: fits_def v bit_simps)
    then show ?thesis using st lt p BF2 bit_pair [OF p(1)]
      by (auto simp: ib' v ib_ok_def ib_pos_def)
  next
    case BF4
    with ok have p: "ib_current_pair ib = 0" by (simp add: ib_ok_def)
    from rd BF4 have lt: "ib_current_byte ib < length (ib_bits ib)"
      by (auto simp: ib_read_def Let_def split: if_splits)
    have st: "ib_stream ib = drop (if ib_first_nibble ib then 0 else 4)
        (byte_bits (ib_bits ib ! ib_current_byte ib) @ stream (drop (Suc (ib_current_byte ib)) (ib_bits ib)))"
      using lt p stream_at [OF lt] by (simp add: ib_stream_def ib_pos_def)
    have f: "fits BF4 (of_byte b AND 15)" "fits BF4 (drop_bit 4 (of_byte b))" for b
      by (simp_all add: fits_def bit_simps)
    show ?thesis using rd st lt p BF4 bit_nibble [of "ib_bits ib ! ib_current_byte ib"] f
      by (auto simp: ib_read_def ib_ok_def ib_pos_def split: if_splits)
  next
    case BF8
    with ok have p: "ib_current_pair ib = 0" "ib_first_nibble ib" by (simp_all add: ib_ok_def)
    from rd BF8 have lt: "ib_current_byte ib < length (ib_bits ib)"
      by (auto simp: ib_read_def Let_def split: if_splits)
    have st: "ib_stream ib = byte_bits (ib_bits ib ! ib_current_byte ib) @ stream (drop (Suc (ib_current_byte ib)) (ib_bits ib))"
      using lt p stream_at [OF lt, of 0] by (simp add: ib_stream_def ib_pos_def)
    have f: "fits BF8 (of_byte b)" for b by (simp add: fits_def bit_simps)
    show ?thesis using rd st lt p BF8 bit_byte f
      by (auto simp: ib_read_def ib_ok_def ib_pos_def split: if_splits)
  next
    case BF32
    with ok have p: "ib_current_pair ib = 0" "ib_first_nibble ib" by (simp_all add: ib_ok_def)
    from rd BF32 have lt: "ib_current_byte ib + 3 < length (ib_bits ib)"
      by (auto simp: ib_read_def Let_def split: if_splits)
    then have "drop (ib_current_byte ib) (ib_bits ib) =
        ib_bits ib ! ib_current_byte ib # ib_bits ib ! (ib_current_byte ib + 1) #
        ib_bits ib ! (ib_current_byte ib + 2) # ib_bits ib ! (ib_current_byte ib + 3) #
        drop (ib_current_byte ib + 4) (ib_bits ib)"
      by (simp add: Cons_nth_drop_Suc [symmetric] numeral_eq_Suc)
    then have st: "take 32 (ib_stream ib) = byte_bits (ib_bits ib ! ib_current_byte ib) @
        byte_bits (ib_bits ib ! (ib_current_byte ib + 1)) @ byte_bits (ib_bits ib ! (ib_current_byte ib + 2)) @
        byte_bits (ib_bits ib ! (ib_current_byte ib + 3))"
      using p by (simp add: ib_stream_def ib_pos_def drop_stream)
    have f: "fits BF32 w" for w by (auto simp: fits_def dest: bit_imp_le_length)
    show ?thesis using rd st lt p BF32 bit_bytes4 f
      by (auto simp: ib_read_def ib_ok_def ib_pos_def split: if_splits)
  qed
  then show "ib_ok ib'" "ib_pos ib' = ib_pos ib + kBFNodeSize (ib_branch_factor ib)"
    "node_bits (ib_branch_factor ib) v = take (kBFNodeSize (ib_branch_factor ib)) (ib_stream ib)"
    "fits (ib_branch_factor ib) v" "ib_bits ib' = ib_bits ib"
    "ib_branch_factor ib' = ib_branch_factor ib" "ib_depth ib' = ib_depth ib"
    "kBFNodeSize (ib_branch_factor ib) \<le> length (ib_stream ib)"
    by blast+
qed

lemma ib_read_None:
  assumes ok: "ib_ok ib"
  shows "ib_read ib = None \<longleftrightarrow> length (ib_stream ib) < kBFNodeSize (ib_branch_factor ib)"
  using ok
  by (cases "ib_branch_factor ib") (auto simp: ib_read_def ib_ok_def ib_pos_def Let_def)

lemma ib_stream_read:
  assumes "ib_ok ib" and "ib_read ib = Some (v, ib')"
  shows "ib_stream ib' = drop (kBFNodeSize (ib_branch_factor ib)) (ib_stream ib)"
  using ib_read_spec(2,5) [OF assms] by (simp add: ib_stream_def add.commute)

section \<open>Interfaces: a sink and a source of nodes\<close>

text \<open>
  What the encoder relies on: writing appends a (normalised) value to the contents. What the
  decoder relies on: reading takes the first of the pending values, and fails exactly when there
  is none.
\<close>

locale node_sink =
  fixes put :: "'v \<Rightarrow> 'w \<Rightarrow> 'w"
    and ok :: "'w \<Rightarrow> bool"
    and contents :: "'w \<Rightarrow> 'n list"
    and norm :: "'w \<Rightarrow> 'v \<Rightarrow> 'n"
  assumes put_ok: "ok w \<Longrightarrow> ok (put v w)"
    and contents_put: "ok w \<Longrightarrow> contents (put v w) = contents w @ [norm w v]"
    and norm_put: "ok w \<Longrightarrow> norm (put v w) = norm w"
begin

lemma put_all_ok: "ok w \<Longrightarrow> ok (fold put vs w)"
  by (induction vs arbitrary: w) (auto simp: put_ok)

lemma contents_put_all: "ok w \<Longrightarrow> contents (fold put vs w) = contents w @ map (norm w) vs"
  by (induction vs arbitrary: w) (auto simp: put_ok contents_put norm_put)

end

fun get_many :: "('r \<Rightarrow> ('v \<times> 'r) option) \<Rightarrow> nat \<Rightarrow> 'r \<Rightarrow> ('v list \<times> 'r) option" where
  "get_many get 0 r = Some ([], r)"
| "get_many get (Suc n) r =
     (case get r of None \<Rightarrow> None
      | Some (v, r') \<Rightarrow>
          (case get_many get n r' of None \<Rightarrow> None | Some (vs, r'') \<Rightarrow> Some (v # vs, r'')))"

locale node_source =
  fixes get :: "'r \<Rightarrow> ('v \<times> 'r) option"
    and ok :: "'r \<Rightarrow> bool"
    and pending :: "'r \<Rightarrow> 'n list"
    and val :: "'v \<Rightarrow> 'n"
  assumes get_None: "ok r \<Longrightarrow> get r = None \<longleftrightarrow> pending r = []"
    and get_Some: "ok r \<Longrightarrow> get r = Some (v, r') \<Longrightarrow> pending r = val v # pending r' \<and> ok r'"
begin

lemma get_Cons:
  assumes "ok r" and "pending r = n # ns"
  obtains v r' where "get r = Some (v, r')" and "val v = n" and "pending r' = ns" and "ok r'"
  using assms get_None [of r] get_Some [of r] by (cases "get r") auto

lemma get_many_Some:
  "ok r \<Longrightarrow> n \<le> length (pending r) \<Longrightarrow>
   \<exists>vs r'. get_many get n r = Some (vs, r') \<and> map val vs = take n (pending r) \<and>
     pending r' = drop n (pending r) \<and> ok r'"
proof (induction n arbitrary: r)
  case 0
  then show ?case by simp
next
  case (Suc n)
  obtain x xs where x: "pending r = x # xs" using Suc.prems(2) by (cases "pending r") auto
  obtain v r' where v: "get r = Some (v, r')" "val v = x" "pending r' = xs" "ok r'"
    using get_Cons [OF Suc.prems(1) x] by blast
  have "n \<le> length (pending r')" using Suc.prems(2) x v by simp
  then obtain vs r'' where "get_many get n r' = Some (vs, r'')" "map val vs = take n (pending r')"
    "pending r'' = drop n (pending r')" "ok r''"
    using Suc.IH [OF v(4)] by blast
  with v x show ?case by auto
qed

lemma get_many_None:
  assumes "ok r" and "length (pending r) < n"
  shows "get_many get n r = None"
  using assms
proof (induction n arbitrary: r)
  case 0
  then show ?case by simp
next
  case (Suc n)
  then show ?case using get_None [of r] get_Some [of r]
    by (cases "get r") (auto split: option.split)
qed

end

section \<open>The buffers provide the interfaces\<close>

text \<open>The nodes in a bit list: the values of its full chunks.\<close>

function chunks :: "nat \<Rightarrow> 'a list \<Rightarrow> 'a list list" where
  "chunks n xs = (if n = 0 \<or> length xs < n then [] else take n xs # chunks n (drop n xs))"
  by pat_completeness auto
termination by (relation "measure (\<lambda>(n, xs). length xs)") auto

declare chunks.simps [simp del]

lemma chunks_append: "length xs = n \<Longrightarrow> 0 < n \<Longrightarrow> chunks n (xs @ ys) = xs # chunks n ys"
  by (subst chunks.simps) simp

lemma chunks_short: "length xs < n \<Longrightarrow> chunks n xs = []"
  by (subst chunks.simps) simp

lemma chunks_snoc:
  assumes "n dvd length xs" and "length ys = n" and "0 < n"
  shows "chunks n (xs @ ys) = chunks n xs @ [ys]"
  using assms
proof (induction n xs rule: chunks.induct)
  case (1 n xs)
  show ?case
  proof (cases "xs = []")
    case True
    with 1 show ?thesis using chunks_append [of ys n "[]"] by (simp add: chunks_short)
  next
    case False
    with "1.prems" have le: "n \<le> length xs" by (simp add: dvd_imp_le)
    then have "chunks n (drop n xs @ ys) = chunks n (drop n xs) @ [ys]"
      using 1 by simp
    with le "1.prems"(3) show ?thesis
      by (simp add: chunks.simps [of n "xs @ ys"] chunks.simps [of n xs])
  qed
qed

definition nodes_in :: "branch_factor \<Rightarrow> bool list \<Rightarrow> nat list" where
  "nodes_in bf bits = map bits_value (chunks (kBFNodeSize bf) bits)"

definition ob_nodes :: "bit_output_buffer \<Rightarrow> nat list" where
  "ob_nodes ob = nodes_in (ob_branch_factor ob) (ob_written ob)"

definition ob_wf :: "bit_output_buffer \<Rightarrow> bool" where
  "ob_wf ob \<longleftrightarrow> ob_ok ob \<and> kBFNodeSize (ob_branch_factor ob) dvd length (ob_written ob)"

definition node_value :: "branch_factor \<Rightarrow> 32 word \<Rightarrow> nat" where
  "node_value bf v = take_bit (kBFNodeSize bf) (unat v)"

definition ib_nodes :: "bit_input_buffer \<Rightarrow> nat list" where
  "ib_nodes ib = nodes_in (ib_branch_factor ib) (ib_stream ib)"

lemma bits_value_node_bits: "bits_value (node_bits bf v) = node_value bf v"
proof -
  have "node_bits bf v = low_bits (kBFNodeSize bf) (unat v)"
    by (simp add: node_bits_def low_bits_def bit_unsigned_iff)
  then show ?thesis by (simp add: bits_value_low_bits node_value_def)
qed

lemma fits_value: "fits bf v \<Longrightarrow> node_value bf v = unat v"
  unfolding node_value_def fits_def
  by (rule bit_eqI) (auto simp: bit_take_bit_iff bit_unsigned_iff not_le)

interpretation sink: node_sink ob_append ob_wf ob_nodes "\<lambda>ob. node_value (ob_branch_factor ob)"
proof unfold_locales
  fix w :: bit_output_buffer and v :: "32 word"
  assume "ob_wf w"
  then have ok: "ob_ok w" and dv: "kBFNodeSize (ob_branch_factor w) dvd length (ob_written w)"
    by (simp_all add: ob_wf_def)
  show "ob_wf (ob_append v w)"
    using ok dv ob_append_spec [OF ok, of v] by (simp add: ob_wf_def)
  show "ob_nodes (ob_append v w) = ob_nodes w @ [node_value (ob_branch_factor w) v]"
    using ok dv ob_append_spec [OF ok, of v]
    by (simp add: ob_nodes_def nodes_in_def chunks_snoc bits_value_node_bits)
  show "node_value (ob_branch_factor (ob_append v w)) = node_value (ob_branch_factor w)"
    by simp
qed

interpretation source: node_source ib_read ib_ok ib_nodes unat
proof unfold_locales
  fix r r' :: bit_input_buffer and v :: "32 word"
  assume ok: "ib_ok r"
  show "ib_read r = None \<longleftrightarrow> ib_nodes r = []"
    using ib_read_None [OF ok]
    by (simp add: ib_nodes_def nodes_in_def chunks.simps [of _ "ib_stream r"] del: length_ib_stream)
  assume rd: "ib_read r = Some (v, r')"
  note spec = ib_read_spec [OF ok rd]
  have "chunks (kBFNodeSize (ib_branch_factor r)) (ib_stream r) =
      take (kBFNodeSize (ib_branch_factor r)) (ib_stream r) #
      chunks (kBFNodeSize (ib_branch_factor r)) (ib_stream r')"
    using spec(8) ib_stream_read [OF ok rd]
    by (subst chunks.simps) (simp del: length_ib_stream add: not_less)
  then show "ib_nodes r = unat v # ib_nodes r' \<and> ib_ok r'"
    using spec(1,4,6) bits_value_node_bits [of "ib_branch_factor r" v]
    by (simp add: ib_nodes_def nodes_in_def fits_value spec(3))
qed

section \<open>Round trip\<close>

definition header_code :: "branch_factor \<Rightarrow> byte" where
  "header_code bf = (case bf of BF2 \<Rightarrow> 0 | BF4 \<Rightarrow> 1 | BF8 \<Rightarrow> 2 | BF32 \<Rightarrow> 3)"

lemma header_code_high:
  assumes "bit (header_code bf) n" shows "n < 2"
proof (rule ccontr)
  assume n: "\<not> n < 2"
  have "header_code bf = take_bit 2 (header_code bf)"
    by (cases bf) (simp_all add: header_code_def take_bit_eq_mask mask_eq_exp_minus_1)
  then have "bit (header_code bf) n = bit (take_bit 2 (header_code bf)) n" by (rule arg_cong)
  then show False unfolding bit_take_bit_iff using n assms by blast
qed

lemma EncodeFirstByte_bits:
  "EncodeFirstByte bf d = header_code bf OR of_nat (push_bit 2 d)"
  by (simp add: EncodeFirstByte_def header_code_def)

lemma bit_124: "bit (124 :: byte) n \<longleftrightarrow> 2 \<le> n \<and> n < 7"
proof -
  have "(124 :: byte) = push_bit 2 (mask 5)" by (simp add: mask_eq_exp_minus_1)
  then have "bit (124 :: byte) n = bit (push_bit 2 (mask 5) :: byte) n" by (rule arg_cong)
  then show ?thesis by (auto simp: bit_push_bit_iff bit_mask_iff)
qed

lemma bit_3_byte: "bit (3 :: byte) n \<longleftrightarrow> n < 2"
proof -
  have "(3 :: byte) = mask 2" by (simp add: mask_eq_exp_minus_1)
  then have "bit (3 :: byte) n = bit (mask 2 :: byte) n" by (rule arg_cong)
  then show ?thesis by (auto simp: bit_mask_iff)
qed

lemma DecodeBranchFactor_header [simp]:
  "DecodeBranchFactor (EncodeFirstByte bf d # bs) = bf"
proof -
  have "EncodeFirstByte bf d AND 3 = header_code bf"
    by (rule bit_word_eqI)
      (auto simp: EncodeFirstByte_bits bit_and_iff bit_or_iff bit_3_byte bit_of_nat_iff
        bit_push_bit_iff dest: header_code_high)
  then show ?thesis by (cases bf) (simp_all add: DecodeBranchFactor_def header_code_def)
qed

lemma DecodeDepth_header [simp]:
  assumes "d < 32" shows "DecodeDepth (EncodeFirstByte bf d # bs) = d"
proof -
  have hi: "i < 5" if "bit d i" for i
  proof (rule ccontr)
    assume "\<not> i < 5"
    then have "\<not> bit (take_bit 5 d) i" by (simp add: bit_take_bit_iff)
    moreover have "take_bit 5 d = d" using assms by (simp add: take_bit_nat_eq_self)
    ultimately show False using that by simp
  qed
  have "unat (drop_bit 2 (EncodeFirstByte bf d AND 124)) = d"
  proof (rule bit_eqI)
    fix n
    show "bit (unat (drop_bit 2 (EncodeFirstByte bf d AND 124))) n = bit d n"
      unfolding bit_unsigned_iff bit_drop_bit_eq comp_def bit_and_iff bit_124 EncodeFirstByte_bits
        bit_or_iff bit_of_nat_iff bit_push_bit_iff
      by (auto dest: header_code_high hi)
  qed
  then show ?thesis by (simp add: DecodeDepth_def)
qed

lemma ob_append_hd_last:
  "ob_buffer ob = h # xs @ [b] \<Longrightarrow> hd (ob_buffer (ob_append v ob)) = h"
  by (cases "ob_branch_factor ob"; simp add: ob_append_def Let_def)

lemma ob_append_hd:
  assumes "ob_ok ob" shows "hd (ob_buffer (ob_append v ob)) = hd (ob_buffer ob)"
proof (cases "0 < ob_free ob")
  case True
  obtain h xs b where buf: "ob_buffer ob = h # xs @ [b]"
    by (rule ob_buffer_cases [OF assms True])
  show ?thesis by (simp only: ob_append_hd_last [OF buf]) (simp add: buf)
next
  case False
  then have "ob_current_pair ob = 0 \<or> ob_branch_factor ob \<noteq> BF2" "ob_first_nibble ob \<or> ob_branch_factor ob \<noteq> BF4"
    using assms by (auto simp: ob_free_def ob_ok_def)
  moreover have "ob_buffer ob \<noteq> []" using assms by (simp add: ob_ok_def)
  ultimately show ?thesis by (auto simp: ob_append_def Let_def split: branch_factor.split)
qed

definition write_nodes :: "branch_factor \<Rightarrow> nat \<Rightarrow> 32 word list \<Rightarrow> bit_output_buffer" where
  "write_nodes bf depth vs = fold ob_append vs (BitOutputBuffer bf depth)"

lemma BitOutputBuffer_wf: "ob_wf (BitOutputBuffer bf d)"
  by (cases bf) (simp_all add: ob_wf_def ob_ok_def BitOutputBuffer_def ob_free_def ob_written_def)

lemma ob_nodes_start: "ob_nodes (BitOutputBuffer bf d) = []"
  by (simp add: ob_nodes_def nodes_in_def ob_written_def BitOutputBuffer_def chunks_short)

lemma fold_ob_append_frame:
  "ob_ok ob \<Longrightarrow> ob_branch_factor (fold ob_append vs ob) = ob_branch_factor ob \<and>
     hd (ob_buffer (fold ob_append vs ob)) = hd (ob_buffer ob) \<and>
     length (ob_written (fold ob_append vs ob)) =
       length (ob_written ob) + length vs * kBFNodeSize (ob_branch_factor ob)"
  by (induction vs arbitrary: ob) (auto simp: ob_append_spec ob_append_hd)

lemma write_nodes_spec:
  shows "ob_wf (write_nodes bf d vs)" "ob_branch_factor (write_nodes bf d vs) = bf"
    "hd (ob_buffer (write_nodes bf d vs)) = EncodeFirstByte bf d"
    "length (ob_written (write_nodes bf d vs)) = length vs * kBFNodeSize bf"
    "ob_nodes (write_nodes bf d vs) = map (node_value bf) vs"
proof -
  let ?ob = "BitOutputBuffer bf d"
  have ok: "ob_ok ?ob" using BitOutputBuffer_wf by (simp add: ob_wf_def)
  have start: "ob_branch_factor ?ob = bf" "hd (ob_buffer ?ob) = EncodeFirstByte bf d" "ob_written ?ob = []"
    by (simp_all add: BitOutputBuffer_def ob_written_def)
  show "ob_wf (write_nodes bf d vs)"
    unfolding write_nodes_def by (intro sink.put_all_ok BitOutputBuffer_wf)
  show "ob_nodes (write_nodes bf d vs) = map (node_value bf) vs"
    using sink.contents_put_all [OF BitOutputBuffer_wf, of vs bf d]
    by (simp add: write_nodes_def ob_nodes_start start)
  show "ob_branch_factor (write_nodes bf d vs) = bf"
    "hd (ob_buffer (write_nodes bf d vs)) = EncodeFirstByte bf d"
    "length (ob_written (write_nodes bf d vs)) = length vs * kBFNodeSize bf"
    using fold_ob_append_frame [OF ok, of vs] by (simp_all add: write_nodes_def start)
qed

lemma ob_free_less: "ob_current_pair ob < 4 \<Longrightarrow> ob_free ob < 8"
  by (cases "ob_branch_factor ob") (auto simp: ob_free_def)

lemma chunks_append_dvd:
  assumes "n dvd length xs" and "0 < n"
  shows "chunks n (xs @ ys) = chunks n xs @ chunks n ys"
  using assms
proof (induction n xs rule: chunks.induct)
  case (1 n xs)
  show ?case
  proof (cases "xs = []")
    case True
    with 1 show ?thesis by (simp add: chunks_short)
  next
    case False
    with "1.prems" have le: "n \<le> length xs" by (simp add: dvd_imp_le)
    then have "chunks n (drop n xs @ ys) = chunks n (drop n xs) @ chunks n ys" using 1 by simp
    with le "1.prems"(2) show ?thesis
      by (simp add: chunks.simps [of n "xs @ ys"] chunks.simps [of n xs])
  qed
qed

text \<open>
  The written nodes fill the buffer up to the last byte. A reader opened on a written buffer, with
  any bytes behind it, has the written nodes pending.
\<close>

lemma write_nodes_length:
  "(8 + length vs * kBFNodeSize bf + 7) div 8 = length (ob_to_string (write_nodes bf d vs))"
proof -
  let ?ob = "write_nodes bf d vs"
  note w = write_nodes_spec [of bf d vs]
  from w(1) have ok: "ob_ok ?ob" by (simp add: ob_wf_def)
  then have ne: "ob_buffer ?ob \<noteq> []" by (simp add: ob_ok_def)
  have fr: "ob_free ?ob < 8" using ok by (intro ob_free_less) (simp add: ob_ok_def)
  have "length vs * kBFNodeSize bf = 8 * length (tl (ob_buffer ?ob)) - ob_free ?ob"
    using w(4) by (simp add: ob_written_def)
  moreover have "ob_free ?ob \<le> 8 * length (tl (ob_buffer ?ob))"
    using ok fr by (cases "0 < ob_free ?ob") (auto simp: ob_ok_def)
  ultimately have "8 + length vs * kBFNodeSize bf + 7 = 8 * length (ob_buffer ?ob) + (7 - ob_free ?ob)"
    using fr ne by (cases "ob_buffer ?ob") auto
  then show ?thesis by (simp add: ob_to_string_def)
qed

lemma reader_on_written:
  fixes bf :: branch_factor and vs :: "32 word list" and rest :: bytes
  assumes "d < 32"
  defines "ob \<equiv> write_nodes bf d vs"
  defines "ib \<equiv> BitInputBuffer (ob_to_string ob @ rest)"
  shows "ib_ok ib" "ib_branch_factor ib = bf" "ib_depth ib = d"
    "ib_pos ib = 8" "ib_bits ib = ob_to_string ob @ rest"
    "\<exists>more. ib_nodes ib = map (node_value bf) vs @ more"
proof -
  note w = write_nodes_spec [of bf d vs, folded ob_def]
  from w(1) have ok: "ob_ok ob" by (simp add: ob_wf_def)
  then have ne: "ob_buffer ob \<noteq> []" by (simp add: ob_ok_def)
  then have buf: "ob_buffer ob = EncodeFirstByte bf d # tl (ob_buffer ob)"
    using w(3) by (metis list.collapse)
  show "ib_ok ib" "ib_pos ib = 8" "ib_bits ib = ob_to_string ob @ rest"
    by (simp_all add: ib_def BitInputBuffer_def ib_ok_def ib_pos_def)
  show bf: "ib_branch_factor ib = bf"
    unfolding ib_def BitInputBuffer_def ob_to_string_def by (subst buf) (simp add: assms(1))
  show "ib_depth ib = d"
    unfolding ib_def BitInputBuffer_def ob_to_string_def by (subst buf) (simp add: assms(1))
  have "ib_stream ib = drop 8 (stream (EncodeFirstByte bf d # tl (ob_buffer ob) @ rest))"
    unfolding ib_stream_def ib_def BitInputBuffer_def ib_pos_def ob_to_string_def
    by (subst buf) simp
  also have "\<dots> = stream (tl (ob_buffer ob) @ rest)" by simp
  also have "\<dots> = ob_written ob @
      (drop (8 * length (tl (ob_buffer ob)) - ob_free ob) (stream (tl (ob_buffer ob))) @ stream rest)"
    by (simp add: ob_written_def)
  finally have st: "ib_stream ib = ob_written ob @
      (drop (8 * length (tl (ob_buffer ob)) - ob_free ob) (stream (tl (ob_buffer ob))) @ stream rest)" .
  have "kBFNodeSize bf dvd length (ob_written ob)" using w(4) by simp
  then have "ib_nodes ib = ob_nodes ob @ nodes_in bf (drop (8 * length (tl (ob_buffer ob)) - ob_free ob)
      (stream (tl (ob_buffer ob))) @ stream rest)"
    unfolding ib_nodes_def bf st ob_nodes_def w(2) nodes_in_def by (simp add: chunks_append_dvd)
  then show "\<exists>more. ib_nodes ib = map (node_value bf) vs @ more" using w(5) by simp
qed

lemma ib_Remaining_pos:
  "ib_ok ib \<Longrightarrow> ib_Remaining ib = drop ((ib_pos ib + 7) div 8) (ib_bits ib)"
proof -
  have "(8 * n + 2 * p + 7) div 8 = n + (if 0 < p then 1 else 0)" if "p < 4" for n p :: nat
    using that by auto
  then show "ib_ok ib \<Longrightarrow> ib_Remaining ib = drop ((ib_pos ib + 7) div 8) (ib_bits ib)"
    by (cases "ib_branch_factor ib") (auto simp: ib_ok_def ib_Remaining_def ib_pos_def)
qed

lemma get_many_frame:
  "ib_ok ib \<Longrightarrow> get_many ib_read n ib = Some (vs, ib') \<Longrightarrow>
     ib_bits ib' = ib_bits ib \<and> ib_branch_factor ib' = ib_branch_factor ib \<and>
     ib_pos ib' = ib_pos ib + n * kBFNodeSize (ib_branch_factor ib)"
proof (induction n arbitrary: ib vs)
  case 0
  then show ?case by simp
next
  case (Suc n)
  from Suc.prems(2) obtain v ib1 ws where rd: "ib_read ib = Some (v, ib1)"
    and rest: "get_many ib_read n ib1 = Some (ws, ib')"
    by (auto split: option.splits)
  show ?case using Suc.IH [OF ib_read_spec(1) [OF Suc.prems(1) rd] rest] ib_read_spec [OF Suc.prems(1) rd]
    by simp
qed

lemma bit_buffer_roundtrip_aux:
  assumes "d < 32"
  shows "\<exists>ws ib'. get_many ib_read (length vs)
        (BitInputBuffer (ob_to_string (write_nodes bf d vs) @ rest)) = Some (ws, ib') \<and>
      map unat ws = map (node_value bf) vs \<and> ib_Remaining ib' = rest"
proof -
  let ?s = "ob_to_string (write_nodes bf d vs)" let ?ib = "BitInputBuffer (?s @ rest)"
  note r = reader_on_written [OF assms, where bf = bf and vs = vs and rest = rest]
  from r(6) obtain more where nodes: "ib_nodes ?ib = map (node_value bf) vs @ more" by blast
  then obtain ws ib' where get: "get_many ib_read (length vs) ?ib = Some (ws, ib')"
    and vals: "map unat ws = take (length vs) (ib_nodes ?ib)" and ok: "ib_ok ib'"
    using source.get_many_Some [OF r(1), of "length vs"] by auto
  have pos: "ib_pos ib' = 8 + length vs * kBFNodeSize bf" and bits: "ib_bits ib' = ?s @ rest"
    using get_many_frame [OF r(1) get] r by simp_all
  have "ib_Remaining ib' = rest"
    using ib_Remaining_pos [OF ok] write_nodes_length [of vs bf d] by (simp add: pos bits)
  with get vals nodes show ?thesis by simp
qed

end
