(* ===== verification/Sparse_Bit_Set.thy ===== *)
theory Sparse_Bit_Set
  imports Int_Set Bit_Buffer "HOL-Library.AList"
begin

text \<open>
  \<^verbatim>\<open>ift/common/sparse_bit_set.cc\<close>: the encoder and decoder of sparse bit sets.

  A \<open>vector<uint32_t>\<close> is a list, \<open>uint32_t\<close> and \<open>uint64_t\<close> values are natural numbers with
  their truncation written out where the code can reach it, and the
  \<open>unordered_map\<close> of filled levels is an association list. The encoder's reads that C++ leaves
  undefined or that throw (\<open>node_bases[i]\<close> out of range, dereferencing \<open>find()\<close> of an absent
  key, \<open>at()\<close> of an absent key) are \<open>None\<close>; that none of them happens is proved in
  \<^verbatim>\<open>Sparse_Encode\<close>.
\<close>

section \<open>Tree shape\<close>

lemma drop_bit_less:
  assumes "0 < k" and "m \<noteq> 0" shows "drop_bit k m < (m :: nat)"
proof -
  have "1 < (2::nat) ^ k" using assms(1) by (intro one_less_power) simp_all
  then show ?thesis using assms(2) unfolding drop_bit_eq_div by (intro div_less_dividend) simp_all
qed

function TreeDepth_loop :: "branch_factor \<Rightarrow> nat \<Rightarrow> nat \<Rightarrow> nat" where
  "TreeDepth_loop bf m depth =
     (if m = 0 then depth else TreeDepth_loop bf (drop_bit (kBFNodeSizeLog2 bf) m) (Suc depth))"
  by pat_completeness auto
termination by (relation "measure (\<lambda>(bf, m, depth). m)") (simp_all add: drop_bit_less)

declare TreeDepth_loop.simps [simp del]

definition TreeDepthFor :: "nat \<Rightarrow> branch_factor \<Rightarrow> nat" where
  "TreeDepthFor max_value bf = TreeDepth_loop bf (drop_bit (kBFNodeSizeLog2 bf) max_value) 1"

definition TreeDepthFor_vector :: "nat list \<Rightarrow> branch_factor \<Rightarrow> nat" where
  "TreeDepthFor_vector codepoints bf = TreeDepthFor (codepoints ! (length codepoints - 1)) bf"

definition ValuesPerBitLog2ForLayer :: "nat \<Rightarrow> nat \<Rightarrow> branch_factor \<Rightarrow> nat" where
  "ValuesPerBitLog2ForLayer layer tree_depth bf =
     (let num_layers = int tree_depth - int layer - 1
      in nat (int (kBFNodeSizeLog2 bf) * num_layers mod 256))"

section \<open>Decoding\<close>

record decode_state =
  d_bits :: bit_input_buffer
  d_out :: int_set
  d_next :: "nat list"
  d_pending :: "nat list"

definition Decode_bit :: "branch_factor \<Rightarrow> bool \<Rightarrow> nat \<Rightarrow> nat \<Rightarrow> nat \<Rightarrow> decode_state \<Rightarrow> decode_state" where
  "Decode_bit bf leaf current_node_bits node_base bit_index s =
     (if and current_node_bits (push_bit bit_index 1) \<noteq> 0 then
        if leaf then s\<lparr>d_pending := d_pending s @ [or node_base bit_index]\<rparr>
        else s\<lparr>d_next := d_next s @
                 [push_bit (kBFNodeSizeLog2 bf) (or node_base bit_index) mod TWO32]\<rparr>
      else s)"

text \<open>
  The loop over the nodes of one level. \<open>Inl out\<close> is the early return when the node bits have
  run out: the caller's set keeps what was inserted before.
\<close>

fun Decode_nodes ::
  "branch_factor \<Rightarrow> bool \<Rightarrow> nat \<Rightarrow> nat \<Rightarrow> nat list \<Rightarrow> decode_state \<Rightarrow> int_set + decode_state" where
  "Decode_nodes bf leaf leaf_node_size node_base_factor [] s = Inr s"
| "Decode_nodes bf leaf leaf_node_size node_base_factor (node_base # node_bases) s =
     (case ib_read (d_bits s) of
        None \<Rightarrow> Inl (d_out s)
      | Some (v, bits) \<Rightarrow>
          let current_node_bits = unat v; s = s\<lparr>d_bits := bits\<rparr> in
          if current_node_bits = 0 then
            let leaf_node_base = (node_base * node_base_factor) mod TWO32 in
            Decode_nodes bf leaf leaf_node_size node_base_factor node_bases
              (s\<lparr>d_out := IntSet_insert_range leaf_node_base
                           ((leaf_node_base + leaf_node_size - 1) mod TWO32) (d_out s)\<rparr>)
          else
            Decode_nodes bf leaf leaf_node_size node_base_factor node_bases
              (fold (Decode_bit bf leaf current_node_bits node_base) [0..<kBFNodeSize bf] s))"

fun Decode_levels ::
  "branch_factor \<Rightarrow> nat \<Rightarrow> nat list \<Rightarrow> nat \<Rightarrow> nat \<Rightarrow> nat list \<Rightarrow> decode_state \<Rightarrow> int_set + decode_state" where
  "Decode_levels bf tree_height [] leaf_node_size node_base_factor node_bases s = Inr s"
| "Decode_levels bf tree_height (level # levels) leaf_node_size node_base_factor node_bases s =
     (case Decode_nodes bf (level = tree_height - 1) leaf_node_size node_base_factor node_bases s of
        Inl out \<Rightarrow> Inl out
      | Inr s \<Rightarrow>
          Decode_levels bf tree_height levels (drop_bit (kBFNodeSizeLog2 bf) leaf_node_size)
            (drop_bit (kBFNodeSizeLog2 bf) node_base_factor) (d_next s) (s\<lparr>d_next := []\<rparr>))"

text \<open>\<open>Decode bytes out\<close>: the status or the remaining bytes, and the caller's set afterwards.\<close>

definition Decode :: "bytes \<Rightarrow> int_set \<Rightarrow> bytes status_or \<times> int_set" where
  "Decode sparse_bit_set out =
     (if sparse_bit_set = [] then (Inr sparse_bit_set, out)
      else
        let bits = BitInputBuffer sparse_bit_set;
            branch_factor = ib_branch_factor bits;
            tree_height = ib_depth bits
        in if kBFMaxDepth branch_factor < tree_height then (Inl InvalidArgumentError, out)
           else
             let leaf_node_size = push_bit (kBFNodeSizeLog2 branch_factor * tree_height) 1;
                 node_base_factor = drop_bit (kBFNodeSizeLog2 branch_factor) leaf_node_size
             in case Decode_levels branch_factor tree_height [0..<tree_height] leaf_node_size
                       node_base_factor [0]
                       \<lparr>d_bits = bits, d_out = out, d_next = [], d_pending = []\<rparr> of
                  Inl out \<Rightarrow> (Inl InvalidArgumentError, out)
                | Inr s \<Rightarrow>
                    (Inr (ib_Remaining (d_bits s)),
                     if d_pending s \<noteq> [] then IntSet_insert_sorted_array (d_pending s) (d_out s)
                     else d_out s))"

section \<open>Filled twigs and nodes\<close>

record twig_scan =
  ts_prev_cp :: nat
  ts_seq_len :: nat
  ts_filled_twigs :: "nat list"

definition FindFilledTwigs_step :: "branch_factor \<Rightarrow> nat \<Rightarrow> twig_scan \<Rightarrow> twig_scan" where
  "FindFilledTwigs_step bf cp s =
     (let seq = (if cp = (ts_prev_cp s + 1) mod TWO32 then ts_seq_len s + 1 else 1);
          last_value_in_twig = (and cp (kBFTwigSizeBitMask bf) = kBFTwigSizeBitMask bf)
      in if last_value_in_twig then
           \<lparr>ts_prev_cp = cp, ts_seq_len = 0,
            ts_filled_twigs = (if seq = kBFTwigSize bf
                            then ts_filled_twigs s @ [drop_bit (kBFTwigSizeLog2 bf) cp]
                            else ts_filled_twigs s)\<rparr>
         else \<lparr>ts_prev_cp = cp, ts_seq_len = seq, ts_filled_twigs = ts_filled_twigs s\<rparr>)"

definition FindFilledTwigs :: "nat list \<Rightarrow> branch_factor \<Rightarrow> nat list" where
  "FindFilledTwigs codepoints bf =
     ts_filled_twigs (fold (FindFilledTwigs_step bf) codepoints
       \<lparr>ts_prev_cp = UINT32_MAX - 1, ts_seq_len = 0, ts_filled_twigs = []\<rparr>)"

type_synonym filled_levels = "(nat \<times> nat) list"

text \<open>\<open>map[key]\<close> inserts a zero when the key is absent; \<open>find(key)->second = v\<close> needs it present.\<close>

definition map_index :: "filled_levels \<Rightarrow> nat \<Rightarrow> filled_levels \<times> nat" where
  "map_index m k = (case map_of m k of None \<Rightarrow> (AList.update k 0 m, 0) | Some v \<Rightarrow> (m, v))"

definition find_assign :: "nat \<Rightarrow> nat \<Rightarrow> filled_levels \<Rightarrow> filled_levels option" where
  "find_assign v k m = (case map_of m k of None \<Rightarrow> None | Some _ \<Rightarrow> Some (AList.update k v m))"

fun find_assign_all :: "nat \<Rightarrow> nat list \<Rightarrow> filled_levels \<Rightarrow> filled_levels option" where
  "find_assign_all v [] m = Some m"
| "find_assign_all v (k # ks) m = Option.bind (find_assign v k m) (find_assign_all v ks)"

record node_scan =
  ns_prev_twig :: nat
  ns_twig_seq_len :: nat
  ns_num_merged_nodes :: nat
  ns_levels :: filled_levels

definition FindFilledNodes_step ::
  "nat \<Rightarrow> nat \<Rightarrow> nat \<Rightarrow> nat \<Rightarrow> node_scan \<Rightarrow> node_scan option" where
  "FindFilledNodes_step layer node_size node_size_bit_mask twig s =
     (let target_level = layer + 1;
          (m, filled_level) = map_index (ns_levels s) twig;
          seq = (if twig = (ns_prev_twig s + 1) mod TWO32 \<and> filled_level = target_level
                 then ns_twig_seq_len s + 1
                 else if filled_level = target_level then 1 else 0);
          last_value_in_twig = (and twig node_size_bit_mask = node_size_bit_mask)
      in if last_value_in_twig then
           if seq = node_size then
             Option.bind (find_assign_all layer [twig + 1 - node_size..<twig + 1] m)
               (\<lambda>m. Some \<lparr>ns_prev_twig = twig, ns_twig_seq_len = 0,
                         ns_num_merged_nodes = ns_num_merged_nodes s + 1, ns_levels = m\<rparr>)
           else Some \<lparr>ns_prev_twig = twig, ns_twig_seq_len = 0,
                      ns_num_merged_nodes = ns_num_merged_nodes s, ns_levels = m\<rparr>
         else Some \<lparr>ns_prev_twig = twig, ns_twig_seq_len = seq,
                    ns_num_merged_nodes = ns_num_merged_nodes s, ns_levels = m\<rparr>)"

fun FindFilledNodes_scan ::
  "nat \<Rightarrow> nat \<Rightarrow> nat \<Rightarrow> nat list \<Rightarrow> node_scan \<Rightarrow> node_scan option" where
  "FindFilledNodes_scan layer node_size node_mask [] s = Some s"
| "FindFilledNodes_scan layer node_size node_mask (twig # twigs) s =
     Option.bind (FindFilledNodes_step layer node_size node_mask twig s)
       (FindFilledNodes_scan layer node_size node_mask twigs)"

fun FindFilledNodes_layers ::
  "branch_factor \<Rightarrow> nat list \<Rightarrow> nat list \<Rightarrow> nat \<Rightarrow> nat \<Rightarrow> filled_levels \<Rightarrow> filled_levels option" where
  "FindFilledNodes_layers bf twigs [] node_size node_mask m = Some m"
| "FindFilledNodes_layers bf twigs (layer # layers) node_size node_mask m =
     Option.bind
       (FindFilledNodes_scan layer node_size node_mask twigs
          \<lparr>ns_prev_twig = UINT32_MAX - 1, ns_twig_seq_len = 0, ns_num_merged_nodes = 0, ns_levels = m\<rparr>)
       (\<lambda>s. if ns_num_merged_nodes s < kBFNodeSize bf then Some (ns_levels s)
            else FindFilledNodes_layers bf twigs layers
                   (push_bit (kBFNodeSizeLog2 bf) node_size mod TWO32)
                   (or (push_bit (kBFNodeSizeLog2 bf) node_mask mod TWO32) (kBFNodeSizeBitMask bf))
                   (ns_levels s))"

definition FindFilledNodes :: "branch_factor \<Rightarrow> nat \<Rightarrow> nat list \<Rightarrow> filled_levels option" where
  "FindFilledNodes bf tree_height filled_twigs =
     (if tree_height < 2 \<or> filled_twigs = [] then Some []
      else FindFilledNodes_layers bf filled_twigs (rev [0..<tree_height - 2]) (kBFNodeSize bf)
             (kBFNodeSizeBitMask bf)
             (fold (\<lambda>twig. AList.update twig (tree_height - 2)) filled_twigs []))"

section \<open>The per layer state machine\<close>

datatype encode_state = START | BUILDING_NORMAL_NODE | SKIPPING_FILLED_NODE | END | ERROR

datatype encode_symbol_type =
  NEW_NORMAL_NODE | EXISTING_NORMAL_NODE | NEW_FILLED_NODE | EXISTING_FILLED_NODE
| END_OF_VALUES | INVALID

type_synonym encode_symbol = "encode_symbol_type \<times> nat"

abbreviation kInvalidCp :: nat where "kInvalidCp \<equiv> UINT32_MAX"

definition kEndOfValues :: encode_symbol where
  "kEndOfValues = (END_OF_VALUES, kInvalidCp)"

record encode_context =
  ctx_layer :: nat
  ctx_branch_factor :: branch_factor
  ctx_tree_height :: nat
  ctx_values_per_bit_log_2 :: nat
  ctx_node_size :: nat
  ctx_filled_levels :: filled_levels
  ctx_node_bases :: "nat list"
  ctx_next_node_base :: nat
  ctx_node_base :: nat
  ctx_node_max :: nat
  ctx_node_mask :: nat
  ctx_filled_max :: nat
  ctx_next_node_bases :: "nat list"
  ctx_bit_buffer :: bit_output_buffer

definition OverrideIfFilled :: "nat \<Rightarrow> encode_context \<Rightarrow> encode_symbol_type" where
  "OverrideIfFilled cp ctx =
     (let twig = drop_bit (kBFTwigSizeLog2 (ctx_branch_factor ctx)) cp
      in case map_of (ctx_filled_levels ctx) twig of
           None \<Rightarrow> NEW_NORMAL_NODE
         | Some filled_level \<Rightarrow>
             if ctx_layer ctx = filled_level then NEW_FILLED_NODE
             else if filled_level < ctx_layer ctx then EXISTING_FILLED_NODE
             else NEW_NORMAL_NODE)"

definition ParseCodepoint :: "nat \<Rightarrow> encode_state \<Rightarrow> encode_context \<Rightarrow> encode_symbol" where
  "ParseCodepoint cp state ctx =
     (case state of
        START \<Rightarrow> (OverrideIfFilled cp ctx, cp)
      | BUILDING_NORMAL_NODE \<Rightarrow>
          (if cp \<le> ctx_node_max ctx then EXISTING_NORMAL_NODE else OverrideIfFilled cp ctx, cp)
      | SKIPPING_FILLED_NODE \<Rightarrow>
          (if cp \<le> ctx_filled_max ctx then EXISTING_FILLED_NODE else OverrideIfFilled cp ctx, cp)
      | END \<Rightarrow> (INVALID, kInvalidCp)
      | ERROR \<Rightarrow> (INVALID, kInvalidCp))"

text \<open>\<open>node_bases[next_node_base++]\<close>\<close>

definition take_node_base :: "encode_context \<Rightarrow> (nat \<times> encode_context) option" where
  "take_node_base ctx =
     (if ctx_next_node_base ctx < length (ctx_node_bases ctx)
      then Some (ctx_node_bases ctx ! ctx_next_node_base ctx,
                 ctx\<lparr>ctx_next_node_base := ctx_next_node_base ctx + 1\<rparr>)
      else None)"

definition StartFilledNode :: "encode_context \<Rightarrow> encode_context option" where
  "StartFilledNode ctx =
     Option.bind (take_node_base ctx)
       (\<lambda>(node_base, ctx). Some
          (ctx\<lparr>ctx_bit_buffer := ob_append 0 (ctx_bit_buffer ctx),
               ctx_filled_max := (node_base + ctx_node_size ctx - 1) mod TWO32\<rparr>))"

text \<open>
  The loop of \<^verbatim>\<open>SkipExistingFilledNode\<close>: it moves past filled nodes until it meets a twig that
  is not part of one. It ends because every round but the last lands on a larger key.
\<close>

function SkipExisting_loop ::
  "branch_factor \<Rightarrow> nat \<Rightarrow> nat \<Rightarrow> filled_levels \<Rightarrow> nat \<Rightarrow> nat option" where
  "SkipExisting_loop bf tree_height layer m twig =
     (case map_of m twig of
        None \<Rightarrow> None
      | Some filled_depth \<Rightarrow>
          let twig' = twig + push_bit ((tree_height - filled_depth - 2) * kBFNodeSizeLog2 bf) 1
          in (case map_of m twig' of
               None \<Rightarrow> Some twig'
             | Some d \<Rightarrow> (if d < layer then SkipExisting_loop bf tree_height layer m twig'
                          else Some twig')))"
  by pat_completeness auto
termination
proof (relation "measure (\<lambda>(bf, h, l, m, twig). card {k \<in> dom (map_of m). twig < k})")
  fix bf :: branch_factor and h l twig fd tw' d :: nat and m :: filled_levels
  assume "map_of m twig = Some fd" and tw': "tw' = twig + push_bit ((h - fd - 2) * kBFNodeSizeLog2 bf) 1"
    and d: "map_of m tw' = Some d"
  have lt: "twig < tw'" by (simp add: tw' push_bit_eq_mult)
  have "{k \<in> dom (map_of m). tw' < k} \<subset> {k \<in> dom (map_of m). twig < k}"
    using lt d by auto
  then show "((bf, h, l, m, tw'), (bf, h, l, m, twig))
      \<in> measure (\<lambda>(bf, h, l, m, twig). card {k \<in> dom (map_of m). twig < k})"
    by (simp add: psubset_card_mono finite_dom_map_of)
qed simp

declare SkipExisting_loop.simps [simp del]

definition SkipExistingFilledNode :: "nat \<Rightarrow> encode_context \<Rightarrow> encode_context option" where
  "SkipExistingFilledNode cp ctx =
     Option.bind
       (SkipExisting_loop (ctx_branch_factor ctx) (ctx_tree_height ctx) (ctx_layer ctx)
          (ctx_filled_levels ctx) (drop_bit (kBFTwigSizeLog2 (ctx_branch_factor ctx)) cp))
       (\<lambda>twig. Some (ctx\<lparr>ctx_filled_max :=
          sub32 (push_bit (kBFTwigSizeLog2 (ctx_branch_factor ctx)) twig mod TWO32) 1\<rparr>))"

definition EndNormalNode :: "encode_context \<Rightarrow> encode_context" where
  "EndNormalNode ctx =
     ctx\<lparr>ctx_bit_buffer := ob_append (of_nat (ctx_node_mask ctx)) (ctx_bit_buffer ctx),
         ctx_node_mask := 0, ctx_node_base := kInvalidCp, ctx_node_max := kInvalidCp,
         ctx_filled_max := kInvalidCp\<rparr>"

definition UpdateNodeBit :: "nat \<Rightarrow> encode_context \<Rightarrow> encode_context" where
  "UpdateNodeBit cp ctx =
     (let bit_index = drop_bit (ctx_values_per_bit_log_2 ctx) (sub32 cp (ctx_node_base ctx));
          cp_mask = push_bit bit_index 1
      in if and (ctx_node_mask ctx) cp_mask = 0 then
           ctx\<lparr>ctx_node_mask := or (ctx_node_mask ctx) cp_mask,
               ctx_next_node_bases :=
                 (if 0 < ctx_values_per_bit_log_2 ctx
                  then ctx_next_node_bases ctx @
                    [or (ctx_node_base ctx) (push_bit (ctx_values_per_bit_log_2 ctx) bit_index)]
                  else ctx_next_node_bases ctx)\<rparr>
         else ctx)"

definition StartNewNormalNode :: "nat \<Rightarrow> encode_context \<Rightarrow> encode_context option" where
  "StartNewNormalNode cp ctx =
     Option.bind (take_node_base ctx)
       (\<lambda>(node_base, ctx). Some (UpdateNodeBit cp
          (ctx\<lparr>ctx_node_base := node_base, ctx_node_max := node_base + ctx_node_size ctx - 1,
               ctx_filled_max := kInvalidCp\<rparr>)))"

definition UpdateNormalNode :: "nat \<Rightarrow> encode_context \<Rightarrow> encode_context" where
  "UpdateNormalNode cp ctx = UpdateNodeBit cp ctx"

text \<open>\<open>to st e\<close>: the state \<open>st\<close> with the context that \<open>e\<close> computes.\<close>

definition goto :: "encode_state \<Rightarrow> encode_context option \<Rightarrow> (encode_state \<times> encode_context) option" where
  "goto st e = Option.bind e (\<lambda>ctx. Some (st, ctx))"

definition UpdateState ::
  "encode_state \<Rightarrow> encode_symbol \<Rightarrow> encode_context \<Rightarrow> (encode_state \<times> encode_context) option" where
  "UpdateState state input ctx =
     (if fst input = INVALID \<or> state = ERROR \<or> state = END then Some (ERROR, ctx)
      else case state of
        START \<Rightarrow>
          (case fst input of
             NEW_NORMAL_NODE \<Rightarrow> goto BUILDING_NORMAL_NODE (StartNewNormalNode (snd input) ctx)
           | NEW_FILLED_NODE \<Rightarrow> goto SKIPPING_FILLED_NODE (StartFilledNode ctx)
           | EXISTING_FILLED_NODE \<Rightarrow>
               goto SKIPPING_FILLED_NODE (SkipExistingFilledNode (snd input) ctx)
           | _ \<Rightarrow> Some (ERROR, ctx))
      | BUILDING_NORMAL_NODE \<Rightarrow>
          (case fst input of
             NEW_NORMAL_NODE \<Rightarrow>
               goto BUILDING_NORMAL_NODE (StartNewNormalNode (snd input) (EndNormalNode ctx))
           | EXISTING_NORMAL_NODE \<Rightarrow>
               Some (BUILDING_NORMAL_NODE, UpdateNormalNode (snd input) ctx)
           | NEW_FILLED_NODE \<Rightarrow> goto SKIPPING_FILLED_NODE (StartFilledNode (EndNormalNode ctx))
           | EXISTING_FILLED_NODE \<Rightarrow>
               goto SKIPPING_FILLED_NODE (SkipExistingFilledNode (snd input) (EndNormalNode ctx))
           | END_OF_VALUES \<Rightarrow> Some (END, EndNormalNode ctx)
           | _ \<Rightarrow> Some (ERROR, ctx))
      | SKIPPING_FILLED_NODE \<Rightarrow>
          (case fst input of
             NEW_NORMAL_NODE \<Rightarrow> goto BUILDING_NORMAL_NODE (StartNewNormalNode (snd input) ctx)
           | NEW_FILLED_NODE \<Rightarrow> goto SKIPPING_FILLED_NODE (StartFilledNode ctx)
           | EXISTING_FILLED_NODE \<Rightarrow> Some (SKIPPING_FILLED_NODE, ctx)
           | END_OF_VALUES \<Rightarrow> Some (END, ctx)
           | _ \<Rightarrow> Some (ERROR, ctx))
      | _ \<Rightarrow> Some (ERROR, ctx))"

fun EncodeLayer_loop ::
  "nat list \<Rightarrow> encode_state \<times> encode_context \<Rightarrow> (encode_state \<times> encode_context) option" where
  "EncodeLayer_loop [] sc = Some sc"
| "EncodeLayer_loop (cp # cps) (state, ctx) =
     Option.bind (UpdateState state (ParseCodepoint cp state ctx) ctx) (EncodeLayer_loop cps)"

definition EncodeLayer ::
  "nat list \<Rightarrow> nat \<Rightarrow> nat \<Rightarrow> branch_factor \<Rightarrow> filled_levels \<Rightarrow> nat list \<Rightarrow> nat list \<Rightarrow>
   bit_output_buffer \<Rightarrow> (nat list \<times> bit_output_buffer) option" where
  "EncodeLayer codepoints layer tree_height bf filled_levels node_bases next_node_bases bit_buffer =
     (let vpb = ValuesPerBitLog2ForLayer layer tree_height bf;
          ctx = \<lparr>ctx_layer = layer, ctx_branch_factor = bf, ctx_tree_height = tree_height,
                 ctx_values_per_bit_log_2 = vpb, ctx_node_size = push_bit vpb (kBFNodeSize bf),
                 ctx_filled_levels = filled_levels, ctx_node_bases = node_bases,
                 ctx_next_node_base = 0, ctx_node_base = kInvalidCp, ctx_node_max = kInvalidCp,
                 ctx_node_mask = 0, ctx_filled_max = kInvalidCp,
                 ctx_next_node_bases = next_node_bases, ctx_bit_buffer = bit_buffer\<rparr>
      in Option.bind (EncodeLayer_loop codepoints (START, ctx))
           (\<lambda>(state, ctx). Option.bind (UpdateState state kEndOfValues ctx)
              (\<lambda>(_, ctx). Some (ctx_next_node_bases ctx, ctx_bit_buffer ctx))))"

section \<open>Encoding\<close>

fun EncodeSet_layers ::
  "nat list \<Rightarrow> nat \<Rightarrow> branch_factor \<Rightarrow> filled_levels \<Rightarrow> nat list \<Rightarrow> nat list \<Rightarrow> bit_output_buffer \<Rightarrow>
   bit_output_buffer option" where
  "EncodeSet_layers codepoints tree_height bf fl [] node_bases bit_buffer = Some bit_buffer"
| "EncodeSet_layers codepoints tree_height bf fl (layer # layers) node_bases bit_buffer =
     Option.bind (EncodeLayer codepoints layer tree_height bf fl node_bases [] bit_buffer)
       (\<lambda>(next_node_bases, bit_buffer).
          if next_node_bases = [] then Some bit_buffer
          else EncodeSet_layers codepoints tree_height bf fl layers next_node_bases bit_buffer)"

definition EncodeSet :: "nat list \<Rightarrow> branch_factor \<Rightarrow> nat list \<Rightarrow> bytes option" where
  "EncodeSet codepoints bf filled_twigs =
     (if codepoints = [] then Some [0]
      else
        let tree_height = TreeDepthFor_vector codepoints bf
        in Option.bind (FindFilledNodes bf tree_height filled_twigs)
             (\<lambda>fl. Option.bind
                (EncodeSet_layers codepoints tree_height bf fl [0..<tree_height] [0]
                   (BitOutputBuffer bf tree_height))
                (\<lambda>bit_buffer. Some (ob_to_string bit_buffer))))"

text \<open>\<^verbatim>\<open>SparseBitSet::Encode(set, branch_factor)\<close>.\<close>

definition Encode_with :: "int_set \<Rightarrow> branch_factor \<Rightarrow> bytes option" where
  "Encode_with s bf =
     (let tree_depth = TreeDepthFor (case IntSet_max s of None \<Rightarrow> UINT32_MAX | Some v \<Rightarrow> v) bf;
          bf = (if kBFMaxDepth bf < tree_depth \<and> bf = BF2 then BF4 else bf)
      in if IntSet_is_empty s then Some [0]
         else let codepoints = to_vector s
              in EncodeSet codepoints bf (FindFilledTwigs codepoints bf))"

end
