(* ===== verification/Sparse_Filled.thy ===== *)
theory Sparse_Filled
  imports Sparse_Bit_Set
begin

text \<open>
  The depth of the tree and the search for completely filled nodes: \<^verbatim>\<open>TreeDepthFor\<close> finds the
  least depth that holds a value, \<^verbatim>\<open>FindFilledTwigs\<close> finds exactly the twigs all of whose
  values are in the set, and the levels \<^verbatim>\<open>FindFilledNodes\<close> computes mark whole nodes, all of
  whose twigs are filled.
\<close>

section \<open>Depth\<close>

lemma TreeDepth_loop_spec:
  "\<exists>k. TreeDepth_loop bf m d = d + k \<and> m < 2 ^ (kBFNodeSizeLog2 bf * k) \<and>
     (0 < k \<longrightarrow> 2 ^ (kBFNodeSizeLog2 bf * (k - 1)) \<le> m)"
proof (induction bf m d rule: TreeDepth_loop.induct)
  case (1 bf m d)
  let ?w = "kBFNodeSizeLog2 bf"
  show ?case
  proof (cases "m = 0")
    case True
    then have "TreeDepth_loop bf m d = d" by (subst TreeDepth_loop.simps) simp
    with True show ?thesis by (intro exI [of _ 0]) simp
  next
    case False
    then obtain k where k: "TreeDepth_loop bf (drop_bit ?w m) (Suc d) = Suc d + k"
      "drop_bit ?w m < 2 ^ (?w * k)" "0 < k \<longrightarrow> 2 ^ (?w * (k - 1)) \<le> drop_bit ?w m"
      using 1 by blast
    have "m < 2 ^ (?w * Suc k)"
      using k(2) by (simp add: drop_bit_eq_div div_less_iff_less_mult power_add mult.commute)
    moreover have "2 ^ (?w * k) \<le> m"
    proof (cases k)
      case 0
      with False show ?thesis by simp
    next
      case (Suc j)
      with k(3) have "2 ^ (?w * j) \<le> m div 2 ^ ?w" by (simp add: drop_bit_eq_div)
      then have "2 ^ (?w * j) * 2 ^ ?w \<le> m"
        by (metis div_mult_mod_eq le_add1 le_trans mult_le_mono1)
      with Suc show ?thesis by (simp add: power_add mult.commute)
    qed
    ultimately show ?thesis using False k(1)
      by (intro exI [of _ "Suc k"]) (simp add: TreeDepth_loop.simps [of bf m d])
  qed
qed

lemma TreeDepthFor_pos: "1 \<le> TreeDepthFor m bf"
  using TreeDepth_loop_spec [of bf "drop_bit (kBFNodeSizeLog2 bf) m" 1]
  by (auto simp: TreeDepthFor_def)

lemma TreeDepthFor_upper: "m < 2 ^ (kBFNodeSizeLog2 bf * TreeDepthFor m bf)"
proof -
  let ?w = "kBFNodeSizeLog2 bf"
  obtain k where k: "TreeDepthFor m bf = 1 + k" "drop_bit ?w m < 2 ^ (?w * k)"
    using TreeDepth_loop_spec [of bf "drop_bit ?w m" 1] by (auto simp: TreeDepthFor_def)
  then show ?thesis
    by (simp add: drop_bit_eq_div div_less_iff_less_mult power_add mult.commute)
qed

lemma TreeDepthFor_lower:
  assumes "1 < TreeDepthFor m bf"
  shows "2 ^ (kBFNodeSizeLog2 bf * (TreeDepthFor m bf - 1)) \<le> m"
proof -
  let ?w = "kBFNodeSizeLog2 bf"
  obtain k where k: "TreeDepthFor m bf = 1 + k" "0 < k \<longrightarrow> 2 ^ (?w * (k - 1)) \<le> drop_bit ?w m"
    using TreeDepth_loop_spec [of bf "drop_bit ?w m" 1] by (auto simp: TreeDepthFor_def)
  with assms obtain j where j: "k = Suc j" by (cases k) auto
  with k have "2 ^ (?w * j) \<le> m div 2 ^ ?w" by (simp add: drop_bit_eq_div)
  then have "2 ^ (?w * j) * 2 ^ ?w \<le> m"
    by (metis div_mult_mod_eq le_add1 le_trans mult_le_mono1)
  with k j show ?thesis by (simp add: power_add mult.commute)
qed

text \<open>The depth of a 32 bit value is within the limits, but for \<open>BF2\<close> and the top half.\<close>

lemma TreeDepthFor_max:
  assumes "m < 2 ^ 32" and "bf = BF2 \<Longrightarrow> m < 2 ^ 31"
  shows "TreeDepthFor m bf \<le> kBFMaxDepth bf"
proof (rule ccontr)
  assume big: "\<not> TreeDepthFor m bf \<le> kBFMaxDepth bf"
  then have gt: "1 < TreeDepthFor m bf" by (cases bf) auto
  have "kBFNodeSizeLog2 bf * kBFMaxDepth bf \<le> kBFNodeSizeLog2 bf * (TreeDepthFor m bf - 1)"
    using big by (intro mult_le_mono2) linarith
  then have "(2::nat) ^ (kBFNodeSizeLog2 bf * kBFMaxDepth bf) \<le> 2 ^ (kBFNodeSizeLog2 bf * (TreeDepthFor m bf - 1))"
    by (intro power_increasing) simp_all
  also have "\<dots> \<le> m" using TreeDepthFor_lower [OF gt] .
  finally show False using assms by (cases bf) auto
qed

lemma max_depth_twigs: "h \<le> kBFMaxDepth bf \<Longrightarrow> kBFNodeSizeLog2 bf * (h - 2) \<le> 30"
  by (cases bf) auto

section \<open>Filled twigs\<close>

definition complete :: "nat \<Rightarrow> nat set \<Rightarrow> nat \<Rightarrow> bool" where
  "complete T P t \<longleftrightarrow> {t * T..<t * T + T} \<subseteq> P"

text \<open>
  The scan after a prefix \<open>P\<close> of the code points whose last one is \<open>c\<close>: the current run ends at
  \<open>c\<close>, does not reach over the start of the twig of \<open>c\<close>, and covers all of the twig so far if
  the twig so far is in the prefix.
\<close>

definition twig_scan_inv :: "nat \<Rightarrow> nat list \<Rightarrow> twig_scan \<Rightarrow> bool" where
  "twig_scan_inv T p s \<longleftrightarrow>
     set (ts_filled_twigs s) = {t. complete T (set p) t} \<and>
     sorted_wrt (<) (ts_filled_twigs s) \<and>
     (if p = [] then ts_prev_cp s = UINT32_MAX - 1 \<and> ts_seq_len s = 0
      else ts_prev_cp s = last p \<and>
        (if Suc (last p) mod T = 0 then ts_seq_len s = 0
         else 1 \<le> ts_seq_len s \<and> ts_seq_len s \<le> last p mod T + 1 \<and>
           {last p + 1 - ts_seq_len s..last p} \<subseteq> set p \<and>
           ({last p - last p mod T..last p} \<subseteq> set p \<longrightarrow> ts_seq_len s = last p mod T + 1)))"

text \<open>The run length after one more code point.\<close>

lemma twig_run_step:
  fixes T c :: nat
  assumes inv: "twig_scan_inv T p s" and T: "1 < T" and c: "c < TWO32"
    and sorted: "sorted_wrt (<) (p @ [c])"
    and seq: "seq = (if c = (ts_prev_cp s + 1) mod TWO32 then ts_seq_len s + 1 else 1)"
  shows "1 \<le> seq \<and> seq \<le> c mod T + 1 \<and> {c + 1 - seq..c} \<subseteq> set (p @ [c]) \<and>
    ({c - c mod T..c} \<subseteq> set (p @ [c]) \<longrightarrow> seq = c mod T + 1)"
proof -
  have gt: "\<forall>x\<in>set p. x < c" using sorted by (simp add: sorted_wrt_less_snoc)
  show ?thesis
proof (cases "p = []")
  case True
  with inv have "ts_seq_len s = 0" by (simp add: twig_scan_inv_def)
  then have s1: "seq = 1" using seq by simp
  have "seq = c mod T + 1" if "{c - c mod T..c} \<subseteq> {c}"
  proof -
    have "c - c mod T \<in> {c - c mod T..c}" by simp
    then have "c - c mod T = c" using that by blast
    moreover have "c mod T \<le> c" by simp
    ultimately have "c mod T = 0" by linarith
    with s1 show ?thesis by simp
  qed
  with s1 True show ?thesis by auto
next
  case False
  define d where "d = last p"
  have d: "d \<in> set p" "d < c" using False gt by (auto simp: d_def)
  from inv False have prev: "ts_prev_cp s = d"
    and run: "if Suc d mod T = 0 then ts_seq_len s = 0
         else 1 \<le> ts_seq_len s \<and> ts_seq_len s \<le> d mod T + 1 \<and>
           {d + 1 - ts_seq_len s..d} \<subseteq> set p \<and>
           ({d - d mod T..d} \<subseteq> set p \<longrightarrow> ts_seq_len s = d mod T + 1)"
    unfolding twig_scan_inv_def if_not_P [OF False] d_def by blast+
  have modd: "(d + 1) mod TWO32 = d + 1" using d c by simp
  show ?thesis
  proof (cases "c = d + 1")
    case True
    then have seqe: "seq = ts_seq_len s + 1" using seq prev modd by simp
    show ?thesis
    proof (cases "Suc d mod T = 0")
      case t: True
      then have "ts_seq_len s = 0" using run by simp
      with seqe True t show ?thesis by auto
    next
      case nt: False
      then have cm: "c mod T = d mod T + 1" using True by (auto simp: mod_Suc split: if_splits)
      have sub: "{d + 1 - ts_seq_len s..d} \<subseteq> set p" and le: "ts_seq_len s \<le> d mod T + 1"
        and full: "{d - d mod T..d} \<subseteq> set p \<longrightarrow> ts_seq_len s = d mod T + 1"
        using run nt by simp_all
      have eq1: "c + 1 - seq = d + 1 - ts_seq_len s" using seqe True by simp
      have eq2: "c - c mod T = d - d mod T" using cm True by simp
      have "{c + 1 - seq..c} \<subseteq> set (p @ [c])"
        using sub True unfolding eq1 by (auto simp: le_Suc_eq)
      moreover have "seq = c mod T + 1" if "{c - c mod T..c} \<subseteq> set (p @ [c])"
      proof -
        have "{d - d mod T..d} \<subseteq> set p"
          using that True gt unfolding eq2 by fastforce
        with full seqe cm show ?thesis by simp
      qed
      ultimately show ?thesis using seqe le cm by auto
    qed
  next
    case ne: False
    then have s1: "seq = 1" using seq prev modd by simp
    have last: "\<forall>x\<in>set p. x \<le> d" using False sorted
      by (cases p rule: rev_cases) (auto simp: d_def sorted_wrt_append)
    have "seq = c mod T + 1" if sub: "{c - c mod T..c} \<subseteq> set (p @ [c])"
    proof (rule ccontr)
      assume "seq \<noteq> c mod T + 1"
      then have "c - 1 \<in> {c - c mod T..c}" using s1 d by auto
      with sub have "c - 1 \<in> set (p @ [c])" by (rule subsetD)
      with d have "c - 1 \<in> set p" by auto
      with last have "c - 1 \<le> d" by blast
      with ne d show False by linarith
    qed
    with s1 show ?thesis by auto
  qed
qed
qed

lemma complete_snoc:
  fixes T c :: nat
  assumes T: "0 < T" and sorted: "sorted_wrt (<) (p @ [c])"
  shows "complete T (set (p @ [c])) t \<longleftrightarrow> complete T (set p) t \<or>
    (t = c div T \<and> Suc c mod T = 0 \<and> {c - c mod T..c} \<subseteq> set (p @ [c]))"
proof -
  have gt: "\<forall>x\<in>set p. x < c" using sorted by (simp add: sorted_wrt_less_snoc)
  have cd: "c = c div T * T + c mod T" by (rule div_mult_mod_eq [symmetric])
  show ?thesis
  proof
    assume comp: "complete T (set (p @ [c])) t"
    show "complete T (set p) t \<or> (t = c div T \<and> Suc c mod T = 0 \<and> {c - c mod T..c} \<subseteq> set (p @ [c]))"
    proof (cases "c \<in> {t * T..<t * T + T}")
      case False
      with comp show ?thesis by (auto simp: complete_def)
    next
      case True
      then have t: "c div T = t" by (intro div_nat_eqI) (auto simp: algebra_simps)
      have "t * T + T - 1 \<in> {t * T..<t * T + T}" using T by auto
      then have "t * T + T - 1 \<in> set (p @ [c])" using comp unfolding complete_def by blast
      then have "t * T + T - 1 \<le> c" using gt by auto
      with True have ce: "Suc c = t * T + T" by auto
      then have "Suc c mod T = 0" by simp
      moreover have "{c - c mod T..c} \<subseteq> set (p @ [c])"
      proof -
        have "c - c mod T = t * T" using cd t by simp
        then have "{c - c mod T..c} \<subseteq> {t * T..<t * T + T}" using True by auto
        with comp show ?thesis by (auto simp: complete_def)
      qed
      ultimately show ?thesis using t by blast
    qed
  next
    assume "complete T (set p) t \<or> (t = c div T \<and> Suc c mod T = 0 \<and> {c - c mod T..c} \<subseteq> set (p @ [c]))"
    then show "complete T (set (p @ [c])) t"
    proof
      assume "complete T (set p) t"
      then show ?thesis by (auto simp: complete_def)
    next
      assume h: "t = c div T \<and> Suc c mod T = 0 \<and> {c - c mod T..c} \<subseteq> set (p @ [c])"
      then have "Suc (c mod T) = T" by (auto simp: mod_Suc split: if_splits)
      with cd have "c div T * T + T = Suc c" "c - c mod T = c div T * T" by linarith+
      with h have "t * T + T = Suc c" "c - c mod T = t * T" by simp_all
      then have "{t * T..<t * T + T} = {c - c mod T..c}" by auto
      then show ?thesis unfolding complete_def using h by (simp only:)
    qed
  qed
qed

lemma FindFilledTwigs_step_inv:
  assumes inv: "twig_scan_inv (kBFTwigSize bf) p s" and c: "c < TWO32"
    and sorted: "sorted_wrt (<) (p @ [c])"
  shows "twig_scan_inv (kBFTwigSize bf) (p @ [c]) (FindFilledTwigs_step bf c s)"
proof -
  let ?T = "kBFTwigSize bf"
  define seq where "seq = (if c = (ts_prev_cp s + 1) mod TWO32 then ts_seq_len s + 1 else 1)"
  have T: "1 < ?T" by (cases bf) (simp_all add: kBFTwigSize_def)
  note run = twig_run_step [OF inv T c sorted seq_def]
  have lastc: "and c (kBFTwigSizeBitMask bf) = kBFTwigSizeBitMask bf \<longleftrightarrow> Suc c mod ?T = 0"
    by (simp add: twig_mask_pow and_mask_last twig_size_pow)
  have div: "drop_bit (kBFTwigSizeLog2 bf) c = c div ?T"
    by (simp add: drop_bit_eq_div twig_size_pow)
  have gt: "\<forall>x\<in>set p. x < c" using sorted by (simp add: sorted_wrt_less_snoc)
  have full: "seq = ?T \<longleftrightarrow> {c - c mod ?T..c} \<subseteq> set (p @ [c])" if "Suc c mod ?T = 0"
  proof -
    have "Suc (c mod ?T) = ?T" using that T by (auto simp: mod_Suc split: if_splits)
    moreover have "c + 1 - ?T = c - c mod ?T" using \<open>Suc (c mod ?T) = ?T\<close> by linarith
    ultimately show ?thesis using run by auto
  qed
  have "complete ?T (set (p @ [c])) t \<longleftrightarrow>
      complete ?T (set p) t \<or> (t = c div ?T \<and> Suc c mod ?T = 0 \<and> seq = ?T)" for t
    unfolding complete_snoc [OF less_trans [OF zero_less_one T] sorted]
    by (cases "Suc c mod ?T = 0") (simp_all only: full simp_thms)
  then have compl: "{t. complete ?T (set (p @ [c])) t} = {t. complete ?T (set p) t} \<union>
      (if Suc c mod ?T = 0 \<and> seq = ?T then {c div ?T} else {})"
    by (auto simp del: set_append)
  have new: "\<forall>t. complete ?T (set p) t \<longrightarrow> t < c div ?T" if "Suc c mod ?T = 0"
  proof (intro allI impI)
    fix t assume "complete ?T (set p) t"
    then have "t * ?T + ?T - 1 \<in> set p" using T by (auto simp: complete_def)
    then have "t * ?T + ?T - 1 < c" using gt by blast
    moreover have "Suc c = c div ?T * ?T + ?T" using that T
      by (metis div_mult_mod_eq mod_Suc add_Suc_right nat.simps(3))
    ultimately have "t * ?T < c div ?T * ?T" by linarith
    then show "t < c div ?T" by simp
  qed
  from inv have tw: "set (ts_filled_twigs s) = {t. complete ?T (set p) t}"
    "sorted_wrt (<) (ts_filled_twigs s)" by (simp_all add: twig_scan_inv_def)
  show ?thesis
  proof (cases "Suc c mod ?T = 0")
    case True
    have st: "FindFilledTwigs_step bf c s = \<lparr>ts_prev_cp = c, ts_seq_len = 0,
        ts_filled_twigs = (if seq = ?T then ts_filled_twigs s @ [c div ?T] else ts_filled_twigs s)\<rparr>"
      by (simp add: FindFilledTwigs_step_def lastc True div seq_def Let_def)
    have "sorted_wrt (<) (ts_filled_twigs s @ [c div ?T])"
      using tw new [OF True] by (simp add: sorted_wrt_less_snoc)
    then show ?thesis using True tw compl by (simp add: st twig_scan_inv_def)
  next
    case False
    have st: "FindFilledTwigs_step bf c s = \<lparr>ts_prev_cp = c, ts_seq_len = seq,
        ts_filled_twigs = ts_filled_twigs s\<rparr>"
      by (simp add: FindFilledTwigs_step_def lastc False seq_def Let_def)
    show ?thesis using False tw compl run by (simp add: st twig_scan_inv_def)
  qed
qed

theorem FindFilledTwigs_complete:
  assumes "sorted_wrt (<) cps" and "\<forall>c\<in>set cps. c < TWO32"
  shows "set (FindFilledTwigs cps bf) = {t. complete (kBFTwigSize bf) (set cps) t} \<and>
    sorted_wrt (<) (FindFilledTwigs cps bf)"
proof -
  let ?s0 = "\<lparr>ts_prev_cp = UINT32_MAX - 1, ts_seq_len = 0, ts_filled_twigs = []\<rparr>"
  have "0 < kBFTwigSize bf" by (simp add: kBFTwigSize_def)
  then have start: "twig_scan_inv (kBFTwigSize bf) [] ?s0"
    by (auto simp: twig_scan_inv_def complete_def)
  have "twig_scan_inv (kBFTwigSize bf) cps (fold (FindFilledTwigs_step bf) cps ?s0)"
    using assms
  proof (induction cps rule: rev_induct)
    case Nil
    show ?case using start by simp
  next
    case (snoc c cps)
    then have "twig_scan_inv (kBFTwigSize bf) cps (fold (FindFilledTwigs_step bf) cps ?s0)"
      by (auto simp: sorted_wrt_append)
    with snoc.prems show ?case by (simp add: FindFilledTwigs_step_inv)
  qed
  then show ?thesis by (simp add: FindFilledTwigs_def twig_scan_inv_def)
qed

section \<open>Filled nodes\<close>

text \<open>
  The levels map of the search, with \<open>k = log2(node size)\<close> and \<open>hh = tree_height - 2\<close>, the level of
  the twigs: it maps exactly the filled twigs, to levels from \<open>lo\<close> to \<open>hh\<close>, and a level is the
  same for all twigs of a node at that level, \<open>2 ^ (k * (hh - level))\<close> of them.
\<close>

definition same_node :: "nat \<Rightarrow> nat \<Rightarrow> nat \<Rightarrow> nat \<Rightarrow> nat \<Rightarrow> bool" where
  "same_node k hh l t t' \<longleftrightarrow> t div 2 ^ (k * (hh - l)) = t' div 2 ^ (k * (hh - l))"

definition levels_inv :: "nat \<Rightarrow> nat \<Rightarrow> nat set \<Rightarrow> nat \<Rightarrow> filled_levels \<Rightarrow> bool" where
  "levels_inv k hh F lo m \<longleftrightarrow> dom (map_of m) = F \<and>
     (\<forall>t l. map_of m t = Some l \<longrightarrow> lo \<le> l \<and> l \<le> hh \<and>
        (\<forall>t'. same_node k hh l t t' \<longrightarrow> map_of m t' = Some l))"

lemma levels_invD:
  assumes "levels_inv k hh F lo m" and "map_of m t = Some l"
  shows "lo \<le> l" "l \<le> hh" "same_node k hh l t t' \<Longrightarrow> map_of m t' = Some l"
  using assms unfolding levels_inv_def by blast+

lemma find_assign_all_Some:
  assumes "set ks \<subseteq> dom (map_of m)"
  shows "\<exists>m'. find_assign_all v ks m = Some m' \<and>
    map_of m' = (\<lambda>t. if t \<in> set ks then Some v else map_of m t)"
  using assms
proof (induction ks arbitrary: m)
  case Nil
  then show ?case by simp
next
  case (Cons k ks)
  then obtain w where w: "map_of m k = Some w" by auto
  let ?m = "AList.update k v m"
  have up: "map_of ?m = (map_of m)(k \<mapsto> v)" by (rule update_conv')
  have "set ks \<subseteq> dom (map_of ?m)" using Cons.prems by (auto simp: up)
  then obtain m' where "find_assign_all v ks ?m = Some m'"
    "map_of m' = (\<lambda>t. if t \<in> set ks then Some v else map_of ?m t)"
    using Cons.IH by blast
  then show ?case using w by (auto simp: find_assign_def up fun_eq_iff)
qed

text \<open>An aligned block of twigs that ends at \<open>t\<close>.\<close>

lemma block_ending:
  fixes K t :: nat
  assumes "Suc t mod K = 0" and "0 < K"
  shows "K \<le> Suc t" and "x div K = t div K \<longleftrightarrow> x \<in> {t + 1 - K..<t + 1}"
proof -
  from assms(1) obtain q where q: "Suc t = K * q" by auto
  with assms(2) obtain r where r: "q = Suc r" by (cases q) auto
  with q have e: "Suc t = r * K + K" by (simp add: algebra_simps)
  then show "K \<le> Suc t" by simp
  have "t div K = r" using e assms(2) by (intro div_nat_eqI) (auto simp: algebra_simps)
  moreover have "x div K = r \<longleftrightarrow> r * K \<le> x \<and> x < r * K + K"
  proof
    assume "x div K = r"
    then show "r * K \<le> x \<and> x < r * K + K"
      using div_mult_mod_eq [of x K] mod_less_divisor [OF assms(2), of x] by auto
  next
    assume "r * K \<le> x \<and> x < r * K + K"
    then show "x div K = r" by (intro div_nat_eqI) (auto simp: algebra_simps)
  qed
  moreover have "t + 1 - K = r * K" "t + 1 = r * K + K" using e by auto
  ultimately show "x div K = t div K \<longleftrightarrow> x \<in> {t + 1 - K..<t + 1}" by auto
qed

lemma same_node_coarser:
  assumes "l \<le> l'" and "same_node k hh l' t t'"
  shows "same_node k hh l t t'"
proof -
  let ?a = "2 ^ (k * (hh - l')) :: nat"
  have le: "k * (hh - l') \<le> k * (hh - l)"
    by (intro mult_le_mono2 diff_le_mono2 assms(1))
  then have "(2::nat) ^ (k * (hh - l)) = ?a * 2 ^ (k * (hh - l) - k * (hh - l'))"
    by (simp add: power_add [symmetric])
  then show ?thesis using assms(2) by (simp add: same_node_def div_mult2_eq)
qed

text \<open>The scan for the nodes of layer \<open>l\<close>: the current run is at level \<open>l + 1\<close>.\<close>

definition node_scan_inv :: "nat \<Rightarrow> nat \<Rightarrow> nat set \<Rightarrow> nat \<Rightarrow> node_scan \<Rightarrow> bool" where
  "node_scan_inv k hh F l s \<longleftrightarrow> levels_inv k hh F l (ns_levels s) \<and>
     (0 < ns_twig_seq_len s \<longrightarrow> ns_twig_seq_len s \<le> ns_prev_twig s + 1 \<and>
        (\<forall>t\<in>{ns_prev_twig s + 1 - ns_twig_seq_len s..ns_prev_twig s}.
           map_of (ns_levels s) t = Some (l + 1)))"

lemma merge_block_inv:
  assumes inv: "levels_inv k hh F l m" and "l < hh"
    and blk: "\<forall>t'. same_node k hh l t t' \<longrightarrow> map_of m t' = Some (l + 1)"
    and m': "map_of m' = (\<lambda>x. if same_node k hh l t x then Some l else map_of m x)"
  shows "levels_inv k hh F l m'"
proof -
  have "map_of m' x = None \<longleftrightarrow> map_of m x = None" for x using blk by (auto simp: m')
  then have "dom (map_of m') = dom (map_of m)" by (simp add: dom_def)
  then have dom: "dom (map_of m') = F" using inv by (simp add: levels_inv_def)
  have "l \<le> l' \<and> l' \<le> hh \<and> (\<forall>y. same_node k hh l' x y \<longrightarrow> map_of m' y = Some l')"
    if x: "map_of m' x = Some l'" for x l'
  proof (cases "same_node k hh l t x")
    case True
    with x have "l' = l" by (simp add: m')
    moreover have "same_node k hh l t y" if "same_node k hh l x y" for y
      using that True by (simp add: same_node_def)
    ultimately show ?thesis using assms(2) by (auto simp: m')
  next
    case False
    with x have mx: "map_of m x = Some l'" by (simp add: m')
    have "\<not> same_node k hh l t y" if "same_node k hh l' x y" for y
      using False same_node_coarser [OF levels_invD(1) [OF inv mx] that] by (simp add: same_node_def)
    then show ?thesis using levels_invD [OF inv mx] by (auto simp: m')
  qed
  with dom show ?thesis unfolding levels_inv_def by blast
qed

lemma FindFilledNodes_step_inv:
  assumes inv: "node_scan_inv k hh F l s" and t: "t \<in> F" and bound: "t + 1 < TWO32"
    and lt: "l < hh" and K: "K = 2 ^ (k * (hh - l))" and M: "M = mask (k * (hh - l))"
    and prev: "ns_prev_twig s = UINT32_MAX - 1 \<and> ns_twig_seq_len s = 0 \<or> ns_prev_twig s < t"
  shows "\<exists>s'. FindFilledNodes_step l K M t s = Some s' \<and> node_scan_inv k hh F l s' \<and>
    ns_prev_twig s' = t"
proof -
  let ?m = "ns_levels s"
  from inv have li: "levels_inv k hh F l ?m" by (simp add: node_scan_inv_def)
  then have dom: "dom (map_of ?m) = F" by (simp add: levels_inv_def)
  with t obtain fl where fl: "map_of ?m t = Some fl" by auto
  define seq where "seq = (if t = (ns_prev_twig s + 1) mod TWO32 \<and> fl = l + 1
      then ns_twig_seq_len s + 1 else if fl = l + 1 then 1 else 0)"
  have idx: "map_index ?m t = (?m, fl)" by (simp add: map_index_def fl)
  have lastb: "and t M = M \<longleftrightarrow> Suc t mod K = 0"
    unfolding M K by (rule and_mask_last)
  have K0: "0 < K" by (simp add: K)
  have run: "seq \<le> t + 1 \<and> (\<forall>x\<in>{t + 1 - seq..t}. map_of ?m x = Some (l + 1))" if "0 < seq"
  proof (cases "t = (ns_prev_twig s + 1) mod TWO32 \<and> fl = l + 1 \<and> 0 < ns_twig_seq_len s")
    case True
    then have pl: "ns_prev_twig s < t" using prev by auto
    then have te: "t = ns_prev_twig s + 1" using True bound by simp
    have len: "ns_twig_seq_len s \<le> ns_prev_twig s + 1"
      and old: "\<forall>x\<in>{ns_prev_twig s + 1 - ns_twig_seq_len s..ns_prev_twig s}. map_of ?m x = Some (l + 1)"
      using inv True by (auto simp: node_scan_inv_def)
    have s: "seq = ns_twig_seq_len s + 1" using True by (simp add: seq_def)
    have "map_of ?m x = Some (l + 1)" if "x \<in> {t + 1 - seq..t}" for x
      using old that fl True te s by (cases "x = t") auto
    then show ?thesis using s te len by auto
  next
    case False
    with that have "seq = 1" "fl = l + 1" by (auto simp: seq_def split: if_splits)
    with fl show ?thesis by auto
  qed
  have step: "FindFilledNodes_step l K M t s =
      (if Suc t mod K = 0 then
         if seq = K then
           Option.bind (find_assign_all l [t + 1 - K..<t + 1] ?m)
             (\<lambda>m. Some \<lparr>ns_prev_twig = t, ns_twig_seq_len = 0,
                       ns_num_merged_nodes = ns_num_merged_nodes s + 1, ns_levels = m\<rparr>)
         else Some \<lparr>ns_prev_twig = t, ns_twig_seq_len = 0,
                    ns_num_merged_nodes = ns_num_merged_nodes s, ns_levels = ?m\<rparr>
       else Some \<lparr>ns_prev_twig = t, ns_twig_seq_len = seq,
                  ns_num_merged_nodes = ns_num_merged_nodes s, ns_levels = ?m\<rparr>)"
    unfolding FindFilledNodes_step_def idx lastb seq_def Let_def by simp
  show ?thesis
  proof (cases "Suc t mod K = 0 \<and> seq = K")
    case True
    note be = block_ending [OF conjunct1 [OF True] K0]
    have "set [t + 1 - K..<t + 1] \<subseteq> dom (map_of ?m)"
      using run True K0 by auto
    then obtain m' where fa: "find_assign_all l [t + 1 - K..<t + 1] ?m = Some m'"
      and m': "map_of m' = (\<lambda>x. if x \<in> set [t + 1 - K..<t + 1] then Some l else map_of ?m x)"
      using find_assign_all_Some by blast
    have same: "same_node k hh l t x \<longleftrightarrow> x \<in> set [t + 1 - K..<t + 1]" for x
      unfolding same_node_def K [symmetric] using be(2) [of x] by auto
    have "levels_inv k hh F l m'"
    proof (rule merge_block_inv [OF li lt])
      show "\<forall>t'. same_node k hh l t t' \<longrightarrow> map_of ?m t' = Some (l + 1)"
        unfolding same using run True K0 by auto
      show "map_of m' = (\<lambda>x. if same_node k hh l t x then Some l else map_of ?m x)"
        unfolding m' same ..
    qed
    then show ?thesis unfolding step using True fa by (simp add: node_scan_inv_def del: upt_Suc)
  next
    case False
    then show ?thesis unfolding step using run li by (auto simp: node_scan_inv_def)
  qed
qed


lemma FindFilledNodes_scan_inv:
  assumes "node_scan_inv k hh F l s" and "set ts \<subseteq> F" and "sorted_wrt (<) ts"
    and "\<forall>t\<in>set ts. t + 1 < TWO32" and "l < hh" and "K = 2 ^ (k * (hh - l))"
    and "M = mask (k * (hh - l))"
    and "ns_prev_twig s = UINT32_MAX - 1 \<and> ns_twig_seq_len s = 0 \<or> (\<forall>t\<in>set ts. ns_prev_twig s < t)"
  shows "\<exists>s'. FindFilledNodes_scan l K M ts s = Some s' \<and> node_scan_inv k hh F l s'"
  using assms
proof (induction ts arbitrary: s)
  case Nil
  then show ?case by simp
next
  case (Cons t ts)
  have "\<exists>s1. FindFilledNodes_step l K M t s = Some s1 \<and> node_scan_inv k hh F l s1 \<and>
      ns_prev_twig s1 = t"
    using Cons.prems by (intro FindFilledNodes_step_inv) auto
  then obtain s1 where s1: "FindFilledNodes_step l K M t s = Some s1" "node_scan_inv k hh F l s1"
    "ns_prev_twig s1 = t" by blast
  have "\<exists>s'. FindFilledNodes_scan l K M ts s1 = Some s' \<and> node_scan_inv k hh F l s'"
    using s1 Cons.prems by (intro Cons.IH) auto
  with s1 show ?case by simp
qed

lemma levels_inv_mono: "lo' \<le> lo \<Longrightarrow> levels_inv k hh F lo m \<Longrightarrow> levels_inv k hh F lo' m"
  unfolding levels_inv_def by (meson le_trans)

text \<open>Without overflow, the node size and its mask stay the power of two of the layer.\<close>

lemma node_mask_shift:
  assumes "k + j < 32"
  shows "or (push_bit k (mask j) mod TWO32) (mask k) = (mask (k + j) :: nat)"
    and "push_bit k (2 ^ j) mod TWO32 = (2 ^ (k + j) :: nat)"
proof -
  have p: "(2::nat) ^ (k + j) < TWO32"
    using power_strict_increasing [OF assms, of "2::nat"] by simp
  have "push_bit k (mask j) < (2::nat) ^ (k + j)"
    by (simp add: push_bit_eq_mult mask_eq_exp_minus_1 power_add mult.commute)
  with p have "push_bit k (mask j) mod TWO32 = (push_bit k (mask j) :: nat)" by simp
  moreover have "or (push_bit k (mask j)) (mask k) = (mask (k + j) :: nat)"
    by (rule bit_eqI) (auto simp: bit_or_iff bit_push_bit_iff bit_mask_iff)
  ultimately show "or (push_bit k (mask j) mod TWO32) (mask k) = (mask (k + j) :: nat)" by simp
  show "push_bit k (2 ^ j) mod TWO32 = (2 ^ (k + j) :: nat)"
    using p by (simp add: push_bit_eq_mult power_add mult.commute)
qed

lemma FindFilledNodes_layers_inv:
  assumes "levels_inv (kBFNodeSizeLog2 bf) hh (set ts) n m" and "sorted_wrt (<) ts"
    and "\<forall>t\<in>set ts. t + 1 < TWO32" and "n \<le> hh" and "kBFNodeSizeLog2 bf * (hh + 1) < 32"
    and "K = 2 ^ (kBFNodeSizeLog2 bf * (hh - n + 1))"
    and "M = mask (kBFNodeSizeLog2 bf * (hh - n + 1))"
  shows "\<exists>m'. FindFilledNodes_layers bf ts (rev [0..<n]) K M m = Some m' \<and>
    levels_inv (kBFNodeSizeLog2 bf) hh (set ts) 0 m'"
  using assms
proof (induction n arbitrary: K M m)
  case 0
  then show ?case by simp
next
  case (Suc n)
  let ?k = "kBFNodeSizeLog2 bf"
  let ?s0 = "\<lparr>ns_prev_twig = UINT32_MAX - 1, ns_twig_seq_len = 0, ns_num_merged_nodes = 0, ns_levels = m\<rparr>"
  have lay: "hh - Suc n + 1 = hh - n" using Suc.prems(4) by simp
  have K: "K = 2 ^ (?k * (hh - n))" and M: "M = mask (?k * (hh - n))"
    using Suc.prems(6,7) unfolding lay .
  have "node_scan_inv ?k hh (set ts) n ?s0"
    using levels_inv_mono [OF _ Suc.prems(1), of n] by (simp add: node_scan_inv_def)
  then have "\<exists>s. FindFilledNodes_scan n K M ts ?s0 = Some s \<and> node_scan_inv ?k hh (set ts) n s"
    using Suc.prems(4) by (intro FindFilledNodes_scan_inv [OF _ _ Suc.prems(2,3) _ K M]) auto
  then obtain s where s: "FindFilledNodes_scan n K M ts ?s0 = Some s"
    and inv: "levels_inv ?k hh (set ts) n (ns_levels s)"
    by (auto simp: node_scan_inv_def)
  have app: "rev [0..<Suc n] = n # rev [0..<n]" by simp
  show ?case
  proof (cases "ns_num_merged_nodes s < kBFNodeSize bf")
    case True
    have "levels_inv ?k hh (set ts) 0 (ns_levels s)" by (rule levels_inv_mono [OF _ inv]) simp
    with s True show ?thesis by (simp add: app del: upt_Suc)
  next
    case False
    have "?k * (hh - n + 1) \<le> ?k * (hh + 1)" by (intro mult_le_mono2) simp
    moreover have "?k * (hh - n + 1) = ?k + ?k * (hh - n)" by simp
    ultimately have small: "?k + ?k * (hh - n) < 32" using Suc.prems(5) by linarith
    have "\<exists>m'. FindFilledNodes_layers bf ts (rev [0..<n]) (2 ^ (?k * (hh - n + 1)))
        (mask (?k * (hh - n + 1))) (ns_levels s) = Some m' \<and> levels_inv ?k hh (set ts) 0 m'"
      using Suc.prems(4) by (intro Suc.IH [OF inv Suc.prems(2,3) _ Suc.prems(5)]) simp_all
    moreover have "push_bit ?k K mod TWO32 = 2 ^ (?k * (hh - n + 1))"
      "or (push_bit ?k M mod TWO32) (kBFNodeSizeBitMask bf) = mask (?k * (hh - n + 1))"
      using node_mask_shift [OF small] by (simp_all add: K M node_mask_pow)
    ultimately show ?thesis using s False by (simp add: app del: upt_Suc)
  qed
qed

text \<open>
  The filled levels of a set: every marked twig lies in a node, at the marked level above the
  leaves, all of whose values are in the set and all of whose twigs have the same mark.
\<close>

definition good_levels :: "branch_factor \<Rightarrow> nat \<Rightarrow> nat set \<Rightarrow> filled_levels \<Rightarrow> bool" where
  "good_levels bf h S m \<longleftrightarrow>
     (\<forall>x l. map_of m (x div kBFTwigSize bf) = Some l \<longrightarrow> l + 2 \<le> h \<and>
        (\<forall>y. align (kBFNodeSizeLog2 bf * (h - l)) y = align (kBFNodeSizeLog2 bf * (h - l)) x \<longrightarrow>
           y \<in> S \<and> map_of m (y div kBFTwigSize bf) = Some l))"

lemma update_all_map_of:
  "map_of (fold (\<lambda>t. AList.update t v) ts m) = (\<lambda>t. if t \<in> set ts then Some v else map_of m t)"
  by (induction ts arbitrary: m) (auto simp: update_conv' fun_eq_iff)

lemma twig_of_node:
  assumes "l \<le> h - 2" and "2 \<le> h"
    and "align (kBFNodeSizeLog2 bf * (h - l)) y = align (kBFNodeSizeLog2 bf * (h - l)) x"
  shows "same_node (kBFNodeSizeLog2 bf) (h - 2) l (x div kBFTwigSize bf) (y div kBFTwigSize bf)"
proof -
  let ?w = "kBFNodeSizeLog2 bf"
  have "h - l = 2 + (h - 2 - l)" using assms(1,2) by linarith
  then have "?w * (h - l) = ?w * (2 + (h - 2 - l))" by (rule arg_cong)
  also have "\<dots> = ?w * 2 + ?w * (h - 2 - l)" by (rule add_mult_distrib2)
  finally have "?w * (h - l) = ?w * 2 + ?w * (h - 2 - l)" .
  then have "(2::nat) ^ (?w * (h - l)) = kBFTwigSize bf * 2 ^ (?w * (h - 2 - l))"
    by (simp add: twig_size_pow kBFTwigSizeLog2_def power_add)
  then show ?thesis using assms(3)
    by (simp add: same_node_def align_eq_iff div_mult2_eq)
qed

theorem FindFilledNodes_good:
  assumes twigs: "set ts = {t. complete (kBFTwigSize bf) S t}" "sorted_wrt (<) ts"
    and bound: "\<forall>x\<in>S. x < TWO32" and h: "h \<le> kBFMaxDepth bf"
  shows "\<exists>m. FindFilledNodes bf h ts = Some m \<and> good_levels bf h S m"
proof (cases "h < 2 \<or> ts = []")
  case True
  then show ?thesis by (simp add: FindFilledNodes_def good_levels_def)
next
  case False
  let ?w = "kBFNodeSizeLog2 bf" and ?hh = "h - 2"
  let ?m0 = "fold (\<lambda>t. AList.update t ?hh) ts []"
  have T: "4 \<le> kBFTwigSize bf" by (cases bf) (simp_all add: kBFTwigSize_def)
  have ts_bound: "\<forall>t\<in>set ts. t + 1 < TWO32"
  proof
    fix t assume "t \<in> set ts"
    then have "t * kBFTwigSize bf \<in> S" using T by (auto simp: twigs complete_def)
    then have "t * kBFTwigSize bf < TWO32" using bound by blast
    moreover have "t * 4 \<le> t * kBFTwigSize bf" using T by simp
    ultimately show "t + 1 < TWO32" by linarith
  qed
  have start: "levels_inv ?w ?hh (set ts) ?hh ?m0"
    by (auto simp: levels_inv_def update_all_map_of same_node_def dom_def)
  have small: "?w * (?hh + 1) < 32" using h False by (cases bf) auto
  have "\<exists>m. FindFilledNodes_layers bf ts (rev [0..<?hh]) (kBFNodeSize bf) (kBFNodeSizeBitMask bf) ?m0 = Some m
      \<and> levels_inv ?w ?hh (set ts) 0 m"
    using small by (intro FindFilledNodes_layers_inv [OF start twigs(2) ts_bound])
      (simp_all add: node_size_pow node_mask_pow)
  then obtain m where m: "FindFilledNodes bf h ts = Some m" and inv: "levels_inv ?w ?hh (set ts) 0 m"
    using False by (auto simp: FindFilledNodes_def)
  have "good_levels bf h S m"
    unfolding good_levels_def
  proof (intro allI impI)
    fix x l assume l: "map_of m (x div kBFTwigSize bf) = Some l"
    have le: "l \<le> h - 2" by (rule levels_invD(2) [OF inv l])
    have "y \<in> S \<and> map_of m (y div kBFTwigSize bf) = Some l"
      if "align (?w * (h - l)) y = align (?w * (h - l)) x" for y
    proof -
      have my: "map_of m (y div kBFTwigSize bf) = Some l"
        using levels_invD(3) [OF inv l twig_of_node [OF le _ that]] False by simp
      moreover have "dom (map_of m) = set ts" using inv unfolding levels_inv_def by blast
      ultimately have "y div kBFTwigSize bf \<in> set ts" by blast
      then have "complete (kBFTwigSize bf) S (y div kBFTwigSize bf)" by (simp add: twigs)
      moreover have "y \<in> {y div kBFTwigSize bf * kBFTwigSize bf..<y div kBFTwigSize bf * kBFTwigSize bf + kBFTwigSize bf}"
      proof -
        have "y mod kBFTwigSize bf < kBFTwigSize bf" using T by simp
        with div_mult_mod_eq [of y "kBFTwigSize bf"] show ?thesis
          unfolding atLeastLessThan_iff by linarith
      qed
      ultimately show ?thesis using my by (auto simp: complete_def)
    qed
    with le False show "l + 2 \<le> h \<and> (\<forall>y. align (?w * (h - l)) y = align (?w * (h - l)) x \<longrightarrow>
           y \<in> S \<and> map_of m (y div kBFTwigSize bf) = Some l)" by auto
  qed
  with m show ?thesis by blast
qed

end
