(* ===== verification/Sparse_Layer.thy ===== *)
theory Sparse_Layer
  imports Sparse_Filled
begin

text \<open>
  What one layer of the encoding must be, and that the state machine of \<^verbatim>\<open>EncodeLayer\<close> computes
  it: the nodes of the layer that hold a code point and are not inside a node that a layer above
  encoded as filled, in ascending order; a filled node is the value 0, any other node is the mask
  of its non-empty children, whose bases are the nodes of the next layer.
\<close>

section \<open>Specification of a layer\<close>

definition nbits :: "branch_factor \<Rightarrow> nat \<Rightarrow> nat \<Rightarrow> nat" where
  "nbits bf h l = kBFNodeSizeLog2 bf * (h - l)"

definition lev :: "branch_factor \<Rightarrow> filled_levels \<Rightarrow> nat \<Rightarrow> nat option" where
  "lev bf m x = map_of m (x div kBFTwigSize bf)"

definition live :: "branch_factor \<Rightarrow> filled_levels \<Rightarrow> nat \<Rightarrow> nat \<Rightarrow> bool" where
  "live bf m l x = (case lev bf m x of None \<Rightarrow> True | Some d \<Rightarrow> l \<le> d)"

definition touched :: "branch_factor \<Rightarrow> nat \<Rightarrow> filled_levels \<Rightarrow> nat \<Rightarrow> nat list \<Rightarrow> nat list" where
  "touched bf h m l p = remdups_adj (map (align (nbits bf h l)) (filter (live bf m l) p))"

definition child_of :: "branch_factor \<Rightarrow> nat \<Rightarrow> nat \<Rightarrow> nat \<Rightarrow> nat \<Rightarrow> nat" where
  "child_of bf h l b x = (x - b) div 2 ^ nbits bf h (Suc l)"

definition children :: "branch_factor \<Rightarrow> nat \<Rightarrow> nat \<Rightarrow> nat \<Rightarrow> nat list \<Rightarrow> nat list" where
  "children bf h l b p =
     remdups_adj (map (child_of bf h l b) (filter (\<lambda>x. align (nbits bf h l) x = b) p))"

definition mask_of :: "nat list \<Rightarrow> nat" where
  "mask_of is = fold (\<lambda>i m. or m (push_bit i 1)) is 0"

definition node_code :: "branch_factor \<Rightarrow> nat \<Rightarrow> filled_levels \<Rightarrow> nat \<Rightarrow> nat list \<Rightarrow> nat \<Rightarrow> nat" where
  "node_code bf h m l cps b = (if lev bf m b = Some l then 0 else mask_of (children bf h l b cps))"

definition child_bases :: "branch_factor \<Rightarrow> nat \<Rightarrow> nat \<Rightarrow> nat \<Rightarrow> nat list \<Rightarrow> nat list" where
  "child_bases bf h l b p =
     (if Suc l = h then [] else map (\<lambda>i. b + i * 2 ^ nbits bf h (Suc l)) (children bf h l b p))"

definition node_kids :: "branch_factor \<Rightarrow> nat \<Rightarrow> filled_levels \<Rightarrow> nat \<Rightarrow> nat list \<Rightarrow> nat \<Rightarrow> nat list" where
  "node_kids bf h m l cps b = (if lev bf m b = Some l then [] else child_bases bf h l b cps)"

definition write_all :: "nat list \<Rightarrow> bit_output_buffer \<Rightarrow> bit_output_buffer" where
  "write_all ns buf = fold ob_append (map of_nat ns) buf"

definition encode_ok :: "branch_factor \<Rightarrow> nat \<Rightarrow> filled_levels \<Rightarrow> nat list \<Rightarrow> bool" where
  "encode_ok bf h m cps \<longleftrightarrow> sorted_wrt (<) cps \<and> (\<forall>c\<in>set cps. c < UINT32_MAX \<and> c < 2 ^ nbits bf h 0) \<and>
     1 \<le> h \<and> h \<le> kBFMaxDepth bf \<and> good_levels bf h (set cps) m"

section \<open>Facts on nodes and levels\<close>

lemma nbits_Suc: "l < h \<Longrightarrow> nbits bf h l = nbits bf h (Suc l) + kBFNodeSizeLog2 bf"
  by (simp add: nbits_def Suc_diff_Suc [symmetric])

lemma nbits_mono: "l \<le> l' \<Longrightarrow> nbits bf h l' \<le> nbits bf h l"
  unfolding nbits_def by (intro mult_le_mono2 diff_le_mono2)

lemma good_levelsD:
  assumes "good_levels bf h S m" and "lev bf m x = Some d"
  shows "d + 2 \<le> h"
    and "align (nbits bf h d) y = align (nbits bf h d) x \<Longrightarrow> y \<in> S"
    and "align (nbits bf h d) y = align (nbits bf h d) x \<Longrightarrow> lev bf m y = Some d"
  using assms unfolding good_levels_def lev_def nbits_def by blast+

lemma align_coarser:
  assumes "j \<le> k" and "align j x = align j y" shows "align k x = align k y"
  using assms align_align by metis

text \<open>Nodes are live or not, and filled or not, as a whole.\<close>

lemma live_same_node:
  assumes good: "good_levels bf h S m" and "live bf m l x"
    and same: "align (nbits bf h l) y = align (nbits bf h l) x"
  shows "live bf m l y"
proof (cases "lev bf m y")
  case None
  then show ?thesis by (simp add: live_def)
next
  case (Some d)
  show ?thesis
  proof (rule ccontr)
    assume "\<not> live bf m l y"
    with Some have d: "d < l" by (simp add: live_def)
    then have "align (nbits bf h d) x = align (nbits bf h d) y"
      using align_coarser [OF nbits_mono same] by simp
    then have "lev bf m x = Some d" using good_levelsD(3) [OF good Some] by simp
    with assms(2) d show False by (simp add: live_def)
  qed
qed

lemma remdups_adj_snoc:
  "remdups_adj (xs @ [x]) =
     (if xs \<noteq> [] \<and> last xs = x then remdups_adj xs else remdups_adj xs @ [x])"
  by (induction xs rule: remdups_adj.induct) auto

lemma touched_Nil [simp]: "touched bf h m l [] = []"
  by (simp add: touched_def)

lemma touched_snoc:
  "touched bf h m l (p @ [c]) =
     (if live bf m l c \<and> (touched bf h m l p = [] \<or> last (touched bf h m l p) \<noteq> align (nbits bf h l) c)
      then touched bf h m l p @ [align (nbits bf h l) c] else touched bf h m l p)"
  by (auto simp: touched_def remdups_adj_snoc)

lemma touched_append: "\<exists>zs. touched bf h m l (p @ q) = touched bf h m l p @ zs"
proof (induction q rule: rev_induct)
  case Nil
  show ?case by simp
next
  case (snoc c q)
  then obtain zs where zs: "touched bf h m l (p @ q) = touched bf h m l p @ zs" by blast
  have "\<exists>ys. touched bf h m l ((p @ q) @ [c]) = touched bf h m l (p @ q) @ ys"
    unfolding touched_snoc by simp
  with zs show ?case by (metis append_assoc)
qed

lemma sorted_map_filter:
  assumes "sorted_wrt (<) (p :: nat list)" and "\<And>x y. x \<le> y \<Longrightarrow> f x \<le> (f y :: nat)"
  shows "sorted (map f (filter P p))"
proof -
  have "sorted_wrt (\<lambda>x y. f x \<le> f y) (filter P p)"
    by (rule sorted_wrt_mono_rel [OF _ sorted_wrt_filter [OF assms(1)]])
      (rule assms(2), simp)
  then show ?thesis by (simp add: sorted_map)
qed

lemma strict_remdups_adj: "sorted xs \<Longrightarrow> sorted_wrt (<) (remdups_adj (xs :: nat list))"
  by (induction xs rule: remdups_adj.induct) auto

lemma set_touched: "set (touched bf h m l p) = align (nbits bf h l) ` {x \<in> set p. live bf m l x}"
  by (auto simp: touched_def)

lemma touched_sorted:
  "sorted_wrt (<) p \<Longrightarrow> sorted_wrt (<) (touched bf h m l p)"
  unfolding touched_def by (intro strict_remdups_adj sorted_map_filter align_mono)

lemma last_touched:
  assumes "live bf m l (last p)" and "p \<noteq> []"
  shows "touched bf h m l p \<noteq> []" "last (touched bf h m l p) = align (nbits bf h l) (last p)"
proof -
  obtain q c where "p = q @ [c]" using assms(2) by (cases p rule: rev_cases) auto
  with assms(1) show "touched bf h m l p \<noteq> []" "last (touched bf h m l p) = align (nbits bf h l) (last p)"
    using touched_snoc [of bf h m l q c] by auto
qed

lemma children_Nil [simp]: "children bf h l b [] = []"
  by (simp add: children_def)

lemma children_snoc:
  "children bf h l b (p @ [c]) =
     (if align (nbits bf h l) c = b \<and>
         (children bf h l b p = [] \<or> last (children bf h l b p) \<noteq> child_of bf h l b c)
      then children bf h l b p @ [child_of bf h l b c] else children bf h l b p)"
  by (auto simp: children_def remdups_adj_snoc)

lemma set_children:
  "set (children bf h l b p) = child_of bf h l b ` {x \<in> set p. align (nbits bf h l) x = b}"
  by (auto simp: children_def)

lemma child_of_mono: "x \<le> y \<Longrightarrow> child_of bf h l b x \<le> child_of bf h l b y"
  by (simp add: child_of_def div_le_mono diff_le_mono)

lemma children_sorted:
  "sorted_wrt (<) p \<Longrightarrow> sorted_wrt (<) (children bf h l b p)"
  unfolding children_def by (intro strict_remdups_adj sorted_map_filter child_of_mono)

lemma child_of_bound:
  assumes "align (nbits bf h l) x = b" and "l < h"
  shows "child_of bf h l b x < kBFNodeSize bf"
proof -
  have "x < b + 2 ^ nbits bf h l" using align_upper [of x "nbits bf h l"] assms(1) by simp
  moreover have "b \<le> x" using align_le [of "nbits bf h l" x] assms(1) by simp
  ultimately have "x - b < 2 ^ nbits bf h (Suc l) * 2 ^ kBFNodeSizeLog2 bf"
    using nbits_Suc [OF assms(2), of bf] by (simp add: power_add)
  then show ?thesis
    by (simp add: child_of_def node_size_pow div_less_iff_less_mult mult.commute)
qed

lemma mask_of_snoc: "mask_of (is @ [i]) = or (mask_of is) (push_bit i 1)"
  by (simp add: mask_of_def)

lemma bit_mask_of: "bit (mask_of is) i \<longleftrightarrow> i \<in> set is"
proof (induction "is" rule: rev_induct)
  case Nil
  show ?case by (simp add: mask_of_def)
next
  case (snoc j "is")
  then show ?case by (auto simp: mask_of_snoc bit_or_iff push_bit_eq_mult bit_exp_iff)
qed

lemma and_pow_0: "and n (push_bit i 1) = 0 \<longleftrightarrow> \<not> bit (n :: nat) i"
proof
  assume "and n (push_bit i 1) = 0"
  then have "\<not> bit (and n (push_bit i 1)) i" by simp
  then show "\<not> bit n i" by (simp add: bit_and_iff push_bit_eq_mult bit_exp_iff)
next
  assume "\<not> bit n i"
  then show "and n (push_bit i 1) = 0"
    by (intro bit_eqI) (auto simp: bit_and_iff push_bit_eq_mult bit_exp_iff)
qed

lemma mask_of_test: "and (mask_of is) (push_bit i 1) = 0 \<longleftrightarrow> i \<notin> set is"
  by (simp only: and_pow_0 bit_mask_of)

section \<open>Contexts\<close>

definition layer_ctx ::
  "branch_factor \<Rightarrow> nat \<Rightarrow> filled_levels \<Rightarrow> nat \<Rightarrow> nat list \<Rightarrow> encode_context \<Rightarrow> bool" where
  "layer_ctx bf h m l nb ctx \<longleftrightarrow> ctx_layer ctx = l \<and> ctx_branch_factor ctx = bf \<and>
     ctx_tree_height ctx = h \<and> ctx_values_per_bit_log_2 ctx = nbits bf h (Suc l) \<and>
     ctx_node_size ctx = 2 ^ nbits bf h l \<and> ctx_filled_levels ctx = m \<and> ctx_node_bases ctx = nb"

text \<open>The nodes \<open>T\<close> are written; and the node \<open>b\<close> behind them holds the values of \<open>p\<close> so far.\<close>

definition flushed ::
  "branch_factor \<Rightarrow> nat \<Rightarrow> filled_levels \<Rightarrow> nat \<Rightarrow> nat list \<Rightarrow> nat list \<Rightarrow> bit_output_buffer \<Rightarrow>
   nat list \<Rightarrow> encode_context \<Rightarrow> bool" where
  "flushed bf h m l cps nb0 buf T ctx \<longleftrightarrow> ctx_node_mask ctx = 0 \<and>
     ctx_next_node_base ctx = length T \<and>
     ctx_bit_buffer ctx = write_all (map (node_code bf h m l cps) T) buf \<and>
     ctx_next_node_bases ctx = nb0 @ concat (map (node_kids bf h m l cps) T)"

definition building ::
  "branch_factor \<Rightarrow> nat \<Rightarrow> filled_levels \<Rightarrow> nat \<Rightarrow> nat list \<Rightarrow> nat list \<Rightarrow> bit_output_buffer \<Rightarrow>
   nat list \<Rightarrow> nat \<Rightarrow> nat list \<Rightarrow> encode_context \<Rightarrow> bool" where
  "building bf h m l cps nb0 buf T b p ctx \<longleftrightarrow> lev bf m b \<noteq> Some l \<and>
     ctx_node_base ctx = b \<and> ctx_node_max ctx = b + 2 ^ nbits bf h l - 1 \<and>
     ctx_node_mask ctx = mask_of (children bf h l b p) \<and>
     ctx_next_node_base ctx = Suc (length T) \<and>
     ctx_bit_buffer ctx = write_all (map (node_code bf h m l cps) T) buf \<and>
     ctx_next_node_bases ctx =
       nb0 @ concat (map (node_kids bf h m l cps) T) @ child_bases bf h l b p"

lemma write_all_snoc: "write_all (ns @ [n]) buf = ob_append (of_nat n) (write_all ns buf)"
  by (simp add: write_all_def)

lemma end_building:
  assumes "layer_ctx bf h m l nb ctx" and "building bf h m l cps nb0 buf T b p ctx"
    and "children bf h l b p = children bf h l b cps"
  shows "layer_ctx bf h m l nb (EndNormalNode ctx) \<and>
    flushed bf h m l cps nb0 buf (T @ [b]) (EndNormalNode ctx)"
  using assms
  by (auto simp: layer_ctx_def building_def flushed_def EndNormalNode_def write_all_snoc
      node_code_def node_kids_def child_bases_def)

lemma start_filled:
  assumes "layer_ctx bf h m l nb ctx" and "flushed bf h m l cps nb0 buf T ctx"
    and "length T < length nb" and "nb ! length T = b" and "lev bf m b = Some l"
    and "b + 2 ^ nbits bf h l \<le> TWO32"
  obtains ctx' where "StartFilledNode ctx = Some ctx'" and "layer_ctx bf h m l nb ctx'"
    and "flushed bf h m l cps nb0 buf (T @ [b]) ctx'"
    and "ctx_filled_max ctx' = b + 2 ^ nbits bf h l - 1"
proof -
  have "0 < (2::nat) ^ nbits bf h l" by simp
  then have fm: "(b + 2 ^ nbits bf h l - 1) mod TWO32 = b + 2 ^ nbits bf h l - 1"
    using assms(6) by (intro mod_less) linarith
  define ctx' where "ctx' = ctx\<lparr>ctx_next_node_base := Suc (length T),
      ctx_bit_buffer := ob_append 0 (ctx_bit_buffer ctx),
      ctx_filled_max := b + 2 ^ nbits bf h l - 1\<rparr>"
  show ?thesis
  proof (rule that)
    show "StartFilledNode ctx = Some ctx'" using assms fm
      by (auto simp: StartFilledNode_def take_node_base_def layer_ctx_def flushed_def ctx'_def)
    show "layer_ctx bf h m l nb ctx'" "ctx_filled_max ctx' = b + 2 ^ nbits bf h l - 1"
      using assms(1) by (simp_all add: layer_ctx_def ctx'_def)
    show "flushed bf h m l cps nb0 buf (T @ [b]) ctx'"
      using assms(2,5) by (simp add: flushed_def ctx'_def write_all_snoc node_code_def node_kids_def)
  qed
qed

lemma nbits_pos_iff: "l < h \<Longrightarrow> 0 < nbits bf h (Suc l) \<longleftrightarrow> Suc l \<noteq> h"
  by (auto simp: nbits_def)

lemma strict_le_last: "sorted_wrt (<) xs \<Longrightarrow> x \<in> set xs \<Longrightarrow> (x :: nat) \<le> last xs"
  by (cases xs rule: rev_cases) (auto simp: sorted_wrt_less_snoc less_imp_le)

lemma children_mem_last:
  assumes "sorted_wrt (<) (p @ [c])"
  shows "child_of bf h l b c \<in> set (children bf h l b p) \<longleftrightarrow>
    children bf h l b p \<noteq> [] \<and> last (children bf h l b p) = child_of bf h l b c"
proof
  let ?ch = "children bf h l b p" let ?i = "child_of bf h l b c"
  assume mem: "?i \<in> set ?ch"
  then have ne: "?ch \<noteq> []" by auto
  then have "last ?ch \<in> set ?ch" by simp
  then obtain x where "x \<in> set p" "last ?ch = child_of bf h l b x" by (auto simp: set_children)
  moreover from this(1) have "x < c" using assms by (simp add: sorted_wrt_less_snoc)
  ultimately have "last ?ch \<le> ?i" by (simp add: child_of_mono)
  moreover have "?i \<le> last ?ch"
    using children_sorted [of p bf h l b] assms mem
    by (intro strict_le_last) (simp_all add: sorted_wrt_append)
  ultimately show "?ch \<noteq> [] \<and> last ?ch = ?i" using ne by simp
qed (metis last_in_set)

lemma or_base_child:
  assumes "2 ^ k dvd b" and "i * 2 ^ v < (2::nat) ^ k"
  shows "or b (push_bit v i) = b + i * 2 ^ v"
proof -
  have lo: "take_bit k (i * 2 ^ v) = i * 2 ^ v" using assms(2) by (simp add: take_bit_nat_eq_self)
  have hi: "take_bit k b = 0" using assms(1) by (simp add: take_bit_eq_mod dvd_imp_mod_0)
  have "and b (i * 2 ^ v) = 0"
  proof (rule bit_eqI)
    fix n
    have "\<not> (bit b n \<and> bit (i * 2 ^ v) n)"
    proof
      assume both: "bit b n \<and> bit (i * 2 ^ v) n"
      then have "bit (take_bit k (i * 2 ^ v)) n" using lo by simp
      then have "n < k" by (simp add: bit_take_bit_iff)
      with both have "bit (take_bit k b) n" by (simp add: bit_take_bit_iff)
      with hi show False by simp
    qed
    then show "bit (and b (i * 2 ^ v)) n = bit 0 n" by (simp add: bit_and_iff)
  qed
  then have "b + i * 2 ^ v = or b (i * 2 ^ v)" by (rule disjunctive_add_eq_or)
  then show ?thesis by (simp add: push_bit_eq_mult)
qed

lemma update_bit:
  assumes ctx: "layer_ctx bf h m l nb ctx" and bld: "building bf h m l cps nb0 buf T b p ctx"
    and l: "l < h" and b: "align (nbits bf h l) c = b" and c: "c < TWO32"
    and sorted: "sorted_wrt (<) (p @ [c])"
  shows "layer_ctx bf h m l nb (UpdateNodeBit c ctx) \<and>
    building bf h m l cps nb0 buf T b (p @ [c]) (UpdateNodeBit c ctx)"
proof -
  let ?i = "child_of bf h l b c" let ?V = "nbits bf h (Suc l)"
  have bc: "b \<le> c" using align_le [of "nbits bf h l" c] b by simp
  have idx: "drop_bit (ctx_values_per_bit_log_2 ctx) (sub32 c (ctx_node_base ctx)) = ?i"
    using ctx bld bc c by (simp add: layer_ctx_def building_def child_of_def drop_bit_eq_div)
  have "?i < 2 ^ kBFNodeSizeLog2 bf" using child_of_bound [OF b l] by (simp add: node_size_pow)
  then have "?i * 2 ^ ?V < 2 ^ nbits bf h l"
    using nbits_Suc [OF l, of bf] by (simp add: power_add)
  then have base: "or (ctx_node_base ctx) (push_bit (ctx_values_per_bit_log_2 ctx) ?i) = b + ?i * 2 ^ ?V"
    using or_base_child [of "nbits bf h l" b ?i ?V] align_dvd [of "nbits bf h l" c] ctx bld b
    by (simp add: layer_ctx_def building_def)
  have test: "and (ctx_node_mask ctx) (push_bit ?i 1) = 0 \<longleftrightarrow>
      \<not> (children bf h l b p \<noteq> [] \<and> last (children bf h l b p) = ?i)"
    using children_mem_last [OF sorted] mask_of_test bld by (simp add: building_def)
  show ?thesis
  proof (cases "and (ctx_node_mask ctx) (push_bit ?i 1) = 0")
    case True
    then have ch: "children bf h l b (p @ [c]) = children bf h l b p @ [?i]"
      using test b by (auto simp: children_snoc)
    have upd: "UpdateNodeBit c ctx =
      ctx\<lparr>ctx_node_mask := or (ctx_node_mask ctx) (push_bit ?i 1),
          ctx_next_node_bases := (if 0 < ctx_values_per_bit_log_2 ctx
            then ctx_next_node_bases ctx @ [b + ?i * 2 ^ ?V] else ctx_next_node_bases ctx)\<rparr>"
      unfolding UpdateNodeBit_def Let_def idx base using True by (rule if_P)
    show ?thesis unfolding upd using ctx bld nbits_pos_iff [OF l, of bf]
      by (simp add: layer_ctx_def building_def ch mask_of_snoc child_bases_def)
  next
    case False
    then have ch: "children bf h l b (p @ [c]) = children bf h l b p"
      using test b by (auto simp: children_snoc)
    have upd: "UpdateNodeBit c ctx = ctx"
      unfolding UpdateNodeBit_def Let_def idx base using False by (rule if_not_P)
    show ?thesis unfolding upd using ctx bld by (simp add: building_def ch child_bases_def)
  qed
qed

lemma start_normal:
  assumes ctx: "layer_ctx bf h m l nb ctx" and fl: "flushed bf h m l cps nb0 buf T ctx"
    and nb: "length T < length nb" "nb ! length T = b" and "lev bf m b \<noteq> Some l"
    and "l < h" and "align (nbits bf h l) c = b" and "c < TWO32"
    and "sorted_wrt (<) (p @ [c])" and "children bf h l b p = []"
  obtains ctx' where "StartNewNormalNode c ctx = Some ctx'" and "layer_ctx bf h m l nb ctx'"
    and "building bf h m l cps nb0 buf T b (p @ [c]) ctx'"
proof -
  define ctx1 where "ctx1 = ctx\<lparr>ctx_next_node_base := Suc (length T), ctx_node_base := b,
      ctx_node_max := b + 2 ^ nbits bf h l - 1, ctx_filled_max := kInvalidCp\<rparr>"
  have eq: "StartNewNormalNode c ctx = Some (UpdateNodeBit c ctx1)"
    using ctx fl nb
    by (auto simp: StartNewNormalNode_def take_node_base_def layer_ctx_def flushed_def ctx1_def)
  have "layer_ctx bf h m l nb ctx1" using ctx by (simp add: layer_ctx_def ctx1_def)
  moreover have "building bf h m l cps nb0 buf T b p ctx1"
    using fl assms(5,10) by (simp add: flushed_def building_def ctx1_def mask_of_def child_bases_def)
  ultimately show ?thesis using update_bit [of bf h m l nb ctx1 cps nb0 buf T b p c] assms(6-9)
    by (intro that [OF eq]) blast+
qed

section \<open>Skipping filled nodes\<close>

lemma twig_bits: "l + 2 \<le> h \<Longrightarrow> nbits bf h l = kBFNodeSizeLog2 bf * (h - l - 2) + kBFTwigSizeLog2 bf"
proof -
  assume "l + 2 \<le> h"
  then have "h - l = (h - l - 2) + 2" by simp
  then have "nbits bf h l = kBFNodeSizeLog2 bf * ((h - l - 2) + 2)" unfolding nbits_def by (rule arg_cong)
  then show ?thesis by (simp add: kBFTwigSizeLog2_def add_mult_distrib2)
qed

text \<open>
  From the start of a filled node of a higher layer, the loop ends at the start of a twig that is
  not in such a node, and all values it passes are in filled nodes of higher layers.
\<close>

lemma align_pred: "\<not> 2 ^ k dvd (x :: nat) \<Longrightarrow> align k (x - 1) = align k x"
proof -
  assume nd: "\<not> 2 ^ k dvd x"
  then have "align k x \<noteq> x" by (metis align_dvd)
  then have "align k x \<le> x - 1" using align_le [of k x] by linarith
  then show ?thesis using align_upper [of x k] by (intro align_eqI align_dvd) linarith+
qed

lemma next_filled_start:
  assumes good: "good_levels bf h S m" and x: "lev bf m x = Some d" and al: "2 ^ nbits bf h d dvd x"
    and nx: "lev bf m (x + 2 ^ nbits bf h d) = Some d'"
  shows "2 ^ nbits bf h d' dvd x + 2 ^ nbits bf h d"
proof (rule ccontr)
  let ?n = "2 ^ nbits bf h d :: nat"
  assume nd: "\<not> 2 ^ nbits bf h d' dvd x + ?n"
  have pos: "0 < ?n" by simp
  have "lev bf m (x + ?n - 1) = Some d'"
    using good_levelsD(3) [OF good nx] align_pred [OF nd] by simp
  moreover have "align (nbits bf h d) (x + ?n - 1) = x"
    using pos by (intro align_eqI al) linarith+
  then have "lev bf m (x + ?n - 1) = Some d"
    using good_levelsD(3) [OF good x] align_self [OF al] by simp
  ultimately have "d' = d" by simp
  with nd al show False by simp
qed

lemma SkipExisting_loop_spec:
  assumes "good_levels bf h S m"
    and "map_of m t = Some d" and "d < l" and "2 ^ nbits bf h d dvd t * kBFTwigSize bf"
  shows "\<exists>t'. SkipExisting_loop bf h l m t = Some t' \<and> t < t' \<and>
    (\<forall>y. t * kBFTwigSize bf \<le> y \<and> y < t' * kBFTwigSize bf \<longrightarrow> y \<in> S \<and> \<not> live bf m l y)"
  using assms
proof (induction bf h l m t arbitrary: d rule: SkipExisting_loop.induct)
  case (1 bf h l m t)
  let ?TS = "kBFTwigSize bf" let ?n = "2 ^ nbits bf h d :: nat"
  define t1 where "t1 = t + push_bit ((h - d - 2) * kBFNodeSizeLog2 bf) 1"
  note good = "1.prems"(1) and al = "1.prems"(4)
  have TS: "0 < ?TS" by (simp add: twig_size_pow)
  then have x: "lev bf m (t * ?TS) = Some d" using "1.prems"(2) by (simp add: lev_def)
  have dh: "d + 2 \<le> h" using good_levelsD(1) [OF good x] .
  have end1: "t1 * ?TS = t * ?TS + ?n"
    using twig_bits [OF dh, of bf]
    by (simp add: t1_def twig_size_pow push_bit_eq_mult power_add algebra_simps)
  have lt: "t < t1" by (simp add: t1_def push_bit_eq_mult)
  have blk: "y \<in> S \<and> \<not> live bf m l y" if "t * ?TS \<le> y" "y < t1 * ?TS" for y
  proof -
    have "align (nbits bf h d) y = t * ?TS" using that end1 by (intro align_eqI al) simp_all
    then have "align (nbits bf h d) y = align (nbits bf h d) (t * ?TS)"
      using align_self [OF al] by simp
    then show ?thesis
      using good_levelsD(2,3) [OF good x] "1.prems"(3) by (simp add: live_def)
  qed
  have step: "SkipExisting_loop bf h l m t = (case map_of m t1 of None \<Rightarrow> Some t1
      | Some e \<Rightarrow> if e < l then SkipExisting_loop bf h l m t1 else Some t1)"
    by (subst SkipExisting_loop.simps)
      (simp only: "1.prems"(2) option.case Let_def t1_def [symmetric])
  show ?case
  proof (cases "map_of m t1")
    case None
    then show ?thesis using blk lt by (intro exI [of _ t1]) (simp add: step)
  next
    case (Some d1)
    show ?thesis
    proof (cases "d1 < l")
      case False
      then show ?thesis using Some blk lt by (intro exI [of _ t1]) (simp add: step)
    next
      case True
      have "lev bf m (t * ?TS + ?n) = Some d1"
        using Some TS by (simp add: lev_def end1 [symmetric])
      from next_filled_start [OF good x al this]
      have al1: "2 ^ nbits bf h d1 dvd t1 * ?TS" by (simp add: end1)
      obtain t' where t': "SkipExisting_loop bf h l m t1 = Some t'" "t1 < t'"
        "\<forall>y. t1 * ?TS \<le> y \<and> y < t' * ?TS \<longrightarrow> y \<in> S \<and> \<not> live bf m l y"
        using "1.IH" [OF "1.prems"(2) t1_def Some True good Some True al1] by blast
      have "SkipExisting_loop bf h l m t = Some t'"
        using Some True t'(1) by (simp add: step)
      moreover have "y \<in> S \<and> \<not> live bf m l y" if "t * ?TS \<le> y" "y < t' * ?TS" for y
        using blk [of y] t'(3) that by (cases "y < t1 * ?TS") auto
      ultimately show ?thesis using lt t'(2) by (intro exI [of _ t']) auto
    qed
  qed
qed

text \<open>The first value of a filled node that the state machine meets is the start of the node.\<close>

lemma skip_existing:
  assumes ctx: "layer_ctx bf h m l nb ctx" and fl: "flushed bf h m l cps nb0 buf T ctx"
    and good: "good_levels bf h S m" and c: "lev bf m c = Some d" "d < l"
    and al: "2 ^ nbits bf h d dvd c" and S: "\<forall>x\<in>S. x < UINT32_MAX"
  obtains ctx' where "SkipExistingFilledNode c ctx = Some ctx'" and "layer_ctx bf h m l nb ctx'"
    and "flushed bf h m l cps nb0 buf T ctx'"
    and "\<forall>y. c \<le> y \<and> y \<le> ctx_filled_max ctx' \<longrightarrow> \<not> live bf m l y"
proof -
  let ?TS = "kBFTwigSize bf" let ?t = "c div ?TS"
  have TS: "0 < ?TS" by (simp add: twig_size_pow)
  have dh: "d + 2 \<le> h" using good_levelsD(1) [OF good c(1)] .
  have "?TS dvd 2 ^ nbits bf h d"
    using twig_bits [OF dh, of bf] by (simp add: twig_size_pow power_add)
  then have ct: "?t * ?TS = c" using al by (simp add: dvd_trans)
  have mt: "map_of m ?t = Some d" using c(1) by (simp add: lev_def)
  have al': "2 ^ nbits bf h d dvd ?t * ?TS" unfolding ct by (rule al)
  obtain t' where t': "SkipExisting_loop bf h l m ?t = Some t'" "?t < t'"
    "\<forall>y. ?t * ?TS \<le> y \<and> y < t' * ?TS \<longrightarrow> y \<in> S \<and> \<not> live bf m l y"
    using SkipExisting_loop_spec [OF good mt c(2) al'] by blast
  have gt: "c < t' * ?TS" using t'(2) TS ct by (metis mult_less_mono1)
  have "c \<le> t' * ?TS - 1" "t' * ?TS - 1 < t' * ?TS" using gt by linarith+
  then have "t' * ?TS - 1 \<in> S" using t'(3) unfolding ct by blast
  with S have lt: "t' * ?TS < TWO32" by auto
  define ctx' where "ctx' = ctx\<lparr>ctx_filled_max := t' * ?TS - 1\<rparr>"
  have "push_bit (kBFTwigSizeLog2 bf) t' mod TWO32 = t' * ?TS"
    using lt by (simp add: push_bit_eq_mult twig_size_pow [symmetric])
  moreover have "sub32 (t' * ?TS) 1 = t' * ?TS - 1" using lt gt by (intro sub32_le) linarith+
  ultimately have "sub32 (push_bit (kBFTwigSizeLog2 bf) t' mod TWO32) 1 = t' * ?TS - 1"
    by (simp only:)
  then have "SkipExistingFilledNode c ctx = Some ctx'"
    using ctx t'(1) by (simp add: SkipExistingFilledNode_def layer_ctx_def ctx'_def drop_bit_eq_div
        twig_size_pow)
  moreover have "layer_ctx bf h m l nb ctx'" "flushed bf h m l cps nb0 buf T ctx'"
    using ctx fl by (simp_all add: layer_ctx_def flushed_def ctx'_def)
  moreover have "\<forall>y. c \<le> y \<and> y \<le> ctx_filled_max ctx' \<longrightarrow> \<not> live bf m l y"
    using t'(3) ct gt by (auto simp: ctx'_def)
  ultimately show ?thesis by (rule that)
qed

section \<open>The run of the state machine over a layer\<close>

text \<open>
  The invariant after a prefix \<open>p\<close> of the code points \<open>cps\<close>. In \<open>BUILDING_NORMAL_NODE\<close> the last
  touched node is the one being built; in \<open>SKIPPING_FILLED_NODE\<close> all touched nodes are written,
  the values up to \<open>filled_max\<close> touch no further node, and those behind it are not in the last one.
\<close>

definition layer_inv ::
  "branch_factor \<Rightarrow> nat \<Rightarrow> filled_levels \<Rightarrow> nat \<Rightarrow> nat list \<Rightarrow> nat list \<Rightarrow> bit_output_buffer \<Rightarrow>
   nat list \<Rightarrow> encode_state \<Rightarrow> encode_context \<Rightarrow> bool" where
  "layer_inv bf h m l cps nb0 buf p st ctx \<longleftrightarrow>
     (let T = touched bf h m l p; node = align (nbits bf h l)
      in layer_ctx bf h m l (touched bf h m l cps) ctx \<and>
         (case st of
            START \<Rightarrow> p = [] \<and> flushed bf h m l cps nb0 buf [] ctx
          | BUILDING_NORMAL_NODE \<Rightarrow> p \<noteq> [] \<and> live bf m l (last p) \<and> T \<noteq> [] \<and>
              last T = node (last p) \<and>
              building bf h m l cps nb0 buf (butlast T) (node (last p)) p ctx
          | SKIPPING_FILLED_NODE \<Rightarrow> p \<noteq> [] \<and> flushed bf h m l cps nb0 buf T ctx \<and>
              (\<forall>x\<in>set cps. last p < x \<longrightarrow> live bf m l x \<longrightarrow>
                 (if x \<le> ctx_filled_max ctx then T \<noteq> [] \<and> last T = node x
                  else T = [] \<or> last T \<noteq> node x))
          | _ \<Rightarrow> False))"

lemma lev_align:
  assumes "good_levels bf h S m"
  shows "lev bf m (align (nbits bf h l) c) = Some l \<longleftrightarrow> lev bf m c = Some l"
  using good_levelsD(3) [OF assms, of c l "align (nbits bf h l) c"]
    good_levelsD(3) [OF assms, of "align (nbits bf h l) c" l c] align_align [of "nbits bf h l"]
  by auto

text \<open>The next touched node has the next base.\<close>

lemma touched_next:
  assumes "touched bf h m l (p @ [c]) = touched bf h m l p @ [b]" and "cps = p @ c # q"
  shows "length (touched bf h m l p) < length (touched bf h m l cps) \<and>
    touched bf h m l cps ! length (touched bf h m l p) = b"
proof -
  have "cps = (p @ [c]) @ q" by (simp add: assms(2))
  with touched_append [of bf h m l "p @ [c]" q] assms(1)
  obtain zs where "touched bf h m l cps = touched bf h m l p @ b # zs" by auto
  then show ?thesis by simp
qed

lemma children_none:
  assumes "\<forall>x\<in>set p. align (nbits bf h l) x \<noteq> b" shows "children bf h l b p = []"
  using assms by (simp add: children_def filter_empty_conv)

lemma children_closed:
  assumes "\<forall>x\<in>set q. align (nbits bf h l) x \<noteq> b"
  shows "children bf h l b p = children bf h l b (p @ q)"
  using assms by (simp add: children_def filter_empty_conv)

lemma encode_okD:
  assumes "encode_ok bf h m cps"
  shows "sorted_wrt (<) cps" "1 \<le> h" "h \<le> kBFMaxDepth bf" "good_levels bf h (set cps) m"
    "\<And>c. c \<in> set cps \<Longrightarrow> c < UINT32_MAX" "\<And>c. c \<in> set cps \<Longrightarrow> c < 2 ^ nbits bf h 0"
  using assms by (auto simp: encode_ok_def)

lemma touched_members:
  assumes "b \<in> set (touched bf h m l p)"
  obtains x where "x \<in> set p" and "live bf m l x" and "b = align (nbits bf h l) x"
  using assms by (auto simp: set_touched)

lemma fresh_node:
  assumes good: "good_levels bf h S m" and live: "live bf m l c" and sorted: "sorted_wrt (<) (p @ [c])"
    and fresh: "touched bf h m l p = [] \<or> last (touched bf h m l p) \<noteq> align (nbits bf h l) c"
  shows "\<forall>x\<in>set p. align (nbits bf h l) x \<noteq> align (nbits bf h l) c"
proof (intro ballI notI)
  let ?T = "touched bf h m l p" let ?node = "align (nbits bf h l)"
  fix x assume x: "x \<in> set p" and eq: "?node x = ?node c"
  have lt: "\<forall>y\<in>set p. y < c" and sp: "sorted_wrt (<) p"
    using sorted by (simp_all add: sorted_wrt_less_snoc)
  have "live bf m l x" using live_same_node [OF good live eq] .
  then have mem: "?node c \<in> set ?T"
    unfolding set_touched eq [symmetric] using x by (intro imageI) simp
  then have ne: "?T \<noteq> []" by auto
  obtain z where z: "z \<in> set p" "last ?T = ?node z"
    using touched_members [of "last ?T"] ne by (metis last_in_set)
  have "last ?T \<le> ?node c" using z lt by (simp add: align_mono less_imp_le)
  moreover have "?node c \<le> last ?T" by (rule strict_le_last [OF touched_sorted [OF sp] mem])
  ultimately show False using fresh ne by simp
qed

lemma sorted_prefix:
  assumes "sorted_wrt (<) (p @ c # q)"
  shows "sorted_wrt (<) (p @ [c])" "\<forall>x\<in>set p. x < c" "\<forall>x\<in>set q. (c :: nat) < x"
  using assms by (auto simp: sorted_wrt_append)

lemma step_normal:
  assumes ok: "encode_ok bf h m cps" and cps: "cps = p @ c # q" and l: "l < h"
    and ctx: "layer_ctx bf h m l (touched bf h m l cps) ctx"
    and fl: "flushed bf h m l cps nb0 buf (touched bf h m l p) ctx"
    and live: "live bf m l c" and nf: "lev bf m c \<noteq> Some l"
    and fresh: "touched bf h m l p = [] \<or> last (touched bf h m l p) \<noteq> align (nbits bf h l) c"
  shows "\<exists>ctx'. StartNewNormalNode c ctx = Some ctx' \<and>
    layer_inv bf h m l cps nb0 buf (p @ [c]) BUILDING_NORMAL_NODE ctx'"
proof -
  let ?T = "touched bf h m l p" let ?b = "align (nbits bf h l) c"
  note o = encode_okD [OF ok]
  note srt = sorted_prefix [OF o(1) [unfolded cps]]
  have T: "touched bf h m l (p @ [c]) = ?T @ [?b]" using live fresh by (simp add: touched_snoc)
  note nb = touched_next [OF T cps]
  have nf': "lev bf m ?b \<noteq> Some l" using nf lev_align [OF o(4)] by simp
  have c: "c < TWO32" using o(5) [of c] cps by simp
  have ch: "children bf h l ?b p = []"
    by (rule children_none [OF fresh_node [OF o(4) live srt(1) fresh]])
  obtain ctx' where "StartNewNormalNode c ctx = Some ctx'"
    "layer_ctx bf h m l (touched bf h m l cps) ctx'" "building bf h m l cps nb0 buf ?T ?b (p @ [c]) ctx'"
    using start_normal [OF ctx fl conjunct1 [OF nb] conjunct2 [OF nb] nf' l refl c srt(1) ch] .
  then show ?thesis using live by (auto simp: layer_inv_def T)
qed

lemma step_filled:
  assumes ok: "encode_ok bf h m cps" and cps: "cps = p @ c # q" and l: "l < h"
    and ctx: "layer_ctx bf h m l (touched bf h m l cps) ctx"
    and fl: "flushed bf h m l cps nb0 buf (touched bf h m l p) ctx"
    and filled: "lev bf m c = Some l"
    and fresh: "touched bf h m l p = [] \<or> last (touched bf h m l p) \<noteq> align (nbits bf h l) c"
  shows "\<exists>ctx'. StartFilledNode ctx = Some ctx' \<and>
    layer_inv bf h m l cps nb0 buf (p @ [c]) SKIPPING_FILLED_NODE ctx'"
proof -
  let ?T = "touched bf h m l p" let ?b = "align (nbits bf h l) c" let ?n = "2 ^ nbits bf h l :: nat"
  note o = encode_okD [OF ok]
  have live: "live bf m l c" by (simp add: live_def filled)
  have T: "touched bf h m l (p @ [c]) = ?T @ [?b]" using live fresh by (simp add: touched_snoc)
  note nb = touched_next [OF T cps]
  have f: "lev bf m ?b = Some l" using filled lev_align [OF o(4)] by simp
  have pos: "0 < ?n" by simp
  have "align (nbits bf h l) (?b + ?n - 1) = ?b" using pos by (intro align_eqI align_dvd) linarith+
  then have "?b + ?n - 1 \<in> set cps" using good_levelsD(2) [OF o(4) filled] by simp
  then have "?b + ?n - 1 < UINT32_MAX" by (rule o(5))
  then have bound: "?b + ?n \<le> TWO32" by linarith
  obtain ctx' where ctx': "StartFilledNode ctx = Some ctx'"
    "layer_ctx bf h m l (touched bf h m l cps) ctx'" "flushed bf h m l cps nb0 buf (?T @ [?b]) ctx'"
    "ctx_filled_max ctx' = ?b + ?n - 1"
    using start_filled [OF ctx fl conjunct1 [OF nb] conjunct2 [OF nb] f bound] .
  have "if x \<le> ctx_filled_max ctx' then ?b = align (nbits bf h l) x else ?b \<noteq> align (nbits bf h l) x"
    if "c < x" for x
  proof (cases "x \<le> ctx_filled_max ctx'")
    case True
    have "?b \<le> x" using align_le [of "nbits bf h l" c] that by linarith
    moreover have "x < ?b + ?n" using True pos unfolding ctx'(4) by linarith
    ultimately have "align (nbits bf h l) x = ?b" by (intro align_eqI align_dvd)
    with True show ?thesis by simp
  next
    case False
    then have "?b + ?n \<le> x" using pos unfolding ctx'(4) by linarith
    then have "?b \<noteq> align (nbits bf h l) x" using align_upper [of x "nbits bf h l"] by linarith
    with False show ?thesis by simp
  qed
  with ctx' show ?thesis by (auto simp: layer_inv_def T)
qed

lemma step_dead:
  assumes ok: "encode_ok bf h m cps" and cps: "cps = p @ c # q" and l: "l < h"
    and ctx: "layer_ctx bf h m l (touched bf h m l cps) ctx"
    and fl: "flushed bf h m l cps nb0 buf (touched bf h m l p) ctx"
    and dead: "lev bf m c = Some d" "d < l" and prev: "p = [] \<or> live bf m l (last p)"
  shows "\<exists>ctx'. SkipExistingFilledNode c ctx = Some ctx' \<and>
    layer_inv bf h m l cps nb0 buf (p @ [c]) SKIPPING_FILLED_NODE ctx'"
proof -
  let ?T = "touched bf h m l p" let ?node = "align (nbits bf h l)"
  note o = encode_okD [OF ok]
  note srt = sorted_prefix [OF o(1) [unfolded cps]]
  have dd: "\<not> live bf m l c" using dead by (simp add: live_def)
  have T: "touched bf h m l (p @ [c]) = ?T" using dd by (simp add: touched_snoc)
  have al: "2 ^ nbits bf h d dvd c"
  proof (rule ccontr)
    assume nd: "\<not> 2 ^ nbits bf h d dvd c"
    then have "0 < c" by (cases c) auto
    have eq: "align (nbits bf h d) (c - 1) = align (nbits bf h d) c" by (rule align_pred [OF nd])
    have mem: "c - 1 \<in> set cps" and "lev bf m (c - 1) = Some d"
      using good_levelsD(2,3) [OF o(4) dead(1) eq] .
    then have pd: "\<not> live bf m l (c - 1)" using dead(2) by (simp add: live_def)
    have "c - 1 \<in> set p" using mem \<open>0 < c\<close> srt(3) cps by (auto dest!: bspec)
    then have "p \<noteq> []" "c - 1 \<le> last p"
      using strict_le_last [of p "c - 1"] srt(1) by (auto simp: sorted_wrt_append)
    then have "last p \<in> set p" by simp
    then have "last p < c" using srt(2) by blast
    then have "last p = c - 1" using \<open>c - 1 \<le> last p\<close> by linarith
    with prev pd \<open>p \<noteq> []\<close> show False by simp
  qed
  obtain ctx' where ctx': "SkipExistingFilledNode c ctx = Some ctx'"
    "layer_ctx bf h m l (touched bf h m l cps) ctx'" "flushed bf h m l cps nb0 buf ?T ctx'"
    "\<forall>y. c \<le> y \<and> y \<le> ctx_filled_max ctx' \<longrightarrow> \<not> live bf m l y"
    using skip_existing [OF ctx fl o(4) dead al] o(5) by blast
  have "?T = [] \<or> last ?T \<noteq> ?node x" if "c < x" for x
  proof (rule ccontr)
    assume "\<not> ?thesis"
    then have ne: "?T \<noteq> []" and eq: "last ?T = ?node x" by simp_all
    then obtain z where z: "z \<in> set p" "live bf m l z" "?node x = ?node z"
      using touched_members [of "last ?T"] by (metis last_in_set)
    have "?node z \<le> ?node c" "?node c \<le> ?node x"
      using z(1) srt(2) that by (simp_all add: align_mono less_imp_le)
    then have "?node c = ?node z" using z(3) by simp
    with live_same_node [OF o(4) z(2)] dd show False by simp
  qed
  with ctx' show ?thesis by (auto simp: layer_inv_def T)
qed

section \<open>The layer\<close>

lemma OverrideIfFilled_lev:
  assumes "layer_ctx bf h m l nb ctx"
  shows "OverrideIfFilled c ctx = (case lev bf m c of None \<Rightarrow> NEW_NORMAL_NODE
    | Some d \<Rightarrow> if l = d then NEW_FILLED_NODE else if d < l then EXISTING_FILLED_NODE
                else NEW_NORMAL_NODE)"
  using assms by (simp add: OverrideIfFilled_def layer_ctx_def lev_def Let_def drop_bit_eq_div
      twig_size_pow split: option.split)

text \<open>What the state machine may meet at the end of the current node.\<close>

lemma code_point_kinds:
  obtains (dead) d where "lev bf m c = Some d" "d < l"
    | (filled) "lev bf m c = Some l" "live bf m l c"
    | (normal) "live bf m l c" "lev bf m c \<noteq> Some l"
proof (cases "lev bf m c")
  case None
  then show ?thesis by (intro normal) (simp_all add: live_def)
next
  case (Some d)
  then show ?thesis
    by (cases d l rule: linorder_cases) (rule dead filled normal; simp add: live_def)+
qed

lemma layer_invD:
  assumes "layer_inv bf h m l cps nb0 buf p st ctx"
  shows "layer_ctx bf h m l (touched bf h m l cps) ctx"
    and "st = START \<Longrightarrow> p = [] \<and> flushed bf h m l cps nb0 buf [] ctx"
    and "st = BUILDING_NORMAL_NODE \<Longrightarrow> p \<noteq> [] \<and> live bf m l (last p) \<and> touched bf h m l p \<noteq> [] \<and>
      last (touched bf h m l p) = align (nbits bf h l) (last p) \<and>
      building bf h m l cps nb0 buf (butlast (touched bf h m l p)) (align (nbits bf h l) (last p)) p ctx"
    and "st = SKIPPING_FILLED_NODE \<Longrightarrow> p \<noteq> [] \<and>
      flushed bf h m l cps nb0 buf (touched bf h m l p) ctx"
    and "st = SKIPPING_FILLED_NODE \<Longrightarrow> x \<in> set cps \<Longrightarrow> last p < x \<Longrightarrow> live bf m l x \<Longrightarrow>
      (if x \<le> ctx_filled_max ctx
       then touched bf h m l p \<noteq> [] \<and> last (touched bf h m l p) = align (nbits bf h l) x
       else touched bf h m l p = [] \<or> last (touched bf h m l p) \<noteq> align (nbits bf h l) x)"
    and "st \<noteq> END" "st \<noteq> ERROR"
proof -
  show "layer_ctx bf h m l (touched bf h m l cps) ctx" "st \<noteq> END" "st \<noteq> ERROR"
    using assms by (auto simp: layer_inv_def Let_def)
qed (use assms in \<open>simp_all add: layer_inv_def Let_def\<close>)

lemma layer_step_new:
  assumes ok: "encode_ok bf h m cps" and cps: "cps = p @ c # q" and l: "l < h"
    and st: "st = START \<and> ctx1 = ctx \<or> st = BUILDING_NORMAL_NODE \<and> ctx1 = EndNormalNode ctx"
    and ctx: "layer_ctx bf h m l (touched bf h m l cps) ctx"
    and l1: "layer_ctx bf h m l (touched bf h m l cps) ctx1"
    and fl: "flushed bf h m l cps nb0 buf (touched bf h m l p) ctx1"
    and fresh: "touched bf h m l p = [] \<or> last (touched bf h m l p) \<noteq> align (nbits bf h l) c"
    and prev: "p = [] \<or> live bf m l (last p)"
  shows "\<exists>st' ctx'. UpdateState st (OverrideIfFilled c ctx, c) ctx = Some (st', ctx') \<and>
      layer_inv bf h m l cps nb0 buf (p @ [c]) st' ctx'"
proof (cases rule: code_point_kinds [of bf m c l])
  case (dead d)
  from step_dead [OF ok cps l l1 fl dead prev] show ?thesis using st dead
    by (auto simp: OverrideIfFilled_lev [OF ctx] UpdateState_def goto_def)
next
  case filled
  from step_filled [OF ok cps l l1 fl filled(1) fresh] show ?thesis using st filled
    by (auto simp: OverrideIfFilled_lev [OF ctx] UpdateState_def goto_def)
next
  case normal
  then have "OverrideIfFilled c ctx = NEW_NORMAL_NODE"
    by (auto simp: OverrideIfFilled_lev [OF ctx] live_def split: option.splits)
  with step_normal [OF ok cps l l1 fl normal fresh] show ?thesis using st
    by (auto simp: UpdateState_def goto_def)
qed

lemma layer_step_building:
  assumes ok: "encode_ok bf h m cps" and cps: "cps = p @ c # q" and l: "l < h"
    and inv: "layer_inv bf h m l cps nb0 buf p BUILDING_NORMAL_NODE ctx"
  shows "\<exists>st' ctx'. UpdateState BUILDING_NORMAL_NODE (ParseCodepoint c BUILDING_NORMAL_NODE ctx) ctx =
      Some (st', ctx') \<and> layer_inv bf h m l cps nb0 buf (p @ [c]) st' ctx'"
proof -
  let ?T = "touched bf h m l p" let ?node = "align (nbits bf h l)"
  note o = encode_okD [OF ok]
  note srt = sorted_prefix [OF o(1) [unfolded cps]]
  note lctx = layer_invD(1) [OF inv]
  from layer_invD(3) [OF inv refl]
  have p: "p \<noteq> []" "live bf m l (last p)" "?T \<noteq> []" "last ?T = ?node (last p)"
    and bld: "building bf h m l cps nb0 buf (butlast ?T) (?node (last p)) p ctx" by simp_all
  have lastp: "last p < c" using p(1) srt(2) by simp
  have nmax: "ctx_node_max ctx = ?node (last p) + 2 ^ nbits bf h l - 1"
    using bld by (simp add: building_def)
  have pos: "0 < (2::nat) ^ nbits bf h l" by simp
  show ?thesis
  proof (cases "c \<le> ctx_node_max ctx")
    case True
    have "?node (last p) \<le> c" using align_le [of "nbits bf h l" "last p"] lastp by linarith
    moreover have "c < ?node (last p) + 2 ^ nbits bf h l" using True nmax pos by linarith
    ultimately have same: "?node c = ?node (last p)" by (intro align_eqI align_dvd)
    have live: "live bf m l c" by (rule live_same_node [OF o(4) p(2) same])
    have T: "touched bf h m l (p @ [c]) = ?T" using p(3,4) same by (simp add: touched_snoc)
    have c: "c < TWO32" using o(5) [of c] cps by simp
    from update_bit [OF lctx bld l same c srt(1)] p(3,4) same live True show ?thesis
      by (auto simp: ParseCodepoint_def UpdateState_def UpdateNormalNode_def layer_inv_def Let_def T)
  next
    case False
    have far: "?node x \<noteq> ?node (last p)" if "c \<le> x" for x
      using False that nmax pos align_upper [of x "nbits bf h l"] by linarith
    have "\<forall>x\<in>set (c # q). ?node x \<noteq> ?node (last p)" using far srt(3) by (auto simp: less_imp_le)
    then have "children bf h l (?node (last p)) p = children bf h l (?node (last p)) cps"
      unfolding cps by (rule children_closed)
    note e0 = end_building [OF lctx bld this]
    have "butlast ?T @ [?node (last p)] = ?T" using p(3) unfolding p(4) [symmetric] by simp
    with e0 have e: "layer_ctx bf h m l (touched bf h m l cps) (EndNormalNode ctx)"
      "flushed bf h m l cps nb0 buf ?T (EndNormalNode ctx)" by simp_all
    have fresh: "?T = [] \<or> last ?T \<noteq> ?node c" using p(4) far [of c] by simp
    have "p = [] \<or> live bf m l (last p)" using p(2) by simp
    moreover have "BUILDING_NORMAL_NODE = START \<and> EndNormalNode ctx = ctx \<or>
        BUILDING_NORMAL_NODE = BUILDING_NORMAL_NODE \<and> EndNormalNode ctx = EndNormalNode ctx" by simp
    ultimately have "\<exists>st' ctx'. UpdateState BUILDING_NORMAL_NODE (OverrideIfFilled c ctx, c) ctx =
        Some (st', ctx') \<and> layer_inv bf h m l cps nb0 buf (p @ [c]) st' ctx'"
      by (intro layer_step_new [OF ok cps l _ lctx e fresh])
    moreover have "ParseCodepoint c BUILDING_NORMAL_NODE ctx = (OverrideIfFilled c ctx, c)"
      using False by (simp add: ParseCodepoint_def)
    ultimately show ?thesis by (simp only:)
  qed
qed

lemma layer_step_skipping:
  assumes ok: "encode_ok bf h m cps" and cps: "cps = p @ c # q" and l: "l < h"
    and inv: "layer_inv bf h m l cps nb0 buf p SKIPPING_FILLED_NODE ctx"
  shows "\<exists>st' ctx'. UpdateState SKIPPING_FILLED_NODE (ParseCodepoint c SKIPPING_FILLED_NODE ctx) ctx =
      Some (st', ctx') \<and> layer_inv bf h m l cps nb0 buf (p @ [c]) st' ctx'"
proof -
  let ?T = "touched bf h m l p" let ?node = "align (nbits bf h l)"
  note o = encode_okD [OF ok]
  note srt = sorted_prefix [OF o(1) [unfolded cps]]
  note lctx = layer_invD(1) [OF inv] note skip = layer_invD(5) [OF inv refl]
  from layer_invD(4) [OF inv refl]
  have p: "p \<noteq> []" and fl: "flushed bf h m l cps nb0 buf ?T ctx" by simp_all
  have lastp: "last p < c" using p srt(2) by simp
  have c: "c \<in> set cps" by (simp add: cps)
  have stay: "layer_inv bf h m l cps nb0 buf (p @ [c]) SKIPPING_FILLED_NODE ctx"
    if "\<not> live bf m l c \<or> (?T \<noteq> [] \<and> last ?T = ?node c)"
  proof -
    have "touched bf h m l (p @ [c]) = ?T" using that by (auto simp: touched_snoc)
    moreover have "last p < x" if "c < x" for x using lastp that by simp
    ultimately show ?thesis using fl skip lctx by (simp add: layer_inv_def Let_def)
  qed
  have old: "c \<le> ctx_filled_max ctx \<Longrightarrow> \<not> live bf m l c \<or> (?T \<noteq> [] \<and> last ?T = ?node c)"
    and fresh: "\<not> c \<le> ctx_filled_max ctx \<Longrightarrow> live bf m l c \<Longrightarrow> ?T = [] \<or> last ?T \<noteq> ?node c"
    using skip [OF c lastp] by auto
  show ?thesis
  proof (cases "c \<le> ctx_filled_max ctx")
    case True
    with stay old show ?thesis by (auto simp: ParseCodepoint_def UpdateState_def)
  next
    case False
    then have parse: "ParseCodepoint c SKIPPING_FILLED_NODE ctx = (OverrideIfFilled c ctx, c)"
      by (simp add: ParseCodepoint_def)
    show ?thesis
    proof (cases rule: code_point_kinds [of bf m c l])
      case (dead d)
      then have "\<not> live bf m l c" by (simp add: live_def)
      with stay dead show ?thesis
        by (auto simp: parse OverrideIfFilled_lev [OF lctx] UpdateState_def)
    next
      case filled
      from step_filled [OF ok cps l lctx fl filled(1) fresh [OF False filled(2)]] filled
      show ?thesis by (auto simp: parse OverrideIfFilled_lev [OF lctx] UpdateState_def goto_def)
    next
      case normal
      then have "OverrideIfFilled c ctx = NEW_NORMAL_NODE"
        by (auto simp: OverrideIfFilled_lev [OF lctx] live_def split: option.splits)
      with step_normal [OF ok cps l lctx fl normal fresh [OF False normal(1)]]
      show ?thesis by (auto simp: parse UpdateState_def goto_def)
    qed
  qed
qed

lemma layer_step:
  assumes ok: "encode_ok bf h m cps" and cps: "cps = p @ c # q" and l: "l < h"
    and inv: "layer_inv bf h m l cps nb0 buf p st ctx"
  shows "\<exists>st' ctx'. UpdateState st (ParseCodepoint c st ctx) ctx = Some (st', ctx') \<and>
    layer_inv bf h m l cps nb0 buf (p @ [c]) st' ctx'"
proof (cases st)
  case START
  note lctx = layer_invD(1) [OF inv]
  have p: "p = []" "flushed bf h m l cps nb0 buf (touched bf h m l p) ctx"
    using layer_invD(2) [OF inv START] by simp_all
  have "\<exists>st' ctx'. UpdateState START (OverrideIfFilled c ctx, c) ctx = Some (st', ctx') \<and>
      layer_inv bf h m l cps nb0 buf (p @ [c]) st' ctx'"
    using p(1) by (intro layer_step_new [OF ok cps l _ lctx lctx p(2)]) simp_all
  then show ?thesis by (simp add: ParseCodepoint_def START)
next
  case BUILDING_NORMAL_NODE
  with layer_step_building [OF ok cps l] inv show ?thesis by simp
next
  case SKIPPING_FILLED_NODE
  with layer_step_skipping [OF ok cps l] inv show ?thesis by simp
qed (use layer_invD(6,7) [OF inv] in simp_all)

lemma layer_loop:
  assumes ok: "encode_ok bf h m cps" and "cps = p @ q" and l: "l < h"
    and "layer_inv bf h m l cps nb0 buf p st ctx"
  shows "\<exists>st' ctx'. EncodeLayer_loop q (st, ctx) = Some (st', ctx') \<and>
    layer_inv bf h m l cps nb0 buf cps st' ctx'"
  using assms(2,4)
proof (induction q arbitrary: p st ctx)
  case Nil
  then show ?case by simp
next
  case (Cons c q)
  from layer_step [OF ok Cons.prems(1) l Cons.prems(2)]
  obtain st' ctx' where "UpdateState st (ParseCodepoint c st ctx) ctx = Some (st', ctx')"
    "layer_inv bf h m l cps nb0 buf (p @ [c]) st' ctx'" by blast
  with Cons.IH [of "p @ [c]" st' ctx'] Cons.prems(1) show ?case by simp
qed

lemma layer_bits_small:
  assumes "h \<le> kBFMaxDepth bf" shows "nbits bf h l < 256"
proof -
  have "kBFNodeSizeLog2 bf * (h - l) \<le> kBFNodeSizeLog2 bf * kBFMaxDepth bf"
    using assms by (intro mult_le_mono2) linarith
  also have "\<dots> < 256" by (cases bf) simp_all
  finally show ?thesis by (simp add: nbits_def)
qed

lemma ValuesPerBit_nbits:
  assumes "l < h" and "h \<le> kBFMaxDepth bf"
  shows "ValuesPerBitLog2ForLayer l h bf = nbits bf h (Suc l)"
proof -
  have "int (kBFNodeSizeLog2 bf) * (int h - int l - 1) = int (nbits bf h (Suc l))"
    using assms(1) by (simp add: nbits_def of_nat_diff)
  then show ?thesis using layer_bits_small [OF assms(2), of "Suc l"]
    by (simp add: ValuesPerBitLog2ForLayer_def Let_def)
qed

text \<open>
  A layer appends the code of each touched node and queues their children; it neither reads past
  the bases nor looks up an absent twig.
\<close>

lemma EncodeLayer_spec:
  assumes ok: "encode_ok bf h m cps" and l: "l < h" and ne: "cps \<noteq> []"
  shows "EncodeLayer cps l h bf m (touched bf h m l cps) nb0 buf =
    Some (nb0 @ concat (map (node_kids bf h m l cps) (touched bf h m l cps)),
          write_all (map (node_code bf h m l cps) (touched bf h m l cps)) buf)"
proof -
  let ?T = "touched bf h m l cps"
  note o = encode_okD [OF ok]
  have vpb: "ValuesPerBitLog2ForLayer l h bf = nbits bf h (Suc l)" by (rule ValuesPerBit_nbits [OF l o(3)])
  have size: "push_bit (nbits bf h (Suc l)) (kBFNodeSize bf) = 2 ^ nbits bf h l"
    by (simp add: push_bit_eq_mult nbits_Suc [OF l] power_add node_size_pow)
  define ctx where "ctx = \<lparr>ctx_layer = l, ctx_branch_factor = bf, ctx_tree_height = h,
      ctx_values_per_bit_log_2 = nbits bf h (Suc l), ctx_node_size = 2 ^ nbits bf h l,
      ctx_filled_levels = m, ctx_node_bases = ?T, ctx_next_node_base = 0, ctx_node_base = kInvalidCp,
      ctx_node_max = kInvalidCp, ctx_node_mask = 0, ctx_filled_max = kInvalidCp,
      ctx_next_node_bases = nb0, ctx_bit_buffer = buf\<rparr>"
  have "layer_inv bf h m l cps nb0 buf [] START ctx"
    by (simp add: layer_inv_def ctx_def layer_ctx_def flushed_def write_all_def)
  from layer_loop [OF ok _ l this, of cps]
  obtain st' ctx' where run: "EncodeLayer_loop cps (START, ctx) = Some (st', ctx')"
    and inv: "layer_inv bf h m l cps nb0 buf cps st' ctx'" by auto
  have "\<exists>st2 ctx2. UpdateState st' kEndOfValues ctx' = Some (st2, ctx2) \<and>
      flushed bf h m l cps nb0 buf ?T ctx2"
  proof (cases st')
    case START
    with layer_invD(2) [OF inv] ne show ?thesis by simp
  next
    case BUILDING_NORMAL_NODE
    from layer_invD(3) [OF inv this] end_building [OF layer_invD(1) [OF inv], of cps nb0 buf]
    have "flushed bf h m l cps nb0 buf (butlast ?T @ [last ?T]) (EndNormalNode ctx')" "?T \<noteq> []"
      by auto
    with BUILDING_NORMAL_NODE show ?thesis by (simp add: UpdateState_def kEndOfValues_def)
  next
    case SKIPPING_FILLED_NODE
    with layer_invD(4) [OF inv this] show ?thesis by (simp add: UpdateState_def kEndOfValues_def)
  qed (use layer_invD(6,7) [OF inv] in simp_all)
  then show ?thesis using run
    by (auto simp: EncodeLayer_def Let_def vpb size ctx_def flushed_def)
qed

end
