(* ===== verification/Sparse_Encode.thy ===== *)
theory Sparse_Encode
  imports Sparse_Layer
begin

text \<open>
  The whole encoding: the children that one layer queues are exactly the touched nodes of the
  next, so that \<^verbatim>\<open>EncodeSet\<close> always succeeds and writes the codes of the touched nodes of all
  layers, from the root down.
\<close>

section \<open>From one layer to the next\<close>

lemma concat_blocks_sorted:
  fixes f :: "nat \<Rightarrow> nat list"
  assumes "sorted_wrt (<) bs" and "\<forall>b\<in>set bs. 2 ^ k dvd b"
    and "\<forall>b\<in>set bs. sorted_wrt (<) (f b) \<and> (\<forall>x\<in>set (f b). b \<le> x \<and> x < b + 2 ^ k)"
  shows "sorted_wrt (<) (concat (map f bs))"
  using assms
proof (induction bs)
  case Nil
  show ?case by simp
next
  case (Cons b bs)
  have "x < y" if x: "x \<in> set (f b)" and y: "y \<in> set (concat (map f bs))" for x y
  proof -
    obtain b' where b': "b' \<in> set bs" "y \<in> set (f b')" using y by auto
    have "b + 2 ^ k \<le> b'" using Cons.prems b'(1) by (intro aligned_less_step) auto
    moreover have "x < b + 2 ^ k" "b' \<le> y" using Cons.prems(3) x b' by auto
    ultimately show ?thesis by simp
  qed
  with Cons show ?case by (auto simp: sorted_wrt_append)
qed

text \<open>The base of the child that holds a value is the value aligned to the next layer.\<close>

lemma child_base:
  assumes "align (nbits bf h l) x = b"
  shows "b + child_of bf h l b x * 2 ^ nbits bf h (Suc l) = align (nbits bf h (Suc l)) x"
proof -
  let ?V = "nbits bf h (Suc l)"
  have "2 ^ ?V dvd b"
    using align_dvd [of "nbits bf h l" x] assms nbits_mono [of l "Suc l" bf h]
    by (metis dvd_trans le_imp_power_dvd le_SucI le_refl)
  then obtain q where q: "b = q * 2 ^ ?V" by (metis dvd_def mult.commute)
  have "b \<le> x" using align_le [of "nbits bf h l" x] assms by simp
  then obtain y where "x = q * 2 ^ ?V + y" using q le_Suc_ex by blast
  then show ?thesis by (simp add: child_of_def align_def q add_mult_distrib)
qed

lemma live_Suc: "live bf m (Suc l) x \<longleftrightarrow> live bf m l x \<and> lev bf m x \<noteq> Some l"
  by (auto simp: live_def split: option.splits)

lemma set_node_kids:
  assumes "Suc l < h"
  shows "set (node_kids bf h m l cps b) =
    (if lev bf m b = Some l then {}
     else align (nbits bf h (Suc l)) ` {x \<in> set cps. align (nbits bf h l) x = b})"
proof -
  have "(\<lambda>x. b + child_of bf h l b x * 2 ^ nbits bf h (Suc l)) ` {x \<in> set cps. align (nbits bf h l) x = b}
      = align (nbits bf h (Suc l)) ` {x \<in> set cps. align (nbits bf h l) x = b}"
    by (rule image_cong) (auto simp: child_base)
  then show ?thesis using assms
    by (simp add: node_kids_def child_bases_def set_children image_image)
qed

lemma node_kids_block:
  assumes "sorted_wrt (<) cps" and "Suc l < h" and "x \<in> set (node_kids bf h m l cps b)"
  shows "b \<le> x \<and> x < b + 2 ^ nbits bf h l"
proof -
  let ?W = "nbits bf h l" and ?V = "nbits bf h (Suc l)"
  from assms(3) obtain z where z: "align ?W z = b" "x = align ?V z"
    by (auto simp: set_node_kids [OF assms(2)] split: if_splits)
  have "align ?W x = b"
    using align_align [of ?V ?W z] nbits_mono [of l "Suc l" bf h] z by simp
  then show ?thesis using align_le [of ?W x] align_upper [of x ?W] by simp
qed

lemma node_kids_sorted:
  assumes "sorted_wrt (<) cps" shows "sorted_wrt (<) (node_kids bf h m l cps b)"
proof -
  have "sorted_wrt (<) (map (\<lambda>i. b + i * 2 ^ nbits bf h (Suc l)) (children bf h l b cps))"
    using children_sorted [OF assms, of bf h l b] by (simp add: sorted_wrt_map)
  then show ?thesis by (simp add: node_kids_def child_bases_def)
qed

lemma touched_aligned: "b \<in> set (touched bf h m l p) \<Longrightarrow> 2 ^ nbits bf h l dvd b"
  by (auto simp: set_touched align_dvd)

theorem kids_touched:
  assumes ok: "encode_ok bf h m cps" and l: "Suc l < h"
  shows "concat (map (node_kids bf h m l cps) (touched bf h m l cps)) = touched bf h m (Suc l) cps"
proof (rule strict_sorted_eqI)
  note o = encode_okD [OF ok]
  let ?node = "align (nbits bf h l)" and ?child = "align (nbits bf h (Suc l))"
  show "sorted_wrt (<) (touched bf h m (Suc l) cps)" by (rule touched_sorted [OF o(1)])
  show "sorted_wrt (<) (concat (map (node_kids bf h m l cps) (touched bf h m l cps)))"
    by (rule concat_blocks_sorted [of _ "nbits bf h l"])
      (auto intro: touched_sorted o(1) touched_aligned node_kids_sorted
        dest: node_kids_block [OF o(1) l])
  have live: "live bf m l x \<longleftrightarrow> live bf m l y" if "?node x = ?node y" for x y
    using live_same_node [OF o(4)] that by metis
  have filled: "lev bf m (?node x) = Some l \<longleftrightarrow> lev bf m x = Some l" for x
    by (rule lev_align [OF o(4)])
  show "set (concat (map (node_kids bf h m l cps) (touched bf h m l cps))) =
      set (touched bf h m (Suc l) cps)"
  proof (intro set_eqI iffI)
    fix y assume "y \<in> set (concat (map (node_kids bf h m l cps) (touched bf h m l cps)))"
    then obtain z x where z: "live bf m l z" and x: "x \<in> set cps" "?node x = ?node z"
      "y = ?child x" "lev bf m (?node z) \<noteq> Some l"
      by (auto simp: set_touched set_node_kids [OF l] split: if_splits)
    have "live bf m (Suc l) x" using live [OF x(2)] z filled [of x] x(2,4) by (simp add: live_Suc)
    with x show "y \<in> set (touched bf h m (Suc l) cps)" by (auto simp: set_touched)
  next
    fix y assume "y \<in> set (touched bf h m (Suc l) cps)"
    then obtain x where x: "x \<in> set cps" "live bf m (Suc l) x" "y = ?child x"
      by (auto simp: set_touched)
    then have "y \<in> set (node_kids bf h m l cps (?node x))"
      using filled [of x] by (auto simp: set_node_kids [OF l] live_Suc)
    with x show "y \<in> set (concat (map (node_kids bf h m l cps) (touched bf h m l cps)))"
      by (auto simp: set_touched live_Suc)
  qed
qed

section \<open>The encoded nodes\<close>

definition all_nodes :: "branch_factor \<Rightarrow> nat \<Rightarrow> filled_levels \<Rightarrow> nat list \<Rightarrow> nat \<Rightarrow> nat list" where
  "all_nodes bf h m cps l =
     concat (map (\<lambda>l. map (node_code bf h m l cps) (touched bf h m l cps)) [l..<h])"

lemma write_all_append: "write_all (xs @ ys) buf = write_all ys (write_all xs buf)"
  by (simp add: write_all_def)

lemma all_nodes_Cons:
  "l < h \<Longrightarrow> all_nodes bf h m cps l =
     map (node_code bf h m l cps) (touched bf h m l cps) @ all_nodes bf h m cps (Suc l)"
  by (simp add: all_nodes_def upt_conv_Cons)

lemma all_nodes_end: "h \<le> l \<Longrightarrow> all_nodes bf h m cps l = []"
  by (simp add: all_nodes_def)

lemma touched_empty_below:
  assumes "encode_ok bf h m cps" and "touched bf h m l cps = []" and "l \<le> l'" and "l' < h"
  shows "touched bf h m l' cps = []"
  using assms(3,4)
proof (induction l' rule: dec_induct)
  case base
  show ?case by (rule assms(2))
next
  case (step n)
  then show ?case using kids_touched [OF assms(1), of n] by simp
qed

lemma EncodeSet_layers_spec:
  assumes ok: "encode_ok bf h m cps" and ne: "cps \<noteq> []" and "l < h"
  shows "EncodeSet_layers cps h bf m [l..<h] (touched bf h m l cps) buf =
    Some (write_all (all_nodes bf h m cps l) buf)"
  using assms(3)
proof (induction "h - l" arbitrary: l buf)
  case 0
  then show ?case by simp
next
  case (Suc n)
  let ?next = "concat (map (node_kids bf h m l cps) (touched bf h m l cps))"
  let ?buf = "write_all (map (node_code bf h m l cps) (touched bf h m l cps)) buf"
  have step: "EncodeSet_layers cps h bf m [l..<h] (touched bf h m l cps) buf =
      (if ?next = [] then Some ?buf else EncodeSet_layers cps h bf m [Suc l..<h] ?next ?buf)"
    using EncodeLayer_spec [OF ok \<open>l < h\<close> ne, of "[]" buf] \<open>l < h\<close> by (simp add: upt_conv_Cons)
  show ?case
  proof (cases "?next = []")
    case True
    have "all_nodes bf h m cps (Suc l) = []"
    proof (cases "Suc l < h")
      case False
      then show ?thesis by (simp add: all_nodes_end)
    next
      case lt: True
      with True kids_touched [OF ok lt] have "touched bf h m (Suc l) cps = []" by simp
      then have "touched bf h m l' cps = []" if "l' \<in> set [Suc l..<h]" for l'
        using touched_empty_below [OF ok, of "Suc l" l'] that by simp
      then show ?thesis by (simp add: all_nodes_def)
    qed
    with True step \<open>l < h\<close> show ?thesis by (simp add: all_nodes_Cons)
  next
    case False
    have lt: "Suc l < h"
    proof (rule ccontr)
      assume "\<not> Suc l < h"
      with \<open>l < h\<close> have "Suc l = h" by simp
      with False show False by (auto simp: node_kids_def child_bases_def)
    qed
    have "n = h - Suc l" using Suc.hyps(2) by simp
    with Suc.hyps(1) [of "Suc l" ?buf] lt False step \<open>l < h\<close> kids_touched [OF ok lt]
    show ?thesis by (simp add: all_nodes_Cons write_all_append)
  qed
qed

lemma touched_root:
  assumes "encode_ok bf h m cps" and "cps \<noteq> []" shows "touched bf h m 0 cps = [0]"
proof -
  note o = encode_okD [OF assms(1)]
  have "align (nbits bf h 0) x = 0" if "x \<in> set cps" for x using o(6) [OF that] by (simp add: align_def)
  moreover have "live bf m 0 x" for x by (simp add: live_def split: option.split)
  ultimately have "set (touched bf h m 0 cps) = {0}" using assms(2)
    by (auto simp: set_touched image_iff) (metis last_in_set)
  then show ?thesis using touched_sorted [OF o(1), of bf h m 0]
    by (intro strict_sorted_eqI) simp_all
qed

theorem EncodeSet_spec:
  assumes ne: "cps \<noteq> []" and sorted: "sorted_wrt (<) cps" and small: "\<forall>c\<in>set cps. c < UINT32_MAX"
    and depth: "TreeDepthFor (last cps) bf \<le> kBFMaxDepth bf"
    and twigs: "set ts = {t. complete (kBFTwigSize bf) (set cps) t}" "sorted_wrt (<) ts"
  shows "\<exists>m. encode_ok bf (TreeDepthFor (last cps) bf) m cps \<and>
    EncodeSet cps bf ts = Some (ob_to_string (write_nodes bf (TreeDepthFor (last cps) bf)
      (map of_nat (all_nodes bf (TreeDepthFor (last cps) bf) m cps 0))))"
proof -
  let ?h = "TreeDepthFor (last cps) bf"
  have h: "TreeDepthFor_vector cps bf = ?h" using ne by (simp add: TreeDepthFor_vector_def last_conv_nth)
  have "\<forall>x\<in>set cps. x < TWO32" using small by auto
  then obtain m where m: "FindFilledNodes bf ?h ts = Some m" "good_levels bf ?h (set cps) m"
    using FindFilledNodes_good [OF twigs _ depth] by blast
  have "x < 2 ^ nbits bf ?h 0" if "x \<in> set cps" for x
    using strict_le_last [OF sorted that] TreeDepthFor_upper [of "last cps" bf]
    by (simp add: nbits_def)
  then have ok: "encode_ok bf ?h m cps"
    using sorted small depth m(2) TreeDepthFor_pos by (simp add: encode_ok_def)
  have "EncodeSet cps bf ts = Some (ob_to_string (write_all (all_nodes bf ?h m cps 0) (BitOutputBuffer bf ?h)))"
    using EncodeSet_layers_spec [OF ok ne, of 0] touched_root [OF ok ne] TreeDepthFor_pos [of "last cps" bf]
    by (simp add: EncodeSet_def ne h m(1) Let_def)
  then have "EncodeSet cps bf ts = Some (ob_to_string (write_nodes bf ?h (map of_nat (all_nodes bf ?h m cps 0))))"
    by (simp add: write_all_def write_nodes_def)
  with ok show ?thesis by blast
qed

end
