(* ===== verification/Sparse_Decode.thy ===== *)
theory Sparse_Decode
  imports Sparse_Encode
begin

text \<open>
  Decoding what \<^verbatim>\<open>EncodeSet\<close> wrote: level by level, the bases the decoder computes are those of
  the touched nodes, scaled to the level, and the values it adds are those of the filled nodes
  of the level and the leaves.
\<close>

section \<open>One node\<close>

lemma Decode_bit_test:
  "Decode_bit bf leaf n nb i s =
     (if bit n i then
        if leaf then s\<lparr>d_pending := d_pending s @ [or nb i]\<rparr>
        else s\<lparr>d_next := d_next s @ [push_bit (kBFNodeSizeLog2 bf) (or nb i) mod TWO32]\<rparr>
      else s)"
  unfolding Decode_bit_def and_pow_0 not_not by (rule refl)

lemma fold_Decode_bit_leaf:
  "fold (Decode_bit bf True n nb) is s =
     s\<lparr>d_pending := d_pending s @ map (or nb) (filter (bit n) is)\<rparr>"
proof (induction "is" arbitrary: s)
  case (Cons i "is")
  then show ?case by (simp add: Decode_bit_test)
qed simp

lemma fold_Decode_bit_inner:
  "fold (Decode_bit bf False n nb) is s =
     s\<lparr>d_next := d_next s @
         map (\<lambda>i. push_bit (kBFNodeSizeLog2 bf) (or nb i) mod TWO32) (filter (bit n) is)\<rparr>"
proof (induction "is" arbitrary: s)
  case (Cons i "is")
  then show ?case by (simp add: Decode_bit_test)
qed simp

lemma filter_mask_of:
  assumes "sorted_wrt (<) is" and "\<forall>i\<in>set is. i < n"
  shows "filter (bit (mask_of is)) [0..<n] = is"
  using assms by (intro strict_sorted_eqI strict_sorted_filter) (auto simp: bit_mask_of)

lemma children_bound:
  assumes "l < h" shows "\<forall>i\<in>set (children bf h l b p). i < kBFNodeSize bf"
  using child_of_bound [OF _ assms] by (auto simp: set_children)

lemma mask_of_bound:
  assumes "\<forall>i\<in>set is. i < n" shows "mask_of is < 2 ^ n"
proof -
  have "mask_of is = take_bit n (mask_of is)"
    using assms by (intro bit_eqI) (auto simp: bit_take_bit_iff bit_mask_of)
  then show ?thesis by (metis take_bit_nat_less_exp)
qed

lemma mask_of_pos: "mask_of is = 0 \<longleftrightarrow> is = []"
proof
  assume "mask_of is = 0"
  then have "i \<notin> set is" for i using bit_mask_of [of "is" i] by simp
  then show "is = []" by (cases "is") auto
qed (simp add: mask_of_def)

lemma node_code_value:
  assumes "l < h"
  shows "node_value bf (of_nat (node_code bf h m l cps b)) = node_code bf h m l cps b"
proof -
  let ?n = "node_code bf h m l cps b"
  have "?n < 2 ^ kBFNodeSize bf"
    using mask_of_bound [OF children_bound [OF assms]] by (simp add: node_code_def)
  moreover have "(2::nat) ^ kBFNodeSize bf \<le> 2 ^ 32"
    using node_size_le_32 by (intro power_increasing) simp_all
  ultimately show ?thesis
    by (simp add: node_value_def unat_of_nat take_bit_nat_eq_self)
qed

lemma scaled_child:
  assumes "2 ^ kBFNodeSizeLog2 bf dvd nb" and "i < kBFNodeSize bf"
  shows "or nb i = nb + i"
  using or_base_child [of "kBFNodeSizeLog2 bf" nb i 0] assms by (simp add: node_size_pow)

lemma touched_base:
  assumes ok: "encode_ok bf h m cps" and l: "l < h" and b: "b \<in> set (touched bf h m l cps)"
  shows "2 ^ nbits bf h (Suc l) dvd b" "2 ^ kBFNodeSizeLog2 bf dvd b div 2 ^ nbits bf h (Suc l)"
    "b < UINT32_MAX" "\<exists>x\<in>set cps. align (nbits bf h l) x = b \<and> live bf m l x"
proof -
  have dv: "2 ^ nbits bf h l dvd b" by (rule touched_aligned [OF b])
  then have dv2: "2 ^ nbits bf h (Suc l) * 2 ^ kBFNodeSizeLog2 bf dvd b"
    by (simp add: nbits_Suc [OF l] power_add)
  then show "2 ^ nbits bf h (Suc l) dvd b" by (rule dvd_mult_left)
  with dv2 show "2 ^ kBFNodeSizeLog2 bf dvd b div 2 ^ nbits bf h (Suc l)"
    by (metis dvd_div_iff_mult mult.commute power_not_zero zero_neq_numeral)
  obtain x where x: "x \<in> set cps" "live bf m l x" "b = align (nbits bf h l) x"
    using touched_members [OF b] .
  then show "\<exists>x\<in>set cps. align (nbits bf h l) x = b \<and> live bf m l x" by blast
  show "b < UINT32_MAX"
    using encode_okD(5) [OF ok x(1)] align_le [of "nbits bf h l" x] x(3) by linarith
qed

text \<open>A filled node adds all its values at once.\<close>

lemma decode_filled:
  assumes ok: "encode_ok bf h m cps" and l: "l < h" and b: "b \<in> set (touched bf h m l cps)"
    and f: "lev bf m b = Some l"
  shows "(b div 2 ^ nbits bf h (Suc l) * 2 ^ nbits bf h (Suc l)) mod TWO32 = b"
    and "members (IntSet_insert_range b ((b + 2 ^ nbits bf h l - 1) mod TWO32) out) =
      members out \<union> {x. align (nbits bf h l) x = b}"
proof -
  let ?n = "2 ^ nbits bf h l :: nat"
  note t = touched_base [OF ok l b]
  have dv: "2 ^ nbits bf h l dvd b" by (rule touched_aligned [OF b])
  show "(b div 2 ^ nbits bf h (Suc l) * 2 ^ nbits bf h (Suc l)) mod TWO32 = b"
    using t(1,3) by simp
  have pos: "0 < ?n" by simp
  then have le: "b \<le> b + ?n - 1" by linarith
  have "align (nbits bf h l) (b + ?n - 1) = b" using pos by (intro align_eqI dv) linarith+
  then have "b + ?n - 1 \<in> set cps"
    using good_levelsD(2) [OF encode_okD(4) [OF ok] f] align_self [OF dv] by simp
  then have lt: "b + ?n - 1 < UINT32_MAX" by (rule encode_okD(5) [OF ok])
  then have e: "(b + ?n - 1) mod TWO32 = b + ?n - 1" by (intro mod_less) linarith
  have "x \<in> {b..b + ?n - 1} \<longleftrightarrow> align (nbits bf h l) x = b" for x
  proof
    assume "x \<in> {b..b + ?n - 1}"
    then have "b \<le> x" "x < b + ?n" using pos unfolding atLeastAtMost_iff by linarith+
    then show "align (nbits bf h l) x = b" by (intro align_eqI dv)
  next
    assume "align (nbits bf h l) x = b"
    then show "x \<in> {b..b + ?n - 1}"
      using align_le [of "nbits bf h l" x] align_upper [of x "nbits bf h l"] by auto
  qed
  then have "{b..b + ?n - 1} = {x. align (nbits bf h l) x = b}" by blast
  then show "members (IntSet_insert_range b ((b + ?n - 1) mod TWO32) out) =
      members out \<union> {x. align (nbits bf h l) x = b}"
    using lt le unfolding e by simp
qed

text \<open>Any other node queues the scaled bases of its children, or its values on the last level.\<close>

lemma decode_inner:
  assumes ok: "encode_ok bf h m cps" and l: "Suc l < h" and b: "b \<in> set (touched bf h m l cps)"
    and f: "lev bf m b \<noteq> Some l"
  defines "nb \<equiv> b div 2 ^ nbits bf h (Suc l)"
  shows "map (\<lambda>i. push_bit (kBFNodeSizeLog2 bf) (or nb i) mod TWO32)
      (filter (bit (node_code bf h m l cps b)) [0..<kBFNodeSize bf]) =
    map (\<lambda>c. c div 2 ^ nbits bf h (Suc (Suc l))) (node_kids bf h m l cps b)"
proof -
  let ?V = "nbits bf h (Suc l)" let ?V' = "nbits bf h (Suc (Suc l))" let ?w = "kBFNodeSizeLog2 bf"
  note o = encode_okD [OF ok]
  have lh: "l < h" using l by simp
  note t = touched_base [OF ok lh b]
  have bnb: "b = nb * 2 ^ ?V" using t(1) by (simp add: nb_def)
  have eq: "push_bit ?w (or nb i) mod TWO32 = (b + i * 2 ^ ?V) div 2 ^ ?V'"
    if i: "i \<in> set (children bf h l b cps)" for i
  proof -
    have "i < kBFNodeSize bf" using children_bound [OF lh] i by blast
    then have or: "or nb i = nb + i" using t(2) by (intro scaled_child) (simp_all add: nb_def)
    have V: "?V = ?V' + ?w" by (rule nbits_Suc [OF l])
    have base: "b + i * 2 ^ ?V = (nb + i) * 2 ^ ?w * 2 ^ ?V'"
      by (simp add: bnb V power_add algebra_simps)
    obtain x where x: "x \<in> set cps" "align (nbits bf h l) x = b" "i = child_of bf h l b x"
      using i by (auto simp: set_children)
    have "b + i * 2 ^ ?V = align ?V x" using child_base [OF x(2)] x(3) by simp
    also have "\<dots> < TWO32" using align_le [of ?V x] o(5) [OF x(1)] by linarith
    finally have lt: "b + i * 2 ^ ?V < TWO32" .
    have "(nb + i) * 2 ^ ?w \<le> (nb + i) * 2 ^ ?w * 2 ^ ?V'" by simp
    then have "(nb + i) * 2 ^ ?w < TWO32" using lt unfolding base by linarith
    moreover have "(b + i * 2 ^ ?V) div 2 ^ ?V' = (nb + i) * 2 ^ ?w" unfolding base by simp
    ultimately show ?thesis by (simp add: or push_bit_eq_mult)
  qed
  have sel: "filter (bit (node_code bf h m l cps b)) [0..<kBFNodeSize bf] = children bf h l b cps"
    using f filter_mask_of [OF children_sorted [OF o(1)] children_bound [OF lh]]
    by (simp add: node_code_def)
  have "node_kids bf h m l cps b = map (\<lambda>i. b + i * 2 ^ ?V) (children bf h l b cps)"
    using f l by (simp add: node_kids_def child_bases_def)
  then show ?thesis unfolding sel using eq by simp
qed

lemma decode_leaf:
  assumes ok: "encode_ok bf h m cps" and l: "Suc l = h" and b: "b \<in> set (touched bf h m l cps)"
    and f: "lev bf m b \<noteq> Some l"
  shows "set (map (or (b div 2 ^ nbits bf h (Suc l)))
      (filter (bit (node_code bf h m l cps b)) [0..<kBFNodeSize bf])) =
    {x \<in> set cps. align (nbits bf h l) x = b}"
proof -
  note o = encode_okD [OF ok]
  have lh: "l < h" using l by simp
  note t = touched_base [OF ok lh b]
  have V: "nbits bf h (Suc l) = 0" using l by (simp add: nbits_def)
  have sel: "filter (bit (node_code bf h m l cps b)) [0..<kBFNodeSize bf] = children bf h l b cps"
    using f filter_mask_of [OF children_sorted [OF o(1)] children_bound [OF lh]]
    by (simp add: node_code_def)
  have "or b (child_of bf h l b x) = x" if "x \<in> set cps" "align (nbits bf h l) x = b" for x
  proof -
    have "or b (child_of bf h l b x) = b + child_of bf h l b x"
      using t(2) V child_of_bound [OF that(2) lh] by (intro scaled_child) simp_all
    then show ?thesis using align_le [of "nbits bf h l" x] that(2) by (simp add: child_of_def V)
  qed
  then show ?thesis unfolding sel
    by (force simp: V set_children image_iff)
qed

section \<open>The nodes of a level\<close>

text \<open>All values the decoder has found, whether inserted already or still queued.\<close>

definition d_total :: "decode_state \<Rightarrow> nat set" where
  "d_total s = members (d_out s) \<union> set (d_pending s)"

definition filled_part :: "branch_factor \<Rightarrow> nat \<Rightarrow> filled_levels \<Rightarrow> nat \<Rightarrow> nat list \<Rightarrow> nat set" where
  "filled_part bf h m l T = {x. align (nbits bf h l) x \<in> set T \<and> lev bf m (align (nbits bf h l) x) = Some l}"

definition leaf_part :: "branch_factor \<Rightarrow> nat \<Rightarrow> filled_levels \<Rightarrow> nat \<Rightarrow> nat list \<Rightarrow> nat list \<Rightarrow> nat set" where
  "leaf_part bf h m l cps T =
     (if Suc l = h then {x \<in> set cps. align (nbits bf h l) x \<in> set T \<and>
        lev bf m (align (nbits bf h l) x) \<noteq> Some l} else {})"

lemma part_Cons:
  "filled_part bf h m l (b # T) = {x. align (nbits bf h l) x = b \<and> lev bf m b = Some l} \<union> filled_part bf h m l T"
  "leaf_part bf h m l cps (b # T) =
     (if Suc l = h \<and> lev bf m b \<noteq> Some l then {x \<in> set cps. align (nbits bf h l) x = b} else {})
     \<union> leaf_part bf h m l cps T"
  by (auto simp: filled_part_def leaf_part_def)

lemma part_Nil: "filled_part bf h m l [] = {}" "leaf_part bf h m l cps [] = {}"
  by (auto simp: filled_part_def leaf_part_def)

definition next_bases :: "branch_factor \<Rightarrow> nat \<Rightarrow> nat \<Rightarrow> nat list \<Rightarrow> nat list" where
  "next_bases bf h l = map (\<lambda>b. b div 2 ^ nbits bf h (Suc l))"

lemma node_kids_last: "Suc l = h \<Longrightarrow> node_kids bf h m l cps b = []"
  by (simp add: node_kids_def child_bases_def)

text \<open>One node, as the loop body handles it.\<close>

definition decode_one ::
  "branch_factor \<Rightarrow> nat \<Rightarrow> nat \<Rightarrow> nat \<Rightarrow> nat \<Rightarrow> decode_state \<Rightarrow> decode_state" where
  "decode_one bf h l nb n s =
     (if n = 0 then
        s\<lparr>d_out := IntSet_insert_range ((nb * 2 ^ nbits bf h (Suc l)) mod TWO32)
            (((nb * 2 ^ nbits bf h (Suc l)) mod TWO32 + 2 ^ nbits bf h l - 1) mod TWO32) (d_out s)\<rparr>
      else fold (Decode_bit bf (l = h - 1) n nb) [0..<kBFNodeSize bf] s)"

lemma Decode_nodes_step:
  assumes "ib_read (d_bits s) = Some (v, r)"
  shows "Decode_nodes bf (l = h - 1) (2 ^ nbits bf h l) (2 ^ nbits bf h (Suc l)) (nb # nbs) s =
    Decode_nodes bf (l = h - 1) (2 ^ nbits bf h l) (2 ^ nbits bf h (Suc l)) nbs
      (decode_one bf h l nb (unat v) (s\<lparr>d_bits := r\<rparr>))"
  using assms by (simp add: decode_one_def Let_def)

lemma decode_one_spec:
  fixes s :: decode_state
  assumes ok: "encode_ok bf h m cps" and l: "l < h" and b: "b \<in> set (touched bf h m l cps)"
  defines "s' \<equiv> decode_one bf h l (b div 2 ^ nbits bf h (Suc l)) (node_code bf h m l cps b) s"
  shows "d_bits s' = d_bits s"
    and "d_total s' = d_total s \<union> filled_part bf h m l [b] \<union> leaf_part bf h m l cps [b]"
    and "d_next s' = d_next s @ next_bases bf h (Suc l) (node_kids bf h m l cps b)"
proof -
  let ?nb = "b div 2 ^ nbits bf h (Suc l)" let ?n = "node_code bf h m l cps b"
  have "d_bits s' = d_bits s \<and> d_total s' = d_total s \<union> filled_part bf h m l [b] \<union> leaf_part bf h m l cps [b]
      \<and> d_next s' = d_next s @ next_bases bf h (Suc l) (node_kids bf h m l cps b)"
  proof (cases "lev bf m b = Some l")
    case True
    note f = decode_filled [OF ok l b True]
    have "s' = s\<lparr>d_out := IntSet_insert_range b ((b + 2 ^ nbits bf h l - 1) mod TWO32) (d_out s)\<rparr>"
      using True f(1) by (simp add: s'_def decode_one_def node_code_def)
    with True f(2) [of "d_out s"] show ?thesis
      by (auto simp: d_total_def part_Cons part_Nil node_kids_def next_bases_def)
  next
    case False
    obtain x where "x \<in> set cps" "align (nbits bf h l) x = b" using touched_base(4) [OF ok l b] by blast
    then have "children bf h l b cps \<noteq> []" using set_children [of bf h l b cps] by auto
    then have "?n \<noteq> 0" using False by (simp add: node_code_def mask_of_pos)
    then have s': "s' = fold (Decode_bit bf (l = h - 1) ?n ?nb) [0..<kBFNodeSize bf] s"
      by (simp add: s'_def decode_one_def)
    show ?thesis
    proof (cases "Suc l = h")
      case True
      then have "l = h - 1" by simp
      with s' decode_leaf [OF ok True b False] False True show ?thesis
        by (auto simp: fold_Decode_bit_leaf d_total_def part_Cons part_Nil node_kids_last next_bases_def
            simp del: set_map)
    next
      case inner: False
      with l have lt: "Suc l < h" by simp
      then have "\<not> l = h - 1" by simp
      with s' decode_inner [OF ok lt b False] False inner show ?thesis
        by (simp add: fold_Decode_bit_inner d_total_def part_Cons part_Nil next_bases_def)
    qed
  qed
  then show "d_bits s' = d_bits s"
    "d_total s' = d_total s \<union> filled_part bf h m l [b] \<union> leaf_part bf h m l cps [b]"
    "d_next s' = d_next s @ next_bases bf h (Suc l) (node_kids bf h m l cps b)" by blast+
qed

lemma Decode_nodes_spec:
  assumes ok: "encode_ok bf h m cps" and l: "l < h" and "set T \<subseteq> set (touched bf h m l cps)"
    and "get_many ib_read (length T) (d_bits s) = Some (ws, r)"
    and "map unat ws = map (node_code bf h m l cps) T"
  shows "\<exists>s'. Decode_nodes bf (l = h - 1) (2 ^ nbits bf h l) (2 ^ nbits bf h (Suc l))
      (next_bases bf h l T) s = Inr s' \<and> d_bits s' = r \<and>
    d_total s' = d_total s \<union> filled_part bf h m l T \<union> leaf_part bf h m l cps T \<and>
    d_next s' = d_next s @ next_bases bf h (Suc l) (concat (map (node_kids bf h m l cps) T))"
  using assms(3-5)
proof (induction T arbitrary: s ws)
  case Nil
  then show ?case by (simp add: part_Nil next_bases_def)
next
  case (Cons b T)
  from Cons.prems(2) obtain v r1 vs where rd: "ib_read (d_bits s) = Some (v, r1)"
    and rest: "get_many ib_read (length T) r1 = Some (vs, r)" and ws: "ws = v # vs"
    by (auto split: option.splits)
  define s1 where "s1 = decode_one bf h l (b div 2 ^ nbits bf h (Suc l)) (unat v) (s\<lparr>d_bits := r1\<rparr>)"
  have v: "unat v = node_code bf h m l cps b" using Cons.prems(3) ws by simp
  have b: "b \<in> set (touched bf h m l cps)" using Cons.prems(1) by simp
  note one = decode_one_spec [OF ok l b, of "s\<lparr>d_bits := r1\<rparr>", folded v, folded s1_def]
  have "get_many ib_read (length T) (d_bits s1) = Some (vs, r)" using one(1) rest by simp
  with Cons.IH [of s1 vs] Cons.prems(1,3) ws obtain s' where s':
    "Decode_nodes bf (l = h - 1) (2 ^ nbits bf h l) (2 ^ nbits bf h (Suc l)) (next_bases bf h l T) s1 = Inr s'"
    "d_bits s' = r" "d_total s' = d_total s1 \<union> filled_part bf h m l T \<union> leaf_part bf h m l cps T"
    "d_next s' = d_next s1 @ next_bases bf h (Suc l) (concat (map (node_kids bf h m l cps) T))" by auto
  have "d_total s1 = d_total s \<union> filled_part bf h m l [b] \<union> leaf_part bf h m l cps [b]"
    "d_next s1 = d_next s @ next_bases bf h (Suc l) (node_kids bf h m l cps b)"
    using one by (simp_all add: d_total_def)
  with s' Decode_nodes_step [OF rd, of bf l h] show ?case
    by (intro exI [of _ s'])
      (auto simp: s1_def [symmetric] next_bases_def part_Cons part_Nil simp del: Decode_nodes.simps)
qed

text \<open>The values of the leaves are queued in ascending order.\<close>

lemma Decode_nodes_pending_inner:
  "Decode_nodes bf False sz fac nbs s = Inr s' \<Longrightarrow> d_pending s' = d_pending s"
proof (induction nbs arbitrary: s)
  case (Cons nb nbs)
  then show ?case
    by (auto simp: Let_def fold_Decode_bit_inner split: option.splits if_splits)
qed simp

lemma Decode_nodes_pending_leaf:
  assumes "Decode_nodes bf True sz fac nbs s = Inr s'" and "sorted_wrt (<) nbs"
    and "\<forall>nb \<in> set nbs. 2 ^ kBFNodeSizeLog2 bf dvd nb" and "sorted_wrt (<) (d_pending s)"
    and "\<forall>x \<in> set (d_pending s). \<forall>nb \<in> set nbs. x < nb"
  shows "sorted_wrt (<) (d_pending s')"
  using assms
proof (induction nbs arbitrary: s)
  case Nil
  then show ?case by simp
next
  case (Cons nb nbs)
  let ?w = "kBFNodeSizeLog2 bf"
  obtain v r where rd: "ib_read (d_bits s) = Some (v, r)"
    using Cons.prems(1) by (auto split: option.splits)
  obtain s1 where s1: "Decode_nodes bf True sz fac nbs s1 = Inr s'"
    "d_pending s1 = d_pending s \<or>
     d_pending s1 = d_pending s @ map (or nb) (filter (bit (unat v)) [0..<kBFNodeSize bf])"
    using Cons.prems(1) rd by (auto simp: Let_def fold_Decode_bit_leaf split: if_splits)
  have nb: "2 ^ ?w dvd nb" using Cons.prems(3) by simp
  have plus: "map (or nb) (filter (bit (unat v)) [0..<kBFNodeSize bf]) =
      map (\<lambda>i. nb + i) (filter (bit (unat v)) [0..<kBFNodeSize bf])"
    using scaled_child [OF nb] by simp
  have next_base: "nb + 2 ^ ?w \<le> nb'" if "nb' \<in> set nbs" for nb'
    using that Cons.prems(2,3) by (intro aligned_less_step [OF nb]) auto
  have "sorted_wrt (<) (d_pending s1) \<and> (\<forall>x \<in> set (d_pending s1). \<forall>nb \<in> set nbs. x < nb)"
    using s1(2)
  proof
    assume "d_pending s1 = d_pending s"
    then show ?thesis using Cons.prems(4,5) by simp
  next
    assume eq: "d_pending s1 = d_pending s @ map (or nb) (filter (bit (unat v)) [0..<kBFNodeSize bf])"
    have "sorted_wrt (<) (map (\<lambda>i. nb + i) (filter (bit (unat v)) [0..<kBFNodeSize bf]))"
      by (simp add: sorted_wrt_map strict_sorted_filter)
    moreover have "x < nb + i" if "x \<in> set (d_pending s)" for x i
      using that Cons.prems(5) by (simp add: trans_less_add1)
    moreover have "nb + i < nb'" if "i < kBFNodeSize bf" "nb' \<in> set nbs" for i nb'
      using next_base [OF that(2)] that(1) by (simp add: node_size_pow)
    ultimately show ?thesis unfolding eq plus using Cons.prems(4,5) by (auto simp: sorted_wrt_append)
  qed
  then show ?case using Cons.IH [OF s1(1)] Cons.prems(2,3) by simp
qed

section \<open>All levels\<close>

lemma get_many_append:
  "get_many get (m + n) r = Some (ws, r'') \<Longrightarrow>
   \<exists>r'. get_many get m r = Some (take m ws, r') \<and> get_many get n r' = Some (drop m ws, r'')"
proof (induction m arbitrary: r ws)
  case 0
  then show ?case by simp
next
  case (Suc m)
  from Suc.prems obtain v r1 vs where "get r = Some (v, r1)" "get_many get (m + n) r1 = Some (vs, r'')"
    "ws = v # vs" by (auto split: option.splits)
  with Suc.IH [of r1 vs] show ?case by auto
qed

lemma level_values:
  assumes ok: "encode_ok bf h m cps" and l: "l < h"
  shows "filled_part bf h m l (touched bf h m l cps) \<union> leaf_part bf h m l cps (touched bf h m l cps) =
    {x \<in> set cps. lev bf m x = Some l \<or> Suc l = h \<and> live bf m l x}"
proof -
  note good = encode_okD(4) [OF ok]
  note eq = lev_align [OF good, of l]
  have node: "align (nbits bf h l) x \<in> set (touched bf h m l cps) \<longleftrightarrow> live bf m l x" if "x \<in> set cps" for x
  proof
    assume "align (nbits bf h l) x \<in> set (touched bf h m l cps)"
    then obtain z where "live bf m l z" "align (nbits bf h l) x = align (nbits bf h l) z"
      by (rule touched_members)
    then show "live bf m l x" by (rule live_same_node [OF good])
  qed (use that in \<open>auto simp: set_touched\<close>)
  have mem: "x \<in> set cps" if "lev bf m x = Some l" for x by (rule good_levelsD(2) [OF good that refl])
  have live: "live bf m l x" if "lev bf m x = Some l" for x using that by (simp add: live_def)
  have "filled_part bf h m l (touched bf h m l cps) = {x \<in> set cps. lev bf m x = Some l}"
    using node mem live eq by (auto simp: filled_part_def)
  moreover have "leaf_part bf h m l cps (touched bf h m l cps) =
      (if Suc l = h then {x \<in> set cps. live bf m l x \<and> lev bf m x \<noteq> Some l} else {})"
    using node eq by (auto simp: leaf_part_def)
  ultimately show ?thesis using live by auto
qed

lemma live_split: "live bf m l x \<longleftrightarrow> lev bf m x = Some l \<or> live bf m (Suc l) x"
  by (auto simp: live_def split: option.split)

lemma Decode_levels_spec:
  assumes ok: "encode_ok bf h m cps" and "l < h" and "d_next s = [] \<and> d_pending s = []"
    and "get_many ib_read (length (all_nodes bf h m cps l)) (d_bits s) = Some (ws, r)"
    and "map unat ws = all_nodes bf h m cps l"
  shows "\<exists>s'. Decode_levels bf h [l..<h] (2 ^ nbits bf h l) (2 ^ nbits bf h (Suc l))
      (next_bases bf h l (touched bf h m l cps)) s = Inr s' \<and> d_bits s' = r \<and>
    d_total s' = d_total s \<union> {x \<in> set cps. live bf m l x} \<and> sorted_wrt (<) (d_pending s')"
  using assms(2-5)
proof (induction "h - l" arbitrary: l s ws)
  case 0
  then show ?case by simp
next
  case (Suc n)
  let ?T = "touched bf h m l cps" let ?rest = "all_nodes bf h m cps (Suc l)"
  have nodes: "all_nodes bf h m cps l = map (node_code bf h m l cps) ?T @ ?rest"
    by (rule all_nodes_Cons [OF \<open>l < h\<close>])
  then have len: "length (all_nodes bf h m cps l) = length ?T + length ?rest" by simp
  from get_many_append [OF Suc.prems(3) [unfolded len]]
  obtain r1 where g1: "get_many ib_read (length ?T) (d_bits s) = Some (take (length ?T) ws, r1)"
    and g2: "get_many ib_read (length ?rest) r1 = Some (drop (length ?T) ws, r)" by blast
  have v1: "map unat (take (length ?T) ws) = map (node_code bf h m l cps) ?T"
    and v2: "map unat (drop (length ?T) ws) = ?rest"
    using Suc.prems(4) nodes by (simp_all add: take_map [symmetric] drop_map [symmetric])
  from Decode_nodes_spec [OF ok \<open>l < h\<close> order_refl g1 v1] obtain s1 where s1:
    "Decode_nodes bf (l = h - 1) (2 ^ nbits bf h l) (2 ^ nbits bf h (Suc l)) (next_bases bf h l ?T) s = Inr s1"
    "d_bits s1 = r1" "d_total s1 = d_total s \<union> (filled_part bf h m l ?T \<union> leaf_part bf h m l cps ?T)"
    "d_next s1 = next_bases bf h (Suc l) (concat (map (node_kids bf h m l cps) ?T))"
    using Suc.prems(2) by (auto simp: Un_assoc)
  note vals = level_values [OF ok \<open>l < h\<close>]
  define s2 where "s2 = s1\<lparr>d_next := []\<rparr>"
  have s2: "d_bits s2 = r1" "d_total s2 = d_total s1" "d_next s2 = []" "d_pending s2 = d_pending s1"
    by (simp_all add: s2_def s1(2) d_total_def)
  have step: "Decode_levels bf h [l..<h] (2 ^ nbits bf h l) (2 ^ nbits bf h (Suc l)) (next_bases bf h l ?T) s =
      Decode_levels bf h [Suc l..<h] (drop_bit (kBFNodeSizeLog2 bf) (2 ^ nbits bf h l))
        (drop_bit (kBFNodeSizeLog2 bf) (2 ^ nbits bf h (Suc l))) (d_next s1) s2"
    using \<open>l < h\<close> s1(1) by (simp add: upt_conv_Cons s2_def)
  have drop: "drop_bit (kBFNodeSizeLog2 bf) (2 ^ nbits bf h k) = (2 ^ nbits bf h (Suc k) :: nat)" if "k < h" for k
    by (simp add: nbits_Suc [OF that] power_add drop_bit_eq_div)
  show ?case
  proof (cases "Suc l < h")
    case False
    with \<open>l < h\<close> have last: "Suc l = h" by simp
    with step have "Decode_levels bf h [l..<h] (2 ^ nbits bf h l) (2 ^ nbits bf h (Suc l)) (next_bases bf h l ?T) s = Inr s2"
      by simp
    moreover have "r1 = r" using g2 last by (simp add: all_nodes_end)
    moreover have "sorted_wrt (<) (d_pending s1)"
    proof (rule Decode_nodes_pending_leaf)
      have leaf: "l = h - 1" using last by simp
      show "Decode_nodes bf True (2 ^ nbits bf h l) (2 ^ nbits bf h (Suc l)) (next_bases bf h l ?T) s = Inr s1"
        using s1(1) leaf by simp
      have "next_bases bf h l ?T = ?T" using last by (simp add: next_bases_def nbits_def)
      then show "sorted_wrt (<) (next_bases bf h l ?T)" "\<forall>nb \<in> set (next_bases bf h l ?T). 2 ^ kBFNodeSizeLog2 bf dvd nb"
        using touched_sorted [OF encode_okD(1) [OF ok]] touched_base(2) [OF ok \<open>l < h\<close>] last
        by (simp_all add: nbits_def)
    qed (use Suc.prems(2) in simp_all)
    ultimately show ?thesis using s1(3) s2 vals last by (intro exI [of _ s2]) (auto simp: live_def)
  next
    case True
    have "n = h - Suc l" using Suc.hyps(2) by simp
    have "l \<noteq> h - 1" using True by simp
    then have "d_next s2 = [] \<and> d_pending s2 = []"
      using Decode_nodes_pending_inner [of bf _ _ _ s s1] s1(1) s2(3,4) Suc.prems(2) by simp
    from Suc.hyps(1) [OF \<open>n = h - Suc l\<close> True this] g2 v2 s2(1)
    obtain s' where s': "Decode_levels bf h [Suc l..<h] (2 ^ nbits bf h (Suc l)) (2 ^ nbits bf h (Suc (Suc l)))
        (next_bases bf h (Suc l) (touched bf h m (Suc l) cps)) s2 = Inr s'" "d_bits s' = r"
      "d_total s' = d_total s2 \<union> {x \<in> set cps. live bf m (Suc l) x}" "sorted_wrt (<) (d_pending s')" by auto
    have "Decode_levels bf h [l..<h] (2 ^ nbits bf h l) (2 ^ nbits bf h (Suc l)) (next_bases bf h l ?T) s = Inr s'"
      using step s'(1) s1(4) drop [OF \<open>l < h\<close>] drop [OF True] kids_touched [OF ok True] by simp
    moreover have "d_total s' = d_total s \<union> {x \<in> set cps. live bf m l x}"
      using s'(3) s1(3) s2(2) vals True by (auto simp: live_split [of bf m l])
    ultimately show ?thesis using s'(2,4) by blast
  qed
qed

section \<open>Decoding an encoded set\<close>

lemma all_nodes_value:
  "map (node_value bf) (map of_nat (all_nodes bf h m cps 0)) = all_nodes bf h m cps 0"
proof -
  have "node_value bf (of_nat n) = n" if "n \<in> set (all_nodes bf h m cps 0)" for n
    using that by (auto simp: all_nodes_def intro: node_code_value)
  then show ?thesis by (simp add: map_idI)
qed

lemma Decode_encoded:
  assumes ok: "encode_ok bf h m cps" and ne: "cps \<noteq> []"
  shows "Decode (ob_to_string (write_nodes bf h (map of_nat (all_nodes bf h m cps 0))) @ rest) out =
    (Inr rest, IntSet_insert_sorted_array cps out)"
proof -
  let ?vs = "map of_nat (all_nodes bf h m cps 0) :: 32 word list"
  let ?bytes = "ob_to_string (write_nodes bf h ?vs)" let ?ib = "BitInputBuffer (?bytes @ rest)"
  note o = encode_okD [OF ok]
  have h: "h < 32" "0 < h" using o(2,3) max_depth_le_31 [of bf] by linarith+
  note r = reader_on_written [OF h(1), where bf = bf and vs = ?vs and rest = rest]
  obtain ws ib' where get: "get_many ib_read (length (all_nodes bf h m cps 0)) ?ib = Some (ws, ib')"
    and ws: "map unat ws = all_nodes bf h m cps 0" and rem: "ib_Remaining ib' = rest"
    using bit_buffer_roundtrip_aux [OF h(1), where bf = bf and vs = ?vs and rest = rest]
    unfolding all_nodes_value by auto
  define s0 where "s0 = \<lparr>d_bits = ?ib, d_out = out, d_next = [], d_pending = []\<rparr>"
  have "get_many ib_read (length (all_nodes bf h m cps 0)) (d_bits s0) = Some (ws, ib')" "d_next s0 = [] \<and> d_pending s0 = []"
    using get by (simp_all add: s0_def)
  with Decode_levels_spec [OF ok h(2), of s0 ws ib'] ws obtain s' where
    run: "Decode_levels bf h [0..<h] (2 ^ nbits bf h 0) (2 ^ nbits bf h (Suc 0)) (next_bases bf h 0 [0]) s0 = Inr s'"
    and s': "d_bits s' = ib'" "d_total s' = d_total s0 \<union> {x \<in> set cps. live bf m 0 x}" "sorted_wrt (<) (d_pending s')"
    unfolding touched_root [OF ok ne] by blast
  have sizes: "push_bit (kBFNodeSizeLog2 bf * h) 1 = (2 ^ nbits bf h 0 :: nat)"
    "drop_bit (kBFNodeSizeLog2 bf) (2 ^ nbits bf h 0) = (2 ^ nbits bf h (Suc 0) :: nat)"
    using nbits_Suc [OF h(2), of bf]
    by (simp_all add: nbits_def [of bf h 0] push_bit_eq_mult drop_bit_eq_div power_add)
  have "?bytes \<noteq> []" using write_nodes_spec(1) [of bf h ?vs] by (simp add: ob_wf_def ob_ok_def ob_to_string_def)
  then have nonempty: "?bytes @ rest \<noteq> []" by simp
  have "live bf m 0 x" for x by (simp add: live_def split: option.split)
  then have total: "members (d_out s') \<union> set (d_pending s') = members out \<union> set cps"
    using s'(2) by (simp add: d_total_def s0_def)
  have bound: "v < UINT32_MAX" if "v \<in> set (d_pending s')" for v
    using total that members_bound o(5) by blast
  define res where "res = (if d_pending s' \<noteq> [] then IntSet_insert_sorted_array (d_pending s') (d_out s')
    else d_out s')"
  have "members res = members (d_out s') \<union> set (d_pending s')"
    using bound members_insert_sorted_array [OF strict_sorted_imp_sorted [OF s'(3)]] by (auto simp: res_def)
  also have "\<dots> = members (IntSet_insert_sorted_array cps out)"
    using total o(5) members_insert_sorted_array [OF strict_sorted_imp_sorted [OF o(1)]] by auto
  finally have res: "res = IntSet_insert_sorted_array cps out" by (rule int_set_eqI)
  have "Decode (?bytes @ rest) out = (Inr (ib_Remaining (d_bits s')), res)"
    unfolding Decode_def Let_def r(2,3) sizes s0_def [symmetric]
    using nonempty run o(3) by (simp add: next_bases_def res_def del: append_is_Nil_conv)
  then show ?thesis by (simp add: s'(1) rem res)
qed

text \<open>
  Encoding a set, with any branch factor, gives bytes that decode to it: the decoder adds exactly
  the members to the caller's set and returns the bytes behind the encoding. The encoder never
  indexes out of range or looks up an absent key.
\<close>

lemma TreeDepthFor_fits:
  assumes "m < UINT32_MAX"
  shows "bf \<noteq> BF2 \<Longrightarrow> TreeDepthFor m bf \<le> kBFMaxDepth bf"
  using assms by (intro TreeDepthFor_max) simp_all

lemma IntSet_max_last: "IntSet_max S = (if to_vector S = [] then None else Some (last (to_vector S)))"
  by (simp add: IntSet_max_def split: list.split)

lemma EncodeSet_roundtrip:
  assumes "members S \<noteq> {}" and "TreeDepthFor (last (to_vector S)) bf \<le> kBFMaxDepth bf"
    and "set ts = {t. complete (kBFTwigSize bf) (members S) t}" "sorted_wrt (<) ts"
  shows "\<exists>bytes. EncodeSet (to_vector S) bf ts = Some bytes \<and>
    Decode (bytes @ rest) out = (Inr rest, IntSet_union_set out S)"
proof -
  let ?cps = "to_vector S"
  have ne: "?cps \<noteq> []" using assms(1) by (metis empty_set set_to_vector)
  have small: "\<forall>c\<in>set ?cps. c < UINT32_MAX" using members_bound by simp
  obtain m where m: "encode_ok bf (TreeDepthFor (last ?cps) bf) m ?cps"
    "EncodeSet ?cps bf ts = Some (ob_to_string (write_nodes bf (TreeDepthFor (last ?cps) bf)
      (map of_nat (all_nodes bf (TreeDepthFor (last ?cps) bf) m ?cps 0))))"
    using EncodeSet_spec [OF ne to_vector_sorted small assms(2) _ assms(4)] assms(3) by auto
  have "IntSet_insert_sorted_array ?cps out = IntSet_union_set out S"
    using small members_insert_sorted_array [OF strict_sorted_imp_sorted [OF to_vector_sorted]] by (intro int_set_eqI) auto
  with Decode_encoded [OF m(1) ne, of rest out] m(2) show ?thesis by simp
qed

lemma Encode_with_roundtrip_aux:
  "\<exists>bytes. Encode_with S bf = Some bytes \<and>
    Decode (bytes @ rest) out = (Inr rest, IntSet_union_set out S)"
proof (cases "members S = {}")
  case True
  then have "IntSet_union_set out S = out" by (intro int_set_eqI) simp
  moreover have "Decode (0 # rest) out = (Inr rest, out)"
    by (simp add: Decode_def BitInputBuffer_def DecodeBranchFactor_def DecodeDepth_def ib_Remaining_def)
  ultimately show ?thesis using True by (simp add: Encode_with_def Let_def)
next
  case False
  let ?cps = "to_vector S" let ?d = "TreeDepthFor (last ?cps)"
  have ne: "?cps \<noteq> []" using False by (metis empty_set set_to_vector)
  then have "last ?cps < UINT32_MAX" by (metis last_in_set members_bound set_to_vector)
  note fits = TreeDepthFor_fits [OF this]
  define bf' where "bf' = (if kBFMaxDepth bf < ?d bf \<and> bf = BF2 then BF4 else bf)"
  have depth: "?d bf' \<le> kBFMaxDepth bf'" using fits [of bf] fits [of BF4] by (auto simp: bf'_def not_less)
  have twigs: "set (FindFilledTwigs ?cps bf') = {t. complete (kBFTwigSize bf') (members S) t}"
    "sorted_wrt (<) (FindFilledTwigs ?cps bf')"
    using FindFilledTwigs_complete [OF to_vector_sorted, of S bf'] members_bound [of _ S] by fastforce+
  have "Encode_with S bf = EncodeSet ?cps bf' (FindFilledTwigs ?cps bf')"
    using False ne by (simp add: Encode_with_def Let_def IntSet_max_last bf'_def)
  with EncodeSet_roundtrip [OF False depth twigs, of rest out] show ?thesis by simp
qed

end
