(* ===== verification/Sparse_Choose.thy ===== *)
theory Sparse_Choose
  imports Sparse_Decode
begin

text \<open>
  \<^verbatim>\<open>ChooseBranchFactor\<close> and the \<^verbatim>\<open>Encode\<close> that uses it (\<^verbatim>\<open>ift/common/sparse_bit_set.cc\<close>). The
  choice rests on an estimate of the encoded sizes, computed in unsigned 32 bit and in double
  arithmetic; both are modelled as they are. The conversion of a double that does not fit a
  \<open>uint32_t\<close> is undefined in C++: its result is the parameter \<open>conv\<close>, and what is proved holds
  for all of them.
\<close>

section \<open>The size estimate\<close>

definition add32 :: "nat \<Rightarrow> nat \<Rightarrow> nat" where
  "add32 a b = (a + b) mod TWO32"

text \<open>
  A product of doubles: the exact product of the significands, rounded to 53 bits, ties to even.
\<close>

fun bit_length :: "nat \<Rightarrow> nat" where
  "bit_length n = (if n = 0 then 0 else Suc (bit_length (n div 2)))"

declare bit_length.simps [simp del]

definition round_significand :: "nat \<Rightarrow> nat" where
  "round_significand p =
     (let s = bit_length p - 53
      in if s = 0 then p
         else let q = p div 2 ^ s; r = p mod 2 ^ s; half = 2 ^ (s - 1)
              in (if half < r \<or> r = half \<and> odd q then q + 1 else q) * 2 ^ s)"

text \<open>
  The doubles nearest to \<open>1.0 / 0.4\<close>, \<open>1.0 / 1.8\<close>, \<open>1.0 / 3.0\<close> and \<open>1.0 / 15.0\<close>: significand and
  negated exponent.
\<close>

fun geometric_sum :: "branch_factor \<Rightarrow> nat \<times> nat" where
  "geometric_sum BF2 = (5, 1)"
| "geometric_sum BF4 = (2501999792983609, 52)"
| "geometric_sum BF8 = (6004799503160661, 54)"
| "geometric_sum BF32 = (4803839602528529, 56)"

definition EstimateTreeSize :: "(nat \<Rightarrow> nat) \<Rightarrow> nat \<Rightarrow> branch_factor \<Rightarrow> nat" where
  "EstimateTreeSize conv num_leaf_nodes bf =
     (let (significand, e) = geometric_sum bf;
          v = round_significand (num_leaf_nodes * significand) div 2 ^ e
      in if v < TWO32 then v else conv v)"

definition AdvanceToCp ::
  "nat \<Rightarrow> nat \<Rightarrow> (branch_factor \<Rightarrow> nat) \<Rightarrow> branch_factor \<Rightarrow> nat" where
  "AdvanceToCp prev_cp cp empty_leaves =
     (if cp < kBFNodeSize BF2 \<or> sub32 cp prev_cp < kBFNodeSize BF2 then empty_leaves
      else
        let first_missing = add32 prev_cp 1
        in (\<lambda>bf.
             let remainder = and first_missing (kBFNodeSizeBitMask bf);
                 start = (if remainder \<noteq> 0
                          then add32 first_missing (kBFNodeSize bf - remainder)
                          else first_missing);
                 finish = cp - and cp (kBFNodeSizeBitMask bf)
             in if start < finish
                then add32 (empty_leaves bf) (drop_bit (kBFNodeSizeLog2 bf) (finish - start))
                else empty_leaves bf))"

section \<open>The scan over the code points\<close>

record choose_scan =
  cs_empty_leaves :: "branch_factor \<Rightarrow> nat"
  cs_filled_twigs :: "branch_factor \<Rightarrow> nat list"
  cs_seq_len :: nat
  cs_prev_cp :: nat

fun NoteFilledTwigs ::
  "nat \<Rightarrow> nat \<Rightarrow> branch_factor list \<Rightarrow> (branch_factor \<Rightarrow> nat list) \<Rightarrow> branch_factor \<Rightarrow> nat list" where
  "NoteFilledTwigs cp seq_len [] ft = ft"
| "NoteFilledTwigs cp seq_len (bf # bfs) ft =
     (if and cp (kBFTwigSizeBitMask bf) = kBFTwigSizeBitMask bf then
        NoteFilledTwigs cp seq_len bfs
          (if kBFTwigSize bf \<le> seq_len
           then ft(bf := ft bf @ [drop_bit (kBFTwigSizeLog2 bf) cp]) else ft)
      else ft)"

definition ChooseBranchFactor_step :: "nat \<Rightarrow> choose_scan \<Rightarrow> choose_scan" where
  "ChooseBranchFactor_step cp s =
     (let seq = (if cp = add32 (cs_prev_cp s) 1 then cs_seq_len s + 1 else 1)
      in \<lparr>cs_empty_leaves = AdvanceToCp (cs_prev_cp s) cp (cs_empty_leaves s),
          cs_filled_twigs = NoteFilledTwigs cp seq [BF2, BF4, BF8, BF32] (cs_filled_twigs s),
          cs_seq_len = seq, cs_prev_cp = cp\<rparr>)"

definition ChooseBranchFactor_scan :: "nat \<Rightarrow> nat list \<Rightarrow> choose_scan" where
  "ChooseBranchFactor_scan cp cps =
     fold ChooseBranchFactor_step cps
       \<lparr>cs_empty_leaves = AdvanceToCp UINT32_MAX cp (\<lambda>_. 0), cs_filled_twigs = (\<lambda>_. []),
        cs_seq_len = 1, cs_prev_cp = cp\<rparr>"

section \<open>The choice\<close>

definition byte_estimate :: "branch_factor \<Rightarrow> nat \<Rightarrow> nat" where
  "byte_estimate bf nodes =
     (case bf of BF2 \<Rightarrow> drop_bit 2 nodes | BF4 \<Rightarrow> drop_bit 1 nodes | BF8 \<Rightarrow> nodes
      | BF32 \<Rightarrow> push_bit 2 nodes mod TWO32)"

fun EstimateBytes ::
  "(nat \<Rightarrow> nat) \<Rightarrow> choose_scan \<Rightarrow> branch_factor list \<Rightarrow> nat \<Rightarrow> branch_factor \<Rightarrow> nat" where
  "EstimateBytes conv s [] prev_cp = (\<lambda>_. 0)"
| "EstimateBytes conv s (bf # bfs) prev_cp =
     (let remainder = and (add32 prev_cp 1) (kBFNodeSizeBitMask bf);
          prev_cp = (if remainder \<noteq> 0 then add32 prev_cp (kBFNodeSize bf - remainder) else prev_cp);
          processed_leaves = drop_bit (kBFNodeSizeLog2 bf) (add32 prev_cp 1);
          filled_leaves = push_bit (kBFNodeSizeLog2 bf) (length (cs_filled_twigs s bf)) mod TWO32;
          leaf_nodes = sub32 (sub32 processed_leaves (cs_empty_leaves s bf)) filled_leaves;
          tree_nodes = EstimateTreeSize conv leaf_nodes bf
      in (EstimateBytes conv s bfs prev_cp)(bf := byte_estimate bf (add32 leaf_nodes tree_nodes)))"

fun PickBranchFactor ::
  "nat list \<Rightarrow> (branch_factor \<Rightarrow> nat) \<Rightarrow> branch_factor list \<Rightarrow> branch_factor \<Rightarrow> branch_factor" where
  "PickBranchFactor codepoints bytes [] optimal = optimal"
| "PickBranchFactor codepoints bytes (bf # bfs) optimal =
     (if kBFMaxDepth bf < TreeDepthFor_vector codepoints bf
      then PickBranchFactor codepoints bytes bfs optimal
      else PickBranchFactor codepoints bytes bfs
             (if bytes bf < bytes optimal then bf else optimal))"

text \<open>The chosen branch factor, and the filled twigs for it.\<close>

definition ChooseBranchFactor :: "(nat \<Rightarrow> nat) \<Rightarrow> nat list \<Rightarrow> branch_factor \<times> nat list" where
  "ChooseBranchFactor conv codepoints =
     (case codepoints of
        [] \<Rightarrow> (BF8, [])
      | cp # cps \<Rightarrow>
          let s = ChooseBranchFactor_scan cp cps;
              bytes = EstimateBytes conv s [BF2, BF4, BF8, BF32] (cs_prev_cp s);
              optimal = PickBranchFactor codepoints bytes [BF2, BF32, BF8] BF4
          in (optimal, cs_filled_twigs s optimal))"

text \<open>\<^verbatim>\<open>SparseBitSet::Encode(set)\<close>.\<close>

definition Encode_auto :: "(nat \<Rightarrow> nat) \<Rightarrow> int_set \<Rightarrow> bytes option" where
  "Encode_auto conv s =
     (if IntSet_is_empty s then Some []
      else let codepoints = to_vector s;
               (branch_factor, filled_twigs) = ChooseBranchFactor conv codepoints
           in EncodeSet codepoints branch_factor filled_twigs)"

section \<open>The filled twigs of the scan\<close>

definition choose_inv :: "nat list \<Rightarrow> choose_scan \<Rightarrow> bool" where
  "choose_inv p s \<longleftrightarrow> p \<noteq> [] \<and> cs_prev_cp s = last p \<and> 1 \<le> cs_seq_len s \<and>
     cs_seq_len s \<le> last p + 1 \<and> {last p + 1 - cs_seq_len s..last p} \<subseteq> set p \<and>
     (cs_seq_len s = last p + 1 \<or> last p - cs_seq_len s \<notin> set p) \<and>
     (\<forall>bf. set (cs_filled_twigs s bf) = {t. complete (kBFTwigSize bf) (set p) t} \<and>
        sorted_wrt (<) (cs_filled_twigs s bf))"

text \<open>The last value of a twig is also the last value of a twig of every smaller branch factor.\<close>

lemma twig_chain:
  "Suc c mod kBFTwigSize BF32 = 0 \<Longrightarrow> Suc c mod kBFTwigSize BF8 = 0"
  "Suc c mod kBFTwigSize BF8 = 0 \<Longrightarrow> Suc c mod kBFTwigSize BF4 = 0"
  "Suc c mod kBFTwigSize BF4 = 0 \<Longrightarrow> Suc c mod kBFTwigSize BF2 = 0"
proof -
  have "a dvd b \<Longrightarrow> n mod b = 0 \<Longrightarrow> n mod a = 0" for a b n :: nat by auto
  from this [of 64 1024] this [of 16 64] this [of 4 16]
  show "Suc c mod kBFTwigSize BF32 = 0 \<Longrightarrow> Suc c mod kBFTwigSize BF8 = 0"
    "Suc c mod kBFTwigSize BF8 = 0 \<Longrightarrow> Suc c mod kBFTwigSize BF4 = 0"
    "Suc c mod kBFTwigSize BF4 = 0 \<Longrightarrow> Suc c mod kBFTwigSize BF2 = 0"
    by (simp_all add: kBFTwigSize_def)
qed

lemma last_value_in_twig:
  "and c (kBFTwigSizeBitMask bf) = kBFTwigSizeBitMask bf \<longleftrightarrow> Suc c mod kBFTwigSize bf = 0"
  unfolding twig_mask_pow twig_size_pow by (rule and_mask_last)

lemma NoteFilledTwigs_eq:
  "NoteFilledTwigs cp seq [BF2, BF4, BF8, BF32] ft bf =
     (if Suc cp mod kBFTwigSize bf = 0 \<and> kBFTwigSize bf \<le> seq
      then ft bf @ [cp div kBFTwigSize bf] else ft bf)"
  using twig_chain [of cp]
  by (cases bf) (simp_all only: NoteFilledTwigs.simps last_value_in_twig drop_bit_eq_div
      twig_size_pow [symmetric], auto)

lemma run_step:
  fixes c :: nat
  assumes inv: "choose_inv p s" and c: "c < UINT32_MAX" and sorted: "sorted_wrt (<) (p @ [c])"
    and seq: "seq = (if c = add32 (cs_prev_cp s) 1 then cs_seq_len s + 1 else 1)"
  shows "1 \<le> seq \<and> seq \<le> c + 1 \<and> {c + 1 - seq..c} \<subseteq> set (p @ [c]) \<and>
    (seq = c + 1 \<or> c - seq \<notin> set (p @ [c]))"
proof -
  let ?l = "last p" let ?n = "cs_seq_len s"
  from inv have p: "p \<noteq> []" "cs_prev_cp s = ?l" "1 \<le> ?n" "?n \<le> ?l + 1"
    "{?l + 1 - ?n..?l} \<subseteq> set p" "?n = ?l + 1 \<or> ?l - ?n \<notin> set p"
    by (simp_all add: choose_inv_def)
  have gt: "\<forall>x\<in>set p. x < c" and sp: "sorted_wrt (<) p" using sorted by (simp_all add: sorted_wrt_less_snoc)
  then have lt: "?l < c" using p(1) by simp
  then have add: "add32 (cs_prev_cp s) 1 = ?l + 1" using c p(2) by (simp add: add32_def)
  show ?thesis
  proof (cases "c = ?l + 1")
    case True
    then have s: "seq = ?n + 1" unfolding seq add by (rule if_P)
    have "{c + 1 - seq..c} = insert c {?l + 1 - ?n..?l}" using True s p(3,4) by auto
    with True s p(3-6) show ?thesis by auto
  next
    case False
    then have s: "seq = 1" unfolding seq add by (rule if_not_P)
    have "c - 1 \<notin> set p" using strict_le_last [OF sp, of "c - 1"] False lt by linarith
    with s lt show ?thesis by auto
  qed
qed

lemma twig_by_run:
  fixes c T :: nat
  assumes T: "1 < T" and last: "Suc c mod T = 0" and "seq \<le> c + 1" and "{c + 1 - seq..c} \<subseteq> P"
    and maximal: "seq = c + 1 \<or> c - seq \<notin> P"
  shows "T \<le> seq \<longleftrightarrow> {c - c mod T..c} \<subseteq> P"
proof -
  have m: "c mod T = T - 1" using last T by (simp add: mod_Suc split: if_splits)
  have le: "T \<le> c + 1" using last T by (metis Suc_eq_plus1 dvd_imp_le mod_0_imp_dvd zero_less_Suc)
  show ?thesis
  proof
    assume "T \<le> seq"
    then have "c + 1 - seq \<le> c - c mod T" using m T le by linarith
    with assms(4) show "{c - c mod T..c} \<subseteq> P" by (auto simp: subset_iff)
  next
    assume sub: "{c - c mod T..c} \<subseteq> P"
    show "T \<le> seq"
    proof (rule ccontr)
      assume lt: "\<not> T \<le> seq"
      then have "c - seq \<in> {c - c mod T..c}" using m by auto
      moreover have "seq \<noteq> c + 1" using lt le by linarith
      ultimately show False using sub maximal by blast
    qed
  qed
qed

lemma complete_before:
  fixes c T :: nat
  assumes "complete T P t" and "\<forall>x\<in>P. x < c" and "0 < T" and "Suc c mod T = 0"
  shows "t < c div T"
proof -
  have "t * T + (T - 1) \<in> P" using assms(1,3) by (auto simp: complete_def)
  then have lt: "t * T + (T - 1) < c" using assms(2) by blast
  have "(t + 1) * T \<le> c" using lt assms(3) by (simp add: algebra_simps)
  then show ?thesis using assms(3) by (metis Suc_eq_plus1 Suc_le_eq less_eq_div_iff_mult_less_eq)
qed

lemma ChooseBranchFactor_step_inv:
  assumes inv: "choose_inv p s" and c: "c < UINT32_MAX" and sorted: "sorted_wrt (<) (p @ [c])"
  shows "choose_inv (p @ [c]) (ChooseBranchFactor_step c s)"
proof -
  define seq where "seq = (if c = add32 (cs_prev_cp s) 1 then cs_seq_len s + 1 else 1)"
  note run = run_step [OF inv c sorted seq_def]
  let ?s = "ChooseBranchFactor_step c s"
  have s': "cs_prev_cp ?s = c" "cs_seq_len ?s = seq"
    "cs_filled_twigs ?s = NoteFilledTwigs c seq [BF2, BF4, BF8, BF32] (cs_filled_twigs s)"
    by (simp_all add: ChooseBranchFactor_step_def Let_def seq_def)
  have gt: "\<forall>x\<in>set p. x < c" using sorted by (simp add: sorted_wrt_less_snoc)
  have "set (cs_filled_twigs ?s bf) = {t. complete (kBFTwigSize bf) (set (p @ [c])) t} \<and>
      sorted_wrt (<) (cs_filled_twigs ?s bf)" for bf
  proof -
    let ?T = "kBFTwigSize bf"
    have T: "1 < ?T" by (cases bf) (simp_all add: kBFTwigSize_def)
    then have T0: "0 < ?T" by linarith
    have old: "set (cs_filled_twigs s bf) = {t. complete ?T (set p) t}" "sorted_wrt (<) (cs_filled_twigs s bf)"
      using inv by (simp_all add: choose_inv_def)
    have iff: "Suc c mod ?T = 0 \<and> ?T \<le> seq \<longleftrightarrow>
        Suc c mod ?T = 0 \<and> {c - c mod ?T..c} \<subseteq> set (p @ [c])"
      using twig_by_run [OF T, of c seq "set (p @ [c])"] run by argo
    show ?thesis
    proof (cases "Suc c mod ?T = 0 \<and> ?T \<le> seq")
      case True
      then have "\<forall>t\<in>set (cs_filled_twigs s bf). t < c div ?T"
        unfolding old(1) by (intro ballI complete_before [OF _ gt T0]) simp_all
      moreover have "complete ?T (set (p @ [c])) t \<longleftrightarrow> complete ?T (set p) t \<or> t = c div ?T" for t
        using complete_snoc [OF T0 sorted, of t] iff True by argo
      then have "{t. complete ?T (set (p @ [c])) t} = insert (c div ?T) {t. complete ?T (set p) t}"
        by (intro set_eqI) (simp only: mem_Collect_eq insert_iff disj_commute)
      ultimately show ?thesis using True old
        by (simp add: s'(3) NoteFilledTwigs_eq sorted_wrt_less_snoc del: NoteFilledTwigs.simps)
    next
      case False
      then have "complete ?T (set (p @ [c])) t \<longleftrightarrow> complete ?T (set p) t" for t
        using complete_snoc [OF T0 sorted, of t] iff by argo
      then have "{t. complete ?T (set (p @ [c])) t} = {t. complete ?T (set p) t}"
        by (simp only:)
      moreover have "cs_filled_twigs ?s bf = cs_filled_twigs s bf"
        using False unfolding s'(3) NoteFilledTwigs_eq by (rule if_not_P)
      ultimately show ?thesis using old by simp
    qed
  qed
  with run show ?thesis by (simp add: choose_inv_def s')
qed

lemma ChooseBranchFactor_scan_inv:
  assumes "sorted_wrt (<) (c # cps)" and "\<forall>x\<in>set (c # cps). x < UINT32_MAX"
  shows "choose_inv (c # cps) (ChooseBranchFactor_scan c cps)"
  using assms
proof (induction cps rule: rev_induct)
  case Nil
  have "\<not> complete (kBFTwigSize bf) {c} t" for bf t
  proof
    assume a: "complete (kBFTwigSize bf) {c} t"
    have "2 \<le> kBFTwigSize bf" by (cases bf) (simp_all add: kBFTwigSize_def)
    then have "t * kBFTwigSize bf \<in> {t * kBFTwigSize bf..<t * kBFTwigSize bf + kBFTwigSize bf}"
      "t * kBFTwigSize bf + 1 \<in> {t * kBFTwigSize bf..<t * kBFTwigSize bf + kBFTwigSize bf}" by simp_all
    with a have "t * kBFTwigSize bf = c" "t * kBFTwigSize bf + 1 = c" unfolding complete_def by blast+
    then show False by simp
  qed
  then show ?case by (auto simp: choose_inv_def ChooseBranchFactor_scan_def)
next
  case (snoc x cps)
  then have "choose_inv (c # cps) (ChooseBranchFactor_scan c cps)"
    by (auto simp: sorted_wrt_append)
  from ChooseBranchFactor_step_inv [OF this, of x] snoc.prems show ?case
    by (simp add: ChooseBranchFactor_scan_def)
qed

section \<open>The round trip\<close>

lemma PickBranchFactor_depth:
  assumes "TreeDepthFor_vector cps optimal \<le> kBFMaxDepth optimal"
  shows "TreeDepthFor_vector cps (PickBranchFactor cps bytes bfs optimal)
    \<le> kBFMaxDepth (PickBranchFactor cps bytes bfs optimal)"
  using assms by (induction bfs arbitrary: optimal) auto

text \<open>
  The chosen branch factor can represent the set in a tree of legal depth, and the twigs are
  exactly the completely filled ones for it, whatever the size estimates are.
\<close>

lemma ChooseBranchFactor_spec:
  assumes cps: "cps \<noteq> []" and "sorted_wrt (<) cps" and "\<forall>x\<in>set cps. x < UINT32_MAX"
    and choice: "ChooseBranchFactor conv cps = (bf, ts)"
  shows "TreeDepthFor (last cps) bf \<le> kBFMaxDepth bf"
    and "set ts = {t. complete (kBFTwigSize bf) (set cps) t}" and "sorted_wrt (<) ts"
proof -
  obtain c rest where c: "cps = c # rest" using cps by (cases cps) auto
  let ?s = "ChooseBranchFactor_scan c rest"
  let ?bytes = "EstimateBytes conv ?s [BF2, BF4, BF8, BF32] (cs_prev_cp ?s)"
  have bf: "bf = PickBranchFactor cps ?bytes [BF2, BF32, BF8] BF4" and ts: "ts = cs_filled_twigs ?s bf"
    using choice
    by (auto simp add: ChooseBranchFactor_def Let_def c simp del: EstimateBytes.simps PickBranchFactor.simps)
  have d: "TreeDepthFor_vector cps b = TreeDepthFor (last cps) b" for b
    using cps by (simp add: TreeDepthFor_vector_def last_conv_nth)
  have "last cps < UINT32_MAX" using assms(3) cps by simp
  then have "TreeDepthFor_vector cps BF4 \<le> kBFMaxDepth BF4"
    unfolding d by (rule TreeDepthFor_fits) simp
  from PickBranchFactor_depth [OF this, of ?bytes "[BF2, BF32, BF8]"]
  show "TreeDepthFor (last cps) bf \<le> kBFMaxDepth bf" unfolding d bf [symmetric] .
  have "choose_inv cps ?s" unfolding c using assms(2,3) by (intro ChooseBranchFactor_scan_inv) (simp_all add: c)
  then show "set ts = {t. complete (kBFTwigSize bf) (set cps) t}" "sorted_wrt (<) ts"
    by (simp_all add: choose_inv_def ts)
qed

lemma Encode_auto_roundtrip_aux:
  assumes "members S \<noteq> {}"
  shows "\<exists>bytes. Encode_auto conv S = Some bytes \<and>
    Decode (bytes @ rest) out = (Inr rest, IntSet_union_set out S)"
proof -
  obtain bf ts where choice: "ChooseBranchFactor conv (to_vector S) = (bf, ts)" by fastforce
  have ne: "to_vector S \<noteq> []" using assms by (metis empty_set set_to_vector)
  have "\<forall>x\<in>set (to_vector S). x < UINT32_MAX" using members_bound by simp
  note c = ChooseBranchFactor_spec [OF ne to_vector_sorted this choice]
  from EncodeSet_roundtrip [OF assms c(1) _ c(3), of rest out] c(2)
  show ?thesis using assms by (simp add: Encode_auto_def choice)
qed

end
