(* ===== verification/Sparse_Grammar.thy ===== *)
theory Sparse_Grammar
  imports Sparse_Decode
begin

text \<open>
  What a sparse bit set is, apart from any decoder: a tree whose nodes are written level by level, and
  that the decoder accepts exactly the bytes that hold the codes of such a tree.
\<close>

section \<open>Trees\<close>

text \<open>
  Below the leaves there are single values. A node is filled, or has the children at the given positions.
\<close>

datatype bit_tree = Single_value | Filled_node | Inner_node "(nat \<times> bit_tree) list"

fun tree_ok :: "branch_factor \<Rightarrow> nat \<Rightarrow> bit_tree \<Rightarrow> bool" where
  "tree_ok bf 0 t = (t = Single_value)"
| "tree_ok bf (Suc h) t = (case t of Single_value \<Rightarrow> False | Filled_node \<Rightarrow> True
     | Inner_node cs \<Rightarrow> cs \<noteq> [] \<and> sorted_wrt (<) (map fst cs) \<and> (\<forall>(i, c) \<in> set cs. i < kBFNodeSize bf \<and> tree_ok bf h c))"

fun node_mask :: "bit_tree \<Rightarrow> nat" where
  "node_mask (Inner_node cs) = mask_of (map fst cs)"
| "node_mask t = 0"

fun subtrees :: "bit_tree \<Rightarrow> bit_tree list" where
  "subtrees (Inner_node cs) = map snd cs"
| "subtrees t = []"

text \<open>The codes of the nodes of a list of trees, level by level.\<close>

fun level_order :: "nat \<Rightarrow> bit_tree list \<Rightarrow> nat list" where
  "level_order 0 ts = []"
| "level_order (Suc h) ts = map node_mask ts @ level_order h (concat (map subtrees ts))"

text \<open>The values of the tree that is the \<open>p\<close>-th of its height, from left to right.\<close>

fun tree_values :: "branch_factor \<Rightarrow> nat \<Rightarrow> nat \<Rightarrow> bit_tree \<Rightarrow> nat set" where
  "tree_values bf 0 p t = {p}"
| "tree_values bf (Suc h) p t = (case t of Single_value \<Rightarrow> {}
     | Filled_node \<Rightarrow> {p * kBFNodeSize bf ^ Suc h..<(p + 1) * kBFNodeSize bf ^ Suc h}
     | Inner_node cs \<Rightarrow> \<Union>(i, c) \<in> set cs. tree_values bf h (p * kBFNodeSize bf + i) c)"

section \<open>Reading nodes\<close>

lemma ib_nodes_bound: "n \<in> set (ib_nodes ib) \<Longrightarrow> n < 2 ^ kBFNodeSize (ib_branch_factor ib)"
proof -
  have "x \<in> set (chunks n xs) \<Longrightarrow> length x = n" for x n and xs :: "bool list"
  proof (induction n xs rule: chunks.induct)
    case (1 n xs)
    then show ?case using chunks.simps [of n xs] by (auto split: if_splits)
  qed
  moreover have "bits_value x < 2 ^ length x" for x
    unfolding bits_value_def by (rule horner_sum_of_bool_2_less)
  ultimately have bound: "x \<in> set (chunks k xs) \<Longrightarrow> bits_value x < 2 ^ k" for x k xs by metis
  show "n \<in> set (ib_nodes ib) \<Longrightarrow> n < 2 ^ kBFNodeSize (ib_branch_factor ib)"
    using bound by (auto simp: ib_nodes_def nodes_in_def)
qed

text \<open>The reader moves by one node.\<close>

definition moved :: "nat \<Rightarrow> bit_input_buffer \<Rightarrow> bit_input_buffer \<Rightarrow> bool" where
  "moved n ib ib' \<longleftrightarrow> ib_ok ib' \<and> ib_branch_factor ib' = ib_branch_factor ib \<and> ib_bits ib' = ib_bits ib \<and>
     ib_nodes ib' = drop n (ib_nodes ib) \<and> ib_pos ib' = ib_pos ib + n * kBFNodeSize (ib_branch_factor ib)"

lemma moved_0: "ib_ok ib \<Longrightarrow> moved 0 ib ib"
  by (simp add: moved_def)

lemma moved_add: "moved m ib ib' \<Longrightarrow> moved n ib' ib'' \<Longrightarrow> moved (m + n) ib ib''"
  by (simp add: moved_def add_mult_distrib add.commute)

lemma read_node:
  assumes "ib_ok ib" and "ib_nodes ib = n # ns"
  obtains v ib' where "ib_read ib = Some (v, ib')" "unat v = n" "moved 1 ib ib'"
proof -
  obtain v ib' where rd: "ib_read ib = Some (v, ib')" "unat v = n" "ib_nodes ib' = ns" "ib_ok ib'"
    using source.get_Cons [OF assms] .
  have "moved 1 ib ib'" using rd assms(2) ib_read_spec [OF assms(1) rd(1)] by (simp add: moved_def)
  with rd show ?thesis by (intro that)
qed

section \<open>The loop over a level\<close>

definition node_body :: "branch_factor \<Rightarrow> bool \<Rightarrow> nat \<Rightarrow> nat \<Rightarrow> nat \<Rightarrow> nat \<Rightarrow> decode_state \<Rightarrow> decode_state" where
  "node_body bf leaf sz fac nb n s =
     (if n = 0 then s\<lparr>d_out := IntSet_insert_range (nb * fac mod TWO32) ((nb * fac mod TWO32 + sz - 1) mod TWO32) (d_out s)\<rparr>
      else fold (Decode_bit bf leaf n nb) [0..<kBFNodeSize bf] s)"

lemma Decode_nodes_read:
  "ib_read (d_bits s) = Some (v, ib') \<Longrightarrow> Decode_nodes bf leaf sz fac (nb # nbs) s =
     Decode_nodes bf leaf sz fac nbs (node_body bf leaf sz fac nb (unat v) (s\<lparr>d_bits := ib'\<rparr>))"
  by (simp add: node_body_def Let_def)

definition positions_of :: "branch_factor \<Rightarrow> nat \<Rightarrow> nat list" where
  "positions_of bf n = filter (bit n) [0..<kBFNodeSize bf]"

lemma positions_of_0 [simp]: "positions_of bf 0 = []"
  by (simp add: positions_of_def)

lemma positions_of_bound: "i \<in> set (positions_of bf n) \<Longrightarrow> i < kBFNodeSize bf"
  by (simp add: positions_of_def)

lemma positions_of_sorted: "sorted_wrt (<) (positions_of bf n)"
  by (simp add: positions_of_def strict_sorted_filter)

lemma mask_positions:
  assumes "n < 2 ^ kBFNodeSize bf"
  shows "mask_of (positions_of bf n) = n"
proof (rule bit_eqI)
  fix i
  have "bit n i \<Longrightarrow> i < kBFNodeSize bf" using assms by (metis bit_take_bit_iff take_bit_nat_eq_self)
  then show "bit (mask_of (positions_of bf n)) i = bit n i" by (auto simp: bit_mask_of positions_of_def)
qed

lemma node_body_frame:
  "d_bits (node_body bf leaf sz fac nb n s) = d_bits s"
  "d_next (node_body bf leaf sz fac nb n s) = d_next s @
     (if leaf then [] else map (\<lambda>i. push_bit (kBFNodeSizeLog2 bf) (or nb i) mod TWO32) (positions_of bf n))"
  "d_pending (node_body bf leaf sz fac nb n s) = d_pending s @ (if leaf then map (or nb) (positions_of bf n) else [])"
  "members (d_out s) \<subseteq> members (d_out (node_body bf leaf sz fac nb n s))"
  "n \<noteq> 0 \<Longrightarrow> d_out (node_body bf leaf sz fac nb n s) = d_out s"
  by (cases leaf; simp add: node_body_def positions_of_def fold_Decode_bit_leaf fold_Decode_bit_inner)+

text \<open>How many nodes of a list the levels take, if there are enough.\<close>

fun consumed :: "branch_factor \<Rightarrow> nat \<Rightarrow> nat \<Rightarrow> nat list \<Rightarrow> nat option" where
  "consumed bf 0 k ns = Some 0"
| "consumed bf (Suc h) k ns = (if length ns < k then None
     else map_option ((+) k) (consumed bf h (sum_list (map (\<lambda>n. length (positions_of bf n)) (take k ns))) (drop k ns)))"

lemma Decode_nodes_shape:
  assumes "ib_ok (d_bits s)"
  shows "case Decode_nodes bf leaf sz fac nbs s of
     Inl out \<Rightarrow> length (ib_nodes (d_bits s)) < length nbs \<and> members (d_out s) \<subseteq> members out
   | Inr s' \<Rightarrow> length nbs \<le> length (ib_nodes (d_bits s)) \<and> members (d_out s) \<subseteq> members (d_out s') \<and>
       moved (length nbs) (d_bits s) (d_bits s') \<and> (\<not> leaf \<longrightarrow> length (d_next s') =
         length (d_next s) + sum_list (map (\<lambda>n. length (positions_of bf n)) (take (length nbs) (ib_nodes (d_bits s)))))"
  using assms
proof (induction nbs arbitrary: s)
  case Nil
  then show ?case by (simp add: moved_0)
next
  case (Cons nb nbs)
  show ?case
  proof (cases "ib_nodes (d_bits s)")
    case Nil
    then have "ib_read (d_bits s) = None" using source.get_None [OF Cons.prems] by simp
    then show ?thesis using Nil by simp
  next
    case nodes: (Cons n ns)
    obtain v ib' where rd: "ib_read (d_bits s) = Some (v, ib')" "unat v = n" "moved 1 (d_bits s) ib'"
      using read_node [OF Cons.prems nodes] .
    define s1 where "s1 = node_body bf leaf sz fac nb n (s\<lparr>d_bits := ib'\<rparr>)"
    have step: "Decode_nodes bf leaf sz fac (nb # nbs) s = Decode_nodes bf leaf sz fac nbs s1"
      unfolding s1_def rd(2) [symmetric] by (rule Decode_nodes_read [OF rd(1)])
    have s1: "d_bits s1 = ib'" "members (d_out s) \<subseteq> members (d_out s1)"
      "\<not> leaf \<longrightarrow> length (d_next s1) = length (d_next s) + length (positions_of bf n)"
      using node_body_frame(4) [of "s\<lparr>d_bits := ib'\<rparr>" bf leaf sz fac nb n]
      by (simp_all add: s1_def node_body_frame(1,2))
    have ns: "ib_nodes ib' = ns" "ib_ok ib'" using rd(3) nodes by (simp_all add: moved_def)
    note add = moved_add [OF rd(3)]
    show ?thesis
    proof (cases "Decode_nodes bf leaf sz fac nbs s1")
      case (Inl out)
      with Cons.IH [of s1] s1 ns nodes step show ?thesis by (simp, blast)
    next
      case (Inr s')
      with Cons.IH [of s1] s1 ns nodes step add [of "length nbs"] show ?thesis by (simp, blast)
    qed
  qed
qed

lemma Decode_levels_shape:
  assumes "ib_ok (d_bits s)" and "d_next s = []" and "l + r = h"
  shows "case Decode_levels bf h [l..<h] sz fac nbs s of
     Inl out \<Rightarrow> consumed bf r (length nbs) (ib_nodes (d_bits s)) = None \<and> members (d_out s) \<subseteq> members out
   | Inr s' \<Rightarrow> \<exists>m. consumed bf r (length nbs) (ib_nodes (d_bits s)) = Some m \<and> members (d_out s) \<subseteq> members (d_out s') \<and>
       moved m (d_bits s) (d_bits s')"
  using assms
proof (induction r arbitrary: l sz fac nbs s)
  case 0
  then show ?case by (simp add: moved_0)
next
  case (Suc r)
  have upt: "[l..<h] = l # [Suc l..<h]" using Suc.prems(3) by (simp add: upt_conv_Cons)
  note nodes = Decode_nodes_shape [OF Suc.prems(1), where bf = bf and leaf = "l = h - 1" and sz = sz and fac = fac and nbs = nbs]
  show ?case
  proof (cases "Decode_nodes bf (l = h - 1) sz fac nbs s")
    case (Inl out)
    then show ?thesis using nodes unfolding upt Decode_levels.simps Inl by simp
  next
    case (Inr s1)
    let ?s2 = "s1\<lparr>d_next := []\<rparr>" and ?w = "kBFNodeSizeLog2 bf"
    let ?c = "sum_list (map (\<lambda>n. length (positions_of bf n)) (take (length nbs) (ib_nodes (d_bits s))))"
    have s1: "length nbs \<le> length (ib_nodes (d_bits s))" "members (d_out s) \<subseteq> members (d_out s1)"
      "moved (length nbs) (d_bits s) (d_bits s1)" "l \<noteq> h - 1 \<Longrightarrow> length (d_next s1) = ?c"
      using nodes Suc.prems(2) unfolding Inr by simp_all
    have ok: "ib_ok (d_bits ?s2)" "ib_nodes (d_bits s1) = drop (length nbs) (ib_nodes (d_bits s))"
      using s1(3) by (simp_all add: moved_def)
    have cons: "consumed bf r (length (d_next s1)) ns = consumed bf r ?c ns" for ns
      using s1(4) Suc.prems(3) by (cases "r = 0") auto
    have "Suc l + r = h" using Suc.prems(3) by simp
    note IH = Suc.IH [OF ok(1) _ this, where sz = "drop_bit ?w sz" and fac = "drop_bit ?w fac" and nbs = "d_next s1"]
    have step: "Decode_levels bf h [l..<h] sz fac nbs s =
        Decode_levels bf h [Suc l..<h] (drop_bit ?w sz) (drop_bit ?w fac) (d_next s1) ?s2"
      unfolding upt Decode_levels.simps Inr by simp
    show ?thesis
    proof (cases "Decode_levels bf h [Suc l..<h] (drop_bit ?w sz) (drop_bit ?w fac) (d_next s1) ?s2")
      case inner: (Inl out)
      then show ?thesis using IH s1(1,2) by (auto simp: step ok(2) cons)
    next
      case inner: (Inr s')
      with IH obtain m where m: "consumed bf r ?c (drop (length nbs) (ib_nodes (d_bits s))) = Some m"
        "members (d_out s1) \<subseteq> members (d_out s')" "moved m (d_bits s1) (d_bits s')" by (auto simp: ok(2) cons)
      from moved_add [OF s1(3) m(3)] m(1,2) s1(1,2) show ?thesis
        by (auto simp: step inner)
    qed
  qed
qed

section \<open>Node lists are trees\<close>

lemma node_mask_positions:
  assumes "tree_ok bf (Suc h) t"
  shows "positions_of bf (node_mask t) = (case t of Inner_node cs \<Rightarrow> map fst cs | _ \<Rightarrow> [])"
proof (cases t)
  case (Inner_node cs)
  then have "sorted_wrt (<) (map fst cs)" "\<forall>i \<in> set (map fst cs). i < kBFNodeSize bf" using assms by auto
  from filter_mask_of [OF this] show ?thesis by (simp add: Inner_node positions_of_def)
qed simp_all

lemma node_mask_count: "tree_ok bf (Suc h) t \<Longrightarrow> length (positions_of bf (node_mask t)) = length (subtrees t)"
  by (simp add: node_mask_positions split: bit_tree.split)

lemma subtrees_ok: "tree_ok bf (Suc h) t \<Longrightarrow> c \<in> set (subtrees t) \<Longrightarrow> tree_ok bf h c"
  by (cases t) auto

lemma group_trees:
  assumes "length ts' = sum_list (map (\<lambda>n. length (positions_of bf n)) ns)" and "\<forall>t \<in> set ts'. tree_ok bf h t"
    and "\<forall>n \<in> set ns. n < 2 ^ kBFNodeSize bf"
  shows "\<exists>ts. map node_mask ts = ns \<and> concat (map subtrees ts) = ts' \<and> (\<forall>t \<in> set ts. tree_ok bf (Suc h) t)"
  using assms
proof (induction ns arbitrary: ts')
  case (Cons n ns)
  let ?is = "positions_of bf n" let ?k = "length ?is"
  have "length (drop ?k ts') = sum_list (map (\<lambda>n. length (positions_of bf n)) ns)" "\<forall>t \<in> set (drop ?k ts'). tree_ok bf h t"
    "\<forall>n \<in> set ns. n < 2 ^ kBFNodeSize bf"
    using Cons.prems by (auto dest: in_set_dropD)
  from Cons.IH [OF this] obtain ts where ts: "map node_mask ts = ns" "concat (map subtrees ts) = drop ?k ts'"
    "\<forall>t \<in> set ts. tree_ok bf (Suc h) t" by blast
  define t where "t = (if n = 0 then Filled_node else Inner_node (zip ?is (take ?k ts')))"
  have len: "length (take ?k ts') = ?k" using Cons.prems(1) by simp
  have n: "n < 2 ^ kBFNodeSize bf" using Cons.prems(3) by simp
  have "?is \<noteq> []" if "n \<noteq> 0" using mask_positions [OF n] that by (auto simp: mask_of_def)
  moreover have "i < kBFNodeSize bf \<and> tree_ok bf h c" if "(i, c) \<in> set (zip ?is (take ?k ts'))" for i c
    using set_zip_leftD [OF that] in_set_takeD [OF set_zip_rightD [OF that]] positions_of_bound Cons.prems(2) by blast
  ultimately have "node_mask t = n" "subtrees t = take ?k ts'" "tree_ok bf (Suc h) t"
    using len mask_positions [OF n] positions_of_sorted by (auto simp: t_def)
  then show ?case using ts by (intro exI [of _ "t # ts"]) simp
qed simp

lemma consumed_trees:
  assumes "\<forall>n \<in> set ns. n < 2 ^ kBFNodeSize bf"
  shows "consumed bf h k ns = Some m \<longleftrightarrow>
    (\<exists>ts. length ts = k \<and> (\<forall>t \<in> set ts. tree_ok bf h t) \<and> level_order h ts = take m ns \<and> m \<le> length ns)"
  using assms
proof (induction h arbitrary: k ns m)
  case 0
  show ?case by (auto intro!: exI [of _ "replicate k Single_value"])
next
  case (Suc h)
  let ?c = "\<lambda>ns. sum_list (map (\<lambda>n. length (positions_of bf n)) ns)"
  have rest: "\<forall>n \<in> set (drop k ns). n < 2 ^ kBFNodeSize bf" using Suc.prems by (auto dest: in_set_dropD)
  note IH = Suc.IH [OF rest]
  show ?case
  proof
    assume "consumed bf (Suc h) k ns = Some m"
    then obtain m' where m: "k \<le> length ns" "m = k + m'" "consumed bf h (?c (take k ns)) (drop k ns) = Some m'"
      by (auto split: if_splits)
    from m(3) [unfolded IH] obtain ts' where ts': "length ts' = ?c (take k ns)" "\<forall>t \<in> set ts'. tree_ok bf h t"
      "level_order h ts' = take m' (drop k ns)" "m' \<le> length (drop k ns)" by blast
    have "\<forall>n \<in> set (take k ns). n < 2 ^ kBFNodeSize bf" using Suc.prems by (auto dest: in_set_takeD)
    from group_trees [OF ts'(1,2) this] obtain ts where ts: "map node_mask ts = take k ns"
      "concat (map subtrees ts) = ts'" "\<forall>t \<in> set ts. tree_ok bf (Suc h) t" by blast
    have "length ts = k" using arg_cong [OF ts(1), of length] m(1) by simp
    with ts ts'(3,4) m show "\<exists>ts. length ts = k \<and> (\<forall>t \<in> set ts. tree_ok bf (Suc h) t) \<and>
        level_order (Suc h) ts = take m ns \<and> m \<le> length ns"
      by (intro exI [of _ ts]) (simp add: take_add)
  next
    assume "\<exists>ts. length ts = k \<and> (\<forall>t \<in> set ts. tree_ok bf (Suc h) t) \<and> level_order (Suc h) ts = take m ns \<and> m \<le> length ns"
    then obtain ts where ts: "length ts = k" "\<forall>t \<in> set ts. tree_ok bf (Suc h) t"
      "map node_mask ts @ level_order h (concat (map subtrees ts)) = take m ns" "m \<le> length ns" by auto
    from arg_cong [OF ts(3), of length] ts(1,4) have k: "k \<le> m" by simp
    from arg_cong [OF ts(3), of "take k"] ts(1) k have head: "map node_mask ts = take k ns" by (simp add: min_absorb1)
    from arg_cong [OF ts(3), of "drop k"] ts(1) have tail: "level_order h (concat (map subtrees ts)) = take (m - k) (drop k ns)"
      by (simp add: drop_take)
    have "length (positions_of bf (node_mask t)) = length (subtrees t)" if "t \<in> set ts" for t
      using ts(2) node_mask_count that by blast
    then have "length (concat (map subtrees ts)) = ?c (map node_mask ts)"
      by (simp add: length_concat comp_def cong: map_cong)
    moreover have "\<forall>t \<in> set (concat (map subtrees ts)). tree_ok bf h t" using ts(2) subtrees_ok by auto
    ultimately have "consumed bf h (?c (take k ns)) (drop k ns) = Some (m - k)"
      unfolding IH using tail ts(4) k unfolding head by (intro exI [of _ "concat (map subtrees ts)"]) simp
    then show "consumed bf (Suc h) k ns = Some m" using k ts(4) by simp
  qed
qed

section \<open>The values\<close>

text \<open>The children of a tree with their places from left to right.\<close>

definition below :: "branch_factor \<Rightarrow> nat \<times> bit_tree \<Rightarrow> (nat \<times> bit_tree) list" where
  "below bf = (\<lambda>(p, t). case t of Inner_node cs \<Rightarrow> map (\<lambda>(i, c). (p * kBFNodeSize bf + i, c)) cs | _ \<Rightarrow> [])"

lemma below_subtrees: "map snd (below bf pt) = subtrees (snd pt)"
  by (auto simp: below_def comp_def split: prod.split bit_tree.split)

lemma tree_values_below:
  "tree_ok bf (Suc h) t \<Longrightarrow> tree_values bf (Suc h) p t =
     (if t = Filled_node then {p * kBFNodeSize bf ^ Suc h..<(p + 1) * kBFNodeSize bf ^ Suc h}
      else \<Union>(q, c) \<in> set (below bf (p, t)). tree_values bf h q c)"
  by (cases t) (auto simp: below_def)

lemma tree_values_from: "tree_ok bf h t \<Longrightarrow> \<exists>v \<in> tree_values bf h p t. p * kBFNodeSize bf ^ h \<le> v"
proof (induction h arbitrary: p t)
  case (Suc h)
  let ?B = "kBFNodeSize bf"
  show ?case
  proof (cases t)
    case Filled_node
    have "0 < ?B ^ Suc h" by (simp del: power_Suc)
    then have "p * ?B ^ Suc h \<in> tree_values bf (Suc h) p t" by (simp add: Filled_node del: power_Suc)
    then show ?thesis by blast
  next
    case (Inner_node cs)
    then obtain i c where c: "(i, c) \<in> set cs" "tree_ok bf h c" using Suc.prems by (cases cs) auto
    from Suc.IH [OF c(2), of "p * ?B + i"] obtain v where v: "v \<in> tree_values bf h (p * ?B + i) c" "(p * ?B + i) * ?B ^ h \<le> v" by blast
    have "p * ?B ^ Suc h \<le> (p * ?B + i) * ?B ^ h" by (simp add: algebra_simps)
    then have "p * ?B ^ Suc h \<le> v" using v(2) by linarith
    moreover have "v \<in> tree_values bf (Suc h) p t" using c(1) v(1) Inner_node by auto
    ultimately show ?thesis by blast
  qed (use Suc.prems in simp)
qed simp

lemma below_ok:
  assumes "tree_ok bf (Suc h) t" and "(q, c) \<in> set (below bf (p, t))"
  shows "tree_ok bf h c" "tree_values bf h q c \<subseteq> tree_values bf (Suc h) p t"
  using assms tree_values_below [OF assms(1), of p] by (cases t; force simp: below_def)+

lemma below_sorted:
  assumes "sorted_wrt (<) (map fst pts)" and "\<forall>(p, t) \<in> set pts. tree_ok bf (Suc h) t"
  shows "sorted_wrt (<) (map fst (concat (map (below bf) pts)))"
  using assms
proof (induction pts)
  case (Cons pt pts)
  obtain p t where pt: "pt = (p, t)" by (cases pt)
  let ?B = "kBFNodeSize bf"
  have fst: "x \<in> fst ` set (below bf (q, u)) \<Longrightarrow> tree_ok bf (Suc h) u \<Longrightarrow> q * ?B \<le> x \<and> x < (q + 1) * ?B" for x q u
    by (cases u) (auto simp: below_def)
  have ord: "x < y" if x: "x \<in> fst ` set (below bf (p, t))" and q: "(q, u) \<in> set pts" and y: "y \<in> fst ` set (below bf (q, u))" for x y q u
  proof -
    have "p < q" using Cons.prems(1) q pt by force
    then have "(p + 1) * ?B \<le> q * ?B" by (intro mult_le_mono1) simp
    moreover have "tree_ok bf (Suc h) t" "tree_ok bf (Suc h) u" using Cons.prems(2) pt q by auto
    ultimately show ?thesis using fst [OF x] fst [OF y] by linarith
  qed
  have "sorted_wrt (<) (map fst (below bf (p, t)))"
    using Cons.prems(2) by (cases t) (auto simp: pt below_def comp_def case_prod_unfold sorted_wrt_map)
  moreover have "sorted_wrt (<) (map fst (concat (map (below bf) pts)))" using Cons by simp
  moreover have "\<forall>x \<in> set (map fst (below bf (p, t))). \<forall>y \<in> set (map fst (concat (map (below bf) pts))). x < y"
    using ord by fastforce
  ultimately show ?case by (simp add: pt sorted_wrt_append del: set_map)
qed simp

text \<open>One node, when no value of its tree leaves the 32 bits.\<close>

lemma node_body_tree:
  fixes bf :: branch_factor and p h :: nat and t :: bit_tree and s :: decode_state
  assumes ok: "tree_ok bf (Suc h) t" and bound: "tree_values bf (Suc h) p t \<subseteq> {..<UINT32_MAX}"
  defines "s' \<equiv> node_body bf (h = 0) (kBFNodeSize bf ^ Suc h) (kBFNodeSize bf ^ h) (p * kBFNodeSize bf) (node_mask t) s"
  shows "d_next s' = d_next s @ (if h = 0 then [] else map (\<lambda>(q, c). q * kBFNodeSize bf) (below bf (p, t)))"
    and "d_total s' = d_total s \<union> (if h = 0 \<or> t = Filled_node then tree_values bf (Suc h) p t else {})"
proof -
  let ?B = "kBFNodeSize bf" let ?w = "kBFNodeSizeLog2 bf"
  have or: "i < ?B \<Longrightarrow> or (p * ?B) i = p * ?B + i" for i
    using scaled_child [of bf "p * ?B" i] by (simp add: node_size_pow)
  have places: "map fst (below bf (p, t)) = map (\<lambda>i. p * ?B + i) (positions_of bf (node_mask t))"
    unfolding node_mask_positions [OF ok] by (cases t) (auto simp: below_def comp_def case_prod_unfold)
  have or_places: "map (or (p * ?B)) (positions_of bf (node_mask t)) = map fst (below bf (p, t))"
    unfolding places using or positions_of_bound by simp
  have shift: "push_bit ?w q mod TWO32 = q * ?B" if h: "h \<noteq> 0" and q: "(q, c) \<in> set (below bf (p, t))" for q c
  proof -
    obtain v where v: "v \<in> tree_values bf h q c" "q * ?B ^ h \<le> v"
      using tree_values_from [OF below_ok(1) [OF ok q]] by blast
    have "?B ^ 1 \<le> ?B ^ h" using h by (intro power_increasing) (simp_all add: Suc_leI)
    then have "q * ?B \<le> q * ?B ^ h" by simp
    moreover have "v < UINT32_MAX" using below_ok(2) [OF ok q] v(1) bound by blast
    ultimately have "q * ?B < TWO32" using v(2) by linarith
    then show ?thesis by (simp add: push_bit_eq_mult node_size_pow)
  qed
  have "map (\<lambda>i. push_bit ?w (or (p * ?B) i) mod TWO32) (positions_of bf (node_mask t)) =
      map (\<lambda>q. push_bit ?w q mod TWO32) (map fst (below bf (p, t)))"
    unfolding or_places [symmetric] by simp
  also have "\<dots> = map (\<lambda>(q, c). q * ?B) (below bf (p, t))" if "h \<noteq> 0"
    using shift [OF that] by (auto simp: comp_def)
  finally show "d_next s' = d_next s @ (if h = 0 then [] else map (\<lambda>(q, c). q * ?B) (below bf (p, t)))"
    by (simp add: s'_def node_body_frame(2))
  show "d_total s' = d_total s \<union> (if h = 0 \<or> t = Filled_node then tree_values bf (Suc h) p t else {})"
  proof (cases "t = Filled_node")
    case True
    let ?n = "?B ^ Suc h"
    have vals: "tree_values bf (Suc h) p t = {p * ?n..<(p + 1) * ?n}" by (simp add: True del: power_Suc)
    have pos: "0 < ?n" by (simp del: power_Suc)
    have arith: "q \<le> q + n - 1 \<and> q + n - 1 < q + n" if "0 < n" for q n :: nat using that by linarith
    have "(p + 1) * ?n = p * ?n + ?n" by (simp del: power_Suc)
    then have last: "p * ?n + ?n - 1 \<in> tree_values bf (Suc h) p t" unfolding vals atLeastLessThan_iff using arith [OF pos] by presburger
    then have lt: "p * ?n + ?n - 1 < UINT32_MAX" using bound by (auto simp del: power_Suc)
    have base: "p * ?B * ?B ^ h mod TWO32 = p * ?n" using lt pos by simp
    have end_: "(p * ?n + ?n - 1) mod TWO32 = p * ?n + ?n - 1" using lt by (simp del: power_Suc)
    have "{q..q + n - 1} = {q..<(q + n)}" if "0 < n" for q n :: nat using that by auto
    then have range: "{p * ?n..p * ?n + ?n - 1} = {p * ?n..<(p + 1) * ?n}"
      unfolding \<open>(p + 1) * ?n = p * ?n + ?n\<close> using pos by blast
    have "p * ?n \<le> p * ?n + ?n - 1" using arith [OF pos] by blast
    then have "members (IntSet_insert_range (p * ?n) (p * ?n + ?n - 1) (d_out s)) = members (d_out s) \<union> tree_values bf (Suc h) p t"
      using lt unfolding vals range [symmetric] by (simp del: power_Suc)
    moreover have "s' = s\<lparr>d_out := IntSet_insert_range (p * ?n) (p * ?n + ?n - 1) (d_out s)\<rparr>"
      by (simp only: s'_def True node_body_def node_mask.simps if_True refl base end_)
    ultimately show ?thesis using True by (auto simp: d_total_def simp del: tree_values.simps)
  next
    case False
    then obtain cs where t: "t = Inner_node cs" "cs \<noteq> []" using ok by (cases t) auto
    then have "node_mask t \<noteq> 0" by (simp add: mask_of_pos)
    then have out: "d_out s' = d_out s" by (simp add: s'_def node_body_frame(5))
    have pending: "d_pending s' = d_pending s @ (if h = 0 then map fst (below bf (p, t)) else [])"
      using or_places by (simp add: s'_def node_body_frame(3))
    have "tree_values bf (Suc 0) p t = fst ` set (below bf (p, t))"
      unfolding t by (force simp: below_def)
    then show ?thesis using False by (auto simp: d_total_def out pending)
  qed
qed

lemma Decode_nodes_trees:
  assumes "Decode_nodes bf (h = 0) (kBFNodeSize bf ^ Suc h) (kBFNodeSize bf ^ h) (map (\<lambda>(p, t). p * kBFNodeSize bf) pts) s = Inr s'"
    and "ib_ok (d_bits s)" and "take (length pts) (ib_nodes (d_bits s)) = map (node_mask \<circ> snd) pts"
    and "\<forall>(p, t) \<in> set pts. tree_ok bf (Suc h) t \<and> tree_values bf (Suc h) p t \<subseteq> {..<UINT32_MAX}"
  shows "d_next s' = d_next s @ (if h = 0 then [] else map (\<lambda>(q, c). q * kBFNodeSize bf) (concat (map (below bf) pts)))"
    and "d_total s' = d_total s \<union> (\<Union>(p, t) \<in> set pts. if h = 0 \<or> t = Filled_node then tree_values bf (Suc h) p t else {})"
  using assms
proof (induction pts arbitrary: s)
  case (Cons pt pts)
  obtain p t where pt: "pt = (p, t)" by (cases pt)
  {
    case 1
    from 1(3) obtain ns where nodes: "ib_nodes (d_bits s) = node_mask t # ns" "take (length pts) ns = map (node_mask \<circ> snd) pts"
      by (cases "ib_nodes (d_bits s)") (simp_all add: pt)
    obtain v ib' where rd: "ib_read (d_bits s) = Some (v, ib')" "unat v = node_mask t" "moved 1 (d_bits s) ib'"
      using read_node [OF 1(2) nodes(1)] .
    define s1 where "s1 = node_body bf (h = 0) (kBFNodeSize bf ^ Suc h) (kBFNodeSize bf ^ h) (p * kBFNodeSize bf) (node_mask t) (s\<lparr>d_bits := ib'\<rparr>)"
    have run: "Decode_nodes bf (h = 0) (kBFNodeSize bf ^ Suc h) (kBFNodeSize bf ^ h) (map (\<lambda>(p, t). p * kBFNodeSize bf) pts) s1 = Inr s'"
      using 1(1) Decode_nodes_read [OF rd(1), of bf "h = 0" _ _ "p * kBFNodeSize bf"] by (simp add: pt s1_def rd(2) del: power_Suc)
    have t: "tree_ok bf (Suc h) t" "tree_values bf (Suc h) p t \<subseteq> {..<UINT32_MAX}" using 1(4) pt by auto
    note body = node_body_tree [OF t, of "s\<lparr>d_bits := ib'\<rparr>", folded s1_def]
    have bits: "ib_ok (d_bits s1)" "take (length pts) (ib_nodes (d_bits s1)) = map (node_mask \<circ> snd) pts"
      using rd(3) nodes by (simp_all add: s1_def node_body_frame(1) moved_def)
    have "\<forall>(p, t) \<in> set pts. tree_ok bf (Suc h) t \<and> tree_values bf (Suc h) p t \<subseteq> {..<UINT32_MAX}"
      using 1(4) by (auto simp del: tree_ok.simps tree_values.simps)
    note IH = Cons.IH [OF run bits this]
    have "d_next s' = d_next s @ (if h = 0 then [] else map (\<lambda>(q, c). q * kBFNodeSize bf) (concat (map (below bf) (pt # pts)))) \<and>
        d_total s' = d_total s \<union> (\<Union>(p, t) \<in> set (pt # pts). if h = 0 \<or> t = Filled_node then tree_values bf (Suc h) p t else {})"
      unfolding IH body by (auto simp: pt d_total_def simp del: tree_ok.simps tree_values.simps)
  }
  note both = this
  case 1 show ?case using both [OF 1] by blast
  case 2 show ?case using both [OF 2] by blast
qed (simp_all)

lemma Decode_levels_values:
  assumes "Decode_levels bf h [l..<h] (kBFNodeSize bf ^ r) (kBFNodeSize bf ^ (r - 1)) (map (\<lambda>(p, t). p * kBFNodeSize bf) pts) s = Inr s'"
    and "l + r = h" and "0 < r" and "ib_ok (d_bits s)" and "d_next s = []" and "d_pending s = []"
    and "level_order r (map snd pts) = take m (ib_nodes (d_bits s))" and "m \<le> length (ib_nodes (d_bits s))"
    and "sorted_wrt (<) (map fst pts)"
    and "\<forall>(p, t) \<in> set pts. tree_ok bf r t \<and> tree_values bf r p t \<subseteq> {..<UINT32_MAX}"
  shows "d_total s' = d_total s \<union> (\<Union>(p, t) \<in> set pts. tree_values bf r p t) \<and> sorted_wrt (<) (d_pending s')"
  using assms
proof (induction r arbitrary: l m pts s)
  case (Suc r)
  let ?B = "kBFNodeSize bf" let ?w = "kBFNodeSizeLog2 bf" let ?bases = "map (\<lambda>(p, t). p * ?B) pts"
  let ?next = "concat (map (below bf) pts)"
  have upt: "[l..<h] = l # [Suc l..<h]" and leaf: "(l = h - 1) = (r = 0)" using Suc.prems(2) by (auto simp: upt_conv_Cons)
  obtain s1 where s1: "Decode_nodes bf (r = 0) (?B ^ Suc r) (?B ^ r) ?bases s = Inr s1"
    and run: "Decode_levels bf h [Suc l..<h] (drop_bit ?w (?B ^ Suc r)) (drop_bit ?w (?B ^ r)) (d_next s1) (s1\<lparr>d_next := []\<rparr>) = Inr s'"
    using Suc.prems(1) unfolding upt Decode_levels.simps leaf by (auto split: sum.splits)
  note shape = Decode_nodes_shape [OF Suc.prems(4), where bf = bf and leaf = "r = 0" and sz = "?B ^ Suc r" and fac = "?B ^ r" and nbs = ?bases,
      unfolded s1 sum.case]
  have head: "map (node_mask \<circ> snd) pts @ level_order r (map snd ?next) = take m (ib_nodes (d_bits s))"
    using Suc.prems(7) by (simp add: comp_def map_concat below_subtrees)
  have m: "length pts \<le> m" using arg_cong [OF head, of length] Suc.prems(8) by simp
  from arg_cong [OF head, of "take (length pts)"] m
  have codes: "take (length pts) (ib_nodes (d_bits s)) = map (node_mask \<circ> snd) pts" by (simp add: min_absorb1)
  from arg_cong [OF head, of "drop (length pts)"]
  have tail: "level_order r (map snd ?next) = take (m - length pts) (drop (length pts) (ib_nodes (d_bits s)))" by (simp add: drop_take)
  note nodes = Decode_nodes_trees [OF s1 Suc.prems(4) codes Suc.prems(10)]
  have split: "(\<Union>(p, t) \<in> set pts. tree_values bf (Suc r) p t) =
      (\<Union>(p, t) \<in> set pts. if r = 0 \<or> t = Filled_node then tree_values bf (Suc r) p t else {}) \<union>
      (if r = 0 then {} else \<Union>(q, c) \<in> set ?next. tree_values bf r q c)"
  proof -
    have one: "tree_values bf (Suc r) p t = (if r = 0 \<or> t = Filled_node then tree_values bf (Suc r) p t else {}) \<union>
        (if r = 0 then {} else \<Union>(q, c) \<in> set (below bf (p, t)). tree_values bf r q c)" if "(p, t) \<in> set pts" for p t
    proof -
      have "tree_ok bf (Suc r) t" using bspec [OF Suc.prems(10) that] by (simp only: prod.case)
      note tree_values_below [OF this, of p]
      moreover have "below bf (p, Filled_node) = []" by (simp add: below_def)
      ultimately show ?thesis
        by (cases "r = 0"; cases "t = Filled_node") (simp_all only: if_True if_False simp_thms Un_empty_right Un_empty_left list.set UN_empty)
    qed
    have "(\<Union>pt \<in> set pts. F pt) = (\<Union>pt \<in> set pts. G pt) \<union> (if r = 0 then {} else \<Union>pt \<in> set pts. \<Union>qc \<in> set (below bf pt). H qc)"
      if "\<And>pt. pt \<in> set pts \<Longrightarrow> F pt = G pt \<union> (if r = 0 then {} else \<Union>qc \<in> set (below bf pt). H qc)"
      for F G :: "nat \<times> bit_tree \<Rightarrow> nat set" and H :: "nat \<times> bit_tree \<Rightarrow> nat set"
      using that by (cases "r = 0") (simp_all add: UN_Un_distrib)
    moreover have "(\<Union>qc \<in> set ?next. H qc) = (\<Union>pt \<in> set pts. \<Union>qc \<in> set (below bf pt). H qc)"
      for H :: "nat \<times> bit_tree \<Rightarrow> nat set" by auto
    moreover have "(\<lambda>(p, t). tree_values bf (Suc r) p t) pt =
        (\<lambda>(p, t). if r = 0 \<or> t = Filled_node then tree_values bf (Suc r) p t else {}) pt \<union>
        (if r = 0 then {} else \<Union>qc \<in> set (below bf pt). (\<lambda>(q, c). tree_values bf r q c) qc)" if "pt \<in> set pts" for pt
      using one that by (cases pt) (simp only: prod.case)
    ultimately show ?thesis by (simp only:)
  qed
  show ?case
  proof (cases "r = 0")
    case True
    have "sorted_wrt (<) ?bases"
      using Suc.prems(9) by (auto simp: sorted_wrt_map case_prod_unfold elim!: sorted_wrt_mono_rel [rotated])
    moreover have "\<forall>nb \<in> set ?bases. 2 ^ ?w dvd nb" by (auto simp: node_size_pow)
    ultimately have "sorted_wrt (<) (d_pending s1)"
      using Decode_nodes_pending_leaf [of bf _ _ ?bases s s1] s1 Suc.prems(6) True by simp
    then show ?thesis using run True Suc.prems(2) nodes(2) split by (auto simp: d_total_def simp del: tree_values.simps)
  next
    case False
    then obtain r' where r': "r = Suc r'" by (cases r) auto
    let ?s2 = "s1\<lparr>d_next := []\<rparr>"
    have drop: "drop_bit ?w (?B ^ Suc r) = ?B ^ r" "drop_bit ?w (?B ^ r) = ?B ^ (r - 1)"
      by (simp_all add: r' drop_bit_eq_div node_size_pow)
    have pending: "d_pending s1 = []" using Decode_nodes_pending_inner [of bf _ _ _ s s1] s1 False Suc.prems(6) by simp
    have next_run: "Decode_levels bf h [Suc l..<h] (?B ^ r) (?B ^ (r - 1)) (map (\<lambda>(p, t). p * ?B) ?next) ?s2 = Inr s'"
      using run nodes(1) Suc.prems(5) False unfolding drop by simp
    have ok: "ib_ok (d_bits ?s2)" "ib_nodes (d_bits ?s2) = drop (length pts) (ib_nodes (d_bits s))"
      using shape by (simp_all add: moved_def)
    have "\<forall>(p, t) \<in> set pts. tree_ok bf (Suc r) t" using Suc.prems(10) by auto
    note sorted = below_sorted [OF Suc.prems(9) this]
    have "\<forall>(q, c) \<in> set ?next. tree_ok bf r c \<and> tree_values bf r q c \<subseteq> {..<UINT32_MAX}"
    proof clarify
      fix q c assume "(q, c) \<in> set ?next"
      then obtain p t where pt: "(p, t) \<in> set pts" "(q, c) \<in> set (below bf (p, t))" by auto
      then have "tree_ok bf (Suc r) t" "tree_values bf (Suc r) p t \<subseteq> {..<UINT32_MAX}" using Suc.prems(10) by auto
      with below_ok [OF this(1) pt(2)] show "tree_ok bf r c \<and> tree_values bf r q c \<subseteq> {..<UINT32_MAX}" by blast
    qed
    moreover have "Suc l + r = h" "0 < r" using Suc.prems(2) False by simp_all
    ultimately have "d_total s' = d_total ?s2 \<union> (\<Union>(p, t) \<in> set ?next. tree_values bf r p t) \<and> sorted_wrt (<) (d_pending s')"
      using Suc.IH [OF next_run _ _ ok(1), of "m - length pts"] tail sorted pending Suc.prems(8) unfolding ok(2) by simp
    moreover have "d_total ?s2 = d_total s1" by (simp add: d_total_def)
    ultimately show ?thesis using split False unfolding nodes(2) by (simp only: if_False Un_assoc simp_thms)
  qed
qed simp

section \<open>What the decoder accepts\<close>

text \<open>
  The header gives the branch factor and the height; a tree of the height whose codes are the first nodes
  behind the header is what the bytes encode, in \<open>tree_bytes\<close> bytes. A tree of height zero is the empty set.
\<close>

definition encodes_tree :: "bytes \<Rightarrow> bit_tree \<Rightarrow> bool" where
  "encodes_tree bs t \<longleftrightarrow> (let bf = DecodeBranchFactor bs; h = DecodeDepth bs; nodes = nodes_in bf (stream (tl bs))
     in tree_ok bf h t \<and> length (level_order h [t]) \<le> length nodes \<and>
        level_order h [t] = take (length (level_order h [t])) nodes)"

definition tree_bytes :: "bytes \<Rightarrow> bit_tree \<Rightarrow> nat" where
  "tree_bytes bs t = 1 + (length (level_order (DecodeDepth bs) [t]) * kBFNodeSize (DecodeBranchFactor bs) + 7) div 8"

definition tree_set :: "bytes \<Rightarrow> bit_tree \<Rightarrow> nat set" where
  "tree_set bs t = (if DecodeDepth bs = 0 then {} else tree_values (DecodeBranchFactor bs) (DecodeDepth bs) 0 t)"

lemma Decode_trees:
  assumes ne: "bs \<noteq> []" and depth: "DecodeDepth bs \<le> kBFMaxDepth (DecodeBranchFactor bs)"
  shows "(\<nexists>t. encodes_tree bs t) \<Longrightarrow> fst (Decode bs out) = Inl InvalidArgumentError"
    and "encodes_tree bs t \<Longrightarrow> fst (Decode bs out) = Inr (drop (tree_bytes bs t) bs)"
    and "encodes_tree bs t \<Longrightarrow> tree_set bs t \<subseteq> {..<UINT32_MAX} \<Longrightarrow> members (snd (Decode bs out)) = members out \<union> tree_set bs t"
    and "members out \<subseteq> members (snd (Decode bs out))"
proof -
  let ?bf = "DecodeBranchFactor bs" and ?h = "DecodeDepth bs" and ?ib = "BitInputBuffer bs"
  let ?B = "kBFNodeSize ?bf" and ?w = "kBFNodeSizeLog2 ?bf"
  let ?s = "\<lparr>d_bits = ?ib, d_out = out, d_next = [], d_pending = []\<rparr>"
  let ?size = "push_bit (?w * ?h) 1 :: nat"
  let ?run = "Decode_levels ?bf ?h [0..<?h] ?size (drop_bit ?w ?size) [0] ?s"
  have ib: "ib_ok ?ib" "ib_branch_factor ?ib = ?bf" "ib_depth ?ib = ?h" "ib_bits ?ib = bs" "ib_pos ?ib = 8"
    by (simp_all add: BitInputBuffer_def ib_ok_def ib_pos_def)
  have nodes: "ib_nodes ?ib = nodes_in ?bf (stream (tl bs))"
    using ne unfolding ib_nodes_def ib_stream_def ib by (cases bs) simp_all
  have eq: "Decode bs out = (case ?run of Inl out \<Rightarrow> (Inl InvalidArgumentError, out)
      | Inr s \<Rightarrow> (Inr (ib_Remaining (d_bits s)),
          if d_pending s \<noteq> [] then IntSet_insert_sorted_array (d_pending s) (d_out s) else d_out s))"
    using ne depth unfolding Decode_def Let_def ib by auto
  have shape: "case ?run of Inl out' \<Rightarrow> consumed ?bf ?h 1 (ib_nodes ?ib) = None \<and> members out \<subseteq> members out'
    | Inr s' \<Rightarrow> \<exists>m. consumed ?bf ?h 1 (ib_nodes ?ib) = Some m \<and> members out \<subseteq> members (d_out s') \<and> moved m ?ib (d_bits s')"
  proof -
    have "ib_ok (d_bits ?s)" "d_next ?s = []" "0 + ?h = ?h" and one: "length [0 :: nat] = 1" using ib(1) by simp_all
    from Decode_levels_shape [OF this(1-3), where bf = ?bf and sz = ?size and fac = "drop_bit ?w ?size" and nbs = "[0]"]
    show ?thesis unfolding one decode_state.simps .
  qed
  have small: "\<forall>n \<in> set (ib_nodes ?ib). n < 2 ^ ?B" using ib_nodes_bound [of _ ?ib] by (simp add: ib(2))
  have single: "(\<exists>ts. length ts = 1 \<and> P ts) \<longleftrightarrow> (\<exists>t. P [t])" for P :: "bit_tree list \<Rightarrow> bool"
    by (metis One_nat_def length_0_conv length_Cons length_Suc_conv)
  have len: "level_order ?h [t] = take m (ib_nodes ?ib) \<Longrightarrow> m \<le> length (ib_nodes ?ib) \<Longrightarrow> length (level_order ?h [t]) = m" for m t
    by simp
  have tree: "consumed ?bf ?h 1 (ib_nodes ?ib) = Some m \<longleftrightarrow> (\<exists>t. encodes_tree bs t \<and> length (level_order ?h [t]) = m)" for m
    unfolding consumed_trees [OF small] single encodes_tree_def Let_def nodes [symmetric] using len by auto
  show "(\<nexists>t. encodes_tree bs t) \<Longrightarrow> fst (Decode bs out) = Inl InvalidArgumentError"
    using shape tree unfolding eq by (auto split: sum.splits)
  have mono: "members out \<subseteq> members out' \<Longrightarrow> members out \<subseteq> members (IntSet_insert_sorted_array vs out')" for out' vs
    using members_insert_sorted_array_mono by blast
  show "members out \<subseteq> members (snd (Decode bs out))"
    using shape mono unfolding eq by (auto split: sum.splits)
  assume t: "encodes_tree bs t"
  let ?m = "length (level_order ?h [t])"
  have "consumed ?bf ?h 1 (ib_nodes ?ib) = Some ?m" using tree t by blast
  with shape obtain s' where s': "?run = Inr s'" "moved ?m ?ib (d_bits s')" by (auto split: sum.splits)
  have "ib_Remaining (d_bits s') = drop (tree_bytes bs t) bs"
  proof -
    have "ib_ok (d_bits s')" "ib_bits (d_bits s') = bs" "ib_pos (d_bits s') = 8 + ?m * ?B"
      using s'(2) by (simp_all add: moved_def ib)
    moreover have "(8 + ?m * ?B + 7) div 8 = tree_bytes bs t" by (simp add: tree_bytes_def)
    ultimately show ?thesis using ib_Remaining_pos by simp
  qed
  then show "fst (Decode bs out) = Inr (drop (tree_bytes bs t) bs)" unfolding eq s'(1) by simp
  assume bound: "tree_set bs t \<subseteq> {..<UINT32_MAX}"
  show "members (snd (Decode bs out)) = members out \<union> tree_set bs t"
  proof (cases "?h = 0")
    case True
    then have "?run = Inr ?s" by simp
    then show ?thesis using s'(1) unfolding eq s'(1) by (simp add: tree_set_def True)
  next
    case False
    have size: "?size = ?B ^ ?h" "drop_bit ?w ?size = ?B ^ (?h - 1)"
      using False by (simp_all add: push_bit_eq_mult node_size_pow power_mult drop_bit_eq_div) (cases ?h; simp)+
    from t have ok: "tree_ok ?bf ?h t" and codes: "level_order ?h [t] = take ?m (ib_nodes ?ib)" "?m \<le> length (ib_nodes ?ib)"
      by (simp_all add: encodes_tree_def Let_def nodes)
    have "d_total s' = d_total ?s \<union> (\<Union>(p, t) \<in> set [(0, t)]. tree_values ?bf ?h p t) \<and> sorted_wrt (<) (d_pending s')"
      by (rule Decode_levels_values [where pts = "[(0, t)]" and l = 0 and m = ?m])
        (use s'(1) size False ib(1) ok codes bound in \<open>simp_all add: tree_set_def\<close>)
    then have total: "members (d_out s') \<union> set (d_pending s') = members out \<union> tree_set bs t" "sorted_wrt (<) (d_pending s')"
      using False by (simp_all add: d_total_def tree_set_def)
    then have "set (d_pending s') \<subseteq> {..<UINT32_MAX}" using bound members_bound by fastforce
    then have "members (IntSet_insert_sorted_array (d_pending s') (d_out s')) = members (d_out s') \<union> set (d_pending s')"
      using members_insert_sorted_array [OF strict_sorted_imp_sorted [OF total(2)]] by auto
    then show ?thesis using total(1) unfolding eq s'(1) by auto
  qed
qed

end
