(* ===== verification/Sparse_Properties.thy ===== *)
theory Sparse_Properties
  imports Sparse_Choose Sparse_Grammar
begin

text \<open>
  The properties of the sparse bit set codec (\<^verbatim>\<open>ift/common/sparse_bit_set.cc\<close> and the bit
  buffers), each with a concrete instance where it has hypotheses.
\<close>

section \<open>Round trips\<close>

text \<open>
  C4: encoding any set with any branch factor succeeds (no out of range access, no absent key), and
  decoding the bytes, with any bytes behind them, adds exactly the members of the set to the
  caller's set and returns the bytes behind.
\<close>

theorem sparse_bit_set_roundtrip:
  "\<exists>bytes. Encode_with S bf = Some bytes \<and>
    Decode (bytes @ rest) out = (Inr rest, IntSet_union_set out S)"
  by (rule Encode_with_roundtrip_aux)

text \<open>
  C8: the same for \<^verbatim>\<open>Encode(set)\<close>, which chooses the branch factor and finds the filled twigs in
  one pass, whatever the size estimates are; the empty set gives no bytes at all.
\<close>

theorem sparse_bit_set_auto_roundtrip:
  "if members S = {} then Encode_auto conv S = Some []
   else \<exists>bytes. Encode_auto conv S = Some bytes \<and>
     Decode (bytes @ rest) out = (Inr rest, IntSet_union_set out S)"
  using Encode_auto_roundtrip_aux [of S conv rest out] by (simp add: Encode_auto_def)

text \<open>
  C10: nodes written to a \<^verbatim>\<open>BitOutputBuffer\<close> read back from a \<^verbatim>\<open>BitInputBuffer\<close> over its bytes, as
  many as were written and cut to the node size of the branch factor; then \<^verbatim>\<open>Remaining\<close> is what
  followed the buffer.
\<close>

theorem bit_buffer_roundtrip:
  assumes "d < 32"
  shows "\<exists>ws ib'. get_many ib_read (length vs)
        (BitInputBuffer (ob_to_string (write_nodes bf d vs) @ rest)) = Some (ws, ib') \<and>
      map unat ws = map (node_value bf) vs \<and> ib_Remaining ib' = rest"
  using assms by (rule bit_buffer_roundtrip_aux)

lemma bit_buffer_roundtrip_witness:
  "\<exists>ws ib'. get_many ib_read (Suc (Suc 0)) (BitInputBuffer (ob_to_string (write_nodes BF4 2 [9, 3]) @ [7])) = Some (ws, ib') \<and>
      map unat ws = [9, 3] \<and> ib_Remaining ib' = [7]"
  using bit_buffer_roundtrip [of 2 "[9, 3]" BF4 "[7]"]
  by (simp add: node_value_def take_bit_eq_mod)

section \<open>The encoder's parts\<close>

text \<open>
  C9: one run of the state machine over a layer writes, for every node of the layer that holds a
  value and is not inside a node a higher layer encoded as filled, in ascending order, 0 if it is
  filled at this layer and the mask of its non-empty children otherwise, and queues the bases of
  those children.
\<close>

theorem EncodeLayer_writes_layer:
  assumes "encode_ok bf h m cps" and "l < h" and "cps \<noteq> []"
  shows "EncodeLayer cps l h bf m (touched bf h m l cps) nb0 buf =
    Some (nb0 @ concat (map (node_kids bf h m l cps) (touched bf h m l cps)),
          write_all (map (node_code bf h m l cps) (touched bf h m l cps)) buf)"
  using assms by (rule EncodeLayer_spec)

lemma EncodeLayer_writes_layer_witness:
  "EncodeLayer [2, 63] 0 2 BF8 [] [0] [] (BitOutputBuffer BF8 2) =
    Some ([0, 56], ob_append 129 (BitOutputBuffer BF8 2))"
proof -
  have ok: "encode_ok BF8 2 [] [2, 63]"
    by (simp add: encode_ok_def good_levels_def nbits_def)
  have T: "touched BF8 2 [] 0 [2, 63] = [0]"
    by (simp add: touched_def live_def lev_def nbits_def align_def)
  have C: "children BF8 2 0 0 [2, 63] = [0, 7]"
    by (simp add: children_def nbits_def align_def child_of_def)
  have M: "mask_of [0, 7] = 129" by (simp add: mask_of_def)
  show ?thesis
    using EncodeLayer_writes_layer [OF ok, of 0 "[]" "BitOutputBuffer BF8 2"]
    unfolding T by (simp add: node_kids_def node_code_def child_bases_def lev_def C M nbits_def write_all_def)
qed

text \<open>
  The twigs \<^verbatim>\<open>FindFilledTwigs\<close> reports are exactly those all of whose values are in the set, in
  ascending order.
\<close>

theorem FindFilledTwigs_exact:
  "set (FindFilledTwigs (to_vector S) bf) = {t. complete (kBFTwigSize bf) (members S) t} \<and>
    sorted_wrt (<) (FindFilledTwigs (to_vector S) bf)"
  using FindFilledTwigs_complete [OF to_vector_sorted, of S bf] members_bound [of _ S] by fastforce

text \<open>
  C11: \<^verbatim>\<open>FindFilledNodes\<close>, given the complete twigs, looks up no absent twig and marks a twig with a
  level only when the whole node of that level around it is in the set and bears the same mark.
\<close>

theorem FindFilledNodes_marks_filled:
  assumes "h \<le> kBFMaxDepth bf"
  shows "\<exists>m. FindFilledNodes bf h (FindFilledTwigs (to_vector S) bf) = Some m \<and>
    good_levels bf h (members S) m"
proof -
  have "\<forall>x\<in>members S. x < TWO32" using members_bound by fastforce
  moreover have "set (FindFilledTwigs (to_vector S) bf) = {t. complete (kBFTwigSize bf) (members S) t} \<and>
    sorted_wrt (<) (FindFilledTwigs (to_vector S) bf)"
    using FindFilledTwigs_complete [OF to_vector_sorted, of S bf] members_bound [of _ S] by fastforce
  ultimately show ?thesis using assms FindFilledNodes_good by blast
qed

lemma FindFilledNodes_marks_filled_witness:
  "\<exists>m. FindFilledNodes BF2 3 (FindFilledTwigs (to_vector (IntSet [4, 5, 6, 7])) BF2) = Some m \<and>
    good_levels BF2 3 (members (IntSet [4, 5, 6, 7])) m"
  by (rule FindFilledNodes_marks_filled) simp

text \<open>
  The branch factor \<^verbatim>\<open>ChooseBranchFactor\<close> picks has a tree of legal depth for the set, and its
  twigs are exactly the complete ones for that branch factor.
\<close>

theorem ChooseBranchFactor_sound:
  assumes "members S \<noteq> {}"
  shows "case ChooseBranchFactor conv (to_vector S) of (bf, ts) \<Rightarrow>
    TreeDepthFor (last (to_vector S)) bf \<le> kBFMaxDepth bf \<and>
    set ts = {t. complete (kBFTwigSize bf) (members S) t} \<and> sorted_wrt (<) ts"
proof -
  have ne: "to_vector S \<noteq> []" using assms by (metis empty_set set_to_vector)
  have "\<forall>x\<in>set (to_vector S). x < UINT32_MAX" using members_bound by simp
  from ChooseBranchFactor_spec [OF ne to_vector_sorted this, of conv]
  show ?thesis by (auto split: prod.split)
qed

lemma ChooseBranchFactor_sound_witness:
  "case ChooseBranchFactor id (to_vector (IntSet [2, 63])) of (bf, ts) \<Rightarrow>
    TreeDepthFor (last (to_vector (IntSet [2, 63]))) bf \<le> kBFMaxDepth bf \<and>
    set ts = {t. complete (kBFTwigSize bf) (members (IntSet [2, 63])) t} \<and> sorted_wrt (<) ts"
  by (rule ChooseBranchFactor_sound) (simp, rule exI [of _ 2], simp)

text \<open>
  \<^verbatim>\<open>TreeDepthFor\<close> returns the least depth, at least one, whose tree covers the value.
\<close>

theorem TreeDepthFor_least:
  assumes "1 \<le> d"
  shows "TreeDepthFor m bf \<le> d \<longleftrightarrow> m < 2 ^ (kBFNodeSizeLog2 bf * d)"
proof
  assume "TreeDepthFor m bf \<le> d"
  then have "(2::nat) ^ (kBFNodeSizeLog2 bf * TreeDepthFor m bf) \<le> 2 ^ (kBFNodeSizeLog2 bf * d)"
    by (intro power_increasing mult_le_mono2) simp_all
  with TreeDepthFor_upper [of m bf] show "m < 2 ^ (kBFNodeSizeLog2 bf * d)" by linarith
next
  assume m: "m < 2 ^ (kBFNodeSizeLog2 bf * d)"
  show "TreeDepthFor m bf \<le> d"
  proof (rule ccontr)
    assume "\<not> ?thesis"
    with assms have "1 < TreeDepthFor m bf" "d \<le> TreeDepthFor m bf - 1" by linarith+
    moreover from this(2) have "(2::nat) ^ (kBFNodeSizeLog2 bf * d) \<le> 2 ^ (kBFNodeSizeLog2 bf * (TreeDepthFor m bf - 1))"
      by (intro power_increasing mult_le_mono2) simp_all
    ultimately show False using TreeDepthFor_lower [of m bf] m by linarith
  qed
qed

lemma TreeDepthFor_least_witness: "TreeDepthFor 63 BF8 \<le> 2 \<and> \<not> TreeDepthFor 64 BF8 \<le> 2"
  using TreeDepthFor_least [of 2 63 BF8] TreeDepthFor_least [of 2 64 BF8] by simp

section \<open>The decoder on any input\<close>

text \<open>
  C12: on any bytes but none, decoding is an invalid argument exactly when the depth of the header is above the
  maximum of its branch factor, or the nodes behind the header do not hold the codes of a tree of this depth.
  Otherwise it returns the bytes behind the last node of the tree, and adds exactly the values of the tree, provided
  that they are 32 bit values other than the reserved one. Whatever happens, no member is removed.
\<close>

theorem Decode_outcome:
  "if bytes = [] then Decode bytes out = (Inr [], out)
   else (fst (Decode bytes out) = Inl InvalidArgumentError \<longleftrightarrow>
       kBFMaxDepth (DecodeBranchFactor bytes) < DecodeDepth bytes \<or> (\<nexists>t. encodes_tree bytes t)) \<and>
     (\<forall>t. encodes_tree bytes t \<longrightarrow> DecodeDepth bytes \<le> kBFMaxDepth (DecodeBranchFactor bytes) \<longrightarrow>
       fst (Decode bytes out) = Inr (drop (tree_bytes bytes t) bytes) \<and>
       (tree_set bytes t \<subseteq> {..<UINT32_MAX} \<longrightarrow> members (snd (Decode bytes out)) = members out \<union> tree_set bytes t)) \<and>
     members out \<subseteq> members (snd (Decode bytes out))"
proof (cases "bytes = []")
  case True
  then show ?thesis by (simp add: Decode_def)
next
  case ne: False
  show ?thesis
  proof (cases "DecodeDepth bytes \<le> kBFMaxDepth (DecodeBranchFactor bytes)")
    case True
    note d = Decode_trees [OF ne True]
    show ?thesis unfolding if_not_P [OF ne] using d True by (metis Inl_Inr_False linorder_not_less)
  next
    case False
    then have "Decode bytes out = (Inl InvalidArgumentError, out)" using ne by (simp add: Decode_def BitInputBuffer_def)
    then show ?thesis unfolding if_not_P [OF ne] using False by simp
  qed
qed

text \<open>Branch factor 4, depth 1, and a node with the values 0 and 2; the header alone lacks the node.\<close>

lemma Decode_outcome_witness:
  "fst (Decode [5, 5, 7] IntSet_empty) = Inr [7] \<and> members (snd (Decode [5, 5, 7] IntSet_empty)) = {0, 2} \<and>
   fst (Decode [5] IntSet_empty) = Inl InvalidArgumentError"
proof -
  let ?t = "Inner_node [(0, Single_value), (2, Single_value)]"
  have header: "DecodeBranchFactor (5 # bs) = BF4" "DecodeDepth (5 # bs) = Suc 0" for bs
    by (simp_all add: DecodeBranchFactor_def DecodeDepth_def)
  have bits: "stream [5, 7] = [True, False, True, False] @ [False, False, False, False] @ byte_bits 7"
    by (simp add: byte_bits_def upt_8 bit_simps)
  have "chunks 4 ([True, False, True, False] @ bs) = [True, False, True, False] # chunks 4 bs" for bs
    by (rule chunks_append) simp_all
  then have nodes: "\<exists>ns. nodes_in BF4 (stream [5, 7]) = 5 # ns"
    unfolding nodes_in_def bits kBFNodeSize.simps by (simp only: list.map) (simp add: bits_value_def)
  have mask: "mask_of [0, 2] = 5" by (simp add: mask_of_def)
  have t: "encodes_tree [5, 5, 7] ?t" using nodes by (auto simp: encodes_tree_def header mask)
  have vals: "tree_set [5, 5, 7] ?t = {0, 2}" by (auto simp: tree_set_def header)
  have size: "drop (tree_bytes [5, 5, 7] ?t) [5, 5, 7] = [7 :: byte]" by (simp add: tree_bytes_def header)
  have "\<not> encodes_tree [5] t" for t
    by (auto simp: encodes_tree_def header nodes_in_def chunks_short)
  with t vals size Decode_outcome [of "[5, 5, 7]" IntSet_empty] Decode_outcome [of "[5]" IntSet_empty]
  show ?thesis by (auto simp: header)
qed

end
