(* ===== verification/Condition_Cnf.thy ===== *)
theory Condition_Cnf
  imports Int_Set "HOL-Library.Multiset"
begin

text \<open>
  The monotone formulas of \<^verbatim>\<open>ift/encoder/activation_condition.cc\<close> in conjunctive normal form: a
  list of groups of segments, true of an input when every group intersects it; and the
  \<^verbatim>\<open>Simplify\<close> that keeps such a list in its canonical form.
\<close>

type_synonym cnf = "int_set list"

section \<open>Meaning\<close>

text \<open>\<open>activates c I\<close>: the segments \<open>I\<close> intersect every group.\<close>

definition activates :: "cnf \<Rightarrow> nat set \<Rightarrow> bool" where
  "activates c I \<longleftrightarrow> (\<forall>g\<in>set c. members g \<inter> I \<noteq> {})"

lemma activates_Nil [simp]: "activates [] I"
  by (simp add: activates_def)

lemma activates_Cons [simp]: "activates (g # c) I \<longleftrightarrow> members g \<inter> I \<noteq> {} \<and> activates c I"
  by (simp add: activates_def)

lemma activates_append [simp]: "activates (c @ d) I \<longleftrightarrow> activates c I \<and> activates d I"
  by (auto simp: activates_def)

lemma activates_set: "set c = set d \<Longrightarrow> activates c I = activates d I"
  by (simp add: activates_def)

lemma activates_mono: "I \<subseteq> J \<Longrightarrow> activates c I \<Longrightarrow> activates c J"
  unfolding activates_def by blast

text \<open>The groups that contain no other group: those a simplified formula keeps.\<close>

definition minimal_groups :: "int_set set \<Rightarrow> int_set set" where
  "minimal_groups G = {g \<in> G. \<forall>h\<in>G. members h \<subseteq> members g \<longrightarrow> h = g}"

lemma minimal_below:
  assumes "finite G" and "g \<in> G"
  shows "\<exists>h\<in>minimal_groups G. members h \<subseteq> members g"
proof -
  let ?below = "{h \<in> G. members h \<subseteq> members g}"
  obtain h where h: "h \<in> ?below" and least: "\<And>k. k \<in> ?below \<Longrightarrow> card (members h) \<le> card (members k)"
    using ex_min_if_finite [of "(\<lambda>h. card (members h)) ` ?below"] assms
    by (auto simp: not_less) (metis (mono_tags, lifting) linorder_not_less order_refl)
  have "k = h" if "k \<in> G" "members k \<subseteq> members h" for k
  proof -
    have "k \<in> ?below" using h that by auto
    then have "card (members h) \<le> card (members k)" by (rule least)
    then show ?thesis using that(2) card_seteq [of "members h" "members k"] int_set_eqI by auto
  qed
  then have "h \<in> minimal_groups G" using h by (simp add: minimal_groups_def)
  with h show ?thesis by blast
qed

lemma activates_minimal:
  assumes "set d = minimal_groups (set c)"
  shows "activates d I = activates c I"
proof
  assume d: "activates d I"
  show "activates c I" unfolding activates_def
  proof
    fix g assume "g \<in> set c"
    then obtain h where "h \<in> minimal_groups (set c)" "members h \<subseteq> members g"
      using minimal_below [OF finite_set, of g c] by blast
    moreover from this(1) have "members h \<inter> I \<noteq> {}" using d assms by (simp add: activates_def)
    ultimately show "members g \<inter> I \<noteq> {}" by blast
  qed
next
  assume "activates c I"
  then show "activates d I" using assms by (auto simp: activates_def minimal_groups_def)
qed

text \<open>
  The complement of a group falsifies exactly the formulas with a group inside it, so formulas
  with the same meaning have the same minimal groups.
\<close>

lemma falsified_iff: "\<not> activates c (- members g) \<longleftrightarrow> (\<exists>h\<in>set c. members h \<subseteq> members g)"
  by (auto simp: activates_def)

lemma minimal_unique:
  assumes "\<And>I. activates c I = activates d I"
  shows "minimal_groups (set c) \<subseteq> minimal_groups (set d)"
proof
  fix g assume g: "g \<in> minimal_groups (set c)"
  then have "g \<in> set c" by (simp add: minimal_groups_def)
  then have "\<not> activates c (- members g)" by (auto simp: falsified_iff)
  then have "\<not> activates d (- members g)" by (simp add: assms)
  then obtain h where "h \<in> set d" "members h \<subseteq> members g" by (auto simp: falsified_iff)
  then obtain k where k: "k \<in> minimal_groups (set d)" "members k \<subseteq> members g"
    using minimal_below [OF finite_set, of h d] by blast
  then have "k \<in> set d" by (simp add: minimal_groups_def)
  then have "\<not> activates d (- members k)" by (auto simp: falsified_iff)
  then have "\<not> activates c (- members k)" by (simp add: assms)
  then obtain h' where "h' \<in> set c" "members h' \<subseteq> members k" by (auto simp: falsified_iff)
  moreover have "\<forall>h\<in>set c. members h \<subseteq> members g \<longrightarrow> h = g" using g by (simp add: minimal_groups_def)
  moreover note k(2)
  ultimately have "h' = g" by blast
  with \<open>members h' \<subseteq> members k\<close> k(2) have "members k = members g" by blast
  then have "k = g" by (rule int_set_eqI)
  with k(1) show "g \<in> minimal_groups (set d)" by simp
qed

section \<open>\<open>Simplify\<close>\<close>

fun Simplify_inner :: "cnf \<Rightarrow> nat \<Rightarrow> nat list \<Rightarrow> bool list \<Rightarrow> bool list" where
  "Simplify_inner c i [] redundant = redundant"
| "Simplify_inner c i (j # js) redundant =
     Simplify_inner c i js
       (if redundant ! j then redundant
        else if IntSet_is_subset_of (c ! i) (c ! j) then redundant[j := True]
        else redundant)"

fun Simplify_outer :: "cnf \<Rightarrow> nat list \<Rightarrow> bool list \<Rightarrow> bool list" where
  "Simplify_outer c [] redundant = redundant"
| "Simplify_outer c (i # is) redundant =
     Simplify_outer c is
       (if redundant ! i then redundant
        else Simplify_inner c i [i + 1..<length c] redundant)"

text \<open>The loop that moves the groups that are not redundant to the front, and the \<^verbatim>\<open>erase\<close>.\<close>

fun Simplify_write :: "cnf \<Rightarrow> bool list \<Rightarrow> cnf" where
  "Simplify_write (g # c) (r # redundant) =
     (if r then Simplify_write c redundant else g # Simplify_write c redundant)"
| "Simplify_write _ _ = []"

text \<open>
  The part behind the first \<^verbatim>\<open>std::sort\<close>, which orders groups of the same size in no particular
  way; the model sorts stably, and \<open>Simplify_sorted_any\<close> below shows that any other order gives
  the same result.
\<close>

definition Simplify_sorted :: "cnf \<Rightarrow> cnf" where
  "Simplify_sorted c =
     sort (Simplify_write c (Simplify_outer c [0..<length c] (replicate (length c) False)))"

definition Simplify :: "cnf \<Rightarrow> cnf" where
  "Simplify c = (if length c \<le> 1 then c else Simplify_sorted (sort_key IntSet_size c))"

lemma Simplify_inner_spec:
  assumes "set js \<subseteq> {..<length c}" and "length red = length c"
  shows "length (Simplify_inner c i js red) = length c \<and>
    (\<forall>k<length c. Simplify_inner c i js red ! k \<longleftrightarrow>
       red ! k \<or> k \<in> set js \<and> members (c ! i) \<subseteq> members (c ! k))"
  using assms
proof (induction js arbitrary: red)
  case Nil
  then show ?case by simp
next
  case (Cons j js)
  let ?red = "if red ! j then red
        else if IntSet_is_subset_of (c ! i) (c ! j) then red[j := True] else red"
  have "length ?red = length c" using Cons.prems by simp
  moreover have "?red ! k \<longleftrightarrow> red ! k \<or> k = j \<and> members (c ! i) \<subseteq> members (c ! j)"
    if "k < length c" for k
    using Cons.prems that by (auto simp: nth_list_update)
  ultimately show ?case using Cons.IH [of ?red] Cons.prems by auto
qed

text \<open>
  Over groups sorted by size, a group is redundant in the end exactly when an earlier one is
  contained in it.
\<close>

lemma Simplify_outer_inv:
  assumes "n \<le> length c"
  defines "red \<equiv> Simplify_outer c [0..<n] (replicate (length c) False)"
  shows "length red = length c \<and>
    (\<forall>k<length c. red ! k \<longleftrightarrow> (\<exists>i<n. i < k \<and> members (c ! i) \<subseteq> members (c ! k)))"
proof -
  have snoc: "Simplify_outer c (is @ [i]) red = (let red = Simplify_outer c is red in
      if red ! i then red else Simplify_inner c i [i + 1..<length c] red)" for "is" i red
    by (induction "is" arbitrary: red) (auto simp: Let_def)
  show ?thesis unfolding red_def using assms(1)
  proof (induction n)
    case 0
    then show ?case by simp
  next
    case (Suc n)
    let ?red = "Simplify_outer c [0..<n] (replicate (length c) False)"
    have IH: "length ?red = length c"
      "\<And>k. k < length c \<Longrightarrow> ?red ! k \<longleftrightarrow> (\<exists>i<n. i < k \<and> members (c ! i) \<subseteq> members (c ! k))"
      using Suc by auto
    have eq: "Simplify_outer c [0..<Suc n] (replicate (length c) False) =
        (if ?red ! n then ?red else Simplify_inner c n [n + 1..<length c] ?red)"
      by (simp add: snoc Let_def)
    show ?case
    proof (cases "?red ! n")
      case True
      then obtain i where i: "i < n" "members (c ! i) \<subseteq> members (c ! n)" using IH(2) [of n] Suc.prems by auto
      have "(\<exists>i<Suc n. i < k \<and> members (c ! i) \<subseteq> members (c ! k)) \<longleftrightarrow>
          (\<exists>i<n. i < k \<and> members (c ! i) \<subseteq> members (c ! k))" for k
        using i by (auto simp: less_Suc_eq) (meson less_trans order_trans)
      with True IH show ?thesis unfolding eq by simp
    next
      case False
      have "set [n + 1..<length c] \<subseteq> {..<length c}" by auto
      from Simplify_inner_spec [OF this IH(1), of n] False IH show ?thesis
        unfolding eq by (auto simp: less_Suc_eq)
    qed
  qed
qed

lemma Simplify_write_nths:
  "length red = length c \<Longrightarrow> Simplify_write c red = nths c {i. \<not> red ! i}"
  by (induction c red rule: Simplify_write.induct) (auto simp: nths_Cons)

lemma set_Simplify_write:
  "length red = length c \<Longrightarrow> set (Simplify_write c red) = {c ! k |k. k < length c \<and> \<not> red ! k}"
  by (auto simp: Simplify_write_nths set_nths)

lemma Simplify_write_nth:
  "length red = length c \<Longrightarrow>
   (\<forall>i j. i < j \<longrightarrow> j < length c \<longrightarrow> \<not> red ! i \<longrightarrow> \<not> red ! j \<longrightarrow> c ! i \<noteq> c ! j) \<Longrightarrow>
   distinct (Simplify_write c red)"
proof (induction c red rule: Simplify_write.induct)
  case (1 g c r red)
  have tail: "\<forall>i j. i < j \<longrightarrow> j < length c \<longrightarrow> \<not> red ! i \<longrightarrow> \<not> red ! j \<longrightarrow> c ! i \<noteq> c ! j"
    using "1.prems"(2) by (metis Suc_less_eq length_Cons nth_Cons_Suc)
  have "g \<notin> set (Simplify_write c red)" if "\<not> r"
  proof
    assume "g \<in> set (Simplify_write c red)"
    then obtain k where "k < length c" "\<not> red ! k" "g = c ! k"
      using "1.prems"(1) by (auto simp: set_Simplify_write)
    then show False using "1.prems"(2) that
      by (metis length_Cons nth_Cons_0 nth_Cons_Suc zero_less_Suc Suc_less_eq)
  qed
  with "1.IH" "1.prems"(1) tail show ?case by auto
qed auto

text \<open>The result, for any order of the groups that is ascending in size.\<close>

lemma Simplify_sorted_spec:
  assumes "sorted (map IntSet_size c)"
  shows "sorted_wrt (<) (Simplify_sorted c) \<and> set (Simplify_sorted c) = minimal_groups (set c)"
proof -
  define red where "red = Simplify_outer c [0..<length c] (replicate (length c) False)"
  have red: "length red = length c"
    "\<And>k. k < length c \<Longrightarrow> red ! k \<longleftrightarrow> (\<exists>i<k. members (c ! i) \<subseteq> members (c ! k))"
    using Simplify_outer_inv [of "length c" c] by (auto simp: red_def)
  have size: "card (members (c ! i)) \<le> card (members (c ! j))" if "i \<le> j" "j < length c" for i j
    using assms that by (auto simp: sorted_iff_nth_mono size_eq_card)
  have kept: "\<not> red ! k \<longleftrightarrow> c ! k \<in> minimal_groups (set c) \<and> (\<forall>i<k. c ! i \<noteq> c ! k)" if k: "k < length c" for k
  proof
    assume nr: "\<not> red ! k"
    have "c ! j = c ! k" if j: "j < length c" "members (c ! j) \<subseteq> members (c ! k)" for j
    proof (rule ccontr)
      assume ne: "c ! j \<noteq> c ! k"
      then have "members (c ! j) \<subset> members (c ! k)" using j(2) int_set_eqI by blast
      then have "card (members (c ! j)) < card (members (c ! k))" by (simp add: psubset_card_mono)
      then have "j < k" using size [of k j] j(1) by (meson leD not_less)
      with nr j(2) red(2) [OF k] show False by blast
    qed
    then have "c ! k \<in> minimal_groups (set c)"
      using k by (auto simp: minimal_groups_def in_set_conv_nth)
    moreover have "\<forall>i<k. c ! i \<noteq> c ! k" using nr red(2) [OF k] by auto
    ultimately show "c ! k \<in> minimal_groups (set c) \<and> (\<forall>i<k. c ! i \<noteq> c ! k)" by blast
  next
    assume a: "c ! k \<in> minimal_groups (set c) \<and> (\<forall>i<k. c ! i \<noteq> c ! k)"
    then have "\<forall>g\<in>set c. members g \<subseteq> members (c ! k) \<longrightarrow> g = c ! k" by (simp add: minimal_groups_def)
    then have "\<not> members (c ! i) \<subseteq> members (c ! k)" if "i < k" for i
      using a that k by (meson less_trans nth_mem)
    with red(2) [OF k] show "\<not> red ! k" by blast
  qed
  have "set (Simplify_write c red) = minimal_groups (set c)"
  proof (intro set_eqI iffI)
    fix g assume "g \<in> set (Simplify_write c red)"
    then show "g \<in> minimal_groups (set c)" using kept red(1) by (auto simp: set_Simplify_write)
  next
    fix g assume g: "g \<in> minimal_groups (set c)"
    then have "\<exists>k. k < length c \<and> c ! k = g" by (auto simp: minimal_groups_def in_set_conv_nth)
    then obtain k where k: "k < length c" "c ! k = g"
      and least: "\<And>i. i < k \<Longrightarrow> \<not> (i < length c \<and> c ! i = g)"
      using exists_least_iff [of "\<lambda>k. k < length c \<and> c ! k = g"] by blast
    have "\<forall>i<k. c ! i \<noteq> c ! k" using least k by (meson less_trans)
    then have "\<not> red ! k" using kept [OF k(1)] k(2) g by blast
    then show "g \<in> set (Simplify_write c red)"
      using k red(1) by (auto simp: set_Simplify_write)
  qed
  moreover have "distinct (Simplify_write c red)"
    using red(1) kept by (intro Simplify_write_nth) (auto dest: less_trans)
  ultimately show ?thesis unfolding Simplify_sorted_def red_def
    by (simp add: strict_sorted_iff)
qed

text \<open>
  Only the set of groups matters: whatever order the first sort leaves the groups of one size in,
  the result is the same.
\<close>

lemma Simplify_sorted_any_aux:
  assumes "sorted (map IntSet_size d)" and "mset d = mset c"
  shows "Simplify_sorted d = Simplify_sorted (sort_key IntSet_size c)"
proof -
  have "set d = set (sort_key IntSet_size c)" using assms(2) by (metis mset_eq_setD set_sort)
  with Simplify_sorted_spec [OF assms(1)] Simplify_sorted_spec [OF sorted_sort_key [of IntSet_size c]]
  show ?thesis by (intro strict_sorted_eqI) simp_all
qed

lemma Simplify_spec: "sorted_wrt (<) (Simplify c) \<and> set (Simplify c) = minimal_groups (set c)"
proof (cases "length c \<le> 1")
  case True
  then consider "c = []" | g where "c = [g]" by (cases c; cases "tl c") auto
  then show ?thesis by cases (auto simp: Simplify_def minimal_groups_def)
next
  case False
  with Simplify_sorted_spec [OF sorted_sort_key [of IntSet_size c]] show ?thesis by (simp add: Simplify_def)
qed

lemma Simplify_sorted_list: "sorted_wrt (<) (Simplify c)"
  using Simplify_spec by blast

lemma set_Simplify: "set (Simplify c) = minimal_groups (set c)"
  using Simplify_spec by blast

lemma activates_Simplify [simp]: "activates (Simplify c) I = activates c I"
  by (rule activates_minimal [OF set_Simplify])

lemma Simplify_unique_aux: "Simplify c = Simplify d \<longleftrightarrow> (\<forall>I. activates c I = activates d I)"
proof
  assume "Simplify c = Simplify d"
  then show "\<forall>I. activates c I = activates d I" by (metis activates_Simplify)
next
  assume "\<forall>I. activates c I = activates d I"
  then have "set (Simplify c) = set (Simplify d)"
    unfolding set_Simplify by (intro equalityI minimal_unique) simp_all
  then show "Simplify c = Simplify d" using Simplify_sorted_list by (intro strict_sorted_eqI)
qed

section \<open>Canonical formulas\<close>

definition canonical :: "cnf \<Rightarrow> bool" where
  "canonical c \<longleftrightarrow> Simplify c = c"

lemma canonical_Simplify [simp]: "canonical (Simplify c)"
  by (simp add: canonical_def Simplify_unique_aux)

lemma canonical_iff:
  "canonical c \<longleftrightarrow> sorted_wrt (<) c \<and> (\<forall>g\<in>set c. \<forall>h\<in>set c. members h \<subseteq> members g \<longrightarrow> h = g)"
proof
  assume "canonical c"
  then have "Simplify c = c" by (simp add: canonical_def)
  with Simplify_spec [of c] show "sorted_wrt (<) c \<and> (\<forall>g\<in>set c. \<forall>h\<in>set c. members h \<subseteq> members g \<longrightarrow> h = g)"
    by (auto simp: minimal_groups_def)
next
  assume a: "sorted_wrt (<) c \<and> (\<forall>g\<in>set c. \<forall>h\<in>set c. members h \<subseteq> members g \<longrightarrow> h = g)"
  then have "set (Simplify c) = set c" unfolding set_Simplify by (auto simp: minimal_groups_def)
  with a show "canonical c" unfolding canonical_def
    by (intro strict_sorted_eqI) (simp_all add: Simplify_sorted_list)
qed

lemma canonicalD:
  assumes "canonical c" and "g \<in> set c" and "h \<in> set c" and "members h \<subseteq> members g"
  shows "h = g"
  using assms unfolding canonical_iff by blast

lemma canonical_sorted: "canonical c \<Longrightarrow> sorted_wrt (<) c"
  unfolding canonical_iff by blast

lemma canonical_eq: "canonical c \<Longrightarrow> canonical d \<Longrightarrow> (\<And>I. activates c I = activates d I) \<Longrightarrow> c = d"
  by (metis Simplify_unique_aux canonical_def)

text \<open>Dropping groups keeps a formula canonical and weakens it.\<close>

lemma canonical_filter: "canonical c \<Longrightarrow> canonical (filter P c)"
  by (auto simp: canonical_iff sorted_wrt_filter)

lemma activates_filter: "activates c I \<Longrightarrow> activates (filter P c) I"
  by (auto simp: activates_def)

lemma singleton_less: "a < UINT32_MAX \<Longrightarrow> b < UINT32_MAX \<Longrightarrow> IntSet [a] < IntSet [b] \<longleftrightarrow> a < b"
  by (simp add: less_int_set_def to_vector_IntSet)

lemma canonical_singletons:
  assumes "sorted_wrt (<) vs" and "\<forall>v\<in>set vs. v < UINT32_MAX"
  shows "canonical (map (\<lambda>v. IntSet [v]) vs)"
proof -
  have "sorted_wrt (<) (map (\<lambda>v. IntSet [v]) vs)"
    using assms by (induction vs) (auto simp: singleton_less)
  with assms(2) show ?thesis by (auto simp: canonical_iff)
qed

lemma canonical_one [simp]: "canonical [g]" "canonical []"
  by (simp_all add: canonical_def Simplify_def)

end
