(* ===== verification/Activation_Condition.thy ===== *)
theory Activation_Condition
  imports Condition_Cnf "HOL-Library.Product_Lexorder"
begin

text \<open>
  \<^verbatim>\<open>ActivationCondition\<close> (\<^verbatim>\<open>ift/encoder/activation_condition.cc\<close> and \<^verbatim>\<open>.h\<close>): when a patch is to be
  loaded, a formula over segments with the patch it activates, its prefetches and flags. The
  cached hash is not modelled: every function that changes a field clears it.
\<close>

section \<open>The type\<close>

text \<open>\<^verbatim>\<open>ift/proto/patch_encoding.h\<close>\<close>

datatype patch_encoding = DEFAULT_ENCODING | TABLE_KEYED_FULL | TABLE_KEYED_PARTIAL | GLYPH_KEYED

fun encoding_rank :: "patch_encoding \<Rightarrow> nat" where
  "encoding_rank DEFAULT_ENCODING = 0"
| "encoding_rank TABLE_KEYED_FULL = 1"
| "encoding_rank TABLE_KEYED_PARTIAL = 2"
| "encoding_rank GLYPH_KEYED = 3"

lemma encoding_rank_inject: "encoding_rank a = encoding_rank b \<longleftrightarrow> a = b"
  by (cases a; cases b; simp)

instantiation patch_encoding :: linorder
begin
definition less_patch_encoding :: "patch_encoding \<Rightarrow> patch_encoding \<Rightarrow> bool" where
  "less_patch_encoding a b \<longleftrightarrow> encoding_rank a < encoding_rank b"
definition less_eq_patch_encoding :: "patch_encoding \<Rightarrow> patch_encoding \<Rightarrow> bool" where
  "less_eq_patch_encoding a b \<longleftrightarrow> encoding_rank a \<le> encoding_rank b"
instance
  by standard
    (auto simp: less_patch_encoding_def less_eq_patch_encoding_def encoding_rank_inject)
end

type_synonym patch_id = nat
type_synonym segment_index = nat

record activation_condition =
  ac_is_fallback :: bool
  ac_is_exclusive :: bool
  ac_conditions :: cnf
  ac_activated :: "patch_id list"
  ac_encoding :: patch_encoding

definition ActivationCondition :: activation_condition where
  "ActivationCondition = \<lparr>ac_is_fallback = False, ac_is_exclusive = False, ac_conditions = [],
     ac_activated = [0], ac_encoding = GLYPH_KEYED\<rparr>"

section \<open>Constructors\<close>

definition AC_True :: "patch_id \<Rightarrow> activation_condition" where
  "AC_True activated = ActivationCondition\<lparr>ac_activated := [activated], ac_conditions := [],
     ac_is_exclusive := False\<rparr>"

definition exclusive_segment :: "segment_index \<Rightarrow> patch_id \<Rightarrow> activation_condition" where
  "exclusive_segment index activated = ActivationCondition\<lparr>ac_activated := [activated],
     ac_conditions := [IntSet [index]], ac_is_exclusive := True\<rparr>"

definition and_segments :: "int_set \<Rightarrow> patch_id \<Rightarrow> activation_condition" where
  "and_segments segments activated = ActivationCondition\<lparr>ac_activated := [activated],
     ac_conditions := map (\<lambda>v. IntSet [v]) (to_vector segments)\<rparr>"

definition or_segments :: "int_set \<Rightarrow> patch_id \<Rightarrow> bool \<Rightarrow> activation_condition" where
  "or_segments segments activated is_fallback = ActivationCondition\<lparr>ac_activated := [activated],
     ac_conditions := [segments], ac_is_fallback := is_fallback\<rparr>"

definition composite_condition :: "cnf \<Rightarrow> patch_id \<Rightarrow> bool \<Rightarrow> activation_condition" where
  "composite_condition groups activated is_fallback = ActivationCondition\<lparr>ac_activated := [activated],
     ac_conditions := Simplify groups, ac_is_fallback := is_fallback\<rparr>"

definition clear_exclusive :: "activation_condition \<Rightarrow> activation_condition" where
  "clear_exclusive c = c\<lparr>ac_is_exclusive := False\<rparr>"

section \<open>Observers\<close>

definition IsAlwaysTrue :: "activation_condition \<Rightarrow> bool" where
  "IsAlwaysTrue c = (length (ac_conditions c) = 0)"

definition TriggeringSegments :: "activation_condition \<Rightarrow> int_set" where
  "TriggeringSegments c = fold (\<lambda>segments out. IntSet_union_set out segments) (ac_conditions c) IntSet_empty"

definition AC_Intersects :: "activation_condition \<Rightarrow> int_set \<Rightarrow> bool" where
  "AC_Intersects c segments = list_ex (\<lambda>g. IntSet_intersects g segments) (ac_conditions c)"

definition IsUnitary :: "activation_condition \<Rightarrow> bool" where
  "IsUnitary c = (length (ac_conditions c) = 1 \<and> IntSet_size (ac_conditions c ! 0) = 1)"

definition IsPurelyDisjunctive :: "activation_condition \<Rightarrow> bool" where
  "IsPurelyDisjunctive c = (length (ac_conditions c) = 1)"

definition IsPurelyConjunctive :: "activation_condition \<Rightarrow> bool" where
  "IsPurelyConjunctive c =
     (if length (ac_conditions c) \<le> 1 then False
      else list_all (\<lambda>segments. \<not> 1 < IntSet_size segments) (ac_conditions c))"

definition EffectiveGroupSize :: "activation_condition \<Rightarrow> nat" where
  "EffectiveGroupSize c =
     fold (\<lambda>g m. if IntSet_size g < m then IntSet_size g else m) (ac_conditions c) UINT32_MAX"

definition SetEncoding :: "patch_encoding \<Rightarrow> activation_condition \<Rightarrow> activation_condition" where
  "SetEncoding encoding c = c\<lparr>ac_encoding := encoding\<rparr>"

definition AddPrefetches :: "patch_id list \<Rightarrow> activation_condition \<Rightarrow> activation_condition" where
  "AddPrefetches activated c = c\<lparr>ac_activated := ac_activated c @ activated\<rparr>"

definition AC_activated :: "activation_condition \<Rightarrow> patch_id" where
  "AC_activated c = hd (ac_activated c)"

definition AC_prefetches :: "activation_condition \<Rightarrow> patch_id list" where
  "AC_prefetches c = tl (ac_activated c)"

text \<open>The protocol buffer: the required segments of each group, and the activated patch.\<close>

definition ToConfigProto :: "activation_condition \<Rightarrow> nat list list \<times> patch_id" where
  "ToConfigProto c = (map to_vector (ac_conditions c), AC_activated c)"

section \<open>Combining conditions\<close>

definition AC_And :: "activation_condition \<Rightarrow> activation_condition \<Rightarrow> activation_condition" where
  "AC_And a b =
     (let a_exclusive = (ac_is_exclusive a \<or> IsAlwaysTrue a);
          b_exclusive = (ac_is_exclusive b \<or> IsAlwaysTrue b);
          condition = a\<lparr>ac_conditions := Simplify (ac_conditions a @ ac_conditions b)\<rparr>
      in condition\<lparr>ac_is_exclusive := a_exclusive \<and> b_exclusive \<and> IsUnitary condition\<rparr>)"

text \<open>The walk over two sorted formulas: the shared groups, and those only in one of them.\<close>

fun Or_walk :: "cnf \<Rightarrow> cnf \<Rightarrow> cnf \<times> cnf \<times> cnf" where
  "Or_walk (a # as) (b # bs) =
     (if a < b then (case Or_walk as (b # bs) of (shared, ua, ub) \<Rightarrow> (shared, a # ua, ub))
      else if b < a then (case Or_walk (a # as) bs of (shared, ua, ub) \<Rightarrow> (shared, ua, b # ub))
      else (case Or_walk as bs of (shared, ua, ub) \<Rightarrow> (a # shared, ua, ub)))"
| "Or_walk [] bs = ([], [], bs)"
| "Or_walk as [] = ([], as, [])"

definition Or_product :: "cnf \<Rightarrow> cnf \<Rightarrow> cnf" where
  "Or_product a_unique b_unique =
     concat (map (\<lambda>a_group. map (\<lambda>b_group. IntSet_union_set a_group b_group) b_unique) a_unique)"

definition AC_Or :: "activation_condition \<Rightarrow> activation_condition \<Rightarrow> activation_condition" where
  "AC_Or a b =
     (let (shared, a_unique, b_unique) = Or_walk (ac_conditions a) (ac_conditions b);
          condition = \<lparr>ac_is_fallback = ac_is_fallback a, ac_is_exclusive = False,
            ac_conditions = shared, ac_activated = ac_activated a, ac_encoding = ac_encoding a\<rparr>
      in if a_unique = [] \<or> b_unique = [] then condition
         else condition\<lparr>ac_conditions := Simplify (shared @ Or_product a_unique b_unique)\<rparr>)"

section \<open>Replacing and removing segments\<close>

text \<open>The loop of the fast path: the groups that stay, and its two flags.\<close>

fun Replace_scan :: "segment_index \<Rightarrow> int_set \<Rightarrow> cnf \<Rightarrow> cnf \<times> bool \<times> bool" where
  "Replace_scan base segments [] = ([], False, False)"
| "Replace_scan base segments (g # gs) =
     (case Replace_scan base segments gs of (kept, has_replace, base_present) \<Rightarrow>
        if IntSet_intersects g segments then (kept, True, base_present)
        else (g # kept, has_replace, IntSet_contains g base \<or> base_present))"

fun insert_at_lower_bound :: "int_set \<Rightarrow> cnf \<Rightarrow> cnf" where
  "insert_at_lower_bound x [] = [x]"
| "insert_at_lower_bound x (y # ys) = (if y < x then y # insert_at_lower_bound x ys else x # y # ys)"

definition Replace_group :: "segment_index \<Rightarrow> int_set \<Rightarrow> int_set \<Rightarrow> int_set" where
  "Replace_group base segments g =
     (if IntSet_intersects g segments then IntSet_insert base (IntSet_subtract g segments) else g)"

definition ReplaceSegments ::
  "segment_index \<Rightarrow> int_set \<Rightarrow> activation_condition \<Rightarrow> activation_condition" where
  "ReplaceSegments base segments c =
     (if IsPurelyConjunctive c then
        let (kept, has_replace, base_present) = Replace_scan base segments (ac_conditions c);
            conds = (if has_replace \<and> \<not> base_present
                     then insert_at_lower_bound (IntSet [base]) kept else kept)
        in \<lparr>ac_is_fallback = ac_is_fallback c,
            ac_is_exclusive = ac_is_exclusive c \<or> length conds = 1, ac_conditions = conds,
            ac_activated = ac_activated c, ac_encoding = ac_encoding c\<rparr>
      else c\<lparr>ac_conditions := Simplify (map (Replace_group base segments) (ac_conditions c))\<rparr>)"

definition RemoveIntersectingSubgroups ::
  "int_set \<Rightarrow> activation_condition \<Rightarrow> activation_condition" where
  "RemoveIntersectingSubgroups segments c =
     (AC_True 0)\<lparr>ac_activated := ac_activated c, ac_encoding := ac_encoding c,
        ac_is_fallback := ac_is_fallback c, ac_is_exclusive := ac_is_exclusive c,
        ac_conditions := filter (\<lambda>g. \<not> IntSet_intersects g segments) (ac_conditions c)\<rparr>"

record superset_scan =
  ss_conjunctive :: int_set
  ss_highest_s :: segment_index
  ss_keep :: "int_set option"

text \<open>
  \<open>*sub_group.min()\<close> is reached for groups that are not empty only; the \<open>None\<close> case of the
  model is not reachable.
\<close>

definition Superset_step :: "int_set \<Rightarrow> superset_scan \<Rightarrow> superset_scan" where
  "Superset_step g s =
     (case IntSet_min g of
        None \<Rightarrow> s
      | Some m \<Rightarrow>
          if IntSet_size g = 1 then s\<lparr>ss_conjunctive := IntSet_insert m (ss_conjunctive s)\<rparr>
          else if \<not> IntSet_is_empty (ss_conjunctive s) \<or> IntSet_is_empty g then s
          else if (case ss_keep s of None \<Rightarrow> True
                   | Some keep \<Rightarrow> ss_highest_s s < m \<or>
                       m = ss_highest_s s \<and> IntSet_size g < IntSet_size keep)
               then s\<lparr>ss_highest_s := m, ss_keep := Some g\<rparr> else s)"

definition NonCompositeSuperset :: "activation_condition \<Rightarrow> activation_condition" where
  "NonCompositeSuperset c =
     (if IsPurelyConjunctive c \<or> IsPurelyDisjunctive c \<or> IsAlwaysTrue c then c
      else
        let s = fold Superset_step (ac_conditions c)
              \<lparr>ss_conjunctive = IntSet_empty, ss_highest_s = 0, ss_keep = None\<rparr>;
            out = \<lparr>ac_is_fallback = ac_is_fallback c, ac_is_exclusive = ac_is_exclusive c,
              ac_conditions = [], ac_activated = ac_activated c, ac_encoding = ac_encoding c\<rparr>
        in if \<not> IntSet_is_empty (ss_conjunctive s) then
             let conds = map (\<lambda>v. IntSet [v]) (to_vector (ss_conjunctive s))
             in out\<lparr>ac_conditions := conds,
                    ac_is_exclusive := (if length conds = 1 then True else ac_is_exclusive c)\<rparr>
           else (case ss_keep s of None \<Rightarrow> out | Some keep \<Rightarrow> out\<lparr>ac_conditions := [keep]\<rparr>))"

section \<open>Order and equality\<close>

text \<open>The inner loop over the elements of two groups: \<open>None\<close> when it runs to an end.\<close>

fun Less_elements :: "nat list \<Rightarrow> nat list \<Rightarrow> bool option" where
  "Less_elements (a # as) (b # bs) = (if a \<noteq> b then Some (a < b) else Less_elements as bs)"
| "Less_elements _ _ = None"

fun Less_groups :: "cnf \<Rightarrow> cnf \<Rightarrow> bool option" where
  "Less_groups (a # as) (b # bs) =
     (if IntSet_size a \<noteq> IntSet_size b then Some (IntSet_size a < IntSet_size b)
      else (case Less_elements (to_vector a) (to_vector b) of
              Some r \<Rightarrow> Some r | None \<Rightarrow> Less_groups as bs))"
| "Less_groups _ _ = None"

definition AC_less :: "activation_condition \<Rightarrow> activation_condition \<Rightarrow> bool" where
  "AC_less x y =
     (if length (ac_conditions x) \<noteq> length (ac_conditions y)
      then length (ac_conditions x) < length (ac_conditions y)
      else case Less_groups (ac_conditions x) (ac_conditions y) of
        Some r \<Rightarrow> r
      | None \<Rightarrow>
          if ac_activated x \<noteq> ac_activated y then ac_activated x < ac_activated y
          else if ac_is_exclusive x \<noteq> ac_is_exclusive y then ac_is_exclusive x
          else if ac_is_fallback x \<noteq> ac_is_fallback y then \<not> ac_is_fallback x
          else ac_encoding x < ac_encoding y)"

definition AC_equal :: "activation_condition \<Rightarrow> activation_condition \<Rightarrow> bool" where
  "AC_equal x y \<longleftrightarrow> ac_conditions x = ac_conditions y \<and> ac_activated x = ac_activated y \<and>
     ac_is_fallback x = ac_is_fallback y \<and> ac_is_exclusive x = ac_is_exclusive y \<and>
     ac_encoding x = ac_encoding y"

section \<open>Activation probabilities\<close>

text \<open>
  \<^verbatim>\<open>ProbabilityCalculator\<close> is an abstract class; its two functions, the probability of a segment
  and the bound of certainty are arguments. \<open>segments[i]\<close> out of range is undefined: \<open>None\<close>.
\<close>

definition segment_at :: "'s list \<Rightarrow> nat \<Rightarrow> 's option" where
  "segment_at segments i = (if i < length segments then Some (segments ! i) else None)"

fun all_some :: "'a option list \<Rightarrow> 'a list option" where
  "all_some [] = Some []"
| "all_some (x # xs) = Option.bind x (\<lambda>y. Option.bind (all_some xs) (\<lambda>ys. Some (y # ys)))"

fun ProbabilityBound_loop ::
  "('s \<Rightarrow> 'p) \<Rightarrow> ('s list \<Rightarrow> 'p) \<Rightarrow> ('p list \<Rightarrow> 'p) \<Rightarrow> 's list \<Rightarrow> bool \<Rightarrow> cnf \<Rightarrow> 'p list \<Rightarrow>
   'p status_or option" where
  "ProbabilityBound_loop bound_of merged conjoin segments is_conjunctive [] bounds =
     Some (Inr (conjoin bounds))"
| "ProbabilityBound_loop bound_of merged conjoin segments is_conjunctive (segment_set # rest) bounds =
     (if IntSet_is_empty segment_set then Some (Inl InternalError)
      else
        Option.bind
          (if 1 < IntSet_size segment_set then
             map_option merged (all_some (map (segment_at segments) (to_vector segment_set)))
           else map_option bound_of (segment_at segments (hd (to_vector segment_set))))
          (\<lambda>set_bound.
             if \<not> is_conjunctive then Some (Inr set_bound)
             else ProbabilityBound_loop bound_of merged conjoin segments is_conjunctive rest
                    (bounds @ [set_bound])))"

definition AC_ProbabilityBound ::
  "('s \<Rightarrow> 'p) \<Rightarrow> ('s list \<Rightarrow> 'p) \<Rightarrow> ('p list \<Rightarrow> 'p) \<Rightarrow> 'p \<Rightarrow> activation_condition \<Rightarrow> 's list \<Rightarrow>
   'p status_or option" where
  "AC_ProbabilityBound bound_of merged conjoin certain c segments =
     (if ac_conditions c = [] then Some (Inr certain)
      else ProbabilityBound_loop bound_of merged conjoin segments (1 < length (ac_conditions c))
             (ac_conditions c) [])"

fun MergedProbabilityBound_loop ::
  "('s \<Rightarrow> 'p) \<Rightarrow> ('s list \<Rightarrow> 'p) \<Rightarrow> ('p list \<Rightarrow> 'p) \<Rightarrow> 's list \<Rightarrow> segment_index \<Rightarrow> 's \<Rightarrow> bool \<Rightarrow> cnf \<Rightarrow>
   'p list \<Rightarrow> 'p status_or option" where
  "MergedProbabilityBound_loop bound_of merged conjoin segments mi ms is_conjunctive [] bounds =
     Some (Inr (conjoin bounds))"
| "MergedProbabilityBound_loop bound_of merged conjoin segments mi ms is_conjunctive (segment_set # rest) bounds =
     (if IntSet_is_empty segment_set then Some (Inl InternalError)
      else
        Option.bind
          (if 1 < IntSet_size segment_set then
             map_option merged (all_some
               (map (\<lambda>i. if i = mi then Some ms else segment_at segments i) (to_vector segment_set)))
           else if hd (to_vector segment_set) = mi then Some (bound_of ms)
           else map_option bound_of (segment_at segments (hd (to_vector segment_set))))
          (\<lambda>set_bound.
             if \<not> is_conjunctive then Some (Inr set_bound)
             else MergedProbabilityBound_loop bound_of merged conjoin segments mi ms is_conjunctive rest
                    (bounds @ [set_bound])))"

definition AC_MergedProbabilityBound ::
  "('s \<Rightarrow> 'p) \<Rightarrow> ('s list \<Rightarrow> 'p) \<Rightarrow> ('p list \<Rightarrow> 'p) \<Rightarrow> 'p \<Rightarrow> activation_condition \<Rightarrow> 's list \<Rightarrow>
   segment_index \<Rightarrow> 's \<Rightarrow> 'p status_or option" where
  "AC_MergedProbabilityBound bound_of merged conjoin certain c segments mi ms =
     (if ac_conditions c = [] then Some (Inr certain)
      else MergedProbabilityBound_loop bound_of merged conjoin segments mi ms
             (1 < length (ac_conditions c)) (ac_conditions c) [])"

section \<open>The default encoding of a list of conditions\<close>

text \<open>The loop of \<^verbatim>\<open>ActivationConditionsToPatchMapEntries\<close> that counts the encodings.\<close>

record encoding_count =
  ec_count :: "patch_encoding \<Rightarrow> nat"
  ec_max :: nat
  ec_default :: patch_encoding

definition CountEncoding :: "activation_condition \<Rightarrow> encoding_count \<Rightarrow> encoding_count" where
  "CountEncoding c s =
     (let e = ac_encoding c; count = ec_count s e + 1; counts = (ec_count s)(e := count)
      in if ec_max s < count then \<lparr>ec_count = counts, ec_max = count, ec_default = e\<rparr>
         else s\<lparr>ec_count := counts\<rparr>)"

definition DefaultEncoding :: "activation_condition list \<Rightarrow> patch_encoding" where
  "DefaultEncoding conditions =
     ec_default (fold CountEncoding conditions
       \<lparr>ec_count = (\<lambda>_. 0), ec_max = 0, ec_default = GLYPH_KEYED\<rparr>)"

section \<open>Meaning of the combinations\<close>

definition AC_activates :: "activation_condition \<Rightarrow> nat set \<Rightarrow> bool" where
  "AC_activates c I = activates (ac_conditions c) I"

lemma AC_activates_And: "AC_activates (AC_And a b) I \<longleftrightarrow> AC_activates a I \<and> AC_activates b I"
  by (simp add: AC_activates_def AC_And_def Let_def)

lemma Or_walk_set:
  "Or_walk as bs = (shared, ua, ub) \<Longrightarrow> set as = set shared \<union> set ua \<and> set bs = set shared \<union> set ub"
proof (induction as bs arbitrary: shared ua ub rule: Or_walk.induct)
  case (1 a as b bs)
  consider "a < b" | "b < a" | "a = b" by (rule linorder_cases)
  then show ?case
  proof cases
    case 1
    with "1.prems" "1.IH"(1) show ?thesis by (auto split: prod.splits)
  next
    case 2
    then have "\<not> a < b" by simp
    with 2 "1.prems" "1.IH"(2) show ?thesis by (auto split: prod.splits)
  next
    case 3
    with "1.prems" "1.IH"(3) show ?thesis by (auto split: prod.splits)
  qed
qed auto

lemma activates_product:
  assumes "a_unique \<noteq> []" and "b_unique \<noteq> []"
  shows "activates (Or_product a_unique b_unique) I \<longleftrightarrow> activates a_unique I \<or> activates b_unique I"
proof
  assume prod: "activates (Or_product a_unique b_unique) I"
  show "activates a_unique I \<or> activates b_unique I"
  proof (rule ccontr)
    assume "\<not> ?thesis"
    then obtain a b where "a \<in> set a_unique" "members a \<inter> I = {}" "b \<in> set b_unique" "members b \<inter> I = {}"
      by (auto simp: activates_def)
    moreover from this have "IntSet_union_set a b \<in> set (Or_product a_unique b_unique)"
      by (auto simp: Or_product_def)
    then have "members (IntSet_union_set a b) \<inter> I \<noteq> {}" using prod unfolding activates_def by blast
    ultimately show False by auto
  qed
next
  assume "activates a_unique I \<or> activates b_unique I"
  then show "activates (Or_product a_unique b_unique) I"
    by (auto simp: activates_def Or_product_def)
qed

lemma AC_activates_Or: "AC_activates (AC_Or a b) I \<longleftrightarrow> AC_activates a I \<or> AC_activates b I"
proof -
  obtain shared ua ub where w: "Or_walk (ac_conditions a) (ac_conditions b) = (shared, ua, ub)"
    by (metis prod_cases3)
  from Or_walk_set [OF w]
  have ab: "AC_activates a I \<longleftrightarrow> activates shared I \<and> activates ua I"
    "AC_activates b I \<longleftrightarrow> activates shared I \<and> activates ub I"
    by (auto simp: AC_activates_def activates_def)
  show ?thesis
  proof (cases "ua = [] \<or> ub = []")
    case True
    then have "AC_activates (AC_Or a b) I = activates shared I" by (simp add: AC_Or_def w AC_activates_def)
    with ab True show ?thesis by auto
  next
    case False
    then have "AC_activates (AC_Or a b) I \<longleftrightarrow> activates shared I \<and> activates (Or_product ua ub) I"
      by (simp add: AC_Or_def w AC_activates_def)
    with ab False show ?thesis by (auto simp: activates_product)
  qed
qed

end
