(* ===== verification/Condition_Properties.thy ===== *)
theory Condition_Properties
  imports Activation_Condition
begin

text \<open>
  The properties of activation conditions: canonical form, meaning of the operations, the fast
  path of \<^verbatim>\<open>ReplaceSegments\<close>, the order.
\<close>

section \<open>The operations keep conditions simplified\<close>

lemma Or_walk_shared:
  assumes "sorted_wrt (<) as" and "sorted_wrt (<) bs" and "Or_walk as bs = (shared, ua, ub)"
  shows "shared = filter (\<lambda>x. x \<in> set bs) as"
  using assms
proof (induction as bs arbitrary: shared ua ub rule: Or_walk.induct)
  case (1 a as b bs)
  consider "a < b" | "b < a" | "a = b" by (rule linorder_cases)
  then show ?case
  proof cases
    case 1
    then have "a \<notin> set (b # bs)" using "1.prems"(2) by (auto dest: less_trans)
    with 1 "1.prems" "1.IH"(1) show ?thesis by (auto split: prod.splits)
  next
    case 2
    then have na: "\<not> a < b" by simp
    have "x \<noteq> b" if "x \<in> set (a # as)" for x using that 2 "1.prems"(1) by (auto dest: less_trans)
    then have "filter (\<lambda>x. x \<in> set (b # bs)) (a # as) = filter (\<lambda>x. x \<in> set bs) (a # as)"
      by (intro filter_cong) auto
    with 2 na "1.prems" "1.IH"(2) show ?thesis by (auto split: prod.splits)
  next
    case 3
    have "x \<noteq> b" if "x \<in> set as" for x using that 3 "1.prems"(1) by auto
    then have "filter (\<lambda>x. x \<in> set (b # bs)) as = filter (\<lambda>x. x \<in> set bs) as"
      by (intro filter_cong) auto
    with 3 "1.prems" "1.IH"(3) show ?thesis by (auto split: prod.splits)
  qed
qed auto

lemma canonical_Or:
  assumes "canonical (ac_conditions a)" and "canonical (ac_conditions b)"
  shows "canonical (ac_conditions (AC_Or a b))"
proof -
  obtain shared ua ub where w: "Or_walk (ac_conditions a) (ac_conditions b) = (shared, ua, ub)"
    by (metis prod_cases3)
  have "canonical shared"
    using assms Or_walk_shared [OF _ _ w] by (metis canonical_filter canonical_iff)
  then show ?thesis by (simp add: AC_Or_def w Let_def)
qed

lemma canonical_and_segments: "canonical (ac_conditions (and_segments S p))"
proof -
  have "canonical (map (\<lambda>v. IntSet [v]) (to_vector S))"
    using to_vector_sorted members_bound by (intro canonical_singletons) simp_all
  then show ?thesis by (simp add: and_segments_def)
qed

section \<open>\<open>ReplaceSegments\<close>\<close>

lemma Replace_scan_eq:
  "Replace_scan base segs c =
     (filter (\<lambda>g. \<not> IntSet_intersects g segs) c,
      (\<exists>g\<in>set c. IntSet_intersects g segs),
      (\<exists>g\<in>set c. \<not> IntSet_intersects g segs \<and> base \<in> members g))"
  by (induction c) auto

lemma set_insert_at_lower_bound: "set (insert_at_lower_bound x ys) = insert x (set ys)"
  by (induction ys) auto

lemma sorted_insert_at_lower_bound:
  "sorted_wrt (<) ys \<Longrightarrow> x \<notin> set ys \<Longrightarrow> sorted_wrt (<) (insert_at_lower_bound x ys)"
proof (induction ys)
  case (Cons y ys)
  show ?case
  proof (cases "y < x")
    case True
    with Cons show ?thesis by (auto simp: set_insert_at_lower_bound)
  next
    case False
    then have "x < y" using Cons.prems(2) by auto
    with False Cons.prems(1) show ?thesis by (auto dest: less_trans)
  qed
qed simp

text \<open>A simplified conjunction of at least two groups has one segment in each.\<close>

lemma conjunctive_singletons:
  assumes can: "canonical (ac_conditions c)" and conj: "IsPurelyConjunctive c"
    and g: "g \<in> set (ac_conditions c)"
  obtains v where "members g = {v}"
proof -
  let ?c = "ac_conditions c"
  from conj have len: "1 < length ?c" and size: "card (members g) \<le> 1"
    using g by (auto simp: IsPurelyConjunctive_def list_all_iff size_eq_card not_less split: if_splits)
  have "members g \<noteq> {}"
  proof
    assume "members g = {}"
    then have "g = h" if "h \<in> set ?c" for h
      using canonicalD [OF can that g] by simp
    then have "set ?c = {g}" using g by blast
    moreover have "distinct ?c" using canonical_sorted [OF can] by (rule strict_sorted_distinct)
    ultimately have "length ?c = 1" using distinct_card [of ?c] by simp
    with len show False by simp
  qed
  then have "card (members g) = 1" using size by (metis One_nat_def card_0_eq finite_members le_Suc_eq le_zero_eq)
  with that show ?thesis by (auto simp: card_1_singleton_iff)
qed

lemma members_Replace_group:
  "base < UINT32_MAX \<Longrightarrow> members (Replace_group base segs g) =
     (if members g \<inter> members segs \<noteq> {} then insert base (members g - members segs) else members g)"
  by (simp add: Replace_group_def)

lemma ReplaceSegments_slow:
  assumes can: "canonical (ac_conditions c)" and base: "base < UINT32_MAX"
  shows "ac_conditions (ReplaceSegments base segs c) =
    Simplify (map (Replace_group base segs) (ac_conditions c))"
proof (cases "IsPurelyConjunctive c")
  case False
  then show ?thesis by (simp add: ReplaceSegments_def)
next
  case True
  let ?c = "ac_conditions c"
  let ?kept = "filter (\<lambda>g. \<not> IntSet_intersects g segs) ?c"
  let ?replace = "\<exists>g\<in>set ?c. IntSet_intersects g segs" let ?present = "\<exists>g\<in>set ?kept. base \<in> members g"
  define conds where "conds = (if ?replace \<and> \<not> ?present then insert_at_lower_bound (IntSet [base]) ?kept else ?kept)"
  have "(\<exists>g\<in>set ?c. \<not> IntSet_intersects g segs \<and> base \<in> members g) = ?present" by auto
  then have fast: "ac_conditions (ReplaceSegments base segs c) = conds"
    unfolding ReplaceSegments_def Replace_scan_eq conds_def if_P [OF True]
    by (simp only: prod.case Let_def activation_condition.simps)
  have single: "\<exists>v. members g = {v}" if "g \<in> set ?c" for g
    using conjunctive_singletons [OF can True that] by blast
  have mb: "members (IntSet [base]) = {base}" using base by auto
  have kept: "canonical ?kept" using can by (rule canonical_filter)
  have "canonical conds"
  proof (cases "?replace \<and> \<not> ?present")
    case new: True
    then have nb: "\<forall>g\<in>set ?kept. base \<notin> members g" by blast
    then have "IntSet [base] \<notin> set ?kept" using mb by fastforce
    then have "sorted_wrt (<) (insert_at_lower_bound (IntSet [base]) ?kept)"
      using kept by (intro sorted_insert_at_lower_bound) (auto simp: canonical_iff)
    moreover have "h = g" if "g \<in> insert (IntSet [base]) (set ?kept)" "h \<in> insert (IntSet [base]) (set ?kept)"
      "members h \<subseteq> members g" for g h
    proof -
      have "\<exists>v. members g = {v}" "\<exists>v. members h = {v}" using that(1,2) single mb by auto
      with that(3) show ?thesis by (intro int_set_eqI) auto
    qed
    ultimately show ?thesis
      unfolding conds_def if_P [OF new] canonical_iff set_insert_at_lower_bound by blast
  next
    case False
    then have "conds = ?kept" unfolding conds_def by (rule if_not_P)
    with kept show ?thesis by simp
  qed
  moreover have "activates conds I = activates (Simplify (map (Replace_group base segs) ?c)) I" for I
  proof -
    have "activates conds I \<longleftrightarrow> activates ?kept I \<and> (?replace \<longrightarrow> base \<in> I)"
    proof (cases ?present)
      case present: True
      then obtain g where g: "g \<in> set ?kept" "base \<in> members g" by blast
      then have "members g = {base}" using single [of g] by auto
      with g(1) have "activates ?kept I \<Longrightarrow> base \<in> I" unfolding activates_def by auto
      with present show ?thesis unfolding conds_def by auto
    next
      case False
      then show ?thesis by (auto simp add: conds_def activates_def set_insert_at_lower_bound mb simp del: members_IntSet)
    qed
    moreover have "activates (map (Replace_group base segs) ?c) I \<longleftrightarrow> activates ?kept I \<and> (?replace \<longrightarrow> base \<in> I)"
    proof -
      have "members (Replace_group base segs g) \<inter> I \<noteq> {} \<longleftrightarrow>
          (if IntSet_intersects g segs then base \<in> I else members g \<inter> I \<noteq> {})" if "g \<in> set ?c" for g
      proof -
        obtain v where "members g = {v}" using single [OF \<open>g \<in> set ?c\<close>] by blast
        then show ?thesis using base by (simp add: members_Replace_group)
      qed
      then have "activates (map (Replace_group base segs) ?c) I \<longleftrightarrow>
          (\<forall>g\<in>set ?c. if IntSet_intersects g segs then base \<in> I else members g \<inter> I \<noteq> {})"
        unfolding activates_def set_map ball_simps by (rule ball_cong [OF refl])
      also have "\<dots> \<longleftrightarrow> activates ?kept I \<and> (?replace \<longrightarrow> base \<in> I)"
        unfolding activates_def by (auto split: if_splits)
      finally show ?thesis .
    qed
    ultimately show ?thesis by simp
  qed
  ultimately show ?thesis unfolding fast by (intro canonical_eq) simp_all
qed

lemma activates_Replace_group:
  assumes "base < UINT32_MAX"
  shows "members (Replace_group base segs g) \<inter> I \<noteq> {} \<longleftrightarrow>
    members g \<inter> ((I - members segs) \<union> (if base \<in> I then members segs else {})) \<noteq> {}"
  using assms by (auto simp: members_Replace_group)

section \<open>\<open>NonCompositeSuperset\<close>\<close>

lemma Superset_scan_sound:
  assumes "set gs \<subseteq> C"
    and "\<forall>v\<in>members (ss_conjunctive s). IntSet [v] \<in> C" and "\<forall>k. ss_keep s = Some k \<longrightarrow> k \<in> C"
  shows "(\<forall>v\<in>members (ss_conjunctive (fold Superset_step gs s)). IntSet [v] \<in> C) \<and>
    (\<forall>k. ss_keep (fold Superset_step gs s) = Some k \<longrightarrow> k \<in> C)"
  using assms
proof (induction gs arbitrary: s)
  case Nil
  then show ?case by simp
next
  case (Cons g gs)
  have "(\<forall>v\<in>members (ss_conjunctive (Superset_step g s)). IntSet [v] \<in> C) \<and>
      (\<forall>k. ss_keep (Superset_step g s) = Some k \<longrightarrow> k \<in> C)"
  proof (cases "IntSet_min g")
    case None
    with Cons.prems show ?thesis by (simp add: Superset_step_def)
  next
    case (Some m)
    show ?thesis
    proof (cases "IntSet_size g = 1")
      case True
      then obtain v where v: "members g = {v}" by (auto simp: size_eq_card card_1_singleton_iff)
      then have "m = v" "v < UINT32_MAX" using Some members_bound [of v g] by (auto simp: IntSet_min_eq)
      then have "IntSet [m] = g" using v by (intro int_set_eqI) auto
      with True Some Cons.prems show ?thesis by (auto simp: Superset_step_def)
    next
      case False
      with Some Cons.prems show ?thesis by (auto simp: Superset_step_def)
    qed
  qed
  with Cons.IH [of "Superset_step g s"] Cons.prems(1) show ?case by simp
qed

section \<open>The order\<close>

definition AC_key ::
  "activation_condition \<Rightarrow> nat \<times> (nat \<times> nat list) list \<times> nat list \<times> bool \<times> bool \<times> patch_encoding" where
  "AC_key c = (length (ac_conditions c), map (\<lambda>g. (IntSet_size g, to_vector g)) (ac_conditions c),
     ac_activated c, \<not> ac_is_exclusive c, ac_is_fallback c, ac_encoding c)"

lemma Less_elements_eq:
  "length xs = length ys \<Longrightarrow> Less_elements xs ys = (if xs = ys then None else Some (xs < ys))"
  by (induction xs ys rule: Less_elements.induct) auto

lemma Less_groups_eq:
  "length xs = length ys \<Longrightarrow> Less_groups xs ys =
     (if xs = ys then None
      else Some (map (\<lambda>g. (IntSet_size g, to_vector g)) xs < map (\<lambda>g. (IntSet_size g, to_vector g)) ys))"
proof (induction xs ys rule: Less_groups.induct)
  case (1 a as b bs)
  show ?case
  proof (cases "IntSet_size a = IntSet_size b")
    case True
    then have "length (to_vector a) = length (to_vector b)" by (simp add: IntSet_size_def)
    with True 1 show ?thesis by (auto simp: Less_elements_eq to_vector_inject)
  qed auto
qed auto

lemma AC_less_key: "AC_less x y \<longleftrightarrow> AC_key x < AC_key y"
proof (cases "length (ac_conditions x) = length (ac_conditions y)")
  case False
  then show ?thesis by (auto simp: AC_less_def AC_key_def)
next
  case True
  show ?thesis
  proof (cases "ac_conditions x = ac_conditions y")
    case eq: True
    then show ?thesis by (auto simp: AC_less_def AC_key_def Less_groups_eq less_bool_def)
  next
    case False
    have "inj (\<lambda>g. (IntSet_size g, to_vector g))" by (auto simp: inj_on_def to_vector_inject)
    then have "map (\<lambda>g. (IntSet_size g, to_vector g)) (ac_conditions x) \<noteq>
        map (\<lambda>g. (IntSet_size g, to_vector g)) (ac_conditions y)"
      using False by (simp add: inj_map_eq_map)
    with True False show ?thesis by (auto simp: AC_less_def AC_key_def Less_groups_eq)
  qed
qed

lemma AC_key_equal: "AC_key x = AC_key y \<longleftrightarrow> AC_equal x y"
proof -
  have "inj (\<lambda>g. (IntSet_size g, to_vector g))" by (auto simp: inj_on_def to_vector_inject)
  then show ?thesis by (auto simp: AC_key_def AC_equal_def inj_map_eq_map)
qed

section \<open>Properties\<close>

text \<open>
  C13: \<^verbatim>\<open>Simplify\<close> computes a normal form: two lists of groups simplify to the same list exactly when
  they activate on the same inputs.
\<close>

theorem Simplify_normal_form:
  "Simplify c = Simplify d \<longleftrightarrow> (\<forall>I. activates c I = activates d I)"
  by (rule Simplify_unique_aux)

text \<open>
  The result of \<^verbatim>\<open>Simplify\<close> does not depend on the order in which the first \<^verbatim>\<open>std::sort\<close>, which
  is not stable, leaves groups of the same size.
\<close>

theorem Simplify_any_sort:
  assumes "sorted (map IntSet_size d)" and "mset d = mset c"
  shows "Simplify_sorted d = Simplify_sorted (sort_key IntSet_size c)"
  using assms by (rule Simplify_sorted_any_aux)

lemma Simplify_any_sort_witness:
  "Simplify_sorted [IntSet [2], IntSet [1], IntSet [1, 3]] =
    Simplify_sorted (sort_key IntSet_size [IntSet [1, 3], IntSet [1], IntSet [2]])"
  by (rule Simplify_any_sort) (simp_all add: int_set_eval)

text \<open>
  C14: the conjunction and the disjunction of two conditions activate when both do, and when one of
  them does; the groups of the result are simplified, for a disjunction if those of the operands are.
\<close>

theorem And_Or_meaning:
  "(AC_activates (AC_And a b) I \<longleftrightarrow> AC_activates a I \<and> AC_activates b I) \<and>
   (AC_activates (AC_Or a b) I \<longleftrightarrow> AC_activates a I \<or> AC_activates b I) \<and>
   canonical (ac_conditions (AC_And a b)) \<and>
   (canonical (ac_conditions a) \<and> canonical (ac_conditions b) \<longrightarrow>
    canonical (ac_conditions (AC_Or a b)))"
proof -
  have "canonical (ac_conditions (AC_And a b))" by (simp add: AC_And_def Let_def)
  then show ?thesis using AC_activates_And AC_activates_Or canonical_Or by blast
qed

lemma And_Or_meaning_witness:
  "canonical (ac_conditions (AC_Or (exclusive_segment 1 7) (and_segments (IntSet [2, 3]) 8))) \<and>
   AC_activates (AC_Or (exclusive_segment 1 7) (and_segments (IntSet [2, 3]) 8)) {2, 3}"
proof -
  have can: "canonical (ac_conditions (exclusive_segment 1 7))"
    "canonical (ac_conditions (and_segments (IntSet [2, 3]) 8))"
    by (rule canonical_and_segments | simp add: exclusive_segment_def)+
  have "AC_activates (and_segments (IntSet [2, 3]) 8) {2, 3}"
    by (simp add: AC_activates_def and_segments_def to_vector_IntSet)
  with can And_Or_meaning [of "exclusive_segment 1 7" "and_segments (IntSet [2, 3]) 8" "{2, 3}"]
  show ?thesis by blast
qed

text \<open>
  C15: \<^verbatim>\<open>ReplaceSegments\<close>, on its fast path as on the slow one, yields the simplified list of the
  groups in which the base segment stands for all the replaced ones; the new condition activates
  when the old one does on the input with the replaced segments present just if the base is.
\<close>

theorem ReplaceSegments_meaning:
  assumes "canonical (ac_conditions c)" and "base < UINT32_MAX"
  shows "ac_conditions (ReplaceSegments base segs c) =
      Simplify (map (Replace_group base segs) (ac_conditions c)) \<and>
    (AC_activates (ReplaceSegments base segs c) I \<longleftrightarrow>
     AC_activates c ((I - members segs) \<union> (if base \<in> I then members segs else {})))"
proof
  show slow: "ac_conditions (ReplaceSegments base segs c) =
      Simplify (map (Replace_group base segs) (ac_conditions c))"
    by (rule ReplaceSegments_slow [OF assms])
  show "AC_activates (ReplaceSegments base segs c) I \<longleftrightarrow>
     AC_activates c ((I - members segs) \<union> (if base \<in> I then members segs else {}))"
    unfolding AC_activates_def slow activates_Simplify
    unfolding activates_def set_map ball_simps activates_Replace_group [OF assms(2)] by (rule refl)
qed

lemma ReplaceSegments_meaning_witness:
  "AC_activates (ReplaceSegments 1 (IntSet [2]) (and_segments (IntSet [2, 3]) 8)) {1, 3}"
proof -
  have "AC_activates (ReplaceSegments 1 (IntSet [2]) (and_segments (IntSet [2, 3]) 8)) {1, 3} \<longleftrightarrow>
      AC_activates (and_segments (IntSet [2, 3]) 8) (({1, 3} - members (IntSet [2])) \<union> members (IntSet [2]))"
    using ReplaceSegments_meaning [OF canonical_and_segments, of 1 "IntSet [2]" "IntSet [2, 3]" 8 "{1, 3}"]
    by simp
  also have "\<dots>" by (simp add: AC_activates_def and_segments_def to_vector_IntSet)
  finally show ?thesis .
qed

text \<open>
  \<^verbatim>\<open>NonCompositeSuperset\<close> is purely conjunctive, purely disjunctive or always true, and activates
  whenever the original condition does.
\<close>

theorem NonCompositeSuperset_sound:
  "(IsPurelyConjunctive (NonCompositeSuperset c) \<or> IsPurelyDisjunctive (NonCompositeSuperset c) \<or>
    IsAlwaysTrue (NonCompositeSuperset c)) \<and>
   {I. AC_activates c I} \<subseteq> {I. AC_activates (NonCompositeSuperset c) I}"
proof (cases "IsPurelyConjunctive c \<or> IsPurelyDisjunctive c \<or> IsAlwaysTrue c")
  case True
  then show ?thesis by (simp add: NonCompositeSuperset_def)
next
  case False
  define s where "s = fold Superset_step (ac_conditions c)
      \<lparr>ss_conjunctive = IntSet_empty, ss_highest_s = 0, ss_keep = None\<rparr>"
  have sound: "\<forall>v\<in>members (ss_conjunctive s). IntSet [v] \<in> set (ac_conditions c)"
    "\<forall>k. ss_keep s = Some k \<longrightarrow> k \<in> set (ac_conditions c)"
    using Superset_scan_sound [OF order_refl, of "\<lparr>ss_conjunctive = IntSet_empty, ss_highest_s = 0, ss_keep = None\<rparr>"]
    by (simp_all add: s_def)
  show ?thesis
  proof (cases "IntSet_is_empty (ss_conjunctive s)")
    case empty: True
    show ?thesis
    proof (cases "ss_keep s")
      case None
      with False empty show ?thesis
        by (simp add: NonCompositeSuperset_def s_def [symmetric] IsAlwaysTrue_def AC_activates_def)
    next
      case (Some k)
      with sound(2) have "k \<in> set (ac_conditions c)" by simp
      with False empty Some show ?thesis
        by (auto simp: NonCompositeSuperset_def s_def [symmetric] IsPurelyDisjunctive_def
            AC_activates_def activates_def)
    qed
  next
    case nonempty: False
    let ?conds = "map (\<lambda>v. IntSet [v]) (to_vector (ss_conjunctive s))"
    have conds: "ac_conditions (NonCompositeSuperset c) = ?conds"
      using False nonempty by (simp add: NonCompositeSuperset_def s_def [symmetric] Let_def)
    have "?conds \<noteq> []" using nonempty by (simp add: IntSet_is_empty_def del: is_empty_iff)
    then have pos: "0 < length ?conds" by simp
    have single: "IntSet_size (IntSet [v]) \<le> 1" for v
    proof -
      have "members (IntSet [v]) \<subseteq> {v}" by auto
      then have "card (members (IntSet [v])) \<le> card {v}" by (intro card_mono) simp_all
      then show ?thesis by (simp add: size_eq_card)
    qed
    have "IsPurelyConjunctive (NonCompositeSuperset c) \<or> IsPurelyDisjunctive (NonCompositeSuperset c)"
    proof (cases "length ?conds = 1")
      case True
      then show ?thesis by (simp add: IsPurelyDisjunctive_def conds)
    next
      case False
      with pos have "\<not> length ?conds \<le> 1" by linarith
      with single show ?thesis by (simp add: IsPurelyConjunctive_def conds list_all_iff not_less)
    qed
    moreover have "set ?conds \<subseteq> set (ac_conditions c)" using sound(1) by auto
    then have "AC_activates c I \<Longrightarrow> AC_activates (NonCompositeSuperset c) I" for I
      unfolding AC_activates_def conds activates_def by blast
    ultimately show ?thesis by blast
  qed
qed

text \<open>
  \<^verbatim>\<open>operator<\<close> is a strict total order that agrees with \<^verbatim>\<open>operator==\<close>.
\<close>

theorem AC_less_total_order:
  "\<not> AC_less x x \<and> (AC_less x y \<longrightarrow> AC_less y z \<longrightarrow> AC_less x z) \<and>
   (if AC_equal x y then \<not> AC_less x y \<and> \<not> AC_less y x else AC_less x y \<noteq> AC_less y x)"
  unfolding AC_less_key AC_key_equal [symmetric] by (auto dest: less_trans)

lemma AC_less_total_order_witness:
  "AC_less (AC_True 5) (or_segments (IntSet [1, 2]) 4 False)"
proof -
  have "AC_less (AC_True 5) (exclusive_segment 1 4)"
    by (simp add: AC_less_def AC_True_def exclusive_segment_def ActivationCondition_def)
  moreover have "AC_less (exclusive_segment 1 4) (or_segments (IntSet [1, 2]) 4 False)"
    by (simp add: AC_less_def exclusive_segment_def or_segments_def ActivationCondition_def
        IntSet_size_def to_vector_IntSet)
  ultimately show ?thesis
    using AC_less_total_order [of "AC_True 5" "exclusive_segment 1 4" "or_segments (IntSet [1, 2]) 4 False"]
    by blast
qed

text \<open>
  C16: the bound computed for a merge of segments is the bound computed with the merged segment in
  its place of the list.
\<close>

theorem MergedProbabilityBound_update:
  assumes "mi < length segments"
  shows "AC_MergedProbabilityBound bound_of merged conjoin certain c segments mi ms =
    AC_ProbabilityBound bound_of merged conjoin certain c (segments[mi := ms])"
proof -
  have at: "segment_at (segments[mi := ms]) = (\<lambda>i. if i = mi then Some ms else segment_at segments i)"
    using assms by (auto simp: segment_at_def fun_eq_iff)
  have "MergedProbabilityBound_loop bound_of merged conjoin segments mi ms k gs bounds =
      ProbabilityBound_loop bound_of merged conjoin (segments[mi := ms]) k gs bounds" for k gs bounds
  proof (induction gs arbitrary: bounds k)
    case (Cons g gs)
    show ?case by (simp add: at Cons.IH)
  qed simp
  then show ?thesis by (simp add: AC_MergedProbabilityBound_def AC_ProbabilityBound_def)
qed

lemma MergedProbabilityBound_update_witness:
  "AC_MergedProbabilityBound id sum_list prod_list (1::nat) (or_segments (IntSet [0, 1]) 4 False) [2, 3] 1 10 =
    Some (Inr 12)"
proof -
  have "AC_ProbabilityBound id sum_list prod_list (1::nat) (or_segments (IntSet [0, 1]) 4 False) [2, 10] =
      Some (Inr 12)"
    by (simp add: AC_ProbabilityBound_def or_segments_def ActivationCondition_def IntSet_is_empty_def
        IntSet_size_def to_vector_IntSet segment_at_def del: is_empty_iff)
  then show ?thesis
    using MergedProbabilityBound_update [of 1 "[2, 3::nat]" id sum_list prod_list 1
        "or_segments (IntSet [0, 1]) 4 False" 10] by simp
qed

end
