(* ===== verification/Font_Ints.thy ===== *)
theory Font_Ints
  imports Ift_Prelude Complex_Main
begin

text \<open>
  Big endian integers of fonts: \<^verbatim>\<open>WriteInt\<close>, \<^verbatim>\<open>ReadInt\<close> and the overflow checks of
  \<^verbatim>\<open>ift/common/font_helper.h\<close>, the checked writes of \<^verbatim>\<open>font_helper_macros.h\<close>, fixed point numbers,
  and \<^verbatim>\<open>CompatId\<close> (\<^verbatim>\<open>ift/common/compat_id.h\<close>). A value is an \<open>int\<close>; the conversion to the
  integer type of the C++ function is written out. A finite \<open>float\<close> is a rational number: the
  multiplication by \<open>2 ^ 16\<close> and the rounding in \<^verbatim>\<open>WriteFixed\<close> are exact on it. What a codec
  promises is the locale \<open>int_codec\<close>, interpreted for each width.
\<close>

unbundle bit_operations_syntax

section \<open>Integer types\<close>

text \<open>The conversion of an integer to an unsigned or a signed type of \<open>w\<close> bits.\<close>

definition to_unsigned :: "nat \<Rightarrow> int \<Rightarrow> int" where
  "to_unsigned w v = v mod 2 ^ w"

definition to_signed :: "nat \<Rightarrow> int \<Rightarrow> int" where
  "to_signed w v = (v + 2 ^ (w - 1)) mod 2 ^ w - 2 ^ (w - 1)"

text \<open>
  The parameter of \<^verbatim>\<open>WillIntOverflow\<close> is an \<open>int64_t\<close>, and \<open>v\<close> is its value. The callers pass sizes, ids
  and coordinates; a size of \<open>2 ^ 63\<close> or more, which the conversion to the parameter would change, does
  not occur in memory.
\<close>

definition WillIntOverflow :: "(int \<Rightarrow> int) \<Rightarrow> int \<Rightarrow> bool" where
  "WillIntOverflow cast v \<longleftrightarrow> cast v \<noteq> v"

lemma to_unsigned_eq: "to_unsigned w v = v \<longleftrightarrow> 0 \<le> v \<and> v < 2 ^ w"
proof
  assume "to_unsigned w v = v"
  then have "v = v mod 2 ^ w" by (simp add: to_unsigned_def)
  then show "0 \<le> v \<and> v < 2 ^ w"
    by (metis pos_mod_bound pos_mod_sign zero_less_numeral zero_less_power)
qed (simp add: to_unsigned_def)

lemma to_signed_eq:
  assumes "0 < w"
  shows "to_signed w v = v \<longleftrightarrow> - (2 ^ (w - 1)) \<le> v \<and> v < 2 ^ (w - 1)"
proof -
  have p: "(2::int) ^ w = 2 * 2 ^ (w - 1)" using assms by (cases w) simp_all
  have "to_signed w v = v \<longleftrightarrow> to_unsigned w (v + 2 ^ (w - 1)) = v + 2 ^ (w - 1)"
    by (auto simp: to_signed_def to_unsigned_def)
  also have "\<dots> \<longleftrightarrow> - (2 ^ (w - 1)) \<le> v \<and> v < 2 ^ (w - 1)"
    unfolding to_unsigned_eq p by auto
  finally show ?thesis .
qed

section \<open>Writing and reading\<close>

text \<open>The loop of \<^verbatim>\<open>WriteInt\<close>, by the number of bytes still to be written.\<close>

fun WriteInt_loop :: "nat \<Rightarrow> int \<Rightarrow> bytes \<Rightarrow> bytes" where
  "WriteInt_loop 0 v out = out"
| "WriteInt_loop (Suc n) v out =
     WriteInt_loop n v (out @ [of_int (drop_bit (8 * n) v AND 255)])"

definition WriteInt :: "nat \<Rightarrow> int \<Rightarrow> bytes \<Rightarrow> bytes" where
  "WriteInt num_bits v out = WriteInt_loop (num_bits div 8) v out"

fun ReadInt_loop :: "nat \<Rightarrow> bytes \<Rightarrow> int \<Rightarrow> int" where
  "ReadInt_loop 0 bs result = result"
| "ReadInt_loop (Suc n) (b # bs) result = ReadInt_loop n bs (result + push_bit (8 * n) (uint b))"
| "ReadInt_loop (Suc n) [] result = result"

definition ReadInt :: "nat \<Rightarrow> (int \<Rightarrow> int) \<Rightarrow> bytes \<Rightarrow> int status_or" where
  "ReadInt num_bits cast bs =
     (if length bs < num_bits div 8 then Inl InvalidArgumentError
      else Inr (cast (ReadInt_loop (num_bits div 8) bs 0)))"

definition WriteUInt8 :: "int \<Rightarrow> bytes \<Rightarrow> bytes" where "WriteUInt8 v = WriteInt 8 (to_unsigned 8 v)"
definition WriteUInt16 :: "int \<Rightarrow> bytes \<Rightarrow> bytes" where "WriteUInt16 v = WriteInt 16 (to_unsigned 16 v)"
definition WriteUInt24 :: "int \<Rightarrow> bytes \<Rightarrow> bytes" where "WriteUInt24 v = WriteInt 24 (to_unsigned 32 v)"
definition WriteUInt32 :: "int \<Rightarrow> bytes \<Rightarrow> bytes" where "WriteUInt32 v = WriteInt 32 (to_unsigned 32 v)"
definition WriteInt16 :: "int \<Rightarrow> bytes \<Rightarrow> bytes" where "WriteInt16 v = WriteInt 16 (to_signed 16 v)"
definition WriteInt24 :: "int \<Rightarrow> bytes \<Rightarrow> bytes" where "WriteInt24 v = WriteInt 24 (to_signed 32 v)"
definition WriteInt32 :: "int \<Rightarrow> bytes \<Rightarrow> bytes" where "WriteInt32 v = WriteInt 32 (to_signed 32 v)"

definition ReadUInt8 :: "bytes \<Rightarrow> int status_or" where "ReadUInt8 = ReadInt 8 (to_unsigned 8)"
definition ReadUInt16 :: "bytes \<Rightarrow> int status_or" where "ReadUInt16 = ReadInt 16 (to_unsigned 16)"
definition ReadUInt24 :: "bytes \<Rightarrow> int status_or" where "ReadUInt24 = ReadInt 24 (to_unsigned 32)"
definition ReadUInt32 :: "bytes \<Rightarrow> int status_or" where "ReadUInt32 = ReadInt 32 (to_unsigned 32)"
definition ReadInt16 :: "bytes \<Rightarrow> int status_or" where "ReadInt16 = ReadInt 16 (to_signed 16)"
definition ReadInt32 :: "bytes \<Rightarrow> int status_or" where "ReadInt32 = ReadInt 32 (to_signed 32)"

text \<open>The checked writes of the macros.\<close>

definition WRITE_UINT8 :: "int \<Rightarrow> bytes \<Rightarrow> bytes status_or" where
  "WRITE_UINT8 v out = (if WillIntOverflow (to_unsigned 8) v then Inl InvalidArgumentError
     else Inr (WriteUInt8 v out))"
definition WRITE_UINT16 :: "int \<Rightarrow> bytes \<Rightarrow> bytes status_or" where
  "WRITE_UINT16 v out = (if WillIntOverflow (to_unsigned 16) v then Inl InvalidArgumentError
     else Inr (WriteUInt16 v out))"
definition WRITE_UINT24 :: "int \<Rightarrow> bytes \<Rightarrow> bytes status_or" where
  "WRITE_UINT24 v out = (if 2 ^ 24 \<le> to_unsigned 64 v then Inl InvalidArgumentError
     else Inr (WriteUInt24 v out))"
definition WRITE_UINT32 :: "int \<Rightarrow> bytes \<Rightarrow> bytes status_or" where
  "WRITE_UINT32 v out = (if WillIntOverflow (to_unsigned 32) v then Inl InvalidArgumentError
     else Inr (WriteUInt32 v out))"
definition WRITE_INT16 :: "int \<Rightarrow> bytes \<Rightarrow> bytes status_or" where
  "WRITE_INT16 v out = (if WillIntOverflow (to_signed 16) v then Inl InvalidArgumentError
     else Inr (WriteInt16 v out))"
definition WRITE_INT24 :: "int \<Rightarrow> bytes \<Rightarrow> bytes status_or" where
  "WRITE_INT24 v out = (if v < - (2 ^ 23) \<or> 2 ^ 23 \<le> v then Inl InvalidArgumentError
     else Inr (WriteInt24 v out))"

section \<open>Fixed point\<close>

text \<open>\<open>roundf\<close>: to the nearest integer, ties away from zero.\<close>

definition roundf :: "rat \<Rightarrow> int" where
  "roundf x = (if 0 \<le> x then \<lfloor>x + 1 / 2\<rfloor> else - \<lfloor>- x + 1 / 2\<rfloor>)"

text \<open>
  A conversion of a \<open>float\<close> to \<open>w\<close> bits that does not fit is undefined in C++; \<open>conv\<close> stands
  for its unknown result.
\<close>

definition float_to_signed :: "nat \<Rightarrow> (int \<Rightarrow> int) \<Rightarrow> int \<Rightarrow> int" where
  "float_to_signed w conv i = (if - (2 ^ (w - 1)) \<le> i \<and> i < 2 ^ (w - 1) then i else conv i)"

definition WillFixedOverflow :: "(int \<Rightarrow> int) \<Rightarrow> rat \<Rightarrow> bool" where
  "WillFixedOverflow conv value =
     WillIntOverflow (to_signed 32) (float_to_signed 64 conv (roundf (value * 2 ^ 16)))"

definition WriteFixed :: "(int \<Rightarrow> int) \<Rightarrow> rat \<Rightarrow> bytes \<Rightarrow> bytes" where
  "WriteFixed conv value out = WriteInt32 (float_to_signed 32 conv (roundf (value * 2 ^ 16))) out"

definition WRITE_FIXED :: "(int \<Rightarrow> int) \<Rightarrow> rat \<Rightarrow> bytes \<Rightarrow> bytes status_or" where
  "WRITE_FIXED conv value out = (if WillFixedOverflow conv value then Inl InvalidArgumentError
     else Inr (WriteFixed conv value out))"

text \<open>
  \<^verbatim>\<open>ReadFixed\<close> divides the integer, converted to \<open>float\<close>, by \<open>2 ^ 16\<close>; the conversion to the 24
  bits of a \<open>float\<close> significand is the argument \<open>to_float\<close>.
\<close>

definition ReadFixed :: "(int \<Rightarrow> rat) \<Rightarrow> bytes \<Rightarrow> rat status_or" where
  "ReadFixed to_float bs = TRY (ReadInt32 bs) (\<lambda>i. Inr (to_float i / 2 ^ 16))"

section \<open>The codec\<close>

fun read_many :: "(bytes \<Rightarrow> int status_or) \<Rightarrow> nat \<Rightarrow> nat \<Rightarrow> bytes \<Rightarrow> int list status_or" where
  "read_many rd width 0 bs = Inr []"
| "read_many rd width (Suc n) bs =
     TRY (rd bs) (\<lambda>v. TRY (read_many rd width n (drop width bs)) (\<lambda>vs. Inr (v # vs)))"

text \<open>What a writer and a reader of one integer format promise.\<close>

locale int_codec =
  fixes wr :: "int \<Rightarrow> bytes \<Rightarrow> bytes"
    and rd :: "bytes \<Rightarrow> int status_or"
    and width :: nat
    and in_range :: "int \<Rightarrow> bool"
  assumes write_length: "length (wr v out) = length out + width"
    and write_out: "take (length out) (wr v out) = out"
    and read_write: "in_range v \<Longrightarrow> rd (drop (length out) (wr v out @ rest)) = Inr v"
    and read_short: "length bs < width \<longleftrightarrow> rd bs = Inl InvalidArgumentError"
    and read_range: "rd bs = Inr v \<Longrightarrow> in_range v"
begin

lemma write_split: "\<exists>bs. wr v out = out @ bs \<and> length bs = width"
  using write_length [of v out] write_out [of out v]
  by (metis add_left_cancel append_take_drop_id length_append)

text \<open>A list of integers, written one after the other, reads back.\<close>

lemma fold_wr_split: "\<exists>bs. fold wr vs out = out @ bs \<and> length bs = width * length vs"
proof (induction vs arbitrary: out)
  case Nil
  show ?case by simp
next
  case (Cons v vs)
  obtain bs where bs: "wr v out = out @ bs" "length bs = width" using write_split by blast
  obtain cs where "fold wr vs (out @ bs) = (out @ bs) @ cs" "length cs = width * length vs"
    using Cons.IH by blast
  with bs show ?case by (intro exI [of _ "bs @ cs"]) simp
qed

lemma read_many_write:
  "\<forall>v\<in>set vs. in_range v \<Longrightarrow> read_many rd width (length vs) (drop (length out) (fold wr vs out @ rest)) = Inr vs"
proof (induction vs arbitrary: out)
  case Nil
  show ?case by simp
next
  case (Cons v vs)
  obtain bs where bs: "wr v out = out @ bs" "length bs = width" using write_split by blast
  obtain cs where cs: "fold wr vs (out @ bs) = (out @ bs) @ cs" using fold_wr_split by blast
  have hd: "rd (drop (length out) (fold wr (v # vs) out @ rest)) = Inr v"
    using read_write [of v out "cs @ rest"] Cons.prems bs cs by simp
  have "drop width (drop (length out) (fold wr (v # vs) out @ rest)) =
      drop (length (out @ bs)) (fold wr vs (out @ bs) @ rest)"
    unfolding drop_drop by (simp only: bs fold_simps comp_apply length_append add.commute)
  then have "read_many rd width (length vs) (drop width (drop (length out) (fold wr (v # vs) out @ rest))) = Inr vs"
    using Cons.IH [of "out @ bs"] Cons.prems by simp
  with hd show ?case by (simp only: length_Cons read_many.simps TRY.simps)
qed

end

lemma WriteInt_loop_split: "\<exists>bs. WriteInt_loop n v out = out @ bs \<and> length bs = n"
proof (induction n arbitrary: out)
  case (Suc n)
  obtain bs where "WriteInt_loop n v (out @ [of_int (drop_bit (8 * n) v AND 255)]) =
      (out @ [of_int (drop_bit (8 * n) v AND 255)]) @ bs" "length bs = n"
    using Suc.IH by blast
  then show ?case by (intro exI [of _ "of_int (drop_bit (8 * n) v AND 255) # bs"]) simp
qed simp

lemma WriteInt_loop_prefix: "WriteInt_loop n v (out @ out') = out @ WriteInt_loop n v out'"
  by (induction n arbitrary: out') simp_all

lemma uint_low_byte: "uint (of_int (x AND 255) :: byte) = x mod 256"
proof -
  have "x AND 255 = x mod 256"
    using take_bit_eq_mask [of 8 x] by (simp add: take_bit_eq_mod mask_eq_exp_minus_1)
  then show ?thesis by (simp add: uint_word_of_int_eq take_bit_eq_mod)
qed

lemma ReadInt_loop_write:
  "ReadInt_loop n (drop (length out) (WriteInt_loop n v out @ rest)) acc = acc + v mod 2 ^ (8 * n)"
proof (induction n arbitrary: out acc)
  case 0
  show ?case by simp
next
  case (Suc n)
  let ?b = "of_int (drop_bit (8 * n) v AND 255) :: byte" let ?out = "out @ [?b]"
  obtain bs where bs: "WriteInt_loop n v ?out = ?out @ bs" using WriteInt_loop_split by blast
  have "drop (length out) (WriteInt_loop (Suc n) v out @ rest) = ?b # drop (length ?out) (WriteInt_loop n v ?out @ rest)"
    by (simp add: bs)
  moreover have "push_bit (8 * n) (uint ?b) = (v div 2 ^ (8 * n)) mod 2 ^ 8 * 2 ^ (8 * n)"
    by (simp add: uint_low_byte push_bit_eq_mult drop_bit_eq_div)
  moreover have "v mod 2 ^ (8 * Suc n) = (v div 2 ^ (8 * n)) mod 2 ^ 8 * 2 ^ (8 * n) + v mod 2 ^ (8 * n)"
    using mod_mult2_eq' [of v "2 ^ (8 * n)" "2 ^ 8"]
    by (simp add: power_add mult.commute)
  ultimately show ?case using Suc.IH [of ?out] by simp
qed

lemma ReadInt_loop_bounds:
  "n \<le> length bs \<Longrightarrow> \<exists>r. ReadInt_loop n bs acc = acc + r \<and> 0 \<le> r \<and> r < 2 ^ (8 * n)"
proof (induction n bs acc rule: ReadInt_loop.induct)
  case (2 n b bs acc)
  let ?p = "push_bit (8 * n) (uint b)"
  obtain r where r: "ReadInt_loop n bs (acc + ?p) = acc + ?p + r" "0 \<le> r" "r < 2 ^ (8 * n)"
    using 2 by auto
  have p: "?p = uint b * 2 ^ (8 * n)" by (simp add: push_bit_eq_mult)
  have "uint b + 1 \<le> 256" using uint_lt2p [of b] by simp
  then have "(uint b + 1) * 2 ^ (8 * n) \<le> 256 * 2 ^ (8 * n)" by (rule mult_right_mono) simp
  then have "uint b * 2 ^ (8 * n) + 2 ^ (8 * n) \<le> 256 * 2 ^ (8 * n)"
    by (simp only: distrib_right mult_1)
  moreover have "(2::int) ^ (8 * Suc n) = 256 * 2 ^ (8 * n)" by (simp add: power_add)
  ultimately have "?p + r < 2 ^ (8 * Suc n)" using r(3) p by linarith
  moreover have "0 \<le> ?p + r" using r(2) p by simp
  ultimately show ?case using r(1) by (intro exI [of _ "?p + r"]) simp
qed simp_all

lemma ReadInt_write:
  assumes "cast (v mod 2 ^ (8 * n)) = u"
  shows "ReadInt (8 * n) cast (drop (length out) (WriteInt (8 * n) v out @ rest)) = Inr u"
proof -
  obtain bs where "WriteInt_loop n v out = out @ bs" "length bs = n"
    using WriteInt_loop_split by blast
  then have "n \<le> length (drop (length out) (WriteInt (8 * n) v out @ rest))"
    by (simp add: WriteInt_def)
  moreover have "ReadInt_loop n (drop (length out) (WriteInt (8 * n) v out @ rest)) 0 = v mod 2 ^ (8 * n)"
    using ReadInt_loop_write [of n out v rest 0] by (simp add: WriteInt_def)
  ultimately show ?thesis using assms by (simp add: ReadInt_def)
qed

lemma ReadInt_short:
  "length bs < n \<longleftrightarrow> ReadInt (8 * n) cast bs = Inl InvalidArgumentError"
  by (simp add: ReadInt_def)

lemma ReadInt_result:
  assumes "ReadInt (8 * n) cast bs = Inr v"
  shows "\<exists>r. v = cast r \<and> 0 \<le> r \<and> r < 2 ^ (8 * n)"
proof -
  from assms have "n \<le> length bs" "v = cast (ReadInt_loop n bs 0)"
    by (simp_all add: ReadInt_def split: if_splits)
  with ReadInt_loop_bounds [of n bs 0] show ?thesis by auto
qed

lemma WriteInt_length: "length (WriteInt (8 * n) v out) = length out + n"
  using WriteInt_loop_split [of n v out] by (auto simp: WriteInt_def)

lemma WriteInt_out: "take (length out) (WriteInt (8 * n) v out) = out"
  using WriteInt_loop_split [of n v out] by (auto simp: WriteInt_def)

lemma to_unsigned_range: "0 \<le> to_unsigned w v \<and> to_unsigned w v < 2 ^ w"
  by (simp add: to_unsigned_def)

lemma to_signed_range:
  assumes "0 < w" shows "- (2 ^ (w - 1)) \<le> to_signed w v \<and> to_signed w v < 2 ^ (w - 1)"
proof -
  have p: "(2::int) ^ w = 2 * 2 ^ (w - 1)" using assms by (cases w) simp_all
  have "0 \<le> (v + 2 ^ (w - 1)) mod 2 ^ w" "(v + 2 ^ (w - 1)) mod 2 ^ w < 2 ^ w" by simp_all
  then show ?thesis unfolding to_signed_def p by linarith
qed

lemma to_signed_mod:
  assumes "0 < w" shows "to_signed w (v mod 2 ^ w) = to_signed w v"
  by (simp add: to_signed_def mod_add_left_eq)

text \<open>The two schemes every format follows.\<close>

lemma unsigned_codec:
  assumes "8 * n \<le> w"
  shows "int_codec (\<lambda>v. WriteInt (8 * n) (to_unsigned w v)) (ReadInt (8 * n) (to_unsigned w)) n
           (\<lambda>v. 0 \<le> v \<and> v < 2 ^ (8 * n))"
proof
  fix v :: int and out rest assume v: "0 \<le> v \<and> v < 2 ^ (8 * n)"
  have "(2::int) ^ (8 * n) \<le> 2 ^ w" using assms by simp
  then have "to_unsigned w v = v" using v unfolding to_unsigned_eq by linarith
  then show "ReadInt (8 * n) (to_unsigned w)
      (drop (length out) (WriteInt (8 * n) (to_unsigned w v) out @ rest)) = Inr v"
    using v by (intro ReadInt_write) simp
next
  fix bs v assume "ReadInt (8 * n) (to_unsigned w) bs = Inr v"
  then obtain r where r: "v = to_unsigned w r" "0 \<le> r" "r < 2 ^ (8 * n)" using ReadInt_result by blast
  have "(2::int) ^ (8 * n) \<le> 2 ^ w" using assms by simp
  then have "to_unsigned w r = r" using r unfolding to_unsigned_eq by linarith
  with r show "0 \<le> v \<and> v < 2 ^ (8 * n)" by simp
qed (rule WriteInt_length WriteInt_out ReadInt_short)+

lemma signed_codec:
  assumes "8 * n = w" and "0 < n"
  shows "int_codec (\<lambda>v. WriteInt (8 * n) (to_signed w v)) (ReadInt (8 * n) (to_signed w)) n
           (\<lambda>v. - (2 ^ (w - 1)) \<le> v \<and> v < 2 ^ (w - 1))"
proof
  have w: "0 < w" using assms by simp
  fix v :: int and out rest assume v: "- (2 ^ (w - 1)) \<le> v \<and> v < 2 ^ (w - 1)"
  then have "to_signed w v = v" using to_signed_eq [OF w] by simp
  then show "ReadInt (8 * n) (to_signed w)
      (drop (length out) (WriteInt (8 * n) (to_signed w v) out @ rest)) = Inr v"
    by (intro ReadInt_write) (simp add: assms(1) to_signed_mod [OF w])
next
  have w: "0 < w" using assms by simp
  fix bs v assume "ReadInt (8 * n) (to_signed w) bs = Inr v"
  then obtain r where r: "v = to_signed w r" using ReadInt_result by blast
  then show "- (2 ^ (w - 1)) \<le> v \<and> v < 2 ^ (w - 1)" using to_signed_range [OF w] by simp
qed (rule WriteInt_length WriteInt_out ReadInt_short)+

interpretation u8: int_codec WriteUInt8 ReadUInt8 1 "\<lambda>v. 0 \<le> v \<and> v < 2 ^ 8"
  using unsigned_codec [of 1 8] unfolding WriteUInt8_def [abs_def] ReadUInt8_def by simp

interpretation u16: int_codec WriteUInt16 ReadUInt16 2 "\<lambda>v. 0 \<le> v \<and> v < 2 ^ 16"
  using unsigned_codec [of 2 16] unfolding WriteUInt16_def [abs_def] ReadUInt16_def by simp

interpretation u24: int_codec WriteUInt24 ReadUInt24 3 "\<lambda>v. 0 \<le> v \<and> v < 2 ^ 24"
  using unsigned_codec [of 3 32] unfolding WriteUInt24_def [abs_def] ReadUInt24_def by simp

interpretation u32: int_codec WriteUInt32 ReadUInt32 4 "\<lambda>v. 0 \<le> v \<and> v < 2 ^ 32"
  using unsigned_codec [of 4 32] unfolding WriteUInt32_def [abs_def] ReadUInt32_def by simp

interpretation i16: int_codec WriteInt16 ReadInt16 2 "\<lambda>v. - (2 ^ 15) \<le> v \<and> v < 2 ^ 15"
  using signed_codec [of 2 16] unfolding WriteInt16_def [abs_def] ReadInt16_def by simp

interpretation i32: int_codec WriteInt32 ReadInt32 4 "\<lambda>v. - (2 ^ 31) \<le> v \<and> v < 2 ^ 31"
  using signed_codec [of 4 32] unfolding WriteInt32_def [abs_def] ReadInt32_def by simp

section \<open>Evaluation\<close>

text \<open>The bytes each writer appends, for any value.\<close>

lemma low_byte:
  fixes v u :: int
  assumes "take_bit (m + 8) u = take_bit (m + 8) v"
  shows "(of_int (drop_bit m u AND 255) :: byte) = of_int (v div 2 ^ m)"
proof -
  have "take_bit 8 (drop_bit m u) = take_bit 8 (drop_bit m v)"
    using assms by (metis add.commute drop_bit_take_bit diff_add_inverse2)
  then have "drop_bit m u mod 256 = (v div 2 ^ m) mod 256"
    by (simp add: take_bit_eq_mod drop_bit_eq_div)
  then show ?thesis
    unfolding word_uint_eq_iff uint_low_byte by (simp add: uint_word_of_int_eq take_bit_eq_mod)
qed

lemma take_bit_to_unsigned: "n \<le> w \<Longrightarrow> take_bit n (to_unsigned w v) = take_bit n v"
  by (simp add: to_unsigned_def flip: take_bit_eq_mod)

lemma take_bit_to_signed:
  assumes "n \<le> w" and "0 < w" shows "take_bit n (to_signed w v) = take_bit n v"
proof -
  have "to_signed w v mod 2 ^ w = v mod 2 ^ w" by (simp add: to_signed_def mod_diff_left_eq)
  then have "take_bit w (to_signed w v) = take_bit w v" by (simp add: take_bit_eq_mod)
  then have "take_bit n (take_bit w (to_signed w v)) = take_bit n (take_bit w v)" by simp
  then show ?thesis using assms(1) by (simp add: min_def)
qed

lemmas write_low_byte =
  low_byte [OF take_bit_to_unsigned, of 0, simplified] low_byte [OF take_bit_to_unsigned]
  low_byte [OF take_bit_to_signed, of 0, simplified] low_byte [OF take_bit_to_signed]

lemma WriteInt_loop_numeral: "WriteInt_loop (numeral k) v out =
    WriteInt_loop (pred_numeral k) v (out @ [of_int (drop_bit (8 * pred_numeral k) v AND 255)])"
  by (simp only: numeral_eq_Suc WriteInt_loop.simps)

lemma WriteInt_bytes:
  "WriteInt 8 u out = out @ [of_int (u AND 255)]"
  "WriteInt 16 u out = out @ [of_int (drop_bit 8 u AND 255), of_int (u AND 255)]"
  "WriteInt 24 u out = out @ [of_int (drop_bit 16 u AND 255), of_int (drop_bit 8 u AND 255), of_int (u AND 255)]"
  "WriteInt 32 u out = out @ [of_int (drop_bit 24 u AND 255), of_int (drop_bit 16 u AND 255),
     of_int (drop_bit 8 u AND 255), of_int (u AND 255)]"
  by (simp_all add: WriteInt_def WriteInt_loop_numeral)

lemma write_eval [ift_eval]:
  "WriteUInt8 v out = out @ [of_int v]"
  "WriteUInt16 v out = out @ [of_int (v div 256), of_int v]"
  "WriteUInt24 v out = out @ [of_int (v div 65536), of_int (v div 256), of_int v]"
  "WriteUInt32 v out = out @ [of_int (v div 16777216), of_int (v div 65536), of_int (v div 256), of_int v]"
  "WriteInt16 v out = out @ [of_int (v div 256), of_int v]"
  "WriteInt24 v out = out @ [of_int (v div 65536), of_int (v div 256), of_int v]"
  "WriteInt32 v out = out @ [of_int (v div 16777216), of_int (v div 65536), of_int (v div 256), of_int v]"
  unfolding WriteUInt8_def WriteUInt16_def WriteUInt24_def WriteUInt32_def WriteInt16_def WriteInt24_def
    WriteInt32_def WriteInt_bytes
  by (simp_all add: write_low_byte)

lemma floor_numeral_half [ift_eval]: "\<lfloor>(numeral n :: rat) / 2\<rfloor> = numeral n div 2"
  using floor_divide_of_int_eq [of "numeral n" 2, where ?'a = rat] by simp

lemmas font_ints_eval =
  ift_eval WRITE_UINT8_def WRITE_UINT16_def WRITE_UINT24_def WRITE_INT24_def WRITE_FIXED_def
  WillIntOverflow_def WillFixedOverflow_def WriteFixed_def to_unsigned_def to_signed_def roundf_def
  float_to_signed_def


section \<open>Parsers\<close>

text \<open>
  Reference parsers over bytes, and the relation \<open>reads_back\<close> between a writer of the model and
  a parser: whatever the writer appends to its output, the parser takes off again and returns the
  given value. The relation is closed under sequencing and loops, so that a round trip is proved
  field by field.
\<close>

type_synonym 'a parser = "bytes \<Rightarrow> ('a \<times> bytes) status_or"
type_synonym writer = "bytes \<Rightarrow> bytes status_or"

definition returnp :: "'a \<Rightarrow> 'a parser" where
  "returnp x bs = Inr (x, bs)"

definition bindp :: "'a parser \<Rightarrow> ('a \<Rightarrow> 'b parser) \<Rightarrow> 'b parser" where
  "bindp p q bs = TRY (p bs) (\<lambda>(x, bs'). q x bs')"

definition getp :: "(bytes \<Rightarrow> 'a status_or) \<Rightarrow> nat \<Rightarrow> 'a parser" where
  "getp rd width bs = TRY (rd bs) (\<lambda>v. Inr (v, drop width bs))"

definition takep :: "nat \<Rightarrow> bytes parser" where
  "takep n bs = (if length bs < n then Inl InvalidArgumentError else Inr (take n bs, drop n bs))"

fun manyp :: "nat \<Rightarrow> 'a parser \<Rightarrow> 'a list parser" where
  "manyp 0 p = returnp []"
| "manyp (Suc n) p = bindp p (\<lambda>x. bindp (manyp n p) (\<lambda>xs. returnp (x # xs)))"

text \<open>A parser takes \<open>bs\<close> off the front and returns \<open>x\<close>.\<close>

definition parses :: "'a parser \<Rightarrow> bytes \<Rightarrow> 'a \<Rightarrow> bool" where
  "parses p bs x \<longleftrightarrow> (\<forall>rest. p (bs @ rest) = Inr (x, rest))"

definition reads_back :: "writer \<Rightarrow> 'a parser \<Rightarrow> 'a \<Rightarrow> bool" where
  "reads_back w p x \<longleftrightarrow> (\<forall>out out'. w out = Inr out' \<longrightarrow> (\<exists>bs. out' = out @ bs \<and> parses p bs x))"

lemma parses_return: "parses (returnp x) [] x"
  by (simp add: parses_def returnp_def)

lemma parses_bind:
  assumes "parses p bs x" and "parses (q x) cs y"
  shows "parses (bindp p q) (bs @ cs) y"
  using assms by (simp add: parses_def bindp_def)

lemma parses_bind_return:
  assumes "parses p bs x" shows "parses (bindp p (\<lambda>x. returnp (f x))) bs (f x)"
  using parses_bind [OF assms parses_return, of f] by simp

lemma parses_take: "parses (takep (length bs)) bs bs"
  by (simp add: parses_def takep_def)

lemma reads_backI:
  assumes "\<And>out out'. w out = Inr out' \<Longrightarrow> \<exists>bs. out' = out @ bs \<and> parses p bs x"
  shows "reads_back w p x"
  using assms by (simp add: reads_back_def)

lemma reads_backD:
  assumes "reads_back w p x" and "w out = Inr out'"
  shows "\<exists>bs. out' = out @ bs \<and> parses p bs x"
  using assms by (simp add: reads_back_def)

lemma reads_back_return: "reads_back Inr (returnp x) x"
  unfolding reads_back_def using parses_return by auto

lemma reads_back_bind:
  assumes "reads_back w p x" and "reads_back w' (q x) y"
  shows "reads_back (\<lambda>out. TRY (w out) w') (bindp p q) y"
proof (rule reads_backI)
  fix out out' assume "TRY (w out) w' = Inr out'"
  then obtain o1 where o1: "w out = Inr o1" and "w' o1 = Inr out'" by (auto simp: TRY_eq_Inr)
  from reads_backD [OF assms(1) o1] obtain bs where bs: "o1 = out @ bs" "parses p bs x" by blast
  from reads_backD [OF assms(2) \<open>w' o1 = Inr out'\<close>] obtain cs where "out' = o1 @ cs" "parses (q x) cs y"
    by blast
  with bs parses_bind [OF bs(2)] show "\<exists>bs. out' = out @ bs \<and> parses (bindp p q) bs y"
    by (intro exI [of _ "bs @ cs"]) simp
qed

lemma reads_back_many:
  assumes "\<And>x. x \<in> set xs \<Longrightarrow> reads_back (w x) p (f x)"
  shows "reads_back (TRY_fold w xs) (manyp (length xs) p) (map f xs)"
  using assms
proof (induction xs)
  case Nil
  have "TRY_fold w [] = Inr" by (rule ext) simp
  then show ?case using reads_back_return by simp
next
  case (Cons x xs)
  have "TRY_fold w (x # xs) = (\<lambda>out. TRY (w x out) (TRY_fold w xs))" by (rule ext) simp
  moreover have "reads_back (\<lambda>out. TRY (TRY_fold w xs out) Inr)
      (bindp (manyp (length xs) p) (\<lambda>ys. returnp (f x # ys))) (f x # map f xs)"
    by (rule reads_back_bind [OF Cons.IH reads_back_return]) (use Cons.prems in simp)
  moreover have "(\<lambda>out. TRY (TRY_fold w xs out) Inr) = TRY_fold w xs"
  proof
    show "TRY (TRY_fold w xs out) Inr = TRY_fold w xs out" for out
      by (cases "TRY_fold w xs out") simp_all
  qed
  moreover have "reads_back (w x) p (f x)" using Cons.prems by simp
  ultimately show ?case by (simp add: reads_back_bind)
qed

lemma fold_eq_TRY_fold: "TRY_fold (\<lambda>x s. Inr (f x s)) xs s = Inr (fold f xs s)"
  by (induction xs arbitrary: s) simp_all

section \<open>The integer formats\<close>

context int_codec begin

lemma parses_back:
  assumes "in_range v"
  shows "reads_back (\<lambda>out. Inr (wr v out)) (getp rd width) v"
proof (rule reads_backI)
  fix out out' assume "Inr (wr v out) = (Inr out' :: bytes status_or)"
  moreover obtain bs where bs: "wr v out = out @ bs" "length bs = width" using write_split by blast
  moreover have "rd (bs @ rest) = Inr v" for rest using read_write [OF assms, of out rest] bs(1) by simp
  ultimately show "\<exists>bs. out' = out @ bs \<and> parses (getp rd width) bs v"
    by (intro exI [of _ bs]) (simp add: parses_def getp_def)
qed

end

end
