(* ===== verification/Font_Data.thy ===== *)
theory Font_Data
  imports Font_Ints
begin

text \<open>
  Three small parts of \<^verbatim>\<open>ift/common\<close> over the integers of \<^verbatim>\<open>Font_Ints\<close>: compatibility ids
  (\<^verbatim>\<open>compat_id.h\<close>), axis ranges (\<^verbatim>\<open>axis_range.h\<close>; a \<open>float\<close> is a rational number, so that NaN
  is left out) and the reader of offset tables (\<^verbatim>\<open>indexed_data_reader.h\<close>) with its 32 bit
  arithmetic.
\<close>

section \<open>Compatibility ids\<close>

datatype compat_id = CompatId "32 word" "32 word" "32 word" "32 word"

fun CompatId_WriteTo :: "compat_id \<Rightarrow> bytes \<Rightarrow> bytes" where
  "CompatId_WriteTo (CompatId a b c d) out =
     WriteUInt32 (uint d) (WriteUInt32 (uint c) (WriteUInt32 (uint b) (WriteUInt32 (uint a) out)))"

fun CompatId_values :: "compat_id \<Rightarrow> int list" where
  "CompatId_values (CompatId a b c d) = [uint a, uint b, uint c, uint d]"

lemma CompatId_WriteTo_fold: "CompatId_WriteTo c out = fold WriteUInt32 (CompatId_values c) out"
  by (cases c) simp

lemma CompatId_values_inject: "CompatId_values c = CompatId_values d \<longleftrightarrow> c = d"
  by (cases c; cases d) (simp add: word_uint_eq_iff)

lemma CompatId_values_range: "\<forall>v\<in>set (CompatId_values c). 0 \<le> v \<and> v < 2 ^ 32"
proof (cases c)
  case (CompatId w x y z)
  then show ?thesis using uint_lt2p [of w] uint_lt2p [of x] uint_lt2p [of y] uint_lt2p [of z] by simp
qed

lemma length_CompatId_values [simp]: "length (CompatId_values c) = 4"
  by (cases c) simp

section \<open>Axis ranges\<close>

record axis_range =
  ar_start :: rat
  ar_end :: rat

definition AxisRange :: "rat \<Rightarrow> rat \<Rightarrow> axis_range" where
  "AxisRange s e = \<lparr>ar_start = s, ar_end = e\<rparr>"

definition AR_Point :: "rat \<Rightarrow> axis_range" where
  "AR_Point p = AxisRange p p"

definition AR_Range :: "rat \<Rightarrow> rat \<Rightarrow> axis_range status_or" where
  "AR_Range s e = (if e < s then Inl InvalidArgumentError else Inr (AxisRange s e))"

definition AR_Intersects :: "axis_range \<Rightarrow> axis_range \<Rightarrow> bool" where
  "AR_Intersects a b \<longleftrightarrow> ar_start a \<le> ar_end b \<and> ar_start b \<le> ar_end a"

definition AR_Intersection :: "axis_range \<Rightarrow> axis_range \<Rightarrow> axis_range option" where
  "AR_Intersection a b =
     (if \<not> AR_Intersects a b then None
      else Some (AxisRange (max (ar_start a) (ar_start b)) (min (ar_end a) (ar_end b))))"

definition AR_IsPoint :: "axis_range \<Rightarrow> bool" where "AR_IsPoint a \<longleftrightarrow> ar_start a = ar_end a"
definition AR_IsRange :: "axis_range \<Rightarrow> bool" where "AR_IsRange a \<longleftrightarrow> ar_start a \<noteq> ar_end a"

text \<open>Ranges built by \<^verbatim>\<open>Point\<close> and \<^verbatim>\<open>Range\<close> are ordered; a range stands for its points.\<close>

definition ar_wf :: "axis_range \<Rightarrow> bool" where "ar_wf a \<longleftrightarrow> ar_start a \<le> ar_end a"
definition ar_points :: "axis_range \<Rightarrow> rat set" where "ar_points a = {ar_start a..ar_end a}"

lemma AR_Range_wf: "AR_Range s e = Inr a \<Longrightarrow> ar_wf a \<and> ar_points a = {s..e}"
  by (auto simp: AR_Range_def ar_wf_def ar_points_def AxisRange_def split: if_splits)

lemma AR_Intersection_aux:
  assumes "ar_wf a" and "ar_wf b"
  shows "case AR_Intersection a b of None \<Rightarrow> ar_points a \<inter> ar_points b = {}
         | Some c \<Rightarrow> ar_wf c \<and> ar_points c = ar_points a \<inter> ar_points b"
  using assms
  by (auto simp: AR_Intersection_def AR_Intersects_def ar_points_def ar_wf_def AxisRange_def)

section \<open>Offset tables\<close>

text \<open>
  The parameters are \<open>width\<close>, the bytes of \<open>offset_type\<close>, and \<open>offset_multiplier\<close>. All indices
  are 32 bit words, as in the source; \<open>None\<close> is a read behind the end of the offset table.
\<close>

fun ReadValue_loop :: "nat \<Rightarrow> 32 word \<Rightarrow> bytes \<Rightarrow> 32 word \<Rightarrow> 32 word option" where
  "ReadValue_loop 0 index offsets value = Some value"
| "ReadValue_loop (Suc n) index offsets value =
     (if unat index < length offsets
      then ReadValue_loop n (index + 1) offsets
             (value OR push_bit (8 * n) (ucast (offsets ! unat index)))
      else None)"

definition ReadValue :: "nat \<Rightarrow> 32 word \<Rightarrow> bytes \<Rightarrow> 32 word option" where
  "ReadValue width index offsets = ReadValue_loop width index offsets 0"

definition DataFor :: "nat \<Rightarrow> nat \<Rightarrow> bytes \<Rightarrow> bytes \<Rightarrow> 32 word \<Rightarrow> bytes status_or option" where
  "DataFor width multiplier offsets data gid =
     (let start_index = gid * of_nat width;
          end_index = (gid + 1) * of_nat width
      in if length offsets < unat (end_index + of_nat width) then Some (Inl NotFoundError)
         else case ReadValue width start_index offsets of None \<Rightarrow> None | Some s \<Rightarrow>
           case ReadValue width end_index offsets of None \<Rightarrow> None | Some e \<Rightarrow>
           let start_offset = s * of_nat multiplier;
               end_offset = e * of_nat multiplier
           in if end_offset < start_offset then Some (Inl InvalidArgumentError)
              else if length data < unat end_offset then Some (Inl InvalidArgumentError)
              else Some (Inr (take (unat (end_offset - start_offset)) (drop (unat start_offset) data))))"

text \<open>The bytes of the offset table that lists \<open>offs\<close>, written by the loop of \<^verbatim>\<open>WriteInt\<close>.\<close>

definition offset_table :: "nat \<Rightarrow> nat list \<Rightarrow> bytes" where
  "offset_table width offs = concat (map (\<lambda>o'. WriteInt (8 * width) (int o') []) offs)"

lemma length_offset_table: "length (offset_table width offs) = width * length offs"
  by (induction offs) (simp_all add: offset_table_def WriteInt_length [of width _ "[]", simplified])

lemma offset_table_nth:
  assumes "i < length offs"
  shows "\<exists>rest. drop (width * i) (offset_table width offs) = WriteInt (8 * width) (int (offs ! i)) [] @ rest"
  using assms
proof (induction offs arbitrary: i)
  case (Cons o' offs)
  show ?case
  proof (cases i)
    case 0
    then show ?thesis by (auto simp: offset_table_def)
  next
    case (Suc j)
    then have "drop (width * i) (offset_table width (o' # offs)) = drop (width * j) (offset_table width offs)"
      using WriteInt_length [of width "int o'" "[]"] by (simp add: offset_table_def)
    with Cons Suc show ?thesis by simp
  qed
qed simp

lemma ReadValue_loop_write:
  fixes acc :: "32 word"
  assumes "drop k offsets = WriteInt_loop n v [] @ rest" and "length offsets < 2 ^ 32"
    and "\<forall>i < 8 * n. \<not> bit acc i"
  shows "ReadValue_loop n (of_nat k) offsets acc = Some (acc + of_int (v mod 2 ^ (8 * n)))"
  using assms
proof (induction n arbitrary: k acc)
  case 0
  show ?case by simp
next
  case (Suc n)
  define b :: byte where "b = of_int (drop_bit (8 * n) v AND 255)"
  let ?p = "push_bit (8 * n) (ucast b) :: 32 word"
  obtain bs where bs: "WriteInt_loop n v [b] = [b] @ bs" "WriteInt_loop n v [] = bs"
  proof -
    have "WriteInt_loop n v ([b] @ []) = [b] @ WriteInt_loop n v []" by (rule WriteInt_loop_prefix)
    then show ?thesis using that by simp
  qed
  have d: "drop k offsets = b # bs @ rest" using Suc.prems(1) bs by (simp add: b_def)
  then have k: "k < length offsets" by (metis drop_all list.distinct(1) not_less)
  with Suc.prems(2) have uk: "unat (of_nat k :: 32 word) = k" by (simp add: unat_of_nat)
  have nth: "offsets ! k = b" using d k by (metis Cons_nth_drop_Suc list.inject)
  have "drop (Suc k) offsets = WriteInt_loop n v [] @ rest"
    using d bs(2) k by (metis Cons_nth_drop_Suc list.inject)
  moreover have "\<forall>i < 8 * n. \<not> bit (acc OR ?p) i"
    using Suc.prems(3) by (auto simp: bit_or_iff bit_push_bit_iff)
  ultimately have ih: "ReadValue_loop n (of_nat (Suc k)) offsets (acc OR ?p) =
      Some ((acc OR ?p) + of_int (v mod 2 ^ (8 * n)))"
    using Suc.prems(2) by (intro Suc.IH) auto
  have "acc AND ?p = 0"
  proof (rule bit_eqI)
    fix i
    show "bit (acc AND ?p) i = bit (0 :: 32 word) i"
    proof (cases "i < 8 * Suc n")
      case True
      then show ?thesis using Suc.prems(3) by (simp add: bit_and_iff)
    next
      case False
      then have "\<not> bit b (i - 8 * n)" by (intro notI) (auto dest: bit_imp_le_length)
      then show ?thesis by (simp add: bit_and_iff bit_push_bit_iff bit_ucast_iff)
    qed
  qed
  then have or_add: "acc OR ?p = acc + ?p" by (simp add: disjunctive_add_eq_or)
  have "(ucast b :: 32 word) = of_int (uint b)" by simp
  also have "uint b = (v div 2 ^ (8 * n)) mod 2 ^ 8"
    unfolding b_def uint_low_byte by (simp add: drop_bit_eq_div)
  finally have "?p = of_int ((v div 2 ^ (8 * n)) mod 2 ^ 8 * 2 ^ (8 * n))"
    by (simp add: push_bit_eq_mult)
  moreover have "v mod 2 ^ (8 * Suc n) = (v div 2 ^ (8 * n)) mod 2 ^ 8 * 2 ^ (8 * n) + v mod 2 ^ (8 * n)"
    using mod_mult2_eq' [of v "2 ^ (8 * n)" "2 ^ 8"]
    by (simp add: power_add mult.commute)
  ultimately have "(acc OR ?p) + of_int (v mod 2 ^ (8 * n)) = acc + of_int (v mod 2 ^ (8 * Suc n))"
    unfolding or_add by simp
  moreover have "ReadValue_loop (Suc n) (of_nat k) offsets acc = ReadValue_loop n (of_nat (Suc k)) offsets (acc OR ?p)"
    using k nth by (simp add: uk add.commute)
  ultimately show ?case using ih by simp
qed

lemma ReadValue_table:
  assumes "i < length offs" and "offs ! i < 2 ^ (8 * width)" and "width * length offs < 2 ^ 32"
  shows "ReadValue width (of_nat (width * i)) (offset_table width offs) = Some (of_nat (offs ! i))"
proof -
  obtain rest where "drop (width * i) (offset_table width offs) = WriteInt_loop width (int (offs ! i)) [] @ rest"
    using offset_table_nth [OF assms(1)] by (auto simp: WriteInt_def)
  then have "ReadValue width (of_nat (width * i)) (offset_table width offs) =
      Some (0 + of_int (int (offs ! i) mod 2 ^ (8 * width)))"
    unfolding ReadValue_def using assms(3)
    by (intro ReadValue_loop_write) (simp_all add: length_offset_table)
  moreover have "int (offs ! i) mod 2 ^ (8 * width) = int (offs ! i)"
    using assms(2) by (simp add: zmod_int [symmetric])
  ultimately show ?thesis by simp
qed

lemma unat_of_nat_32: "n < 2 ^ 32 \<Longrightarrow> unat (of_nat n :: 32 word) = n"
  by (simp add: unat_of_nat)

lemma DataFor_table:
  fixes gid :: "32 word"
  assumes w: "width * (unat gid + 2) < 2 ^ 32" and offs: "\<forall>x\<in>set offs. x < 2 ^ (8 * width)"
    and m: "multiplier * 2 ^ (8 * width) \<le> 2 ^ 32" and len: "width * length offs < 2 ^ 32"
    and m0: "0 < multiplier" and w0: "0 < width"
  shows "DataFor width multiplier (offset_table width offs) data gid = Some (
      if length offs < unat gid + 2 then Inl NotFoundError
      else let s = offs ! unat gid * multiplier; e = offs ! Suc (unat gid) * multiplier
        in if e < s \<or> length data < e then Inl InvalidArgumentError
           else Inr (take (e - s) (drop s data)))"
proof -
  let ?g = "unat gid"
  have start: "gid * of_nat width = of_nat (width * ?g)" by simp
  have fin: "(gid + 1) * of_nat width = of_nat (width * Suc ?g)" by (simp add: algebra_simps)
  have "(gid + 1) * of_nat width + of_nat width = of_nat (width * (?g + 2))" by (simp add: algebra_simps)
  then have sum: "unat ((gid + 1) * of_nat width + of_nat width) = width * (?g + 2)"
    using unat_of_nat_32 [OF w] by (simp only:)
  have short: "length (offset_table width offs) < width * (?g + 2) \<longleftrightarrow> length offs < ?g + 2"
    using w0 by (simp only: length_offset_table nat_mult_less_cancel_disj simp_thms)
  show ?thesis
  proof (cases "length offs < ?g + 2")
    case True
    then show ?thesis unfolding DataFor_def Let_def sum short by simp
  next
    case False
    then have i: "?g < length offs" "Suc ?g < length offs" by simp_all
    have small: "offs ! j < 2 ^ (8 * width)" "offs ! j * multiplier < 2 ^ 32" if "j < length offs" for j
    proof -
      show b: "offs ! j < 2 ^ (8 * width)" using offs that nth_mem by blast
      then have "offs ! j * multiplier < 2 ^ (8 * width) * multiplier" using m0 by simp
      then show "offs ! j * multiplier < 2 ^ 32" using m by (simp only: mult.commute)
    qed
    define s e where "s = offs ! ?g * multiplier" and "e = offs ! Suc ?g * multiplier"
    have se: "unat (of_nat s :: 32 word) = s" "unat (of_nat e :: 32 word) = e"
      unfolding s_def e_def by (rule unat_of_nat_32 [OF small(2) [OF i(1)]] unat_of_nat_32 [OF small(2) [OF i(2)]])+
    have r1: "ReadValue width (gid * of_nat width) (offset_table width offs) = Some (of_nat (offs ! ?g))"
      unfolding start using ReadValue_table [OF i(1) small(1) [OF i(1)] len] .
    have r2: "ReadValue width ((gid + 1) * of_nat width) (offset_table width offs) = Some (of_nat (offs ! Suc ?g))"
      unfolding fin using ReadValue_table [OF i(2) small(1) [OF i(2)] len] .
    have prods: "of_nat (offs ! ?g) * of_nat multiplier = (of_nat s :: 32 word)"
      "of_nat (offs ! Suc ?g) * of_nat multiplier = (of_nat e :: 32 word)"
      by (simp_all add: s_def e_def)
    have lt: "(of_nat e :: 32 word) < of_nat s \<longleftrightarrow> e < s" using se by (simp add: word_less_nat_alt)
    have sub: "unat (of_nat e - of_nat s :: 32 word) = e - s" if "\<not> e < s"
    proof -
      have "of_nat e - of_nat s = (of_nat (e - s) :: 32 word)" using that by (simp add: of_nat_diff)
      moreover have "e - s < 2 ^ 32" using small(2) [OF i(2)] by (simp add: e_def)
      ultimately show ?thesis by (simp only: unat_of_nat_32)
    qed
    show ?thesis
      unfolding DataFor_def Let_def sum short r1 r2 option.case prods lt s_def [symmetric] e_def [symmetric]
      using False sub se by simp
  qed
qed

text \<open>With 4 byte offsets \<open>id * width\<close> wraps: ids that differ by \<open>2 ^ 30\<close> read the same entry.\<close>

lemma DataFor_wraps: "DataFor 4 m offsets data (gid + 2 ^ 30) = DataFor 4 m offsets data gid"
proof -
  have zero: "(2 ^ 30 * 4 :: 32 word) = 0" by (simp add: word_uint_eq_iff uint_word_ariths)
  have "(gid + 2 ^ 30) * 4 = gid * (4 :: 32 word)" by (simp only: distrib_right zero add_0_right)
  moreover have "(gid + 2 ^ 30 + 1) * 4 = (gid + 1) * (4 :: 32 word)"
    by (simp only: distrib_right zero add_0_right)
  ultimately show ?thesis unfolding DataFor_def of_nat_numeral by (simp only:)
qed

end
