(* ===== verification/Patch_Map.thy ===== *)
theory Patch_Map
  imports Activation_Condition Font_Data
begin

text \<open>
  Patch maps (\<^verbatim>\<open>ift/proto/patch_map.h\<close>, \<^verbatim>\<open>patch_map.cc\<close>): the list of entries, each with the
  coverage that triggers it, the patches it activates and their encoding. Tags and patch
  indices are \<open>uint32_t\<close>, modelled as naturals; \<open>entry_wf\<close> states their range together with
  the order of the two btree containers. The data of an \<^verbatim>\<open>IFTTable\<close> (\<^verbatim>\<open>ift_table.h\<close>) is here too,
  since the serialization of a patch map reads it.
\<close>

type_synonym hb_tag = nat

definition IsInvalidating :: "patch_encoding \<Rightarrow> bool" where
  "IsInvalidating encoding \<longleftrightarrow> encoding = TABLE_KEYED_PARTIAL \<or> encoding = TABLE_KEYED_FULL"

section \<open>Coverage\<close>

record coverage =
  cov_codepoints :: int_set
  cov_features :: "hb_tag list"
  cov_design_space :: "(hb_tag \<times> axis_range) list"
  cov_conjunctive :: bool
  cov_child_indices :: int_set

definition Coverage :: "int_set \<Rightarrow> coverage" where
  "Coverage codepoints_list = \<lparr>cov_codepoints = codepoints_list, cov_features = [],
     cov_design_space = [], cov_conjunctive = False, cov_child_indices = IntSet_empty\<rparr>"

definition Coverage_equal :: "coverage \<Rightarrow> coverage \<Rightarrow> bool" where
  "Coverage_equal a b \<longleftrightarrow> cov_codepoints b = cov_codepoints a \<and> cov_features b = cov_features a \<and>
     cov_design_space b = cov_design_space a"

definition SmallestCodepoint :: "coverage \<Rightarrow> nat" where
  "SmallestCodepoint c =
     fold (\<lambda>cp m. if cp < m then cp else m) (to_vector (cov_codepoints c)) UINT32_MAX"

lemma fold_min: "fold (\<lambda>cp m. if cp < m then cp else m) xs (m::nat) = Min (insert m (set xs))"
proof (induction xs arbitrary: m)
  case (Cons x xs)
  have "Min (insert m (set (x # xs))) = Min (insert (if x < m then x else m) (set xs))"
  proof (cases "set xs = {}")
    case False
    then have eq: "Min (insert y (set xs)) = min y (Min (set xs))" for y by simp
    have "Min (insert m (set (x # xs))) = min m (min x (Min (set xs)))" using False by simp
    also have "\<dots> = min (if x < m then x else m) (Min (set xs))" by (simp add: min_def)
    finally show ?thesis unfolding eq .
  qed (simp add: min_def)
  then show ?case by (simp only: fold_simps comp_apply Cons.IH)
qed simp

lemma SmallestCodepoint_le:
  assumes "x \<in> members (cov_codepoints c)" shows "SmallestCodepoint c \<le> x"
  unfolding SmallestCodepoint_def fold_min using assms by (intro Min_le) simp_all

lemma SmallestCodepoint_eq:
  "SmallestCodepoint c = (case IntSet_min (cov_codepoints c) of None \<Rightarrow> UINT32_MAX | Some m \<Rightarrow> m)"
proof (cases "members (cov_codepoints c) = {}")
  case True
  then show ?thesis by (simp add: SmallestCodepoint_def fold_min IntSet_min_eq)
next
  case False
  then have "Min (members (cov_codepoints c)) \<in> members (cov_codepoints c)" by (rule Min_in [OF finite_members])
  then have "min UINT32_MAX (Min (members (cov_codepoints c))) = Min (members (cov_codepoints c))"
    using members_bound by fastforce
  with False show ?thesis by (simp add: SmallestCodepoint_def fold_min IntSet_min_eq)
qed

section \<open>Entries\<close>

record entry =
  en_coverage :: coverage
  en_patch_indices :: "nat list"
  en_encoding :: patch_encoding
  en_ignored :: bool

definition Entry :: "int_set \<Rightarrow> nat list \<Rightarrow> patch_encoding \<Rightarrow> entry" where
  "Entry codepoints patches enc = \<lparr>en_coverage = Coverage codepoints, en_patch_indices = patches,
     en_encoding = enc, en_ignored = False\<rparr>"

definition Entry_equal :: "entry \<Rightarrow> entry \<Rightarrow> bool" where
  "Entry_equal a b \<longleftrightarrow> Coverage_equal (en_coverage b) (en_coverage a) \<and>
     en_patch_indices b = en_patch_indices a \<and> en_encoding b = en_encoding a \<and>
     en_ignored b = en_ignored a"

definition Entry_IsInvalidating :: "entry \<Rightarrow> bool" where
  "Entry_IsInvalidating e = IsInvalidating (en_encoding e)"

type_synonym patch_map = "entry list"

fun PatchMap_equal :: "patch_map \<Rightarrow> patch_map \<Rightarrow> bool" where
  "PatchMap_equal [] [] = True"
| "PatchMap_equal (a # as) (b # bs) = (Entry_equal a b \<and> PatchMap_equal as bs)"
| "PatchMap_equal _ _ = False"

text \<open>\<^verbatim>\<open>AddEntry(const Entry&)\<close>: on a failure the map is as before.\<close>

definition AddEntry :: "entry \<Rightarrow> patch_map \<Rightarrow> patch_map status_or" where
  "AddEntry entry entries =
     (if \<not> IntSet_is_empty (cov_child_indices (en_coverage entry)) \<and>
         list_ex (\<lambda>index. length entries \<le> index) (to_vector (cov_child_indices (en_coverage entry)))
      then Inl InvalidArgumentError
      else if en_patch_indices entry = [] then Inl InvalidArgumentError
      else Inr (entries @ [entry]))"

definition AddEntry_coverage ::
  "coverage \<Rightarrow> nat list \<Rightarrow> patch_encoding \<Rightarrow> bool \<Rightarrow> patch_map \<Rightarrow> patch_map status_or" where
  "AddEntry_coverage coverage patch_indices encoding ignored entries =
     AddEntry \<lparr>en_coverage = coverage, en_patch_indices = patch_indices, en_encoding = encoding,
       en_ignored = ignored\<rparr> entries"

definition AddEntry_index ::
  "coverage \<Rightarrow> nat \<Rightarrow> patch_encoding \<Rightarrow> bool \<Rightarrow> patch_map \<Rightarrow> patch_map status_or" where
  "AddEntry_index coverage patch_index encoding ignored entries =
     AddEntry_coverage coverage [patch_index] encoding ignored entries"

text \<open>
  What a map built by \<^verbatim>\<open>AddEntry\<close> keeps: every entry activates a patch, and refers only to entries
  before it, so that the references form no cycle.
\<close>

definition map_ok :: "patch_map \<Rightarrow> bool" where
  "map_ok es \<longleftrightarrow> (\<forall>i < length es. en_patch_indices (es ! i) \<noteq> [] \<and>
     (\<forall>j \<in> members (cov_child_indices (en_coverage (es ! i))). j < i))"

lemma map_ok_Nil: "map_ok []"
  by (simp add: map_ok_def)

lemma map_ok_snoc:
  "map_ok (es @ [e]) \<longleftrightarrow> map_ok es \<and> en_patch_indices e \<noteq> [] \<and>
     (\<forall>j \<in> members (cov_child_indices (en_coverage e)). j < length es)"
  unfolding map_ok_def length_append_singleton less_Suc_eq by (auto simp: nth_append)

lemma AddEntry_eq:
  assumes "map_ok es"
  shows "AddEntry e es = (if map_ok (es @ [e]) then Inr (es @ [e]) else Inl InvalidArgumentError)"
proof -
  have "(\<not> IntSet_is_empty s \<and> list_ex (\<lambda>index. n \<le> index) (to_vector s)) \<longleftrightarrow>
      \<not> (\<forall>j\<in>members s. j < n)" for s n
    by (cases "members s = {}") (simp_all add: list_ex_iff linorder_not_less Bex_def Ball_def)
  with assms show ?thesis unfolding AddEntry_def map_ok_snoc by (simp only:) simp
qed

text \<open>The integer types of the C++ fields, and the order the btree containers keep.\<close>

definition entry_wf :: "entry \<Rightarrow> bool" where
  "entry_wf e \<longleftrightarrow>
     sorted_wrt (<) (cov_features (en_coverage e)) \<and>
     sorted_wrt (<) (map fst (cov_design_space (en_coverage e))) \<and>
     (\<forall>t \<in> set (cov_features (en_coverage e)). t < TWO32) \<and>
     (\<forall>t \<in> fst ` set (cov_design_space (en_coverage e)). t < TWO32) \<and>
     (\<forall>p \<in> set (en_patch_indices e). p < TWO32)"

section \<open>IFT tables\<close>

record ift_table =
  it_url_template :: bytes
  it_id :: compat_id
  it_patch_map :: patch_map

definition IFTTable :: ift_table where
  "IFTTable = \<lparr>it_url_template = [], it_id = CompatId 0 0 0 0, it_patch_map = []\<rparr>"

definition SetUrlTemplate :: "bytes \<Rightarrow> ift_table \<Rightarrow> ift_table" where
  "SetUrlTemplate value t = t\<lparr>it_url_template := value @ it_url_template t\<rparr>"

definition SetId :: "compat_id \<Rightarrow> ift_table \<Rightarrow> ift_table" where
  "SetId compat_id t = t\<lparr>it_id := compat_id\<rparr>"

definition IFTTable_equal :: "ift_table \<Rightarrow> ift_table \<Rightarrow> bool" where
  "IFTTable_equal a b \<longleftrightarrow> it_url_template a = it_url_template b \<and> it_id a = it_id b \<and>
     PatchMap_equal (it_patch_map a) (it_patch_map b)"

text \<open>
  \<^verbatim>\<open>SetUrlTemplate\<close> inserts at the front: on a fresh table it sets the template, a second call
  prepends.
\<close>

lemma SetUrlTemplate_twice:
  "it_url_template (SetUrlTemplate v (SetUrlTemplate u IFTTable)) = v @ u"
  by (simp add: SetUrlTemplate_def IFTTable_def)

end
