(* ===== verification/Format_2.thy ===== *)
theory Format_2
  imports Patch_Map Sparse_Choose
begin

text \<open>
  Serialization of patch maps (\<^verbatim>\<open>ift/proto/format_2_patch_map.cc\<close>): the header of the table, its
  entries with their optional fields, the delta coded patch indices, and the biased sparse bit
  set of codepoints. The argument \<open>conv\<close> of the codepoint functions is that of
  \<^verbatim>\<open>SparseBitSet::Encode\<close> (theory \<open>Sparse_Choose\<close>), the one of the axis functions that of
  \<^verbatim>\<open>WriteFixed\<close> (theory \<open>Font_Ints\<close>).
\<close>

unbundle bit_operations_syntax

section \<open>Constants and encodings\<close>

definition features_and_design_space_bit_mask :: int where "features_and_design_space_bit_mask = 1"
definition child_indices_bit_mask :: int where "child_indices_bit_mask = push_bit 1 1"
definition index_delta_bit_mask :: int where "index_delta_bit_mask = push_bit 2 1"
definition encoding_bit_mask :: int where "encoding_bit_mask = push_bit 3 1"
definition codepoint_bit_mask :: int where "codepoint_bit_mask = push_bit 4 3"
definition ignore_bit_mask :: int where "ignore_bit_mask = push_bit 6 1"
definition no_bias :: int where "no_bias = push_bit 4 1"
definition two_byte_bias :: int where "two_byte_bias = push_bit 4 2"
definition three_byte_bias :: int where "three_byte_bias = push_bit 4 3"

lemmas format_masks =
  features_and_design_space_bit_mask_def child_indices_bit_mask_def index_delta_bit_mask_def
  encoding_bit_mask_def codepoint_bit_mask_def ignore_bit_mask_def
  no_bias_def two_byte_bias_def three_byte_bias_def

definition EncodingToInt :: "patch_encoding \<Rightarrow> int status_or" where
  "EncodingToInt encoding =
     (if encoding = TABLE_KEYED_FULL then Inr 1
      else if encoding = TABLE_KEYED_PARTIAL then Inr 2
      else if encoding = GLYPH_KEYED then Inr 3
      else Inl InvalidArgumentError)"

text \<open>The loop counts, modulo \<open>2 ^ 32\<close>, how many entries have each encoding.\<close>

definition count_encoding :: "entry \<Rightarrow> (int \<Rightarrow> nat) \<Rightarrow> int \<Rightarrow> nat" where
  "count_encoding e counts =
     (case EncodingToInt (en_encoding e) of Inl _ \<Rightarrow> counts
      | Inr i \<Rightarrow> counts(i := (counts i + 1) mod TWO32))"

definition PickDefaultEncoding :: "patch_map \<Rightarrow> patch_encoding" where
  "PickDefaultEncoding patch_map =
     (let counts = fold count_encoding patch_map (\<lambda>_. 0)
      in if counts 2 \<le> counts 1 \<and> counts 3 \<le> counts 1 then TABLE_KEYED_FULL
         else if counts 1 \<le> counts 2 \<and> counts 3 \<le> counts 2 then TABLE_KEYED_PARTIAL
         else GLYPH_KEYED)"

definition NumEntries :: "patch_map \<Rightarrow> int" where
  "NumEntries entries = to_unsigned 32 (int (length entries))"

section \<open>Codepoints\<close>

text \<open>\<^verbatim>\<open>SparseBitSet::Encode\<close>; \<open>Encode_auto\<close> is never \<open>None\<close> (lemma \<open>SparseBitSet_Encode_Some\<close>).\<close>

definition SparseBitSet_Encode :: "(nat \<Rightarrow> nat) \<Rightarrow> int_set \<Rightarrow> bytes" where
  "SparseBitSet_Encode conv S = (case Encode_auto conv S of Some bytes \<Rightarrow> bytes | None \<Rightarrow> [])"

definition EncodeCodepoints :: "(nat \<Rightarrow> nat) \<Rightarrow> nat \<Rightarrow> coverage \<Rightarrow> bytes \<Rightarrow> bytes" where
  "EncodeCodepoints conv bias_bytes coverage out =
     (let max_bias = 2 ^ (bias_bytes * 8) - 1;
          bias = min (SmallestCodepoint coverage) max_bias;
          biased_set = fold (\<lambda>cp s. IntSet_insert (sub32 cp bias) s)
            (to_vector (cov_codepoints coverage)) IntSet_empty;
          sparse_bit_set = SparseBitSet_Encode conv biased_set;
          out = (if bias_bytes = 2 then WriteUInt16 (int bias) out
                 else if bias_bytes = 3 then WriteUInt24 (int bias) out else out)
      in out @ sparse_bit_set)"

text \<open>The shortest of the three, the first one on a tie.\<close>

definition BiasBytes_step :: "(nat \<Rightarrow> nat) \<Rightarrow> coverage \<Rightarrow> nat \<Rightarrow> nat option \<times> nat \<Rightarrow> nat option \<times> nat" where
  "BiasBytes_step conv coverage bias_bytes = (\<lambda>(least, result).
     let n = length (EncodeCodepoints conv bias_bytes coverage [])
     in if (case least of None \<Rightarrow> True | Some m \<Rightarrow> n < m) then (Some n, bias_bytes) else (least, result))"

definition BiasBytes :: "(nat \<Rightarrow> nat) \<Rightarrow> coverage \<Rightarrow> nat" where
  "BiasBytes conv coverage = snd (fold (BiasBytes_step conv coverage) [0, 2, 3] (None, 0))"

definition BiasFormat :: "nat \<Rightarrow> int" where
  "BiasFormat bias_bytes =
     (if bias_bytes = 2 then two_byte_bias else if bias_bytes = 3 then three_byte_bias else no_bias)"

section \<open>Axis segments\<close>

definition EncodeAxisSegment ::
  "(int \<Rightarrow> int) \<Rightarrow> hb_tag \<Rightarrow> axis_range \<Rightarrow> bytes \<Rightarrow> bytes status_or" where
  "EncodeAxisSegment conv tag rng out =
     TRY (WRITE_FIXED conv (ar_start rng) (WriteUInt32 (int tag) out)) (WRITE_FIXED conv (ar_end rng))"

definition DecodeAxisSegment :: "(int \<Rightarrow> rat) \<Rightarrow> bytes \<Rightarrow> (hb_tag \<times> axis_range) status_or" where
  "DecodeAxisSegment to_float data =
     TRY (ReadUInt32 data) (\<lambda>tag_v.
     TRY (ReadFixed to_float (drop 4 data)) (\<lambda>start.
     TRY (ReadFixed to_float (drop 8 data)) (\<lambda>end'.
     TRY (AR_Range start end') (\<lambda>rng. Inr (nat tag_v, rng)))))"

section \<open>Patch indices\<close>

text \<open>The loop of \<^verbatim>\<open>EncodeEntryIds\<close>; one round is \<open>EncodeEntryId\<close>.\<close>

definition EncodeEntryId :: "int \<Rightarrow> int \<Rightarrow> bool \<Rightarrow> bytes \<Rightarrow> bytes status_or" where
  "EncodeEntryId last_entry_index entry_index is_last out =
     (let next_delta = (entry_index - (last_entry_index + 1)) * 2;
          next_delta = (if is_last then next_delta
                        else if 0 \<le> next_delta then next_delta + 1 else next_delta - 1)
      in WRITE_INT24 next_delta out)"

fun EncodeEntryIds :: "int \<Rightarrow> nat list \<Rightarrow> bytes \<Rightarrow> bytes status_or" where
  "EncodeEntryIds last_entry_index [] out = Inr out"
| "EncodeEntryIds last_entry_index (entry_index # patch_indices) out =
     TRY (EncodeEntryId last_entry_index (int entry_index) (patch_indices = []) out)
       (EncodeEntryIds (int entry_index) patch_indices)"

section \<open>Entries\<close>

definition has_delta :: "entry \<Rightarrow> nat \<Rightarrow> bool" where
  "has_delta entry last_entry_index \<longleftrightarrow>
     int (hd (en_patch_indices entry)) - (int last_entry_index + 1) \<noteq> 0 \<or>
     1 < length (en_patch_indices entry)"

definition has_features_or_design_space :: "coverage \<Rightarrow> bool" where
  "has_features_or_design_space c \<longleftrightarrow> cov_features c \<noteq> [] \<or> cov_design_space c \<noteq> []"

definition entry_format :: "(nat \<Rightarrow> nat) \<Rightarrow> entry \<Rightarrow> nat \<Rightarrow> patch_encoding \<Rightarrow> int" where
  "entry_format conv entry last_entry_index default_encoding =
     (let coverage = en_coverage entry in
      (if has_features_or_design_space coverage then features_and_design_space_bit_mask else 0) OR
      (if \<not> IntSet_is_empty (cov_child_indices coverage) then child_indices_bit_mask else 0) OR
      (if has_delta entry last_entry_index then index_delta_bit_mask else 0) OR
      (if en_encoding entry \<noteq> default_encoding then encoding_bit_mask else 0) OR
      (if \<not> IntSet_is_empty (cov_codepoints coverage)
       then codepoint_bit_mask AND BiasFormat (BiasBytes conv coverage) else 0) OR
      (if en_ignored entry then ignore_bit_mask else 0))"

definition EncodeFeatures :: "(int \<Rightarrow> int) \<Rightarrow> coverage \<Rightarrow> bytes \<Rightarrow> bytes status_or" where
  "EncodeFeatures fconv coverage out =
     TRY (WRITE_UINT8 (int (length (cov_features coverage))) out) (\<lambda>out.
     TRY (WRITE_UINT16 (int (length (cov_design_space coverage)))
           (fold (\<lambda>tag. WriteUInt32 (int tag)) (cov_features coverage) out)) (\<lambda>out.
     TRY_fold (\<lambda>(tag, rng). EncodeAxisSegment fconv tag rng) (cov_design_space coverage) out))"

definition EncodeChildIndices :: "coverage \<Rightarrow> bytes \<Rightarrow> bytes status_or" where
  "EncodeChildIndices coverage out =
     (if 127 < IntSet_size (cov_child_indices coverage) then Inl InvalidArgumentError
      else let count = to_unsigned 8 (int (IntSet_size (cov_child_indices coverage)));
               count = (if cov_conjunctive coverage then count OR 128 else count)
           in TRY_fold (\<lambda>index. WRITE_UINT24 (int index)) (to_vector (cov_child_indices coverage))
                (WriteUInt8 count out))"

definition EncodeEntry ::
  "(nat \<Rightarrow> nat) \<Rightarrow> (int \<Rightarrow> int) \<Rightarrow> entry \<Rightarrow> nat \<Rightarrow> patch_encoding \<Rightarrow> bytes \<Rightarrow> bytes status_or" where
  "EncodeEntry conv fconv entry last_entry_index default_encoding out =
     (let coverage = en_coverage entry;
          bias_bytes = BiasBytes conv coverage;
          out = WriteUInt8 (entry_format conv entry last_entry_index default_encoding) out
      in TRY (if has_features_or_design_space coverage then EncodeFeatures fconv coverage out else Inr out) (\<lambda>out.
         TRY (if \<not> IntSet_is_empty (cov_child_indices coverage) then EncodeChildIndices coverage out
              else Inr out) (\<lambda>out.
         TRY (if has_delta entry last_entry_index
              then EncodeEntryIds (int last_entry_index) (en_patch_indices entry) out else Inr out) (\<lambda>out.
         TRY (if en_encoding entry \<noteq> default_encoding
              then TRY (EncodingToInt (en_encoding entry)) (\<lambda>v. Inr (WriteUInt8 v out)) else Inr out) (\<lambda>out.
         if \<not> IntSet_is_empty (cov_codepoints coverage)
         then Inr (EncodeCodepoints conv bias_bytes coverage out) else Inr out)))))"

fun EncodeEntries_from ::
  "(nat \<Rightarrow> nat) \<Rightarrow> (int \<Rightarrow> int) \<Rightarrow> nat \<Rightarrow> entry list \<Rightarrow> patch_encoding \<Rightarrow> bytes \<Rightarrow> bytes status_or" where
  "EncodeEntries_from conv fconv last_entry_index [] default_encoding out = Inr out"
| "EncodeEntries_from conv fconv last_entry_index (entry # entries) default_encoding out =
     (if en_patch_indices entry = []
      then EncodeEntries_from conv fconv last_entry_index entries default_encoding out
      else TRY (EncodeEntry conv fconv entry last_entry_index default_encoding out)
        (EncodeEntries_from conv fconv (last (en_patch_indices entry)) entries default_encoding))"

definition EncodeEntries ::
  "(nat \<Rightarrow> nat) \<Rightarrow> (int \<Rightarrow> int) \<Rightarrow> entry list \<Rightarrow> patch_encoding \<Rightarrow> bytes \<Rightarrow> bytes status_or" where
  "EncodeEntries conv fconv entries default_encoding out =
     EncodeEntries_from conv fconv 0 entries default_encoding out"

definition EstimateEncodingCost :: "(nat \<Rightarrow> nat) \<Rightarrow> (int \<Rightarrow> int) \<Rightarrow> entry \<Rightarrow> nat status_or" where
  "EstimateEncodingCost conv fconv entry =
     (let dummy_entry = (if en_patch_indices entry = [] then entry\<lparr>en_patch_indices := [1]\<rparr> else entry)
      in TRY (EncodeEntry conv fconv dummy_entry 0 TABLE_KEYED_FULL []) (\<lambda>out. Inr (length out)))"

section \<open>The table\<close>

definition offset_field :: "nat option \<Rightarrow> bytes \<Rightarrow> bytes" where
  "offset_field charstrings_offset out =
     (case charstrings_offset of None \<Rightarrow> out | Some o' \<Rightarrow> WriteUInt32 (int o') out)"

definition header_min_length :: int where "header_min_length = 35"

definition Serialize ::
  "(nat \<Rightarrow> nat) \<Rightarrow> (int \<Rightarrow> int) \<Rightarrow> ift_table \<Rightarrow> nat option \<Rightarrow> nat option \<Rightarrow> bytes status_or" where
  "Serialize conv fconv ift_table cff_charstrings_offset cff2_charstrings_offset =
     (let patch_map = it_patch_map ift_table;
          out = WriteUInt24 0 (WriteUInt8 2 []);
          flags = (if cff_charstrings_offset \<noteq> None then 1 else 0) OR
                  (if cff2_charstrings_offset \<noteq> None then 2 else 0);
          out = CompatId_WriteTo (it_id ift_table) (WriteUInt8 flags out);
          default_encoding = PickDefaultEncoding patch_map
      in TRY (EncodingToInt default_encoding) (\<lambda>encoding_value.
         TRY (WRITE_UINT24 (NumEntries patch_map) (WriteUInt8 encoding_value out)) (\<lambda>out.
         let url_template = it_url_template ift_table;
             optional_offsets_size = (if cff_charstrings_offset \<noteq> None then 4 else 0) +
                                     (if cff2_charstrings_offset \<noteq> None then 4 else 0);
             out = WriteUInt32 (header_min_length + int (length url_template) + optional_offsets_size) out;
             out = WriteUInt32 0 out
         in TRY (WRITE_UINT16 (int (length url_template)) out) (\<lambda>out.
         let out = offset_field cff2_charstrings_offset
                     (offset_field cff_charstrings_offset (out @ url_template))
         in EncodeEntries conv fconv patch_map default_encoding out))))"

lemma SparseBitSet_Encode_Some: "Encode_auto conv S = Some (SparseBitSet_Encode conv S)"
proof (cases "members S = {}")
  case True
  then show ?thesis by (simp add: SparseBitSet_Encode_def Encode_auto_def)
next
  case False
  then show ?thesis using Encode_auto_roundtrip_aux [OF False, of conv "[]" IntSet_empty]
    by (auto simp: SparseBitSet_Encode_def)
qed

end
