(* ===== verification/Format_2_Decode.thy ===== *)
theory Format_2_Decode
  imports Font_Ints Format_2
begin

text \<open>
  A reference parser of the format 2 patch map, written after the IFT specification that the
  encoder cites, and the proof that it reads back what the encoder of \<open>Format_2\<close> writes: field
  by field, entry by entry, and the whole table.
\<close>

unbundle bit_operations_syntax

section \<open>Fields\<close>

abbreviation u8 :: "int parser" where "u8 \<equiv> getp ReadUInt8 1"
abbreviation u16 :: "int parser" where "u16 \<equiv> getp ReadUInt16 2"
abbreviation u24 :: "int parser" where "u24 \<equiv> getp ReadUInt24 3"
abbreviation u32 :: "int parser" where "u32 \<equiv> getp ReadUInt32 4"
abbreviation i32 :: "int parser" where "i32 \<equiv> getp ReadInt32 4"

text \<open>The source has no reader of 24 bit signed integers; the specification has.\<close>

definition ReadInt24 :: "bytes \<Rightarrow> int status_or" where "ReadInt24 = ReadInt 24 (to_signed 24)"

abbreviation i24 :: "int parser" where "i24 \<equiv> getp ReadInt24 3"

interpretation s24: int_codec WriteInt24 ReadInt24 3 "\<lambda>v. - (2 ^ 23) \<le> v \<and> v < 2 ^ 23"
proof
  fix v :: int and out rest assume v: "- (2 ^ 23) \<le> v \<and> v < 2 ^ 23"
  have "to_signed 32 v = v" using v by (subst to_signed_eq) simp_all
  moreover have "to_signed 24 v = v" using v by (subst to_signed_eq) simp_all
  ultimately show "ReadInt24 (drop (length out) (WriteInt24 v out @ rest)) = Inr v"
    using ReadInt_write [of "to_signed 24" v 3 v out rest] to_signed_mod [of 24 v]
    by (simp add: ReadInt24_def WriteInt24_def)
next
  fix bs v assume "ReadInt24 bs = Inr v"
  then obtain r where "v = to_signed 24 r"
    using ReadInt_result [of 3 "to_signed 24" bs v] by (auto simp: ReadInt24_def)
  then show "- (2 ^ 23) \<le> v \<and> v < 2 ^ 23" using to_signed_range [of 24 r] by simp
next
  show "length (WriteInt24 v out) = length out + 3" for v out
    using WriteInt_length [of 3] by (simp add: WriteInt24_def)
  show "take (length out) (WriteInt24 v out) = out" for v out
    using WriteInt_out [of out 3] by (simp add: WriteInt24_def)
  show "(length bs < 3) = (ReadInt24 bs = Inl InvalidArgumentError)" for bs
    using ReadInt_short [of bs 3] by (simp add: ReadInt24_def)
qed

text \<open>The checked writes.\<close>

lemma WRITE_UINT8_reads: "reads_back (WRITE_UINT8 v) u8 v"
proof (cases "0 \<le> v \<and> v < 2 ^ 8")
  case True
  then have "WRITE_UINT8 v = (\<lambda>out. Inr (WriteUInt8 v out))"
    by (auto simp: WRITE_UINT8_def WillIntOverflow_def to_unsigned_eq)
  with u8.parses_back [OF True] show ?thesis by simp
qed (auto simp: WRITE_UINT8_def WillIntOverflow_def to_unsigned_eq reads_back_def)

lemma WRITE_UINT16_reads: "reads_back (WRITE_UINT16 v) u16 v"
proof (cases "0 \<le> v \<and> v < 2 ^ 16")
  case True
  then have "WRITE_UINT16 v = (\<lambda>out. Inr (WriteUInt16 v out))"
    by (auto simp: WRITE_UINT16_def WillIntOverflow_def to_unsigned_eq)
  with u16.parses_back [OF True] show ?thesis by simp
qed (auto simp: WRITE_UINT16_def WillIntOverflow_def to_unsigned_eq reads_back_def)

lemma WRITE_UINT24_reads:
  assumes "0 \<le> v" and "v < 2 ^ 64" shows "reads_back (WRITE_UINT24 v) u24 v"
proof (cases "v < 2 ^ 24")
  case True
  have "to_unsigned 64 v = v" using assms by (simp add: to_unsigned_eq)
  then have "WRITE_UINT24 v = (\<lambda>out. Inr (WriteUInt24 v out))"
    using True by (auto simp: WRITE_UINT24_def)
  with u24.parses_back [of v] True assms show ?thesis by simp
next
  case False
  have "to_unsigned 64 v = v" using assms by (simp add: to_unsigned_eq)
  with False show ?thesis by (simp add: WRITE_UINT24_def reads_back_def)
qed

lemma WRITE_INT24_reads: "reads_back (WRITE_INT24 v) i24 v"
proof (cases "- (2 ^ 23) \<le> v \<and> v < 2 ^ 23")
  case True
  then have "WRITE_INT24 v = (\<lambda>out. Inr (WriteInt24 v out))"
    by (auto simp: WRITE_INT24_def)
  with s24.parses_back [OF True] show ?thesis by simp
qed (auto simp: WRITE_INT24_def reads_back_def)

text \<open>A \<open>float\<close> whose product with \<open>2 ^ 16\<close> fits 64 bits, for which the conversions are defined.\<close>

definition fixed_defined :: "rat \<Rightarrow> bool" where
  "fixed_defined x \<longleftrightarrow> - (2 ^ 63) \<le> roundf (x * 2 ^ 16) \<and> roundf (x * 2 ^ 16) < 2 ^ 63"

lemma WRITE_FIXED_eq:
  assumes "fixed_defined x"
  shows "WRITE_FIXED conv x = (\<lambda>out. if - (2 ^ 31) \<le> roundf (x * 2 ^ 16) \<and> roundf (x * 2 ^ 16) < 2 ^ 31
    then Inr (WriteInt32 (roundf (x * 2 ^ 16)) out) else Inl InvalidArgumentError)"
proof -
  define i where "i = roundf (x * 2 ^ 16)"
  have f: "float_to_signed 64 conv i = i"
    using assms by (simp add: float_to_signed_def fixed_defined_def i_def)
  have "to_signed 32 i = i \<longleftrightarrow> - (2 ^ 31) \<le> i \<and> i < 2 ^ 31" by (subst to_signed_eq) simp_all
  moreover have "float_to_signed 32 conv i = i" if "- (2 ^ 31) \<le> i \<and> i < 2 ^ 31"
    using that by (simp add: float_to_signed_def)
  ultimately show ?thesis
    unfolding WRITE_FIXED_def WillFixedOverflow_def WriteFixed_def WillIntOverflow_def i_def [symmetric] f by auto
qed

lemma WRITE_FIXED_reads:
  assumes "fixed_defined x" shows "reads_back (WRITE_FIXED conv x) i32 (roundf (x * 2 ^ 16))"
proof (cases "- (2 ^ 31) \<le> roundf (x * 2 ^ 16) \<and> roundf (x * 2 ^ 16) < 2 ^ 31")
  case True
  then show ?thesis using i32.parses_back [OF True] by (simp add: WRITE_FIXED_eq [OF assms])
next
  case False
  then show ?thesis unfolding WRITE_FIXED_eq [OF assms] if_not_P [OF False] by (simp add: reads_back_def)
qed

section \<open>The reference parser\<close>

record mapped_entry =
  me_features :: "int list"
  me_segments :: "(int \<times> int \<times> int) list"
  me_children :: "int list"
  me_conjunctive :: bool
  me_ids :: "int list"
  me_encoding :: patch_encoding
  me_codepoints :: int_set
  me_ignored :: bool

definition segment_parser :: "(int \<times> int \<times> int) parser" where
  "segment_parser = bindp u32 (\<lambda>tag. bindp i32 (\<lambda>s. bindp i32 (\<lambda>e. returnp (tag, s, e))))"

definition features_parser :: "(int list \<times> (int \<times> int \<times> int) list) parser" where
  "features_parser = bindp u8 (\<lambda>n. bindp (manyp (nat n) u32) (\<lambda>fs.
     bindp u16 (\<lambda>k. bindp (manyp (nat k) segment_parser) (\<lambda>ds. returnp (fs, ds)))))"

definition children_parser :: "(int list \<times> bool) parser" where
  "children_parser = bindp u8 (\<lambda>c. bindp (manyp (nat (c AND 127)) u24) (\<lambda>cs. returnp (cs, bit c 7)))"

text \<open>
  Deltas are halved towards zero; an odd one has a successor. The fuel is the number of bytes: every
  delta takes three.
\<close>

definition half :: "int \<Rightarrow> int" where
  "half d = (if 0 \<le> d then d div 2 else - ((- d) div 2))"

fun ids_parser_fuel :: "nat \<Rightarrow> int \<Rightarrow> int list parser" where
  "ids_parser_fuel 0 last_id bs = Inl InvalidArgumentError"
| "ids_parser_fuel (Suc fuel) last_id bs = TRY (i24 bs) (\<lambda>(d, bs').
     let x = last_id + 1 + half d
     in if odd d then TRY (ids_parser_fuel fuel x bs') (\<lambda>(xs, bs''). Inr (x # xs, bs''))
        else Inr ([x], bs'))"

definition ids_parser :: "int \<Rightarrow> int list parser" where
  "ids_parser last_id bs = ids_parser_fuel (length bs) last_id bs"

definition encoding_parser :: "patch_encoding parser" where
  "encoding_parser = bindp u8 (\<lambda>v. if v = 1 then returnp TABLE_KEYED_FULL
     else if v = 2 then returnp TABLE_KEYED_PARTIAL else if v = 3 then returnp GLYPH_KEYED
     else (\<lambda>_. Inl InvalidArgumentError))"

definition set_parser :: "int_set parser" where
  "set_parser bs = (case Decode bs IntSet_empty of (Inl e, _) \<Rightarrow> Inl e | (Inr rest, S) \<Rightarrow> Inr (S, rest))"

definition codepoints_parser :: "int \<Rightarrow> int_set parser" where
  "codepoints_parser format = bindp
     (if bit format 5 then if bit format 4 then u24 else u16 else returnp 0) (\<lambda>bias.
     bindp set_parser (\<lambda>S. returnp (IntSet (map (\<lambda>x. x + nat bias) (to_vector S)))))"

definition entry_parser :: "patch_encoding \<Rightarrow> int \<Rightarrow> mapped_entry parser" where
  "entry_parser default_encoding last_id = bindp u8 (\<lambda>format.
     bindp (if bit format 0 then features_parser else returnp ([], [])) (\<lambda>(fs, ds).
     bindp (if bit format 1 then children_parser else returnp ([], False)) (\<lambda>(cs, conj).
     bindp (if bit format 2 then ids_parser last_id else returnp [last_id + 1]) (\<lambda>ids.
     bindp (if bit format 3 then encoding_parser else returnp default_encoding) (\<lambda>enc.
     bindp (if bit format 4 \<or> bit format 5 then codepoints_parser format else returnp IntSet_empty) (\<lambda>S.
     returnp \<lparr>me_features = fs, me_segments = ds, me_children = cs, me_conjunctive = conj, me_ids = ids,
       me_encoding = enc, me_codepoints = S, me_ignored = bit format 6\<rparr>))))))"

fun entries_parser :: "nat \<Rightarrow> patch_encoding \<Rightarrow> int \<Rightarrow> mapped_entry list parser" where
  "entries_parser 0 default_encoding last_id = returnp []"
| "entries_parser (Suc n) default_encoding last_id = bindp (entry_parser default_encoding last_id) (\<lambda>e.
     bindp (entries_parser n default_encoding (last (me_ids e))) (\<lambda>es. returnp (e # es)))"

text \<open>What the parser is to return for an entry: axis bounds in 16.16 fixed point.\<close>

definition segment_image :: "hb_tag \<times> axis_range \<Rightarrow> int \<times> int \<times> int" where
  "segment_image = (\<lambda>(tag, r). (int tag, roundf (ar_start r * 2 ^ 16), roundf (ar_end r * 2 ^ 16)))"

definition entry_image :: "entry \<Rightarrow> mapped_entry" where
  "entry_image e = (let c = en_coverage e in
     \<lparr>me_features = map int (cov_features c), me_segments = map segment_image (cov_design_space c),
      me_children = map int (to_vector (cov_child_indices c)),
      me_conjunctive = (cov_conjunctive c \<and> members (cov_child_indices c) \<noteq> {}),
      me_ids = map int (en_patch_indices e), me_encoding = en_encoding e,
      me_codepoints = cov_codepoints c, me_ignored = en_ignored e\<rparr>)"

section \<open>Stage by stage\<close>

lemma plain_reads:
  assumes "t < TWO32" shows "reads_back (\<lambda>out. Inr (WriteUInt32 (int t) out)) u32 (int t)"
  using assms by (intro u32.parses_back) simp

lemma segment_reads:
  assumes "tag < TWO32" and "fixed_defined (ar_start r)" and "fixed_defined (ar_end r)"
  shows "reads_back (EncodeAxisSegment fconv tag r) segment_parser (segment_image (tag, r))"
proof -
  have "EncodeAxisSegment fconv tag r = (\<lambda>out. TRY (Inr (WriteUInt32 (int tag) out)) (\<lambda>out.
      TRY (WRITE_FIXED fconv (ar_start r) out) (\<lambda>out. TRY (WRITE_FIXED fconv (ar_end r) out) Inr)))"
  proof
    fix out
    have "TRY m Inr = m" for m :: "bytes status_or" by (cases m) simp_all
    then show "EncodeAxisSegment fconv tag r out = TRY (Inr (WriteUInt32 (int tag) out)) (\<lambda>out.
      TRY (WRITE_FIXED fconv (ar_start r) out) (\<lambda>out. TRY (WRITE_FIXED fconv (ar_end r) out) Inr))"
      by (simp add: EncodeAxisSegment_def)
  qed
  moreover have "reads_back (\<lambda>out. TRY (Inr (WriteUInt32 (int tag) out)) (\<lambda>out.
      TRY (WRITE_FIXED fconv (ar_start r) out) (\<lambda>out. TRY (WRITE_FIXED fconv (ar_end r) out) Inr)))
      segment_parser (segment_image (tag, r))"
    unfolding segment_parser_def segment_image_def prod.case
    by (rule reads_back_bind [OF plain_reads [OF assms(1)]], rule reads_back_bind [OF WRITE_FIXED_reads [OF assms(2)]],
        rule reads_back_bind [OF WRITE_FIXED_reads [OF assms(3)] reads_back_return])
  ultimately show ?thesis by (simp only:)
qed

definition segments_defined :: "coverage \<Rightarrow> bool" where
  "segments_defined c \<longleftrightarrow>
     (\<forall>r \<in> snd ` set (cov_design_space c). fixed_defined (ar_start r) \<and> fixed_defined (ar_end r))"

lemma features_reads:
  assumes "\<forall>t \<in> set (cov_features c). t < TWO32" and "\<forall>t \<in> fst ` set (cov_design_space c). t < TWO32"
    and "segments_defined c"
  shows "reads_back (EncodeFeatures fconv c) features_parser
    (map int (cov_features c), map segment_image (cov_design_space c))"
proof -
  let ?F = "TRY_fold (\<lambda>tag out. Inr (WriteUInt32 (int tag) out)) (cov_features c)"
  let ?D = "TRY_fold (\<lambda>(tag, rng). EncodeAxisSegment fconv tag rng) (cov_design_space c)"
  let ?W = "\<lambda>out. TRY (WRITE_UINT8 (int (length (cov_features c))) out) (\<lambda>out. TRY (?F out) (\<lambda>out.
      TRY (WRITE_UINT16 (int (length (cov_design_space c))) out) (\<lambda>out. TRY (?D out) Inr)))"
  have "TRY m Inr = m" for m :: "bytes status_or" by (cases m) simp_all
  then have "EncodeFeatures fconv c = ?W"
    by (intro ext) (simp add: EncodeFeatures_def fold_eq_TRY_fold)
  moreover have F: "reads_back ?F (manyp (length (cov_features c)) u32) (map int (cov_features c))"
    using assms(1) by (intro reads_back_many plain_reads) blast
  moreover have D: "reads_back ?D (manyp (length (cov_design_space c)) segment_parser)
      (map segment_image (cov_design_space c))"
  proof (intro reads_back_many)
    fix x assume x: "x \<in> set (cov_design_space c)"
    show "reads_back ((\<lambda>(tag, rng). EncodeAxisSegment fconv tag rng) x) segment_parser (segment_image x)"
    proof (cases x)
      case (Pair tag r)
      then have "tag < TWO32" "fixed_defined (ar_start r)" "fixed_defined (ar_end r)"
        using assms(2,3) x by (force simp: segments_defined_def)+
      with Pair show ?thesis using segment_reads by simp
    qed
  qed
  moreover have "reads_back ?W features_parser
      (map int (cov_features c), map segment_image (cov_design_space c))"
    unfolding features_parser_def
    by (rule reads_back_bind [OF WRITE_UINT8_reads], unfold nat_int, rule reads_back_bind [OF F],
        rule reads_back_bind [OF WRITE_UINT16_reads], unfold nat_int, rule reads_back_bind [OF D reads_back_return])
  ultimately show ?thesis by (simp only:)
qed

lemma children_reads:
  assumes "members (cov_child_indices c) \<noteq> {}"
  shows "reads_back (EncodeChildIndices c) children_parser
    (map int (to_vector (cov_child_indices c)), cov_conjunctive c)"
proof (cases "127 < IntSet_size (cov_child_indices c)")
  case True
  then show ?thesis by (simp add: EncodeChildIndices_def reads_back_def)
next
  case False
  define n where "n = length (to_vector (cov_child_indices c))"
  define v where "v = (if cov_conjunctive c then int n OR 128 else int n)"
  have n: "n \<le> 127" using False by (simp add: n_def IntSet_size_def)
  have "to_unsigned 8 (int n) = int n" using n by (simp add: to_unsigned_eq)
  have tb: "take_bit m (int n) = int n" if "7 \<le> m" for m
  proof -
    have "(128::int) \<le> 2 ^ m" using that power_increasing [of 7 m "2::int"] by simp
    moreover have "int n \<le> 127" using n by simp
    ultimately have "int n < 2 ^ m" by linarith
    then show ?thesis by (simp add: take_bit_eq_mod)
  qed
  have "int n AND 127 = int n"
    using tb [of 7] take_bit_eq_mask [of 7 "int n"] by (simp add: mask_eq_exp_minus_1)
  then have low: "v AND 127 = int n" by (simp add: v_def bit.conj_disj_distrib2)
  have "\<not> bit (int n) 7"
    using tb [of 7] by (metis bit_take_bit_iff less_irrefl order_refl)
  then have top: "bit v 7 = cov_conjunctive c" by (simp add: v_def bit_or_iff)
  have "take_bit 8 v = v" using tb [of 8] by (simp add: v_def)
  then have v: "0 \<le> v \<and> v < 2 ^ 8" by (metis take_bit_nonnegative take_bit_int_less_exp)
  let ?W = "\<lambda>out. TRY (Inr (WriteUInt8 v out)) (\<lambda>out.
      TRY (TRY_fold (\<lambda>index. WRITE_UINT24 (int index)) (to_vector (cov_child_indices c)) out) Inr)"
  have "TRY m Inr = m" for m :: "bytes status_or" by (cases m) simp_all
  then have "EncodeChildIndices c = ?W"
    using False \<open>to_unsigned 8 (int n) = int n\<close>
    by (intro ext) (simp add: EncodeChildIndices_def Let_def n_def IntSet_size_def v_def)
  moreover have many: "reads_back (TRY_fold (\<lambda>index. WRITE_UINT24 (int index)) (to_vector (cov_child_indices c)))
      (manyp (length (to_vector (cov_child_indices c))) u24) (map int (to_vector (cov_child_indices c)))"
  proof (intro reads_back_many WRITE_UINT24_reads)
    fix x assume "x \<in> set (to_vector (cov_child_indices c))"
    then have "x < UINT32_MAX" using members_bound by simp
    then show "int x < 2 ^ 64" by simp
  qed simp
  moreover have "reads_back ?W children_parser (map int (to_vector (cov_child_indices c)), cov_conjunctive c)"
    unfolding children_parser_def
    by (rule reads_back_bind [OF u8.parses_back [OF v]], unfold low nat_int top n_def,
        rule reads_back_bind [OF many reads_back_return])
  ultimately show ?thesis by (simp only:)
qed

lemma half_delta: "half (2 * d) = d" "0 \<le> d \<Longrightarrow> half (2 * d + 1) = d" "d < 0 \<Longrightarrow> half (2 * d - 1) = d"
  unfolding half_def by presburger+

lemma EncodeEntryId_reads:
  "\<exists>d. reads_back (EncodeEntryId last_id x is_last) i24 d \<and> last_id + 1 + half d = x \<and> odd d = (\<not> is_last)"
proof -
  define e where "e = x - (last_id + 1)"
  define d where "d = (if is_last then 2 * e else if 0 \<le> e then 2 * e + 1 else 2 * e - 1)"
  have "EncodeEntryId last_id x is_last = WRITE_INT24 d"
    by (rule ext) (simp add: EncodeEntryId_def Let_def d_def e_def mult.commute)
  moreover have "half d = e" using half_delta [of e] by (simp add: d_def)
  moreover have "odd d = (\<not> is_last)" by (simp add: d_def)
  ultimately show ?thesis using WRITE_INT24_reads by (intro exI [of _ d]) (simp add: e_def)
qed

lemma i24_shorter: "i24 bs = Inr (d, bs') \<Longrightarrow> length bs = 3 + length bs'"
  using s24.read_short [of bs] by (auto simp: getp_def TRY_eq_Inr not_less)

lemma ids_fuel_enough:
  assumes "length bs \<le> fuel" and "length bs \<le> fuel'"
  shows "ids_parser_fuel fuel last_id bs = ids_parser_fuel fuel' last_id bs"
  using assms
proof (induction fuel arbitrary: fuel' last_id bs)
  case 0
  then have "bs = []" by simp
  moreover have "i24 [] = Inl InvalidArgumentError"
    using s24.read_short [of "[]"] by (simp add: getp_def)
  ultimately show ?case by (cases fuel') simp_all
next
  case (Suc fuel)
  show ?case
  proof (cases "i24 bs")
    case (Inl e)
    then show ?thesis using Suc.prems s24.read_short [of bs]
      by (cases fuel') (auto simp: getp_def TRY_eq_Inl)
  next
    case (Inr r)
    obtain d bs' where r: "r = (d, bs')" by fastforce
    have len: "length bs = 3 + length bs'" using i24_shorter Inr r by simp
    then obtain f' where f': "fuel' = Suc f'" using Suc.prems by (cases fuel') simp_all
    have "ids_parser_fuel fuel x bs' = ids_parser_fuel f' x bs'" for x
      using Suc.prems len f' by (intro Suc.IH) simp_all
    then show ?thesis using Inr r f' by (simp add: Let_def)
  qed
qed

text \<open>Unfolding the parser of ids without its fuel.\<close>

lemma ids_parser_unfold:
  "ids_parser last_id = bindp i24 (\<lambda>d. let x = last_id + 1 + half d in
     if odd d then bindp (ids_parser x) (\<lambda>xs. returnp (x # xs)) else returnp [x])"
proof
  fix bs
  show "ids_parser last_id bs = bindp i24 (\<lambda>d. let x = last_id + 1 + half d in
     if odd d then bindp (ids_parser x) (\<lambda>xs. returnp (x # xs)) else returnp [x]) bs"
  proof (cases "i24 bs")
    case (Inl e)
    have "ids_parser last_id bs = ids_parser_fuel (Suc (length bs)) last_id bs"
      unfolding ids_parser_def by (rule ids_fuel_enough) simp_all
    with Inl show ?thesis by (simp add: bindp_def)
  next
    case (Inr r)
    obtain d bs' where r: "r = (d, bs')" by fastforce
    have len: "length bs = 3 + length bs'" using i24_shorter Inr r by simp
    have "ids_parser last_id bs = ids_parser_fuel (Suc (length bs)) last_id bs"
      unfolding ids_parser_def by (rule ids_fuel_enough) simp_all
    moreover have "ids_parser_fuel (length bs) x bs' = ids_parser x bs'" for x
      unfolding ids_parser_def by (rule ids_fuel_enough) (simp_all add: len)
    ultimately show ?thesis using Inr r by (simp add: bindp_def returnp_def Let_def)
  qed
qed

lemma ids_reads:
  "xs \<noteq> [] \<Longrightarrow> reads_back (EncodeEntryIds last_id xs) (ids_parser last_id) (map int xs)"
proof (induction xs arbitrary: last_id)
  case (Cons x xs)
  obtain d where d: "reads_back (EncodeEntryId last_id (int x) (xs = [])) i24 d"
    "last_id + 1 + half d = int x" "odd d = (xs \<noteq> [])"
    using EncodeEntryId_reads by blast
  have tail: "reads_back (EncodeEntryIds (int x) xs)
     (if odd d then bindp (ids_parser (int x)) (\<lambda>ys. returnp (int x # ys)) else returnp [int x]) (map int (x # xs))"
  proof (cases "xs = []")
    case True
    have "EncodeEntryIds (int x) [] = Inr" by (rule ext) simp
    with True d(3) reads_back_return show ?thesis by simp
  next
    case False
    have "TRY m Inr = m" for m :: "bytes status_or" by (cases m) simp_all
    then have "EncodeEntryIds (int x) xs = (\<lambda>out. TRY (EncodeEntryIds (int x) xs out) Inr)" by simp
    with reads_back_bind [OF Cons.IH [OF False] reads_back_return, of "int x" "\<lambda>ys. int x # ys"] False d(3)
    show ?thesis by simp
  qed
  have "EncodeEntryIds last_id (x # xs) =
      (\<lambda>out. TRY (EncodeEntryId last_id (int x) (xs = []) out) (EncodeEntryIds (int x) xs))"
    by (rule ext) simp
  moreover have "reads_back (\<lambda>out. TRY (EncodeEntryId last_id (int x) (xs = []) out) (EncodeEntryIds (int x) xs))
      (ids_parser last_id) (map int (x # xs))"
    unfolding ids_parser_unfold [of last_id]
    by (rule reads_back_bind [OF d(1)]) (use tail d(2) in \<open>simp add: Let_def\<close>)
  ultimately show ?case by (simp only:)
qed simp

text \<open>When a delta is rejected.\<close>

lemma EncodeEntryId_fail:
  assumes "EncodeEntryId last_id x is_last out = Inl e"
  shows "e = InvalidArgumentError \<and> 2 ^ 22 \<le> \<bar>x - (last_id + 1)\<bar>"
proof -
  define d where "d = x - (last_id + 1)"
  from assms have "WRITE_INT24 (if is_last then d * 2 else if 0 \<le> d * 2 then d * 2 + 1 else d * 2 - 1) out = Inl e"
    unfolding EncodeEntryId_def Let_def d_def .
  then have "e = InvalidArgumentError \<and> 2 ^ 22 \<le> \<bar>d\<bar>"
    by (cases is_last; cases "0 \<le> d") (auto simp: WRITE_INT24_def split: if_splits)
  then show ?thesis by (simp add: d_def)
qed

lemma ids_fail:
  assumes "EncodeEntryIds last_id xs out = Inl e"
  shows "e = InvalidArgumentError \<and> (\<exists>i < length xs.
    2 ^ 22 \<le> \<bar>int (xs ! i) - ((if i = 0 then last_id else int (xs ! (i - 1))) + 1)\<bar>)"
  using assms
proof (induction xs arbitrary: last_id out)
  case (Cons x xs)
  from Cons.prems consider "EncodeEntryId last_id (int x) (xs = []) out = Inl e"
    | out' where "EncodeEntryIds (int x) xs out' = Inl e"
    by (auto simp: TRY_eq_Inl)
  then show ?case
  proof cases
    case 1
    from EncodeEntryId_fail [OF this] show ?thesis by (intro conjI exI [of _ 0]) simp_all
  next
    case 2
    from Cons.IH [OF this] obtain i where i: "e = InvalidArgumentError" "i < length xs"
      "2 ^ 22 \<le> \<bar>int (xs ! i) - ((if i = 0 then int x else int (xs ! (i - 1))) + 1)\<bar>" by blast
    then show ?thesis by (intro conjI exI [of _ "Suc i"]) (cases i; simp)+
  qed
qed simp

lemma encoding_reads:
  "reads_back (\<lambda>out. TRY (EncodingToInt e) (\<lambda>v. Inr (WriteUInt8 v out))) encoding_parser e"
proof (cases "EncodingToInt e")
  case (Inl s)
  then show ?thesis by (simp add: reads_back_def)
next
  case (Inr v)
  then have v: "v \<in> {1, 2, 3} \<and> (v = 1 \<longrightarrow> e = TABLE_KEYED_FULL) \<and> (v = 2 \<longrightarrow> e = TABLE_KEYED_PARTIAL) \<and>
      (v = 3 \<longrightarrow> e = GLYPH_KEYED)"
    by (auto simp: EncodingToInt_def split: if_splits)
  then have "reads_back (\<lambda>out. Inr (WriteUInt8 v out)) u8 v" by (intro u8.parses_back) auto
  moreover have "reads_back Inr (if v = 1 then returnp TABLE_KEYED_FULL
     else if v = 2 then returnp TABLE_KEYED_PARTIAL else if v = 3 then returnp GLYPH_KEYED
     else (\<lambda>_. Inl InvalidArgumentError)) e"
    using v reads_back_return [of e] by auto
  ultimately have "reads_back (\<lambda>out. TRY (Inr (WriteUInt8 v out)) Inr) encoding_parser e"
    unfolding encoding_parser_def by (rule reads_back_bind)
  then show ?thesis by (simp add: Inr)
qed

section \<open>Codepoints\<close>

lemma biased_members:
  assumes "bias \<le> SmallestCodepoint c"
  shows "members (fold (\<lambda>cp s. IntSet_insert (sub32 cp bias) s) (to_vector (cov_codepoints c)) IntSet_empty) =
    (\<lambda>x. x - bias) ` members (cov_codepoints c)"
proof -
  have "fold (\<lambda>cp s. IntSet_insert (sub32 cp bias) s) xs S =
      IntSet_insert_all (map (\<lambda>x. x - bias) xs) S"
    if "\<forall>x\<in>set xs. bias \<le> x \<and> x < UINT32_MAX" for xs S
    using that unfolding IntSet_insert_all_def by (induction xs arbitrary: S) simp_all
  moreover have b: "\<forall>x\<in>set (to_vector (cov_codepoints c)). bias \<le> x \<and> x < UINT32_MAX"
    using assms SmallestCodepoint_le members_bound order_trans by fastforce
  ultimately show ?thesis by fastforce
qed

lemma unbiased:
  assumes "members T = (\<lambda>x. x - bias) ` members S" and "\<forall>x\<in>members S. bias \<le> x"
  shows "IntSet (map (\<lambda>x. x + bias) (to_vector T)) = S"
proof (rule int_set_eqI)
  have "(\<lambda>x. x + bias) ` (\<lambda>x. x - bias) ` members S = members S"
    using assms(2) by (simp add: image_comp)
  then have "set (map (\<lambda>x. x + bias) (to_vector T)) = members S" using assms(1) by simp
  then show "members (IntSet (map (\<lambda>x. x + bias) (to_vector T))) = members S"
    using members_bound by auto
qed

lemma set_parses:
  assumes "members S \<noteq> {}" shows "parses set_parser (SparseBitSet_Encode conv S) S"
proof -
  have "IntSet_union_set IntSet_empty S = S" by (rule int_set_eqI) simp
  then have "Decode (SparseBitSet_Encode conv S @ rest) IntSet_empty = (Inr rest, S)" for rest
    using Encode_auto_roundtrip_aux [OF assms, of conv rest IntSet_empty] SparseBitSet_Encode_Some by simp
  then show ?thesis by (simp add: parses_def set_parser_def)
qed

definition bias_ok :: "nat \<Rightarrow> int \<Rightarrow> bool" where
  "bias_ok bias_bytes format \<longleftrightarrow> (bias_bytes = 0 \<and> \<not> bit format 5) \<or>
     (bias_bytes = 2 \<and> bit format 5 \<and> \<not> bit format 4) \<or> (bias_bytes = 3 \<and> bit format 5 \<and> bit format 4)"

lemma codepoints_reads:
  assumes "members (cov_codepoints c) \<noteq> {}" and "bias_ok bias_bytes format"
  shows "reads_back (\<lambda>out. Inr (EncodeCodepoints conv bias_bytes c out)) (codepoints_parser format)
    (cov_codepoints c)"
proof -
  define bias where "bias = min (SmallestCodepoint c) (2 ^ (bias_bytes * 8) - 1)"
  define T where "T = fold (\<lambda>cp s. IntSet_insert (sub32 cp bias) s) (to_vector (cov_codepoints c)) IntSet_empty"
  let ?w = "\<lambda>out. if bias_bytes = 2 then WriteUInt16 (int bias) out
      else if bias_bytes = 3 then WriteUInt24 (int bias) out else out"
  let ?q = "if bit format 5 then if bit format 4 then u24 else u16 else returnp 0"
  have T: "members T = (\<lambda>x. x - bias) ` members (cov_codepoints c)"
    unfolding T_def by (rule biased_members) (simp add: bias_def)
  have le: "\<forall>x\<in>members (cov_codepoints c). bias \<le> x"
    using SmallestCodepoint_le by (fastforce simp: bias_def)
  have bias: "bias_bytes = 2 \<Longrightarrow> int bias < 2 ^ 16" "bias_bytes = 3 \<Longrightarrow> int bias < 2 ^ 24"
    "bias_bytes = 0 \<Longrightarrow> bias = 0"
    by (auto simp: bias_def)
  have bias_reads: "reads_back (\<lambda>out. Inr (?w out)) ?q (int bias)"
    using assms(2) unfolding bias_ok_def
  proof (elim disjE conjE)
    assume "bias_bytes = 0" "\<not> bit format 5"
    with bias(3) reads_back_return [of "0::int"] show ?thesis by (simp add: reads_back_def)
  next
    assume "bias_bytes = 2" "bit format 5" "\<not> bit format 4"
    with bias(1) u16.parses_back [of "int bias"] show ?thesis by simp
  next
    assume "bias_bytes = 3" "bit format 5" "bit format 4"
    with bias(2) u24.parses_back [of "int bias"] show ?thesis by simp
  qed
  have "members T \<noteq> {}" using T assms(1) by simp
  from set_parses [OF this, of conv]
  have set_reads: "reads_back (\<lambda>out. Inr (out @ SparseBitSet_Encode conv T))
      (bindp set_parser (\<lambda>S. returnp (IntSet (map (\<lambda>x. x + nat (int bias)) (to_vector S))))) (cov_codepoints c)"
    using parses_bind_return [of set_parser _ T "\<lambda>S. IntSet (map (\<lambda>x. x + nat (int bias)) (to_vector S))"]
      unbiased [OF T le] by (simp add: reads_back_def)
  have "(\<lambda>out. Inr (EncodeCodepoints conv bias_bytes c out)) =
      (\<lambda>out. TRY (Inr (?w out)) (\<lambda>out. Inr (out @ SparseBitSet_Encode conv T)))"
    by (rule ext) (simp add: EncodeCodepoints_def Let_def T_def bias_def)
  moreover have "reads_back (\<lambda>out. TRY (Inr (?w out)) (\<lambda>out. Inr (out @ SparseBitSet_Encode conv T)))
      (codepoints_parser format) (cov_codepoints c)"
    unfolding codepoints_parser_def by (rule reads_back_bind) (rule bias_reads, rule set_reads)
  ultimately show ?thesis by (simp only:)
qed

lemma BiasBytes_cases: "BiasBytes conv c \<in> {0, 2, 3}"
  by (simp add: BiasBytes_def BiasBytes_step_def Let_def split: prod.splits option.splits)

section \<open>Entries\<close>

lemma bit_if: "bit (if b then x else (0::int)) i \<longleftrightarrow> b \<and> bit x i"
  by simp

lemma take_bit_if: "take_bit n (if b then x else (0::int)) = (if b then take_bit n x else 0)"
  by simp

lemma entry_format_bits:
  fixes e :: entry
  defines "c \<equiv> en_coverage e"
  assumes "fmt = entry_format conv e last_id default_encoding"
  shows "bit fmt 0 = has_features_or_design_space c" and "bit fmt 1 = (members (cov_child_indices c) \<noteq> {})"
    and "bit fmt 2 = has_delta e last_id" and "bit fmt 3 = (en_encoding e \<noteq> default_encoding)"
    and "bit fmt 6 = en_ignored e"
    and "(bit fmt 4 \<or> bit fmt 5) = (members (cov_codepoints c) \<noteq> {})"
    and "members (cov_codepoints c) \<noteq> {} \<Longrightarrow> bias_ok (BiasBytes conv c) fmt"
    and "0 \<le> fmt \<and> fmt < 2 ^ 8"
proof -
  let ?m = "codepoint_bit_mask AND BiasFormat (BiasBytes conv c)"
  have bias: "?m = (if BiasBytes conv c = 2 then 32 else if BiasBytes conv c = 3 then 48 else 16)"
    by (simp add: format_masks BiasFormat_def)
  have fmt: "fmt = (if has_features_or_design_space c then 1 else 0) OR
      (if members (cov_child_indices c) \<noteq> {} then 2 else 0) OR (if has_delta e last_id then 4 else 0) OR
      (if en_encoding e \<noteq> default_encoding then 8 else 0) OR
      (if members (cov_codepoints c) \<noteq> {} then ?m else 0) OR (if en_ignored e then 64 else 0)"
    unfolding assms(2) entry_format_def Let_def c_def [symmetric] is_empty_iff
    by (simp only: format_masks push_bit_of_1) simp
  note b = fmt bit_or_iff bit_if
  show "bit fmt 0 = has_features_or_design_space c" "bit fmt 1 = (members (cov_child_indices c) \<noteq> {})"
    "bit fmt 2 = has_delta e last_id" "bit fmt 3 = (en_encoding e \<noteq> default_encoding)"
    "bit fmt 6 = en_ignored e"
    unfolding b bias by simp_all
  show "(bit fmt 4 \<or> bit fmt 5) = (members (cov_codepoints c) \<noteq> {})"
    unfolding b bias by simp
  show "bias_ok (BiasBytes conv c) fmt" if "members (cov_codepoints c) \<noteq> {}"
    using BiasBytes_cases [of conv c] that unfolding bias_ok_def b bias by auto
  have "take_bit 8 fmt = fmt" unfolding fmt bias take_bit_or take_bit_if by simp
  then show "0 \<le> fmt \<and> fmt < 2 ^ 8" by (metis take_bit_nonnegative take_bit_int_less_exp)
qed

text \<open>A field that is present just if its bit is set.\<close>

lemma reads_back_if:
  assumes "b \<Longrightarrow> reads_back w p x" and "\<not> b \<Longrightarrow> x = d"
  shows "reads_back (\<lambda>out. if b then w out else Inr out) (if b then p else returnp d) x"
  using assms reads_back_return [of d] by (cases b) simp_all

lemma to_vector_Nil: "to_vector s = [] \<longleftrightarrow> members s = {}"
  by (metis empty_set set_empty set_to_vector)

lemma TRY_Inr_right: "TRY m Inr = m"
  by (cases m) simp_all

lemma entry_reads:
  assumes wf: "entry_wf e" and defined: "segments_defined (en_coverage e)" and ne: "en_patch_indices e \<noteq> []"
  shows "reads_back (EncodeEntry conv fconv e last_id default_encoding)
    (entry_parser default_encoding (int last_id)) (entry_image e)"
proof -
  define c where "c = en_coverage e"
  define fmt where "fmt = entry_format conv e last_id default_encoding"
  note bits = entry_format_bits [OF fmt_def, folded c_def]
  note [simp] = bits(1-6)
  let ?w1 = "\<lambda>out. Inr (WriteUInt8 fmt out)"
  let ?w2 = "\<lambda>out. if has_features_or_design_space c then EncodeFeatures fconv c out else Inr out"
  let ?w3 = "\<lambda>out. if members (cov_child_indices c) \<noteq> {} then EncodeChildIndices c out else Inr out"
  let ?w4 = "\<lambda>out. if has_delta e last_id then EncodeEntryIds (int last_id) (en_patch_indices e) out else Inr out"
  let ?w5 = "\<lambda>out. if en_encoding e \<noteq> default_encoding
      then TRY (EncodingToInt (en_encoding e)) (\<lambda>v. Inr (WriteUInt8 v out)) else Inr out"
  let ?w6 = "\<lambda>out. if members (cov_codepoints c) \<noteq> {} then Inr (EncodeCodepoints conv (BiasBytes conv c) c out) else Inr out"
  let ?fd = "(map int (cov_features c), map segment_image (cov_design_space c))"
  let ?cc = "(map int (to_vector (cov_child_indices c)), cov_conjunctive c \<and> members (cov_child_indices c) \<noteq> {})"
  have s1: "reads_back ?w1 u8 fmt" by (rule u8.parses_back [OF bits(8)])
  have s2: "reads_back ?w2 (if bit fmt 0 then features_parser else returnp ([], [])) ?fd"
    using wf defined by (simp only: bits(1), intro reads_back_if features_reads)
      (auto simp: entry_wf_def c_def has_features_or_design_space_def)
  have s3: "reads_back ?w3 (if bit fmt 1 then children_parser else returnp ([], False)) ?cc"
    unfolding bits(2) by (rule reads_back_if) (use children_reads [of c] in \<open>auto simp: to_vector_Nil\<close>)
  have s4: "reads_back ?w4 (if bit fmt 2 then ids_parser (int last_id) else returnp [int last_id + 1])
      (map int (en_patch_indices e))"
    unfolding bits(3)
  proof (rule reads_back_if [OF ids_reads [OF ne]])
    assume "\<not> has_delta e last_id"
    with ne show "map int (en_patch_indices e) = [int last_id + 1]"
      by (cases "en_patch_indices e") (simp_all add: has_delta_def)
  qed
  have s5: "reads_back ?w5 (if bit fmt 3 then encoding_parser else returnp default_encoding) (en_encoding e)"
    unfolding bits(4) by (rule reads_back_if [OF encoding_reads]) simp
  have s6: "reads_back ?w6 (if bit fmt 4 \<or> bit fmt 5 then codepoints_parser fmt else returnp IntSet_empty)
      (cov_codepoints c)"
    unfolding bits(6) by (rule reads_back_if) (use codepoints_reads bits(7) in \<open>auto simp: int_set_eq_iff\<close>)
  have w: "EncodeEntry conv fconv e last_id default_encoding = (\<lambda>out. TRY (?w1 out) (\<lambda>out. TRY (?w2 out) (\<lambda>out.
      TRY (?w3 out) (\<lambda>out. TRY (?w4 out) (\<lambda>out. TRY (?w5 out) (\<lambda>out. TRY (?w6 out) Inr))))))"
    unfolding EncodeEntry_def Let_def c_def [symmetric] fmt_def [symmetric] TRY_Inr_right TRY.simps is_empty_iff
    by (rule refl)
  have image: "entry_image e = \<lparr>me_features = map int (cov_features c),
      me_segments = map segment_image (cov_design_space c), me_children = map int (to_vector (cov_child_indices c)),
      me_conjunctive = (cov_conjunctive c \<and> members (cov_child_indices c) \<noteq> {}),
      me_ids = map int (en_patch_indices e), me_encoding = en_encoding e, me_codepoints = cov_codepoints c,
      me_ignored = bit fmt 6\<rparr>"
    by (simp add: entry_image_def Let_def c_def bits(5) [unfolded c_def])
  show ?thesis unfolding w image entry_parser_def
    by (rule reads_back_bind [OF s1], rule reads_back_bind [OF s2], unfold prod.case,
        rule reads_back_bind [OF s3], unfold prod.case, rule reads_back_bind [OF s4],
        rule reads_back_bind [OF s5], rule reads_back_bind [OF s6 reads_back_return])
qed

text \<open>All entries of a map: those with no patch are not written.\<close>

definition entries_wf :: "entry list \<Rightarrow> bool" where
  "entries_wf es \<longleftrightarrow> (\<forall>e\<in>set es. entry_wf e \<and> segments_defined (en_coverage e))"

definition written :: "entry list \<Rightarrow> entry list" where
  "written es = filter (\<lambda>e. en_patch_indices e \<noteq> []) es"

lemma entries_reads:
  assumes "entries_wf es"
  shows "reads_back (EncodeEntries_from conv fconv last_id es default_encoding)
    (entries_parser (length (written es)) default_encoding (int last_id)) (map entry_image (written es))"
  using assms
proof (induction es arbitrary: last_id)
  case Nil
  have "EncodeEntries_from conv fconv last_id [] default_encoding = Inr" by (rule ext) simp
  then show ?case using reads_back_return by (simp add: written_def)
next
  case (Cons e es)
  have wf: "entry_wf e" "segments_defined (en_coverage e)" "entries_wf es"
    using Cons.prems by (simp_all add: entries_wf_def)
  show ?case
  proof (cases "en_patch_indices e = []")
    case True
    then have "EncodeEntries_from conv fconv last_id (e # es) default_encoding =
      EncodeEntries_from conv fconv last_id es default_encoding" "written (e # es) = written es"
      by (simp_all add: written_def fun_eq_iff)
    with Cons.IH [OF wf(3)] show ?thesis by simp
  next
    case False
    let ?l = "last (en_patch_indices e)"
    let ?w = "\<lambda>out. TRY (EncodeEntries_from conv fconv ?l es default_encoding out) Inr"
    have "EncodeEntries_from conv fconv last_id (e # es) default_encoding =
        (\<lambda>out. TRY (EncodeEntry conv fconv e last_id default_encoding out) ?w)"
      using False by (simp add: fun_eq_iff TRY_Inr_right)
    moreover have "last (me_ids (entry_image e)) = int ?l"
      using False by (simp add: entry_image_def Let_def last_map)
    moreover have "reads_back ?w (bindp (entries_parser (length (written es)) default_encoding (int ?l))
        (\<lambda>ms. returnp (entry_image e # ms))) (entry_image e # map entry_image (written es))"
      by (rule reads_back_bind [OF Cons.IH [OF wf(3)] reads_back_return])
    moreover have "written (e # es) = e # written es" using False by (simp add: written_def)
    ultimately show ?thesis
      using reads_back_bind [OF entry_reads [OF wf(1,2) False], of
          ?w "\<lambda>m. bindp (entries_parser (length (written es)) default_encoding (last (me_ids m)))
            (\<lambda>ms. returnp (m # ms))"]
      by simp
  qed
qed

section \<open>The whole table\<close>

record parsed_table =
  pt_id :: "int list"
  pt_default_encoding :: patch_encoding
  pt_url_template :: bytes
  pt_cff :: "int option"
  pt_cff2 :: "int option"
  pt_entries :: "mapped_entry list"

definition optional_u32 :: "bool \<Rightarrow> int option parser" where
  "optional_u32 present = (if present then bindp u32 (\<lambda>v. returnp (Some v)) else returnp None)"

definition header_parser :: "(int list \<times> patch_encoding \<times> int \<times> int \<times> bytes \<times> int option \<times> int option) parser" where
  "header_parser = bindp u8 (\<lambda>format. bindp u24 (\<lambda>reserved. bindp u8 (\<lambda>flags.
     bindp (manyp 4 u32) (\<lambda>i. bindp encoding_parser (\<lambda>enc. bindp u24 (\<lambda>count. bindp u32 (\<lambda>offset.
     bindp u32 (\<lambda>id_strings. bindp u16 (\<lambda>n. bindp (takep (nat n)) (\<lambda>url.
     bindp (optional_u32 (bit flags 0)) (\<lambda>cff. bindp (optional_u32 (bit flags 1)) (\<lambda>cff2.
     returnp (i, enc, count, offset, url, cff, cff2)))))))))))))"

text \<open>The entries are where the header says, from the start of the table.\<close>

definition read_table :: "bytes \<Rightarrow> parsed_table status_or" where
  "read_table table = TRY (header_parser table) (\<lambda>((i, enc, count, offset, url, cff, cff2), _).
     TRY (entries_parser (nat count) enc 0 (drop (nat offset) table)) (\<lambda>(es, _).
     Inr \<lparr>pt_id = i, pt_default_encoding = enc, pt_url_template = url, pt_cff = cff, pt_cff2 = cff2,
       pt_entries = es\<rparr>))"

lemma CompatId_reads:
  "reads_back (\<lambda>out. Inr (CompatId_WriteTo c out)) (manyp 4 u32) (CompatId_values c)"
proof -
  have "(\<lambda>out. Inr (CompatId_WriteTo c out)) =
      TRY_fold (\<lambda>v out. Inr (WriteUInt32 v out)) (CompatId_values c)"
    by (simp add: fun_eq_iff fold_eq_TRY_fold CompatId_WriteTo_fold)
  moreover have "reads_back (TRY_fold (\<lambda>v out. Inr (WriteUInt32 v out)) (CompatId_values c))
      (manyp (length (CompatId_values c)) u32) (map (\<lambda>v. v) (CompatId_values c))"
    using CompatId_values_range [of c] by (intro reads_back_many u32.parses_back) blast
  ultimately show ?thesis by simp
qed

lemma offset_field_reads:
  assumes "\<forall>v. charstrings_offset = Some v \<longrightarrow> v < TWO32"
  shows "reads_back (\<lambda>out. Inr (offset_field charstrings_offset out)) (optional_u32 (charstrings_offset \<noteq> None))
    (map_option int charstrings_offset)"
proof (cases charstrings_offset)
  case None
  then show ?thesis using reads_back_return [of "None :: int option"]
    by (simp add: offset_field_def optional_u32_def reads_back_def)
next
  case (Some v)
  have "reads_back (\<lambda>out. TRY (Inr (WriteUInt32 (int v) out)) Inr)
      (bindp u32 (\<lambda>v. returnp (Some v))) (Some (int v))"
    using assms Some by (intro reads_back_bind [OF plain_reads reads_back_return]) simp
  with Some show ?thesis by (simp add: offset_field_def optional_u32_def)
qed

lemma url_reads: "reads_back (\<lambda>out. Inr (out @ url)) (takep (nat (int (length url)))) url"
  using parses_take [of url] by (simp add: reads_back_def)

text \<open>\<^verbatim>\<open>Serialize\<close> up to the entries, as a writer.\<close>

definition entries_offset :: "ift_table \<Rightarrow> nat option \<Rightarrow> nat option \<Rightarrow> int" where
  "entries_offset t cff cff2 = header_min_length + int (length (it_url_template t)) +
     ((if cff \<noteq> None then 4 else 0) + (if cff2 \<noteq> None then 4 else 0))"

definition header_flags :: "nat option \<Rightarrow> nat option \<Rightarrow> int" where
  "header_flags cff cff2 = (if cff \<noteq> None then 1 else 0) OR (if cff2 \<noteq> None then 2 else 0)"

definition write_header :: "ift_table \<Rightarrow> nat option \<Rightarrow> nat option \<Rightarrow> writer" where
  "write_header t cff cff2 = (\<lambda>out. TRY (Inr (WriteUInt8 2 out)) (\<lambda>out. TRY (Inr (WriteUInt24 0 out)) (\<lambda>out.
     TRY (Inr (WriteUInt8 (header_flags cff cff2) out)) (\<lambda>out. TRY (Inr (CompatId_WriteTo (it_id t) out)) (\<lambda>out.
     TRY (TRY (EncodingToInt (PickDefaultEncoding (it_patch_map t))) (\<lambda>v. Inr (WriteUInt8 v out))) (\<lambda>out.
     TRY (WRITE_UINT24 (NumEntries (it_patch_map t)) out) (\<lambda>out.
     TRY (Inr (WriteUInt32 (entries_offset t cff cff2) out)) (\<lambda>out. TRY (Inr (WriteUInt32 0 out)) (\<lambda>out.
     TRY (WRITE_UINT16 (int (length (it_url_template t))) out) (\<lambda>out. TRY (Inr (out @ it_url_template t)) (\<lambda>out.
     TRY (Inr (offset_field cff out)) (\<lambda>out. TRY (Inr (offset_field cff2 out)) Inr))))))))))))"

lemma TRY_assoc: "TRY (TRY m f) g = TRY m (\<lambda>x. TRY (f x) g)"
  by (cases m) simp_all

lemma Serialize_eq:
  "Serialize conv fconv t cff cff2 = TRY (write_header t cff cff2 [])
     (EncodeEntries conv fconv (it_patch_map t) (PickDefaultEncoding (it_patch_map t)))"
  by (simp add: Serialize_def write_header_def Let_def TRY_assoc entries_offset_def header_flags_def)

lemma PickDefaultEncoding_valid: "PickDefaultEncoding es \<noteq> DEFAULT_ENCODING"
  by (simp add: PickDefaultEncoding_def Let_def)

lemma header_flags_bits:
  "bit (header_flags cff cff2) 0 = (cff \<noteq> None)" "bit (header_flags cff cff2) 1 = (cff2 \<noteq> None)"
  "0 \<le> header_flags cff cff2 \<and> header_flags cff cff2 < 2 ^ 8"
  by (auto simp: header_flags_def bit_or_iff)

definition offsets_wf :: "nat option \<Rightarrow> nat option \<Rightarrow> bool" where
  "offsets_wf cff cff2 \<longleftrightarrow> (\<forall>v. cff = Some v \<longrightarrow> v < TWO32) \<and> (\<forall>v. cff2 = Some v \<longrightarrow> v < TWO32)"

lemma header_reads:
  assumes "length (it_url_template t) < 65536" and "length (it_patch_map t) < TWO32" and "offsets_wf cff cff2"
  shows "reads_back (write_header t cff cff2) header_parser
    (CompatId_values (it_id t), PickDefaultEncoding (it_patch_map t), int (length (it_patch_map t)),
     entries_offset t cff cff2, it_url_template t, map_option int cff, map_option int cff2)"
proof -
  have n: "NumEntries (it_patch_map t) = int (length (it_patch_map t))"
    using assms(2) by (simp add: NumEntries_def to_unsigned_def)
  have w2: "reads_back (\<lambda>out. Inr (WriteUInt8 2 out)) u8 2" by (rule u8.parses_back) simp
  have w24: "reads_back (\<lambda>out. Inr (WriteUInt24 0 out)) u24 0" by (rule u24.parses_back) simp
  have wf: "reads_back (\<lambda>out. Inr (WriteUInt8 (header_flags cff cff2) out)) u8 (header_flags cff cff2)"
    by (rule u8.parses_back [OF header_flags_bits(3)])
  have wn: "reads_back (WRITE_UINT24 (NumEntries (it_patch_map t))) u24 (int (length (it_patch_map t)))"
    unfolding n using assms(2) by (intro WRITE_UINT24_reads) simp_all
  have wo: "reads_back (\<lambda>out. Inr (WriteUInt32 (entries_offset t cff cff2) out)) u32 (entries_offset t cff cff2)"
    using assms(1) by (intro u32.parses_back) (auto simp: entries_offset_def header_min_length_def)
  have wz: "reads_back (\<lambda>out. Inr (WriteUInt32 0 out)) u32 0" by (rule u32.parses_back) simp
  have wc: "reads_back (\<lambda>out. Inr (offset_field cff out)) (optional_u32 (bit (header_flags cff cff2) 0)) (map_option int cff)"
    unfolding header_flags_bits using assms(3) by (intro offset_field_reads) (simp add: offsets_wf_def)
  have wc2: "reads_back (\<lambda>out. Inr (offset_field cff2 out)) (optional_u32 (bit (header_flags cff cff2) 1)) (map_option int cff2)"
    unfolding header_flags_bits using assms(3) by (intro offset_field_reads) (simp add: offsets_wf_def)
  show ?thesis unfolding write_header_def header_parser_def
    by (rule reads_back_bind [OF w2], rule reads_back_bind [OF w24], rule reads_back_bind [OF wf],
        rule reads_back_bind [OF CompatId_reads], rule reads_back_bind [OF encoding_reads],
        rule reads_back_bind [OF wn], rule reads_back_bind [OF wo], rule reads_back_bind [OF wz],
        rule reads_back_bind [OF WRITE_UINT16_reads], rule reads_back_bind [OF url_reads],
        rule reads_back_bind [OF wc], rule reads_back_bind [OF wc2 reads_back_return])
qed

lemma header_length:
  assumes "write_header t cff cff2 [] = Inr out"
  shows "int (length out) = entries_offset t cff cff2"
proof -
  have c: "length (CompatId_WriteTo i out) = length out + 16" for i out
    using u32.fold_wr_split [of "CompatId_values i" out] by (auto simp: CompatId_WriteTo_fold)
  have o': "length (offset_field f out) = length out + (if f \<noteq> None then 4 else 0)" for f out
    by (simp add: offset_field_def u32.write_length split: option.split)
  have "TRY m f = Inr out \<longleftrightarrow> (\<exists>x. m = Inr x \<and> f x = Inr out)" for m :: "'z status_or" and f out
    by (rule TRY_eq_Inr)
  with assms show ?thesis
    by (auto simp: write_header_def TRY_eq_Inr WRITE_UINT24_def WRITE_UINT16_def u8.write_length
        u16.write_length u24.write_length u32.write_length c o' entries_offset_def header_min_length_def
        split: if_splits)
qed

lemma Serialize_roundtrip_aux:
  assumes "entries_wf (it_patch_map t)" and "map_ok (it_patch_map t)" and "length (it_patch_map t) < TWO32"
    and "offsets_wf cff cff2" and "Serialize conv fconv t cff cff2 = Inr table"
  shows "read_table (table @ rest) = Inr \<lparr>pt_id = CompatId_values (it_id t),
      pt_default_encoding = PickDefaultEncoding (it_patch_map t), pt_url_template = it_url_template t,
      pt_cff = map_option int cff, pt_cff2 = map_option int cff2,
      pt_entries = map entry_image (it_patch_map t)\<rparr>"
proof -
  let ?es = "it_patch_map t" let ?enc = "PickDefaultEncoding ?es"
  obtain h where h: "write_header t cff cff2 [] = Inr h" and table: "EncodeEntries conv fconv ?es ?enc h = Inr table"
    using assms(5) unfolding Serialize_eq by (auto simp: TRY_eq_Inr)
  from h have url: "length (it_url_template t) < 65536"
    by (auto simp: write_header_def TRY_eq_Inr WRITE_UINT16_def WillIntOverflow_def to_unsigned_eq split: if_splits)
  have all: "written ?es = ?es"
    using assms(2) unfolding written_def map_ok_def by (auto simp: filter_id_conv in_set_conv_nth)
  have len: "int (length h) = entries_offset t cff cff2" by (rule header_length [OF h])
  from reads_backD [OF header_reads [OF url assms(3,4)] h]
  have hp: "parses header_parser h (CompatId_values (it_id t), ?enc, int (length ?es), entries_offset t cff cff2,
      it_url_template t, map_option int cff, map_option int cff2)" by simp
  from reads_backD [OF entries_reads [OF assms(1)] table [unfolded EncodeEntries_def]]
  obtain bs where bs: "table = h @ bs" "parses (entries_parser (length ?es) ?enc 0) bs (map entry_image ?es)"
    unfolding all by auto
  have "nat (entries_offset t cff cff2) = length h" using len by simp
  then have d: "drop (nat (entries_offset t cff cff2)) (table @ rest) = bs @ rest" using bs(1) by simp
  have "header_parser (table @ rest) = Inr ((CompatId_values (it_id t), ?enc, int (length ?es), entries_offset t cff cff2,
      it_url_template t, map_option int cff, map_option int cff2), bs @ rest)"
    using hp bs(1) by (simp add: parses_def)
  moreover have "entries_parser (nat (int (length ?es))) ?enc 0 (drop (nat (entries_offset t cff cff2)) (table @ rest)) =
      Inr (map entry_image ?es, rest)"
    using bs(2) unfolding d by (simp add: parses_def)
  ultimately show ?thesis by (simp add: read_table_def)
qed

end
