(* ===== verification/Font_Properties.thy ===== *)
theory Font_Properties
  imports Format_2_Decode
begin

text \<open>
  The properties of the font level components: integers, offset tables, patch maps and their
  serialization.
\<close>

section \<open>Integers and offset tables\<close>

text \<open>
  A checked write of a value: an invalid argument exactly when it is out of range, else the bytes in front
  are kept and the reader returns the value, whatever follows.
\<close>

definition writes_exactly :: "(bytes \<Rightarrow> bytes status_or) \<Rightarrow> (bytes \<Rightarrow> int status_or) \<Rightarrow> bool \<Rightarrow> int \<Rightarrow> bool" where
  "writes_exactly wr rd in_range v \<longleftrightarrow> (\<forall>out. (wr out = Inl InvalidArgumentError \<longleftrightarrow> \<not> in_range) \<and>
     (in_range \<longrightarrow> (\<exists>bs. wr out = Inr (out @ bs) \<and> (\<forall>rest. rd (bs @ rest) = Inr v))))"

context int_codec begin

lemma checked_exactly:
  assumes "check = (\<lambda>out. if in_range v then Inr (wr v out) else Inl InvalidArgumentError)"
  shows "writes_exactly check rd (in_range v) v"
  unfolding writes_exactly_def
proof (intro allI conjI impI)
  fix out
  show "check out = Inl InvalidArgumentError \<longleftrightarrow> \<not> in_range v" by (simp add: assms)
  assume v: "in_range v"
  obtain bs where bs: "wr v out = out @ bs" using write_split by blast
  with read_write [OF v, of out] have "rd (bs @ rest) = Inr v" for rest by simp
  with v bs show "\<exists>bs. check out = Inr (out @ bs) \<and> (\<forall>rest. rd (bs @ rest) = Inr v)" by (simp add: assms)
qed

end



text \<open>
  C18: on the offset table of a list of offsets, \<^verbatim>\<open>DataFor\<close> returns the slice between an id's offset
  and the next one, or the error of a missing entry, of descending offsets, or of data that is too
  short; it never reads outside of the table while the 32 bit index arithmetic does not wrap.
\<close>

theorem DataFor_slice:
  fixes gid :: "32 word"
  assumes "width * (unat gid + 2) < 2 ^ 32" and "\<forall>x\<in>set offs. x < 2 ^ (8 * width)"
    and "multiplier * 2 ^ (8 * width) \<le> 2 ^ 32" and "width * length offs < 2 ^ 32"
    and "0 < multiplier" and "0 < width"
  shows "DataFor width multiplier (offset_table width offs) data gid = Some (
      if length offs < unat gid + 2 then Inl NotFoundError
      else let s = offs ! unat gid * multiplier; e = offs ! Suc (unat gid) * multiplier
        in if e < s \<or> length data < e then Inl InvalidArgumentError
           else Inr (take (e - s) (drop s data)))"
  using assms by (rule DataFor_table)

lemma DataFor_slice_witness:
  "DataFor 2 2 (offset_table 2 [0, 1, 3]) [10, 11, 12, 13, 14, 15] 1 = Some (Inr [12, 13, 14, 15])"
  using DataFor_slice [of 2 1 "[0, 1, 3]" 2 "[10, 11, 12, 13, 14, 15]"] by simp

text \<open>
  With four byte offsets the byte index wraps, so that ids \<open>2 ^ 30\<close> apart read the same entry.
\<close>

theorem DataFor_alias: "DataFor 4 m offsets data (gid + 2 ^ 30) = DataFor 4 m offsets data gid"
  by (rule DataFor_wraps)

text \<open>
  On ranges with ordered bounds \<^verbatim>\<open>Intersection\<close> is the intersection of the point sets, and is
  absent exactly when that is empty.
\<close>

theorem axis_range_intersection:
  assumes "ar_wf a" and "ar_wf b"
  shows "case AR_Intersection a b of None \<Rightarrow> ar_points a \<inter> ar_points b = {}
         | Some c \<Rightarrow> ar_wf c \<and> ar_points c = ar_points a \<inter> ar_points b"
  using assms by (rule AR_Intersection_aux)

lemma axis_range_intersection_witness:
  "ar_points (AxisRange 2 3) = ar_points (AxisRange 1 3) \<inter> ar_points (AxisRange 2 (5::rat))"
  using axis_range_intersection [of "AxisRange 1 3" "AxisRange 2 5"]
  by (simp add: ar_wf_def AxisRange_def AR_Intersection_def AR_Intersects_def)

section \<open>Patch maps\<close>

text \<open>An entry with features and an axis segment that activates two patches, and its bytes.\<close>

definition example_entry :: entry where
  "example_entry = \<lparr>en_coverage = \<lparr>cov_codepoints = IntSet_empty, cov_features = [1234],
       cov_design_space = [(5, AxisRange 1 (3/2))], cov_conjunctive = False, cov_child_indices = IntSet_empty\<rparr>,
     en_patch_indices = [4, 2], en_encoding = TABLE_KEYED_FULL, en_ignored = False\<rparr>"

lemmas format_eval =
  example_entry_def EncodeEntry_def Let_def entry_format_def has_features_or_design_space_def has_delta_def
  format_masks EncodeFeatures_def EncodeAxisSegment_def AxisRange_def EncodeEntryId_def EncodingToInt_def
  font_ints_eval

lemma example_entry_bytes:
  "EncodeEntry conv id example_entry 0 GLYPH_KEYED [] =
     Inr [13, 1, 0, 0, 4, 210, 0, 1, 0, 0, 0, 5, 0, 1, 0, 0, 0, 1, 128, 0, 0, 0, 7, 255, 255, 250, 1]"
  by (simp add: format_eval)

lemma example_entry_ok:
  "entry_wf example_entry" "segments_defined (en_coverage example_entry)" "map_ok [example_entry]"
  by (simp_all add: example_entry_def entry_wf_def segments_defined_def fixed_defined_def roundf_def
      AxisRange_def map_ok_def ift_eval)

lemma example_table_bytes:
  "Serialize conv id (IFTTable\<lparr>it_url_template := [104, 105], it_patch_map := [example_entry]\<rparr>) None (Some 7) =
     Inr [2, 0, 0, 0, 2, 0, 0, 0, 0, 0, 0, 0, 0, 0, 0, 0, 0, 0, 0, 0, 0, 1, 0, 0, 1, 0, 0, 0, 41,
       0, 0, 0, 0, 0, 2, 104, 105, 0, 0, 0, 7,
       5, 1, 0, 0, 4, 210, 0, 1, 0, 0, 0, 5, 0, 1, 0, 0, 0, 1, 128, 0, 0, 0, 7, 255, 255, 250]"
  by (simp add: format_eval Serialize_def IFTTable_def PickDefaultEncoding_def count_encoding_def NumEntries_def
      header_min_length_def offset_field_def EncodeEntries_def)

text \<open>
  \<^verbatim>\<open>AddEntry\<close> accepts an entry exactly when the extended map is well formed: every entry
  activates a patch and refers only to entries before it.
\<close>

theorem AddEntry_keeps_map_ok:
  assumes "map_ok es"
  shows "AddEntry e es = (if map_ok (es @ [e]) then Inr (es @ [e]) else Inl InvalidArgumentError)"
  using assms by (rule AddEntry_eq)

lemma AddEntry_keeps_map_ok_witness:
  "AddEntry (Entry IntSet_empty [3] GLYPH_KEYED) [] = Inr [Entry IntSet_empty [3] GLYPH_KEYED]"
  using AddEntry_keeps_map_ok [of "[]" "Entry IntSet_empty [3] GLYPH_KEYED"]
  by (simp add: map_ok_def Entry_def Coverage_def)

text \<open>
  C7: the table that \<^verbatim>\<open>Serialize\<close> produces reads back, by a parser written after the
  specification, to the id, the URL template, the charstring offsets and every entry of the map,
  with the axis bounds rounded to 16.16 fixed point, whatever bytes follow.
\<close>

theorem Serialize_roundtrip:
  assumes "entries_wf (it_patch_map t)" and "map_ok (it_patch_map t)" and "length (it_patch_map t) < TWO32"
    and "offsets_wf cff cff2" and "Serialize conv fconv t cff cff2 = Inr table"
  shows "read_table (table @ rest) = Inr \<lparr>pt_id = CompatId_values (it_id t),
      pt_default_encoding = PickDefaultEncoding (it_patch_map t), pt_url_template = it_url_template t,
      pt_cff = map_option int cff, pt_cff2 = map_option int cff2,
      pt_entries = map entry_image (it_patch_map t)\<rparr>"
  using assms by (rule Serialize_roundtrip_aux)

lemma Serialize_roundtrip_witness:
  "\<exists>table. Serialize (\<lambda>n. n) id (IFTTable\<lparr>it_url_template := [104, 105], it_patch_map := [example_entry]\<rparr>)
      None (Some 7) = Inr table \<and> read_table (table @ [9]) = Inr \<lparr>pt_id = [0, 0, 0, 0],
      pt_default_encoding = TABLE_KEYED_FULL, pt_url_template = [104, 105], pt_cff = None, pt_cff2 = Some 7,
      pt_entries = [entry_image example_entry]\<rparr>"
proof -
  let ?t = "IFTTable\<lparr>it_url_template := [104, 105], it_patch_map := [example_entry]\<rparr>"
  have d: "PickDefaultEncoding [example_entry] = TABLE_KEYED_FULL"
    by (simp add: PickDefaultEncoding_def count_encoding_def EncodingToInt_def example_entry_def Let_def)
  have wf: "entries_wf [example_entry]" using example_entry_ok by (simp add: entries_wf_def)
  have off: "offsets_wf None (Some 7)" by (simp add: offsets_wf_def)
  show ?thesis
    using Serialize_roundtrip [of ?t None "Some 7", OF _ _ _ off example_table_bytes] wf d example_entry_ok(3)
    by (simp add: IFTTable_def example_table_bytes [unfolded IFTTable_def, simplified])
qed

text \<open>
  One entry written by \<^verbatim>\<open>EncodeEntry\<close> behind any output reads back, given the last patch index
  before it and the default encoding, and nothing behind it is consumed.
\<close>

theorem EncodeEntry_roundtrip:
  assumes "entry_wf e" and "segments_defined (en_coverage e)" and "en_patch_indices e \<noteq> []"
    and "EncodeEntry conv fconv e last_id default_encoding out = Inr out'"
  shows "\<exists>bs. out' = out @ bs \<and>
    entry_parser default_encoding (int last_id) (bs @ rest) = Inr (entry_image e, rest)"
  using reads_backD [OF entry_reads [OF assms(1-3)] assms(4)] by (auto simp: parses_def)

lemma EncodeEntry_roundtrip_witness:
  "\<exists>bs. EncodeEntry (\<lambda>n. n) id example_entry 0 GLYPH_KEYED [] = Inr bs \<and>
    entry_parser GLYPH_KEYED 0 (bs @ [1, 2]) = Inr (entry_image example_entry, [1, 2])"
  using EncodeEntry_roundtrip [OF example_entry_ok(1,2) _ example_entry_bytes, of "[1, 2]"]
  by (auto simp: example_entry_bytes) (simp add: example_entry_def)

text \<open>
  The deltas of \<^verbatim>\<open>EncodeEntryIds\<close> read back, and it fails only on a delta whose double, with the
  continuation bit, does not fit 24 bits.
\<close>

theorem EncodeEntryIds_roundtrip:
  assumes "xs \<noteq> []"
  shows "case EncodeEntryIds last_id xs out of
      Inr out' \<Rightarrow> \<exists>bs. out' = out @ bs \<and> ids_parser last_id (bs @ rest) = Inr (map int xs, rest)
    | Inl e \<Rightarrow> e = InvalidArgumentError \<and> (\<exists>i < length xs.
        2 ^ 22 \<le> \<bar>int (xs ! i) - ((if i = 0 then last_id else int (xs ! (i - 1))) + 1)\<bar>)"
proof (cases "EncodeEntryIds last_id xs out")
  case (Inr out')
  then show ?thesis using reads_backD [OF ids_reads [OF assms] Inr] by (auto simp: parses_def)
next
  case (Inl e)
  with ids_fail [OF Inl] show ?thesis by simp
qed

lemma EncodeEntryIds_roundtrip_witness:
  "EncodeEntryIds 0 [4, 2] [] = Inr [0, 0, 7, -1, -1, -6] \<and>
    ids_parser 0 ([0, 0, 7, -1, -1, -6] @ [1]) = Inr ([4, 2], [1])"
  using EncodeEntryIds_roundtrip [of "[4, 2]" 0 "[]" "[1]"]
  by (simp add: EncodeEntryId_def Let_def font_ints_eval)

end
