(* ===== verification/Glyph_Partition.thy ===== *)
theory Glyph_Partition
  imports Int_Set
begin

text \<open>
  Disjoint sets of glyphs by union-find (\<^verbatim>\<open>ift/encoder/glyph_partition.cc\<close>). \<^verbatim>\<open>Find\<close> compresses
  paths, so it returns the new parent array too; on an array with a cycle it would not return,
  which is why it is a partial function. The hash map of the cache is a function from
  representatives to their sets.
\<close>

section \<open>The class\<close>

record glyph_partition =
  gp_rank :: "nat list"
  gp_parent :: "nat list"
  gp_cache_valid :: bool
  gp_rep_to_set :: "nat \<Rightarrow> int_set option"
  gp_non_identity_groups :: "int_set list"

definition GlyphPartition :: "nat \<Rightarrow> glyph_partition" where
  "GlyphPartition num_glyphs = \<lparr>gp_rank = replicate num_glyphs 0, gp_parent = [0..<num_glyphs],
     gp_cache_valid = False, gp_rep_to_set = (\<lambda>_. None), gp_non_identity_groups = []\<rparr>"

definition GlyphPartition_copy :: "glyph_partition \<Rightarrow> glyph_partition" where
  "GlyphPartition_copy other = \<lparr>gp_rank = gp_rank other, gp_parent = gp_parent other,
     gp_cache_valid = False, gp_rep_to_set = (\<lambda>_. None), gp_non_identity_groups = []\<rparr>"

text \<open>\<^verbatim>\<open>operator=\<close> of two different objects: the cache and its flag stay.\<close>

definition gp_assign :: "glyph_partition \<Rightarrow> glyph_partition \<Rightarrow> glyph_partition" where
  "gp_assign other p = p\<lparr>gp_rank := gp_rank other, gp_parent := gp_parent other\<rparr>"

partial_function (option) find_root :: "nat list \<Rightarrow> nat \<Rightarrow> (nat list \<times> nat status_or) option" where
  "find_root parent glyph =
     (if length parent \<le> glyph then Some (parent, Inl InvalidArgumentError)
      else if parent ! glyph \<noteq> glyph then
        Option.bind (find_root parent (parent ! glyph)) (\<lambda>(parent, found). Some (
          case found of Inl e \<Rightarrow> (parent, Inl e) | Inr r \<Rightarrow> (parent[glyph := r], Inr r)))
      else Some (parent, Inr (parent ! glyph)))"

definition gp_Find :: "nat \<Rightarrow> glyph_partition \<Rightarrow> (glyph_partition \<times> nat status_or) option" where
  "gp_Find glyph p = map_option (\<lambda>(parent, r). (p\<lparr>gp_parent := parent\<rparr>, r)) (find_root (gp_parent p) glyph)"

text \<open>A fallible step on a partition: \<open>None\<close> when it does not return, else the new state and a status.\<close>

type_synonym 'a gp_op = "glyph_partition \<Rightarrow> (glyph_partition \<times> 'a status_or) option"

fun gp_bind :: "(glyph_partition \<times> 'a status_or) option \<Rightarrow> ('a \<Rightarrow> 'b gp_op) \<Rightarrow>
    (glyph_partition \<times> 'b status_or) option" where
  "gp_bind None f = None"
| "gp_bind (Some (p, Inl e)) f = Some (p, Inl e)"
| "gp_bind (Some (p, Inr x)) f = f x p"

definition gp_link :: "nat \<Rightarrow> nat \<Rightarrow> glyph_partition \<Rightarrow> glyph_partition" where
  "gp_link root1 root2 p =
     (let p = (if gp_rank p ! root1 < gp_rank p ! root2 then p\<lparr>gp_parent := (gp_parent p)[root1 := root2]\<rparr>
               else if gp_rank p ! root2 < gp_rank p ! root1 then p\<lparr>gp_parent := (gp_parent p)[root2 := root1]\<rparr>
               else p\<lparr>gp_parent := (gp_parent p)[root2 := root1],
                      gp_rank := (gp_rank p)[root1 := (gp_rank p ! root1 + 1) mod TWO32]\<rparr>)
      in p\<lparr>gp_cache_valid := False\<rparr>)"

definition gp_Union :: "nat \<Rightarrow> nat \<Rightarrow> unit gp_op" where
  "gp_Union glyph1 glyph2 p =
     (if length (gp_parent p) \<le> glyph1 then Some (p, Inl InvalidArgumentError)
      else if length (gp_parent p) \<le> glyph2 then Some (p, Inl InvalidArgumentError)
      else gp_bind (gp_Find glyph1 p) (\<lambda>root1 p. gp_bind (gp_Find glyph2 p) (\<lambda>root2 p.
        if root1 = root2 then Some (p, Inr ()) else Some (gp_link root1 root2 p, Inr ()))))"

fun gp_Union_rest :: "nat \<Rightarrow> nat list \<Rightarrow> unit gp_op" where
  "gp_Union_rest first_gid [] p = Some (p, Inr ())"
| "gp_Union_rest first_gid (second_gid # gids) p =
     (if length (gp_parent p) \<le> second_gid then Some (p, Inl InvalidArgumentError)
      else gp_bind (gp_Union first_gid second_gid p) (\<lambda>_. gp_Union_rest first_gid gids))"

definition gp_Union_set :: "int_set \<Rightarrow> unit gp_op" where
  "gp_Union_set glyphs p =
     (case to_vector glyphs of [] \<Rightarrow> Some (p, Inr ())
      | first_gid # gids \<Rightarrow>
          if length (gp_parent p) \<le> first_gid then Some (p, Inl InvalidArgumentError)
          else gp_Union_rest first_gid gids p)"

text \<open>\<^verbatim>\<open>RebuildCache\<close>: the loop inserts every glyph into the set of its representative.\<close>

fun Rebuild_loop :: "nat list \<Rightarrow> unit gp_op" where
  "Rebuild_loop [] p = Some (p, Inr ())"
| "Rebuild_loop (i # gids) p = gp_bind (gp_Find i p) (\<lambda>r p.
     Rebuild_loop gids (p\<lparr>gp_rep_to_set := (gp_rep_to_set p)(r \<mapsto>
       IntSet_insert i (case gp_rep_to_set p r of None \<Rightarrow> IntSet_empty | Some S \<Rightarrow> S))\<rparr>))"

definition cached_sets :: "glyph_partition \<Rightarrow> int_set list" where
  "cached_sets p = List.map_filter (gp_rep_to_set p) [0..<length (gp_parent p)]"

definition RebuildCache :: "unit gp_op" where
  "RebuildCache p = gp_bind (Rebuild_loop [0..<length (gp_parent p)] (p\<lparr>gp_rep_to_set := (\<lambda>_. None)\<rparr>)) (\<lambda>_ p.
     Some (p\<lparr>gp_non_identity_groups := sort (filter (\<lambda>gids. 1 < IntSet_size gids) (cached_sets p)),
             gp_cache_valid := True\<rparr>, Inr ()))"

definition ensure_cache :: "unit gp_op" where
  "ensure_cache p = (if \<not> gp_cache_valid p then RebuildCache p else Some (p, Inr ()))"

text \<open>\<^verbatim>\<open>rep_to_set_[rep]\<close> inserts an empty set for a missing representative.\<close>

definition GlyphsFor :: "nat \<Rightarrow> int_set gp_op" where
  "GlyphsFor glyph p =
     (if length (gp_parent p) \<le> glyph then Some (p, Inl InvalidArgumentError)
      else gp_bind (ensure_cache p) (\<lambda>_ p. gp_bind (gp_Find glyph p) (\<lambda>rep p.
        case gp_rep_to_set p rep of
          None \<Rightarrow> Some (p\<lparr>gp_rep_to_set := (gp_rep_to_set p)(rep \<mapsto> IntSet_empty)\<rparr>, Inr IntSet_empty)
        | Some S \<Rightarrow> Some (p, Inr S))))"

definition NonIdentityGroups :: "int_set list gp_op" where
  "NonIdentityGroups p = gp_bind (ensure_cache p) (\<lambda>_ p. Some (p, Inr (gp_non_identity_groups p)))"

fun gp_Union_sets :: "int_set list \<Rightarrow> unit gp_op" where
  "gp_Union_sets [] p = Some (p, Inr ())"
| "gp_Union_sets (S # Ss) p = gp_bind (gp_Union_set S p) (\<lambda>_. gp_Union_sets Ss)"

text \<open>\<^verbatim>\<open>Union(other)\<close> may rebuild the cache of \<open>other\<close>, which is returned too.\<close>

definition gp_Union_partition ::
  "glyph_partition \<Rightarrow> glyph_partition \<Rightarrow> (glyph_partition \<times> glyph_partition \<times> unit status_or) option" where
  "gp_Union_partition other p =
     (if length (gp_parent other) \<noteq> length (gp_parent p) then Some (other, p, Inl InvalidArgumentError)
      else case NonIdentityGroups other of None \<Rightarrow> None
        | Some (other, Inl e) \<Rightarrow> Some (other, p, Inl e)
        | Some (other, Inr sets) \<Rightarrow> map_option (\<lambda>(p, s). (other, p, s)) (gp_Union_sets sets p))"

section \<open>Forests\<close>

text \<open>\<open>rooted parent x r\<close>: following the parents from \<open>x\<close> ends at the root \<open>r\<close>.\<close>

inductive rooted :: "nat list \<Rightarrow> nat \<Rightarrow> nat \<Rightarrow> bool" for parent where
  here: "x < length parent \<Longrightarrow> parent ! x = x \<Longrightarrow> rooted parent x x"
| up: "x < length parent \<Longrightarrow> parent ! x \<noteq> x \<Longrightarrow> rooted parent (parent ! x) r \<Longrightarrow> rooted parent x r"

inductive_cases rooted_cases: "rooted parent x r"

lemma rooted_bounds: "rooted parent x r \<Longrightarrow> x < length parent \<and> r < length parent \<and> parent ! r = r"
  by (induction rule: rooted.induct) auto

lemma rooted_root: "parent ! x = x \<Longrightarrow> rooted parent x r \<longleftrightarrow> x < length parent \<and> r = x"
proof
  assume root: "parent ! x = x" and "rooted parent x r"
  from this(2) show "x < length parent \<and> r = x"
  proof (cases rule: rooted.cases)
    case up
    with root show ?thesis by simp
  qed simp
qed (use rooted.here in blast)

lemma rooted_step: "parent ! x \<noteq> x \<Longrightarrow> rooted parent x r \<Longrightarrow> rooted parent (parent ! x) r"
  by (erule rooted.cases) simp_all

lemma rooted_unique: "rooted parent x r \<Longrightarrow> rooted parent x s \<Longrightarrow> r = s"
proof (induction rule: rooted.induct)
  case (here x)
  from rooted_root [OF here.hyps(2), of s] here.prems show ?case by simp
next
  case (up x r)
  from rooted_step [OF up.hyps(2) up.prems] show ?case by (rule up.IH)
qed

text \<open>
  Ranks: a parent has a larger rank than its child, there is a rank for every glyph, and a rank
  and the number of roots together do not exceed the number of glyphs, so that ranks stay small.
\<close>

definition roots :: "nat list \<Rightarrow> nat set" where
  "roots parent = {x. x < length parent \<and> parent ! x = x}"

definition forest :: "nat list \<Rightarrow> nat list \<Rightarrow> bool" where
  "forest rank parent \<longleftrightarrow> length rank = length parent \<and>
     (\<forall>x < length parent. parent ! x < length parent \<and> (parent ! x \<noteq> x \<longrightarrow> rank ! x < rank ! (parent ! x))) \<and>
     (\<forall>x < length parent. rank ! x + card (roots parent) \<le> length parent)"

lemma forest_rooted:
  assumes "forest rank parent" and "x < length parent" shows "\<exists>r. rooted parent x r"
  using assms(2)
proof (induction "length parent - rank ! x" arbitrary: x rule: less_induct)
  case less
  show ?case
  proof (cases "parent ! x = x")
    case True
    then show ?thesis using less.prems rooted.here by blast
  next
    case False
    then have y: "parent ! x < length parent" "rank ! x < rank ! (parent ! x)" "rank ! (parent ! x) \<le> length parent"
      using assms(1) less.prems by (fastforce simp: forest_def)+
    then have "length parent - rank ! (parent ! x) < length parent - rank ! x" by linarith
    then show ?thesis using less.hyps y(1) rooted.up [OF less.prems False] by blast
  qed
qed

text \<open>Compressing a path keeps every root.\<close>

lemma rooted_compress:
  assumes "rooted parent g r" and "parent ! g \<noteq> g"
  shows "rooted (parent[g := r]) x s \<longleftrightarrow> rooted parent x s"
proof
  have b: "g < length parent" "r < length parent" "parent ! r = r" using rooted_bounds [OF assms(1)] by auto
  then have rg: "r \<noteq> g" using assms(2) by auto
  show "rooted parent x s \<Longrightarrow> rooted (parent[g := r]) x s"
  proof (induction rule: rooted.induct)
    case (here x)
    then show ?case using assms(2) b(1) by - (rule rooted.here; auto simp: nth_list_update)
  next
    case (up x s)
    show ?case
    proof (cases "x = g")
      case True
      then have "rooted parent (parent ! g) s" using up.hyps(3) by simp
      from rooted_unique [OF this rooted_step [OF assms(2,1)]] have "s = r" .
      have upd: "parent[g := r] ! g = r" "parent[g := r] ! r = r" using b rg by simp_all
      have "rooted (parent[g := r]) r r" by (rule rooted.here) (use b upd in simp_all)
      then have "rooted (parent[g := r]) (parent[g := r] ! g) s" unfolding upd \<open>s = r\<close> .
      with b(1) upd(1) rg show ?thesis unfolding True by - (rule rooted.up; simp)
    next
      case False
      with up show ?thesis by - (rule rooted.up; simp)
    qed
  qed
  show "rooted (parent[g := r]) x s \<Longrightarrow> rooted parent x s"
  proof (induction rule: rooted.induct)
    case (here x)
    then show ?case using rg b(1) by - (rule rooted.here; auto simp: nth_list_update split: if_splits)
  next
    case (up x s)
    show ?case
    proof (cases "x = g")
      case True
      then have "rooted parent r s" using up b by simp
      with rooted_root [OF b(3), of s] have "s = r" by simp
      then show ?thesis using True assms(1) by simp
    next
      case False
      with up show ?thesis by - (rule rooted.up; simp_all add: nth_list_update)
    qed
  qed
qed

lemma forest_compress:
  assumes "forest rank parent" and "rooted parent g r" and "parent ! g \<noteq> g"
  shows "forest rank (parent[g := r])"
proof -
  have b: "g < length parent" "r < length parent" "parent ! r = r" using rooted_bounds [OF assms(2)] by auto
  have up: "rooted parent x s \<Longrightarrow> rank ! x \<le> rank ! s \<and> (parent ! x \<noteq> x \<longrightarrow> rank ! x < rank ! s)" for x s
    by (induction rule: rooted.induct) (use assms(1) in \<open>fastforce simp: forest_def\<close>)+
  have "r \<noteq> g" using b assms(3) by auto
  then have "roots (parent[g := r]) = roots parent"
    using assms(3) b(1) by (auto simp: roots_def nth_list_update split: if_splits)
  then show ?thesis using assms(1,3) b up [OF assms(2)]
    by (auto simp: forest_def nth_list_update)
qed

lemma find_root_spec:
  assumes "forest rank parent" and "rooted parent g r"
  shows "\<exists>parent'. find_root parent g = Some (parent', Inr r) \<and> forest rank parent' \<and>
    length parent' = length parent \<and> (\<forall>x s. rooted parent' x s \<longleftrightarrow> rooted parent x s)"
  using assms(2)
proof (induction rule: rooted.induct)
  case (here x)
  then show ?case using assms(1) by (simp add: find_root.simps)
next
  case (up x r)
  then obtain q where q: "find_root parent (parent ! x) = Some (q, Inr r)" "forest rank q"
    "length q = length parent" "\<forall>x s. rooted q x s \<longleftrightarrow> rooted parent x s" by blast
  have xr: "rooted q x r" using rooted.up [OF up.hyps] q(4) by blast
  have "r \<noteq> x" using rooted_bounds [OF up.hyps(3)] up.hyps(2) by auto
  then have qx: "q ! x \<noteq> x" using rooted_root [of q x r] xr by auto
  have "find_root parent x = Some (q[x := r], Inr r)"
    using up.hyps(1,2) q(1) by (simp add: find_root.simps [of parent x])
  then show ?case using forest_compress [OF q(2) xr qx] rooted_compress [OF xr qx] q(3,4) by simp
qed

lemma find_root_out_of_range:
  "length parent \<le> g \<Longrightarrow> find_root parent g = Some (parent, Inl InvalidArgumentError)"
  by (simp add: find_root.simps)

text \<open>Hanging one root below another.\<close>

lemma rooted_link:
  assumes "forest rank parent" and r: "r \<in> roots parent" "t \<in> roots parent" "r \<noteq> t"
  shows "rooted (parent[r := t]) x s \<longleftrightarrow> (rooted parent x s \<and> s \<noteq> r) \<or> (rooted parent x r \<and> s = t)"
proof -
  let ?p = "parent[r := t]"
  have b: "r < length parent" "t < length parent" "parent ! r = r" "parent ! t = t" using r by (auto simp: roots_def)
  have upd: "?p ! r = t" "?p ! t = t" using b r by simp_all
  have tt: "rooted ?p t t" by (rule rooted.here) (use b upd in simp_all)
  have rt: "rooted ?p r t" using tt b upd r(3) by - (rule rooted.up; simp)
  have fwd: "rooted parent x u \<Longrightarrow> rooted ?p x (if u = r then t else u)" for x u
  proof (induction rule: rooted.induct)
    case (here x)
    show ?case
    proof (cases "x = r")
      case False
      with here show ?thesis by (simp add: rooted.here)
    qed (use rt in simp)
  next
    case (up x u)
    then have "x \<noteq> r" using b(3) by auto
    with up show ?case by - (rule rooted.up; simp)
  qed
  have len: "length ?p = length parent" by simp
  have dom: "x < length parent \<Longrightarrow> \<exists>u. rooted parent x u" for x by (rule forest_rooted [OF assms(1)])
  show ?thesis
  proof
    assume s: "rooted ?p x s"
    then obtain u where u: "rooted parent x u" using rooted_bounds [OF s] dom by auto
    from rooted_unique [OF s fwd [OF u]] u show "(rooted parent x s \<and> s \<noteq> r) \<or> (rooted parent x r \<and> s = t)"
      by (auto split: if_splits)
  next
    assume "(rooted parent x s \<and> s \<noteq> r) \<or> (rooted parent x r \<and> s = t)"
    then show "rooted ?p x s" using fwd [of x s] fwd [of x r] by auto
  qed
qed

lemma roots_link:
  assumes "r \<in> roots parent" and "t \<in> roots parent" and "r \<noteq> t"
  shows "roots (parent[r := t]) = roots parent - {r}"
  using assms by (auto simp: roots_def nth_list_update split: if_splits)

lemma finite_roots [simp]: "finite (roots parent)"
  by (simp add: roots_def)

lemma forest_link:
  assumes f: "forest rank parent" and r: "r \<in> roots parent" "t \<in> roots parent" "r \<noteq> t"
    and rank': "rank' = rank \<and> rank ! r < rank ! t \<or> rank' = rank[t := rank ! t + 1] \<and> rank ! r = rank ! t"
  shows "forest rank' (parent[r := t])"
proof -
  have b: "r < length parent" "t < length parent" "parent ! r = r" "parent ! t = t" using r by (auto simp: roots_def)
  have len: "length rank = length parent" using f by (simp add: forest_def)
  have "card (roots parent) = Suc (card (roots parent - {r}))" by (rule card.remove [OF finite_roots r(1)])
  then have c: "card (roots parent) = Suc (card (roots (parent[r := t])))" by (simp add: roots_link [OF r])
  have up: "rank' ! x \<le> rank ! x + 1" "x \<noteq> t \<Longrightarrow> rank' ! x = rank ! x" "rank ! x \<le> rank' ! x"
    if "x < length parent" for x
    using rank' that len b(2) by (auto simp: nth_list_update)
  have rt: "rank' ! r < rank' ! t" using rank' len b r(3) by (auto simp: nth_list_update)
  show ?thesis unfolding forest_def
  proof (intro conjI allI impI)
    show "length rank' = length (parent[r := t])" using rank' len by auto
  next
    fix x assume x: "x < length (parent[r := t])"
    then show "parent[r := t] ! x < length (parent[r := t])"
      using f b by (auto simp: forest_def nth_list_update)
    show "rank' ! x + card (roots (parent[r := t])) \<le> length (parent[r := t])"
      using f x up(1) [of x] c by (fastforce simp: forest_def)
    assume ne: "parent[r := t] ! x \<noteq> x"
    show "rank' ! x < rank' ! (parent[r := t] ! x)"
    proof (cases "x = r")
      case True
      then show ?thesis using rt b by simp
    next
      case False
      then have px: "parent[r := t] ! x = parent ! x" by simp
      with ne b(4) have "x \<noteq> t" by auto
      moreover have "rank ! x < rank ! (parent ! x)" "parent ! x < length parent"
        using f x ne px by (auto simp: forest_def)
      ultimately show ?thesis using up(2) [of x] up(3) [of "parent ! x"] x px by simp
    qed
  qed
qed

lemma forest_init: "forest (replicate n 0) [0..<n]"
proof -
  have "roots [0..<n] = {..<n}" by (auto simp: roots_def)
  then show ?thesis by (simp add: forest_def)
qed

section \<open>Invariant and meaning\<close>

definition gp_same :: "glyph_partition \<Rightarrow> nat \<Rightarrow> nat \<Rightarrow> bool" where
  "gp_same p x y \<longleftrightarrow> (\<exists>r. rooted (gp_parent p) x r \<and> rooted (gp_parent p) y r)"

definition gp_class :: "glyph_partition \<Rightarrow> nat \<Rightarrow> nat set" where
  "gp_class p x = {y. gp_same p x y}"

definition gp_size :: "glyph_partition \<Rightarrow> nat" where "gp_size p = length (gp_parent p)"

definition gp_forest :: "glyph_partition \<Rightarrow> bool" where
  "gp_forest p \<longleftrightarrow> forest (gp_rank p) (gp_parent p) \<and> gp_size p \<le> UINT32_MAX"

text \<open>A valid cache lists the classes.\<close>

definition cache_ok :: "glyph_partition \<Rightarrow> bool" where
  "cache_ok p \<longleftrightarrow>
     (\<forall>r. case gp_rep_to_set p r of None \<Rightarrow> r \<notin> roots (gp_parent p)
        | Some S \<Rightarrow> r \<in> roots (gp_parent p) \<and> members S = {x. rooted (gp_parent p) x r}) \<and>
     gp_non_identity_groups p = sort (filter (\<lambda>gids. 1 < IntSet_size gids) (cached_sets p))"

definition gp_inv :: "glyph_partition \<Rightarrow> bool" where
  "gp_inv p \<longleftrightarrow> gp_forest p \<and> (gp_cache_valid p \<longrightarrow> cache_ok p)"

lemma gp_inv_init: "n \<le> UINT32_MAX \<Longrightarrow> gp_inv (GlyphPartition n)"
  using forest_init by (simp add: gp_inv_def gp_forest_def gp_size_def GlyphPartition_def)

lemma gp_inv_copy: "gp_inv p \<Longrightarrow> gp_inv (GlyphPartition_copy p)"
  by (simp add: gp_inv_def gp_forest_def gp_size_def GlyphPartition_copy_def)

lemma gp_rooted: "gp_forest p \<Longrightarrow> x < gp_size p \<Longrightarrow> \<exists>r. rooted (gp_parent p) x r"
  unfolding gp_forest_def gp_size_def using forest_rooted by blast

lemma roots_rooted: "r \<in> roots parent \<longleftrightarrow> rooted parent r r"
  by (auto simp: roots_def intro: rooted.here dest: rooted_bounds)

text \<open>A step that only compresses paths changes nothing visible.\<close>

definition compressed :: "glyph_partition \<Rightarrow> glyph_partition \<Rightarrow> bool" where
  "compressed p q \<longleftrightarrow> gp_rank q = gp_rank p \<and> gp_size q = gp_size p \<and>
     (\<forall>x s. rooted (gp_parent q) x s \<longleftrightarrow> rooted (gp_parent p) x s)"

lemma compressed_refl: "compressed p p"
  by (simp add: compressed_def)

lemma compressed_trans: "compressed p q \<Longrightarrow> compressed q r \<Longrightarrow> compressed p r"
  by (simp add: compressed_def)

lemma compressed_same: "compressed p q \<Longrightarrow> gp_same q x y = gp_same p x y"
  by (simp add: compressed_def gp_same_def)

lemma compressed_roots: "compressed p q \<Longrightarrow> roots (gp_parent q) = roots (gp_parent p)"
  by (auto simp: compressed_def roots_rooted)

lemma gp_Find_spec:
  assumes "gp_forest p" and "rooted (gp_parent p) g r"
  shows "\<exists>q. gp_Find g p = Some (q, Inr r) \<and> compressed p q \<and> gp_forest q \<and>
    gp_rep_to_set q = gp_rep_to_set p \<and> gp_non_identity_groups q = gp_non_identity_groups p \<and>
    gp_cache_valid q = gp_cache_valid p"
  using assms find_root_spec [of "gp_rank p" "gp_parent p" g r]
  by (auto simp: gp_Find_def gp_forest_def compressed_def gp_size_def)

lemma cache_ok_compressed:
  assumes "compressed p q" and "gp_rep_to_set q = gp_rep_to_set p"
    and "gp_non_identity_groups q = gp_non_identity_groups p"
  shows "cache_ok q = cache_ok p"
proof -
  have r: "rooted (gp_parent q) = rooted (gp_parent p)" and l: "length (gp_parent q) = length (gp_parent p)"
    using assms(1) by (simp_all add: compressed_def gp_size_def fun_eq_iff)
  show ?thesis unfolding cache_ok_def cached_sets_def compressed_roots [OF assms(1)] assms(2,3) r l by (rule refl)
qed

lemma gp_Find_inv:
  assumes "gp_inv p" and "g < gp_size p"
  shows "\<exists>q r. gp_Find g p = Some (q, Inr r) \<and> gp_inv q \<and> compressed p q \<and> rooted (gp_parent p) g r"
proof -
  have f: "gp_forest p" using assms(1) by (simp add: gp_inv_def)
  obtain r where r: "rooted (gp_parent p) g r" using gp_rooted [OF f assms(2)] by blast
  from gp_Find_spec [OF f r] obtain q where q: "gp_Find g p = Some (q, Inr r)" "compressed p q" "gp_forest q"
    "gp_rep_to_set q = gp_rep_to_set p" "gp_non_identity_groups q = gp_non_identity_groups p"
    "gp_cache_valid q = gp_cache_valid p" by blast
  then have "gp_inv q" using assms(1) cache_ok_compressed [OF q(2,4,5)] by (simp add: gp_inv_def)
  with q r show ?thesis by blast
qed

text \<open>Linking two roots joins their classes.\<close>

lemma gp_link_spec:
  assumes "gp_forest p" and "r1 \<in> roots (gp_parent p)" and "r2 \<in> roots (gp_parent p)" and "r1 \<noteq> r2"
  shows "gp_inv (gp_link r1 r2 p)" and "gp_size (gp_link r1 r2 p) = gp_size p"
    and "gp_same (gp_link r1 r2 p) x y \<longleftrightarrow> gp_same p x y \<or>
      (rooted (gp_parent p) x r1 \<and> rooted (gp_parent p) y r2) \<or> (rooted (gp_parent p) x r2 \<and> rooted (gp_parent p) y r1)"
proof -
  let ?P = "gp_parent p" let ?R = "gp_rank p"
  have f: "forest ?R ?P" using assms(1) by (simp add: gp_forest_def)
  have small: "(?R ! r1 + 1) mod TWO32 = ?R ! r1 + 1"
  proof -
    have "?R ! r1 + card (roots ?P) \<le> length ?P" "r1 < length ?P"
      using f assms(2) by (auto simp: forest_def roots_def)
    moreover have "0 < card (roots ?P)" using assms(2) by (auto simp: card_gt_0_iff)
    moreover have "length ?P \<le> UINT32_MAX" using assms(1) by (simp add: gp_forest_def gp_size_def)
    ultimately show ?thesis by simp
  qed
  define c t where "c = (if ?R ! r1 < ?R ! r2 then r1 else r2)" and "t = (if ?R ! r1 < ?R ! r2 then r2 else r1)"
  define R' where "R' = (if ?R ! r1 = ?R ! r2 then ?R[r1 := ?R ! r1 + 1] else ?R)"
  have ct: "c \<in> roots ?P" "t \<in> roots ?P" "c \<noteq> t" "{c, t} = {r1, r2}" using assms by (auto simp: c_def t_def)
  have link: "gp_parent (gp_link r1 r2 p) = ?P[c := t]" "gp_rank (gp_link r1 r2 p) = R'"
    "\<not> gp_cache_valid (gp_link r1 r2 p)"
    using small by (auto simp: gp_link_def Let_def c_def t_def R'_def)
  have "R' = ?R \<and> ?R ! c < ?R ! t \<or> R' = ?R[t := ?R ! t + 1] \<and> ?R ! c = ?R ! t"
    by (auto simp: R'_def c_def t_def)
  from forest_link [OF f ct(1-3) this] show "gp_inv (gp_link r1 r2 p)"
    using assms(1) link by (simp add: gp_inv_def gp_forest_def gp_size_def)
  show "gp_size (gp_link r1 r2 p) = gp_size p" by (simp add: gp_size_def link)
  have "gp_same (gp_link r1 r2 p) x y \<longleftrightarrow> gp_same p x y \<or>
      (rooted ?P x c \<and> rooted ?P y t) \<or> (rooted ?P x t \<and> rooted ?P y c)"
    unfolding gp_same_def link rooted_link [OF f ct(1-3)] using ct(3) by blast
  then show "gp_same (gp_link r1 r2 p) x y \<longleftrightarrow> gp_same p x y \<or>
      (rooted ?P x r1 \<and> rooted ?P y r2) \<or> (rooted ?P x r2 \<and> rooted ?P y r1)"
    using ct(4) by (auto simp: doubleton_eq_iff)
qed

lemma gp_same_rooted: "rooted (gp_parent p) g r \<Longrightarrow> gp_same p x g \<longleftrightarrow> rooted (gp_parent p) x r"
  unfolding gp_same_def using rooted_unique by blast

lemma gp_same_sym: "gp_same p x y = gp_same p y x"
  unfolding gp_same_def by blast

lemma gp_same_symD: "gp_same p x y \<Longrightarrow> gp_same p y x"
  unfolding gp_same_def by blast

lemma gp_same_trans: "gp_same p x y \<Longrightarrow> gp_same p y z \<Longrightarrow> gp_same p x z"
  unfolding gp_same_def using rooted_unique by blast

lemma gp_same_refl: "gp_forest p \<Longrightarrow> gp_same p x x \<longleftrightarrow> x < gp_size p"
  unfolding gp_same_def gp_size_def using gp_rooted gp_size_def rooted_bounds by metis

text \<open>\<open>q\<close> is \<open>p\<close> with all classes that meet \<open>A\<close> joined into one.\<close>

definition touches :: "glyph_partition \<Rightarrow> nat \<Rightarrow> nat set \<Rightarrow> bool" where
  "touches p x A \<longleftrightarrow> (\<exists>a \<in> A. gp_same p x a)"

definition joined :: "glyph_partition \<Rightarrow> glyph_partition \<Rightarrow> nat set \<Rightarrow> bool" where
  "joined p q A \<longleftrightarrow> gp_size q = gp_size p \<and>
     (\<forall>x y. gp_same q x y \<longleftrightarrow> gp_same p x y \<or> (touches p x A \<and> touches p y A))"

lemma joined_refl: "joined p p {a}"
  unfolding joined_def touches_def using gp_same_sym gp_same_trans by (metis singletonD)

lemma joined_compressed: "compressed p p' \<Longrightarrow> joined p' q A \<Longrightarrow> joined p q A"
  using compressed_same [of p p'] by (simp add: joined_def touches_def compressed_def)

lemma joined_after: "joined p q A \<Longrightarrow> compressed q q' \<Longrightarrow> joined p q' A"
  using compressed_same [of q q'] by (simp add: joined_def compressed_def)

lemma touches_joined:
  assumes "joined p q A" and "f \<in> A" and "f \<in> B" and "gp_same p f f"
  shows "touches q x B \<longleftrightarrow> touches p x (A \<union> B)"
proof
  assume "touches q x B"
  then obtain b where "b \<in> B" "gp_same q x b" by (auto simp: touches_def)
  with assms(1) show "touches p x (A \<union> B)" by (auto simp: joined_def touches_def)
next
  assume "touches p x (A \<union> B)"
  then consider a where "a \<in> A" "gp_same p x a" | b where "b \<in> B" "gp_same p x b" by (auto simp: touches_def)
  then show "touches q x B"
  proof cases
    case (1 a)
    then have "gp_same q x f" using assms by (auto simp: joined_def touches_def)
    with assms(3) show ?thesis by (auto simp: touches_def)
  next
    case (2 b)
    then show ?thesis using assms(1) by (auto simp: joined_def touches_def)
  qed
qed

lemma joined_trans:
  assumes "joined p q A" and "joined q r B" and f: "f \<in> A" "f \<in> B" "gp_same p f f"
  shows "joined p r (A \<union> B)"
proof -
  note t = touches_joined [OF assms(1) f]
  have "touches p x A \<Longrightarrow> touches p x (A \<union> B)" for x by (auto simp: touches_def)
  with assms(1,2) t show ?thesis unfolding joined_def by (simp; blast)
qed

lemma gp_Union_spec:
  assumes inv: "gp_inv p" and g: "g1 < gp_size p" "g2 < gp_size p"
  shows "\<exists>q. gp_Union g1 g2 p = Some (q, Inr ()) \<and> gp_inv q \<and> joined p q {g1, g2}"
proof -
  obtain p1 r1 where f1: "gp_Find g1 p = Some (p1, Inr r1)" "gp_inv p1" "compressed p p1" "rooted (gp_parent p) g1 r1"
    using gp_Find_inv [OF inv g(1)] by blast
  have "g2 < gp_size p1" using f1(3) g(2) by (simp add: compressed_def)
  from gp_Find_inv [OF f1(2) this] obtain p2 r2 where
    f2: "gp_Find g2 p1 = Some (p2, Inr r2)" "gp_inv p2" "compressed p1 p2" "rooted (gp_parent p1) g2 r2" by blast
  have c: "compressed p p2" by (rule compressed_trans [OF f1(3) f2(3)])
  have r: "rooted (gp_parent p2) g1 r1" "rooted (gp_parent p2) g2 r2"
    using f1(4) f2(3,4) c by (auto simp: compressed_def)
  have same: "gp_same p x g1 \<longleftrightarrow> rooted (gp_parent p2) x r1" "gp_same p x g2 \<longleftrightarrow> rooted (gp_parent p2) x r2" for x
    using gp_same_rooted [OF r(1)] gp_same_rooted [OF r(2)] compressed_same [OF c] by simp_all
  have U: "gp_Union g1 g2 p = (if r1 = r2 then Some (p2, Inr ()) else Some (gp_link r1 r2 p2, Inr ()))"
    using g f1(1) f2(1) by (simp add: gp_Union_def gp_size_def)
  show ?thesis
  proof (cases "r1 = r2")
    case True
    have "gp_same p2 x y \<longleftrightarrow> gp_same p x y \<or> (touches p x {g1, g2} \<and> touches p y {g1, g2})" for x y
      unfolding touches_def compressed_same [OF c] using same True gp_same_trans gp_same_sym
      by (metis (no_types, lifting) insert_iff singletonD)
    then have "joined p p2 {g1, g2}" using c by (simp add: joined_def compressed_def)
    with U True f2(2) show ?thesis by simp
  next
    case False
    have roots: "r1 \<in> roots (gp_parent p2)" "r2 \<in> roots (gp_parent p2)"
      using rooted_bounds [OF r(1)] rooted_bounds [OF r(2)] by (simp_all add: roots_def)
    have "gp_forest p2" using f2(2) by (simp add: gp_inv_def)
    note l = gp_link_spec [OF this roots False]
    have "gp_same (gp_link r1 r2 p2) x y \<longleftrightarrow> gp_same p x y \<or> (touches p x {g1, g2} \<and> touches p y {g1, g2})" for x y
      unfolding l(3) touches_def compressed_same [OF c] using same gp_same_trans gp_same_sym
      by (metis (no_types, lifting) insert_iff singletonD)
    then have "joined p (gp_link r1 r2 p2) {g1, g2}" using l(2) c by (simp add: joined_def compressed_def)
    with U False l(1) show ?thesis by simp
  qed
qed

text \<open>A set of glyphs, and the error of an id out of range.\<close>

lemma gp_Union_rest_spec:
  assumes "gp_inv p" and "f < gp_size p" and "\<forall>g \<in> set gids. g < gp_size p"
  shows "\<exists>q. gp_Union_rest f gids p = Some (q, Inr ()) \<and> gp_inv q \<and> joined p q (insert f (set gids))"
  using assms
proof (induction gids arbitrary: p)
  case Nil
  then show ?case using joined_refl by simp
next
  case (Cons g gids)
  obtain q where q: "gp_Union f g p = Some (q, Inr ())" "gp_inv q" "joined p q {f, g}"
    using gp_Union_spec [of p f g] Cons.prems by auto
  have size: "gp_size q = gp_size p" using q(3) by (simp add: joined_def)
  obtain r where r: "gp_Union_rest f gids q = Some (r, Inr ())" "gp_inv r" "joined q r (insert f (set gids))"
    using Cons.IH [OF q(2)] Cons.prems size by auto
  have "gp_same p f f" using gp_same_refl Cons.prems by (simp add: gp_inv_def)
  from joined_trans [OF q(3) r(3) _ _ this] have "joined p r (insert f (set (g # gids)))"
    by (simp add: insert_commute)
  then show ?case using q(1) r Cons.prems(3) by (simp add: gp_size_def)
qed

lemma gp_Union_set_spec:
  assumes "gp_inv p" and "\<forall>g \<in> members S. g < gp_size p"
  shows "\<exists>q. gp_Union_set S p = Some (q, Inr ()) \<and> gp_inv q \<and> joined p q (members S)"
proof (cases "to_vector S")
  case Nil
  then have "members S = {}" by (simp add: members_def del: set_to_vector)
  then show ?thesis using assms(1) Nil by (simp add: gp_Union_set_def joined_def touches_def)
next
  case (Cons f gids)
  then have m: "members S = insert f (set gids)" by (simp add: members_def del: set_to_vector)
  with gp_Union_rest_spec [OF assms(1), of f gids] assms(2) Cons show ?thesis
    by (auto simp: gp_Union_set_def gp_size_def)
qed

section \<open>The cache\<close>

definition partial_cache :: "nat set \<Rightarrow> glyph_partition \<Rightarrow> bool" where
  "partial_cache done p \<longleftrightarrow> (\<forall>r. case gp_rep_to_set p r of None \<Rightarrow> \<not> (\<exists>x \<in> done. rooted (gp_parent p) x r)
     | Some S \<Rightarrow> (\<exists>x \<in> done. rooted (gp_parent p) x r) \<and> members S = {x \<in> done. rooted (gp_parent p) x r})"

lemma Rebuild_loop_spec:
  assumes "gp_forest p" and "\<forall>g \<in> set gids. g < gp_size p" and "partial_cache D p"
  shows "\<exists>q. Rebuild_loop gids p = Some (q, Inr ()) \<and> gp_forest q \<and> compressed p q \<and> partial_cache (D \<union> set gids) q"
  using assms
proof (induction gids arbitrary: p D)
  case Nil
  then show ?case using compressed_refl by simp
next
  case (Cons i gids)
  have i: "i < gp_size p" "i < UINT32_MAX" using Cons.prems by (auto simp: gp_forest_def)
  obtain r where r: "rooted (gp_parent p) i r" using gp_rooted [OF Cons.prems(1) i(1)] by blast
  obtain q where q: "gp_Find i p = Some (q, Inr r)" "compressed p q" "gp_forest q" "gp_rep_to_set q = gp_rep_to_set p"
    using gp_Find_spec [OF Cons.prems(1) r] by blast
  define S where "S = IntSet_insert i (case gp_rep_to_set q r of None \<Rightarrow> IntSet_empty | Some S \<Rightarrow> S)"
  define q' where "q' = q\<lparr>gp_rep_to_set := (gp_rep_to_set q)(r \<mapsto> S)\<rparr>"
  have same: "rooted (gp_parent q') x s = rooted (gp_parent p) x s" for x s
    using q(2) by (simp add: q'_def compressed_def)
  have old: "case gp_rep_to_set p s of None \<Rightarrow> \<not> (\<exists>x \<in> D. rooted (gp_parent p) x s)
     | Some S \<Rightarrow> (\<exists>x \<in> D. rooted (gp_parent p) x s) \<and> members S = {x \<in> D. rooted (gp_parent p) x s}" for s
    using Cons.prems(3) by (simp add: partial_cache_def)
  have other: "s \<noteq> r \<Longrightarrow> \<not> rooted (gp_parent p) i s" for s using rooted_unique [OF r] by blast
  have S: "members S = {x \<in> insert i D. rooted (gp_parent p) x r}"
    using old [of r] r i(2) q(4) by (auto simp: S_def split: option.splits)
  have "partial_cache (insert i D) q'"
    unfolding partial_cache_def same
  proof
    fix s
    show "case gp_rep_to_set q' s of None \<Rightarrow> \<not> (\<exists>x \<in> insert i D. rooted (gp_parent p) x s)
     | Some S \<Rightarrow> (\<exists>x \<in> insert i D. rooted (gp_parent p) x s) \<and> members S = {x \<in> insert i D. rooted (gp_parent p) x s}"
    proof (cases "s = r")
      case True
      then show ?thesis using S r by (simp add: q'_def)
    next
      case False
      then have "{x \<in> insert i D. rooted (gp_parent p) x s} = {x \<in> D. rooted (gp_parent p) x s}"
        using other by blast
      with False old [of s] other [of s] show ?thesis
        by (cases "gp_rep_to_set p s") (simp_all add: q'_def q(4))
    qed
  qed
  moreover have "gp_forest q'" "gp_size q' = gp_size p" "compressed p q'"
    using q(2,3) by (simp_all add: q'_def gp_forest_def gp_size_def compressed_def)
  ultimately obtain t where t: "Rebuild_loop gids q' = Some (t, Inr ())" "gp_forest t" "compressed q' t"
    "partial_cache (insert i D \<union> set gids) t"
    using Cons.IH [of q' "insert i D"] Cons.prems(2) by auto
  have "Rebuild_loop (i # gids) p = Rebuild_loop gids q'" using q(1) by (simp add: q'_def S_def)
  with t compressed_trans [OF \<open>compressed p q'\<close> t(3)] show ?case by auto
qed

lemma RebuildCache_spec:
  assumes "gp_forest p"
  shows "\<exists>q. RebuildCache p = Some (q, Inr ()) \<and> gp_inv q \<and> gp_cache_valid q \<and> compressed p q"
proof -
  let ?p = "p\<lparr>gp_rep_to_set := (\<lambda>_. None)\<rparr>" let ?n = "length (gp_parent p)"
  have "gp_forest ?p" "\<forall>g \<in> set [0..<?n]. g < gp_size ?p" "partial_cache {} ?p"
    using assms by (simp_all add: gp_forest_def gp_size_def partial_cache_def)
  from Rebuild_loop_spec [OF this] obtain q where q: "Rebuild_loop [0..<?n] ?p = Some (q, Inr ())" "gp_forest q"
    "compressed ?p q" "partial_cache {0..<?n} q" by auto
  let ?q = "q\<lparr>gp_non_identity_groups := sort (filter (\<lambda>gids. 1 < IntSet_size gids) (cached_sets q)),
             gp_cache_valid := True\<rparr>"
  have "rooted (gp_parent q) x r \<Longrightarrow> x < ?n" for x r
    using rooted_bounds q(3) by (fastforce simp: compressed_def gp_size_def)
  moreover have "r \<in> roots (gp_parent q) \<longleftrightarrow> (\<exists>x. rooted (gp_parent q) x r)" for r
    using rooted_bounds [of "gp_parent q" _ r] by (auto simp: roots_def intro: rooted.here)
  ultimately have "cache_ok ?q"
    using q(4) by (auto simp: cache_ok_def partial_cache_def cached_sets_def split: option.splits; fastforce)
  then have "gp_inv ?q" using q(2) by (simp add: gp_inv_def gp_forest_def gp_size_def)
  moreover have "compressed p ?q" using q(3) by (simp add: compressed_def gp_size_def)
  moreover have "RebuildCache p = Some (?q, Inr ())" using q(1) by (simp add: RebuildCache_def)
  ultimately show ?thesis by auto
qed

lemma cache_okD: "cache_ok p \<Longrightarrow> case gp_rep_to_set p r of None \<Rightarrow> r \<notin> roots (gp_parent p)
    | Some S \<Rightarrow> r \<in> roots (gp_parent p) \<and> members S = {x. rooted (gp_parent p) x r}"
  by (simp add: cache_ok_def)

lemma ensure_cache_spec:
  assumes "gp_inv p"
  shows "\<exists>q. ensure_cache p = Some (q, Inr ()) \<and> gp_inv q \<and> cache_ok q \<and> compressed p q"
proof (cases "gp_cache_valid p")
  case True
  then show ?thesis using assms compressed_refl by (simp add: ensure_cache_def gp_inv_def)
next
  case False
  from RebuildCache_spec [of p] assms obtain q where
    "RebuildCache p = Some (q, Inr ())" "gp_inv q" "gp_cache_valid q" "compressed p q" by (auto simp: gp_inv_def)
  with False show ?thesis by (simp add: ensure_cache_def gp_inv_def)
qed

lemma GlyphsFor_spec:
  assumes "gp_inv p" and "g < gp_size p"
  shows "\<exists>q S. GlyphsFor g p = Some (q, Inr S) \<and> gp_inv q \<and> compressed p q \<and> members S = gp_class p g"
proof -
  obtain p1 where p1: "ensure_cache p = Some (p1, Inr ())" "gp_inv p1" "cache_ok p1" "compressed p p1"
    using ensure_cache_spec [OF assms(1)] by blast
  have f1: "gp_forest p1" and g1: "g < gp_size p1" using p1 assms(2) by (simp_all add: gp_inv_def compressed_def)
  obtain r where r: "rooted (gp_parent p1) g r" using gp_rooted [OF f1 g1] by blast
  obtain q where q: "gp_Find g p1 = Some (q, Inr r)" "compressed p1 q" "gp_forest q"
    "gp_rep_to_set q = gp_rep_to_set p1" "gp_non_identity_groups q = gp_non_identity_groups p1"
    "gp_cache_valid q = gp_cache_valid p1"
    using gp_Find_spec [OF f1 r] by blast
  have "r \<in> roots (gp_parent p1)" using rooted_bounds [OF r] by (simp add: roots_def)
  then obtain S where S: "gp_rep_to_set p1 r = Some S" "members S = {x. rooted (gp_parent p1) x r}"
    using p1(3) by (fastforce simp: cache_ok_def split: option.splits)
  have "gp_inv q" using q cache_ok_compressed [OF q(2,4,5)] p1(3) by (simp add: gp_inv_def)
  moreover have "compressed p q" by (rule compressed_trans [OF p1(4) q(2)])
  moreover have "members S = gp_class p g"
    using S(2) gp_same_rooted [OF r] compressed_same [OF p1(4)] gp_same_sym [of p] by (auto simp: gp_class_def)
  moreover have "GlyphsFor g p = Some (q, Inr S)"
    using assms(2) p1(1) q(1,4) S(1) by (simp add: GlyphsFor_def gp_size_def)
  ultimately show ?thesis by blast
qed

lemma NonIdentityGroups_spec:
  assumes "gp_inv p"
  shows "\<exists>q Ss. NonIdentityGroups p = Some (q, Inr Ss) \<and> gp_inv q \<and> compressed p q \<and> sorted Ss \<and>
    members ` set Ss = {C. \<exists>x < gp_size p. C = gp_class p x \<and> 1 < card C}"
proof -
  obtain q where q: "ensure_cache p = Some (q, Inr ())" "gp_inv q" "cache_ok q" "compressed p q"
    using ensure_cache_spec [OF assms(1)] by blast
  have f: "gp_forest q" using q(2) by (simp add: gp_inv_def)
  have cls: "r \<in> roots (gp_parent q) \<Longrightarrow> {x. rooted (gp_parent q) x r} = gp_class p r" for r
    using gp_same_rooted [of q r r] roots_rooted compressed_same [OF q(4)] gp_same_sym [of p]
    by (auto simp: gp_class_def)
  have groups: "gp_non_identity_groups q = sort (filter (\<lambda>gids. 1 < IntSet_size gids) (cached_sets q))"
    using q(3) by (simp add: cache_ok_def)
  have cached: "S \<in> set (cached_sets q) \<longleftrightarrow> (\<exists>r < gp_size q. gp_rep_to_set q r = Some S)" for S
    by (force simp: cached_sets_def List.map_filter_def gp_size_def)
  have sets: "case gp_rep_to_set q r of None \<Rightarrow> r \<notin> roots (gp_parent q)
      | Some S \<Rightarrow> r \<in> roots (gp_parent q) \<and> members S = gp_class p r" for r
    using cache_okD [OF q(3), of r] cls [of r] by (cases "gp_rep_to_set q r") simp_all
  have "members ` set (gp_non_identity_groups q) = {C. \<exists>x < gp_size p. C = gp_class p x \<and> 1 < card C}"
  proof (intro set_eqI iffI)
    fix C assume "C \<in> members ` set (gp_non_identity_groups q)"
    then obtain S r where "C = members S" "1 < IntSet_size S" "r < gp_size q" "gp_rep_to_set q r = Some S"
      by (auto simp: groups cached)
    with sets [of r] q(4) show "C \<in> {C. \<exists>x < gp_size p. C = gp_class p x \<and> 1 < card C}"
      by (auto simp: size_eq_card compressed_def)
  next
    fix C assume "C \<in> {C. \<exists>x < gp_size p. C = gp_class p x \<and> 1 < card C}"
    then obtain x where x: "x < gp_size p" "C = gp_class p x" "1 < card C" by blast
    then have "x < gp_size q" using q(4) by (simp add: compressed_def)
    then obtain r where r: "rooted (gp_parent q) x r" using gp_rooted [OF f] by blast
    then have root: "r \<in> roots (gp_parent q)" "r < gp_size q"
      using rooted_bounds [OF r] by (simp_all add: roots_def gp_size_def)
    with sets [of r] obtain S where S: "gp_rep_to_set q r = Some S" "members S = gp_class p r"
      by (auto split: option.splits)
    have "gp_same p x r" using gp_same_rooted [OF root(1) [unfolded roots_rooted]] r compressed_same [OF q(4)] by simp
    then have "gp_class p r = gp_class p x"
      unfolding gp_class_def using gp_same_trans gp_same_sym by blast
    with S x root(2) have "S \<in> set (gp_non_identity_groups q)" "members S = C"
      by (auto simp: groups cached size_eq_card)
    then show "C \<in> members ` set (gp_non_identity_groups q)" by blast
  qed
  moreover have "sorted (gp_non_identity_groups q)" by (simp add: groups)
  moreover have "NonIdentityGroups p = Some (q, Inr (gp_non_identity_groups q))"
    using q(1) by (simp add: NonIdentityGroups_def)
  ultimately show ?thesis using q(2,4) by blast
qed

text \<open>Joining with another partition gives the finest partition coarser than both.\<close>

definition gp_linked :: "glyph_partition \<Rightarrow> glyph_partition \<Rightarrow> nat \<Rightarrow> nat \<Rightarrow> bool" where
  "gp_linked p o' = (\<lambda>x y. gp_same p x y \<or> gp_same o' x y)\<^sup>*\<^sup>*"

lemma gp_linked_sym: "gp_linked p o' x y \<Longrightarrow> gp_linked p o' y x"
proof -
  have "symp (\<lambda>x y. gp_same p x y \<or> gp_same o' x y)"
    using gp_same_sym by (auto intro!: sympI)
  then show "gp_linked p o' x y \<Longrightarrow> gp_linked p o' y x"
    unfolding gp_linked_def using symp_rtranclp sympD by metis
qed

lemma gp_Union_sets_spec:
  assumes "gp_inv p" and "\<forall>S \<in> set Ss. \<forall>g \<in> members S. g < gp_size p"
    and "\<forall>S \<in> set Ss. \<forall>x \<in> members S. \<forall>y \<in> members S. R x y"
    and R: "\<And>x y. R x y \<Longrightarrow> R y x" "\<And>x y z. R x y \<Longrightarrow> R y z \<Longrightarrow> R x z" "\<And>x y. gp_same p x y \<Longrightarrow> R x y"
  shows "\<exists>q. gp_Union_sets Ss p = Some (q, Inr ()) \<and> gp_inv q \<and> gp_size q = gp_size p \<and>
    (\<forall>x y. gp_same p x y \<longrightarrow> gp_same q x y) \<and> (\<forall>x y. gp_same q x y \<longrightarrow> R x y) \<and>
    (\<forall>S \<in> set Ss. \<forall>x \<in> members S. \<forall>y \<in> members S. gp_same q x y)"
  using assms(1-3) R(3)
proof (induction Ss arbitrary: p)
  case Nil
  then show ?case by simp
next
  case (Cons S Ss)
  obtain p1 where p1: "gp_Union_set S p = Some (p1, Inr ())" "gp_inv p1" "joined p p1 (members S)"
    using gp_Union_set_spec [of p S] Cons.prems(1,2) by auto
  have size: "gp_size p1 = gp_size p" using p1(3) by (simp add: joined_def)
  have le: "gp_same p x y \<Longrightarrow> gp_same p1 x y" for x y using p1(3) by (simp add: joined_def)
  have inR: "R x y" if xy: "gp_same p1 x y" for x y
  proof -
    from xy p1(3) consider "gp_same p x y" | a b where "a \<in> members S" "gp_same p x a" "b \<in> members S" "gp_same p y b"
      by (auto simp: joined_def touches_def)
    then show ?thesis
    proof cases
      case 2
      then have "R x a" "R a b" "R b y" using Cons.prems(3,4) R(1) by auto
      then show ?thesis using R(2) by blast
    qed (use Cons.prems(4) in blast)
  qed
  obtain q where q: "gp_Union_sets Ss p1 = Some (q, Inr ())" "gp_inv q" "gp_size q = gp_size p1"
    "\<forall>x y. gp_same p1 x y \<longrightarrow> gp_same q x y" "\<forall>x y. gp_same q x y \<longrightarrow> R x y"
    "\<forall>S \<in> set Ss. \<forall>x \<in> members S. \<forall>y \<in> members S. gp_same q x y"
    using Cons.IH [OF p1(2)] Cons.prems(2,3) size inR by auto
  have "gp_same q x y" if "x \<in> members S" "y \<in> members S" for x y
  proof -
    have "gp_same p x x" "gp_same p y y"
      using that Cons.prems(1,2) gp_same_refl by (auto simp: gp_inv_def)
    then have "gp_same p1 x y" using that p1(3) by (auto simp: joined_def touches_def)
    with q(4) show ?thesis by blast
  qed
  then show ?case using p1(1) q size le by auto
qed

lemma gp_Union_partition_spec:
  assumes p: "gp_inv p" and o': "gp_inv o'" and size: "gp_size o' = gp_size p"
  shows "\<exists>o'' q. gp_Union_partition o' p = Some (o'', q, Inr ()) \<and> gp_inv q \<and> gp_inv o'' \<and> compressed o' o'' \<and>
    gp_size q = gp_size p \<and> (\<forall>x y. x < gp_size p \<longrightarrow> (gp_same q x y \<longleftrightarrow> gp_linked p o' x y))"
proof -
  obtain o'' Ss where n: "NonIdentityGroups o' = Some (o'', Inr Ss)" "gp_inv o''" "compressed o' o''"
    "members ` set Ss = {C. \<exists>x < gp_size o'. C = gp_class o' x \<and> 1 < card C}"
    using NonIdentityGroups_spec [OF o'] by blast
  have cls: "\<exists>z. members S = gp_class o' z" if "S \<in> set Ss" for S
    using n(4) that by blast
  have bound: "gp_same o' x y \<Longrightarrow> x < gp_size p" for x y
    using rooted_bounds size by (fastforce simp: gp_same_def gp_size_def)
  have b: "\<forall>S \<in> set Ss. \<forall>g \<in> members S. g < gp_size p"
    using cls bound gp_same_sym unfolding gp_class_def by (metis mem_Collect_eq)
  have rel: "\<forall>S \<in> set Ss. \<forall>x \<in> members S. \<forall>y \<in> members S. gp_linked p o' x y"
  proof (intro ballI)
    fix S x y assume S: "S \<in> set Ss" and xy: "x \<in> members S" "y \<in> members S"
    obtain z where "members S = gp_class o' z" using cls [OF S] by blast
    with xy have "gp_same o' z x" "gp_same o' z y" by (simp_all add: gp_class_def)
    then have "gp_same o' x y" using gp_same_trans gp_same_sym by blast
    then show "gp_linked p o' x y" unfolding gp_linked_def by blast
  qed
  have trans: "gp_linked p o' x y \<Longrightarrow> gp_linked p o' y z \<Longrightarrow> gp_linked p o' x z" for x y z
    unfolding gp_linked_def by (rule rtranclp_trans)
  have base: "gp_same p x y \<Longrightarrow> gp_linked p o' x y" for x y unfolding gp_linked_def by blast
  have "\<exists>q. gp_Union_sets Ss p = Some (q, Inr ()) \<and> gp_inv q \<and> gp_size q = gp_size p \<and>
    (\<forall>x y. gp_same p x y \<longrightarrow> gp_same q x y) \<and> (\<forall>x y. gp_same q x y \<longrightarrow> gp_linked p o' x y) \<and>
    (\<forall>S \<in> set Ss. \<forall>x \<in> members S. \<forall>y \<in> members S. gp_same q x y)"
    by (rule gp_Union_sets_spec [OF p b rel]) (erule gp_linked_sym, erule (1) trans, erule base)
  then obtain q where Q: "gp_Union_sets Ss p = Some (q, Inr ()) \<and> gp_inv q \<and> gp_size q = gp_size p \<and>
    (\<forall>x y. gp_same p x y \<longrightarrow> gp_same q x y) \<and> (\<forall>x y. gp_same q x y \<longrightarrow> gp_linked p o' x y) \<and>
    (\<forall>S \<in> set Ss. \<forall>x \<in> members S. \<forall>y \<in> members S. gp_same q x y)" by (rule exE)
  then have q: "gp_Union_sets Ss p = Some (q, Inr ())" "gp_inv q" "gp_size q = gp_size p"
    "\<forall>x y. gp_same p x y \<longrightarrow> gp_same q x y" "\<forall>x y. gp_same q x y \<longrightarrow> gp_linked p o' x y"
    "\<forall>S \<in> set Ss. \<forall>x \<in> members S. \<forall>y \<in> members S. gp_same q x y" by - (elim conjE; assumption)+
  have fq: "gp_forest q" using q(2) by (simp add: gp_inv_def)
  have other: "gp_same q x y" if xy: "gp_same o' x y" for x y
  proof (cases "x = y")
    case True
    then show ?thesis using bound [OF xy] gp_same_refl [OF fq] q(3) by simp
  next
    case False
    have "gp_class o' x \<subseteq> {..<gp_size p}"
      using bound [OF gp_same_symD] by (simp add: gp_class_def subset_iff)
    then have "finite (gp_class o' x)" by (rule finite_subset) simp
    moreover have "gp_same o' x x" by (rule gp_same_trans [OF xy gp_same_symD [OF xy]])
    then have "{x, y} \<subseteq> gp_class o' x" using xy by (simp add: gp_class_def)
    ultimately have "card {x, y} \<le> card (gp_class o' x)" by (rule card_mono)
    then have "1 < card (gp_class o' x)" using False by simp
    moreover have "x < gp_size o'" using bound [OF xy] size by simp
    ultimately have "gp_class o' x \<in> members ` set Ss" unfolding n(4) by (intro CollectI exI [of _ x]) simp
    then obtain S where "S \<in> set Ss" "x \<in> members S" "y \<in> members S"
      using \<open>{x, y} \<subseteq> gp_class o' x\<close> by auto
    with q(6) show ?thesis by simp
  qed
  have "gp_linked p o' x y \<Longrightarrow> x < gp_size p \<Longrightarrow> gp_same q x y" for x y
    unfolding gp_linked_def
  proof (induction rule: rtranclp_induct)
    case base
    then show ?case using gp_same_refl [OF fq] q(3) by simp
  next
    case (step y z)
    from step.hyps(2) have "gp_same q y z" using other q(4) by (elim disjE) simp_all
    with step show ?case by (intro gp_same_trans [of q x y z]) simp_all
  qed
  moreover have "gp_Union_partition o' p = Some (o'', q, Inr ())"
    using n(1) q(1) size by (simp add: gp_Union_partition_def gp_size_def)
  ultimately show ?thesis using q n(2,3) by blast
qed


section \<open>Every call returns and keeps the invariant\<close>

definition keeps :: "(glyph_partition \<Rightarrow> bool) \<Rightarrow> 'a gp_op \<Rightarrow> bool" where
  "keeps I f \<longleftrightarrow> (\<forall>p. I p \<longrightarrow> (\<exists>q r. f p = Some (q, r) \<and> I q))"

lemma keepsI: "(\<And>p. I p \<Longrightarrow> \<exists>q r. f p = Some (q, r) \<and> I q) \<Longrightarrow> keeps I f"
  by (simp add: keeps_def)

lemma keepsD: "keeps I f \<Longrightarrow> I p \<Longrightarrow> \<exists>q r. f p = Some (q, r) \<and> I q"
  by (simp add: keeps_def)

lemma keeps_step: "keeps I f \<Longrightarrow> I p \<Longrightarrow> f p = Some (q, r) \<Longrightarrow> I q"
  using keepsD by fastforce

lemma keeps_bind:
  assumes "keeps I f" and "\<And>x. keeps I (g x)"
  shows "keeps I (\<lambda>p. gp_bind (f p) g)"
proof (rule keepsI)
  fix p assume "I p"
  from keepsD [OF assms(1) this] obtain q r where q: "f p = Some (q, r)" "I q" by blast
  show "\<exists>q r. gp_bind (f p) g = Some (q, r) \<and> I q"
    using q keepsD [OF assms(2) q(2)] by (cases r) simp_all
qed

text \<open>
  What the calls on a partition need of an invariant, and what follows for those that are made of others. It
  is met by the full invariant, and by the part of it that does not speak of the cache.
\<close>

locale partition_invariant =
  fixes I :: "glyph_partition \<Rightarrow> bool"
  assumes keeps_Find: "keeps I (gp_Find g)"
    and keeps_Union: "keeps I (gp_Union g h)"
    and keeps_GlyphsFor: "keeps I (GlyphsFor g)"
    and keeps_NonIdentityGroups: "keeps I NonIdentityGroups"
begin

lemma keeps_Union_rest: "keeps I (gp_Union_rest f gids)"
proof (induction gids)
  case (Cons g gids)
  have bind: "keeps I (\<lambda>p. gp_bind (gp_Union f g p) (\<lambda>_. gp_Union_rest f gids))"
    by (rule keeps_bind [OF keeps_Union Cons.IH])
  show ?case
    by (rule keepsI) (use keepsD [OF bind] in simp)
qed (simp add: keeps_def)

lemma keeps_Union_set: "keeps I (gp_Union_set S)"
  by (rule keepsI)
    (use keepsD [OF keeps_Union_rest] in \<open>auto simp: gp_Union_set_def split: list.split\<close>)

lemma keeps_Union_sets: "keeps I (gp_Union_sets Ss)"
proof (induction Ss)
  case (Cons S Ss)
  show ?case
    by (rule keepsI) (use keepsD [OF keeps_bind [OF keeps_Union_set Cons.IH]] in simp)
qed (simp add: keeps_def)

lemma Union_partition_returns:
  assumes "I p" and "I o'"
  shows "\<exists>o'' q r. gp_Union_partition o' p = Some (o'', q, r) \<and> I o'' \<and> I q"
proof (cases "length (gp_parent o') = length (gp_parent p)")
  case True
  obtain o'' r where o'': "NonIdentityGroups o' = Some (o'', r)" "I o''"
    using keepsD [OF keeps_NonIdentityGroups assms(2)] by blast
  show ?thesis
  proof (cases r)
    case (Inl e)
    with o'' True assms(1) show ?thesis by (simp add: gp_Union_partition_def)
  next
    case (Inr sets)
    from keepsD [OF keeps_Union_sets assms(1), of sets] Inr o'' True show ?thesis
      by (auto simp: gp_Union_partition_def)
  qed
qed (use assms in \<open>simp add: gp_Union_partition_def\<close>)

lemma all_calls_return:
  assumes "I p" and "I o'"
  shows "gp_Find g p \<noteq> None \<and> gp_Union g h p \<noteq> None \<and> gp_Union_set S p \<noteq> None \<and> GlyphsFor g p \<noteq> None \<and>
    NonIdentityGroups p \<noteq> None \<and> gp_Union_partition o' p \<noteq> None"
  using keepsD [OF keeps_Find assms(1), of g] keepsD [OF keeps_Union assms(1), of g h]
    keepsD [OF keeps_Union_set assms(1), of S] keepsD [OF keeps_GlyphsFor assms(1), of g]
    keepsD [OF keeps_NonIdentityGroups assms(1)] Union_partition_returns [OF assms]
  by (elim exE conjE) simp

end

lemma gp_Find_out_of_range: "gp_size p \<le> g \<Longrightarrow> gp_Find g p = Some (p, Inl InvalidArgumentError)"
  using find_root_out_of_range [of "gp_parent p" g] by (simp add: gp_Find_def gp_size_def)

interpretation cached: partition_invariant gp_inv
proof
  show "keeps gp_inv (gp_Find g)" for g
  proof (rule keepsI)
    fix p assume inv: "gp_inv p"
    show "\<exists>q r. gp_Find g p = Some (q, r) \<and> gp_inv q"
      using gp_Find_inv [OF inv, of g] gp_Find_out_of_range [of p g] inv by (cases "g < gp_size p") fastforce+
  qed
  show "keeps gp_inv (gp_Union g h)" for g h
  proof (rule keepsI)
    fix p assume inv: "gp_inv p"
    show "\<exists>q r. gp_Union g h p = Some (q, r) \<and> gp_inv q"
    proof (cases "g < gp_size p \<and> h < gp_size p")
      case True
      with gp_Union_spec [OF inv, of g h] show ?thesis by blast
    next
      case False
      then show ?thesis using inv by (auto simp: gp_Union_def gp_size_def)
    qed
  qed
  show "keeps gp_inv (GlyphsFor g)" for g
  proof (rule keepsI)
    fix p assume inv: "gp_inv p"
    show "\<exists>q r. GlyphsFor g p = Some (q, r) \<and> gp_inv q"
    proof (cases "g < gp_size p")
      case True
      from GlyphsFor_spec [OF inv this] show ?thesis by blast
    next
      case False
      then show ?thesis using inv by (simp add: GlyphsFor_def gp_size_def)
    qed
  qed
  show "keeps gp_inv NonIdentityGroups"
  proof (rule keepsI)
    fix p assume "gp_inv p"
    from NonIdentityGroups_spec [OF this] show "\<exists>q r. NonIdentityGroups p = Some (q, r) \<and> gp_inv q" by blast
  qed
qed

text \<open>Without the cache: the forest alone makes every call return.\<close>

lemma gp_Find_forest:
  assumes "gp_forest p" and "g < gp_size p"
  shows "\<exists>q r. gp_Find g p = Some (q, Inr r) \<and> gp_forest q \<and> gp_size q = gp_size p \<and>
    (\<forall>x s. rooted (gp_parent q) x s \<longleftrightarrow> rooted (gp_parent p) x s) \<and> rooted (gp_parent p) g r"
proof -
  obtain r where "rooted (gp_parent p) g r" using gp_rooted [OF assms] by blast
  with gp_Find_spec [OF assms(1) this] show ?thesis unfolding compressed_def by blast
qed

lemma ensure_cache_forest:
  assumes "gp_forest p"
  shows "\<exists>q. ensure_cache p = Some (q, Inr ()) \<and> gp_forest q \<and> gp_size q = gp_size p"
  using RebuildCache_spec [OF assms] assms by (auto simp: ensure_cache_def gp_inv_def compressed_def)

lemma gp_forest_cache [simp]: "gp_forest (p\<lparr>gp_rep_to_set := f\<rparr>) = gp_forest p"
  by (simp add: gp_forest_def gp_size_def)

interpretation uncached: partition_invariant gp_forest
proof
  show "keeps gp_forest (gp_Find g)" for g
  proof (rule keepsI)
    fix p assume "gp_forest p"
    then show "\<exists>q r. gp_Find g p = Some (q, r) \<and> gp_forest q"
      using gp_Find_forest [of p g] gp_Find_out_of_range [of p g] by (cases "g < gp_size p") fastforce+
  qed
  show "keeps gp_forest (gp_Union g h)" for g h
  proof (rule keepsI)
    fix p assume p: "gp_forest p"
    show "\<exists>q r. gp_Union g h p = Some (q, r) \<and> gp_forest q"
    proof (cases "g < gp_size p \<and> h < gp_size p")
      case True
      then have range: "g < gp_size p" "h < gp_size p" by simp_all
      obtain p1 r1 where p1: "gp_Find g p = Some (p1, Inr r1)" "gp_forest p1" "gp_size p1 = gp_size p"
        "\<forall>x s. rooted (gp_parent p1) x s \<longleftrightarrow> rooted (gp_parent p) x s" "rooted (gp_parent p) g r1"
        using gp_Find_forest [OF p range(1)] by blast
      have "h < gp_size p1" using p1(3) range(2) by simp
      then obtain p2 r2 where p2: "gp_Find h p1 = Some (p2, Inr r2)" "gp_forest p2"
        "\<forall>x s. rooted (gp_parent p2) x s \<longleftrightarrow> rooted (gp_parent p1) x s" "rooted (gp_parent p1) h r2"
        using gp_Find_forest [OF p1(2)] by blast
      have U: "gp_Union g h p = (if r1 = r2 then Some (p2, Inr ()) else Some (gp_link r1 r2 p2, Inr ()))"
        using range p1(1) p2(1) by (simp add: gp_Union_def gp_size_def)
      have "rooted (gp_parent p2) g r1" "rooted (gp_parent p2) h r2" using p1(4,5) p2(3,4) by simp_all
      then have "r1 \<in> roots (gp_parent p2)" "r2 \<in> roots (gp_parent p2)"
        using rooted_bounds [of "gp_parent p2" _ r1] rooted_bounds [of "gp_parent p2" _ r2] by (auto simp: roots_def)
      with gp_link_spec(1) [OF p2(2)] U p2(2) show ?thesis by (auto simp: gp_inv_def)
    next
      case False
      then show ?thesis using p by (auto simp: gp_Union_def gp_size_def)
    qed
  qed
  show "keeps gp_forest (GlyphsFor g)" for g
  proof (rule keepsI)
    fix p assume p: "gp_forest p"
    show "\<exists>q r. GlyphsFor g p = Some (q, r) \<and> gp_forest q"
    proof (cases "g < gp_size p")
      case True
      obtain p1 where p1: "ensure_cache p = Some (p1, Inr ())" "gp_forest p1" "g < gp_size p1"
        using ensure_cache_forest [OF p] True by auto
      obtain p2 r where "gp_Find g p1 = Some (p2, Inr r)" "gp_forest p2" using gp_Find_forest [OF p1(2,3)] by blast
      with p1(1) True show ?thesis by (auto simp: GlyphsFor_def gp_size_def split: option.split)
    next
      case False
      then show ?thesis using p by (simp add: GlyphsFor_def gp_size_def)
    qed
  qed
  show "keeps gp_forest NonIdentityGroups"
    by (rule keepsI) (use ensure_cache_forest in \<open>fastforce simp: NonIdentityGroups_def\<close>)
qed

section \<open>Reachable partitions\<close>

text \<open>
  The partitions a client can reach, calls that fail included; with the assignment operator if
  \<open>assigned\<close> holds.
\<close>

inductive gp_reachable :: "bool \<Rightarrow> glyph_partition \<Rightarrow> bool" for assigned where
  create: "n \<le> UINT32_MAX \<Longrightarrow> gp_reachable assigned (GlyphPartition n)"
| copy: "gp_reachable assigned p \<Longrightarrow> gp_reachable assigned (GlyphPartition_copy p)"
| assign: "assigned \<Longrightarrow> gp_reachable assigned p \<Longrightarrow> gp_reachable assigned o' \<Longrightarrow> gp_reachable assigned (gp_assign o' p)"
| find: "gp_reachable assigned p \<Longrightarrow> gp_Find g p = Some (q, r) \<Longrightarrow> gp_reachable assigned q"
| union: "gp_reachable assigned p \<Longrightarrow> gp_Union g h p = Some (q, r) \<Longrightarrow> gp_reachable assigned q"
| union_set: "gp_reachable assigned p \<Longrightarrow> gp_Union_set S p = Some (q, r) \<Longrightarrow> gp_reachable assigned q"
| glyphs_for: "gp_reachable assigned p \<Longrightarrow> GlyphsFor g p = Some (q, r') \<Longrightarrow> gp_reachable assigned q"
| groups: "gp_reachable assigned p \<Longrightarrow> NonIdentityGroups p = Some (q, r'') \<Longrightarrow> gp_reachable assigned q"
| union_into: "gp_reachable assigned p \<Longrightarrow> gp_reachable assigned o' \<Longrightarrow> gp_Union_partition o' p = Some (o'', q, s) \<Longrightarrow>
    gp_reachable assigned q"
| union_from: "gp_reachable assigned p \<Longrightarrow> gp_reachable assigned o' \<Longrightarrow> gp_Union_partition o' p = Some (o'', q, s) \<Longrightarrow>
    gp_reachable assigned o''"

text \<open>An invariant of all calls that holds at the start holds on every reachable partition.\<close>

context partition_invariant begin

lemma reachable:
  assumes "gp_reachable assigned p" and init: "\<And>n. n \<le> UINT32_MAX \<Longrightarrow> I (GlyphPartition n)"
    and copy: "\<And>p. I p \<Longrightarrow> I (GlyphPartition_copy p)"
    and assign: "\<And>p o'. assigned \<Longrightarrow> I p \<Longrightarrow> I o' \<Longrightarrow> I (gp_assign o' p)"
  shows "I p"
  using assms(1)
proof (induction rule: gp_reachable.induct)
  case (union_into p o' o'' q s)
  then show ?case using Union_partition_returns [of p o'] by simp
next
  case (union_from p o' o'' q s)
  then show ?case using Union_partition_returns [of p o'] by simp
qed (blast intro: init copy assign keeps_step [OF keeps_Find] keeps_step [OF keeps_Union]
    keeps_step [OF keeps_Union_set] keeps_step [OF keeps_GlyphsFor] keeps_step [OF keeps_NonIdentityGroups])+

end

lemma gp_reachable_inv: "gp_reachable False p \<Longrightarrow> gp_inv p"
  by (rule cached.reachable) (auto intro: gp_inv_init gp_inv_copy)

lemma gp_reachable_forest: "gp_reachable assigned p \<Longrightarrow> gp_forest p"
proof (rule uncached.reachable)
  show "n \<le> UINT32_MAX \<Longrightarrow> gp_forest (GlyphPartition n)" for n using gp_inv_init by (simp add: gp_inv_def)
qed (simp_all add: gp_forest_def gp_size_def GlyphPartition_copy_def gp_assign_def)

section \<open>The assignment operator\<close>

text \<open>
  Glyphs 0 and 1 are joined in the source, but the target answers from its old cache that glyph 0
  is alone.
\<close>

lemma find_root_self: "g < length parent \<Longrightarrow> parent ! g = g \<Longrightarrow> find_root parent g = Some (parent, Inr g)"
  by (simp add: find_root.simps)

lemma find_root_child:
  "g < length parent \<Longrightarrow> parent ! g = r \<Longrightarrow> r \<noteq> g \<Longrightarrow> r < length parent \<Longrightarrow> parent ! r = r \<Longrightarrow>
    find_root parent g = Some (parent[g := r], Inr r)"
  by (simp add: find_root.simps [of parent g] find_root_self)

definition cached_two :: glyph_partition where
  "cached_two = \<lparr>gp_rank = [0, 0], gp_parent = [0, 1], gp_cache_valid = True,
     gp_rep_to_set = (\<lambda>_. None)(0 \<mapsto> IntSet_insert 0 IntSet_empty, 1 \<mapsto> IntSet_insert 1 IntSet_empty),
     gp_non_identity_groups = []\<rparr>"

lemma cached_two_reached: "NonIdentityGroups (GlyphPartition 2) = Some (cached_two, Inr [])"
proof -
  have l: "[0..<2] = [0, 1 :: nat]" by (simp add: upt_rec)
  have m: "List.map_filter ((\<lambda>_. None)(0 \<mapsto> A, 1 \<mapsto> B)) [0, 1 :: nat] = [A, B]" for A B :: int_set
    by (simp add: List.map_filter_def)
  show ?thesis
    by (simp add: NonIdentityGroups_def ensure_cache_def RebuildCache_def GlyphPartition_def l gp_Find_def
        find_root_self cached_two_def numeral_2_eq_2 cached_sets_def m IntSet_size_def
        to_vector_insert)
qed

text \<open>The copied source: a partition of two joined glyphs whose cache was never built.\<close>

definition joined_two :: glyph_partition where
  "joined_two = gp_link 0 1 (GlyphPartition 2)"

lemma joined_two_reached: "gp_Union 0 1 (GlyphPartition 2) = Some (joined_two, Inr ())"
  by (simp add: gp_Union_def GlyphPartition_def gp_Find_def find_root_self joined_two_def gp_link_def numeral_2_eq_2)

lemma assign_keeps_stale_cache:
  "gp_reachable assigned cached_two \<and> gp_reachable assigned joined_two \<and>
   gp_Find 0 joined_two = gp_Find 1 joined_two \<and>
   GlyphsFor 0 (gp_assign joined_two cached_two) =
     Some (gp_assign joined_two cached_two, Inr (IntSet_insert 0 IntSet_empty))"
proof -
  have two: "gp_reachable assigned (GlyphPartition 2)" by (rule gp_reachable.create) simp
  have "gp_Find 0 joined_two = gp_Find 1 joined_two"
    by (simp add: joined_two_def gp_link_def GlyphPartition_def gp_Find_def find_root_self find_root_child
        numeral_2_eq_2)
  moreover have "GlyphsFor 0 (gp_assign joined_two cached_two) =
      Some (gp_assign joined_two cached_two, Inr (IntSet_insert 0 IntSet_empty))"
    by (simp add: joined_two_def gp_link_def GlyphPartition_def gp_Find_def find_root_self find_root_child
        numeral_2_eq_2 GlyphsFor_def gp_assign_def cached_two_def ensure_cache_def)
  ultimately show ?thesis
    using gp_reachable.groups [OF two cached_two_reached] gp_reachable.union [OF two joined_two_reached] by simp
qed

end
