(* ===== verification/Subset_Definition.thy ===== *)
theory Subset_Definition
  imports Patch_Map
begin

text \<open>
  Subset definitions (\<^verbatim>\<open>ift/encoder/subset_definition.cc\<close>): codepoints, glyphs, features and axis
  ranges, their union and difference, and their translation to patch map entries. The hash map
  of axis ranges is the list of its bindings by ascending tag. The face of \<^verbatim>\<open>IsVariableFor\<close>
  enters as its design space, the result of \<^verbatim>\<open>FontHelper::GetDesignSpace\<close>.
\<close>

type_synonym design_space = "(hb_tag \<times> axis_range) list"

record subset_definition =
  sd_codepoints :: int_set
  sd_gids :: int_set
  sd_feature_tags :: "hb_tag list"
  sd_design_space :: design_space

definition SubsetDefinition :: "nat list \<Rightarrow> subset_definition" where
  "SubsetDefinition codepoints_in = \<lparr>sd_codepoints = IntSet_insert_all codepoints_in IntSet_empty,
     sd_gids = IntSet_empty, sd_feature_tags = [], sd_design_space = []\<rparr>"

definition SD_Codepoints :: "int_set \<Rightarrow> subset_definition" where
  "SD_Codepoints codepoints = (SubsetDefinition [])\<lparr>sd_codepoints := codepoints\<rparr>"

definition SD_Empty :: "subset_definition \<Rightarrow> bool" where
  "SD_Empty d \<longleftrightarrow> IntSet_is_empty (sd_codepoints d) \<and> IntSet_is_empty (sd_gids d) \<and>
     sd_feature_tags d = [] \<and> sd_design_space d = []"

definition SD_Clear :: "subset_definition \<Rightarrow> subset_definition" where
  "SD_Clear d = d\<lparr>sd_codepoints := IntSet_empty, sd_gids := IntSet_empty, sd_feature_tags := [],
     sd_design_space := []\<rparr>"

section \<open>Bindings by ascending tag\<close>

fun ds_set :: "hb_tag \<Rightarrow> axis_range \<Rightarrow> design_space \<Rightarrow> design_space" where
  "ds_set t r [] = [(t, r)]"
| "ds_set t r ((u, s) # ds) = (if t < u then (t, r) # (u, s) # ds
     else if t = u then (t, r) # ds else (u, s) # ds_set t r ds)"

definition ds_find :: "hb_tag \<Rightarrow> design_space \<Rightarrow> axis_range option" where
  "ds_find t ds = map_of ds t"

definition ds_sorted :: "design_space \<Rightarrow> bool" where
  "ds_sorted ds \<longleftrightarrow> sorted_wrt (<) (map fst ds)"

lemma fst_ds_set: "set (map fst (ds_set t r ds)) = insert t (set (map fst ds))"
  by (induction t r ds rule: ds_set.induct) auto

lemma ds_set_sorted: "ds_sorted ds \<Longrightarrow> ds_sorted (ds_set t r ds)"
proof (induction t r ds rule: ds_set.induct)
  case (2 t r u s ds)
  then show ?case using fst_ds_set [of t r ds] by (auto simp: ds_sorted_def)
qed (simp add: ds_sorted_def)

lemma ds_find_set: "ds_find t (ds_set u r ds) = (if t = u then Some r else ds_find t ds)"
  if "ds_sorted ds"
  using that
proof (induction u r ds rule: ds_set.induct)
  case (2 u r v s ds)
  then have "ds_sorted ds" by (simp add: ds_sorted_def)
  moreover have "u < v \<Longrightarrow> map_of ((v, s) # ds) u = None"
    using 2(2) by (auto simp: ds_sorted_def map_of_eq_None_iff)
  ultimately show ?case using 2 by (auto simp: ds_find_def)
qed (simp add: ds_find_def)

section \<open>Difference\<close>

text \<open>
  The template \<^verbatim>\<open>subtract_sets\<close> on the ordered set of features walks the smaller set.
\<close>

definition subtract_sets :: "hb_tag list \<Rightarrow> hb_tag list \<Rightarrow> hb_tag list" where
  "subtract_sets a b =
     (if length a < length b then filter (\<lambda>x. \<not> List.member b x) a
      else fold (\<lambda>v. filter (\<lambda>x. x \<noteq> v)) b a)"

text \<open>
  \<^verbatim>\<open>subtract\<close> of two ranges. The calls of \<^verbatim>\<open>AxisRange::Range\<close> cannot fail where they stand (lemma
  \<open>subtract_range_ok\<close>), so the range is built directly.
\<close>

definition subtract_range :: "axis_range \<Rightarrow> axis_range \<Rightarrow> axis_range option" where
  "subtract_range a b =
     (if \<not> AR_Intersects a b then Some a
      else if ar_start b \<le> ar_start a \<and> ar_end a \<le> ar_end b then None
      else if ar_start a < ar_start b \<and> ar_end b < ar_end a then Some a
      else if ar_start a < ar_start b then Some (AxisRange (ar_start a) (ar_start b))
      else Some (AxisRange (ar_end b) (ar_end a)))"

lemma subtract_range_ok:
  assumes "AR_Intersects a b" and "\<not> (ar_start b \<le> ar_start a \<and> ar_end a \<le> ar_end b)"
    and "\<not> (ar_start a < ar_start b \<and> ar_end b < ar_end a)"
  shows "(if ar_start a < ar_start b then AR_Range (ar_start a) (ar_start b) else AR_Range (ar_end b) (ar_end a))
    = Inr (the (subtract_range a b))"
  using assms by (auto simp: subtract_range_def AR_Range_def)

definition subtract_design_space :: "design_space \<Rightarrow> design_space \<Rightarrow> design_space" where
  "subtract_design_space a b = fold (\<lambda>(tag, rng) c.
     case ds_find tag b of None \<Rightarrow> ds_set tag rng c
     | Some e \<Rightarrow> (case subtract_range rng e of None \<Rightarrow> c | Some r \<Rightarrow> ds_set tag r c)) a []"

definition SD_Subtract :: "subset_definition \<Rightarrow> subset_definition \<Rightarrow> subset_definition" where
  "SD_Subtract d other = d\<lparr>
     sd_codepoints := IntSet_subtract (sd_codepoints d) (sd_codepoints other),
     sd_gids := IntSet_subtract (sd_gids d) (sd_gids other),
     sd_feature_tags := subtract_sets (sd_feature_tags d) (sd_feature_tags other),
     sd_design_space := subtract_design_space (sd_design_space d) (sd_design_space other)\<rparr>"

section \<open>Union\<close>

text \<open>
  The call of \<^verbatim>\<open>AxisRange::Range\<close> in \<^verbatim>\<open>Union\<close> cannot fail when one of the two ranges is ordered
  (lemma \<open>union_range_ok\<close>).
\<close>

definition union_range :: "axis_range \<Rightarrow> axis_range \<Rightarrow> axis_range" where
  "union_range r existing = AxisRange (min (ar_start r) (ar_start existing)) (max (ar_end r) (ar_end existing))"

lemma union_range_ok:
  assumes "ar_wf r \<or> ar_wf e"
  shows "AR_Range (min (ar_start r) (ar_start e)) (max (ar_end r) (ar_end e)) = Inr (union_range r e)"
  using assms by (auto simp: AR_Range_def union_range_def ar_wf_def min_def max_def)

definition union_design_space :: "design_space \<Rightarrow> design_space \<Rightarrow> design_space" where
  "union_design_space a b = fold (\<lambda>(tag, rng) c.
     case ds_find tag c of None \<Rightarrow> ds_set tag rng c
     | Some existing \<Rightarrow> ds_set tag (union_range rng existing) c) b a"

definition SD_Union :: "subset_definition \<Rightarrow> subset_definition \<Rightarrow> subset_definition" where
  "SD_Union d other = d\<lparr>
     sd_codepoints := IntSet_union_set (sd_codepoints d) (sd_codepoints other),
     sd_gids := IntSet_union_set (sd_gids d) (sd_gids other),
     sd_feature_tags := fold ins_sorted (sd_feature_tags other) (sd_feature_tags d),
     sd_design_space := union_design_space (sd_design_space d) (sd_design_space other)\<rparr>"

section \<open>Entries\<close>

definition plain_entry :: "patch_encoding \<Rightarrow> entry" where
  "plain_entry encoding = \<lparr>en_coverage = Coverage IntSet_empty, en_patch_indices = [],
     en_encoding = encoding, en_ignored = False\<rparr>"

definition entries_per_field :: "subset_definition \<Rightarrow> patch_encoding \<Rightarrow> entry list" where
  "entries_per_field d encoding =
     (if \<not> IntSet_is_empty (sd_codepoints d)
      then [(plain_entry encoding)\<lparr>en_coverage := (Coverage IntSet_empty)\<lparr>cov_codepoints := sd_codepoints d\<rparr>\<rparr>]
      else []) @
     (if sd_feature_tags d \<noteq> []
      then [(plain_entry encoding)\<lparr>en_coverage := (Coverage IntSet_empty)\<lparr>cov_features := sd_feature_tags d\<rparr>\<rparr>]
      else []) @
     (if sd_design_space d \<noteq> []
      then [(plain_entry encoding)\<lparr>en_coverage := (Coverage IntSet_empty)\<lparr>cov_design_space := sd_design_space d\<rparr>\<rparr>]
      else [])"

text \<open>
  The loop over the entries when there are several: it gives each an index, a patch id of its own
  and marks it ignored. The counters wrap at 32 bits.
\<close>

fun number_entries :: "entry list \<Rightarrow> nat \<Rightarrow> nat \<Rightarrow> int_set \<Rightarrow> entry list \<times> nat \<times> int_set" where
  "number_entries [] last_patch_id next_entry_index children = ([], last_patch_id, children)"
| "number_entries (e # es) last_patch_id next_entry_index children =
     (let last_patch_id = (last_patch_id + 1) mod TWO32;
          (es', last_patch_id', children') = number_entries es last_patch_id
            ((next_entry_index + 1) mod TWO32) (IntSet_insert next_entry_index children)
      in (e\<lparr>en_ignored := True, en_patch_indices := en_patch_indices e @ [last_patch_id]\<rparr> # es',
          last_patch_id', children'))"

text \<open>\<open>None\<close>: the code reads \<^verbatim>\<open>entries.back()\<close> of an empty vector.\<close>

definition ToEntries ::
  "subset_definition \<Rightarrow> patch_encoding \<Rightarrow> nat \<Rightarrow> nat \<Rightarrow> nat list \<Rightarrow> entry list option" where
  "ToEntries d encoding last_patch_id next_entry_index patch_ids =
     (let entries = entries_per_field d encoding;
          (entries, last_patch_id) =
            (if 1 < length entries
             then case number_entries entries last_patch_id next_entry_index IntSet_empty of
               (es, l, children) \<Rightarrow>
                 (es @ [(plain_entry encoding)\<lparr>en_coverage := (Coverage IntSet_empty)\<lparr>
                    cov_conjunctive := False, cov_child_indices := children\<rparr>\<rparr>], l)
             else (entries, last_patch_id))
      in if entries = [] then None
         else let e = last entries in
           Some (butlast entries @ [
             if patch_ids = []
             then e\<lparr>en_ignored := True, en_patch_indices := en_patch_indices e @ [(last_patch_id + 1) mod TWO32]\<rparr>
             else e\<lparr>en_patch_indices := patch_ids, en_ignored := False\<rparr>]))"

section \<open>Variable fonts\<close>

definition IsVariableFor :: "subset_definition \<Rightarrow> design_space status_or \<Rightarrow> bool status_or" where
  "IsVariableFor d get_design_space = TRY get_design_space (\<lambda>face_design_space.
     Inr (list_ex (\<lambda>(tag, face_range).
       case ds_find tag (sd_design_space d) of None \<Rightarrow> AR_IsRange face_range
       | Some subset_range \<Rightarrow> (case AR_Intersection subset_range face_range of None \<Rightarrow> False
           | Some r \<Rightarrow> AR_IsRange r)) face_design_space))"

section \<open>The input of the subsetter\<close>

text \<open>The calls of harfbuzz on its subset input, whose representation is unknown here.\<close>

record 'i subset_input_ops =
  hb_union_unicodes :: "int_set \<Rightarrow> 'i \<Rightarrow> 'i"
  hb_clear_features :: "'i \<Rightarrow> 'i"
  hb_add_feature :: "hb_tag \<Rightarrow> 'i \<Rightarrow> 'i"
  hb_set_axis_range :: "hb_tag \<Rightarrow> rat \<Rightarrow> rat \<Rightarrow> 'i \<Rightarrow> 'i"
  hb_union_glyphs :: "int_set \<Rightarrow> 'i \<Rightarrow> 'i"

definition ConfigureInput :: "'i subset_input_ops \<Rightarrow> subset_definition \<Rightarrow> 'i \<Rightarrow> 'i" where
  "ConfigureInput hb d input =
     (let input = hb_union_unicodes hb (sd_codepoints d) input;
          input = hb_clear_features hb input;
          input = fold (hb_add_feature hb) (sd_feature_tags d) input;
          input = fold (\<lambda>(tag, rng). hb_set_axis_range hb tag (ar_start rng) (ar_end rng)) (sd_design_space d) input
      in if IntSet_is_empty (sd_gids d) then input else hb_union_glyphs hb (sd_gids d) input)"

section \<open>Facts\<close>

lemma subtract_range_aux:
  assumes "ar_wf a" and "ar_wf b"
  shows "case subtract_range a b of None \<Rightarrow> ar_points a \<subseteq> ar_points b
    | Some c \<Rightarrow> ar_wf c \<and> ar_points a - ar_points b \<subseteq> ar_points c \<and> ar_points c \<subseteq> ar_points a"
  using assms
  by (auto simp: subtract_range_def ar_wf_def ar_points_def AR_Intersects_def AxisRange_def)

lemma set_subtract_sets: "set (subtract_sets a b) = set a - set b"
proof -
  have "set (fold (\<lambda>v. filter (\<lambda>x. x \<noteq> v)) b a) = set a - set b"
    by (induction b arbitrary: a) auto
  then show ?thesis by (auto simp: subtract_sets_def)
qed

lemma subtract_sets_branches: "subtract_sets a b = filter (\<lambda>x. x \<notin> set b) a"
proof -
  have "fold (\<lambda>v. filter (\<lambda>x. x \<noteq> v)) b a = filter (\<lambda>x. x \<notin> set b) a"
    by (induction b arbitrary: a) (auto intro: filter_cong)
  then show ?thesis by (simp add: subtract_sets_def cong: filter_cong)
qed

section \<open>Design spaces as points per axis\<close>

definition ds_points :: "hb_tag \<Rightarrow> design_space \<Rightarrow> rat set" where
  "ds_points t ds = (case ds_find t ds of None \<Rightarrow> {} | Some r \<Rightarrow> ar_points r)"

definition ds_wf :: "design_space \<Rightarrow> bool" where
  "ds_wf ds \<longleftrightarrow> ds_sorted ds \<and> (\<forall>r \<in> snd ` set ds. ar_wf r)"

lemma ds_find_wf: "ds_wf ds \<Longrightarrow> ds_find t ds = Some r \<Longrightarrow> ar_wf r"
  unfolding ds_wf_def ds_find_def by (force dest: map_of_SomeD)

lemma ds_find_fresh: "ds_sorted ((u, r) # ds) \<Longrightarrow> ds_find u ds = None"
  by (auto simp: ds_sorted_def ds_find_def map_of_eq_None_iff)

lemma ds_find_Cons: "ds_find t ((u, r) # ds) = (if t = u then Some r else ds_find t ds)"
  by (simp add: ds_find_def)

lemma union_fold:
  assumes "ds_sorted b" and "ds_sorted c"
  shows "ds_sorted (union_design_space c b) \<and> ds_find t (union_design_space c b) =
    (case ds_find t b of None \<Rightarrow> ds_find t c
     | Some r \<Rightarrow> (case ds_find t c of None \<Rightarrow> Some r | Some e \<Rightarrow> Some (union_range r e)))"
  using assms unfolding union_design_space_def
proof (induction b arbitrary: c)
  case Nil
  then show ?case by (simp add: ds_find_def)
next
  case (Cons p b)
  obtain u r where p: "p = (u, r)" by fastforce
  have b: "ds_sorted b" using Cons.prems(1) by (simp add: ds_sorted_def)
  have u: "ds_find u b = None" using Cons.prems(1) unfolding p by (rule ds_find_fresh)
  define c' where "c' = ds_set u (case ds_find u c of None \<Rightarrow> r | Some e \<Rightarrow> union_range r e) c"
  have c': "ds_sorted c'" unfolding c'_def using Cons.prems(2) by (rule ds_set_sorted)
  have find: "ds_find t c' = (if t = u then Some (case ds_find u c of None \<Rightarrow> r | Some e \<Rightarrow> union_range r e)
      else ds_find t c)"
    unfolding c'_def using Cons.prems(2) by (rule ds_find_set)
  have step: "fold (\<lambda>(tag, rng) c. case ds_find tag c of None \<Rightarrow> ds_set tag rng c
      | Some existing \<Rightarrow> ds_set tag (union_range rng existing) c) (p # b) c =
    fold (\<lambda>(tag, rng) c. case ds_find tag c of None \<Rightarrow> ds_set tag rng c
      | Some existing \<Rightarrow> ds_set tag (union_range rng existing) c) b c'"
    by (simp add: p c'_def split: option.split)
  show ?case unfolding step using Cons.IH [OF b c'] find u
    by (auto simp: p ds_find_Cons split: option.splits)
qed

lemma subtract_fold:
  assumes "ds_sorted a" and "ds_sorted c"
  shows "ds_sorted (fold (\<lambda>(tag, rng) c. case ds_find tag b of None \<Rightarrow> ds_set tag rng c
      | Some e \<Rightarrow> (case subtract_range rng e of None \<Rightarrow> c | Some r \<Rightarrow> ds_set tag r c)) a c) \<and>
    ds_find t (fold (\<lambda>(tag, rng) c. case ds_find tag b of None \<Rightarrow> ds_set tag rng c
      | Some e \<Rightarrow> (case subtract_range rng e of None \<Rightarrow> c | Some r \<Rightarrow> ds_set tag r c)) a c) =
    (case ds_find t a of None \<Rightarrow> ds_find t c
     | Some r \<Rightarrow> (case ds_find t b of None \<Rightarrow> Some r
         | Some e \<Rightarrow> (case subtract_range r e of None \<Rightarrow> ds_find t c | Some x \<Rightarrow> Some x)))"
  using assms
proof (induction a arbitrary: c)
  case Nil
  then show ?case by (simp add: ds_find_def)
next
  case (Cons p a)
  obtain u r where p: "p = (u, r)" by fastforce
  have a: "ds_sorted a" using Cons.prems(1) by (simp add: ds_sorted_def)
  have u: "ds_find u a = None" using Cons.prems(1) unfolding p by (rule ds_find_fresh)
  define c' where "c' = (case ds_find u b of None \<Rightarrow> ds_set u r c
      | Some e \<Rightarrow> (case subtract_range r e of None \<Rightarrow> c | Some x \<Rightarrow> ds_set u x c))"
  have c': "ds_sorted c'" unfolding c'_def using Cons.prems(2) by (auto intro: ds_set_sorted split: option.split)
  have find: "ds_find t c' = (if t = u then (case ds_find u b of None \<Rightarrow> Some r
      | Some e \<Rightarrow> (case subtract_range r e of None \<Rightarrow> ds_find t c | Some x \<Rightarrow> Some x)) else ds_find t c)"
    unfolding c'_def using Cons.prems(2) by (auto simp: ds_find_set split: option.split)
  show ?case using Cons.IH [OF a c'] find u
    by (auto simp: p c'_def [symmetric] ds_find_Cons split: option.splits)
qed

lemma union_points:
  assumes "ds_wf a" and "ds_wf b"
  shows "ds_points t (union_design_space a b) =
    {x. \<exists>y \<in> ds_points t a \<union> ds_points t b. \<exists>z \<in> ds_points t a \<union> ds_points t b. y \<le> x \<and> x \<le> z}"
proof -
  have srt: "ds_sorted b" "ds_sorted a" using assms by (simp_all add: ds_wf_def)
  note u = union_fold [OF srt, of t]
  have hull1: "ar_points r = {x. \<exists>y \<in> ar_points r. \<exists>z \<in> ar_points r. y \<le> x \<and> x \<le> z}" for r
    by (auto simp: ar_points_def intro: order_trans)
  have hull2: "ar_points (union_range r e) =
      {x. \<exists>y \<in> ar_points e \<union> ar_points r. \<exists>z \<in> ar_points e \<union> ar_points r. y \<le> x \<and> x \<le> z}"
    if "ar_wf r" "ar_wf e" for r e
  proof (intro set_eqI iffI)
    fix x assume x: "x \<in> ar_points (union_range r e)"
    have "min (ar_start r) (ar_start e) \<in> ar_points e \<union> ar_points r"
      "max (ar_end r) (ar_end e) \<in> ar_points e \<union> ar_points r"
      using that by (auto simp: ar_points_def ar_wf_def min_def max_def)
    with x show "x \<in> {x. \<exists>y \<in> ar_points e \<union> ar_points r. \<exists>z \<in> ar_points e \<union> ar_points r. y \<le> x \<and> x \<le> z}"
      by (auto simp: ar_points_def union_range_def AxisRange_def)
  qed (auto simp: ar_points_def union_range_def AxisRange_def min_def max_def intro: order_trans)
  show ?thesis
  proof (cases "ds_find t b")
    case None
    then show ?thesis using u hull1 by (simp add: ds_points_def split: option.split)
  next
    case (Some r)
    have r: "ar_wf r" by (rule ds_find_wf [OF assms(2) Some])
    show ?thesis
    proof (cases "ds_find t a")
      case None
      then show ?thesis using u Some hull1 by (simp add: ds_points_def)
    next
      case (Some e)
      have "ar_wf e" by (rule ds_find_wf [OF assms(1) Some])
      from hull2 [OF r this] show ?thesis using u Some \<open>ds_find t b = Some r\<close> by (simp add: ds_points_def)
    qed
  qed
qed

lemma subtract_points:
  assumes "ds_wf a" and "ds_wf b"
  shows "ds_points t a - ds_points t b \<subseteq> ds_points t (subtract_design_space a b) \<and>
    ds_points t (subtract_design_space a b) \<subseteq> ds_points t a"
proof -
  have "ds_sorted a" "ds_sorted []" using assms by (simp_all add: ds_wf_def ds_sorted_def)
  note s = subtract_fold [OF this, of b t, folded subtract_design_space_def]
  show ?thesis
  proof (cases "ds_find t a")
    case None
    then show ?thesis using s by (simp add: ds_points_def ds_find_def)
  next
    case (Some r)
    have r: "ar_wf r" by (rule ds_find_wf [OF assms(1) Some])
    show ?thesis
    proof (cases "ds_find t b")
      case None
      then show ?thesis using s Some by (simp add: ds_points_def)
    next
      case (Some e)
      have "ar_wf e" by (rule ds_find_wf [OF assms(2) Some])
      from subtract_range_aux [OF r this] show ?thesis using s Some \<open>ds_find t a = Some r\<close>
        by (auto simp: ds_points_def ds_find_def split: option.splits)
    qed
  qed
qed

end
