(* ===== verification/Entry_Matching.thy ===== *)
theory Entry_Matching
  imports Subset_Definition
begin

text \<open>
  When the entries of a patch map match a target subset, after the IFT specification that
  \<^verbatim>\<open>subset_definition.h\<close> refers to: every field an entry has must intersect the target, and the
  entries it refers to must match, all of them or at least one. \<^verbatim>\<open>ToEntries\<close> produces entries
  that match just if some field of the subset definition intersects the target.
\<close>

definition entry_matches :: "bool list \<Rightarrow> subset_definition \<Rightarrow> entry \<Rightarrow> bool" where
  "entry_matches earlier target e = (let c = en_coverage e in
     (IntSet_is_empty (cov_codepoints c) \<or> IntSet_intersects (cov_codepoints c) (sd_codepoints target)) \<and>
     (cov_features c = [] \<or> list_ex (List.member (sd_feature_tags target)) (cov_features c)) \<and>
     (cov_design_space c = [] \<or> list_ex (\<lambda>(t, r). case ds_find t (sd_design_space target) of None \<Rightarrow> False
        | Some r' \<Rightarrow> AR_Intersects r r') (cov_design_space c)) \<and>
     (IntSet_is_empty (cov_child_indices c) \<or>
        (if cov_conjunctive c then list_all (nth earlier) (to_vector (cov_child_indices c))
         else list_ex (nth earlier) (to_vector (cov_child_indices c)))))"

fun matches_from :: "bool list \<Rightarrow> subset_definition \<Rightarrow> entry list \<Rightarrow> bool list" where
  "matches_from earlier target [] = earlier"
| "matches_from earlier target (e # es) =
     matches_from (earlier @ [entry_matches earlier target e]) target es"

definition map_matches :: "subset_definition \<Rightarrow> entry list \<Rightarrow> bool list" where
  "map_matches target es = matches_from [] target es"

lemma matches_from_append:
  "matches_from ms target (es @ fs) = matches_from (matches_from ms target es) target fs"
  by (induction es arbitrary: ms) simp_all

lemma matches_from_extends: "\<exists>ns. matches_from ms target es = ms @ ns \<and> length ns = length es"
proof (induction es arbitrary: ms)
  case (Cons e es)
  from Cons.IH [of "ms @ [entry_matches ms target e]"] show ?case by auto
qed simp

lemma length_matches_from [simp]: "length (matches_from ms target es) = length ms + length es"
  using matches_from_extends [of ms target es] by auto

lemma length_map_matches [simp]: "length (map_matches target es) = length es"
  by (simp add: map_matches_def)

lemma map_matches_append: "map_matches target (es @ fs) = matches_from (map_matches target es) target fs"
  by (simp add: map_matches_def matches_from_append)

text \<open>When a field of a subset definition intersects the target (\<^verbatim>\<open>subset_definition.h\<close>).\<close>

definition design_spaces_intersect :: "design_space \<Rightarrow> design_space \<Rightarrow> bool" where
  "design_spaces_intersect a b \<longleftrightarrow>
     (\<exists>(t, r) \<in> set a. case ds_find t b of None \<Rightarrow> False | Some r' \<Rightarrow> AR_Intersects r r')"

definition sd_intersects :: "subset_definition \<Rightarrow> subset_definition \<Rightarrow> bool" where
  "sd_intersects d target \<longleftrightarrow> members (sd_codepoints d) \<inter> members (sd_codepoints target) \<noteq> {} \<or>
     set (sd_feature_tags d) \<inter> set (sd_feature_tags target) \<noteq> {} \<or>
     design_spaces_intersect (sd_design_space d) (sd_design_space target)"

text \<open>Entries without children do not depend on what comes before.\<close>

definition childless :: "entry \<Rightarrow> bool" where
  "childless e \<longleftrightarrow> members (cov_child_indices (en_coverage e)) = {}"

lemma childless_matches: "childless e \<Longrightarrow> entry_matches ms target e = entry_matches [] target e"
  unfolding entry_matches_def childless_def Let_def is_empty_iff by (simp only: simp_thms)

lemma childless_matches_from:
  "list_all childless es \<Longrightarrow> matches_from ms target es = ms @ map (entry_matches [] target) es"
proof (induction es arbitrary: ms)
  case (Cons e es)
  then have "entry_matches ms target e = entry_matches [] target e" by (simp add: childless_matches [of e ms])
  with Cons show ?case by simp
qed simp

lemma entry_matches_coverage:
  "en_coverage e = en_coverage f \<Longrightarrow> entry_matches ms target e = entry_matches ms target f"
  unfolding entry_matches_def by (simp only:)

lemma number_entries_spec:
  assumes "n + length es < UINT32_MAX"
  shows "\<exists>es' l'. number_entries es l n children = (es', l', IntSet_insert_all [n..<n + length es] children) \<and>
    length es' = length es \<and> map en_coverage es' = map en_coverage es \<and> list_all en_ignored es' \<and>
    (\<forall>e \<in> set es'. en_patch_indices e \<noteq> [])"
  using assms
proof (induction es arbitrary: l n children)
  case Nil
  show ?case by (simp add: IntSet_insert_all_def)
next
  case (Cons e es)
  have w: "(n + 1) mod TWO32 = n + 1" using Cons.prems by simp
  obtain es' l' where es': "number_entries es ((l + 1) mod TWO32) (n + 1) (IntSet_insert n children) =
      (es', l', IntSet_insert_all [n + 1..<n + 1 + length es] (IntSet_insert n children))"
    "length es' = length es" "map en_coverage es' = map en_coverage es" "list_all en_ignored es'"
    "\<forall>e \<in> set es'. en_patch_indices e \<noteq> []"
    using Cons.IH [of "n + 1" "(l + 1) mod TWO32" "IntSet_insert n children"] Cons.prems by auto
  have "[n..<n + length (e # es)] = n # [n + 1..<n + 1 + length es]"
    by (simp add: upt_conv_Cons del: upt_Suc)
  then show ?case using es' w by (simp add: IntSet_insert_all_def Let_def del: upt_Suc)
qed

definition codepoint_entry :: "patch_encoding \<Rightarrow> int_set \<Rightarrow> entry" where
  "codepoint_entry encoding S =
     (plain_entry encoding)\<lparr>en_coverage := (Coverage IntSet_empty)\<lparr>cov_codepoints := S\<rparr>\<rparr>"

definition feature_entry :: "patch_encoding \<Rightarrow> hb_tag list \<Rightarrow> entry" where
  "feature_entry encoding fs = (plain_entry encoding)\<lparr>en_coverage := (Coverage IntSet_empty)\<lparr>cov_features := fs\<rparr>\<rparr>"

definition axis_entry :: "patch_encoding \<Rightarrow> design_space \<Rightarrow> entry" where
  "axis_entry encoding ds =
     (plain_entry encoding)\<lparr>en_coverage := (Coverage IntSet_empty)\<lparr>cov_design_space := ds\<rparr>\<rparr>"

lemma one_field_matches:
  "members S \<noteq> {} \<Longrightarrow> entry_matches ms target (codepoint_entry encoding S) =
     (members S \<inter> members (sd_codepoints target) \<noteq> {})"
  "fs \<noteq> [] \<Longrightarrow> entry_matches ms target (feature_entry encoding fs) = (set fs \<inter> set (sd_feature_tags target) \<noteq> {})"
  "ds \<noteq> [] \<Longrightarrow> entry_matches ms target (axis_entry encoding ds) =
     design_spaces_intersect ds (sd_design_space target)"
proof -
  have f: "list_ex (List.member A) fs = (set fs \<inter> set A \<noteq> {})" for A and fs :: "hb_tag list"
    by (auto simp: list_ex_iff)
  show "members S \<noteq> {} \<Longrightarrow> entry_matches ms target (codepoint_entry encoding S) =
     (members S \<inter> members (sd_codepoints target) \<noteq> {})"
    unfolding entry_matches_def Let_def is_empty_iff intersects_iff
    by (simp add: codepoint_entry_def Coverage_def)
  show "fs \<noteq> [] \<Longrightarrow> entry_matches ms target (feature_entry encoding fs) =
     (set fs \<inter> set (sd_feature_tags target) \<noteq> {})"
    unfolding entry_matches_def Let_def is_empty_iff intersects_iff f
    by (simp add: feature_entry_def Coverage_def)
  show "ds \<noteq> [] \<Longrightarrow> entry_matches ms target (axis_entry encoding ds) =
     design_spaces_intersect ds (sd_design_space target)"
    unfolding entry_matches_def Let_def is_empty_iff intersects_iff
    by (simp add: axis_entry_def Coverage_def design_spaces_intersect_def list_ex_iff)
qed

lemma one_field_childless:
  "childless (codepoint_entry encoding S)" "childless (feature_entry encoding fs)" "childless (axis_entry encoding ds)"
  by (simp_all add: childless_def codepoint_entry_def feature_entry_def axis_entry_def Coverage_def)

lemma entries_per_field_eq: "entries_per_field d encoding =
    (if members (sd_codepoints d) \<noteq> {} then [codepoint_entry encoding (sd_codepoints d)] else []) @
    (if sd_feature_tags d \<noteq> [] then [feature_entry encoding (sd_feature_tags d)] else []) @
    (if sd_design_space d \<noteq> [] then [axis_entry encoding (sd_design_space d)] else [])"
  unfolding entries_per_field_def codepoint_entry_def feature_entry_def axis_entry_def is_empty_iff by (rule refl)

lemma field_entries_match:
  "list_ex (entry_matches [] target) (entries_per_field d encoding) = sd_intersects d target"
  "list_all childless (entries_per_field d encoding)"
proof -
  have "design_spaces_intersect [] X = False" for X by (simp add: design_spaces_intersect_def)
  then show "list_ex (entry_matches [] target) (entries_per_field d encoding) = sd_intersects d target"
    unfolding entries_per_field_eq sd_intersects_def
    by (cases "members (sd_codepoints d) = {}"; cases "sd_feature_tags d = []"; cases "sd_design_space d = []")
      (simp_all add: one_field_matches)
  show "list_all childless (entries_per_field d encoding)"
    unfolding entries_per_field_eq by (simp add: one_field_childless)
qed

text \<open>What the entries of \<^verbatim>\<open>ToEntries\<close> are, behind a map that already has \<open>n\<close> entries.\<close>

lemma ToEntries_shape:
  assumes "n + 3 < UINT32_MAX" and "entries_per_field d encoding \<noteq> []"
  shows "\<exists>es e. ToEntries d encoding l n ids = Some (es @ [e]) \<and> list_all en_ignored es \<and>
    (\<forall>x \<in> set es. en_patch_indices x \<noteq> []) \<and> en_patch_indices e \<noteq> [] \<and>
    (if ids = [] then en_ignored e else en_patch_indices e = ids \<and> \<not> en_ignored e) \<and>
    ((es = [] \<and> map en_coverage [e] = map en_coverage (entries_per_field d encoding)) \<or>
     (map en_coverage es = map en_coverage (entries_per_field d encoding) \<and>
      en_coverage e = (Coverage IntSet_empty)\<lparr>cov_child_indices := IntSet [n..<n + length es]\<rparr>))"
proof -
  let ?fs = "entries_per_field d encoding"
  have le: "length ?fs \<le> 3" by (simp add: entries_per_field_eq)
  show ?thesis
  proof (cases "1 < length ?fs")
    case True
    have "n + length ?fs < UINT32_MAX" using assms(1) le by simp
    from number_entries_spec [OF this, of l IntSet_empty] obtain es l' where
      n: "number_entries ?fs l n IntSet_empty = (es, l', IntSet_insert_all [n..<n + length ?fs] IntSet_empty)"
        "length es = length ?fs" "map en_coverage es = map en_coverage ?fs" "list_all en_ignored es"
        "\<forall>x \<in> set es. en_patch_indices x \<noteq> []" by blast
    define c where "c = (Coverage IntSet_empty)\<lparr>cov_child_indices := IntSet [n..<n + length es]\<rparr>"
    define e where "e = \<lparr>en_coverage = c, en_patch_indices = (if ids = [] then [(l' + 1) mod TWO32] else ids),
      en_encoding = encoding, en_ignored = (ids = [])\<rparr>"
    have "ToEntries d encoding l n ids = Some (es @ [e])"
      using True n(1,2) by (simp add: ToEntries_def IntSet_def Coverage_def plain_entry_def e_def c_def)
    moreover have "en_patch_indices e \<noteq> []" "if ids = [] then en_ignored e else en_patch_indices e = ids \<and> \<not> en_ignored e"
      "en_coverage e = c" by (simp_all add: e_def)
    ultimately show ?thesis using n(3-5)
      by (intro exI [of _ es] exI [of _ e]) (simp add: c_def)
  next
    case False
    then obtain f where f: "?fs = [f]" using assms(2) by (cases ?fs) auto
    have "ToEntries d encoding l n ids = Some ([] @ [if ids = []
        then f\<lparr>en_ignored := True, en_patch_indices := en_patch_indices f @ [(l + 1) mod TWO32]\<rparr>
        else f\<lparr>en_patch_indices := ids, en_ignored := False\<rparr>])"
      by (simp add: ToEntries_def f)
    then show ?thesis by (intro exI conjI, assumption) (auto simp: f)
  qed
qed

lemma map_matches_cong:
  "map en_coverage es = map en_coverage fs \<Longrightarrow> matches_from ms target es = matches_from ms target fs"
proof (induction es arbitrary: fs ms)
  case (Cons e es)
  then obtain f gs where fs: "fs = f # gs" and c: "en_coverage e = en_coverage f" and
    r: "map en_coverage es = map en_coverage gs"
    by (cases fs) auto
  show ?case unfolding fs matches_from.simps entry_matches_coverage [OF c] by (rule Cons.IH [OF r])
qed simp

lemma ToEntries_matches_aux:
  assumes "length es0 + 3 < UINT32_MAX" and "ToEntries d encoding l (length es0) ids = Some es"
    and "entries_per_field d encoding \<noteq> []"
  shows "last (map_matches target (es0 @ es)) = sd_intersects d target"
proof -
  let ?n = "length es0" let ?fs = "entries_per_field d encoding" let ?ms = "map_matches target es0"
  obtain fs e where es: "es = fs @ [e]"
    and alt: "(fs = [] \<and> map en_coverage [e] = map en_coverage ?fs) \<or>
     (map en_coverage fs = map en_coverage ?fs \<and>
      en_coverage e = (Coverage IntSet_empty)\<lparr>cov_child_indices := IntSet [?n..<?n + length fs]\<rparr>)"
    using ToEntries_shape [OF assms(1,3), of l ids] assms(2) by force
  note m = field_entries_match(1) [of target d encoding] field_entries_match(2) [of d encoding]
  from alt show ?thesis
  proof (elim disjE conjE)
    assume "fs = []" and cov: "map en_coverage [e] = map en_coverage ?fs"
    then obtain f where f: "?fs = [f]" "en_coverage e = en_coverage f" by (cases ?fs) auto
    have "entry_matches ?ms target e = entry_matches [] target f"
      using f m(2) childless_matches [of f ?ms target] entry_matches_coverage [OF f(2)] by simp
    then show ?thesis using m(1) f \<open>fs = []\<close> by (simp add: es map_matches_append)
  next
    assume cov: "map en_coverage fs = map en_coverage ?fs"
      and e: "en_coverage e = (Coverage IntSet_empty)\<lparr>cov_child_indices := IntSet [?n..<?n + length fs]\<rparr>"
    let ?new = "map (entry_matches [] target) ?fs"
    have len: "length fs = length ?fs" using cov by (metis length_map)
    have "length ?fs \<le> 3" by (simp add: entries_per_field_eq)
    have prev: "matches_from ?ms target fs = ?ms @ ?new"
      using map_matches_cong [OF cov, of ?ms target] childless_matches_from [OF m(2), of ?ms target] by simp
    have S: "members (IntSet [?n..<?n + length fs]) = {?n..<?n + length fs}"
      using assms(1) len \<open>length ?fs \<le> 3\<close> by auto
    have "entry_matches (?ms @ ?new) target e \<longleftrightarrow> (\<exists>i \<in> {?n..<?n + length fs}. (?ms @ ?new) ! i)"
    proof -
      have ne: "members (IntSet [?n..<?n + length fs]) \<noteq> {}" using assms(3) len S by simp
      show ?thesis unfolding entry_matches_def Let_def is_empty_iff e
        using ne S by (simp add: Coverage_def list_ex_iff del: members_IntSet)
    qed
    also have "\<dots> \<longleftrightarrow> (\<exists>j < length ?fs. ?new ! j)"
    proof
      assume "\<exists>i \<in> {?n..<?n + length fs}. (?ms @ ?new) ! i"
      then obtain i where i: "?n \<le> i" "i < ?n + length fs" "(?ms @ ?new) ! i" by auto
      then show "\<exists>j < length ?fs. ?new ! j" using len
        by (intro exI [of _ "i - ?n"]) (simp add: nth_append)
    next
      assume "\<exists>j < length ?fs. ?new ! j"
      then obtain j where "j < length ?fs" "?new ! j" by blast
      then show "\<exists>i \<in> {?n..<?n + length fs}. (?ms @ ?new) ! i" using len
        by (intro bexI [of _ "?n + j"]) (simp_all add: nth_append)
    qed
    also have "\<dots> \<longleftrightarrow> list_ex (entry_matches [] target) ?fs"
      by (auto simp: list_ex_length)
    finally show ?thesis unfolding m(1) by (simp add: es map_matches_append matches_from_append prev)
  qed
qed

end
