(* ===== verification/Lru_Cache.thy ===== *)
theory Lru_Cache
  imports Ift_Prelude
begin

text \<open>
  The least recently used cache of \<^verbatim>\<open>ift/freq/lru_cache.h\<close>. The list of the class is a list of
  nodes, each with an address that stands for its iterator; the hash map goes from keys to the
  addresses of their nodes. \<^verbatim>\<open>operator[]\<close> returns a reference, here the address of the node, through
  which the caller reads or writes the value. \<open>dflt\<close> is \<^verbatim>\<open>Value()\<close>. Log output is left out.
\<close>

section \<open>The class\<close>

type_synonym ('k, 'v) node = "nat \<times> 'k \<times> 'v"

record ('k, 'v) lru_cache =
  lru_max_size :: nat
  lru_list :: "('k, 'v) node list"
  lru_map :: "'k \<Rightarrow> nat option"
  lru_hit_count :: nat
  lru_total_count :: nat
  lru_eviction_count :: nat
  lru_next_address :: nat

definition LruCache :: "nat \<Rightarrow> ('k, 'v) lru_cache" where
  "LruCache max_size = \<lparr>lru_max_size = max_size, lru_list = [], lru_map = (\<lambda>_. None), lru_hit_count = 0,
     lru_total_count = 0, lru_eviction_count = 0, lru_next_address = 0\<rparr>"

text \<open>\<^verbatim>\<open>list_.splice(list_.begin(), list_, it)\<close>: the node moves to the front.\<close>

definition splice_front :: "nat \<Rightarrow> ('k, 'v) node list \<Rightarrow> ('k, 'v) node list" where
  "splice_front a nodes = filter (\<lambda>n. fst n = a) nodes @ filter (\<lambda>n. fst n \<noteq> a) nodes"

text \<open>
  The eviction: \<open>None\<close> when the list is empty, where \<^verbatim>\<open>list_.back()\<close> is undefined (a cache of size
  0).
\<close>

definition evict :: "('k, 'v) lru_cache \<Rightarrow> ('k, 'v) lru_cache option" where
  "evict c = (if lru_list c = [] then None
     else let last_key = fst (snd (last (lru_list c))) in
       Some (c\<lparr>lru_map := (lru_map c)(last_key := None), lru_list := butlast (lru_list c),
         lru_eviction_count := lru_eviction_count c + 1\<rparr>))"

definition lru_index :: "'v \<Rightarrow> 'k \<Rightarrow> ('k, 'v) lru_cache \<Rightarrow> (nat \<times> ('k, 'v) lru_cache) option" where
  "lru_index dflt key c =
     (let c = c\<lparr>lru_total_count := lru_total_count c + 1\<rparr>
      in case lru_map c key of
        Some a \<Rightarrow> Some (a, c\<lparr>lru_hit_count := lru_hit_count c + 1, lru_list := splice_front a (lru_list c)\<rparr>)
      | None \<Rightarrow>
          (case (if lru_max_size c \<le> length (lru_list c) then evict c else Some c) of None \<Rightarrow> None
           | Some c \<Rightarrow>
               let a = lru_next_address c in
               Some (a, c\<lparr>lru_list := (a, key, dflt) # lru_list c, lru_map := (lru_map c)(key \<mapsto> a),
                 lru_next_address := a + 1\<rparr>)))"

definition lru_clear :: "('k, 'v) lru_cache \<Rightarrow> ('k, 'v) lru_cache" where
  "lru_clear c = c\<lparr>lru_map := (\<lambda>_. None), lru_list := []\<rparr>"

definition lru_size :: "('k, 'v) lru_cache \<Rightarrow> nat" where
  "lru_size c = card (dom (lru_map c))"

text \<open>Reading and writing through a reference.\<close>

definition lru_deref :: "nat \<Rightarrow> ('k, 'v) lru_cache \<Rightarrow> 'v option" where
  "lru_deref a c = map_option snd (map_of (lru_list c) a)"

definition lru_assign :: "nat \<Rightarrow> 'v \<Rightarrow> ('k, 'v) lru_cache \<Rightarrow> ('k, 'v) lru_cache" where
  "lru_assign a v c = c\<lparr>lru_list := map (\<lambda>(b, k, w). (b, k, if b = a then v else w)) (lru_list c)\<rparr>"

section \<open>Invariant\<close>

text \<open>Addresses and keys are unique, the map knows exactly the keys of the list, the list is not too long.\<close>

definition lru_inv :: "('k, 'v) lru_cache \<Rightarrow> bool" where
  "lru_inv c \<longleftrightarrow> distinct (map fst (lru_list c)) \<and> distinct (map (fst \<circ> snd) (lru_list c)) \<and>
     (\<forall>k a. lru_map c k = Some a \<longleftrightarrow> (\<exists>v. (a, k, v) \<in> set (lru_list c))) \<and>
     (\<forall>a \<in> fst ` set (lru_list c). a < lru_next_address c) \<and> length (lru_list c) \<le> lru_max_size c"

text \<open>The abstract cache: keys with their values, the most recently used first.\<close>

definition lru_abs :: "('k, 'v) lru_cache \<Rightarrow> ('k \<times> 'v) list" where
  "lru_abs c = map snd (lru_list c)"

definition lru_access :: "nat \<Rightarrow> 'v \<Rightarrow> 'k \<Rightarrow> ('k \<times> 'v) list \<Rightarrow> ('k \<times> 'v) list" where
  "lru_access m dflt key l =
     take m ((key, case map_of l key of None \<Rightarrow> dflt | Some v \<Rightarrow> v) # filter (\<lambda>p. fst p \<noteq> key) l)"

lemma lru_inv_init: "lru_inv (LruCache m)"
  by (simp add: lru_inv_def LruCache_def)

lemma lru_map_None:
  assumes "lru_inv c" shows "lru_map c k = None \<longleftrightarrow> k \<notin> fst ` set (lru_abs c)"
proof
  assume n: "lru_map c k = None"
  show "k \<notin> fst ` set (lru_abs c)"
  proof
    assume "k \<in> fst ` set (lru_abs c)"
    then obtain a v where "(a, k, v) \<in> set (lru_list c)" by (auto simp: lru_abs_def)
    then have "lru_map c k = Some a" using assms by (auto simp: lru_inv_def)
    with n show False by simp
  qed
next
  assume k: "k \<notin> fst ` set (lru_abs c)"
  show "lru_map c k = None"
  proof (cases "lru_map c k")
    case (Some a)
    then obtain v where "(a, k, v) \<in> set (lru_list c)" using assms by (auto simp: lru_inv_def)
    with k show ?thesis by (force simp: lru_abs_def)
  qed
qed

lemma distinct_filter_key:
  assumes "distinct (map f xs)" and "x \<in> set xs" shows "filter (\<lambda>y. f y = f x) xs = [x]"
  using assms
proof (induction xs)
  case (Cons y ys)
  show ?case
  proof (cases "x = y")
    case True
    with Cons.prems have "filter (\<lambda>z. f z = f x) ys = []" by (auto simp: filter_empty_conv image_iff)
    with True show ?thesis by simp
  next
    case False
    with Cons have "x \<in> set ys" by simp
    with Cons.prems have "f y \<noteq> f x" by auto
    with Cons \<open>x \<in> set ys\<close> show ?thesis by simp
  qed
qed simp

text \<open>A node and its key determine each other.\<close>

lemma same_node:
  assumes "lru_inv c" and "(a, k, v) \<in> set (lru_list c)" and "n \<in> set (lru_list c)"
  shows "fst n = a \<longleftrightarrow> n = (a, k, v)" and "fst (snd n) = k \<longleftrightarrow> n = (a, k, v)"
proof -
  have i: "inj_on fst (set (lru_list c))" "inj_on (fst \<circ> snd) (set (lru_list c))"
    using assms(1) by (simp_all add: lru_inv_def distinct_map)
  show "fst n = a \<longleftrightarrow> n = (a, k, v)" using inj_onD [OF i(1) _ assms(3,2)] by auto
  show "fst (snd n) = k \<longleftrightarrow> n = (a, k, v)" using inj_onD [OF i(2) _ assms(3,2)] by auto
qed

lemma lru_abs_distinct: "lru_inv c \<Longrightarrow> distinct (map fst (lru_abs c))"
  by (simp add: lru_inv_def lru_abs_def)

lemma lru_hit:
  assumes inv: "lru_inv c" and hit: "lru_map c key = Some a"
    and c'_def: "c' = c\<lparr>lru_total_count := t, lru_hit_count := h, lru_list := splice_front a (lru_list c)\<rparr>"
  shows "lru_inv c'" and "lru_abs c' = lru_access (lru_max_size c) dflt key (lru_abs c)"
    and "\<exists>v. lru_deref a c' = Some v \<and> map_of (lru_abs c) key = Some v"
proof -
  let ?l = "lru_list c"
  obtain v where v: "(a, key, v) \<in> set ?l" using inv hit by (auto simp: lru_inv_def)
  have d: "distinct (map fst ?l)" using inv by (simp add: lru_inv_def)
  have front: "filter (\<lambda>n. fst n = a) ?l = [(a, key, v)]"
    using distinct_filter_key [OF d v] by simp
  have rest: "filter (\<lambda>n. fst n \<noteq> a) ?l = filter (\<lambda>n. fst (snd n) \<noteq> key) ?l"
    using same_node [OF inv v] by (intro filter_cong) simp_all
  have split: "splice_front a ?l = (a, key, v) # filter (\<lambda>n. fst n \<noteq> a) ?l"
    by (simp add: splice_front_def front)
  have len: "length (splice_front a ?l) = length ?l"
    unfolding splice_front_def by (simp add: sum_length_filter_compl)
  have sets: "set (splice_front a ?l) = set ?l" by (auto simp: splice_front_def)
  have "distinct (map fst (splice_front a ?l))" "distinct (map (fst \<circ> snd) (splice_front a ?l))"
    using inv len sets unfolding lru_inv_def
    by (metis card_distinct distinct_card length_map list.set_map)+
  then show "lru_inv c'" using inv len sets by (simp add: lru_inv_def c'_def)
  have m: "map_of (lru_abs c) key = Some v"
    using v lru_abs_distinct [OF inv] by (force simp: lru_abs_def)
  have "lru_abs c' = (key, v) # filter (\<lambda>p. fst p \<noteq> key) (lru_abs c)"
    unfolding lru_abs_def c'_def using split rest by (simp add: filter_map comp_def)
  moreover have "length (lru_abs c') \<le> lru_max_size c"
    using len inv by (simp add: lru_abs_def c'_def lru_inv_def)
  ultimately show "lru_abs c' = lru_access (lru_max_size c) dflt key (lru_abs c)"
    by (simp add: lru_access_def m)
  show "\<exists>v. lru_deref a c' = Some v \<and> map_of (lru_abs c) key = Some v"
    using m by (simp add: lru_deref_def c'_def split)
qed

lemma lru_inv_evict:
  assumes inv: "lru_inv c" and ne: "lru_list c \<noteq> []"
  shows "\<exists>c'. evict c = Some c' \<and> lru_inv c' \<and> lru_list c' = butlast (lru_list c) \<and>
    lru_next_address c' = lru_next_address c \<and> lru_max_size c' = lru_max_size c"
proof -
  obtain l a k v where l: "lru_list c = l @ [(a, k, v)]" using ne by (metis prod_cases3 rev_exhaust)
  have set: "lru_map c k' = Some b \<longleftrightarrow> (\<exists>w. (b, k', w) \<in> set (l @ [(a, k, v)]))" for k' b
    using inv unfolding lru_inv_def l by blast
  have fresh: "k \<notin> fst ` snd ` set l" using inv by (auto simp: lru_inv_def l image_comp)
  have "((lru_map c)(k := None)) k' = Some b \<longleftrightarrow> (\<exists>w. (b, k', w) \<in> set l)" for k' b
    using set [of k' b] fresh by (auto simp: image_iff)
  then show ?thesis using inv l by (auto simp: evict_def lru_inv_def Let_def)
qed

lemma lru_insert_inv:
  assumes "lru_inv c" and "lru_map c key = None" and "length (lru_list c) < lru_max_size c"
  shows "lru_inv (c\<lparr>lru_list := (lru_next_address c, key, d) # lru_list c,
    lru_map := (lru_map c)(key \<mapsto> lru_next_address c), lru_next_address := lru_next_address c + 1\<rparr>)"
proof -
  let ?a = "lru_next_address c"
  have a: "?a \<notin> fst ` set (lru_list c)" using assms(1) by (auto simp: lru_inv_def)
  have k: "key \<notin> fst ` snd ` set (lru_list c)"
    using lru_map_None [OF assms(1), of key] assms(2) by (auto simp: lru_abs_def)
  have "((lru_map c)(key \<mapsto> ?a)) k' = Some b \<longleftrightarrow> (\<exists>w. (b, k', w) \<in> set ((?a, key, d) # lru_list c))" for k' b
    using assms(1) k by (auto simp: lru_inv_def image_iff)
  then show ?thesis using assms a k by (auto simp: lru_inv_def image_comp less_Suc_eq)
qed

lemma lru_index_refines:
  assumes inv: "lru_inv c" and pos: "0 < lru_max_size c"
  shows "\<exists>a c'. lru_index dflt key c = Some (a, c') \<and> lru_inv c' \<and> lru_max_size c' = lru_max_size c \<and>
    lru_abs c' = lru_access (lru_max_size c) dflt key (lru_abs c) \<and>
    lru_deref a c' = Some (case map_of (lru_abs c) key of None \<Rightarrow> dflt | Some v \<Rightarrow> v)"
proof (cases "lru_map c key")
  case (Some a)
  from lru_hit(1,3) [OF inv Some refl, of "lru_hit_count c + 1" "lru_total_count c + 1"]
    lru_hit(2) [OF inv Some refl, of "lru_hit_count c + 1" "lru_total_count c + 1" dflt] Some
  show ?thesis by (auto simp: lru_index_def Let_def)
next
  case None
  let ?c = "c\<lparr>lru_total_count := lru_total_count c + 1\<rparr>"
  have inv': "lru_inv ?c" using inv by (simp add: lru_inv_def)
  have key: "key \<notin> fst ` set (lru_abs c)" using lru_map_None [OF inv] None by simp
  then have m: "map_of (lru_abs c) key = None" and f: "filter (\<lambda>p. fst p \<noteq> key) (lru_abs c) = lru_abs c"
    by (auto simp: map_of_eq_None_iff filter_id_conv)
  show ?thesis
  proof (cases "lru_max_size c \<le> length (lru_list c)")
    case True
    with pos have "lru_list ?c \<noteq> []" by auto
    from lru_inv_evict [OF inv' this] obtain e where e: "evict ?c = Some e" "lru_inv e"
      "lru_list e = butlast (lru_list c)" "lru_next_address e = lru_next_address c" "lru_max_size e = lru_max_size c"
      by auto
    have len: "length (lru_list c) = lru_max_size c" using True inv by (simp add: lru_inv_def)
    have "key \<notin> fst ` set (lru_abs e)" using key e(3) by (auto simp: lru_abs_def dest: in_set_butlastD)
    then have km: "lru_map e key = None" using lru_map_None [OF e(2)] by simp
    have short: "length (lru_list e) < lru_max_size e" using e(3,5) len pos by simp
    note lru_insert_inv [OF e(2) km short, of dflt]
    moreover have "take (lru_max_size c) ((key, dflt) # lru_abs c) = (key, dflt) # map snd (butlast (lru_list c))"
      using len pos by (cases "lru_max_size c") (simp_all add: lru_abs_def butlast_conv_take take_map)
    ultimately show ?thesis using None True e
      by (simp add: lru_index_def Let_def lru_abs_def [of "_\<lparr>lru_list := _\<rparr>"] lru_access_def m f lru_deref_def)
        (simp add: lru_abs_def)
  next
    case False
    have km: "lru_map ?c key = None" using None by simp
    have short: "length (lru_list ?c) < lru_max_size ?c" using False by simp
    from lru_insert_inv [OF inv' km short, of dflt] show ?thesis using None False
      by (simp add: lru_index_def Let_def lru_access_def m f lru_deref_def) (simp add: lru_abs_def)
  qed
qed

section \<open>Recency\<close>

text \<open>A run of accesses, and the distinct keys of a history by the time of their last use, latest first.\<close>

fun lru_run :: "'v \<Rightarrow> 'k list \<Rightarrow> ('k, 'v) lru_cache \<Rightarrow> ('k, 'v) lru_cache option" where
  "lru_run dflt [] c = Some c"
| "lru_run dflt (k # ks) c = (case lru_index dflt k c of None \<Rightarrow> None | Some (_, c') \<Rightarrow> lru_run dflt ks c')"

definition recent :: "'k list \<Rightarrow> 'k list" where
  "recent ks = fold (\<lambda>k l. k # filter (\<lambda>x. x \<noteq> k) l) ks []"

lemma recent_fold:
  "distinct l \<Longrightarrow> distinct (fold (\<lambda>k l. k # filter (\<lambda>x. x \<noteq> k) l) ks l) \<and>
    set (fold (\<lambda>k l. k # filter (\<lambda>x. x \<noteq> k) l) ks l) = set ks \<union> set l"
  by (induction ks arbitrary: l) auto

lemma take_filter_distinct:
  "distinct l \<Longrightarrow> take n (filter (\<lambda>x. x \<noteq> k) (take (Suc n) l)) = take n (filter (\<lambda>x. x \<noteq> k) l)"
proof (induction l arbitrary: n)
  case (Cons x xs)
  show ?case
  proof (cases "x = k")
    case True
    then have "filter (\<lambda>x. x \<noteq> k) xs = xs" "filter (\<lambda>x. x \<noteq> k) (take n xs) = take n xs"
      using Cons.prems by (auto simp: filter_id_conv dest: in_set_takeD)
    with True show ?thesis by simp
  next
    case False
    then show ?thesis using Cons by (cases n) simp_all
  qed
qed simp

lemma map_fst_access: "map fst (lru_access m d k l) = take m (k # filter (\<lambda>x. x \<noteq> k) (map fst l))"
  by (cases m) (simp_all add: lru_access_def filter_map comp_def flip: take_map)

lemma lru_run_recent_aux:
  assumes "lru_inv c" and "0 < lru_max_size c" and "map fst (lru_abs c) = take (lru_max_size c) l" and "distinct l"
  shows "\<exists>c'. lru_run dflt ks c = Some c' \<and> lru_inv c' \<and> lru_max_size c' = lru_max_size c \<and>
    map fst (lru_abs c') = take (lru_max_size c) (fold (\<lambda>k l. k # filter (\<lambda>x. x \<noteq> k) l) ks l)"
  using assms
proof (induction ks arbitrary: c l)
  case Nil
  then show ?case by simp
next
  case (Cons k ks)
  obtain a c' where c': "lru_index dflt k c = Some (a, c')" "lru_inv c'" "lru_max_size c' = lru_max_size c"
    "lru_abs c' = lru_access (lru_max_size c) dflt k (lru_abs c)"
    using lru_index_refines [OF Cons.prems(1,2), of dflt k] by blast
  obtain n where n: "lru_max_size c = Suc n" using Cons.prems(2) gr0_implies_Suc by blast
  have "map fst (lru_abs c') = take (lru_max_size c') (k # filter (\<lambda>x. x \<noteq> k) l)"
    using Cons.prems(3,4) n take_filter_distinct [of l n k] unfolding c'(3,4) map_fst_access by simp
  moreover have "distinct (k # filter (\<lambda>x. x \<noteq> k) l)" using Cons.prems(4) by simp
  ultimately show ?case using Cons.IH [OF c'(2)] c'(1,3) Cons.prems(2) by simp
qed

end
