(* ===== verification/Url_Template.thy ===== *)
theory Url_Template
  imports Ift_Prelude
begin

text \<open>
  URL templates (\<^verbatim>\<open>ift/url_template.cc\<close>): a template is a byte code of literals and opcodes that
  expand to the base32hex or base64url form of the patch index. The two encoders of the library
  cppcodec are the arguments \<open>base32\<close> and \<open>base64\<close>. Strings are byte lists: 61 is \<open>=\<close>, 95 is \<open>_\<close>,
  and \<open>%3D\<close> is 37, 51, 68.
\<close>

unbundle bit_operations_syntax

definition Id64Expansion :: "(bytes \<Rightarrow> bytes) \<Rightarrow> bytes \<Rightarrow> bytes" where
  "Id64Expansion base64 bs = concat (map (\<lambda>ch. if ch \<noteq> 61 then [ch] else [37, 51, 68]) (base64 bs))"

definition patch_idx_bytes :: "32 word \<Rightarrow> bytes" where
  "patch_idx_bytes patch_idx =
     [ucast (drop_bit 24 patch_idx AND 255), ucast (drop_bit 16 patch_idx AND 255),
      ucast (drop_bit 8 patch_idx AND 255), ucast (patch_idx AND 255)]"

text \<open>\<^verbatim>\<open>while (start < 3 && !bytes[start]) start++\<close>\<close>

function skip_zeros :: "bytes \<Rightarrow> nat \<Rightarrow> nat" where
  "skip_zeros bs start = (if start < 3 \<and> bs ! start = 0 then skip_zeros bs (start + 1) else start)"
  by pat_completeness auto
termination by (relation "measure (\<lambda>(bs, start). 3 - start)") auto

declare skip_zeros.simps [simp del]

definition id_bytes :: "32 word \<Rightarrow> bytes" where
  "id_bytes patch_idx = (let bs = patch_idx_bytes patch_idx in drop (skip_zeros bs 0) bs)"

definition strip_padding :: "bytes \<Rightarrow> bytes" where
  "strip_padding s = rev (dropWhile (\<lambda>ch. ch = 61) (rev s))"

definition digit_expansion :: "bytes \<Rightarrow> nat \<Rightarrow> bytes" where
  "digit_expansion base32 k = (if k \<le> length base32 then [base32 ! (length base32 - k)] else [95])"

definition PopulateExpansions :: "(bytes \<Rightarrow> bytes) \<Rightarrow> (bytes \<Rightarrow> bytes) \<Rightarrow> 32 word \<Rightarrow> bytes list" where
  "PopulateExpansions base32 base64 patch_idx =
     (let bs = id_bytes patch_idx; b32 = strip_padding (base32 bs)
      in [b32, digit_expansion b32 1, digit_expansion b32 2, digit_expansion b32 3, digit_expansion b32 4,
          Id64Expansion base64 bs])"

text \<open>The loop, over the bytes from \<^verbatim>\<open>index\<close> on.\<close>

function PatchToUrl_loop :: "bytes list \<Rightarrow> bytes \<Rightarrow> bytes \<Rightarrow> bytes status_or" where
  "PatchToUrl_loop expansions [] out = Inr out"
| "PatchToUrl_loop expansions (op_code # rest) out =
     (if op_code AND 128 = 0 then
        let num_literals = unat (op_code AND 127)
        in if length rest < num_literals then Inl InvalidArgumentError
           else if num_literals = 0 then Inl InvalidArgumentError
           else PatchToUrl_loop expansions (drop num_literals rest) (out @ take num_literals rest)
      else if op_code < 128 \<or> 133 < op_code then Inl InvalidArgumentError
      else PatchToUrl_loop expansions rest (out @ expansions ! (unat op_code - 128)))"
  by pat_completeness auto
termination by (relation "measure (\<lambda>(_, rest, _). length rest)") auto

definition PatchToUrl :: "(bytes \<Rightarrow> bytes) \<Rightarrow> (bytes \<Rightarrow> bytes) \<Rightarrow> bytes \<Rightarrow> 32 word \<Rightarrow> bytes status_or" where
  "PatchToUrl base32 base64 url_template patch_idx =
     PatchToUrl_loop (PopulateExpansions base32 base64 patch_idx) url_template []"

section \<open>Templates as pieces\<close>

datatype piece = Literal bytes | Expansion nat

fun piece_ok :: "piece \<Rightarrow> bool" where
  "piece_ok (Literal bs) = (bs \<noteq> [] \<and> length bs < 128)"
| "piece_ok (Expansion n) = (n < 6)"

fun piece_code :: "piece \<Rightarrow> bytes" where
  "piece_code (Literal bs) = of_nat (length bs) # bs"
| "piece_code (Expansion n) = [of_nat (128 + n)]"

fun piece_text :: "bytes list \<Rightarrow> piece \<Rightarrow> bytes" where
  "piece_text expansions (Literal bs) = bs"
| "piece_text expansions (Expansion n) = expansions ! n"

definition template_code :: "piece list \<Rightarrow> bytes" where
  "template_code ps = concat (map piece_code ps)"

definition template_text :: "bytes list \<Rightarrow> piece list \<Rightarrow> bytes" where
  "template_text expansions ps = concat (map (piece_text expansions) ps)"

lemma unat_low_bits: "unat (take_bit n w) = unat w mod 2 ^ n"
proof -
  have "unat (take_bit n w) = take_bit n (unat w)" by (rule unsigned_take_bit_eq)
  then show ?thesis by (simp only: take_bit_eq_mod)
qed

lemma AND_mask_7: "unat (w AND 127) = unat (w :: byte) mod 128"
proof -
  have "w AND 127 = take_bit 7 w" using take_bit_eq_mask [of 7 w] by (simp add: mask_eq_exp_minus_1)
  then show ?thesis using unat_low_bits [of 7 w] by simp
qed

lemma high_bit: "w AND 128 = 0 \<longleftrightarrow> unat (w :: byte) < 128"
proof -
  have "w AND 128 = 0 \<longleftrightarrow> \<not> bit w 7"
    using and_exp_eq_0_iff_not_bit [of w 7] by simp
  also have "\<dots> \<longleftrightarrow> take_bit 7 w = w"
  proof
    assume n: "\<not> bit w 7"
    show "take_bit 7 w = w"
    proof (rule bit_word_eqI)
      fix i :: nat assume "i < LENGTH(8)"
      then have "i < 7 \<or> i = 7" by auto
      then show "bit (take_bit 7 w) i = bit w i" using n by (auto simp: bit_take_bit_iff)
    qed
  next
    assume "take_bit 7 w = w"
    then show "\<not> bit w 7" by (metis bit_take_bit_iff less_irrefl)
  qed
  also have "\<dots> \<longleftrightarrow> unat w mod 128 = unat w"
    using unat_low_bits [of 7 w] by (simp add: word_unat_eq_iff)
  also have "\<dots> \<longleftrightarrow> unat w < 128" by (metis mod_less mod_less_divisor zero_less_numeral)
  finally show ?thesis .
qed

lemma loop_piece:
  assumes "piece_ok p"
  shows "PatchToUrl_loop expansions (piece_code p @ rest) out = PatchToUrl_loop expansions rest (out @ piece_text expansions p)"
proof (cases p)
  case (Literal bs)
  with assms have l: "length bs < 128" "bs \<noteq> []" by simp_all
  then have u: "unat (of_nat (length bs) :: byte) = length bs" by (simp add: unat_of_nat)
  then have "(of_nat (length bs) :: byte) AND 128 = 0" using l by (simp add: high_bit)
  moreover have "unat ((of_nat (length bs) :: byte) AND 127) = length bs" using l u by (simp add: AND_mask_7)
  ultimately show ?thesis using l Literal by simp
next
  case (Expansion n)
  with assms have n: "n < 6" by simp
  then have u: "unat (of_nat (128 + n) :: byte) = 128 + n" by (simp add: unat_of_nat del: of_nat_add of_nat_numeral)
  then have "(of_nat (128 + n) :: byte) AND 128 \<noteq> 0" by (simp add: high_bit del: of_nat_add)
  moreover have "\<not> ((of_nat (128 + n) :: byte) < 128 \<or> 133 < (of_nat (128 + n) :: byte))"
    using n u by (simp add: word_less_nat_alt del: of_nat_add of_nat_numeral)
  ultimately show ?thesis using u Expansion by (simp del: of_nat_add)
qed

lemma loop_template:
  "list_all piece_ok ps \<Longrightarrow>
    PatchToUrl_loop expansions (template_code ps) out = Inr (out @ template_text expansions ps)"
proof (induction ps arbitrary: out)
  case Nil
  show ?case by (simp add: template_code_def template_text_def)
next
  case (Cons p ps)
  then have "PatchToUrl_loop expansions (template_code (p # ps)) out =
      PatchToUrl_loop expansions (template_code ps) (out @ piece_text expansions p)"
    by (simp add: template_code_def loop_piece)
  also have "\<dots> = Inr (out @ template_text expansions (p # ps))"
    using Cons by (simp add: template_text_def)
  finally show ?case .
qed

lemma loop_parses:
  "PatchToUrl_loop expansions t out = Inr r \<Longrightarrow>
    \<exists>ps. list_all piece_ok ps \<and> t = template_code ps \<and> r = out @ template_text expansions ps"
proof (induction expansions t out rule: PatchToUrl_loop.induct)
  case (1 expansions out)
  then show ?case by (intro exI [of _ "[]"]) (simp add: template_code_def template_text_def)
next
  case (2 expansions op_code rest out)
  have add: "\<exists>ps. list_all piece_ok ps \<and> op_code # rest = template_code ps \<and> r = out @ template_text expansions ps"
    if "list_all piece_ok ps" "rest' = template_code ps" "r = (out @ piece_text expansions p) @ template_text expansions ps"
      "piece_ok p" "op_code # rest = piece_code p @ rest'" for ps p rest'
    using that by (intro exI [of _ "p # ps"]) (simp add: template_code_def template_text_def)
  show ?case
  proof (cases "op_code AND 128 = 0")
    case True
    define n where "n = unat (op_code AND 127)"
    have u: "unat op_code < 128" using True high_bit by blast
    then have nu: "n = unat op_code" by (simp add: n_def AND_mask_7)
    have n: "\<not> length rest < n" "n \<noteq> 0"
      and run: "PatchToUrl_loop expansions (drop n rest) (out @ take n rest) = Inr r"
      using 2(3) True by (auto simp: n_def [symmetric] Let_def split: if_splits)
    obtain ps where "list_all piece_ok ps" "drop n rest = template_code ps"
      "r = (out @ take n rest) @ template_text expansions ps"
      using 2(1) [OF True n_def n run] by blast
    moreover have "piece_ok (Literal (take n rest))" using n u nu by auto
    moreover have "op_code # rest = piece_code (Literal (take n rest)) @ drop n rest"
      using n nu by simp
    ultimately show ?thesis using add [of ps _ "Literal (take n rest)"] by simp
  next
    case False
    then have range: "\<not> (op_code < 128 \<or> 133 < op_code)"
      and run: "PatchToUrl_loop expansions rest (out @ expansions ! (unat op_code - 128)) = Inr r"
      using 2(3) by (auto split: if_splits)
    obtain ps where "list_all piece_ok ps" "rest = template_code ps"
      "r = (out @ expansions ! (unat op_code - 128)) @ template_text expansions ps"
      using 2(2) [OF False range run] by blast
    moreover have "piece_ok (Expansion (unat op_code - 128))"
      using range by (simp add: word_less_nat_alt; arith)
    moreover have "128 + (unat op_code - 128) = unat op_code" using range by (simp add: word_less_nat_alt)
    then have "op_code # rest = piece_code (Expansion (unat op_code - 128)) @ rest"
      by (simp del: of_nat_add)
    ultimately show ?thesis using add [of ps rest "Expansion (unat op_code - 128)"] by simp
  qed
qed

lemma PatchToUrl_iff:
  "PatchToUrl base32 base64 t idx = Inr url \<longleftrightarrow> (\<exists>ps. list_all piece_ok ps \<and> t = template_code ps \<and>
     url = template_text (PopulateExpansions base32 base64 idx) ps)"
proof
  assume "PatchToUrl base32 base64 t idx = Inr url"
  from loop_parses [OF this [unfolded PatchToUrl_def]]
  show "\<exists>ps. list_all piece_ok ps \<and> t = template_code ps \<and> url = template_text (PopulateExpansions base32 base64 idx) ps"
    by simp
next
  assume "\<exists>ps. list_all piece_ok ps \<and> t = template_code ps \<and> url = template_text (PopulateExpansions base32 base64 idx) ps"
  then show "PatchToUrl base32 base64 t idx = Inr url" by (auto simp: PatchToUrl_def loop_template)
qed

lemma loop_error: "PatchToUrl_loop expansions t out \<in> range Inr \<union> {Inl InvalidArgumentError}"
  by (induction expansions t out rule: PatchToUrl_loop.induct) (auto simp: Let_def)

lemma PatchToUrl_error: "PatchToUrl base32 base64 t idx \<in> range Inr \<union> {Inl InvalidArgumentError}"
  unfolding PatchToUrl_def by (rule loop_error)

section \<open>The bytes of an index\<close>

text \<open>The value of big endian bytes; leading zeros do not change it.\<close>

definition be_value :: "bytes \<Rightarrow> nat" where
  "be_value bs = foldl (\<lambda>n b. 256 * n + unat b) 0 bs"

lemma skip_zeros_prefix: "start \<le> 3 \<Longrightarrow> skip_zeros bs start \<le> 3 \<and>
    (\<forall>i. start \<le> i \<and> i < skip_zeros bs start \<longrightarrow> bs ! i = 0)"
proof (induction bs start rule: skip_zeros.induct)
  case (1 bs start)
  show ?case
  proof (cases "start < 3 \<and> bs ! start = 0")
    case True
    then have eq: "skip_zeros bs start = skip_zeros bs (start + 1)" by (simp add: skip_zeros.simps [of bs start])
    have "start + 1 \<le> 3" using True by simp
    note ih = 1(1) [OF True this]
    have "bs ! i = 0" if "start \<le> i" "i < skip_zeros bs (start + 1)" for i
      using ih that True by (cases "i = start") auto
    with ih show ?thesis unfolding eq by blast
  next
    case False
    then show ?thesis using 1(2) by (subst (1 2) skip_zeros.simps) auto
  qed
qed

lemma be_value_zeros: "be_value (replicate n 0 @ bs) = be_value bs"
  by (induction n) (simp_all add: be_value_def)

lemma patch_idx_bytes_value: "be_value (patch_idx_bytes idx) = unat idx"
proof -
  have b: "unat (ucast (drop_bit k idx AND 255) :: byte) = unat idx div 2 ^ k mod 256" for k
  proof -
    have "drop_bit k idx AND 255 = take_bit 8 (drop_bit k idx)"
      using take_bit_eq_mask [of 8 "drop_bit k idx"] by (simp add: mask_eq_exp_minus_1)
    then have "unat (drop_bit k idx AND 255) = unat (drop_bit k idx) mod 256"
      using unat_low_bits [of 8 "drop_bit k idx"] by simp
    moreover have "unat (drop_bit k idx) = unat idx div 2 ^ k"
      by (rule trans [OF unat_drop_bit_eq drop_bit_eq_div])
    moreover have "unat (ucast v :: byte) = unat v mod 256" for v :: "32 word"
      by (simp add: unsigned_ucast_eq take_bit_eq_mod)
    ultimately show ?thesis by simp
  qed
  define n where "n = unat idx"
  have n: "n < 2 ^ 32" using unsigned_less [of idx] by (simp add: n_def)
  have "n div 2 ^ 16 = n div 2 ^ 8 div 2 ^ 8" "n div 2 ^ 24 = n div 2 ^ 8 div 2 ^ 8 div 2 ^ 8"
    by (simp_all flip: div_mult2_eq)
  moreover have "n div 2 ^ 24 < 256" using n by (simp add: less_mult_imp_div_less)
  ultimately have "256 * (256 * (256 * (n div 2 ^ 24 mod 256) + n div 2 ^ 16 mod 256) + n div 2 ^ 8 mod 256) + n mod 256 = n"
    by (simp add: mult_div_mod_eq)
  then show ?thesis using b [of 24] b [of 16] b [of 8] b [of 0]
    by (simp add: be_value_def patch_idx_bytes_def n_def)
qed

lemma id_bytes_value: "be_value (id_bytes idx) = unat idx"
proof -
  let ?bs = "patch_idx_bytes idx" let ?k = "skip_zeros ?bs 0"
  have len: "length ?bs = 4" by (simp add: patch_idx_bytes_def)
  have k: "?k \<le> 3" "\<forall>i < ?k. ?bs ! i = 0" using skip_zeros_prefix [of 0 ?bs] by auto
  then have "take ?k ?bs = replicate ?k 0" by (intro nth_equalityI) (simp_all add: len)
  then have "?bs = replicate ?k 0 @ id_bytes idx" by (metis append_take_drop_id id_bytes_def)
  then show ?thesis by (metis be_value_zeros patch_idx_bytes_value)
qed

lemma id_bytes_inject: "id_bytes i = id_bytes j \<longleftrightarrow> i = j"
  using id_bytes_value [of i] id_bytes_value [of j] by (metis word_unat_eq_iff)

lemma id_bytes_length: "1 \<le> length (id_bytes idx) \<and> length (id_bytes idx) \<le> 4"
proof -
  have "length (patch_idx_bytes idx) = 4" by (simp add: patch_idx_bytes_def)
  then show ?thesis using skip_zeros_prefix [of 0 "patch_idx_bytes idx"] by (simp add: id_bytes_def Let_def; arith)
qed

end
