(* ===== verification/Condition_Index.thy ===== *)
theory Condition_Index
  imports Activation_Condition
begin

text \<open>
  The index from activation conditions to glyphs and back of
  \<^verbatim>\<open>ift/encoder/condition_to_glyphs_index.h\<close>. Hash maps are functions, sets of conditions are
  sets; the template parameter \<^verbatim>\<open>keep_ordered\<close> is a field. What a client may rely on is that all
  four containers describe the same relation (\<open>cg_inv\<close>).
\<close>

record condition_index =
  cg_keep_ordered :: bool
  cg_conditions :: "activation_condition \<Rightarrow> int_set option"
  cg_ordered :: "activation_condition set"
  cg_glyphs :: "nat \<Rightarrow> activation_condition option"
  cg_segments :: "segment_index \<Rightarrow> activation_condition set option"

definition ConditionToGlyphsIndex :: "bool \<Rightarrow> condition_index" where
  "ConditionToGlyphsIndex keep_ordered = \<lparr>cg_keep_ordered = keep_ordered, cg_conditions = (\<lambda>_. None),
     cg_ordered = {}, cg_glyphs = (\<lambda>_. None), cg_segments = (\<lambda>_. None)\<rparr>"

section \<open>Operations\<close>

definition forget_segment :: "activation_condition \<Rightarrow> segment_index \<Rightarrow>
    (segment_index \<Rightarrow> activation_condition set option) \<Rightarrow> (segment_index \<Rightarrow> activation_condition set option)" where
  "forget_segment condition s m = (case m s of None \<Rightarrow> m
     | Some C \<Rightarrow> (let C = C - {condition} in if C = {} then m(s := None) else m(s \<mapsto> C)))"

text \<open>The private \<^verbatim>\<open>Remove\<close>, with an iterator to the entry of the condition.\<close>

definition cg_Remove_entry :: "activation_condition \<Rightarrow> condition_index \<Rightarrow> condition_index" where
  "cg_Remove_entry condition I = I\<lparr>
     cg_conditions := (cg_conditions I)(condition := None),
     cg_ordered := (if cg_keep_ordered I then cg_ordered I - {condition} else cg_ordered I),
     cg_segments := fold (forget_segment condition) (to_vector (TriggeringSegments condition)) (cg_segments I)\<rparr>"

definition cg_Remove :: "activation_condition \<Rightarrow> condition_index \<Rightarrow> condition_index" where
  "cg_Remove condition I = (case cg_conditions I condition of None \<Rightarrow> I
     | Some glyphs \<Rightarrow> cg_Remove_entry condition
         (I\<lparr>cg_glyphs := fold (\<lambda>gid m. m(gid := None)) (to_vector glyphs) (cg_glyphs I)\<rparr>))"

text \<open>\<open>None\<close>: the condition of the glyph has no entry, and the code dereferences \<^verbatim>\<open>end()\<close>.\<close>

definition cg_Invalidate :: "nat \<Rightarrow> condition_index \<Rightarrow> (activation_condition option \<times> condition_index) option" where
  "cg_Invalidate gid I = (case cg_glyphs I gid of None \<Rightarrow> Some (None, I)
     | Some condition \<Rightarrow> (case cg_conditions I condition of None \<Rightarrow> None
       | Some glyphs \<Rightarrow>
           let glyphs = fst (IntSet_erase gid glyphs);
               I = I\<lparr>cg_conditions := (cg_conditions I)(condition \<mapsto> glyphs),
                     cg_glyphs := (cg_glyphs I)(gid := None)\<rparr>
           in Some (Some condition, if IntSet_is_empty glyphs then cg_Remove_entry condition I else I)))"

definition add_segment :: "activation_condition \<Rightarrow> segment_index \<Rightarrow>
    (segment_index \<Rightarrow> activation_condition set option) \<Rightarrow> (segment_index \<Rightarrow> activation_condition set option)" where
  "add_segment condition s m = m(s \<mapsto> insert condition (case m s of None \<Rightarrow> {} | Some C \<Rightarrow> C))"

fun Union_glyphs :: "activation_condition \<Rightarrow> nat list \<Rightarrow> (nat \<Rightarrow> activation_condition option) \<Rightarrow>
    (nat \<Rightarrow> activation_condition option) \<times> unit status_or" where
  "Union_glyphs condition [] m = (m, Inr ())"
| "Union_glyphs condition (gid # gids) m = (case m gid of
      None \<Rightarrow> Union_glyphs condition gids (m(gid \<mapsto> condition))
    | Some c \<Rightarrow> if c \<noteq> condition then (m, Inl InternalError) else Union_glyphs condition gids m)"

definition cg_Union :: "activation_condition \<Rightarrow> int_set \<Rightarrow> condition_index \<Rightarrow> condition_index \<times> unit status_or" where
  "cg_Union condition glyphs I =
     (let I = I\<lparr>
        cg_conditions := (cg_conditions I)(condition \<mapsto> IntSet_union_set
          (case cg_conditions I condition of None \<Rightarrow> IntSet_empty | Some S \<Rightarrow> S) glyphs),
        cg_ordered := (if cg_keep_ordered I then insert condition (cg_ordered I) else cg_ordered I),
        cg_segments := fold (add_segment condition) (to_vector (TriggeringSegments condition)) (cg_segments I)\<rparr>;
        (m, status) = Union_glyphs condition (to_vector glyphs) (cg_glyphs I)
      in (I\<lparr>cg_glyphs := m\<rparr>, status))"

fun Add_glyphs :: "activation_condition \<Rightarrow> nat list \<Rightarrow> (nat \<Rightarrow> activation_condition option) \<Rightarrow>
    (nat \<Rightarrow> activation_condition option) \<times> unit status_or" where
  "Add_glyphs condition [] m = (m, Inr ())"
| "Add_glyphs condition (gid # gids) m = (case m gid of
      None \<Rightarrow> Add_glyphs condition gids (m(gid \<mapsto> condition))
    | Some _ \<Rightarrow> (m, Inl InternalError))"

definition cg_Add :: "activation_condition \<Rightarrow> int_set \<Rightarrow> condition_index \<Rightarrow> condition_index \<times> unit status_or" where
  "cg_Add condition glyphs I =
     (let ordered = (if cg_keep_ordered I then insert condition (cg_ordered I) else cg_ordered I)
      in case cg_conditions I condition of
        Some existing \<Rightarrow>
          if \<not> IntSet_is_subset_of existing glyphs then (I\<lparr>cg_ordered := ordered\<rparr>, Inl InternalError)
          else let glyphs = IntSet_subtract glyphs existing;
                   (m, status) = Add_glyphs condition (to_vector glyphs) (cg_glyphs I)
               in (I\<lparr>cg_conditions := (cg_conditions I)(condition \<mapsto> IntSet_union_set existing glyphs),
                     cg_ordered := ordered, cg_glyphs := m\<rparr>, status)
      | None \<Rightarrow>
          let (m, status) = Add_glyphs condition (to_vector glyphs) (cg_glyphs I)
          in (I\<lparr>cg_conditions := (cg_conditions I)(condition \<mapsto> glyphs), cg_ordered := ordered,
                cg_segments := fold (add_segment condition) (to_vector (TriggeringSegments condition)) (cg_segments I),
                cg_glyphs := m\<rparr>, status))"

section \<open>Invariant\<close>

definition segments_of :: "(activation_condition \<Rightarrow> int_set option) \<Rightarrow> segment_index \<Rightarrow> activation_condition set" where
  "segments_of m s = {c. m c \<noteq> None \<and> s \<in> members (TriggeringSegments c)}"

definition option_set :: "'a set \<Rightarrow> 'a set option" where
  "option_set C = (if C = {} then None else Some C)"

definition cg_inv :: "condition_index \<Rightarrow> bool" where
  "cg_inv I \<longleftrightarrow>
     (\<forall>g c. cg_glyphs I g = Some c \<longleftrightarrow> (\<exists>S. cg_conditions I c = Some S \<and> g \<in> members S)) \<and>
     (\<forall>s. cg_segments I s = option_set (segments_of (cg_conditions I) s)) \<and>
     cg_ordered I = (if cg_keep_ordered I then dom (cg_conditions I) else {})"

lemma cg_inv_init: "cg_inv (ConditionToGlyphsIndex k)"
  by (simp add: cg_inv_def ConditionToGlyphsIndex_def segments_of_def option_set_def)

lemma fold_forget_segment:
  "fold (forget_segment c) xs (\<lambda>s. option_set (C s)) = (\<lambda>s. option_set (if s \<in> set xs then C s - {c} else C s))"
proof (induction xs rule: rev_induct)
  case (snoc x xs)
  have "forget_segment c x (\<lambda>s. option_set (D s)) = (\<lambda>s. option_set (if s = x then D s - {c} else D s))" for D
    by (auto simp: forget_segment_def option_set_def Let_def fun_eq_iff)
  then show ?case by (auto simp: snoc fun_eq_iff)
qed simp

lemma fold_add_segment:
  "fold (add_segment c) xs (\<lambda>s. option_set (C s)) = (\<lambda>s. option_set (if s \<in> set xs then insert c (C s) else C s))"
proof (induction xs rule: rev_induct)
  case (snoc x xs)
  have "add_segment c x (\<lambda>s. option_set (D s)) = (\<lambda>s. option_set (if s = x then insert c (D s) else D s))" for D
    by (auto simp: add_segment_def option_set_def fun_eq_iff)
  then show ?case by (auto simp: snoc fun_eq_iff)
qed simp

lemma forget_segments:
  assumes "m = (\<lambda>s. option_set (segments_of M s))"
  shows "fold (forget_segment c) (to_vector (TriggeringSegments c)) m =
    (\<lambda>s. option_set (segments_of (M(c := None)) s))"
  unfolding assms fold_forget_segment by (auto simp: fun_eq_iff segments_of_def intro!: arg_cong [of _ _ option_set])

lemma add_segments:
  assumes "m = (\<lambda>s. option_set (segments_of M s))"
  shows "fold (add_segment c) (to_vector (TriggeringSegments c)) m =
    (\<lambda>s. option_set (segments_of (M(c \<mapsto> S)) s))"
  unfolding assms fold_add_segment by (auto simp: fun_eq_iff segments_of_def intro!: arg_cong [of _ _ option_set])

lemma upd_Cons: "(\<lambda>x. if x \<in> set gids then Some c else (m(g \<mapsto> c)) x) = (\<lambda>x. if x \<in> set (g # gids) then Some c else m x)"
  by (rule ext) simp

definition glyphs_result :: "bool \<Rightarrow> activation_condition \<Rightarrow> nat set \<Rightarrow> (nat \<Rightarrow> activation_condition option) \<Rightarrow>
    (nat \<Rightarrow> activation_condition option) \<times> unit status_or \<Rightarrow> bool" where
  "glyphs_result same c gids m = (\<lambda>(m', r). case r of
     Inr _ \<Rightarrow> m' = (\<lambda>g. if g \<in> gids then Some c else m g) \<and>
       (\<forall>g \<in> gids. m g = None \<or> (same \<and> m g = Some c))
   | Inl e \<Rightarrow> e = InternalError \<and> (\<exists>g \<in> gids. m g \<noteq> None \<and> \<not> (same \<and> m g = Some c)))"

lemma glyphs_result_Cons:
  assumes "glyphs_result same c (set gids) (m(g \<mapsto> c)) (m', r)" and "m g = None" and "same \<or> g \<notin> set gids"
  shows "glyphs_result same c (set (g # gids)) m (m', r)"
  using assms upd_Cons [of gids c m g] unfolding glyphs_result_def
  by (cases r) (simp_all split: if_splits, blast+)

lemma Union_glyphs_spec: "glyphs_result True c (set gids) m (Union_glyphs c gids m)"
proof (induction gids arbitrary: m)
  case (Cons g gids)
  show ?case
  proof (cases "m g")
    case None
    obtain m' r where run: "Union_glyphs c gids (m(g \<mapsto> c)) = (m', r)" by fastforce
    have "glyphs_result True c (set gids) (m(g \<mapsto> c)) (m', r)"
      unfolding run [symmetric] by (rule Cons.IH)
    then have "glyphs_result True c (set (g # gids)) m (m', r)"
      by (rule glyphs_result_Cons) (use None in simp_all)
    then show ?thesis using None run by (simp del: fun_upd_apply)
  next
    case (Some c')
    show ?thesis
    proof (cases "c' = c")
      case True
      then have "Union_glyphs c (g # gids) m = Union_glyphs c gids m" using Some by simp
      moreover have "m(g \<mapsto> c) = m" using Some True by auto
      ultimately show ?thesis using Cons.IH [of m] Some True
        by (cases "Union_glyphs c gids m") (auto simp: glyphs_result_def fun_eq_iff split: sum.splits)
    qed (use Some in \<open>simp add: glyphs_result_def\<close>)
  qed
qed (simp add: glyphs_result_def)

lemma Add_glyphs_spec: "distinct gids \<Longrightarrow> glyphs_result False c (set gids) m (Add_glyphs c gids m)"
proof (induction gids arbitrary: m)
  case (Cons g gids)
  show ?case
  proof (cases "m g")
    case None
    obtain m' r where run: "Add_glyphs c gids (m(g \<mapsto> c)) = (m', r)" by fastforce
    have "glyphs_result False c (set gids) (m(g \<mapsto> c)) (m', r)"
      unfolding run [symmetric] by (rule Cons.IH) (use Cons.prems in simp)
    then have "glyphs_result False c (set (g # gids)) m (m', r)"
      by (rule glyphs_result_Cons) (use None Cons.prems in simp_all)
    then show ?thesis using None run by (simp del: fun_upd_apply)
  qed (simp add: glyphs_result_def)
qed (simp add: glyphs_result_def)

section \<open>The operations keep the invariant\<close>

lemma cg_invI:
  assumes "\<And>g c. cg_glyphs I g = Some c \<longleftrightarrow> (\<exists>S. cg_conditions I c = Some S \<and> g \<in> members S)"
    and "cg_segments I = (\<lambda>s. option_set (segments_of (cg_conditions I) s))"
    and "cg_ordered I = (if cg_keep_ordered I then dom (cg_conditions I) else {})"
  shows "cg_inv I"
  using assms by (simp add: cg_inv_def)

lemma cg_invD:
  assumes "cg_inv I"
  shows "cg_glyphs I g = Some c \<longleftrightarrow> (\<exists>S. cg_conditions I c = Some S \<and> g \<in> members S)"
    and "cg_segments I = (\<lambda>s. option_set (segments_of (cg_conditions I) s))"
    and "cg_ordered I = (if cg_keep_ordered I then dom (cg_conditions I) else {})"
  using assms by (auto simp: cg_inv_def)

text \<open>Two conditions never share a glyph.\<close>

lemma cg_disjoint:
  assumes "cg_inv I" and "cg_conditions I c = Some S" and "cg_conditions I d = Some T"
    and "g \<in> members S" and "g \<in> members T"
  shows "c = d"
  using cg_invD(1) [OF assms(1), of g c] cg_invD(1) [OF assms(1), of g d] assms by auto

lemma cg_Remove_entry_inv:
  assumes seg: "cg_segments I = (\<lambda>s. option_set (segments_of (cg_conditions I) s))"
    and ord: "cg_ordered I = (if cg_keep_ordered I then dom (cg_conditions I) else {})"
    and gl: "\<And>g d. cg_glyphs I g = Some d \<longleftrightarrow> d \<noteq> c \<and> (\<exists>S. cg_conditions I d = Some S \<and> g \<in> members S)"
  shows "cg_inv (cg_Remove_entry c I)"
proof (rule cg_invI)
  show "cg_glyphs (cg_Remove_entry c I) g = Some d \<longleftrightarrow>
      (\<exists>S. cg_conditions (cg_Remove_entry c I) d = Some S \<and> g \<in> members S)" for g d
    using gl [of g d] by (simp add: cg_Remove_entry_def)
  show "cg_segments (cg_Remove_entry c I) = (\<lambda>s. option_set (segments_of (cg_conditions (cg_Remove_entry c I)) s))"
    using forget_segments [OF seg] by (simp add: cg_Remove_entry_def del: fun_upd_apply)
  show "cg_ordered (cg_Remove_entry c I) =
      (if cg_keep_ordered (cg_Remove_entry c I) then dom (cg_conditions (cg_Remove_entry c I)) else {})"
    using ord by (auto simp: cg_Remove_entry_def)
qed

lemma fold_forget_glyphs: "fold (\<lambda>gid m. m(gid := None)) gids m = (\<lambda>g. if g \<in> set gids then None else m g)"
  by (induction gids arbitrary: m) (auto simp: fun_eq_iff)

lemma cg_Remove_spec:
  assumes inv: "cg_inv I"
  shows "cg_inv (cg_Remove c I)"
    and "cg_conditions (cg_Remove c I) = (cg_conditions I)(c := None)"
    and "cg_glyphs (cg_Remove c I) = (\<lambda>g. if cg_glyphs I g = Some c then None else cg_glyphs I g)"
proof -
  note d = cg_invD [OF inv]
  have "cg_inv (cg_Remove c I) \<and> cg_conditions (cg_Remove c I) = (cg_conditions I)(c := None) \<and>
    cg_glyphs (cg_Remove c I) = (\<lambda>g. if cg_glyphs I g = Some c then None else cg_glyphs I g)"
  proof (cases "cg_conditions I c")
    case None
    then have "cg_glyphs I g \<noteq> Some c" for g using d(1) [of g c] by simp
    moreover have "(cg_conditions I)(c := None) = cg_conditions I" using None by auto
    ultimately show ?thesis using None inv by (simp add: cg_Remove_def)
  next
    case (Some S)
    let ?I = "I\<lparr>cg_glyphs := fold (\<lambda>gid m. m(gid := None)) (to_vector S) (cg_glyphs I)\<rparr>"
    have mem: "g \<in> members S \<longleftrightarrow> cg_glyphs I g = Some c" for g using d(1) [of g c] Some by simp
    have gl: "cg_glyphs ?I g = Some e \<longleftrightarrow> e \<noteq> c \<and> (\<exists>S. cg_conditions ?I e = Some S \<and> g \<in> members S)" for g e
      using d(1) [of g e] mem [of g] by (auto simp: fold_forget_glyphs)
    have "cg_inv (cg_Remove_entry c ?I)"
      by (rule cg_Remove_entry_inv [OF _ _ gl]) (use d(2,3) in simp_all)
    then show ?thesis using Some by (simp add: cg_Remove_def cg_Remove_entry_def fold_forget_glyphs mem)
  qed
  then show "cg_inv (cg_Remove c I)" "cg_conditions (cg_Remove c I) = (cg_conditions I)(c := None)"
    "cg_glyphs (cg_Remove c I) = (\<lambda>g. if cg_glyphs I g = Some c then None else cg_glyphs I g)" by simp_all
qed

lemma cg_Invalidate_spec:
  assumes inv: "cg_inv I"
  shows "\<exists>I'. cg_Invalidate gid I = Some (cg_glyphs I gid, I') \<and> cg_inv I' \<and> cg_glyphs I' = (cg_glyphs I)(gid := None)"
proof (cases "cg_glyphs I gid")
  case None
  then have "(cg_glyphs I)(gid := None) = cg_glyphs I" by auto
  with None inv show ?thesis by (simp add: cg_Invalidate_def)
next
  case (Some c)
  note d = cg_invD [OF inv]
  obtain S where S: "cg_conditions I c = Some S" "gid \<in> members S" using d(1) [of gid c] Some by auto
  define T where "T = fst (IntSet_erase gid S)"
  have T: "members T = members S - {gid}" by (simp add: T_def)
  define I1 where "I1 = I\<lparr>cg_conditions := (cg_conditions I)(c \<mapsto> T), cg_glyphs := (cg_glyphs I)(gid := None)\<rparr>"
  have seg: "segments_of (cg_conditions I1) = segments_of (cg_conditions I)"
    using S by (auto simp: segments_of_def I1_def fun_eq_iff)
  have gl: "cg_glyphs I1 g = Some e \<longleftrightarrow> (\<exists>S. cg_conditions I1 e = Some S \<and> g \<in> members S)" for g e
  proof (cases "e = c")
    case True
    then show ?thesis using d(1) [of g c] S T by (auto simp: I1_def)
  next
    case False
    then have "\<not> (\<exists>S. cg_conditions I e = Some S \<and> gid \<in> members S)"
      using cg_disjoint [OF inv _ S(1) _ S(2), of e] by auto
    with False show ?thesis using d(1) [of g e] by (auto simp: I1_def)
  qed
  have dom: "dom (cg_conditions I1) = dom (cg_conditions I)" using S by (auto simp: I1_def)
  have I1: "cg_segments I1 = (\<lambda>s. option_set (segments_of (cg_conditions I1) s))"
    "cg_ordered I1 = (if cg_keep_ordered I1 then dom (cg_conditions I1) else {})"
    using d(2,3) unfolding seg dom by (simp_all add: I1_def)
  have run: "cg_Invalidate gid I = Some (Some c, if IntSet_is_empty T then cg_Remove_entry c I1 else I1)"
    using Some S by (simp add: cg_Invalidate_def T_def [symmetric] I1_def)
  show ?thesis
  proof (cases "members T = {}")
    case True
    then have "cg_conditions I1 c = Some T" "\<And>g. g \<notin> members T" by (auto simp: I1_def)
    then have "cg_glyphs I1 g = Some e \<longleftrightarrow> e \<noteq> c \<and> (\<exists>S. cg_conditions I1 e = Some S \<and> g \<in> members S)" for g e
      using gl [of g e] by auto
    from cg_Remove_entry_inv [OF I1 this] True run Some show ?thesis
      by (simp add: cg_Remove_entry_def I1_def)
  next
    case False
    have "cg_inv I1" by (rule cg_invI [OF gl I1])
    with False run Some show ?thesis by (simp add: I1_def)
  qed
qed

lemma cg_insert_inv:
  assumes inv: "cg_inv I" and old: "members (case cg_conditions I c of None \<Rightarrow> IntSet_empty | Some S \<Rightarrow> S) \<subseteq> members T"
    and free: "\<forall>g \<in> members T. cg_glyphs I g = None \<or> cg_glyphs I g = Some c"
    and I': "cg_conditions I' = (cg_conditions I)(c \<mapsto> T)"
      "cg_segments I' = (\<lambda>s. option_set (segments_of (cg_conditions I') s))"
      "cg_ordered I' = (if cg_keep_ordered I then insert c (cg_ordered I) else cg_ordered I)"
      "cg_keep_ordered I' = cg_keep_ordered I"
      "cg_glyphs I' = (\<lambda>g. if g \<in> members T then Some c else cg_glyphs I g)"
  shows "cg_inv I'"
proof (rule cg_invI [OF _ I'(2)])
  note d = cg_invD [OF inv]
  show "cg_ordered I' = (if cg_keep_ordered I' then dom (cg_conditions I') else {})"
    using d(3) by (simp add: I')
  show "cg_glyphs I' g = Some e \<longleftrightarrow> (\<exists>S. cg_conditions I' e = Some S \<and> g \<in> members S)" for g e
  proof (cases "e = c")
    case True
    have "cg_glyphs I g = Some c \<Longrightarrow> g \<in> members T" using d(1) [of g c] old by auto
    with True show ?thesis by (auto simp: I')
  next
    case False
    then show ?thesis using d(1) [of g e] free by (auto simp: I')
  qed
qed

lemma cg_Union_spec:
  assumes inv: "cg_inv I"
  shows "case cg_Union c S I of
      (I', Inr ()) \<Rightarrow> cg_inv I' \<and> cg_glyphs I' = (\<lambda>g. if g \<in> members S then Some c else cg_glyphs I g) \<and>
        dom (cg_conditions I') = insert c (dom (cg_conditions I))
    | (I', Inl e) \<Rightarrow> e = InternalError \<and> (\<exists>g \<in> members S. cg_glyphs I g \<noteq> None \<and> cg_glyphs I g \<noteq> Some c)"
proof -
  let ?old = "case cg_conditions I c of None \<Rightarrow> IntSet_empty | Some S \<Rightarrow> S"
  obtain m r where run: "Union_glyphs c (to_vector S) (cg_glyphs I) = (m, r)" by fastforce
  from Union_glyphs_spec [of c "to_vector S" "cg_glyphs I", unfolded run]
  have spec: "glyphs_result True c (members S) (cg_glyphs I) (m, r)" by simp
  define I' where "I' = I\<lparr>cg_conditions := (cg_conditions I)(c \<mapsto> IntSet_union_set ?old S),
      cg_ordered := (if cg_keep_ordered I then insert c (cg_ordered I) else cg_ordered I),
      cg_segments := fold (add_segment c) (to_vector (TriggeringSegments c)) (cg_segments I), cg_glyphs := m\<rparr>"
  have U: "cg_Union c S I = (I', r)" by (simp add: cg_Union_def Let_def run I'_def)
  show ?thesis
  proof (cases r)
    case (Inl e)
    with spec show ?thesis unfolding U by (auto simp: glyphs_result_def)
  next
    case (Inr u)
    then have m: "m = (\<lambda>g. if g \<in> members S then Some c else cg_glyphs I g)"
      and free: "\<forall>g \<in> members S. cg_glyphs I g = None \<or> cg_glyphs I g = Some c"
      using spec by (auto simp: glyphs_result_def)
    have old: "g \<in> members ?old \<longleftrightarrow> cg_glyphs I g = Some c" for g
      using cg_invD(1) [OF inv, of g c] by (cases "cg_conditions I c") auto
    have "cg_inv I'"
    proof (rule cg_insert_inv [OF inv, where c = c and T = "IntSet_union_set ?old S"])
      show "cg_segments I' = (\<lambda>s. option_set (segments_of (cg_conditions I') s))"
        unfolding I'_def using add_segments [OF cg_invD(2) [OF inv], of c] by (simp del: fun_upd_apply)
      show "cg_glyphs I' = (\<lambda>g. if g \<in> members (IntSet_union_set ?old S) then Some c else cg_glyphs I g)"
        unfolding members_union using old by (auto simp: I'_def m fun_eq_iff)
    qed (use old free in \<open>auto simp: I'_def\<close>)
    with Inr show ?thesis unfolding U by (simp add: I'_def m split: unit.split)
  qed
qed

lemma cg_Add_spec:
  assumes inv: "cg_inv I"
  shows "case cg_Add c S I of
      (I', Inr ()) \<Rightarrow> cg_inv I' \<and> cg_glyphs I' = (\<lambda>g. if g \<in> members S then Some c else cg_glyphs I g) \<and>
        cg_conditions I' = (cg_conditions I)(c \<mapsto> S)
    | (I', Inl e) \<Rightarrow> e = InternalError \<and> ((\<exists>T. cg_conditions I c = Some T \<and> \<not> members T \<subseteq> members S) \<or>
        (\<exists>g \<in> members S. cg_glyphs I g \<noteq> None \<and> cg_glyphs I g \<noteq> Some c))"
proof (cases "cg_conditions I c")
  case None
  obtain m r where run: "Add_glyphs c (to_vector S) (cg_glyphs I) = (m, r)" by fastforce
  from Add_glyphs_spec [of "to_vector S" c "cg_glyphs I", unfolded run]
  have spec: "glyphs_result False c (members S) (cg_glyphs I) (m, r)" by simp
  define I' where "I' = I\<lparr>cg_conditions := (cg_conditions I)(c \<mapsto> S),
      cg_ordered := (if cg_keep_ordered I then insert c (cg_ordered I) else cg_ordered I),
      cg_segments := fold (add_segment c) (to_vector (TriggeringSegments c)) (cg_segments I), cg_glyphs := m\<rparr>"
  have U: "cg_Add c S I = (I', r)" by (simp add: cg_Add_def Let_def run None I'_def)
  have unused: "cg_glyphs I g \<noteq> Some c" for g using cg_invD(1) [OF inv, of g c] None by simp
  show ?thesis
  proof (cases r)
    case (Inl e)
    with spec show ?thesis unfolding U using unused by (auto simp: glyphs_result_def)
  next
    case (Inr u)
    then have m: "m = (\<lambda>g. if g \<in> members S then Some c else cg_glyphs I g)"
      and free: "\<forall>g \<in> members S. cg_glyphs I g = None" using spec by (auto simp: glyphs_result_def)
    have "cg_inv I'"
    proof (rule cg_insert_inv [OF inv, where c = c and T = S])
      show "cg_segments I' = (\<lambda>s. option_set (segments_of (cg_conditions I') s))"
        unfolding I'_def using add_segments [OF cg_invD(2) [OF inv], of c] by (simp del: fun_upd_apply)
    qed (use None free in \<open>simp_all add: I'_def m\<close>)
    with Inr show ?thesis unfolding U by (simp add: I'_def m split: unit.split)
  qed
next
  case (Some T)
  show ?thesis
  proof (cases "members T \<subseteq> members S")
    case False
    with Some show ?thesis by (simp add: cg_Add_def Let_def)
  next
    case True
    define D where "D = IntSet_subtract S T"
    have TD: "IntSet_union_set T D = S" using True by (intro int_set_eqI) (auto simp: D_def)
    obtain m r where run: "Add_glyphs c (to_vector D) (cg_glyphs I) = (m, r)" by fastforce
    from Add_glyphs_spec [of "to_vector D" c "cg_glyphs I", unfolded run]
    have spec: "glyphs_result False c (members D) (cg_glyphs I) (m, r)" by simp
    define I' where "I' = I\<lparr>cg_conditions := (cg_conditions I)(c \<mapsto> S),
      cg_ordered := (if cg_keep_ordered I then insert c (cg_ordered I) else cg_ordered I), cg_glyphs := m\<rparr>"
    have U: "cg_Add c S I = (I', r)"
      using True Some TD run by (simp add: cg_Add_def Let_def I'_def D_def [symmetric])
    have old: "g \<in> members T \<longleftrightarrow> cg_glyphs I g = Some c" for g
      using cg_invD(1) [OF inv, of g c] Some by auto
    show ?thesis
    proof (cases r)
      case (Inl e)
      with spec show ?thesis unfolding U using old by (auto simp: glyphs_result_def D_def)
    next
      case (Inr u)
      then have "m = (\<lambda>g. if g \<in> members D then Some c else cg_glyphs I g)"
        and free: "\<forall>g \<in> members D. cg_glyphs I g = None" using spec by (auto simp: glyphs_result_def)
      then have m: "m = (\<lambda>g. if g \<in> members S then Some c else cg_glyphs I g)"
        using old True by (auto simp: D_def fun_eq_iff)
      have seg: "segments_of (cg_conditions I') = segments_of (cg_conditions I)"
        using Some by (auto simp: segments_of_def I'_def fun_eq_iff)
      have "cg_inv I'"
      proof (rule cg_insert_inv [OF inv, where c = c and T = S])
        show "cg_segments I' = (\<lambda>s. option_set (segments_of (cg_conditions I') s))"
          unfolding seg using cg_invD(2) [OF inv] by (simp add: I'_def)
        show "\<forall>g \<in> members S. cg_glyphs I g = None \<or> cg_glyphs I g = Some c"
          using free old by (auto simp: D_def)
      qed (use Some True in \<open>simp_all add: I'_def m\<close>)
      with Inr show ?thesis unfolding U by (simp add: I'_def m split: unit.split)
    qed
  qed
qed

end
