(* ===== verification/Encoder_Properties.thy ===== *)
theory Encoder_Properties
  imports Glyph_Partition Entry_Matching Lru_Cache Url_Template Condition_Index
begin

text \<open>
  The properties of the encoder's own data structures: subset definitions and the entries made of
  them, the glyph partition, the index of conditions, the cache of pair frequencies and the URL
  templates.
\<close>

section \<open>Subset definitions\<close>

text \<open>
  C22: the union of two subset definitions has the codepoints, glyphs and features of either and on
  every axis the smallest interval around both ranges; the difference drops codepoints, glyphs and
  features of the second exactly and keeps every axis position that is not in the second, and
  nothing that was not in the first.
\<close>

theorem Union_Subtract_meaning:
  assumes "ds_wf (sd_design_space a)" and "ds_wf (sd_design_space b)"
  shows "members (sd_codepoints (SD_Union a b)) = members (sd_codepoints a) \<union> members (sd_codepoints b) \<and>
    members (sd_gids (SD_Union a b)) = members (sd_gids a) \<union> members (sd_gids b) \<and>
    set (sd_feature_tags (SD_Union a b)) = set (sd_feature_tags a) \<union> set (sd_feature_tags b) \<and>
    ds_points t (sd_design_space (SD_Union a b)) =
      {x. \<exists>y \<in> ds_points t (sd_design_space a) \<union> ds_points t (sd_design_space b).
          \<exists>z \<in> ds_points t (sd_design_space a) \<union> ds_points t (sd_design_space b). y \<le> x \<and> x \<le> z} \<and>
    members (sd_codepoints (SD_Subtract a b)) = members (sd_codepoints a) - members (sd_codepoints b) \<and>
    members (sd_gids (SD_Subtract a b)) = members (sd_gids a) - members (sd_gids b) \<and>
    set (sd_feature_tags (SD_Subtract a b)) = set (sd_feature_tags a) - set (sd_feature_tags b) \<and>
    ds_points t (sd_design_space a) - ds_points t (sd_design_space b)
      \<subseteq> ds_points t (sd_design_space (SD_Subtract a b)) \<and>
    ds_points t (sd_design_space (SD_Subtract a b)) \<subseteq> ds_points t (sd_design_space a)"
proof -
  have "set (fold ins_sorted xs ys) = set ys \<union> set xs" for xs ys :: "hb_tag list"
    by (induction xs arbitrary: ys) auto
  then show ?thesis using union_points [OF assms, of t] subtract_points [OF assms, of t]
    by (simp add: SD_Union_def SD_Subtract_def set_subtract_sets Un_commute)
qed

lemma Union_Subtract_meaning_witness:
  "\<exists>S. members (sd_codepoints (SD_Union (SubsetDefinition [97, 98]) (SubsetDefinition [98, 99]))) = S \<and> 99 \<in> S \<and>
    members (sd_codepoints (SD_Subtract (SubsetDefinition [97, 98]) (SubsetDefinition [98, 99]))) = {97}"
  using Union_Subtract_meaning [of "SubsetDefinition [97, 98]" "SubsetDefinition [98, 99]"]
  by (auto simp: SubsetDefinition_def ds_wf_def ds_sorted_def)

text \<open>
  C21: whatever entries come before, the last entry that \<^verbatim>\<open>ToEntries\<close> produces for a subset
  definition matches a target exactly when some field of the definition intersects the target.
\<close>

theorem ToEntries_matches:
  assumes "length es0 + 3 < UINT32_MAX" and "ToEntries d encoding l (length es0) ids = Some es"
    and "entries_per_field d encoding \<noteq> []"
  shows "last (map_matches target (es0 @ es)) = sd_intersects d target"
  using assms by (rule ToEntries_matches_aux)

lemma ToEntries_matches_witness:
  "\<exists>es. ToEntries ((SubsetDefinition [97])\<lparr>sd_feature_tags := [5]\<rparr>) GLYPH_KEYED 3 0 [] = Some es \<and>
     length es = 3 \<and> last (map_matches (SubsetDefinition [97, 98]) ([] @ es)) \<and>
     \<not> last (map_matches (SubsetDefinition [98]) ([] @ es))"
proof -
  let ?d = "(SubsetDefinition [97])\<lparr>sd_feature_tags := [5]\<rparr>"
  have ne: "entries_per_field ?d GLYPH_KEYED \<noteq> []" by (simp add: entries_per_field_def)
  obtain es where es: "ToEntries ?d GLYPH_KEYED 3 0 [] = Some es" "length es = 3"
    by (simp add: ToEntries_def entries_per_field_def SubsetDefinition_def)
  have points: "members (sd_codepoints (SubsetDefinition cps)) = {v \<in> set cps. v < UINT32_MAX}" for cps
    by (simp add: SubsetDefinition_def)
  have hit: "97 \<in> members (sd_codepoints (SubsetDefinition [97])) \<inter> members (sd_codepoints (SubsetDefinition [97, 98]))"
    unfolding points by simp
  have miss: "members (sd_codepoints (SubsetDefinition [97])) \<inter> members (sd_codepoints (SubsetDefinition [98])) = {}"
    unfolding points by fastforce
  have "sd_intersects ?d (SubsetDefinition [97, 98])"
    unfolding sd_intersects_def using hit by - (rule disjI1, force)
  moreover have "\<not> sd_intersects ?d (SubsetDefinition [98])"
    unfolding sd_intersects_def using miss
    by (simp add: SubsetDefinition_def [of "[98]"] design_spaces_intersect_def) (simp add: SubsetDefinition_def)
  moreover have "last (map_matches target ([] @ es)) = sd_intersects ?d target" for target
    by (rule ToEntries_matches [OF _ _ ne]) (use es in simp_all)
  ultimately show ?thesis using es by (intro exI [of _ es] conjI) (simp_all only: not_False_eq_True)
qed

section \<open>The glyph partition\<close>

text \<open>
  C20: on every partition a client can reach, by calls that may fail and with assignments, each call returns:
  the parents have no cycle, so that \<^verbatim>\<open>Find\<close> ends, and every call keeps them so. Without an assignment a
  valid cache always lists the groups of the parents; an assignment keeps the old cache, see
  \<open>assign_keeps_stale_cache\<close>.
\<close>

theorem partition_calls_return:
  assumes "gp_reachable assigned p" and "gp_reachable assigned o'"
  shows "gp_Find g p \<noteq> None \<and> gp_Union g h p \<noteq> None \<and> gp_Union_set S p \<noteq> None \<and> GlyphsFor g p \<noteq> None \<and>
    NonIdentityGroups p \<noteq> None \<and> gp_Union_partition o' p \<noteq> None \<and> gp_forest p \<and> (assigned \<or> gp_inv p)"
  using uncached.all_calls_return [OF assms [THEN gp_reachable_forest]] gp_reachable_forest [OF assms(1)]
    gp_reachable_inv assms(1) by (cases assigned) simp_all

lemma partition_calls_return_witness:
  "gp_Find 1 joined_two \<noteq> None \<and> gp_Union_partition (gp_assign joined_two cached_two) joined_two \<noteq> None \<and> gp_inv joined_two"
proof -
  have r: "gp_reachable a cached_two" "gp_reachable a joined_two" for a using assign_keeps_stale_cache [of a] by blast+
  then have "gp_reachable True (gp_assign joined_two cached_two)" by (intro gp_reachable.assign) simp_all
  from partition_calls_return [OF r(2) this] partition_calls_return [OF r(2) r(2), where assigned = False] show ?thesis by blast
qed

text \<open>
  C19: the union of two partitions of the same size joins two glyphs exactly when they are connected
  by steps within a group of either: it is the finest partition coarser than both.
\<close>

theorem Union_partition_closure:
  assumes "gp_inv p" and "gp_inv o'" and "gp_size o' = gp_size p"
  shows "\<exists>o'' q. gp_Union_partition o' p = Some (o'', q, Inr ()) \<and> gp_inv q \<and> gp_inv o'' \<and>
    (\<forall>x < gp_size p. \<forall>y. gp_same q x y = (\<lambda>x y. gp_same p x y \<or> gp_same o' x y)\<^sup>*\<^sup>* x y)"
  using gp_Union_partition_spec [OF assms] unfolding gp_linked_def by blast

lemma Union_partition_closure_witness:
  "\<exists>o'' q. gp_Union_partition joined_two (GlyphPartition 2) = Some (o'', q, Inr ()) \<and> gp_same q 0 1"
proof -
  have inv: "gp_inv (GlyphPartition 2)" "gp_inv joined_two"
    using gp_reachable_inv assign_keeps_stale_cache [of False] gp_inv_init by auto
  have size: "gp_size joined_two = gp_size (GlyphPartition 2)" "gp_size (GlyphPartition 2) = 2"
    by (simp_all add: joined_two_def gp_link_def GlyphPartition_def gp_size_def)
  have "gp_same joined_two 0 1"
    using gp_Union_spec [OF inv(1), of 0 1] joined_two_reached size gp_same_refl [of "GlyphPartition 2"] inv(1)
    by (auto simp: joined_def touches_def gp_inv_def)
  then have "(\<lambda>x y. gp_same (GlyphPartition 2) x y \<or> gp_same joined_two x y)\<^sup>*\<^sup>* 0 1" by blast
  with Union_partition_closure [OF inv size(1)] size(2) show ?thesis by auto
qed

text \<open>
  \<^verbatim>\<open>GlyphsFor\<close> returns the glyphs joined with the given one, and \<^verbatim>\<open>NonIdentityGroups\<close> all groups
  of more than one glyph, in order, whether the cache was valid or not; neither changes the partition.
\<close>

theorem partition_queries:
  assumes "gp_inv p" and "g < gp_size p"
  shows "\<exists>q S q' Ss. GlyphsFor g p = Some (q, Inr S) \<and> members S = {h. gp_same p g h} \<and>
    NonIdentityGroups p = Some (q', Inr Ss) \<and> sorted Ss \<and>
    members ` set Ss = {C. \<exists>x < gp_size p. C = {h. gp_same p x h} \<and> 1 < card C} \<and>
    (\<forall>x y. gp_same q x y = gp_same p x y \<and> gp_same q' x y = gp_same p x y)"
proof -
  obtain q S where q: "GlyphsFor g p = Some (q, Inr S)" "compressed p q" "members S = gp_class p g"
    using GlyphsFor_spec [OF assms] by blast
  obtain q' Ss where q': "NonIdentityGroups p = Some (q', Inr Ss)" "compressed p q'" "sorted Ss"
    "members ` set Ss = {C. \<exists>x < gp_size p. C = gp_class p x \<and> 1 < card C}"
    using NonIdentityGroups_spec [OF assms(1)] by blast
  show ?thesis
    by (intro exI conjI allI)
      (rule q q' q(3) [unfolded gp_class_def] q'(4) [unfolded gp_class_def] compressed_same [OF q(2)]
        compressed_same [OF q'(2)])+
qed

lemma partition_queries_witness:
  "\<exists>q S. GlyphsFor 0 (GlyphPartition 3) = Some (q, Inr S) \<and> members S = {0}"
proof -
  have "gp_same (GlyphPartition 3) 0 h \<longleftrightarrow> h = 0" for h
  proof
    assume "gp_same (GlyphPartition 3) 0 h"
    then obtain r where r: "rooted [0..<3] 0 r" "rooted [0..<3] h r"
      by (auto simp: gp_same_def GlyphPartition_def)
    from rooted_bounds [OF r(2)] have h: "h < 3" by simp
    show "h = 0" using rooted_root [of "[0..<3]" h r] rooted_root [of "[0..<3]" 0 r] r h by simp
  next
    show "h = 0 \<Longrightarrow> gp_same (GlyphPartition 3) 0 h"
      using rooted.here [of 0 "[0..<3]"] by (auto simp: gp_same_def GlyphPartition_def)
  qed
  then show ?thesis
    using partition_queries [of "GlyphPartition 3" 0] gp_inv_init [of 3] by (auto simp: gp_size_def GlyphPartition_def)
qed

section \<open>The index of conditions\<close>

text \<open>
  The four containers of the index stay views of one relation under every operation that
  succeeds: adding, unioning and removing a condition, and invalidating a glyph.
\<close>

theorem index_consistent:
  assumes "cg_inv I"
  shows "cg_inv (cg_Remove c I) \<and>
    (\<exists>I'. cg_Invalidate gid I = Some (cg_glyphs I gid, I') \<and> cg_inv I' \<and>
      cg_glyphs I' = (cg_glyphs I)(gid := None)) \<and>
    (\<forall>I'. cg_Union c S I = (I', Inr ()) \<longrightarrow> cg_inv I' \<and>
      cg_glyphs I' = (\<lambda>g. if g \<in> members S then Some c else cg_glyphs I g)) \<and>
    (\<forall>I'. cg_Add c S I = (I', Inr ()) \<longrightarrow> cg_inv I' \<and> cg_conditions I' = (cg_conditions I)(c \<mapsto> S) \<and>
      cg_glyphs I' = (\<lambda>g. if g \<in> members S then Some c else cg_glyphs I g))"
  using cg_Remove_spec(1) [OF assms, of c] cg_Invalidate_spec [OF assms, of gid]
    cg_Union_spec [OF assms, where c = c and S = S] cg_Add_spec [OF assms, where c = c and S = S]
  by (intro conjI allI impI) (simp_all split: unit.splits)

lemma index_consistent_witness:
  "\<exists>I'. cg_Add (AC_True 1) (IntSet [4, 5]) (ConditionToGlyphsIndex True) = (I', Inr ()) \<and> cg_inv I' \<and>
     cg_glyphs I' 5 = Some (AC_True 1)"
proof -
  obtain I' where I': "cg_Add (AC_True 1) (IntSet [4, 5]) (ConditionToGlyphsIndex True) = (I', Inr ())"
    by (simp add: cg_Add_def ConditionToGlyphsIndex_def ift_eval)
  with index_consistent [OF cg_inv_init [of True], where c = "AC_True 1" and S = "IntSet [4, 5]"] show ?thesis by auto
qed

section \<open>The cache\<close>

text \<open>
  C23: an access to the cache implements one access to the list of its keys and values, most recently
  used first: it returns the stored or the default value, moves it to the front and drops the last
  binding of a full cache.
\<close>

theorem cache_access_refines:
  assumes "lru_inv c" and "0 < lru_max_size c"
  shows "\<exists>a c'. lru_index dflt key c = Some (a, c') \<and> lru_inv c' \<and>
    lru_abs c' = take (lru_max_size c)
      ((key, case map_of (lru_abs c) key of None \<Rightarrow> dflt | Some v \<Rightarrow> v) # filter (\<lambda>p. fst p \<noteq> key) (lru_abs c)) \<and>
    lru_deref a c' = Some (case map_of (lru_abs c) key of None \<Rightarrow> dflt | Some v \<Rightarrow> v)"
  using lru_index_refines [OF assms, of dflt key] unfolding lru_access_def by blast

lemma cache_access_refines_witness:
  "\<exists>a c'. lru_index (0 :: nat) (7 :: nat) (LruCache 2) = Some (a, c') \<and> lru_abs c' = [(7, 0)]"
  using cache_access_refines [OF lru_inv_init [of 2], where dflt = "0 :: nat" and key = "7 :: nat"]
  by (auto simp: LruCache_def lru_abs_def)

text \<open>
  C24: a key that was used stays in the cache, with its value, as long as fewer distinct keys than
  the cache can hold have been used since; after any sequence of accesses the cache holds exactly
  the most recently used keys.
\<close>

theorem cache_holds_recent:
  assumes "0 < m"
  shows "\<exists>c'. lru_run dflt ks (LruCache m) = Some c' \<and> map fst (lru_abs c') = take m (recent ks)"
  using lru_run_recent_aux [OF lru_inv_init [of m], of "[]" dflt ks] assms
  by (auto simp: recent_def LruCache_def lru_abs_def)

lemma cache_holds_recent_witness:
  "\<exists>c'. lru_run (0 :: nat) [1, 2, 1, 3 :: nat] (LruCache 2) = Some c' \<and> map fst (lru_abs c') = [3, 1]"
  using cache_holds_recent [of 2 0 "[1, 2, 1, 3 :: nat]"] by (simp add: recent_def numeral_2_eq_2)

section \<open>URL templates\<close>

text \<open>
  C25: a template expands exactly when it is a sequence of literals of 1 to 127 bytes and the six
  opcodes, and then to the concatenation of the literals and expansions; every other byte string is
  an error.
\<close>

theorem PatchToUrl_pieces:
  "(PatchToUrl base32 base64 t idx = Inr url \<longleftrightarrow> (\<exists>ps. list_all piece_ok ps \<and> t = template_code ps \<and>
     url = template_text (PopulateExpansions base32 base64 idx) ps)) \<and>
   PatchToUrl base32 base64 t idx \<in> range Inr \<union> {Inl InvalidArgumentError}"
  using PatchToUrl_iff [of base32 base64 t idx url] PatchToUrl_error [of base32 base64 t idx] by blast

text \<open>
  The bytes that a patch index contributes to a URL are its big endian value without leading
  zeros, one to four of them, and determine the index, so that injective encoders give different
  patches different expansions.
\<close>

theorem id_expansion_unique:
  "be_value (id_bytes idx) = unat idx \<and> length (id_bytes idx) \<in> {1..4} \<and>
   (id_bytes idx = id_bytes idx2 \<longleftrightarrow> idx = idx2)"
  using id_bytes_value [of idx] id_bytes_length [of idx] id_bytes_inject [of idx idx2] by simp

end
