(* ===== verification/Outcome.thy ===== *)
theory Outcome
  imports Ift_Prelude
begin

text \<open>
  Code that may not return (a recursion without end, an exception that nobody catches) and that
  reports errors by a status: \<open>None\<close>, or a \<open>status_or\<close> value. \<open>OTRY\<close> is \<^verbatim>\<open>TRY\<close> for such code.
\<close>

type_synonym 'a outcome = "'a status_or option"

abbreviation Ok :: "'a \<Rightarrow> 'a outcome" where "Ok x \<equiv> Some (Inr x)"
abbreviation Fail :: "status \<Rightarrow> 'a outcome" where "Fail e \<equiv> Some (Inl e)"

fun OTRY :: "'a outcome \<Rightarrow> ('a \<Rightarrow> 'b outcome) \<Rightarrow> 'b outcome" where
  "OTRY None f = None"
| "OTRY (Some (Inl e)) f = Some (Inl e)"
| "OTRY (Some (Inr x)) f = f x"

lemma OTRY_eq_Ok: "OTRY m f = Ok y \<longleftrightarrow> (\<exists>x. m = Ok x \<and> f x = Ok y)"
  by (cases "(m, f)" rule: OTRY.cases) auto

lemma OTRY_eq_None: "OTRY m f = None \<longleftrightarrow> m = None \<or> (\<exists>x. m = Ok x \<and> f x = None)"
  by (cases "(m, f)" rule: OTRY.cases) auto

lemma OTRY_cong [fundef_cong]:
  "m = m' \<Longrightarrow> (\<And>x. m' = Ok x \<Longrightarrow> f x = f' x) \<Longrightarrow> OTRY m f = OTRY m' f'"
  by (cases "(m', f)" rule: OTRY.cases) auto

fun OTRY_fold :: "('x \<Rightarrow> 's \<Rightarrow> 's outcome) \<Rightarrow> 'x list \<Rightarrow> 's \<Rightarrow> 's outcome" where
  "OTRY_fold f [] s = Ok s"
| "OTRY_fold f (x # xs) s = OTRY (f x s) (OTRY_fold f xs)"

lemma OTRY_fold_cong [fundef_cong]:
  "xs = ys \<Longrightarrow> s = t \<Longrightarrow> (\<And>x u. x \<in> set ys \<Longrightarrow> f x u = g x u) \<Longrightarrow> OTRY_fold f xs s = OTRY_fold g ys t"
proof (induction xs arbitrary: ys s t)
  case (Cons x xs)
  then have "f x t = g x t" and "OTRY_fold f xs = OTRY_fold g xs" by auto
  with Cons.prems(1,2) show ?case by auto
qed simp

text \<open>A loop keeps what its body keeps, and returns when its body does.\<close>

lemma OTRY_fold_invariant:
  assumes "OTRY_fold f xs s = Ok t" and "P s"
    and "\<And>x s t. x \<in> set xs \<Longrightarrow> P s \<Longrightarrow> f x s = Ok t \<Longrightarrow> P t"
  shows "P t"
  using assms
proof (induction xs arbitrary: s)
  case (Cons x xs)
  from Cons.prems(1) obtain u where "f x s = Ok u" "OTRY_fold f xs u = Ok t" by (auto simp: OTRY_eq_Ok)
  with Cons show ?case by (metis list.set_intros)
qed simp

lemma OTRY_fold_returns:
  assumes "P s" and "\<And>x s. x \<in> set xs \<Longrightarrow> P s \<Longrightarrow> f x s \<noteq> None \<and> (\<forall>t. f x s = Ok t \<longrightarrow> P t)"
  shows "OTRY_fold f xs s \<noteq> None"
  using assms
proof (induction xs arbitrary: s)
  case (Cons x xs)
  have x: "f x s \<noteq> None" "\<And>t. f x s = Ok t \<Longrightarrow> P t" using Cons.prems by auto
  have "OTRY_fold f xs t \<noteq> None" if "f x s = Ok t" for t
    by (rule Cons.IH [OF x(2) [OF that]]) (use Cons.prems(2) in auto)
  with x(1) show ?case by (auto simp: OTRY_eq_None)
qed simp


section \<open>Stateful computations\<close>

text \<open>
  Members of a class that change its state and return a status: the new state with the status, also
  after an error; \<open>None\<close> is an exception or a call that does not return.
\<close>

fun st_bind :: "('s \<times> 'a status_or) option \<Rightarrow> ('a \<Rightarrow> 's \<Rightarrow> ('s \<times> 'b status_or) option) \<Rightarrow> ('s \<times> 'b status_or) option" where
  "st_bind None f = None"
| "st_bind (Some (s, Inl e)) f = Some (s, Inl e)"
| "st_bind (Some (s, Inr x)) f = f x s"

fun st_each :: "('x \<Rightarrow> 's \<Rightarrow> ('s \<times> unit status_or) option) \<Rightarrow> 'x list \<Rightarrow> 's \<Rightarrow> ('s \<times> unit status_or) option" where
  "st_each f [] s = Some (s, Inr ())"
| "st_each f (x # xs) s = st_bind (f x s) (\<lambda>_. st_each f xs)"

text \<open>A value computed without a change of the state.\<close>

definition st_read :: "'a outcome \<Rightarrow> 's \<Rightarrow> ('s \<times> 'a status_or) option" where
  "st_read m s = map_option (Pair s) m"

lemma st_bind_ok: "st_bind m f = Some (t, Inr y) \<longleftrightarrow> (\<exists>s x. m = Some (s, Inr x) \<and> f x s = Some (t, Inr y))"
  by (cases "(m, f)" rule: st_bind.cases) auto

lemma st_bind_cong [fundef_cong]:
  "m = m' \<Longrightarrow> (\<And>s x. m' = Some (s, Inr x) \<Longrightarrow> f x s = f' x s) \<Longrightarrow> st_bind m f = st_bind m' f'"
  by (cases "(m', f)" rule: st_bind.cases) auto

lemma st_read_ok [simp]: "st_read m s = Some (t, Inr y) \<longleftrightarrow> t = s \<and> m = Ok y"
  by (auto simp: st_read_def)

text \<open>A loop keeps what its body keeps.\<close>

lemma st_each_invariant:
  assumes "st_each f xs s = Some (t, r)" and "P s"
    and "\<And>x s t r. x \<in> set xs \<Longrightarrow> P s \<Longrightarrow> f x s = Some (t, r) \<Longrightarrow> P t"
  shows "P t"
  using assms
proof (induction xs arbitrary: s)
  case (Cons x xs)
  from Cons.prems(1) obtain u q where u: "f x s = Some (u, q)" by (cases "f x s") auto
  have "P u" by (rule Cons.prems(3) [OF _ Cons.prems(2) u]) simp
  show ?case
  proof (cases q)
    case (Inr y)
    with Cons.prems(1) u have "st_each f xs u = Some (t, r)" by simp
    from Cons.IH [OF this \<open>P u\<close>] Cons.prems(3) show ?thesis by (metis list.set_intros(2))
  qed (use Cons.prems(1) u \<open>P u\<close> in auto)
qed simp

lemma st_bind_keeps:
  assumes "st_bind m f = Some (t, r)" and "\<And>s q. m = Some (s, q) \<Longrightarrow> P s" and "\<And>s x t r. P s \<Longrightarrow> f x s = Some (t, r) \<Longrightarrow> P t"
  shows "P t"
  using assms by (cases "(m, f)" rule: st_bind.cases) auto


section \<open>Slices of bytes\<close>

text \<open>
  Data cut by a list of offsets: consecutive offsets are the ends of a piece. Offsets that are the
  partial sums of the lengths of the pieces give back the pieces.
\<close>

definition slices :: "nat list \<Rightarrow> bytes \<Rightarrow> bytes list" where
  "slices offs bs = map2 (\<lambda>a b. take (b - a) (drop a bs)) offs (tl offs)"

fun partial_sums :: "nat \<Rightarrow> nat list \<Rightarrow> nat list" where
  "partial_sums n [] = [n]"
| "partial_sums n (l # ls) = n # partial_sums (n + l) ls"

lemma partial_sums_nonempty: "\<exists>ns. partial_sums n ls = n # ns"
  by (cases ls) simp_all

lemma length_partial_sums [simp]: "length (partial_sums n ls) = length ls + 1"
  by (induction ls arbitrary: n) simp_all

lemma partial_sums_append:
  "partial_sums n (ls @ ms) = butlast (partial_sums n ls) @ partial_sums (n + sum_list ls) ms"
proof (induction ls arbitrary: n)
  case (Cons l ls)
  then show ?case using partial_sums_nonempty [of "n + l" ls] by (auto simp: add.assoc)
qed simp

lemma partial_sums_snoc: "partial_sums n ls = butlast (partial_sums n ls) @ [n + sum_list ls]"
  using partial_sums_append [of n ls "[]"] by simp

lemma partial_sums_bound: "k \<in> set (partial_sums n ls) \<Longrightarrow> k \<le> n + sum_list ls"
  by (induction ls arbitrary: n) fastforce+

lemma slices_concat: "slices (partial_sums (length pre) (map length bss)) (pre @ concat bss) = bss"
proof (induction bss arbitrary: pre)
  case (Cons b bss)
  obtain ns where ns: "partial_sums (length pre + length b) (map length bss) = (length pre + length b) # ns"
    using partial_sums_nonempty by blast
  from Cons.IH [of "pre @ b"] show ?case by (simp add: slices_def ns)
qed (simp add: slices_def)

end
