(* ===== verification/Entry_Graph.thy ===== *)
theory Entry_Graph
  imports Subset_Definition Format_2 Outcome
begin

text \<open>
  The condition graph behind the entries of a patch map (\<^verbatim>\<open>ift/encoder/entry_graph.cc\<close>): nodes with
  the coverage of an entry and the ids of their children, the number of edges into each node, and
  the maps that share nodes of equal content. \<^verbatim>\<open>patch_mappings\<close> is the list of its bindings in the
  order of insertion, the other hash maps are functions; tag sets and design spaces are ascending
  lists. An access outside of a vector, and \<^verbatim>\<open>segments.at\<close> of an unknown segment, give \<open>None\<close>.
\<close>

section \<open>Graphs\<close>

datatype child_mode = Mode_NONE | Mode_AND | Mode_OR

record entry_node =
  nd_codepoints :: int_set
  nd_features :: "hb_tag list"
  nd_design_space :: design_space
  nd_child_mode :: child_mode
  nd_children :: int_set
  nd_condition_index :: nat

definition EntryNode :: entry_node where
  "EntryNode = \<lparr>nd_codepoints = IntSet_empty, nd_features = [], nd_design_space = [],
     nd_child_mode = Mode_NONE, nd_children = IntSet_empty, nd_condition_index = 0\<rparr>"

record entry_graph =
  eg_patch_mappings :: "(activation_condition \<times> patch_id list) list"
  eg_patch_encodings :: "activation_condition \<Rightarrow> patch_encoding option"
  eg_nodes :: "entry_node list"
  eg_edge_count :: "nat list"
  eg_condition_node :: "activation_condition \<Rightarrow> nat option"
  eg_codepoints_node :: "int_set \<Rightarrow> nat option"
  eg_features_node :: "hb_tag list \<Rightarrow> nat option"
  eg_design_space_node :: "design_space \<Rightarrow> nat option"

definition EntryGraph :: entry_graph where
  "EntryGraph = \<lparr>eg_patch_mappings = [], eg_patch_encodings = (\<lambda>_. None), eg_nodes = [], eg_edge_count = [],
     eg_condition_node = (\<lambda>_. None), eg_codepoints_node = (\<lambda>_. None), eg_features_node = (\<lambda>_. None),
     eg_design_space_node = (\<lambda>_. None)\<rparr>"

definition Normalize :: "activation_condition \<Rightarrow> activation_condition" where
  "Normalize condition = composite_condition (ac_conditions condition) 0 False"

text \<open>\<^verbatim>\<open>incoming_edge_count[id]++\<close>, on 32 bits, and an assignment to a field of \<^verbatim>\<open>nodes[id]\<close>.\<close>

definition add_edge :: "nat \<Rightarrow> entry_graph \<Rightarrow> entry_graph" where
  "add_edge i g = g\<lparr>eg_edge_count := (eg_edge_count g)[i := (eg_edge_count g ! i + 1) mod TWO32]\<rparr>"

definition upd_node :: "nat \<Rightarrow> (entry_node \<Rightarrow> entry_node) \<Rightarrow> entry_graph \<Rightarrow> entry_graph" where
  "upd_node i f g = g\<lparr>eg_nodes := (eg_nodes g)[i := f (eg_nodes g ! i)]\<rparr>"

definition insert_children :: "nat \<Rightarrow> nat list \<Rightarrow> entry_graph \<Rightarrow> entry_graph" where
  "insert_children i ids = upd_node i (\<lambda>n. n\<lparr>nd_children := IntSet_insert_all ids (nd_children n)\<rparr>)"

section \<open>Construction\<close>

definition CreateNode :: "nat \<Rightarrow> entry_graph \<Rightarrow> (nat \<times> entry_graph) outcome" where
  "CreateNode condition_index g =
     (if UINT32_MAX < length (eg_nodes g) then Fail InternalError
      else Ok (length (eg_nodes g), g\<lparr>
        eg_nodes := eg_nodes g @ [EntryNode\<lparr>nd_condition_index := condition_index\<rparr>],
        eg_edge_count := eg_edge_count g @ [0]\<rparr>))"

definition AddCodepointsOnly :: "int_set \<Rightarrow> nat \<Rightarrow> entry_graph \<Rightarrow> (nat \<times> entry_graph) outcome" where
  "AddCodepointsOnly codepoints condition_index g = (case eg_codepoints_node g codepoints of
      Some i \<Rightarrow> Ok (i, add_edge i g)
    | None \<Rightarrow> OTRY (CreateNode condition_index g) (\<lambda>(i, g).
        let g = add_edge i g;
            g = g\<lparr>eg_codepoints_node := (eg_codepoints_node g)(codepoints \<mapsto> i)\<rparr>
        in Ok (i, upd_node i (\<lambda>n. n\<lparr>nd_codepoints := codepoints\<rparr>) g)))"

definition AddFeaturesOnly :: "hb_tag list \<Rightarrow> nat \<Rightarrow> entry_graph \<Rightarrow> (nat \<times> entry_graph) outcome" where
  "AddFeaturesOnly features condition_index g = (case eg_features_node g features of
      Some i \<Rightarrow> Ok (i, add_edge i g)
    | None \<Rightarrow> OTRY (CreateNode condition_index g) (\<lambda>(i, g).
        let g = add_edge i g;
            g = g\<lparr>eg_features_node := (eg_features_node g)(features \<mapsto> i)\<rparr>
        in Ok (i, upd_node i (\<lambda>n. n\<lparr>nd_features := features\<rparr>) g)))"

definition AddDesignSpaceOnly :: "design_space \<Rightarrow> nat \<Rightarrow> entry_graph \<Rightarrow> (nat \<times> entry_graph) outcome" where
  "AddDesignSpaceOnly design_space condition_index g = (case eg_design_space_node g design_space of
      Some i \<Rightarrow> Ok (i, add_edge i g)
    | None \<Rightarrow> OTRY (CreateNode condition_index g) (\<lambda>(i, g).
        let g = add_edge i g;
            g = g\<lparr>eg_design_space_node := (eg_design_space_node g)(design_space \<mapsto> i)\<rparr>
        in Ok (i, upd_node i (\<lambda>n. n\<lparr>nd_design_space := design_space\<rparr>) g)))"

text \<open>An entry has at most 127 children; the rest go to a chain of further nodes.\<close>

function AddChildrenToNode :: "nat \<Rightarrow> child_mode \<Rightarrow> nat list \<Rightarrow> entry_graph \<Rightarrow> entry_graph outcome" where
  "AddChildrenToNode node_id mode children_ids g =
     (if 127 < length children_ids then
        let g = insert_children node_id (take 126 children_ids) g
        in OTRY (CreateNode (nd_condition_index (eg_nodes g ! node_id)) g) (\<lambda>(next_node_id, g).
          let g = upd_node next_node_id (\<lambda>n. n\<lparr>nd_child_mode := mode\<rparr>) g;
              g = add_edge next_node_id g;
              g = insert_children node_id [next_node_id] g
          in AddChildrenToNode next_node_id mode (drop 126 children_ids) g)
      else Ok (insert_children node_id children_ids g))"
  by pat_completeness auto
termination by (relation "measure (\<lambda>(_, _, children_ids, _). length children_ids)") auto

declare AddChildrenToNode.simps [simp del]

text \<open>
  \<^verbatim>\<open>AddMapping\<close> calls itself for the groups of a conjunction and for the segments of a group; the
  level of a condition decreases.
\<close>

definition level :: "activation_condition \<Rightarrow> nat" where
  "level c = (let n = Normalize c in if IsUnitary n then 0 else if IsPurelyDisjunctive n then 1 else 2)"

definition max_level :: "activation_condition list \<Rightarrow> nat" where
  "max_level cs = foldr max (map level cs) 0"

lemma max_level_simps [simp]: "max_level [] = 0" "max_level (c # cs) = max (level c) (max_level cs)"
  by (simp_all add: max_level_def)

lemma max_level_less: "0 < n \<Longrightarrow> (\<And>c. c \<in> set cs \<Longrightarrow> level c < n) \<Longrightarrow> max_level cs < n"
  by (induction cs) simp_all

lemma Normalize_conditions [simp]: "ac_conditions (Normalize c) = Simplify (ac_conditions c)"
  by (simp add: Normalize_def composite_condition_def ActivationCondition_def)

lemma level_exclusive_segment: "s < UINT32_MAX \<Longrightarrow> level (exclusive_segment s 0) = 0"
  by (simp add: level_def IsUnitary_def exclusive_segment_def Simplify_def ActivationCondition_def
      size_eq_card conj_commute cong: conj_cong)

lemma level_or_segments: "level (or_segments S 0 False) \<le> 1"
  by (simp add: level_def Let_def IsPurelyDisjunctive_def or_segments_def Simplify_def ActivationCondition_def)

definition segment_mappings :: "activation_condition \<Rightarrow> activation_condition list" where
  "segment_mappings normalized =
     map (\<lambda>s. exclusive_segment s 0) (to_vector (hd (ac_conditions normalized)))"

definition group_mappings :: "activation_condition \<Rightarrow> activation_condition list" where
  "group_mappings normalized = map (\<lambda>g. or_segments g 0 False) (ac_conditions normalized)"

lemma level_segment_mappings: "0 < n \<Longrightarrow> max_level (segment_mappings c) < n"
proof (rule max_level_less)
  fix d assume "0 < n" and "d \<in> set (segment_mappings c)"
  then obtain s where "d = exclusive_segment s 0" "s \<in> members (hd (ac_conditions c))"
    by (auto simp: segment_mappings_def)
  with \<open>0 < n\<close> level_exclusive_segment [OF members_bound] show "level d < n" by simp
qed

lemma level_group_mappings: "max_level (group_mappings c) < 2"
  by (rule max_level_less) (auto simp: group_mappings_def intro: le_less_trans [OF level_or_segments])

lemma IsUnitary_IsPurelyDisjunctive: "IsUnitary c \<Longrightarrow> IsPurelyDisjunctive c"
  by (simp add: IsUnitary_def IsPurelyDisjunctive_def)

text \<open>The case of a single segment with one kind of content; \<open>None\<close> when it has more, or none.\<close>

definition AddUnitary ::
  "subset_definition \<Rightarrow> nat \<Rightarrow> entry_graph \<Rightarrow> (nat \<times> entry_graph) outcome option" where
  "AddUnitary segment condition_index g =
     (let cps = \<not> IntSet_is_empty (sd_codepoints segment);
          feats = sd_feature_tags segment \<noteq> [];
          axes = sd_design_space segment \<noteq> []
      in if cps \<and> \<not> feats \<and> \<not> axes then Some (AddCodepointsOnly (sd_codepoints segment) condition_index g)
         else if \<not> cps \<and> feats \<and> \<not> axes then Some (AddFeaturesOnly (sd_feature_tags segment) condition_index g)
         else if \<not> cps \<and> \<not> feats \<and> axes then Some (AddDesignSpaceOnly (sd_design_space segment) condition_index g)
         else None)"

definition set_condition_node :: "activation_condition \<Rightarrow> nat \<Rightarrow> entry_graph \<Rightarrow> entry_graph" where
  "set_condition_node c i g = g\<lparr>eg_condition_node := (eg_condition_node g)(c \<mapsto> i)\<rparr>"

text \<open>The children of the node of a segment with several kinds of content.\<close>

definition AddSegmentParts ::
  "nat \<Rightarrow> subset_definition \<Rightarrow> nat \<Rightarrow> entry_graph \<Rightarrow> entry_graph outcome" where
  "AddSegmentParts node_id segment condition_index g =
     OTRY (if IntSet_is_empty (sd_codepoints segment) then Ok g
           else OTRY (AddCodepointsOnly (sd_codepoints segment) condition_index g)
             (\<lambda>(i, g). Ok (insert_children node_id [i] g))) (\<lambda>g.
     OTRY (if sd_feature_tags segment = [] then Ok g
           else OTRY (AddFeaturesOnly (sd_feature_tags segment) condition_index g)
             (\<lambda>(i, g). Ok (insert_children node_id [i] g))) (\<lambda>g.
     if sd_design_space segment = [] then Ok g
     else OTRY (AddDesignSpaceOnly (sd_design_space segment) condition_index g)
       (\<lambda>(i, g). Ok (insert_children node_id [i] g))))"

type_synonym segment_map = "segment_index \<Rightarrow> subset_definition option"

definition unitary_segment :: "segment_map \<Rightarrow> activation_condition \<Rightarrow> subset_definition option" where
  "unitary_segment segments c = segments (hd (to_vector (TriggeringSegments c)))"

definition set_mode :: "nat \<Rightarrow> child_mode \<Rightarrow> entry_graph \<Rightarrow> entry_graph" where
  "set_mode i mode = upd_node i (\<lambda>n. n\<lparr>nd_child_mode := mode\<rparr>)"

function AddMapping ::
    "activation_condition \<Rightarrow> segment_map \<Rightarrow> nat \<Rightarrow> bool \<Rightarrow> entry_graph \<Rightarrow> (nat \<times> entry_graph) outcome"
  and AddMappings ::
    "activation_condition list \<Rightarrow> segment_map \<Rightarrow> nat \<Rightarrow> entry_graph \<Rightarrow> (nat list \<times> entry_graph) outcome" where
  "AddMapping condition segments condition_index is_root g =
     (let normalized = Normalize condition in
      case eg_condition_node g normalized of
        Some i \<Rightarrow>
          let g = (if is_root then upd_node i (\<lambda>n. n\<lparr>nd_condition_index := condition_index\<rparr>) g else g)
          in Ok (i, add_edge i g)
      | None \<Rightarrow>
        if IsUnitary normalized \<and> unitary_segment segments normalized = None then None
        else case (if IsUnitary normalized
                   then AddUnitary (the (unitary_segment segments normalized)) condition_index g else None) of
          Some added \<Rightarrow> OTRY added (\<lambda>(i, g). Ok (i, set_condition_node normalized i g))
        | None \<Rightarrow>
          OTRY (CreateNode condition_index g) (\<lambda>(node_id, g).
            let g = set_condition_node normalized node_id (add_edge node_id g) in
            if IsUnitary normalized then
              OTRY (AddSegmentParts node_id (the (unitary_segment segments normalized)) condition_index g)
                (\<lambda>g. Ok (node_id, set_mode node_id Mode_OR g))
            else if IsPurelyDisjunctive normalized then
              OTRY (AddMappings (segment_mappings normalized) segments condition_index (set_mode node_id Mode_OR g))
                (\<lambda>(ids, g). OTRY (AddChildrenToNode node_id Mode_OR ids g) (\<lambda>g. Ok (node_id, g)))
            else
              OTRY (AddMappings (group_mappings normalized) segments condition_index (set_mode node_id Mode_AND g))
                (\<lambda>(ids, g). OTRY (AddChildrenToNode node_id Mode_AND ids g) (\<lambda>g. Ok (node_id, g)))))"
| "AddMappings [] segments condition_index g = Ok ([], g)"
| "AddMappings (c # cs) segments condition_index g =
     OTRY (AddMapping c segments condition_index False g) (\<lambda>(i, g).
     OTRY (AddMappings cs segments condition_index g) (\<lambda>(ids, g). Ok (i # ids, g)))"
  by pat_completeness auto
termination
proof (relation "inv_image (less_than <*lex*> less_than)
    (\<lambda>x. case x of Inl (c, _) \<Rightarrow> (level c, 0) | Inr (cs, _) \<Rightarrow> (max_level cs, Suc (length cs)))",
    simp_all only: in_inv_image sum.case split, goal_cases)
  case 1
  show ?case by (intro wf_inv_image wf_lex_prod wf_less_than)
next
  case (2 condition)
  then have "level condition = 1" by (simp add: level_def)
  with level_segment_mappings [of 1 "Normalize condition"] show ?case by simp
next
  case (3 condition)
  then have "level condition = 2" by (simp add: level_def)
  with level_group_mappings [of "Normalize condition"] show ?case by simp
next
  case (4 c cs)
  then show ?case by (cases "max_level cs \<le> level c") (simp_all add: max_def)
next
  case (5 c cs)
  then show ?case by (cases "max_level cs \<le> level c") (auto simp: max_def)
qed

declare AddMapping.simps [simp del]

text \<open>\<^verbatim>\<open>Create\<close>: one root mapping per condition, the index of the condition counting up.\<close>

definition RecordPatches :: "activation_condition \<Rightarrow> entry_graph \<Rightarrow> entry_graph outcome" where
  "RecordPatches condition g =
     (let normalized = Normalize condition;
          patches = AC_activated condition # AC_prefetches condition
      in if map_of (eg_patch_mappings g) normalized \<noteq> None then Fail InternalError
         else let g = g\<lparr>eg_patch_mappings := eg_patch_mappings g @ [(normalized, patches)]\<rparr>
           in if eg_patch_encodings g normalized \<noteq> None then Fail InternalError
              else Ok (g\<lparr>eg_patch_encodings := (eg_patch_encodings g)(normalized \<mapsto> ac_encoding condition)\<rparr>))"

fun Create_loop ::
  "segment_map \<Rightarrow> nat \<Rightarrow> activation_condition list \<Rightarrow> entry_graph \<Rightarrow> entry_graph outcome" where
  "Create_loop segments i [] g = Ok g"
| "Create_loop segments i (condition # conditions) g =
     OTRY (AddMapping condition segments i True g) (\<lambda>(_, g).
     OTRY (RecordPatches condition g) (Create_loop segments (i + 1) conditions))"

definition EntryGraph_Create :: "activation_condition list \<Rightarrow> segment_map \<Rightarrow> entry_graph outcome" where
  "EntryGraph_Create conditions segments = Create_loop segments 0 conditions EntryGraph"

section \<open>Topological order\<close>

text \<open>The edges that stand for top level conditions are not counted.\<close>

fun DropTopLevel :: "(activation_condition \<Rightarrow> nat option) \<Rightarrow> activation_condition list \<Rightarrow> nat list \<Rightarrow>
    nat list outcome" where
  "DropTopLevel node_of [] edge_count = Ok edge_count"
| "DropTopLevel node_of (c # cs) edge_count = (case node_of c of
      None \<Rightarrow> DropTopLevel node_of cs edge_count
    | Some i \<Rightarrow> if length edge_count \<le> i then None
        else if edge_count ! i = 0 then Fail InternalError
        else DropTopLevel node_of cs (edge_count[i := edge_count ! i - 1]))"

text \<open>The priority queue is a list, \<^verbatim>\<open>top\<close> the largest element under \<^verbatim>\<open>NodeComparator\<close>.\<close>

definition node_before :: "entry_node list \<Rightarrow> nat \<Rightarrow> nat \<Rightarrow> bool" where
  "node_before nodes a b =
     (let node_a = nodes ! a; node_b = nodes ! b
      in if nd_condition_index node_a = nd_condition_index node_b then a < b
         else nd_condition_index node_a < nd_condition_index node_b)"

definition queue_top :: "entry_node list \<Rightarrow> nat list \<Rightarrow> nat" where
  "queue_top nodes queue = fold (\<lambda>y m. if node_before nodes m y then y else m) (tl queue) (hd queue)"

fun ReleaseChildren :: "nat list \<Rightarrow> nat list \<Rightarrow> nat list \<Rightarrow> (nat list \<times> nat list) outcome" where
  "ReleaseChildren [] edge_count queue = Ok (edge_count, queue)"
| "ReleaseChildren (c # cs) edge_count queue =
     (if length edge_count \<le> c then None
      else if edge_count ! c = 0 then Fail InternalError
      else let edge_count = edge_count[c := edge_count ! c - 1]
        in ReleaseChildren cs edge_count (if edge_count ! c = 0 then c # queue else queue))"

lemma queue_top_in: "queue \<noteq> [] \<Longrightarrow> queue_top nodes queue \<in> set queue"
proof -
  have "fold (\<lambda>y m. if node_before nodes m y then y else m) ys x \<in> insert x (set ys)" for ys x
  proof (induction ys arbitrary: x)
    case (Cons y ys)
    from Cons.IH [of "if node_before nodes x y then y else x"] show ?case by auto
  qed simp
  from this [of "tl queue" "hd queue"] show "queue \<noteq> [] \<Longrightarrow> queue_top nodes queue \<in> set queue"
    by (cases queue) (simp_all add: queue_top_def)
qed

lemma sum_list_decrement: "i < length xs \<Longrightarrow> 0 < xs ! i \<Longrightarrow> Suc (sum_list (xs[i := xs ! i - 1])) = sum_list xs"
  for xs :: "nat list"
  using elem_le_sum_list [of i xs] by (simp add: sum_list_update)

lemma ReleaseChildren_measure:
  "ReleaseChildren cs edge_count queue = Ok (edge_count', queue') \<Longrightarrow>
    sum_list edge_count' + length queue' \<le> sum_list edge_count + length queue"
proof (induction cs edge_count queue rule: ReleaseChildren.induct)
  case (2 c cs edge_count queue)
  let ?e = "edge_count[c := edge_count ! c - 1]"
  let ?q = "if ?e ! c = 0 then c # queue else queue"
  have ne: "\<not> length edge_count \<le> c" "edge_count ! c \<noteq> 0"
    and run: "ReleaseChildren cs ?e ?q = Ok (edge_count', queue')"
    using "2.prems" by (auto simp: Let_def split: if_splits)
  have "sum_list edge_count' + length queue' \<le> sum_list ?e + length ?q"
    by (rule "2.IH" [OF ne refl run])
  moreover have "Suc (sum_list ?e) = sum_list edge_count" by (rule sum_list_decrement) (use ne in simp_all)
  moreover have "length ?q \<le> Suc (length queue)" by simp
  ultimately show ?case by linarith
qed simp

function Kahn :: "entry_node list \<Rightarrow> nat list \<Rightarrow> nat list \<Rightarrow> nat list \<Rightarrow> nat list outcome" where
  "Kahn nodes edge_count queue order =
     (if queue = [] then Ok order
      else let i = queue_top nodes queue in
        OTRY (ReleaseChildren (to_vector (nd_children (nodes ! i))) edge_count (remove1 i queue))
          (\<lambda>(edge_count, queue). Kahn nodes edge_count queue (order @ [i])))"
  by pat_completeness auto
termination
proof (relation "measure (\<lambda>(_, edge_count, queue, _). sum_list edge_count + length queue)", goal_cases)
  case (2 nodes edge_count queue order i r edge_count' queue')
  then have "ReleaseChildren (to_vector (nd_children (nodes ! i))) edge_count (remove1 i queue) = Ok (edge_count', queue')"
    by simp
  from ReleaseChildren_measure [OF this] queue_top_in [OF 2(1), of nodes] 2(1,2) show ?case
    by (simp add: length_remove1) (metis One_nat_def Suc_pred length_greater_0_conv less_Suc_eq_le add_Suc_right)
qed simp

declare Kahn.simps [simp del]

definition TopologicalSort :: "entry_graph \<Rightarrow> nat list outcome" where
  "TopologicalSort g =
     OTRY (DropTopLevel (eg_condition_node g) (map fst (eg_patch_mappings g)) (eg_edge_count g)) (\<lambda>edge_count.
     OTRY (Kahn (eg_nodes g) edge_count (filter (\<lambda>i. edge_count ! i = 0) [0..<length edge_count]) []) (\<lambda>order.
     if length order \<noteq> length (eg_nodes g) then Fail InternalError else Ok order))"

section \<open>Entries\<close>

definition ReachableNodes :: "entry_graph \<Rightarrow> int_set" where
  "ReachableNodes g = IntSet (filter (\<lambda>n. 0 < eg_edge_count g ! n) [0..<length (eg_nodes g)])"

fun NodeToCondition :: "(activation_condition \<Rightarrow> nat option) \<Rightarrow> activation_condition list \<Rightarrow>
    (nat \<Rightarrow> activation_condition option) \<Rightarrow> (nat \<Rightarrow> activation_condition option) status_or" where
  "NodeToCondition node_of [] m = Inr m"
| "NodeToCondition node_of (c # cs) m = (case node_of c of None \<Rightarrow> Inl InternalError
     | Some i \<Rightarrow> if m i \<noteq> None then Inl InternalError else NodeToCondition node_of cs (m(i \<mapsto> c)))"

fun ChildEntries :: "(nat \<Rightarrow> nat option) \<Rightarrow> nat list \<Rightarrow> int_set \<Rightarrow> int_set status_or" where
  "ChildEntries index_of [] s = Inr s"
| "ChildEntries index_of (c # cs) s = (case index_of c of None \<Rightarrow> Inl InternalError
     | Some i \<Rightarrow> ChildEntries index_of cs (IntSet_insert i s))"

definition node_entry :: "patch_encoding \<Rightarrow> entry_node \<Rightarrow> entry" where
  "node_entry default_encoding node = (plain_entry default_encoding)\<lparr>en_coverage := (Coverage IntSet_empty)\<lparr>
     cov_codepoints := nd_codepoints node, cov_features := nd_features node,
     cov_design_space := nd_design_space node, cov_conjunctive := nd_child_mode node = Mode_AND\<rparr>\<rparr>"

text \<open>The patches of a node that stands for a top level condition, or a free id for an ignored entry.\<close>

definition map_patches :: "entry_graph \<Rightarrow> activation_condition option \<Rightarrow> nat \<Rightarrow> entry \<Rightarrow> (entry \<times> nat) option" where
  "map_patches g condition last_patch_id e = (case condition of
      Some c \<Rightarrow> (case (map_of (eg_patch_mappings g) c, eg_patch_encodings g c) of
          (Some patches, Some encoding) \<Rightarrow>
            Some (e\<lparr>en_ignored := False, en_patch_indices := patches, en_encoding := encoding\<rparr>,
              if patches = [] then last_patch_id else last patches)
        | _ \<Rightarrow> None)
    | None \<Rightarrow> let p = (last_patch_id + 1) mod TWO32 in Some (e\<lparr>en_ignored := True, en_patch_indices := [p]\<rparr>, p))"

fun NodesToEntries :: "entry_graph \<Rightarrow> patch_encoding \<Rightarrow> int_set \<Rightarrow> (nat \<Rightarrow> activation_condition option) \<Rightarrow>
    nat list \<Rightarrow> (nat \<Rightarrow> nat option) \<Rightarrow> nat \<Rightarrow> entry list \<Rightarrow> entry list outcome" where
  "NodesToEntries g default_encoding reachable condition_of [] index_of last_patch_id entries = Ok entries"
| "NodesToEntries g default_encoding reachable condition_of (i # ids) index_of last_patch_id entries =
     (if \<not> IntSet_contains reachable i
      then NodesToEntries g default_encoding reachable condition_of ids index_of last_patch_id entries
      else let node = eg_nodes g ! i; e = node_entry default_encoding node in
        OTRY (Some (ChildEntries index_of (to_vector (nd_children node)) IntSet_empty)) (\<lambda>child_indices.
        let e = e\<lparr>en_coverage := (en_coverage e)\<lparr>cov_child_indices := child_indices\<rparr>\<rparr>
        in case map_patches g (condition_of i) last_patch_id e of None \<Rightarrow> None
          | Some (e, last_patch_id) \<Rightarrow>
              NodesToEntries g default_encoding reachable condition_of ids (index_of(i \<mapsto> length entries))
                last_patch_id (entries @ [e])))"

definition ToPatchMapEntries :: "patch_encoding \<Rightarrow> entry_graph \<Rightarrow> entry list outcome" where
  "ToPatchMapEntries default_encoding g =
     (let reachable = ReachableNodes g in
      OTRY (Some (NodeToCondition (eg_condition_node g) (map fst (eg_patch_mappings g)) (\<lambda>_. None))) (\<lambda>condition_of.
      OTRY (TopologicalSort g) (\<lambda>sorted_nodes.
      NodesToEntries g default_encoding reachable condition_of (rev sorted_nodes) (\<lambda>_. None) 0 [])))"

end
