(* ===== verification/Entry_Subsumption.thy ===== *)
theory Entry_Subsumption
  imports Entry_Graph
begin

text \<open>
  The optimization of the entry graph (\<^verbatim>\<open>EntryGraph::Optimize\<close> and what it calls): nodes take over
  the sets of their children where that makes the encoding smaller. Recursion over the graph has
  fuel, \<open>None\<close> when it is used up (\<open>graph_fuel\<close>, one more than the number of nodes, for one walk
  down the graph). This theory holds definitions only. Costs are \<open>int64_t\<close>, modelled as integers. \<open>conv\<close> and \<open>fconv\<close> are the arguments of \<open>EstimateEncodingCost\<close>.
\<close>

section \<open>Costs and summaries\<close>

definition EncodingCost :: "(nat \<Rightarrow> nat) \<Rightarrow> (int \<Rightarrow> int) \<Rightarrow> entry_node \<Rightarrow> int outcome" where
  "EncodingCost conv fconv node =
     (let e = node_entry GLYPH_KEYED node;
          e = e\<lparr>en_coverage := (en_coverage e)\<lparr>
            cov_child_indices := IntSet_insert_all [1..<1 + IntSet_size (nd_children node)] IntSet_empty\<rparr>\<rparr>
      in Some (TRY (EstimateEncodingCost conv fconv e) (\<lambda>cost. Inr (int cost))))"

record subsumption_result =
  sr_cost_delta :: int
  sr_subsumed_children :: int_set
  sr_codepoints :: "int_set option"
  sr_features :: "hb_tag list option"
  sr_design_space :: "design_space option"

definition SubsumptionResult :: "int \<Rightarrow> subsumption_result" where
  "SubsumptionResult cost_delta = \<lparr>sr_cost_delta = cost_delta, sr_subsumed_children = IntSet_empty,
     sr_codepoints = None, sr_features = None, sr_design_space = None\<rparr>"

definition UnionAxisRange :: "hb_tag \<times> axis_range \<Rightarrow> design_space \<Rightarrow> design_space status_or" where
  "UnionAxisRange = (\<lambda>(tag, other_range) result. case ds_find tag result of
      None \<Rightarrow> Inr (ds_set tag other_range result)
    | Some r \<Rightarrow>
        if r = other_range then Inr result
        else if \<not> AR_Intersects r other_range \<and> ar_end r \<noteq> ar_start other_range \<and>
                ar_end other_range \<noteq> ar_start r then Inl InvalidArgumentError
        else TRY (AR_Range (min (ar_start r) (ar_start other_range)) (max (ar_end r) (ar_end other_range)))
          (\<lambda>r. Inr (ds_set tag r result)))"

definition UnionAxisRanges :: "design_space \<Rightarrow> design_space \<Rightarrow> design_space status_or" where
  "UnionAxisRanges result other = TRY_fold UnionAxisRange other result"

record disjunctive_summary =
  su_codepoints :: int_set
  su_features :: "hb_tag list"
  su_design_space :: design_space
  su_is_purely_disjunctive :: bool

definition DisjunctiveSummary :: "bool \<Rightarrow> disjunctive_summary" where
  "DisjunctiveSummary pure = \<lparr>su_codepoints = IntSet_empty, su_features = [], su_design_space = [],
     su_is_purely_disjunctive = pure\<rparr>"

definition non_empty_sets :: "int_set \<Rightarrow> hb_tag list \<Rightarrow> design_space \<Rightarrow> nat" where
  "non_empty_sets codepoints features design_space = of_bool (\<not> IntSet_is_empty codepoints) +
     of_bool (features \<noteq> []) + of_bool (design_space \<noteq> [])"

definition node_sets :: "entry_node \<Rightarrow> nat" where
  "node_sets node = non_empty_sets (nd_codepoints node) (nd_features node) (nd_design_space node)"

definition summary_sets :: "disjunctive_summary \<Rightarrow> nat" where
  "summary_sets s = non_empty_sets (su_codepoints s) (su_features s) (su_design_space s)"

text \<open>The loop over the children; \<open>Clear\<close> leaves an empty summary that is not purely disjunctive.\<close>

fun SummarizeChildren :: "(nat \<Rightarrow> disjunctive_summary option) \<Rightarrow> nat list \<Rightarrow> disjunctive_summary \<Rightarrow>
    disjunctive_summary option" where
  "SummarizeChildren summary_of [] s = Some s"
| "SummarizeChildren summary_of (i # ids) s = (case summary_of i of None \<Rightarrow> None
     | Some c \<Rightarrow>
         if \<not> su_is_purely_disjunctive c then Some (DisjunctiveSummary False)
         else let s = s\<lparr>su_codepoints := IntSet_union_set (su_codepoints s) (su_codepoints c),
                        su_features := merge_sorted (su_features s) (su_features c)\<rparr>
           in case UnionAxisRanges (su_design_space s) (su_design_space c) of
             Inl _ \<Rightarrow> Some (DisjunctiveSummary False)
           | Inr ds \<Rightarrow> SummarizeChildren summary_of ids (s\<lparr>su_design_space := ds\<rparr>))"

fun GetDisjunctiveSummary :: "nat \<Rightarrow> entry_node list \<Rightarrow> nat \<Rightarrow> disjunctive_summary option" where
  "GetDisjunctiveSummary 0 nodes node_id = None"
| "GetDisjunctiveSummary (Suc fuel) nodes node_id =
     (let node = nodes ! node_id in
      if \<not> IntSet_is_empty (nd_children node) \<and> (nd_child_mode node \<noteq> Mode_OR \<or> node_sets node \<noteq> 0)
      then Some (DisjunctiveSummary False)
      else if 1 < node_sets node then Some (DisjunctiveSummary False)
      else SummarizeChildren (GetDisjunctiveSummary fuel nodes) (to_vector (nd_children node))
        \<lparr>su_codepoints = nd_codepoints node, su_features = nd_features node,
         su_design_space = nd_design_space node, su_is_purely_disjunctive = True\<rparr>)"

text \<open>What goes away with an edge: the node when it was the last one, and its own edges.\<close>

fun SavedCosts :: "(nat \<Rightarrow> nat list \<Rightarrow> (int \<times> nat list) outcome) \<Rightarrow> nat list \<Rightarrow> int \<Rightarrow> nat list \<Rightarrow>
    (int \<times> nat list) outcome" where
  "SavedCosts saved [] cost edge_counts = Ok (cost, edge_counts)"
| "SavedCosts saved (i # ids) cost edge_counts =
     OTRY (saved i edge_counts) (\<lambda>(c, edge_counts). SavedCosts saved ids (cost + c) edge_counts)"

fun SavedCostIfEdgeToRemoved :: "nat \<Rightarrow> (entry_node \<Rightarrow> int outcome) \<Rightarrow> entry_node list \<Rightarrow> nat \<Rightarrow> nat list \<Rightarrow>
    (int \<times> nat list) outcome" where
  "SavedCostIfEdgeToRemoved 0 cost_of nodes node_id edge_counts = None"
| "SavedCostIfEdgeToRemoved (Suc fuel) cost_of nodes node_id edge_counts =
     (if edge_counts ! node_id = 0 then Ok (0, edge_counts)
      else let edge_counts = edge_counts[node_id := edge_counts ! node_id - 1] in
        if 0 < edge_counts ! node_id then Ok (0, edge_counts)
        else OTRY (cost_of (nodes ! node_id)) (\<lambda>cost.
          SavedCosts (SavedCostIfEdgeToRemoved fuel cost_of nodes) (to_vector (nd_children (nodes ! node_id)))
            cost edge_counts))"

text \<open>The saving for several edges, on a copy of the counts.\<close>

definition SavedCostOf :: "(entry_node \<Rightarrow> int outcome) \<Rightarrow> entry_graph \<Rightarrow> int_set \<Rightarrow> int outcome" where
  "SavedCostOf cost_of g ids = OTRY
     (SavedCosts (SavedCostIfEdgeToRemoved (Suc (sum_list (eg_edge_count g))) cost_of (eg_nodes g))
       (to_vector ids) 0 (eg_edge_count g)) (\<lambda>(cost, _). Ok cost)"

section \<open>Candidates\<close>

definition graph_fuel :: "entry_graph \<Rightarrow> nat" where
  "graph_fuel g = Suc (length (eg_nodes g))"

text \<open>The node that replaces a disjunction, and the cost of the children it needs.\<close>

definition ExtraChild :: "(entry_node \<Rightarrow> int outcome) \<Rightarrow> bool \<Rightarrow> entry_node \<Rightarrow> nat \<Rightarrow> entry_node \<times> int \<Rightarrow>
    (entry_node \<times> int) outcome" where
  "ExtraChild cost_of needed child_node k = (\<lambda>(test_node, extra).
     if \<not> needed then Ok (test_node, extra)
     else OTRY (cost_of child_node) (\<lambda>cost.
       Ok (test_node\<lparr>nd_children := IntSet_insert k (nd_children test_node)\<rparr>, extra + cost)))"

definition DisjunctiveTestNode ::
  "(entry_node \<Rightarrow> int outcome) \<Rightarrow> disjunctive_summary \<Rightarrow> (entry_node \<times> int) outcome" where
  "DisjunctiveTestNode cost_of s =
     (if summary_sets s \<le> 1
      then Ok (EntryNode\<lparr>nd_codepoints := su_codepoints s, nd_features := su_features s,
                 nd_design_space := su_design_space s, nd_child_mode := Mode_NONE\<rparr>, 0)
      else OTRY (ExtraChild cost_of (\<not> IntSet_is_empty (su_codepoints s))
             (EntryNode\<lparr>nd_codepoints := su_codepoints s\<rparr>) 0 (EntryNode\<lparr>nd_child_mode := Mode_OR\<rparr>, 0)) (\<lambda>r.
           OTRY (ExtraChild cost_of (su_features s \<noteq> []) (EntryNode\<lparr>nd_features := su_features s\<rparr>) 1 r) (\<lambda>r.
           ExtraChild cost_of (su_design_space s \<noteq> []) (EntryNode\<lparr>nd_design_space := su_design_space s\<rparr>) 2 r)))"

definition CalculateDisjunctiveSubsumption ::
  "(entry_node \<Rightarrow> int outcome) \<Rightarrow> entry_graph \<Rightarrow> nat \<Rightarrow> subsumption_result outcome" where
  "CalculateDisjunctiveSubsumption cost_of g node_id =
     (let node = eg_nodes g ! node_id in
      OTRY (cost_of node) (\<lambda>current_node_cost.
      case GetDisjunctiveSummary (graph_fuel g) (eg_nodes g) node_id of None \<Rightarrow> None
      | Some s \<Rightarrow>
          if \<not> su_is_purely_disjunctive s \<or> IntSet_is_empty (nd_children node) then Ok (SubsumptionResult 0)
          else OTRY (DisjunctiveTestNode cost_of s) (\<lambda>(test_node, extra_child_cost).
               OTRY (cost_of test_node) (\<lambda>test_cost.
               OTRY (SavedCostOf cost_of g (nd_children node)) (\<lambda>saved_cost.
               Ok \<lparr>sr_cost_delta = test_cost + extra_child_cost - current_node_cost - saved_cost,
                   sr_subsumed_children = IntSet_union_set IntSet_empty (nd_children node),
                   sr_codepoints = (if IntSet_is_empty (su_codepoints s) then None else Some (su_codepoints s)),
                   sr_features = (if su_features s = [] then None else Some (su_features s)),
                   sr_design_space = (if su_design_space s = [] then None else Some (su_design_space s))\<rparr>)))))"

text \<open>A child of a conjunction that is a single set, for which the node has room.\<close>

definition ChildCandidate :: "entry_graph \<Rightarrow> entry_node \<Rightarrow> nat \<Rightarrow> (nat \<times> disjunctive_summary) list option" where
  "ChildCandidate g node child_id =
     (case GetDisjunctiveSummary (graph_fuel g) (eg_nodes g) child_id of None \<Rightarrow> None
      | Some s \<Rightarrow> Some (
          if \<not> su_is_purely_disjunctive s then []
          else if summary_sets s \<noteq> 1 then []
          else if \<not> IntSet_is_empty (su_codepoints s) \<and> \<not> IntSet_is_empty (nd_codepoints node) then []
          else if su_features s \<noteq> [] \<and> nd_features node \<noteq> [] then []
          else if su_design_space s \<noteq> [] \<and> nd_design_space node \<noteq> [] then []
          else [(child_id, s)]))"

type_synonym candidate = "(nat \<times> disjunctive_summary) option"

definition SubsumeChild ::
  "(disjunctive_summary \<Rightarrow> entry_node \<Rightarrow> entry_node) \<Rightarrow> candidate \<Rightarrow> entry_node \<times> int_set \<Rightarrow> entry_node \<times> int_set" where
  "SubsumeChild set_field candidate = (\<lambda>(test_node, subsumed). case candidate of
      None \<Rightarrow> (test_node, subsumed)
    | Some (i, s) \<Rightarrow>
        ((set_field s test_node)\<lparr>nd_children := fst (IntSet_erase i (nd_children test_node))\<rparr>,
         IntSet_insert i subsumed))"

definition SubsumeCombo :: "entry_node \<Rightarrow> candidate \<Rightarrow> candidate \<Rightarrow> candidate \<Rightarrow> entry_node \<times> int_set" where
  "SubsumeCombo node cp feat ds =
     SubsumeChild (\<lambda>s n. n\<lparr>nd_design_space := su_design_space s\<rparr>) ds
       (SubsumeChild (\<lambda>s n. n\<lparr>nd_features := su_features s\<rparr>) feat
         (SubsumeChild (\<lambda>s n. n\<lparr>nd_codepoints := su_codepoints s\<rparr>) cp (node, IntSet_empty)))"

definition TestCombo :: "(entry_node \<Rightarrow> int outcome) \<Rightarrow> entry_graph \<Rightarrow> entry_node \<Rightarrow> int \<Rightarrow>
    candidate \<times> candidate \<times> candidate \<Rightarrow> subsumption_result \<Rightarrow> subsumption_result outcome" where
  "TestCombo cost_of g node current_node_cost = (\<lambda>(cp, feat, ds) best.
     let (test_node, subsumed) = SubsumeCombo node cp feat ds in
     if IntSet_is_empty subsumed then Ok best
     else OTRY (cost_of test_node) (\<lambda>new_cost.
          OTRY (SavedCostOf cost_of g subsumed) (\<lambda>saved_cost.
          let delta = new_cost - current_node_cost - saved_cost in
          Ok (if delta < sr_cost_delta best
              then \<lparr>sr_cost_delta = delta, sr_subsumed_children = subsumed,
                    sr_codepoints = Some (nd_codepoints test_node), sr_features = Some (nd_features test_node),
                    sr_design_space = Some (nd_design_space test_node)\<rparr>
              else best))))"

abbreviation INT64_MAX :: int where "INT64_MAX \<equiv> 2 ^ 63 - 1"

fun ChildCandidates :: "entry_graph \<Rightarrow> entry_node \<Rightarrow> nat list \<Rightarrow> (nat \<times> disjunctive_summary) list option" where
  "ChildCandidates g node [] = Some []"
| "ChildCandidates g node (i # ids) = Option.bind (ChildCandidate g node i) (\<lambda>c.
     map_option ((@) c) (ChildCandidates g node ids))"

definition CalculateConjunctiveSubsumption ::
  "(entry_node \<Rightarrow> int outcome) \<Rightarrow> entry_graph \<Rightarrow> nat \<Rightarrow> subsumption_result outcome" where
  "CalculateConjunctiveSubsumption cost_of g node_id =
     (let node = eg_nodes g ! node_id in
      if node_sets node = 3 then Ok (SubsumptionResult INT64_MAX)
      else OTRY (cost_of node) (\<lambda>current_node_cost.
        case ChildCandidates g node (to_vector (nd_children node)) of None \<Rightarrow> None
        | Some candidates \<Rightarrow>
            let cps = None # map Some (filter (\<lambda>(_, s). \<not> IntSet_is_empty (su_codepoints s)) candidates);
                feats = None # map Some (filter (\<lambda>(_, s). su_features s \<noteq> []) candidates);
                dss = None # map Some (filter (\<lambda>(_, s). su_design_space s \<noteq> []) candidates)
            in OTRY_fold (TestCombo cost_of g node current_node_cost)
                 (List.product cps (List.product feats dss)) (SubsumptionResult INT64_MAX)))"

definition CalculateSubsumptionCostDelta ::
  "(entry_node \<Rightarrow> int outcome) \<Rightarrow> entry_graph \<Rightarrow> nat \<Rightarrow> subsumption_result outcome" where
  "CalculateSubsumptionCostDelta cost_of g node_id =
     (case nd_child_mode (eg_nodes g ! node_id) of
        Mode_AND \<Rightarrow> CalculateConjunctiveSubsumption cost_of g node_id
      | _ \<Rightarrow> CalculateDisjunctiveSubsumption cost_of g node_id)"

section \<open>Changing the graph\<close>

type_synonym counted_nodes = "nat list \<times> entry_node list"

fun DecrementAll :: "(nat \<Rightarrow> counted_nodes \<Rightarrow> counted_nodes option) \<Rightarrow> nat list \<Rightarrow> counted_nodes \<Rightarrow>
    counted_nodes option" where
  "DecrementAll decrement [] s = Some s"
| "DecrementAll decrement (i # ids) s = Option.bind (decrement i s) (DecrementAll decrement ids)"

fun DecrementIncomingEdges :: "nat \<Rightarrow> nat \<Rightarrow> counted_nodes \<Rightarrow> counted_nodes option" where
  "DecrementIncomingEdges 0 node_id s = None"
| "DecrementIncomingEdges (Suc fuel) node_id (edge_counts, nodes) =
     (if edge_counts ! node_id = 0 then Some (edge_counts, nodes)
      else let edge_counts = edge_counts[node_id := edge_counts ! node_id - 1] in
        if edge_counts ! node_id = 0
        then map_option (\<lambda>(edge_counts, nodes). (edge_counts, nodes[node_id := EntryNode]))
          (DecrementAll (DecrementIncomingEdges fuel) (to_vector (nd_children (nodes ! node_id))) (edge_counts, nodes))
        else Some (edge_counts, nodes))"

definition RemoveChild :: "nat \<Rightarrow> nat \<Rightarrow> entry_graph \<Rightarrow> entry_graph option" where
  "RemoveChild node_id child_id g = map_option (\<lambda>(edge_counts, nodes).
       upd_node node_id (\<lambda>n. n\<lparr>nd_children := fst (IntSet_erase child_id (nd_children n))\<rparr>)
         (g\<lparr>eg_edge_count := edge_counts, eg_nodes := nodes\<rparr>))
     (DecrementIncomingEdges (Suc (sum_list (eg_edge_count g))) child_id (eg_edge_count g, eg_nodes g))"

fun RemoveChildren :: "nat \<Rightarrow> nat list \<Rightarrow> entry_graph \<Rightarrow> entry_graph option" where
  "RemoveChildren node_id [] g = Some g"
| "RemoveChildren node_id (i # ids) g = Option.bind (RemoveChild node_id i g) (RemoveChildren node_id ids)"

text \<open>
  A new child of a node. The code reads the condition index through a reference that a previous
  \<^verbatim>\<open>CreateNode\<close> may have left dangling; the model reads it from the vector.
\<close>

definition AddSubsumedChild ::
  "nat \<Rightarrow> 'a option \<Rightarrow> ('a \<Rightarrow> entry_node \<Rightarrow> entry_node) \<Rightarrow> entry_graph \<Rightarrow> entry_graph outcome" where
  "AddSubsumedChild node_id v set_field g = (case v of None \<Rightarrow> Ok g
     | Some v \<Rightarrow> OTRY (CreateNode (nd_condition_index (eg_nodes g ! node_id)) g) (\<lambda>(i, g).
         Ok (insert_children node_id [i] (add_edge i (upd_node i (set_field v) g)))))"

definition option_sets :: "subsumption_result \<Rightarrow> nat" where
  "option_sets r = of_bool (sr_codepoints r \<noteq> None) + of_bool (sr_features r \<noteq> None) +
     of_bool (sr_design_space r \<noteq> None)"

definition value_or :: "'a option \<Rightarrow> 'a \<Rightarrow> 'a" where
  "value_or v d = (case v of None \<Rightarrow> d | Some x \<Rightarrow> x)"

definition ActuateSubsumption :: "nat \<Rightarrow> subsumption_result \<Rightarrow> entry_graph \<Rightarrow> entry_graph outcome" where
  "ActuateSubsumption node_id r g =
     (if IntSet_is_empty (sr_subsumed_children r) then Ok g
      else case RemoveChildren node_id (to_vector (sr_subsumed_children r)) g of None \<Rightarrow> None
      | Some g \<Rightarrow>
        if nd_child_mode (eg_nodes g ! node_id) = Mode_AND
        then Ok (upd_node node_id (\<lambda>n. n\<lparr>nd_codepoints := value_or (sr_codepoints r) (nd_codepoints n),
               nd_features := value_or (sr_features r) (nd_features n),
               nd_design_space := value_or (sr_design_space r) (nd_design_space n)\<rparr>) g)
        else if option_sets r \<le> 1
        then Ok (upd_node node_id (\<lambda>n. n\<lparr>nd_codepoints := value_or (sr_codepoints r) IntSet_empty,
               nd_features := value_or (sr_features r) [], nd_design_space := value_or (sr_design_space r) [],
               nd_child_mode := Mode_NONE\<rparr>) g)
        else let g = upd_node node_id (\<lambda>n. n\<lparr>nd_codepoints := IntSet_empty, nd_features := [],
                   nd_design_space := [], nd_child_mode := Mode_OR\<rparr>) g
          in OTRY (AddSubsumedChild node_id (sr_codepoints r) (\<lambda>v n. n\<lparr>nd_codepoints := v\<rparr>) g) (\<lambda>g.
             OTRY (AddSubsumedChild node_id (sr_features r) (\<lambda>v n. n\<lparr>nd_features := v\<rparr>) g) (\<lambda>g.
             AddSubsumedChild node_id (sr_design_space r) (\<lambda>v n. n\<lparr>nd_design_space := v\<rparr>) g)))"

section \<open>Optimize\<close>

definition OptimizeNode :: "(entry_node \<Rightarrow> int outcome) \<Rightarrow> nat \<Rightarrow> entry_graph \<times> bool \<Rightarrow> (entry_graph \<times> bool) outcome" where
  "OptimizeNode cost_of node_id = (\<lambda>(g, changed).
     OTRY (CalculateSubsumptionCostDelta cost_of g node_id) (\<lambda>result.
       if sr_cost_delta result < 0 then OTRY (ActuateSubsumption node_id result g) (\<lambda>g. Ok (g, True))
       else Ok (g, changed)))"

definition OptimizePass :: "(entry_node \<Rightarrow> int outcome) \<Rightarrow> entry_graph \<Rightarrow> (entry_graph \<times> bool) outcome" where
  "OptimizePass cost_of g =
     OTRY (TopologicalSort g) (\<lambda>order. OTRY_fold (OptimizeNode cost_of) (rev order) (g, False))"

text \<open>\<^verbatim>\<open>while (changed)\<close>: \<open>None\<close> when the passes never stop.\<close>

partial_function (option) Optimize :: "(entry_node \<Rightarrow> int outcome) \<Rightarrow> entry_graph \<Rightarrow> entry_graph outcome" where
  "Optimize cost_of g = Option.bind (OptimizePass cost_of g) (\<lambda>r. case r of
      Inl e \<Rightarrow> Some (Inl e)
    | Inr (g, changed) \<Rightarrow> if changed then Optimize cost_of g else Some (Inr g))"

end
