(* ===== verification/Entry_Sort.thy ===== *)
theory Entry_Sort
  imports Entry_Graph
begin

text \<open>
  \<^verbatim>\<open>EntryGraph::TopologicalSort\<close>: when the edge counts are those of the graph, the result is an
  order of all nodes with every parent before its children, or the error of a cycle exactly when
  the graph has one.
\<close>

section \<open>The graph of the nodes\<close>

abbreviation node_children :: "entry_node list \<Rightarrow> nat \<Rightarrow> nat set" where
  "node_children nodes p \<equiv> members (nd_children (nodes ! p))"

definition graph_edges :: "entry_node list \<Rightarrow> (nat \<times> nat) set" where
  "graph_edges nodes = {(p, c). p < length nodes \<and> c \<in> node_children nodes p}"

definition children_bounded :: "entry_node list \<Rightarrow> bool" where
  "children_bounded nodes \<longleftrightarrow> (\<forall>p < length nodes. \<forall>c \<in> node_children nodes p. c < length nodes)"

definition parents :: "entry_node list \<Rightarrow> nat \<Rightarrow> nat set" where
  "parents nodes c = {p. p < length nodes \<and> c \<in> node_children nodes p}"

lemma finite_parents [simp]: "finite (parents nodes c)"
  by (simp add: parents_def)

lemma finite_graph_edges: "children_bounded nodes \<Longrightarrow> finite (graph_edges nodes)"
  by (rule finite_subset [of _ "{..<length nodes} \<times> {..<length nodes}"])
    (auto simp: graph_edges_def children_bounded_def)

text \<open>An order with all parents of a node before it.\<close>

definition parents_first :: "entry_node list \<Rightarrow> nat list \<Rightarrow> bool" where
  "parents_first nodes order \<longleftrightarrow> (\<forall>k < length order. parents nodes (order ! k) \<subseteq> set (take k order))"

lemma parents_first_snoc:
  "parents_first nodes (order @ [i]) \<longleftrightarrow> parents_first nodes order \<and> parents nodes i \<subseteq> set order"
  by (auto simp: parents_first_def nth_append less_Suc_eq)

lemma parents_first_acyclic:
  assumes "parents_first nodes order" and "{..<length nodes} \<subseteq> set order" and "distinct order"
    and "children_bounded nodes"
  shows "acyclic (graph_edges nodes)"
proof -
  define pos where "pos x = (THE k. k < length order \<and> order ! k = x)" for x
  have pos: "pos (order ! k) = k" if "k < length order" for k
    unfolding pos_def using that assms(3) by (intro the_equality) (auto simp: nth_eq_iff_index_eq)
  have less: "pos p < pos c" if "(p, c) \<in> graph_edges nodes" for p c
  proof -
    have "c < length nodes" using that assms(4) by (auto simp: graph_edges_def children_bounded_def)
    then have "c \<in> set order" using assms(2) by blast
    then obtain k where k: "k < length order" "order ! k = c" by (auto simp: in_set_conv_nth)
    then have "p \<in> set (take k order)" using that assms(1) by (auto simp: parents_first_def parents_def graph_edges_def)
    then obtain j where "j < k" "order ! j = p" using k(1) by (auto simp: in_set_conv_nth)
    with k pos show ?thesis by auto
  qed
  have "pos x < pos y" if "(x, y) \<in> (graph_edges nodes)\<^sup>+" for x y
    using that by (induction rule: trancl.induct) (auto dest: less intro: less_trans)
  then show ?thesis unfolding acyclic_def by (metis less_irrefl)
qed

section \<open>Kahn's algorithm\<close>

lemma ReleaseChildren_spec:
  assumes "distinct cs" and "\<forall>c \<in> set cs. c < length counts \<and> 0 < counts ! c"
  shows "\<exists>counts' queue'. ReleaseChildren cs counts queue = Ok (counts', queue') \<and>
    length counts' = length counts \<and>
    (\<forall>i < length counts. counts' ! i = (if i \<in> set cs then counts ! i - 1 else counts ! i)) \<and>
    (\<exists>new. queue' = new @ queue \<and> distinct new \<and> set new = {c \<in> set cs. counts ! c = 1})"
  using assms
proof (induction cs arbitrary: counts queue)
  case Nil
  then show ?case by simp
next
  case (Cons c cs)
  let ?counts = "counts[c := counts ! c - 1]" let ?queue = "if ?counts ! c = 0 then c # queue else queue"
  have c: "c < length counts" "counts ! c \<noteq> 0" "c \<notin> set cs" using Cons.prems by auto
  then have other: "\<And>d. d \<in> set cs \<Longrightarrow> ?counts ! d = counts ! d" by (metis nth_list_update_neq)
  from Cons.IH [of ?counts ?queue] Cons.prems other obtain counts' new where
    r: "ReleaseChildren cs ?counts ?queue = Ok (counts', new @ ?queue)" "length counts' = length counts"
      "\<forall>i < length counts. counts' ! i = (if i \<in> set cs then ?counts ! i - 1 else ?counts ! i)"
      "distinct new" "set new = {d \<in> set cs. ?counts ! d = 1}"
    by auto
  have new: "set new = {d \<in> set cs. counts ! d = 1}" using r(5) other by auto
  have "ReleaseChildren (c # cs) counts queue = Ok (counts', new @ ?queue)"
    using r(1) c by (simp add: Let_def)
  moreover have "\<forall>i < length counts. counts' ! i = (if i \<in> set (c # cs) then counts ! i - 1 else counts ! i)"
    using r(3) c by (simp add: nth_list_update)
  moreover have "\<exists>new'. new @ ?queue = new' @ queue \<and> distinct new' \<and> set new' = {d \<in> set (c # cs). counts ! d = 1}"
  proof (cases "counts ! c = 1")
    case True
    then show ?thesis using c r(4) new by (intro exI [of _ "new @ [c]"]) auto
  next
    case False
    then show ?thesis using c r(4) new by (intro exI [of _ new]) auto
  qed
  ultimately show ?case using r(2) by blast
qed

definition kahn_inv :: "entry_node list \<Rightarrow> nat list \<Rightarrow> nat list \<Rightarrow> nat list \<Rightarrow> bool" where
  "kahn_inv nodes counts queue order \<longleftrightarrow>
     distinct (order @ queue) \<and> set (order @ queue) \<subseteq> {..<length nodes} \<and> length counts = length nodes \<and>
     (\<forall>c < length nodes. counts ! c = card (parents nodes c - set order) \<and>
        (counts ! c = 0 \<longleftrightarrow> c \<in> set (order @ queue))) \<and>
     parents_first nodes order"

lemma kahn_step:
  assumes inv: "kahn_inv nodes counts queue order" and ne: "queue \<noteq> []" and b: "children_bounded nodes"
    and i: "i = queue_top nodes queue"
  shows "\<exists>counts' queue'. ReleaseChildren (to_vector (nd_children (nodes ! i))) counts (remove1 i queue) =
    Ok (counts', queue') \<and> kahn_inv nodes counts' queue' (order @ [i])"
proof -
  let ?n = "length nodes" let ?cs = "to_vector (nd_children (nodes ! i))"
  have iq: "i \<in> set queue" using queue_top_in [OF ne, of nodes] i by simp
  then have i_new: "i < ?n" "i \<notin> set order" using inv by (auto simp: kahn_inv_def)
  have cnt: "\<And>c. c < ?n \<Longrightarrow> counts ! c = card (parents nodes c - set order)"
    and zero: "\<And>c. c < ?n \<Longrightarrow> counts ! c = 0 \<longleftrightarrow> c \<in> set (order @ queue)"
    and len: "length counts = ?n" using inv unfolding kahn_inv_def by blast+
  have child: "c < ?n \<and> i \<in> parents nodes c - set order" if "c \<in> set ?cs" for c
    using that b i_new by (auto simp: children_bounded_def parents_def)
  then have pos: "\<forall>c \<in> set ?cs. c < length counts \<and> 0 < counts ! c"
    using cnt len by (auto simp: card_gt_0_iff)
  obtain counts' new where r: "ReleaseChildren ?cs counts (remove1 i queue) = Ok (counts', new @ remove1 i queue)"
    "length counts' = ?n" "\<forall>c < ?n. counts' ! c = (if c \<in> set ?cs then counts ! c - 1 else counts ! c)"
    "distinct new" "set new = {c \<in> set ?cs. counts ! c = 1}"
    using ReleaseChildren_spec [OF to_vector_distinct pos, of "remove1 i queue"] len by auto
  have i0: "counts ! i = 0" using zero [OF i_new(1)] iq by simp
  then have ip: "parents nodes i \<subseteq> set order" using cnt [OF i_new(1)] by (simp add: card_eq_0_iff)
  have cnt': "counts' ! c = card (parents nodes c - set (order @ [i]))" if "c < ?n" for c
  proof (cases "c \<in> set ?cs")
    case True
    have "parents nodes c - set (order @ [i]) = (parents nodes c - set order) - {i}" by auto
    with child [OF True] cnt [OF that] r(3) that True show ?thesis by (simp add: card_Diff_singleton)
  next
    case False
    then have "i \<notin> parents nodes c" by (simp add: parents_def)
    then have "parents nodes c - set (order @ [i]) = parents nodes c - set order" by auto
    with cnt [OF that] r(3) that False show ?thesis by simp
  qed
  have q: "distinct queue" "set (remove1 i queue) = set queue - {i}" using inv by (auto simp: kahn_inv_def)
  have zero': "counts' ! c = 0 \<longleftrightarrow> c \<in> set ((order @ [i]) @ new @ remove1 i queue)" if "c < ?n" for c
  proof (cases "c \<in> set ?cs")
    case True
    then have "c \<notin> set (order @ queue)" using zero [OF that] pos by auto
    moreover have "c \<noteq> i" using True pos i0 by auto
    ultimately show ?thesis using True r(3,5) that pos q by auto
  next
    case False
    with r(3,5) that zero [OF that] q iq show ?thesis by auto
  qed
  have "x \<notin> set (order @ queue) \<and> x < ?n" if "x \<in> set new" for x
  proof -
    from that r(5) have x: "x \<in> set ?cs" "counts ! x = 1" by auto
    then have "x < ?n" using child by blast
    with zero [OF this] x(2) show ?thesis by simp
  qed
  then have new: "set new \<inter> set (order @ queue) = {}" "set new \<subseteq> {..<?n}" by blast+
  have "kahn_inv nodes counts' (new @ remove1 i queue) (order @ [i])"
    unfolding kahn_inv_def parents_first_snoc using inv new q iq r(2,4) cnt' zero' ip i_new
    by (auto simp: kahn_inv_def)
  with r(1) show ?thesis by blast
qed

lemma Kahn_spec:
  assumes "kahn_inv nodes counts queue order" and "children_bounded nodes"
  shows "\<exists>order' counts'. Kahn nodes counts queue order = Ok order' \<and> kahn_inv nodes counts' [] order'"
  using assms
proof (induction nodes counts queue order rule: Kahn.induct)
  case (1 nodes counts queue order)
  show ?case
  proof (cases "queue = []")
    case True
    then show ?thesis using 1(2) by (auto simp: Kahn.simps)
  next
    case False
    define i where "i = queue_top nodes queue"
    obtain counts' queue' where s: "ReleaseChildren (to_vector (nd_children (nodes ! i))) counts (remove1 i queue) =
      Ok (counts', queue')" "kahn_inv nodes counts' queue' (order @ [i])"
      using kahn_step [OF 1(2) False 1(3) i_def] by blast
    have "Kahn nodes counts queue order = Kahn nodes counts' queue' (order @ [i])"
      using False s(1) by (simp add: Kahn.simps [of nodes counts] i_def [symmetric] Let_def)
    with 1(1) [OF False i_def s(1) refl s(2) 1(3)] show ?thesis by simp
  qed
qed

lemma kahn_inv_complete:
  assumes inv: "kahn_inv nodes counts [] order" and b: "children_bounded nodes"
  shows "length order = length nodes \<longleftrightarrow> acyclic (graph_edges nodes)"
proof
  assume "length order = length nodes"
  then have "set order = {..<length nodes}"
    using inv by (intro card_subset_eq) (auto simp: kahn_inv_def distinct_card)
  with inv b show "acyclic (graph_edges nodes)"
    by (intro parents_first_acyclic) (auto simp: kahn_inv_def)
next
  assume ac: "acyclic (graph_edges nodes)"
  have "{..<length nodes} - set order = {}"
  proof (rule ccontr)
    assume "{..<length nodes} - set order \<noteq> {}"
    moreover have "wf (graph_edges nodes)" by (rule finite_acyclic_wf [OF finite_graph_edges [OF b] ac])
    ultimately obtain c where c: "c \<in> {..<length nodes} - set order"
      "\<And>p. (p, c) \<in> graph_edges nodes \<Longrightarrow> p \<notin> {..<length nodes} - set order"
      by (meson wfE_min ex_in_conv)
    then have "parents nodes c - set order = {}" by (auto simp: parents_def graph_edges_def)
    moreover have "counts ! c = card (parents nodes c - set order)" "counts ! c = 0 \<longleftrightarrow> c \<in> set (order @ [])"
      using inv c(1) unfolding kahn_inv_def by blast+
    ultimately show False using c(1) by simp
  qed
  with inv have "set order = {..<length nodes}" by (auto simp: kahn_inv_def)
  with inv show "length order = length nodes" by (metis card_lessThan distinct_append distinct_card kahn_inv_def)
qed

section \<open>The counts of a graph\<close>

text \<open>The ids of the nodes that stand for top level conditions, once per condition.\<close>

definition top_nodes :: "entry_graph \<Rightarrow> nat list" where
  "top_nodes g = List.map_filter (eg_condition_node g) (map fst (eg_patch_mappings g))"

definition counts_ok :: "entry_graph \<Rightarrow> bool" where
  "counts_ok g \<longleftrightarrow> length (eg_edge_count g) = length (eg_nodes g) \<and> children_bounded (eg_nodes g) \<and>
     set (top_nodes g) \<subseteq> {..<length (eg_nodes g)} \<and>
     (\<forall>c < length (eg_nodes g). eg_edge_count g ! c = card (parents (eg_nodes g) c) + count_list (top_nodes g) c)"

lemma DropTopLevel_spec:
  assumes "\<forall>c \<in> set (List.map_filter node_of cs). c < length counts"
    and "\<forall>c < length counts. count_list (List.map_filter node_of cs) c \<le> counts ! c"
  shows "\<exists>counts'. DropTopLevel node_of cs counts = Ok counts' \<and> length counts' = length counts \<and>
    (\<forall>c < length counts. counts' ! c = counts ! c - count_list (List.map_filter node_of cs) c)"
  using assms
proof (induction cs arbitrary: counts)
  case Nil
  then show ?case by (simp add: List.map_filter_def)
next
  case (Cons c cs)
  show ?case
  proof (cases "node_of c")
    case None
    with Cons show ?thesis by (simp add: map_filter_simps)
  next
    case (Some i)
    have i: "i < length counts" "0 < counts ! i"
      using Cons.prems Some by (auto simp: map_filter_simps dest!: spec [of _ i])
    let ?counts = "counts[i := counts ! i - 1]"
    have "\<forall>d \<in> set (List.map_filter node_of cs). d < length ?counts"
      "\<forall>d < length ?counts. count_list (List.map_filter node_of cs) d \<le> ?counts ! d"
      using Cons.prems Some i by (auto simp: map_filter_simps nth_list_update split: if_splits)
    from Cons.IH [OF this] show ?thesis using Some i
      by (auto simp: map_filter_simps nth_list_update)
  qed
qed

lemma TopologicalSort_spec:
  assumes ok: "counts_ok g"
  shows "if acyclic (graph_edges (eg_nodes g))
    then \<exists>order. TopologicalSort g = Ok order \<and> distinct order \<and> set order = {..<length (eg_nodes g)} \<and>
      parents_first (eg_nodes g) order
    else TopologicalSort g = Fail InternalError"
proof -
  let ?nodes = "eg_nodes g" let ?n = "length (eg_nodes g)"
  have b: "children_bounded ?nodes" using ok by (simp add: counts_ok_def)
  obtain counts where c: "DropTopLevel (eg_condition_node g) (map fst (eg_patch_mappings g)) (eg_edge_count g) = Ok counts"
    "length counts = ?n" "\<forall>c < ?n. counts ! c = card (parents ?nodes c)"
    using DropTopLevel_spec [of "eg_condition_node g" "map fst (eg_patch_mappings g)" "eg_edge_count g"] ok
    by (auto simp: counts_ok_def top_nodes_def)
  let ?q = "filter (\<lambda>i. counts ! i = 0) [0..<length counts]"
  have "kahn_inv ?nodes counts ?q []"
    using c by (auto simp: kahn_inv_def parents_first_def)
  from Kahn_spec [OF this b] obtain order counts' where
    k: "Kahn ?nodes counts ?q [] = Ok order" "kahn_inv ?nodes counts' [] order" by blast
  note complete = kahn_inv_complete [OF k(2) b]
  have sort: "TopologicalSort g = (if length order \<noteq> ?n then Fail InternalError else Ok order)"
    using c(1) k(1) by (simp add: TopologicalSort_def)
  show ?thesis
  proof (cases "acyclic (graph_edges ?nodes)")
    case True
    then have "length order = ?n" using complete by simp
    moreover from this have "set order = {..<?n}"
      using k(2) by (intro card_subset_eq) (auto simp: kahn_inv_def distinct_card)
    ultimately show ?thesis using True sort k(2) by (auto simp: kahn_inv_def)
  next
    case False
    then show ?thesis using complete sort by simp
  qed
qed

end
