(* ===== verification/Entry_Invariant.thy ===== *)
theory Entry_Invariant
  imports Entry_Sort Entry_Matching
begin

text \<open>
  What the construction of an entry graph keeps: every node has a key that says what it stands for,
  the maps find the nodes by their keys, a node holds for a target just if its key does, edges lead
  to smaller keys, and the counts are those of the edges together with the edges that are counted
  but not yet drawn. Nodes in the set of pending nodes may still lack children.
\<close>

section \<open>Keys\<close>

datatype node_key =
  K_codepoints int_set
| K_features "hb_tag list"
| K_axes design_space
| K_condition activation_condition
| K_chain child_mode "node_key list"

definition hit_segments :: "segment_map \<Rightarrow> subset_definition \<Rightarrow> nat set" where
  "hit_segments segments target = {s. \<exists>d. segments s = Some d \<and> sd_intersects d target}"

text \<open>What a key says of a target.\<close>

fun key_holds :: "segment_map \<Rightarrow> subset_definition \<Rightarrow> node_key \<Rightarrow> bool" where
  "key_holds segments target (K_codepoints S) \<longleftrightarrow> members S \<inter> members (sd_codepoints target) \<noteq> {}"
| "key_holds segments target (K_features fs) \<longleftrightarrow> set fs \<inter> set (sd_feature_tags target) \<noteq> {}"
| "key_holds segments target (K_axes ds) \<longleftrightarrow> design_spaces_intersect ds (sd_design_space target)"
| "key_holds segments target (K_condition c) \<longleftrightarrow> AC_activates c (hit_segments segments target)"
| "key_holds segments target (K_chain mode ks) \<longleftrightarrow>
     (if mode = Mode_AND then \<forall>k \<in> set ks. key_holds segments target k else \<exists>k \<in> set ks. key_holds segments target k)"

fun key_rank :: "node_key \<Rightarrow> nat \<times> nat" where
  "key_rank (K_condition c) = (if IsUnitary c then (1, 0)
     else if IsPurelyDisjunctive c then (2, Suc (IntSet_size (hd (ac_conditions c))))
     else (3, Suc (length (ac_conditions c))))"
| "key_rank (K_chain mode ks) = (if mode = Mode_AND then 3 else 2, length ks)"
| "key_rank _ = (0, 0)"

definition key_less :: "node_key \<Rightarrow> node_key \<Rightarrow> bool" where
  "key_less a b \<longleftrightarrow> (key_rank a, key_rank b) \<in> less_than <*lex*> less_than"

definition one_kind :: "subset_definition \<Rightarrow> node_key option" where
  "one_kind d =
     (let cps = \<not> IntSet_is_empty (sd_codepoints d); feats = sd_feature_tags d \<noteq> []; axes = sd_design_space d \<noteq> []
      in if cps \<and> \<not> feats \<and> \<not> axes then Some (K_codepoints (sd_codepoints d))
         else if \<not> cps \<and> feats \<and> \<not> axes then Some (K_features (sd_feature_tags d))
         else if \<not> cps \<and> \<not> feats \<and> axes then Some (K_axes (sd_design_space d)) else None)"

text \<open>The key of a normalized condition.\<close>

definition condition_key :: "segment_map \<Rightarrow> activation_condition \<Rightarrow> node_key" where
  "condition_key segments c =
     (case (if IsUnitary c then Option.bind (unitary_segment segments c) one_kind else None) of
        None \<Rightarrow> K_condition c | Some k \<Rightarrow> k)"

section \<open>Nodes\<close>

definition fields_match :: "subset_definition \<Rightarrow> entry_node \<Rightarrow> bool" where
  "fields_match target n \<longleftrightarrow>
     (members (nd_codepoints n) = {} \<or> members (nd_codepoints n) \<inter> members (sd_codepoints target) \<noteq> {}) \<and>
     (nd_features n = [] \<or> set (nd_features n) \<inter> set (sd_feature_tags target) \<noteq> {}) \<and>
     (nd_design_space n = [] \<or> design_spaces_intersect (nd_design_space n) (sd_design_space target))"

definition node_holds :: "(nat \<Rightarrow> bool) \<Rightarrow> subset_definition \<Rightarrow> entry_node \<Rightarrow> bool" where
  "node_holds holds target n \<longleftrightarrow> fields_match target n \<and>
     (members (nd_children n) = {} \<or>
       (if nd_child_mode n = Mode_AND then \<forall>c \<in> members (nd_children n). holds c
        else \<exists>c \<in> members (nd_children n). holds c))"

definition consistent :: "segment_map \<Rightarrow> node_key list \<Rightarrow> entry_node \<Rightarrow> node_key \<Rightarrow> bool" where
  "consistent segments keys n k \<longleftrightarrow> (\<forall>target. key_holds segments target k \<longleftrightarrow>
     node_holds (\<lambda>c. key_holds segments target (keys ! c)) target n)"

definition maps_ok :: "segment_map \<Rightarrow> node_key list \<Rightarrow> entry_graph \<Rightarrow> bool" where
  "maps_ok segments keys g \<longleftrightarrow>
     (\<forall>S i. eg_codepoints_node g S = Some i \<longleftrightarrow> i < length keys \<and> keys ! i = K_codepoints S) \<and>
     (\<forall>fs i. eg_features_node g fs = Some i \<longleftrightarrow> i < length keys \<and> keys ! i = K_features fs) \<and>
     (\<forall>ds i. eg_design_space_node g ds = Some i \<longleftrightarrow> i < length keys \<and> keys ! i = K_axes ds) \<and>
     (\<forall>c i. eg_condition_node g c = Some i \<longrightarrow> i < length keys \<and> keys ! i = condition_key segments c) \<and>
     (\<forall>c i. i < length keys \<and> keys ! i = K_condition c \<longrightarrow> eg_condition_node g c = Some i)"

lemma maps_ok_cong:
  assumes "eg_codepoints_node h = eg_codepoints_node g" "eg_features_node h = eg_features_node g"
    "eg_design_space_node h = eg_design_space_node g" "eg_condition_node h = eg_condition_node g"
  shows "maps_ok segments keys h = maps_ok segments keys g"
  unfolding maps_ok_def assms by (rule refl)

definition graph_inv :: "segment_map \<Rightarrow> node_key list \<Rightarrow> nat set \<Rightarrow> nat list \<Rightarrow> entry_graph \<Rightarrow> bool" where
  "graph_inv segments keys pending edges g \<longleftrightarrow>
     length (eg_nodes g) = length keys \<and> length (eg_edge_count g) = length keys \<and> set edges \<subseteq> {..<length keys} \<and>
     (\<forall>p < length keys. \<forall>c \<in> node_children (eg_nodes g) p. c < length keys \<and> key_less (keys ! c) (keys ! p)) \<and>
     (\<forall>c < length keys. eg_edge_count g ! c = card (parents (eg_nodes g) c) + count_list edges c) \<and>
     (\<forall>i < length keys. i \<notin> pending \<longrightarrow> consistent segments keys (eg_nodes g ! i) (keys ! i)) \<and>
     (\<forall>i < length keys. card (node_children (eg_nodes g) i) \<le> 127) \<and>
     maps_ok segments keys g"

lemma graph_invD:
  assumes "graph_inv segments keys pending edges g"
  shows "length (eg_nodes g) = length keys" "length (eg_edge_count g) = length keys" "set edges \<subseteq> {..<length keys}"
    "\<And>p c. p < length keys \<Longrightarrow> c \<in> node_children (eg_nodes g) p \<Longrightarrow> c < length keys \<and> key_less (keys ! c) (keys ! p)"
    "\<And>c. c < length keys \<Longrightarrow> eg_edge_count g ! c = card (parents (eg_nodes g) c) + count_list edges c"
    "\<And>i. i < length keys \<Longrightarrow> i \<notin> pending \<Longrightarrow> consistent segments keys (eg_nodes g ! i) (keys ! i)"
    "\<And>i. i < length keys \<Longrightarrow> card (node_children (eg_nodes g) i) \<le> 127"
    "maps_ok segments keys g"
  using assms unfolding graph_inv_def by blast+

lemma graph_invI:
  assumes "length (eg_nodes g) = length keys" "length (eg_edge_count g) = length keys" "set edges \<subseteq> {..<length keys}"
    "\<And>p c. p < length keys \<Longrightarrow> c \<in> node_children (eg_nodes g) p \<Longrightarrow> c < length keys \<and> key_less (keys ! c) (keys ! p)"
    "\<And>c. c < length keys \<Longrightarrow> eg_edge_count g ! c = card (parents (eg_nodes g) c) + count_list edges c"
    "\<And>i. i < length keys \<Longrightarrow> i \<notin> pending \<Longrightarrow> consistent segments keys (eg_nodes g ! i) (keys ! i)"
    "\<And>i. i < length keys \<Longrightarrow> card (node_children (eg_nodes g) i) \<le> 127"
    "maps_ok segments keys g"
  shows "graph_inv segments keys pending edges g"
  using assms unfolding graph_inv_def by blast

text \<open>Edges may be counted in any order.\<close>

lemma graph_inv_edges:
  "mset edges = mset edges' \<Longrightarrow> graph_inv segments keys pending edges g \<Longrightarrow> graph_inv segments keys pending edges' g"
proof -
  assume m: "mset edges = mset edges'" and inv: "graph_inv segments keys pending edges g"
  have "count_list edges c = count_list edges' c" for c using m by (metis count_mset)
  moreover have "set edges = set edges'" by (rule mset_eq_setD [OF m])
  ultimately show "graph_inv segments keys pending edges' g"
    using graph_invD [OF inv] by (intro graph_invI) simp_all
qed

lemma graph_inv_pending:
  "graph_inv segments keys pending edges g \<Longrightarrow> pending \<subseteq> pending' \<Longrightarrow> graph_inv segments keys pending' edges g"
  unfolding graph_inv_def by blast

lemma graph_inv_done:
  assumes "graph_inv segments keys (insert i pending) edges g"
    and "i < length keys \<Longrightarrow> consistent segments keys (eg_nodes g ! i) (keys ! i)"
  shows "graph_inv segments keys pending edges g"
  using assms unfolding graph_inv_def by blast

lemma graph_inv_empty: "graph_inv segments [] {} [] EntryGraph"
  by (simp add: graph_inv_def EntryGraph_def maps_ok_def)

section \<open>Primitive steps\<close>

lemma card_parents_le: "card (parents nodes c) \<le> length nodes"
  by (rule order_trans [OF card_mono [of "{..<length nodes}"]]) (auto simp: parents_def)

lemma count_list_le_length: "count_list xs x \<le> length xs"
  by (induction xs) auto

lemma add_edge_inv:
  assumes inv: "graph_inv segments keys pending edges g" and i: "i < length keys"
    and room: "length keys + length edges < UINT32_MAX"
  shows "graph_inv segments keys pending (i # edges) (add_edge i g)"
proof -
  note d = graph_invD [OF inv]
  have "eg_edge_count g ! i \<le> length keys + length edges"
    using d(5) [OF i] card_parents_le [of "eg_nodes g" i] count_list_le_length [of edges i] d(1) by simp
  then have "(eg_edge_count g ! i + 1) mod TWO32 = eg_edge_count g ! i + 1" using room by simp
  then show ?thesis using d i maps_ok_cong [of "add_edge i g" g]
    by (intro graph_invI) (simp_all add: add_edge_def nth_list_update)
qed

text \<open>Changes of a node that the invariant does not see.\<close>

definition node_shape :: "entry_node \<Rightarrow> entry_node" where
  "node_shape n = n\<lparr>nd_condition_index := 0\<rparr>"

definition extends :: "entry_graph \<Rightarrow> entry_graph \<Rightarrow> bool" where
  "extends g g' \<longleftrightarrow> length (eg_nodes g) \<le> length (eg_nodes g') \<and>
     (\<forall>i < length (eg_nodes g). node_shape (eg_nodes g' ! i) = node_shape (eg_nodes g ! i)) \<and>
     eg_condition_node g \<subseteq>\<^sub>m eg_condition_node g' \<and> eg_patch_mappings g' = eg_patch_mappings g \<and>
     eg_patch_encodings g' = eg_patch_encodings g"

lemma extends_refl: "extends g g"
  by (simp add: extends_def)

lemma extends_trans: "extends g h \<Longrightarrow> extends h k \<Longrightarrow> extends g k"
  unfolding extends_def by (auto intro: map_le_trans)

lemma extends_add_edge: "extends g h \<Longrightarrow> extends g (add_edge i h)"
  by (simp add: extends_def add_edge_def)

lemma node_shape_eq:
  "node_shape m = node_shape n \<longleftrightarrow> nd_codepoints m = nd_codepoints n \<and> nd_features m = nd_features n \<and>
    nd_design_space m = nd_design_space n \<and> nd_child_mode m = nd_child_mode n \<and> nd_children m = nd_children n"
  by (cases m; cases n) (simp add: node_shape_def)

lemma consistent_shape:
  "node_shape m = node_shape n \<Longrightarrow> consistent segments keys m k = consistent segments keys n k"
  by (simp add: consistent_def node_holds_def fields_match_def node_shape_eq)

text \<open>An update of one node: the children of the others stay.\<close>

lemma upd_node_sel [simp]:
  "length (eg_nodes (upd_node i f g)) = length (eg_nodes g)"
  "eg_edge_count (upd_node i f g) = eg_edge_count g"
  "eg_condition_node (upd_node i f g) = eg_condition_node g"
  "eg_codepoints_node (upd_node i f g) = eg_codepoints_node g"
  "eg_features_node (upd_node i f g) = eg_features_node g"
  "eg_design_space_node (upd_node i f g) = eg_design_space_node g"
  "eg_patch_mappings (upd_node i f g) = eg_patch_mappings g"
  "eg_patch_encodings (upd_node i f g) = eg_patch_encodings g"
  by (simp_all add: upd_node_def)

lemma nth_upd_node:
  "j < length (eg_nodes g) \<Longrightarrow> eg_nodes (upd_node i f g) ! j = (if i = j then f (eg_nodes g ! j) else eg_nodes g ! j)"
  by (auto simp: upd_node_def nth_list_update)

lemma parents_cong:
  assumes "length nodes' = length nodes"
    and "\<And>i. i < length nodes \<Longrightarrow> nd_children (nodes' ! i) = nd_children (nodes ! i)"
  shows "parents nodes' c = parents nodes c"
  using assms by (auto simp: parents_def)

lemma upd_node_inv:
  assumes inv: "graph_inv segments keys pending edges g" and i: "i < length keys"
    and children: "nd_children (f (eg_nodes g ! i)) = nd_children (eg_nodes g ! i)"
    and ok: "i \<in> pending \<or> consistent segments keys (f (eg_nodes g ! i)) (keys ! i)"
  shows "graph_inv segments keys pending edges (upd_node i f g)"
proof -
  note d = graph_invD [OF inv]
  have c: "nd_children (eg_nodes (upd_node i f g) ! j) = nd_children (eg_nodes g ! j)" if "j < length keys" for j
    using that d(1) children by (cases "i = j") (simp_all add: nth_upd_node)
  have p: "parents (eg_nodes (upd_node i f g)) x = parents (eg_nodes g) x" for x
    by (rule parents_cong) (simp_all add: c d(1))
  show ?thesis
  proof (rule graph_invI)
    show "consistent segments keys (eg_nodes (upd_node i f g) ! j) (keys ! j)" if "j < length keys" "j \<notin> pending" for j
      using d(6) [OF that] ok that d(1) by (cases "i = j") (simp_all add: nth_upd_node)
    show "maps_ok segments keys (upd_node i f g)" using d(8) by (subst maps_ok_cong [of _ g]) simp_all
  qed (use d c p in simp_all)
qed

lemma upd_node_extends:
  assumes "extends g h" and "i < length (eg_nodes g) \<Longrightarrow> node_shape (f (eg_nodes h ! i)) = node_shape (eg_nodes h ! i)"
  shows "extends g (upd_node i f h)"
  using assms by (auto simp: extends_def nth_upd_node)


section \<open>New nodes\<close>

lemma consistent_append:
  assumes "members (nd_children n) \<subseteq> {..<length keys}"
  shows "consistent segments (keys @ ks) n k = consistent segments keys n k"
  unfolding consistent_def node_holds_def using assms by (intro iff_allI) (auto simp: nth_append subset_eq)

text \<open>The two vectors of a graph after \<^verbatim>\<open>CreateNode\<close>, whatever happened to the maps.\<close>

definition appended :: "entry_graph \<Rightarrow> entry_node \<Rightarrow> entry_graph \<Rightarrow> bool" where
  "appended g n g' \<longleftrightarrow> eg_nodes g' = eg_nodes g @ [n] \<and> eg_edge_count g' = eg_edge_count g @ [0]"

lemma parents_append:
  assumes "nd_children n = IntSet_empty" shows "parents (nodes @ [n]) c = parents nodes c"
  using assms by (auto simp: parents_def nth_append less_Suc_eq)

lemma appended_inv:
  assumes inv: "graph_inv segments keys pending edges g" and app: "appended g n g'"
    and n: "nd_children n = IntSet_empty" and maps: "maps_ok segments (keys @ [k]) g'"
  shows "graph_inv segments (keys @ [k]) (insert (length keys) pending) edges g'"
proof (rule graph_invI)
  note d = graph_invD [OF inv]
  have g': "eg_nodes g' = eg_nodes g @ [n]" "eg_edge_count g' = eg_edge_count g @ [0]"
    using app by (simp_all add: appended_def)
  show "length (eg_nodes g') = length (keys @ [k])" "length (eg_edge_count g') = length (keys @ [k])"
    using g' d(1,2) by simp_all
  show "set edges \<subseteq> {..<length (keys @ [k])}" using d(3) by auto
  have child: "c < length keys" if "p < length keys" "c \<in> node_children (eg_nodes g) p" for p c
    using d(4) [OF that] by blast
  show "c < length (keys @ [k]) \<and> key_less ((keys @ [k]) ! c) ((keys @ [k]) ! p)"
    if "p < length (keys @ [k])" "c \<in> node_children (eg_nodes g') p" for p c
    using that d(1) n d(4) [of p c] by (cases "p < length keys") (auto simp: g' nth_append)
  show "eg_edge_count g' ! c = card (parents (eg_nodes g') c) + count_list edges c" if "c < length (keys @ [k])" for c
  proof (cases "c < length keys")
    case True
    then show ?thesis using d(2) d(5) [OF True] by (simp add: g' parents_append [OF n] nth_append)
  next
    case False
    with that have c: "c = length keys" by simp
    have "parents (eg_nodes g) c = {}" using child c d(1) by (fastforce simp: parents_def)
    moreover have "c \<notin> set edges" using d(3) c by auto
    ultimately show ?thesis using c d(2) by (simp add: g' parents_append [OF n] nth_append count_list_0_iff)
  qed
  show "consistent segments (keys @ [k]) (eg_nodes g' ! i) ((keys @ [k]) ! i)"
    if "i < length (keys @ [k])" "i \<notin> insert (length keys) pending" for i
  proof -
    have i: "i < length keys" "i \<notin> pending" using that by auto
    have "node_children (eg_nodes g) i \<subseteq> {..<length keys}" using child [OF i(1)] by blast
    from consistent_append [OF this] d(6) [OF i] show ?thesis using i d(1) by (simp add: g' nth_append)
  qed
  show "card (node_children (eg_nodes g') i) \<le> 127" if "i < length (keys @ [k])" for i
    using that d(1) n d(7) [of i] by (cases "i < length keys") (auto simp: g' nth_append less_Suc_eq)
  show "maps_ok segments (keys @ [k]) g'" by (rule maps)
qed

text \<open>
  What an operation promises that returns the id of a node for a key: at most \<open>w\<close> new nodes and
  one edge to the node it returns.
\<close>

definition adds :: "segment_map \<Rightarrow> node_key \<Rightarrow> nat \<Rightarrow> (entry_graph \<Rightarrow> (nat \<times> entry_graph) outcome) \<Rightarrow> bool" where
  "adds segments k w f \<longleftrightarrow> (\<forall>keys pending edges g.
     graph_inv segments keys pending edges g \<longrightarrow> length keys + length edges + w < UINT32_MAX \<longrightarrow>
     (\<exists>i g' ks. f g = Ok (i, g') \<and> graph_inv segments (keys @ ks) pending (i # edges) g' \<and> length ks < w \<and>
        i < length keys + length ks \<and> (keys @ ks) ! i = k \<and> extends g g'))"

lemma addsI:
  assumes "\<And>keys pending edges g. graph_inv segments keys pending edges g \<Longrightarrow>
     length keys + length edges + w < UINT32_MAX \<Longrightarrow>
     \<exists>i g' ks. f g = Ok (i, g') \<and> graph_inv segments (keys @ ks) pending (i # edges) g' \<and> length ks < w \<and>
        i < length keys + length ks \<and> (keys @ ks) ! i = k \<and> extends g g'"
  shows "adds segments k w f"
  using assms unfolding adds_def by blast

lemma addsD:
  assumes "adds segments k w f" and "graph_inv segments keys pending edges g"
    and "length keys + length edges + w < UINT32_MAX"
  obtains i g' ks where "f g = Ok (i, g')" "graph_inv segments (keys @ ks) pending (i # edges) g'"
    "length ks < w" "i < length keys + length ks" "(keys @ ks) ! i = k" "extends g g'"
  using assms unfolding adds_def by blast

lemma adds_weaken: "adds segments k w f \<Longrightarrow> w \<le> w' \<Longrightarrow> adds segments k w' f"
  by (rule addsI) (erule (1) addsD, simp, fastforce)

text \<open>
  A map that shares nodes of equal content: what is looked up, stored and filled in, and the key of
  such a node.
\<close>

locale shared_nodes =
  fixes find :: "entry_graph \<Rightarrow> 'a \<Rightarrow> nat option"
    and store :: "'a \<Rightarrow> nat \<Rightarrow> entry_graph \<Rightarrow> entry_graph"
    and fill :: "'a \<Rightarrow> entry_node \<Rightarrow> entry_node"
    and key :: "'a \<Rightarrow> node_key"
    and legal :: "'a \<Rightarrow> bool"
    and add :: "'a \<Rightarrow> nat \<Rightarrow> entry_graph \<Rightarrow> (nat \<times> entry_graph) outcome"
  assumes add_eq: "add x ci g = (case find g x of Some i \<Rightarrow> Ok (i, add_edge i g)
      | None \<Rightarrow> OTRY (CreateNode ci g) (\<lambda>(i, g). Ok (i, upd_node i (fill x) (store x i (add_edge i g)))))"
    and find_iff: "maps_ok segments keys g \<Longrightarrow> find g x = Some i \<longleftrightarrow> i < length keys \<and> keys ! i = key x"
    and store_frame: "eg_nodes (store x i g) = eg_nodes g" "eg_edge_count (store x i g) = eg_edge_count g"
      "eg_condition_node (store x i g) = eg_condition_node g" "eg_patch_mappings (store x i g) = eg_patch_mappings g"
      "eg_patch_encodings (store x i g) = eg_patch_encodings g"
    and store_maps: "maps_ok segments keys g \<Longrightarrow> find g x = None \<Longrightarrow>
      maps_ok segments (keys @ [key x]) (store x (length keys) g)"
    and store_cong: "maps_ok segments keys (store x i (g\<lparr>eg_nodes := ns, eg_edge_count := es\<rparr>)) =
      maps_ok segments keys (store x i g)"
    and fill_children: "nd_children (fill x n) = nd_children n"
    and fill_holds: "legal x \<Longrightarrow> consistent segments keys (fill x (EntryNode\<lparr>nd_condition_index := ci\<rparr>)) (key x)"
begin

lemma add_condition_node: "add x ci g = Ok (i, h) \<Longrightarrow> eg_condition_node h = eg_condition_node g"
  by (auto simp: add_eq CreateNode_def store_frame add_edge_def split: option.splits if_splits)

lemma add_adds: assumes "legal x" shows "adds segments (key x) 2 (add x ci)"
proof (rule addsI)
  fix keys pending edges g
  assume inv: "graph_inv segments keys pending edges g" and room: "length keys + length edges + 2 < UINT32_MAX"
  note d = graph_invD [OF inv]
  show "\<exists>i g' ks. add x ci g = Ok (i, g') \<and> graph_inv segments (keys @ ks) pending (i # edges) g' \<and> length ks < 2 \<and>
      i < length keys + length ks \<and> (keys @ ks) ! i = key x \<and> extends g g'"
  proof (cases "find g x")
    case (Some i)
    then have i: "i < length keys" "keys ! i = key x" using find_iff [OF d(8)] by blast+
    have "graph_inv segments keys pending (i # edges) (add_edge i g)"
      by (rule add_edge_inv [OF inv i(1)]) (use room in simp)
    with i show ?thesis
      by (intro exI [of _ i] exI [of _ "add_edge i g"] exI [of _ "[]"])
        (simp add: add_eq Some extends_add_edge extends_refl)
  next
    case None
    let ?n = "length keys" let ?node = "EntryNode\<lparr>nd_condition_index := ci\<rparr>"
    define h where "h = store x ?n (g\<lparr>eg_nodes := eg_nodes g @ [?node], eg_edge_count := eg_edge_count g @ [0]\<rparr>)"
    have run: "add x ci g = Ok (?n, upd_node ?n (fill x) (store x ?n (add_edge ?n
        (g\<lparr>eg_nodes := eg_nodes g @ [?node], eg_edge_count := eg_edge_count g @ [0]\<rparr>))))"
      using room d(1) by (simp add: add_eq None CreateNode_def)
    define g' where "g' = upd_node ?n (fill x) (store x ?n (add_edge ?n
        (g\<lparr>eg_nodes := eg_nodes g @ [?node], eg_edge_count := eg_edge_count g @ [0]\<rparr>)))"
    have app: "appended g ?node h" by (simp add: appended_def h_def store_frame)
    have maps: "maps_ok segments (keys @ [key x]) h"
      unfolding h_def store_cong by (rule store_maps [OF d(8) None])
    have "graph_inv segments (keys @ [key x]) (insert ?n pending) edges h"
      by (rule appended_inv [OF inv app _ maps]) (simp add: EntryNode_def)
    then have "graph_inv segments (keys @ [key x]) (insert ?n pending) (?n # edges) (add_edge ?n h)"
      by (rule add_edge_inv) (use room in simp_all)
    then have filled: "graph_inv segments (keys @ [key x]) (insert ?n pending) (?n # edges) (upd_node ?n (fill x) (add_edge ?n h))"
      by (rule upd_node_inv) (simp_all add: fill_children)
    have node: "eg_nodes (upd_node ?n (fill x) (add_edge ?n h)) ! ?n = fill x ?node"
      using d(1) by (simp add: upd_node_def add_edge_def h_def store_frame nth_append)
    have done': "graph_inv segments (keys @ [key x]) pending (?n # edges) (upd_node ?n (fill x) (add_edge ?n h))"
      by (rule graph_inv_done [OF filled]) (simp add: node fill_holds [OF assms])
    have same: "eg_nodes g' = eg_nodes (upd_node ?n (fill x) (add_edge ?n h))"
      "eg_edge_count g' = eg_edge_count (upd_node ?n (fill x) (add_edge ?n h))"
      by (simp_all add: g'_def h_def upd_node_def add_edge_def store_frame)
    have maps': "maps_ok segments (keys @ [key x]) g'"
    proof -
      have "maps_ok segments (keys @ [key x]) g' =
          maps_ok segments (keys @ [key x]) (store x ?n (add_edge ?n
            (g\<lparr>eg_nodes := eg_nodes g @ [?node], eg_edge_count := eg_edge_count g @ [0]\<rparr>)))"
        unfolding g'_def by (rule maps_ok_cong) simp_all
      also have "\<dots> = maps_ok segments (keys @ [key x]) (store x ?n g)"
        unfolding add_edge_def by (simp add: store_cong)
      finally show ?thesis using store_maps [OF d(8) None] by simp
    qed
    have inv': "graph_inv segments (keys @ [key x]) pending (?n # edges) g'"
      by (rule graph_invI) (rule graph_invD [OF done', folded same] maps' | assumption)+
    have "extends g g'"
      using d(1) by (auto simp: extends_def g'_def upd_node_def add_edge_def store_frame nth_append nth_list_update)
    with run inv' show ?thesis unfolding g'_def [symmetric]
      by (intro exI [of _ ?n] exI [of _ g'] exI [of _ "[key x]"]) simp
  qed
qed

end

end
