(* ===== verification/Entry_Create.thy ===== *)
theory Entry_Create
  imports Entry_Invariant
begin

text \<open>
  \<^verbatim>\<open>EntryGraph::Create\<close> keeps the invariant: the maps of shared nodes, the children of a node and the
  chains of long lists, and the recursion of \<^verbatim>\<open>AddMapping\<close> over the levels of a condition.
\<close>

section \<open>The maps of shared nodes\<close>

lemma maps_okD:
  assumes "maps_ok segments keys g"
  shows "eg_codepoints_node g S = Some i \<longleftrightarrow> i < length keys \<and> keys ! i = K_codepoints S"
    and "eg_features_node g fs = Some i \<longleftrightarrow> i < length keys \<and> keys ! i = K_features fs"
    and "eg_design_space_node g ds = Some i \<longleftrightarrow> i < length keys \<and> keys ! i = K_axes ds"
    and "eg_condition_node g c = Some i \<Longrightarrow> i < length keys \<and> keys ! i = condition_key segments c"
    and "i < length keys \<Longrightarrow> keys ! i = K_condition c \<Longrightarrow> eg_condition_node g c = Some i"
  using assms unfolding maps_ok_def by blast+

lemma maps_okI:
  assumes "\<And>S i. eg_codepoints_node g S = Some i \<longleftrightarrow> i < length keys \<and> keys ! i = K_codepoints S"
    and "\<And>fs i. eg_features_node g fs = Some i \<longleftrightarrow> i < length keys \<and> keys ! i = K_features fs"
    and "\<And>ds i. eg_design_space_node g ds = Some i \<longleftrightarrow> i < length keys \<and> keys ! i = K_axes ds"
    and "\<And>c i. eg_condition_node g c = Some i \<Longrightarrow> i < length keys \<and> keys ! i = condition_key segments c"
    and "\<And>c i. i < length keys \<Longrightarrow> keys ! i = K_condition c \<Longrightarrow> eg_condition_node g c = Some i"
  shows "maps_ok segments keys g"
  using assms unfolding maps_ok_def by blast

text \<open>A map from contents to the ids of the nodes with a key stays one when a key is appended.\<close>

lemma key_map_append:
  assumes "\<And>x i. m x = Some i \<longleftrightarrow> i < length keys \<and> keys ! i = K x"
  shows "(\<forall>y. k \<noteq> K y) \<Longrightarrow> m x = Some i \<longleftrightarrow> i < length (keys @ [k]) \<and> (keys @ [k]) ! i = K x"
    and "inj K \<Longrightarrow> m y = None \<Longrightarrow>
      (m(y \<mapsto> length keys)) x = Some i \<longleftrightarrow> i < length (keys @ [K y]) \<and> (keys @ [K y]) ! i = K x"
proof -
  show "(\<forall>y. k \<noteq> K y) \<Longrightarrow> m x = Some i \<longleftrightarrow> i < length (keys @ [k]) \<and> (keys @ [k]) ! i = K x"
    using assms [of x i] by (auto simp: nth_append less_Suc_eq)
  show "inj K \<Longrightarrow> m y = None \<Longrightarrow>
      (m(y \<mapsto> length keys)) x = Some i \<longleftrightarrow> i < length (keys @ [K y]) \<and> (keys @ [K y]) ! i = K x"
    using assms [of x i] assms [of y i] by (auto simp: nth_append less_Suc_eq dest: injD)
qed

lemma condition_map_append:
  assumes "maps_ok segments keys g" and "\<And>c. k \<noteq> K_condition c"
  shows "eg_condition_node g c = Some i \<Longrightarrow> i < length (keys @ [k]) \<and> (keys @ [k]) ! i = condition_key segments c"
    and "i < length (keys @ [k]) \<Longrightarrow> (keys @ [k]) ! i = K_condition c \<Longrightarrow> eg_condition_node g c = Some i"
  using maps_okD(4,5) [OF assms(1), where c = c and i = i] assms(2)
  by (auto simp: nth_append less_Suc_eq split: if_splits)

lemma injK: "inj K_codepoints" "inj K_features" "inj K_axes"
  by (simp_all add: inj_def)

lemma maps_ok_codepoints:
  assumes "maps_ok segments keys g" and "eg_codepoints_node g T = None"
  shows "maps_ok segments (keys @ [K_codepoints T]) (g\<lparr>eg_codepoints_node := (eg_codepoints_node g)(T \<mapsto> length keys)\<rparr>)"
proof (rule maps_okI, goal_cases)
  case (1 S i)
  show ?case using key_map_append(2) [where K = K_codepoints and m = "eg_codepoints_node g" and x = S and i = i, OF maps_okD(1) [OF assms(1)] injK(1) assms(2)] by (simp del: fun_upd_apply)
next
  case (2 fs i)
  show ?case using key_map_append(1) [where K = K_features and m = "eg_features_node g" and k = "K_codepoints T" and x = fs and i = i, OF maps_okD(2) [OF assms(1)]] by (simp del: fun_upd_apply)
next
  case (3 ds i)
  show ?case using key_map_append(1) [where K = K_axes and m = "eg_design_space_node g" and k = "K_codepoints T" and x = ds and i = i, OF maps_okD(3) [OF assms(1)]] by (simp del: fun_upd_apply)
next
  case (4 c i)
  show ?case using condition_map_append(1) [OF assms(1), of "K_codepoints T" c i] 4 by simp
next
  case (5 c i)
  show ?case using condition_map_append(2) [OF assms(1), of "K_codepoints T" i c] 5 by simp
qed

lemma maps_ok_features:
  assumes "maps_ok segments keys g" and "eg_features_node g gs = None"
  shows "maps_ok segments (keys @ [K_features gs]) (g\<lparr>eg_features_node := (eg_features_node g)(gs \<mapsto> length keys)\<rparr>)"
proof (rule maps_okI, goal_cases)
  case (1 S i)
  show ?case using key_map_append(1) [where K = K_codepoints and m = "eg_codepoints_node g" and k = "K_features gs" and x = S and i = i, OF maps_okD(1) [OF assms(1)]] by (simp del: fun_upd_apply)
next
  case (2 fs i)
  show ?case using key_map_append(2) [where K = K_features and m = "eg_features_node g" and x = fs and i = i, OF maps_okD(2) [OF assms(1)] injK(2) assms(2)] by (simp del: fun_upd_apply)
next
  case (3 ds i)
  show ?case using key_map_append(1) [where K = K_axes and m = "eg_design_space_node g" and k = "K_features gs" and x = ds and i = i, OF maps_okD(3) [OF assms(1)]] by (simp del: fun_upd_apply)
next
  case (4 c i)
  show ?case using condition_map_append(1) [OF assms(1), of "K_features gs" c i] 4 by simp
next
  case (5 c i)
  show ?case using condition_map_append(2) [OF assms(1), of "K_features gs" i c] 5 by simp
qed

lemma maps_ok_axes:
  assumes "maps_ok segments keys g" and "eg_design_space_node g es = None"
  shows "maps_ok segments (keys @ [K_axes es]) (g\<lparr>eg_design_space_node := (eg_design_space_node g)(es \<mapsto> length keys)\<rparr>)"
proof (rule maps_okI, goal_cases)
  case (1 S i)
  show ?case using key_map_append(1) [where K = K_codepoints and m = "eg_codepoints_node g" and k = "K_axes es" and x = S and i = i, OF maps_okD(1) [OF assms(1)]] by (simp del: fun_upd_apply)
next
  case (2 fs i)
  show ?case using key_map_append(1) [where K = K_features and m = "eg_features_node g" and k = "K_axes es" and x = fs and i = i, OF maps_okD(2) [OF assms(1)]] by (simp del: fun_upd_apply)
next
  case (3 ds i)
  show ?case using key_map_append(2) [where K = K_axes and m = "eg_design_space_node g" and x = ds and i = i, OF maps_okD(3) [OF assms(1)] injK(3) assms(2)] by (simp del: fun_upd_apply)
next
  case (4 c i)
  show ?case using condition_map_append(1) [OF assms(1), of "K_axes es" c i] 4 by simp
next
  case (5 c i)
  show ?case using condition_map_append(2) [OF assms(1), of "K_axes es" i c] 5 by simp
qed

interpretation codepoints: shared_nodes eg_codepoints_node
    "\<lambda>S i g. g\<lparr>eg_codepoints_node := (eg_codepoints_node g)(S \<mapsto> i)\<rparr>" "\<lambda>S n. n\<lparr>nd_codepoints := S\<rparr>"
    K_codepoints "\<lambda>S. members S \<noteq> {}" AddCodepointsOnly
proof unfold_locales
  show "AddCodepointsOnly x ci g = (case eg_codepoints_node g x of Some i \<Rightarrow> Ok (i, add_edge i g)
      | None \<Rightarrow> OTRY (CreateNode ci g) (\<lambda>(i, g). Ok (i, upd_node i (\<lambda>n. n\<lparr>nd_codepoints := x\<rparr>)
          ((add_edge i g)\<lparr>eg_codepoints_node := (eg_codepoints_node (add_edge i g))(x \<mapsto> i)\<rparr>))))" for x ci g
    by (simp add: AddCodepointsOnly_def Let_def split: option.split)
  show "members S \<noteq> {} \<Longrightarrow> consistent segments keys
      (EntryNode\<lparr>nd_condition_index := ci\<rparr>\<lparr>nd_codepoints := S\<rparr>) (K_codepoints S)" for S segments keys ci
    by (simp add: consistent_def node_holds_def fields_match_def EntryNode_def)
  show "maps_ok segments keys (g\<lparr>eg_nodes := ns, eg_edge_count := es,
      eg_codepoints_node := (eg_codepoints_node (g\<lparr>eg_nodes := ns, eg_edge_count := es\<rparr>))(S \<mapsto> i)\<rparr>) =
    maps_ok segments keys (g\<lparr>eg_codepoints_node := (eg_codepoints_node g)(S \<mapsto> i)\<rparr>)" for segments keys g ns es S i
    by (rule maps_ok_cong) simp_all
qed (simp_all add: maps_okD(1-3) maps_ok_codepoints)


interpretation features: shared_nodes eg_features_node
    "\<lambda>fs i g. g\<lparr>eg_features_node := (eg_features_node g)(fs \<mapsto> i)\<rparr>" "\<lambda>fs n. n\<lparr>nd_features := fs\<rparr>"
    K_features "\<lambda>fs. fs \<noteq> []" AddFeaturesOnly
proof unfold_locales
  show "AddFeaturesOnly x ci g = (case eg_features_node g x of Some i \<Rightarrow> Ok (i, add_edge i g)
      | None \<Rightarrow> OTRY (CreateNode ci g) (\<lambda>(i, g). Ok (i, upd_node i (\<lambda>n. n\<lparr>nd_features := x\<rparr>)
          ((add_edge i g)\<lparr>eg_features_node := (eg_features_node (add_edge i g))(x \<mapsto> i)\<rparr>))))" for x ci g
    by (simp add: AddFeaturesOnly_def Let_def split: option.split)
  show "fs \<noteq> [] \<Longrightarrow> consistent segments keys
      (EntryNode\<lparr>nd_condition_index := ci\<rparr>\<lparr>nd_features := fs\<rparr>) (K_features fs)" for fs segments keys ci
    by (simp add: consistent_def node_holds_def fields_match_def EntryNode_def)
  show "maps_ok segments keys (g\<lparr>eg_nodes := ns, eg_edge_count := es,
      eg_features_node := (eg_features_node (g\<lparr>eg_nodes := ns, eg_edge_count := es\<rparr>))(fs \<mapsto> i)\<rparr>) =
    maps_ok segments keys (g\<lparr>eg_features_node := (eg_features_node g)(fs \<mapsto> i)\<rparr>)" for segments keys g ns es fs i
    by (rule maps_ok_cong) simp_all
qed (simp_all add: maps_okD(1-3) maps_ok_features)

interpretation axes: shared_nodes eg_design_space_node
    "\<lambda>ds i g. g\<lparr>eg_design_space_node := (eg_design_space_node g)(ds \<mapsto> i)\<rparr>" "\<lambda>ds n. n\<lparr>nd_design_space := ds\<rparr>"
    K_axes "\<lambda>ds. ds \<noteq> []" AddDesignSpaceOnly
proof unfold_locales
  show "AddDesignSpaceOnly x ci g = (case eg_design_space_node g x of Some i \<Rightarrow> Ok (i, add_edge i g)
      | None \<Rightarrow> OTRY (CreateNode ci g) (\<lambda>(i, g). Ok (i, upd_node i (\<lambda>n. n\<lparr>nd_design_space := x\<rparr>)
          ((add_edge i g)\<lparr>eg_design_space_node := (eg_design_space_node (add_edge i g))(x \<mapsto> i)\<rparr>))))" for x ci g
    by (simp add: AddDesignSpaceOnly_def Let_def split: option.split)
  show "ds \<noteq> [] \<Longrightarrow> consistent segments keys
      (EntryNode\<lparr>nd_condition_index := ci\<rparr>\<lparr>nd_design_space := ds\<rparr>) (K_axes ds)" for ds segments keys ci
    by (simp add: consistent_def node_holds_def fields_match_def EntryNode_def)
  show "maps_ok segments keys (g\<lparr>eg_nodes := ns, eg_edge_count := es,
      eg_design_space_node := (eg_design_space_node (g\<lparr>eg_nodes := ns, eg_edge_count := es\<rparr>))(ds \<mapsto> i)\<rparr>) =
    maps_ok segments keys (g\<lparr>eg_design_space_node := (eg_design_space_node g)(ds \<mapsto> i)\<rparr>)" for segments keys g ns es ds i
    by (rule maps_ok_cong) simp_all
qed (simp_all add: maps_okD(1-3) maps_ok_axes)

section \<open>Children\<close>

lemma insert_children_children:
  "p < length (eg_nodes g) \<Longrightarrow> \<forall>c \<in> set ids. c < UINT32_MAX \<Longrightarrow>
    node_children (eg_nodes (insert_children p ids g)) q =
      (if q = p then node_children (eg_nodes g) p \<union> set ids else node_children (eg_nodes g) q)"
  by (auto simp: insert_children_def upd_node_def nth_list_update)

lemma parents_insert:
  assumes "p < length nodes" and "length nodes' = length nodes"
    and "\<And>q. q < length nodes \<Longrightarrow> node_children nodes' q = (if q = p then insert c (node_children nodes p) else node_children nodes q)"
  shows "parents nodes' x = (if x = c then insert p (parents nodes x) else parents nodes x)"
  using assms by (auto simp: parents_def split: if_splits)

lemma attach_inv:
  assumes inv: "graph_inv segments keys pending (c # edges) g" and p: "p \<in> pending" "p < length keys"
    and c: "c \<notin> node_children (eg_nodes g) p" "key_less (keys ! c) (keys ! p)"
    and room: "card (node_children (eg_nodes g) p) < 127" "length keys \<le> UINT32_MAX"
  shows "graph_inv segments keys pending edges (insert_children p [c] g)"
proof -
  note d = graph_invD [OF inv]
  let ?g = "insert_children p [c] g"
  have cn: "c < length keys" using d(3) by simp
  have children: "node_children (eg_nodes ?g) q = (if q = p then insert c (node_children (eg_nodes g) p)
      else node_children (eg_nodes g) q)" for q
    by (subst insert_children_children) (use p d(1) cn room in auto)
  have len: "length (eg_nodes ?g) = length (eg_nodes g)" by (simp add: insert_children_def)
  have pl: "p < length (eg_nodes g)" using p d(1) by simp
  have parents: "parents (eg_nodes ?g) x = (if x = c then insert p (parents (eg_nodes g) x) else parents (eg_nodes g) x)" for x
    by (rule parents_insert [OF pl len children])
  have pc: "p \<notin> parents (eg_nodes g) c" using c(1) by (simp add: parents_def)
  show ?thesis
  proof (rule graph_invI)
    show "length (eg_nodes ?g) = length keys" using d(1) len by simp
    show "length (eg_edge_count ?g) = length keys" using d(2) by (simp add: insert_children_def)
    show "set edges \<subseteq> {..<length keys}" using d(3) by simp
    show "y < length keys \<and> key_less (keys ! y) (keys ! q)" if "q < length keys" "y \<in> node_children (eg_nodes ?g) q" for q y
      using that d(4) [of q y] c(2) cn unfolding children by (auto split: if_splits)
    show "eg_edge_count ?g ! x = card (parents (eg_nodes ?g) x) + count_list edges x" if "x < length keys" for x
      using d(5) [OF that] pc unfolding parents by (cases "x = c") (simp_all add: insert_children_def)
    show "consistent segments keys (eg_nodes ?g ! i) (keys ! i)" if "i < length keys" "i \<notin> pending" for i
      using that d(6) [OF that] p(1) d(1) by (auto simp: insert_children_def nth_upd_node)
    show "card (node_children (eg_nodes ?g) i) \<le> 127" if "i < length keys" for i
      using d(7) [OF that] c(1) room(1) unfolding children by simp
    show "maps_ok segments keys ?g" using d(8) by (subst maps_ok_cong [of _ g]) (simp_all add: insert_children_def)
  qed
qed

lemma insert_children_Cons:
  assumes "p < length (eg_nodes g)"
  shows "insert_children p (c # cs) g = insert_children p cs (insert_children p [c] g)"
  using assms by (simp add: insert_children_def upd_node_def IntSet_insert_all_def)

lemma insert_children_Nil: "p < length (eg_nodes g) \<Longrightarrow> insert_children p [] g = g"
  by (simp add: insert_children_def upd_node_def IntSet_insert_all_def)

lemma attach_all_inv:
  assumes "graph_inv segments keys pending (ids @ edges) g" and "p \<in> pending" "p < length keys"
    and "distinct ids" "set ids \<inter> node_children (eg_nodes g) p = {}" "\<forall>c \<in> set ids. key_less (keys ! c) (keys ! p)"
    and "card (node_children (eg_nodes g) p) + length ids \<le> 127" "length keys \<le> UINT32_MAX"
  shows "graph_inv segments keys pending edges (insert_children p ids g)"
  using assms
proof (induction ids arbitrary: g)
  case Nil
  then show ?case using graph_invD(1) [OF Nil.prems(1)] by (simp add: insert_children_Nil)
next
  case (Cons c ids)
  note d = graph_invD [OF Cons.prems(1)]
  have pl: "p < length (eg_nodes g)" using Cons.prems(3) d(1) by simp
  have inv: "graph_inv segments keys pending (ids @ edges) (insert_children p [c] g)"
    by (rule attach_inv [OF Cons.prems(1) [unfolded append_Cons]]) (use Cons.prems in auto)
  have c: "c < UINT32_MAX" using d(3) Cons.prems(8) by auto
  have children: "node_children (eg_nodes (insert_children p [c] g)) p = insert c (node_children (eg_nodes g) p)"
    by (subst insert_children_children) (use pl c in auto)
  have "graph_inv segments keys pending edges (insert_children p ids (insert_children p [c] g))"
    by (rule Cons.IH [OF inv]) (use Cons.prems in \<open>auto simp: children\<close>)
  then show ?case using insert_children_Cons [OF pl, of c ids] by simp
qed

text \<open>All nodes but one keep their shape.\<close>

definition extends_but :: "nat \<Rightarrow> entry_graph \<Rightarrow> entry_graph \<Rightarrow> bool" where
  "extends_but p g g' \<longleftrightarrow> length (eg_nodes g) \<le> length (eg_nodes g') \<and>
     (\<forall>i < length (eg_nodes g). i \<noteq> p \<longrightarrow> node_shape (eg_nodes g' ! i) = node_shape (eg_nodes g ! i)) \<and>
     eg_condition_node g \<subseteq>\<^sub>m eg_condition_node g' \<and> eg_patch_mappings g' = eg_patch_mappings g \<and>
     eg_patch_encodings g' = eg_patch_encodings g"

lemma extends_but_of: "extends g h \<Longrightarrow> extends_but p g h"
  by (simp add: extends_def extends_but_def)

lemma extends_but_trans: "extends_but p g h \<Longrightarrow> extends_but p h k \<Longrightarrow> extends_but p g k"
  unfolding extends_but_def by (auto intro: map_le_trans)

lemma extends_but_new: "extends g h \<Longrightarrow> extends_but p h k \<Longrightarrow> length (eg_nodes g) \<le> p \<Longrightarrow> extends g k"
  unfolding extends_def extends_but_def by (auto intro: map_le_trans)

lemma insert_children_extends_but: "extends_but p g (insert_children p ids g)"
  by (auto simp: extends_but_def insert_children_def nth_upd_node)


section \<open>The creation of entries\<close>

text \<open>
  \<^verbatim>\<open>AddChildrenToNode\<close> and \<^verbatim>\<open>AddMapping\<close>: the node of a condition holds for a target just if the
  condition activates on the segments the target intersects.
\<close>

section \<open>Chains of children\<close>

definition mode_holds :: "child_mode \<Rightarrow> ('a \<Rightarrow> bool) \<Rightarrow> 'a set \<Rightarrow> bool" where
  "mode_holds mode holds A \<longleftrightarrow> (if mode = Mode_AND then \<forall>x \<in> A. holds x else \<exists>x \<in> A. holds x)"

lemma mode_holds_Un: "mode_holds mode holds (A \<union> B) \<longleftrightarrow>
    (if mode = Mode_AND then mode_holds mode holds A \<and> mode_holds mode holds B
     else mode_holds mode holds A \<or> mode_holds mode holds B)"
  by (auto simp: mode_holds_def)

definition plain_node :: "entry_node \<Rightarrow> child_mode \<Rightarrow> bool" where
  "plain_node n mode \<longleftrightarrow> members (nd_codepoints n) = {} \<and> nd_features n = [] \<and> nd_design_space n = [] \<and>
     nd_child_mode n = mode"

lemma node_holds_plain:
  "plain_node n mode \<Longrightarrow> node_holds holds target n \<longleftrightarrow>
    members (nd_children n) = {} \<or> mode_holds mode holds (members (nd_children n))"
  by (auto simp: plain_node_def node_holds_def fields_match_def mode_holds_def)

lemma key_holds_chain: "key_holds segments t (K_chain mode ks) \<longleftrightarrow> mode_holds mode (key_holds segments t) (set ks)"
  by (simp add: mode_holds_def)

definition mode_level :: "child_mode \<Rightarrow> nat" where
  "mode_level mode = (if mode = Mode_AND then 3 else 2)"

text \<open>A pending node that is to get the children \<open>ids\<close>, whose edges are counted.\<close>

definition awaits :: "segment_map \<Rightarrow> node_key list \<Rightarrow> nat \<Rightarrow> child_mode \<Rightarrow> nat list \<Rightarrow> entry_graph \<Rightarrow> bool" where
  "awaits segments keys p mode ids g \<longleftrightarrow> p < length keys \<and> distinct ids \<and>
     plain_node (eg_nodes g ! p) mode \<and> node_children (eg_nodes g) p = {} \<and>
     fst (key_rank (keys ! p)) = mode_level mode \<and> length ids \<le> snd (key_rank (keys ! p)) \<and>
     (\<forall>i \<in> set ids. fst (key_rank (keys ! i)) < mode_level mode) \<and>
     (ids = [] \<longrightarrow> mode = Mode_AND) \<and>
     (\<forall>target. key_holds segments target (keys ! p) \<longleftrightarrow>
        mode_holds mode (\<lambda>i. key_holds segments target (keys ! i)) (set ids))"

lemma key_less_level: "fst (key_rank a) < fst (key_rank b) \<Longrightarrow> key_less a b"
  by (cases "key_rank a"; cases "key_rank b") (simp add: key_less_def)

lemma AddChildrenToNode_inv:
  assumes "graph_inv segments keys pending (ids @ edges) g" and "p \<in> pending"
    and "awaits segments keys p mode ids g"
    and "length keys + length ids + length edges < UINT32_MAX"
  shows "\<exists>g' ks. AddChildrenToNode p mode ids g = Ok g' \<and> graph_inv segments (keys @ ks) (pending - {p}) edges g' \<and>
    length ks \<le> length ids \<and> extends_but p g g'"
  using assms
proof (induction p mode ids g arbitrary: keys pending rule: AddChildrenToNode.induct)
  case (1 p mode ids g)
  note inv = "1.prems"(1) and pend = "1.prems"(2) and room = "1.prems"(4)
  note d = graph_invD [OF inv]
  have aw: "p < length keys" "distinct ids" "plain_node (eg_nodes g ! p) mode" "node_children (eg_nodes g) p = {}"
    "fst (key_rank (keys ! p)) = mode_level mode" "length ids \<le> snd (key_rank (keys ! p))"
    "\<And>i. i \<in> set ids \<Longrightarrow> fst (key_rank (keys ! i)) < mode_level mode" "ids = [] \<Longrightarrow> mode = Mode_AND"
    "\<And>target. key_holds segments target (keys ! p) \<longleftrightarrow>
        mode_holds mode (\<lambda>i. key_holds segments target (keys ! i)) (set ids)"
    using "1.prems"(3) unfolding awaits_def by blast+
  have less: "key_less (keys ! c) (keys ! p)" if "c \<in> set ids" for c
    by (rule key_less_level) (use aw(5) aw(7) [OF that] in simp)
  have pl: "p < length (eg_nodes g)" using aw(1) d(1) by simp
  have bound: "\<forall>c \<in> set ids. c < UINT32_MAX" using d(3) room by auto
  show ?case
  proof (cases "127 < length ids")
    case False
    let ?g = "insert_children p ids g"
    have inv': "graph_inv segments keys pending edges ?g"
      by (rule attach_all_inv [OF inv pend aw(1,2)]) (use aw(4) less False room in auto)
    have kids: "node_children (eg_nodes ?g) p = set ids"
      using insert_children_children [OF pl bound, of p] aw(4) by simp
    have "plain_node (eg_nodes ?g ! p) mode"
      using aw(3) pl by (simp add: insert_children_def nth_upd_node plain_node_def)
    from node_holds_plain [OF this] kids aw(8,9) have cons: "consistent segments keys (eg_nodes ?g ! p) (keys ! p)"
      unfolding consistent_def by (auto simp: mode_holds_def)
    have "graph_inv segments keys (insert p (pending - {p})) edges ?g"
      using inv' pend by (simp add: insert_absorb)
    from graph_inv_done [OF this] cons have "graph_inv segments keys (pending - {p}) edges ?g" by blast
    then show ?thesis using False insert_children_extends_but
      by (intro exI [of _ ?g] exI [of _ "[]"]) (simp add: AddChildrenToNode.simps [of p])
  next
    case True
    define now where "now = take 126 ids"
    define later where "later = drop 126 ids"
    have ids: "ids = now @ later" "length now = 126" "later \<noteq> []" "length later < length ids"
      using True by (simp_all add: now_def later_def)
    let ?n = "length keys"
    define k where "k = K_chain mode (map ((!) keys) later)"
    define g1 where "g1 = insert_children p now g"
    let ?ci = "nd_condition_index (eg_nodes g1 ! p)"
    define g2 where "g2 = g1\<lparr>eg_nodes := eg_nodes g1 @ [EntryNode\<lparr>nd_condition_index := ?ci\<rparr>],
        eg_edge_count := eg_edge_count g1 @ [0]\<rparr>"
    define g3 where "g3 = upd_node ?n (\<lambda>n. n\<lparr>nd_child_mode := mode\<rparr>) g2"
    define g5 where "g5 = insert_children p [?n] (add_edge ?n g3)"
    have nowp: "distinct now" "set now \<subseteq> set ids" "set later \<subseteq> set ids" "distinct later"
      using aw(2) by (auto simp: ids(1))
    have inv1: "graph_inv segments keys pending (later @ edges) g1"
      unfolding g1_def by (rule attach_all_inv [OF _ pend aw(1)])
        (use inv ids aw(4) less nowp room in \<open>auto simp: ids(1)\<close>)
    note d1 = graph_invD [OF inv1]
    have kids1: "node_children (eg_nodes g1) p = set now"
      unfolding g1_def using insert_children_children [OF pl, of now p] bound nowp aw(4) by auto
    have maps: "maps_ok segments (keys @ [k]) g2"
    proof (rule maps_okI)
      note m = maps_okD [OF d1(8)]
      have same: "eg_codepoints_node g2 = eg_codepoints_node g1" "eg_features_node g2 = eg_features_node g1"
        "eg_design_space_node g2 = eg_design_space_node g1" "eg_condition_node g2 = eg_condition_node g1"
        by (simp_all add: g2_def)
      show "eg_codepoints_node g2 S = Some i \<longleftrightarrow> i < length (keys @ [k]) \<and> (keys @ [k]) ! i = K_codepoints S" for S i
        unfolding same by (rule key_map_append(1) [OF m(1)]) (simp add: k_def)
      show "eg_features_node g2 fs = Some i \<longleftrightarrow> i < length (keys @ [k]) \<and> (keys @ [k]) ! i = K_features fs" for fs i
        unfolding same by (rule key_map_append(1) [OF m(2)]) (simp add: k_def)
      show "eg_design_space_node g2 ds = Some i \<longleftrightarrow> i < length (keys @ [k]) \<and> (keys @ [k]) ! i = K_axes ds" for ds i
        unfolding same by (rule key_map_append(1) [OF m(3)]) (simp add: k_def)
      show "eg_condition_node g2 c = Some i \<Longrightarrow> i < length (keys @ [k]) \<and> (keys @ [k]) ! i = condition_key segments c" for c i
        unfolding same by (rule condition_map_append(1) [OF d1(8)]) (simp_all add: k_def)
      show "i < length (keys @ [k]) \<Longrightarrow> (keys @ [k]) ! i = K_condition c \<Longrightarrow> eg_condition_node g2 c = Some i" for c i
        unfolding same by (rule condition_map_append(2) [OF d1(8)]) (simp_all add: k_def)
    qed
    have inv2: "graph_inv segments (keys @ [k]) (insert ?n pending) (later @ edges) g2"
      by (rule appended_inv [OF inv1 _ _ maps, where n = "EntryNode\<lparr>nd_condition_index := ?ci\<rparr>"])
        (simp_all add: appended_def g2_def EntryNode_def)
    have inv3: "graph_inv segments (keys @ [k]) (insert ?n pending) (later @ edges) g3"
      unfolding g3_def by (rule upd_node_inv [OF inv2]) simp_all
    have inv4: "graph_inv segments (keys @ [k]) (insert ?n pending) (?n # later @ edges) (add_edge ?n g3)"
      by (rule add_edge_inv [OF inv3]) (use room ids in simp_all)
    have nodes4: "eg_nodes (add_edge ?n g3) = eg_nodes g1 @ [EntryNode\<lparr>nd_condition_index := ?ci, nd_child_mode := mode\<rparr>]"
      using d1(1) by (simp add: add_edge_def g3_def g2_def upd_node_def nth_append list_update_append)
    have kids4: "node_children (eg_nodes (add_edge ?n g3)) p = set now"
      using kids1 aw(1) d1(1) by (simp add: nodes4 nth_append)
    have nsub: "?n \<notin> set now" using d(3) nowp by auto
    have krank: "key_rank k = (mode_level mode, length later)" by (simp add: k_def mode_level_def)
    have "key_less k (keys ! p)"
      unfolding key_less_def krank using aw(5,6) ids(4) by (cases "key_rank (keys ! p)") simp
    then have inv5: "graph_inv segments (keys @ [k]) (insert ?n pending) (later @ edges) g5"
      unfolding g5_def by (intro attach_inv [OF inv4])
        (use pend aw(1) kids4 nsub ids(2) room nowp(1) in \<open>simp_all add: nth_append distinct_card\<close>)
    have pl4: "p < length (eg_nodes (add_edge ?n g3))" using aw(1) d1(1) by (simp add: nodes4)
    have kids5: "node_children (eg_nodes g5) p = insert ?n (set now)" "node_children (eg_nodes g5) ?n = {}"
      unfolding g5_def using insert_children_children [OF pl4, of "[?n]"] kids4 room aw(1) d1(1)
      by (auto simp: nodes4 nth_append EntryNode_def)
    have plain5: "plain_node (eg_nodes g5 ! p) mode" "plain_node (eg_nodes g5 ! ?n) mode"
      using aw(1,3) d(1) d1(1) pl by (simp_all add: g5_def insert_children_def nth_upd_node nodes4 nth_append g1_def
          plain_node_def EntryNode_def)
    have holds_k: "key_holds segments t k \<longleftrightarrow> mode_holds mode (\<lambda>i. key_holds segments t (keys ! i)) (set later)" for t
      by (simp add: k_def mode_holds_def)
    have now_keys: "mode_holds mode (\<lambda>i. key_holds segments t ((keys @ [k]) ! i)) (set now) =
        mode_holds mode (\<lambda>i. key_holds segments t (keys ! i)) (set now)" for t
      using d(3) nowp by (auto simp: mode_holds_def nth_append)
    have cons: "consistent segments (keys @ [k]) (eg_nodes g5 ! p) ((keys @ [k]) ! p)"
      unfolding consistent_def
    proof
      fix t
      have "node_holds (\<lambda>c. key_holds segments t ((keys @ [k]) ! c)) t (eg_nodes g5 ! p) \<longleftrightarrow>
          mode_holds mode (\<lambda>i. key_holds segments t ((keys @ [k]) ! i)) (set now \<union> {?n})"
        using node_holds_plain [OF plain5(1)] kids5(1) by simp
      also have "\<dots> \<longleftrightarrow> mode_holds mode (\<lambda>i. key_holds segments t (keys ! i)) (set now \<union> set later)"
        unfolding mode_holds_Un now_keys using holds_k [of t] by (simp add: mode_holds_def [of _ _ "{_}"] nth_append)
      also have "\<dots> \<longleftrightarrow> key_holds segments t (keys ! p)" using aw(9) [of t] by (simp add: ids(1))
      finally show "key_holds segments t ((keys @ [k]) ! p) =
          node_holds (\<lambda>c. key_holds segments t ((keys @ [k]) ! c)) t (eg_nodes g5 ! p)"
        using aw(1) by (simp add: nth_append)
    qed
    have "graph_inv segments (keys @ [k]) (insert p (insert ?n (pending - {p}))) (later @ edges) g5"
      by (rule graph_inv_pending [OF inv5]) auto
    from graph_inv_done [OF this] cons
    have inv6: "graph_inv segments (keys @ [k]) (insert ?n (pending - {p})) (later @ edges) g5" by blast
    have later_keys: "(keys @ [k]) ! i = keys ! i" if "i \<in> set later" for i
      using that d(3) nowp by (auto simp: nth_append)
    have "awaits segments (keys @ [k]) ?n mode later g5"
      unfolding awaits_def using nowp(3,4) plain5(2) kids5(2) krank ids(3) aw(7) later_keys holds_k
      by (auto simp: mode_holds_def)
    moreover have "length (keys @ [k]) + length later + length edges < UINT32_MAX" using room ids by simp
    moreover have run: "CreateNode ?ci g1 = Ok (?n, g2)"
      using room d1(1) by (simp add: CreateNode_def g2_def)
    ultimately obtain g' ks where g': "AddChildrenToNode ?n mode later g5 = Ok g'"
      "graph_inv segments ((keys @ [k]) @ ks) (insert ?n (pending - {p}) - {?n}) edges g'"
      "length ks \<le> length later" "extends_but ?n g5 g'"
      using "1.IH" [OF True g1_def [unfolded now_def] _ refl g3_def refl g5_def, of "keys @ [k]" "insert ?n (pending - {p})"] inv6
      unfolding later_def [symmetric] by blast
    have result: "AddChildrenToNode p mode ids g = Ok g'"
      using True run g'(1)
      by (simp add: AddChildrenToNode.simps [of p] Let_def now_def [symmetric] g1_def [symmetric] later_def [symmetric]
          g3_def [symmetric] g5_def [symmetric])
    have "extends g1 (add_edge ?n g3)"
      unfolding extends_def nodes4 by (simp add: nth_append add_edge_def g3_def g2_def)
    then have ext: "extends_but p g g5"
      unfolding g5_def using insert_children_extends_but [of p g now, folded g1_def] extends_but_of
      by (blast intro: extends_but_trans insert_children_extends_but)
    have "extends_but p g g'"
      using ext g'(4) aw(1) d(1) unfolding extends_but_def by (auto intro: map_le_trans)
    moreover have "graph_inv segments (keys @ (k # ks)) (pending - {p}) edges g'"
      using graph_inv_pending [OF g'(2), of "pending - {p}"] by auto
    ultimately show ?thesis using result g'(3) ids(4) by (intro exI [of _ g'] exI [of _ "k # ks"]) simp
  qed
qed

end
