(* ===== verification/Entry_Conditions.thy ===== *)
theory Entry_Conditions
  imports Entry_Create
begin

text \<open>
  \<^verbatim>\<open>AddMapping\<close> returns the node of its condition, for segments that have some content: single
  segments, disjunctions of segments, conjunctions of groups.
\<close>

section \<open>Keys of conditions\<close>

definition has_content :: "subset_definition \<Rightarrow> bool" where
  "has_content d \<longleftrightarrow> members (sd_codepoints d) \<noteq> {} \<or> sd_feature_tags d \<noteq> [] \<or> sd_design_space d \<noteq> []"

definition segment_ok :: "segment_map \<Rightarrow> nat \<Rightarrow> bool" where
  "segment_ok segments s \<longleftrightarrow> (\<exists>d. segments s = Some d \<and> has_content d)"

definition group_ok :: "segment_map \<Rightarrow> int_set \<Rightarrow> bool" where
  "group_ok segments S \<longleftrightarrow> members S \<noteq> {} \<and> (\<forall>s \<in> members S. segment_ok segments s)"

lemma one_kind_holds:
  "has_content d \<Longrightarrow> one_kind d = Some k \<Longrightarrow> key_holds segments t k \<longleftrightarrow> sd_intersects d t"
proof -
  have none: "\<not> design_spaces_intersect [] ds" for ds by (simp add: design_spaces_intersect_def)
  show "has_content d \<Longrightarrow> one_kind d = Some k \<Longrightarrow> key_holds segments t k \<longleftrightarrow> sd_intersects d t"
    by (auto simp: one_kind_def Let_def sd_intersects_def none split: if_splits)
qed

lemma to_vector_single: "s < UINT32_MAX \<Longrightarrow> to_vector (IntSet [s]) = [s]"
  by (simp add: to_vector_IntSet)

lemma single_group:
  assumes "IntSet_size S = 1" obtains s where "S = IntSet [s]" "s < UINT32_MAX" "members S = {s}"
proof -
  obtain s where s: "members S = {s}" using assms unfolding size_eq_card by (metis card_1_singletonE)
  then have "s < UINT32_MAX" using members_bound [of s S] by simp
  with s show thesis by (intro that [of s]) (auto intro: int_set_eqI)
qed

lemma unitary_cases:
  assumes "IsUnitary c"
  obtains s where "ac_conditions c = [IntSet [s]]" "s < UINT32_MAX" "members (IntSet [s]) = {s}"
    "unitary_segment segments c = segments s"
proof -
  obtain S where S: "ac_conditions c = [S]" "IntSet_size S = 1"
    using assms by (cases "ac_conditions c") (auto simp: IsUnitary_def)
  obtain s where s: "S = IntSet [s]" "s < UINT32_MAX" "members S = {s}" by (rule single_group [OF S(2)])
  have "IntSet_union_set IntSet_empty S = S" by (rule int_set_eqI) simp
  then have "to_vector (TriggeringSegments c) = [s]"
    using S(1) s(1,2) by (simp add: TriggeringSegments_def to_vector_single)
  then have "unitary_segment segments c = segments s" by (simp add: unitary_segment_def)
  with S(1) s show thesis using that by simp
qed

lemma condition_key_holds:
  assumes "\<forall>S \<in> set (ac_conditions c). group_ok segments S"
  shows "key_holds segments t (condition_key segments c) \<longleftrightarrow> AC_activates c (hit_segments segments t)"
proof (cases "\<exists>d k. IsUnitary c \<and> unitary_segment segments c = Some d \<and> one_kind d = Some k")
  case True
  then obtain d k where d: "IsUnitary c" "unitary_segment segments c = Some d" "one_kind d = Some k" by blast
  obtain s where s: "ac_conditions c = [IntSet [s]]" "members (IntSet [s]) = {s}" "unitary_segment segments c = segments s"
    by (rule unitary_cases [OF d(1)])
  have seg: "segments s = Some d" using d(2) s(3) by simp
  have "has_content d" using assms s(1,2) seg by (simp add: group_ok_def segment_ok_def del: members_IntSet)
  from one_kind_holds [OF this d(3)] have "key_holds segments t k \<longleftrightarrow> s \<in> hit_segments segments t"
    using seg by (simp add: hit_segments_def)
  moreover have "condition_key segments c = k" using d by (simp add: condition_key_def)
  moreover have "AC_activates c (hit_segments segments t) \<longleftrightarrow> s \<in> hit_segments segments t"
    using s(1,2) by (simp add: AC_activates_def del: members_IntSet)
  ultimately show ?thesis by simp
next
  case False
  then have "condition_key segments c = K_condition c"
    by (auto simp: condition_key_def bind_eq_Some_conv split: option.splits)
  then show ?thesis by simp
qed

lemma condition_key_rank: "fst (key_rank (condition_key segments c)) \<le>
    (if IsUnitary c then 1 else if IsPurelyDisjunctive c then 2 else 3)"
proof (cases "condition_key segments c = K_condition c")
  case False
  then obtain d where "IsUnitary c" "one_kind d = Some (condition_key segments c)"
    by (auto simp: condition_key_def bind_eq_Some_conv split: option.splits if_splits)
  moreover have "key_rank k = (0, 0)" if "one_kind d = Some k" for d k
    using that by (auto simp: one_kind_def Let_def split: if_splits)
  ultimately show ?thesis by simp
qed simp

section \<open>The map of conditions\<close>

lemma key_map_other:
  assumes "maps_ok segments keys g" and "k = K_condition n"
  shows "eg_codepoints_node g S = Some i \<longleftrightarrow> i < length (keys @ [k]) \<and> (keys @ [k]) ! i = K_codepoints S"
    and "eg_features_node g fs = Some i \<longleftrightarrow> i < length (keys @ [k]) \<and> (keys @ [k]) ! i = K_features fs"
    and "eg_design_space_node g ds = Some i \<longleftrightarrow> i < length (keys @ [k]) \<and> (keys @ [k]) ! i = K_axes ds"
  by (rule key_map_append(1) [OF maps_okD(1) [OF assms(1)]], simp add: assms(2))
    (rule key_map_append(1) [OF maps_okD(2) [OF assms(1)]], simp add: assms(2),
     rule key_map_append(1) [OF maps_okD(3) [OF assms(1)]], simp add: assms(2))

lemma maps_ok_new_condition:
  assumes m: "maps_ok segments keys g" and new: "eg_condition_node g n = None"
    and key: "condition_key segments n = K_condition n"
  shows "maps_ok segments (keys @ [K_condition n]) (set_condition_node n (length keys) g)"
proof (rule maps_okI, goal_cases)
  case (1 S i)
  show ?case using key_map_other(1) [OF m refl, of S i n] by (simp add: set_condition_node_def)
next
  case (2 fs i)
  show ?case using key_map_other(2) [OF m refl, of fs i n] by (simp add: set_condition_node_def)
next
  case (3 ds i)
  show ?case using key_map_other(3) [OF m refl, of ds i n] by (simp add: set_condition_node_def)
next
  case (4 c i)
  then show ?case using maps_okD(4) [OF m, where c = c and i = i] key
    by (auto simp: set_condition_node_def nth_append split: if_splits)
next
  case (5 c i)
  then show ?case using maps_okD(5) [OF m, where c = c and i = i] new
    by (auto simp: set_condition_node_def nth_append split: if_splits)
qed

lemma maps_ok_shared_condition:
  assumes m: "maps_ok segments keys g" and new: "eg_condition_node g n = None"
    and i: "i < length keys" "keys ! i = condition_key segments n"
  shows "maps_ok segments keys (set_condition_node n i g)"
proof (rule maps_okI, goal_cases)
  case (4 c j)
  then show ?case using maps_okD(4) [OF m, where c = c and i = j] i by (auto simp: set_condition_node_def split: if_splits)
next
  case (5 c j)
  then show ?case using maps_okD(5) [OF m, where c = c and i = j] new by (auto simp: set_condition_node_def)
qed (simp_all add: set_condition_node_def maps_okD(1-3) [OF m])

lemma set_condition_node_sel [simp]:
  "eg_nodes (set_condition_node n i g) = eg_nodes g" "eg_edge_count (set_condition_node n i g) = eg_edge_count g"
  "eg_patch_mappings (set_condition_node n i g) = eg_patch_mappings g"
  "eg_patch_encodings (set_condition_node n i g) = eg_patch_encodings g"
  by (simp_all add: set_condition_node_def)

lemma set_condition_node_inv:
  assumes "graph_inv segments keys pending edges g" and "maps_ok segments keys (set_condition_node n i g)"
  shows "graph_inv segments keys pending edges (set_condition_node n i g)"
  by (rule graph_invI; (unfold set_condition_node_sel)?) (rule graph_invD [OF assms(1)] assms(2) | assumption)+

lemma set_condition_node_extends:
  "extends g h \<Longrightarrow> eg_condition_node h n = None \<Longrightarrow> extends g (set_condition_node n i h)"
  by (auto simp: extends_def set_condition_node_def map_le_def dom_def)

section \<open>Single nodes\<close>

lemma AddMapping_existing:
  assumes inv: "graph_inv segments keys pending edges g" and room: "length keys + length edges + 1 < UINT32_MAX"
    and ex: "eg_condition_node g (Normalize c) = Some i"
  shows "\<exists>g'. AddMapping c segments ci r g = Ok (i, g') \<and> graph_inv segments keys pending (i # edges) g' \<and>
    i < length keys \<and> keys ! i = condition_key segments (Normalize c) \<and> extends g g'"
proof -
  note d = graph_invD [OF inv]
  have i: "i < length keys" "keys ! i = condition_key segments (Normalize c)" using maps_okD(4) [OF d(8) ex] by auto
  let ?h = "if r then upd_node i (\<lambda>n. n\<lparr>nd_condition_index := ci\<rparr>) g else g"
  have shape: "node_shape ((eg_nodes g ! i)\<lparr>nd_condition_index := ci\<rparr>) = node_shape (eg_nodes g ! i)"
    by (simp add: node_shape_def)
  have "graph_inv segments keys pending edges (upd_node i (\<lambda>n. n\<lparr>nd_condition_index := ci\<rparr>) g)"
    by (rule upd_node_inv [OF inv i(1)]) (use d(6) [OF i(1)] consistent_shape [OF shape] in auto)
  then have h: "graph_inv segments keys pending edges ?h" using inv by simp
  have "extends g ?h" using upd_node_extends [OF extends_refl, of i g] extends_refl shape by auto
  then have "extends g (add_edge i ?h)" by (rule extends_add_edge)
  moreover have "graph_inv segments keys pending (i # edges) (add_edge i ?h)"
    by (rule add_edge_inv [OF h i(1)]) (use room in simp)
  moreover have "AddMapping c segments ci r g = Ok (i, add_edge i ?h)"
    by (simp add: AddMapping.simps Let_def ex)
  ultimately show ?thesis using i by blast
qed

text \<open>The node that \<^verbatim>\<open>AddMapping\<close> creates for a condition, before it has children.\<close>

definition created :: "activation_condition \<Rightarrow> nat \<Rightarrow> nat \<Rightarrow> entry_graph \<Rightarrow> entry_graph" where
  "created n ci p g = set_condition_node n p (add_edge p (g\<lparr>
     eg_nodes := eg_nodes g @ [EntryNode\<lparr>nd_condition_index := ci\<rparr>], eg_edge_count := eg_edge_count g @ [0]\<rparr>))"

lemma created_inv:
  assumes inv: "graph_inv segments keys pending edges g" and room: "length keys + length edges + 2 < UINT32_MAX"
    and new: "eg_condition_node g n = None" and key: "condition_key segments n = K_condition n"
  shows "graph_inv segments (keys @ [K_condition n]) (insert (length keys) pending) (length keys # edges)
      (created n ci (length keys) g)"
    and "eg_nodes (created n ci (length keys) g) ! length keys = EntryNode\<lparr>nd_condition_index := ci\<rparr>"
    and "extends g (created n ci (length keys) g)"
    and "length (eg_nodes (created n ci (length keys) g)) = Suc (length keys)"
proof -
  note d = graph_invD [OF inv]
  let ?p = "length keys"
  define h where "h = set_condition_node n ?p (g\<lparr>eg_nodes := eg_nodes g @ [EntryNode\<lparr>nd_condition_index := ci\<rparr>],
      eg_edge_count := eg_edge_count g @ [0]\<rparr>)"
  have same: "created n ci ?p g = add_edge ?p h"
    by (simp add: created_def h_def set_condition_node_def add_edge_def)
  have "maps_ok segments (keys @ [K_condition n]) (set_condition_node n ?p g)"
    by (rule maps_ok_new_condition [OF d(8) new key])
  then have maps: "maps_ok segments (keys @ [K_condition n]) h"
    by (subst maps_ok_cong [of _ "set_condition_node n ?p g"]) (simp_all add: h_def set_condition_node_def)
  have "graph_inv segments (keys @ [K_condition n]) (insert ?p pending) edges h"
    by (rule appended_inv [OF inv _ _ maps, where n = "EntryNode\<lparr>nd_condition_index := ci\<rparr>"])
      (simp_all add: appended_def h_def EntryNode_def)
  then show "graph_inv segments (keys @ [K_condition n]) (insert ?p pending) (?p # edges) (created n ci ?p g)"
    unfolding same by (rule add_edge_inv) (use room in simp_all)
  show "eg_nodes (created n ci ?p g) ! ?p = EntryNode\<lparr>nd_condition_index := ci\<rparr>"
    "length (eg_nodes (created n ci ?p g)) = Suc ?p"
    using d(1) by (simp_all add: created_def add_edge_def nth_append)
  show "extends g (created n ci ?p g)"
    using new by (auto simp: created_def add_edge_def extends_def set_condition_node_def nth_append map_le_def dom_def)
qed

lemma CreateNode_created:
  assumes "length (eg_nodes g) = p" and "p < UINT32_MAX"
  shows "OTRY (CreateNode ci g) (\<lambda>(p, g). f p (set_condition_node n p (add_edge p g))) = f p (created n ci p g)"
  using assms by (simp add: CreateNode_def created_def)

text \<open>A segment of one kind.\<close>

lemma AddUnitary_one_kind:
  assumes "has_content d"
  shows "case one_kind d of None \<Rightarrow> AddUnitary d ci g = None
    | Some k \<Rightarrow> \<exists>f. AddUnitary d ci g = Some (f g) \<and> adds segments k 2 f \<and>
        (\<forall>i h. f g = Ok (i, h) \<longrightarrow> eg_condition_node h = eg_condition_node g)"
proof (cases "one_kind d")
  case None
  then show ?thesis using assms by (auto simp: has_content_def one_kind_def AddUnitary_def Let_def split: if_splits)
next
  case (Some k)
  consider (cps) "k = K_codepoints (sd_codepoints d)" "members (sd_codepoints d) \<noteq> {}" "sd_feature_tags d = []" "sd_design_space d = []"
    | (feats) "k = K_features (sd_feature_tags d)" "members (sd_codepoints d) = {}" "sd_feature_tags d \<noteq> []" "sd_design_space d = []"
    | (axs) "k = K_axes (sd_design_space d)" "members (sd_codepoints d) = {}" "sd_feature_tags d = []" "sd_design_space d \<noteq> []"
    using Some by (auto simp: one_kind_def Let_def split: if_splits)
  then have "\<exists>f. AddUnitary d ci g = Some (f g) \<and> adds segments k 2 f \<and>
      (\<forall>i h. f g = Ok (i, h) \<longrightarrow> eg_condition_node h = eg_condition_node g)"
  proof cases
    case cps
    then have "AddUnitary d ci g = Some (AddCodepointsOnly (sd_codepoints d) ci g)" by (simp add: AddUnitary_def)
    with codepoints.add_adds [OF cps(2)] codepoints.add_condition_node cps(1) show ?thesis by blast
  next
    case feats
    then have "AddUnitary d ci g = Some (AddFeaturesOnly (sd_feature_tags d) ci g)" by (simp add: AddUnitary_def)
    with features.add_adds [OF feats(3)] features.add_condition_node feats(1) show ?thesis by blast
  next
    case axs
    then have "AddUnitary d ci g = Some (AddDesignSpaceOnly (sd_design_space d) ci g)" by (simp add: AddUnitary_def)
    with axes.add_adds [OF axs(4)] axes.add_condition_node axs(1) show ?thesis by blast
  qed
  with Some show ?thesis by simp
qed


lemma condition_key_one_kind:
  "IsUnitary n \<Longrightarrow> unitary_segment segments n = Some d \<Longrightarrow>
    condition_key segments n = (case one_kind d of None \<Rightarrow> K_condition n | Some k \<Rightarrow> k)"
  by (simp add: condition_key_def)

lemma AddMapping_one_kind:
  assumes n: "n = Normalize c" "IsUnitary n" and d: "unitary_segment segments n = Some d" "has_content d"
    and k: "one_kind d = Some k"
  shows "adds segments k 2 (AddMapping c segments ci r)"
proof (rule addsI)
  fix keys pending edges g
  assume inv: "graph_inv segments keys pending edges g" and room: "length keys + length edges + 2 < UINT32_MAX"
  have key: "condition_key segments n = k" using condition_key_one_kind [OF n(2) d(1)] k by simp
  show "\<exists>i g' ks. AddMapping c segments ci r g = Ok (i, g') \<and>
      graph_inv segments (keys @ ks) pending (i # edges) g' \<and> length ks < 2 \<and>
      i < length keys + length ks \<and> (keys @ ks) ! i = k \<and> extends g g'"
  proof (cases "eg_condition_node g n")
    case (Some i)
    with AddMapping_existing [OF inv, of c i ci r] room n key show ?thesis
      by (intro exI [of _ i]) (force intro: exI [of _ "[]"])
  next
    case None
    obtain f where f: "AddUnitary d ci g = Some (f g)" "adds segments k 2 f"
      "\<And>i h. f g = Ok (i, h) \<Longrightarrow> eg_condition_node h = eg_condition_node g"
      using AddUnitary_one_kind [OF d(2), of ci g segments] k by auto
    obtain i h ks where h: "f g = Ok (i, h)" "graph_inv segments (keys @ ks) pending (i # edges) h" "length ks < 2"
      "i < length keys + length ks" "(keys @ ks) ! i = k" "extends g h"
      by (rule addsD [OF f(2) inv room])
    have new: "eg_condition_node h n = None" using f(3) [OF h(1)] None by simp
    have "maps_ok segments (keys @ ks) (set_condition_node n i h)"
      by (rule maps_ok_shared_condition [OF graph_invD(8) [OF h(2)] new]) (use h(4,5) key in simp_all)
    from set_condition_node_inv [OF h(2) this]
    have "graph_inv segments (keys @ ks) pending (i # edges) (set_condition_node n i h)" .
    moreover have "AddMapping c segments ci r g = Ok (i, set_condition_node n i h)"
      using None n d(1) f(1) h(1) by (simp add: AddMapping.simps Let_def)
    ultimately show ?thesis using h set_condition_node_extends [OF h(6) new] by blast
  qed
qed

section \<open>A segment of several kinds\<close>

definition attach_part :: "nat \<Rightarrow> bool \<Rightarrow> (entry_graph \<Rightarrow> (nat \<times> entry_graph) outcome) \<Rightarrow> entry_graph \<Rightarrow> entry_graph outcome" where
  "attach_part p needed f g =
     (if needed then OTRY (f g) (\<lambda>(i, g). Ok (insert_children p [i] g)) else Ok g)"

lemma AddSegmentParts_eq:
  "AddSegmentParts p d ci g =
    OTRY (attach_part p (members (sd_codepoints d) \<noteq> {}) (AddCodepointsOnly (sd_codepoints d) ci) g) (\<lambda>g.
    OTRY (attach_part p (sd_feature_tags d \<noteq> []) (AddFeaturesOnly (sd_feature_tags d) ci) g) (\<lambda>g.
    attach_part p (sd_design_space d \<noteq> []) (AddDesignSpaceOnly (sd_design_space d) ci) g))"
  by (simp add: AddSegmentParts_def attach_part_def)

text \<open>A pending node with children of the keys \<open>A\<close> so far.\<close>

definition gathers :: "segment_map \<Rightarrow> node_key list \<Rightarrow> nat set \<Rightarrow> nat list \<Rightarrow> nat \<Rightarrow> nat \<Rightarrow> node_key set \<Rightarrow> entry_graph \<Rightarrow> bool" where
  "gathers segments keys pending edges p m A g \<longleftrightarrow> graph_inv segments keys pending edges g \<and> p \<in> pending \<and>
     p < length keys \<and> plain_node (eg_nodes g ! p) Mode_NONE \<and> (!) keys ` node_children (eg_nodes g) p = A \<and>
     card (node_children (eg_nodes g) p) \<le> m"

lemma attach_part_inv:
  assumes g: "gathers segments keys pending edges p m A g"
    and room: "length keys + length edges + 2 < UINT32_MAX" "m < 127"
    and part: "needed \<Longrightarrow> adds segments k 2 f" "needed \<Longrightarrow> k \<notin> A" "needed \<Longrightarrow> key_less k (keys ! p)"
  shows "\<exists>g' ks. attach_part p needed f g = Ok g' \<and> length ks \<le> 1 \<and>
    gathers segments (keys @ ks) pending edges p (Suc m) (if needed then insert k A else A) g' \<and> extends_but p g g'"
proof (cases needed)
  case False
  then show ?thesis using g extends_but_of [OF extends_refl]
    by (intro exI [of _ g] exI [of _ "[]"]) (simp add: attach_part_def gathers_def)
next
  case True
  have inv: "graph_inv segments keys pending edges g" and p: "p \<in> pending" "p < length keys"
    and plain: "plain_node (eg_nodes g ! p) Mode_NONE" and A: "(!) keys ` node_children (eg_nodes g) p = A"
    and card: "card (node_children (eg_nodes g) p) \<le> m" using g unfolding gathers_def by blast+
  note d = graph_invD [OF inv]
  obtain i h ks where h: "f g = Ok (i, h)" "graph_inv segments (keys @ ks) pending (i # edges) h" "length ks < 2"
    "i < length keys + length ks" "(keys @ ks) ! i = k" "extends g h"
    by (rule addsD [OF part(1) [OF True] inv room(1)])
  note e = graph_invD [OF h(2)]
  have pg: "p < length (eg_nodes g)" using p d(1) by simp
  have shape: "node_shape (eg_nodes h ! p) = node_shape (eg_nodes g ! p)"
    using h(6) pg unfolding extends_def by blast
  then have children: "node_children (eg_nodes h) p = node_children (eg_nodes g) p" by (simp add: node_shape_eq)
  have keys: "(!) (keys @ ks) ` node_children (eg_nodes g) p = A"
  proof -
    have "(!) (keys @ ks) ` node_children (eg_nodes g) p = (!) keys ` node_children (eg_nodes g) p"
      using d(4) [OF p(2)] by (intro image_cong) (simp_all add: nth_append)
    with A show ?thesis by simp
  qed
  have fresh: "i \<notin> node_children (eg_nodes g) p"
  proof
    assume "i \<in> node_children (eg_nodes g) p"
    then have "(keys @ ks) ! i \<in> A" using keys by blast
    with h(5) part(2) [OF True] show False by simp
  qed
  let ?g = "insert_children p [i] h"
  have inv': "graph_inv segments (keys @ ks) pending edges ?g"
    by (rule attach_inv [OF h(2) p(1)])
      (use p fresh children h(3,5) part(3) [OF True] card room in \<open>simp_all add: nth_append\<close>)
  have ph: "p < length (eg_nodes h)" using p e(1) by simp
  have "i < UINT32_MAX" using h(3,4) room by simp
  then have kids: "node_children (eg_nodes ?g) p = insert i (node_children (eg_nodes g) p)"
    using insert_children_children [OF ph, of "[i]" p] children by auto
  have "plain_node (eg_nodes ?g ! p) Mode_NONE"
    using plain shape ph by (simp add: insert_children_def nth_upd_node plain_node_def node_shape_eq)
  moreover have "(!) (keys @ ks) ` node_children (eg_nodes ?g) p = insert k A" using kids keys h(5) by simp
  moreover have "card (node_children (eg_nodes ?g) p) \<le> Suc m" using kids card fresh by simp
  ultimately have "gathers segments (keys @ ks) pending edges p (Suc m) (insert k A) ?g"
    using inv' p by (simp add: gathers_def)
  moreover have "extends_but p g ?g"
    by (rule extends_but_trans [OF extends_but_of [OF h(6)] insert_children_extends_but])
  ultimately show ?thesis using True h(1,3)
    by (intro exI [of _ ?g] exI [of _ ks]) (simp add: attach_part_def)
qed

definition part_keys :: "subset_definition \<Rightarrow> node_key set" where
  "part_keys d = (if members (sd_codepoints d) \<noteq> {} then {K_codepoints (sd_codepoints d)} else {}) \<union>
     (if sd_feature_tags d \<noteq> [] then {K_features (sd_feature_tags d)} else {}) \<union>
     (if sd_design_space d \<noteq> [] then {K_axes (sd_design_space d)} else {})"

lemma part_keys_hold: "(\<exists>k \<in> part_keys d. key_holds segments t k) \<longleftrightarrow> sd_intersects d t"
proof -
  have none: "\<not> design_spaces_intersect [] ds" for ds by (simp add: design_spaces_intersect_def)
  show ?thesis by (auto simp: part_keys_def sd_intersects_def none)
qed

lemma AddSegmentParts_inv:
  assumes g: "gathers segments keys pending edges p 0 {} g"
    and room: "length keys + length edges + 4 < UINT32_MAX" and rank: "0 < fst (key_rank (keys ! p))"
  shows "\<exists>g' ks. AddSegmentParts p d ci g = Ok g' \<and> length ks \<le> 3 \<and>
    gathers segments (keys @ ks) pending edges p 3 (part_keys d) g' \<and> extends_but p g g'"
proof -
  have p: "p < length keys" using g by (simp add: gathers_def)
  have less: "fst (key_rank k) = 0 \<Longrightarrow> key_less k ((keys @ ks) ! p)" for k ks
    by (rule key_less_level) (use rank p in \<open>simp add: nth_append\<close>)
  let ?S = "sd_codepoints d" let ?fs = "sd_feature_tags d" let ?ds = "sd_design_space d"
  define A1 where "A1 = (if members ?S \<noteq> {} then insert (K_codepoints ?S) {} else {})"
  define A2 where "A2 = (if ?fs \<noteq> [] then insert (K_features ?fs) A1 else A1)"
  have A: "K_features ?fs \<notin> A1" "K_axes ?ds \<notin> A2" "(if ?ds \<noteq> [] then insert (K_axes ?ds) A2 else A2) = part_keys d"
    by (auto simp: A1_def A2_def part_keys_def)
  have "\<exists>g1 k1. attach_part p (members ?S \<noteq> {}) (AddCodepointsOnly ?S ci) g = Ok g1 \<and> length k1 \<le> 1 \<and>
      gathers segments (keys @ k1) pending edges p (Suc 0) A1 g1 \<and> extends_but p g g1"
    unfolding A1_def by (rule attach_part_inv [OF g])
      (use codepoints.add_adds [of ?S segments ci] less [of "K_codepoints ?S" "[]"] room in simp_all)
  then obtain g1 k1 where g1: "attach_part p (members ?S \<noteq> {}) (AddCodepointsOnly ?S ci) g = Ok g1" "length k1 \<le> 1"
    "gathers segments (keys @ k1) pending edges p (Suc 0) A1 g1" "extends_but p g g1" by blast
  have "\<exists>g2 k2. attach_part p (?fs \<noteq> []) (AddFeaturesOnly ?fs ci) g1 = Ok g2 \<and> length k2 \<le> 1 \<and>
      gathers segments ((keys @ k1) @ k2) pending edges p (Suc (Suc 0)) A2 g2 \<and> extends_but p g1 g2"
    unfolding A2_def by (rule attach_part_inv [OF g1(3)])
      (use features.add_adds [of ?fs segments ci] less [of "K_features ?fs" k1] room g1(2) A(1) in simp_all)
  then obtain g2 k2 where g2: "attach_part p (?fs \<noteq> []) (AddFeaturesOnly ?fs ci) g1 = Ok g2" "length k2 \<le> 1"
    "gathers segments ((keys @ k1) @ k2) pending edges p (Suc (Suc 0)) A2 g2" "extends_but p g1 g2" by blast
  have "\<exists>g3 k3. attach_part p (?ds \<noteq> []) (AddDesignSpaceOnly ?ds ci) g2 = Ok g3 \<and> length k3 \<le> 1 \<and>
      gathers segments (((keys @ k1) @ k2) @ k3) pending edges p (Suc (Suc (Suc 0))) (part_keys d) g3 \<and> extends_but p g2 g3"
    unfolding A(3) [symmetric] by (rule attach_part_inv [OF g2(3)])
      (use axes.add_adds [of ?ds segments ci] less [of "K_axes ?ds" "k1 @ k2"] room g1(2) g2(2) A(2) in simp_all)
  then obtain g3 k3 where g3: "attach_part p (?ds \<noteq> []) (AddDesignSpaceOnly ?ds ci) g2 = Ok g3" "length k3 \<le> 1"
    "gathers segments (((keys @ k1) @ k2) @ k3) pending edges p 3 (part_keys d) g3" "extends_but p g2 g3"
    unfolding numeral_3_eq_3 by blast
  have "AddSegmentParts p d ci g = Ok g3" using g1(1) g2(1) g3(1) by (simp add: AddSegmentParts_eq)
  moreover have "extends_but p g g3" using extends_but_trans g1(4) g2(4) g3(4) by blast
  ultimately show ?thesis using g1(2) g2(2) g3(2,3)
    by (intro exI [of _ g3] exI [of _ "k1 @ k2 @ k3"]) simp
qed

end
