(* ===== verification/Entry_Recursion.thy ===== *)
theory Entry_Recursion
  imports Entry_Conditions
begin

text \<open>
  The recursion of \<^verbatim>\<open>AddMapping\<close>: a segment of several kinds, the segments of a group, the groups of
  a conjunction. The last lemma says what \<^verbatim>\<open>AddMapping\<close> does for any condition on usable segments.
\<close>

lemma AddMapping_several:
  assumes n: "n = Normalize c" "IsUnitary n" and d: "unitary_segment segments n = Some d"
    and ok: "\<forall>S \<in> set (ac_conditions n). group_ok segments S" and k: "one_kind d = None"
  shows "adds segments (K_condition n) 6 (AddMapping c segments ci r)"
proof (rule addsI)
  fix keys pending edges g
  assume inv: "graph_inv segments keys pending edges g" and room: "length keys + length edges + 6 < UINT32_MAX"
  have key: "condition_key segments n = K_condition n" using condition_key_one_kind [OF n(2) d] k by simp
  have content: "has_content d"
  proof -
    obtain s where s: "ac_conditions n = [IntSet [s]]" "members (IntSet [s]) = {s}" "unitary_segment segments n = segments s"
      by (rule unitary_cases [OF n(2)])
    moreover have "segments s = Some d" using s(3) d by simp
    ultimately show ?thesis using ok by (auto simp: group_ok_def segment_ok_def simp del: members_IntSet)
  qed
  show "\<exists>i g' ks. AddMapping c segments ci r g = Ok (i, g') \<and>
      graph_inv segments (keys @ ks) pending (i # edges) g' \<and> length ks < 6 \<and>
      i < length keys + length ks \<and> (keys @ ks) ! i = K_condition n \<and> extends g g'"
  proof (cases "eg_condition_node g n")
    case (Some i)
    with AddMapping_existing [OF inv, of c i ci r] room n key show ?thesis
      by (intro exI [of _ i]) (force intro: exI [of _ "[]"])
  next
    case None
    note dg = graph_invD [OF inv]
    let ?p = "length keys"
    have room2: "length keys + length edges + 2 < UINT32_MAX" using room by simp
    note cr = created_inv [OF inv room2 None key, of ci]
    have unit: "AddUnitary d ci g = None" using AddUnitary_one_kind [OF content, of ci g segments] k by simp
    have "gathers segments (keys @ [K_condition n]) (insert ?p pending) (?p # edges) ?p 0 {} (created n ci ?p g)"
      unfolding gathers_def using cr(1,2) by (simp add: plain_node_def EntryNode_def)
    from AddSegmentParts_inv [OF this, of d ci] n(2) room obtain h ks where
      h: "AddSegmentParts ?p d ci (created n ci ?p g) = Ok h" "length ks \<le> 3"
        "gathers segments ((keys @ [K_condition n]) @ ks) (insert ?p pending) (?p # edges) ?p 3 (part_keys d) h"
        "extends_but ?p (created n ci ?p g) h"
      by (auto simp: nth_append)
    let ?keys = "(keys @ [K_condition n]) @ ks"
    let ?g = "set_mode ?p Mode_OR h"
    have hi: "graph_inv segments ?keys (insert ?p pending) (?p # edges) h"
      and plain: "plain_node (eg_nodes h ! ?p) Mode_NONE"
      and parts: "(!) ?keys ` node_children (eg_nodes h) ?p = part_keys d"
      using h(3) by (simp_all add: gathers_def)
    have len: "?p < length (eg_nodes h)" using graph_invD(1) [OF hi] by simp
    have inv': "graph_inv segments ?keys (insert ?p pending) (?p # edges) ?g"
      unfolding set_mode_def by (rule upd_node_inv [OF hi]) simp_all
    have node: "plain_node (eg_nodes ?g ! ?p) Mode_OR" "node_children (eg_nodes ?g) ?p = node_children (eg_nodes h) ?p"
      using plain len by (simp_all add: set_mode_def nth_upd_node plain_node_def)
    have "part_keys d \<noteq> {}" using content by (auto simp: part_keys_def has_content_def)
    then have ne: "node_children (eg_nodes h) ?p \<noteq> {}" using parts by auto
    have "consistent segments ?keys (eg_nodes ?g ! ?p) (K_condition n)"
      unfolding consistent_def
    proof
      fix t
      have "node_holds (\<lambda>c. key_holds segments t (?keys ! c)) t (eg_nodes ?g ! ?p) \<longleftrightarrow>
          (\<exists>c \<in> node_children (eg_nodes h) ?p. key_holds segments t (?keys ! c))"
        using node_holds_plain [OF node(1)] node(2) ne by (simp add: mode_holds_def)
      also have "\<dots> \<longleftrightarrow> (\<exists>k \<in> part_keys d. key_holds segments t k)" unfolding parts [symmetric] by blast
      also have "\<dots> \<longleftrightarrow> sd_intersects d t" by (rule part_keys_hold)
      also have "\<dots> \<longleftrightarrow> AC_activates n (hit_segments segments t)"
      proof -
        obtain s where s: "ac_conditions n = [IntSet [s]]" "members (IntSet [s]) = {s}"
          "unitary_segment segments n = segments s"
          by (rule unitary_cases [OF n(2)])
        moreover have "segments s = Some d" using s(3) d by simp
        ultimately show ?thesis by (simp add: AC_activates_def hit_segments_def del: members_IntSet)
      qed
      finally show "key_holds segments t (K_condition n) =
          node_holds (\<lambda>c. key_holds segments t (?keys ! c)) t (eg_nodes ?g ! ?p)" by simp
    qed
    then have "graph_inv segments ?keys pending (?p # edges) ?g"
      by (intro graph_inv_done [OF inv']) (simp add: nth_append)
    moreover have "AddMapping c segments ci r g = Ok (?p, ?g)"
    proof -
      have "AddMapping c segments ci r g = OTRY (CreateNode ci g) (\<lambda>(p, g).
          (\<lambda>p g. OTRY (AddSegmentParts p d ci g) (\<lambda>g. Ok (p, set_mode p Mode_OR g)))
            p (set_condition_node n p (add_edge p g)))"
        using None n d unit by (simp add: AddMapping.simps Let_def)
      also have "\<dots> = OTRY (AddSegmentParts ?p d ci (created n ci ?p g)) (\<lambda>g. Ok (?p, set_mode ?p Mode_OR g))"
        by (rule CreateNode_created) (use dg(1) room in simp_all)
      finally show ?thesis using h(1) by simp
    qed
    moreover have "extends g ?g"
    proof -
      have "extends_but ?p h ?g" by (auto simp: extends_but_def set_mode_def nth_upd_node)
      then show ?thesis using extends_but_new [OF cr(3) extends_but_trans [OF h(4)]] dg(1) by simp
    qed
    ultimately show ?thesis using h(2)
      by (intro exI [of _ ?p] exI [of _ ?g] exI [of _ "K_condition n # ks"]) (simp add: nth_append)
  qed
qed

lemma AddMapping_unitary:
  assumes n: "n = Normalize c" "IsUnitary n" and ok: "\<forall>S \<in> set (ac_conditions n). group_ok segments S"
  shows "adds segments (condition_key segments n) 6 (AddMapping c segments ci r)"
proof -
  obtain s where s: "ac_conditions n = [IntSet [s]]" "members (IntSet [s]) = {s}" "unitary_segment segments n = segments s"
    by (rule unitary_cases [OF n(2)])
  then obtain d where d: "unitary_segment segments n = Some d" "has_content d"
    using ok by (auto simp: group_ok_def segment_ok_def simp del: members_IntSet)
  show ?thesis
  proof (cases "one_kind d")
    case None
    then show ?thesis using AddMapping_several [OF n d(1) ok None] condition_key_one_kind [OF n(2) d(1)] by simp
  next
    case (Some k)
    then show ?thesis using adds_weaken [OF AddMapping_one_kind [OF n d Some]] condition_key_one_kind [OF n(2) d(1)]
      by simp
  qed
qed

section \<open>Several mappings\<close>

lemma AddMappings_adds:
  assumes "\<forall>c \<in> set cs. adds segments (key c) (w c) (AddMapping c segments ci False)"
    and "graph_inv segments keys pending edges g" and "length keys + length edges + sum_list (map w cs) < UINT32_MAX"
  shows "\<exists>ids g' ks. AddMappings cs segments ci g = Ok (ids, g') \<and>
    graph_inv segments (keys @ ks) pending (ids @ edges) g' \<and> length ks + length ids \<le> sum_list (map w cs) \<and>
    map ((!) (keys @ ks)) ids = map key cs \<and> extends g g'"
  using assms
proof (induction cs arbitrary: keys edges g)
  case Nil
  then show ?case using extends_refl by (intro exI [of _ "[]"] exI [of _ g]) (auto intro: exI [of _ "[]"])
next
  case (Cons c cs)
  obtain i h ks where h: "AddMapping c segments ci False g = Ok (i, h)"
    "graph_inv segments (keys @ ks) pending (i # edges) h" "length ks < w c" "i < length keys + length ks"
    "(keys @ ks) ! i = key c" "extends g h"
    by (rule addsD [of segments "key c" "w c" "AddMapping c segments ci False", OF _ Cons.prems(2)])
      (use Cons.prems in auto)
  obtain ids g' ks' where g': "AddMappings cs segments ci h = Ok (ids, g')"
    "graph_inv segments ((keys @ ks) @ ks') pending (ids @ i # edges) g'" "length ks' + length ids \<le> sum_list (map w cs)"
    "map ((!) ((keys @ ks) @ ks')) ids = map key cs" "extends h g'"
    using Cons.IH [OF _ h(2)] Cons.prems h(3) by fastforce
  have "graph_inv segments ((keys @ ks) @ ks') pending ((i # ids) @ edges) g'"
    by (rule graph_inv_edges [OF _ g'(2)]) simp
  moreover have "((keys @ ks) @ ks') ! i = key c"
    using h(4,5) nth_append [of "keys @ ks" ks' i] by simp
  ultimately show ?case using h(1,3) g' extends_trans [OF h(6) g'(5)]
    by (intro exI [of _ "i # ids"] exI [of _ g'] exI [of _ "ks @ ks'"]) simp
qed

lemma mode_holds_image: "mode_holds mode (\<lambda>x. holds (f x)) A = mode_holds mode holds (f ` A)"
  by (simp add: mode_holds_def)

lemma AddMapping_group:
  assumes n: "n = Normalize c" "\<not> IsUnitary n"
    and kind: "if IsPurelyDisjunctive n then mode = Mode_OR \<and> cs = segment_mappings n
      else mode = Mode_AND \<and> cs = group_mappings n"
    and cs: "\<forall>c \<in> set cs. adds segments (key c) (w c) (AddMapping c segments ci False)"
    and keys_cs: "distinct (map key cs)" "\<forall>c \<in> set cs. fst (key_rank (key c)) < mode_level mode"
    and few: "length cs \<le> snd (key_rank (K_condition n))" "cs = [] \<longrightarrow> mode = Mode_AND"
    and holds: "\<forall>t. AC_activates n (hit_segments segments t) = mode_holds mode (key_holds segments t) (key ` set cs)"
  shows "adds segments (K_condition n) (2 + sum_list (map w cs)) (AddMapping c segments ci r)"
proof (rule addsI)
  fix keys pending edges g
  assume inv: "graph_inv segments keys pending edges g"
    and room: "length keys + length edges + (2 + sum_list (map w cs)) < UINT32_MAX"
  have key: "condition_key segments n = K_condition n" using n(2) by (simp add: condition_key_def)
  show "\<exists>i g' ks. AddMapping c segments ci r g = Ok (i, g') \<and>
      graph_inv segments (keys @ ks) pending (i # edges) g' \<and> length ks < 2 + sum_list (map w cs) \<and>
      i < length keys + length ks \<and> (keys @ ks) ! i = K_condition n \<and> extends g g'"
  proof (cases "eg_condition_node g n")
    case (Some i)
    with AddMapping_existing [OF inv, of c i ci r] room n key show ?thesis
      by (intro exI [of _ i]) (force intro: exI [of _ "[]"])
  next
    case None
    note dg = graph_invD [OF inv]
    let ?p = "length keys"
    have room2: "length keys + length edges + 2 < UINT32_MAX" using room by simp
    note cr = created_inv [OF inv room2 None key, of ci]
    let ?g1 = "set_mode ?p mode (created n ci ?p g)"
    have inv1: "graph_inv segments (keys @ [K_condition n]) (insert ?p pending) (?p # edges) ?g1"
      unfolding set_mode_def by (rule upd_node_inv [OF cr(1)]) simp_all
    obtain ids g2 ks where g2: "AddMappings cs segments ci ?g1 = Ok (ids, g2)"
      "graph_inv segments ((keys @ [K_condition n]) @ ks) (insert ?p pending) (ids @ ?p # edges) g2"
      "length ks + length ids \<le> sum_list (map w cs)" "map ((!) ((keys @ [K_condition n]) @ ks)) ids = map key cs"
      "extends ?g1 g2"
      using AddMappings_adds [OF cs inv1] room by auto
    let ?keys = "(keys @ [K_condition n]) @ ks"
    have p1: "?p < length (eg_nodes ?g1)" using cr(4) by (simp add: set_mode_def)
    then have "node_shape (eg_nodes g2 ! ?p) = node_shape (eg_nodes ?g1 ! ?p)" using g2(5) unfolding extends_def by blast
    also have "\<dots> = node_shape (EntryNode\<lparr>nd_child_mode := mode\<rparr>)"
      using cr(2,4) by (simp add: set_mode_def nth_upd_node node_shape_eq)
    finally have plain: "plain_node (eg_nodes g2 ! ?p) mode" "node_children (eg_nodes g2) ?p = {}"
      by (simp_all add: plain_node_def node_shape_eq EntryNode_def)
    have lens: "length ids = length cs" using g2(4) by (metis length_map)
    have keyset: "((!) ?keys) ` set ids = key ` set cs" using g2(4) by (metis list.set_map)
    have rank: "fst (key_rank (?keys ! p)) = mode_level mode" if "p = ?p" for p
      using that kind n(2) by (auto simp: nth_append mode_level_def split: if_splits)
    have "awaits segments ?keys ?p mode ids g2"
      unfolding awaits_def
    proof (intro conjI allI ballI)
      show "distinct ids" using keys_cs(1) g2(4) by (metis distinct_map)
      show "fst (key_rank (?keys ! i)) < mode_level mode" if "i \<in> set ids" for i
      proof -
        have "?keys ! i \<in> key ` set cs" unfolding keyset [symmetric] by (rule imageI [OF that])
        then show ?thesis using keys_cs(2) by (auto simp del: append_assoc)
      qed
      show "key_holds segments t (?keys ! ?p) = mode_holds mode (\<lambda>i. key_holds segments t (?keys ! i)) (set ids)" for t
        unfolding mode_holds_image [of _ _ "(!) ?keys"] keyset using holds by (simp add: nth_append)
      show "length ids \<le> snd (key_rank (?keys ! ?p))" using few(1) lens by (simp add: nth_append)
      show "ids = [] \<longrightarrow> mode = Mode_AND" using few(2) lens by auto
    qed (use plain rank in \<open>simp_all add: nth_append\<close>)
    from AddChildrenToNode_inv [OF g2(2) _ this] room g2(3) obtain g' ks' where
      g': "AddChildrenToNode ?p mode ids g2 = Ok g'"
        "graph_inv segments (?keys @ ks') (insert ?p pending - {?p}) (?p # edges) g'"
        "length ks' \<le> length ids" "extends_but ?p g2 g'"
      by auto
    have "AddMapping c segments ci r g = Ok (?p, g')"
    proof -
      have "AddMapping c segments ci r g = OTRY (CreateNode ci g) (\<lambda>(p, g).
          (\<lambda>p g. OTRY (AddMappings cs segments ci (set_mode p mode g))
              (\<lambda>(ids, g). OTRY (AddChildrenToNode p mode ids g) (\<lambda>g. Ok (p, g))))
            p (set_condition_node n p (add_edge p g)))"
        using None n kind by (simp add: AddMapping.simps Let_def split: if_splits)
      also have "\<dots> = OTRY (AddMappings cs segments ci ?g1)
          (\<lambda>(ids, g). OTRY (AddChildrenToNode ?p mode ids g) (\<lambda>g. Ok (?p, g)))"
        by (rule CreateNode_created) (use dg(1) room in simp_all)
      finally show ?thesis using g2(1) g'(1) by simp
    qed
    moreover have "graph_inv segments (keys @ K_condition n # ks @ ks') pending (?p # edges) g'"
      using graph_inv_pending [OF g'(2), of pending] by auto
    moreover have "extends g g'"
    proof -
      have "extends_but ?p (created n ci ?p g) ?g1" by (auto simp: extends_but_def set_mode_def nth_upd_node)
      then have "extends_but ?p (created n ci ?p g) g'"
        using extends_but_trans extends_but_of [OF g2(5)] g'(4) by blast
      then show ?thesis using extends_but_new [OF cr(3)] dg(1) by simp
    qed
    ultimately show ?thesis using g2(3) g'(3)
      by (intro exI [of _ ?p] exI [of _ g'] exI [of _ "K_condition n # ks @ ks'"]) (simp add: nth_append)
  qed
qed

end
