(* ===== verification/Entry_Meaning.thy ===== *)
theory Entry_Meaning
  imports Entry_Recursion
begin

text \<open>
  \<^verbatim>\<open>AddMapping\<close> for every condition on usable segments: it returns the node of the condition, and no
  two conditions share a node when no two segments that they use have the same content.
\<close>

section \<open>Different conditions have different keys\<close>

text \<open>The segments that a condition uses, and no two segments of \<open>used\<close> with the same content.\<close>

definition used_segments :: "activation_condition \<Rightarrow> nat set" where
  "used_segments c = (\<Union>S \<in> set (ac_conditions c). members S)"

definition distinct_segments :: "segment_map \<Rightarrow> nat set \<Rightarrow> bool" where
  "distinct_segments segments used \<longleftrightarrow> (\<forall>s \<in> used. \<forall>s' \<in> used. \<forall>d d'. segments s = Some d \<longrightarrow> segments s' = Some d' \<longrightarrow>
     sd_codepoints d = sd_codepoints d' \<longrightarrow> sd_feature_tags d = sd_feature_tags d' \<longrightarrow>
     sd_design_space d = sd_design_space d' \<longrightarrow> s = s')"

definition condition_ok :: "segment_map \<Rightarrow> activation_condition \<Rightarrow> bool" where
  "condition_ok segments c \<longleftrightarrow> (\<forall>S \<in> set (ac_conditions c). group_ok segments S)"

lemma one_kind_inj:
  assumes "one_kind d = Some k" "one_kind d' = Some k"
  shows "sd_codepoints d = sd_codepoints d' \<and> sd_feature_tags d = sd_feature_tags d' \<and>
    sd_design_space d = sd_design_space d'"
proof -
  have empty: "members A = {} \<Longrightarrow> members B = {} \<Longrightarrow> A = B" for A B
    by (rule int_set_eqI) simp
  show ?thesis using assms by (auto simp: one_kind_def Let_def empty split: if_splits)
qed

lemma one_kind_not_condition: "one_kind d \<noteq> Some (K_condition c)"
  by (auto simp: one_kind_def Let_def)

lemma condition_key_cases:
  obtains (condition) "condition_key segments n = K_condition n"
  | (content) s d where "ac_conditions n = [IntSet [s]]" "s < UINT32_MAX" "segments s = Some d"
      "one_kind d = Some (condition_key segments n)"
proof (cases "condition_key segments n = K_condition n")
  case False
  then obtain d where d: "IsUnitary n" "unitary_segment segments n = Some d" "one_kind d = Some (condition_key segments n)"
    by (auto simp: condition_key_def bind_eq_Some_conv split: option.splits if_splits)
  obtain s where "ac_conditions n = [IntSet [s]]" "s < UINT32_MAX" "unitary_segment segments n = segments s"
    by (rule unitary_cases [OF d(1)])
  with d show thesis using content by simp
qed

lemma condition_key_inj:
  assumes "distinct_segments segments used" and "condition_key segments n = condition_key segments n'"
    and "used_segments n \<subseteq> used" "used_segments n' \<subseteq> used"
  shows "ac_conditions n = ac_conditions n'"
proof (cases rule: condition_key_cases [of segments n])
  case condition
  then show ?thesis
    using assms(2) one_kind_not_condition by (cases rule: condition_key_cases [of segments n']) auto
next
  case (content s d)
  note c = content
  show ?thesis
  proof (cases rule: condition_key_cases [of segments n'])
    case condition
    then show ?thesis using assms(2) c one_kind_not_condition by auto
  next
    case (content s' d')
    have "one_kind d' = Some (condition_key segments n)" using content(4) assms(2) by simp
    moreover have "s \<in> used" "s' \<in> used"
      using assms(3,4) c(1,2) content(1,2) by (auto simp: used_segments_def)
    ultimately have "s = s'"
      using one_kind_inj [OF c(4)] assms(1) c(3) content(3) unfolding distinct_segments_def by blast
    then show ?thesis using c(1) content(1) by simp
  qed
qed

lemma sorted_wrt_less_distinct: "sorted_wrt (<) xs \<Longrightarrow> distinct xs" for xs :: "'a :: preorder list"
  by (induction xs) auto

lemma Normalize_inj: "ac_conditions (Normalize c) = ac_conditions (Normalize d) \<Longrightarrow> Normalize c = Normalize d"
  by (simp add: Normalize_def composite_condition_def ActivationCondition_def)

lemma single_conditions [simp]:
  "ac_conditions (exclusive_segment s i) = [IntSet [s]]" "ac_conditions (or_segments S i f) = [S]"
  by (simp_all add: exclusive_segment_def or_segments_def ActivationCondition_def)

lemma Simplify_single [simp]: "Simplify [S] = [S]"
  by (simp add: Simplify_def)

lemma Normalize_single:
  "ac_conditions (Normalize (exclusive_segment s i)) = [IntSet [s]]"
  "ac_conditions (Normalize (or_segments S i f)) = [S]"
  by simp_all

lemma IsUnitary_exclusive: "s < UINT32_MAX \<Longrightarrow> IsUnitary (Normalize (exclusive_segment s i))"
  by (simp add: IsUnitary_def Normalize_single size_eq_card conj_commute cong: conj_cong)

section \<open>Single groups and conjunctions\<close>

text \<open>The nodes that \<^verbatim>\<open>AddMapping\<close> may create for a group, and for a condition.\<close>

definition group_weight :: "int_set \<Rightarrow> nat" where
  "group_weight S = 6 * IntSet_size S + 2"

definition condition_weight :: "activation_condition \<Rightarrow> nat" where
  "condition_weight c = sum_list (map group_weight (Simplify (ac_conditions c))) + 2"

lemma length_to_vector: "length (to_vector S) = IntSet_size S"
  by (simp add: IntSet_size_def)

lemma AddMapping_disjunction:
  assumes n: "n = Normalize c" "ac_conditions n = [S]" and ok: "group_ok segments S"
    and dist: "distinct_segments segments used" "members S \<subseteq> used"
  shows "adds segments (condition_key segments n) (group_weight S) (AddMapping c segments ci r)"
proof (cases "IsUnitary n")
  case True
  have "IntSet_size S = 1" using True n(2) by (simp add: IsUnitary_def)
  then show ?thesis using adds_weaken [OF AddMapping_unitary [OF n(1) True]] ok n(2) by (simp add: group_weight_def)
next
  case False
  let ?key = "\<lambda>c. condition_key segments (Normalize c)"
  let ?cs = "map (\<lambda>s. exclusive_segment s 0) (to_vector S)"
  have seg: "s < UINT32_MAX \<and> segment_ok segments s" if "s \<in> set (to_vector S)" for s
    using that ok members_bound by (auto simp: group_ok_def)
  have "condition_key segments n = K_condition n" using False by (simp add: condition_key_def)
  moreover have "adds segments (K_condition n) (2 + sum_list (map (\<lambda>_. 6) ?cs)) (AddMapping c segments ci r)"
  proof (rule AddMapping_group [OF n(1) False, where mode = Mode_OR and cs = ?cs and key = ?key])
    show "if IsPurelyDisjunctive n then Mode_OR = Mode_OR \<and> ?cs = segment_mappings n
      else Mode_OR = Mode_AND \<and> ?cs = group_mappings n"
      using n(2) by (simp add: IsPurelyDisjunctive_def segment_mappings_def)
    have single: "condition_ok segments (Normalize (exclusive_segment s 0))" if "s \<in> set (to_vector S)" for s
      using seg [OF that] by (simp add: condition_ok_def Normalize_single group_ok_def conj_commute
          cong: conj_cong)
    show "\<forall>c \<in> set ?cs. adds segments (?key c) 6 (AddMapping c segments ci False)"
      using AddMapping_unitary [OF refl IsUnitary_exclusive] seg single by (auto simp: condition_ok_def)
    show "\<forall>c \<in> set ?cs. fst (key_rank (?key c)) < mode_level Mode_OR"
    proof
      fix c assume "c \<in> set ?cs"
      then have "IsUnitary (Normalize c)" using seg IsUnitary_exclusive by auto
      then show "fst (key_rank (?key c)) < mode_level Mode_OR"
        using condition_key_rank [of segments "Normalize c"] by (simp add: mode_level_def)
    qed
    have "inj_on (\<lambda>s. ?key (exclusive_segment s 0)) (set (to_vector S))"
    proof (rule inj_onI)
      fix s s' assume s: "s \<in> set (to_vector S)" "s' \<in> set (to_vector S)"
        "?key (exclusive_segment s 0) = ?key (exclusive_segment s' 0)"
      have "used_segments (Normalize (exclusive_segment s 0)) \<subseteq> used" "used_segments (Normalize (exclusive_segment s' 0)) \<subseteq> used"
        using dist(2) s(1,2) by (auto simp: used_segments_def)
      from condition_key_inj [OF dist(1) s(3) this] have "IntSet [s] = IntSet [s']" by (simp add: Normalize_single)
      then have "to_vector (IntSet [s]) = to_vector (IntSet [s'])" by (rule arg_cong)
      then show "s = s'" using seg [OF s(1)] seg [OF s(2)] by (simp add: to_vector_single)
    qed
    then show "distinct (map ?key ?cs)" by (simp add: distinct_map comp_def)
    show "length ?cs \<le> snd (key_rank (K_condition n))"
      using False n(2) by (simp add: IsPurelyDisjunctive_def length_to_vector)
    have "\<not> IntSet_is_empty S" using ok by (simp add: group_ok_def)
    then show "?cs = [] \<longrightarrow> Mode_OR = Mode_AND" unfolding IntSet_is_empty_def by simp
    show "\<forall>t. AC_activates n (hit_segments segments t) = mode_holds Mode_OR (key_holds segments t) (?key ` set ?cs)"
    proof
      fix t
      have "key_holds segments t (?key (exclusive_segment s 0)) \<longleftrightarrow> s \<in> hit_segments segments t"
        if "s \<in> members S" for s
      proof -
        have s: "s < UINT32_MAX" using members_bound that by auto
        have "key_holds segments t (?key (exclusive_segment s 0)) \<longleftrightarrow>
            AC_activates (Normalize (exclusive_segment s 0)) (hit_segments segments t)"
          by (rule condition_key_holds) (use single that in \<open>auto simp: condition_ok_def\<close>)
        then show ?thesis using s by (simp add: AC_activates_def) blast
      qed
      then show "AC_activates n (hit_segments segments t) = mode_holds Mode_OR (key_holds segments t) (?key ` set ?cs)"
        using n(2) by (auto simp: AC_activates_def mode_holds_def)
    qed
  qed
  ultimately show ?thesis by (simp add: group_weight_def comp_def sum_list_triv length_to_vector mult.commute)
qed

lemma AddMapping_condition:
  assumes ok: "condition_ok segments (Normalize c)"
    and dist: "distinct_segments segments used" "used_segments (Normalize c) \<subseteq> used"
  shows "adds segments (condition_key segments (Normalize c)) (condition_weight c) (AddMapping c segments ci r)"
proof (cases "IsPurelyDisjunctive (Normalize c)")
  case True
  then obtain S where S: "ac_conditions (Normalize c) = [S]"
    by (auto simp: IsPurelyDisjunctive_def length_Suc_conv)
  have "group_ok segments S" "members S \<subseteq> used" using ok dist(2) S by (auto simp: condition_ok_def used_segments_def)
  from adds_weaken [OF AddMapping_disjunction [OF refl S this(1) dist(1) this(2)]] show ?thesis
    using S by (simp add: condition_weight_def)
next
  case False
  define n where "n = Normalize c"
  have notu: "\<not> IsUnitary n" using False IsUnitary_IsPurelyDisjunctive by (auto simp: n_def)
  let ?key = "\<lambda>c. condition_key segments (Normalize c)"
  let ?cs = "map (\<lambda>S. or_segments S 0 False) (ac_conditions n)"
  let ?w = "\<lambda>c. group_weight (hd (ac_conditions c))"
  have groups: "group_ok segments S" "members S \<subseteq> used" if "S \<in> set (ac_conditions n)" for S
    using ok dist(2) that by (auto simp: condition_ok_def used_segments_def n_def)
  have "condition_key segments n = K_condition n" using notu by (simp add: condition_key_def)
  moreover have "adds segments (K_condition n) (2 + sum_list (map ?w ?cs)) (AddMapping c segments ci r)"
  proof (rule AddMapping_group [OF n_def notu, where mode = Mode_AND and cs = ?cs and key = ?key])
    show "if IsPurelyDisjunctive n then Mode_AND = Mode_OR \<and> ?cs = segment_mappings n
      else Mode_AND = Mode_AND \<and> ?cs = group_mappings n"
      using False by (simp add: n_def group_mappings_def del: Normalize_conditions)
    show "\<forall>c \<in> set ?cs. adds segments (?key c) (?w c) (AddMapping c segments ci False)"
      using AddMapping_disjunction [OF refl Normalize_single(2) groups(1) dist(1) groups(2)] by auto
    have "IsPurelyDisjunctive (Normalize (or_segments S 0 False))" for S
      unfolding IsPurelyDisjunctive_def Normalize_single by simp
    then have "fst (key_rank (?key (or_segments S 0 False))) \<le> 2" for S
      using condition_key_rank [of segments "Normalize (or_segments S 0 False)"] by (simp split: if_splits)
    then show "\<forall>c \<in> set ?cs. fst (key_rank (?key c)) < mode_level Mode_AND"
      by (simp add: mode_level_def less_Suc_eq_le numeral_3_eq_3 numeral_2_eq_2)
    have "inj_on (\<lambda>S. ?key (or_segments S 0 False)) (set (ac_conditions n))"
    proof (rule inj_onI)
      fix S S' assume S: "S \<in> set (ac_conditions n)" "S' \<in> set (ac_conditions n)"
        "?key (or_segments S 0 False) = ?key (or_segments S' 0 False)"
      have "used_segments (Normalize (or_segments T 0 False)) = members T" for T by (simp add: used_segments_def)
      then show "S = S'" using condition_key_inj [OF dist(1) S(3)] groups(2) S(1,2) by simp
    qed
    moreover have "distinct (ac_conditions n)"
      using sorted_wrt_less_distinct [OF Simplify_sorted_list] by (simp add: n_def)
    ultimately show "distinct (map ?key ?cs)" by (simp add: distinct_map comp_def)
    show "length ?cs \<le> snd (key_rank (K_condition n))" using notu False by (simp add: n_def)
    show "?cs = [] \<longrightarrow> Mode_AND = Mode_AND" by simp
    show "\<forall>t. AC_activates n (hit_segments segments t) = mode_holds Mode_AND (key_holds segments t) (?key ` set ?cs)"
    proof
      fix t
      have "key_holds segments t (?key (or_segments S 0 False)) \<longleftrightarrow> members S \<inter> hit_segments segments t \<noteq> {}"
        if "S \<in> set (ac_conditions n)" for S
      proof -
        have "key_holds segments t (?key (or_segments S 0 False)) \<longleftrightarrow>
            AC_activates (Normalize (or_segments S 0 False)) (hit_segments segments t)"
          by (rule condition_key_holds) (use groups(1) [OF that] in \<open>simp add: Normalize_single\<close>)
        then show ?thesis by (simp add: AC_activates_def Normalize_single)
      qed
      then show "AC_activates n (hit_segments segments t) = mode_holds Mode_AND (key_holds segments t) (?key ` set ?cs)"
        by (simp add: AC_activates_def activates_def mode_holds_def)
    qed
  qed
  moreover have "2 + sum_list (map ?w ?cs) = condition_weight c"
    by (simp add: condition_weight_def n_def comp_def or_segments_def ActivationCondition_def)
  ultimately show ?thesis by (simp add: n_def)
qed


section \<open>Building entries\<close>

text \<open>
  \<^verbatim>\<open>EntryGraph::Create\<close> on usable conditions: it does not fail, and the graph it returns has a node for
  every condition.
\<close>

definition conditions_ok :: "segment_map \<Rightarrow> activation_condition list \<Rightarrow> bool" where
  "conditions_ok segments cs \<longleftrightarrow> distinct_segments segments (\<Union>c \<in> set cs. used_segments (Normalize c)) \<and> (\<forall>c \<in> set cs. condition_ok segments (Normalize c)) \<and>
     distinct (map Normalize cs) \<and> sum_list (map condition_weight cs) < UINT32_MAX"

definition patches_of :: "activation_condition \<Rightarrow> patch_id list" where
  "patches_of c = AC_activated c # AC_prefetches c"

text \<open>The graph after the conditions \<open>cs\<close>, with their nodes \<open>ids\<close>.\<close>

definition built :: "segment_map \<Rightarrow> activation_condition list \<Rightarrow> node_key list \<Rightarrow> nat list \<Rightarrow> entry_graph \<Rightarrow> bool" where
  "built segments cs keys ids g \<longleftrightarrow> graph_inv segments keys {} ids g \<and>
     map (\<lambda>c. eg_condition_node g (Normalize c)) cs = map Some ids \<and>
     map ((!) keys) ids = map (\<lambda>c. condition_key segments (Normalize c)) cs \<and>
     eg_patch_mappings g = map (\<lambda>c. (Normalize c, patches_of c)) cs \<and>
     eg_patch_encodings g = map_of (map (\<lambda>c. (Normalize c, ac_encoding c)) cs) \<and>
     length keys + length ids \<le> sum_list (map condition_weight cs)"

lemma built_empty: "built segments [] [] [] EntryGraph"
  using graph_inv_empty by (simp add: built_def EntryGraph_def fun_eq_iff)

text \<open>The map of conditions finds the node that \<^verbatim>\<open>AddMapping\<close> returns.\<close>

lemma AddMapping_registers:
  assumes run: "AddMapping c segments ci r g = Ok (i, g')" and inv: "graph_inv segments keys pending edges g'"
    and i: "i < length keys" "keys ! i = condition_key segments (Normalize c)"
  shows "eg_condition_node g' (Normalize c) = Some i"
proof (cases rule: condition_key_cases [of segments "Normalize c"])
  case condition
  then show ?thesis using maps_okD(5) [OF graph_invD(8) [OF inv], where c = "Normalize c" and i = i] i by simp
next
  case (content s d)
  have u: "IsUnitary (Normalize c)" using content(1,2)
    by (simp add: IsUnitary_def size_eq_card conj_commute del: Normalize_conditions cong: conj_cong)
  have seg: "unitary_segment segments (Normalize c) = Some d"
  proof -
    obtain s' where s': "ac_conditions (Normalize c) = [IntSet [s']]" "s' < UINT32_MAX"
      "unitary_segment segments (Normalize c) = segments s'"
      by (rule unitary_cases [OF u])
    then have "to_vector (IntSet [s']) = to_vector (IntSet [s])" using content(1) by simp
    then have "s' = s" using s'(2) content(2) by (simp add: to_vector_single)
    then show ?thesis using s'(3) content(3) by simp
  qed
  show ?thesis
  proof (cases "eg_condition_node g (Normalize c)")
    case (Some j)
    then show ?thesis using run
      by (auto simp: AddMapping.simps Let_def add_edge_def upd_node_def split: if_splits)
  next
    case None
    obtain added where added: "AddUnitary d ci g = Some added"
      using content(4) by (auto simp: AddUnitary_def one_kind_def Let_def split: if_splits)
    have "OTRY added (\<lambda>(i, g). Ok (i, set_condition_node (Normalize c) i g)) = Ok (i, g')"
      using run None u seg added by (simp add: AddMapping.simps Let_def)
    then show ?thesis by (auto simp: OTRY_eq_Ok set_condition_node_def)
  qed
qed

lemma map_of_snoc: "k \<notin> fst ` set xs \<Longrightarrow> map_of (xs @ [(k, v)]) = (map_of xs)(k \<mapsto> v)"
  by (induction xs) (auto simp: fun_upd_twist)

lemma record_inv:
  "graph_inv segments keys pending edges (g\<lparr>eg_patch_mappings := ms, eg_patch_encodings := es\<rparr>) =
    graph_inv segments keys pending edges g"
proof -
  let ?h = "g\<lparr>eg_patch_mappings := ms, eg_patch_encodings := es\<rparr>"
  have "maps_ok segments keys ?h = maps_ok segments keys g" by (rule maps_ok_cong) simp_all
  then show ?thesis unfolding graph_inv_def by simp
qed

lemma built_step:
  assumes b: "built segments cs keys ids g" and dist: "distinct_segments segments used" "used_segments (Normalize c) \<subseteq> used"
    and ok: "condition_ok segments (Normalize c)" and new: "Normalize c \<notin> Normalize ` set cs"
    and room: "sum_list (map condition_weight cs) + condition_weight c < UINT32_MAX"
  shows "\<exists>i g1 g2 ks. AddMapping c segments ci True g = Ok (i, g1) \<and> RecordPatches c g1 = Ok g2 \<and>
    built segments (cs @ [c]) (keys @ ks) (ids @ [i]) g2"
proof -
  note bd = b [unfolded built_def]
  have inv: "graph_inv segments keys {} ids g" using bd by blast
  have "length keys + length ids + condition_weight c < UINT32_MAX" using bd room by linarith
  then obtain i g1 ks where g1: "AddMapping c segments ci True g = Ok (i, g1)"
    "graph_inv segments (keys @ ks) {} (i # ids) g1" "length ks < condition_weight c"
    "i < length keys + length ks" "(keys @ ks) ! i = condition_key segments (Normalize c)" "extends g g1"
    by (rule addsD [OF AddMapping_condition [OF ok dist, of ci True] inv]) blast
  define g2 where "g2 = g1\<lparr>eg_patch_mappings := eg_patch_mappings g @ [(Normalize c, patches_of c)],
    eg_patch_encodings := (eg_patch_encodings g)(Normalize c \<mapsto> ac_encoding c)\<rparr>"
  have pm: "eg_patch_mappings g1 = eg_patch_mappings g" "eg_patch_encodings g1 = eg_patch_encodings g"
    "eg_condition_node g \<subseteq>\<^sub>m eg_condition_node g1"
    using g1(6) by (simp_all add: extends_def)
  have none: "map_of (eg_patch_mappings g) (Normalize c) = None" "eg_patch_encodings g (Normalize c) = None"
    using bd new by (auto simp: map_of_eq_None_iff image_iff)
  have "RecordPatches c g1 = Ok g2"
    using none pm by (simp add: RecordPatches_def g2_def patches_of_def Let_def)
  moreover have "built segments (cs @ [c]) (keys @ ks) (ids @ [i]) g2"
    unfolding built_def
  proof (intro conjI)
    have "graph_inv segments (keys @ ks) {} (ids @ [i]) g1" by (rule graph_inv_edges [OF _ g1(2)]) simp
    then show "graph_inv segments (keys @ ks) {} (ids @ [i]) g2" unfolding g2_def record_inv .
    have "eg_condition_node g1 (Normalize c) = Some i"
      by (rule AddMapping_registers [OF g1(1,2) _ g1(5)]) (use g1(4) in simp)
    moreover have "map (\<lambda>c. eg_condition_node g1 (Normalize c)) cs = map Some ids"
    proof -
      have "eg_condition_node g1 (Normalize d) = eg_condition_node g (Normalize d)" if "d \<in> set cs" for d
      proof -
        have "eg_condition_node g (Normalize d) \<in> set (map Some ids)"
          using bd that by (metis (no_types, lifting) image_eqI list.set_map)
        then obtain j where "eg_condition_node g (Normalize d) = Some j" by auto
        then show ?thesis using pm(3) by (metis domI map_le_def)
      qed
      then show ?thesis using bd by (metis (no_types, lifting) map_cong)
    qed
    ultimately show "map (\<lambda>c. eg_condition_node g2 (Normalize c)) (cs @ [c]) = map Some (ids @ [i])"
      by (simp add: g2_def)
    have "set ids \<subseteq> {..<length keys}" by (rule graph_invD(3) [OF inv])
    then have "map ((!) (keys @ ks)) ids = map ((!) keys) ids" by (auto simp: nth_append)
    then show "map ((!) (keys @ ks)) (ids @ [i]) = map (\<lambda>c. condition_key segments (Normalize c)) (cs @ [c])"
      using bd g1(5) by simp
    show "eg_patch_mappings g2 = map (\<lambda>c. (Normalize c, patches_of c)) (cs @ [c])" using bd by (simp add: g2_def)
    have "Normalize c \<notin> fst ` set (map (\<lambda>c. (Normalize c, ac_encoding c)) cs)" using new by auto
    from map_of_snoc [OF this, of "ac_encoding c"]
    show "eg_patch_encodings g2 = map_of (map (\<lambda>c. (Normalize c, ac_encoding c)) (cs @ [c]))"
      using bd by (simp add: g2_def)
    show "length (keys @ ks) + length (ids @ [i]) \<le> sum_list (map condition_weight (cs @ [c]))"
      using bd g1(3) by simp
  qed
  ultimately show ?thesis using g1(1) by blast
qed

lemma Create_loop_built:
  assumes "built segments cs keys ids g" and "conditions_ok segments (cs @ ds)"
  shows "\<exists>g' keys' ids'. Create_loop segments ci ds g = Ok g' \<and> built segments (cs @ ds) keys' ids' g'"
  using assms
proof (induction ds arbitrary: cs keys ids g ci)
  case Nil
  then show ?case by auto
next
  case (Cons d ds)
  have "condition_ok segments (Normalize d)" "Normalize d \<notin> Normalize ` set cs"
    "distinct_segments segments (\<Union>c \<in> set (cs @ d # ds). used_segments (Normalize c))"
    "used_segments (Normalize d) \<subseteq> (\<Union>c \<in> set (cs @ d # ds). used_segments (Normalize c))"
    "sum_list (map condition_weight cs) + condition_weight d < UINT32_MAX"
    using Cons.prems(2) by (auto simp: conditions_ok_def)
  from built_step [OF Cons.prems(1) this(3,4,1,2,5), of ci] obtain i g1 g2 ks where
    "AddMapping d segments ci True g = Ok (i, g1)" "RecordPatches d g1 = Ok g2"
    "built segments (cs @ [d]) (keys @ ks) (ids @ [i]) g2" by blast
  with Cons.IH [of "cs @ [d]" "keys @ ks" "ids @ [i]" g2 "ci + 1"] Cons.prems(2) show ?case by simp
qed

lemma EntryGraph_Create_built:
  assumes "conditions_ok segments cs"
  obtains g keys ids where "EntryGraph_Create cs segments = Ok g" "built segments cs keys ids g"
  using Create_loop_built [OF built_empty, of segments cs 0] assms by (auto simp: EntryGraph_Create_def)

section \<open>The graph that was built\<close>

lemma built_top_nodes: "built segments cs keys ids g \<Longrightarrow> top_nodes g = ids"
proof -
  have "map f cs = map Some ids \<Longrightarrow> List.map_filter f cs = ids" for f :: "activation_condition \<Rightarrow> nat option" and cs
    by (induction cs arbitrary: ids) (auto simp: map_filter_simps)
  then show "built segments cs keys ids g \<Longrightarrow> top_nodes g = ids"
    by (simp add: top_nodes_def built_def comp_def)
qed

lemma built_distinct:
  assumes b: "built segments cs keys ids g" and ok: "conditions_ok segments cs"
  shows "distinct ids"
proof -
  have "inj_on (condition_key segments) (set (map Normalize cs))"
  proof (rule inj_onI)
    fix n n' assume n: "n \<in> set (map Normalize cs)" "n' \<in> set (map Normalize cs)"
      "condition_key segments n = condition_key segments n'"
    have "distinct_segments segments (\<Union>c \<in> set cs. used_segments (Normalize c))" using ok by (simp add: conditions_ok_def)
    from condition_key_inj [OF this n(3)] have "ac_conditions n = ac_conditions n'" using n(1,2) by auto
    then show "n = n'" using n(1,2) Normalize_inj by (metis image_iff list.set_map)
  qed
  then have "distinct (map (\<lambda>c. condition_key segments (Normalize c)) cs)"
    using ok distinct_map [of "condition_key segments" "map Normalize cs"] by (simp add: conditions_ok_def comp_def)
  then show ?thesis using b by (metis (no_types, lifting) built_def distinct_map)
qed

lemma built_counts_ok:
  assumes b: "built segments cs keys ids g" shows "counts_ok g"
proof -
  have "graph_inv segments keys {} ids g" using b by (simp add: built_def)
  note d = graph_invD [OF this]
  show ?thesis unfolding counts_ok_def built_top_nodes [OF b] children_bounded_def using d(1-5) by auto
qed

lemma wf_key_less: "wf {(a, b). key_less a b}"
proof -
  have "{(a, b). key_less a b} = inv_image (less_than <*lex*> less_than) key_rank"
    by (auto simp: key_less_def)
  then show ?thesis by (simp add: wf_inv_image wf_lex_prod)
qed

lemma built_acyclic:
  assumes b: "built segments cs keys ids g" shows "acyclic (graph_edges (eg_nodes g))"
proof -
  have "graph_inv segments keys {} ids g" using b by (simp add: built_def)
  note d = graph_invD [OF this]
  have "graph_edges (eg_nodes g) \<subseteq> (inv_image {(a, b). key_less a b} ((!) keys))\<inverse>"
    using d(1,4) by (auto simp: graph_edges_def)
  moreover have "acyclic ((inv_image {(a, b). key_less a b} ((!) keys))\<inverse>)"
    unfolding acyclic_converse by (intro wf_acyclic wf_inv_image wf_key_less)
  ultimately show ?thesis by (rule acyclic_subset [rotated])
qed

end
