(* ===== verification/Entry_Output.thy ===== *)
theory Entry_Output
  imports Entry_Meaning
begin

text \<open>
  \<^verbatim>\<open>EntryGraph::ToPatchMapEntries\<close>: the nodes are turned into entries children first, and an entry
  matches a target just if the key of its node holds for it.
\<close>

section \<open>One entry\<close>

lemma ChildEntries_spec:
  assumes "\<forall>c \<in> set cs. \<exists>k. index_of c = Some k \<and> k < UINT32_MAX"
  shows "\<exists>S. ChildEntries index_of cs s = Inr S \<and> members S = members s \<union> (the \<circ> index_of) ` set cs"
  using assms
proof (induction cs arbitrary: s)
  case (Cons c cs)
  then obtain k where k: "index_of c = Some k" "k < UINT32_MAX" by auto
  obtain S where "ChildEntries index_of cs (IntSet_insert k s) = Inr S"
    "members S = members (IntSet_insert k s) \<union> (the \<circ> index_of) ` set cs"
    using Cons.IH [of "IntSet_insert k s"] Cons.prems by auto
  with k show ?case by auto
qed simp

lemma entry_matches_fields: "entry_matches earlier target e \<longleftrightarrow>
    (members (cov_codepoints (en_coverage e)) = {} \<or>
       members (cov_codepoints (en_coverage e)) \<inter> members (sd_codepoints target) \<noteq> {}) \<and>
    (cov_features (en_coverage e) = [] \<or> set (cov_features (en_coverage e)) \<inter> set (sd_feature_tags target) \<noteq> {}) \<and>
    (cov_design_space (en_coverage e) = [] \<or>
       design_spaces_intersect (cov_design_space (en_coverage e)) (sd_design_space target)) \<and>
    (members (cov_child_indices (en_coverage e)) = {} \<or>
       (if cov_conjunctive (en_coverage e) then \<forall>k \<in> members (cov_child_indices (en_coverage e)). earlier ! k
        else \<exists>k \<in> members (cov_child_indices (en_coverage e)). earlier ! k))"
proof -
  have f: "list_ex (List.member A) fs = (set fs \<inter> set A \<noteq> {})" for A and fs :: "hb_tag list"
    by (auto simp: list_ex_iff)
  have c: "list_all P (to_vector S) = (\<forall>k \<in> members S. P k)" "list_ex P (to_vector S) = (\<exists>k \<in> members S. P k)" for P S
    by (simp_all add: list_all_iff list_ex_iff)
  show ?thesis
    unfolding entry_matches_def Let_def is_empty_iff intersects_iff f c
    unfolding design_spaces_intersect_def list_ex_iff by (rule refl)
qed

lemma node_entry_matches:
  assumes "en_coverage e = (en_coverage (node_entry encoding node))\<lparr>cov_child_indices := S\<rparr>"
    and "members S = f ` members (nd_children node)"
    and "\<forall>c \<in> members (nd_children node). earlier ! f c = holds c"
  shows "entry_matches earlier target e = node_holds holds target node"
  unfolding entry_matches_fields node_holds_def fields_match_def assms(1)
  using assms(2,3) by (simp add: node_entry_def Coverage_def)

section \<open>The loop over the nodes\<close>

definition patches_match :: "entry_graph \<Rightarrow> activation_condition option \<Rightarrow> entry \<Rightarrow> bool" where
  "patches_match g condition e \<longleftrightarrow> (case condition of None \<Rightarrow> en_ignored e
     | Some n \<Rightarrow> \<not> en_ignored e \<and> map_of (eg_patch_mappings g) n = Some (en_patch_indices e) \<and>
         eg_patch_encodings g n = Some (en_encoding e))"

definition recorded :: "entry_graph \<Rightarrow> activation_condition option \<Rightarrow> bool" where
  "recorded g condition \<longleftrightarrow> (\<forall>n. condition = Some n \<longrightarrow>
     (\<exists>patches. map_of (eg_patch_mappings g) n = Some patches \<and> patches \<noteq> []) \<and> eg_patch_encodings g n \<noteq> None)"

lemma map_patches_spec:
  assumes "recorded g condition"
  shows "\<exists>e' l'. map_patches g condition l e = Some (e', l') \<and> en_coverage e' = en_coverage e \<and>
    en_patch_indices e' \<noteq> [] \<and> patches_match g condition e'"
proof (cases condition)
  case None
  then show ?thesis by (simp add: map_patches_def patches_match_def Let_def)
next
  case (Some n)
  then show ?thesis using assms by (auto simp: map_patches_def patches_match_def recorded_def)
qed

text \<open>What the loop keeps: the nodes \<open>ids\<close> are done, and \<open>index_of\<close> gives the entries of those that were used.\<close>

definition emitted :: "segment_map \<Rightarrow> node_key list \<Rightarrow> entry_graph \<Rightarrow> (nat \<Rightarrow> activation_condition option) \<Rightarrow>
    nat set \<Rightarrow> (nat \<Rightarrow> nat option) \<Rightarrow> entry list \<Rightarrow> bool" where
  "emitted segments keys g condition_of ids index_of es \<longleftrightarrow>
     dom index_of = ids \<inter> members (ReachableNodes g) \<and> ran index_of = {..<length es} \<and> map_ok es \<and>
     (\<forall>i k. index_of i = Some k \<longrightarrow>
        (\<forall>t. map_matches t es ! k = key_holds segments t (keys ! i)) \<and>
        card (members (cov_child_indices (en_coverage (es ! k)))) \<le> 127 \<and>
        patches_match g (condition_of i) (es ! k))"

lemma emitted_step:
  assumes em: "emitted segments keys g condition_of ids index_of es"
    and i: "i \<notin> ids" "i < length keys" "i \<in> members (ReachableNodes g)" "members (nd_children (eg_nodes g ! i)) \<subseteq> dom index_of"
    and inv: "consistent segments keys (eg_nodes g ! i) (keys ! i)" "card (node_children (eg_nodes g) i) \<le> 127"
    and e: "en_coverage e = (en_coverage (node_entry encoding (eg_nodes g ! i)))\<lparr>cov_child_indices := S\<rparr>"
      "members S = (the \<circ> index_of) ` node_children (eg_nodes g) i"
      "en_patch_indices e \<noteq> []" "patches_match g (condition_of i) e"
  shows "emitted segments keys g condition_of (insert i ids) (index_of(i \<mapsto> length es)) (es @ [e])"
proof -
  note d = em [unfolded emitted_def]
  have less: "k < length es" if "index_of j = Some k" for j k using d that by (auto simp: ran_def)
  have none: "index_of i = None" using d i(1) by (metis Int_iff domIff)
  have child: "\<exists>k. index_of c = Some k \<and> k < length es" if "c \<in> node_children (eg_nodes g) i" for c
    using i(4) that less by blast
  have cov: "cov_child_indices (en_coverage e) = S" by (simp add: e(1))
  have S: "k < length es" if "k \<in> members S" for k
    using that child unfolding e(2) by force
  have match: "entry_matches (map_matches t es) t e = key_holds segments t (keys ! i)" for t
  proof -
    have "entry_matches (map_matches t es) t e =
        node_holds (\<lambda>c. key_holds segments t (keys ! c)) t (eg_nodes g ! i)"
    proof (rule node_entry_matches [OF e(1,2)])
      show "\<forall>c \<in> node_children (eg_nodes g) i. map_matches t es ! (the \<circ> index_of) c = key_holds segments t (keys ! c)"
        using child d by fastforce
    qed
    then show ?thesis using inv(1) by (simp add: consistent_def)
  qed
  have mm: "map_matches t (es @ [e]) = map_matches t es @ [entry_matches (map_matches t es) t e]" for t
    by (simp add: map_matches_append)
  show ?thesis unfolding emitted_def
  proof (intro conjI allI impI)
    show "dom (index_of(i \<mapsto> length es)) = insert i ids \<inter> members (ReachableNodes g)" using d i(3) by auto
    have "ran (index_of(i \<mapsto> length es)) = insert (length es) (ran index_of)" using none by (rule ran_map_upd)
    then show "ran (index_of(i \<mapsto> length es)) = {..<length (es @ [e])}" using d by auto
    show "map_ok (es @ [e])" unfolding map_ok_snoc using d e(3) cov S by auto
    fix j k assume jk: "(index_of(i \<mapsto> length es)) j = Some k"
    show "map_matches t (es @ [e]) ! k = key_holds segments t (keys ! j)" for t
      using jk d less match [of t] unfolding mm by (auto simp: nth_append split: if_splits)
    have "card (members S) \<le> 127" using card_image_le [OF finite_members] inv(2) unfolding e(2) by (rule order_trans)
    then show "card (members (cov_child_indices (en_coverage ((es @ [e]) ! k)))) \<le> 127"
      using jk d less cov by (auto simp: nth_append split: if_splits)
    show "patches_match g (condition_of j) ((es @ [e]) ! k)"
      using jk d less e(4) by (auto simp: nth_append split: if_splits)
  qed
qed

text \<open>An order with all children of a node before it: the reverse of a topological order.\<close>

definition children_first :: "entry_node list \<Rightarrow> nat list \<Rightarrow> bool" where
  "children_first nodes ids \<longleftrightarrow> (\<forall>before i after. ids = before @ i # after \<longrightarrow> node_children nodes i \<subseteq> set before)"

lemma parents_first_rev:
  assumes "parents_first nodes order" "distinct order" "set order = {..<length nodes}" "children_bounded nodes"
  shows "children_first nodes (rev order)"
  unfolding children_first_def
proof (intro allI impI subsetI)
  fix before i after c assume split: "rev order = before @ i # after" and c: "c \<in> node_children nodes i"
  have order: "order = rev after @ i # rev before" using arg_cong [OF split, of rev] by simp
  have i: "i < length nodes" using order assms(3) by auto
  have "c \<in> set order" using assms(3,4) c i by (auto simp: children_bounded_def)
  then obtain k where k: "k < length order" "order ! k = c" by (auto simp: in_set_conv_nth)
  have "i \<in> parents nodes c" using i c by (simp add: parents_def)
  then have "i \<in> set (take k order)" using assms(1) k by (auto simp: parents_first_def)
  then obtain j where j: "j < k" "order ! j = i" using k(1) by (auto simp: in_set_conv_nth)
  have "order ! length after = i" by (simp add: order nth_append)
  then have "j = length after" using j k(1) assms(2) order nth_eq_iff_index_eq [of order j "length after"] by simp
  then have "rev before ! (k - Suc (length after)) = c" using j(1) k(2) by (simp add: order nth_append nth_Cons')
  moreover have "k - Suc (length after) < length before" using j(1) k(1) \<open>j = length after\<close> by (simp add: order)
  ultimately show "c \<in> set before" by (metis length_rev nth_mem set_rev)
qed

lemma ReachableNodes_members:
  "length (eg_nodes g) < UINT32_MAX \<Longrightarrow>
    members (ReachableNodes g) = {i. i < length (eg_nodes g) \<and> 0 < eg_edge_count g ! i}"
  by (auto simp: ReachableNodes_def)

lemma emitted_length:
  assumes "emitted segments keys g condition_of ids index_of es" and "ids \<subseteq> {..<n}"
  shows "length es \<le> n"
proof -
  note d = assms(1) [unfolded emitted_def]
  have sub: "dom index_of \<subseteq> {..<n}" using d assms(2) by blast
  have "{..<length es} \<subseteq> (the \<circ> index_of) ` dom index_of"
  proof
    fix k assume "k \<in> {..<length es}"
    then have "k \<in> ran index_of" using d by simp
    then show "k \<in> (the \<circ> index_of) ` dom index_of" by (force simp: ran_def)
  qed
  then have "length es \<le> card (dom index_of)"
    using surj_card_le [OF finite_subset [OF sub finite_lessThan]] by fastforce
  also have "\<dots> \<le> n" using card_mono [OF finite_lessThan sub] by simp
  finally show ?thesis .
qed

lemma NodesToEntries_spec:
  assumes inv: "graph_inv segments keys {} edges g" and small: "length keys < UINT32_MAX"
    and em: "emitted segments keys g condition_of (set before) index_of es"
    and order: "children_first (eg_nodes g) (before @ ids)" "distinct (before @ ids)" "set (before @ ids) \<subseteq> {..<length keys}"
    and rec: "\<forall>i. recorded g (condition_of i)"
  shows "\<exists>index_of' es'. NodesToEntries g encoding (ReachableNodes g) condition_of ids index_of l es = Ok es' \<and>
    emitted segments keys g condition_of (set (before @ ids)) index_of' es'"
  using em order
proof (induction ids arbitrary: before index_of l es)
  case Nil
  then show ?case by auto
next
  case (Cons i ids)
  note d = graph_invD [OF inv]
  have i: "i < length keys" "i \<notin> set before" using Cons.prems(3,4) by auto
  note em = Cons.prems(1) [unfolded emitted_def]
  have order: "children_first (eg_nodes g) ((before @ [i]) @ ids)" "distinct ((before @ [i]) @ ids)"
    "set ((before @ [i]) @ ids) \<subseteq> {..<length keys}" using Cons.prems(2-4) by simp_all
  show ?case
  proof (cases "i \<in> members (ReachableNodes g)")
    case False
    have "emitted segments keys g condition_of (set (before @ [i])) index_of es"
      using Cons.prems(1) False unfolding emitted_def by simp
    from Cons.IH [OF this order, of l] False show ?thesis by simp
  next
    case True
    have sub: "node_children (eg_nodes g) i \<subseteq> set before" using Cons.prems(2) unfolding children_first_def by blast
    have child: "c \<in> dom index_of" if c: "c \<in> node_children (eg_nodes g) i" for c
    proof -
      have "c < length keys" using d(4) [OF i(1) c] by blast
      moreover have "parents (eg_nodes g) c \<noteq> {}" using c i(1) d(1) by (auto simp: parents_def)
      ultimately have "c \<in> members (ReachableNodes g)"
        using d(1,5) small by (simp add: ReachableNodes_members card_gt_0_iff)
      then show ?thesis using sub c em by blast
    qed
    have len: "length es \<le> length keys" by (rule emitted_length [OF Cons.prems(1)]) (use Cons.prems(4) in auto)
    have "\<forall>c \<in> set (to_vector (nd_children (eg_nodes g ! i))). \<exists>k. index_of c = Some k \<and> k < UINT32_MAX"
    proof
      fix c assume "c \<in> set (to_vector (nd_children (eg_nodes g ! i)))"
      then obtain k where k: "index_of c = Some k" using child by fastforce
      then have "k < length es" using em by (auto simp: ran_def)
      then show "\<exists>k. index_of c = Some k \<and> k < UINT32_MAX" using k len small by auto
    qed
    from ChildEntries_spec [OF this, of IntSet_empty] obtain S where
      S: "ChildEntries index_of (to_vector (nd_children (eg_nodes g ! i))) IntSet_empty = Inr S"
        "members S = (the \<circ> index_of) ` node_children (eg_nodes g) i" by auto
    let ?e = "(node_entry encoding (eg_nodes g ! i))\<lparr>en_coverage :=
      (en_coverage (node_entry encoding (eg_nodes g ! i)))\<lparr>cov_child_indices := S\<rparr>\<rparr>"
    have "recorded g (condition_of i)" using rec by blast
    from map_patches_spec [OF this, of l ?e] obtain e l' where
      e: "map_patches g (condition_of i) l ?e = Some (e, l')" "en_coverage e = en_coverage ?e"
        "en_patch_indices e \<noteq> []" "patches_match g (condition_of i) e" by blast
    have "emitted segments keys g condition_of (insert i (set before)) (index_of(i \<mapsto> length es)) (es @ [e])"
    proof (rule emitted_step [OF Cons.prems(1) i(2,1) True])
      show "node_children (eg_nodes g) i \<subseteq> dom index_of" using child by blast
      show "consistent segments keys (eg_nodes g ! i) (keys ! i)" using d(6) i(1) by blast
      show "card (node_children (eg_nodes g) i) \<le> 127" using d(7) i(1) by blast
      show "en_coverage e = (en_coverage (node_entry encoding (eg_nodes g ! i)))\<lparr>cov_child_indices := S\<rparr>"
        using e(2) by simp
    qed (rule S(2) e(3) e(4))+
    then have "emitted segments keys g condition_of (set (before @ [i])) (index_of(i \<mapsto> length es)) (es @ [e])" by simp
    from Cons.IH [OF this order, of l'] show ?thesis using True S(1) e(1)
      by (simp add: Let_def del: fun_upd_apply)
  qed
qed

section \<open>The entries of a graph that was built\<close>

lemma NodeToCondition_spec:
  assumes "map node_of ns = map Some ids" and "distinct ids" and "\<forall>i \<in> set ids. m i = None"
  shows "NodeToCondition node_of ns m = Inr (m ++ map_of (zip ids ns))"
  using assms
proof (induction ns arbitrary: ids m)
  case (Cons n ns)
  then obtain i js where ids: "ids = i # js" by (cases ids) auto
  have "NodeToCondition node_of ns (m(i \<mapsto> n)) = Inr (m(i \<mapsto> n) ++ map_of (zip js ns))"
    by (rule Cons.IH) (use Cons.prems ids in auto)
  moreover have "m(i \<mapsto> n) ++ map_of (zip js ns) = m ++ map_of (zip ids (n # ns))"
  proof -
    have "i \<notin> fst ` set (zip js ns)" using Cons.prems(2) ids by (auto dest: set_zip_leftD)
    then have none: "map_of (zip js ns) i = None" by (simp add: map_of_eq_None_iff)
    show ?thesis by (rule ext) (use none in \<open>simp add: ids map_add_def split: option.splits\<close>)
  qed
  moreover have "NodeToCondition node_of (n # ns) m = NodeToCondition node_of ns (m(i \<mapsto> n))"
    using Cons.prems ids by simp
  ultimately show ?case by (simp only:)
qed simp

text \<open>An entry that stands for a condition: it is used, loads its patches, and matches when it holds.\<close>

definition entry_for :: "segment_map \<Rightarrow> entry list \<Rightarrow> nat \<Rightarrow> activation_condition \<Rightarrow> bool" where
  "entry_for segments es k c \<longleftrightarrow> k < length es \<and> \<not> en_ignored (es ! k) \<and>
     en_patch_indices (es ! k) = patches_of c \<and> en_encoding (es ! k) = ac_encoding c \<and>
     (\<forall>target. map_matches target es ! k \<longleftrightarrow> AC_activates c (hit_segments segments target))"

definition small_entries :: "entry list \<Rightarrow> bool" where
  "small_entries es \<longleftrightarrow> (\<forall>e \<in> set es. card (members (cov_child_indices (en_coverage e))) \<le> 127)"

lemma built_entries:
  assumes b: "built segments cs keys ids g" and ok: "conditions_ok segments cs"
  shows "\<exists>es. ToPatchMapEntries encoding g = Ok es \<and> map_ok es \<and> small_entries es \<and>
    (\<forall>c \<in> set cs. \<exists>k. entry_for segments es k c) \<and>
    (\<forall>k < length es. en_ignored (es ! k) \<or> (\<exists>c \<in> set cs. entry_for segments es k c))"
proof -
  note bd = b [unfolded built_def]
  have inv: "graph_inv segments keys {} ids g" using bd by blast
  note d = graph_invD [OF inv]
  have small: "length keys < UINT32_MAX" using bd ok unfolding conditions_ok_def by linarith
  have dist: "distinct ids" by (rule built_distinct [OF b ok])
  have lens: "length ids = length cs" using bd by (metis length_map)
  let ?cond = "map_of (zip ids (map Normalize cs))"
  have pm: "eg_patch_mappings g = map (\<lambda>c. (Normalize c, patches_of c)) cs" using bd by blast
  have cond: "NodeToCondition (eg_condition_node g) (map fst (eg_patch_mappings g)) (\<lambda>_. None) = Inr ?cond"
    using NodeToCondition_spec [of "eg_condition_node g" "map Normalize cs" ids "\<lambda>_. None"] bd dist pm
    by (simp add: comp_def map_add_def)
  obtain order where o: "TopologicalSort g = Ok order" "distinct order" "set order = {..<length (eg_nodes g)}"
    "parents_first (eg_nodes g) order"
    using TopologicalSort_spec [OF built_counts_ok [OF b]] built_acyclic [OF b] by auto
  have cf: "children_first (eg_nodes g) ([] @ rev order)"
    using parents_first_rev [OF o(4,2,3)] built_counts_ok [OF b] by (simp add: counts_ok_def)
  have cond_nth: "?cond (ids ! j) = Some (Normalize (cs ! j))" if "j < length cs" for j
    using that lens dist by (simp add: map_of_zip_nth)
  have cond_Some: "\<exists>j < length cs. i = ids ! j \<and> n = Normalize (cs ! j)" if "?cond i = Some n" for i n
    using map_of_SomeD [OF that] lens by (auto simp: in_set_zip)
  have dn: "distinct (map Normalize cs)" using ok by (simp add: conditions_ok_def)
  have look: "map_of (map (\<lambda>c. (Normalize c, f c)) cs) (Normalize c) = Some (f c)" if "c \<in> set cs"
    for f :: "activation_condition \<Rightarrow> 'a" and c
    using that dn by (intro map_of_is_SomeI) (auto simp: comp_def)
  have pmap: "map_of (eg_patch_mappings g) (Normalize c) = Some (patches_of c)"
    "eg_patch_encodings g (Normalize c) = Some (ac_encoding c)" if "c \<in> set cs" for c
    using look [OF that] bd by simp_all
  have rec: "\<forall>i. recorded g (?cond i)"
    unfolding recorded_def using cond_Some pmap by (fastforce simp: patches_of_def)
  have "emitted segments keys g ?cond (set []) (\<lambda>_. None) []"
    by (simp add: emitted_def map_ok_Nil)
  from NodesToEntries_spec [OF inv small this cf _ _ rec, of encoding 0] o(2,3) d(1)
  obtain index_of es where es: "NodesToEntries g encoding (ReachableNodes g) ?cond (rev order) (\<lambda>_. None) 0 [] = Ok es"
    "emitted segments keys g ?cond {..<length keys} index_of es"
    by auto
  note em = es(2) [unfolded emitted_def]
  have index: "\<exists>i. index_of i = Some k" if "k < length es" for k
  proof -
    have "k \<in> ran index_of" using em that by simp
    then show ?thesis by (simp add: ran_def)
  qed
  have run: "ToPatchMapEntries encoding g = Ok es"
    using cond o(1) es(1) by (simp add: ToPatchMapEntries_def)
  have entry: "entry_for segments es k (cs ! j)" if k: "index_of (ids ! j) = Some k" and j: "j < length cs" for j k
  proof -
    have less: "k < length es" using k em by (auto simp: ran_def)
    have pmat: "patches_match g (?cond (ids ! j)) (es ! k)" using em k by blast
    have cj: "cs ! j \<in> set cs" using j by simp
    have "keys ! (ids ! j) = condition_key segments (Normalize (cs ! j))"
      using bd j lens by (metis (no_types, lifting) nth_map)
    moreover have "key_holds segments t (condition_key segments (Normalize (cs ! j))) \<longleftrightarrow>
        AC_activates (cs ! j) (hit_segments segments t)" for t
    proof -
      have "\<forall>S \<in> set (ac_conditions (Normalize (cs ! j))). group_ok segments S"
        using ok cj unfolding conditions_ok_def condition_ok_def by blast
      from condition_key_holds [OF this, of t] show ?thesis by (simp add: AC_activates_def)
    qed
    ultimately have "map_matches t es ! k \<longleftrightarrow> AC_activates (cs ! j) (hit_segments segments t)" for t
      using em k by metis
    then show ?thesis unfolding entry_for_def using less pmat pmap [OF cj]
      by (simp add: patches_match_def cond_nth [OF j])
  qed
  have "\<exists>k. entry_for segments es k c" if c: "c \<in> set cs" for c
  proof -
    obtain j where j: "j < length cs" "cs ! j = c" using c unfolding in_set_conv_nth by blast
    have "ids ! j \<in> set ids" using j(1) lens by simp
    then have "ids ! j < length keys" "count_list ids (ids ! j) \<noteq> 0"
      using d(3) by (auto simp: count_list_0_iff)
    then have "ids ! j \<in> dom index_of"
      using em d(1,5) small by (simp add: ReachableNodes_members)
    then show ?thesis using entry j by blast
  qed
  moreover have "en_ignored (es ! k) \<or> (\<exists>c \<in> set cs. entry_for segments es k c)" if k: "k < length es" for k
  proof -
    obtain i where i: "index_of i = Some k" using index [OF k] by blast
    show ?thesis
    proof (cases "?cond i")
      case None
      moreover have "patches_match g (?cond i) (es ! k)" using em i by blast
      ultimately show ?thesis by (simp add: patches_match_def)
    next
      case (Some n)
      with cond_Some obtain j where "j < length cs" "i = ids ! j" by blast
      then show ?thesis using entry i nth_mem by blast
    qed
  qed
  moreover have "small_entries es"
    unfolding small_entries_def
  proof
    fix e assume "e \<in> set es"
    then obtain k where k: "k < length es" "es ! k = e" unfolding in_set_conv_nth by blast
    obtain i where "index_of i = Some k" using index [OF k(1)] by blast
    then show "card (members (cov_child_indices (en_coverage e))) \<le> 127" using em k(2) by blast
  qed
  ultimately show ?thesis using run em by blast
qed

end
