(* ===== verification/Graph_Properties.thy ===== *)
theory Graph_Properties
  imports Entry_Output
begin

text \<open>
  Properties of the condition graph: the entries it produces match exactly when their conditions
  hold, its topological order, and what its nodes look like.
\<close>

section \<open>Entries\<close>

text \<open>C5: for usable conditions \<^verbatim>\<open>EntryGraph::Create\<close> and
  \<^verbatim>\<open>ToPatchMapEntries\<close> return entries without an error; every condition has an entry with its
  patches and its encoding that matches a target subset just if the segments that the target
  touches make the condition true, and every other entry is ignored. Entries only refer to
  earlier ones, to at most 127 of them. Conditions are usable when their groups are not empty, the segments that
  they use exist, are not empty and differ in content from each other, no two of them normalize to the same
  condition, and the nodes that they may need have ids of 32 bits.\<close>

theorem entries_match_conditions:
  assumes "conditions_ok segments conditions"
  shows "\<exists>g es. EntryGraph_Create conditions segments = Ok g \<and> ToPatchMapEntries encoding g = Ok es \<and>
    map_ok es \<and> small_entries es \<and>
    (\<forall>c \<in> set conditions. \<exists>k. entry_for segments es k c) \<and>
    (\<forall>k < length es. en_ignored (es ! k) \<or> (\<exists>c \<in> set conditions. entry_for segments es k c))"
proof -
  obtain g keys ids where "EntryGraph_Create conditions segments = Ok g" "built segments conditions keys ids g"
    by (rule EntryGraph_Create_built [OF assms])
  then show ?thesis using built_entries [OF _ assms] by blast
qed

text \<open>Two segments, the letter a and the feature smcp, and two conditions over them.\<close>

definition example_segments :: segment_map where
  "example_segments s =
     (if s = 0 then Some \<lparr>sd_codepoints = IntSet [97], sd_gids = IntSet_empty, sd_feature_tags = [], sd_design_space = []\<rparr>
      else if s = 1 then Some \<lparr>sd_codepoints = IntSet_empty, sd_gids = IntSet_empty, sd_feature_tags = [0x736D6370],
        sd_design_space = []\<rparr>
      else None)"

definition example_conditions :: "activation_condition list" where
  "example_conditions = [or_segments (IntSet [0, 1]) 7 False, exclusive_segment 0 8]"

lemma example_ok: "conditions_ok example_segments example_conditions"
proof -
  have m: "members (IntSet [0, 1]) = {0, 1}" "members (IntSet [0]) = {0}" by auto
  have s: "IntSet_size (IntSet [0, 1]) = 2" "IntSet_size (IntSet [0]) = 1"
    unfolding size_eq_card m by simp_all
  have seg: "segment_ok example_segments 0" "segment_ok example_segments 1"
    by (simp_all add: segment_ok_def example_segments_def has_content_def)
  have groups: "group_ok example_segments (IntSet [0, 1])" "group_ok example_segments (IntSet [0])"
    unfolding group_ok_def m using seg by blast+
  have ne: "IntSet [0, 1] \<noteq> IntSet [0]" using s by auto
  show ?thesis
    unfolding conditions_ok_def example_conditions_def
  proof (intro conjI)
    have "distinct_segments example_segments used" for used
      unfolding distinct_segments_def example_segments_def by auto
    then show "distinct_segments example_segments
        (\<Union>c \<in> set [or_segments (IntSet [0, 1]) 7 False, exclusive_segment 0 8]. used_segments (Normalize c))" .
    show "\<forall>c \<in> set [or_segments (IntSet [0, 1]) 7 False, exclusive_segment 0 8].
        condition_ok example_segments (Normalize c)"
      using groups by (simp add: condition_ok_def)
    have "Normalize (or_segments (IntSet [0, 1]) 7 False) \<noteq> Normalize (exclusive_segment 0 8)"
    proof
      assume "Normalize (or_segments (IntSet [0, 1]) 7 False) = Normalize (exclusive_segment 0 8)"
      then have "ac_conditions (Normalize (or_segments (IntSet [0, 1]) 7 False)) =
        ac_conditions (Normalize (exclusive_segment 0 8))" by (rule arg_cong)
      then show False using ne by simp
    qed
    then show "distinct (map Normalize [or_segments (IntSet [0, 1]) 7 False, exclusive_segment 0 8])" by simp
    show "sum_list (map condition_weight [or_segments (IntSet [0, 1]) 7 False, exclusive_segment 0 8]) < UINT32_MAX"
      using s by (simp add: condition_weight_def group_weight_def)
  qed
qed

lemma entries_match_conditions_witness:
  "\<exists>g es. EntryGraph_Create example_conditions example_segments = Ok g \<and>
    ToPatchMapEntries GLYPH_KEYED g = Ok es \<and>
    (\<exists>k. entry_for example_segments es k (or_segments (IntSet [0, 1]) 7 False))"
proof -
  have "or_segments (IntSet [0, 1]) 7 False \<in> set example_conditions" by (simp add: example_conditions_def)
  with entries_match_conditions [OF example_ok, of GLYPH_KEYED] show ?thesis by blast
qed

section \<open>The order of the nodes\<close>

text \<open>C26: when the edge counts are those of the graph, as on the graphs of C27, \<^verbatim>\<open>TopologicalSort\<close> returns every node once,
  parents before children, if the graph has no cycle, and the internal error if it has one.\<close>

theorem TopologicalSort_order:
  assumes "counts_ok g"
  shows "if acyclic (graph_edges (eg_nodes g))
    then \<exists>order. TopologicalSort g = Ok order \<and> distinct order \<and> set order = {..<length (eg_nodes g)} \<and>
      parents_first (eg_nodes g) order
    else TopologicalSort g = Fail InternalError"
  by (rule TopologicalSort_spec [OF assms])

lemma TopologicalSort_order_witness:
  "TopologicalSort (EntryGraph\<lparr>eg_nodes := [EntryNode\<lparr>nd_children := IntSet [0]\<rparr>], eg_edge_count := [1]\<rparr>) =
    Fail InternalError"
proof -
  let ?g = "EntryGraph\<lparr>eg_nodes := [EntryNode\<lparr>nd_children := IntSet [0]\<rparr>], eg_edge_count := [1]\<rparr>"
  have m: "members (IntSet [0]) = {0}" by auto
  have parents: "parents (eg_nodes ?g) 0 = {0}" by (auto simp: parents_def m simp del: members_IntSet)
  have "top_nodes ?g = []" by (simp add: top_nodes_def EntryGraph_def List.map_filter_def)
  then have "counts_ok ?g" using parents by (simp add: counts_ok_def children_bounded_def m del: members_IntSet)
  moreover have "(0, 0) \<in> graph_edges (eg_nodes ?g)" by (simp add: graph_edges_def m del: members_IntSet)
  then have "\<not> acyclic (graph_edges (eg_nodes ?g))" by (auto simp: acyclic_def)
  ultimately show ?thesis using TopologicalSort_order [of ?g] by (simp only: if_False)
qed

text \<open>C27: a graph that \<^verbatim>\<open>Create\<close> returns for usable conditions, as in C5, is well formed: a count for each
  node that is the number of edges into it, children that are nodes, at most 127 of them, and no cycle.
  Without the different contents of the used segments the counts may be too high.\<close>

theorem graph_well_formed:
  assumes "conditions_ok segments conditions" and "EntryGraph_Create conditions segments = Ok g"
  shows "counts_ok g \<and> acyclic (graph_edges (eg_nodes g)) \<and>
    (\<forall>n \<in> set (eg_nodes g). IntSet_size (nd_children n) \<le> 127) \<and>
    map fst (eg_patch_mappings g) = map Normalize conditions"
proof -
  obtain g' keys ids where "EntryGraph_Create conditions segments = Ok g'" "built segments conditions keys ids g'"
    by (rule EntryGraph_Create_built [OF assms(1)])
  then have b: "built segments conditions keys ids g" using assms(2) by simp
  have inv: "graph_inv segments keys {} ids g" using b by (simp add: built_def)
  have "IntSet_size (nd_children n) \<le> 127" if n: "n \<in> set (eg_nodes g)" for n
  proof -
    obtain i where "i < length (eg_nodes g)" "eg_nodes g ! i = n" using n unfolding in_set_conv_nth by blast
    then show ?thesis using graph_invD(1,7) [OF inv] unfolding size_eq_card by auto
  qed
  moreover have "map fst (eg_patch_mappings g) = map Normalize conditions"
    using b by (simp add: built_def comp_def)
  ultimately show ?thesis using built_counts_ok [OF b] built_acyclic [OF b] by blast
qed

lemma graph_well_formed_witness:
  "\<exists>g. EntryGraph_Create example_conditions example_segments = Ok g \<and> counts_ok g \<and>
    acyclic (graph_edges (eg_nodes g))"
proof -
  obtain g keys ids where "EntryGraph_Create example_conditions example_segments = Ok g"
    by (rule EntryGraph_Create_built [OF example_ok])
  with graph_well_formed [OF example_ok this] show ?thesis by blast
qed

end
