(* ===== verification/Glyph_Conditions.thy ===== *)
theory Glyph_Conditions
  imports Activation_Condition "HOL-Library.Mapping"
begin

text \<open>
  The condition of every glyph of a font, with an index from segments to glyphs
  (\<^verbatim>\<open>ift/encoder/glyph_condition_set.h\<close>). A glyph id outside of the vector gives \<open>None\<close>.
\<close>

section \<open>The condition of a glyph\<close>

text \<open>\<^verbatim>\<open>GlyphConditions::RemoveSegments\<close> returns the segments that are gone from the condition.\<close>

definition without_segments :: "int_set \<Rightarrow> cnf \<Rightarrow> cnf" where
  "without_segments segments groups =
     filter (\<lambda>g. \<not> IntSet_is_empty g) (map (\<lambda>g. IntSet_subtract g segments) groups)"

definition RemoveSegments :: "int_set \<Rightarrow> activation_condition \<Rightarrow> activation_condition \<times> int_set" where
  "RemoveSegments segments condition =
     (let removed_segments = TriggeringSegments condition;
          was_disjunctive = IsPurelyDisjunctive condition;
          new_conditions = without_segments segments (ac_conditions condition);
          new_is_unitary = (length new_conditions = 1 \<and> IntSet_size (hd new_conditions) = 1);
          condition =
            (if new_conditions = [] then AC_True 0
             else if \<not> was_disjunctive \<and> new_is_unitary
               then exclusive_segment (hd (to_vector (hd new_conditions))) 0
             else if was_disjunctive then or_segments (hd new_conditions) 0 False
             else composite_condition new_conditions 0 False)
      in (condition, IntSet_subtract removed_segments (TriggeringSegments condition)))"

section \<open>The set of conditions\<close>

record glyph_condition_set =
  gs_conditions :: "activation_condition list"
  gs_segments :: "(segment_index, int_set) mapping"

definition GlyphConditionSet :: "nat \<Rightarrow> glyph_condition_set" where
  "GlyphConditionSet num_glyphs =
     \<lparr>gs_conditions = replicate num_glyphs (AC_True 0), gs_segments = Mapping.empty\<rparr>"

definition ConditionsFor :: "nat \<Rightarrow> glyph_condition_set \<Rightarrow> activation_condition option" where
  "ConditionsFor gid s = (if gid < length (gs_conditions s) then Some (gs_conditions s ! gid) else None)"

definition GlyphsWithSegment :: "segment_index \<Rightarrow> glyph_condition_set \<Rightarrow> int_set" where
  "GlyphsWithSegment segment s = Mapping.lookup_default IntSet_empty (gs_segments s) segment"

text \<open>\<^verbatim>\<open>segment_to_gid_conditions_[s]\<close> inserts an empty set for an unknown segment.\<close>

definition upd_glyphs :: "(int_set \<Rightarrow> int_set) \<Rightarrow> segment_index \<Rightarrow> (segment_index, int_set) mapping \<Rightarrow>
    (segment_index, int_set) mapping" where
  "upd_glyphs f s m = Mapping.update s (f (Mapping.lookup_default IntSet_empty m s)) m"

definition erase_glyph :: "nat \<Rightarrow> segment_index \<Rightarrow> (segment_index, int_set) mapping \<Rightarrow> (segment_index, int_set) mapping" where
  "erase_glyph gid = upd_glyphs (\<lambda>glyphs. fst (IntSet_erase gid glyphs))"

definition set_condition :: "nat \<Rightarrow> activation_condition \<Rightarrow> glyph_condition_set \<Rightarrow> glyph_condition_set" where
  "set_condition gid condition s = s\<lparr>gs_conditions := (gs_conditions s)[gid := condition]\<rparr>"

definition AddCondition :: "(activation_condition \<Rightarrow> activation_condition) \<Rightarrow> nat \<Rightarrow> segment_index \<Rightarrow>
    glyph_condition_set \<Rightarrow> glyph_condition_set option" where
  "AddCondition f gid segment s = (if length (gs_conditions s) \<le> gid then None
     else let s = set_condition gid (f (gs_conditions s ! gid)) s
       in Some (s\<lparr>gs_segments := upd_glyphs (IntSet_insert gid) segment (gs_segments s)\<rparr>))"

definition AddAndCondition :: "nat \<Rightarrow> segment_index \<Rightarrow> glyph_condition_set \<Rightarrow> glyph_condition_set option" where
  "AddAndCondition gid segment = AddCondition (\<lambda>condition.
     if IsAlwaysTrue condition then exclusive_segment segment 0
     else AC_And condition (exclusive_segment segment 0)) gid segment"

definition AddOrCondition :: "nat \<Rightarrow> segment_index \<Rightarrow> glyph_condition_set \<Rightarrow> glyph_condition_set option" where
  "AddOrCondition gid segment = AddCondition (\<lambda>condition.
     if IsAlwaysTrue condition then or_segments (IntSet [segment]) 0 False
     else AC_Or condition (or_segments (IntSet [segment]) 0 False)) gid segment"

definition SetCondition :: "nat \<Rightarrow> activation_condition \<Rightarrow> glyph_condition_set \<Rightarrow> glyph_condition_set option" where
  "SetCondition gid condition s = (if length (gs_conditions s) \<le> gid then None
     else let m = fold (erase_glyph gid) (to_vector (TriggeringSegments (gs_conditions s ! gid))) (gs_segments s);
              s = set_condition gid condition s
       in Some (s\<lparr>gs_segments :=
            fold (upd_glyphs (IntSet_insert gid)) (to_vector (TriggeringSegments condition)) m\<rparr>))"

definition RemoveSegmentsFromGlyph :: "int_set \<Rightarrow> nat \<Rightarrow> glyph_condition_set \<Rightarrow> glyph_condition_set option" where
  "RemoveSegmentsFromGlyph segments gid s = (if length (gs_conditions s) \<le> gid then None
     else case RemoveSegments segments (gs_conditions s ! gid) of (condition, removed) \<Rightarrow>
       Some ((set_condition gid condition s)\<lparr>gs_segments :=
         fold (erase_glyph gid) (to_vector removed) (gs_segments s)\<rparr>))"

fun fold_glyphs :: "(nat \<Rightarrow> 's \<Rightarrow> 's option) \<Rightarrow> nat list \<Rightarrow> 's \<Rightarrow> 's option" where
  "fold_glyphs f [] s = Some s"
| "fold_glyphs f (gid # gids) s = Option.bind (f gid s) (fold_glyphs f gids)"

text \<open>The three overloads of \<^verbatim>\<open>InvalidateGlyphInformation\<close>: by glyphs, by segments, by both.\<close>

definition invalidate_glyph :: "nat \<Rightarrow> int_set \<times> glyph_condition_set \<Rightarrow> (int_set \<times> glyph_condition_set) option" where
  "invalidate_glyph gid = (\<lambda>(touched, s). if length (gs_conditions s) \<le> gid then None
     else Some (IntSet_union_set touched (TriggeringSegments (gs_conditions s ! gid)), set_condition gid (AC_True 0) s))"

definition InvalidateGlyphs :: "int_set \<Rightarrow> glyph_condition_set \<Rightarrow> glyph_condition_set option" where
  "InvalidateGlyphs glyphs s = Option.bind (fold_glyphs invalidate_glyph (to_vector glyphs) (IntSet_empty, s))
     (\<lambda>(touched, s). Some (s\<lparr>gs_segments :=
        fold (upd_glyphs (\<lambda>g. IntSet_subtract g glyphs)) (to_vector touched) (gs_segments s)\<rparr>))"

definition InvalidateSegments :: "int_set \<Rightarrow> glyph_condition_set \<Rightarrow> glyph_condition_set option" where
  "InvalidateSegments segments s =
     (let touched = fold (\<lambda>i touched. IntSet_union_set touched (GlyphsWithSegment i s)) (to_vector segments) IntSet_empty;
          s = s\<lparr>gs_segments := fold (upd_glyphs (\<lambda>_. IntSet_empty)) (to_vector segments) (gs_segments s)\<rparr>
      in fold_glyphs (RemoveSegmentsFromGlyph segments) (to_vector touched) s)"

definition InvalidateGlyphsAndSegments :: "int_set \<Rightarrow> int_set \<Rightarrow> glyph_condition_set \<Rightarrow> glyph_condition_set option" where
  "InvalidateGlyphsAndSegments glyphs segments s =
     fold_glyphs (RemoveSegmentsFromGlyph segments) (to_vector glyphs) s"

text \<open>\<^verbatim>\<open>Validate\<close>; which entry it reports does not show in the status.\<close>

definition Validate :: "glyph_condition_set \<Rightarrow> unit status_or option" where
  "Validate s =
     (let pairs = concat (map (\<lambda>i. map (\<lambda>g. (i, g)) (to_vector (GlyphsWithSegment i s))) (Mapping.ordered_keys (gs_segments s)))
      in if list_ex (\<lambda>(i, g). length (gs_conditions s) \<le> g) pairs then None
         else if list_all (\<lambda>(i, g). IntSet_contains (TriggeringSegments (gs_conditions s ! g)) i) pairs then Some (Inr ())
         else Some (Inl InternalError))"

section \<open>The index and the conditions\<close>

lemma members_TriggeringSegments: "members (TriggeringSegments c) = (\<Union>g \<in> set (ac_conditions c). members g)"
proof -
  have "members (fold (\<lambda>g out. IntSet_union_set out g) gs S) = members S \<union> (\<Union>g \<in> set gs. members g)" for gs S
    by (induction gs arbitrary: S) auto
  then show ?thesis by (simp add: TriggeringSegments_def)
qed

text \<open>The glyphs that a map has for a segment.\<close>

definition glyphs_in :: "(segment_index, int_set) mapping \<Rightarrow> segment_index \<Rightarrow> nat set" where
  "glyphs_in m i = members (Mapping.lookup_default IntSet_empty m i)"

lemma glyphs_in_empty [simp]: "glyphs_in Mapping.empty i = {}"
  by (simp add: glyphs_in_def Mapping.lookup_default_empty)

lemma glyphs_in_fold:
  assumes "\<And>X. members (f X) = F (members X)" and "\<And>X. F (F X) = F X"
  shows "glyphs_in (fold (upd_glyphs f) is m) i = (if i \<in> set is then F (glyphs_in m i) else glyphs_in m i)"
proof (induction "is" arbitrary: m)
  case (Cons j js)
  have "glyphs_in (upd_glyphs f j m) i = (if i = j then F (glyphs_in m i) else glyphs_in m i)"
    using assms(1) by (simp add: glyphs_in_def upd_glyphs_def Mapping.lookup_default_update')
  with Cons [of "upd_glyphs f j m"] show ?case using assms(2) by (auto split: if_splits)
qed simp

lemma glyphs_in_erase:
  "glyphs_in (fold (erase_glyph g) is m) i = glyphs_in m i - (if i \<in> set is then {g} else {})"
  unfolding erase_glyph_def by (subst glyphs_in_fold [where F = "\<lambda>X. X - {g}"]) (auto simp: IntSet_erase_def)

lemma glyphs_in_insert:
  "g < UINT32_MAX \<Longrightarrow> glyphs_in (fold (upd_glyphs (IntSet_insert g)) is m) i = glyphs_in m i \<union> (if i \<in> set is then {g} else {})"
  by (subst glyphs_in_fold [where F = "insert g"]) auto

lemma glyphs_in_subtract:
  "glyphs_in (fold (upd_glyphs (\<lambda>S. IntSet_subtract S glyphs)) is m) i = glyphs_in m i - (if i \<in> set is then members glyphs else {})"
  by (subst glyphs_in_fold [where F = "\<lambda>X. X - members glyphs"]) auto

lemma glyphs_in_clear: "glyphs_in (fold (upd_glyphs (\<lambda>_. IntSet_empty)) is m) i = (if i \<in> set is then {} else glyphs_in m i)"
  by (subst glyphs_in_fold [where F = "\<lambda>_. {}"]) auto

text \<open>
  The index has every glyph of a segment (\<open>index_covers\<close>); it is exact when it has no other.
  \<^verbatim>\<open>AddAndCondition\<close> and \<^verbatim>\<open>AddOrCondition\<close> only keep the first, as they may simplify a segment away.
\<close>

definition triggers :: "glyph_condition_set \<Rightarrow> segment_index \<Rightarrow> nat set" where
  "triggers s i = {g. g < length (gs_conditions s) \<and> i \<in> members (TriggeringSegments (gs_conditions s ! g))}"

definition index_covers :: "glyph_condition_set \<Rightarrow> bool" where
  "index_covers s \<longleftrightarrow> length (gs_conditions s) \<le> UINT32_MAX \<and>
     (\<forall>i. triggers s i \<subseteq> glyphs_in (gs_segments s) i \<and> glyphs_in (gs_segments s) i \<subseteq> {..<length (gs_conditions s)})"

definition index_exact :: "glyph_condition_set \<Rightarrow> bool" where
  "index_exact s \<longleftrightarrow> length (gs_conditions s) \<le> UINT32_MAX \<and> (\<forall>i. glyphs_in (gs_segments s) i = triggers s i)"

lemma index_exact_covers: "index_exact s \<Longrightarrow> index_covers s"
  by (auto simp: index_exact_def index_covers_def triggers_def)

lemma index_init: "n \<le> UINT32_MAX \<Longrightarrow> index_exact (GlyphConditionSet n)"
  by (auto simp: index_exact_def triggers_def GlyphConditionSet_def AC_True_def members_TriggeringSegments)

text \<open>One glyph gets the condition \<open>c\<close>, and the map \<open>m\<close> follows.\<close>

lemma triggers_set_condition: "gid < length (gs_conditions s) \<Longrightarrow>
    triggers (set_condition gid c s\<lparr>gs_segments := m\<rparr>) i =
      triggers s i - {gid} \<union> (if i \<in> members (TriggeringSegments c) then {gid} else {})"
  by (auto simp: triggers_def set_condition_def nth_list_update split: if_splits)

lemma gs_step:
  assumes gid: "gid < length (gs_conditions s)"
    and m: "\<And>i. glyphs_in m i - {gid} = glyphs_in (gs_segments s) i - {gid}"
    and covers: "\<And>i. i \<in> members (TriggeringSegments c) \<Longrightarrow> gid \<in> glyphs_in m i"
  shows "index_covers s \<Longrightarrow> index_covers (set_condition gid c s\<lparr>gs_segments := m\<rparr>)"
    and "index_exact s \<Longrightarrow> (\<And>i. gid \<in> glyphs_in m i \<Longrightarrow> i \<in> members (TriggeringSegments c)) \<Longrightarrow>
      index_exact (set_condition gid c s\<lparr>gs_segments := m\<rparr>)"
proof -
  assume cov: "index_covers s"
  have "triggers s i - {gid} \<subseteq> glyphs_in m i" "glyphs_in m i \<subseteq> {..<length (gs_conditions s)}" for i
    using cov m [of i] gid unfolding index_covers_def by blast+
  then show "index_covers (set_condition gid c s\<lparr>gs_segments := m\<rparr>)"
    using cov covers unfolding index_covers_def triggers_set_condition [OF gid] by (auto simp: set_condition_def)
next
  assume ex: "index_exact s" and only: "\<And>i. gid \<in> glyphs_in m i \<Longrightarrow> i \<in> members (TriggeringSegments c)"
  have "glyphs_in m i = triggers s i - {gid} \<union> (if i \<in> members (TriggeringSegments c) then {gid} else {})" for i
    using ex m [of i] covers [of i] only [of i] unfolding index_exact_def by (auto split: if_splits)
  then show "index_exact (set_condition gid c s\<lparr>gs_segments := m\<rparr>)"
    using ex unfolding index_exact_def triggers_set_condition [OF gid] by (simp add: set_condition_def)
qed

lemma AddCondition_covers:
  assumes run: "AddCondition f gid segment s = Some s'" and cov: "index_covers s"
    and f: "\<And>c. members (TriggeringSegments (f c)) \<subseteq> insert segment (members (TriggeringSegments c))"
  shows "index_covers s'" and "index_exact s \<Longrightarrow>
    members (TriggeringSegments (f (gs_conditions s ! gid))) = insert segment (members (TriggeringSegments (gs_conditions s ! gid))) \<Longrightarrow>
    index_exact s'"
proof -
  have gid: "gid < length (gs_conditions s)" using run by (simp add: AddCondition_def split: if_splits)
  have g32: "gid < UINT32_MAX" using gid cov by (simp add: index_covers_def)
  let ?c = "f (gs_conditions s ! gid)" let ?m = "fold (upd_glyphs (IntSet_insert gid)) [segment] (gs_segments s)"
  have s': "s' = set_condition gid ?c s\<lparr>gs_segments := ?m\<rparr>"
    using run gid by (simp add: AddCondition_def Let_def set_condition_def)
  note m = glyphs_in_insert [OF g32, of "[segment]" "gs_segments s"]
  have old: "i \<in> members (TriggeringSegments (gs_conditions s ! gid)) \<Longrightarrow> gid \<in> glyphs_in (gs_segments s) i" for i
    using cov gid by (auto simp: index_covers_def triggers_def)
  have c1: "glyphs_in ?m i - {gid} = glyphs_in (gs_segments s) i - {gid}" for i by (simp only: m) auto
  have c2: "gid \<in> glyphs_in ?m i" if "i \<in> members (TriggeringSegments ?c)" for i
    using f [of "gs_conditions s ! gid"] that old [of i] by (simp only: m) auto
  show "index_covers s'" unfolding s' by (rule gs_step(1) [OF gid c1 c2 cov])
  assume ex: "index_exact s"
    and eq: "members (TriggeringSegments ?c) = insert segment (members (TriggeringSegments (gs_conditions s ! gid)))"
  show "index_exact s'" unfolding s'
  proof (rule gs_step(2) [OF gid c1 c2 ex])
    fix i assume "gid \<in> glyphs_in ?m i"
    then have "gid \<in> glyphs_in (gs_segments s) i \<or> i = segment" unfolding m by (auto split: if_splits)
    then show "i \<in> members (TriggeringSegments ?c)" unfolding eq using ex by (auto simp: index_exact_def triggers_def)
  qed
qed

lemma SetCondition_index:
  assumes run: "SetCondition gid c s = Some s'" and cov: "index_covers s"
  shows "index_covers s'" and "index_exact s \<Longrightarrow> index_exact s'"
proof -
  have gid: "gid < length (gs_conditions s)" using run by (simp add: SetCondition_def split: if_splits)
  have g32: "gid < UINT32_MAX" using gid cov by (simp add: index_covers_def)
  let ?old = "TriggeringSegments (gs_conditions s ! gid)"
  let ?m = "fold (upd_glyphs (IntSet_insert gid)) (to_vector (TriggeringSegments c))
    (fold (erase_glyph gid) (to_vector ?old) (gs_segments s))"
  have s': "s' = set_condition gid c s\<lparr>gs_segments := ?m\<rparr>"
    using run gid by (simp add: SetCondition_def Let_def set_condition_def)
  have m: "glyphs_in ?m i = glyphs_in (gs_segments s) i - (if i \<in> members ?old then {gid} else {}) \<union>
      (if i \<in> members (TriggeringSegments c) then {gid} else {})" for i
    by (simp add: glyphs_in_insert [OF g32] glyphs_in_erase)
  have c1: "glyphs_in ?m i - {gid} = glyphs_in (gs_segments s) i - {gid}" for i by (simp only: m) auto
  have c2: "gid \<in> glyphs_in ?m i" if "i \<in> members (TriggeringSegments c)" for i using that by (simp only: m) auto
  show "index_covers s'" unfolding s' by (rule gs_step(1) [OF gid c1 c2 cov])
  assume ex: "index_exact s"
  show "index_exact s'" unfolding s'
  proof (rule gs_step(2) [OF gid c1 c2 ex])
    fix i assume "gid \<in> glyphs_in ?m i"
    then show "i \<in> members (TriggeringSegments c)"
      unfolding m using ex gid by (auto simp: index_exact_def triggers_def split: if_splits)
  qed
qed

section \<open>Removing segments\<close>

lemma Simplify_subset: "set (Simplify c) \<subseteq> set c"
  by (auto simp: set_Simplify minimal_groups_def)

lemma hd_to_vector_single: "IntSet_size S = 1 \<Longrightarrow> members S = {hd (to_vector S)} \<and> hd (to_vector S) < UINT32_MAX"
proof -
  assume "IntSet_size S = 1"
  then obtain x where x: "to_vector S = [x]" by (auto simp: IntSet_size_def length_Suc_conv)
  then have "members S = {x}" using set_to_vector [of S] by simp
  then show ?thesis using x members_bound [of x S] by simp
qed

lemma RemoveSegments_spec:
  fixes c segs
  defines "c' \<equiv> fst (RemoveSegments segs c)"
  shows "members (TriggeringSegments c') \<subseteq> members (TriggeringSegments c) - members segs"
    and "members (snd (RemoveSegments segs c)) = members (TriggeringSegments c) - members (TriggeringSegments c')"
    and "AC_activates c' I \<longleftrightarrow> (\<forall>g \<in> set (ac_conditions c). members g \<subseteq> members segs \<or> (members g - members segs) \<inter> I \<noteq> {})"
proof -
  let ?new = "without_segments segs (ac_conditions c)"
  have new: "set ?new = {IntSet_subtract g segs | g. g \<in> set (ac_conditions c) \<and> \<not> members g \<subseteq> members segs}"
  proof -
    have "IntSet_is_empty (IntSet_subtract g segs) \<longleftrightarrow> members g \<subseteq> members segs" for g by auto
    then show ?thesis unfolding without_segments_def set_filter set_map by blast
  qed
  have groups: "set (ac_conditions c') \<subseteq> set ?new \<and> (AC_activates c' I \<longleftrightarrow> activates ?new I)"
  proof (cases "?new = []")
    case True
    then show ?thesis by (simp add: c'_def RemoveSegments_def Let_def AC_True_def AC_activates_def)
  next
    case nonempty: False
    show ?thesis
    proof (cases "IsPurelyDisjunctive c")
      case True
      then have "length ?new \<le> 1" unfolding without_segments_def IsPurelyDisjunctive_def
        by (metis length_filter_le length_map)
      with nonempty obtain g where g: "?new = [g]" by (cases ?new) auto
      then show ?thesis using True nonempty
        by (simp add: c'_def RemoveSegments_def Let_def or_segments_def ActivationCondition_def AC_activates_def)
    next
      case False
      show ?thesis
      proof (cases "length ?new = 1 \<and> IntSet_size (hd ?new) = 1")
        case True
        then obtain g where g: "?new = [g]" "IntSet_size g = 1" by (cases ?new) auto
        have "IntSet [hd (to_vector g)] = g" by (rule int_set_eqI) (use hd_to_vector_single [OF g(2)] in auto)
        then show ?thesis using False g
          by (simp add: c'_def RemoveSegments_def Let_def exclusive_segment_def ActivationCondition_def AC_activates_def)
      next
        case notunit: False
        have "c' = composite_condition ?new 0 False"
          using False nonempty notunit by (auto simp: c'_def RemoveSegments_def Let_def)
        then show ?thesis using Simplify_subset
          by (simp add: composite_condition_def ActivationCondition_def AC_activates_def)
      qed
    qed
  qed
  then show "members (TriggeringSegments c') \<subseteq> members (TriggeringSegments c) - members segs"
    unfolding members_TriggeringSegments using new by fastforce
  show "members (snd (RemoveSegments segs c)) = members (TriggeringSegments c) - members (TriggeringSegments c')"
    by (simp add: c'_def RemoveSegments_def Let_def)
  show "AC_activates c' I \<longleftrightarrow> (\<forall>g \<in> set (ac_conditions c). members g \<subseteq> members segs \<or> (members g - members segs) \<inter> I \<noteq> {})"
    using groups new by (fastforce simp: activates_def)
qed

text \<open>
  While segments are being removed: their entries in the index are empty, and only the glyphs in
  \<open>rest\<close> may still name one of them.
\<close>

definition removing :: "bool \<Rightarrow> nat set \<Rightarrow> nat set \<Rightarrow> glyph_condition_set \<Rightarrow> bool" where
  "removing exact segs rest s \<longleftrightarrow> length (gs_conditions s) \<le> UINT32_MAX \<and> rest \<subseteq> {..<length (gs_conditions s)} \<and>
     (\<forall>i. i \<in> segs \<longrightarrow> glyphs_in (gs_segments s) i = {} \<and> triggers s i \<subseteq> rest) \<and>
     (\<forall>i. i \<notin> segs \<longrightarrow> triggers s i \<subseteq> glyphs_in (gs_segments s) i \<and>
        glyphs_in (gs_segments s) i \<subseteq> (if exact then triggers s i else {..<length (gs_conditions s)}))"

lemma RemoveSegmentsFromGlyph_step:
  assumes gid: "gid < length (gs_conditions s)"
  shows "\<exists>c m. RemoveSegmentsFromGlyph segs gid s = Some (set_condition gid c s\<lparr>gs_segments := m\<rparr>) \<and>
    (\<forall>i. i \<in> members (TriggeringSegments c) \<longrightarrow> i \<in> members (TriggeringSegments (gs_conditions s ! gid)) - members segs) \<and>
    (\<forall>i. glyphs_in m i = glyphs_in (gs_segments s) i -
       (if i \<in> members (TriggeringSegments (gs_conditions s ! gid)) - members (TriggeringSegments c) then {gid} else {}))"
proof -
  let ?r = "RemoveSegments segs (gs_conditions s ! gid)"
  have "RemoveSegmentsFromGlyph segs gid s = Some (set_condition gid (fst ?r) s\<lparr>gs_segments :=
      fold (erase_glyph gid) (to_vector (snd ?r)) (gs_segments s)\<rparr>)"
    using gid by (simp add: RemoveSegmentsFromGlyph_def split: prod.split)
  then show ?thesis
    using RemoveSegments_spec(1,2) [of segs "gs_conditions s ! gid"]
    by (intro exI [of _ "fst ?r"] exI [of _ "fold (erase_glyph gid) (to_vector (snd ?r)) (gs_segments s)"])
      (simp add: glyphs_in_erase subset_eq)
qed

lemma removing_step:
  assumes r: "removing exact (members segs) rest s" and gid: "gid \<in> rest"
  shows "\<exists>s'. RemoveSegmentsFromGlyph segs gid s = Some s' \<and> removing exact (members segs) (rest - {gid}) s' \<and>
    length (gs_conditions s') = length (gs_conditions s)"
proof -
  note rd = r [unfolded removing_def]
  have len: "gid < length (gs_conditions s)" using rd gid by blast
  obtain c m where cm: "RemoveSegmentsFromGlyph segs gid s = Some (set_condition gid c s\<lparr>gs_segments := m\<rparr>)"
    "\<And>i. i \<in> members (TriggeringSegments c) \<Longrightarrow> i \<in> members (TriggeringSegments (gs_conditions s ! gid)) - members segs"
    "\<And>i. glyphs_in m i = glyphs_in (gs_segments s) i -
       (if i \<in> members (TriggeringSegments (gs_conditions s ! gid)) - members (TriggeringSegments c) then {gid} else {})"
    using RemoveSegmentsFromGlyph_step [OF len, of segs] by blast
  let ?s = "set_condition gid c s\<lparr>gs_segments := m\<rparr>"
  have tr: "triggers ?s i = triggers s i - {gid} \<union> (if i \<in> members (TriggeringSegments c) then {gid} else {})" for i
    by (rule triggers_set_condition [OF len])
  have old: "gid \<in> triggers s i \<longleftrightarrow> i \<in> members (TriggeringSegments (gs_conditions s ! gid))" for i
    using len by (simp add: triggers_def)
  have "removing exact (members segs) (rest - {gid}) ?s"
    unfolding removing_def
  proof (intro conjI allI impI)
    show "length (gs_conditions ?s) \<le> UINT32_MAX" "rest - {gid} \<subseteq> {..<length (gs_conditions ?s)}"
      using rd by (auto simp: set_condition_def)
    fix i
    show "glyphs_in (gs_segments ?s) i = {}" if "i \<in> members segs" using rd that cm(3) [of i] by simp
    show "triggers ?s i \<subseteq> rest - {gid}" if "i \<in> members segs" using rd that cm(2) [of i] unfolding tr by auto
    assume i: "i \<notin> members segs"
    have sub: "triggers s i \<subseteq> glyphs_in (gs_segments s) i"
      "glyphs_in (gs_segments s) i \<subseteq> (if exact then triggers s i else {..<length (gs_conditions s)})" using rd i by blast+
    show "triggers ?s i \<subseteq> glyphs_in (gs_segments ?s) i"
      using sub(1) cm(2) [of i] old [of i] unfolding tr by (auto simp: cm(3))
    show "glyphs_in (gs_segments ?s) i \<subseteq> (if exact then triggers ?s i else {..<length (gs_conditions ?s)})"
      using sub(2) old [of i] unfolding tr by (auto simp: cm(3) set_condition_def split: if_splits)
  qed
  then show ?thesis using cm(1) by (simp add: set_condition_def)
qed

lemma removing_all:
  assumes "removing exact (members segs) rest s" and "set gids \<subseteq> rest" and "distinct gids"
  shows "\<exists>s'. fold_glyphs (RemoveSegmentsFromGlyph segs) gids s = Some s' \<and> removing exact (members segs) (rest - set gids) s' \<and>
    length (gs_conditions s') = length (gs_conditions s)"
  using assms
proof (induction gids arbitrary: s rest)
  case (Cons gid gids)
  obtain t where t: "RemoveSegmentsFromGlyph segs gid s = Some t" "removing exact (members segs) (rest - {gid}) t"
    "length (gs_conditions t) = length (gs_conditions s)"
    using removing_step [OF Cons.prems(1)] Cons.prems(2) by auto
  have "set gids \<subseteq> rest - {gid}" "distinct gids" using Cons.prems by auto
  from Cons.IH [OF t(2) this] obtain s' where "fold_glyphs (RemoveSegmentsFromGlyph segs) gids t = Some s'"
    "removing exact (members segs) (rest - {gid} - set gids) s'" "length (gs_conditions s') = length (gs_conditions t)" by blast
  then show ?case using t by (simp add: set_diff_eq [symmetric] Diff_insert2 [symmetric])
qed simp

text \<open>After \<^verbatim>\<open>InvalidateGlyphInformation(segments)\<close> no condition names one of the segments.\<close>

lemma InvalidateSegments_spec:
  assumes cov: "index_covers s"
  shows "\<exists>s'. InvalidateSegments segs s = Some s' \<and> index_covers s' \<and> (index_exact s \<longrightarrow> index_exact s') \<and>
    (\<forall>i \<in> members segs. triggers s' i = {}) \<and> length (gs_conditions s') = length (gs_conditions s)"
proof -
  let ?touched = "fold (\<lambda>i touched. IntSet_union_set touched (GlyphsWithSegment i s)) (to_vector segs) IntSet_empty"
  let ?s = "s\<lparr>gs_segments := fold (upd_glyphs (\<lambda>_. IntSet_empty)) (to_vector segs) (gs_segments s)\<rparr>"
  have "members (fold (\<lambda>i t. IntSet_union_set t (f i)) xs T) = members T \<union> (\<Union>i \<in> set xs. members (f i))"
    for f :: "nat \<Rightarrow> int_set" and xs T by (induction xs arbitrary: T) auto
  note this [of "\<lambda>i. GlyphsWithSegment i s" "to_vector segs" IntSet_empty]
  then have touched: "members ?touched = (\<Union>i \<in> members segs. glyphs_in (gs_segments s) i)"
    by (simp add: GlyphsWithSegment_def glyphs_in_def)
  have tr: "triggers ?s i = triggers s i" for i by (simp add: triggers_def)
  have "removing exact (members segs) (members ?touched) ?s" if "exact \<longrightarrow> index_exact s" for exact
    using cov that unfolding removing_def tr touched
    by (auto simp: index_covers_def index_exact_def glyphs_in_clear split: if_splits)
  from removing_all [OF this, of _ "to_vector ?touched"] have
    all: "\<exists>s'. InvalidateSegments segs s = Some s' \<and> removing exact (members segs) {} s' \<and>
      length (gs_conditions s') = length (gs_conditions s)" if "exact \<longrightarrow> index_exact s" for exact
    using that by (simp add: InvalidateSegments_def Let_def)
  obtain s' where s': "InvalidateSegments segs s = Some s'" "removing (index_exact s) (members segs) {} s'"
    "length (gs_conditions s') = length (gs_conditions s)" using all [of "index_exact s"] by blast
  note rd = s'(2) [unfolded removing_def]
  have "triggers s' i \<subseteq> glyphs_in (gs_segments s') i \<and> glyphs_in (gs_segments s') i \<subseteq> {..<length (gs_conditions s')}" for i
  proof (cases "i \<in> members segs")
    case False
    have "triggers s' i \<subseteq> {..<length (gs_conditions s')}" by (auto simp: triggers_def)
    moreover have "triggers s' i \<subseteq> glyphs_in (gs_segments s') i"
      "glyphs_in (gs_segments s') i \<subseteq> (if index_exact s then triggers s' i else {..<length (gs_conditions s')})"
      using rd False by blast+
    ultimately show ?thesis by (auto split: if_splits)
  qed (use rd in auto)
  then have "index_covers s'" unfolding index_covers_def using rd by blast
  moreover have "index_exact s'" if "index_exact s" unfolding index_exact_def using rd that by (auto split: if_splits)
  ultimately show ?thesis using s' rd by blast
qed

text \<open>The other two overloads.\<close>

lemma RemoveSegmentsFromGlyph_index:
  assumes run: "RemoveSegmentsFromGlyph segs gid s = Some s'" and cov: "index_covers s"
  shows "index_covers s' \<and> (index_exact s \<longrightarrow> index_exact s') \<and> length (gs_conditions s') = length (gs_conditions s)"
proof -
  have gid: "gid < length (gs_conditions s)" using run by (simp add: RemoveSegmentsFromGlyph_def split: if_splits)
  obtain c m where cm: "s' = set_condition gid c s\<lparr>gs_segments := m\<rparr>"
    "\<And>i. i \<in> members (TriggeringSegments c) \<Longrightarrow> i \<in> members (TriggeringSegments (gs_conditions s ! gid)) - members segs"
    "\<And>i. glyphs_in m i = glyphs_in (gs_segments s) i -
       (if i \<in> members (TriggeringSegments (gs_conditions s ! gid)) - members (TriggeringSegments c) then {gid} else {})"
    using RemoveSegmentsFromGlyph_step [OF gid, of segs] run by auto
  have old: "gid \<in> triggers s i \<longleftrightarrow> i \<in> members (TriggeringSegments (gs_conditions s ! gid))" for i
    using gid by (simp add: triggers_def)
  have c1: "glyphs_in m i - {gid} = glyphs_in (gs_segments s) i - {gid}" for i by (auto simp: cm(3))
  have c2: "gid \<in> glyphs_in m i" if "i \<in> members (TriggeringSegments c)" for i
  proof -
    have "gid \<in> triggers s i" using cm(2) [OF that] old by blast
    then have "gid \<in> glyphs_in (gs_segments s) i" using cov by (auto simp: index_covers_def)
    then show ?thesis using that by (simp add: cm(3))
  qed
  have "index_exact s'" if ex: "index_exact s" unfolding cm(1)
  proof (rule gs_step(2) [OF gid c1 c2 ex])
    fix i assume "gid \<in> glyphs_in m i"
    then have "gid \<in> glyphs_in (gs_segments s) i"
      "\<not> i \<in> members (TriggeringSegments (gs_conditions s ! gid)) - members (TriggeringSegments c)"
      by (auto simp: cm(3) split: if_splits)
    then show "i \<in> members (TriggeringSegments c)" using ex old [of i] by (auto simp: index_exact_def)
  qed
  moreover have "index_covers s'" unfolding cm(1) by (rule gs_step(1) [OF gid c1 c2 cov])
  ultimately show ?thesis by (simp add: cm(1) set_condition_def)
qed

lemma InvalidateGlyphsAndSegments_index:
  "InvalidateGlyphsAndSegments glyphs segs s = Some s' \<Longrightarrow> index_covers s \<Longrightarrow>
    index_covers s' \<and> (index_exact s \<longrightarrow> index_exact s')"
proof -
  have "fold_glyphs (RemoveSegmentsFromGlyph segs) gids s = Some s' \<Longrightarrow> index_covers s \<Longrightarrow>
      index_covers s' \<and> (index_exact s \<longrightarrow> index_exact s')" for gids s
  proof (induction gids arbitrary: s)
    case (Cons gid gids)
    then obtain t where t: "RemoveSegmentsFromGlyph segs gid s = Some t"
      "fold_glyphs (RemoveSegmentsFromGlyph segs) gids t = Some s'" by (auto simp: bind_eq_Some_conv)
    from RemoveSegmentsFromGlyph_index [OF t(1) Cons.prems(2)] Cons.IH [OF t(2)] show ?case by blast
  qed simp
  then show "InvalidateGlyphsAndSegments glyphs segs s = Some s' \<Longrightarrow> index_covers s \<Longrightarrow>
    index_covers s' \<and> (index_exact s \<longrightarrow> index_exact s')" unfolding InvalidateGlyphsAndSegments_def .
qed

lemma invalidate_glyphs_spec:
  assumes "fold_glyphs invalidate_glyph gids (touched, s) = Some (touched', s')"
  shows "set gids \<subseteq> {..<length (gs_conditions s)} \<and> gs_segments s' = gs_segments s \<and>
    length (gs_conditions s') = length (gs_conditions s) \<and> (\<forall>i. triggers s' i = triggers s i - set gids) \<and>
    members touched' \<supseteq> members touched \<and> (\<forall>i. i \<notin> members touched' \<longrightarrow> triggers s i \<inter> set gids = {})"
  using assms
proof (induction gids arbitrary: touched s)
  case (Cons gid gids)
  have gid: "gid < length (gs_conditions s)" using Cons.prems by (simp add: invalidate_glyph_def split: if_splits)
  let ?c = "gs_conditions s ! gid" let ?s = "set_condition gid (AC_True 0) s"
  let ?t = "IntSet_union_set touched (TriggeringSegments ?c)"
  have "fold_glyphs invalidate_glyph gids (?t, ?s) = Some (touched', s')"
  proof -
    have "invalidate_glyph gid (touched, s) = Some (?t, ?s)" using gid by (simp add: invalidate_glyph_def)
    with Cons.prems show ?thesis by simp
  qed
  note IH = Cons.IH [OF this]
  have tr: "triggers ?s i = triggers s i - {gid}" for i
    using triggers_set_condition [OF gid, where c = "AC_True 0" and m = "gs_segments s" and i = i]
    by (simp add: set_condition_def AC_True_def members_TriggeringSegments)
  have t: "gid \<in> triggers s i \<Longrightarrow> i \<in> members ?t" for i by (simp add: triggers_def)
  have last: "triggers s i \<inter> set (gid # gids) = {}" if i: "i \<notin> members touched'" for i
  proof -
    have "members ?t \<subseteq> members touched'" "(triggers s i - {gid}) \<inter> set gids = {}"
      using IH i unfolding tr by blast+
    moreover have "gid \<notin> triggers s i" using t [of i] i calculation(1) by blast
    ultimately show ?thesis by auto
  qed
  have "set (gid # gids) \<subseteq> {..<length (gs_conditions s)} \<and> gs_segments s' = gs_segments s \<and>
    length (gs_conditions s') = length (gs_conditions s) \<and> (\<forall>i. triggers s' i = triggers s i - set (gid # gids)) \<and>
    members touched' \<supseteq> members touched"
    using IH gid unfolding tr by (auto simp: set_condition_def)
  with last show ?case by blast
qed simp

lemma InvalidateGlyphs_index:
  assumes run: "InvalidateGlyphs glyphs s = Some s'" and cov: "index_covers s"
  shows "index_covers s' \<and> (index_exact s \<longrightarrow> index_exact s')"
proof -
  obtain touched t where t: "fold_glyphs invalidate_glyph (to_vector glyphs) (IntSet_empty, s) = Some (touched, t)"
    "s' = t\<lparr>gs_segments := fold (upd_glyphs (\<lambda>g. IntSet_subtract g glyphs)) (to_vector touched) (gs_segments t)\<rparr>"
    using run by (auto simp: InvalidateGlyphs_def bind_eq_Some_conv)
  note sp = invalidate_glyphs_spec [OF t(1)]
  have tr: "triggers s' i = triggers s i - members glyphs" for i
  proof -
    have "triggers s' i = triggers t i" by (simp add: t(2) triggers_def)
    then show ?thesis using sp by simp
  qed
  have gl: "glyphs_in (gs_segments s') i = glyphs_in (gs_segments s) i - (if i \<in> members touched then members glyphs else {})" for i
    using sp t(2) by (simp add: glyphs_in_subtract)
  have len: "length (gs_conditions s') = length (gs_conditions s)" using sp t(2) by simp
  have sub: "i \<notin> members touched \<Longrightarrow> triggers s i \<inter> members glyphs = {}" for i using sp by simp
  have "index_covers s'" using cov unfolding index_covers_def tr gl len by auto
  moreover have "index_exact s'" if ex: "index_exact s"
  proof -
    have "glyphs_in (gs_segments s') i = triggers s' i" for i
      using ex sub [of i] unfolding index_exact_def tr gl by auto
    then show ?thesis using ex by (simp add: index_exact_def len)
  qed
  ultimately show ?thesis by blast
qed

section \<open>Validation\<close>

lemma finite_keys_fold: "finite (Mapping.keys m) \<Longrightarrow> finite (Mapping.keys (fold (upd_glyphs f) is m))"
  by (induction "is" arbitrary: m) (simp_all add: upd_glyphs_def)

lemma Validate_exact:
  assumes cov: "index_covers s" and fin: "finite (Mapping.keys (gs_segments s))"
  shows "Validate s = Some (if index_exact s then Inr () else Inl InternalError)"
proof -
  let ?pairs = "concat (map (\<lambda>i. map (\<lambda>g. (i, g)) (to_vector (GlyphsWithSegment i s))) (Mapping.ordered_keys (gs_segments s)))"
  have pairs: "(i, g) \<in> set ?pairs \<longleftrightarrow> g \<in> glyphs_in (gs_segments s) i" for i g
  proof -
    have "g \<in> glyphs_in (gs_segments s) i \<Longrightarrow> i \<in> Mapping.keys (gs_segments s)"
      by (auto simp: glyphs_in_def Mapping.lookup_default_def keys_dom_lookup split: option.splits)
    then show ?thesis using fin by (auto simp: GlyphsWithSegment_def glyphs_in_def)
  qed
  have "\<not> list_ex (\<lambda>(i, g). length (gs_conditions s) \<le> g) ?pairs"
    using cov pairs unfolding list_ex_iff index_covers_def by fastforce
  moreover have "list_all (\<lambda>(i, g). IntSet_contains (TriggeringSegments (gs_conditions s ! g)) i) ?pairs \<longleftrightarrow> index_exact s"
  proof -
    have "list_all (\<lambda>(i, g). IntSet_contains (TriggeringSegments (gs_conditions s ! g)) i) ?pairs \<longleftrightarrow>
        (\<forall>i. \<forall>g \<in> glyphs_in (gs_segments s) i. i \<in> members (TriggeringSegments (gs_conditions s ! g)))"
      unfolding list_all_iff using pairs by fastforce
    also have "\<dots> \<longleftrightarrow> (\<forall>i. glyphs_in (gs_segments s) i \<subseteq> triggers s i)"
      using cov unfolding index_covers_def triggers_def by fastforce
    also have "\<dots> \<longleftrightarrow> index_exact s" using cov unfolding index_covers_def index_exact_def by blast
    finally show ?thesis .
  qed
  ultimately show ?thesis by (simp add: Validate_def)
qed

text \<open>
  Sequences of calls; \<open>tidy\<close> when no call of \<^verbatim>\<open>AddAndCondition\<close> or \<^verbatim>\<open>AddOrCondition\<close> simplified a
  segment away.
\<close>

inductive gs_reachable :: "bool \<Rightarrow> glyph_condition_set \<Rightarrow> bool" for tidy where
  start: "n \<le> UINT32_MAX \<Longrightarrow> gs_reachable tidy (GlyphConditionSet n)"
| add_and: "gs_reachable tidy s \<Longrightarrow> segment < UINT32_MAX \<Longrightarrow> AddAndCondition gid segment s = Some s' \<Longrightarrow>
    tidy \<longrightarrow> members (TriggeringSegments (gs_conditions s' ! gid)) =
      insert segment (members (TriggeringSegments (gs_conditions s ! gid))) \<Longrightarrow> gs_reachable tidy s'"
| add_or: "gs_reachable tidy s \<Longrightarrow> segment < UINT32_MAX \<Longrightarrow> AddOrCondition gid segment s = Some s' \<Longrightarrow>
    tidy \<longrightarrow> members (TriggeringSegments (gs_conditions s' ! gid)) =
      insert segment (members (TriggeringSegments (gs_conditions s ! gid))) \<Longrightarrow> gs_reachable tidy s'"
| set: "gs_reachable tidy s \<Longrightarrow> SetCondition gid c s = Some s' \<Longrightarrow> gs_reachable tidy s'"
| glyphs: "gs_reachable tidy s \<Longrightarrow> InvalidateGlyphs glyphs s = Some s' \<Longrightarrow> gs_reachable tidy s'"
| segments: "gs_reachable tidy s \<Longrightarrow> InvalidateSegments segs s = Some s' \<Longrightarrow> gs_reachable tidy s'"
| both: "gs_reachable tidy s \<Longrightarrow> InvalidateGlyphsAndSegments glyphs segs s = Some s' \<Longrightarrow> gs_reachable tidy s'"

lemma triggering_And: "members (TriggeringSegments (AC_And a b)) \<subseteq> members (TriggeringSegments a) \<union> members (TriggeringSegments b)"
  unfolding members_TriggeringSegments using Simplify_subset [of "ac_conditions a @ ac_conditions b"]
  by (fastforce simp: AC_And_def Let_def)

lemma Or_walk_subset:
  "Or_walk a b = (shared, ua, ub) \<Longrightarrow> set shared \<subseteq> set a \<and> set ua \<subseteq> set a \<and> set ub \<subseteq> set b"
proof (induction a b arbitrary: shared ua ub rule: Or_walk.induct)
  case (1 a as b bs)
  then show ?case by (auto split: if_splits prod.splits)
qed auto

lemma triggering_Or: "members (TriggeringSegments (AC_Or a b)) \<subseteq> members (TriggeringSegments a) \<union> members (TriggeringSegments b)"
proof -
  obtain shared ua ub where w: "Or_walk (ac_conditions a) (ac_conditions b) = (shared, ua, ub)"
    by (rule prod_cases3)
  note sub = Or_walk_subset [OF w]
  have product: "\<Union>(members ` set (Or_product ua ub)) \<subseteq> \<Union>(members ` set ua) \<union> \<Union>(members ` set ub)"
    by (auto simp: Or_product_def)
  have "set (ac_conditions (AC_Or a b)) \<subseteq> set shared \<union> set (Or_product ua ub)"
    using Simplify_subset [of "shared @ Or_product ua ub"] w by (auto simp: AC_Or_def Let_def)
  then have "\<Union>(members ` set (ac_conditions (AC_Or a b))) \<subseteq> \<Union>(members ` set shared) \<union> \<Union>(members ` set (Or_product ua ub))"
    by blast
  also have "\<dots> \<subseteq> \<Union>(members ` set (ac_conditions a)) \<union> \<Union>(members ` set (ac_conditions b))"
  proof -
    have mono: "set xs \<subseteq> set ys \<Longrightarrow> \<Union>(members ` set xs) \<subseteq> \<Union>(members ` set ys)" for xs ys :: cnf
      by (intro Union_mono image_mono)
    note m = mono [of shared "ac_conditions a"] mono [of ua "ac_conditions a"] mono [of ub "ac_conditions b"]
    show ?thesis
      using product sub m by (intro Un_least le_supI1 order_trans [OF product] Un_mono) simp_all
  qed
  finally show ?thesis unfolding members_TriggeringSegments .
qed

lemma triggering_single:
  "members (TriggeringSegments (exclusive_segment s i)) \<subseteq> {s}" "members (TriggeringSegments (or_segments (IntSet [s]) i f)) \<subseteq> {s}"
  by (auto simp: members_TriggeringSegments exclusive_segment_def or_segments_def ActivationCondition_def)

lemma AddCondition_result:
  "AddCondition f gid segment s = Some s' \<Longrightarrow> gs_conditions s' ! gid = f (gs_conditions s ! gid) \<and>
    (finite (Mapping.keys (gs_segments s)) \<longrightarrow> finite (Mapping.keys (gs_segments s')))"
  by (auto simp: AddCondition_def Let_def set_condition_def upd_glyphs_def split: if_splits)

lemma RemoveSegmentsFromGlyph_finite:
  "RemoveSegmentsFromGlyph segs gid s = Some s' \<Longrightarrow> finite (Mapping.keys (gs_segments s)) \<Longrightarrow>
    finite (Mapping.keys (gs_segments s'))"
  by (auto simp: RemoveSegmentsFromGlyph_def erase_glyph_def finite_keys_fold split: if_splits prod.splits)

lemma remove_glyphs_finite:
  "fold_glyphs (RemoveSegmentsFromGlyph segs) gids s = Some s' \<Longrightarrow> finite (Mapping.keys (gs_segments s)) \<Longrightarrow>
    finite (Mapping.keys (gs_segments s'))"
proof (induction gids arbitrary: s)
  case (Cons gid gids)
  then obtain t where t: "RemoveSegmentsFromGlyph segs gid s = Some t"
    "fold_glyphs (RemoveSegmentsFromGlyph segs) gids t = Some s'" by (auto simp: bind_eq_Some_conv)
  show ?case by (rule Cons.IH [OF t(2) RemoveSegmentsFromGlyph_finite [OF t(1) Cons.prems(2)]])
qed simp

lemma InvalidateGlyphs_finite:
  assumes "InvalidateGlyphs glyphs s = Some s'" and "finite (Mapping.keys (gs_segments s))"
  shows "finite (Mapping.keys (gs_segments s'))"
proof -
  obtain touched t where t: "fold_glyphs invalidate_glyph (to_vector glyphs) (IntSet_empty, s) = Some (touched, t)"
    "s' = t\<lparr>gs_segments := fold (upd_glyphs (\<lambda>g. IntSet_subtract g glyphs)) (to_vector touched) (gs_segments t)\<rparr>"
    using assms(1) by (auto simp: InvalidateGlyphs_def bind_eq_Some_conv)
  then show ?thesis using invalidate_glyphs_spec [OF t(1)] assms(2) by (simp add: finite_keys_fold)
qed

lemma gs_reachable_inv:
  "gs_reachable tidy s \<Longrightarrow> index_covers s \<and> finite (Mapping.keys (gs_segments s)) \<and> (tidy \<longrightarrow> index_exact s)"
proof (induction rule: gs_reachable.induct)
  case (start n)
  then show ?case using index_init index_exact_covers by (simp add: GlyphConditionSet_def)
next
  case (add_and s segment gid s')
  note run = add_and(3) [unfolded AddAndCondition_def]
  have f: "members (TriggeringSegments (if IsAlwaysTrue c then exclusive_segment segment 0
      else AC_And c (exclusive_segment segment 0))) \<subseteq> insert segment (members (TriggeringSegments c))" for c
    using triggering_And [of c "exclusive_segment segment 0"] triggering_single(1) [of segment 0] by auto
  note r = AddCondition_result [OF run]
  have cov: "index_covers s" using add_and.IH by blast
  note s' = AddCondition_covers [OF run cov f]
  have "tidy \<longrightarrow> index_exact s'" using s'(2) add_and.IH add_and(4) r by auto
  with s'(1) r add_and.IH show ?case by blast
next
  case (add_or s segment gid s')
  note run = add_or(3) [unfolded AddOrCondition_def]
  have f: "members (TriggeringSegments (if IsAlwaysTrue c then or_segments (IntSet [segment]) 0 False
      else AC_Or c (or_segments (IntSet [segment]) 0 False))) \<subseteq> insert segment (members (TriggeringSegments c))" for c
    using triggering_Or [of c "or_segments (IntSet [segment]) 0 False"] triggering_single(2) [of segment 0 False] by auto
  note r = AddCondition_result [OF run]
  have cov: "index_covers s" using add_or.IH by blast
  note s' = AddCondition_covers [OF run cov f]
  have "tidy \<longrightarrow> index_exact s'" using s'(2) add_or.IH add_or(4) r by auto
  with s'(1) r add_or.IH show ?case by blast
next
  case (set s gid c s')
  have cov: "index_covers s" and fin: "finite (Mapping.keys (gs_segments s))" using set.IH by blast+
  have "finite (Mapping.keys (gs_segments s'))"
    using set(2) fin by (auto simp: SetCondition_def Let_def erase_glyph_def finite_keys_fold split: if_splits)
  then show ?case using SetCondition_index [OF set(2) cov] set.IH by blast
next
  case (glyphs s gids s')
  then show ?case using InvalidateGlyphs_index [OF glyphs(2)] InvalidateGlyphs_finite [OF glyphs(2)] by blast
next
  case (segments s segs s')
  have "finite (Mapping.keys (gs_segments s'))"
    by (rule remove_glyphs_finite [OF segments(2) [unfolded InvalidateSegments_def Let_def]])
      (use segments.IH in \<open>simp add: finite_keys_fold\<close>)
  moreover have "index_covers s" using segments.IH by blast
  from InvalidateSegments_spec [OF this, of segs] segments(2) have "index_covers s'" "index_exact s \<longrightarrow> index_exact s'" by auto
  ultimately show ?case using segments.IH by blast
next
  case (both s gids segs s')
  have "finite (Mapping.keys (gs_segments s'))"
    by (rule remove_glyphs_finite [OF both(2) [unfolded InvalidateGlyphsAndSegments_def]]) (use both.IH in simp)
  then show ?case using InvalidateGlyphsAndSegments_index [OF both(2)] both.IH by blast
qed

end
