(* ===== verification/Glyph_Segmentation.thy ===== *)
theory Glyph_Segmentation
  imports Glyph_Conditions Subset_Definition Condition_Properties
begin

text \<open>
  Glyph segmentations (\<^verbatim>\<open>ift/encoder/glyph_segmentation.cc\<close>, \<^verbatim>\<open>.h\<close>): the glyphs of every patch and
  the conditions under which patches are loaded. A \<^verbatim>\<open>btree_set\<close> of conditions is a list in the order
  of the conditions, a \<^verbatim>\<open>btree_map\<close> from patch ids a mapping. Printing is left out.
\<close>

section \<open>Ordered containers of conditions\<close>

fun ac_insert :: "activation_condition \<Rightarrow> activation_condition list \<Rightarrow> activation_condition list" where
  "ac_insert c [] = [c]"
| "ac_insert c (d # ds) =
     (if AC_less c d then c # d # ds else if AC_less d c then d # ac_insert c ds else d # ds)"

text \<open>A map from conditions to sets of glyphs; \<open>acm_update\<close> is \<^verbatim>\<open>m[c] = f(m[c])\<close>.\<close>

type_synonym condition_map = "(activation_condition \<times> int_set) list"

fun acm_update :: "activation_condition \<Rightarrow> (int_set \<Rightarrow> int_set) \<Rightarrow> condition_map \<Rightarrow> condition_map" where
  "acm_update c f [] = [(c, f IntSet_empty)]"
| "acm_update c f ((d, S) # m) =
     (if AC_less c d then (c, f IntSet_empty) # (d, S) # m
      else if AC_less d c then (d, S) # acm_update c f m else (d, f S) # m)"

section \<open>The class\<close>

record glyph_segmentation =
  gseg_init_font_segment :: subset_definition
  gseg_init_font_glyph_closure :: int_set
  gseg_unmapped_glyphs :: int_set
  gseg_conditions :: "activation_condition list"
  gseg_segments :: "subset_definition list"
  gseg_patches :: "(patch_id, int_set) mapping"

definition GlyphSegmentation :: "subset_definition \<Rightarrow> int_set \<Rightarrow> int_set \<Rightarrow> glyph_segmentation" where
  "GlyphSegmentation init_font_segment init_font_glyph_closure unmapped_glyphs =
     \<lparr>gseg_init_font_segment = init_font_segment, gseg_init_font_glyph_closure = init_font_glyph_closure,
      gseg_unmapped_glyphs = unmapped_glyphs, gseg_conditions = [], gseg_segments = [], gseg_patches = Mapping.empty\<rparr>"

definition CopySegments :: "subset_definition list \<Rightarrow> glyph_segmentation \<Rightarrow> glyph_segmentation" where
  "CopySegments segments s = s\<lparr>gseg_segments := segments\<rparr>"

text \<open>One entry of the map: a patch and its condition, with the next id. \<open>None\<close>: an exclusive
  condition without segments.\<close>

definition final_condition :: "int_set \<Rightarrow> patch_id \<Rightarrow> activation_condition \<Rightarrow> activation_condition option" where
  "final_condition fallback_group next_id condition =
     (if ac_is_exclusive condition
      then map_option (\<lambda>s. exclusive_segment s next_id) (IntSet_min (TriggeringSegments condition))
      else let is_fallback = (\<not> IntSet_is_empty fallback_group \<and> IsPurelyDisjunctive condition \<and>
                 TriggeringSegments condition = fallback_group)
        in Some (composite_condition (ac_conditions condition) next_id is_fallback))"

fun segmentation_step :: "int_set \<Rightarrow> activation_condition \<times> int_set \<Rightarrow> patch_id \<times> glyph_segmentation \<Rightarrow>
    (patch_id \<times> glyph_segmentation) option" where
  "segmentation_step fallback_group (condition, glyphs) (next_id, s) =
     (if IntSet_is_empty glyphs then Some (next_id, s)
      else let s = (if Mapping.lookup (gseg_patches s) next_id = None
                 then s\<lparr>gseg_patches := Mapping.update next_id glyphs (gseg_patches s)\<rparr> else s)
        in map_option (\<lambda>c. ((next_id + 1) mod TWO32, s\<lparr>gseg_conditions := ac_insert c (gseg_conditions s)\<rparr>))
             (final_condition fallback_group next_id condition))"

fun segmentation_loop :: "int_set \<Rightarrow> condition_map \<Rightarrow> patch_id \<times> glyph_segmentation \<Rightarrow> (patch_id \<times> glyph_segmentation) option" where
  "segmentation_loop fallback_group [] s = Some s"
| "segmentation_loop fallback_group (e # es) s =
     Option.bind (segmentation_step fallback_group e s) (segmentation_loop fallback_group es)"

definition ConditionsToSegmentation :: "condition_map \<Rightarrow> int_set \<Rightarrow> glyph_segmentation \<Rightarrow> glyph_segmentation option" where
  "ConditionsToSegmentation conditions fallback_group segmentation = map_option snd (segmentation_loop fallback_group conditions
     (0, segmentation\<lparr>gseg_patches := Mapping.empty, gseg_conditions := []\<rparr>))"

section \<open>The plan\<close>

text \<open>The messages of \<^verbatim>\<open>segmentation_plan.proto\<close> that are filled in.\<close>

record segment_proto =
  sp_codepoints :: "nat list"
  sp_features :: "string list"

record segmentation_plan =
  pl_segments :: "(nat, segment_proto) mapping"
  pl_glyph_patches :: "(nat, nat list) mapping"
  pl_glyph_patch_conditions :: "(nat list list \<times> patch_id) list"
  pl_initial_codepoints :: "nat list"
  pl_initial_features :: "string list"
  pl_initial_glyphs :: "nat list"

text \<open>\<^verbatim>\<open>FontHelper::ToString\<close> of a tag, a call of harfbuzz, is the argument \<open>tag_string\<close>.\<close>

definition SubsetDefinitionToSegment :: "(hb_tag \<Rightarrow> string) \<Rightarrow> subset_definition \<Rightarrow> segment_proto" where
  "SubsetDefinitionToSegment tag_string d =
     \<lparr>sp_codepoints = to_vector (sd_codepoints d), sp_features = map tag_string (sd_feature_tags d)\<rparr>"

definition ToSegmentationPlanProto :: "(hb_tag \<Rightarrow> string) \<Rightarrow> glyph_segmentation \<Rightarrow> segmentation_plan" where
  "ToSegmentationPlanProto tag_string s =
     \<lparr>pl_segments = fold (\<lambda>(set_index, d) m. if \<not> SD_Empty d
          then Mapping.update set_index (SubsetDefinitionToSegment tag_string d) m else m)
        (enumerate 0 (gseg_segments s)) Mapping.empty,
      pl_glyph_patches = fold (\<lambda>(patch_id, gids). Mapping.update patch_id (to_vector gids))
        (Mapping.ordered_entries (gseg_patches s)) Mapping.empty,
      pl_glyph_patch_conditions = map ToConfigProto (gseg_conditions s),
      pl_initial_codepoints = to_vector (sd_codepoints (gseg_init_font_segment s)),
      pl_initial_features = map tag_string (sd_feature_tags (gseg_init_font_segment s)),
      pl_initial_glyphs = to_vector (sd_gids (gseg_init_font_segment s))\<rparr>"

section \<open>What the conversion of conditions does\<close>

lemma set_ac_insert [simp]: "set (ac_insert c ds) = insert c (set ds)"
proof (induction ds)
  case (Cons d ds)
  have "c = d" if "\<not> AC_less c d" "\<not> AC_less d c"
    using that AC_key_equal [of c d] unfolding AC_less_key by (auto simp: AC_equal_def)
  then show ?case using Cons by auto
qed simp

text \<open>Every patch has a condition that activates it.\<close>

definition patches_reached :: "glyph_segmentation \<Rightarrow> bool" where
  "patches_reached s \<longleftrightarrow> finite (Mapping.keys (gseg_patches s)) \<and>
     (\<forall>p \<in> Mapping.keys (gseg_patches s). \<exists>c \<in> set (gseg_conditions s). AC_activated c = p)"

lemma final_condition_activated: "final_condition fb p c = Some d \<Longrightarrow> AC_activated d = p"
  by (auto simp: final_condition_def AC_activated_def exclusive_segment_def composite_condition_def Let_def split: if_splits)

lemma segmentation_step_reached:
  assumes "segmentation_step fb e (p, s) = Some (p', s')" and "patches_reached s"
  shows "patches_reached s'"
proof (cases e)
  case (Pair condition glyphs)
  show ?thesis
  proof (cases "IntSet_is_empty glyphs")
    case False
    let ?s = "if Mapping.lookup (gseg_patches s) p = None then s\<lparr>gseg_patches := Mapping.update p glyphs (gseg_patches s)\<rparr> else s"
    from False assms(1) obtain c where c: "final_condition fb p condition = Some c"
      and s': "s' = ?s\<lparr>gseg_conditions := ac_insert c (gseg_conditions ?s)\<rparr>"
      unfolding Pair segmentation_step.simps Let_def if_not_P [OF False] by (auto simp only: map_option_eq_Some prod.inject)
    have keys: "Mapping.keys (gseg_patches ?s) \<subseteq> insert p (Mapping.keys (gseg_patches s))" "gseg_conditions ?s = gseg_conditions s" by auto
    have fin: "finite (Mapping.keys (gseg_patches ?s))" using assms(2) by (simp add: patches_reached_def)
    show ?thesis unfolding patches_reached_def
    proof (intro conjI ballI)
      show "finite (Mapping.keys (gseg_patches s'))" using fin by (simp add: s')
      fix q assume "q \<in> Mapping.keys (gseg_patches s')"
      then have "q = p \<or> q \<in> Mapping.keys (gseg_patches s)" using keys(1) by (auto simp: s')
      then show "\<exists>c \<in> set (gseg_conditions s'). AC_activated c = q"
        using assms(2) final_condition_activated [OF c] keys(2) unfolding patches_reached_def by (auto simp: s')
    qed
  qed (use assms Pair in simp)
qed

lemma segmentation_loop_reached:
  "segmentation_loop fb es (p, s) = Some (p', s') \<Longrightarrow> patches_reached s \<Longrightarrow> patches_reached s'"
proof (induction es arbitrary: p s)
  case (Cons e es)
  then obtain q t where "segmentation_step fb e (p, s) = Some (q, t)" "segmentation_loop fb es (q, t) = Some (p', s')"
    by (auto simp: bind_eq_Some_conv)
  with Cons segmentation_step_reached show ?case by blast
qed simp

lemma ConditionsToSegmentation_reached:
  assumes "ConditionsToSegmentation conditions fb s = Some s'"
  shows "patches_reached s'"
proof -
  from assms obtain r where r: "segmentation_loop fb conditions (0, s\<lparr>gseg_patches := Mapping.empty, gseg_conditions := []\<rparr>) = Some r" "snd r = s'"
    unfolding ConditionsToSegmentation_def map_option_eq_Some by blast
  have "r = (fst r, s')" unfolding r(2) [symmetric] by (rule prod.collapse [symmetric])
  with r(1) have "segmentation_loop fb conditions (0, s\<lparr>gseg_patches := Mapping.empty, gseg_conditions := []\<rparr>) = Some (fst r, s')"
    by argo
  then show ?thesis by (rule segmentation_loop_reached) (simp add: patches_reached_def)
qed

end
