(* ===== verification/Closure_Cache.thy ===== *)
theory Closure_Cache
  imports Subset_Definition Outcome
begin

text \<open>
  Glyph closures and their cache (\<^verbatim>\<open>ift/encoder/glyph_closure_cache.cc\<close>) over the dependencies
  between codepoints of \<^verbatim>\<open>ift/dep_graph/unicode_edges.h\<close>. The font and harfbuzz enter as a record:
  the calls on a subset input, a fresh input (\<open>None\<close> when it cannot be allocated), the glyphs of a
  subset plan, and the inverse of the character map.
\<close>

section \<open>Codepoints that lead to each other\<close>

record conjunctive_edge =
  ue_other_source :: nat
  ue_dest :: nat

record unicode_edges =
  ue_composition :: "nat \<Rightarrow> conjunctive_edge list option"
  ue_decomposition :: "nat \<Rightarrow> int_set option"
  ue_gid_to_vs :: "nat \<Rightarrow> int_set option"

text \<open>One round of the loop of \<^verbatim>\<open>UnicodeClosure\<close>: first the decomposition of \<open>u\<close>, then its compositions.\<close>

definition follow_decomposition :: "unicode_edges \<Rightarrow> nat \<Rightarrow> int_set \<times> int_set \<Rightarrow> int_set \<times> int_set" where
  "follow_decomposition edges u = (\<lambda>(queue, visited). case ue_decomposition edges u of None \<Rightarrow> (queue, visited)
     | Some dests \<Rightarrow> let new = IntSet_subtract dests visited
         in (IntSet_union_set queue new, IntSet_union_set visited new))"

definition follow_edge :: "conjunctive_edge \<Rightarrow> int_set \<times> int_set \<Rightarrow> int_set \<times> int_set" where
  "follow_edge edge = (\<lambda>(queue, visited).
     if \<not> IntSet_contains visited (ue_dest edge) \<and> IntSet_contains visited (ue_other_source edge)
     then (IntSet_insert (ue_dest edge) queue, IntSet_insert (ue_dest edge) visited) else (queue, visited))"

definition follow_composition :: "unicode_edges \<Rightarrow> nat \<Rightarrow> int_set \<times> int_set \<Rightarrow> int_set \<times> int_set" where
  "follow_composition edges u s = fold follow_edge (case ue_composition edges u of None \<Rightarrow> [] | Some es \<Rightarrow> es) s"

definition follow :: "unicode_edges \<Rightarrow> nat \<Rightarrow> int_set \<times> int_set \<Rightarrow> int_set \<times> int_set" where
  "follow edges u s = follow_composition edges u (follow_decomposition edges u s)"

text \<open>What is new in the queue was not visited before.\<close>

definition grows :: "int_set \<times> int_set \<Rightarrow> int_set \<times> int_set \<Rightarrow> bool" where
  "grows s t \<longleftrightarrow> members (snd s) \<subseteq> members (snd t) \<and>
     members (fst t) = members (fst s) \<union> (members (snd t) - members (snd s))"

lemma grows_trans: "grows s t \<Longrightarrow> grows t u \<Longrightarrow> grows s u"
  unfolding grows_def by blast

lemma grows_decomposition: "grows s (follow_decomposition edges u s)"
  by (cases s) (auto simp: grows_def follow_decomposition_def Let_def split: option.splits)

lemma grows_edge: "grows s (follow_edge e s)"
  by (cases s) (auto simp: grows_def follow_edge_def)

lemma grows_edges: "grows s (fold follow_edge es s)"
proof (induction es arbitrary: s)
  case (Cons e es)
  from grows_trans [OF grows_edge [of s e] Cons.IH [of "follow_edge e s"]] show ?case by simp
qed (simp add: grows_def)

lemma grows_follow: "grows s (follow edges u s)"
  unfolding follow_def follow_composition_def by (rule grows_trans [OF grows_decomposition grows_edges])

lemma card_members_le: "card (members S) \<le> UINT32_MAX"
  using card_mono [of "{..<UINT32_MAX}" "members S"] members_bound by fastforce

lemma IntSet_min_member: "IntSet_min S = Some u \<Longrightarrow> u \<in> members S"
  using set_to_vector [of S] by (cases "to_vector S") (auto simp: IntSet_min_def simp del: set_to_vector)

lemma IntSet_min_None: "IntSet_min S = None \<Longrightarrow> members S = {}"
  using set_to_vector [of S] by (cases "to_vector S") (auto simp: IntSet_min_def simp del: set_to_vector)

function UnicodeClosure_loop :: "unicode_edges \<Rightarrow> int_set \<Rightarrow> int_set \<Rightarrow> int_set" where
  "UnicodeClosure_loop edges queue visited = (case IntSet_min queue of None \<Rightarrow> visited
     | Some u \<Rightarrow> case follow edges u (fst (IntSet_erase u queue), visited) of
         (queue, visited) \<Rightarrow> UnicodeClosure_loop edges queue visited)"
  by pat_completeness auto
termination
proof (relation "inv_image (less_than <*lex*> less_than)
    (\<lambda>(_, queue, visited). (UINT32_MAX - card (members visited), card (members queue)))", goal_cases)
  case (2 edges queue visited u queue' visited')
  then have g: "grows (fst (IntSet_erase u queue), visited) (queue', visited')"
    using grows_follow [of "(fst (IntSet_erase u queue), visited)" edges u] by simp
  have u: "u \<in> members queue" by (rule IntSet_min_member [OF 2(1)])
  have erase: "members (fst (IntSet_erase u queue)) = members queue - {u}" by (auto simp: IntSet_erase_def)
  show ?case
  proof (cases "members visited' = members visited")
    case True
    then have "members queue' = members queue - {u}" using g erase by (simp add: grows_def)
    with True card_Diff1_less [OF finite_members u] show ?thesis by simp
  next
    case False
    then have "card (members visited) < card (members visited')"
      using g by (intro psubset_card_mono) (auto simp: grows_def)
    with card_members_le [of visited'] have "UINT32_MAX - card (members visited') < UINT32_MAX - card (members visited)"
      by linarith
    then show ?thesis by simp
  qed
qed auto

declare UnicodeClosure_loop.simps [simp del]

definition UnicodeClosure :: "unicode_edges \<Rightarrow> int_set \<Rightarrow> int_set" where
  "UnicodeClosure edges unicodes = UnicodeClosure_loop edges unicodes unicodes"

section \<open>Closures\<close>

record 'i closure_face =
  cf_ops :: "'i subset_input_ops"
  cf_new_input :: "'i option"
  cf_plan :: "'i \<Rightarrow> int_set option"
  cf_gid_to_unicode :: "nat \<Rightarrow> int_set option"
  cf_unicode_edges :: unicode_edges

record glyph_closure_cache =
  gc_cache :: "subset_definition \<Rightarrow> int_set option"
  gc_hits :: nat
  gc_misses :: nat

definition GlyphClosureCache :: glyph_closure_cache where
  "GlyphClosureCache = \<lparr>gc_cache = (\<lambda>_. None), gc_hits = 0, gc_misses = 0\<rparr>"

definition GlyphClosure ::
  "'i closure_face \<Rightarrow> subset_definition \<Rightarrow> glyph_closure_cache \<Rightarrow> glyph_closure_cache \<times> int_set status_or" where
  "GlyphClosure face segment cache = (case gc_cache cache segment of
      Some gids \<Rightarrow> (cache\<lparr>gc_hits := (gc_hits cache + 1) mod 2 ^ 64\<rparr>, Inr gids)
    | None \<Rightarrow>
        let cache = cache\<lparr>gc_misses := (gc_misses cache + 1) mod 2 ^ 64\<rparr>
        in case cf_new_input face of None \<Rightarrow> (cache, Inl InternalError)
          | Some input \<Rightarrow>
              let expanded = segment\<lparr>sd_codepoints := UnicodeClosure (cf_unicode_edges face) (sd_codepoints segment)\<rparr>
              in case cf_plan face (ConfigureInput (cf_ops face) expanded input) of
                  None \<Rightarrow> (cache, Inl InternalError)
                | Some gids \<Rightarrow> (cache\<lparr>gc_cache := (gc_cache cache)(segment \<mapsto> gids)\<rparr>, Inr gids))"

text \<open>The closure without the cache; the functions below take it as their argument.\<close>

definition glyph_closure :: "'i closure_face \<Rightarrow> subset_definition \<Rightarrow> int_set status_or" where
  "glyph_closure face segment = (case cf_new_input face of None \<Rightarrow> Inl InternalError
     | Some input \<Rightarrow> (case cf_plan face (ConfigureInput (cf_ops face)
           (segment\<lparr>sd_codepoints := UnicodeClosure (cf_unicode_edges face) (sd_codepoints segment)\<rparr>) input) of
         None \<Rightarrow> Inl InternalError | Some gids \<Rightarrow> Inr gids))"

definition map_set :: "(nat \<Rightarrow> int_set option) \<Rightarrow> nat \<Rightarrow> int_set" where
  "map_set m x = (case m x of None \<Rightarrow> IntSet_empty | Some S \<Rightarrow> S)"

definition CodepointsForGlyphs :: "'i closure_face \<Rightarrow> int_set \<Rightarrow> int_set" where
  "CodepointsForGlyphs face glyphs = fold (\<lambda>gid unicodes.
     IntSet_union_set (IntSet_union_set unicodes (map_set (cf_gid_to_unicode face) gid))
       (map_set (ue_gid_to_vs (cf_unicode_edges face)) gid)) (to_vector glyphs) IntSet_empty"

text \<open>The loop of \<^verbatim>\<open>ExpandClosure\<close>; it ends because the sets of the definition only grow.\<close>

definition expand_step :: "int_set \<Rightarrow> int_set \<Rightarrow> subset_definition \<Rightarrow> bool \<times> subset_definition" where
  "expand_step gids unicodes d =
     (let (changed, d) = (if \<not> IntSet_is_subset_of gids (sd_gids d)
            then (True, d\<lparr>sd_gids := IntSet_union_set (sd_gids d) gids\<rparr>) else (False, d))
      in if \<not> IntSet_is_subset_of unicodes (sd_codepoints d)
         then (True, d\<lparr>sd_codepoints := IntSet_union_set (sd_codepoints d) unicodes\<rparr>) else (changed, d))"

lemma expand_step_eq: "expand_step gids unicodes d =
  (\<not> (members gids \<subseteq> members (sd_gids d) \<and> members unicodes \<subseteq> members (sd_codepoints d)),
   d\<lparr>sd_gids := IntSet_union_set (sd_gids d) gids, sd_codepoints := IntSet_union_set (sd_codepoints d) unicodes\<rparr>)"
proof -
  have same: "members X \<subseteq> members Y \<Longrightarrow> IntSet_union_set Y X = Y" for X Y by (rule int_set_eqI) auto
  show ?thesis by (cases d) (auto simp: expand_step_def same)
qed

definition sd_size :: "subset_definition \<Rightarrow> nat" where
  "sd_size d = card (members (sd_gids d)) + card (members (sd_codepoints d))"

lemma expand_step_size: "expand_step gids unicodes d = (True, d') \<Longrightarrow> sd_size d < sd_size d' \<and> sd_size d' \<le> 2 * UINT32_MAX"
proof -
  assume "expand_step gids unicodes d = (True, d')"
  then have new: "\<not> (members gids \<subseteq> members (sd_gids d) \<and> members unicodes \<subseteq> members (sd_codepoints d))"
    and d': "members (sd_gids d') = members (sd_gids d) \<union> members gids"
      "members (sd_codepoints d') = members (sd_codepoints d) \<union> members unicodes"
    by (auto simp: expand_step_eq)
  have le: "card A \<le> card (A \<union> B)" and less: "\<not> B \<subseteq> A \<Longrightarrow> card A < card (A \<union> B)" if "finite A" "finite B" for A B :: "nat set"
    using that by (auto intro: card_mono psubset_card_mono)
  have "sd_size d < sd_size d'"
    using new le [of "members (sd_gids d)" "members gids"] le [of "members (sd_codepoints d)" "members unicodes"]
      less [of "members (sd_gids d)" "members gids"] less [of "members (sd_codepoints d)" "members unicodes"]
    by (auto simp: sd_size_def d' not_less intro: add_less_le_mono add_le_less_mono)
  moreover have "sd_size d' \<le> 2 * UINT32_MAX"
    using card_members_le [of "sd_gids d'"] card_members_le [of "sd_codepoints d'"] by (simp add: sd_size_def)
  ultimately show ?thesis by simp
qed

function ExpandClosure :: "(subset_definition \<Rightarrow> int_set status_or) \<Rightarrow> (int_set \<Rightarrow> int_set) \<Rightarrow> subset_definition \<Rightarrow>
    subset_definition status_or" where
  "ExpandClosure closure codepoints_for expanded = (case closure expanded of Inl e \<Rightarrow> Inl e
     | Inr gids \<Rightarrow> case expand_step gids (codepoints_for gids) expanded of
         (changed, expanded) \<Rightarrow> if changed then ExpandClosure closure codepoints_for expanded else Inr expanded)"
  by pat_completeness auto
termination
proof (relation "measure (\<lambda>(_, _, d). 2 * UINT32_MAX - sd_size d)", goal_cases)
  case (2 closure codepoints_for d gids changed d')
  then have "expand_step gids (codepoints_for gids) d = (True, d')" by simp
  from expand_step_size [OF this] have "sd_size d < sd_size d'" "sd_size d' \<le> 2 * UINT32_MAX" by simp_all
  then show ?case unfolding in_measure split by linarith
qed simp

declare ExpandClosure.simps [simp del]

section \<open>What the closures are\<close>

text \<open>The codepoints that a text of codepoints \<open>S\<close> may turn into.\<close>

inductive_set unicode_reach :: "unicode_edges \<Rightarrow> nat set \<Rightarrow> nat set" for edges S where
  start: "x \<in> S \<Longrightarrow> x \<in> unicode_reach edges S"
| decomposed: "u \<in> unicode_reach edges S \<Longrightarrow> ue_decomposition edges u = Some D \<Longrightarrow> v \<in> members D \<Longrightarrow>
    v \<in> unicode_reach edges S"
| composed: "u \<in> unicode_reach edges S \<Longrightarrow> ue_composition edges u = Some es \<Longrightarrow> e \<in> set es \<Longrightarrow>
    ue_other_source e \<in> unicode_reach edges S \<Longrightarrow> ue_dest e < UINT32_MAX \<Longrightarrow> ue_dest e \<in> unicode_reach edges S"

text \<open>A composition is stored with both of its sources.\<close>

definition composition_symmetric :: "unicode_edges \<Rightarrow> bool" where
  "composition_symmetric edges \<longleftrightarrow> (\<forall>u es e. ue_composition edges u = Some es \<longrightarrow> e \<in> set es \<longrightarrow>
     (\<exists>es'. ue_composition edges (ue_other_source e) = Some es' \<and>
        \<lparr>ue_other_source = u, ue_dest = ue_dest e\<rparr> \<in> set es'))"

lemma follow_edges_visits:
  "e \<in> set es \<Longrightarrow> ue_other_source e \<in> members (snd s) \<Longrightarrow> ue_dest e < UINT32_MAX \<Longrightarrow>
    ue_dest e \<in> members (snd (fold follow_edge es s))"
proof (induction es arbitrary: s)
  case (Cons e' es)
  show ?case
  proof (cases "e = e'")
    case True
    then have "ue_dest e \<in> members (snd (follow_edge e' s))"
      using Cons.prems by (cases s) (auto simp: follow_edge_def)
    with grows_edges [of "follow_edge e' s" es] show ?thesis by (auto simp: grows_def)
  next
    case False
    have "ue_other_source e \<in> members (snd (follow_edge e' s))"
      using Cons.prems(2) grows_edge [of s e'] by (auto simp: grows_def)
    with Cons False show ?thesis by simp
  qed
qed simp

lemma follow_visits_decomposition:
  "ue_decomposition edges u = Some D \<Longrightarrow> members D \<subseteq> members (snd (follow edges u s))"
proof -
  assume D: "ue_decomposition edges u = Some D"
  have "members D \<subseteq> members (snd (follow_decomposition edges u s))"
    using D by (cases s) (auto simp: follow_decomposition_def Let_def)
  with grows_edges show ?thesis unfolding follow_def follow_composition_def grows_def by blast
qed

lemma follow_visits_composition:
  assumes "ue_composition edges u = Some es" "e \<in> set es" "ue_other_source e \<in> members (snd s)" "ue_dest e < UINT32_MAX"
  shows "ue_dest e \<in> members (snd (follow edges u s))"
  unfolding follow_def follow_composition_def
  using assms grows_decomposition [of s edges u] by (auto simp: grows_def intro!: follow_edges_visits)

lemma follow_edges_sound:
  assumes "set es \<subseteq> set es'" "ue_composition edges u = Some es'" "u \<in> unicode_reach edges S"
    "members (snd s) \<subseteq> unicode_reach edges S"
  shows "members (snd (fold follow_edge es s)) \<subseteq> unicode_reach edges S"
  using assms
proof (induction es arbitrary: s)
  case (Cons e es)
  have "members (snd (follow_edge e s)) \<subseteq> unicode_reach edges S"
    using Cons.prems by (cases s) (auto simp: follow_edge_def intro: unicode_reach.composed)
  with Cons show ?case by simp
qed simp

lemma follow_sound:
  assumes u: "u \<in> unicode_reach edges S" and v: "members (snd s) \<subseteq> unicode_reach edges S"
  shows "members (snd (follow edges u s)) \<subseteq> unicode_reach edges S"
proof -
  have d: "members (snd (follow_decomposition edges u s)) \<subseteq> unicode_reach edges S"
    using u v by (cases s) (auto simp: follow_decomposition_def Let_def split: option.splits intro: unicode_reach.decomposed)
  show ?thesis
  proof (cases "ue_composition edges u")
    case (Some es)
    with follow_edges_sound [OF subset_refl Some u d] show ?thesis by (simp add: follow_def follow_composition_def)
  qed (use d in \<open>simp add: follow_def follow_composition_def\<close>)
qed

text \<open>Between the rounds: a visited codepoint that is not in the queue was followed.\<close>

definition closed_but :: "unicode_edges \<Rightarrow> nat set \<Rightarrow> int_set \<Rightarrow> bool" where
  "closed_but edges queue visited \<longleftrightarrow> queue \<subseteq> members visited \<and>
     (\<forall>u \<in> members visited - queue. \<forall>D. ue_decomposition edges u = Some D \<longrightarrow> members D \<subseteq> members visited) \<and>
     (\<forall>u \<in> members visited - queue. \<forall>es e. ue_composition edges u = Some es \<longrightarrow> e \<in> set es \<longrightarrow>
        ue_other_source e \<in> members visited - queue \<longrightarrow> ue_dest e < UINT32_MAX \<longrightarrow> ue_dest e \<in> members visited)"

lemma closed_but_step:
  assumes sym: "composition_symmetric edges" and c: "closed_but edges (members queue) visited" and u: "u \<in> members queue"
    and step: "follow edges u (fst (IntSet_erase u queue), visited) = (queue', visited')"
  shows "closed_but edges (members queue') visited'"
proof -
  have erase: "members (fst (IntSet_erase u queue)) = members queue - {u}" by (auto simp: IntSet_erase_def)
  have g: "members visited \<subseteq> members visited'" "members queue' = members queue - {u} \<union> (members visited' - members visited)"
    using grows_follow [of "(fst (IntSet_erase u queue), visited)" edges u] unfolding step grows_def by (simp_all add: erase)
  note c = c [unfolded closed_but_def]
  have uv: "u \<in> members visited" using c u by blast
  have done_iff: "x \<in> members visited' - members queue' \<longleftrightarrow> x = u \<or> x \<in> members visited - members queue" for x
    using g c uv by blast
  have snd_step: "visited' = snd (follow edges u (fst (IntSet_erase u queue), visited))" by (simp add: step)
  have comp_u: "ue_dest e \<in> members visited'" if "ue_composition edges u = Some es" "e \<in> set es"
    "ue_other_source e \<in> members visited" "ue_dest e < UINT32_MAX" for es e
    unfolding snd_step by (rule follow_visits_composition) (use that in simp_all)
  show ?thesis unfolding closed_but_def
  proof (intro conjI ballI allI impI)
    show "members queue' \<subseteq> members visited'" using g c by blast
    fix x assume x: "x \<in> members visited' - members queue'"
    show "members D \<subseteq> members visited'" if "ue_decomposition edges x = Some D" for D
    proof (cases "x = u")
      case True
      with that show ?thesis unfolding snd_step by (simp add: follow_visits_decomposition)
    next
      case False
      then show ?thesis using x that c g(1) unfolding done_iff by blast
    qed
    fix es e assume e: "ue_composition edges x = Some es" "e \<in> set es" "ue_dest e < UINT32_MAX"
      and o: "ue_other_source e \<in> members visited' - members queue'"
    show "ue_dest e \<in> members visited'"
    proof (cases "x = u")
      case True
      with e o uv show ?thesis using comp_u [of es e] unfolding done_iff by blast
    next
      case False
      then have xv: "x \<in> members visited - members queue" using x done_iff by blast
      show ?thesis
      proof (cases "ue_other_source e = u")
        case True
        obtain es' where "ue_composition edges u = Some es'" "\<lparr>ue_other_source = x, ue_dest = ue_dest e\<rparr> \<in> set es'"
          using sym e(1,2) True unfolding composition_symmetric_def by blast
        from comp_u [OF this] xv e(3) show ?thesis by simp
      next
        case False
        then have "ue_other_source e \<in> members visited - members queue" using o done_iff by blast
        then show ?thesis using c e xv g(1) by blast
      qed
    qed
  qed
qed

lemma UnicodeClosure_loop_spec:
  assumes "composition_symmetric edges" and "closed_but edges (members queue) visited" and "S \<subseteq> members visited"
    and "members visited \<subseteq> unicode_reach edges S"
  shows "closed_but edges {} (UnicodeClosure_loop edges queue visited) \<and> S \<subseteq> members (UnicodeClosure_loop edges queue visited) \<and>
    members (UnicodeClosure_loop edges queue visited) \<subseteq> unicode_reach edges S"
  using assms
proof (induction edges queue visited rule: UnicodeClosure_loop.induct)
  case (1 edges queue visited)
  show ?case
  proof (cases "IntSet_min queue")
    case None
    with IntSet_min_None [OF None] 1 show ?thesis by (simp add: UnicodeClosure_loop.simps)
  next
    case (Some u)
    have u: "u \<in> members queue" by (rule IntSet_min_member [OF Some])
    let ?s = "(fst (IntSet_erase u queue), visited)"
    obtain queue' visited' where step: "follow edges u ?s = (queue', visited')" by fastforce
    have "closed_but edges (members queue') visited'" by (rule closed_but_step [OF "1.prems"(1,2) u step])
    moreover have "members visited \<subseteq> members visited'" using grows_follow [of ?s edges u] by (simp add: step grows_def)
    moreover have "u \<in> unicode_reach edges S" using u "1.prems"(2,4) by (auto simp: closed_but_def)
    from follow_sound [OF this, of ?s] have "members visited' \<subseteq> unicode_reach edges S"
      using "1.prems"(4) by (simp add: step)
    ultimately show ?thesis
      using "1.IH" [OF Some step [symmetric]] "1.prems"(1,3) Some step by (simp add: UnicodeClosure_loop.simps)
  qed
qed

lemma UnicodeClosure_reach:
  assumes sym: "composition_symmetric edges"
  shows "members (UnicodeClosure edges unicodes) = unicode_reach edges (members unicodes)"
proof
  let ?R = "UnicodeClosure_loop edges unicodes unicodes"
  have "members unicodes \<subseteq> unicode_reach edges (members unicodes)" by (auto intro: unicode_reach.start)
  then have r: "closed_but edges {} ?R" "members unicodes \<subseteq> members ?R" "members ?R \<subseteq> unicode_reach edges (members unicodes)"
    using UnicodeClosure_loop_spec [OF sym, of unicodes unicodes "members unicodes"] by (simp_all add: closed_but_def)
  show "members (UnicodeClosure edges unicodes) \<subseteq> unicode_reach edges (members unicodes)"
    using r(3) by (simp add: UnicodeClosure_def)
  show "unicode_reach edges (members unicodes) \<subseteq> members (UnicodeClosure edges unicodes)"
  proof
    fix x assume "x \<in> unicode_reach edges (members unicodes)"
    then show "x \<in> members (UnicodeClosure edges unicodes)"
      unfolding UnicodeClosure_def using r(1,2) unfolding closed_but_def
      by (induction rule: unicode_reach.induct) blast+
  qed
qed

text \<open>The cache only holds closures, and so does not change what \<^verbatim>\<open>GlyphClosure\<close> returns.\<close>

definition cache_sound :: "'i closure_face \<Rightarrow> glyph_closure_cache \<Rightarrow> bool" where
  "cache_sound face cache \<longleftrightarrow> (\<forall>d gids. gc_cache cache d = Some gids \<longrightarrow> glyph_closure face d = Inr gids)"

lemma GlyphClosure_cached:
  assumes sound: "cache_sound face cache"
  shows "snd (GlyphClosure face d cache) = glyph_closure face d \<and> cache_sound face (fst (GlyphClosure face d cache))"
proof (cases "gc_cache cache d")
  case None
  have "snd (GlyphClosure face d cache) = glyph_closure face d"
    using None by (simp add: GlyphClosure_def glyph_closure_def Let_def split: option.splits)
  moreover have "gc_cache (fst (GlyphClosure face d cache)) = (case glyph_closure face d of Inl _ \<Rightarrow> gc_cache cache
      | Inr gids \<Rightarrow> (gc_cache cache)(d \<mapsto> gids))"
    using None by (simp add: GlyphClosure_def glyph_closure_def Let_def split: option.splits)
  ultimately show ?thesis using sound unfolding cache_sound_def by (cases "glyph_closure face d") simp_all
qed (use assms in \<open>auto simp: GlyphClosure_def cache_sound_def\<close>)

text \<open>The order of subset definitions that a closure is monotone in.\<close>

definition sd_le :: "subset_definition \<Rightarrow> subset_definition \<Rightarrow> bool" where
  "sd_le a b \<longleftrightarrow> members (sd_codepoints a) \<subseteq> members (sd_codepoints b) \<and> members (sd_gids a) \<subseteq> members (sd_gids b) \<and>
     set (sd_feature_tags a) \<subseteq> set (sd_feature_tags b) \<and>
     (\<forall>t. ds_points t (sd_design_space a) \<subseteq> ds_points t (sd_design_space b))"

lemma sd_le_refl: "sd_le d d"
  by (simp add: sd_le_def)

lemma sd_le_trans: "sd_le a b \<Longrightarrow> sd_le b c \<Longrightarrow> sd_le a c"
  unfolding sd_le_def by blast

definition closure_monotone :: "(subset_definition \<Rightarrow> int_set status_or) \<Rightarrow> bool" where
  "closure_monotone closure \<longleftrightarrow> (\<forall>a b. sd_le a b \<longrightarrow>
     (\<exists>A B. closure a = Inr A \<and> closure b = Inr B \<and> members A \<subseteq> members B))"

text \<open>\<^verbatim>\<open>ExpandClosure\<close> stops at a definition that has the glyphs of its closure and their codepoints.\<close>

definition expanded_for :: "(subset_definition \<Rightarrow> int_set status_or) \<Rightarrow> (int_set \<Rightarrow> int_set) \<Rightarrow> subset_definition \<Rightarrow> bool" where
  "expanded_for closure codepoints_for d \<longleftrightarrow> (\<exists>gids. closure d = Inr gids \<and> members gids \<subseteq> members (sd_gids d) \<and>
     members (codepoints_for gids) \<subseteq> members (sd_codepoints d))"

lemma ExpandClosure_spec:
  assumes mono: "closure_monotone closure" and cps: "\<And>A B. members A \<subseteq> members B \<Longrightarrow> members (codepoints_for A) \<subseteq> members (codepoints_for B)"
  shows "\<exists>d'. ExpandClosure closure codepoints_for d = Inr d' \<and> sd_le d d' \<and> expanded_for closure codepoints_for d' \<and>
    sd_feature_tags d' = sd_feature_tags d \<and> sd_design_space d' = sd_design_space d \<and>
    (\<forall>e. sd_le d e \<and> expanded_for closure codepoints_for e \<longrightarrow> sd_le d' e)"
  using assms
proof (induction closure codepoints_for d rule: ExpandClosure.induct)
  case (1 closure codepoints_for d)
  obtain gids where gids: "closure d = Inr gids" using "1.prems"(1) sd_le_refl unfolding closure_monotone_def by blast
  let ?u = "codepoints_for gids"
  let ?d = "d\<lparr>sd_gids := IntSet_union_set (sd_gids d) gids, sd_codepoints := IntSet_union_set (sd_codepoints d) ?u\<rparr>"
  let ?changed = "\<not> (members gids \<subseteq> members (sd_gids d) \<and> members ?u \<subseteq> members (sd_codepoints d))"
  have step: "expand_step gids ?u d = (?changed, ?d)" by (rule expand_step_eq)
  have le: "sd_le d ?d" by (auto simp: sd_le_def)
  have upper: "sd_le ?d e" if e: "sd_le d e" "expanded_for closure codepoints_for e" for e
  proof -
    obtain E where E: "closure e = Inr E" "members E \<subseteq> members (sd_gids e)" "members (codepoints_for E) \<subseteq> members (sd_codepoints e)"
      using e(2) by (auto simp: expanded_for_def)
    have "members gids \<subseteq> members E" using "1.prems"(1) e(1) gids E(1) unfolding closure_monotone_def by fastforce
    then show ?thesis using e(1) E "1.prems"(2) [of gids E] by (auto simp: sd_le_def)
  qed
  show ?case
  proof (cases ?changed)
    case True
    obtain d' where d': "ExpandClosure closure codepoints_for ?d = Inr d'" "sd_le ?d d'"
      "expanded_for closure codepoints_for d'" "sd_feature_tags d' = sd_feature_tags ?d" "sd_design_space d' = sd_design_space ?d"
      "\<forall>e. sd_le ?d e \<and> expanded_for closure codepoints_for e \<longrightarrow> sd_le d' e"
      using "1.IH" [OF gids step [symmetric] True "1.prems"] by blast
    have run: "ExpandClosure closure codepoints_for d = Inr d'"
      using gids step True d'(1) by (subst ExpandClosure.simps) simp
    have "\<forall>e. sd_le d e \<and> expanded_for closure codepoints_for e \<longrightarrow> sd_le d' e" using d'(6) upper by blast
    then show ?thesis using run d'(2-5) sd_le_trans [OF le d'(2)] by (intro exI [of _ d']) simp
  next
    case False
    then have same: "members (sd_gids ?d) = members (sd_gids d)" "members (sd_codepoints ?d) = members (sd_codepoints d)"
      by auto
    have d: "?d = d" using int_set_eqI [OF same(1)] int_set_eqI [OF same(2)] by simp
    have "ExpandClosure closure codepoints_for d = Inr ?d"
      using gids step False by (subst ExpandClosure.simps) simp
    then show ?thesis unfolding d using gids False sd_le_refl by (auto simp: expanded_for_def)
  qed
qed

lemma members_map_set_fold:
  "members (fold (\<lambda>gid unicodes. IntSet_union_set (IntSet_union_set unicodes (f gid)) (g gid)) gids U) =
    members U \<union> (\<Union>gid \<in> set gids. members (f gid) \<union> members (g gid))"
  by (induction gids arbitrary: U) auto

lemma CodepointsForGlyphs_mono:
  "members A \<subseteq> members B \<Longrightarrow> members (CodepointsForGlyphs face A) \<subseteq> members (CodepointsForGlyphs face B)"
  unfolding CodepointsForGlyphs_def members_map_set_fold by auto

end
