(* ===== verification/Segment_Info.thy ===== *)
theory Segment_Info
  imports Closure_Cache
begin

text \<open>
  The segments that a segmentation is made of and what is known of them
  (\<^verbatim>\<open>ift/encoder/segment.h\<close>, \<^verbatim>\<open>requested_segmentation_information.cc\<close>, \<^verbatim>\<open>.h\<close>), with the default features
  of the initial font. Probabilities are reals. The hash map from codepoints to segments is a
  function. A segment id outside of the vector gives \<open>None\<close>.
\<close>

section \<open>Segments\<close>

record probability_bound =
  pb_min :: real
  pb_max :: real

definition PB_Zero :: probability_bound where
  "PB_Zero = \<lparr>pb_min = 0, pb_max = 0\<rparr>"

definition PB_Average :: "probability_bound \<Rightarrow> real" where
  "PB_Average b = (pb_min b + pb_max b) / 2"

record segment =
  seg_definition :: subset_definition
  seg_probability :: probability_bound

definition Segment_Probability :: "segment \<Rightarrow> real" where
  "Segment_Probability s = PB_Average (seg_probability s)"

definition MeetsMinimumGroupSize :: "nat \<Rightarrow> segment \<Rightarrow> bool" where
  "MeetsMinimumGroupSize min_group_size s =
     (if sd_feature_tags (seg_definition s) \<noteq> [] \<or> sd_design_space (seg_definition s) \<noteq> [] then True
      else min_group_size \<le> IntSet_size (sd_codepoints (seg_definition s)))"

definition Segment_Clear :: "segment \<Rightarrow> segment" where
  "Segment_Clear s = \<lparr>seg_definition = SD_Clear (seg_definition s), seg_probability = PB_Zero\<rparr>"

section \<open>Default features\<close>

definition HB_TAG :: "string \<Rightarrow> hb_tag" where
  "HB_TAG cs = foldl (\<lambda>n c. n * 256 + of_char c) 0 cs"

definition DefaultFeatureTags :: "hb_tag list" where
  "DefaultFeatureTags = map HB_TAG [
    ''abvf'', ''abvm'', ''abvs'', ''akhn'', ''blwf'', ''blwm'', ''blws'', ''calt'', ''ccmp'',
    ''cfar'', ''chws'', ''cjct'', ''clig'', ''cswh'', ''curs'', ''dist'', ''dnom'', ''dtls'',
    ''fin2'', ''fin3'', ''fina'', ''flac'', ''frac'', ''half'', ''haln'', ''init'', ''isol'',
    ''jalt'', ''kern'', ''liga'', ''ljmo'', ''locl'', ''ltra'', ''ltrm'', ''mark'', ''med2'',
    ''medi'', ''mkmk'', ''mset'', ''nukt'', ''numr'', ''pref'', ''pres'', ''pstf'', ''psts'',
    ''rand'', ''rclt'', ''rkrf'', ''rlig'', ''rphf'', ''rtla'', ''rtlm'', ''rvrn'', ''ssty'',
    ''stch'', ''tjmo'', ''valt'', ''vatu'', ''vchw'', ''vert'', ''vjmo'', ''vkrn'', ''vpal'',
    ''vrt2'', ''vrtr'']"

definition AddInitSubsetDefaults :: "subset_definition \<Rightarrow> subset_definition" where
  "AddInitSubsetDefaults d = d\<lparr>sd_feature_tags := fold ins_sorted DefaultFeatureTags (sd_feature_tags d)\<rparr>"

section \<open>The index from codepoints to segments\<close>

type_synonym codepoint_index = "nat \<Rightarrow> int_set option"

definition AddToIndex :: "segment_index \<Rightarrow> int_set \<Rightarrow> codepoint_index \<Rightarrow> codepoint_index" where
  "AddToIndex s codepoints m = fold (\<lambda>cp m. m(cp \<mapsto> IntSet_insert s (map_set m cp))) (to_vector codepoints) m"

definition remove_segment :: "segment_index \<Rightarrow> nat \<Rightarrow> codepoint_index \<Rightarrow> codepoint_index" where
  "remove_segment s cp m = (case m cp of None \<Rightarrow> m
     | Some S \<Rightarrow> let S = fst (IntSet_erase s S) in if IntSet_is_empty S then m(cp := None) else m(cp \<mapsto> S))"

definition RemoveFromIndex :: "segment_index \<Rightarrow> int_set \<Rightarrow> codepoint_index \<Rightarrow> codepoint_index" where
  "RemoveFromIndex s codepoints m = fold (remove_segment s) (to_vector codepoints) m"

section \<open>The segmentation information\<close>

datatype unmapped_glyph_handling = PATCH | MOVE_TO_INIT_FONT | FIND_CONDITIONS

record segmentation_info =
  si_segments :: "segment list"
  si_init_font_segment :: subset_definition
  si_full_definition :: subset_definition
  si_full_closure :: int_set
  si_full_codepoint_closure :: int_set
  si_segments_disjoint :: bool
  si_unmapped_glyph_handling :: unmapped_glyph_handling
  si_codepoint_to_segments :: codepoint_index

definition seg_codepoints :: "segment \<Rightarrow> int_set" where
  "seg_codepoints s = sd_codepoints (seg_definition s)"

text \<open>The private constructor; \<^verbatim>\<open>segments_disjoint_\<close> is set by \<^verbatim>\<open>Create\<close>.\<close>

definition SegmentationInfo :: "segment list \<Rightarrow> subset_definition \<Rightarrow> unmapped_glyph_handling \<Rightarrow> segmentation_info" where
  "SegmentationInfo segments init_font_segment handling =
     \<lparr>si_segments = segments, si_init_font_segment = SubsetDefinition [],
      si_full_definition = fold (\<lambda>s d. SD_Union d (seg_definition s)) segments init_font_segment,
      si_full_closure = IntSet_empty, si_full_codepoint_closure = IntSet_empty, si_segments_disjoint = False,
      si_unmapped_glyph_handling = handling,
      si_codepoint_to_segments = fold (\<lambda>(i, s). AddToIndex i (seg_codepoints s)) (enumerate 0 segments) (\<lambda>_. None)\<rparr>"

definition set_segment :: "segment_index \<Rightarrow> segment \<Rightarrow> segmentation_info \<Rightarrow> segmentation_info" where
  "set_segment i s info = info\<lparr>si_segments := (si_segments info)[i := s]\<rparr>"

definition remove_from_index :: "segment_index \<Rightarrow> int_set \<Rightarrow> segmentation_info \<Rightarrow> segmentation_info" where
  "remove_from_index i codepoints info =
     info\<lparr>si_codepoint_to_segments := RemoveFromIndex i codepoints (si_codepoint_to_segments info)\<rparr>"

definition add_to_index :: "segment_index \<Rightarrow> int_set \<Rightarrow> segmentation_info \<Rightarrow> segmentation_info" where
  "add_to_index i codepoints info =
     info\<lparr>si_codepoint_to_segments := AddToIndex i codepoints (si_codepoint_to_segments info)\<rparr>"

fun ClearSegments :: "segment_index list \<Rightarrow> segmentation_info \<Rightarrow> segmentation_info option" where
  "ClearSegments [] info = Some info"
| "ClearSegments (s # ss) info =
     (if length (si_segments info) \<le> s then None
      else let seg = si_segments info ! s
        in ClearSegments ss (set_segment s (Segment_Clear seg) (remove_from_index s (seg_codepoints seg) info)))"

definition AssignMergedSegment :: "segment_index \<Rightarrow> int_set \<Rightarrow> segment \<Rightarrow> segmentation_info \<Rightarrow>
    (nat \<times> segmentation_info) option" where
  "AssignMergedSegment base to_merge merged_segment info =
     (if length (si_segments info) \<le> base then None
      else let info = remove_from_index base (seg_codepoints (si_segments info ! base)) info;
               info = set_segment base merged_segment info;
               info = add_to_index base (seg_codepoints merged_segment) info
        in map_option (\<lambda>info. (IntSet_size (seg_codepoints (si_segments info ! base)), info))
             (ClearSegments (to_vector to_merge) info))"

definition subtract_init :: "segment_index \<Rightarrow> segmentation_info \<Rightarrow> segmentation_info" where
  "subtract_init i info =
     (let s = si_segments info ! i; init = sd_codepoints (si_init_font_segment info)
      in if IntSet_intersects (seg_codepoints s) init
         then set_segment i (s\<lparr>seg_definition := (seg_definition s)\<lparr>
                sd_codepoints := IntSet_subtract (seg_codepoints s) init\<rparr>\<rparr>)
              (remove_from_index i (IntSet_intersect (seg_codepoints s) init) info)
         else info)"

text \<open>A closure of the full definition that fails is ignored.\<close>

definition ReassignInitSubset :: "(subset_definition \<Rightarrow> int_set status_or) \<Rightarrow> (int_set \<Rightarrow> int_set) \<Rightarrow>
    subset_definition \<Rightarrow> segmentation_info \<Rightarrow> segmentation_info status_or" where
  "ReassignInitSubset closure codepoints_for new_def info =
     TRY (ExpandClosure closure codepoints_for new_def) (\<lambda>init.
       let info = info\<lparr>si_init_font_segment := init\<rparr>;
           info = info\<lparr>si_full_definition := SD_Union (si_full_definition info) init\<rparr>;
           info = (case closure (si_full_definition info) of Inl _ \<Rightarrow> info
             | Inr gids \<Rightarrow> info\<lparr>si_full_closure := gids, si_full_codepoint_closure := codepoints_for gids\<rparr>)
       in Inr (fold subtract_init [0..<length (si_segments info)] info))"

text \<open>\<^verbatim>\<open>CheckSegmentsAreDisjoint\<close> looks at features and codepoints.\<close>

definition disjoint_step :: "segment \<Rightarrow> bool \<times> subset_definition \<Rightarrow> bool \<times> subset_definition" where
  "disjoint_step s = (\<lambda>(segments_disjoint, full_definition). let def = seg_definition s in
     (segments_disjoint \<and> \<not> list_ex (List.member (sd_feature_tags full_definition)) (sd_feature_tags def) \<and>
        \<not> IntSet_intersects (sd_codepoints full_definition) (sd_codepoints def),
      SD_Union full_definition def))"

definition CheckSegmentsAreDisjoint :: "subset_definition \<Rightarrow> segment list \<Rightarrow> bool" where
  "CheckSegmentsAreDisjoint init_segment segments = fst (fold disjoint_step segments (True, init_segment))"

definition SegmentationInfo_Create :: "(subset_definition \<Rightarrow> int_set status_or) \<Rightarrow> (int_set \<Rightarrow> int_set) \<Rightarrow>
    segment list \<Rightarrow> subset_definition \<Rightarrow> unmapped_glyph_handling \<Rightarrow> segmentation_info status_or" where
  "SegmentationInfo_Create closure codepoints_for segments init_font_segment handling =
     TRY (ReassignInitSubset closure codepoints_for init_font_segment
           (SegmentationInfo segments init_font_segment handling)) (\<lambda>info.
       Inr (info\<lparr>si_segments_disjoint := CheckSegmentsAreDisjoint init_font_segment (si_segments info)\<rparr>))"

section \<open>Queries\<close>

definition InitFontSegmentWithoutDefaults :: "segmentation_info \<Rightarrow> subset_definition" where
  "InitFontSegmentWithoutDefaults info =
     SD_Subtract (si_init_font_segment info) (AddInitSubsetDefaults (SubsetDefinition []))"

definition InitFontGlyphs :: "segmentation_info \<Rightarrow> int_set" where
  "InitFontGlyphs info = sd_gids (si_init_font_segment info)"

definition NonInitFontGlyphs :: "segmentation_info \<Rightarrow> int_set" where
  "NonInitFontGlyphs info = IntSet_subtract (si_full_closure info) (InitFontGlyphs info)"

definition SegmentSubsetDefinitions :: "segmentation_info \<Rightarrow> subset_definition list" where
  "SegmentSubsetDefinitions info = map seg_definition (si_segments info)"

definition NonEmptySegments :: "segmentation_info \<Rightarrow> int_set" where
  "NonEmptySegments info = fold (\<lambda>(i, s) segments. if \<not> SD_Empty (seg_definition s) then IntSet_insert i segments else segments)
     (enumerate 0 (si_segments info)) IntSet_empty"

text \<open>The definitions of the segments \<open>ss\<close> added to \<open>d\<close>.\<close>

fun UnionSegments :: "segment list \<Rightarrow> segment_index list \<Rightarrow> subset_definition \<Rightarrow> subset_definition option" where
  "UnionSegments segments [] d = Some d"
| "UnionSegments segments (s # ss) d =
     (if length segments \<le> s then None else UnionSegments segments ss (SD_Union d (seg_definition (segments ! s))))"

definition CombinedDefinition :: "segmentation_info \<Rightarrow> int_set \<Rightarrow> subset_definition option" where
  "CombinedDefinition info segments =
     map_option (\<lambda>d. SD_Union d (si_init_font_segment info))
       (UnionSegments (si_segments info) (to_vector segments) (SubsetDefinition []))"

definition SegmentsForCodepoints :: "segmentation_info \<Rightarrow> int_set \<Rightarrow> int_set" where
  "SegmentsForCodepoints info codepoints = fold (\<lambda>cp result. case si_codepoint_to_segments info cp of
       None \<Rightarrow> result | Some S \<Rightarrow> IntSet_union_set result S) (to_vector codepoints) IntSet_empty"

section \<open>The index is that of the segments\<close>

definition index_ok :: "segment list \<Rightarrow> codepoint_index \<Rightarrow> bool" where
  "index_ok segments m \<longleftrightarrow> (\<forall>cp. members (map_set m cp) = {i. i < length segments \<and> cp \<in> members (seg_codepoints (segments ! i))} \<and>
     m cp \<noteq> Some IntSet_empty)"

lemma members_not_empty: "members S \<noteq> {} \<Longrightarrow> S \<noteq> IntSet_empty"
  by auto

lemma map_set_upd: "map_set (m(cp \<mapsto> S)) x = (if x = cp then S else map_set m x)"
  by (simp add: map_set_def)

lemma AddToIndex_spec:
  assumes "s < UINT32_MAX" and "\<forall>cp. m cp \<noteq> Some IntSet_empty"
  shows "members (map_set (AddToIndex s C m) cp) = members (map_set m cp) \<union> (if cp \<in> members C then {s} else {}) \<and>
    AddToIndex s C m cp \<noteq> Some IntSet_empty"
proof -
  have "members (map_set (fold (\<lambda>cp m. m(cp \<mapsto> IntSet_insert s (map_set m cp))) cps m) cp) =
      members (map_set m cp) \<union> (if cp \<in> set cps then {s} else {}) \<and>
    fold (\<lambda>cp m. m(cp \<mapsto> IntSet_insert s (map_set m cp))) cps m cp \<noteq> Some IntSet_empty"
    if "\<forall>cp. m cp \<noteq> Some IntSet_empty" for cps m
    using that
  proof (induction cps arbitrary: m)
    case (Cons c cps)
    have "IntSet_insert s (map_set m c) \<noteq> IntSet_empty" by (rule members_not_empty) (use assms(1) in simp)
    then have "\<forall>cp. (m(c \<mapsto> IntSet_insert s (map_set m c))) cp \<noteq> Some IntSet_empty" using Cons.prems by simp
    from Cons.IH [OF this] show ?case using assms(1) by (auto simp: map_set_upd simp del: fun_upd_apply)
  qed simp
  from this [OF assms(2), of "to_vector C"] show ?thesis by (simp add: AddToIndex_def)
qed

lemma remove_segment_spec:
  assumes "\<forall>cp. m cp \<noteq> Some IntSet_empty"
  shows "members (map_set (remove_segment s c m) cp) = members (map_set m cp) - (if cp = c then {s} else {}) \<and>
    remove_segment s c m cp \<noteq> Some IntSet_empty"
proof (cases "m c")
  case None
  then show ?thesis using assms by (simp add: remove_segment_def map_set_def)
next
  case (Some S)
  have e: "members (fst (IntSet_erase s S)) = members S - {s}" by (auto simp: IntSet_erase_def)
  show ?thesis
  proof (cases "members (fst (IntSet_erase s S)) = {}")
    case True
    then show ?thesis using Some assms e by (auto simp: remove_segment_def map_set_def Let_def)
  next
    case False
    then have "fst (IntSet_erase s S) \<noteq> IntSet_empty" by (rule members_not_empty)
    then show ?thesis using Some assms e False by (auto simp: remove_segment_def map_set_def Let_def)
  qed
qed

lemma RemoveFromIndex_spec:
  assumes "\<forall>cp. m cp \<noteq> Some IntSet_empty"
  shows "members (map_set (RemoveFromIndex s C m) cp) = members (map_set m cp) - (if cp \<in> members C then {s} else {}) \<and>
    RemoveFromIndex s C m cp \<noteq> Some IntSet_empty"
proof -
  have "members (map_set (fold (remove_segment s) cps m) cp) = members (map_set m cp) - (if cp \<in> set cps then {s} else {}) \<and>
      fold (remove_segment s) cps m cp \<noteq> Some IntSet_empty"
    if "\<forall>cp. m cp \<noteq> Some IntSet_empty" for cps m
    using that
  proof (induction cps arbitrary: m)
    case (Cons c cps)
    have "\<forall>cp. remove_segment s c m cp \<noteq> Some IntSet_empty" using remove_segment_spec [OF Cons.prems] by blast
    from Cons.IH [OF this] show ?case using remove_segment_spec [OF Cons.prems, of s c cp] by auto
  qed simp
  from this [OF assms, of "to_vector C"] show ?thesis by (simp add: RemoveFromIndex_def)
qed

lemma index_ok_update:
  assumes ok: "index_ok segments m" and i: "i < length segments" and ne: "\<forall>cp. m' cp \<noteq> Some IntSet_empty"
    and m': "\<And>cp. members (map_set m' cp) = members (map_set m cp) - {i} \<union> (if cp \<in> members (seg_codepoints s) then {i} else {})"
  shows "index_ok (segments[i := s]) m'"
  unfolding index_ok_def
proof (intro allI conjI)
  fix cp
  show "members (map_set m' cp) = {j. j < length (segments[i := s]) \<and> cp \<in> members (seg_codepoints (segments[i := s] ! j))}"
    using ok i unfolding m' index_ok_def by (auto simp: nth_list_update)
  show "m' cp \<noteq> Some IntSet_empty" using ne by blast
qed

lemma index_okD: "index_ok segments m \<Longrightarrow> \<forall>cp. m cp \<noteq> Some IntSet_empty"
  by (simp add: index_ok_def)

lemma index_ok_members: "index_ok segments m \<Longrightarrow> i < length segments \<Longrightarrow>
    i \<in> members (map_set m cp) \<longleftrightarrow> cp \<in> members (seg_codepoints (segments ! i))"
  by (simp add: index_ok_def)

abbreviation info_index_ok :: "segmentation_info \<Rightarrow> bool" where
  "info_index_ok info \<equiv> index_ok (si_segments info) (si_codepoint_to_segments info)"

lemma fold_AddToIndex:
  assumes "n + length segments \<le> UINT32_MAX" and "index_ok done m" and "length done = n"
  shows "index_ok (done @ segments) (fold (\<lambda>(i, s). AddToIndex i (seg_codepoints s)) (enumerate n segments) m)"
  using assms
proof (induction segments arbitrary: n m "done")
  case (Cons s segments)
  have n: "n < UINT32_MAX" using Cons.prems(1) by simp
  note add = AddToIndex_spec [OF n index_okD [OF Cons.prems(2)], of "seg_codepoints s"]
  have "index_ok (done @ [s]) (AddToIndex n (seg_codepoints s) m)"
    unfolding index_ok_def
  proof (intro allI conjI)
    fix cp
    show "members (map_set (AddToIndex n (seg_codepoints s) m) cp) =
        {i. i < length (done @ [s]) \<and> cp \<in> members (seg_codepoints ((done @ [s]) ! i))}"
      using add [of cp] Cons.prems(2,3) by (auto simp: index_ok_def nth_append less_Suc_eq)
    show "AddToIndex n (seg_codepoints s) m cp \<noteq> Some IntSet_empty" using add by blast
  qed
  from Cons.IH [of "Suc n" "done @ [s]", OF _ this] Cons.prems(1,3) show ?case by simp
qed simp

lemma SegmentationInfo_index:
  "length segments \<le> UINT32_MAX \<Longrightarrow> info_index_ok (SegmentationInfo segments init handling)"
  using fold_AddToIndex [of 0 segments "[]" "\<lambda>_. None"]
  by (simp add: SegmentationInfo_def index_ok_def map_set_def)

lemma clear_index:
  assumes ok: "info_index_ok info" and i: "i < length (si_segments info)"
  shows "info_index_ok (set_segment i (Segment_Clear (si_segments info ! i))
    (remove_from_index i (seg_codepoints (si_segments info ! i)) info))"
proof -
  note rem = RemoveFromIndex_spec [OF index_okD [OF ok], of i "seg_codepoints (si_segments info ! i)"]
  have "index_ok ((si_segments info)[i := Segment_Clear (si_segments info ! i)])
    (RemoveFromIndex i (seg_codepoints (si_segments info ! i)) (si_codepoint_to_segments info))"
  proof (rule index_ok_update [OF ok i])
    show "members (map_set (RemoveFromIndex i (seg_codepoints (si_segments info ! i)) (si_codepoint_to_segments info)) cp) =
      members (map_set (si_codepoint_to_segments info) cp) - {i} \<union>
        (if cp \<in> members (seg_codepoints (Segment_Clear (si_segments info ! i))) then {i} else {})" for cp
      using rem [of cp] index_ok_members [OF ok i, of cp]
      by (auto simp: Segment_Clear_def SD_Clear_def seg_codepoints_def)
  qed (use rem in blast)
  then show ?thesis by (simp add: set_segment_def remove_from_index_def)
qed

lemma ClearSegments_index:
  "info_index_ok info \<Longrightarrow> ClearSegments ss info = Some info' \<Longrightarrow>
    info_index_ok info' \<and> length (si_segments info') = length (si_segments info)"
proof (induction ss arbitrary: info)
  case (Cons s ss)
  have s: "s < length (si_segments info)" using Cons.prems(2) by (simp split: if_splits)
  let ?info = "set_segment s (Segment_Clear (si_segments info ! s))
    (remove_from_index s (seg_codepoints (si_segments info ! s)) info)"
  have "ClearSegments ss ?info = Some info'" using Cons.prems(2) s by (simp add: Let_def)
  with Cons.IH [OF clear_index [OF Cons.prems(1) s]] show ?case by (simp add: set_segment_def remove_from_index_def)
qed simp

lemma AssignMergedSegment_index:
  assumes ok: "info_index_ok info" and len: "length (si_segments info) \<le> UINT32_MAX"
    and run: "AssignMergedSegment base to_merge merged info = Some (n, info')"
  shows "info_index_ok info' \<and> length (si_segments info') = length (si_segments info)"
proof -
  have b: "base < length (si_segments info)" using run by (simp add: AssignMergedSegment_def split: if_splits)
  then have b32: "base < UINT32_MAX" using len by linarith
  let ?m = "RemoveFromIndex base (seg_codepoints (si_segments info ! base)) (si_codepoint_to_segments info)"
  let ?m' = "AddToIndex base (seg_codepoints merged) ?m"
  let ?info = "info\<lparr>si_segments := (si_segments info)[base := merged], si_codepoint_to_segments := ?m'\<rparr>"
  note rem = RemoveFromIndex_spec [OF index_okD [OF ok], of base "seg_codepoints (si_segments info ! base)"]
  have ne: "\<forall>cp. ?m cp \<noteq> Some IntSet_empty" using rem by blast
  note add = AddToIndex_spec [OF b32 ne, of "seg_codepoints merged"]
  have "index_ok ((si_segments info)[base := merged]) ?m'"
  proof (rule index_ok_update [OF ok b])
    show "members (map_set ?m' cp) = members (map_set (si_codepoint_to_segments info) cp) - {base} \<union>
        (if cp \<in> members (seg_codepoints merged) then {base} else {})" for cp
      using rem [of cp] add [of cp] index_ok_members [OF ok b, of cp] by auto
  qed (use add in blast)
  then have "info_index_ok ?info" by simp
  moreover have "ClearSegments (to_vector to_merge) ?info = Some info'"
    using run b by (auto simp: AssignMergedSegment_def Let_def set_segment_def remove_from_index_def add_to_index_def)
  ultimately show ?thesis using ClearSegments_index by fastforce
qed

lemma subtract_init_index:
  assumes ok: "info_index_ok info" and i: "i < length (si_segments info)"
  shows "info_index_ok (subtract_init i info) \<and> length (si_segments (subtract_init i info)) = length (si_segments info)"
proof (cases "IntSet_intersects (seg_codepoints (si_segments info ! i)) (sd_codepoints (si_init_font_segment info))")
  case True
  let ?init = "sd_codepoints (si_init_font_segment info)" let ?s = "si_segments info ! i"
  let ?s' = "?s\<lparr>seg_definition := (seg_definition ?s)\<lparr>sd_codepoints := IntSet_subtract (seg_codepoints ?s) ?init\<rparr>\<rparr>"
  let ?m = "RemoveFromIndex i (IntSet_intersect (seg_codepoints ?s) ?init) (si_codepoint_to_segments info)"
  note rem = RemoveFromIndex_spec [OF index_okD [OF ok], of i "IntSet_intersect (seg_codepoints ?s) ?init"]
  have "index_ok ((si_segments info)[i := ?s']) ?m"
  proof (rule index_ok_update [OF ok i])
    show "members (map_set ?m cp) = members (map_set (si_codepoint_to_segments info) cp) - {i} \<union>
        (if cp \<in> members (seg_codepoints ?s') then {i} else {})" for cp
      using rem [of cp] index_ok_members [OF ok i, of cp] by (auto simp: seg_codepoints_def)
  qed (use rem in blast)
  with True show ?thesis by (simp add: subtract_init_def Let_def set_segment_def remove_from_index_def)
qed (use ok in \<open>simp add: subtract_init_def Let_def\<close>)

lemma fold_subtract_init_index:
  "info_index_ok info \<Longrightarrow> set is' \<subseteq> {..<length (si_segments info)} \<Longrightarrow>
    info_index_ok (fold subtract_init is' info) \<and> length (si_segments (fold subtract_init is' info)) = length (si_segments info)"
proof (induction is' arbitrary: info)
  case (Cons i is')
  have "info_index_ok (subtract_init i info)" "length (si_segments (subtract_init i info)) = length (si_segments info)"
    using subtract_init_index [OF Cons.prems(1)] Cons.prems(2) by auto
  with Cons show ?case by simp
qed simp

lemma ReassignInitSubset_index:
  assumes ok: "info_index_ok info" and run: "ReassignInitSubset closure codepoints_for new_def info = Inr info'"
  shows "info_index_ok info' \<and> length (si_segments info') = length (si_segments info)"
proof -
  obtain init where init: "ExpandClosure closure codepoints_for new_def = Inr init"
    using run by (cases "ExpandClosure closure codepoints_for new_def") (simp_all add: ReassignInitSubset_def)
  let ?info = "info\<lparr>si_init_font_segment := init, si_full_definition := SD_Union (si_full_definition info) init\<rparr>"
  define h where "h = (case closure (SD_Union (si_full_definition info) init) of Inl _ \<Rightarrow> ?info
    | Inr gids \<Rightarrow> ?info\<lparr>si_full_closure := gids, si_full_codepoint_closure := codepoints_for gids\<rparr>)"
  have h: "si_segments h = si_segments info" "si_codepoint_to_segments h = si_codepoint_to_segments info"
    by (simp_all add: h_def split: sum.splits)
  have "info' = fold subtract_init [0..<length (si_segments h)] h"
    using run init by (simp add: ReassignInitSubset_def h_def Let_def split: sum.splits)
  moreover have "set [0..<length (si_segments h)] \<subseteq> {..<length (si_segments h)}" by auto
  from fold_subtract_init_index [OF _ this] ok h
  have "info_index_ok (fold subtract_init [0..<length (si_segments h)] h) \<and>
    length (si_segments (fold subtract_init [0..<length (si_segments h)] h)) = length (si_segments info)" by simp
  ultimately show ?thesis by simp
qed

text \<open>What \<^verbatim>\<open>SegmentsForCodepoints\<close> returns, whatever was done to the segments.\<close>

inductive info_reachable :: "(subset_definition \<Rightarrow> int_set status_or) \<Rightarrow> (int_set \<Rightarrow> int_set) \<Rightarrow> segmentation_info \<Rightarrow> bool"
  for closure codepoints_for where
  create: "length segments \<le> UINT32_MAX \<Longrightarrow>
    SegmentationInfo_Create closure codepoints_for segments init handling = Inr info \<Longrightarrow>
    info_reachable closure codepoints_for info"
| assign: "info_reachable closure codepoints_for info \<Longrightarrow>
    AssignMergedSegment base to_merge merged info = Some (n, info') \<Longrightarrow> info_reachable closure codepoints_for info'"
| reassign: "info_reachable closure codepoints_for info \<Longrightarrow>
    ReassignInitSubset closure codepoints_for new_def info = Inr info' \<Longrightarrow> info_reachable closure codepoints_for info'"

lemma info_reachable_index:
  "info_reachable closure codepoints_for info \<Longrightarrow> info_index_ok info \<and> length (si_segments info) \<le> UINT32_MAX"
proof (induction rule: info_reachable.induct)
  case (create segments init handling info)
  then obtain info' where info': "ReassignInitSubset closure codepoints_for init (SegmentationInfo segments init handling) = Inr info'"
    "info = info'\<lparr>si_segments_disjoint := CheckSegmentsAreDisjoint init (si_segments info')\<rparr>"
    by (cases "ReassignInitSubset closure codepoints_for init (SegmentationInfo segments init handling)")
      (auto simp: SegmentationInfo_Create_def)
  from ReassignInitSubset_index [OF SegmentationInfo_index [OF create(1)] info'(1)] create(1) info'(2) show ?case
    by (simp add: SegmentationInfo_def)
next
  case (assign info base to_merge merged n info')
  have "info_index_ok info' \<and> length (si_segments info') = length (si_segments info)"
    by (rule AssignMergedSegment_index [OF _ _ assign(2)]) (use assign.IH in simp_all)
  then show ?case using assign.IH by simp
next
  case (reassign info new_def info')
  have "info_index_ok info' \<and> length (si_segments info') = length (si_segments info)"
    by (rule ReassignInitSubset_index [OF _ reassign(2)]) (use reassign.IH in simp)
  then show ?case using reassign.IH by simp
qed

lemma SegmentsForCodepoints_spec:
  assumes "info_index_ok info"
  shows "members (SegmentsForCodepoints info codepoints) =
    {i. i < length (si_segments info) \<and> members (seg_codepoints (si_segments info ! i)) \<inter> members codepoints \<noteq> {}}"
proof -
  have "(case m cp of None \<Rightarrow> R | Some S \<Rightarrow> IntSet_union_set R S) = IntSet_union_set R (map_set m cp)" for m cp R
    by (rule int_set_eqI) (simp add: map_set_def split: option.splits)
  moreover have u: "members (fold (\<lambda>cp R. IntSet_union_set R (f cp)) cps R) = members R \<union> (\<Union>cp \<in> set cps. members (f cp))"
    for f and cps :: "nat list" and R by (induction cps arbitrary: R) auto
  note u [of "map_set (si_codepoint_to_segments info)" "to_vector codepoints" IntSet_empty]
  ultimately have "members (SegmentsForCodepoints info codepoints) =
      (\<Union>cp \<in> members codepoints. members (map_set (si_codepoint_to_segments info) cp))"
    by (simp add: SegmentsForCodepoints_def)
  then show ?thesis using assms by (auto simp: index_ok_def)
qed

end
