(* ===== verification/Segment_Closure.thy ===== *)
theory Segment_Closure
  imports Segment_Info
begin

text \<open>
  Closures of sets of segments: the part of \<^verbatim>\<open>ift/encoder/glyph_closure_cache.cc\<close> that works on
  segmentation information, and what \<^verbatim>\<open>AnalyzeSegment\<close> finds out about a monotone closure. Subset
  definitions under \<open>sd_le\<close> have \<^verbatim>\<open>Union\<close> as their least upper bound.
\<close>

section \<open>Subset definitions as a semilattice\<close>

abbreviation sd_wf :: "subset_definition \<Rightarrow> bool" where
  "sd_wf d \<equiv> ds_wf (sd_design_space d)"

lemma ds_wfI:
  assumes "ds_sorted ds" and "\<And>t r. ds_find t ds = Some r \<Longrightarrow> ar_wf r"
  shows "ds_wf ds"
proof -
  have "distinct (map fst ds)" using assms(1) unfolding ds_sorted_def by (simp add: strict_sorted_iff)
  then have "ds_find t ds = Some r" if "(t, r) \<in> set ds" for t r using that by (simp add: ds_find_def)
  with assms show ?thesis unfolding ds_wf_def by fastforce
qed

lemma SD_Union_wf [simp]: "sd_wf a \<Longrightarrow> sd_wf b \<Longrightarrow> sd_wf (SD_Union a b)"
proof -
  assume wf: "sd_wf a" "sd_wf b"
  have srt: "ds_sorted (sd_design_space b)" "ds_sorted (sd_design_space a)" using wf by (simp_all add: ds_wf_def)
  have "ar_wf r \<Longrightarrow> ar_wf e \<Longrightarrow> ar_wf (union_range r e)" for r e by (auto simp: ar_wf_def union_range_def AxisRange_def)
  then show ?thesis using union_fold [OF srt] ds_find_wf [OF wf(1)] ds_find_wf [OF wf(2)]
    by (intro ds_wfI) (auto simp: SD_Union_def split: option.splits)
qed

lemma points_convex: "y \<in> ds_points t ds \<Longrightarrow> z \<in> ds_points t ds \<Longrightarrow> y \<le> x \<Longrightarrow> x \<le> z \<Longrightarrow> x \<in> ds_points t ds"
  by (auto simp: ds_points_def ar_points_def split: option.splits)

lemma set_fold_ins_sorted: "set (fold ins_sorted xs ys) = set xs \<union> set ys"
  by (induction xs arbitrary: ys) auto

lemma SD_Union_fields:
  assumes "sd_wf a" "sd_wf b"
  shows "members (sd_codepoints (SD_Union a b)) = members (sd_codepoints a) \<union> members (sd_codepoints b)"
    "members (sd_gids (SD_Union a b)) = members (sd_gids a) \<union> members (sd_gids b)"
    "set (sd_feature_tags (SD_Union a b)) = set (sd_feature_tags a) \<union> set (sd_feature_tags b)"
    "ds_points t (sd_design_space (SD_Union a b)) =
      {x. \<exists>y \<in> ds_points t (sd_design_space a) \<union> ds_points t (sd_design_space b).
          \<exists>z \<in> ds_points t (sd_design_space a) \<union> ds_points t (sd_design_space b). y \<le> x \<and> x \<le> z}"
  using union_points [OF assms, of t] by (auto simp: SD_Union_def set_fold_ins_sorted)

lemma sd_le_Union:
  assumes "sd_wf a" "sd_wf b"
  shows "sd_le a (SD_Union a b)" and "sd_le b (SD_Union a b)"
  unfolding sd_le_def SD_Union_fields [OF assms] by blast+

lemma sd_Union_least: "sd_wf a \<Longrightarrow> sd_wf b \<Longrightarrow> sd_le a c \<Longrightarrow> sd_le b c \<Longrightarrow> sd_le (SD_Union a b) c"
proof -
  assume wf: "sd_wf a" "sd_wf b" and le: "sd_le a c" "sd_le b c"
  have p: "ds_points t (sd_design_space a) \<union> ds_points t (sd_design_space b) \<subseteq> ds_points t (sd_design_space c)" for t
    using le by (auto simp: sd_le_def)
  have "ds_points t (sd_design_space (SD_Union a b)) \<subseteq> ds_points t (sd_design_space c)" for t
    unfolding SD_Union_fields(4) [OF wf] using p [of t] points_convex by blast
  then show ?thesis using le unfolding sd_le_def SD_Union_fields(1-3) [OF wf] by blast
qed

lemma sd_le_empty: "sd_le (SubsetDefinition []) d"
  by (simp add: sd_le_def SubsetDefinition_def ds_points_def ds_find_def IntSet_insert_all_def)

lemma sd_wf_empty [simp]: "sd_wf (SubsetDefinition [])"
  by (simp add: SubsetDefinition_def ds_wf_def ds_sorted_def)

text \<open>\<^verbatim>\<open>UnionSegments\<close> is the least upper bound of what it adds.\<close>

definition segments_wf :: "segment list \<Rightarrow> bool" where
  "segments_wf segments \<longleftrightarrow> (\<forall>s \<in> set segments. sd_wf (seg_definition s))"

abbreviation seg_def :: "segment list \<Rightarrow> segment_index \<Rightarrow> subset_definition" where
  "seg_def segments i \<equiv> seg_definition (segments ! i)"

lemma UnionSegments_eq_None: "UnionSegments segments ss d = None \<longleftrightarrow> \<not> set ss \<subseteq> {..<length segments}"
  by (induction ss arbitrary: d) auto

lemma UnionSegments_lub:
  assumes "segments_wf segments" and "sd_wf d" and "UnionSegments segments ss d = Some d'"
  shows "sd_wf d' \<and> (\<forall>c. sd_le d' c \<longleftrightarrow> sd_le d c \<and> (\<forall>s \<in> set ss. sd_le (seg_def segments s) c))"
  using assms
proof (induction ss arbitrary: d)
  case (Cons s ss)
  have s: "s < length segments" using Cons.prems(3) by (simp split: if_splits)
  have wf: "sd_wf (seg_def segments s)" using Cons.prems(1) s by (simp add: segments_wf_def)
  have u: "sd_le (SD_Union d (seg_def segments s)) c \<longleftrightarrow> sd_le d c \<and> sd_le (seg_def segments s) c" for c
    using sd_Union_least [OF Cons.prems(2) wf] sd_le_Union [OF Cons.prems(2) wf] sd_le_trans by blast
  have "UnionSegments segments ss (SD_Union d (seg_def segments s)) = Some d'" using Cons.prems(3) s by simp
  from Cons.IH [OF Cons.prems(1) SD_Union_wf [OF Cons.prems(2) wf] this] u show ?case by simp
qed simp

definition info_wf :: "segmentation_info \<Rightarrow> bool" where
  "info_wf info \<longleftrightarrow> segments_wf (si_segments info) \<and> sd_wf (si_init_font_segment info)"

lemma CombinedDefinition_lub:
  assumes "info_wf info" and "CombinedDefinition info S = Some d"
  shows "sd_wf d \<and> (\<forall>c. sd_le d c \<longleftrightarrow> sd_le (si_init_font_segment info) c \<and>
    (\<forall>s \<in> members S. sd_le (seg_def (si_segments info) s) c))"
proof -
  obtain e where e: "UnionSegments (si_segments info) (to_vector S) (SubsetDefinition []) = Some e"
    "d = SD_Union e (si_init_font_segment info)"
    using assms(2) by (auto simp: CombinedDefinition_def)
  have wf: "segments_wf (si_segments info)" "sd_wf (si_init_font_segment info)" using assms(1) by (simp_all add: info_wf_def)
  note l = UnionSegments_lub [OF wf(1) sd_wf_empty e(1)]
  have "sd_le d c \<longleftrightarrow> sd_le e c \<and> sd_le (si_init_font_segment info) c" for c
    unfolding e(2) using sd_Union_least [of e "si_init_font_segment info" c] sd_le_Union [of e "si_init_font_segment info"]
      sd_le_trans l wf(2) by blast
  then show ?thesis using l wf(2) sd_le_empty by (auto simp: e(2))
qed

lemma CombinedDefinition_defined:
  "members S \<subseteq> {..<length (si_segments info)} \<Longrightarrow> \<exists>d. CombinedDefinition info S = Some d"
  using UnionSegments_eq_None [of "si_segments info" "to_vector S" "SubsetDefinition []"]
  by (auto simp: CombinedDefinition_def)

lemma CombinedDefinition_mono:
  assumes "info_wf info" "CombinedDefinition info S = Some d" "CombinedDefinition info T = Some e" "members S \<subseteq> members T"
  shows "sd_le d e"
  using CombinedDefinition_lub [OF assms(1,2)] CombinedDefinition_lub [OF assms(1,3)] assms(4) sd_le_refl by blast

section \<open>The code\<close>

definition SegmentClosure :: "(subset_definition \<Rightarrow> int_set status_or) \<Rightarrow> segmentation_info \<Rightarrow> int_set \<Rightarrow> int_set outcome" where
  "SegmentClosure closure info segments = map_option closure (CombinedDefinition info segments)"

text \<open>The loop over the inverted set of ids stops at the first id that is not a segment.\<close>

definition ComputeExceptSegment :: "segmentation_info \<Rightarrow> int_set \<Rightarrow> subset_definition \<Rightarrow> subset_definition option" where
  "ComputeExceptSegment info segment_ids combined =
     (if si_segments_disjoint info \<and> (IntSet_size segment_ids = 1 \<or> IntSet_size segment_ids < length (si_segments info) div 2)
      then Some (SD_Subtract (si_full_definition info) combined)
      else UnionSegments (si_segments info)
        (filter (\<lambda>s. \<not> IntSet_contains segment_ids s) [0..<length (si_segments info)]) (si_init_font_segment info))"

definition HasAdditionalConditions :: "(subset_definition \<Rightarrow> int_set status_or) \<Rightarrow> segmentation_info \<Rightarrow> int_set \<Rightarrow> int_set \<Rightarrow>
    bool outcome" where
  "HasAdditionalConditions closure info segments glyphs =
     (case UnionSegments (si_segments info) (to_vector segments) (SubsetDefinition []) of None \<Rightarrow> None
      | Some combined \<Rightarrow> (case ComputeExceptSegment info segments combined of None \<Rightarrow> None
        | Some except \<Rightarrow> Some (TRY (closure except) (\<lambda>closure_glyphs. Inr (IntSet_intersects closure_glyphs glyphs)))))"

text \<open>The three sets are passed in and come back extended.\<close>

definition AnalyzeSegment :: "(subset_definition \<Rightarrow> int_set status_or) \<Rightarrow> segmentation_info \<Rightarrow> int_set \<Rightarrow>
    int_set \<times> int_set \<times> int_set \<Rightarrow> (int_set \<times> int_set \<times> int_set) outcome" where
  "AnalyzeSegment closure info segment_ids = (\<lambda>(and_gids, or_gids, exclusive_gids).
     if IntSet_is_empty segment_ids then Ok (and_gids, or_gids, exclusive_gids)
     else case UnionSegments (si_segments info) (to_vector segment_ids) (SubsetDefinition []) of None \<Rightarrow> None
       | Some combined \<Rightarrow> (case ComputeExceptSegment info segment_ids combined of None \<Rightarrow> None
         | Some except_segment \<Rightarrow> Some (
             TRY (closure except_segment) (\<lambda>B.
             TRY (closure (SD_Union combined (si_init_font_segment info))) (\<lambda>I.
               let I = IntSet_subtract I (InitFontGlyphs info); D = IntSet_subtract (si_full_closure info) B
               in Inr (IntSet_subtract (IntSet_union_set and_gids D) I,
                    IntSet_subtract (IntSet_union_set or_gids I) D,
                    IntSet_intersect (IntSet_union_set exclusive_gids I) D))))))"

definition CodepointsToOrGids :: "(subset_definition \<Rightarrow> int_set status_or) \<Rightarrow> segmentation_info \<Rightarrow> int_set \<Rightarrow> int_set outcome" where
  "CodepointsToOrGids closure info segment_ids =
     OTRY (AnalyzeSegment closure info segment_ids (IntSet_empty, IntSet_empty, IntSet_empty))
       (\<lambda>(and_gids, or_gids, exclusive_gids). Ok or_gids)"

section \<open>What an analysis shows\<close>

text \<open>The glyphs that a set of segments needs.\<close>

definition needs :: "(subset_definition \<Rightarrow> int_set status_or) \<Rightarrow> segmentation_info \<Rightarrow> nat set \<Rightarrow> nat set" where
  "needs closure info T = {g. \<exists>S d gids. members S = T \<and> CombinedDefinition info S = Some d \<and> closure d = Inr gids \<and> g \<in> members gids}"

lemma needs_eq:
  assumes "SegmentClosure closure info S = Ok gids"
  shows "needs closure info (members S) = members gids"
proof -
  obtain d where d: "CombinedDefinition info S = Some d" "closure d = Inr gids"
    using assms by (auto simp: SegmentClosure_def)
  show ?thesis unfolding needs_def using d by (auto dest: int_set_eqI)
qed

lemma closure_monotoneD:
  "closure_monotone closure \<Longrightarrow> sd_le a b \<Longrightarrow> closure a = Inr A \<Longrightarrow> closure b = Inr B \<Longrightarrow> members A \<subseteq> members B"
  unfolding closure_monotone_def by fastforce

lemma closure_monotone_defined: "closure_monotone closure \<Longrightarrow> \<exists>A. closure a = Inr A"
  unfolding closure_monotone_def using sd_le_refl by blast

lemma needs_mono:
  assumes "closure_monotone closure" "info_wf info" "S \<subseteq> T" "T \<subseteq> {..<length (si_segments info)}"
    "length (si_segments info) \<le> UINT32_MAX"
  shows "needs closure info S \<subseteq> needs closure info T"
proof
  fix g assume "g \<in> needs closure info S"
  then obtain S' d gids where S': "members S' = S" "CombinedDefinition info S' = Some d" "closure d = Inr gids" "g \<in> members gids"
    by (auto simp: needs_def)
  have "finite T" using assms(4) finite_subset by blast
  then have T': "members (IntSet (sorted_list_of_set T)) = T" using assms(4,5) by auto
  obtain e where e: "CombinedDefinition info (IntSet (sorted_list_of_set T)) = Some e"
    using CombinedDefinition_defined [of "IntSet (sorted_list_of_set T)" info] T' assms(4) by auto
  obtain E where E: "closure e = Inr E" using closure_monotone_defined [OF assms(1)] by blast
  have "sd_le d e" by (rule CombinedDefinition_mono [OF assms(2) S'(2) e]) (use S'(1) T' assms(3) in simp)
  from closure_monotoneD [OF assms(1) this S'(3) E] S'(4) have "g \<in> members E" by blast
  then show "g \<in> needs closure info T" using T' e E unfolding needs_def by blast
qed

text \<open>The fields of a union of segments.\<close>

lemma UnionSegments_fields:
  assumes "UnionSegments segments ss d = Some d'"
  shows "members (sd_codepoints d') = members (sd_codepoints d) \<union> (\<Union>s \<in> set ss. members (sd_codepoints (seg_def segments s)))"
    "members (sd_gids d') = members (sd_gids d) \<union> (\<Union>s \<in> set ss. members (sd_gids (seg_def segments s)))"
    "set (sd_feature_tags d') = set (sd_feature_tags d) \<union> (\<Union>s \<in> set ss. set (sd_feature_tags (seg_def segments s)))"
    "(\<forall>s \<in> set ss. sd_design_space (seg_def segments s) = []) \<Longrightarrow> sd_design_space d' = sd_design_space d"
proof -
  have "members (sd_codepoints d') = members (sd_codepoints d) \<union> (\<Union>s \<in> set ss. members (sd_codepoints (seg_def segments s))) \<and>
    members (sd_gids d') = members (sd_gids d) \<union> (\<Union>s \<in> set ss. members (sd_gids (seg_def segments s))) \<and>
    set (sd_feature_tags d') = set (sd_feature_tags d) \<union> (\<Union>s \<in> set ss. set (sd_feature_tags (seg_def segments s))) \<and>
    ((\<forall>s \<in> set ss. sd_design_space (seg_def segments s) = []) \<longrightarrow> sd_design_space d' = sd_design_space d)"
    using assms
  proof (induction ss arbitrary: d)
    case (Cons s ss)
    then have "UnionSegments segments ss (SD_Union d (seg_def segments s)) = Some d'" by (simp split: if_splits)
    from Cons.IH [OF this] show ?case
      by (simp add: SD_Union_def set_fold_ins_sorted Un_assoc union_design_space_def) blast
  qed simp
  then show "members (sd_codepoints d') = members (sd_codepoints d) \<union> (\<Union>s \<in> set ss. members (sd_codepoints (seg_def segments s)))"
    "members (sd_gids d') = members (sd_gids d) \<union> (\<Union>s \<in> set ss. members (sd_gids (seg_def segments s)))"
    "set (sd_feature_tags d') = set (sd_feature_tags d) \<union> (\<Union>s \<in> set ss. set (sd_feature_tags (seg_def segments s)))"
    "(\<forall>s \<in> set ss. sd_design_space (seg_def segments s) = []) \<Longrightarrow> sd_design_space d' = sd_design_space d"
    by blast+
qed

text \<open>
  When the fast path of \<^verbatim>\<open>ComputeExceptSegment\<close> is right: the segments share nothing with another
  segment or the initial font, and have no axis ranges. The flag of the code does not look at axes.
\<close>

definition shares :: "subset_definition \<Rightarrow> subset_definition \<Rightarrow> bool" where
  "shares a b \<longleftrightarrow> members (sd_codepoints a) \<inter> members (sd_codepoints b) \<noteq> {} \<or>
     members (sd_gids a) \<inter> members (sd_gids b) \<noteq> {} \<or> set (sd_feature_tags a) \<inter> set (sd_feature_tags b) \<noteq> {}"

definition separate :: "segmentation_info \<Rightarrow> int_set \<Rightarrow> bool" where
  "separate info segment_ids \<longleftrightarrow> sd_wf (si_full_definition info) \<and>
     (\<forall>s \<in> members segment_ids. sd_design_space (seg_def (si_segments info) s) = []) \<and>
     (\<forall>d \<in> insert (si_init_font_segment info) {seg_def (si_segments info) s | s. s < length (si_segments info) \<and> s \<notin> members segment_ids}.
        sd_le d (si_full_definition info) \<and> (\<forall>s \<in> members segment_ids. \<not> shares d (seg_def (si_segments info) s)))"

lemma ComputeExceptSegment_covers:
  assumes wf: "info_wf info" and sep: "si_segments_disjoint info \<Longrightarrow> separate info segment_ids"
    and c: "UnionSegments (si_segments info) (to_vector segment_ids) (SubsetDefinition []) = Some combined"
  shows "\<exists>e. ComputeExceptSegment info segment_ids combined = Some e \<and> sd_le (si_init_font_segment info) e \<and>
    (\<forall>s < length (si_segments info). s \<notin> members segment_ids \<longrightarrow> sd_le (seg_def (si_segments info) s) e)"
proof (cases "si_segments_disjoint info \<and>
    (IntSet_size segment_ids = 1 \<or> IntSet_size segment_ids < length (si_segments info) div 2)")
  case True
  let ?full = "si_full_definition info"
  note sep = sep [unfolded separate_def]
  note f = UnionSegments_fields [OF c]
  have ds: "sd_design_space combined = []" using f(4) sep True by (simp add: SubsetDefinition_def)
  have le: "sd_le d (SD_Subtract ?full combined)"
    if d: "d \<in> insert (si_init_font_segment info) {seg_def (si_segments info) s | s. s < length (si_segments info) \<and> s \<notin> members segment_ids}" for d
  proof -
    have full: "sd_le d ?full" and no: "\<forall>s \<in> members segment_ids. \<not> shares d (seg_def (si_segments info) s)"
      using sep True d by blast+
    have e: "ds_wf []" by (simp add: ds_wf_def ds_sorted_def)
    have p: "ds_points t (subtract_design_space (sd_design_space ?full) []) = ds_points t (sd_design_space ?full)" for t
      using subtract_points [OF _ e, of "sd_design_space ?full" t] sep True by (auto simp: ds_points_def ds_find_def)
    have "members (sd_codepoints d) \<inter> members (sd_codepoints combined) = {}"
      "members (sd_gids d) \<inter> members (sd_gids combined) = {}"
      "set (sd_feature_tags d) \<inter> set (sd_feature_tags combined) = {}"
      unfolding f(1-3) using no by (auto simp: shares_def SubsetDefinition_def IntSet_insert_all_def)
    then show ?thesis using full p by (auto simp: sd_le_def SD_Subtract_def set_subtract_sets ds)
  qed
  then show ?thesis using True by (auto simp: ComputeExceptSegment_def)
next
  case False
  let ?rest = "filter (\<lambda>s. \<not> IntSet_contains segment_ids s) [0..<length (si_segments info)]"
  have w: "segments_wf (si_segments info)" "sd_wf (si_init_font_segment info)" using wf by (simp_all add: info_wf_def)
  have "UnionSegments (si_segments info) ?rest (si_init_font_segment info) \<noteq> None"
    unfolding UnionSegments_eq_None by auto
  then obtain e where e: "UnionSegments (si_segments info) ?rest (si_init_font_segment info) = Some e" by blast
  have "ComputeExceptSegment info segment_ids combined = Some e"
    unfolding ComputeExceptSegment_def if_not_P [OF False] by (rule e)
  moreover have "sd_le (si_init_font_segment info) e" "\<forall>s \<in> set ?rest. sd_le (seg_def (si_segments info) s) e"
    using UnionSegments_lub [OF w e] sd_le_refl by blast+
  ultimately show ?thesis by (intro exI [of _ e]) simp
qed

lemma AnalyzeSegment_spec:
  assumes mono: "closure_monotone closure" and wf: "info_wf info"
    and ids: "members segment_ids \<noteq> {}" "members segment_ids \<subseteq> {..<length (si_segments info)}"
    and sep: "si_segments_disjoint info \<Longrightarrow> separate info segment_ids"
  shows "\<exists>A P E. AnalyzeSegment closure info segment_ids (IntSet_empty, IntSet_empty, IntSet_empty) = Ok (A, P, E) \<and>
    members A \<inter> members P = {} \<and> members A \<inter> members E = {} \<and> members P \<inter> members E = {} \<and>
    members P \<union> members E = needs closure info (members segment_ids) - members (InitFontGlyphs info) \<and>
    members A \<union> members E \<subseteq> members (si_full_closure info) \<and>
    (\<forall>T \<subseteq> {..<length (si_segments info)}. T \<inter> members segment_ids = {} \<longrightarrow>
       (members A \<union> members E) \<inter> needs closure info T = {})"
proof -
  obtain combined where c: "UnionSegments (si_segments info) (to_vector segment_ids) (SubsetDefinition []) = Some combined"
    using UnionSegments_eq_None [of "si_segments info" "to_vector segment_ids" "SubsetDefinition []"] ids(2) by auto
  obtain e where e: "ComputeExceptSegment info segment_ids combined = Some e" "sd_le (si_init_font_segment info) e"
    "\<forall>s < length (si_segments info). s \<notin> members segment_ids \<longrightarrow> sd_le (seg_def (si_segments info) s) e"
    using ComputeExceptSegment_covers [OF wf sep c] by blast
  obtain B where B: "closure e = Inr B" using closure_monotone_defined [OF mono] by blast
  let ?only = "SD_Union combined (si_init_font_segment info)"
  obtain I where I: "closure ?only = Inr I" using closure_monotone_defined [OF mono] by blast
  have "SegmentClosure closure info segment_ids = Ok I" using c I by (simp add: SegmentClosure_def CombinedDefinition_def)
  then have nI: "needs closure info (members segment_ids) = members I" by (rule needs_eq)
  have nB: "needs closure info T \<subseteq> members B" if T: "T \<subseteq> {..<length (si_segments info)}" "T \<inter> members segment_ids = {}" for T
  proof
    fix g assume "g \<in> needs closure info T"
    then obtain S d gids where S: "members S = T" "CombinedDefinition info S = Some d" "closure d = Inr gids" "g \<in> members gids"
      by (auto simp: needs_def)
    have "sd_le d e" using CombinedDefinition_lub [OF wf S(2)] e(2,3) T S(1) by blast
    from closure_monotoneD [OF mono this S(3) B] S(4) show "g \<in> members B" by blast
  qed
  let ?I = "IntSet_subtract I (InitFontGlyphs info)" let ?D = "IntSet_subtract (si_full_closure info) B"
  have run: "AnalyzeSegment closure info segment_ids (IntSet_empty, IntSet_empty, IntSet_empty) =
      Ok (IntSet_subtract (IntSet_union_set IntSet_empty ?D) ?I, IntSet_subtract (IntSet_union_set IntSet_empty ?I) ?D,
        IntSet_intersect (IntSet_union_set IntSet_empty ?I) ?D)"
    using ids(1) c e(1) B I by (simp add: AnalyzeSegment_def Let_def)
  show ?thesis by (rule exI, rule exI, rule exI, rule conjI [OF run]) (use nI nB in auto)
qed

end
