(* ===== verification/Complex_Conditions.thy ===== *)
theory Complex_Conditions
  imports Segment_Closure Glyph_Conditions
begin

text \<open>
  The search for conditions of glyphs that no simple analysis explains
  (\<^verbatim>\<open>ift/encoder/complex_condition_finder.cc\<close>): for each glyph a set of segments one of which must
  be present whenever the glyph is needed. The queue of tasks is a stack; its top is the head of
  the list. Whether the loop ends depends on the closure, so that \<^verbatim>\<open>ProcessQueue\<close> is partial.
\<close>

section \<open>Tasks\<close>

record task =
  tk_full_condition :: int_set
  tk_sub_condition :: int_set
  tk_to_be_tested :: int_set
  tk_subset_definition :: subset_definition
  tk_glyphs :: int_set

record finder =
  fi_all_segments :: int_set
  fi_inscope_segments :: int_set
  fi_info :: segmentation_info
  fi_closure :: "subset_definition \<Rightarrow> int_set status_or"

type_synonym glyph_map = "(nat, int_set) mapping"

definition CreateTask :: "finder \<Rightarrow> int_set \<Rightarrow> int_set \<Rightarrow> int_set \<Rightarrow> int_set \<Rightarrow> task option" where
  "CreateTask f full_condition sub_condition to_be_tested glyphs =
     map_option (\<lambda>d. \<lparr>tk_full_condition = full_condition, tk_sub_condition = sub_condition,
         tk_to_be_tested = to_be_tested, tk_subset_definition = d, tk_glyphs = glyphs\<rparr>)
       (CombinedDefinition (fi_info f) (IntSet_union_set sub_condition to_be_tested))"

definition segment_definition :: "finder \<Rightarrow> segment_index \<Rightarrow> subset_definition option" where
  "segment_definition f i = (if i < length (si_segments (fi_info f)) then Some (seg_def (si_segments (fi_info f)) i) else None)"

definition CreateSubTask :: "finder \<Rightarrow> task \<Rightarrow> int_set \<Rightarrow> segment_index \<Rightarrow> bool \<Rightarrow> task option" where
  "CreateSubTask f task new_glyphs tested keep =
     (let t = task\<lparr>tk_to_be_tested := fst (IntSet_erase tested (tk_to_be_tested task)), tk_glyphs := new_glyphs\<rparr>
      in if keep then Some (t\<lparr>tk_sub_condition := IntSet_insert tested (tk_sub_condition task)\<rparr>)
         else map_option (\<lambda>d. t\<lparr>tk_subset_definition := SD_Subtract (tk_subset_definition task) d\<rparr>) (segment_definition f tested))"

definition InClosure :: "finder \<Rightarrow> int_set \<Rightarrow> int_set \<Rightarrow> bool outcome" where
  "InClosure f segments glyphs = OTRY (SegmentClosure (fi_closure f) (fi_info f) segments)
     (\<lambda>closure. Ok (IntSet_is_subset_of glyphs closure))"

text \<open>The private \<^verbatim>\<open>HasAdditionalConditions\<close> of the search.\<close>

definition AdditionalConditions :: "finder \<Rightarrow> int_set \<Rightarrow> int_set \<Rightarrow> (int_set \<times> int_set) outcome" where
  "AdditionalConditions f segments glyphs =
     (let except = IntSet_subtract (fi_all_segments f) segments
      in OTRY (SegmentClosure (fi_closure f) (fi_info f) except) (\<lambda>closure_glyphs.
           Ok (IntSet_intersect closure_glyphs glyphs, IntSet_intersect except (fi_inscope_segments f))))"

definition push :: "task option \<Rightarrow> task list \<Rightarrow> task list outcome" where
  "push task queue = (case task of None \<Rightarrow> None | Some t \<Rightarrow> Ok (t # queue))"

section \<open>Initial tasks\<close>

definition ScheduleExistingConditionTask :: "finder \<Rightarrow> int_set \<Rightarrow> int_set \<Rightarrow> int_set \<times> task list \<Rightarrow> (int_set \<times> task list) outcome" where
  "ScheduleExistingConditionTask f condition condition_glyphs = (\<lambda>(all_glyphs, queue).
     OTRY (AdditionalConditions f condition condition_glyphs) (\<lambda>(with_additional, except).
     if IntSet_is_empty with_additional then Ok (all_glyphs, queue)
     else OTRY (push (CreateTask f condition IntSet_empty except with_additional) queue) (\<lambda>queue.
       Ok (IntSet_subtract all_glyphs condition_glyphs, queue))))"

fun ScheduleExisting :: "finder \<Rightarrow> (int_set \<times> int_set) list \<Rightarrow> int_set \<times> task list \<Rightarrow> (int_set \<times> task list) outcome" where
  "ScheduleExisting f [] s = Ok s"
| "ScheduleExisting f ((segments, glyphs) # rest) s =
     OTRY (InClosure f segments glyphs) (\<lambda>inside.
     if \<not> inside then Fail InvalidArgumentError
     else OTRY (ScheduleExistingConditionTask f segments glyphs s) (ScheduleExisting f rest))"

definition ScheduleInitialTasks :: "finder \<Rightarrow> int_set \<Rightarrow> (int_set \<times> int_set) list \<Rightarrow> task list outcome" where
  "ScheduleInitialTasks f glyphs existing_conditions =
     (if IntSet_intersects glyphs (InitFontGlyphs (fi_info f)) then Fail InvalidArgumentError
      else OTRY (ScheduleExisting f existing_conditions (glyphs, [])) (\<lambda>(glyphs, queue).
        if IntSet_is_empty glyphs then Ok queue
        else OTRY (InClosure f (fi_all_segments f) glyphs) (\<lambda>inside.
          if \<not> inside then Fail InvalidArgumentError
          else push (CreateTask f IntSet_empty IntSet_empty
                 (IntSet_intersect (fi_all_segments f) (fi_inscope_segments f)) glyphs) queue)))"

section \<open>Running a task\<close>

definition add_condition :: "int_set \<Rightarrow> nat \<Rightarrow> glyph_map \<Rightarrow> glyph_map" where
  "add_condition segments gid m =
     Mapping.update gid (IntSet_union_set (Mapping.lookup_default IntSet_empty m gid) segments) m"

definition RecordSubCondition :: "finder \<Rightarrow> task \<Rightarrow> task list \<times> glyph_map \<Rightarrow> (task list \<times> glyph_map) outcome" where
  "RecordSubCondition f task = (\<lambda>(queue, m).
     let m = fold (add_condition (tk_sub_condition task)) (to_vector (tk_glyphs task)) m;
         full = IntSet_union_set (tk_full_condition task) (tk_sub_condition task)
     in OTRY (AdditionalConditions f full (tk_glyphs task)) (\<lambda>(additional, remaining).
          if \<not> IntSet_is_empty additional \<and> IntSet_is_empty remaining then Fail InternalError
          else OTRY (push (CreateTask f full IntSet_empty remaining additional) queue) (\<lambda>queue. Ok (queue, m))))"

definition RunAnalysisTask :: "finder \<Rightarrow> task \<Rightarrow> task list \<times> glyph_map \<Rightarrow> (task list \<times> glyph_map) outcome" where
  "RunAnalysisTask f task = (\<lambda>(queue, m).
     if IntSet_is_empty (tk_glyphs task) then Ok (queue, m)
     else case IntSet_min (tk_to_be_tested task) of
       None \<Rightarrow> RecordSubCondition f task (queue, m)
     | Some test_segment \<Rightarrow> (case segment_definition f test_segment of None \<Rightarrow> None
         | Some d \<Rightarrow>
             OTRY (Some (fi_closure f (SD_Subtract (tk_subset_definition task) d))) (\<lambda>closure_glyphs.
             OTRY (push (CreateSubTask f task (IntSet_intersect (tk_glyphs task) closure_glyphs) test_segment False) queue) (\<lambda>queue.
             OTRY (push (CreateSubTask f task (IntSet_subtract (tk_glyphs task) closure_glyphs) test_segment True) queue) (\<lambda>queue.
               Ok (queue, m))))))"

partial_function (option) ProcessQueue :: "finder \<Rightarrow> task list \<Rightarrow> glyph_map \<Rightarrow> glyph_map outcome" where
  "ProcessQueue f queue m = (case queue of [] \<Rightarrow> Ok m
     | task # rest \<Rightarrow> (case RunAnalysisTask f task (rest, m) of None \<Rightarrow> None
         | Some r \<Rightarrow> (case r of Inl e \<Rightarrow> Fail e | Inr (queue, m) \<Rightarrow> ProcessQueue f queue m)))"

section \<open>The search\<close>

text \<open>The disjunctive conditions that glyphs already have, grouped, and as a map.\<close>

definition existing_step :: "glyph_condition_set \<Rightarrow> nat \<Rightarrow> (int_set, int_set) mapping \<times> glyph_map \<Rightarrow>
    ((int_set, int_set) mapping \<times> glyph_map) option" where
  "existing_step conditions gid = (\<lambda>(existing, m). case ConditionsFor gid conditions of None \<Rightarrow> None
     | Some condition \<Rightarrow>
         if ac_is_exclusive condition \<or> \<not> IsPurelyDisjunctive condition then Some (existing, m)
         else let or_segments = TriggeringSegments condition
           in Some (Mapping.update or_segments
                (IntSet_insert gid (Mapping.lookup_default IntSet_empty existing or_segments)) existing,
              add_condition or_segments gid m))"

definition ExistingConditions :: "glyph_condition_set \<Rightarrow> int_set \<Rightarrow> ((int_set, int_set) mapping \<times> glyph_map) option" where
  "ExistingConditions conditions glyphs =
     fold_glyphs (existing_step conditions) (to_vector glyphs) (Mapping.empty, Mapping.empty)"

definition GroupBySegments :: "glyph_map \<Rightarrow> (int_set, int_set) mapping" where
  "GroupBySegments m = fold (\<lambda>(gid, segments) out. Mapping.update segments
     (IntSet_insert gid (Mapping.lookup_default IntSet_empty out segments)) out) (Mapping.ordered_entries m) Mapping.empty"

definition FindSupersetDisjunctiveConditionsFor :: "(subset_definition \<Rightarrow> int_set status_or) \<Rightarrow> segmentation_info \<Rightarrow>
    glyph_condition_set \<Rightarrow> int_set \<Rightarrow> int_set \<Rightarrow> (int_set, int_set) mapping outcome" where
  "FindSupersetDisjunctiveConditionsFor closure info conditions glyphs inscope_segments =
     (if \<not> si_segments_disjoint info then Fail InvalidArgumentError
      else let f = \<lparr>fi_all_segments = NonEmptySegments info, fi_inscope_segments = inscope_segments,
             fi_info = info, fi_closure = closure\<rparr>
        in case ExistingConditions conditions glyphs of None \<Rightarrow> None
          | Some (existing, m) \<Rightarrow>
              OTRY (ScheduleInitialTasks f glyphs (Mapping.ordered_entries existing)) (\<lambda>queue.
              OTRY (ProcessQueue f queue m) (\<lambda>m. Ok (GroupBySegments m))))"

end
