(* ===== verification/Glyph_Groupings.thy ===== *)
theory Glyph_Groupings
  imports Outcome Glyph_Segmentation Glyph_Partition Condition_Index Complex_Conditions
begin

text \<open>
  Glyphs grouped by their conditions (\<^verbatim>\<open>ift/encoder/glyph_groupings.cc\<close>, \<^verbatim>\<open>.h\<close>), with the patches that
  are to be combined. Hash maps are functions; where the code iterates over a hash container the list
  has one of the possible orders. An operation returns the new state with a status; \<open>None\<close> is an
  exception or a call that does not return. The glyph closure and the query of the dependency graph,
  \<^verbatim>\<open>SegmentsThatInteractWith\<close>, are arguments.
\<close>

section \<open>The class\<close>

record glyph_groupings =
  gg_combined_patches :: glyph_partition
  gg_combined_patches_dirty :: bool
  gg_simplify_combined :: bool
  gg_or_glyph_groups :: "int_set \<Rightarrow> int_set option"
  gg_exclusive_glyph_groups :: "segment_index \<Rightarrow> int_set option"
  gg_combined_conditions :: "activation_condition list"
  gg_combined_exclusive_segments :: int_set
  gg_conditions_and_glyphs :: condition_index
  gg_pre_combination :: condition_index
  gg_unmapped_glyphs :: int_set
  gg_found_condition_glyphs :: int_set

definition GlyphGroupings :: "nat \<Rightarrow> bool \<Rightarrow> glyph_groupings" where
  "GlyphGroupings glyph_count simplify_combined =
     \<lparr>gg_combined_patches = GlyphPartition glyph_count, gg_combined_patches_dirty = False,
      gg_simplify_combined = simplify_combined, gg_or_glyph_groups = (\<lambda>_. None),
      gg_exclusive_glyph_groups = (\<lambda>_. None), gg_combined_conditions = [],
      gg_combined_exclusive_segments = IntSet_empty, gg_conditions_and_glyphs = ConditionToGlyphsIndex True,
      gg_pre_combination = ConditionToGlyphsIndex False, gg_unmapped_glyphs = IntSet_empty,
      gg_found_condition_glyphs = IntSet_empty\<rparr>"

type_synonym 'a gg_op = "glyph_groupings \<Rightarrow> (glyph_groupings \<times> 'a status_or) option"

text \<open>Operations on a member.\<close>

definition on_patches :: "'a gp_op \<Rightarrow> 'a gg_op" where
  "on_patches f g = map_option (\<lambda>(p, r). (g\<lparr>gg_combined_patches := p\<rparr>, r)) (f (gg_combined_patches g))"

definition on_conditions :: "(condition_index \<Rightarrow> condition_index \<times> unit status_or) \<Rightarrow> unit gg_op" where
  "on_conditions f g = (case f (gg_conditions_and_glyphs g) of (I, r) \<Rightarrow> Some (g\<lparr>gg_conditions_and_glyphs := I\<rparr>, r))"

definition on_pre_combination :: "(condition_index \<Rightarrow> condition_index \<times> unit status_or) \<Rightarrow> unit gg_op" where
  "on_pre_combination f g = (case f (gg_pre_combination g) of (I, r) \<Rightarrow> Some (g\<lparr>gg_pre_combination := I\<rparr>, r))"

definition AddConditionAndGlyphs :: "activation_condition \<Rightarrow> int_set \<Rightarrow> bool \<Rightarrow> unit gg_op" where
  "AddConditionAndGlyphs condition glyphs pre_combination g =
     st_bind (on_conditions (cg_Add condition glyphs) g) (\<lambda>_.
       if pre_combination then on_pre_combination (cg_Add condition glyphs) else (\<lambda>g. Some (g, Inr ())))"

definition UnionConditionAndGlyphs :: "activation_condition \<Rightarrow> int_set \<Rightarrow> bool \<Rightarrow> unit gg_op" where
  "UnionConditionAndGlyphs condition glyphs pre_combination g =
     st_bind (on_conditions (cg_Union condition glyphs) g) (\<lambda>_.
       if pre_combination then on_pre_combination (cg_Union condition glyphs) else (\<lambda>g. Some (g, Inr ())))"

definition RemoveConditionAndGlyphs :: "activation_condition \<Rightarrow> bool \<Rightarrow> glyph_groupings \<Rightarrow> glyph_groupings" where
  "RemoveConditionAndGlyphs condition pre_combination g =
     g\<lparr>gg_conditions_and_glyphs := cg_Remove condition (gg_conditions_and_glyphs g),
       gg_pre_combination := (if pre_combination then cg_Remove condition (gg_pre_combination g) else gg_pre_combination g)\<rparr>"

section \<open>Queries\<close>

definition ExclusiveGlyphs :: "segment_index \<Rightarrow> glyph_groupings \<Rightarrow> int_set" where
  "ExclusiveGlyphs s g = (if IntSet_contains (gg_combined_exclusive_segments g) s then IntSet_empty
     else case gg_exclusive_glyph_groups g s of Some S \<Rightarrow> S | None \<Rightarrow> IntSet_empty)"

definition TriggeringSegmentToConditions :: "segment_index \<Rightarrow> glyph_groupings \<Rightarrow> activation_condition set" where
  "TriggeringSegmentToConditions segment g =
     (case cg_segments (gg_conditions_and_glyphs g) segment of Some C \<Rightarrow> C | None \<Rightarrow> {})"

definition GlyphToCondition :: "nat \<Rightarrow> glyph_groupings \<Rightarrow> activation_condition option" where
  "GlyphToCondition gid g = cg_glyphs (gg_conditions_and_glyphs g) gid"

text \<open>A hash map of conditions, in the order of the conditions.\<close>

definition condition_entries :: "(activation_condition \<Rightarrow> int_set option) \<Rightarrow> condition_map" where
  "condition_entries m = List.map_filter (\<lambda>c. map_option (Pair c) (m c)) (sorted_key_list_of_set AC_key (dom m))"

definition AllDisjunctiveSegments :: "glyph_groupings \<Rightarrow> int_set" where
  "AllDisjunctiveSegments g = fold (\<lambda>(c, _) result. case ac_conditions c of [segments] \<Rightarrow> IntSet_union_set result segments | _ \<Rightarrow> result)
     (condition_entries (cg_conditions (gg_conditions_and_glyphs g))) IntSet_empty"

definition CollectSegments :: "nat \<Rightarrow> glyph_groupings \<Rightarrow> int_set \<Rightarrow> int_set" where
  "CollectSegments gid g segments = (case GlyphToCondition gid g of None \<Rightarrow> segments
     | Some c \<Rightarrow> IntSet_union_set segments (TriggeringSegments c))"

text \<open>The union over the conditions of a segment; \<open>None\<close> when one is not in the map.\<close>

definition segment_glyphs :: "segment_index \<Rightarrow> glyph_groupings \<Rightarrow> int_set option" where
  "segment_glyphs s g = (let C = TriggeringSegmentToConditions s g; m = cg_conditions (gg_conditions_and_glyphs g)
     in if C \<subseteq> dom m
        then Some (fold (\<lambda>(c, glyphs). IntSet_union_set glyphs) (condition_entries (m |` C)) IntSet_empty) else None)"

fun ModifiedGlyphs_loop :: "segment_index list \<Rightarrow> glyph_groupings \<Rightarrow> int_set \<Rightarrow> int_set option" where
  "ModifiedGlyphs_loop [] g glyphs = Some glyphs"
| "ModifiedGlyphs_loop (s # ss) g glyphs =
     Option.bind (segment_glyphs s g) (\<lambda>S. ModifiedGlyphs_loop ss g (IntSet_union_set glyphs S))"

definition ModifiedGlyphs :: "int_set \<Rightarrow> glyph_groupings \<Rightarrow> int_set option" where
  "ModifiedGlyphs segments g = ModifiedGlyphs_loop (to_vector segments) g IntSet_empty"

section \<open>Invalidation\<close>

definition RemoveAllCombinedConditions :: "glyph_groupings \<Rightarrow> glyph_groupings" where
  "RemoveAllCombinedConditions g =
     (let g = g\<lparr>gg_combined_patches_dirty := True\<rparr>;
          g = fold (\<lambda>c. RemoveConditionAndGlyphs c False) (gg_combined_conditions g) g
      in g\<lparr>gg_combined_conditions := [], gg_combined_exclusive_segments := IntSet_empty\<rparr>)"

definition erase_from_group :: "nat \<Rightarrow> 'k \<Rightarrow> ('k \<Rightarrow> int_set option) \<Rightarrow> ('k \<Rightarrow> int_set option)" where
  "erase_from_group gid k m = (case m k of None \<Rightarrow> m
     | Some S \<Rightarrow> let S = fst (IntSet_erase gid S) in if IntSet_is_empty S then m(k := None) else m(k \<mapsto> S))"

definition GG_InvalidateGlyph :: "nat \<Rightarrow> glyph_groupings \<Rightarrow> glyph_groupings option" where
  "GG_InvalidateGlyph gid g =
     (let g = g\<lparr>gg_unmapped_glyphs := fst (IntSet_erase gid (gg_unmapped_glyphs g)),
                gg_found_condition_glyphs := fst (IntSet_erase gid (gg_found_condition_glyphs g))\<rparr>
      in case cg_Invalidate gid (gg_conditions_and_glyphs g) of None \<Rightarrow> None
      | Some (post, I) \<Rightarrow> (case cg_Invalidate gid (gg_pre_combination g) of None \<Rightarrow> None
        | Some (pre, J) \<Rightarrow>
            let g = g\<lparr>gg_conditions_and_glyphs := I, gg_pre_combination := J\<rparr>;
                g = (case post of Some c \<Rightarrow> if List.member (gg_combined_conditions g) c then RemoveAllCombinedConditions g else g
                      | None \<Rightarrow> g)
            in case pre of None \<Rightarrow> Some g
              | Some condition \<Rightarrow>
                  if ac_is_exclusive condition
                  then map_option (\<lambda>s. g\<lparr>gg_exclusive_glyph_groups := erase_from_group gid s (gg_exclusive_glyph_groups g)\<rparr>)
                         (IntSet_min (TriggeringSegments condition))
                  else if \<not> IsPurelyDisjunctive condition then Some g
                  else Some (g\<lparr>gg_or_glyph_groups := erase_from_group gid (TriggeringSegments condition) (gg_or_glyph_groups g)\<rparr>)))"

fun GG_InvalidateGlyphs :: "nat list \<Rightarrow> glyph_groupings \<Rightarrow> glyph_groupings option" where
  "GG_InvalidateGlyphs [] g = Some g"
| "GG_InvalidateGlyphs (gid # gids) g = Option.bind (GG_InvalidateGlyph gid g) (GG_InvalidateGlyphs gids)"

section \<open>Combined patches\<close>

text \<open>Patches that share a group of the partition become one: their conditions are joined by \<open>or\<close>.\<close>

type_synonym merged = "glyph_partition \<times> (nat, activation_condition) mapping \<times> (nat, int_set) mapping"

definition affected_conditions :: "int_set list \<Rightarrow> glyph_groupings \<Rightarrow> activation_condition list" where
  "affected_conditions groups g = fold (\<lambda>gids A. fold (\<lambda>gid A. case cg_glyphs (gg_pre_combination g) gid of
     Some c \<Rightarrow> ac_insert c A | None \<Rightarrow> A) (to_vector gids) A) groups []"

fun join_conditions :: "(activation_condition \<Rightarrow> int_set option) \<Rightarrow> activation_condition list \<Rightarrow> unit gp_op" where
  "join_conditions m [] p = Some (p, Inr ())"
| "join_conditions m (c # cs) p = (case m c of None \<Rightarrow> None
     | Some gids \<Rightarrow> gp_bind (gp_Union_set gids p) (\<lambda>_. join_conditions m cs))"

definition with_partition :: "'a gp_op \<Rightarrow> glyph_partition \<Rightarrow> (glyph_partition \<Rightarrow> 'a \<Rightarrow> 'b gg_op) \<Rightarrow> 'b gg_op" where
  "with_partition f p k g = (case f p of None \<Rightarrow> None | Some (p, Inl e) \<Rightarrow> Some (g, Inl e) | Some (p, Inr x) \<Rightarrow> k p x g)"

definition merge_into :: "nat \<Rightarrow> activation_condition \<Rightarrow> int_set \<Rightarrow> merged \<Rightarrow> merged" where
  "merge_into rep cond gids = (\<lambda>(p, conditions, glyphs).
     (p, Mapping.update rep (case Mapping.lookup conditions rep of None \<Rightarrow> cond | Some c \<Rightarrow> AC_Or c cond) conditions,
      Mapping.update rep (IntSet_union_set (Mapping.lookup_default IntSet_empty glyphs rep) gids) glyphs))"

definition merge_condition :: "activation_condition \<Rightarrow> merged \<Rightarrow> merged gg_op" where
  "merge_condition cond = (\<lambda>(p, conditions, glyphs) g. case cg_conditions (gg_pre_combination g) cond of None \<Rightarrow> None
     | Some gids \<Rightarrow> (case IntSet_min gids of None \<Rightarrow> Some (g, Inr (p, conditions, glyphs))
       | Some first \<Rightarrow> with_partition (gp_Find first) p (\<lambda>p rep. with_partition (GlyphsFor rep) p (\<lambda>p merged g.
           if gids \<noteq> merged then
             let g = RemoveConditionAndGlyphs cond False g
             in if ac_is_exclusive cond
                then case IntSet_min (TriggeringSegments cond) of None \<Rightarrow> None
                  | Some s \<Rightarrow> Some (g\<lparr>gg_combined_exclusive_segments := IntSet_insert s (gg_combined_exclusive_segments g)\<rparr>,
                      Inr (merge_into rep cond gids (p, conditions, glyphs)))
                else Some (g, Inr (merge_into rep cond gids (p, conditions, glyphs)))
           else st_bind (AddConditionAndGlyphs cond gids False g) (\<lambda>_ g. Some (g, Inr (p, conditions, glyphs))))) g))"

fun merge_conditions :: "activation_condition list \<Rightarrow> merged \<Rightarrow> merged gg_op" where
  "merge_conditions [] m g = Some (g, Inr m)"
| "merge_conditions (c # cs) m g = st_bind (merge_condition c m g) (merge_conditions cs)"

definition add_merged :: "activation_condition list \<Rightarrow> (nat, int_set) mapping \<Rightarrow> nat \<times> activation_condition \<Rightarrow> unit gg_op" where
  "add_merged affected merged_glyphs = (\<lambda>(rep, condition) g. case Mapping.lookup merged_glyphs rep of None \<Rightarrow> None
     | Some gids \<Rightarrow> st_bind (UnionConditionAndGlyphs condition gids False g) (\<lambda>_ g.
         let g = g\<lparr>gg_combined_conditions := List.insert condition (gg_combined_conditions g)\<rparr>
         in case cg_conditions (gg_pre_combination g) condition of None \<Rightarrow> Some (g, Inr ())
           | Some glyphs \<Rightarrow> if List.member affected condition then Some (g, Inr ())
               else UnionConditionAndGlyphs condition glyphs False g))"

definition RecomputeCombinedConditions :: "unit gg_op" where
  "RecomputeCombinedConditions g = st_bind (on_patches NonIdentityGroups g) (\<lambda>groups g.
     let affected = affected_conditions groups g
     in if affected = [] then Some (g\<lparr>gg_combined_patches_dirty := False\<rparr>, Inr ())
        else with_partition (join_conditions (cg_conditions (gg_pre_combination g)) affected)
             (GlyphPartition_copy (gg_combined_patches g)) (\<lambda>partition _ g.
          st_bind (merge_conditions affected (partition, Mapping.empty, Mapping.empty) g) (\<lambda>(_, conditions, glyphs) g.
          let conditions = (if gg_simplify_combined g then Mapping.map_values (\<lambda>_. NonCompositeSuperset) conditions else conditions)
          in st_bind (st_each (add_merged affected glyphs) (Mapping.ordered_entries conditions) g) (\<lambda>_ g.
            Some (g\<lparr>gg_combined_patches_dirty := False\<rparr>, Inr ())))) g)"

text \<open>The first glyph of a combined patch removes the combined conditions.\<close>

fun check_combined :: "nat list \<Rightarrow> unit gg_op" where
  "check_combined [] g = Some (g, Inr ())"
| "check_combined (gid # gids) g = st_bind (on_patches (GlyphsFor gid) g) (\<lambda>group g.
     if 1 < IntSet_size group then Some (RemoveAllCombinedConditions g, Inr ()) else check_combined gids g)"

definition RecomputeCombinedConditionsIfNeeded :: "int_set \<Rightarrow> unit gg_op" where
  "RecomputeCombinedConditionsIfNeeded modified_glyphs g =
     st_bind (if \<not> gg_combined_patches_dirty g then check_combined (to_vector modified_glyphs) g else Some (g, Inr ())) (\<lambda>_ g.
       if gg_combined_patches_dirty g then RecomputeCombinedConditions g else Some (g, Inr ()))"

definition CombinePatches :: "int_set \<Rightarrow> int_set \<Rightarrow> unit gg_op" where
  "CombinePatches a b g = st_bind (on_patches (gp_Union_set a) g) (\<lambda>_ g. st_bind (on_patches (gp_Union_set b) g) (\<lambda>_ g.
     st_bind (case (IntSet_min a, IntSet_min b) of (Some x, Some y) \<Rightarrow> on_patches (gp_Union x y) g | _ \<Rightarrow> Some (g, Inr ())) (\<lambda>_ g.
       Some (RemoveAllCombinedConditions g, Inr ()))))"

definition add_exclusive :: "segment_index \<Rightarrow> int_set \<Rightarrow> glyph_groupings \<Rightarrow> glyph_groupings" where
  "add_exclusive s glyphs g = g\<lparr>gg_exclusive_glyph_groups := (gg_exclusive_glyph_groups g)(s \<mapsto>
     IntSet_union_set (case gg_exclusive_glyph_groups g s of None \<Rightarrow> IntSet_empty | Some S \<Rightarrow> S) glyphs)\<rparr>"

definition add_or_group :: "int_set \<Rightarrow> int_set \<Rightarrow> glyph_groupings \<Rightarrow> glyph_groupings" where
  "add_or_group s glyphs g = g\<lparr>gg_or_glyph_groups := (gg_or_glyph_groups g)(s \<mapsto>
     IntSet_union_set (case gg_or_glyph_groups g s of None \<Rightarrow> IntSet_empty | Some S \<Rightarrow> S) glyphs)\<rparr>"

definition AddGlyphsToExclusiveGroup :: "segment_index \<Rightarrow> int_set \<Rightarrow> unit gg_op" where
  "AddGlyphsToExclusiveGroup segment glyphs g = (case GG_InvalidateGlyphs (to_vector glyphs) g of None \<Rightarrow> None
     | Some g \<Rightarrow> st_bind (UnionConditionAndGlyphs (exclusive_segment segment 0) glyphs True (add_exclusive segment glyphs g)) (\<lambda>_.
         RecomputeCombinedConditionsIfNeeded glyphs))"

section \<open>Grouping\<close>

definition add_found :: "int_set \<times> int_set \<Rightarrow> unit gg_op" where
  "add_found = (\<lambda>(s, glyphs) g. if IntSet_is_empty s then Some (g, Inl InternalError)
     else if IntSet_size s = 1 then (case IntSet_min s of None \<Rightarrow> None
       | Some segment \<Rightarrow> UnionConditionAndGlyphs (exclusive_segment segment 0) glyphs True (add_exclusive segment glyphs g))
     else UnionConditionAndGlyphs (or_segments s 0 False) glyphs True (add_or_group s glyphs g))"

text \<open>The segments in scope that the caller passes are not used by the code.\<close>

definition FindFallbackGlyphConditions :: "(subset_definition \<Rightarrow> int_set status_or) \<Rightarrow> segmentation_info \<Rightarrow>
    (int_set \<Rightarrow> int_set status_or) option \<Rightarrow> glyph_condition_set \<Rightarrow> unit gg_op" where
  "FindFallbackGlyphConditions closure info interact conditions g =
     (if IntSet_is_empty (gg_unmapped_glyphs g) then Some (g, Inr ())
      else case (case interact of None \<Rightarrow> Inr (IntSet_invert IntSet_empty) | Some f \<Rightarrow> f (gg_unmapped_glyphs g)) of
        Inl e \<Rightarrow> Some (g, Inl e)
      | Inr inscope \<Rightarrow>
          (case FindSupersetDisjunctiveConditionsFor closure info conditions (gg_unmapped_glyphs g) inscope of
             None \<Rightarrow> None | Some (Inl e) \<Rightarrow> Some (g, Inl e)
           | Some (Inr complex) \<Rightarrow> st_each add_found (Mapping.ordered_entries complex)
               (g\<lparr>gg_found_condition_glyphs := IntSet_union_set (gg_found_condition_glyphs g) (gg_unmapped_glyphs g),
                  gg_unmapped_glyphs := IntSet_empty\<rparr>)))"

text \<open>What the loop over the glyphs collects: or groups, other conditions, and glyphs by condition.\<close>

type_synonym regrouped = "int_set list \<times> activation_condition list \<times> (activation_condition \<Rightarrow> int_set option)"

definition new_grouping :: "activation_condition \<Rightarrow> nat \<Rightarrow> (activation_condition \<Rightarrow> int_set option) \<Rightarrow>
    (activation_condition \<Rightarrow> int_set option) \<Rightarrow> (activation_condition \<Rightarrow> int_set option)" where
  "new_grouping c gid existing m =
     (let S = (case m c of Some S \<Rightarrow> S | None \<Rightarrow> (case existing c of Some S \<Rightarrow> S | None \<Rightarrow> IntSet_empty))
      in m(c \<mapsto> IntSet_insert gid S))"

definition group_glyph :: "segmentation_info \<Rightarrow> glyph_condition_set \<Rightarrow> nat \<Rightarrow> glyph_groupings \<times> regrouped \<Rightarrow>
    (glyph_groupings \<times> regrouped) option" where
  "group_glyph info conditions gid = (\<lambda>(g, or_groups, others, m). case ConditionsFor gid conditions of None \<Rightarrow> None
     | Some c \<Rightarrow>
         if IsAlwaysTrue c
         then Some (if \<not> IntSet_contains (InitFontGlyphs info) gid \<and> IntSet_contains (si_full_closure info) gid
                    then g\<lparr>gg_unmapped_glyphs := IntSet_insert gid (gg_unmapped_glyphs g)\<rparr> else g, or_groups, others, m)
         else let m = new_grouping c gid (cg_conditions (gg_pre_combination g)) m
           in if ac_is_exclusive c
              then map_option (\<lambda>s. (add_exclusive s (IntSet [gid]) g, or_groups, ac_insert c others, m)) (IntSet_min (TriggeringSegments c))
              else if IsPurelyDisjunctive c
              then Some (add_or_group (TriggeringSegments c) (IntSet [gid]) g, ins_sorted (TriggeringSegments c) or_groups, others, m)
              else Some (g, or_groups, ac_insert c others, m))"

definition add_other :: "(activation_condition \<Rightarrow> int_set option) \<Rightarrow> activation_condition \<Rightarrow> unit gg_op" where
  "add_other m c g = (case m c of None \<Rightarrow> None | Some glyphs \<Rightarrow> AddConditionAndGlyphs c glyphs True g)"

definition all_other_segments :: "segmentation_info \<Rightarrow> int_set \<Rightarrow> int_set" where
  "all_other_segments info or_group = (if si_segments info = [] then IntSet_empty
     else IntSet_subtract (IntSet_insert_range 0 (length (si_segments info) - 1) IntSet_empty) or_group)"

text \<open>The glyphs of an or group that all other segments need become unmapped.\<close>

definition unmap_glyphs :: "int_set \<Rightarrow> int_set \<Rightarrow> glyph_groupings \<Rightarrow> glyph_groupings" where
  "unmap_glyphs or_group or_gids g = (let glyphs = (case gg_or_glyph_groups g or_group of None \<Rightarrow> IntSet_empty | Some S \<Rightarrow> S)
     in g\<lparr>gg_unmapped_glyphs := IntSet_union_set (gg_unmapped_glyphs g) (IntSet_intersect or_gids glyphs),
          gg_or_glyph_groups := (gg_or_glyph_groups g)(or_group \<mapsto> IntSet_subtract glyphs or_gids)\<rparr>)"

definition add_or_condition :: "(subset_definition \<Rightarrow> int_set status_or) \<Rightarrow> segmentation_info \<Rightarrow> bool \<Rightarrow> int_set \<Rightarrow> unit gg_op" where
  "add_or_condition closure info additional_conditions_check or_group g =
     (let condition = or_segments or_group 0 False;
          glyphs_of = (\<lambda>g. case gg_or_glyph_groups g or_group of None \<Rightarrow> IntSet_empty | Some S \<Rightarrow> S)
      in if \<not> additional_conditions_check then AddConditionAndGlyphs condition (glyphs_of g) True g
         else case CodepointsToOrGids closure info (all_other_segments info or_group) of
           None \<Rightarrow> None | Some (Inl e) \<Rightarrow> Some (g, Inl e)
         | Some (Inr or_gids) \<Rightarrow>
             let g = unmap_glyphs or_group or_gids g
             in if IntSet_is_empty (glyphs_of g)
                then Some (RemoveConditionAndGlyphs condition True (g\<lparr>gg_or_glyph_groups := (gg_or_glyph_groups g)(or_group := None)\<rparr>), Inr ())
                else AddConditionAndGlyphs condition (glyphs_of g) True g)"

fun group_glyphs_loop :: "segmentation_info \<Rightarrow> glyph_condition_set \<Rightarrow> nat list \<Rightarrow> glyph_groupings \<times> regrouped \<Rightarrow>
    (glyph_groupings \<times> regrouped) option" where
  "group_glyphs_loop info conditions [] s = Some s"
| "group_glyphs_loop info conditions (gid # gids) s =
     Option.bind (group_glyph info conditions gid s) (group_glyphs_loop info conditions gids)"

text \<open>
  \<^verbatim>\<open>GroupGlyphs\<close>. The segments in scope that it collects go to \<^verbatim>\<open>FindFallbackGlyphConditions\<close>, which does
  not use them, and are left out.
\<close>

definition GroupGlyphs :: "(subset_definition \<Rightarrow> int_set status_or) \<Rightarrow> segmentation_info \<Rightarrow>
    (int_set \<Rightarrow> int_set status_or) option \<Rightarrow> glyph_condition_set \<Rightarrow> int_set \<Rightarrow> int_set \<Rightarrow> bool \<Rightarrow> unit gg_op" where
  "GroupGlyphs closure info interact conditions glyphs modified_segments additional_conditions_check g =
     (case GG_InvalidateGlyphs (to_vector glyphs) g of None \<Rightarrow> None
      | Some g \<Rightarrow> (case ModifiedGlyphs modified_segments g of None \<Rightarrow> None
      | Some additional_glyphs \<Rightarrow> (case GG_InvalidateGlyphs (to_vector additional_glyphs) g of None \<Rightarrow> None
      | Some g \<Rightarrow> let glyphs = IntSet_union_set glyphs additional_glyphs
        in case group_glyphs_loop info conditions (to_vector glyphs) (g, [], [], \<lambda>_. None) of None \<Rightarrow> None
           | Some (g, or_groups, others, m) \<Rightarrow>
               st_bind (st_each (add_other m) others g) (\<lambda>_ g.
               st_bind (st_each (add_or_condition closure info additional_conditions_check) or_groups g) (\<lambda>_ g.
               st_bind (if si_unmapped_glyph_handling info = FIND_CONDITIONS
                        then FindFallbackGlyphConditions closure info interact conditions g else Some (g, Inr ())) (\<lambda>_ g.
                 RecomputeCombinedConditionsIfNeeded glyphs g))))))"

section \<open>The segmentation\<close>

fun acm_erase :: "activation_condition \<Rightarrow> condition_map \<Rightarrow> condition_map" where
  "acm_erase c [] = []"
| "acm_erase c ((d, S) # m) = (if AC_equal c d then m else (d, S) # acm_erase c m)"

definition acm_find :: "activation_condition \<Rightarrow> condition_map \<Rightarrow> int_set option" where
  "acm_find c m = map_option snd (List.find (\<lambda>(d, _). AC_equal c d) m)"

definition add_fallback :: "int_set \<Rightarrow> int_set \<Rightarrow> condition_map \<Rightarrow> condition_map" where
  "add_fallback fallback_segments unmapped_glyphs m =
     (let non_fallback_cond = or_segments fallback_segments 0 False;
          fallback_cond = or_segments fallback_segments 0 True;
          m = (case acm_find non_fallback_cond m of None \<Rightarrow> m
               | Some S \<Rightarrow> acm_erase non_fallback_cond (acm_update fallback_cond (\<lambda>T. IntSet_union_set T S) m))
      in acm_update fallback_cond (\<lambda>T. IntSet_union_set T unmapped_glyphs) m)"

text \<open>\<^verbatim>\<open>and_glyph_groups\<close>, \<^verbatim>\<open>or_glyph_groups\<close> and \<^verbatim>\<open>exclusive_glyph_groups\<close>, which the code fills and does not read,
  are left out.\<close>

definition GG_ToGlyphSegmentation :: "segmentation_info \<Rightarrow> glyph_groupings \<Rightarrow> glyph_segmentation option" where
  "GG_ToGlyphSegmentation info g =
     (let segmentation = CopySegments (SegmentSubsetDefinitions info)
            (GlyphSegmentation (InitFontSegmentWithoutDefaults info) (InitFontGlyphs info) (gg_unmapped_glyphs g));
          entries = condition_entries (cg_conditions (gg_conditions_and_glyphs g));
          no_unmapped = IntSet_is_empty (gg_unmapped_glyphs g);
          fallback_segments = (if no_unmapped then IntSet_empty else NonEmptySegments info)
      in ConditionsToSegmentation
           (if no_unmapped then entries else add_fallback fallback_segments (gg_unmapped_glyphs g) entries)
           fallback_segments segmentation)"

end
