(* ===== verification/Segmentation_Context.thy ===== *)
theory Segmentation_Context
  imports Glyph_Groupings
begin

text \<open>
  The state of a segmentation and its phases (\<^verbatim>\<open>ift/encoder/segmentation_context.cc\<close>, \<^verbatim>\<open>.h\<close>):
  analysis of segments into conditions of glyphs, grouping, and the check that a finished segmentation
  meets the closure requirement. The dependency graph is an object with a state of its own, given by
  its operations; the closure and the codepoints of glyphs are arguments. Size caches and statistics
  are left out.
\<close>

section \<open>The dependency graph\<close>

datatype condition_analysis_mode = CLOSURE_ONLY | CLOSURE_AND_DEP_GRAPH | CLOSURE_AND_VALIDATE_DEP_GRAPH
  | DEP_GRAPH_ONLY | DEP_GRAPH_ONLY_WITH_SIMPLIFICATION

datatype analysis_accuracy = ACCURATE | INACCURATE

type_synonym analysis = "int_set \<times> int_set \<times> int_set"

record 'd dependency_ops =
  do_analyze :: "segmentation_info \<Rightarrow> int_set \<Rightarrow> analysis \<Rightarrow> 'd \<Rightarrow> ('d \<times> (analysis_accuracy \<times> analysis) status_or) option"
  do_interact_glyphs :: "segmentation_info \<Rightarrow> int_set \<Rightarrow> 'd \<Rightarrow> int_set status_or"
  do_interact_definition :: "segmentation_info \<Rightarrow> subset_definition \<Rightarrow> 'd \<Rightarrow> int_set status_or"
  do_affected_glyphs :: "segmentation_info \<Rightarrow> int_set \<Rightarrow> 'd \<Rightarrow> int_set"
  do_glyph_condition :: "nat \<Rightarrow> 'd \<Rightarrow> activation_condition option"
  do_inert_segments :: "'d \<Rightarrow> int_set"
  do_init_font_changed :: "segmentation_info \<Rightarrow> int_set \<Rightarrow> 'd \<Rightarrow> ('d \<times> unit status_or) option"
  do_segments_merged :: "segmentation_info \<Rightarrow> segment_index \<Rightarrow> int_set \<Rightarrow> 'd \<Rightarrow> ('d \<times> unit status_or) option"
  do_available :: bool

section \<open>The context\<close>

record 'd segmentation_context =
  sc_info :: segmentation_info
  sc_dependency :: "'d option"
  sc_conditions :: glyph_condition_set
  sc_groupings :: glyph_groupings
  sc_inert_segments :: int_set
  sc_mode :: condition_analysis_mode

type_synonym ('d, 'a) sc_op = "'d segmentation_context \<Rightarrow> ('d segmentation_context \<times> 'a status_or) option"

definition IsPureDepGraphAnalysisMode :: "condition_analysis_mode \<Rightarrow> bool" where
  "IsPureDepGraphAnalysisMode mode = (case mode of DEP_GRAPH_ONLY \<Rightarrow> True | DEP_GRAPH_ONLY_WITH_SIMPLIFICATION \<Rightarrow> True | _ \<Rightarrow> False)"

definition UsingDepGraph :: "condition_analysis_mode \<Rightarrow> bool" where
  "UsingDepGraph mode = (case mode of CLOSURE_ONLY \<Rightarrow> False | _ \<Rightarrow> True)"

definition on_info :: "(segmentation_info \<Rightarrow> segmentation_info) \<Rightarrow> 'd segmentation_context \<Rightarrow> 'd segmentation_context" where
  "on_info f c = c\<lparr>sc_info := f (sc_info c)\<rparr>"

definition on_groupings :: "unit gg_op \<Rightarrow> ('d, unit) sc_op" where
  "on_groupings f c = map_option (\<lambda>(g, r). (c\<lparr>sc_groupings := g\<rparr>, r)) (f (sc_groupings c))"

text \<open>\<^verbatim>\<open>glyph_condition_set\<close> changes without a status.\<close>

definition on_glyph_conditions :: "(glyph_condition_set \<Rightarrow> glyph_condition_set option) \<Rightarrow> ('d, unit) sc_op" where
  "on_glyph_conditions f c = map_option (\<lambda>s. (c\<lparr>sc_conditions := s\<rparr>, Inr ())) (f (sc_conditions c))"

definition on_dependency :: "('d \<Rightarrow> ('d \<times> 'a status_or) option) \<Rightarrow> 'd \<Rightarrow> ('d, 'a) sc_op" where
  "on_dependency f d c = map_option (\<lambda>(d, r). (c\<lparr>sc_dependency := Some d\<rparr>, r)) (f d)"

section \<open>Analysis\<close>

text \<open>The sets of the dependency graph are taken when the mode asks for them and they are accurate.\<close>

definition closure_analysis :: "(subset_definition \<Rightarrow> int_set status_or) \<Rightarrow> int_set \<Rightarrow> condition_analysis_mode \<Rightarrow> analysis \<Rightarrow> analysis \<Rightarrow>
    ('d, analysis) sc_op" where
  "closure_analysis closure segment_ids effective_mode dep gids c =
     (if effective_mode = CLOSURE_ONLY \<or> effective_mode = CLOSURE_AND_VALIDATE_DEP_GRAPH
      then st_bind (st_read (AnalyzeSegment closure (sc_info c) segment_ids gids) c) (\<lambda>gids c.
        if effective_mode = CLOSURE_AND_VALIDATE_DEP_GRAPH \<and> gids \<noteq> dep then Some (c, Inl InternalError) else Some (c, Inr gids))
      else case (gids, dep) of ((A, P, E), (dA, dP, dE)) \<Rightarrow>
        Some (c, Inr (IntSet_union_set A dA, IntSet_union_set P dP, IntSet_union_set E dE)))"

definition SC_AnalyzeSegment :: "'d dependency_ops \<Rightarrow> (subset_definition \<Rightarrow> int_set status_or) \<Rightarrow> int_set \<Rightarrow> analysis \<Rightarrow>
    ('d, analysis) sc_op" where
  "SC_AnalyzeSegment ops closure segment_ids gids c = (case sc_dependency c of
      None \<Rightarrow> closure_analysis closure segment_ids (sc_mode c) gids gids c
    | Some d \<Rightarrow> st_bind (on_dependency (do_analyze ops (sc_info c) segment_ids gids) d c) (\<lambda>(accuracy, dep) c.
        closure_analysis closure segment_ids (if accuracy = INACCURATE then CLOSURE_ONLY else sc_mode c) dep gids c))"

definition add_conditions :: "(nat \<Rightarrow> segment_index \<Rightarrow> glyph_condition_set \<Rightarrow> glyph_condition_set option) \<Rightarrow> segment_index \<Rightarrow>
    int_set \<Rightarrow> ('d, unit) sc_op" where
  "add_conditions add s gids = on_glyph_conditions (fold_glyphs (\<lambda>gid. add gid s) (to_vector gids))"

definition set_inert :: "segment_index \<Rightarrow> int_set \<Rightarrow> int_set \<Rightarrow> 'd segmentation_context \<Rightarrow> 'd segmentation_context" where
  "set_inert s and_gids or_gids c = (if IntSet_is_empty and_gids \<and> IntSet_is_empty or_gids
     then c\<lparr>sc_inert_segments := IntSet_insert s (sc_inert_segments c)\<rparr> else c)"

definition ReprocessSegment :: "'d dependency_ops \<Rightarrow> (subset_definition \<Rightarrow> int_set status_or) \<Rightarrow> segment_index \<Rightarrow> ('d, int_set) sc_op" where
  "ReprocessSegment ops closure segment_index c =
     (if length (si_segments (sc_info c)) \<le> segment_index then None
      else if SD_Empty (seg_definition (si_segments (sc_info c) ! segment_index)) then Some (c, Inr IntSet_empty)
      else st_bind (SC_AnalyzeSegment ops closure (IntSet [segment_index]) (IntSet_empty, IntSet_empty, IntSet_empty) c)
        (\<lambda>(and_gids, or_gids, exclusive_gids) c.
          let changed_gids = IntSet_union_set (IntSet_union_set (IntSet_union_set IntSet_empty and_gids) or_gids) exclusive_gids
          in st_bind (on_glyph_conditions (fold_glyphs (\<lambda>gid. InvalidateGlyphsAndSegments (IntSet [gid]) (IntSet [segment_index]))
                 (to_vector changed_gids)) c) (\<lambda>_ c.
             st_bind (add_conditions AddAndCondition segment_index exclusive_gids (set_inert segment_index and_gids or_gids c)) (\<lambda>_ c.
             st_bind (add_conditions AddAndCondition segment_index and_gids c) (\<lambda>_ c.
             st_bind (add_conditions AddOrCondition segment_index or_gids c) (\<lambda>_ c.
               Some (c, Inr changed_gids)))))))"

fun ReprocessSegments :: "'d dependency_ops \<Rightarrow> (subset_definition \<Rightarrow> int_set status_or) \<Rightarrow> segment_index list \<Rightarrow> ('d, unit) sc_op" where
  "ReprocessSegments ops closure [] c = Some (c, Inr ())"
| "ReprocessSegments ops closure (s # ss) c = st_bind (ReprocessSegment ops closure s c) (\<lambda>_. ReprocessSegments ops closure ss)"

text \<open>\<^verbatim>\<open>conditions.at(g)\<close> and \<^verbatim>\<open>*dependency_closure_\<close> of nothing give \<open>None\<close>.\<close>

definition transfer_condition :: "condition_analysis_mode \<Rightarrow> activation_condition \<Rightarrow> activation_condition option" where
  "transfer_condition mode condition =
     (if IsUnitary condition
      then map_option (\<lambda>s. exclusive_segment s 0) (IntSet_min (TriggeringSegments condition))
      else if mode = DEP_GRAPH_ONLY_WITH_SIMPLIFICATION \<and> \<not> IsPurelyConjunctive condition \<and> \<not> IsPurelyDisjunctive condition
      then Some (NonCompositeSuperset condition) else Some condition)"

definition TransferDependencyGraphGlyphConditions :: "'d dependency_ops \<Rightarrow> int_set \<Rightarrow> ('d, unit) sc_op" where
  "TransferDependencyGraphGlyphConditions ops gids c = (case sc_dependency c of None \<Rightarrow> None
     | Some d \<Rightarrow> st_bind (on_glyph_conditions (fold_glyphs (\<lambda>g s. Option.bind (do_glyph_condition ops g d) (\<lambda>condition.
           Option.bind (transfer_condition (sc_mode c) condition) (\<lambda>condition. SetCondition g condition s))) (to_vector gids)) c) (\<lambda>_ c.
         Some (c\<lparr>sc_inert_segments := do_inert_segments ops d\<rparr>, Inr ())))"

section \<open>Phases\<close>

definition SC_GroupGlyphs :: "'d dependency_ops \<Rightarrow> (subset_definition \<Rightarrow> int_set status_or) \<Rightarrow> int_set \<Rightarrow> int_set \<Rightarrow> ('d, unit) sc_op" where
  "SC_GroupGlyphs ops closure glyphs modified_segments c =
     on_groupings (GroupGlyphs closure (sc_info c) (map_option (\<lambda>d gids. do_interact_glyphs ops (sc_info c) gids d) (sc_dependency c))
       (sc_conditions c) glyphs modified_segments (\<not> IsPureDepGraphAnalysisMode (sc_mode c))) c"

definition ReprocessAll :: "'d dependency_ops \<Rightarrow> (subset_definition \<Rightarrow> int_set status_or) \<Rightarrow> ('d, unit) sc_op" where
  "ReprocessAll ops closure c = st_bind
     (if \<not> IsPureDepGraphAnalysisMode (sc_mode c) then ReprocessSegments ops closure [0..<length (si_segments (sc_info c))] c
      else if \<not> do_available ops then Some (c, Inl InternalError)
      else TransferDependencyGraphGlyphConditions ops (NonInitFontGlyphs (sc_info c)) c)
     (\<lambda>_ c. SC_GroupGlyphs ops closure (NonInitFontGlyphs (sc_info c)) IntSet_empty c)"

record invalidation_set =
  iv_glyphs :: int_set
  iv_segments :: int_set
  iv_base_segment :: segment_index

definition ReprocessChanged :: "'d dependency_ops \<Rightarrow> (subset_definition \<Rightarrow> int_set status_or) \<Rightarrow> invalidation_set \<Rightarrow> ('d, unit) sc_op" where
  "ReprocessChanged ops closure modified c = st_bind
     (if \<not> IsPureDepGraphAnalysisMode (sc_mode c)
      then if IntSet_contains (sc_inert_segments c) (iv_base_segment modified) then Some (c, Inr (iv_glyphs modified))
           else st_bind (ReprocessSegment ops closure (iv_base_segment modified) c) (\<lambda>gids c.
             Some (c, Inr (IntSet_union_set (iv_glyphs modified) gids)))
      else if \<not> do_available ops then Some (c, Inl InternalError)
      else case sc_dependency c of None \<Rightarrow> None | Some d \<Rightarrow>
        let glyphs = IntSet_union_set (iv_glyphs modified) (do_affected_glyphs ops (sc_info c) (IntSet [iv_base_segment modified]) d)
        in st_bind (TransferDependencyGraphGlyphConditions ops glyphs c) (\<lambda>_ c. Some (c, Inr glyphs)))
     (\<lambda>glyphs c. SC_GroupGlyphs ops closure glyphs (iv_segments modified) c)"

definition SC_AssignMergedSegment :: "segment_index \<Rightarrow> int_set \<Rightarrow> segment \<Rightarrow> bool \<Rightarrow> ('d, nat) sc_op" where
  "SC_AssignMergedSegment base to_merge merged_segment is_inert c =
     (case AssignMergedSegment base to_merge merged_segment (sc_info c) of None \<Rightarrow> None
      | Some (n, info) \<Rightarrow>
          let inert = IntSet_subtract (sc_inert_segments c) to_merge
          in Some (c\<lparr>sc_info := info, sc_inert_segments :=
                 (if is_inert then IntSet_insert base inert else fst (IntSet_erase base inert))\<rparr>, Inr n))"

definition InvalidateGlyphInformationForMerge :: "'d dependency_ops \<Rightarrow> int_set \<Rightarrow> int_set \<Rightarrow> segment_index \<Rightarrow> ('d, unit) sc_op" where
  "InvalidateGlyphInformationForMerge ops glyphs segments base_segment c =
     st_bind (on_glyph_conditions (InvalidateGlyphsAndSegments glyphs segments) c) (\<lambda>_ c.
       case sc_dependency c of None \<Rightarrow> Some (c, Inr ())
       | Some d \<Rightarrow> on_dependency (do_segments_merged ops (sc_info c) base_segment segments) d c)"

section \<open>A new initial subset\<close>

definition changed_definitions :: "subset_definition \<Rightarrow> segment list \<Rightarrow> int_set" where
  "changed_definitions new_def segments = fold (\<lambda>(i, s) changed.
     if IntSet_intersects (seg_codepoints s) (sd_codepoints new_def) \<or>
        list_ex (List.member (sd_feature_tags new_def)) (sd_feature_tags (seg_definition s))
     then IntSet_insert i changed else changed) (enumerate 0 segments) IntSet_empty"

fun changed_conditions :: "nat list \<Rightarrow> glyph_condition_set \<Rightarrow> glyph_condition_set \<Rightarrow> int_set \<Rightarrow> int_set option" where
  "changed_conditions [] old new changed = Some changed"
| "changed_conditions (gid # gids) old new changed =
     Option.bind (ConditionsFor gid new) (\<lambda>c. Option.bind (ConditionsFor gid old) (\<lambda>d.
       changed_conditions gids old new (if d \<noteq> c then IntSet_insert gid changed else changed)))"

definition SC_ReassignInitSubset :: "'d dependency_ops \<Rightarrow> (subset_definition \<Rightarrow> int_set status_or) \<Rightarrow> (int_set \<Rightarrow> int_set) \<Rightarrow>
    subset_definition \<Rightarrow> ('d, unit) sc_op" where
  "SC_ReassignInitSubset ops closure codepoints_for new_def c =
     st_bind (st_read (Some (ExpandClosure closure codepoints_for new_def)) c) (\<lambda>new_def c.
     let removed_gids = IntSet_intersect (NonInitFontGlyphs (sc_info c)) (sd_gids new_def);
         changed_segments = changed_definitions new_def (si_segments (sc_info c));
         all_segments = (if si_segments (sc_info c) = [] then IntSet_empty
           else IntSet_insert_range 0 (length (si_segments (sc_info c)) - 1) IntSet_empty)
     in st_bind (st_read (Some (case sc_dependency c of None \<Rightarrow> Inr all_segments
          | Some d \<Rightarrow> do_interact_definition ops (sc_info c) (SD_Subtract new_def (si_init_font_segment (sc_info c))) d)) c)
       (\<lambda>segments_to_reprocess c.
     st_bind (case ReassignInitSubset closure codepoints_for new_def (sc_info c) of
           Inl e \<Rightarrow> Some (c, Inl e) | Inr info \<Rightarrow> Some (c\<lparr>sc_info := info\<rparr>, Inr ())) (\<lambda>_ c.
     st_bind (case sc_dependency c of None \<Rightarrow> Some (c, Inr ())
           | Some d \<Rightarrow> on_dependency (do_init_font_changed ops (sc_info c) changed_segments) d c) (\<lambda>_ c.
     let previous = sc_conditions c
     in st_bind (on_glyph_conditions (InvalidateGlyphs removed_gids) c) (\<lambda>_ c.
     st_bind (on_glyph_conditions (InvalidateSegments segments_to_reprocess) c) (\<lambda>_ c.
     let c = c\<lparr>sc_inert_segments := IntSet_subtract (sc_inert_segments c) segments_to_reprocess\<rparr>
     in st_bind
       (if \<not> IsPureDepGraphAnalysisMode (sc_mode c) then ReprocessSegments ops closure (to_vector segments_to_reprocess) c
        else if \<not> do_available ops then Some (c, Inl InternalError)
        else case sc_dependency c of None \<Rightarrow> None | Some d \<Rightarrow>
          TransferDependencyGraphGlyphConditions ops
            (fold (\<lambda>s gids. IntSet_union_set gids (do_affected_glyphs ops (sc_info c) (IntSet [s]) d)) (to_vector segments_to_reprocess) IntSet_empty) c)
       (\<lambda>_ c. case changed_conditions (to_vector (NonInitFontGlyphs (sc_info c))) previous (sc_conditions c)
            (IntSet_union_set IntSet_empty removed_gids) of None \<Rightarrow> None
          | Some changed_gids \<Rightarrow> SC_GroupGlyphs ops closure changed_gids changed_segments c)))))))"

section \<open>The finished segmentation\<close>

fun validate_gids :: "int_set \<Rightarrow> nat list \<Rightarrow> int_set \<Rightarrow> int_set status_or" where
  "validate_gids initial_closure [] visited = Inr visited"
| "validate_gids initial_closure (gid # gids) visited =
     (if IntSet_contains initial_closure gid then Inl FailedPreconditionError
      else if IntSet_contains visited gid then Inl FailedPreconditionError
      else validate_gids initial_closure gids (IntSet_insert gid visited))"

fun validate_patches :: "int_set \<Rightarrow> (patch_id \<times> int_set) list \<Rightarrow> int_set \<Rightarrow> int_set status_or" where
  "validate_patches initial_closure [] visited = Inr visited"
| "validate_patches initial_closure ((patch_id, gids) # patches) visited =
     TRY (validate_gids initial_closure (to_vector gids) visited) (validate_patches initial_closure patches)"

fun validate_groups :: "(subset_definition \<Rightarrow> int_set status_or) \<Rightarrow> segmentation_info \<Rightarrow> int_set \<Rightarrow> int_set list \<Rightarrow> unit outcome" where
  "validate_groups closure info glyphs [] = Ok ()"
| "validate_groups closure info glyphs (sub_group # groups) =
     OTRY (HasAdditionalConditions closure info sub_group glyphs) (\<lambda>additional.
       if additional then Fail FailedPreconditionError else validate_groups closure info glyphs groups)"

fun validate_conditions :: "(subset_definition \<Rightarrow> int_set status_or) \<Rightarrow> segmentation_info \<Rightarrow> (patch_id, int_set) mapping \<Rightarrow>
    activation_condition list \<Rightarrow> unit outcome" where
  "validate_conditions closure info patches [] = Ok ()"
| "validate_conditions closure info patches (condition # conditions) =
     (case Mapping.lookup patches (AC_activated condition) of None \<Rightarrow> Fail FailedPreconditionError
      | Some glyphs \<Rightarrow> OTRY (validate_groups closure info glyphs (ac_conditions condition)) (\<lambda>_.
          validate_conditions closure info patches conditions))"

definition ValidateSegmentation :: "(subset_definition \<Rightarrow> int_set status_or) \<Rightarrow> segmentation_info \<Rightarrow> glyph_segmentation \<Rightarrow> unit outcome" where
  "ValidateSegmentation closure info s =
     (let initial_closure = gseg_init_font_glyph_closure s
      in case validate_patches initial_closure (Mapping.ordered_entries (gseg_patches s)) IntSet_empty of
           Inl e \<Rightarrow> Fail e
         | Inr visited \<Rightarrow>
             if IntSet_subtract (si_full_closure info) initial_closure \<noteq> visited then Fail FailedPreconditionError
             else validate_conditions closure info (gseg_patches s) (gseg_conditions s))"

definition SC_ToGlyphSegmentation :: "(subset_definition \<Rightarrow> int_set status_or) \<Rightarrow> 'd segmentation_context \<Rightarrow> glyph_segmentation outcome" where
  "SC_ToGlyphSegmentation closure c = (case GG_ToGlyphSegmentation (sc_info c) (sc_groupings c) of None \<Rightarrow> None
     | Some segmentation \<Rightarrow> OTRY (ValidateSegmentation closure (sc_info c) segmentation) (\<lambda>_. Ok segmentation))"

section \<open>Creation\<close>

definition SegmentationContext :: "nat \<Rightarrow> condition_analysis_mode \<Rightarrow> segmentation_info \<Rightarrow> 'd segmentation_context" where
  "SegmentationContext glyph_count mode info = \<lparr>sc_info = info, sc_dependency = None,
     sc_conditions = GlyphConditionSet glyph_count,
     sc_groupings = GlyphGroupings glyph_count (mode = DEP_GRAPH_ONLY_WITH_SIMPLIFICATION),
     sc_inert_segments = IntSet_empty, sc_mode = mode\<rparr>"

text \<open>\<open>create_dependency\<close> is \<^verbatim>\<open>DependencyClosure::Create\<close>.\<close>

definition SegmentationContext_Create :: "(subset_definition \<Rightarrow> int_set status_or) \<Rightarrow> (int_set \<Rightarrow> int_set) \<Rightarrow>
    (segmentation_info \<Rightarrow> bool \<Rightarrow> 'd status_or) \<Rightarrow> nat \<Rightarrow> subset_definition \<Rightarrow> segment list \<Rightarrow> unmapped_glyph_handling \<Rightarrow>
    condition_analysis_mode \<Rightarrow> 'd segmentation_context status_or" where
  "SegmentationContext_Create closure codepoints_for create_dependency glyph_count initial_segment segments handling mode =
     TRY (SegmentationInfo_Create closure codepoints_for segments initial_segment handling) (\<lambda>info.
     let c = SegmentationContext glyph_count mode info
     in if UsingDepGraph mode
        then TRY (create_dependency info (IsPureDepGraphAnalysisMode mode)) (\<lambda>d. Inr (c\<lparr>sc_dependency := Some d\<rparr>))
        else Inr c)"

definition InitializeSegmentationContext :: "'d dependency_ops \<Rightarrow> (subset_definition \<Rightarrow> int_set status_or) \<Rightarrow> (int_set \<Rightarrow> int_set) \<Rightarrow>
    (segmentation_info \<Rightarrow> bool \<Rightarrow> 'd status_or) \<Rightarrow> nat \<Rightarrow> subset_definition \<Rightarrow> segment list \<Rightarrow> unmapped_glyph_handling \<Rightarrow>
    condition_analysis_mode \<Rightarrow> 'd segmentation_context outcome" where
  "InitializeSegmentationContext ops closure codepoints_for create_dependency glyph_count initial_segment segments handling mode =
     (if glyph_count = 0 then Fail InvalidArgumentError
      else OTRY (Some (SegmentationContext_Create closure codepoints_for create_dependency glyph_count
             (AddInitSubsetDefaults initial_segment) segments handling mode)) (\<lambda>c.
           case ReprocessAll ops closure c of None \<Rightarrow> None | Some (c, Inl e) \<Rightarrow> Fail e | Some (c, Inr _) \<Rightarrow> Ok c))"

end
