(* ===== verification/Closure_Requirement.thy ===== *)
theory Closure_Requirement
  imports Segmentation_Context
begin

text \<open>
  The glyph closure requirement of \<^verbatim>\<open>ift/encoder/glyph_segmentation.h\<close>: the glyphs of the initial font and of
  the patches whose conditions hold contain the glyphs that the segments need. It holds for every
  segmentation that passes \<^verbatim>\<open>ValidateSegmentation\<close>, whatever the conditions were made from.
\<close>

section \<open>What the check relies on\<close>

text \<open>The full definition covers every segment, and the full closure is its closure.\<close>

definition full_ok :: "(subset_definition \<Rightarrow> int_set status_or) \<Rightarrow> segmentation_info \<Rightarrow> bool" where
  "full_ok closure info \<longleftrightarrow> closure (si_full_definition info) = Inr (si_full_closure info) \<and>
     sd_le (si_init_font_segment info) (si_full_definition info) \<and>
     (\<forall>s < length (si_segments info). sd_le (seg_def (si_segments info) s) (si_full_definition info))"

text \<open>Where the code takes the segments to be disjoint, they share nothing at all.\<close>

definition disjoint_ok :: "segmentation_info \<Rightarrow> bool" where
  "disjoint_ok info \<longleftrightarrow> (si_segments_disjoint info \<longrightarrow> sd_wf (si_full_definition info) \<and>
     (\<forall>s < length (si_segments info). sd_design_space (seg_def (si_segments info) s) = [] \<and>
        \<not> shares (si_init_font_segment info) (seg_def (si_segments info) s) \<and>
        (\<forall>t < length (si_segments info). t \<noteq> s \<longrightarrow> \<not> shares (seg_def (si_segments info) t) (seg_def (si_segments info) s))))"

lemma separate_segments:
  assumes "full_ok closure info" and "disjoint_ok info" and "members S \<subseteq> {..<length (si_segments info)}" and "si_segments_disjoint info"
  shows "separate info S"
  using assms unfolding separate_def full_ok_def disjoint_ok_def by blast

lemma needs_below:
  assumes mono: "closure_monotone closure" and wf: "info_wf info"
    and e: "closure e = Inr B" "sd_le (si_init_font_segment info) e" "\<forall>s \<in> T. sd_le (seg_def (si_segments info) s) e"
  shows "needs closure info T \<subseteq> members B"
proof
  fix g assume "g \<in> needs closure info T"
  then obtain S d gids where S: "members S = T" "CombinedDefinition info S = Some d" "closure d = Inr gids" "g \<in> members gids"
    by (auto simp: needs_def)
  have "sd_le d e" using CombinedDefinition_lub [OF wf S(2)] e(2,3) S(1) by blast
  from closure_monotoneD [OF mono this S(3) e(1)] S(4) show "g \<in> members B" by blast
qed

lemma needs_full:
  assumes "closure_monotone closure" "info_wf info" "full_ok closure info" "T \<subseteq> {..<length (si_segments info)}"
  shows "needs closure info T \<subseteq> members (si_full_closure info)"
  by (rule needs_below [OF assms(1,2)]) (use assms(3,4) in \<open>auto simp: full_ok_def\<close>)

lemma HasAdditionalConditions_False:
  assumes mono: "closure_monotone closure" and wf: "info_wf info" and full: "full_ok closure info" and dis: "disjoint_ok info"
    and run: "HasAdditionalConditions closure info S glyphs = Ok False"
    and T: "T \<subseteq> {..<length (si_segments info)}" "T \<inter> members S = {}"
  shows "needs closure info T \<inter> members glyphs = {}"
proof -
  obtain combined where c: "UnionSegments (si_segments info) (to_vector S) (SubsetDefinition []) = Some combined"
    using run by (auto simp: HasAdditionalConditions_def split: option.splits)
  then have S: "members S \<subseteq> {..<length (si_segments info)}"
    using UnionSegments_eq_None [of "si_segments info" "to_vector S" "SubsetDefinition []"] by simp
  obtain e where e: "ComputeExceptSegment info S combined = Some e" "sd_le (si_init_font_segment info) e"
    "\<forall>s < length (si_segments info). s \<notin> members S \<longrightarrow> sd_le (seg_def (si_segments info) s) e"
    using ComputeExceptSegment_covers [OF wf separate_segments [OF full dis S] c] by blast
  obtain B where B: "closure e = Inr B" using closure_monotone_defined [OF mono] by blast
  have "\<not> IntSet_intersects B glyphs" using run c e(1) B by (simp add: HasAdditionalConditions_def)
  moreover have "needs closure info T \<subseteq> members B" by (rule needs_below [OF mono wf B e(2)]) (use e(3) T in blast)
  ultimately show ?thesis by auto
qed

section \<open>What the check shows\<close>

lemma validate_gids_visited: "validate_gids I gids visited = Inr v \<Longrightarrow> set gids \<subseteq> {..<UINT32_MAX} \<Longrightarrow>
    members v = members visited \<union> set gids \<and> set gids \<inter> members I = {} \<and> distinct gids \<and> set gids \<inter> members visited = {}"
proof (induction gids arbitrary: visited)
  case (Cons g gids)
  then have "g \<notin> members I" "g \<notin> members visited" and r: "validate_gids I gids (IntSet_insert g visited) = Inr v"
    and "g < UINT32_MAX" "set gids \<subseteq> {..<UINT32_MAX}" by (auto split: if_splits)
  with Cons.IH [OF r] show ?case by auto
qed simp

lemma validate_patches_visited:
  "validate_patches I patches visited = Inr v \<Longrightarrow> members v = members visited \<union> (\<Union>(p, G) \<in> set patches. members G)"
proof (induction patches arbitrary: visited)
  case (Cons e patches)
  obtain p G where e: "e = (p, G)" by (cases e)
  with Cons.prems obtain w where w: "validate_gids I (to_vector G) visited = Inr w" "validate_patches I patches w = Inr v"
    by (cases "validate_gids I (to_vector G) visited") auto
  have "members w = members visited \<union> members G" using validate_gids_visited [OF w(1)] members_bound by fastforce
  with Cons.IH [OF w(2)] e show ?case by auto
qed simp

lemma validate_groups_ok:
  "validate_groups closure info glyphs groups = Ok () \<Longrightarrow> S \<in> set groups \<Longrightarrow> HasAdditionalConditions closure info S glyphs = Ok False"
  by (induction groups) (auto simp: OTRY_eq_Ok split: if_splits)

lemma validate_conditions_ok:
  "validate_conditions closure info patches conditions = Ok () \<Longrightarrow> c \<in> set conditions \<Longrightarrow>
    \<exists>glyphs. Mapping.lookup patches (AC_activated c) = Some glyphs \<and> validate_groups closure info glyphs (ac_conditions c) = Ok ()"
  by (induction conditions) (auto simp: OTRY_eq_Ok split: option.splits)

text \<open>The glyphs of the patches whose conditions hold for the segments \<open>T\<close>.\<close>

definition loaded :: "glyph_segmentation \<Rightarrow> nat set \<Rightarrow> nat set" where
  "loaded s T = {g. \<exists>c \<in> set (gseg_conditions s). \<exists>G. AC_activates c T \<and>
     Mapping.lookup (gseg_patches s) (AC_activated c) = Some G \<and> g \<in> members G}"

lemma Validate_closure_requirement:
  assumes mono: "closure_monotone closure" and wf: "info_wf info" and full: "full_ok closure info" and dis: "disjoint_ok info"
    and reached: "patches_reached s" and init: "gseg_init_font_glyph_closure s = InitFontGlyphs info"
    and run: "ValidateSegmentation closure info s = Ok ()" and T: "T \<subseteq> {..<length (si_segments info)}"
  shows "needs closure info T \<subseteq> members (InitFontGlyphs info) \<union> loaded s T"
proof
  fix g assume g: "g \<in> needs closure info T"
  show "g \<in> members (InitFontGlyphs info) \<union> loaded s T"
  proof (cases "g \<in> members (InitFontGlyphs info)")
    case False
    obtain v where v: "validate_patches (InitFontGlyphs info) (Mapping.ordered_entries (gseg_patches s)) IntSet_empty = Inr v"
      "IntSet_subtract (si_full_closure info) (InitFontGlyphs info) = v"
      "validate_conditions closure info (gseg_patches s) (gseg_conditions s) = Ok ()"
      using run unfolding ValidateSegmentation_def init Let_def by (auto split: sum.splits if_splits)
    have "g \<in> members v" using needs_full [OF mono wf full T] g False unfolding v(2) [symmetric] by auto
    then obtain p G where pG: "(p, G) \<in> set (Mapping.ordered_entries (gseg_patches s))" "g \<in> members G"
      unfolding validate_patches_visited [OF v(1)] by auto
    then have l: "Mapping.lookup (gseg_patches s) p = Some G"
      using reached by (auto simp: patches_reached_def dest: Mapping.in_entriesD)
    then obtain c where c: "c \<in> set (gseg_conditions s)" "AC_activated c = p"
      using reached unfolding patches_reached_def by (metis keys_is_none_rep option.simps(3) is_none_simps(2))
    have groups: "validate_groups closure info G (ac_conditions c) = Ok ()"
      using validate_conditions_ok [OF v(3) c(1)] l c(2) by auto
    have "AC_activates c T"
      unfolding AC_activates_def activates_def
    proof
      fix S assume "S \<in> set (ac_conditions c)"
      from HasAdditionalConditions_False [OF mono wf full dis validate_groups_ok [OF groups this] T] g pG(2)
      show "members S \<inter> T \<noteq> {}" by blast
    qed
    then show ?thesis using c l pG(2) unfolding loaded_def by auto
  qed simp
qed

section \<open>The finished segmentation\<close>

lemma segmentation_loop_init:
  "segmentation_loop fb es (p, s) = Some (p', s') \<Longrightarrow>
    gseg_init_font_glyph_closure s' = gseg_init_font_glyph_closure s \<and> gseg_segments s' = gseg_segments s"
proof (induction es arbitrary: p s)
  case (Cons e es)
  obtain c G where e: "e = (c, G)" by (cases e)
  from Cons.prems obtain q t where t: "segmentation_step fb e (p, s) = Some (q, t)" "segmentation_loop fb es (q, t) = Some (p', s')"
    by (auto simp: bind_eq_Some_conv)
  have "gseg_init_font_glyph_closure t = gseg_init_font_glyph_closure s \<and> gseg_segments t = gseg_segments s"
    using t(1) unfolding e by (cases "final_condition fb p c") (auto simp: Let_def split: if_splits)
  with Cons.IH [OF t(2)] show ?case by simp
qed simp

lemma ConditionsToSegmentation_init:
  assumes "ConditionsToSegmentation conditions fb s = Some s'"
  shows "gseg_init_font_glyph_closure s' = gseg_init_font_glyph_closure s \<and> gseg_segments s' = gseg_segments s"
proof -
  from assms obtain r where r: "segmentation_loop fb conditions (0, s\<lparr>gseg_patches := Mapping.empty, gseg_conditions := []\<rparr>) = Some r" "snd r = s'"
    unfolding ConditionsToSegmentation_def map_option_eq_Some by blast
  obtain p t where "r = (p, t)" by (cases r)
  with segmentation_loop_init [of fb conditions 0 "s\<lparr>gseg_patches := Mapping.empty, gseg_conditions := []\<rparr>" p t] r show ?thesis by simp
qed

lemma GG_ToGlyphSegmentation_init:
  assumes "GG_ToGlyphSegmentation info g = Some s"
  shows "patches_reached s" "gseg_init_font_glyph_closure s = InitFontGlyphs info" "gseg_segments s = SegmentSubsetDefinitions info"
  using assms ConditionsToSegmentation_reached ConditionsToSegmentation_init
  unfolding GG_ToGlyphSegmentation_def Let_def by (fastforce simp: CopySegments_def GlyphSegmentation_def)+

lemma SC_ToGlyphSegmentation_requirement:
  assumes "closure_monotone closure" "info_wf (sc_info c)" "full_ok closure (sc_info c)" "disjoint_ok (sc_info c)"
    and run: "SC_ToGlyphSegmentation closure c = Ok s" and T: "T \<subseteq> {..<length (si_segments (sc_info c))}"
  shows "needs closure (sc_info c) T \<subseteq> members (InitFontGlyphs (sc_info c)) \<union> loaded s T"
proof -
  from run have g: "GG_ToGlyphSegmentation (sc_info c) (sc_groupings c) = Some s"
    and v: "ValidateSegmentation closure (sc_info c) s = Ok ()"
    by (auto simp: SC_ToGlyphSegmentation_def OTRY_eq_Ok split: option.splits)
  from Validate_closure_requirement [OF assms(1-4) GG_ToGlyphSegmentation_init(1,2) [OF g] v T] show ?thesis .
qed

text \<open>No phase but a new initial subset and a merge changes the segmentation information.\<close>

lemma on_groupings_info: "on_groupings f c = Some (d, r) \<Longrightarrow> sc_info d = sc_info c"
  by (auto simp: on_groupings_def)

lemma on_glyph_conditions_info: "on_glyph_conditions f c = Some (d, r) \<Longrightarrow> sc_info d = sc_info c"
  by (auto simp: on_glyph_conditions_def)

lemma on_dependency_info: "on_dependency f x c = Some (d, r) \<Longrightarrow> sc_info d = sc_info c"
  by (auto simp: on_dependency_def)

lemma set_inert_info [simp]: "sc_info (set_inert s A P c) = sc_info c"
  by (simp add: set_inert_def)

lemma closure_analysis_info: "closure_analysis closure S mode dep gids c = Some (d, r) \<Longrightarrow> sc_info d = sc_info c"
  unfolding closure_analysis_def
  by (auto simp: st_read_def split: if_splits prod.splits elim!: st_bind_keeps [where P = "\<lambda>x. sc_info x = sc_info c"])

lemma SC_AnalyzeSegment_info: "SC_AnalyzeSegment ops closure S gids c = Some (d, r) \<Longrightarrow> sc_info d = sc_info c"
  unfolding SC_AnalyzeSegment_def
  by (auto split: option.splits prod.splits dest: closure_analysis_info on_dependency_info
    elim!: st_bind_keeps [where P = "\<lambda>x. sc_info x = sc_info c"])

lemma ReprocessSegment_info: "ReprocessSegment ops closure i c = Some (d, r) \<Longrightarrow> sc_info d = sc_info c"
  unfolding ReprocessSegment_def add_conditions_def
  by (auto simp: Let_def split: if_splits prod.splits dest: SC_AnalyzeSegment_info on_glyph_conditions_info
    elim!: st_bind_keeps [where P = "\<lambda>x. sc_info x = sc_info c"])

lemma ReprocessSegments_info: "ReprocessSegments ops closure ss c = Some (d, r) \<Longrightarrow> sc_info d = sc_info c"
proof (induction ss arbitrary: c d r)
  case (Cons s ss c d r)
  from Cons.prems have "st_bind (ReprocessSegment ops closure s c) (\<lambda>_. ReprocessSegments ops closure ss) = Some (d, r)" by simp
  then show ?case
  proof (rule st_bind_keeps [where P = "\<lambda>x. sc_info x = sc_info c"])
    show "sc_info t = sc_info c" if "sc_info u = sc_info c" "ReprocessSegments ops closure ss u = Some (t, r)" for u x t r
      using Cons.IH [OF that(2)] that(1) by simp
  qed (rule ReprocessSegment_info)
qed simp

lemma Transfer_info: "TransferDependencyGraphGlyphConditions ops gids c = Some (d, r) \<Longrightarrow> sc_info d = sc_info c"
  unfolding TransferDependencyGraphGlyphConditions_def
  by (auto split: option.splits dest: on_glyph_conditions_info elim!: st_bind_keeps [where P = "\<lambda>x. sc_info x = sc_info c"])

lemma ReprocessAll_info:
  assumes "ReprocessAll ops closure c = Some (d, r)"
  shows "sc_info d = sc_info c"
  using assms unfolding ReprocessAll_def
proof (rule st_bind_keeps [where P = "\<lambda>x. sc_info x = sc_info c"])
  show "sc_info s = sc_info c" if "(if \<not> IsPureDepGraphAnalysisMode (sc_mode c)
      then ReprocessSegments ops closure [0..<length (si_segments (sc_info c))] c
      else if \<not> do_available ops then Some (c, Inl InternalError)
      else TransferDependencyGraphGlyphConditions ops (NonInitFontGlyphs (sc_info c)) c) = Some (s, q)" for s q
    using that by (auto split: if_splits dest: ReprocessSegments_info Transfer_info)
  show "sc_info t = sc_info c" if "sc_info s = sc_info c"
    "SC_GroupGlyphs ops closure (NonInitFontGlyphs (sc_info s)) IntSet_empty s = Some (t, r)" for s x t r
    using that on_groupings_info unfolding SC_GroupGlyphs_def by metis
qed

section \<open>Segmentation information that the context creates\<close>

definition same_but_codepoints :: "subset_definition \<Rightarrow> subset_definition \<Rightarrow> bool" where
  "same_but_codepoints d e \<longleftrightarrow> sd_gids d = sd_gids e \<and> sd_feature_tags d = sd_feature_tags e \<and> sd_design_space d = sd_design_space e"

definition subtracted :: "nat set \<Rightarrow> segmentation_info \<Rightarrow> segmentation_info \<Rightarrow> bool" where
  "subtracted I info info' \<longleftrightarrow> length (si_segments info') = length (si_segments info) \<and>
     si_init_font_segment info' = si_init_font_segment info \<and> si_full_definition info' = si_full_definition info \<and>
     si_full_closure info' = si_full_closure info \<and>
     (\<forall>s < length (si_segments info). same_but_codepoints (seg_def (si_segments info') s) (seg_def (si_segments info) s) \<and>
        members (sd_codepoints (seg_def (si_segments info') s)) = members (sd_codepoints (seg_def (si_segments info) s)) -
          (if s \<in> I then members (sd_codepoints (si_init_font_segment info)) else {}))"

lemma subtract_init_subtracted: "i < length (si_segments info) \<Longrightarrow> subtracted {i} info (subtract_init i info)"
  by (auto simp: subtracted_def subtract_init_def same_but_codepoints_def set_segment_def remove_from_index_def seg_codepoints_def
      nth_list_update Let_def)

lemma subtracted_trans: "subtracted I a b \<Longrightarrow> subtracted J b c \<Longrightarrow> subtracted (I \<union> J) a c"
  unfolding subtracted_def same_but_codepoints_def by (intro conjI allI impI) auto

lemma fold_subtract_init: "set ss \<subseteq> {..<length (si_segments info)} \<Longrightarrow> subtracted (set ss) info (fold subtract_init ss info)"
proof (induction ss arbitrary: info)
  case Nil
  show ?case by (simp add: subtracted_def same_but_codepoints_def)
next
  case (Cons s ss)
  have s: "subtracted {s} info (subtract_init s info)" using Cons.prems by (intro subtract_init_subtracted) simp
  then have "set ss \<subseteq> {..<length (si_segments (subtract_init s info))}" using Cons.prems by (simp add: subtracted_def)
  from subtracted_trans [OF s Cons.IH [OF this]] show ?case by simp
qed

text \<open>The union of all segments.\<close>

lemma union_all:
  assumes "\<forall>s \<in> set ss. sd_wf (seg_definition s)" and "sd_wf d"
  shows "sd_wf (fold (\<lambda>s d. SD_Union d (seg_definition s)) ss d) \<and> sd_le d (fold (\<lambda>s d. SD_Union d (seg_definition s)) ss d) \<and>
    (\<forall>s \<in> set ss. sd_le (seg_definition s) (fold (\<lambda>s d. SD_Union d (seg_definition s)) ss d))"
  using assms
proof (induction ss arbitrary: d)
  case (Cons s ss)
  have w: "sd_wf (seg_definition s)" "sd_wf d" "sd_wf (SD_Union d (seg_definition s))" using Cons.prems by simp_all
  from Cons.IH [OF _ w(3)] Cons.prems sd_le_Union [OF w(2,1)] sd_le_trans show ?case by auto
qed (simp add: sd_le_refl)

lemma ds_wf_Nil [simp]: "ds_wf []"
  by (simp add: ds_wf_def ds_sorted_def)

text \<open>What \<^verbatim>\<open>CheckSegmentsAreDisjoint\<close> finds out.\<close>

definition apart :: "subset_definition \<Rightarrow> subset_definition \<Rightarrow> bool" where
  "apart a b \<longleftrightarrow> members (sd_codepoints a) \<inter> members (sd_codepoints b) = {} \<and> set (sd_feature_tags a) \<inter> set (sd_feature_tags b) = {}"

lemma apart_Union: "apart (SD_Union a b) c \<longleftrightarrow> apart a c \<and> apart b c"
  by (auto simp: apart_def SD_Union_def set_fold_ins_sorted)

lemma fst_fold_disjoint: "fst (fold disjoint_step ss (b, d)) \<Longrightarrow> b"
proof (induction ss arbitrary: b d)
  case (Cons s ss)
  then show ?case by (auto simp: disjoint_step_def Let_def)
qed simp

lemma disjoint_segments:
  "fst (fold disjoint_step ss (True, d)) \<Longrightarrow> (\<forall>s \<in> set ss. apart d (seg_definition s)) \<and>
    (\<forall>i < length ss. \<forall>j < length ss. i \<noteq> j \<longrightarrow> apart (seg_definition (ss ! i)) (seg_definition (ss ! j)))"
proof (induction ss arbitrary: d)
  case (Cons s ss)
  obtain b where b: "fold disjoint_step (s # ss) (True, d) = fold disjoint_step ss (b, SD_Union d (seg_definition s))"
    "b \<longleftrightarrow> \<not> list_ex (List.member (sd_feature_tags d)) (sd_feature_tags (seg_definition s)) \<and>
      \<not> IntSet_intersects (sd_codepoints d) (sd_codepoints (seg_definition s))" by (simp add: disjoint_step_def Let_def)
  have b1: b using fst_fold_disjoint [of ss b "SD_Union d (seg_definition s)"] Cons.prems b(1) by simp
  have ds: "apart d (seg_definition s)" using b1 b(2) by (auto simp: apart_def list_ex_iff List.member_iff)
  from Cons.IH [of "SD_Union d (seg_definition s)"] Cons.prems b(1) b1
  have ih: "\<forall>t \<in> set ss. apart d (seg_definition t) \<and> apart (seg_definition s) (seg_definition t)"
    "\<forall>i < length ss. \<forall>j < length ss. i \<noteq> j \<longrightarrow> apart (seg_definition (ss ! i)) (seg_definition (ss ! j))"
    by (auto simp: apart_Union)
  have "apart (seg_definition ((s # ss) ! i)) (seg_definition ((s # ss) ! j))"
    if "i < length (s # ss)" "j < length (s # ss)" "i \<noteq> j" for i j
    using that ih by (cases i; cases j) (auto simp: apart_def)
  then show ?case using ds ih(1) by auto
qed simp

text \<open>The segments given to the context: well formed, and without glyphs and axis ranges where disjointness matters.\<close>

definition plain_segments :: "segment list \<Rightarrow> bool" where
  "plain_segments segments \<longleftrightarrow> (\<forall>s \<in> set segments. sd_wf (seg_definition s) \<and> sd_design_space (seg_definition s) = [] \<and>
     members (sd_gids (seg_definition s)) = {})"

lemma Create_ok:
  assumes mono: "closure_monotone closure"
    and cps: "\<And>A B. members A \<subseteq> members B \<Longrightarrow> members (codepoints_for A) \<subseteq> members (codepoints_for B)"
    and segments: "plain_segments segments" and init: "sd_wf init"
    and run: "SegmentationInfo_Create closure codepoints_for segments init handling = Inr info"
  shows "info_wf info \<and> full_ok closure info \<and> disjoint_ok info \<and> length (si_segments info) = length segments"
proof -
  let ?full = "fold (\<lambda>s d. SD_Union d (seg_definition s)) segments init"
  obtain e where e: "ExpandClosure closure codepoints_for init = Inr e" "sd_le init e" "sd_feature_tags e = sd_feature_tags init"
    "sd_design_space e = sd_design_space init"
    using ExpandClosure_spec [of closure codepoints_for init, OF mono] cps by blast
  obtain gids where gids: "closure (SD_Union ?full e) = Inr gids" using closure_monotone_defined [OF mono] by blast
  let ?i = "(SegmentationInfo segments init handling)\<lparr>si_init_font_segment := e, si_full_definition := SD_Union ?full e,
    si_full_closure := gids, si_full_codepoint_closure := codepoints_for gids\<rparr>"
  let ?j = "fold subtract_init [0..<length segments] ?i"
  have "ReassignInitSubset closure codepoints_for init (SegmentationInfo segments init handling) = Inr ?j"
    using e(1) gids by (simp add: ReassignInitSubset_def SegmentationInfo_def Let_def)
  then have info: "info = ?j\<lparr>si_segments_disjoint := CheckSegmentsAreDisjoint init (si_segments ?j)\<rparr>"
    using run by (simp add: SegmentationInfo_Create_def)
  have "subtracted (set [0..<length segments]) ?i ?j" by (rule fold_subtract_init) (auto simp: SegmentationInfo_def)
  then have j: "length (si_segments ?j) = length segments" "si_init_font_segment ?j = e" "si_full_definition ?j = SD_Union ?full e"
    "si_full_closure ?j = gids"
    "\<And>s. s < length segments \<Longrightarrow> same_but_codepoints (seg_def (si_segments ?j) s) (seg_def segments s) \<and>
      members (sd_codepoints (seg_def (si_segments ?j) s)) = members (sd_codepoints (seg_def segments s)) - members (sd_codepoints e)"
    unfolding subtracted_def by (simp_all add: SegmentationInfo_def)
  have seg: "sd_wf (seg_def segments s) \<and> sd_design_space (seg_def segments s) = [] \<and> members (sd_gids (seg_def segments s)) = {}"
    if "s < length segments" for s using segments nth_mem [OF that] unfolding plain_segments_def by blast
  have ewf: "sd_wf e" using e(4) init by simp
  have "\<forall>s \<in> set segments. sd_wf (seg_definition s)" using segments unfolding plain_segments_def by blast
  note all = union_all [OF this init]
  have U: "sd_wf (SD_Union ?full e)" "sd_le ?full (SD_Union ?full e)" "sd_le e (SD_Union ?full e)"
    using all ewf sd_le_Union by auto
  have le: "sd_le (seg_def (si_segments ?j) s) (SD_Union ?full e)" if "s < length segments" for s
  proof -
    have "sd_le (seg_def (si_segments ?j) s) (seg_def segments s)" using j(5) [OF that] by (auto simp: sd_le_def same_but_codepoints_def)
    moreover have "sd_le (seg_def segments s) ?full" using all that by auto
    ultimately show ?thesis using U(2) sd_le_trans by blast
  qed
  have wf: "info_wf info"
    using ewf j(1,2) j(5) seg by (auto simp: info info_wf_def segments_wf_def same_but_codepoints_def in_set_conv_nth)
  have full: "full_ok closure info" using gids j(1-4) U(3) le by (auto simp: full_ok_def info)
  have "disjoint_ok info"
    unfolding disjoint_ok_def
  proof (intro impI conjI allI)
    assume "si_segments_disjoint info"
    then have "fst (fold disjoint_step (si_segments ?j) (True, init))" by (simp add: info CheckSegmentsAreDisjoint_def)
    note dis = disjoint_segments [OF this]
    show "sd_wf (si_full_definition info)" using U(1) j(3) by (simp add: info)
    fix s assume "s < length (si_segments info)"
    then have s: "s < length segments" using j(1) by (simp add: info)
    note js = j(5) [OF s] seg [OF s]
    show "sd_design_space (seg_def (si_segments info) s) = []" using js by (simp add: info same_but_codepoints_def)
    have "apart init (seg_def (si_segments ?j) s)" using dis s j(1) by auto
    then show "\<not> shares (si_init_font_segment info) (seg_def (si_segments info) s)"
      using js e(3) j(2) by (auto simp: shares_def apart_def info same_but_codepoints_def)
    fix t assume "t < length (si_segments info)" "t \<noteq> s"
    then have "apart (seg_def (si_segments ?j) t) (seg_def (si_segments ?j) s)" using dis s j(1) by (simp add: info)
    then show "\<not> shares (seg_def (si_segments info) t) (seg_def (si_segments info) s)"
      using js by (auto simp: shares_def apart_def info same_but_codepoints_def)
  qed
  then show ?thesis using wf full j(1) by (simp add: info)
qed

end
