(* ===== verification/Complex_Search.thy ===== *)
theory Complex_Search
  imports Complex_Conditions "HOL-Library.Multiset"
begin

text \<open>
  Why the search for complex conditions ends, and what it finds: a set of segments that meets every
  set of segments that needs the glyph.
\<close>

section \<open>What the search relies on\<close>

definition search_ok :: "finder \<Rightarrow> bool" where
  "search_ok f \<longleftrightarrow> closure_monotone (fi_closure f) \<and> info_wf (fi_info f) \<and>
     length (si_segments (fi_info f)) \<le> UINT32_MAX \<and>
     members (fi_all_segments f) \<subseteq> {..<length (si_segments (fi_info f))} \<and>
     (\<forall>s < length (si_segments (fi_info f)). sd_design_space (seg_def (si_segments (fi_info f)) s) = []) \<and>
     (\<exists>I. fi_closure f (si_init_font_segment (fi_info f)) = Inr I \<and> members I \<subseteq> members (InitFontGlyphs (fi_info f)))"

lemma search_okD:
  assumes "search_ok f"
  shows "closure_monotone (fi_closure f)" "info_wf (fi_info f)" "length (si_segments (fi_info f)) \<le> UINT32_MAX"
    "members (fi_all_segments f) \<subseteq> {..<length (si_segments (fi_info f))}"
    "\<And>s. s < length (si_segments (fi_info f)) \<Longrightarrow> sd_design_space (seg_def (si_segments (fi_info f)) s) = []"
    "\<exists>I. fi_closure f (si_init_font_segment (fi_info f)) = Inr I \<and> members I \<subseteq> members (InitFontGlyphs (fi_info f))"
  using assms unfolding search_ok_def by blast+

abbreviation needed :: "finder \<Rightarrow> nat set \<Rightarrow> nat set" where
  "needed f T \<equiv> needs (fi_closure f) (fi_info f) T"

abbreviation fseg :: "finder \<Rightarrow> segment_index \<Rightarrow> subset_definition" where
  "fseg f s \<equiv> seg_def (si_segments (fi_info f)) s"

text \<open>A definition without the segments \<open>T\<close> has no more than the initial font.\<close>

definition bounded_by :: "finder \<Rightarrow> nat set \<Rightarrow> subset_definition \<Rightarrow> bool" where
  "bounded_by f T d \<longleftrightarrow> sd_wf d \<and>
     members (sd_codepoints d) \<subseteq> members (sd_codepoints (si_init_font_segment (fi_info f))) \<union> (\<Union>s \<in> T. members (sd_codepoints (fseg f s))) \<and>
     members (sd_gids d) \<subseteq> members (sd_gids (si_init_font_segment (fi_info f))) \<union> (\<Union>s \<in> T. members (sd_gids (fseg f s))) \<and>
     set (sd_feature_tags d) \<subseteq> set (sd_feature_tags (si_init_font_segment (fi_info f))) \<union> (\<Union>s \<in> T. set (sd_feature_tags (fseg f s))) \<and>
     (\<forall>t. ds_points t (sd_design_space d) \<subseteq> ds_points t (sd_design_space (si_init_font_segment (fi_info f))))"

lemma SegmentClosure_defined:
  assumes ok: "search_ok f" and S: "members S \<subseteq> members (fi_all_segments f)"
  shows "\<exists>G. SegmentClosure (fi_closure f) (fi_info f) S = Ok G \<and> members G = needed f (members S)"
proof -
  obtain d where d: "CombinedDefinition (fi_info f) S = Some d"
    using CombinedDefinition_defined [of S "fi_info f"] S search_okD(4) [OF ok] by blast
  obtain G where "fi_closure f d = Inr G" using closure_monotone_defined [OF search_okD(1) [OF ok]] by blast
  then have "SegmentClosure (fi_closure f) (fi_info f) S = Ok G" using d by (simp add: SegmentClosure_def)
  with needs_eq [OF this] show ?thesis by blast
qed

lemma CombinedDefinition_bounded:
  assumes ok: "search_ok f" and S: "members S \<subseteq> members (fi_all_segments f)"
  shows "\<exists>d. CombinedDefinition (fi_info f) S = Some d \<and> bounded_by f (members S) d"
proof -
  obtain d where d: "CombinedDefinition (fi_info f) S = Some d"
    using CombinedDefinition_defined [of S "fi_info f"] S search_okD(4) [OF ok] by blast
  then obtain e where e: "UnionSegments (si_segments (fi_info f)) (to_vector S) (SubsetDefinition []) = Some e"
    "d = SD_Union e (si_init_font_segment (fi_info f))" by (auto simp: CombinedDefinition_def)
  let ?init = "si_init_font_segment (fi_info f)"
  note u = UnionSegments_fields [OF e(1)]
  have "sd_design_space e = []"
    using u(4) search_okD(4,5) [OF ok] S by (auto simp: SubsetDefinition_def)
  moreover have wf: "sd_wf ?init" using search_okD(2) [OF ok] by (simp add: info_wf_def)
  moreover have "sd_wf e" using calculation(1) by (simp add: ds_wf_def ds_sorted_def)
  moreover note f = SD_Union_fields [OF \<open>sd_wf e\<close> wf]
  have pts: "ds_points t (sd_design_space d) \<subseteq> ds_points t (sd_design_space ?init)" for t
  proof
    fix x assume "x \<in> ds_points t (sd_design_space d)"
    then obtain y z where yz: "y \<in> ds_points t (sd_design_space ?init)" "z \<in> ds_points t (sd_design_space ?init)" "y \<le> x" "x \<le> z"
      unfolding e(2) f(4) using calculation(1) by (auto simp: ds_points_def ds_find_def)
    then show "x \<in> ds_points t (sd_design_space ?init)" using points_convex by blast
  qed
  have "bounded_by f (members S) d"
    unfolding bounded_by_def using pts wf \<open>sd_wf e\<close>
    by (auto simp: e(2) f(1-3) u(1-3) SubsetDefinition_def IntSet_insert_all_def)
  with d show ?thesis by blast
qed

lemma bounded_by_Subtract:
  assumes ok: "search_ok f" and w: "bounded_by f (insert s T) d" and s: "s \<in> members (fi_all_segments f)"
  shows "bounded_by f T (SD_Subtract d (fseg f s))"
proof -
  have len: "s < length (si_segments (fi_info f))" using s search_okD(4) [OF ok] by blast
  have ds: "sd_design_space (fseg f s) = []" by (rule search_okD(5) [OF ok len])
  have wf: "sd_wf d" "ds_wf []" using w by (simp_all add: bounded_by_def ds_wf_def ds_sorted_def)
  have "ds_sorted (sd_design_space d)" "ds_sorted []" using wf by (simp_all add: ds_wf_def)
  from subtract_fold [OF this, of "[]"] have sub: "ds_sorted (subtract_design_space (sd_design_space d) [])"
    "\<And>t. ds_find t (subtract_design_space (sd_design_space d) []) = ds_find t (sd_design_space d)"
    by (auto simp: subtract_design_space_def ds_find_def split: option.splits)
  have "ds_wf (subtract_design_space (sd_design_space d) [])"
    by (rule ds_wfI [OF sub(1)]) (use sub(2) ds_find_wf [OF wf(1)] in auto)
  moreover have "ds_points t (subtract_design_space (sd_design_space d) []) = ds_points t (sd_design_space d)" for t
    by (simp add: ds_points_def sub(2))
  ultimately show ?thesis using w unfolding bounded_by_def
    by (auto simp: SD_Subtract_def set_subtract_sets ds)
qed

lemma bounded_by_init_closure:
  assumes ok: "search_ok f" and w: "bounded_by f {} d" and c: "fi_closure f d = Inr G"
  shows "members G \<subseteq> members (InitFontGlyphs (fi_info f))"
proof -
  obtain I where I: "fi_closure f (si_init_font_segment (fi_info f)) = Inr I" "members I \<subseteq> members (InitFontGlyphs (fi_info f))"
    using search_okD(6) [OF ok] by blast
  have "sd_le d (si_init_font_segment (fi_info f))" using w by (simp add: bounded_by_def sd_le_def)
  from closure_monotoneD [OF search_okD(1) [OF ok] this c I(1)] I(2) show ?thesis by blast
qed

section \<open>Tasks\<close>

definition task_ok :: "finder \<Rightarrow> task \<Rightarrow> bool" where
  "task_ok f t \<longleftrightarrow> members (tk_full_condition t) \<subseteq> members (fi_all_segments f) \<and>
     members (tk_sub_condition t) \<union> members (tk_to_be_tested t) \<subseteq> members (fi_all_segments f) - members (tk_full_condition t) \<and>
     members (tk_glyphs t) \<inter> members (InitFontGlyphs (fi_info f)) = {} \<and>
     bounded_by f (members (tk_sub_condition t) \<union> members (tk_to_be_tested t)) (tk_subset_definition t) \<and>
     (members (tk_sub_condition t) = {} \<and> members (tk_to_be_tested t) = {} \<longrightarrow> members (tk_glyphs t) = {} \<or>
        (members (fi_all_segments f) - members (tk_full_condition t)) \<inter> members (fi_inscope_segments f) = {})"

lemma CreateTask_ok:
  assumes ok: "search_ok f" and full: "members full \<subseteq> members (fi_all_segments f)"
    and tbt: "members tbt = (members (fi_all_segments f) - members full) \<inter> members (fi_inscope_segments f)"
    and glyphs: "members glyphs \<inter> members (InitFontGlyphs (fi_info f)) = {}"
  shows "\<exists>t. CreateTask f full IntSet_empty tbt glyphs = Some t \<and> task_ok f t \<and> tk_full_condition t = full \<and> tk_glyphs t = glyphs"
proof -
  have "members (IntSet_union_set IntSet_empty tbt) \<subseteq> members (fi_all_segments f)" using tbt by auto
  from CombinedDefinition_bounded [OF ok this] obtain d where
    d: "CombinedDefinition (fi_info f) (IntSet_union_set IntSet_empty tbt) = Some d" "bounded_by f (members tbt) d" by auto
  then show ?thesis using full tbt glyphs by (auto simp: CreateTask_def task_ok_def)
qed

text \<open>Both outcomes of a test are tasks for part of the glyphs, with less to test.\<close>

lemma CreateSubTask_keep:
  assumes t: "task_ok f t" and s: "s \<in> members (tk_to_be_tested t)" and g: "members glyphs \<subseteq> members (tk_glyphs t)"
  shows "\<exists>u. CreateSubTask f t glyphs s True = Some u \<and> task_ok f u \<and> tk_full_condition u = tk_full_condition t \<and>
    tk_glyphs u = glyphs \<and> members (tk_to_be_tested u) = members (tk_to_be_tested t) - {s}"
proof -
  have s32: "s < UINT32_MAX" using s members_bound by auto
  have e: "members (fst (IntSet_erase s (tk_to_be_tested t))) = members (tk_to_be_tested t) - {s}" by (auto simp: IntSet_erase_def)
  have "insert s (members (tk_sub_condition t)) \<union> (members (tk_to_be_tested t) - {s}) =
      members (tk_sub_condition t) \<union> members (tk_to_be_tested t)" using s by auto
  then show ?thesis using t s s32 g e by (auto simp: CreateSubTask_def task_ok_def)
qed

lemma CreateSubTask_drop:
  assumes ok: "search_ok f" and t: "task_ok f t" and s: "s \<in> members (tk_to_be_tested t)"
    and c: "fi_closure f (SD_Subtract (tk_subset_definition t) (fseg f s)) = Inr G"
    and g: "members glyphs = members (tk_glyphs t) \<inter> members G"
  shows "\<exists>u. CreateSubTask f t glyphs s False = Some u \<and> task_ok f u \<and> tk_full_condition u = tk_full_condition t \<and>
    tk_glyphs u = glyphs \<and> members (tk_to_be_tested u) = members (tk_to_be_tested t) - {s}"
proof -
  let ?u = "t\<lparr>tk_to_be_tested := fst (IntSet_erase s (tk_to_be_tested t)), tk_glyphs := glyphs,
    tk_subset_definition := SD_Subtract (tk_subset_definition t) (fseg f s)\<rparr>"
  have e: "members (fst (IntSet_erase s (tk_to_be_tested t))) = members (tk_to_be_tested t) - {s}" by (auto simp: IntSet_erase_def)
  have sa: "s \<in> members (fi_all_segments f)" using t s by (auto simp: task_ok_def)
  then have len: "s < length (si_segments (fi_info f))" using search_okD(4) [OF ok] by blast
  have run: "CreateSubTask f t glyphs s False = Some ?u" using len by (simp add: CreateSubTask_def segment_definition_def)
  have "bounded_by f (insert s (members (tk_sub_condition t) \<union> (members (tk_to_be_tested t) - {s}))) (tk_subset_definition t)"
  proof -
    have "insert s (members (tk_sub_condition t) \<union> (members (tk_to_be_tested t) - {s})) =
        members (tk_sub_condition t) \<union> members (tk_to_be_tested t)" using s by auto
    then show ?thesis using t by (simp only: task_ok_def)
  qed
  from bounded_by_Subtract [OF ok this sa]
  have w: "bounded_by f (members (tk_sub_condition t) \<union> (members (tk_to_be_tested t) - {s})) (tk_subset_definition ?u)" by simp
  have "members glyphs = {}" if "members (tk_sub_condition t) = {}" "members (tk_to_be_tested t) - {s} = {}"
    using bounded_by_init_closure [OF ok _ c] w that g t by (auto simp: task_ok_def)
  then have "task_ok f ?u" using t w e g by (auto simp: task_ok_def)
  with run e show ?thesis by auto
qed

section \<open>One round\<close>

definition found :: "glyph_map \<Rightarrow> nat \<Rightarrow> nat set" where
  "found m g = members (Mapping.lookup_default IntSet_empty m g)"

lemma found_add: "found (fold (add_condition S) gs m) g = found m g \<union> (if g \<in> set gs then members S else {})"
proof (induction gs arbitrary: m)
  case (Cons h gs)
  have "found (add_condition S h m) g = found m g \<union> (if g = h then members S else {})"
    by (simp add: found_def add_condition_def Mapping.lookup_default_update')
  with Cons [of "add_condition S h m"] show ?case by auto
qed simp

lemma keys_add: "Mapping.keys (fold (add_condition S) gs m) = set gs \<union> Mapping.keys m"
  by (induction gs arbitrary: m) (auto simp: add_condition_def)

text \<open>
  A glyph is still looked at by a task that excludes no more than was found for it, or it is not
  needed without what was found.
\<close>

definition tracked :: "finder \<Rightarrow> nat set \<Rightarrow> task list \<Rightarrow> glyph_map \<Rightarrow> bool" where
  "tracked f G queue m \<longleftrightarrow> (\<forall>g \<in> G.
     (\<exists>t \<in> set queue. g \<in> members (tk_glyphs t) \<and> members (tk_full_condition t) \<subseteq> found m g) \<or>
     (\<exists>F \<subseteq> found m g. g \<notin> needed f (members (fi_all_segments f) - F)))"

definition found_ok :: "finder \<Rightarrow> glyph_map \<Rightarrow> bool" where
  "found_ok f m \<longleftrightarrow> finite (Mapping.keys m) \<and> (\<forall>g. found m g \<subseteq> members (fi_all_segments f))"

definition task_measure :: "finder \<Rightarrow> task \<Rightarrow> nat \<times> nat" where
  "task_measure f t = (if members (tk_glyphs t) = {} then (0, 0)
     else (Suc (card (members (fi_all_segments f) - members (tk_full_condition t))), card (members (tk_to_be_tested t))))"

definition round_ok :: "finder \<Rightarrow> nat set \<Rightarrow> task \<Rightarrow> task list \<Rightarrow> task list \<times> glyph_map \<Rightarrow> bool" where
  "round_ok f G t rest = (\<lambda>(queue, m). \<exists>new. queue = new @ rest \<and> list_all (task_ok f) new \<and> tracked f G queue m \<and> found_ok f m \<and>
     (\<forall>u \<in> set new. (task_measure f u, task_measure f t) \<in> less_than <*lex*> less_than))"

text \<open>The new tasks take over the glyphs of the old one.\<close>

lemma tracked_replace:
  assumes tr: "tracked f G (t # rest) m" and m: "\<And>g. found m g \<subseteq> found m' g"
    and new: "\<And>g. g \<in> members (tk_glyphs t) \<Longrightarrow> members (tk_full_condition t) \<subseteq> found m g \<Longrightarrow>
      (\<exists>u \<in> set new. g \<in> members (tk_glyphs u) \<and> members (tk_full_condition u) \<subseteq> found m' g) \<or>
      (\<exists>F \<subseteq> found m' g. g \<notin> needed f (members (fi_all_segments f) - F))"
  shows "tracked f G (new @ rest) m'"
  unfolding tracked_def
proof
  fix g assume "g \<in> G"
  with tr consider (task) "g \<in> members (tk_glyphs t)" "members (tk_full_condition t) \<subseteq> found m g"
    | (rest) u where "u \<in> set rest" "g \<in> members (tk_glyphs u)" "members (tk_full_condition u) \<subseteq> found m g"
    | (resolved) F where "F \<subseteq> found m g" "g \<notin> needed f (members (fi_all_segments f) - F)"
    unfolding tracked_def by auto
  then show "(\<exists>t \<in> set (new @ rest). g \<in> members (tk_glyphs t) \<and> members (tk_full_condition t) \<subseteq> found m' g) \<or>
     (\<exists>F \<subseteq> found m' g. g \<notin> needed f (members (fi_all_segments f) - F))"
  proof cases
    case task
    from new [OF this] show ?thesis by auto
  next
    case rest
    with m [of g] show ?thesis by (intro disjI1 bexI [of _ u]) auto
  next
    case resolved
    with m [of g] show ?thesis by blast
  qed
qed

lemma round_test:
  assumes ok: "search_ok f" and t: "task_ok f t" and ne: "members (tk_glyphs t) \<noteq> {}"
    and s: "IntSet_min (tk_to_be_tested t) = Some s" and tr: "tracked f G (t # rest) m" and m: "found_ok f m"
  shows "\<exists>r. RunAnalysisTask f t (rest, m) = Ok r \<and> round_ok f G t rest r"
proof -
  have st: "s \<in> members (tk_to_be_tested t)" by (rule IntSet_min_member [OF s])
  have "s \<in> members (fi_all_segments f)" using t st by (auto simp: task_ok_def)
  then have d: "segment_definition f s = Some (fseg f s)"
    using search_okD(4) [OF ok] by (auto simp: segment_definition_def)
  obtain C where C: "fi_closure f (SD_Subtract (tk_subset_definition t) (fseg f s)) = Inr C"
    using closure_monotone_defined [OF search_okD(1) [OF ok]] by blast
  obtain u where u: "CreateSubTask f t (IntSet_intersect (tk_glyphs t) C) s False = Some u" "task_ok f u"
    "tk_full_condition u = tk_full_condition t" "tk_glyphs u = IntSet_intersect (tk_glyphs t) C"
    "members (tk_to_be_tested u) = members (tk_to_be_tested t) - {s}"
    using CreateSubTask_drop [OF ok t st C, of "IntSet_intersect (tk_glyphs t) C"] by auto
  obtain v where v: "CreateSubTask f t (IntSet_subtract (tk_glyphs t) C) s True = Some v" "task_ok f v"
    "tk_full_condition v = tk_full_condition t" "tk_glyphs v = IntSet_subtract (tk_glyphs t) C"
    "members (tk_to_be_tested v) = members (tk_to_be_tested t) - {s}"
    using CreateSubTask_keep [OF t st, of "IntSet_subtract (tk_glyphs t) C"] by auto
  have run: "RunAnalysisTask f t (rest, m) = Ok (v # u # rest, m)"
    using ne s d C u(1) v(1) by (simp add: RunAnalysisTask_def push_def)
  have card: "card (members (tk_to_be_tested t) - {s}) < card (members (tk_to_be_tested t))"
    by (rule card_Diff1_less [OF finite_members st])
  have less: "(task_measure f w, task_measure f t) \<in> less_than <*lex*> less_than"
    if "tk_full_condition w = tk_full_condition t" "members (tk_to_be_tested w) = members (tk_to_be_tested t) - {s}" for w
    using ne card by (simp add: task_measure_def that)
  have "tracked f G ([v, u] @ rest) m"
  proof (rule tracked_replace [OF tr])
    fix g assume "g \<in> members (tk_glyphs t)" "members (tk_full_condition t) \<subseteq> found m g"
    then have "\<exists>w \<in> set [v, u]. g \<in> members (tk_glyphs w) \<and> members (tk_full_condition w) \<subseteq> found m g"
      using u(3,4) v(3,4) by (cases "g \<in> members C") simp_all
    then show "(\<exists>w \<in> set [v, u]. g \<in> members (tk_glyphs w) \<and> members (tk_full_condition w) \<subseteq> found m g) \<or>
      (\<exists>F \<subseteq> found m g. g \<notin> needed f (members (fi_all_segments f) - F))" ..
  qed simp
  moreover have "list_all (task_ok f) [v, u]" using u(2) v(2) by simp
  ultimately have "round_ok f G t rest (v # u # rest, m)"
    unfolding round_ok_def using m less [OF u(3,5)] less [OF v(3,5)] by (intro case_prodI exI [of _ "[v, u]"]) simp
  with run show ?thesis by blast
qed

lemma AdditionalConditions_spec:
  assumes ok: "search_ok f"
  shows "\<exists>additional remaining. AdditionalConditions f segments glyphs = Ok (additional, remaining) \<and>
    members additional = needed f (members (fi_all_segments f) - members segments) \<inter> members glyphs \<and>
    members remaining = (members (fi_all_segments f) - members segments) \<inter> members (fi_inscope_segments f)"
proof -
  have "members (IntSet_subtract (fi_all_segments f) segments) \<subseteq> members (fi_all_segments f)" by auto
  from SegmentClosure_defined [OF ok this] obtain C where
    C: "SegmentClosure (fi_closure f) (fi_info f) (IntSet_subtract (fi_all_segments f) segments) = Ok C"
      "members C = needed f (members (fi_all_segments f) - members segments)" by auto
  then show ?thesis by (simp add: AdditionalConditions_def Let_def)
qed

lemma needed_none:
  assumes ok: "search_ok f"
  shows "needed f {} \<subseteq> members (InitFontGlyphs (fi_info f))"
proof -
  have e: "members IntSet_empty \<subseteq> members (fi_all_segments f)" by simp
  obtain d where d: "CombinedDefinition (fi_info f) IntSet_empty = Some d" "bounded_by f {} d"
    using CombinedDefinition_bounded [OF ok e] by auto
  obtain C where C: "SegmentClosure (fi_closure f) (fi_info f) IntSet_empty = Ok C" "members C = needed f {}"
    using SegmentClosure_defined [OF ok e] by auto
  then have "fi_closure f d = Inr C" using d(1) by (simp add: SegmentClosure_def)
  from bounded_by_init_closure [OF ok d(2) this] C(2) show ?thesis by simp
qed

lemma round_record:
  assumes ok: "search_ok f" and t: "task_ok f t" and ne: "members (tk_glyphs t) \<noteq> {}"
    and none: "IntSet_min (tk_to_be_tested t) = None" and tr: "tracked f G (t # rest) m" and m: "found_ok f m"
  shows "(RunAnalysisTask f t (rest, m) = Fail InternalError \<and> \<not> members (fi_all_segments f) \<subseteq> members (fi_inscope_segments f)) \<or>
    (\<exists>r. RunAnalysisTask f t (rest, m) = Ok r \<and> round_ok f G t rest r)"
proof -
  let ?all = "members (fi_all_segments f)" let ?m = "fold (add_condition (tk_sub_condition t)) (to_vector (tk_glyphs t)) m"
  let ?full = "IntSet_union_set (tk_full_condition t) (tk_sub_condition t)"
  note td = t [unfolded task_ok_def]
  have tbt: "members (tk_to_be_tested t) = {}" by (rule IntSet_min_None [OF none])
  obtain additional remaining where a: "AdditionalConditions f ?full (tk_glyphs t) = Ok (additional, remaining)"
    "members additional = needed f (?all - members ?full) \<inter> members (tk_glyphs t)"
    "members remaining = (?all - members ?full) \<inter> members (fi_inscope_segments f)"
    using AdditionalConditions_spec [OF ok, of ?full "tk_glyphs t"] by blast
  have run: "RunAnalysisTask f t (rest, m) = RecordSubCondition f t (rest, m)" using ne none by (simp add: RunAnalysisTask_def)
  have fm: "found ?m g = found m g \<union> (if g \<in> members (tk_glyphs t) then members (tk_sub_condition t) else {})" for g
    by (simp add: found_add)
  show ?thesis
  proof (cases "members additional \<noteq> {} \<and> members remaining = {}")
    case True
    have "\<not> ?all \<subseteq> members (fi_inscope_segments f)"
    proof
      assume "?all \<subseteq> members (fi_inscope_segments f)"
      then have "?all - members ?full = {}" using True a(3) by blast
      then have "members additional \<subseteq> needed f {}" unfolding a(2) by (metis Int_lower1)
      then have "members additional \<subseteq> members (InitFontGlyphs (fi_info f))" using needed_none [OF ok] by (rule order_trans)
      then show False using a(2) True td by blast
    qed
    moreover have "RecordSubCondition f t (rest, m) = Fail InternalError"
      using a(1) True by (simp add: RecordSubCondition_def Let_def)
    ultimately show ?thesis using run by simp
  next
    case False
    have "members ?full \<subseteq> ?all" "members additional \<inter> members (InitFontGlyphs (fi_info f)) = {}"
      using td a(2) by auto
    from CreateTask_ok [OF ok this(1) a(3) this(2)] obtain u where
      u: "CreateTask f ?full IntSet_empty remaining additional = Some u" "task_ok f u" "tk_full_condition u = ?full"
        "tk_glyphs u = additional" by blast
    have rec: "RecordSubCondition f t (rest, m) = Ok (u # rest, ?m)"
      using a(1) False u(1) by (auto simp: RecordSubCondition_def Let_def push_def)
    have "(task_measure f u, task_measure f t) \<in> less_than <*lex*> less_than"
    proof (cases "members additional = {}")
      case True
      then show ?thesis using u(4) ne by (simp add: task_measure_def)
    next
      case nonempty: False
      have sub: "members (tk_sub_condition t) \<noteq> {}"
      proof
        assume "members (tk_sub_condition t) = {}"
        then have "(?all - members (tk_full_condition t)) \<inter> members (fi_inscope_segments f) = {}" using td tbt ne by blast
        then have "members remaining = {}" using a(3) \<open>members (tk_sub_condition t) = {}\<close> by auto
        then show False using False nonempty by blast
      qed
      have "?all - members ?full \<subset> ?all - members (tk_full_condition t)" using sub td by auto
      then have "card (?all - members ?full) < card (?all - members (tk_full_condition t))" by (intro psubset_card_mono) auto
      then show ?thesis using u(3,4) ne nonempty by (simp add: task_measure_def)
    qed
    moreover have "tracked f G ([u] @ rest) ?m"
    proof (rule tracked_replace [OF tr])
      show "found m g \<subseteq> found ?m g" for g by (simp add: fm)
      fix g assume g: "g \<in> members (tk_glyphs t)" "members (tk_full_condition t) \<subseteq> found m g"
      then have full: "members ?full \<subseteq> found ?m g" by (auto simp: fm)
      show "(\<exists>u \<in> set [u]. g \<in> members (tk_glyphs u) \<and> members (tk_full_condition u) \<subseteq> found ?m g) \<or>
        (\<exists>F \<subseteq> found ?m g. g \<notin> needed f (?all - F))"
      proof (cases "g \<in> members additional")
        case True
        then show ?thesis using u(3,4) full by simp
      next
        case False
        then have "g \<notin> needed f (?all - members ?full)" using a(2) g(1) by blast
        then show ?thesis using full by blast
      qed
    qed
    moreover have "found_ok f ?m" using m td unfolding found_ok_def fm by (auto simp: keys_add)
    ultimately have "round_ok f G t rest (u # rest, ?m)"
      unfolding round_ok_def using u(2) by (intro case_prodI exI [of _ "[u]"]) auto
    with run rec show ?thesis by auto
  qed
qed

lemma round_empty:
  assumes "members (tk_glyphs t) = {}" and tr: "tracked f G (t # rest) m" and m: "found_ok f m"
  shows "\<exists>r. RunAnalysisTask f t (rest, m) = Ok r \<and> round_ok f G t rest r"
proof -
  have "tracked f G ([] @ rest) m" by (rule tracked_replace [OF tr]) (use assms(1) in auto)
  then have "round_ok f G t rest (rest, m)" using m by (auto simp: round_ok_def intro!: exI [of _ "[]"])
  then show ?thesis using assms(1) by (auto simp: RunAnalysisTask_def)
qed

lemma round:
  assumes ok: "search_ok f" and t: "task_ok f t" and tr: "tracked f G (t # rest) m" and m: "found_ok f m"
  shows "(RunAnalysisTask f t (rest, m) = Fail InternalError \<and> \<not> members (fi_all_segments f) \<subseteq> members (fi_inscope_segments f)) \<or>
    (\<exists>r. RunAnalysisTask f t (rest, m) = Ok r \<and> round_ok f G t rest r)"
  using round_empty [OF _ tr m] round_test [OF ok t _ _ tr m] round_record [OF ok t _ _ tr m] by (metis option.exhaust)

section \<open>The queue runs empty\<close>

abbreviation queue_measure :: "finder \<Rightarrow> task list \<Rightarrow> (nat \<times> nat) multiset" where
  "queue_measure f queue \<equiv> mset (map (task_measure f) queue)"

lemma queue_decreases:
  assumes "\<forall>u \<in> set new. (task_measure f u, task_measure f t) \<in> less_than <*lex*> less_than"
  shows "(queue_measure f (new @ rest), queue_measure f (t # rest)) \<in> mult (less_than <*lex*> less_than)"
proof -
  have "(queue_measure f rest + queue_measure f new, queue_measure f rest + {#task_measure f t#}) \<in> mult (less_than <*lex*> less_than)"
    by (rule one_step_implies_mult) (use assms in auto)
  then show ?thesis by (simp add: union_commute)
qed

lemma ProcessQueue_ends:
  assumes ok: "search_ok f"
  shows "list_all (task_ok f) queue \<Longrightarrow> tracked f G queue m \<Longrightarrow> found_ok f m \<Longrightarrow>
    (ProcessQueue f queue m = Fail InternalError \<and> \<not> members (fi_all_segments f) \<subseteq> members (fi_inscope_segments f)) \<or>
    (\<exists>m'. ProcessQueue f queue m = Ok m' \<and> tracked f G [] m' \<and> found_ok f m')"
proof (induction "queue_measure f queue" arbitrary: queue m
    rule: wf_induct_rule [OF wf_mult [OF wf_lex_prod [OF wf_less_than wf_less_than]]])
  case 1
  show ?case
  proof (cases queue)
    case Nil
    with 1(3,4) show ?thesis by (simp add: ProcessQueue.simps)
  next
    case (Cons t rest)
    note hyps = 1(2-4) [unfolded Cons]
    from hyps(1) have t: "task_ok f t" "list_all (task_ok f) rest" by simp_all
    from round [OF ok t(1) hyps(2,3)] consider
      (fails) "RunAnalysisTask f t (rest, m) = Fail InternalError" "\<not> members (fi_all_segments f) \<subseteq> members (fi_inscope_segments f)"
      | (goes_on) new m' where "RunAnalysisTask f t (rest, m) = Ok (new @ rest, m')" "list_all (task_ok f) new"
        "tracked f G (new @ rest) m'" "found_ok f m'"
        "\<forall>u \<in> set new. (task_measure f u, task_measure f t) \<in> less_than <*lex*> less_than"
      by (auto simp: round_ok_def)
    then show ?thesis
    proof cases
      case fails
      then show ?thesis by (simp add: Cons ProcessQueue.simps [of f "t # rest"])
    next
      case goes_on
      have run: "ProcessQueue f queue m = ProcessQueue f (new @ rest) m'"
        using goes_on(1) by (simp add: Cons ProcessQueue.simps [of f "t # rest"])
      have "list_all (task_ok f) (new @ rest)" using goes_on(2) t(2) by simp
      from 1(1) [OF _ this goes_on(3,4)] queue_decreases [OF goes_on(5), of rest] show ?thesis
        unfolding run by (simp add: Cons)
    qed
  qed
qed

end
