(* ===== verification/Complex_Cover.thy ===== *)
theory Complex_Cover
  imports Complex_Search
begin

text \<open>
  What \<^verbatim>\<open>FindSupersetDisjunctiveConditionsFor\<close> returns: for every glyph a set of segments that meets
  each set of segments needing the glyph.
\<close>

section \<open>The conditions known before the search\<close>

definition simple_condition :: "activation_condition \<Rightarrow> bool" where
  "simple_condition c \<longleftrightarrow> \<not> ac_is_exclusive c \<and> IsPurelyDisjunctive c"

definition existing_inv :: "glyph_condition_set \<Rightarrow> nat set \<Rightarrow> (int_set, int_set) mapping \<times> glyph_map \<Rightarrow> bool" where
  "existing_inv conditions seen = (\<lambda>(existing, m). finite (Mapping.keys existing) \<and> finite (Mapping.keys m) \<and>
     (\<forall>S G. Mapping.lookup existing S = Some G \<longrightarrow> members G \<noteq> {} \<and> (\<forall>g \<in> members G. g \<in> seen \<and>
        simple_condition (gs_conditions conditions ! g) \<and> S = TriggeringSegments (gs_conditions conditions ! g))) \<and>
     (\<forall>g. found m g = (if g \<in> seen \<and> simple_condition (gs_conditions conditions ! g)
        then members (TriggeringSegments (gs_conditions conditions ! g)) else {})))"

lemma existing_step_inv:
  assumes inv: "existing_inv conditions seen s" and g: "g < length (gs_conditions conditions)" "g < UINT32_MAX"
  shows "\<exists>s'. existing_step conditions g s = Some s' \<and> existing_inv conditions (insert g seen) s'"
proof (cases s)
  case (Pair existing m)
  let ?c = "gs_conditions conditions ! g"
  let ?old = "Mapping.lookup_default IntSet_empty existing (TriggeringSegments ?c)"
  note i = inv [unfolded Pair existing_inv_def split]
  show ?thesis
  proof (cases "simple_condition ?c")
    case False
    then have "existing_step conditions g s = Some (existing, m)" "existing_inv conditions (insert g seen) (existing, m)"
      using i g by (auto simp: Pair existing_step_def ConditionsFor_def simple_condition_def existing_inv_def)
    then show ?thesis by blast
  next
    case True
    let ?ex = "Mapping.update (TriggeringSegments ?c) (IntSet_insert g ?old) existing" and ?m = "add_condition (TriggeringSegments ?c) g m"
    have run: "existing_step conditions g s = Some (?ex, ?m)"
      using True g by (simp add: Pair existing_step_def ConditionsFor_def simple_condition_def Let_def)
    have old: "x \<in> seen \<and> simple_condition (gs_conditions conditions ! x) \<and>
        TriggeringSegments ?c = TriggeringSegments (gs_conditions conditions ! x)" if "x \<in> members ?old" for x
      using that i by (auto simp: Mapping.lookup_default_def split: option.splits)
    have "\<forall>S G. Mapping.lookup ?ex S = Some G \<longrightarrow> members G \<noteq> {} \<and> (\<forall>x \<in> members G. x \<in> insert g seen \<and>
        simple_condition (gs_conditions conditions ! x) \<and> S = TriggeringSegments (gs_conditions conditions ! x))"
    proof (intro allI impI conjI ballI)
      fix S G assume "Mapping.lookup ?ex S = Some G"
      then have "G = IntSet_insert g ?old \<or> Mapping.lookup existing S = Some G" by (auto simp: lookup_update' split: if_splits)
      then show "members G \<noteq> {}" using i g by auto
    next
      fix S G x assume l: "Mapping.lookup ?ex S = Some G" and x: "x \<in> members G"
      have "x \<in> insert g seen \<and> simple_condition (gs_conditions conditions ! x) \<and> S = TriggeringSegments (gs_conditions conditions ! x)"
      proof (cases "S = TriggeringSegments ?c")
        case True
        with l x g have "x = g \<or> x \<in> members ?old" by (auto simp: lookup_update)
        with old [of x] True \<open>simple_condition ?c\<close> show ?thesis by auto
      next
        case False
        with l have "Mapping.lookup existing S = Some G" by (simp add: lookup_update')
        with i x show ?thesis by blast
      qed
      then show "x \<in> insert g seen" "simple_condition (gs_conditions conditions ! x)"
        "S = TriggeringSegments (gs_conditions conditions ! x)" by blast+
    qed
    moreover have "\<forall>x. found ?m x = (if x \<in> insert g seen \<and> simple_condition (gs_conditions conditions ! x)
        then members (TriggeringSegments (gs_conditions conditions ! x)) else {})"
    proof
      fix x
      have "found m x = (if x \<in> seen \<and> simple_condition (gs_conditions conditions ! x)
        then members (TriggeringSegments (gs_conditions conditions ! x)) else {})" using i by blast
      then show "found ?m x = (if x \<in> insert g seen \<and> simple_condition (gs_conditions conditions ! x)
        then members (TriggeringSegments (gs_conditions conditions ! x)) else {})"
        using found_add [of "TriggeringSegments ?c" "[g]" m x] True by (cases "x = g") simp_all
    qed
    moreover have "finite (Mapping.keys ?ex)" "finite (Mapping.keys ?m)" using i by (simp_all add: add_condition_def)
    ultimately have "existing_inv conditions (insert g seen) (?ex, ?m)" unfolding existing_inv_def split by blast
    with run show ?thesis by blast
  qed
qed

lemma ExistingConditions_inv:
  assumes "members glyphs \<subseteq> {..<length (gs_conditions conditions)}"
  shows "\<exists>s. ExistingConditions conditions glyphs = Some s \<and> existing_inv conditions (members glyphs) s"
proof -
  have "\<exists>s'. fold_glyphs (existing_step conditions) gids s = Some s' \<and> existing_inv conditions (seen \<union> set gids) s'"
    if "existing_inv conditions seen s" "set gids \<subseteq> {..<length (gs_conditions conditions)} \<inter> {..<UINT32_MAX}" for gids seen s
    using that
  proof (induction gids arbitrary: seen s)
    case (Cons g gids)
    then obtain s1 where s1: "existing_step conditions g s = Some s1" "existing_inv conditions (insert g seen) s1"
      using existing_step_inv [OF Cons.prems(1), of g] by auto
    from Cons.IH [OF s1(2)] Cons.prems(2) s1(1) show ?case by simp
  qed simp
  moreover have "existing_inv conditions {} (Mapping.empty, Mapping.empty)" by (simp add: existing_inv_def found_def Mapping.lookup_default_def)
  moreover have "set (to_vector glyphs) \<subseteq> {..<length (gs_conditions conditions)} \<inter> {..<UINT32_MAX}"
    using assms members_bound by auto
  ultimately obtain s' where "fold_glyphs (existing_step conditions) (to_vector glyphs) (Mapping.empty, Mapping.empty) = Some s'"
    "existing_inv conditions ({} \<union> set (to_vector glyphs)) s'" by blast
  then show ?thesis by (auto simp: ExistingConditions_def)
qed

section \<open>The first tasks\<close>

text \<open>A glyph is left for the general task, or it is tracked.\<close>

definition scheduled :: "finder \<Rightarrow> nat set \<Rightarrow> glyph_map \<Rightarrow> int_set \<times> task list \<Rightarrow> bool" where
  "scheduled f G m = (\<lambda>(glyphs, queue). list_all (task_ok f) queue \<and> members glyphs \<subseteq> G \<and>
     tracked f (G - members glyphs) queue m)"

definition known_ok :: "finder \<Rightarrow> nat set \<Rightarrow> glyph_map \<Rightarrow> int_set \<times> int_set \<Rightarrow> bool" where
  "known_ok f G m = (\<lambda>(S, cg). members S \<subseteq> members (fi_all_segments f) \<and> members cg \<inter> members (InitFontGlyphs (fi_info f)) = {} \<and>
     (\<forall>g \<in> members cg. members S \<subseteq> found m g) \<and> members cg \<subseteq> needed f (members S))"

lemma tracked_cong: "tracked f G q m \<Longrightarrow> G' \<subseteq> G \<Longrightarrow> set q \<subseteq> set q' \<Longrightarrow> tracked f G' q' m"
  unfolding tracked_def by (meson subsetD)

lemma tracked_union: "tracked f (G \<union> H) q m \<longleftrightarrow> tracked f G q m \<and> tracked f H q m"
  unfolding tracked_def by (rule ball_Un)

lemma InClosure_true:
  assumes "search_ok f" "members S \<subseteq> members (fi_all_segments f)" "members glyphs \<subseteq> needed f (members S)"
  shows "InClosure f S glyphs = Ok True"
  using SegmentClosure_defined [OF assms(1,2)] assms(3) by (auto simp: InClosure_def)

lemma ScheduleExistingConditionTask_scheduled:
  assumes ok: "search_ok f" and k: "known_ok f G m (S, cg)" and s: "scheduled f G m s"
  shows "\<exists>s'. ScheduleExistingConditionTask f S cg s = Ok s' \<and> scheduled f G m s'"
proof (cases s)
  case (Pair glyphs queue)
  note k = k [unfolded known_ok_def split] and s = s [unfolded Pair scheduled_def split]
  obtain additional remaining where a: "AdditionalConditions f S cg = Ok (additional, remaining)"
    "members additional = needed f (members (fi_all_segments f) - members S) \<inter> members cg"
    "members remaining = (members (fi_all_segments f) - members S) \<inter> members (fi_inscope_segments f)"
    using AdditionalConditions_spec [OF ok, of S cg] by blast
  show ?thesis
  proof (cases "members additional = {}")
    case True
    then have "ScheduleExistingConditionTask f S cg s = Ok s"
      using a(1) by (simp add: ScheduleExistingConditionTask_def Pair)
    then show ?thesis using assms(3) by blast
  next
    case False
    have "members S \<subseteq> members (fi_all_segments f)" "members additional \<inter> members (InitFontGlyphs (fi_info f)) = {}"
      using k a(2) by auto
    from CreateTask_ok [OF ok this(1) a(3) this(2)] obtain t where t: "CreateTask f S IntSet_empty remaining additional = Some t"
      "task_ok f t" "tk_full_condition t = S" "tk_glyphs t = additional" by blast
    have run: "ScheduleExistingConditionTask f S cg s = Ok (IntSet_subtract glyphs cg, t # queue)"
      using a(1) False t(1) by (simp add: ScheduleExistingConditionTask_def Pair push_def)
    have "tracked f (members cg) (t # queue) m"
      unfolding tracked_def
    proof
      fix g assume g: "g \<in> members cg"
      then have sub: "members S \<subseteq> found m g" using k by blast
      show "(\<exists>t \<in> set (t # queue). g \<in> members (tk_glyphs t) \<and> members (tk_full_condition t) \<subseteq> found m g) \<or>
        (\<exists>F \<subseteq> found m g. g \<notin> needed f (members (fi_all_segments f) - F))"
      proof (cases "g \<in> members additional")
        case True
        then show ?thesis using t(3,4) sub by simp
      next
        case False
        then have "g \<notin> needed f (members (fi_all_segments f) - members S)" using a(2) g by blast
        then show ?thesis using sub by blast
      qed
    qed
    moreover have "tracked f (G - members glyphs) (t # queue) m" by (rule tracked_cong) (use s in auto)
    ultimately have "tracked f ((G - members glyphs) \<union> members cg) (t # queue) m" by (simp add: tracked_union)
    then have "tracked f (G - (members glyphs - members cg)) (t # queue) m" by (rule tracked_cong) auto
    then have "scheduled f G m (IntSet_subtract glyphs cg, t # queue)" using s t(2) by (auto simp: scheduled_def)
    with run show ?thesis by blast
  qed
qed

lemma ScheduleExisting_scheduled:
  assumes ok: "search_ok f"
  shows "\<forall>e \<in> set known. known_ok f G m e \<Longrightarrow> scheduled f G m s \<Longrightarrow>
    \<exists>s'. ScheduleExisting f known s = Ok s' \<and> scheduled f G m s'"
proof (induction known arbitrary: s)
  case (Cons e known)
  obtain S cg where e: "e = (S, cg)" by (cases e)
  have k: "known_ok f G m (S, cg)" using Cons.prems(1) e by simp
  obtain s1 where s1: "ScheduleExistingConditionTask f S cg s = Ok s1" "scheduled f G m s1"
    using ScheduleExistingConditionTask_scheduled [OF ok k Cons.prems(2)] by blast
  have "InClosure f S cg = Ok True" by (rule InClosure_true [OF ok]) (use k in \<open>auto simp: known_ok_def\<close>)
  with Cons.IH [OF _ s1(2)] Cons.prems(1) s1(1) e show ?case by simp
qed simp

lemma ScheduleInitialTasks_tracked:
  assumes ok: "search_ok f" and known: "\<forall>e \<in> set known. known_ok f (members glyphs) m e"
    and init: "members glyphs \<inter> members (InitFontGlyphs (fi_info f)) = {}"
    and need: "members glyphs \<subseteq> needed f (members (fi_all_segments f))"
  shows "\<exists>queue. ScheduleInitialTasks f glyphs known = Ok queue \<and> list_all (task_ok f) queue \<and> tracked f (members glyphs) queue m"
proof -
  have "scheduled f (members glyphs) m (glyphs, [])" by (simp add: scheduled_def tracked_def)
  from ScheduleExisting_scheduled [OF ok known this] obtain left queue where
    s: "ScheduleExisting f known (glyphs, []) = Ok (left, queue)" "scheduled f (members glyphs) m (left, queue)" by auto
  note s2 = s(2) [unfolded scheduled_def split]
  have no: "\<not> IntSet_intersects glyphs (InitFontGlyphs (fi_info f))" using init by auto
  show ?thesis
  proof (cases "members left = {}")
    case True
    then show ?thesis using s(1) s2 no by (simp add: ScheduleInitialTasks_def)
  next
    case False
    let ?all = "members (fi_all_segments f)"
    have "members left \<inter> members (InitFontGlyphs (fi_info f)) = {}" using s2 init by blast
    moreover have "members (IntSet_intersect (fi_all_segments f) (fi_inscope_segments f)) =
      (?all - members IntSet_empty) \<inter> members (fi_inscope_segments f)" by simp
    ultimately obtain t where t: "CreateTask f IntSet_empty IntSet_empty (IntSet_intersect (fi_all_segments f) (fi_inscope_segments f)) left = Some t"
      "task_ok f t" "tk_full_condition t = IntSet_empty" "tk_glyphs t = left"
      using CreateTask_ok [OF ok, of IntSet_empty "IntSet_intersect (fi_all_segments f) (fi_inscope_segments f)" left] by auto
    have "InClosure f (fi_all_segments f) left = Ok True" by (rule InClosure_true [OF ok]) (use s2 need in auto)
    then have run: "ScheduleInitialTasks f glyphs known = Ok (t # queue)"
      using s(1) no False t(1) by (simp add: ScheduleInitialTasks_def push_def)
    have "tracked f (members left) (t # queue) m" using t(3,4) by (auto simp: tracked_def)
    moreover have "tracked f (members glyphs - members left) (t # queue) m" by (rule tracked_cong) (use s2 in auto)
    ultimately have "tracked f (members glyphs - members left \<union> members left) (t # queue) m" unfolding tracked_union by blast
    then have "tracked f (members glyphs) (t # queue) m" by (rule tracked_cong) auto
    with run s2 t(2) show ?thesis by simp
  qed
qed

section \<open>The result\<close>

lemma Group_step:
  assumes "finite (Mapping.keys m)"
  shows "(\<exists>G. Mapping.lookup (GroupBySegments m) S = Some G \<and> g \<in> members G) \<longleftrightarrow>
    Mapping.lookup m g = Some S \<and> g < UINT32_MAX"
proof -
  let ?step = "\<lambda>(gid, segments) out. Mapping.update segments (IntSet_insert gid (Mapping.lookup_default IntSet_empty out segments)) out"
  let ?in = "\<lambda>out. \<exists>G. Mapping.lookup out S = Some G \<and> g \<in> members G"
  have step: "?in (?step e out) \<longleftrightarrow> ?in out \<or> (e = (g, S) \<and> g < UINT32_MAX)" for e out
    by (cases e) (auto simp: lookup_update' Mapping.lookup_default_def split: option.splits)
  have "?in (fold ?step es out) \<longleftrightarrow> ?in out \<or> ((g, S) \<in> set es \<and> g < UINT32_MAX)" for es out
  proof (induction es arbitrary: out)
    case (Cons e es)
    have "?in (fold ?step (e # es) out) \<longleftrightarrow> ?in (fold ?step es (?step e out))" by simp
    also have "\<dots> \<longleftrightarrow> ?in out \<or> (e = (g, S) \<and> g < UINT32_MAX) \<or> ((g, S) \<in> set es \<and> g < UINT32_MAX)"
      using Cons [of "?step e out"] step [of e out] by blast
    finally show ?case by auto
  qed simp
  from this [of "Mapping.ordered_entries m" Mapping.empty] assms show ?thesis
    by (auto simp: GroupBySegments_def dest: Mapping.in_entriesD intro: Mapping.in_entriesI)
qed

lemma NonEmptySegments_bound: "members (NonEmptySegments info) \<subseteq> {..<length (si_segments info)}"
proof -
  have "members (fold (\<lambda>(i, s) segments. if \<not> SD_Empty (seg_definition s) then IntSet_insert i segments else segments)
      (enumerate n ss) S) \<subseteq> members S \<union> {n..<n + length ss}" for ss n S
  proof (induction ss arbitrary: n S)
    case (Cons s ss)
    have "members (if \<not> SD_Empty (seg_definition s) then IntSet_insert n S else S) \<subseteq> insert n (members S)" by auto
    with Cons [of "Suc n" "if \<not> SD_Empty (seg_definition s) then IntSet_insert n S else S"] show ?case by fastforce
  qed simp
  from this [of 0 "si_segments info" IntSet_empty] show ?thesis by (auto simp: NonEmptySegments_def)
qed

text \<open>What the caller must provide; the flag \<open>si_segments_disjoint\<close> alone does not rule out axis ranges.\<close>

definition complex_input :: "(subset_definition \<Rightarrow> int_set status_or) \<Rightarrow> segmentation_info \<Rightarrow> glyph_condition_set \<Rightarrow> int_set \<Rightarrow> bool" where
  "complex_input closure info conditions glyphs \<longleftrightarrow>
     closure_monotone closure \<and> info_wf info \<and> si_segments_disjoint info \<and> length (si_segments info) \<le> UINT32_MAX \<and>
     (\<forall>s < length (si_segments info). sd_design_space (seg_def (si_segments info) s) = []) \<and>
     (\<exists>I. closure (si_init_font_segment info) = Inr I \<and> members I \<subseteq> members (InitFontGlyphs info)) \<and>
     members glyphs \<subseteq> {..<length (gs_conditions conditions)} \<and>
     members glyphs \<inter> members (InitFontGlyphs info) = {} \<and>
     members glyphs \<subseteq> needs closure info (members (NonEmptySegments info)) \<and>
     (\<forall>g \<in> members glyphs. simple_condition (gs_conditions conditions ! g) \<longrightarrow>
        members (TriggeringSegments (gs_conditions conditions ! g)) \<subseteq> members (NonEmptySegments info) \<and>
        g \<in> needs closure info (members (TriggeringSegments (gs_conditions conditions ! g))))"

lemma FindSuperset_cover:
  assumes input: "complex_input closure info conditions glyphs"
  shows "(FindSupersetDisjunctiveConditionsFor closure info conditions glyphs inscope = Fail InternalError \<and>
      \<not> members (NonEmptySegments info) \<subseteq> members inscope) \<or>
    (\<exists>out. FindSupersetDisjunctiveConditionsFor closure info conditions glyphs inscope = Ok out \<and>
      (\<forall>g \<in> members glyphs. \<exists>S G. Mapping.lookup out S = Some G \<and> g \<in> members G \<and>
         members S \<subseteq> members (NonEmptySegments info) \<and>
         (\<forall>T \<subseteq> members (NonEmptySegments info). g \<in> needs closure info T \<longrightarrow> T \<inter> members S \<noteq> {})))"
proof -
  let ?all = "members (NonEmptySegments info)" and ?c = "\<lambda>g. gs_conditions conditions ! g"
  define f where "f = \<lparr>fi_all_segments = NonEmptySegments info, fi_inscope_segments = inscope, fi_info = info, fi_closure = closure\<rparr>"
  have fs: "fi_all_segments f = NonEmptySegments info" "fi_inscope_segments f = inscope" "fi_info f = info" "fi_closure f = closure"
    by (simp_all add: f_def)
  note i = input [unfolded complex_input_def]
  have ok: "search_ok f" unfolding search_ok_def fs using i NonEmptySegments_bound by blast
  obtain existing m where e: "ExistingConditions conditions glyphs = Some (existing, m)"
    "existing_inv conditions (members glyphs) (existing, m)"
    using ExistingConditions_inv [of glyphs conditions] i by auto
  note e2 = e(2) [unfolded existing_inv_def split]
  have known: "\<forall>x \<in> set (Mapping.ordered_entries existing). known_ok f (members glyphs) m x"
  proof
    fix x assume x: "x \<in> set (Mapping.ordered_entries existing)"
    obtain S G where "x = (S, G)" by (cases x)
    with x e2 have l: "Mapping.lookup existing S = Some G" by (auto dest: Mapping.in_entriesD)
    have G: "g \<in> members glyphs \<and> simple_condition (?c g) \<and> S = TriggeringSegments (?c g) \<and> found m g = members S" if "g \<in> members G" for g
      using e2 l that by auto
    show "known_ok f (members glyphs) m x"
    proof -
      obtain h where h: "h \<in> members G" using e2 l by blast
      have "S = TriggeringSegments (?c h)" "simple_condition (?c h)" "h \<in> members glyphs" using G [OF h] by auto
      then have "members S \<subseteq> ?all" using i by blast
      moreover have "members G \<subseteq> needs closure info (members S)" using G i by fastforce
      moreover have "members G \<inter> members (InitFontGlyphs info) = {}" using G i by blast
      ultimately show ?thesis using G by (auto simp: known_ok_def fs \<open>x = (S, G)\<close>)
    qed
  qed
  have init: "members glyphs \<inter> members (InitFontGlyphs (fi_info f)) = {}"
    and need: "members glyphs \<subseteq> needed f (members (fi_all_segments f))" using i by (simp_all add: fs)
  obtain queue where q: "ScheduleInitialTasks f glyphs (Mapping.ordered_entries existing) = Ok queue"
    "list_all (task_ok f) queue" "tracked f (members glyphs) queue m"
    using ScheduleInitialTasks_tracked [OF ok known init need] by blast
  have fo: "found_ok f m" unfolding found_ok_def fs using e2 i by auto
  have run: "FindSupersetDisjunctiveConditionsFor closure info conditions glyphs inscope =
      OTRY (ProcessQueue f queue m) (\<lambda>m. Ok (GroupBySegments m))"
    using i e(1) q(1) by (simp add: FindSupersetDisjunctiveConditionsFor_def f_def Let_def)
  from ProcessQueue_ends [OF ok q(2,3) fo] show ?thesis
  proof (elim disjE exE conjE)
    assume "ProcessQueue f queue m = Fail InternalError" "\<not> members (fi_all_segments f) \<subseteq> members (fi_inscope_segments f)"
    then show ?thesis by (simp add: run fs)
  next
    fix m' assume m': "ProcessQueue f queue m = Ok m'" "tracked f (members glyphs) [] m'" "found_ok f m'"
    have "\<exists>S G. Mapping.lookup (GroupBySegments m') S = Some G \<and> g \<in> members G \<and> members S \<subseteq> ?all \<and>
         (\<forall>T \<subseteq> ?all. g \<in> needs closure info T \<longrightarrow> T \<inter> members S \<noteq> {})" if g: "g \<in> members glyphs" for g
    proof -
      obtain F where F: "F \<subseteq> found m' g" "g \<notin> needs closure info (?all - F)" using m'(2) g by (auto simp: tracked_def fs)
      have meets: "T \<inter> found m' g \<noteq> {}" if T: "T \<subseteq> ?all" "g \<in> needs closure info T" for T
      proof
        assume "T \<inter> found m' g = {}"
        then have "T \<subseteq> ?all - F" using T(1) F(1) by blast
        from needs_mono [OF _ _ this] i NonEmptySegments_bound have "needs closure info T \<subseteq> needs closure info (?all - F)" by blast
        then show False using T(2) F(2) by blast
      qed
      have "?all \<inter> found m' g \<noteq> {}" by (rule meets) (use i g in auto)
      then obtain S where S: "Mapping.lookup m' g = Some S" by (cases "Mapping.lookup m' g") (auto simp: found_def Mapping.lookup_default_def)
      then have fS: "found m' g = members S" by (simp add: found_def Mapping.lookup_default_def)
      have "finite (Mapping.keys m')" using m'(3) by (simp add: found_ok_def)
      from Group_step [OF this, of S g] S obtain G where "Mapping.lookup (GroupBySegments m') S = Some G" "g \<in> members G"
        using g members_bound by blast
      moreover have "members S \<subseteq> ?all" using m'(3) fS [symmetric] by (simp add: found_ok_def fs)
      ultimately show ?thesis using meets fS by auto
    qed
    then show ?thesis by (simp add: run m'(1))
  qed
qed

end
