(* ===== verification/Segment_Properties.thy ===== *)
theory Segment_Properties
  imports Complex_Cover
begin

text \<open>
  Properties of the closures, the segmentation information, the conditions of glyphs and the search
  for complex conditions, over a font in which the letters 102 and 105 form a ligature.
\<close>

section \<open>A font with one ligature\<close>

definition ligature_closure :: "subset_definition \<Rightarrow> int_set status_or" where
  "ligature_closure d = Inr (IntSet ((if IntSet_contains (sd_codepoints d) 102 then [1] else []) @
     (if IntSet_contains (sd_codepoints d) 105 then [2] else []) @
     (if IntSet_contains (sd_codepoints d) 102 \<and> IntSet_contains (sd_codepoints d) 105 then [3] else [])))"

definition ligature_codepoints :: "int_set \<Rightarrow> int_set" where
  "ligature_codepoints gids = IntSet ((if IntSet_contains gids 1 then [102] else []) @ (if IntSet_contains gids 2 then [105] else []) @
     (if IntSet_contains gids 3 then [64257] else []))"

definition letter :: "nat \<Rightarrow> segment" where
  "letter cp = \<lparr>seg_definition = SubsetDefinition [cp], seg_probability = PB_Zero\<rparr>"

definition ligature_info :: segmentation_info where
  "ligature_info = \<lparr>si_segments = [letter 102, letter 105], si_init_font_segment = SubsetDefinition [],
     si_full_definition = SubsetDefinition [102, 105], si_full_closure = IntSet [1, 2, 3],
     si_full_codepoint_closure = IntSet [102, 105, 64257], si_segments_disjoint = True,
     si_unmapped_glyph_handling = FIND_CONDITIONS,
     si_codepoint_to_segments = [102 \<mapsto> IntSet [0], 105 \<mapsto> IntSet [1]]\<rparr>"

lemma members_SubsetDefinition [simp]: "members (sd_codepoints (SubsetDefinition cps)) = {v \<in> set cps. v < UINT32_MAX}"
  by (simp add: SubsetDefinition_def)

lemma SubsetDefinition_fields [simp]: "sd_gids (SubsetDefinition cps) = IntSet_empty"
  "sd_feature_tags (SubsetDefinition cps) = []" "sd_design_space (SubsetDefinition cps) = []"
  by (simp_all add: SubsetDefinition_def)

lemma ligature_monotone: "closure_monotone ligature_closure"
  unfolding closure_monotone_def ligature_closure_def by (auto simp: sd_le_def)

lemma ligature_info_fields [simp]: "si_segments ligature_info = [letter 102, letter 105]"
  "si_init_font_segment ligature_info = SubsetDefinition []" "si_full_definition ligature_info = SubsetDefinition [102, 105]"
  "si_full_closure ligature_info = IntSet [1, 2, 3]" "si_segments_disjoint ligature_info"
  "InitFontGlyphs ligature_info = IntSet_empty" "seg_definition (letter cp) = SubsetDefinition [cp]"
  by (simp_all add: ligature_info_def InitFontGlyphs_def letter_def)

lemma ligature_info_wf: "info_wf ligature_info"
  by (simp add: info_wf_def segments_wf_def ds_wf_def ds_sorted_def)

lemma ligature_non_empty: "members (NonEmptySegments ligature_info) = {0, 1}"
  by (simp add: NonEmptySegments_def SD_Empty_def IntSet_is_empty_def) auto

text \<open>What sets of letters need.\<close>

lemma ligature_needs_any:
  assumes "members S \<subseteq> {0, 1}"
  shows "needs ligature_closure ligature_info (members S) =
    (if 0 \<in> members S then {1} else {}) \<union> (if 1 \<in> members S then {2} else {}) \<union> (if members S = {0, 1} then {3} else {})"
proof -
  have "members S \<subseteq> {..<length (si_segments ligature_info)}" using assms by auto
  from CombinedDefinition_defined [OF this] obtain d where d: "CombinedDefinition ligature_info S = Some d" ..
  then obtain e where e: "UnionSegments (si_segments ligature_info) (to_vector S) (SubsetDefinition []) = Some e"
    "d = SD_Union e (si_init_font_segment ligature_info)" by (auto simp: CombinedDefinition_def)
  have "members (sd_codepoints d) = (\<Union>s \<in> members S. members (sd_codepoints (seg_def [letter 102, letter 105] s)))"
    using UnionSegments_fields(1) [OF e(1)] by (simp add: e(2) SD_Union_def)
  then have cps: "members (sd_codepoints d) = (if 0 \<in> members S then {102} else {}) \<union> (if 1 \<in> members S then {105} else {})"
    using assms by auto
  obtain G where G: "ligature_closure d = Inr G" by (simp add: ligature_closure_def)
  then have "SegmentClosure ligature_closure ligature_info S = Ok G" using d by (simp add: SegmentClosure_def)
  from needs_eq [OF this] have "needs ligature_closure ligature_info (members S) = members G" .
  also have "members G = (if 102 \<in> members (sd_codepoints d) then {1} else {}) \<union> (if 105 \<in> members (sd_codepoints d) then {2} else {}) \<union>
      (if {102, 105} \<subseteq> members (sd_codepoints d) then {3} else {})" using G by (auto simp: ligature_closure_def)
  finally show ?thesis using assms unfolding cps by auto
qed

lemma ligature_needs: "needs ligature_closure ligature_info {0, 1} = {1, 2, 3}" "needs ligature_closure ligature_info {0} = {1}"
proof -
  have m: "members (IntSet [0, 1]) = {0, 1}" "members (IntSet [0]) = {0}" by auto
  show "needs ligature_closure ligature_info {0, 1} = {1, 2, 3}" using ligature_needs_any [of "IntSet [0, 1]", unfolded m] by auto
  show "needs ligature_closure ligature_info {0} = {1}" using ligature_needs_any [of "IntSet [0]", unfolded m] by auto
qed

section \<open>Closures\<close>

text \<open>
  C28: when every composition is listed for both of its sources, \<^verbatim>\<open>UnicodeClosure\<close> computes the least
  set of codepoints closed under decomposition and composition.
\<close>

theorem UnicodeClosure_least:
  assumes "composition_symmetric edges"
  shows "members (UnicodeClosure edges unicodes) = unicode_reach edges (members unicodes)"
  using assms by (rule UnicodeClosure_reach)

definition ligature_edges :: unicode_edges where
  "ligature_edges = \<lparr>ue_composition = [102 \<mapsto> [\<lparr>ue_other_source = 105, ue_dest = 64257\<rparr>], 105 \<mapsto> [\<lparr>ue_other_source = 102, ue_dest = 64257\<rparr>]],
     ue_decomposition = Map.empty, ue_gid_to_vs = Map.empty\<rparr>"

lemma UnicodeClosure_least_witness: "64257 \<in> members (UnicodeClosure ligature_edges (IntSet [102, 105]))"
proof -
  have "composition_symmetric ligature_edges" by (auto simp: composition_symmetric_def ligature_edges_def)
  note least = UnicodeClosure_least [OF this, of "IntSet [102, 105]"]
  have "64257 \<in> unicode_reach ligature_edges {102, 105}"
    using unicode_reach.composed [of 102 ligature_edges "{102, 105}" "[\<lparr>ue_other_source = 105, ue_dest = 64257\<rparr>]" "\<lparr>ue_other_source = 105, ue_dest = 64257\<rparr>"]
    by (simp add: ligature_edges_def unicode_reach.start)
  moreover have "members (IntSet [102, 105]) = {102, 105}" by auto
  ultimately show ?thesis using least by metis
qed

text \<open>
  C29: a cache that starts empty is transparent: whatever subset definitions are asked for, and however
  often, every answer is the closure computed afresh.
\<close>

primrec closures_asked :: "'i closure_face \<Rightarrow> subset_definition list \<Rightarrow> glyph_closure_cache \<Rightarrow> int_set status_or list" where
  "closures_asked face [] cache = []"
| "closures_asked face (d # ds) cache = (let (cache, gids) = GlyphClosure face d cache in gids # closures_asked face ds cache)"

theorem GlyphClosure_transparent: "closures_asked face ds GlyphClosureCache = map (glyph_closure face) ds"
proof -
  have "cache_sound face cache \<Longrightarrow> closures_asked face ds cache = map (glyph_closure face) ds" for cache
  proof (induction ds arbitrary: cache)
    case (Cons d ds)
    from GlyphClosure_cached [OF Cons.prems, of d] Cons.IH [of "fst (GlyphClosure face d cache)"] show ?case
      by (simp add: case_prod_beta Let_def)
  qed simp
  then show ?thesis by (simp add: cache_sound_def GlyphClosureCache_def)
qed

text \<open>
  C30: over a monotone closure \<^verbatim>\<open>ExpandClosure\<close> returns the least definition above its input that has
  the glyphs of its own closure and the codepoints of those glyphs; features and axes stay as they are.
\<close>

theorem ExpandClosure_least:
  assumes "closure_monotone closure"
    and "\<forall>A B. members A \<subseteq> members B \<longrightarrow> members (codepoints_for A) \<subseteq> members (codepoints_for B)"
  shows "\<exists>d'. ExpandClosure closure codepoints_for d = Inr d' \<and> sd_le d d' \<and> expanded_for closure codepoints_for d' \<and>
    sd_feature_tags d' = sd_feature_tags d \<and> sd_design_space d' = sd_design_space d \<and>
    (\<forall>e. sd_le d e \<and> expanded_for closure codepoints_for e \<longrightarrow> sd_le d' e)"
  by (rule ExpandClosure_spec [OF assms(1)]) (use assms(2) in blast)

lemma ligature_codepoints_mono: "members A \<subseteq> members B \<Longrightarrow> members (ligature_codepoints A) \<subseteq> members (ligature_codepoints B)"
  by (auto simp: ligature_codepoints_def)

lemma ExpandClosure_least_witness:
  "\<exists>d'. ExpandClosure ligature_closure ligature_codepoints (SubsetDefinition [102, 105]) = Inr d' \<and>
     expanded_for ligature_closure ligature_codepoints d' \<and> 64257 \<in> members (sd_codepoints d')"
proof -
  obtain d' where d': "ExpandClosure ligature_closure ligature_codepoints (SubsetDefinition [102, 105]) = Inr d'"
    "sd_le (SubsetDefinition [102, 105]) d'" "expanded_for ligature_closure ligature_codepoints d'"
    using ExpandClosure_least [of ligature_closure ligature_codepoints "SubsetDefinition [102, 105]"] ligature_monotone ligature_codepoints_mono
    by blast
  then have "102 \<in> members (sd_codepoints d')" "105 \<in> members (sd_codepoints d')" by (auto simp: sd_le_def)
  then have "64257 \<in> members (sd_codepoints d')"
    using d'(3) by (auto simp: expanded_for_def ligature_closure_def ligature_codepoints_def)
  with d' show ?thesis by blast
qed

section \<open>Segmentation information\<close>

text \<open>
  C32: however the segmentation information came about, by creation, merges and new initial subsets, the
  codepoint index finds exactly the segments that contain one of the codepoints.
\<close>

theorem SegmentsForCodepoints_exact:
  assumes "info_reachable closure codepoints_for info"
  shows "members (SegmentsForCodepoints info codepoints) =
    {i. i < length (si_segments info) \<and> members (seg_codepoints (si_segments info ! i)) \<inter> members codepoints \<noteq> {}}"
  using info_reachable_index [OF assms] by (intro SegmentsForCodepoints_spec) simp

lemma SegmentsForCodepoints_exact_witness:
  "\<exists>info. SegmentationInfo_Create ligature_closure ligature_codepoints [letter 102, letter 105] (SubsetDefinition []) FIND_CONDITIONS = Inr info \<and>
     members (SegmentsForCodepoints info (IntSet [105])) =
       {i. i < length (si_segments info) \<and> members (seg_codepoints (si_segments info ! i)) \<inter> {105} \<noteq> {}}"
proof -
  obtain d where d: "ExpandClosure ligature_closure ligature_codepoints (SubsetDefinition []) = Inr d"
    using ExpandClosure_spec [of ligature_closure ligature_codepoints "SubsetDefinition []"] ligature_monotone ligature_codepoints_mono by blast
  obtain i where "ReassignInitSubset ligature_closure ligature_codepoints (SubsetDefinition [])
      (SegmentationInfo [letter 102, letter 105] (SubsetDefinition []) FIND_CONDITIONS) = Inr i"
    unfolding ReassignInitSubset_def d by (simp add: Let_def)
  then obtain info where info: "SegmentationInfo_Create ligature_closure ligature_codepoints [letter 102, letter 105] (SubsetDefinition []) FIND_CONDITIONS = Inr info"
    by (simp add: SegmentationInfo_Create_def)
  have "info_reachable ligature_closure ligature_codepoints info" by (rule info_reachable.create [OF _ info]) simp
  note exact = SegmentsForCodepoints_exact [OF this, of "IntSet [105]"]
  have m: "members (IntSet [105]) = {105}" by auto
  show ?thesis by (rule exI [of _ info], rule conjI [OF info exact [unfolded m]])
qed

text \<open>
  C31: \<^verbatim>\<open>AnalyzeSegment\<close> over a monotone closure: the three sets are disjoint; the \<open>or\<close> and exclusive
  glyphs are what the segments alone need beyond the initial font; and an \<open>and\<close> or exclusive glyph is
  not needed by any set of segments that has none of the analysed ones.
\<close>

theorem AnalyzeSegment_meaning:
  assumes "closure_monotone closure" and "info_wf info"
    and "members segment_ids \<noteq> {}" and "members segment_ids \<subseteq> {..<length (si_segments info)}"
    and "si_segments_disjoint info \<longrightarrow> separate info segment_ids"
  shows "\<exists>A P E. AnalyzeSegment closure info segment_ids (IntSet_empty, IntSet_empty, IntSet_empty) = Ok (A, P, E) \<and>
    members A \<inter> members P = {} \<and> members A \<inter> members E = {} \<and> members P \<inter> members E = {} \<and>
    members P \<union> members E = needs closure info (members segment_ids) - members (InitFontGlyphs info) \<and>
    members A \<union> members E \<subseteq> members (si_full_closure info) \<and>
    (\<forall>T \<subseteq> {..<length (si_segments info)}. T \<inter> members segment_ids = {} \<longrightarrow>
       (members A \<union> members E) \<inter> needs closure info T = {})"
  using assms(5) by (intro AnalyzeSegment_spec [OF assms(1-4)]) simp

lemma AnalyzeSegment_meaning_witness:
  "\<exists>A P E. AnalyzeSegment ligature_closure ligature_info (IntSet [0]) (IntSet_empty, IntSet_empty, IntSet_empty) = Ok (A, P, E) \<and>
    members P \<union> members E = {1}"
proof -
  have "separate ligature_info (IntSet [0])"
    by (auto simp: separate_def shares_def sd_le_def less_Suc_eq ds_wf_def ds_sorted_def ds_points_def ds_find_def)
  then have sep: "si_segments_disjoint ligature_info \<longrightarrow> separate ligature_info (IntSet [0])" by blast
  have m: "members (IntSet [0]) = {0}" by auto
  have "members (IntSet [0]) \<noteq> {}" "members (IntSet [0]) \<subseteq> {..<length (si_segments ligature_info)}" unfolding m by simp_all
  from AnalyzeSegment_meaning [OF ligature_monotone ligature_info_wf this sep, unfolded m ligature_needs(2)]
  obtain A P E where "AnalyzeSegment ligature_closure ligature_info (IntSet [0]) (IntSet_empty, IntSet_empty, IntSet_empty) = Ok (A, P, E)"
    "members P \<union> members E = {1} - members (InitFontGlyphs ligature_info)" by (elim exE conjE)
  then show ?thesis by simp
qed

section \<open>Conditions of glyphs\<close>

text \<open>
  C33: after any operations on the conditions of glyphs \<^verbatim>\<open>Validate\<close> accepts exactly when the index of
  segments lists precisely the glyphs whose condition names the segment, which is so when no addition
  simplified a segment away; invalidating segments leaves no condition that names one of them.
\<close>

theorem glyph_conditions_indexed:
  assumes "gs_reachable tidy s"
  shows "Validate s = Some (if index_exact s then Inr () else Inl InternalError) \<and> (tidy \<longrightarrow> index_exact s) \<and>
    (\<exists>s'. InvalidateSegments segs s = Some s' \<and> (\<forall>i \<in> members segs. triggers s' i = {}) \<and>
       length (gs_conditions s') = length (gs_conditions s) \<and> (index_exact s \<longrightarrow> index_exact s'))"
  using gs_reachable_inv [OF assms] Validate_exact [of s] InvalidateSegments_spec [of s segs] by blast

lemma glyph_conditions_indexed_witness:
  "\<exists>s. AddOrCondition 3 7 (GlyphConditionSet 5) = Some s \<and> Validate s = Some (Inr ())"
proof -
  let ?c = "or_segments (IntSet [7]) 0 False"
  obtain s where s: "AddOrCondition 3 7 (GlyphConditionSet 5) = Some s" "gs_conditions s ! 3 = ?c"
    by (simp add: AddOrCondition_def AddCondition_def GlyphConditionSet_def IsAlwaysTrue_def AC_True_def set_condition_def Let_def)
  have t: "members (TriggeringSegments ?c) = {7}" "members (TriggeringSegments (gs_conditions (GlyphConditionSet 5) ! 3)) = {}"
    by (auto simp: members_TriggeringSegments or_segments_def GlyphConditionSet_def AC_True_def)
  have "gs_reachable True s" by (rule gs_reachable.add_or [OF _ _ s(1)]) (use t s(2) in \<open>auto intro: gs_reachable.start\<close>)
  from glyph_conditions_indexed [OF this] s show ?thesis by auto
qed

section \<open>Complex conditions\<close>

text \<open>
  C6: the search for complex conditions ends, unless some non empty segment is out of scope it
  succeeds, and it finds for every glyph a set of segments that meets each set of segments needing
  the glyph.
\<close>

theorem complex_conditions_cover:
  assumes "complex_input closure info conditions glyphs"
  shows "(FindSupersetDisjunctiveConditionsFor closure info conditions glyphs inscope = Fail InternalError \<and>
      \<not> members (NonEmptySegments info) \<subseteq> members inscope) \<or>
    (\<exists>out. FindSupersetDisjunctiveConditionsFor closure info conditions glyphs inscope = Ok out \<and>
      (\<forall>g \<in> members glyphs. \<exists>S G. Mapping.lookup out S = Some G \<and> g \<in> members G \<and>
         members S \<subseteq> members (NonEmptySegments info) \<and>
         (\<forall>T \<subseteq> members (NonEmptySegments info). g \<in> needs closure info T \<longrightarrow> T \<inter> members S \<noteq> {})))"
  using assms by (rule FindSuperset_cover)

lemma complex_conditions_cover_witness:
  "\<exists>out S G. FindSupersetDisjunctiveConditionsFor ligature_closure ligature_info (GlyphConditionSet 4) (IntSet [3]) (IntSet [0, 1]) = Ok out \<and>
     Mapping.lookup out S = Some G \<and> 3 \<in> members G \<and> members S \<subseteq> {0, 1} \<and> members S \<noteq> {}"
proof -
  have "complex_input ligature_closure ligature_info (GlyphConditionSet 4) (IntSet [3])"
    using ligature_monotone ligature_info_wf ligature_needs(1)
    by (auto simp: complex_input_def ligature_non_empty less_Suc_eq ligature_closure_def GlyphConditionSet_def
        simple_condition_def IsPurelyDisjunctive_def AC_True_def)
  note cover = complex_conditions_cover [OF this, of "IntSet [0, 1]", unfolded ligature_non_empty]
  have m: "members (IntSet [0, 1]) = {0, 1}" "members (IntSet [3]) = {3}" by auto
  obtain out where out: "FindSupersetDisjunctiveConditionsFor ligature_closure ligature_info (GlyphConditionSet 4) (IntSet [3]) (IntSet [0, 1]) = Ok out"
    and all: "\<forall>g \<in> {3}. \<exists>S G. Mapping.lookup out S = Some G \<and> g \<in> members G \<and> members S \<subseteq> {0, 1} \<and>
      (\<forall>T \<subseteq> {0, 1}. g \<in> needs ligature_closure ligature_info T \<longrightarrow> T \<inter> members S \<noteq> {})"
    using cover unfolding m by blast
  then obtain S G where SG: "Mapping.lookup out S = Some G" "3 \<in> members G" "members S \<subseteq> {0, 1}"
    "\<forall>T \<subseteq> {0, 1}. 3 \<in> needs ligature_closure ligature_info T \<longrightarrow> T \<inter> members S \<noteq> {}" by blast
  have "3 \<in> needs ligature_closure ligature_info {0, 1}" unfolding ligature_needs(1) by simp
  then have "{0, 1} \<inter> members S \<noteq> {}" using SG(4) by blast
  with out SG(1-3) show ?thesis by blast
qed

end
