(* ===== verification/Segmentation_Properties.thy ===== *)
theory Segmentation_Properties
  imports Closure_Requirement Segment_Properties
begin

text \<open>
  Properties of the segmentation context: what it creates, and the glyph closure requirement of what it
  returns.
\<close>

section \<open>Creation\<close>

text \<open>
  C34: the segmentation information that is created from plain segments keeps the invariants that the
  rest relies on: the full definition covers the initial font and every segment, the full closure is
  its closure, and segments that count as disjoint share nothing.
\<close>

theorem created_information:
  assumes "closure_monotone closure"
    and "\<forall>A B. members A \<subseteq> members B \<longrightarrow> members (codepoints_for A) \<subseteq> members (codepoints_for B)"
    and "plain_segments segments" and "sd_wf init"
    and "SegmentationInfo_Create closure codepoints_for segments init handling = Inr info"
  shows "info_wf info \<and> full_ok closure info \<and> disjoint_ok info \<and> length (si_segments info) = length segments"
  by (rule Create_ok [OF assms(1) _ assms(3-5)]) (use assms(2) in blast)

lemma created_information_witness:
  "\<exists>info. SegmentationInfo_Create ligature_closure ligature_codepoints [letter 102, letter 105] (SubsetDefinition []) FIND_CONDITIONS = Inr info \<and>
     length (si_segments info) = 2 \<and> full_ok ligature_closure info"
proof -
  obtain d where d: "ExpandClosure ligature_closure ligature_codepoints (SubsetDefinition []) = Inr d"
    using ExpandClosure_spec [of ligature_closure ligature_codepoints "SubsetDefinition []"] ligature_monotone ligature_codepoints_mono by blast
  obtain i where "ReassignInitSubset ligature_closure ligature_codepoints (SubsetDefinition [])
      (SegmentationInfo [letter 102, letter 105] (SubsetDefinition []) FIND_CONDITIONS) = Inr i"
    unfolding ReassignInitSubset_def d by (simp add: Let_def ligature_closure_def)
  then obtain info where info: "SegmentationInfo_Create ligature_closure ligature_codepoints [letter 102, letter 105] (SubsetDefinition []) FIND_CONDITIONS = Inr info"
    by (simp add: SegmentationInfo_Create_def)
  have plain: "plain_segments [letter 102, letter 105]" by (simp add: plain_segments_def)
  have cps: "\<forall>A B. members A \<subseteq> members B \<longrightarrow> members (ligature_codepoints A) \<subseteq> members (ligature_codepoints B)"
    using ligature_codepoints_mono by blast
  from created_information [OF ligature_monotone cps plain sd_wf_empty info] info show ?thesis by auto
qed

section \<open>The closure requirement\<close>

text \<open>
  C3: the glyph closure requirement: when the context returns a segmentation, then for every set of
  segments the initial font together with the patches whose conditions hold has all glyphs that the
  segments need.
\<close>

theorem closure_requirement:
  assumes "closure_monotone closure" and "info_wf (sc_info c)" and "full_ok closure (sc_info c)" and "disjoint_ok (sc_info c)"
    and "SC_ToGlyphSegmentation closure c = Ok s" and "T \<subseteq> {..<length (si_segments (sc_info c))}"
  shows "needs closure (sc_info c) T \<subseteq> members (InitFontGlyphs (sc_info c)) \<union> loaded s T"
  using assms by (rule SC_ToGlyphSegmentation_requirement)

text \<open>All glyphs in one patch that any letter loads.\<close>

definition fallback_context :: "unit segmentation_context" where
  "fallback_context = \<lparr>sc_info = ligature_info, sc_dependency = None, sc_conditions = GlyphConditionSet 4,
     sc_groupings = (GlyphGroupings 4 False)\<lparr>gg_unmapped_glyphs := IntSet [1, 2, 3]\<rparr>,
     sc_inert_segments = IntSet_empty, sc_mode = CLOSURE_ONLY\<rparr>"

lemma only_unmapped_glyphs:
  assumes "\<not> IntSet_is_empty G" and "gg_unmapped_glyphs g = G" and "cg_conditions (gg_conditions_and_glyphs g) = (\<lambda>_. None)"
  shows "\<exists>s. GG_ToGlyphSegmentation info g = Some s \<and> gseg_init_font_glyph_closure s = InitFontGlyphs info \<and>
    gseg_patches s = Mapping.update 0 G Mapping.empty \<and>
    (\<exists>c. gseg_conditions s = [c] \<and> AC_activated c = 0 \<and> ac_conditions c = [NonEmptySegments info])"
proof -
  have e: "IntSet_union_set IntSet_empty G = G" by (rule int_set_eqI) simp
  show ?thesis using assms
    by (simp add: GG_ToGlyphSegmentation_def condition_entries_def map_filter_def add_fallback_def acm_find_def
        ConditionsToSegmentation_def final_condition_def or_segments_def composite_condition_def AC_activated_def ActivationCondition_def
        GlyphSegmentation_def CopySegments_def Let_def e Simplify_def)
qed

lemma fallback_segmentation: "\<exists>s. SC_ToGlyphSegmentation ligature_closure fallback_context = Ok s"
proof -
  let ?S = "NonEmptySegments ligature_info" and ?G = "IntSet [1, 2, 3]"
  have G: "to_vector ?G = [1, 2, 3]" by (simp add: ift_eval IntSet_def IntSet_insert_all_def)
  then have ne: "\<not> IntSet_is_empty ?G" unfolding IntSet_is_empty_def by simp
  have S: "members ?S = {0, 1}" by (rule ligature_non_empty)
  obtain s where s: "GG_ToGlyphSegmentation ligature_info (sc_groupings fallback_context) = Some s"
    "gseg_init_font_glyph_closure s = IntSet_empty" "gseg_patches s = Mapping.update 0 ?G Mapping.empty"
    "\<exists>c. gseg_conditions s = [c] \<and> AC_activated c = 0 \<and> ac_conditions c = [?S]"
    using only_unmapped_glyphs [OF ne, of "sc_groupings fallback_context" ligature_info]
    by (auto simp: fallback_context_def GlyphGroupings_def ConditionToGlyphsIndex_def)
  then obtain c where c: "gseg_conditions s = [c]" "AC_activated c = 0" "ac_conditions c = [?S]" by blast
  have entries: "Mapping.ordered_entries (Mapping.update 0 ?G Mapping.empty) = [(0 :: nat, ?G)]" 
    by (simp add: ift_eval insort_insert_key_def)
  have "UnionSegments (si_segments ligature_info) (to_vector ?S) (SubsetDefinition []) \<noteq> None"
    unfolding UnionSegments_eq_None using S by auto
  moreover have "filter (\<lambda>s. \<not> IntSet_contains ?S s) [0..<length (si_segments ligature_info)] = []"
    using S by (auto simp: filter_empty_conv less_Suc_eq)
  moreover have "IntSet_size ?S = 2" using S by (simp add: IntSet_size_def flip: distinct_card)
  ultimately have "HasAdditionalConditions ligature_closure ligature_info ?S ?G = Ok False"
    by (auto simp: HasAdditionalConditions_def ComputeExceptSegment_def ligature_closure_def split: option.splits)
  then have "validate_conditions ligature_closure ligature_info (gseg_patches s) (gseg_conditions s) = Ok ()"
    using c s(3) by simp
  moreover have "validate_patches IntSet_empty (Mapping.ordered_entries (gseg_patches s)) IntSet_empty = Inr ?G"
    unfolding s(3) entries using G by (simp add: ift_eval IntSet_def IntSet_insert_all_def)
  moreover have "IntSet_subtract (si_full_closure ligature_info) IntSet_empty = ?G" by (rule int_set_eqI) auto
  ultimately have "ValidateSegmentation ligature_closure ligature_info s = Ok ()" using s(2) by (simp add: ValidateSegmentation_def)
  then show ?thesis using s(1) by (simp add: SC_ToGlyphSegmentation_def fallback_context_def)
qed

lemma closure_requirement_witness:
  "\<exists>s. SC_ToGlyphSegmentation ligature_closure fallback_context = Ok s \<and> {1, 2, 3} \<subseteq> loaded s {0, 1}"
proof -
  obtain s where s: "SC_ToGlyphSegmentation ligature_closure fallback_context = Ok s" using fallback_segmentation by blast
  have info: "sc_info fallback_context = ligature_info" by (simp add: fallback_context_def)
  have full: "full_ok ligature_closure ligature_info"
    by (auto simp: full_ok_def sd_le_def less_Suc_eq ligature_closure_def ds_points_def)
  have dis: "disjoint_ok ligature_info"
    by (auto simp: disjoint_ok_def shares_def less_Suc_eq ds_points_def ds_find_def)
  have "{0, 1} \<subseteq> {..<length (si_segments ligature_info)}" by auto
  from closure_requirement [where c = fallback_context, unfolded info, OF ligature_monotone ligature_info_wf full dis s this]
  have "{1, 2, 3} \<subseteq> loaded s {0, 1}" unfolding ligature_needs(1) by simp
  with s show ?thesis by blast
qed

end
