(* ===== verification/Font_Tables.thy ===== *)
theory Font_Tables
  imports Font_Data Segment_Info Outcome
begin

text \<open>
  Reading fonts (\<^verbatim>\<open>ift/common/font_helper.cc\<close>, \<^verbatim>\<open>.h\<close>). A \<^verbatim>\<open>FontData\<close> is a list of bytes. The faces of harfbuzz
  are the bytes that they were created from; what harfbuzz reads from them, and the fonts it
  builds, are the fields of a record that every function takes as its argument. \<open>None\<close> is an exception.
\<close>

section \<open>Harfbuzz\<close>

text \<open>
  The tables of a face in some order, the glyph count, the data of charstrings, the addresses of tables and
  indices within the font file, nominal glyphs, features, axes, and the face builder, which puts the
  tables into a font file in the given order.
\<close>

record harfbuzz =
  hb_tables :: "bytes \<Rightarrow> (hb_tag \<times> bytes) list"
  hb_glyph_count :: "bytes \<Rightarrow> nat"
  hb_address :: "bytes \<Rightarrow> hb_tag \<Rightarrow> nat"
  hb_charstrings_index :: "hb_tag \<Rightarrow> bytes \<Rightarrow> nat \<times> bytes"
  hb_charstring_data :: "hb_tag \<Rightarrow> bytes \<Rightarrow> nat \<Rightarrow> bytes"
  hb_nominal_glyphs :: "bytes \<Rightarrow> (nat \<times> nat) list"
  hb_unicodes :: "bytes \<Rightarrow> int_set"
  hb_feature_tags :: "bytes \<Rightarrow> hb_tag \<Rightarrow> hb_tag list"
  hb_default_features :: "hb_tag list"
  hb_axes :: "bytes \<Rightarrow> (hb_tag \<times> rat \<times> rat) list"
  hb_build :: "(hb_tag \<times> bytes) list \<Rightarrow> bytes"

definition kIFT :: hb_tag where "kIFT = HB_TAG ''IFT ''"
definition kIFTX :: hb_tag where "kIFTX = HB_TAG ''IFTX''"
definition kLoca :: hb_tag where "kLoca = HB_TAG ''loca''"
definition kGlyf :: hb_tag where "kGlyf = HB_TAG ''glyf''"
definition kHead :: hb_tag where "kHead = HB_TAG ''head''"
definition kGvar :: hb_tag where "kGvar = HB_TAG ''gvar''"
definition kCFF :: hb_tag where "kCFF = HB_TAG ''CFF ''"
definition kCFF2 :: hb_tag where "kCFF2 = HB_TAG ''CFF2''"
definition kGSUB :: hb_tag where "kGSUB = HB_TAG ''GSUB''"
definition kGPOS :: hb_tag where "kGPOS = HB_TAG ''GPOS''"

text \<open>A table that the face does not have is empty.\<close>

definition TableData :: "harfbuzz \<Rightarrow> bytes \<Rightarrow> hb_tag \<Rightarrow> bytes" where
  "TableData hb face tag = (case map_of (hb_tables hb face) tag of None \<Rightarrow> [] | Some b \<Rightarrow> b)"

text \<open>The loop fetches the tags in pages of 64.\<close>

definition GetTags :: "harfbuzz \<Rightarrow> bytes \<Rightarrow> hb_tag set" where
  "GetTags hb face = fst ` set (hb_tables hb face)"

section \<open>Addresses\<close>

definition OffsetTo :: "nat \<Rightarrow> nat \<Rightarrow> nat \<Rightarrow> nat status_or" where
  "OffsetTo start len ptr =
     (if ptr < start \<or> start + len < ptr then Inl InternalError
      else if UINT32_MAX < ptr - start then Inl InternalError else Inr (ptr - start))"

text \<open>The offset of a table in the font file, which starts at address 0; errors count as 0.\<close>

definition table_offset :: "harfbuzz \<Rightarrow> bytes \<Rightarrow> hb_tag \<Rightarrow> nat" where
  "table_offset hb face tag = (if face = [] then 0
     else case OffsetTo 0 (length face) (hb_address hb face tag) of Inl _ \<Rightarrow> 0 | Inr n \<Rightarrow> n)"

text \<open>
  Tags in the order of their tables. \<^verbatim>\<open>std::sort\<close> leaves tags of equal offset in any order; here they keep
  the order of \<open>hb_tables\<close>.
\<close>

definition GetOrderedTags :: "harfbuzz \<Rightarrow> bytes \<Rightarrow> hb_tag list" where
  "GetOrderedTags hb face = sort_key (table_offset hb face) (remdups (map fst (hb_tables hb face)))"

text \<open>The charstrings index of \<^verbatim>\<open>CFF\<close> and \<^verbatim>\<open>CFF2\<close> tables: its offset in the table.\<close>

definition CharStringsOffset :: "harfbuzz \<Rightarrow> hb_tag \<Rightarrow> bytes \<Rightarrow> nat option status_or" where
  "CharStringsOffset hb tag face =
     (if TableData hb face tag = [] then Inr None
      else TRY (OffsetTo (hb_address hb face tag) (length (TableData hb face tag)) (fst (hb_charstrings_index hb tag face)))
        (\<lambda>n. Inr (Some n)))"

definition CffCharStringsOffset :: "harfbuzz \<Rightarrow> bytes \<Rightarrow> nat option status_or" where
  "CffCharStringsOffset hb face = CharStringsOffset hb kCFF face"

definition Cff2CharStringsOffset :: "harfbuzz \<Rightarrow> bytes \<Rightarrow> nat option status_or" where
  "Cff2CharStringsOffset hb face = CharStringsOffset hb kCFF2 face"

text \<open>The \<^verbatim>\<open>CFF2\<close> table without its charstrings, and the charstrings.\<close>

definition Cff2GetCharstrings :: "harfbuzz \<Rightarrow> bytes \<Rightarrow> (bytes \<times> bytes) status_or" where
  "Cff2GetCharstrings hb face =
     (let cff2_data = TableData hb face kCFF2; (charstrings_start, charstrings) = hb_charstrings_index hb kCFF2 face
      in TRY (OffsetTo (hb_address hb face kCFF2) (length cff2_data) charstrings_start) (\<lambda>non_charstrings_length.
           Inr (take non_charstrings_length cff2_data, charstrings)))"

section \<open>Glyph data\<close>

definition HasLongLoca :: "harfbuzz \<Rightarrow> bytes \<Rightarrow> bool status_or" where
  "HasLongLoca hb face = (let head = TableData hb face kHead
     in if length head < 52 then Inl InvalidArgumentError else Inr (head ! 51 \<noteq> 0))"

definition HasWideGvar :: "harfbuzz \<Rightarrow> bytes \<Rightarrow> bool" where
  "HasWideGvar hb face = (let gvar = TableData hb face kGvar
     in if gvar = [] then False else if length gvar < 16 then False else gvar ! 15 AND 1 \<noteq> 0)"

definition Loca :: "harfbuzz \<Rightarrow> bytes \<Rightarrow> bytes status_or" where
  "Loca hb face = (let result = TableData hb face kLoca in if result = [] then Inl NotFoundError else Inr result)"

definition GlyfData :: "harfbuzz \<Rightarrow> bytes \<Rightarrow> nat \<Rightarrow> bytes outcome" where
  "GlyfData hb face gid = OTRY (Some (Loca hb face)) (\<lambda>loca.
     let head = TableData hb face kHead; glyf = TableData hb face kGlyf
     in if length head < 52 then Fail InvalidArgumentError
        else if head ! 51 = 0 then DataFor 2 2 loca glyf (of_nat gid) else DataFor 4 1 loca glyf (of_nat gid))"

text \<open>\<^verbatim>\<open>substr\<close> throws when the position lies behind the end.\<close>

definition substr :: "nat \<Rightarrow> bytes \<Rightarrow> bytes option" where
  "substr pos s = (if length s < pos then None else Some (drop pos s))"

definition GvarData :: "harfbuzz \<Rightarrow> bytes \<Rightarrow> nat \<Rightarrow> bytes outcome" where
  "GvarData hb face gid =
     (let gvar = TableData hb face kGvar
      in if gvar = [] then Fail NotFoundError
         else if length gvar < 20 then Fail InvalidArgumentError
         else OTRY (Some (ReadUInt16 (drop 12 gvar))) (\<lambda>glyph_count.
              OTRY (Some (ReadUInt32 (drop 16 gvar))) (\<lambda>data_offset.
                case substr (nat data_offset) gvar of None \<Rightarrow> None
                | Some glyph_data \<Rightarrow>
                    if gvar ! 15 AND 1 \<noteq> 0
                    then DataFor 4 1 (take ((nat glyph_count + 1) * 4) (drop 20 gvar)) glyph_data (of_nat gid)
                    else DataFor 2 2 (take ((nat glyph_count + 1) * 2) (drop 20 gvar)) glyph_data (of_nat gid))))"

definition GvarSharedTupleCount :: "harfbuzz \<Rightarrow> bytes \<Rightarrow> int status_or" where
  "GvarSharedTupleCount hb face = (let gvar = TableData hb face kGvar
     in if gvar = [] then Inl NotFoundError else if length gvar < 8 then Inl InvalidArgumentError
        else ReadUInt16 (drop 6 gvar))"

definition CffData :: "harfbuzz \<Rightarrow> bytes \<Rightarrow> nat \<Rightarrow> bytes" where "CffData hb = hb_charstring_data hb kCFF"
definition Cff2Data :: "harfbuzz \<Rightarrow> bytes \<Rightarrow> nat \<Rightarrow> bytes" where "Cff2Data hb = hb_charstring_data hb kCFF2"

definition add_size :: "bool \<Rightarrow> bytes outcome \<Rightarrow> nat \<Rightarrow> nat outcome" where
  "add_size present data sofar = (if present then OTRY data (\<lambda>d. Ok ((sofar + length d) mod TWO32)) else Ok sofar)"

definition TotalGlyphData :: "harfbuzz \<Rightarrow> bytes \<Rightarrow> int_set \<Rightarrow> nat outcome" where
  "TotalGlyphData hb face gids = (let tags = GetTags hb face
     in OTRY_fold (\<lambda>gid sofar.
          OTRY (add_size (kGlyf \<in> tags) (GlyfData hb face gid) sofar) (\<lambda>sofar.
          OTRY (add_size (kGvar \<in> tags) (GvarData hb face gid) sofar) (\<lambda>sofar.
          OTRY (add_size (kCFF \<in> tags) (Ok (CffData hb face gid)) sofar) (\<lambda>sofar.
            add_size (kCFF2 \<in> tags) (Ok (Cff2Data hb face gid)) sofar)))) (to_vector gids) 0)"

section \<open>Characters, features and axes\<close>

definition GidToUnicodeMap :: "harfbuzz \<Rightarrow> bytes \<Rightarrow> nat \<Rightarrow> int_set option" where
  "GidToUnicodeMap hb face = fold (\<lambda>(cp, gid) m.
     m(gid \<mapsto> IntSet_insert cp (case m gid of None \<Rightarrow> IntSet_empty | Some S \<Rightarrow> S))) (hb_nominal_glyphs hb face) Map.empty"

definition GidsToUnicodes :: "harfbuzz \<Rightarrow> bytes \<Rightarrow> int_set \<Rightarrow> int_set" where
  "GidsToUnicodes hb face gids = (let gid_to_unicode = GidToUnicodeMap hb face
     in fold (\<lambda>gid result. case gid_to_unicode gid of None \<Rightarrow> result | Some S \<Rightarrow> IntSet_union_set result S) (to_vector gids) IntSet_empty)"

definition GetNominalGlyph :: "harfbuzz \<Rightarrow> bytes \<Rightarrow> nat \<Rightarrow> nat status_or" where
  "GetNominalGlyph hb face codepoint = (case map_of (hb_nominal_glyphs hb face) codepoint of None \<Rightarrow> Inl NotFoundError | Some g \<Rightarrow> Inr g)"

definition GetFeatureTags :: "harfbuzz \<Rightarrow> bytes \<Rightarrow> hb_tag list" where
  "GetFeatureTags hb face = fold ins_sorted (hb_feature_tags hb face kGPOS) (fold ins_sorted (hb_feature_tags hb face kGSUB) [])"

definition GetNonDefaultFeatureTags :: "harfbuzz \<Rightarrow> bytes \<Rightarrow> hb_tag list" where
  "GetNonDefaultFeatureTags hb face = filter (\<lambda>t. \<not> List.member (hb_default_features hb) t) (GetFeatureTags hb face)"

definition GetDesignSpace :: "harfbuzz \<Rightarrow> bytes \<Rightarrow> design_space status_or" where
  "GetDesignSpace hb face = TRY_fold (\<lambda>(tag, lo, hi) result. TRY (AR_Range lo hi) (\<lambda>r. Inr (ds_set tag r result)))
     (hb_axes hb face) []"

text \<open>A tag as a string of four characters, and back.\<close>

definition tag_string :: "hb_tag \<Rightarrow> bytes" where
  "tag_string tag = WriteUInt32 (int tag) []"

definition string_tag :: "bytes \<Rightarrow> hb_tag" where
  "string_tag s = unat (s ! 0) * 2 ^ 24 + unat (s ! 1) * 2 ^ 16 + unat (s ! 2) * 2 ^ 8 + unat (s ! 3)"

end
