(* ===== verification/Table_Keyed.thy ===== *)
theory Table_Keyed
  imports Font_Tables Outcome Format_2_Decode
begin

text \<open>
  Table keyed patches (\<^verbatim>\<open>ift/table_keyed_diff.cc\<close>, \<^verbatim>\<open>.h\<close>): a brotli diff for every table that changes. Tags
  stand for their strings, which are ordered alike. The brotli diff of two tables is the argument
  \<open>brotli_diff\<close>; the cache maps pairs of tables to diffs, where an entry without a diff counts as no entry.
\<close>

type_synonym table_diff_cache = "bytes \<times> bytes \<Rightarrow> bytes option"

record table_keyed_diff =
  tk_base_compat_id :: compat_id
  tk_excluded_tags :: "hb_tag list"
  tk_replaced_tags :: "hb_tag list"

definition TableKeyedDiff :: "compat_id \<Rightarrow> hb_tag list \<Rightarrow> hb_tag list \<Rightarrow> table_keyed_diff" where
  "TableKeyedDiff base_compat_id excluded_tags replaced_tags =
     \<lparr>tk_base_compat_id = base_compat_id, tk_excluded_tags = excluded_tags, tk_replaced_tags = replaced_tags\<rparr>"

definition AddAllMatching :: "table_keyed_diff \<Rightarrow> hb_tag list \<Rightarrow> hb_tag list \<Rightarrow> hb_tag list" where
  "AddAllMatching d tags result = fold (\<lambda>t result. if \<not> List.member (tk_excluded_tags d) t then ins_sorted t result else result)
     tags result"

definition TagsToDiff :: "table_keyed_diff \<Rightarrow> hb_tag list \<Rightarrow> hb_tag list \<Rightarrow> hb_tag list" where
  "TagsToDiff d before after = AddAllMatching d after (AddAllMatching d before [])"

section \<open>The diffs of the tables\<close>

text \<open>The local maps of \<^verbatim>\<open>Diff\<close>, and the cache when there is one.\<close>

record table_diffs =
  td_cache :: "table_diff_cache option"
  td_patches :: "hb_tag \<Rightarrow> (nat \<times> bytes) option"
  td_new_tables :: "hb_tag list"
  td_unchanged_tables :: "hb_tag list"

definition cached_diff :: "(bytes \<Rightarrow> bytes \<Rightarrow> bytes status_or) \<Rightarrow> bytes \<Rightarrow> bytes \<Rightarrow> table_diff_cache option \<Rightarrow>
    (table_diff_cache option \<times> bytes) status_or" where
  "cached_diff brotli_diff base derived cache = (case cache of
      None \<Rightarrow> TRY (brotli_diff base derived) (\<lambda>p. Inr (None, p))
    | Some c \<Rightarrow> (case c (base, derived) of Some p \<Rightarrow> Inr (cache, p)
        | None \<Rightarrow> TRY (brotli_diff base derived) (\<lambda>p. Inr (Some (c((base, derived) \<mapsto> p)), p))))"

definition diff_table :: "harfbuzz \<Rightarrow> (bytes \<Rightarrow> bytes \<Rightarrow> bytes status_or) \<Rightarrow> table_keyed_diff \<Rightarrow> bytes \<Rightarrow> bytes \<Rightarrow> hb_tag \<Rightarrow>
    table_diffs \<Rightarrow> table_diffs status_or" where
  "diff_table hb brotli_diff d font_base font_derived t s =
     (let in_base = t \<in> GetTags hb font_base; in_derived = t \<in> GetTags hb font_derived
      in if in_base \<and> \<not> in_derived then Inr s
         else let replaced = List.member (tk_replaced_tags d) t;
                  base_table = (if \<not> replaced \<and> in_base then TableData hb font_base t else []);
                  s = (if \<not> replaced \<and> \<not> in_base then s\<lparr>td_new_tables := List.insert t (td_new_tables s)\<rparr> else s);
                  derived_table = TableData hb font_derived t
           in if base_table = derived_table then Inr (s\<lparr>td_unchanged_tables := List.insert t (td_unchanged_tables s)\<rparr>)
              else TRY (cached_diff brotli_diff base_table derived_table (td_cache s)) (\<lambda>(cache, table_patch).
                     Inr (s\<lparr>td_cache := cache, td_patches := (td_patches s)(t \<mapsto> (length derived_table, table_patch))\<rparr>)))"

section \<open>The format\<close>

text \<open>Offsets are 32 bit and wrap without an error.\<close>

definition patch_size :: "table_diffs \<Rightarrow> hb_tag \<Rightarrow> nat" where
  "patch_size s tag = 9 + (case td_patches s tag of None \<Rightarrow> 0 | Some (_, p) \<Rightarrow> length p)"

fun write_offsets :: "table_diffs \<Rightarrow> hb_tag list \<Rightarrow> nat \<Rightarrow> bytes \<Rightarrow> bytes" where
  "write_offsets s [] current_offset data = WriteUInt32 (int current_offset) data"
| "write_offsets s (tag # tags) current_offset data =
     write_offsets s tags ((current_offset + patch_size s tag) mod TWO32) (WriteUInt32 (int current_offset) data)"

definition write_table_patch :: "table_keyed_diff \<Rightarrow> table_diffs \<Rightarrow> hb_tag \<Rightarrow> bytes \<Rightarrow> bytes status_or" where
  "write_table_patch d s tag data =
     (let data = WriteUInt32 (int tag) data
      in case td_patches s tag of
           None \<Rightarrow> TRY (WRITE_UINT8 2 data) (\<lambda>data. Inr (WriteUInt32 0 data))
         | Some (len, patch_data) \<Rightarrow>
             TRY (if List.member (tk_replaced_tags d) tag \<or> List.member (td_new_tables s) tag then WRITE_UINT8 1 data else WRITE_UINT8 0 data)
               (\<lambda>data. Inr (WriteUInt32 (int len) data @ patch_data)))"

definition write_patch :: "table_keyed_diff \<Rightarrow> table_diffs \<Rightarrow> hb_tag list \<Rightarrow> bytes status_or" where
  "write_patch d s diff_tags =
     (let data = CompatId_WriteTo (tk_base_compat_id d) (WriteUInt32 0 (WriteUInt32 (int (HB_TAG ''iftk'')) []))
      in TRY (WRITE_UINT16 (int (length diff_tags)) data) (\<lambda>data.
           let current_offset = (length data + (length diff_tags + 1) * 4) mod TWO32
           in TRY_fold (write_table_patch d s) diff_tags (write_offsets s diff_tags current_offset data)))"

text \<open>The patch, and the cache as it is left.\<close>

definition TK_Diff :: "harfbuzz \<Rightarrow> (bytes \<Rightarrow> bytes \<Rightarrow> bytes status_or) \<Rightarrow> table_keyed_diff \<Rightarrow> table_diff_cache option \<Rightarrow> bytes \<Rightarrow> bytes \<Rightarrow>
    (table_diff_cache option \<times> bytes) status_or" where
  "TK_Diff hb brotli_diff d cache font_base font_derived =
     (let diff_tags = TagsToDiff d (map fst (hb_tables hb font_base)) (map fst (hb_tables hb font_derived))
      in TRY (TRY_fold (diff_table hb brotli_diff d font_base font_derived) diff_tags
               \<lparr>td_cache = cache, td_patches = Map.empty, td_new_tables = [], td_unchanged_tables = []\<rparr>) (\<lambda>s.
         let diff_tags = filter (\<lambda>t. \<not> List.member (td_unchanged_tables s) t) diff_tags
         in TRY (write_patch d s diff_tags) (\<lambda>patch. Inr (td_cache s, patch))))"


section \<open>Applying a patch\<close>

text \<open>
  A reader of table keyed patches and their application to the tables of a font, written after the IFT
  specification, and the proof that a patch turns the tables of the base into those of the derived font.
\<close>

unbundle bit_operations_syntax

section \<open>Reading and applying\<close>

type_synonym table_patch = "hb_tag \<times> int \<times> nat \<times> bytes"

fun TRY_map :: "('x \<Rightarrow> 'y status_or) \<Rightarrow> 'x list \<Rightarrow> 'y list status_or" where
  "TRY_map f [] = Inr []"
| "TRY_map f (x # xs) = TRY (f x) (\<lambda>y. TRY (TRY_map f xs) (\<lambda>ys. Inr (y # ys)))"

definition entry_parser :: "(int \<times> int \<times> int) parser" where
  "entry_parser = bindp u32 (\<lambda>tag. bindp u8 (\<lambda>flags. bindp u32 (\<lambda>len. returnp (tag, flags, len))))"

definition parse_table_patch :: "bytes \<Rightarrow> table_patch status_or" where
  "parse_table_patch bs = TRY (entry_parser bs) (\<lambda>((tag, flags, len), stream). Inr (nat tag, flags, nat len, stream))"

definition header_parser :: "(int \<times> int list \<times> int list) parser" where
  "header_parser = bindp u32 (\<lambda>format. bindp u32 (\<lambda>reserved. bindp (manyp 4 u32) (\<lambda>compat_id.
     bindp u16 (\<lambda>n. bindp (manyp (nat n + 1) u32) (\<lambda>offsets. returnp (format, compat_id, offsets))))))"

definition parse_patch :: "bytes \<Rightarrow> (int \<times> int list \<times> table_patch list) status_or" where
  "parse_patch bs = TRY (header_parser bs) (\<lambda>((format, compat_id, offsets), _).
     TRY (TRY_map parse_table_patch (slices (map nat offsets) bs)) (\<lambda>ps. Inr (format, compat_id, ps)))"

text \<open>Flag 2 drops the table; flag 1 decodes without the table of the base as dictionary.\<close>

type_synonym tables = "hb_tag \<Rightarrow> bytes option"

definition patched_table :: "(bytes \<Rightarrow> bytes \<Rightarrow> nat \<Rightarrow> bytes option) \<Rightarrow> tables \<Rightarrow> table_patch \<Rightarrow> bytes option option" where
  "patched_table decode base = (\<lambda>(tag, flags, len, stream).
     if flags AND 2 \<noteq> 0 then Some None
     else case (if flags AND 1 \<noteq> 0 then Some [] else base tag) of None \<Rightarrow> None
       | Some dict \<Rightarrow> map_option Some (decode dict stream len))"

fun apply_table_patches :: "(bytes \<Rightarrow> bytes \<Rightarrow> nat \<Rightarrow> bytes option) \<Rightarrow> tables \<Rightarrow> table_patch list \<Rightarrow> tables \<Rightarrow> tables option" where
  "apply_table_patches decode base [] m = Some m"
| "apply_table_patches decode base (p # ps) m = (case patched_table decode base p of None \<Rightarrow> None
     | Some r \<Rightarrow> apply_table_patches decode base ps (m(fst p := r)))"

section \<open>Offsets\<close>

lemma write_offsets_sums:
  assumes "n + sum_list (map (patch_size s) tags) < TWO32"
  shows "write_offsets s tags n data = fold WriteUInt32 (map int (partial_sums n (map (patch_size s) tags))) data"
  using assms by (induction tags arbitrary: n data) (simp_all add: add.assoc)

section \<open>What the writer writes\<close>

definition entry_flags :: "table_keyed_diff \<Rightarrow> table_diffs \<Rightarrow> hb_tag \<Rightarrow> int" where
  "entry_flags d s tag = (if td_patches s tag = None then 2
     else if List.member (tk_replaced_tags d) tag \<or> List.member (td_new_tables s) tag then 1 else 0)"

definition entry_of :: "table_keyed_diff \<Rightarrow> table_diffs \<Rightarrow> hb_tag \<Rightarrow> table_patch" where
  "entry_of d s tag = (tag, entry_flags d s tag, case td_patches s tag of None \<Rightarrow> (0, []) | Some p \<Rightarrow> p)"

definition entry_ok :: "table_diffs \<Rightarrow> hb_tag \<Rightarrow> bool" where
  "entry_ok s tag \<longleftrightarrow> tag < TWO32 \<and> (\<forall>len p. td_patches s tag = Some (len, p) \<longrightarrow> len < TWO32)"

lemma WRITE_UINT8_flag: "f < 256 \<Longrightarrow> 0 \<le> f \<Longrightarrow> WRITE_UINT8 f data = Inr (WriteUInt8 f data)"
  by (simp add: WRITE_UINT8_def WillIntOverflow_def to_unsigned_def)

lemma write_table_patch_entry:
  assumes "write_table_patch d s tag data = Inr out" and "entry_ok s tag"
  shows "\<exists>bs. out = data @ bs \<and> length bs = patch_size s tag \<and> parse_table_patch bs = Inr (entry_of d s tag)"
proof -
  let ?f = "entry_flags d s tag"
  obtain len stream where "(case td_patches s tag of None \<Rightarrow> (0, []) | Some p \<Rightarrow> p) = (len, stream)" by fastforce
  then have e: "entry_of d s tag = (tag, ?f, len, stream)" by (simp add: entry_of_def)
  have len: "len < TWO32" and tag: "tag < TWO32" and size: "patch_size s tag = 9 + length stream"
    using e assms(2) by (auto simp: entry_of_def entry_ok_def patch_size_def split: option.splits)
  have f: "0 \<le> ?f \<and> ?f < 2 ^ 8" by (simp add: entry_flags_def)
  have out: "out = WriteUInt32 (int len) (WriteUInt8 ?f (WriteUInt32 (int tag) data)) @ stream"
    using assms(1) e by (auto simp: write_table_patch_def entry_of_def entry_flags_def WRITE_UINT8_flag split: option.splits if_splits)
  let ?w = "\<lambda>out. TRY (Inr (WriteUInt32 (int tag) out)) (\<lambda>out. TRY (Inr (WriteUInt8 ?f out)) (\<lambda>out. TRY (Inr (WriteUInt32 (int len) out)) Inr))"
  have rb: "reads_back ?w entry_parser (int tag, ?f, int len)"
    unfolding entry_parser_def
    by (rule reads_back_bind, rule u32.parses_back, use tag in simp, rule reads_back_bind, rule u8.parses_back, rule f,
        rule reads_back_bind, rule u32.parses_back, use len in simp, rule reads_back_return)
  have "?w data = Inr (WriteUInt32 (int len) (WriteUInt8 ?f (WriteUInt32 (int tag) data)))" by simp
  from reads_backD [OF rb this] obtain bs where bs: "WriteUInt32 (int len) (WriteUInt8 ?f (WriteUInt32 (int tag) data)) = data @ bs"
    "parses entry_parser bs (int tag, ?f, int len)" by blast
  have "length (data @ bs) = length data + 9" by (simp only: bs(1) [symmetric] u8.write_length u32.write_length)
  then have "length (bs @ stream) = patch_size s tag" by (simp add: size)
  moreover have "parse_table_patch (bs @ stream) = Inr (entry_of d s tag)"
    using bs(2) by (simp add: parse_table_patch_def parses_def e)
  ultimately show ?thesis using out bs(1) by (intro exI [of _ "bs @ stream"]) simp
qed

lemma write_table_patches:
  assumes "TRY_fold (write_table_patch d s) tags data = Inr out" and "\<forall>t \<in> set tags. entry_ok s t"
  shows "\<exists>bss. out = data @ concat bss \<and> map length bss = map (patch_size s) tags \<and>
    TRY_map parse_table_patch bss = Inr (map (entry_of d s) tags)"
  using assms
proof (induction tags arbitrary: data)
  case Nil
  then show ?case by (intro exI [of _ "[]"]) simp
next
  case (Cons t tags)
  from Cons.prems(1) obtain o1 where o1: "write_table_patch d s t data = Inr o1" "TRY_fold (write_table_patch d s) tags o1 = Inr out"
    by (auto simp: TRY_eq_Inr)
  from write_table_patch_entry [OF o1(1)] Cons.prems(2) obtain bs where bs: "o1 = data @ bs" "length bs = patch_size s t"
    "parse_table_patch bs = Inr (entry_of d s t)" by auto
  from Cons.IH [OF o1(2)] Cons.prems(2) obtain bss where "out = o1 @ concat bss" "map length bss = map (patch_size s) tags"
    "TRY_map parse_table_patch bss = Inr (map (entry_of d s) tags)" by auto
  with bs show ?case by (intro exI [of _ "bs # bss"]) simp
qed

section \<open>The whole patch\<close>

lemma write_patch_parses:
  assumes run: "write_patch d s tags = Inr out" and ok: "\<forall>t \<in> set tags. entry_ok s t" and small: "length out < TWO32"
  shows "parse_patch out = Inr (int (HB_TAG ''iftk''), CompatId_values (tk_base_compat_id d), map (entry_of d s) tags)"
proof -
  let ?n = "length tags"
  let ?head = "CompatId_WriteTo (tk_base_compat_id d) (WriteUInt32 0 (WriteUInt32 (int (HB_TAG ''iftk'')) []))"
  obtain data where data: "WRITE_UINT16 (int ?n) ?head = Inr data" using run by (auto simp: write_patch_def Let_def TRY_eq_Inr)
  let ?start = "length data + (?n + 1) * 4"
  let ?offs = "write_offsets s tags (?start mod TWO32) data"
  have body: "TRY_fold (write_table_patch d s) tags ?offs = Inr out"
    using run data by (auto simp: write_patch_def Let_def)
  from write_table_patches [OF body ok] obtain bss where bss: "out = ?offs @ concat bss" "map length bss = map (patch_size s) tags"
    "TRY_map parse_table_patch bss = Inr (map (entry_of d s) tags)" by blast
  have len_offs: "length (write_offsets s ts k o') = length o' + 4 * (length ts + 1)" for ts k o'
    by (induction ts arbitrary: k o') (simp_all add: u32.write_length)
  have total: "length out = ?start + sum_list (map (patch_size s) tags)"
    by (simp add: bss(1) len_offs length_concat bss(2))
  then have start: "?start mod TWO32 = ?start" using small by simp
  let ?sums = "partial_sums ?start (map (patch_size s) tags)"
  have offs: "?offs = fold WriteUInt32 (map int ?sums) data"
    unfolding start by (rule write_offsets_sums) (use total small in simp)
  have range: "\<forall>v \<in> set (map int ?sums). 0 \<le> v \<and> v < 2 ^ 32"
    using partial_sums_bound [of _ ?start "map (patch_size s) tags"] total small by fastforce
  let ?w = "\<lambda>out. TRY (Inr (WriteUInt32 (int (HB_TAG ''iftk'')) out)) (\<lambda>out. TRY (Inr (WriteUInt32 0 out))
    (\<lambda>out. TRY (TRY_fold (\<lambda>v o'. Inr (WriteUInt32 v o')) (CompatId_values (tk_base_compat_id d)) out)
    (\<lambda>out. TRY (WRITE_UINT16 (int ?n) out) (\<lambda>out. TRY (TRY_fold (\<lambda>v o'. Inr (WriteUInt32 v o')) (map int ?sums) out) Inr))))"
  have many: "reads_back (TRY_fold (\<lambda>v o'. Inr (WriteUInt32 v o')) vs) (manyp (length vs) u32) vs"
    if "\<forall>v \<in> set vs. 0 \<le> v \<and> v < 2 ^ 32" for vs
    using reads_back_many [of vs "\<lambda>v o'. Inr (WriteUInt32 v o')" u32 id] u32.parses_back that by auto
  have id: "reads_back (TRY_fold (\<lambda>v o'. Inr (WriteUInt32 v o')) (CompatId_values (tk_base_compat_id d))) (manyp 4 u32)
      (CompatId_values (tk_base_compat_id d))"
    using many [OF CompatId_values_range, of "tk_base_compat_id d"] by simp
  have sums: "reads_back (TRY_fold (\<lambda>v o'. Inr (WriteUInt32 v o')) (map int ?sums)) (manyp (nat (int ?n) + 1) u32) (map int ?sums)"
    using many [OF range] by simp
  have u32: "reads_back (\<lambda>out. Inr (WriteUInt32 v out)) u32 v" if "0 \<le> v" "v < 2 ^ 32" for v
    using u32.parses_back that by blast
  have tag: "0 \<le> int (HB_TAG ''iftk'')" "int (HB_TAG ''iftk'') < 2 ^ 32" by (simp_all add: HB_TAG_def)
  have "reads_back ?w header_parser (int (HB_TAG ''iftk''), CompatId_values (tk_base_compat_id d), map int ?sums)"
    unfolding header_parser_def
    by (rule reads_back_bind, rule u32 [OF tag], rule reads_back_bind, rule u32, simp, simp, rule reads_back_bind, rule id,
        rule reads_back_bind, rule WRITE_UINT16_reads, rule reads_back_bind, rule sums, rule reads_back_return)
  moreover have "?w [] = Inr ?offs"
    using data offs by (simp add: fold_eq_TRY_fold CompatId_WriteTo_fold)
  ultimately obtain bs where bs: "?offs = bs" "parses header_parser bs (int (HB_TAG ''iftk''), CompatId_values (tk_base_compat_id d), map int ?sums)"
    using reads_backD by fastforce
  have "slices ?sums out = bss"
    using slices_concat [of ?offs bss] bss(2) len_offs [of tags "?start mod TWO32" data] by (simp add: bss(1) algebra_simps)
  then show ?thesis
    using bs(2) bss(3) unfolding parse_patch_def bss(1) bs(1) parses_def by (simp add: comp_def bss(1) bs(1))
qed

section \<open>What the diffs are\<close>

definition cache_ok :: "(bytes \<Rightarrow> bytes \<Rightarrow> bytes status_or) \<Rightarrow> table_diff_cache option \<Rightarrow> bool" where
  "cache_ok brotli_diff cache \<longleftrightarrow> (\<forall>c b d p. cache = Some c \<longrightarrow> c (b, d) = Some p \<longrightarrow> brotli_diff b d = Inr p)"

lemma cached_diff_ok:
  assumes "cached_diff brotli_diff b d cache = Inr (cache', p)" and "cache_ok brotli_diff cache"
  shows "brotli_diff b d = Inr p \<and> cache_ok brotli_diff cache'"
  using assms unfolding cached_diff_def cache_ok_def
  by (auto simp: TRY_eq_Inr split: option.splits if_splits)

abbreviation tables_of :: "harfbuzz \<Rightarrow> bytes \<Rightarrow> tables" where
  "tables_of hb face \<equiv> map_of (hb_tables hb face)"

lemma GetTags_tables: "t \<in> GetTags hb face \<longleftrightarrow> tables_of hb face t \<noteq> None"
  by (auto simp: GetTags_def map_of_eq_None_iff)

text \<open>The dictionary of a table.\<close>

definition dictionary :: "table_keyed_diff \<Rightarrow> tables \<Rightarrow> hb_tag \<Rightarrow> bytes" where
  "dictionary d base t = (if List.member (tk_replaced_tags d) t then [] else case base t of None \<Rightarrow> [] | Some b \<Rightarrow> b)"

text \<open>What the loop over the tags has recorded for the tags that it has seen.\<close>

definition tag_ok :: "(bytes \<Rightarrow> bytes \<Rightarrow> bytes status_or) \<Rightarrow> table_keyed_diff \<Rightarrow> tables \<Rightarrow> tables \<Rightarrow> hb_tag \<Rightarrow>
    bool \<Rightarrow> (nat \<times> bytes) option \<Rightarrow> bool \<Rightarrow> bool \<Rightarrow> bool" where
  "tag_ok brotli_diff d base derived t seen patch is_new unchanged \<longleftrightarrow>
     (patch = None \<longleftrightarrow> \<not> seen \<or> derived t = None \<or> derived t = Some (dictionary d base t)) \<and>
     (\<forall>len p. patch = Some (len, p) \<longrightarrow> (\<exists>D. derived t = Some D \<and> len = length D \<and> brotli_diff (dictionary d base t) D = Inr p)) \<and>
     (is_new \<longleftrightarrow> seen \<and> derived t \<noteq> None \<and> base t = None \<and> \<not> List.member (tk_replaced_tags d) t) \<and>
     (unchanged \<longleftrightarrow> seen \<and> derived t = Some (dictionary d base t))"

definition diffs_ok :: "(bytes \<Rightarrow> bytes \<Rightarrow> bytes status_or) \<Rightarrow> table_keyed_diff \<Rightarrow> tables \<Rightarrow> tables \<Rightarrow> hb_tag set \<Rightarrow> table_diffs \<Rightarrow> bool" where
  "diffs_ok brotli_diff d base derived seen s \<longleftrightarrow> cache_ok brotli_diff (td_cache s) \<and>
     (\<forall>t. tag_ok brotli_diff d base derived t (t \<in> seen) (td_patches s t) (t \<in> set (td_new_tables s)) (t \<in> set (td_unchanged_tables s)))"

lemma diff_table_ok:
  assumes run: "diff_table hb brotli_diff d font_base font_derived t s = Inr s'"
    and ok: "diffs_ok brotli_diff d (tables_of hb font_base) (tables_of hb font_derived) seen s"
    and t: "t \<notin> seen" "t \<in> GetTags hb font_base \<union> GetTags hb font_derived"
  shows "diffs_ok brotli_diff d (tables_of hb font_base) (tables_of hb font_derived) (insert t seen) s'"
proof -
  let ?base = "tables_of hb font_base" and ?derived = "tables_of hb font_derived"
  let ?dict = "dictionary d ?base t" and ?new = "?base t = None \<and> \<not> List.member (tk_replaced_tags d) t"
  let ?s = "if ?new then s\<lparr>td_new_tables := List.insert t (td_new_tables s)\<rparr> else s"
  have unseen: "td_patches s t = None" "t \<notin> set (td_new_tables s)" "t \<notin> set (td_unchanged_tables s)"
    using ok t(1) unfolding diffs_ok_def tag_ok_def by blast+
  have rest: ?thesis
    if same: "\<And>u. u \<noteq> t \<Longrightarrow> td_patches s' u = td_patches s u \<and> (u \<in> set (td_new_tables s') \<longleftrightarrow> u \<in> set (td_new_tables s)) \<and>
        (u \<in> set (td_unchanged_tables s') \<longleftrightarrow> u \<in> set (td_unchanged_tables s))"
      and cache: "cache_ok brotli_diff (td_cache s')"
      and at_t: "tag_ok brotli_diff d ?base ?derived t True (td_patches s' t) (t \<in> set (td_new_tables s')) (t \<in> set (td_unchanged_tables s'))"
    unfolding diffs_ok_def
  proof (intro conjI allI cache)
    fix u
    show "tag_ok brotli_diff d ?base ?derived u (u \<in> insert t seen) (td_patches s' u) (u \<in> set (td_new_tables s')) (u \<in> set (td_unchanged_tables s'))"
      using at_t same [of u] ok unfolding diffs_ok_def by (cases "u = t") auto
  qed
  have cache: "cache_ok brotli_diff (td_cache s)" using ok by (simp add: diffs_ok_def)
  show ?thesis
  proof (cases "?derived t")
    case None
    with run t(2) have "s' = s" by (auto simp: diff_table_def GetTags_tables)
    then show ?thesis using cache unseen None by (intro rest) (simp_all add: tag_ok_def)
  next
    case (Some D)
    have tables: "TableData hb font_derived t = D" "t \<in> GetTags hb font_derived"
      "(if \<not> List.member (tk_replaced_tags d) t \<and> t \<in> GetTags hb font_base then TableData hb font_base t else []) = ?dict"
      "(if \<not> List.member (tk_replaced_tags d) t \<and> t \<notin> GetTags hb font_base
        then s\<lparr>td_new_tables := List.insert t (td_new_tables s)\<rparr> else s) = ?s"
      using Some by (auto simp: TableData_def GetTags_tables dictionary_def)
    define s1 where "s1 = ?s"
    have step: "(if ?dict = D then Inr (s1\<lparr>td_unchanged_tables := List.insert t (td_unchanged_tables s1)\<rparr>)
        else TRY (cached_diff brotli_diff ?dict D (td_cache s1)) (\<lambda>(cache, p).
          Inr (s1\<lparr>td_cache := cache, td_patches := (td_patches s1)(t \<mapsto> (length D, p))\<rparr>))) = Inr s'"
      using run tables(2) unfolding diff_table_def Let_def tables(1,3,4) s1_def by simp
    have s: "td_patches s1 = td_patches s" "td_unchanged_tables s1 = td_unchanged_tables s" "td_cache s1 = td_cache s"
      "u \<in> set (td_new_tables s1) \<longleftrightarrow> u \<in> set (td_new_tables s) \<or> u = t \<and> ?new" for u by (auto simp: s1_def)
    show ?thesis
    proof (cases "?dict = D")
      case True
      with step have s': "s' = s1\<lparr>td_unchanged_tables := List.insert t (td_unchanged_tables s1)\<rparr>" by simp
      show ?thesis
        by (intro rest) (simp_all add: s' s tag_ok_def Some True unseen cache)
    next
      case False
      with step obtain cache' p where cp: "cached_diff brotli_diff ?dict D (td_cache s) = Inr (cache', p)"
        "s' = s1\<lparr>td_cache := cache', td_patches := (td_patches s1)(t \<mapsto> (length D, p))\<rparr>" unfolding s(3) by (auto simp: TRY_eq_Inr)
      note p = cached_diff_ok [OF cp(1) cache]
      show ?thesis by (intro rest) (use p False in \<open>auto simp add: cp(2) s tag_ok_def Some unseen\<close>)
    qed
  qed
qed

lemma diff_tables_ok:
  assumes "TRY_fold (diff_table hb brotli_diff d font_base font_derived) tags s = Inr s'"
    and "diffs_ok brotli_diff d (tables_of hb font_base) (tables_of hb font_derived) seen s"
    and "distinct tags" "set tags \<inter> seen = {}" "set tags \<subseteq> GetTags hb font_base \<union> GetTags hb font_derived"
  shows "diffs_ok brotli_diff d (tables_of hb font_base) (tables_of hb font_derived) (seen \<union> set tags) s'"
  using assms
proof (induction tags arbitrary: s seen)
  case (Cons t tags)
  from Cons.prems(1) obtain u where u: "diff_table hb brotli_diff d font_base font_derived t s = Inr u"
    "TRY_fold (diff_table hb brotli_diff d font_base font_derived) tags u = Inr s'" by (auto simp: TRY_eq_Inr)
  have "diffs_ok brotli_diff d (tables_of hb font_base) (tables_of hb font_derived) (insert t seen) u"
    using diff_table_ok [OF u(1) Cons.prems(2)] Cons.prems(4,5) by auto
  from Cons.IH [OF u(2) this] Cons.prems(3-5) show ?case by auto
qed simp

lemma TagsToDiff_spec: "sorted_wrt (<) (TagsToDiff d before after) \<and>
    set (TagsToDiff d before after) = (set before \<union> set after) - set (tk_excluded_tags d)"
proof -
  have "sorted_wrt (<) r \<Longrightarrow> sorted_wrt (<) (AddAllMatching d ts r) \<and> set (AddAllMatching d ts r) = set r \<union> (set ts - set (tk_excluded_tags d))"
    for ts r unfolding AddAllMatching_def
    by (induction ts arbitrary: r) (auto simp: sorted_ins_sorted List.member_iff)
  then show ?thesis unfolding TagsToDiff_def by fastforce
qed

section \<open>Applying the patch\<close>

lemma apply_table_patches_spec:
  assumes "distinct (map fst ps)" and "\<And>p. p \<in> set ps \<Longrightarrow> patched_table decode base p = Some (r (fst p))"
  shows "apply_table_patches decode base ps m = Some (\<lambda>t. if t \<in> fst ` set ps then r t else m t)"
  using assms
proof (induction ps arbitrary: m)
  case (Cons p ps)
  have "apply_table_patches decode base ps (m(fst p := r (fst p))) =
      Some (\<lambda>t. if t \<in> fst ` set ps then r t else (m(fst p := r (fst p))) t)"
    by (rule Cons.IH) (use Cons.prems in auto)
  moreover have "(\<lambda>t. if t \<in> fst ` set ps then r t else (m(fst p := r (fst p))) t) = (\<lambda>t. if t \<in> fst ` set (p # ps) then r t else m t)"
    using Cons.prems(1) by (intro ext) auto
  ultimately show ?case using Cons.prems(2) by simp
qed simp

lemma patched_entry:
  assumes decode: "\<And>b D p. brotli_diff b D = Inr p \<Longrightarrow> decode b p (length D) = Some D"
    and ok: "diffs_ok brotli_diff d base derived seen s" and t: "t \<in> seen" "t \<notin> set (td_unchanged_tables s)"
  shows "patched_table decode base (entry_of d s t) = Some (derived t)"
proof -
  have ok: "tag_ok brotli_diff d base derived t True (td_patches s t) (t \<in> set (td_new_tables s)) False"
    using ok t unfolding diffs_ok_def by metis
  show ?thesis
  proof (cases "td_patches s t")
    case None
    with ok have "derived t = None" by (auto simp: tag_ok_def)
    with None show ?thesis by (simp add: patched_table_def entry_of_def entry_flags_def)
  next
    case (Some e)
    obtain len p where e: "e = (len, p)" by (cases e)
    from ok Some e obtain D where D: "derived t = Some D" "len = length D" "brotli_diff (dictionary d base t) D = Inr p"
      unfolding tag_ok_def by blast
    have "t \<in> set (td_new_tables s) \<longleftrightarrow> base t = None \<and> \<not> List.member (tk_replaced_tags d) t"
      using ok D(1) unfolding tag_ok_def by simp
    then show ?thesis using Some e D decode [OF D(3)]
      by (auto simp: patched_table_def entry_of_def entry_flags_def dictionary_def List.member_iff split: option.splits)
  qed
qed

text \<open>
  The tables after a patch: those of the derived font, except for excluded tags, and for empty tables that
  are new or replaced, which the encoder takes to be unchanged.
\<close>

definition tables_after :: "table_keyed_diff \<Rightarrow> tables \<Rightarrow> tables \<Rightarrow> tables" where
  "tables_after d base derived t =
     (if t \<in> set (tk_excluded_tags d) \<or> derived t = Some [] \<and> (t \<in> set (tk_replaced_tags d) \<or> base t = None) then base t else derived t)"

lemma Diff_applies:
  assumes decode: "\<And>b D p. brotli_diff b D = Inr p \<Longrightarrow> decode b p (length D) = Some D"
    and cache: "cache_ok brotli_diff cache"
    and run: "TK_Diff hb brotli_diff d cache font_base font_derived = Inr (cache', patch)"
    and small: "length patch < TWO32" "\<forall>t \<in> GetTags hb font_base \<union> GetTags hb font_derived. t < TWO32"
      "\<forall>t b. tables_of hb font_derived t = Some b \<longrightarrow> length b < TWO32"
  shows "cache_ok brotli_diff cache' \<and> (\<exists>ps. parse_patch patch = Inr (int (HB_TAG ''iftk''), CompatId_values (tk_base_compat_id d), ps) \<and>
    apply_table_patches decode (tables_of hb font_base) ps (tables_of hb font_base) =
      Some (tables_after d (tables_of hb font_base) (tables_of hb font_derived)))"
proof -
  let ?base = "tables_of hb font_base" and ?derived = "tables_of hb font_derived"
  let ?tags = "TagsToDiff d (map fst (hb_tables hb font_base)) (map fst (hb_tables hb font_derived))"
  let ?s0 = "\<lparr>td_cache = cache, td_patches = Map.empty, td_new_tables = [], td_unchanged_tables = []\<rparr>"
  obtain s where s: "TRY_fold (diff_table hb brotli_diff d font_base font_derived) ?tags ?s0 = Inr s"
    "write_patch d s (filter (\<lambda>t. \<not> List.member (td_unchanged_tables s) t) ?tags) = Inr patch" "cache' = td_cache s"
    using run by (auto simp: TK_Diff_def Let_def TRY_eq_Inr)
  let ?out = "filter (\<lambda>t. \<not> List.member (td_unchanged_tables s) t) ?tags"
  note tags = TagsToDiff_spec [of d "map fst (hb_tables hb font_base)" "map fst (hb_tables hb font_derived)"]
  have dist: "distinct ?tags" using tags strict_sorted_distinct by blast
  have sub: "set ?tags = (GetTags hb font_base \<union> GetTags hb font_derived) - set (tk_excluded_tags d)"
    using tags by (auto simp: GetTags_def)
  have ok0: "diffs_ok brotli_diff d ?base ?derived {} ?s0" using cache by (simp add: diffs_ok_def tag_ok_def)
  have ok: "diffs_ok brotli_diff d ?base ?derived (set ?tags) s"
    using diff_tables_ok [OF s(1) ok0 dist] sub by auto
  have entries: "\<forall>t \<in> set ?out. entry_ok s t"
  proof
    fix t assume "t \<in> set ?out"
    then have "t < TWO32" using small(2) sub by auto
    moreover have "len < TWO32" if "td_patches s t = Some (len, p)" for len p
      using ok that small(3) unfolding diffs_ok_def tag_ok_def by metis
    ultimately show "entry_ok s t" by (auto simp: entry_ok_def)
  qed
  let ?ps = "map (entry_of d s) ?out"
  have fst: "map fst ?ps = ?out" by (simp add: entry_of_def comp_def)
  have "apply_table_patches decode ?base ?ps ?base = Some (\<lambda>t. if t \<in> fst ` set ?ps then ?derived t else ?base t)"
  proof (rule apply_table_patches_spec)
    show "distinct (map fst ?ps)" unfolding fst using dist by simp
    show "patched_table decode ?base p = Some (?derived (fst p))" if "p \<in> set ?ps" for p
      using that patched_entry [OF decode ok] by (auto simp: entry_of_def List.member_iff)
  qed
  moreover have "(\<lambda>t. if t \<in> fst ` set ?ps then ?derived t else ?base t) = tables_after d ?base ?derived"
  proof
    fix t
    have unchanged: "t \<in> set (td_unchanged_tables s) \<longleftrightarrow> t \<in> set ?tags \<and> ?derived t = Some (dictionary d ?base t)"
      using ok unfolding diffs_ok_def tag_ok_def by blast
    have "t \<in> fst ` set ?ps \<longleftrightarrow> t \<in> set ?tags \<and> t \<notin> set (td_unchanged_tables s)"
      using fst by (metis (no_types, lifting) List.member_iff image_set mem_Collect_eq set_filter)
    then show "(if t \<in> fst ` set ?ps then ?derived t else ?base t) = tables_after d ?base ?derived t"
      using unchanged sub by (auto simp: tables_after_def dictionary_def GetTags_tables List.member_iff split: option.splits if_splits)
  qed
  moreover have "parse_patch patch = Inr (int (HB_TAG ''iftk''), CompatId_values (tk_base_compat_id d), ?ps)"
    by (rule write_patch_parses [OF s(2) entries small(1)])
  ultimately show ?thesis using ok s(3) by (auto simp: diffs_ok_def)
qed

end
