(* ===== verification/Glyph_Keyed.thy ===== *)
theory Glyph_Keyed
  imports Outcome Font_Tables Format_2_Decode
begin

text \<open>
  Glyph keyed patches (\<^verbatim>\<open>ift/glyph_keyed_diff.cc\<close>, \<^verbatim>\<open>.h\<close>): the data of some glyphs in the glyph tables of a
  font, as one brotli stream. The compression of the stream is the argument \<open>brotli_diff\<close>. A reader
  written after the IFT specification gets back the data of every glyph in every table.
\<close>

section \<open>The encoder\<close>

record glyph_keyed_diff =
  gk_font :: bytes
  gk_base_compat_id :: compat_id
  gk_tags :: "hb_tag list"

text \<open>\<^verbatim>\<open>std::string\<close> lengths are 64 bit, the bias is a 32 bit number that is added to them.\<close>

definition add_glyph :: "(nat \<Rightarrow> bytes outcome) \<Rightarrow> nat \<Rightarrow> nat \<Rightarrow> bytes \<times> bytes \<Rightarrow> (bytes \<times> bytes) outcome" where
  "add_glyph lookup offset_bias gid = (\<lambda>(per_glyph_data, offset_data).
     OTRY (lookup gid) (\<lambda>data. OTRY (Some (WRITE_UINT32 (int (offset_bias + length per_glyph_data)) offset_data)) (\<lambda>offset_data.
       Ok (per_glyph_data @ data, offset_data))))"

definition PopulateTableData :: "int_set \<Rightarrow> nat \<Rightarrow> (nat \<Rightarrow> bytes outcome) \<Rightarrow> bytes \<times> bytes \<Rightarrow> (bytes \<times> bytes) outcome" where
  "PopulateTableData gids offset_bias lookup = OTRY_fold (add_glyph lookup offset_bias) (to_vector gids)"

definition glyph_data :: "harfbuzz \<Rightarrow> bytes \<Rightarrow> hb_tag \<Rightarrow> nat \<Rightarrow> bytes outcome" where
  "glyph_data hb face tag gid =
     (if tag = kGlyf then GlyfData hb face gid
      else if tag = kGvar then GvarData hb face gid
      else if tag = kCFF then Ok (CffData hb face gid)
      else Ok (Cff2Data hb face gid))"

text \<open>The tables of the patch, in the order of their tags.\<close>

definition processed_tags :: "harfbuzz \<Rightarrow> glyph_keyed_diff \<Rightarrow> hb_tag list" where
  "processed_tags hb d = (let face_tags = GetTags hb (gk_font d); tags = gk_tags d
     in fold ins_sorted
       ((if List.member tags kGlyf \<and> kGlyf \<in> face_tags \<and> kLoca \<in> face_tags then [kGlyf] else []) @
        (if List.member tags kGvar \<and> kGvar \<in> face_tags then [kGvar] else []) @
        (if List.member tags kCFF \<and> kCFF \<in> face_tags then [kCFF] else []) @
        (if List.member tags kCFF2 \<and> kCFF2 \<in> face_tags then [kCFF2] else [])) [])"

definition stream_header_size :: "nat \<Rightarrow> nat \<Rightarrow> nat \<Rightarrow> nat" where
  "stream_header_size glyph_id_width glyph_count table_count =
     (5 + glyph_id_width * glyph_count + table_count * 4 + 4 * glyph_count * table_count + 4) mod TWO32"

definition write_gid :: "bool \<Rightarrow> nat \<Rightarrow> bytes \<Rightarrow> bytes status_or" where
  "write_gid u16_gids gid = (if u16_gids then WRITE_UINT16 (int gid) else WRITE_UINT24 (int gid))"

definition CreateDataStream :: "harfbuzz \<Rightarrow> glyph_keyed_diff \<Rightarrow> int_set \<Rightarrow> bool \<Rightarrow> bytes outcome" where
  "CreateDataStream hb d gids u16_gids =
     (if list_ex (\<lambda>tag. tag \<notin> {kGlyf, kGvar, kCFF, kCFF2}) (gk_tags d) then Fail InvalidArgumentError
      else let tags = processed_tags hb d;
               header_size = stream_header_size (if u16_gids then 2 else 3) (IntSet_size gids) (length tags)
      in OTRY (OTRY_fold (\<lambda>tag. PopulateTableData gids header_size (glyph_data hb (gk_font d) tag)) tags ([], [])) (\<lambda>(per_glyph_data, offset_data).
         OTRY (Some (WRITE_UINT32 (int (header_size + length per_glyph_data)) offset_data)) (\<lambda>offset_data.
         OTRY (Some (WRITE_UINT32 (int (IntSet_size gids)) [])) (\<lambda>stream.
         OTRY (Some (WRITE_UINT8 (int (length tags)) stream)) (\<lambda>stream.
         OTRY (Some (TRY_fold (write_gid u16_gids) (to_vector gids) stream)) (\<lambda>stream.
         OTRY (Some (TRY_fold (\<lambda>tag. WRITE_UINT32 (int tag)) tags stream)) (\<lambda>stream.
           Ok (stream @ offset_data @ per_glyph_data))))))))"

definition CreatePatch :: "harfbuzz \<Rightarrow> (bytes \<Rightarrow> bytes \<Rightarrow> bytes status_or) \<Rightarrow> glyph_keyed_diff \<Rightarrow> int_set \<Rightarrow> bytes outcome" where
  "CreatePatch hb brotli_diff d gids =
     (let patch = WriteUInt32 0 (WriteUInt32 (int (HB_TAG ''ifgk'')) [])
      in case IntSet_max gids of None \<Rightarrow> Fail InvalidArgumentError
         | Some max_gid \<Rightarrow>
             if 2 ^ 24 - 1 < max_gid then Fail InvalidArgumentError
             else let u16_gids = (max_gid \<le> 2 ^ 16 - 1);
                      patch = CompatId_WriteTo (gk_base_compat_id d) (WriteUInt8 (if u16_gids then 0 else 1) patch)
               in OTRY (CreateDataStream hb d gids u16_gids) (\<lambda>uncompressed_data_stream.
                  OTRY (Some (brotli_diff [] uncompressed_data_stream)) (\<lambda>compressed_data_stream.
                  OTRY (Some (WRITE_UINT32 (int (length uncompressed_data_stream)) patch)) (\<lambda>patch.
                    Ok (patch @ compressed_data_stream)))))"

section \<open>A reader\<close>

text \<open>
  The stream: glyph count, table count, glyph ids, tags, one offset for every glyph of every table and one
  more, and the data.
\<close>

definition stream_parser :: "bool \<Rightarrow> (int list \<times> int list \<times> int list) parser" where
  "stream_parser u16_gids = bindp u32 (\<lambda>glyph_count. bindp u8 (\<lambda>table_count.
     bindp (manyp (nat glyph_count) (if u16_gids then u16 else u24)) (\<lambda>gids.
     bindp (manyp (nat table_count) u32) (\<lambda>tags.
     bindp (manyp (nat (glyph_count * table_count) + 1) u32) (\<lambda>offsets. returnp (gids, tags, offsets))))))"

definition read_stream :: "bool \<Rightarrow> bytes \<Rightarrow> (int list \<times> int list \<times> bytes list) status_or" where
  "read_stream u16_gids bs = TRY (stream_parser u16_gids bs) (\<lambda>((gids, tags, offsets), _). Inr (gids, tags, slices (map nat offsets) bs))"

definition patch_parser :: "(int \<times> int \<times> int list \<times> int) parser" where
  "patch_parser = bindp u32 (\<lambda>format. bindp u32 (\<lambda>reserved. bindp u8 (\<lambda>flags. bindp (manyp 4 u32) (\<lambda>compat_id.
     bindp u32 (\<lambda>len. returnp (format, flags, compat_id, len))))))"

definition read_glyph_patch :: "(bytes \<Rightarrow> bytes \<Rightarrow> nat \<Rightarrow> bytes option) \<Rightarrow> bytes \<Rightarrow>
    (int \<times> int list \<times> int list \<times> int list \<times> bytes list) status_or" where
  "read_glyph_patch decode bs = TRY (patch_parser bs) (\<lambda>((format, flags, compat_id, len), stream).
     case decode [] stream (nat len) of None \<Rightarrow> Inl InternalError
     | Some data \<Rightarrow> TRY (read_stream (flags = 0) data) (\<lambda>(gids, tags, items). Inr (format, compat_id, gids, tags, items)))"

section \<open>Offsets\<close>

definition items_of :: "(nat \<Rightarrow> bytes outcome) \<Rightarrow> nat list \<Rightarrow> bytes list \<Rightarrow> bool" where
  "items_of lookup gids ds \<longleftrightarrow> list_all2 (\<lambda>g d. lookup g = Ok d) gids ds"

lemma WRITE_UINT32_Inr: "WRITE_UINT32 v out = Inr out' \<longleftrightarrow> 0 \<le> v \<and> v < 2 ^ 32 \<and> out' = WriteUInt32 v out"
  by (auto simp: WRITE_UINT32_def WillIntOverflow_def to_unsigned_eq)

definition extends :: "nat \<Rightarrow> bytes list \<Rightarrow> bytes \<times> bytes \<Rightarrow> bytes \<times> bytes \<Rightarrow> bool" where
  "extends bias ds = (\<lambda>(P, Q) (P', Q'). P' = P @ concat ds \<and>
     (let starts = butlast (partial_sums (bias + length P) (map length ds))
      in Q' = fold WriteUInt32 (map int starts) Q \<and> (\<forall>v \<in> set starts. v < TWO32)))"

lemma extends_Nil: "extends bias [] s s"
  by (cases s) (simp add: extends_def)

lemma extends_append:
  assumes "extends bias ds s t" and "extends bias es t u"
  shows "extends bias (ds @ es) s u"
proof -
  obtain P O' P' O'' where s: "s = (P, O')" and t: "t = (P', O'')" by (metis surj_pair)
  have sums: "butlast (partial_sums n (ls @ ms)) = butlast (partial_sums n ls) @ butlast (partial_sums (n + sum_list ls) ms)" for n ls ms
    using partial_sums_nonempty [of "n + sum_list ls" ms] by (auto simp: partial_sums_append butlast_append)
  have len: "length (concat ds) = sum_list (map length ds)" by (simp add: length_concat)
  show ?thesis using assms unfolding s t extends_def
    by (cases u) (auto simp: Let_def sums len add.assoc)
qed

lemma PopulateTableData_items:
  assumes "OTRY_fold (add_glyph lookup bias) gids s = Ok t"
  shows "\<exists>ds. items_of lookup gids ds \<and> extends bias ds s t"
  using assms
proof (induction gids arbitrary: s)
  case Nil
  then show ?case by (auto simp: items_of_def intro: extends_Nil)
next
  case (Cons g gids)
  obtain P O' where s: "s = (P, O')" by (cases s)
  from Cons.prems obtain u where u: "add_glyph lookup bias g s = Ok u" "OTRY_fold (add_glyph lookup bias) gids u = Ok t"
    by (auto simp: OTRY_eq_Ok)
  then obtain d where d: "lookup g = Ok d" "u = (P @ d, WriteUInt32 (int (bias + length P)) O')" "bias + length P < TWO32"
    by (auto simp: add_glyph_def s OTRY_eq_Ok WRITE_UINT32_Inr)
  from Cons.IH [OF u(2)] obtain ds where ds: "items_of lookup gids ds" "extends bias ds u t" by blast
  have "extends bias [d] s u" using d(2,3) by (simp add: extends_def s)
  from extends_append [OF this ds(2)] ds(1) d(1) show ?case
    by (intro exI [of _ "d # ds"]) (simp add: items_of_def)
qed

lemma tables_items:
  assumes "OTRY_fold (\<lambda>tag. PopulateTableData gids bias (lookup tag)) tags s = Ok t"
  shows "\<exists>ds. list_all2 (\<lambda>(tag, g) d. lookup tag g = Ok d) (List.product tags (to_vector gids)) ds \<and> extends bias ds s t"
  using assms
proof (induction tags arbitrary: s)
  case Nil
  then show ?case by (auto intro: extends_Nil)
next
  case (Cons tag tags)
  from Cons.prems obtain u where u: "PopulateTableData gids bias (lookup tag) s = Ok u"
    "OTRY_fold (\<lambda>tag. PopulateTableData gids bias (lookup tag)) tags u = Ok t" by (auto simp: OTRY_eq_Ok)
  from PopulateTableData_items [OF u(1) [unfolded PopulateTableData_def]] obtain ds where ds: "items_of (lookup tag) (to_vector gids) ds" "extends bias ds s u"
    by blast
  from Cons.IH [OF u(2)] obtain es where es: "list_all2 (\<lambda>(tag, g) d. lookup tag g = Ok d) (List.product tags (to_vector gids)) es" "extends bias es u t"
    by blast
  have "list_all2 (\<lambda>(tag, g) d. lookup tag g = Ok d) (map (Pair tag) (to_vector gids)) ds"
    using ds(1) by (simp add: items_of_def list_all2_map1)
  with es(1) have "list_all2 (\<lambda>(tag, g) d. lookup tag g = Ok d) (List.product (tag # tags) (to_vector gids)) (ds @ es)"
    by (simp add: list_all2_appendI)
  with extends_append [OF ds(2) es(2)] show ?case by blast
qed

section \<open>The stream reads back\<close>

lemma WRITE_UINT32_reads: "reads_back (WRITE_UINT32 v) u32 v"
proof (rule reads_backI)
  fix out out' assume "WRITE_UINT32 v out = Inr out'"
  then have v: "0 \<le> v \<and> v < 2 ^ 32" "out' = WriteUInt32 v out" by (simp_all add: WRITE_UINT32_Inr)
  from reads_backD [OF u32.parses_back [OF v(1)], of out out'] v(2) show "\<exists>bs. out' = out @ bs \<and> parses u32 bs v" by simp
qed

lemma WriteUInt32_prefix: "WriteUInt32 v out = out @ WriteUInt32 v []"
  using WriteInt_loop_prefix [of 4 "to_unsigned 32 v" out "[]"] by (simp add: WriteUInt32_def WriteInt_def)

lemma fold_WriteUInt32_prefix: "fold WriteUInt32 vs out = out @ fold WriteUInt32 vs []"
proof (induction vs arbitrary: out)
  case (Cons v vs)
  show ?case using Cons.IH [of "WriteUInt32 v out"] Cons.IH [of "WriteUInt32 v []"] WriteUInt32_prefix [of v out] by simp
qed simp

lemma TRY_fold_length:
  assumes "TRY_fold w xs out = Inr out'" and "\<And>x o1 o2. w x o1 = Inr o2 \<Longrightarrow> length o2 = length o1 + k"
  shows "length out' = length out + k * length xs"
  using assms(1)
proof (induction xs arbitrary: out)
  case (Cons x xs)
  then obtain o1 where "w x out = Inr o1" "TRY_fold w xs o1 = Inr out'" by (auto simp: TRY_eq_Inr)
  with Cons.IH [of o1] assms(2) [of x out o1] show ?case by simp
qed simp

lemma WRITE_lengths:
  "WRITE_UINT8 v out = Inr out' \<Longrightarrow> length out' = length out + 1" "WRITE_UINT16 v out = Inr out' \<Longrightarrow> length out' = length out + 2"
  "WRITE_UINT24 v out = Inr out' \<Longrightarrow> length out' = length out + 3" "WRITE_UINT32 v out = Inr out' \<Longrightarrow> length out' = length out + 4"
  by (auto simp: WRITE_UINT8_def WRITE_UINT16_def WRITE_UINT24_def WRITE_UINT32_def u8.write_length u16.write_length
      u24.write_length u32.write_length split: if_splits)

lemma write_gid_length: "write_gid u16_gids g out = Inr out' \<Longrightarrow> length out' = length out + (if u16_gids then 2 else 3)"
  by (auto simp: write_gid_def WRITE_lengths split: if_splits)

lemma processed_tags_length: "length (processed_tags hb d) \<le> 4"
proof -
  have "length (fold ins_sorted ts acc) \<le> length ts + length acc" for ts acc :: "hb_tag list"
  proof (induction ts arbitrary: acc)
    case (Cons t ts)
    have "length (ins_sorted t acc) \<le> Suc (length acc)" by (induction acc) auto
    with Cons.IH [of "ins_sorted t acc"] show ?case by simp
  qed simp
  from this [of _ "[]"] show ?thesis unfolding processed_tags_def Let_def by (rule order_trans) auto
qed

lemma CreateDataStream_reads:
  assumes run: "CreateDataStream hb d gids u16_gids = Ok str" and few: "IntSet_size gids \<le> 2 ^ 24"
  shows "\<exists>ds. list_all2 (\<lambda>(tag, g) d'. glyph_data hb (gk_font d) tag g = Ok d') (List.product (processed_tags hb d) (to_vector gids)) ds \<and>
    read_stream u16_gids str = Inr (map int (to_vector gids), map int (processed_tags hb d), ds)"
proof -
  let ?tags = "processed_tags hb d" and ?g = "IntSet_size gids" and ?w = "if u16_gids then 2 else 3 :: nat"
  let ?header = "stream_header_size ?w ?g (length ?tags)"
  obtain P Q where PQ: "OTRY_fold (\<lambda>tag. PopulateTableData gids ?header (glyph_data hb (gk_font d) tag)) ?tags ([], []) = Ok (P, Q)"
    using run by (auto simp: CreateDataStream_def Let_def OTRY_eq_Ok split: if_splits)
  then obtain h1 h2 h3 h4 Q' where w: "WRITE_UINT32 (int (?header + length P)) Q = Inr Q'" "WRITE_UINT32 (int ?g) [] = Inr h1"
    "WRITE_UINT8 (int (length ?tags)) h1 = Inr h2" "TRY_fold (write_gid u16_gids) (to_vector gids) h2 = Inr h3"
    "TRY_fold (\<lambda>tag. WRITE_UINT32 (int tag)) ?tags h3 = Inr h4" "str = h4 @ Q' @ P"
    using run by (auto simp: CreateDataStream_def Let_def OTRY_eq_Ok split: if_splits)
  from tables_items [OF PQ] obtain ds where ds: "list_all2 (\<lambda>(tag, g) d'. glyph_data hb (gk_font d) tag g = Ok d') (List.product ?tags (to_vector gids)) ds"
    "extends ?header ds ([], []) (P, Q)" by blast
  let ?sums = "partial_sums ?header (map length ds)"
  have P: "P = concat ds" and Q: "Q = fold WriteUInt32 (map int (butlast ?sums)) []" "\<forall>v \<in> set (butlast ?sums). v < TWO32"
    using ds(2) by (simp_all add: extends_def Let_def)
  have sums: "butlast ?sums @ [?header + length P] = ?sums"
    using partial_sums_snoc [of ?header "map length ds"] by (simp add: P length_concat)
  have last: "?header + length P < TWO32" "Q' = WriteUInt32 (int (?header + length P)) Q" using w(1) by (auto simp: WRITE_UINT32_Inr)
  have Q': "Q' = fold WriteUInt32 (map int ?sums) []"
    using arg_cong [OF sums, of "\<lambda>ns. fold WriteUInt32 (map int ns) []"] by (simp add: last(2) Q(1))
  have "\<forall>v \<in> set (butlast ?sums @ [?header + length P]). v < TWO32" using Q(2) last(1) by simp
  then have "\<forall>v \<in> set ?sums. v < TWO32" by (simp only: sums)
  then have range: "0 \<le> v \<and> v < 2 ^ 32" if "v \<in> set (map int ?sums)" for v using that \<open>\<forall>v \<in> set ?sums. v < TWO32\<close> by auto
  have size: "length ds = ?g * length ?tags" using list_all2_lengthD [OF ds(1)] by (simp add: IntSet_size_def mult.commute)
  have lens: "length h1 = 4" "length h2 = 5" "length h3 = 5 + ?w * ?g" "length h4 = 5 + ?w * ?g + 4 * length ?tags"
    using WRITE_lengths(4) [OF w(2)] WRITE_lengths(1) [OF w(3)] TRY_fold_length [OF w(4) write_gid_length]
      TRY_fold_length [OF w(5) WRITE_lengths(4)] by (simp_all add: IntSet_size_def)
  have "length (fold WriteUInt32 vs []) = 4 * length vs" for vs using u32.fold_wr_split [of vs "[]"] by auto
  then have len: "length (h4 @ Q') = 5 + ?w * ?g + length ?tags * 4 + 4 * ?g * length ?tags + 4"
    by (simp add: lens Q' size del: map_map)
  have bound: "5 + a + n * 4 + b + 4 < TWO32" if "a \<le> 50331648" "b \<le> 268435456" "n \<le> 4" for a b n :: nat using that by linarith
  have "?w * ?g \<le> 50331648" using few by auto
  moreover have "4 * ?g * length ?tags \<le> 4 * 16777216 * 4"
    using few processed_tags_length [of hb d] by (intro mult_mono) auto
  ultimately have "5 + ?w * ?g + length ?tags * 4 + 4 * ?g * length ?tags + 4 < TWO32"
    using processed_tags_length [of hb d] by (intro bound) simp_all
  then have header: "length (h4 @ Q') = ?header" unfolding len stream_header_size_def by (rule mod_less [symmetric])
  let ?p = "if u16_gids then u16 else u24"
  have gid: "reads_back (write_gid u16_gids g) ?p (int g)" if "g \<in> set (to_vector gids)" for g
    using members_bound [of g gids] that by (auto simp: write_gid_def WRITE_UINT16_reads intro!: WRITE_UINT24_reads)
  have "reads_back (\<lambda>out. TRY (WRITE_UINT32 (int ?g) out) (\<lambda>out. TRY (WRITE_UINT8 (int (length ?tags)) out)
      (\<lambda>out. TRY (TRY_fold (write_gid u16_gids) (to_vector gids) out) (\<lambda>out. TRY (TRY_fold (\<lambda>tag. WRITE_UINT32 (int tag)) ?tags out)
      (\<lambda>out. TRY (TRY_fold (\<lambda>v out. Inr (WriteUInt32 v out)) (map int ?sums) out) Inr))))) (stream_parser u16_gids)
      (map int (to_vector gids), map int ?tags, map int ?sums)"
    unfolding stream_parser_def
  proof (rule reads_back_bind, rule WRITE_UINT32_reads, rule reads_back_bind, rule WRITE_UINT8_reads, rule reads_back_bind)
    show "reads_back (TRY_fold (write_gid u16_gids) (to_vector gids)) (manyp (nat (int ?g)) ?p) (map int (to_vector gids))"
      using reads_back_many [of "to_vector gids" "write_gid u16_gids" ?p int] gid by (simp add: IntSet_size_def)
    have tags: "reads_back (TRY_fold (\<lambda>tag. WRITE_UINT32 (int tag)) ?tags) (manyp (nat (int (length ?tags))) u32) (map int ?tags)"
      using reads_back_many [of ?tags "\<lambda>tag. WRITE_UINT32 (int tag)" u32 int] WRITE_UINT32_reads by simp
    have offs: "reads_back (TRY_fold (\<lambda>v out. Inr (WriteUInt32 v out)) (map int ?sums)) (manyp (nat (int ?g * int (length ?tags)) + 1) u32) (map int ?sums)"
      using reads_back_many [of "map int ?sums" "\<lambda>v out. Inr (WriteUInt32 v out)" u32 id] u32.parses_back range
      by (simp add: size nat_mult_distrib)
    show "reads_back (\<lambda>out. TRY (TRY_fold (\<lambda>tag. WRITE_UINT32 (int tag)) ?tags out)
        (\<lambda>out. TRY (TRY_fold (\<lambda>v out. Inr (WriteUInt32 v out)) (map int ?sums) out) Inr))
        (bindp (manyp (nat (int (length ?tags))) u32) (\<lambda>tags. bindp (manyp (nat (int ?g * int (length ?tags)) + 1) u32)
           (\<lambda>offsets. returnp (map int (to_vector gids), tags, offsets)))) (map int (to_vector gids), map int ?tags, map int ?sums)"
      by (rule reads_back_bind, rule tags, rule reads_back_bind, rule offs, rule reads_back_return)
  qed
  from reads_backD [OF this, of "[]" "h4 @ Q'"]
  have "parses (stream_parser u16_gids) (h4 @ Q') (map int (to_vector gids), map int ?tags, map int ?sums)"
    using w(2-5) by (auto simp: fold_eq_TRY_fold Q' fold_WriteUInt32_prefix [of _ h4])
  then have "read_stream u16_gids str = Inr (map int (to_vector gids), map int ?tags, slices ?sums str)"
    unfolding read_stream_def parses_def w(6) by (simp add: comp_def flip: append_assoc)
  moreover have "slices ?sums str = ds"
    using slices_concat [of "h4 @ Q'" ds] unfolding header w(6) P by simp
  ultimately show ?thesis using ds(1) by auto
qed

text \<open>The patch around the stream.\<close>

lemma CreatePatch_reads:
  assumes run: "CreatePatch hb brotli_diff d gids = Ok patch"
    and decode: "\<And>b D p. brotli_diff b D = Inr p \<Longrightarrow> decode b p (length D) = Some D"
  shows "\<exists>ds. list_all2 (\<lambda>(tag, g) d'. glyph_data hb (gk_font d) tag g = Ok d') (List.product (processed_tags hb d) (to_vector gids)) ds \<and>
    read_glyph_patch decode patch = Inr (int (HB_TAG ''ifgk''), CompatId_values (gk_base_compat_id d),
      map int (to_vector gids), map int (processed_tags hb d), ds)"
proof -
  let ?patch = "WriteUInt32 0 (WriteUInt32 (int (HB_TAG ''ifgk'')) [])"
  obtain max_gid where m: "IntSet_max gids = Some max_gid" "max_gid \<le> 2 ^ 24 - 1"
    using run by (auto simp: CreatePatch_def Let_def split: option.splits if_splits)
  define flags :: int where "flags = (if max_gid \<le> 2 ^ 16 - 1 then 0 else 1)"
  let ?head = "CompatId_WriteTo (gk_base_compat_id d) (WriteUInt8 flags ?patch)"
  obtain data stream' head where w: "CreateDataStream hb d gids (flags = 0) = Ok data" "brotli_diff [] data = Inr stream'"
    "WRITE_UINT32 (int (length data)) ?head = Inr head" "patch = head @ stream'"
    using run m by (auto simp: CreatePatch_def Let_def OTRY_eq_Ok flags_def split: if_splits)
  have "g \<le> max_gid" if "g \<in> members gids" for g using m(1) that by (auto simp: IntSet_max_eq split: if_splits)
  then have "card (members gids) \<le> card {..max_gid}" by (intro card_mono) auto
  moreover have "IntSet_size gids = card (members gids)" unfolding IntSet_size_def members_def by (simp only: distinct_card to_vector_distinct)
  ultimately have "IntSet_size gids \<le> Suc max_gid" by simp
  moreover have "Suc max_gid \<le> 2 ^ 24" using m(2) by simp
  ultimately have "IntSet_size gids \<le> 2 ^ 24" by (rule le_trans)
  from CreateDataStream_reads [OF w(1) this] obtain ds where
    ds: "list_all2 (\<lambda>(tag, g) d'. glyph_data hb (gk_font d) tag g = Ok d') (List.product (processed_tags hb d) (to_vector gids)) ds"
      "read_stream (flags = 0) data = Inr (map int (to_vector gids), map int (processed_tags hb d), ds)" by blast
  have u32: "reads_back (\<lambda>out. Inr (WriteUInt32 v out)) u32 v" if "0 \<le> v" "v < 2 ^ 32" for v
    using u32.parses_back that by blast
  have id: "reads_back (TRY_fold (\<lambda>v o'. Inr (WriteUInt32 v o')) (CompatId_values (gk_base_compat_id d))) (manyp 4 u32)
      (CompatId_values (gk_base_compat_id d))"
    using reads_back_many [of "CompatId_values (gk_base_compat_id d)" "\<lambda>v o'. Inr (WriteUInt32 v o')" u32 id] u32 CompatId_values_range by fastforce
  have fl: "0 \<le> flags \<and> flags < 2 ^ 8" by (simp add: flags_def)
  have tag: "0 \<le> int (HB_TAG ''ifgk'')" "int (HB_TAG ''ifgk'') < 2 ^ 32" by (simp_all add: HB_TAG_def)
  have "reads_back (\<lambda>out. TRY (Inr (WriteUInt32 (int (HB_TAG ''ifgk'')) out)) (\<lambda>out. TRY (Inr (WriteUInt32 0 out))
      (\<lambda>out. TRY (Inr (WriteUInt8 flags out)) (\<lambda>out. TRY (TRY_fold (\<lambda>v o'. Inr (WriteUInt32 v o')) (CompatId_values (gk_base_compat_id d)) out)
      (\<lambda>out. TRY (WRITE_UINT32 (int (length data)) out) Inr))))) patch_parser
      (int (HB_TAG ''ifgk''), flags, CompatId_values (gk_base_compat_id d), int (length data))"
    unfolding patch_parser_def
    by (rule reads_back_bind, rule u32 [OF tag], rule reads_back_bind, rule u32, simp, simp, rule reads_back_bind, rule u8.parses_back, rule fl,
        rule reads_back_bind, rule id, rule reads_back_bind, rule WRITE_UINT32_reads, rule reads_back_return)
  from reads_backD [OF this, of "[]" head] w(3)
  have "parses patch_parser head (int (HB_TAG ''ifgk''), flags, CompatId_values (gk_base_compat_id d), int (length data))"
    by (simp add: fold_eq_TRY_fold CompatId_WriteTo_fold)
  then show ?thesis using ds decode [OF w(2)] by (auto simp: read_glyph_patch_def parses_def w(4))
qed

end
