(* ===== verification/Ift_In_Font.thy ===== *)
theory Ift_In_Font
  imports Font_Tables Format_2
begin

text \<open>
  \<^verbatim>\<open>IFTTable::AddToFont\<close> of \<^verbatim>\<open>ift/proto/ift_table.cc\<close>: the serialized tables are placed in a font, whose other
  tables keep their order. Allocation of memory does not fail.
\<close>

definition with_tag :: "hb_tag \<Rightarrow> hb_tag list \<Rightarrow> hb_tag list" where
  "with_tag tag tags = (if List.member tags tag then tags else tags @ [tag])"

definition AddTablesToFont :: "harfbuzz \<Rightarrow> bytes \<Rightarrow> bytes \<Rightarrow> bytes option \<Rightarrow> bytes" where
  "AddTablesToFont hb face ift_table iftx_table =
     (let tags = with_tag kIFT (GetOrderedTags hb face);
          tables = (TableData hb face)(kIFT := ift_table)
      in case iftx_table of
           None \<Rightarrow> hb_build hb (map (\<lambda>t. (t, tables t)) tags)
         | Some iftx \<Rightarrow> hb_build hb (map (\<lambda>t. (t, (tables(kIFTX := iftx)) t)) (with_tag kIFTX tags)))"

definition AddToFont :: "harfbuzz \<Rightarrow> (nat \<Rightarrow> nat) \<Rightarrow> (int \<Rightarrow> int) \<Rightarrow> bytes \<Rightarrow> ift_table \<Rightarrow> ift_table option \<Rightarrow> bytes status_or" where
  "AddToFont hb conv fconv face main_table extension =
     TRY (CffCharStringsOffset hb face) (\<lambda>cff_charstrings_offset.
     TRY (Cff2CharStringsOffset hb face) (\<lambda>cff2_charstrings_offset.
     TRY (Serialize conv fconv main_table cff_charstrings_offset cff2_charstrings_offset) (\<lambda>main_bytes.
       case extension of
         None \<Rightarrow> Inr (AddTablesToFont hb face main_bytes None)
       | Some e \<Rightarrow> TRY (Serialize conv fconv e None None) (\<lambda>ext_bytes. Inr (AddTablesToFont hb face main_bytes (Some ext_bytes))))))"

section \<open>The tables of the new font\<close>

text \<open>What the face builder promises: the font has the tables that were added.\<close>

definition builder_ok :: "harfbuzz \<Rightarrow> bool" where
  "builder_ok hb \<longleftrightarrow> (\<forall>ts. distinct (map fst ts) \<longrightarrow> map_of (hb_tables hb (hb_build hb ts)) = map_of ts)"

lemma distinct_ordered_tags: "distinct (GetOrderedTags hb face)"
  by (simp add: GetOrderedTags_def)

lemma set_ordered_tags: "set (GetOrderedTags hb face) = GetTags hb face"
  by (simp add: GetOrderedTags_def GetTags_def)

lemma with_tag: "set (with_tag t ts) = insert t (set ts)" "distinct ts \<Longrightarrow> distinct (with_tag t ts)"
  by (auto simp: with_tag_def List.member_iff)

lemma map_of_map_keys: "map_of (map (\<lambda>t. (t, f t)) ts) = (\<lambda>t. if t \<in> set ts then Some (f t) else None)"
  by (induction ts) auto

lemma TableData_tag: "t \<in> GetTags hb face \<Longrightarrow> map_of (hb_tables hb face) t = Some (TableData hb face t)"
  using map_of_eq_None_iff [of "hb_tables hb face" t] by (auto simp: TableData_def GetTags_def split: option.splits)

lemma no_table: "t \<notin> GetTags hb face \<Longrightarrow> map_of (hb_tables hb face) t = None"
  by (auto simp: GetTags_def map_of_eq_None_iff)

lemma AddTablesToFont_tables:
  assumes "builder_ok hb"
  shows "map_of (hb_tables hb (AddTablesToFont hb face ift iftx)) =
    (case iftx of None \<Rightarrow> (map_of (hb_tables hb face))(kIFT \<mapsto> ift)
     | Some x \<Rightarrow> (map_of (hb_tables hb face))(kIFT \<mapsto> ift, kIFTX \<mapsto> x))"
proof -
  let ?tags = "with_tag kIFT (GetOrderedTags hb face)"
  have d: "distinct ?tags" "distinct (with_tag kIFTX ?tags)" by (simp_all add: with_tag distinct_ordered_tags)
  have built: "map_of (hb_tables hb (hb_build hb (map (\<lambda>t. (t, f t)) ts))) = map_of (map (\<lambda>t. (t, f t)) ts)" if "distinct ts" for f ts
    using assms that by (simp add: builder_ok_def comp_def)
  show ?thesis
  proof (cases iftx)
    case None
    have "map_of (map (\<lambda>t. (t, ((TableData hb face)(kIFT := ift)) t)) ?tags) t = ((map_of (hb_tables hb face))(kIFT \<mapsto> ift)) t" for t
      unfolding map_of_map_keys by (auto simp: with_tag set_ordered_tags TableData_tag no_table)
    with None show ?thesis using built [OF d(1)] by (auto simp: AddTablesToFont_def Let_def)
  next
    case (Some x)
    have "map_of (map (\<lambda>t. (t, ((TableData hb face)(kIFT := ift, kIFTX := x)) t)) (with_tag kIFTX ?tags)) t =
        ((map_of (hb_tables hb face))(kIFT \<mapsto> ift, kIFTX \<mapsto> x)) t" for t
      unfolding map_of_map_keys by (auto simp: with_tag set_ordered_tags TableData_tag no_table)
    with Some show ?thesis using built [OF d(2)] by (auto simp: AddTablesToFont_def Let_def)
  qed
qed

lemma AddToFont_tables:
  assumes "builder_ok hb" and "AddToFont hb conv fconv face main_table extension = Inr font"
  shows "\<exists>cff cff2 ift. Serialize conv fconv main_table cff cff2 = Inr ift \<and> CffCharStringsOffset hb face = Inr cff \<and>
    Cff2CharStringsOffset hb face = Inr cff2 \<and>
    (case extension of None \<Rightarrow> map_of (hb_tables hb font) = (map_of (hb_tables hb face))(kIFT \<mapsto> ift)
     | Some e \<Rightarrow> \<exists>x. Serialize conv fconv e None None = Inr x \<and>
         map_of (hb_tables hb font) = (map_of (hb_tables hb face))(kIFT \<mapsto> ift, kIFTX \<mapsto> x))"
proof (cases extension)
  case None
  then show ?thesis using assms(2) AddTablesToFont_tables [OF assms(1), of face _ None] by (auto simp: AddToFont_def TRY_eq_Inr)
next
  case (Some e)
  then show ?thesis using assms(2) AddTablesToFont_tables [OF assms(1), of face _ "Some _"] by (auto simp: AddToFont_def TRY_eq_Inr)
qed

end
