(* ===== verification/Patch_Properties.thy ===== *)
theory Patch_Properties
  imports Table_Keyed Font_Properties Glyph_Keyed Ift_In_Font
begin

text \<open>
  Properties of the patches and of the fonts that carry a patch map, for any harfbuzz and any brotli diff
  whose decoder inverts it.
\<close>

section \<open>A font format for the examples\<close>

text \<open>Tags in unary, every byte of a table behind a one; the diff is the derived table itself.\<close>

definition pack_data :: "bytes \<Rightarrow> bytes" where
  "pack_data b = concat (map (\<lambda>x. [1, x]) b) @ [0]"

fun unpack_data :: "bytes \<Rightarrow> bytes \<times> bytes" where
  "unpack_data (m # x # bs) = (if m = 0 then ([], x # bs) else (case unpack_data bs of (b, rest) \<Rightarrow> (x # b, rest)))"
| "unpack_data bs = ([], [])"

fun unpack_tag :: "bytes \<Rightarrow> nat \<times> bytes" where
  "unpack_tag [] = (0, [])"
| "unpack_tag (m # bs) = (if m = 0 then (0, bs) else (case unpack_tag bs of (t, rest) \<Rightarrow> (Suc t, rest)))"

fun pack :: "(hb_tag \<times> bytes) list \<Rightarrow> bytes" where
  "pack [] = []"
| "pack ((t, b) # ts) = replicate t 1 @ 0 # pack_data b @ pack ts"

fun unpack :: "nat \<Rightarrow> bytes \<Rightarrow> (hb_tag \<times> bytes) list" where
  "unpack n [] = []"
| "unpack 0 bs = []"
| "unpack (Suc n) bs = (case unpack_tag bs of (t, rest) \<Rightarrow> (case unpack_data rest of (b, rest) \<Rightarrow> (t, b) # unpack n rest))"

lemma unpack_data_pack: "unpack_data (pack_data b @ rest) = (b, rest)"
proof (induction b)
  case Nil
  show ?case by (cases rest) (simp_all add: pack_data_def)
qed (simp add: pack_data_def)

lemma unpack_tag_pack: "unpack_tag (replicate t 1 @ 0 # rest) = (t, rest)"
  by (induction t) simp_all

lemma unpack_pack: "length ts \<le> n \<Longrightarrow> unpack n (pack ts) = ts"
proof (induction ts arbitrary: n)
  case (Cons p ts)
  obtain t b where p: "p = (t, b)" by (cases p)
  obtain m where n: "n = Suc m" using Cons.prems by (cases n) auto
  have step: "unpack (Suc m) bs = (case unpack_tag bs of (t, rest) \<Rightarrow> (case unpack_data rest of (b, rest) \<Rightarrow> (t, b) # unpack m rest))"
    if "bs \<noteq> []" for bs using that by (cases bs) simp_all
  have "pack (p # ts) \<noteq> []" by (simp add: p)
  from step [OF this] have "unpack n (pack (p # ts)) = (t, b) # unpack m (pack ts)"
    by (simp add: n p unpack_tag_pack unpack_data_pack)
  then show ?case using Cons.IH [of m] Cons.prems by (simp add: n p)
qed simp

lemma length_pack: "length ts \<le> length (pack ts)"
  by (induction ts rule: pack.induct) auto

definition pack_harfbuzz :: harfbuzz where
  "pack_harfbuzz = \<lparr>hb_tables = (\<lambda>b. unpack (length b) b), hb_glyph_count = (\<lambda>_. 3), hb_address = (\<lambda>_ _. 0),
     hb_charstrings_index = (\<lambda>_ _. (0, [])), hb_charstring_data = (\<lambda>_ b gid. [of_nat gid, 9]), hb_nominal_glyphs = (\<lambda>_. []),
     hb_unicodes = (\<lambda>_. IntSet_empty), hb_feature_tags = (\<lambda>_ _. []), hb_default_features = [], hb_axes = (\<lambda>_. []),
     hb_build = pack\<rparr>"

lemma pack_tables [simp]: "hb_tables pack_harfbuzz (pack ts) = ts"
  using unpack_pack [OF length_pack] by (simp add: pack_harfbuzz_def)

lemma pack_builder: "builder_ok pack_harfbuzz"
  by (simp add: builder_ok_def) (simp add: pack_harfbuzz_def unpack_pack length_pack)

definition copy_diff :: "bytes \<Rightarrow> bytes \<Rightarrow> bytes status_or" where "copy_diff base derived = Inr derived"
definition copy_patch :: "bytes \<Rightarrow> bytes \<Rightarrow> nat \<Rightarrow> bytes option" where "copy_patch base p n = (if length p = n then Some p else None)"

lemma copy_decodes: "copy_diff b D = Inr p \<Longrightarrow> copy_patch b p (length D) = Some D"
  by (simp add: copy_diff_def copy_patch_def)

section \<open>Table keyed patches\<close>

text \<open>
  C35: a table keyed patch parses, by a reader written after the specification, with the compatibility
  id of its base, and applied to the tables of the base it gives those of the derived font, except
  for the excluded tables, and for empty tables of the derived font that are new or to be replaced: these stay as
  in the base. The cache stays right. The decoder inverts the encoder of the diffs, and tags, tables and the patch
  have sizes of 32 bits.
\<close>

theorem table_keyed_patch_applies:
  assumes "\<And>b D p. brotli_diff b D = Inr p \<Longrightarrow> decode b p (length D) = Some D"
    and "cache_ok brotli_diff cache"
    and "TK_Diff hb brotli_diff d cache font_base font_derived = Inr (cache', patch)"
    and "length patch < TWO32" and "\<forall>t \<in> GetTags hb font_base \<union> GetTags hb font_derived. t < TWO32"
    and "\<forall>t b. tables_of hb font_derived t = Some b \<longrightarrow> length b < TWO32"
  shows "cache_ok brotli_diff cache' \<and> (\<exists>ps. parse_patch patch = Inr (int (HB_TAG ''iftk''), CompatId_values (tk_base_compat_id d), ps) \<and>
    apply_table_patches decode (tables_of hb font_base) ps (tables_of hb font_base) =
      Some (tables_after d (tables_of hb font_base) (tables_of hb font_derived)))"
  using assms by (rule Diff_applies)

definition base_font :: bytes where "base_font = pack [(5, [1, 2]), (6, [9])]"
definition derived_font :: bytes where "derived_font = pack [(5, [3]), (7, [4])]"

lemma example_tables:
  "hb_tables pack_harfbuzz base_font = [(5, [1, 2]), (6, [9])]" "hb_tables pack_harfbuzz derived_font = [(5, [3]), (7, [4])]"
  unfolding base_font_def derived_font_def by (rule pack_tables)+

lemma example_patch:
  "TK_Diff pack_harfbuzz copy_diff (TableKeyedDiff (CompatId 1 2 3 4) [] []) None base_font derived_font =
    Inr (None, [105, 102, 116, 107, 0, 0, 0, 0, 0, 0, 0, 1, 0, 0, 0, 2, 0, 0, 0, 3, 0, 0, 0, 4, 0, 3,
      0, 0, 0, 42, 0, 0, 0, 52, 0, 0, 0, 61, 0, 0, 0, 71,
      0, 0, 0, 5, 0, 0, 0, 0, 1, 3, 0, 0, 0, 6, 2, 0, 0, 0, 0, 0, 0, 0, 7, 1, 0, 0, 0, 1, 4])"
  by (simp add: example_tables TK_Diff_def TagsToDiff_def AddAllMatching_def TableKeyedDiff_def List.member_iff
      diff_table_def Let_def GetTags_def TableData_def cached_diff_def copy_diff_def write_patch_def write_table_patch_def patch_size_def
      HB_TAG_def List.insert_def font_ints_eval)

lemma table_keyed_patch_applies_witness:
  "\<exists>patch ps. TK_Diff pack_harfbuzz copy_diff (TableKeyedDiff (CompatId 1 2 3 4) [] []) None base_font derived_font = Inr (None, patch) \<and>
    parse_patch patch = Inr (1768322155, [1, 2, 3, 4], ps) \<and> apply_table_patches copy_patch [5 \<mapsto> [1, 2], 6 \<mapsto> [9]] ps [5 \<mapsto> [1, 2], 6 \<mapsto> [9]] =
      Some [5 \<mapsto> [3], 7 \<mapsto> [4]]"
proof -
  let ?d = "TableKeyedDiff (CompatId 1 2 3 4) [] []"
  have before: "tables_of pack_harfbuzz base_font = [5 \<mapsto> [1, 2], 6 \<mapsto> [9]]" and after: "tables_of pack_harfbuzz derived_font = [5 \<mapsto> [3], 7 \<mapsto> [4]]"
    by (auto simp: example_tables)
  have result: "tables_after ?d (tables_of pack_harfbuzz base_font) (tables_of pack_harfbuzz derived_font) = [5 \<mapsto> [3], 7 \<mapsto> [4]]"
    unfolding before after by (auto simp: tables_after_def TableKeyedDiff_def)
  have tags: "\<forall>t \<in> GetTags pack_harfbuzz base_font \<union> GetTags pack_harfbuzz derived_font. t < TWO32"
    by (simp add: GetTags_def example_tables)
  have len: "\<forall>t b. tables_of pack_harfbuzz derived_font t = Some b \<longrightarrow> length b < TWO32"
    unfolding after by auto
  have cache: "cache_ok copy_diff None" by (simp add: cache_ok_def)
  have "\<exists>patch. TK_Diff pack_harfbuzz copy_diff ?d None base_font derived_font = Inr (None, patch) \<and> length patch < TWO32"
    unfolding example_patch by simp
  then obtain patch where p: "TK_Diff pack_harfbuzz copy_diff ?d None base_font derived_font = Inr (None, patch)" "length patch < TWO32"
    by blast
  have id: "int (HB_TAG ''iftk'') = 1768322155" "CompatId_values (tk_base_compat_id ?d) = [1, 2, 3, 4]"
    by (simp_all add: HB_TAG_def TableKeyedDiff_def)
  from table_keyed_patch_applies [of copy_diff copy_patch, OF copy_decodes cache p(1) p(2) tags len]
  obtain ps where "parse_patch patch = Inr (1768322155, [1, 2, 3, 4], ps)"
    "apply_table_patches copy_patch (tables_of pack_harfbuzz base_font) ps (tables_of pack_harfbuzz base_font) = Some [5 \<mapsto> [3], 7 \<mapsto> [4]]"
    unfolding id result by blast
  then show ?thesis unfolding before using p(1) by blast
qed

section \<open>Glyph keyed patches\<close>

text \<open>
  C36: a glyph keyed patch reads back, by a reader written after the specification, to its compatibility
  id, the glyphs, the glyph tables of the font that it covers, and the data of every glyph in
  every one of these tables.
\<close>

theorem glyph_keyed_patch_reads:
  assumes "CreatePatch hb brotli_diff d gids = Ok patch"
    and "\<And>b D p. brotli_diff b D = Inr p \<Longrightarrow> decode b p (length D) = Some D"
  shows "\<exists>ds. list_all2 (\<lambda>(tag, g) d'. glyph_data hb (gk_font d) tag g = Ok d') (List.product (processed_tags hb d) (to_vector gids)) ds \<and>
    read_glyph_patch decode patch = Inr (int (HB_TAG ''ifgk''), CompatId_values (gk_base_compat_id d),
      map int (to_vector gids), map int (processed_tags hb d), ds)"
  using assms by (rule CreatePatch_reads)

definition cff_font :: bytes where "cff_font = pack [(1128678962, [7])]"

lemma glyph_keyed_patch_reads_witness:
  "\<exists>patch. CreatePatch pack_harfbuzz copy_diff \<lparr>gk_font = cff_font, gk_base_compat_id = CompatId 1 2 3 4, gk_tags = [kGlyf, kCFF2, kCFF]\<rparr> (IntSet [1, 2]) = Ok patch \<and>
    read_glyph_patch copy_patch patch = Inr (1768318827, [1, 2, 3, 4], [1, 2], [1128678962], [[1, 9], [2, 9]])"
proof -
  define d where "d = \<lparr>gk_font = cff_font, gk_base_compat_id = CompatId 1 2 3 4, gk_tags = [kGlyf, kCFF2, kCFF]\<rparr>"
  define S where "S = IntSet [1, 2]"
  have t: "hb_tables pack_harfbuzz cff_font = [(1128678962, [7])]" unfolding cff_font_def by (rule pack_tables)
  have v: "to_vector S = [1, 2]" by (simp add: S_def ift_eval)
  have tags: "processed_tags pack_harfbuzz d = [1128678962]"
    by (simp add: d_def processed_tags_def Let_def GetTags_def t kGlyf_def kGvar_def kCFF_def kCFF2_def HB_TAG_def List.member_iff)
  have data: "glyph_data pack_harfbuzz (gk_font d) 1128678962 g = Ok [of_nat g, 9]" for g
    by (simp add: glyph_data_def Cff2Data_def pack_harfbuzz_def kGlyf_def kGvar_def kCFF_def HB_TAG_def)
  have ok: "list_ex (\<lambda>tag. tag \<notin> {kGlyf, kGvar, kCFF, kCFF2}) (gk_tags d) = False" by (simp add: d_def)
  have "\<exists>str. CreateDataStream pack_harfbuzz d S True = Ok str \<and> length str < TWO32"
    unfolding CreateDataStream_def ok
    by (simp add: IntSet_size_def v tags data stream_header_size_def PopulateTableData_def add_glyph_def write_gid_def Let_def font_ints_eval WRITE_UINT32_def)
  then obtain patch where p: "CreatePatch pack_harfbuzz copy_diff d S = Ok patch"
    by (auto simp: CreatePatch_def IntSet_max_def v copy_diff_def WRITE_UINT32_Inr OTRY_eq_Ok)
  from glyph_keyed_patch_reads [where decode = copy_patch, OF p copy_decodes] obtain ds where
    ds: "list_all2 (\<lambda>(tag, g) d'. glyph_data pack_harfbuzz (gk_font d) tag g = Ok d') (List.product (processed_tags pack_harfbuzz d) (to_vector S)) ds"
      "read_glyph_patch copy_patch patch = Inr (int (HB_TAG ''ifgk''), CompatId_values (gk_base_compat_id d),
        map int (to_vector S), map int (processed_tags pack_harfbuzz d), ds)" by blast
  from ds(1) have "ds = [[1, 9], [2, 9]]" by (auto simp: tags v data list_all2_Cons1)
  with ds(2) have "read_glyph_patch copy_patch patch = Inr (1768318827, [1, 2, 3, 4], [1, 2], [1128678962], [[1, 9], [2, 9]])"
    by (simp add: tags v HB_TAG_def) (simp add: d_def)
  with p show ?thesis unfolding d_def S_def by blast
qed


section \<open>Fonts with a patch map\<close>

text \<open>
  C37: the font that \<^verbatim>\<open>AddToFont\<close> returns has the tables of the face, with the serialized patch maps,
  with the charstring offsets of the face, in place of \<^verbatim>\<open>IFT\<close> and \<^verbatim>\<open>IFTX\<close>.
\<close>

theorem AddToFont_font:
  assumes "builder_ok hb" and "AddToFont hb conv fconv face main_table extension = Inr font"
  shows "\<exists>cff cff2 ift. Serialize conv fconv main_table cff cff2 = Inr ift \<and> CffCharStringsOffset hb face = Inr cff \<and>
    Cff2CharStringsOffset hb face = Inr cff2 \<and>
    (case extension of None \<Rightarrow> map_of (hb_tables hb font) = (map_of (hb_tables hb face))(kIFT \<mapsto> ift)
     | Some e \<Rightarrow> \<exists>x. Serialize conv fconv e None None = Inr x \<and>
         map_of (hb_tables hb font) = (map_of (hb_tables hb face))(kIFT \<mapsto> ift, kIFTX \<mapsto> x))"
  using assms by (rule AddToFont_tables)

lemma example_serialized:
  "\<exists>bs. Serialize conv id (IFTTable\<lparr>it_url_template := [104, 105], it_patch_map := [example_entry]\<rparr>) None None = Inr bs"
  by (simp add: format_eval Serialize_def IFTTable_def PickDefaultEncoding_def count_encoding_def NumEntries_def
      header_min_length_def offset_field_def EncodeEntries_def)

lemma AddToFont_font_witness:
  "\<exists>font ift. AddToFont pack_harfbuzz (\<lambda>n. n) id base_font (IFTTable\<lparr>it_url_template := [104, 105], it_patch_map := [example_entry]\<rparr>) None = Inr font \<and>
    map_of (hb_tables pack_harfbuzz font) = [5 \<mapsto> [1, 2], 6 \<mapsto> [9], 1229345824 \<mapsto> ift]"
proof -
  let ?t = "IFTTable\<lparr>it_url_template := [104, 105], it_patch_map := [example_entry]\<rparr>"
  have no_cff: "CffCharStringsOffset pack_harfbuzz base_font = Inr None" "Cff2CharStringsOffset pack_harfbuzz base_font = Inr None"
    by (simp_all add: CffCharStringsOffset_def Cff2CharStringsOffset_def CharStringsOffset_def TableData_def example_tables kCFF_def kCFF2_def HB_TAG_def)
  obtain bs where "Serialize (\<lambda>n. n) id ?t None None = Inr bs" using example_serialized by blast
  then have font: "AddToFont pack_harfbuzz (\<lambda>n. n) id base_font ?t None = Inr (AddTablesToFont pack_harfbuzz base_font bs None)"
    by (simp add: AddToFont_def no_cff)
  have "map_of (hb_tables pack_harfbuzz base_font) = [5 \<mapsto> [1, 2], 6 \<mapsto> [9]]" by (auto simp: example_tables)
  with AddToFont_font [OF pack_builder font] font show ?thesis by (auto simp: kIFT_def HB_TAG_def)
qed

end
