(* ===== verification/Compiler_Edges.thy ===== *)
theory Compiler_Edges
  imports Outcome Segment_Closure
begin

text \<open>
  The graph that the compiler (\<^verbatim>\<open>ift/encoder/compiler.cc\<close>, \<^verbatim>\<open>.h\<close>) encodes: the nodes are subset definitions,
  an edge adds a combination of the subsets that a node does not have, in one jump or in one jump per
  subset.
\<close>

section \<open>Edges and jumps\<close>

record jump =
  jp_start :: subset_definition
  jp_end :: subset_definition

definition Jump :: "subset_definition \<Rightarrow> subset_definition \<Rightarrow> jump" where
  "Jump from_subset to_subset = \<lparr>jp_start = from_subset, jp_end = to_subset\<rparr>"

record edge =
  ed_subsets :: "subset_definition list"
  ed_combined :: subset_definition

definition Edge :: "subset_definition list \<Rightarrow> edge" where
  "Edge values = \<lparr>ed_subsets = values, ed_combined = fold (\<lambda>s c. SD_Union c s) values (SubsetDefinition [])\<rparr>"

definition Edge_Add :: "subset_definition \<Rightarrow> edge \<Rightarrow> edge" where
  "Edge_Add s e = \<lparr>ed_subsets = s # ed_subsets e, ed_combined = SD_Union (ed_combined e) s\<rparr>"

definition ChangesDesignSpace :: "edge \<Rightarrow> subset_definition \<Rightarrow> bool" where
  "ChangesDesignSpace e base = (sd_design_space (SD_Union (ed_combined e) base) \<noteq> sd_design_space base)"

fun prefetch_jumps :: "subset_definition list \<Rightarrow> subset_definition \<Rightarrow> jump list" where
  "prefetch_jumps [] current_base = []"
| "prefetch_jumps (s # ss) current_base = (let next_base = SD_Union current_base s
     in if next_base \<noteq> current_base then Jump current_base next_base # prefetch_jumps ss next_base
        else prefetch_jumps ss current_base)"

definition Jumps :: "edge \<Rightarrow> subset_definition \<Rightarrow> bool \<Rightarrow> jump list" where
  "Jumps e base use_prefetch_lists =
     (if \<not> use_prefetch_lists then
        let next_base = SD_Union base (ed_combined e) in if next_base = base then [] else [Jump base next_base]
      else prefetch_jumps (ed_subsets e) base)"

section \<open>Outgoing edges\<close>

text \<open>The positions of an iterator: an element with what follows it.\<close>

fun positions :: "'a list \<Rightarrow> ('a \<times> 'a list) list" where
  "positions [] = []"
| "positions (x # xs) = (x, xs) # positions xs"

primrec AddCombinations :: "nat \<Rightarrow> subset_definition list \<Rightarrow> edge list \<Rightarrow> edge list" where
  "AddCombinations 0 ins out = out"
| "AddCombinations (Suc c) ins out =
     (if length ins < Suc c then out
      else if c = 0 then out @ map (\<lambda>item. Edge [item]) ins
      else fold (\<lambda>(item, remaining) out. out @ map (Edge_Add item) (AddCombinations c remaining [])) (positions ins) out)"

definition RemainingSubsets :: "subset_definition list \<Rightarrow> subset_definition \<Rightarrow> subset_definition list" where
  "RemainingSubsets extension_subsets node_subset =
     filter (\<lambda>filtered. \<not> SD_Empty filtered) (map (\<lambda>s. SD_Subtract s node_subset) extension_subsets)"

text \<open>\<open>None\<close>: the 32 bit counter of the loop wraps around below the largest number, so that it never ends.\<close>

definition OutgoingEdges :: "subset_definition list \<Rightarrow> subset_definition \<Rightarrow> nat \<Rightarrow> edge list option" where
  "OutgoingEdges extension_subsets node_subset choices =
     (if UINT32_MAX \<le> choices then None
      else Some (fold (\<lambda>i result. AddCombinations i (RemainingSubsets extension_subsets node_subset) result) [1..<choices + 1] []))"

section \<open>Canonical definitions\<close>

text \<open>Axis ranges and features as the containers of the code hold them: equal contents are equal definitions.\<close>

definition sd_canonical :: "subset_definition \<Rightarrow> bool" where
  "sd_canonical d \<longleftrightarrow> sd_wf d \<and> sorted_wrt (<) (sd_feature_tags d)"

lemma sd_canonicalD: "sd_canonical d \<Longrightarrow> sd_wf d"
  by (simp add: sd_canonical_def)

lemma sorted_fold_ins_sorted: "sorted_wrt (<) ys \<Longrightarrow> sorted_wrt (<) (fold ins_sorted xs ys)"
  by (induction xs arbitrary: ys) (simp_all add: sorted_ins_sorted)

lemma sd_canonical_Union [simp]: "sd_canonical a \<Longrightarrow> sd_canonical b \<Longrightarrow> sd_canonical (SD_Union a b)"
  by (simp add: sd_canonical_def) (simp add: SD_Union_def sorted_fold_ins_sorted)

lemma sd_canonical_empty [simp]: "sd_canonical (SubsetDefinition [])"
  by (simp add: sd_canonical_def) (simp add: SubsetDefinition_def)

lemma subtract_find:
  assumes "ds_wf a"
  shows "ds_find t (subtract_design_space a b) = (case ds_find t a of None \<Rightarrow> None
     | Some r \<Rightarrow> (case ds_find t b of None \<Rightarrow> Some r | Some e \<Rightarrow> subtract_range r e))"
    and "ds_sorted (subtract_design_space a b)"
proof -
  have "ds_sorted a" "ds_sorted []" using assms by (simp_all add: ds_wf_def ds_sorted_def)
  note s = subtract_fold [OF this, of b t, folded subtract_design_space_def]
  show "ds_sorted (subtract_design_space a b)" using s by blast
  show "ds_find t (subtract_design_space a b) = (case ds_find t a of None \<Rightarrow> None
     | Some r \<Rightarrow> (case ds_find t b of None \<Rightarrow> Some r | Some e \<Rightarrow> subtract_range r e))"
    using s by (auto simp: ds_find_def split: option.splits)
qed

lemma ds_wf_subtract:
  assumes "ds_wf a" and "ds_wf b"
  shows "ds_wf (subtract_design_space a b)"
proof (rule ds_wfI)
  show "ds_sorted (subtract_design_space a b)" by (rule subtract_find [OF assms(1)])
  fix t r assume "ds_find t (subtract_design_space a b) = Some r"
  then show "ar_wf r" using subtract_find(1) [OF assms(1), of t b] ds_find_wf [OF assms(1)] ds_find_wf [OF assms(2)] subtract_range_aux
    by (fastforce split: option.splits)
qed

lemma sd_canonical_Subtract [simp]: "sd_canonical a \<Longrightarrow> sd_canonical b \<Longrightarrow> sd_canonical (SD_Subtract a b)"
  by (simp add: sd_canonical_def SD_Subtract_def ds_wf_subtract subtract_sets_branches sorted_wrt_filter)

lemma ds_find_points: "ds_wf ds \<Longrightarrow> ds_find t ds = None \<longleftrightarrow> ds_points t ds = {}"
  using ds_find_wf [of ds t] by (auto simp: ds_points_def ar_points_def ar_wf_def split: option.splits)

lemma ar_points_inject: "ar_wf r \<Longrightarrow> ar_wf e \<Longrightarrow> ar_points r = ar_points e \<Longrightarrow> r = e"
  by (cases r; cases e) (auto simp: ar_points_def ar_wf_def set_eq_iff intro: antisym)

lemma map_of_eq_iff_set: "distinct (map fst a) \<Longrightarrow> distinct (map fst b) \<Longrightarrow> map_of a = map_of b \<Longrightarrow> set a = set b"
  by (metis graph_map_of_if_distinct_dom)

lemma ds_points_inject:
  assumes "ds_wf a" and "ds_wf b" and "\<And>t. ds_points t a = ds_points t b"
  shows "a = b"
proof -
  have "ds_find t a = ds_find t b" for t
  proof (cases "ds_find t a")
    case None
    then show ?thesis using assms ds_find_points by metis
  next
    case (Some r)
    then obtain e where e: "ds_find t b = Some e" using assms ds_find_points by (metis not_None_eq)
    have "r = e" by (rule ar_points_inject)
      (use assms(3) [of t] ds_find_wf [OF assms(1) Some] ds_find_wf [OF assms(2) e] in \<open>simp_all add: ds_points_def Some e\<close>)
    with Some e show ?thesis by simp
  qed
  then have "map_of a = map_of b" by (auto simp: ds_find_def)
  moreover have k: "distinct (map fst a)" "distinct (map fst b)" "sorted (map fst a)" "sorted (map fst b)"
    using assms(1,2) by (simp_all add: ds_wf_def ds_sorted_def strict_sorted_iff)
  ultimately have eq: "set a = set b" using map_of_eq_iff_set by blast
  have "inj_on fst (set a \<union> set b)" using k(1) by (simp add: eq [symmetric] distinct_map)
  from map_sorted_distinct_set_unique [OF this k(3,1,4,2) eq] show ?thesis .
qed

lemma sd_le_antisym: "sd_canonical a \<Longrightarrow> sd_canonical b \<Longrightarrow> sd_le a b \<Longrightarrow> sd_le b a \<Longrightarrow> a = b"
proof -
  assume c: "sd_canonical a" "sd_canonical b" and le: "sd_le a b" "sd_le b a"
  have "sd_codepoints a = sd_codepoints b" "sd_gids a = sd_gids b" using le by (auto simp: sd_le_def int_set_eq_iff)
  moreover have "sd_feature_tags a = sd_feature_tags b"
    using le c by (intro strict_sorted_eqI) (auto simp: sd_le_def sd_canonical_def)
  moreover have "sd_design_space a = sd_design_space b"
    using le c by (intro ds_points_inject) (auto simp: sd_le_def sd_canonical_def)
  ultimately show ?thesis by simp
qed

section \<open>What a node has not\<close>

lemma SD_Subtract_empty:
  assumes "sd_wf s" and "sd_wf node"
  shows "SD_Empty (SD_Subtract s node) \<longleftrightarrow> sd_le s node"
proof -
  have nil: "ds = [] \<longleftrightarrow> (\<forall>t. ds_find t ds = None)" for ds by (cases ds) (auto simp: ds_find_def)
  have axis: "(case ds_find t (sd_design_space s) of None \<Rightarrow> None
     | Some r \<Rightarrow> (case ds_find t (sd_design_space node) of None \<Rightarrow> Some r | Some e \<Rightarrow> subtract_range r e)) = None \<longleftrightarrow>
     ds_points t (sd_design_space s) \<subseteq> ds_points t (sd_design_space node)" for t
    using ds_find_wf [OF assms(1), of t] ds_find_wf [OF assms(2), of t]
    by (auto simp: ds_points_def subtract_range_def ar_points_def ar_wf_def AR_Intersects_def split: option.splits)
  show ?thesis unfolding SD_Empty_def SD_Subtract_def sd_le_def
    by (simp add: nil subtract_find(1) [OF assms(1)] axis subtract_sets_branches filter_empty_conv) (auto simp: subset_eq)
qed

declare sd_le_refl [simp]

text \<open>A node that gets the difference has the subset.\<close>

lemma Subtract_covers:
  assumes wf: "sd_wf s" "sd_wf node" and "sd_wf d" and le: "sd_le node d" "sd_le (SD_Subtract s node) d"
  shows "sd_le s d"
proof -
  have "members (sd_codepoints (SD_Subtract s node)) = members (sd_codepoints s) - members (sd_codepoints node)"
    "members (sd_gids (SD_Subtract s node)) = members (sd_gids s) - members (sd_gids node)"
    "set (sd_feature_tags (SD_Subtract s node)) = set (sd_feature_tags s) - set (sd_feature_tags node)"
    by (simp_all add: SD_Subtract_def set_subtract_sets)
  moreover have "ds_points t (sd_design_space s) - ds_points t (sd_design_space node) \<subseteq> ds_points t (sd_design_space (SD_Subtract s node))" for t
    using subtract_points [OF wf, of t] by (simp add: SD_Subtract_def)
  ultimately show ?thesis using le unfolding sd_le_def by blast
qed

lemma RemainingSubsets_le:
  assumes "\<forall>s \<in> set ext. sd_wf s" and "sd_wf node" "sd_wf d" and le: "sd_le node d"
  shows "length (RemainingSubsets ext d) \<le> length (RemainingSubsets ext node)"
    and "f \<in> set (RemainingSubsets ext node) \<Longrightarrow> sd_le f d \<Longrightarrow> length (RemainingSubsets ext d) < length (RemainingSubsets ext node)"
proof -
  have len: "length (RemainingSubsets ext n) = length (filter (\<lambda>s. \<not> sd_le s n) ext)" if "sd_wf n" for n
  proof -
    have "filter ((\<lambda>f. \<not> SD_Empty f) \<circ> (\<lambda>s. SD_Subtract s n)) ext = filter (\<lambda>s. \<not> sd_le s n) ext"
      using assms(1) that by (intro filter_cong) (simp_all add: SD_Subtract_empty)
    then show ?thesis by (simp add: RemainingSubsets_def filter_map)
  qed
  have sub: "filter (\<lambda>s. \<not> sd_le s d) ext = filter (\<lambda>s. \<not> sd_le s d) (filter (\<lambda>s. \<not> sd_le s node) ext)"
    using le by (auto intro!: filter_cong dest: sd_le_trans)
  show "length (RemainingSubsets ext d) \<le> length (RemainingSubsets ext node)"
    unfolding len [OF assms(2)] len [OF assms(3)] by (subst sub) (rule length_filter_le)
  assume "f \<in> set (RemainingSubsets ext node)" and f: "sd_le f d"
  then obtain s where s: "s \<in> set ext" "f = SD_Subtract s node" "\<not> SD_Empty f" by (auto simp: RemainingSubsets_def)
  have "sd_wf s" using assms(1) s(1) by blast
  then have "\<not> sd_le s node" "sd_le s d" using s(2,3) SD_Subtract_empty [of s node] Subtract_covers [of s node d] assms(2,3) le f by auto
  then show "length (RemainingSubsets ext d) < length (RemainingSubsets ext node)"
    unfolding len [OF assms(2)] len [OF assms(3)] using s(1) by (subst sub) (rule length_filter_less [of s], auto)
qed

lemma Subtract_le:
  assumes "sd_wf s" and "sd_wf node"
  shows "sd_le (SD_Subtract s node) s"
  using subtract_points [OF assms] by (auto simp: sd_le_def SD_Subtract_def set_subtract_sets)

text \<open>A step from a node \<open>a\<close> above the first node that adds one of the missing parts leaves fewer subsets missing.\<close>

lemma RemainingSubsets_step:
  assumes "\<forall>s \<in> set ext. sd_wf s" and wf: "sd_wf node" "sd_wf a" "sd_wf d" and le: "sd_le node a" "sd_le a d"
    and f: "f \<in> set (RemainingSubsets ext node)" "sd_le f d" "\<not> sd_le f a"
  shows "length (RemainingSubsets ext d) < length (RemainingSubsets ext a)"
proof -
  obtain s where s: "s \<in> set ext" "f = SD_Subtract s node" using f(1) by (auto simp: RemainingSubsets_def)
  have s_wf: "sd_wf s" using assms(1) s(1) by blast
  have sd: "sd_le s d" using Subtract_covers [OF s_wf wf(1,3)] sd_le_trans [OF le] f(2) s(2) by blast
  have sa: "\<not> sd_le s a" using f(3) s(2) sd_le_trans [OF Subtract_le [OF s_wf wf(1)]] by blast
  let ?g = "SD_Subtract s a"
  have "?g \<in> set (RemainingSubsets ext a)"
    using s(1) sa SD_Subtract_empty [OF s_wf wf(2)] by (auto simp: RemainingSubsets_def)
  moreover have "sd_le ?g d" using sd_le_trans [OF Subtract_le [OF s_wf wf(2)] sd] .
  ultimately show ?thesis by (rule RemainingSubsets_le(2) [OF assms(1) wf(2,3) le(2)])
qed

section \<open>The edges are the combinations\<close>

lemma fold_append: "fold (\<lambda>x out. out @ f x) xs out = out @ concat (map f xs)"
  by (induction xs arbitrary: out) simp_all

lemma AddCombinations_out: "AddCombinations n ins out = out @ AddCombinations n ins []"
  by (cases n) (simp_all add: case_prod_unfold fold_append)

definition sized_subseqs :: "nat \<Rightarrow> 'a list \<Rightarrow> 'a list list" where
  "sized_subseqs n xs = filter (\<lambda>ys. length ys = n) (subseqs xs)"

lemma sized_subseqs_0: "sized_subseqs 0 xs = [[]]"
  by (induction xs) (simp_all add: sized_subseqs_def Let_def filter_map comp_def)

lemma sized_subseqs_Suc: "sized_subseqs (Suc n) xs = concat (map (\<lambda>(x, rest). map ((#) x) (sized_subseqs n rest)) (positions xs))"
  by (induction xs) (simp_all add: sized_subseqs_def Let_def filter_map comp_def)

lemma sized_subseqs_short: "length xs < n \<Longrightarrow> sized_subseqs n xs = []"
proof -
  have "length ys \<le> length xs" if "ys \<in> set (subseqs xs)" for ys using that
    by (induction xs arbitrary: ys) (auto simp: Let_def le_SucI)
  then show "length xs < n \<Longrightarrow> sized_subseqs n xs = []" by (force simp: sized_subseqs_def filter_empty_conv)
qed

lemma sized_subseqs_subset: "ys \<in> set (sized_subseqs n xs) \<Longrightarrow> set ys \<subseteq> set xs"
  unfolding sized_subseqs_def by (metis (no_types, lifting) Pow_iff filter_is_subset image_eqI subsetD subseqs_powset)

lemma AddCombinations_subsets: "0 < n \<Longrightarrow> map ed_subsets (AddCombinations n ins []) = sized_subseqs n ins"
proof (induction n arbitrary: ins)
  case (Suc c)
  have add: "ed_subsets \<circ> Edge_Add s = (#) s \<circ> ed_subsets" for s by (auto simp: Edge_Add_def)
  show ?case
  proof (cases "c = 0")
    case True
    have "map (\<lambda>item. [item]) ins = sized_subseqs 1 ins"
      by (induction ins) (simp_all add: sized_subseqs_Suc sized_subseqs_0)
    then show ?thesis using True sized_subseqs_short [of ins 1] by (auto simp: Edge_def comp_def)
  next
    case False
    then have IH: "map ed_subsets (AddCombinations c rest []) = sized_subseqs c rest" for rest using Suc.IH by simp
    have "map ed_subsets (AddCombinations (Suc c) ins []) = sized_subseqs (Suc c) ins" if "\<not> length ins < Suc c"
      using that False by (simp add: case_prod_unfold fold_append map_concat comp_def add [unfolded comp_def] sized_subseqs_Suc IH [symmetric])
    then show ?thesis using sized_subseqs_short [of ins "Suc c"] by fastforce
  qed
qed simp

lemma OutgoingEdges_subsets:
  assumes "OutgoingEdges ext node n = Some edges"
  shows "map ed_subsets edges = concat (map (\<lambda>i. sized_subseqs i (RemainingSubsets ext node)) [1..<n + 1])"
proof -
  have "edges = concat (map (\<lambda>i. AddCombinations i (RemainingSubsets ext node) []) [1..<n + 1])"
    using assms fold_append [of "\<lambda>i. AddCombinations i (RemainingSubsets ext node) []" "[1..<n + 1]" "[]"]
    by (simp add: OutgoingEdges_def AddCombinations_out [symmetric] split: if_splits)
  then have "map ed_subsets edges = concat (map (\<lambda>i. map ed_subsets (AddCombinations i (RemainingSubsets ext node) [])) [1..<n + 1])"
    by (simp only: map_concat map_map comp_def)
  moreover have "map ed_subsets (AddCombinations i (RemainingSubsets ext node) []) = sized_subseqs i (RemainingSubsets ext node)" if "i \<in> set [1..<n + 1]" for i
    using that by (intro AddCombinations_subsets) auto
  ultimately show ?thesis by (simp only: cong: map_cong)
qed

text \<open>What an edge adds is the least definition above its subsets.\<close>

definition edge_ok :: "edge \<Rightarrow> bool" where
  "edge_ok e \<longleftrightarrow> (\<forall>s \<in> set (ed_subsets e). sd_canonical s) \<and> sd_canonical (ed_combined e) \<and>
     (\<forall>d. sd_wf d \<longrightarrow> (sd_le (ed_combined e) d \<longleftrightarrow> (\<forall>s \<in> set (ed_subsets e). sd_le s d)))"

lemma sd_le_Union_iff: "sd_wf a \<Longrightarrow> sd_wf b \<Longrightarrow> sd_wf d \<Longrightarrow> sd_le (SD_Union a b) d \<longleftrightarrow> sd_le a d \<and> sd_le b d"
  using sd_le_Union [of a b] sd_Union_least [of a b d] sd_le_trans by blast

lemma edge_ok_single: "sd_canonical s \<Longrightarrow> edge_ok (Edge [s])"
  by (simp add: edge_ok_def Edge_def sd_le_Union_iff sd_canonicalD sd_le_empty)

lemma edge_ok_Add: "sd_canonical s \<Longrightarrow> edge_ok e \<Longrightarrow> edge_ok (Edge_Add s e)"
  by (auto simp: edge_ok_def Edge_Add_def sd_le_Union_iff sd_canonicalD)

lemma AddCombinations_ok:
  assumes "\<forall>s \<in> set ins. sd_canonical s" and "e \<in> set (AddCombinations n ins [])"
  shows "edge_ok e"
  using assms
proof (induction n arbitrary: ins e)
  case (Suc c)
  have pos: "x \<in> set ins \<and> set rest \<subseteq> set ins" if "(x, rest) \<in> set (positions ins)" for x rest
    using that by (induction ins) auto
  show ?case
  proof (cases "c = 0")
    case False
    then obtain x rest d where "(x, rest) \<in> set (positions ins)" "d \<in> set (AddCombinations c rest [])" "e = Edge_Add x d"
      using Suc.prems by (auto simp: case_prod_unfold fold_append split: if_splits)
    with pos [of x rest] Suc.IH [of rest d] Suc.prems(1) show ?thesis by (auto intro!: edge_ok_Add)
  qed (use Suc.prems in \<open>auto intro: edge_ok_single split: if_splits\<close>)
qed simp

lemma RemainingSubsets_canonical: "\<forall>s \<in> set ext. sd_canonical s \<Longrightarrow> sd_canonical node \<Longrightarrow> \<forall>f \<in> set (RemainingSubsets ext node). sd_canonical f"
  by (auto simp: RemainingSubsets_def)

lemma OutgoingEdges_ok:
  assumes "\<forall>s \<in> set ext. sd_canonical s" and "sd_canonical node" and "OutgoingEdges ext node n = Some edges" and "e \<in> set edges"
  shows "edge_ok e \<and> ed_subsets e \<noteq> [] \<and> set (ed_subsets e) \<subseteq> set (RemainingSubsets ext node)"
proof
  have "edges = concat (map (\<lambda>i. AddCombinations i (RemainingSubsets ext node) []) [1..<n + 1])"
    using assms(3) fold_append [of "\<lambda>i. AddCombinations i (RemainingSubsets ext node) []" "[1..<n + 1]" "[]"]
    by (simp add: OutgoingEdges_def AddCombinations_out [symmetric] split: if_splits)
  with assms(4) obtain i where "e \<in> set (AddCombinations i (RemainingSubsets ext node) [])" by auto
  from AddCombinations_ok [OF RemainingSubsets_canonical [OF assms(1,2)] this] show "edge_ok e" .
  have "ed_subsets e \<in> set (map ed_subsets edges)" using assms(4) by simp
  then obtain i where "1 \<le> i" "ed_subsets e \<in> set (sized_subseqs i (RemainingSubsets ext node))"
    unfolding OutgoingEdges_subsets [OF assms(3)] by auto
  then show "ed_subsets e \<noteq> [] \<and> set (ed_subsets e) \<subseteq> set (RemainingSubsets ext node)"
    using sized_subseqs_subset [of "ed_subsets e" i "RemainingSubsets ext node"] by (auto simp: sized_subseqs_def)
qed

section \<open>Jumps\<close>

definition path :: "subset_definition \<Rightarrow> jump list \<Rightarrow> subset_definition \<Rightarrow> bool" where
  "path a js b \<longleftrightarrow> map jp_start js @ [b] = a # map jp_end js"

lemma path_Nil [simp]: "path a [] b \<longleftrightarrow> b = a"
  by (auto simp: path_def)

lemma path_Cons [simp]: "path a (j # js) b \<longleftrightarrow> jp_start j = a \<and> path (jp_end j) js b"
  by (auto simp: path_def)

lemma prefetch_jumps_path:
  assumes "\<forall>s \<in> set ss. sd_canonical s" and "sd_canonical base"
  shows "path base (prefetch_jumps ss base) (fold (\<lambda>s b. SD_Union b s) ss base) \<and>
    (\<forall>j \<in> set (prefetch_jumps ss base). sd_canonical (jp_start j) \<and> sd_canonical (jp_end j) \<and> sd_le base (jp_start j) \<and>
       sd_le (jp_start j) (jp_end j) \<and> jp_start j \<noteq> jp_end j \<and> (\<exists>s \<in> set ss. sd_le s (jp_end j) \<and> \<not> sd_le s (jp_start j)))"
  using assms
proof (induction ss arbitrary: base)
  case (Cons s ss)
  let ?b = "SD_Union base s"
  have c: "sd_canonical ?b" "sd_canonical s" using Cons.prems by auto
  have le: "sd_le base ?b" "sd_le s ?b" using Cons.prems(2) c(2) by (simp_all add: sd_le_Union sd_canonicalD)
  note IH = Cons.IH [of ?b, OF _ c(1)]
  show ?case
  proof (cases "?b = base")
    case True
    with IH Cons.prems(1) show ?thesis by (auto simp: Let_def)
  next
    case False
    have "sd_le s base \<Longrightarrow> sd_le ?b base" using Cons.prems(2) c(2) by (intro sd_Union_least) (simp_all add: sd_canonicalD)
    then have "\<not> sd_le s base" using False sd_le_antisym [OF c(1) Cons.prems(2) _ le(1)] by blast
    with False IH Cons.prems c le show ?thesis by (auto simp: Let_def Jump_def intro: sd_le_trans [OF le(1)])
  qed
qed simp

lemma fold_Union_least:
  assumes "\<forall>s \<in> set ss. sd_canonical s" and "sd_canonical base"
  shows "sd_canonical (fold (\<lambda>s b. SD_Union b s) ss base) \<and> (\<forall>d. sd_wf d \<longrightarrow>
    (sd_le (fold (\<lambda>s b. SD_Union b s) ss base) d \<longleftrightarrow> sd_le base d \<and> (\<forall>s \<in> set ss. sd_le s d)))"
  using assms
proof (induction ss arbitrary: base)
  case (Cons s ss)
  then show ?case using Cons.IH [of "SD_Union base s"] by (simp add: sd_le_Union_iff sd_canonicalD)
qed simp

text \<open>
  Whatever way the jumps are made, they lead from the node to the node with all that the edge adds. There is
  one at least, every one adds something, and every node on the way has less left than the first.
\<close>

lemma Jumps_spec:
  assumes ext: "\<forall>s \<in> set ext. sd_canonical s" and node: "sd_canonical node" and edges: "OutgoingEdges ext node n = Some edges" "e \<in> set edges"
  shows "path node (Jumps e node prefetch) (SD_Union node (ed_combined e))" and "Jumps e node prefetch \<noteq> []"
    and "j \<in> set (Jumps e node prefetch) \<Longrightarrow> sd_canonical (jp_start j) \<and> sd_canonical (jp_end j) \<and> sd_le (jp_start j) (jp_end j) \<and>
      jp_start j \<noteq> jp_end j \<and> length (RemainingSubsets ext (jp_end j)) < length (RemainingSubsets ext node)"
proof -
  have e: "edge_ok e" "ed_subsets e \<noteq> []" "set (ed_subsets e) \<subseteq> set (RemainingSubsets ext node)"
    using OutgoingEdges_ok [OF ext node edges] by auto
  let ?target = "SD_Union node (ed_combined e)"
  have comb: "sd_canonical (ed_combined e)" "\<forall>s \<in> set (ed_subsets e). sd_canonical s" using e(1) by (auto simp: edge_ok_def)
  have end_c: "sd_canonical ?target" using comb node by simp
  have le_end: "sd_le node ?target" "sd_le (ed_combined e) ?target" using node comb(1) by (simp_all add: sd_le_Union sd_canonicalD)
  have sub_end: "\<forall>s \<in> set (ed_subsets e). sd_le s ?target" using e(1) le_end(2) end_c by (auto simp: edge_ok_def sd_canonicalD)
  have wf: "\<forall>s \<in> set ext. sd_wf s" using ext by (simp add: sd_canonicalD)
  have less: "length (RemainingSubsets ext d) < length (RemainingSubsets ext node)"
    if "sd_canonical d" "sd_le node d" "s \<in> set (ed_subsets e)" "sd_le s d" for s d
    using RemainingSubsets_le(2) [OF wf _ _ that(2), of s] that e(3) node by (auto simp: sd_canonicalD)
  obtain s where s: "s \<in> set (ed_subsets e)" using e(2) by (cases "ed_subsets e") auto
  have ne: "?target \<noteq> node" using less [OF end_c le_end(1) s] sub_end s by auto
  have union: "fold (\<lambda>s b. SD_Union b s) (ed_subsets e) node = ?target"
  proof (rule sd_le_antisym)
    note f = fold_Union_least [OF comb(2) node]
    show "sd_canonical (fold (\<lambda>s b. SD_Union b s) (ed_subsets e) node)" using f by blast
    show "sd_le (fold (\<lambda>s b. SD_Union b s) (ed_subsets e) node) ?target" using f le_end(1) sub_end sd_canonicalD [OF end_c] by blast
    have "sd_wf (fold (\<lambda>s b. SD_Union b s) (ed_subsets e) node)" using f sd_canonicalD by blast
    moreover from f this have "sd_le node (fold (\<lambda>s b. SD_Union b s) (ed_subsets e) node)"
      "\<forall>s \<in> set (ed_subsets e). sd_le s (fold (\<lambda>s b. SD_Union b s) (ed_subsets e) node)" using sd_le_refl by blast+
    ultimately show "sd_le ?target (fold (\<lambda>s b. SD_Union b s) (ed_subsets e) node)"
      using node comb(1) e(1) by (simp add: sd_le_Union_iff sd_canonicalD edge_ok_def)
  qed (rule end_c)
  note pre = prefetch_jumps_path [OF comb(2) node, unfolded union]
  show path: "path node (Jumps e node prefetch) ?target"
    using pre ne by (cases prefetch) (auto simp: Jumps_def Let_def Jump_def)
  show "Jumps e node prefetch \<noteq> []" using path ne by auto
  show "j \<in> set (Jumps e node prefetch) \<Longrightarrow> sd_canonical (jp_start j) \<and> sd_canonical (jp_end j) \<and> sd_le (jp_start j) (jp_end j) \<and>
      jp_start j \<noteq> jp_end j \<and> length (RemainingSubsets ext (jp_end j)) < length (RemainingSubsets ext node)"
  proof (cases prefetch)
    case True
    assume "j \<in> set (Jumps e node prefetch)"
    then have j: "j \<in> set (prefetch_jumps (ed_subsets e) node)" using True by (simp add: Jumps_def)
    with pre have jp: "sd_canonical (jp_start j)" "sd_canonical (jp_end j)" "sd_le node (jp_start j)" "sd_le (jp_start j) (jp_end j)"
      "jp_start j \<noteq> jp_end j" "\<exists>s \<in> set (ed_subsets e). sd_le s (jp_end j)" by blast+
    then obtain s where "s \<in> set (ed_subsets e)" "sd_le s (jp_end j)" by blast
    with less [of "jp_end j" s] jp sd_le_trans show ?thesis by blast
  next
    case False
    assume "j \<in> set (Jumps e node prefetch)"
    then have "j = Jump node ?target" using False ne by (auto simp: Jumps_def Let_def)
    then show ?thesis using less [OF end_c le_end(1) s] sub_end s node end_c le_end(1) ne by (auto simp: Jump_def)
  qed
qed

text \<open>At the end of every jump fewer subsets are missing than at its start.\<close>

lemma Jumps_descend:
  assumes ext: "\<forall>s \<in> set ext. sd_canonical s" and node: "sd_canonical node" and edges: "OutgoingEdges ext node n = Some edges" "e \<in> set edges"
    and j: "j \<in> set (Jumps e node prefetch)"
  shows "length (RemainingSubsets ext (jp_end j)) < length (RemainingSubsets ext (jp_start j))"
proof (cases prefetch)
  case True
  have e: "edge_ok e" "set (ed_subsets e) \<subseteq> set (RemainingSubsets ext node)"
    using OutgoingEdges_ok [OF ext node edges] by auto
  then have "\<forall>s \<in> set (ed_subsets e). sd_canonical s" by (simp add: edge_ok_def)
  from prefetch_jumps_path [OF this node] j True obtain s where
    jp: "sd_canonical (jp_start j)" "sd_canonical (jp_end j)" "sd_le node (jp_start j)" "sd_le (jp_start j) (jp_end j)"
      "s \<in> set (ed_subsets e)" "sd_le s (jp_end j)" "\<not> sd_le s (jp_start j)" by (auto simp: Jumps_def)
  with e(2) have s: "s \<in> set (RemainingSubsets ext node)" by blast
  show ?thesis
    by (rule RemainingSubsets_step [OF _ _ _ _ jp(3,4) s jp(6,7)])
      (use ext node jp(1,2) in \<open>simp_all add: sd_canonicalD\<close>)
next
  case False
  then have "jp_start j = node" using j by (auto simp: Jumps_def Let_def Jump_def split: if_splits)
  with Jumps_spec(3) [OF ext node edges j] show ?thesis by simp
qed

end
