(* ===== verification/Compiler_Cut.thy ===== *)
theory Compiler_Cut
  imports Font_Tables Compiler_Edges Url_Template "HOL-Library.AList" "HOL-Library.Mapping"
begin

text \<open>
  The compiler (\<^verbatim>\<open>ift/encoder/compiler.cc\<close>): its settings, and the fonts that it cuts with the harfbuzz
  subsetter. What the libraries do is a record of functions: the subsetter, brotli, WOFF2, the base 32 and 64
  encodings, the float conversions, and the random number generator as the sequence of its numbers.
\<close>

section \<open>Libraries\<close>

datatype subset_flag = RETAIN_GIDS | NOTDEF_OUTLINE | PASSTHROUGH_UNRECOGNIZED | DESUBROUTINIZE | IFTB_REQUIREMENTS

text \<open>A subset input is a value of \<open>'i\<close>, a subset plan one of \<open>'p\<close>. The result of a plan is a face builder: its tables.\<close>

record ('i, 'p) library =
  lb_hb :: harfbuzz
  lb_input :: "'i subset_input_ops"
  lb_create_input :: "'i option"
  lb_keep_everything :: "'i \<Rightarrow> 'i"
  lb_add_flags :: "subset_flag list \<Rightarrow> 'i \<Rightarrow> 'i"
  lb_plan :: "bytes \<Rightarrow> 'i \<Rightarrow> 'p option"
  lb_execute :: "'p \<Rightarrow> (hb_tag \<times> bytes) list option"
  lb_old_gids :: "'p \<Rightarrow> nat list"
  lb_subset :: "bytes \<Rightarrow> 'i \<Rightarrow> bytes option"
  lb_blob :: "(hb_tag \<times> bytes) list \<Rightarrow> bytes"
  lb_brotli :: "bytes \<Rightarrow> bytes \<Rightarrow> bytes status_or"
  lb_encode_woff2 :: "bytes \<Rightarrow> bool \<Rightarrow> bytes status_or"
  lb_decode_woff2 :: "bytes \<Rightarrow> bytes status_or"
  lb_base32 :: "bytes \<Rightarrow> bytes"
  lb_base64 :: "bytes \<Rightarrow> bytes"
  lb_conv :: "nat \<Rightarrow> nat"
  lb_fconv :: "int \<Rightarrow> int"
  lb_random :: "nat \<Rightarrow> 32 word"

section \<open>Settings\<close>

record compiler =
  cm_face :: "bytes option"
  cm_glyph_data_patches :: "(nat, int_set) mapping"
  cm_glyph_patch_conditions :: "entry list"
  cm_init_subset :: subset_definition
  cm_extension_subsets :: "subset_definition list"
  cm_jump_ahead :: nat
  cm_next_id :: nat
  cm_use_prefetch_lists :: bool
  cm_woff2_encode :: bool
  cm_override_url_template_prefix :: bytes

definition Compiler :: compiler where
  "Compiler = \<lparr>cm_face = None, cm_glyph_data_patches = Mapping.empty, cm_glyph_patch_conditions = [],
     cm_init_subset = SubsetDefinition [], cm_extension_subsets = [], cm_jump_ahead = 1, cm_next_id = 0,
     cm_use_prefetch_lists = False, cm_woff2_encode = False, cm_override_url_template_prefix = []\<rparr>"

definition SetJumpAhead :: "nat \<Rightarrow> compiler \<Rightarrow> compiler" where
  "SetJumpAhead n cm = cm\<lparr>cm_jump_ahead := n\<rparr>"

definition SetUsePrefetchLists :: "bool \<Rightarrow> compiler \<Rightarrow> compiler" where
  "SetUsePrefetchLists value cm = cm\<lparr>cm_use_prefetch_lists := value\<rparr>"

definition SetWoff2Encode :: "bool \<Rightarrow> compiler \<Rightarrow> compiler" where
  "SetWoff2Encode value cm = cm\<lparr>cm_woff2_encode := value\<rparr>"

definition SetOverrideUrlTemplatePrefix :: "bytes \<Rightarrow> compiler \<Rightarrow> compiler" where
  "SetOverrideUrlTemplatePrefix prefix cm = cm\<lparr>cm_override_url_template_prefix := prefix\<rparr>"

definition SetFace :: "bytes \<Rightarrow> compiler \<Rightarrow> compiler" where
  "SetFace face cm = cm\<lparr>cm_face := Some face\<rparr>"

definition SetInitSubset :: "nat list \<Rightarrow> compiler \<Rightarrow> compiler status_or" where
  "SetInitSubset init_codepoints cm =
     (if \<not> SD_Empty (cm_init_subset cm) then Inl FailedPreconditionError
      else Inr (cm\<lparr>cm_init_subset := (cm_init_subset cm)\<lparr>sd_codepoints :=
        IntSet_insert_all init_codepoints (sd_codepoints (cm_init_subset cm))\<rparr>\<rparr>))"

definition SetInitSubsetFromDef :: "subset_definition \<Rightarrow> compiler \<Rightarrow> compiler status_or" where
  "SetInitSubsetFromDef init_subset cm =
     (if \<not> SD_Empty (cm_init_subset cm) then Inl FailedPreconditionError else Inr (cm\<lparr>cm_init_subset := init_subset\<rparr>))"

definition AddNonGlyphDataSegment :: "subset_definition \<Rightarrow> compiler \<Rightarrow> compiler" where
  "AddNonGlyphDataSegment segment cm = cm\<lparr>cm_extension_subsets := cm_extension_subsets cm @ [segment]\<rparr>"

definition AddNonGlyphDataCodepoints :: "nat list \<Rightarrow> compiler \<Rightarrow> compiler" where
  "AddNonGlyphDataCodepoints codepoints = AddNonGlyphDataSegment (SubsetDefinition codepoints)"

definition AddFeatureGroupSegment :: "hb_tag list \<Rightarrow> compiler \<Rightarrow> compiler" where
  "AddFeatureGroupSegment feature_tags = AddNonGlyphDataSegment ((SubsetDefinition [])\<lparr>sd_feature_tags := feature_tags\<rparr>)"

definition AddDesignSpaceSegment :: "design_space \<Rightarrow> compiler \<Rightarrow> compiler" where
  "AddDesignSpaceSegment space = AddNonGlyphDataSegment ((SubsetDefinition [])\<lparr>sd_design_space := space\<rparr>)"

definition AddGlyphDataPatch :: "harfbuzz \<Rightarrow> nat \<Rightarrow> int_set \<Rightarrow> compiler \<Rightarrow> compiler status_or" where
  "AddGlyphDataPatch hb patch_id gids cm = (case cm_face cm of None \<Rightarrow> Inl FailedPreconditionError
     | Some face \<Rightarrow>
         if Mapping.lookup (cm_glyph_data_patches cm) patch_id \<noteq> None then Inl FailedPreconditionError
         else if list_ex (\<lambda>gid. hb_glyph_count hb face \<le> gid) (to_vector gids) then Inl InvalidArgumentError
         else Inr (cm\<lparr>cm_glyph_data_patches := Mapping.update patch_id gids (cm_glyph_data_patches cm),
                cm_next_id := max (cm_next_id cm) ((patch_id + 1) mod TWO32)\<rparr>))"

definition AddGlyphDataPatchCondition :: "entry \<Rightarrow> compiler \<Rightarrow> compiler status_or" where
  "AddGlyphDataPatchCondition condition cm =
     (if en_encoding condition \<noteq> GLYPH_KEYED then Inl InvalidArgumentError
      else if length (en_patch_indices condition) \<noteq> 1 then Inl InvalidArgumentError
      else if list_ex (\<lambda>child_index. length (cm_glyph_patch_conditions cm) \<le> child_index)
                (to_vector (cov_child_indices (en_coverage condition))) then Inl InvalidArgumentError
      else if \<not> en_ignored condition \<and> Mapping.lookup (cm_glyph_data_patches cm) (hd (en_patch_indices condition)) = None
        then Inl InvalidArgumentError
      else Inr (cm\<lparr>cm_glyph_patch_conditions := cm_glyph_patch_conditions cm @ [condition]\<rparr>))"

definition IsMixedMode :: "compiler \<Rightarrow> bool" where
  "IsMixedMode cm = (Mapping.ordered_keys (cm_glyph_data_patches cm) \<noteq> [])"

section \<open>URL templates\<close>

function decimal :: "nat \<Rightarrow> bytes" where
  "decimal n = (if n < 10 then [of_nat (48 + n)] else decimal (n div 10) @ [of_nat (48 + n mod 10)])"
  by pat_completeness auto
termination by (relation "measure id") auto

declare decimal.simps [simp del]

definition AppendLiteralToTemplate :: "bytes \<Rightarrow> bytes \<Rightarrow> bytes" where
  "AppendLiteralToTemplate value out = out @ of_nat (length value) # value"

text \<open>The literals are \<^verbatim>\<open>.ift_tk\<close> and \<^verbatim>\<open>.<id>.ift_gk\<close>.\<close>

definition UrlTemplate :: "compiler \<Rightarrow> nat \<Rightarrow> bytes" where
  "UrlTemplate cm patch_set_id =
     (let out = (if cm_override_url_template_prefix cm \<noteq> [] then cm_override_url_template_prefix cm else [128])
      in if patch_set_id = 0 then AppendLiteralToTemplate [46, 105, 102, 116, 95, 116, 107] out
         else AppendLiteralToTemplate ([46] @ decimal patch_set_id @ [46, 105, 102, 116, 95, 103, 107]) out)"

section \<open>Subsets\<close>

text \<open>What the functions read of the processing context: its initial subset and one flag.\<close>

type_synonym cut_context = "subset_definition \<times> bool"

definition SetMixedModeSubsettingFlagsIfNeeded :: "('i, 'p) library \<Rightarrow> compiler \<Rightarrow> bool \<Rightarrow> 'i \<Rightarrow> 'i" where
  "SetMixedModeSubsettingFlagsIfNeeded L cm force_long_loca_and_gvar input =
     (if IsMixedMode cm then
        let input = lb_add_flags L [RETAIN_GIDS, NOTDEF_OUTLINE, PASSTHROUGH_UNRECOGNIZED, DESUBROUTINIZE] input
        in if force_long_loca_and_gvar then lb_add_flags L [IFTB_REQUIREMENTS] input else input
      else input)"

definition CreateSubsetPlan :: "('i, 'p) library \<Rightarrow> compiler \<Rightarrow> bool \<Rightarrow> bytes \<Rightarrow> subset_definition \<Rightarrow> 'p status_or" where
  "CreateSubsetPlan L cm force font def = (case lb_create_input L of None \<Rightarrow> Inl InternalError
     | Some input \<Rightarrow>
        (case lb_plan L font (SetMixedModeSubsettingFlagsIfNeeded L cm force (ConfigureInput (lb_input L) def input)) of
           None \<Rightarrow> Inl InternalError | Some plan \<Rightarrow> Inr plan))"

definition CutSubsetFaceBuilder :: "('i, 'p) library \<Rightarrow> compiler \<Rightarrow> bool \<Rightarrow> bytes \<Rightarrow> subset_definition \<Rightarrow> (hb_tag \<times> bytes) list status_or" where
  "CutSubsetFaceBuilder L cm force font def = TRY (CreateSubsetPlan L cm force font def) (\<lambda>plan.
     case lb_execute L plan of None \<Rightarrow> Inl InternalError | Some face_builder \<Rightarrow> Inr face_builder)"

text \<open>\<open>None\<close>: the subset input is used without a check that it was created.\<close>

definition Instance :: "('i, 'p) library \<Rightarrow> compiler \<Rightarrow> bool \<Rightarrow> bytes \<Rightarrow> design_space \<Rightarrow> bytes outcome" where
  "Instance L cm force face design_space = (case lb_create_input L of None \<Rightarrow> None
     | Some input \<Rightarrow>
        let input = SetMixedModeSubsettingFlagsIfNeeded L cm force (lb_keep_everything L input);
            input = fold (\<lambda>(tag, rng). hb_set_axis_range (lb_input L) tag (ar_start rng) (ar_end rng)) design_space input
        in case lb_subset L face input of None \<Rightarrow> Fail InternalError | Some instanced \<Rightarrow> Ok instanced)"

definition GenerateBaseGvar :: "('i, 'p) library \<Rightarrow> compiler \<Rightarrow> cut_context \<Rightarrow> bytes \<Rightarrow> design_space \<Rightarrow> bytes outcome" where
  "GenerateBaseGvar L cm = (\<lambda>(init_subset, force) font design_space.
     OTRY (Instance L cm force font design_space) (\<lambda>instance_font.
     OTRY (Some (CutSubsetFaceBuilder L cm force instance_font (init_subset\<lparr>sd_design_space := []\<rparr>))) (\<lambda>face_builder.
       Ok (case map_of face_builder kGvar of None \<Rightarrow> [] | Some gvar \<Rightarrow> gvar))))"

text \<open>
  The size of an offset. \<^verbatim>\<open>1 << 32\<close> in the last round of the loop shifts an \<^verbatim>\<open>int\<close> by its width, which is
  undefined: \<open>None\<close>.
\<close>

definition offset_size_for :: "nat \<Rightarrow> nat option" where
  "offset_size_for current_offset =
     (if current_offset \<le> 2 ^ 8 - 1 then Some 1 else if current_offset \<le> 2 ^ 16 - 1 then Some 2
      else if current_offset \<le> 2 ^ 24 - 1 then Some 3 else None)"

definition write_offset :: "nat \<Rightarrow> nat \<Rightarrow> bytes \<Rightarrow> bytes" where
  "write_offset offset_size offset charstrings =
     (if offset_size = 1 then WriteUInt8 (int offset) charstrings
      else if offset_size = 2 then WriteUInt16 (int offset) charstrings
      else if offset_size = 3 then WriteUInt24 (int offset) charstrings
      else WriteUInt32 (int offset) charstrings)"

definition add_charstring :: "harfbuzz \<Rightarrow> bytes \<Rightarrow> int_set \<Rightarrow> nat \<Rightarrow> bytes \<times> nat \<times> nat list \<Rightarrow> bytes \<times> nat \<times> nat list" where
  "add_charstring hb face gids gid = (\<lambda>(charstrings_per_glyph, current_offset, offsets).
     let offsets = offsets @ [current_offset]
     in if \<not> IntSet_contains gids gid then (charstrings_per_glyph, current_offset, offsets)
        else let glyph_data = Cff2Data hb face gid
             in (charstrings_per_glyph @ glyph_data, (current_offset + length glyph_data) mod TWO32, offsets))"

definition GenerateCharStringsTable :: "harfbuzz \<Rightarrow> bytes \<Rightarrow> int_set \<Rightarrow> bytes outcome" where
  "GenerateCharStringsTable hb face gids =
     (let glyph_count = hb_glyph_count hb face;
          (charstrings_per_glyph, current_offset, offsets) = fold (add_charstring hb face gids) [0..<glyph_count] ([], 1, []);
          offsets = offsets @ [current_offset]
      in if length offsets \<noteq> glyph_count + 1 then Fail InternalError
         else case offset_size_for current_offset of None \<Rightarrow> None
           | Some offset_size \<Rightarrow>
               Ok (fold (write_offset offset_size) offsets
                    (WriteUInt8 (int offset_size) (WriteUInt32 (int glyph_count) [])) @ charstrings_per_glyph))"

definition GenerateBaseCff2 :: "('i, 'p) library \<Rightarrow> compiler \<Rightarrow> cut_context \<Rightarrow> bytes \<Rightarrow> design_space \<Rightarrow> bytes outcome" where
  "GenerateBaseCff2 L cm = (\<lambda>(init_subset, force) font design_space.
     OTRY (Instance L cm force font design_space) (\<lambda>instance_font.
     OTRY (Some (CreateSubsetPlan L cm force font init_subset)) (\<lambda>plan.
     OTRY (Some (Cff2GetCharstrings (lb_hb L) instance_font)) (\<lambda>(instance_non_charstrings, _).
     OTRY (GenerateCharStringsTable (lb_hb L) instance_font (IntSet_insert_all (lb_old_gids L plan) IntSet_empty)) (\<lambda>charstrings.
       Ok (instance_non_charstrings @ charstrings))))))"

definition CutSubset :: "('i, 'p) library \<Rightarrow> compiler \<Rightarrow> cut_context \<Rightarrow> bytes \<Rightarrow> subset_definition \<Rightarrow> bool \<Rightarrow> bytes outcome" where
  "CutSubset L cm context font def generate_glyph_keyed_bases =
     OTRY (Some (CutSubsetFaceBuilder L cm (snd context) font def)) (\<lambda>result.
     OTRY (if generate_glyph_keyed_bases
           then OTRY (Some (IsVariableFor def (GetDesignSpace (lb_hb L) font))) (\<lambda>variable.
                  if variable \<and> kGvar \<in> GetTags (lb_hb L) font
                  then OTRY (GenerateBaseGvar L cm context font (sd_design_space def)) (\<lambda>base_gvar. Ok (AList.update kGvar base_gvar result))
                  else Ok result)
           else Ok result) (\<lambda>result.
     OTRY (if generate_glyph_keyed_bases \<and> kCFF2 \<in> GetTags (lb_hb L) font
           then OTRY (GenerateBaseCff2 L cm context font (sd_design_space def)) (\<lambda>base_cff2. Ok (AList.update kCFF2 base_cff2 result))
           else Ok result) (\<lambda>result. Ok (lb_blob L result))))"

definition RoundTripWoff2 :: "('i, 'p) library \<Rightarrow> bytes \<Rightarrow> bool \<Rightarrow> bytes status_or" where
  "RoundTripWoff2 L font glyf_transform = TRY (lb_encode_woff2 L font glyf_transform) (lb_decode_woff2 L)"

definition FullyExpandedSubset :: "('i, 'p) library \<Rightarrow> compiler \<Rightarrow> cut_context \<Rightarrow> bytes \<Rightarrow> bytes outcome" where
  "FullyExpandedSubset L cm context face =
     (let everything = SD_Union (SubsetDefinition []) (fst context);
          everything = fold (\<lambda>s everything. SD_Union everything s) (cm_extension_subsets cm) everything;
          everything = fold (\<lambda>(_, gids) everything. everything\<lparr>sd_gids := IntSet_insert_all (to_vector gids) (sd_gids everything)\<rparr>)
            (Mapping.ordered_entries (cm_glyph_data_patches cm)) everything
      in CutSubset L cm context face everything False)"

end
