(* ===== verification/Compiler_Graph.thy ===== *)
theory Compiler_Graph
  imports Compiler_Cut Entry_Subsumption Table_Keyed Glyph_Keyed Ift_In_Font
begin

text \<open>
  \<^verbatim>\<open>Compiler::Compile\<close> (\<^verbatim>\<open>ift/encoder/compiler.cc\<close>): the processing context, which all nodes share, the
  patch maps and the patches of a node, and the recursion over the nodes that its edges lead to. Functions that
  change the context return it with their status; \<open>None\<close> is an exception or undefined behaviour.
\<close>

section \<open>The processing context\<close>

record compile_result =
  cr_font_data :: bytes
  cr_table_keyed_compat_id :: compat_id
  cr_glyph_keyed_compat_id :: compat_id
  cr_glyph_keyed_url_template :: bytes

text \<open>
  Hash maps that are only searched are functions; the map of patch ids keeps the order of insertion. The
  generator of random numbers is the count of numbers that it has given.
\<close>

record processing_context =
  pc_random_count :: nat
  pc_fully_expanded_subset :: bytes
  pc_force_long_loca_and_gvar :: bool
  pc_next_id :: nat
  pc_next_patch_set_id :: nat
  pc_patch_set_url_templates :: "design_space \<Rightarrow> bytes option"
  pc_glyph_keyed_compat_ids :: "design_space \<Rightarrow> compat_id option"
  pc_built_subsets :: "subset_definition \<Rightarrow> compile_result option"
  pc_patches :: "bytes \<Rightarrow> bytes option"
  pc_table_keyed_patch_id_map :: "(jump \<times> nat) list"
  pc_estimated_patch_sizes :: "jump \<Rightarrow> nat option"
  pc_built_table_keyed_patches :: int_set
  pc_table_diff_cache :: table_diff_cache
  pc_init_subset :: subset_definition

type_synonym 'a step = "(processing_context \<times> 'a status_or) option"

definition ProcessingContext :: "nat \<Rightarrow> processing_context" where
  "ProcessingContext next_id = \<lparr>pc_random_count = 0, pc_fully_expanded_subset = [], pc_force_long_loca_and_gvar = False,
     pc_next_id = next_id, pc_next_patch_set_id = 1, pc_patch_set_url_templates = Map.empty, pc_glyph_keyed_compat_ids = Map.empty,
     pc_built_subsets = Map.empty, pc_patches = Map.empty, pc_table_keyed_patch_id_map = [], pc_estimated_patch_sizes = Map.empty,
     pc_built_table_keyed_patches = IntSet_empty, pc_table_diff_cache = Map.empty, pc_init_subset = SubsetDefinition []\<rparr>"

definition cut_context :: "processing_context \<Rightarrow> cut_context" where
  "cut_context ctx = (pc_init_subset ctx, pc_force_long_loca_and_gvar ctx)"

text \<open>The order in which the four arguments are evaluated is not specified; here it is from the left.\<close>

definition GenerateCompatId :: "('i, 'p) library \<Rightarrow> processing_context \<Rightarrow> processing_context \<times> compat_id" where
  "GenerateCompatId L ctx = (let n = pc_random_count ctx; r = lb_random L
     in (ctx\<lparr>pc_random_count := n + 4\<rparr>, CompatId (r n) (r (n + 1)) (r (n + 2)) (r (n + 3))))"

text \<open>A loop whose body has a result of its own.\<close>

fun st_fold :: "('x \<Rightarrow> 'a \<Rightarrow> 's \<Rightarrow> ('s \<times> 'a status_or) option) \<Rightarrow> 'x list \<Rightarrow> 'a \<Rightarrow> 's \<Rightarrow> ('s \<times> 'a status_or) option" where
  "st_fold f [] a s = Some (s, Inr a)"
| "st_fold f (x # xs) a s = st_bind (f x a s) (st_fold f xs)"

section \<open>Glyph keyed patches\<close>

definition AllocatePatchSet :: "('i, 'p) library \<Rightarrow> compiler \<Rightarrow> design_space \<Rightarrow> processing_context \<Rightarrow>
    processing_context \<times> bytes \<times> compat_id \<times> bool" where
  "AllocatePatchSet L cm design_space ctx =
     (case (pc_patch_set_url_templates ctx design_space, pc_glyph_keyed_compat_ids ctx design_space) of
        (Some url_template, Some compat_id) \<Rightarrow> (ctx, url_template, compat_id, False)
      | _ \<Rightarrow>
        let url_template = UrlTemplate cm (pc_next_patch_set_id ctx);
            (ctx, compat_id) = GenerateCompatId L (ctx\<lparr>pc_next_patch_set_id := (pc_next_patch_set_id ctx + 1) mod TWO32\<rparr>)
        in (ctx\<lparr>pc_patch_set_url_templates := (pc_patch_set_url_templates ctx)(design_space \<mapsto> url_template),
              pc_glyph_keyed_compat_ids := (pc_glyph_keyed_compat_ids ctx)(design_space \<mapsto> compat_id)\<rparr>,
            url_template, compat_id, True))"

definition reachable_segments :: "compiler \<Rightarrow> int_set" where
  "reachable_segments cm = fold (\<lambda>condition S.
     if \<not> en_ignored condition \<and> en_patch_indices condition \<noteq> [] then IntSet_insert (hd (en_patch_indices condition)) S else S)
     (cm_glyph_patch_conditions cm) IntSet_empty"

definition add_glyph_patch :: "('i, 'p) library \<Rightarrow> compiler \<Rightarrow> glyph_keyed_diff \<Rightarrow> bytes \<Rightarrow> nat \<Rightarrow> processing_context \<Rightarrow> unit step" where
  "add_glyph_patch L cm differ url_template index ctx =
     (case Mapping.lookup (cm_glyph_data_patches cm) index of None \<Rightarrow> Some (ctx, Inl InvalidArgumentError)
      | Some gids \<Rightarrow>
          st_bind (st_read (Some (PatchToUrl (lb_base32 L) (lb_base64 L) url_template (of_nat index))) ctx) (\<lambda>url ctx.
          st_bind (st_read (CreatePatch (lb_hb L) (lb_brotli L) differ gids) ctx) (\<lambda>patch ctx.
            Some (ctx\<lparr>pc_patches := (pc_patches ctx)(url \<mapsto> patch)\<rparr>, Inr ()))))"

text \<open>The results are the two output parameters, which start out empty.\<close>

definition EnsureGlyphKeyedPatchesPopulated :: "('i, 'p) library \<Rightarrow> compiler \<Rightarrow> design_space \<Rightarrow> processing_context \<Rightarrow>
    (bytes \<times> compat_id) step" where
  "EnsureGlyphKeyedPatchesPopulated L cm design_space ctx =
     (if \<not> IsMixedMode cm then Some (ctx, Inr ([], CompatId 0 0 0 0))
      else case AllocatePatchSet L cm design_space ctx of (ctx, url_template, compat_id, allocated) \<Rightarrow>
        if \<not> allocated then Some (ctx, Inr (url_template, compat_id))
        else
          let full_face = pc_fully_expanded_subset ctx
          in st_bind (st_read (if design_space \<noteq> [] then Instance L cm (pc_force_long_loca_and_gvar ctx) full_face design_space
                               else Ok full_face) ctx) (\<lambda>instance_font ctx.
             let differ = \<lparr>gk_font = instance_font, gk_base_compat_id = compat_id, gk_tags = [kGlyf, kGvar, kCFF, kCFF2]\<rparr>
             in st_bind (st_each (add_glyph_patch L cm differ url_template) (to_vector (reachable_segments cm)) ctx) (\<lambda>_ ctx.
                Some (ctx, Inr (url_template, compat_id)))))"

definition PopulateGlyphKeyedPatchMap :: "compiler \<Rightarrow> patch_map \<Rightarrow> patch_map status_or" where
  "PopulateGlyphKeyedPatchMap cm patch_map =
     (if \<not> IsMixedMode cm then Inr patch_map else TRY_fold AddEntry (cm_glyph_patch_conditions cm) patch_map)"

section \<open>Table keyed patches\<close>

definition GetTableKeyedDifferFor :: "compiler \<Rightarrow> compat_id \<Rightarrow> bool \<Rightarrow> bool \<Rightarrow> table_keyed_diff" where
  "GetTableKeyedDifferFor cm compat_id replace_url_template exclude_ift =
     (if \<not> IsMixedMode cm then TableKeyedDiff compat_id (if exclude_ift then [kIFT, kIFTX] else []) []
      else if replace_url_template then
        (if exclude_ift then TableKeyedDiff compat_id [kIFT, kIFTX, kGlyf, kLoca, kCFF] [kGvar, kCFF2]
         else TableKeyedDiff compat_id [kGlyf, kLoca, kCFF] [kIFTX, kGvar, kCFF2])
      else
        (if exclude_ift then TableKeyedDiff compat_id [kIFT, kIFTX, kGlyf, kLoca, kGvar, kCFF, kCFF2] []
         else TableKeyedDiff compat_id [kIFTX, kGlyf, kLoca, kGvar, kCFF, kCFF2] []))"

definition GetTentativeDifferFor :: "compiler \<Rightarrow> compat_id \<Rightarrow> bool \<Rightarrow> table_keyed_diff" where
  "GetTentativeDifferFor cm compat_id replace_url_template = GetTableKeyedDifferFor cm compat_id replace_url_template True"

definition GetDifferFor :: "compiler \<Rightarrow> compat_id \<Rightarrow> bool \<Rightarrow> table_keyed_diff" where
  "GetDifferFor cm compat_id replace_url_template = GetTableKeyedDifferFor cm compat_id replace_url_template False"

text \<open>A diff through the cache of the context.\<close>

definition context_diff :: "('i, 'p) library \<Rightarrow> table_keyed_diff \<Rightarrow> bytes \<Rightarrow> bytes \<Rightarrow> processing_context \<Rightarrow> bytes step" where
  "context_diff L differ font_base font_derived ctx =
     (case TK_Diff (lb_hb L) (lb_brotli L) differ (Some (pc_table_diff_cache ctx)) font_base font_derived of
        Inl e \<Rightarrow> Some (ctx, Inl e)
      | Inr (cache, patch) \<Rightarrow> Some (ctx\<lparr>pc_table_diff_cache := the cache\<rparr>, Inr patch))"

section \<open>Activation conditions of edges\<close>

text \<open>The ids of the subsets of an edge, and the patches of its jumps.\<close>

record edge_segments =
  es_index :: "subset_definition \<Rightarrow> nat option"
  es_next :: nat
  es_segments :: segment_map

definition segment_for :: "subset_definition \<Rightarrow> edge_segments \<times> int_set \<Rightarrow> edge_segments \<times> int_set" where
  "segment_for s = (\<lambda>(st, segment_ids). case es_index st s of
     Some index \<Rightarrow> (st, IntSet_insert index segment_ids)
   | None \<Rightarrow> (\<lparr>es_index = (es_index st)(s \<mapsto> es_next st), es_next = (es_next st + 1) mod TWO32,
         es_segments = (es_segments st)(es_next st \<mapsto> s)\<rparr>, IntSet_insert (es_next st) segment_ids))"

definition patch_id_for :: "jump \<Rightarrow> processing_context \<Rightarrow> processing_context \<times> nat" where
  "patch_id_for j ctx = (case map_of (pc_table_keyed_patch_id_map ctx) j of
     Some patch_id \<Rightarrow> (ctx, patch_id)
   | None \<Rightarrow> (ctx\<lparr>pc_table_keyed_patch_id_map := pc_table_keyed_patch_id_map ctx @ [(j, pc_next_id ctx)],
         pc_next_id := (pc_next_id ctx + 1) mod TWO32\<rparr>, pc_next_id ctx))"

fun patch_ids_for :: "jump list \<Rightarrow> processing_context \<Rightarrow> processing_context \<times> nat list" where
  "patch_ids_for [] ctx = (ctx, [])"
| "patch_ids_for (j # js) ctx = (let (ctx, patch_id) = patch_id_for j ctx; (ctx, patch_ids) = patch_ids_for js ctx in (ctx, patch_id # patch_ids))"

text \<open>\<open>None\<close>: the code reads the first patch of an edge without jumps.\<close>

definition edge_condition :: "compiler \<Rightarrow> subset_definition \<Rightarrow> patch_encoding \<Rightarrow> edge \<Rightarrow>
    edge_segments \<times> activation_condition list \<Rightarrow> processing_context \<Rightarrow> (edge_segments \<times> activation_condition list) step" where
  "edge_condition cm node_subset encoding e = (\<lambda>(st, result) ctx.
     let (st, segment_ids) = fold segment_for (ed_subsets e) (st, IntSet_empty);
         (ctx, edge_patches) = patch_ids_for (Jumps e node_subset (cm_use_prefetch_lists cm)) ctx
     in if edge_patches = [] then None
        else let condition = and_segments segment_ids (hd edge_patches);
                 edge_encoding = (if encoding = TABLE_KEYED_PARTIAL \<and> ChangesDesignSpace e node_subset then TABLE_KEYED_FULL else encoding)
             in Some (ctx, Inr (st, result @ [AddPrefetches (tl edge_patches) (SetEncoding edge_encoding condition)])))"

definition EdgesToActivationConditions :: "compiler \<Rightarrow> subset_definition \<Rightarrow> edge list \<Rightarrow> patch_encoding \<Rightarrow> processing_context \<Rightarrow>
    (activation_condition list \<times> segment_map) step" where
  "EdgesToActivationConditions cm node_subset edges encoding ctx =
     st_bind (st_fold (edge_condition cm node_subset encoding) edges (\<lparr>es_index = Map.empty, es_next = 0, es_segments = Map.empty\<rparr>, []) ctx)
       (\<lambda>(st, result) ctx. Some (ctx, Inr (result, es_segments st)))"

text \<open>\<^verbatim>\<open>ActivationCondition::ActivationConditionsToPatchMapEntries\<close>\<close>

definition ActivationConditionsToPatchMapEntries :: "('i, 'p) library \<Rightarrow> activation_condition list \<Rightarrow> segment_map \<Rightarrow> entry list outcome" where
  "ActivationConditionsToPatchMapEntries L conditions segments =
     (if conditions = [] then Ok []
      else OTRY (EntryGraph_Create conditions segments) (\<lambda>graph.
           OTRY (Optimize (EncodingCost (lb_conv L) (lb_fconv L)) graph) (\<lambda>graph.
             ToPatchMapEntries (DefaultEncoding conditions) graph)))"

section \<open>A node\<close>

text \<open>The compilation of a node that a jump ends at is the argument \<open>rec\<close>.\<close>

type_synonym compile_node = "subset_definition \<Rightarrow> processing_context \<Rightarrow> compile_result step"

record walk =
  wk_subset :: subset_definition
  wk_result :: compile_result
  wk_total :: nat

definition estimate_jump :: "('i, 'p) library \<Rightarrow> compiler \<Rightarrow> compile_node \<Rightarrow> jump \<Rightarrow> walk \<Rightarrow> processing_context \<Rightarrow> walk step" where
  "estimate_jump L cm rec j w ctx =
     (if jp_start j \<noteq> wk_subset w then Some (ctx, Inl InternalError)
      else st_bind (rec (jp_end j) ctx) (\<lambda>next_res ctx.
        st_bind (case pc_estimated_patch_sizes ctx j of
            Some estimated \<Rightarrow> Some (ctx, Inr estimated)
          | None \<Rightarrow>
              let replace_url_template = (IsMixedMode cm \<and> cr_glyph_keyed_url_template next_res \<noteq> cr_glyph_keyed_url_template (wk_result w))
              in st_bind (context_diff L (GetTentativeDifferFor cm (cr_table_keyed_compat_id (wk_result w)) replace_url_template)
                     (cr_font_data (wk_result w)) (cr_font_data next_res) ctx) (\<lambda>tentative_patch ctx.
                   Some (ctx\<lparr>pc_estimated_patch_sizes := (pc_estimated_patch_sizes ctx)(j \<mapsto> length tentative_patch)\<rparr>, Inr (length tentative_patch))))
          (\<lambda>estimated ctx. Some (ctx, Inr \<lparr>wk_subset = jp_end j, wk_result = next_res, wk_total = (wk_total w + estimated) mod 2 ^ 64\<rparr>))))"

definition estimate_edge :: "('i, 'p) library \<Rightarrow> compiler \<Rightarrow> compile_node \<Rightarrow> subset_definition \<Rightarrow> compile_result \<Rightarrow> edge \<Rightarrow>
    (nat \<times> nat) list \<Rightarrow> processing_context \<Rightarrow> ((nat \<times> nat) list) step" where
  "estimate_edge L cm rec base_subset base e sizes ctx =
     st_bind (st_fold (estimate_jump L cm rec) (Jumps e base_subset (cm_use_prefetch_lists cm))
         \<lparr>wk_subset = base_subset, wk_result = base, wk_total = 0\<rparr> ctx)
       (\<lambda>w ctx. Some (ctx, Inr (sizes @ [(length sizes, wk_total w)])))"

definition EstimateEdgeSizes :: "('i, 'p) library \<Rightarrow> compiler \<Rightarrow> compile_node \<Rightarrow> subset_definition \<Rightarrow> bytes \<Rightarrow> compat_id \<Rightarrow> bytes \<Rightarrow>
    edge list \<Rightarrow> processing_context \<Rightarrow> ((nat \<times> nat) list) step" where
  "EstimateEdgeSizes L cm rec base_subset base_font_data table_keyed_compat_id glyph_keyed_url_template edges ctx =
     st_fold (estimate_edge L cm rec base_subset \<lparr>cr_font_data = base_font_data, cr_table_keyed_compat_id = table_keyed_compat_id,
         cr_glyph_keyed_compat_id = CompatId 0 0 0 0, cr_glyph_keyed_url_template = glyph_keyed_url_template\<rparr>) edges [] ctx"

definition PopulateTableKeyedPatchMap :: "('i, 'p) library \<Rightarrow> compiler \<Rightarrow> compile_node \<Rightarrow> subset_definition \<Rightarrow> bytes \<Rightarrow> compat_id \<Rightarrow> bytes \<Rightarrow>
    edge list \<Rightarrow> patch_encoding \<Rightarrow> patch_map \<Rightarrow> processing_context \<Rightarrow> patch_map step" where
  "PopulateTableKeyedPatchMap L cm rec node_subset base_font_data table_keyed_compat_id glyph_keyed_url_template edges encoding patch_map ctx =
     st_bind (EstimateEdgeSizes L cm rec node_subset base_font_data table_keyed_compat_id glyph_keyed_url_template edges ctx) (\<lambda>edge_sizes ctx.
       let sorted_edges = map (\<lambda>(edge_index, _). edges ! edge_index) (sort_key snd edge_sizes)
       in st_bind (EdgesToActivationConditions cm node_subset sorted_edges encoding ctx) (\<lambda>(final_conditions, segments) ctx.
          st_bind (st_read (ActivationConditionsToPatchMapEntries L final_conditions segments) ctx) (\<lambda>entries.
            st_read (Some (TRY_fold AddEntry entries patch_map)))))"

text \<open>A jump of the last loop: the node that it ends at, and the patch unless it was made before.\<close>

definition build_jump :: "('i, 'p) library \<Rightarrow> compiler \<Rightarrow> compile_node \<Rightarrow> bytes \<Rightarrow> jump \<Rightarrow> walk \<Rightarrow> processing_context \<Rightarrow> walk step" where
  "build_jump L cm rec table_keyed_url_template j w ctx =
     (let (ctx, patch_id) = (case map_of (pc_table_keyed_patch_id_map ctx) j of Some patch_id \<Rightarrow> (ctx, patch_id)
            | None \<Rightarrow> (ctx\<lparr>pc_table_keyed_patch_id_map := pc_table_keyed_patch_id_map ctx @ [(j, 0)]\<rparr>, 0))
      in if jp_start j \<noteq> wk_subset w then Some (ctx, Inl InternalError)
         else st_bind (rec (jp_end j) ctx) (\<lambda>next_res ctx.
           let w' = w\<lparr>wk_subset := jp_end j, wk_result := next_res\<rparr>
           in if IntSet_contains (pc_built_table_keyed_patches ctx) patch_id then Some (ctx, Inr w')
              else
                let replace_url_template = (IsMixedMode cm \<and> cr_glyph_keyed_url_template next_res \<noteq> cr_glyph_keyed_url_template (wk_result w))
                in st_bind (context_diff L (GetDifferFor cm (cr_table_keyed_compat_id (wk_result w)) replace_url_template)
                     (cr_font_data (wk_result w)) (cr_font_data next_res) ctx) (\<lambda>patch ctx.
                   st_bind (st_read (Some (PatchToUrl (lb_base32 L) (lb_base64 L) table_keyed_url_template (of_nat patch_id))) ctx) (\<lambda>url ctx.
                     Some (ctx\<lparr>pc_patches := (pc_patches ctx)(url \<mapsto> patch),
                         pc_built_table_keyed_patches := IntSet_insert patch_id (pc_built_table_keyed_patches ctx)\<rparr>, Inr w')))))"

definition build_edge :: "('i, 'p) library \<Rightarrow> compiler \<Rightarrow> compile_node \<Rightarrow> bytes \<Rightarrow> subset_definition \<Rightarrow> compile_result \<Rightarrow> edge \<Rightarrow>
    processing_context \<Rightarrow> unit step" where
  "build_edge L cm rec table_keyed_url_template node_subset result e ctx =
     st_bind (st_fold (build_jump L cm rec table_keyed_url_template) (Jumps e node_subset (cm_use_prefetch_lists cm))
         \<lparr>wk_subset = node_subset, wk_result = result, wk_total = 0\<rparr> ctx) (\<lambda>_ ctx. Some (ctx, Inr ()))"

definition store_result :: "subset_definition \<Rightarrow> compile_result \<Rightarrow> processing_context \<Rightarrow> processing_context" where
  "store_result node_subset result ctx = ctx\<lparr>pc_built_subsets := (pc_built_subsets ctx)(node_subset \<mapsto> result)\<rparr>"

text \<open>The font of a node with its patch maps.\<close>

definition node_font :: "('i, 'p) library \<Rightarrow> compiler \<Rightarrow> compile_node \<Rightarrow> subset_definition \<Rightarrow> bool \<Rightarrow> edge list \<Rightarrow> bytes \<Rightarrow>
    compat_id \<Rightarrow> bytes \<Rightarrow> compat_id \<Rightarrow> processing_context \<Rightarrow> bytes step" where
  "node_font L cm rec node_subset is_root edges node_data table_keyed_compat_id glyph_keyed_url_template glyph_keyed_compat_id ctx =
     (let table_keyed = SetUrlTemplate (UrlTemplate cm 0) (SetId table_keyed_compat_id IFTTable);
          glyph_keyed = SetUrlTemplate glyph_keyed_url_template (SetId glyph_keyed_compat_id IFTTable)
      in st_bind (st_read (Some (PopulateGlyphKeyedPatchMap cm (it_patch_map glyph_keyed))) ctx) (\<lambda>glyph_keyed_patch_map ctx.
         st_bind (PopulateTableKeyedPatchMap L cm rec node_subset node_data table_keyed_compat_id glyph_keyed_url_template edges
             (if IsMixedMode cm then TABLE_KEYED_PARTIAL else TABLE_KEYED_FULL) (it_patch_map table_keyed) ctx) (\<lambda>table_keyed_patch_map ctx.
         st_bind (st_read (Some (AddToFont (lb_hb L) (lb_conv L) (lb_fconv L) node_data (table_keyed\<lparr>it_patch_map := table_keyed_patch_map\<rparr>)
             (if IsMixedMode cm then Some (glyph_keyed\<lparr>it_patch_map := glyph_keyed_patch_map\<rparr>) else None))) ctx) (\<lambda>new_node_data.
         st_read (if is_root then Some (RoundTripWoff2 L new_node_data False) else Ok new_node_data)))))"

definition CompileStep :: "('i, 'p) library \<Rightarrow> compiler \<Rightarrow> compile_node \<Rightarrow> subset_definition \<Rightarrow> bool \<Rightarrow> processing_context \<Rightarrow> compile_result step" where
  "CompileStep L cm rec node_subset is_root ctx = (case pc_built_subsets ctx node_subset of
     Some result \<Rightarrow> Some (ctx, Inr result)
   | None \<Rightarrow>
      case GenerateCompatId L ctx of (ctx, table_keyed_compat_id) \<Rightarrow>
      st_bind (EnsureGlyphKeyedPatchesPopulated L cm (sd_design_space node_subset) ctx) (\<lambda>(glyph_keyed_url_template, glyph_keyed_compat_id) ctx.
      case OutgoingEdges (cm_extension_subsets cm) node_subset (cm_jump_ahead cm) of None \<Rightarrow> None | Some edges \<Rightarrow>
      st_bind (st_read (CutSubset L cm (cut_context ctx) (pc_fully_expanded_subset ctx) node_subset (IsMixedMode cm)) ctx) (\<lambda>node_data ctx.
        if edges = [] \<and> \<not> IsMixedMode cm
        then let result = \<lparr>cr_font_data = node_data, cr_table_keyed_compat_id = CompatId 0 0 0 0, cr_glyph_keyed_compat_id = CompatId 0 0 0 0,
                   cr_glyph_keyed_url_template = []\<rparr>
             in Some (store_result node_subset result ctx, Inr result)
        else st_bind (node_font L cm rec node_subset is_root edges node_data table_keyed_compat_id glyph_keyed_url_template glyph_keyed_compat_id ctx)
          (\<lambda>node_data ctx.
             let result = \<lparr>cr_font_data = node_data, cr_table_keyed_compat_id = table_keyed_compat_id,
                   cr_glyph_keyed_compat_id = glyph_keyed_compat_id, cr_glyph_keyed_url_template = glyph_keyed_url_template\<rparr>
             in st_bind (st_each (build_edge L cm rec (UrlTemplate cm 0) node_subset result) edges (store_result node_subset result ctx))
                  (\<lambda>_ ctx. Some (ctx, Inr result))))))"

text \<open>The recursion to a depth; below it the compilation of a node is the argument \<open>deeper\<close>.\<close>

primrec CompileNode :: "('i, 'p) library \<Rightarrow> compiler \<Rightarrow> (subset_definition \<Rightarrow> bool \<Rightarrow> processing_context \<Rightarrow> compile_result step) \<Rightarrow> nat \<Rightarrow>
    subset_definition \<Rightarrow> bool \<Rightarrow> processing_context \<Rightarrow> compile_result step" where
  "CompileNode L cm deeper 0 = deeper"
| "CompileNode L cm deeper (Suc depth) = CompileStep L cm (\<lambda>node_subset. CompileNode L cm deeper depth node_subset False)"

section \<open>The whole encoding\<close>

record encoding =
  enc_init_font :: bytes
  enc_patches :: "bytes \<Rightarrow> bytes option"

text \<open>The initial context: the initial subset with its defaults, and with the last glyph in mixed mode.\<close>

definition initial_context :: "('i, 'p) library \<Rightarrow> compiler \<Rightarrow> bytes \<Rightarrow> processing_context" where
  "initial_context L cm face =
     (let init_subset = AddInitSubsetDefaults (cm_init_subset cm);
          gid_count = hb_glyph_count (lb_hb L) face
      in (ProcessingContext (cm_next_id cm))\<lparr>pc_init_subset :=
           (if IsMixedMode cm \<and> 0 < gid_count then init_subset\<lparr>sd_gids := IntSet_insert (gid_count - 1) (sd_gids init_subset)\<rparr>
            else init_subset)\<rparr>)"

definition expanded_context :: "('i, 'p) library \<Rightarrow> compiler \<Rightarrow> bytes \<Rightarrow> processing_context outcome" where
  "expanded_context L cm face =
     (let ctx = initial_context L cm face
      in OTRY (FullyExpandedSubset L cm (cut_context ctx) face) (\<lambda>expanded.
         OTRY (Some (HasLongLoca (lb_hb L) expanded)) (\<lambda>long_loca.
           Ok (ctx\<lparr>pc_fully_expanded_subset := expanded,
               pc_force_long_loca_and_gvar := long_loca \<or> HasWideGvar (lb_hb L) expanded\<rparr>))))"

text \<open>A node has no more nodes above each other than there are extension subsets.\<close>

definition Compile :: "('i, 'p) library \<Rightarrow> compiler \<Rightarrow> encoding outcome" where
  "Compile L cm = (case cm_face cm of None \<Rightarrow> Fail FailedPreconditionError
     | Some face \<Rightarrow>
        OTRY (expanded_context L cm face) (\<lambda>ctx.
        case CompileNode L cm (\<lambda>_ _ _. None) (Suc (length (cm_extension_subsets cm))) (pc_init_subset ctx) True ctx of
          None \<Rightarrow> None
        | Some (ctx, Inl e) \<Rightarrow> Fail e
        | Some (ctx, Inr init_result) \<Rightarrow>
            if cm_woff2_encode cm
            then let tags = GetTags (lb_hb L) (cr_font_data init_result); has_glyf = (kGlyf \<in> tags \<or> kLoca \<in> tags)
                 in OTRY (Some (lb_encode_woff2 L (cr_font_data init_result) (IsMixedMode cm \<or> \<not> has_glyf))) (\<lambda>font.
                    Ok \<lparr>enc_init_font = font, enc_patches = pc_patches ctx\<rparr>)
            else Ok \<lparr>enc_init_font = cr_font_data init_result, enc_patches = pc_patches ctx\<rparr>))"

end
