(* ===== verification/Compiler_Depth.thy ===== *)
theory Compiler_Depth
  imports Compiler_Graph
begin

text \<open>
  The recursion of \<^verbatim>\<open>Compiler::Compile\<close> ends: a node leads only to nodes that have less left, so that a depth above
  the number of the extension subsets is never used up.
\<close>

lemma st_fold_cong: "(\<And>x. x \<in> set xs \<Longrightarrow> f x = g x) \<Longrightarrow> st_fold f xs a s = st_fold g xs a s"
  by (induction xs arbitrary: a s) (auto intro!: st_bind_cong)

lemma st_each_cong: "(\<And>x. x \<in> set xs \<Longrightarrow> f x = g x) \<Longrightarrow> st_each f xs s = st_each g xs s"
  by (induction xs arbitrary: s) (auto intro!: st_bind_cong)

definition agree :: "compiler \<Rightarrow> subset_definition \<Rightarrow> compile_node \<Rightarrow> compile_node \<Rightarrow> bool" where
  "agree cm node r1 r2 \<longleftrightarrow> (\<forall>d. sd_canonical d \<and>
     length (RemainingSubsets (cm_extension_subsets cm) d) < length (RemainingSubsets (cm_extension_subsets cm) node) \<longrightarrow> r1 d = r2 d)"

lemma jump_cong:
  assumes "r1 (jp_end j) = r2 (jp_end j)"
  shows "estimate_jump L cm r1 j = estimate_jump L cm r2 j" and "build_jump L cm r1 url j = build_jump L cm r2 url j"
  by (intro ext, simp only: estimate_jump_def assms) (intro ext, simp only: build_jump_def assms)

lemma CompileStep_cong:
  assumes subs: "\<forall>s \<in> set (cm_extension_subsets cm). sd_canonical s" and node: "sd_canonical node" and agree: "agree cm node r1 r2"
  shows "CompileStep L cm r1 node is_root ctx = CompileStep L cm r2 node is_root ctx"
proof -
  have same: "r1 (jp_end j) = r2 (jp_end j)"
    if "OutgoingEdges (cm_extension_subsets cm) node n = Some edges" "e \<in> set edges" "j \<in> set (Jumps e node p)" for n edges e j p
    using Jumps_spec(3) [OF subs node that] agree unfolding agree_def by blast
  have jumps: "st_fold (estimate_jump L cm r1) (Jumps e node p) a c = st_fold (estimate_jump L cm r2) (Jumps e node p) a c"
    "st_fold (build_jump L cm r1 url) (Jumps e node p) a c = st_fold (build_jump L cm r2 url) (Jumps e node p) a c"
    if "OutgoingEdges (cm_extension_subsets cm) node n = Some edges" "e \<in> set edges" for n edges e p a c url
    using same [OF that] by (auto intro!: st_fold_cong jump_cong)
  have estimate: "EstimateEdgeSizes L cm r1 node d k u edges = EstimateEdgeSizes L cm r2 node d k u edges"
    if "OutgoingEdges (cm_extension_subsets cm) node n = Some edges" for n edges d k u
  proof (rule ext)
    have "estimate_edge L cm r1 node b e = estimate_edge L cm r2 node b e" if "e \<in> set edges" for e b
      by (intro ext) (simp only: estimate_edge_def jumps(1) [OF \<open>OutgoingEdges _ node n = Some edges\<close> that])
    then show "EstimateEdgeSizes L cm r1 node d k u edges c = EstimateEdgeSizes L cm r2 node d k u edges c" for c
      unfolding EstimateEdgeSizes_def by (intro st_fold_cong)
  qed
  have build: "build_edge L cm r1 url node res e = build_edge L cm r2 url node res e"
    if "OutgoingEdges (cm_extension_subsets cm) node n = Some edges" "e \<in> set edges" for n edges url res e
    by (intro ext) (simp only: build_edge_def jumps(2) [OF that])
  have fonts: "node_font L cm r1 node is_root edges = node_font L cm r2 node is_root edges"
    if "OutgoingEdges (cm_extension_subsets cm) node n = Some edges" for n edges
    by (intro ext) (simp only: node_font_def PopulateTableKeyedPatchMap_def estimate [OF that])
  have each: "st_each (build_edge L cm r1 url node res) edges = st_each (build_edge L cm r2 url node res) edges"
    if "OutgoingEdges (cm_extension_subsets cm) node n = Some edges" for n edges url res
    by (rule ext, rule st_each_cong, rule build [OF that])
  show ?thesis
  proof (cases "OutgoingEdges (cm_extension_subsets cm) node (cm_jump_ahead cm)")
    case (Some edges)
    show ?thesis unfolding CompileStep_def Some option.case fonts [OF Some] each [OF Some] by (rule refl)
  qed (simp only: CompileStep_def option.case)
qed


lemma CompileNode_depth:
  assumes subs: "\<forall>s \<in> set (cm_extension_subsets cm). sd_canonical s" and "sd_canonical node"
    and "length (RemainingSubsets (cm_extension_subsets cm) node) < n" and "length (RemainingSubsets (cm_extension_subsets cm) node) < m"
  shows "CompileNode L cm d1 n node = CompileNode L cm d2 m node"
  using assms(2-)
proof (induction n arbitrary: m node)
  case (Suc n)
  then obtain k where m: "m = Suc k" by (cases m) auto
  have "agree cm node (\<lambda>node. CompileNode L cm d1 n node False) (\<lambda>node. CompileNode L cm d2 k node False)"
    unfolding agree_def
  proof (intro allI impI)
    fix d assume d: "sd_canonical d \<and>
      length (RemainingSubsets (cm_extension_subsets cm) d) < length (RemainingSubsets (cm_extension_subsets cm) node)"
    then have "CompileNode L cm d1 n d = CompileNode L cm d2 k d" using Suc.prems(2,3) m by (intro Suc.IH) auto
    then show "CompileNode L cm d1 n d False = CompileNode L cm d2 k d False" by simp
  qed
  from CompileStep_cong [OF subs Suc.prems(1) this] show ?case unfolding m CompileNode.simps by (intro ext)
qed simp

lemma RemainingSubsets_length: "length (RemainingSubsets ext node) \<le> length ext"
  unfolding RemainingSubsets_def by (rule order_trans [OF length_filter_le]) simp

lemma Compile_depth_enough:
  assumes "\<forall>s \<in> set (cm_extension_subsets cm). sd_canonical s" and "sd_canonical node" and "length (cm_extension_subsets cm) < n"
  shows "CompileNode L cm deeper n node = CompileNode L cm (\<lambda>_ _ _. None) (Suc (length (cm_extension_subsets cm))) node"
  by (rule CompileNode_depth [OF assms(1,2)]) (use RemainingSubsets_length [of "cm_extension_subsets cm" node] assms(3) in auto)


section \<open>Ids and URLs\<close>

text \<open>
  The URLs of the patches: what the prefix of the templates, the default one or the override of the configuration,
  makes of an id, and a literal behind it. Different patches have different URLs when the prefix is a valid
  template with different texts for different ids.
\<close>

definition url_prefix :: "compiler \<Rightarrow> bytes" where
  "url_prefix cm = (if cm_override_url_template_prefix cm \<noteq> [] then cm_override_url_template_prefix cm else [128])"

definition prefix_ok :: "('i, 'p) library \<Rightarrow> compiler \<Rightarrow> bool" where
  "prefix_ok L cm \<longleftrightarrow> (\<exists>text. (\<forall>idx. PatchToUrl (lb_base32 L) (lb_base64 L) (url_prefix cm) idx = Inr (text idx)) \<and> inj text)"

definition id_text :: "('i, 'p) library \<Rightarrow> compiler \<Rightarrow> nat \<Rightarrow> bytes" where
  "id_text L cm patch_id = (case PatchToUrl (lb_base32 L) (lb_base64 L) (url_prefix cm) (of_nat patch_id) of Inl _ \<Rightarrow> [] | Inr text \<Rightarrow> text)"

abbreviation dot_ift_tk :: bytes where "dot_ift_tk \<equiv> [46, 105, 102, 116, 95, 116, 107]"
abbreviation dot_ift_gk :: bytes where "dot_ift_gk \<equiv> [46, 105, 102, 116, 95, 103, 107]"

definition table_url :: "('i, 'p) library \<Rightarrow> compiler \<Rightarrow> nat \<Rightarrow> bytes" where
  "table_url L cm patch_id = id_text L cm patch_id @ dot_ift_tk"

definition glyph_url :: "('i, 'p) library \<Rightarrow> compiler \<Rightarrow> nat \<Rightarrow> nat \<Rightarrow> bytes" where
  "glyph_url L cm patch_set_id index = id_text L cm index @ 46 # decimal patch_set_id @ dot_ift_gk"

lemma PatchToUrl_append:
  assumes "PatchToUrl base32 base64 t idx = Inr text" and "bs \<noteq> []" and "length bs < 128"
  shows "PatchToUrl base32 base64 (t @ of_nat (length bs) # bs) idx = Inr (text @ bs)"
proof -
  obtain ps where ps: "list_all piece_ok ps" "t = template_code ps" "text = template_text (PopulateExpansions base32 base64 idx) ps"
    using assms(1) unfolding PatchToUrl_iff by blast
  have "t @ of_nat (length bs) # bs = template_code (ps @ [Literal bs])" by (simp add: ps(2) template_code_def)
  moreover have "text @ bs = template_text (PopulateExpansions base32 base64 idx) (ps @ [Literal bs])"
    by (simp add: ps(3) template_text_def)
  moreover have "list_all piece_ok (ps @ [Literal bs])" using ps(1) assms(2,3) by simp
  ultimately show ?thesis unfolding PatchToUrl_iff by metis
qed

text \<open>
  The prefixes in use: literals, such as a directory, and then the id, when the base 32 encoding without its
  padding is injective. The default is the id alone.
\<close>

definition base32_ok :: "(bytes \<Rightarrow> bytes) \<Rightarrow> bool" where
  "base32_ok base32 \<longleftrightarrow> inj (\<lambda>bs. strip_padding (base32 bs))"

lemma prefix_ok_literals:
  assumes "base32_ok (lb_base32 L)" and "list_all piece_ok ps" and "\<forall>p \<in> set ps. \<exists>bs. p = Literal bs"
    and "url_prefix cm = template_code (ps @ [Expansion 0])"
  shows "prefix_ok L cm"
proof -
  have lit: "piece_text e p = piece_text e' p" if "p \<in> set ps" for e e' p using assms(3) that by auto
  let ?dir = "template_text [] ps"
  let ?text = "\<lambda>idx. ?dir @ strip_padding (lb_base32 L (id_bytes idx))"
  have dir: "template_text e ps = ?dir" for e unfolding template_text_def using lit by (metis map_eq_conv)
  have "PatchToUrl (lb_base32 L) (lb_base64 L) (url_prefix cm) idx = Inr (?text idx)" for idx
  proof -
    let ?e = "PopulateExpansions (lb_base32 L) (lb_base64 L) idx"
    have "?e ! 0 = strip_padding (lb_base32 L (id_bytes idx))" by (simp add: PopulateExpansions_def Let_def)
    moreover have "template_text ?e (ps @ [Expansion 0]) = template_text ?e ps @ ?e ! 0" by (simp add: template_text_def)
    ultimately have "?text idx = template_text ?e (ps @ [Expansion 0])" by (simp only: dir [of ?e])
    moreover have "list_all piece_ok (ps @ [Expansion 0])" using assms(2) by simp
    ultimately show ?thesis unfolding PatchToUrl_iff assms(4) by metis
  qed
  moreover have "inj ?text"
  proof (rule injI)
    fix a b assume "?text a = ?text b"
    then have "strip_padding (lb_base32 L (id_bytes a)) = strip_padding (lb_base32 L (id_bytes b))" by (simp only: same_append_eq)
    then have "id_bytes a = id_bytes b" using injD [OF assms(1) [unfolded base32_ok_def]] by blast
    then show "a = b" by (simp only: id_bytes_inject)
  qed
  ultimately show ?thesis unfolding prefix_ok_def by (intro exI [of _ ?text] conjI allI)
qed

lemma prefix_ok_default: "base32_ok (lb_base32 L) \<Longrightarrow> cm_override_url_template_prefix cm = [] \<Longrightarrow> prefix_ok L cm"
  by (rule prefix_ok_literals [where ps = "[]"]) (simp_all add: url_prefix_def template_code_def)

lemma prefix_okD:
  assumes "prefix_ok L cm"
  shows "PatchToUrl (lb_base32 L) (lb_base64 L) (url_prefix cm) (of_nat i) = Inr (id_text L cm i)"
    and "id_text L cm a = id_text L cm b \<Longrightarrow> a < TWO32 \<Longrightarrow> b < TWO32 \<Longrightarrow> a = b"
proof -
  obtain u where u: "\<And>idx. PatchToUrl (lb_base32 L) (lb_base64 L) (url_prefix cm) idx = Inr (u idx)" "inj u"
    using assms by (auto simp: prefix_ok_def)
  then have eq: "id_text L cm i = u (of_nat i)" for i by (simp add: id_text_def)
  then show "PatchToUrl (lb_base32 L) (lb_base64 L) (url_prefix cm) (of_nat i) = Inr (id_text L cm i)" using u(1) by simp
  assume "id_text L cm a = id_text L cm b" and small: "a < TWO32" "b < TWO32"
  then have "(of_nat a :: 32 word) = of_nat b" using u(2) by (simp add: eq inj_eq)
  then have "unat (of_nat a :: 32 word) = unat (of_nat b :: 32 word)" by simp
  then show "a = b" using small by (simp add: unat_of_nat)
qed

lemma decimal_length: "n < 10 ^ k \<Longrightarrow> 0 < k \<Longrightarrow> length (decimal n) \<le> k"
proof (induction k arbitrary: n)
  case (Suc k)
  show ?case
  proof (cases "n < 10")
    case False
    then have "n div 10 < 10 ^ k" "0 < k" using Suc.prems by (auto simp: less_mult_imp_div_less mult.commute intro: Suc_leI gr0I)
    with Suc.IH [of "n div 10"] False show ?thesis by (subst decimal.simps) simp
  qed (subst decimal.simps, simp)
qed simp

lemma decimal_digits: "46 \<notin> set (decimal n)"
proof (induction n rule: decimal.induct)
  case (1 n)
  have "(of_nat (48 + d) :: byte) \<noteq> 46" if "d < 10" for d
  proof -
    have "unat (of_nat (48 + d) :: byte) = 48 + d" using that by (simp add: unat_of_nat del: of_nat_add)
    moreover have "unat (46 :: byte) = 46" by simp
    ultimately have "(of_nat (48 + d) :: byte) = 46 \<Longrightarrow> 48 + d = 46" by metis
    then show ?thesis by fastforce
  qed
  with 1 show ?case by (subst decimal.simps) (auto simp del: of_nat_add)
qed

fun decimal_value :: "bytes \<Rightarrow> nat \<Rightarrow> nat" where
  "decimal_value [] acc = acc"
| "decimal_value (b # bs) acc = decimal_value bs (10 * acc + (unat b - 48))"

lemma decimal_value_append: "decimal_value (as @ bs) acc = decimal_value bs (decimal_value as acc)"
  by (induction as arbitrary: acc) simp_all

lemma decimal_value_decimal: "decimal_value (decimal n) 0 = n"
proof (induction n rule: decimal.induct)
  case (1 n)
  have u: "unat (of_nat (48 + d) :: byte) = 48 + d" if "d < 10" for d
    using that by (simp add: unat_of_nat del: of_nat_add)
  show ?case
  proof (cases "n < 10")
    case True
    then show ?thesis using u [of n] by (subst decimal.simps) (simp del: of_nat_add)
  next
    case False
    then show ?thesis using 1 u [of "n mod 10"] by (subst decimal.simps) (simp add: decimal_value_append del: of_nat_add)
  qed
qed

lemma decimal_inject: "decimal n = decimal m \<Longrightarrow> n = m"
  by (metis decimal_value_decimal)

lemma UrlTemplate_prefix: "UrlTemplate cm k =
    AppendLiteralToTemplate (if k = 0 then dot_ift_tk else 46 # decimal k @ dot_ift_gk) (url_prefix cm)"
  by (simp add: UrlTemplate_def url_prefix_def Let_def)

lemma table_url:
  assumes "prefix_ok L cm"
  shows "PatchToUrl (lb_base32 L) (lb_base64 L) (UrlTemplate cm 0) (of_nat patch_id) = Inr (table_url L cm patch_id)"
  using PatchToUrl_append [OF prefix_okD(1) [OF assms], of dot_ift_tk]
  by (simp add: UrlTemplate_prefix AppendLiteralToTemplate_def table_url_def)

lemma glyph_url:
  assumes "prefix_ok L cm" and k: "patch_set_id \<noteq> 0" "patch_set_id < TWO32"
  shows "PatchToUrl (lb_base32 L) (lb_base64 L) (UrlTemplate cm patch_set_id) (of_nat index) = Inr (glyph_url L cm patch_set_id index)"
proof -
  let ?l = "46 # decimal patch_set_id @ dot_ift_gk"
  have "patch_set_id < 10 ^ 10" using k(2) by simp
  from decimal_length [OF this] have "length ?l < 128" by simp
  from PatchToUrl_append [OF prefix_okD(1) [OF assms(1)] _ this] show ?thesis
    using k(1) by (simp add: UrlTemplate_prefix AppendLiteralToTemplate_def glyph_url_def)
qed

lemma split_at_first: "x \<notin> set as \<Longrightarrow> x \<notin> set bs \<Longrightarrow> as @ x # cs = bs @ x # ds \<Longrightarrow> as = bs \<and> cs = ds"
proof (induction as arbitrary: bs)
  case Nil
  then show ?case by (cases bs) auto
next
  case (Cons a as)
  then obtain b bs' where "bs = b # bs'" by (cases bs) auto
  with Cons show ?case by auto
qed

lemma split_at_last: "x \<notin> set cs \<Longrightarrow> x \<notin> set ds \<Longrightarrow> as @ x # cs = bs @ x # ds \<Longrightarrow> as = bs \<and> cs = ds"
proof -
  assume x: "x \<notin> set cs" "x \<notin> set ds" and eq: "as @ x # cs = bs @ x # ds"
  have "rev cs @ x # rev as = rev ds @ x # rev bs" using arg_cong [OF eq, of rev] by simp
  with x split_at_first [of x "rev cs" "rev ds" "rev as" "rev bs"] show ?thesis by simp
qed

lemma table_url_inject: "prefix_ok L cm \<Longrightarrow> table_url L cm a = table_url L cm b \<Longrightarrow> a < TWO32 \<Longrightarrow> b < TWO32 \<Longrightarrow> a = b"
  using prefix_okD(2) by (simp add: table_url_def)

lemma glyph_url_inject:
  assumes "prefix_ok L cm" and "glyph_url L cm k a = glyph_url L cm l b" and "a < TWO32" "b < TWO32"
  shows "k = l \<and> a = b"
proof -
  have "id_text L cm a @ 46 # decimal k = id_text L cm b @ 46 # decimal l"
    using assms(2) unfolding glyph_url_def by (metis append.assoc append_Cons append_same_eq)
  from split_at_last [OF decimal_digits decimal_digits this] show ?thesis
    using prefix_okD(2) [OF assms(1) _ assms(3,4)] decimal_inject by blast
qed

lemma table_glyph_url: "table_url L cm a \<noteq> glyph_url L cm k b"
proof
  assume "table_url L cm a = glyph_url L cm k b"
  then have "rev (table_url L cm a) ! 1 = rev (glyph_url L cm k b) ! 1" by simp
  then show False by (simp add: table_url_def glyph_url_def)
qed

end
