(* ===== verification/Compiler_Invariant.thy ===== *)
theory Compiler_Invariant
  imports Table_Keyed Compiler_Depth
begin

text \<open>
  What holds of the processing context of the compiler: ids of jumps are given once and in order, every patch that
  is marked as built leads from the font of its first node to that of its last, and every design space
  has its glyph keyed patches.
\<close>

section \<open>The invariant\<close>

abbreviation remaining :: "compiler \<Rightarrow> subset_definition \<Rightarrow> nat" where
  "remaining cm node \<equiv> length (RemainingSubsets (cm_extension_subsets cm) node)"

abbreviation id_map :: "processing_context \<Rightarrow> (jump \<times> nat) list" where "id_map \<equiv> pc_table_keyed_patch_id_map"

text \<open>No counter has wrapped around.\<close>

definition few :: "compiler \<Rightarrow> processing_context \<Rightarrow> bool" where
  "few cm c \<longleftrightarrow> cm_next_id cm + length (id_map c) \<le> UINT32_MAX \<and> card (dom (pc_patch_set_url_templates c)) < UINT32_MAX"

definition ids_ok :: "compiler \<Rightarrow> processing_context \<Rightarrow> bool" where
  "ids_ok cm c \<longleftrightarrow> distinct (map fst (id_map c)) \<and>
     map snd (id_map c) = map (\<lambda>i. (cm_next_id cm + i) mod TWO32) [0..<length (id_map c)] \<and>
     pc_next_id c = (cm_next_id cm + length (id_map c)) mod TWO32 \<and>
     members (pc_built_table_keyed_patches c) \<subseteq> snd ` set (id_map c)"

definition patch_between :: "('i, 'p) library \<Rightarrow> compiler \<Rightarrow> compile_result \<Rightarrow> compile_result \<Rightarrow> bytes \<Rightarrow> bool" where
  "patch_between L cm r1 r2 p \<longleftrightarrow> (\<exists>cache cache'. cache_ok (lb_brotli L) cache \<and>
     TK_Diff (lb_hb L) (lb_brotli L) (GetDifferFor cm (cr_table_keyed_compat_id r1)
       (IsMixedMode cm \<and> cr_glyph_keyed_url_template r2 \<noteq> cr_glyph_keyed_url_template r1)) cache (cr_font_data r1) (cr_font_data r2) = Inr (cache', p))"

definition patches_ok :: "('i, 'p) library \<Rightarrow> compiler \<Rightarrow> processing_context \<Rightarrow> bool" where
  "patches_ok L cm c \<longleftrightarrow> (\<forall>j i. (j, i) \<in> set (id_map c) \<and> i \<in> members (pc_built_table_keyed_patches c) \<longrightarrow>
     (\<exists>r1 r2 p. pc_built_subsets c (jp_start j) = Some r1 \<and> pc_built_subsets c (jp_end j) = Some r2 \<and>
        pc_patches c (table_url L cm i) = Some p \<and> patch_between L cm r1 r2 p))"

definition instance_of :: "('i, 'p) library \<Rightarrow> compiler \<Rightarrow> processing_context \<Rightarrow> design_space \<Rightarrow> bytes outcome" where
  "instance_of L cm c ds = (if ds \<noteq> [] then Instance L cm (pc_force_long_loca_and_gvar c) (pc_fully_expanded_subset c) ds
     else Ok (pc_fully_expanded_subset c))"

definition glyph_patch :: "('i, 'p) library \<Rightarrow> compiler \<Rightarrow> processing_context \<Rightarrow> design_space \<Rightarrow> compat_id \<Rightarrow> nat \<Rightarrow> bytes \<Rightarrow> bool" where
  "glyph_patch L cm c ds compat_id index p \<longleftrightarrow> (\<exists>gids font. Mapping.lookup (cm_glyph_data_patches cm) index = Some gids \<and>
     instance_of L cm c ds = Ok font \<and>
     CreatePatch (lb_hb L) (lb_brotli L) \<lparr>gk_font = font, gk_base_compat_id = compat_id, gk_tags = [kGlyf, kGvar, kCFF, kCFF2]\<rparr> gids = Ok p)"

definition sets_ok :: "compiler \<Rightarrow> processing_context \<Rightarrow> bool" where
  "sets_ok cm c \<longleftrightarrow> finite (dom (pc_patch_set_url_templates c)) \<and> dom (pc_glyph_keyed_compat_ids c) = dom (pc_patch_set_url_templates c) \<and>
     pc_next_patch_set_id c = (1 + card (dom (pc_patch_set_url_templates c))) mod TWO32"

definition set_ok :: "('i, 'p) library \<Rightarrow> compiler \<Rightarrow> processing_context \<Rightarrow> design_space \<Rightarrow> bytes \<Rightarrow> compat_id \<Rightarrow> bool" where
  "set_ok L cm c ds url_template compat_id \<longleftrightarrow> (\<exists>k. 0 < k \<and> k \<le> card (dom (pc_patch_set_url_templates c)) \<and> url_template = UrlTemplate cm k \<and>
     (\<forall>index \<in> members (reachable_segments cm). \<exists>p. pc_patches c (glyph_url L cm k index) = Some p \<and> glyph_patch L cm c ds compat_id index p))"

definition glyphs_ok :: "('i, 'p) library \<Rightarrow> compiler \<Rightarrow> processing_context \<Rightarrow> bool" where
  "glyphs_ok L cm c \<longleftrightarrow> (\<forall>ds url_template compat_id. pc_patch_set_url_templates c ds = Some url_template \<and>
     pc_glyph_keyed_compat_ids c ds = Some compat_id \<longrightarrow> set_ok L cm c ds url_template compat_id)"

text \<open>The font of a node.\<close>

definition font_for :: "('i, 'p) library \<Rightarrow> compiler \<Rightarrow> processing_context \<Rightarrow> subset_definition \<Rightarrow> compile_result \<Rightarrow> bool" where
  "font_for L cm c node r \<longleftrightarrow> (\<exists>data. CutSubset L cm (cut_context c) (pc_fully_expanded_subset c) node (IsMixedMode cm) = Ok data \<and>
     (cr_font_data r = data \<and> OutgoingEdges (cm_extension_subsets cm) node (cm_jump_ahead cm) = Some [] \<and> \<not> IsMixedMode cm \<or>
      (\<exists>main extension font. it_id main = cr_table_keyed_compat_id r \<and> it_url_template main = UrlTemplate cm 0 \<and>
        (IsMixedMode cm \<longrightarrow> (\<exists>e. extension = Some e \<and> it_id e = cr_glyph_keyed_compat_id r \<and> it_url_template e = cr_glyph_keyed_url_template r)) \<and>
        AddToFont (lb_hb L) (lb_conv L) (lb_fconv L) data main extension = Inr font \<and>
        (cr_font_data r = font \<or> RoundTripWoff2 L font False = Inr (cr_font_data r)))))"

definition node_ok :: "('i, 'p) library \<Rightarrow> compiler \<Rightarrow> processing_context \<Rightarrow> subset_definition \<Rightarrow> compile_result \<Rightarrow> bool" where
  "node_ok L cm c node r \<longleftrightarrow> font_for L cm c node r \<and>
     (IsMixedMode cm \<longrightarrow> pc_patch_set_url_templates c (sd_design_space node) = Some (cr_glyph_keyed_url_template r) \<and>
        pc_glyph_keyed_compat_ids c (sd_design_space node) = Some (cr_glyph_keyed_compat_id r))"

definition good :: "('i, 'p) library \<Rightarrow> compiler \<Rightarrow> processing_context \<Rightarrow> bool" where
  "good L cm c \<longleftrightarrow> ids_ok cm c \<and> cache_ok (lb_brotli L) (Some (pc_table_diff_cache c)) \<and> sets_ok cm c \<and>
     (few cm c \<longrightarrow> patches_ok L cm c \<and> glyphs_ok L cm c) \<and>
     (\<forall>node r. pc_built_subsets c node = Some r \<longrightarrow> node_ok L cm c node r)"

section \<open>Growth\<close>

definition widens :: "processing_context \<Rightarrow> processing_context \<Rightarrow> bool" where
  "widens c c' \<longleftrightarrow> pc_built_subsets c \<subseteq>\<^sub>m pc_built_subsets c' \<and> (\<exists>js. id_map c' = id_map c @ js) \<and>
     members (pc_built_table_keyed_patches c) \<subseteq> members (pc_built_table_keyed_patches c') \<and>
     pc_patch_set_url_templates c \<subseteq>\<^sub>m pc_patch_set_url_templates c' \<and> pc_glyph_keyed_compat_ids c \<subseteq>\<^sub>m pc_glyph_keyed_compat_ids c' \<and>
     pc_fully_expanded_subset c' = pc_fully_expanded_subset c \<and> cut_context c' = cut_context c"

text \<open>All jumps from a node have their patches.\<close>

definition has_patches :: "compiler \<Rightarrow> processing_context \<Rightarrow> subset_definition \<Rightarrow> bool" where
  "has_patches cm c node \<longleftrightarrow> (\<forall>edges e j. OutgoingEdges (cm_extension_subsets cm) node (cm_jump_ahead cm) = Some edges \<longrightarrow> e \<in> set edges \<longrightarrow>
     j \<in> set (Jumps e node (cm_use_prefetch_lists cm)) \<longrightarrow> (\<exists>i. (j, i) \<in> set (id_map c) \<and> i \<in> members (pc_built_table_keyed_patches c)))"

definition advance :: "('i, 'p) library \<Rightarrow> compiler \<Rightarrow> nat \<Rightarrow> processing_context \<Rightarrow> processing_context \<Rightarrow> bool" where
  "advance L cm m c c' \<longleftrightarrow> good L cm c' \<and> widens c c' \<and>
     (\<forall>node. pc_built_subsets c node = None \<and> pc_built_subsets c' node \<noteq> None \<longrightarrow>
        remaining cm node < m \<and> sd_canonical node \<and> (few cm c' \<longrightarrow> has_patches cm c' node))"

lemma widens_refl [simp]: "widens c c"
  by (simp add: widens_def)

lemma widens_trans: "widens a b \<Longrightarrow> widens b c \<Longrightarrow> widens a c"
  unfolding widens_def by (auto intro: map_le_trans)

lemma widens_card: "widens a b \<Longrightarrow> sets_ok cm b \<Longrightarrow> card (dom (pc_patch_set_url_templates a)) \<le> card (dom (pc_patch_set_url_templates b))"
  unfolding widens_def sets_ok_def by (intro card_mono map_le_implies_dom_le) blast+

lemma widens_few: "widens a b \<Longrightarrow> sets_ok cm b \<Longrightarrow> few cm b \<Longrightarrow> few cm a"
  using widens_card [of a b cm] unfolding few_def by (auto simp: widens_def)

lemma widens_has_patches: "widens a b \<Longrightarrow> has_patches cm a node \<Longrightarrow> has_patches cm b node"
proof -
  assume w: "widens a b" and p: "has_patches cm a node"
  have "set (id_map a) \<subseteq> set (id_map b)" "members (pc_built_table_keyed_patches a) \<subseteq> members (pc_built_table_keyed_patches b)"
    using w by (auto simp: widens_def)
  then show "has_patches cm b node" using p unfolding has_patches_def by blast
qed

lemma advance_good: "advance L cm m c c' \<Longrightarrow> good L cm c'"
  by (simp add: advance_def)

lemma advance_widens: "advance L cm m c c' \<Longrightarrow> widens c c'"
  by (simp add: advance_def)

lemma advance_refl: "good L cm c \<Longrightarrow> advance L cm m c c"
  unfolding advance_def using widens_refl by blast

lemma advance_mono: "advance L cm m c c' \<Longrightarrow> m \<le> n \<Longrightarrow> advance L cm n c c'"
  unfolding advance_def by (meson less_le_trans)

lemma advance_trans:
  assumes ab: "advance L cm m a b" and bc: "advance L cm m b c"
  shows "advance L cm m a c"
  unfolding advance_def
proof (intro conjI allI impI)
  show "good L cm c" "widens a c" using ab bc widens_trans unfolding advance_def by blast+
  fix node assume n: "pc_built_subsets a node = None \<and> pc_built_subsets c node \<noteq> None"
  have "remaining cm node < m \<and> sd_canonical node \<and> (few cm c \<longrightarrow> has_patches cm c node)"
  proof (cases "pc_built_subsets b node")
    case None
    with n bc show ?thesis unfolding advance_def by blast
  next
    case (Some r)
    have "sets_ok cm c" using bc unfolding advance_def good_def by blast
    then have "few cm c \<Longrightarrow> few cm b" using bc widens_few unfolding advance_def by blast
    with Some n ab bc widens_has_patches show ?thesis unfolding advance_def by blast
  qed
  then show "remaining cm node < m" "sd_canonical node" "few cm c \<Longrightarrow> has_patches cm c node" by blast+
qed

text \<open>A step that builds no node.\<close>

lemma advance_same:
  assumes "good L cm c'" and "widens c c'" and "pc_built_subsets c' = pc_built_subsets c"
  shows "advance L cm m c c'"
  unfolding advance_def assms(3) using assms(1,2) by blast

lemma st_fold_invariant:
  assumes "st_fold f xs a s = Some (t, Inr b)" and "Q a s"
    and "\<And>x a s t b. x \<in> set xs \<Longrightarrow> Q a s \<Longrightarrow> f x a s = Some (t, Inr b) \<Longrightarrow> Q b t"
  shows "Q b t"
  using assms
proof (induction xs arbitrary: a s)
  case (Cons x xs)
  from Cons.prems(1) obtain u y where "f x a s = Some (u, Inr y)" "st_fold f xs y u = Some (t, Inr b)" by (auto simp: st_bind_ok)
  with Cons show ?case by (metis list.set_intros)
qed simp

section \<open>Steps that keep the core\<close>

definition same_core :: "processing_context \<Rightarrow> processing_context \<Rightarrow> bool" where
  "same_core c c' \<longleftrightarrow> pc_fully_expanded_subset c' = pc_fully_expanded_subset c \<and> pc_force_long_loca_and_gvar c' = pc_force_long_loca_and_gvar c \<and>
     pc_next_id c' = pc_next_id c \<and> pc_next_patch_set_id c' = pc_next_patch_set_id c \<and>
     pc_patch_set_url_templates c' = pc_patch_set_url_templates c \<and> pc_glyph_keyed_compat_ids c' = pc_glyph_keyed_compat_ids c \<and>
     pc_built_subsets c' = pc_built_subsets c \<and> pc_patches c' = pc_patches c \<and> id_map c' = id_map c \<and>
     pc_built_table_keyed_patches c' = pc_built_table_keyed_patches c \<and> pc_init_subset c' = pc_init_subset c"

lemma same_core_good:
  assumes "same_core c c'" and "cache_ok (lb_brotli L) (Some (pc_table_diff_cache c'))" and "good L cm c"
  shows "good L cm c'"
proof -
  have ctx: "cut_context c' = cut_context c" using assms(1) by (simp add: same_core_def cut_context_def)
  have inst: "instance_of L cm c' = instance_of L cm c" using assms(1) by (simp add: same_core_def instance_of_def fun_eq_iff)
  have font: "font_for L cm c' = font_for L cm c" unfolding font_for_def ctx using assms(1) by (simp add: same_core_def)
  have ids: "ids_ok cm c' = ids_ok cm c" "sets_ok cm c' = sets_ok cm c" "few cm c' = few cm c" "patches_ok L cm c' = patches_ok L cm c"
    using assms(1) by (simp_all add: same_core_def ids_ok_def sets_ok_def few_def patches_ok_def)
  have glyph: "glyph_patch L cm c' = glyph_patch L cm c" by (intro ext) (simp add: glyph_patch_def inst)
  have "set_ok L cm c' = set_ok L cm c" using assms(1) by (intro ext) (simp add: set_ok_def glyph same_core_def)
  then have "glyphs_ok L cm c' = glyphs_ok L cm c" using assms(1) by (simp add: glyphs_ok_def same_core_def)
  moreover have "node_ok L cm c' = node_ok L cm c" using assms(1) by (intro ext) (simp add: node_ok_def font same_core_def)
  moreover have "pc_built_subsets c' = pc_built_subsets c" using assms(1) by (simp add: same_core_def)
  ultimately show ?thesis using assms(2,3) unfolding good_def ids by simp
qed

lemma same_core_advance:
  assumes "same_core c c'" and "cache_ok (lb_brotli L) (Some (pc_table_diff_cache c'))" and "good L cm c"
  shows "advance L cm m c c'"
proof (rule advance_same)
  show "good L cm c'" by (rule same_core_good [OF assms])
  show "widens c c'" using assms(1) unfolding widens_def same_core_def cut_context_def by simp
qed (use assms(1) in \<open>simp add: same_core_def\<close>)

lemma good_cache: "good L cm c \<Longrightarrow> cache_ok (lb_brotli L) (Some (pc_table_diff_cache c))"
  by (simp add: good_def)

section \<open>Diffs\<close>

lemma cached_diff_some: "cached_diff brotli_diff b d (Some c) = Inr (cache', p) \<Longrightarrow> cache' \<noteq> None"
  by (auto simp: cached_diff_def TRY_eq_Inr split: option.splits)

lemma TK_Diff_cache:
  assumes run: "TK_Diff hb brotli_diff d (Some c) a b = Inr (cache', p)" and "cache_ok brotli_diff (Some c)"
  shows "cache_ok brotli_diff cache' \<and> cache' \<noteq> None"
proof -
  let ?ok = "\<lambda>s. cache_ok brotli_diff (td_cache s) \<and> td_cache s \<noteq> None"
  obtain s tags where s: "TRY_fold (diff_table hb brotli_diff d a b) tags
      \<lparr>td_cache = Some c, td_patches = Map.empty, td_new_tables = [], td_unchanged_tables = []\<rparr> = Inr s" "cache' = td_cache s"
    using run by (auto simp: TK_Diff_def Let_def TRY_eq_Inr)
  have "?ok s"
  proof (rule TRY_fold_invariant [OF s(1)])
    fix t s s' assume ok: "?ok s" and step: "diff_table hb brotli_diff d a b t s = Inr s'"
    show "?ok s'"
    proof (cases "\<exists>x y q. td_cache s' = fst q \<and> cached_diff brotli_diff x y (td_cache s) = Inr q")
      case True
      then obtain x y cc pp where "cached_diff brotli_diff x y (td_cache s) = Inr (cc, pp)" "td_cache s' = cc" by force
      with ok show ?thesis using cached_diff_ok cached_diff_some by (metis option.exhaust)
    next
      case False
      then have "td_cache s' = td_cache s" using step
        by (auto simp: diff_table_def Let_def TRY_eq_Inr split: if_splits)
      with ok show ?thesis by simp
    qed
  qed (use assms(2) in simp)
  with s(2) show ?thesis by simp
qed

lemma context_diff_ok:
  assumes "context_diff L differ a b c = Some (c', Inr p)" and "good L cm c"
  shows "same_core c c' \<and> cache_ok (lb_brotli L) (Some (pc_table_diff_cache c')) \<and>
    (\<exists>cache'. TK_Diff (lb_hb L) (lb_brotli L) differ (Some (pc_table_diff_cache c)) a b = Inr (cache', p))"
proof -
  obtain cache where run: "TK_Diff (lb_hb L) (lb_brotli L) differ (Some (pc_table_diff_cache c)) a b = Inr (cache, p)"
    and c': "c' = c\<lparr>pc_table_diff_cache := the cache\<rparr>"
    using assms(1) by (auto simp: context_diff_def split: sum.splits)
  from TK_Diff_cache [OF run good_cache [OF assms(2)]] have "cache_ok (lb_brotli L) (Some (the cache))" by auto
  then show ?thesis using run by (auto simp: c' same_core_def)
qed

section \<open>Sizes of edges\<close>

text \<open>The contract of the compilation of a node that has less than \<open>m\<close> left.\<close>

definition node_spec :: "('i, 'p) library \<Rightarrow> compiler \<Rightarrow> nat \<Rightarrow> compile_node \<Rightarrow> bool" where
  "node_spec L cm m rec \<longleftrightarrow> (\<forall>d c c' r. sd_canonical d \<longrightarrow> remaining cm d < m \<longrightarrow> good L cm c \<longrightarrow> rec d c = Some (c', Inr r) \<longrightarrow>
     advance L cm m c c' \<and> pc_built_subsets c' d = Some r)"

lemma estimate_jump_advance:
  assumes spec: "node_spec L cm m rec" and j: "sd_canonical (jp_end j)" "remaining cm (jp_end j) < m" and good: "good L cm c"
    and run: "estimate_jump L cm rec j w c = Some (c', Inr w')"
  shows "advance L cm m c c'"
proof -
  obtain c1 r x where r: "rec (jp_end j) c = Some (c1, Inr r)"
    and rest: "(case pc_estimated_patch_sizes c1 j of Some estimated \<Rightarrow> Some (c1, Inr estimated)
      | None \<Rightarrow> st_bind (context_diff L (GetTentativeDifferFor cm (cr_table_keyed_compat_id (wk_result w))
            (IsMixedMode cm \<and> cr_glyph_keyed_url_template r \<noteq> cr_glyph_keyed_url_template (wk_result w))) (cr_font_data (wk_result w)) (cr_font_data r) c1)
          (\<lambda>tentative_patch ctx. Some (ctx\<lparr>pc_estimated_patch_sizes := (pc_estimated_patch_sizes ctx)(j \<mapsto> length tentative_patch)\<rparr>,
            Inr (length tentative_patch)))) = Some (c', Inr x)"
    using run unfolding estimate_jump_def Let_def by (fastforce simp: st_bind_ok split: if_splits)
  have a1: "advance L cm m c c1" using spec j good r unfolding node_spec_def by blast
  have "advance L cm m c1 c'"
  proof (cases "pc_estimated_patch_sizes c1 j")
    case (Some y)
    with rest have "c' = c1" by simp
    then show ?thesis using advance_refl [OF advance_good [OF a1]] by simp
  next
    case None
    then obtain differ a b c3 p v where d: "context_diff L differ a b c1 = Some (c3, Inr p)" "c' = c3\<lparr>pc_estimated_patch_sizes := v\<rparr>"
      using rest by (auto simp: st_bind_ok)
    from context_diff_ok [OF d(1) advance_good [OF a1]] have "same_core c1 c'" "cache_ok (lb_brotli L) (Some (pc_table_diff_cache c'))"
      by (auto simp: d(2) same_core_def)
    then show ?thesis by (rule same_core_advance) (rule advance_good [OF a1])
  qed
  with a1 show ?thesis by (rule advance_trans)
qed

lemma EstimateEdgeSizes_advance:
  assumes spec: "node_spec L cm m rec" and js: "\<forall>e \<in> set edges. \<forall>j \<in> set (Jumps e node (cm_use_prefetch_lists cm)). sd_canonical (jp_end j) \<and> remaining cm (jp_end j) < m"
    and good: "good L cm c" and run: "EstimateEdgeSizes L cm rec node d k u edges c = Some (c', Inr sizes)"
  shows "advance L cm m c c' \<and> map fst sizes = [0..<length edges]"
proof
  have edge: "advance L cm m c t"
    if e: "e \<in> set edges" and adv: "advance L cm m c s" and step: "estimate_edge L cm rec node b e sz s = Some (t, Inr sz')" for e b sz s t sz'
  proof -
    obtain w w' where "st_fold (estimate_jump L cm rec) (Jumps e node (cm_use_prefetch_lists cm)) w s = Some (t, Inr w')"
      using step by (auto simp: estimate_edge_def st_bind_ok)
    then show ?thesis
    proof (rule st_fold_invariant [where Q = "\<lambda>_ t. advance L cm m c t"])
      fix j w s t w' assume j: "j \<in> set (Jumps e node (cm_use_prefetch_lists cm))" and adv: "advance L cm m c s"
        and jump: "estimate_jump L cm rec j w s = Some (t, Inr w')"
      have "sd_canonical (jp_end j)" "remaining cm (jp_end j) < m" using js e j by auto
      from advance_trans [OF adv estimate_jump_advance [OF spec this advance_good [OF adv] jump]] show "advance L cm m c t" .
    qed (rule adv)
  qed
  show "advance L cm m c c'"
    by (rule st_fold_invariant [OF run [unfolded EstimateEdgeSizes_def], where Q = "\<lambda>_ t. advance L cm m c t"])
      (use edge advance_refl [OF good] in blast)+
  show "map fst sizes = [0..<length edges]"
  proof -
    have "map fst b = map fst a @ [length a..<length a + length es]"
      if "st_fold (estimate_edge L cm rec node base) es a c = Some (t, Inr b)" for es a b base c t
      using that
    proof (induction es arbitrary: a c)
      case (Cons e es)
      then obtain c1 x where x: "estimate_edge L cm rec node base e a c = Some (c1, Inr x)"
        "st_fold (estimate_edge L cm rec node base) es x c1 = Some (t, Inr b)" by (auto simp: st_bind_ok)
      from x(1) obtain w where "x = a @ [(length a, w)]" by (auto simp: estimate_edge_def st_bind_ok)
      with x(2) have "st_fold (estimate_edge L cm rec node base) es (a @ [(length a, w)]) c1 = Some (t, Inr b)" by simp
      from Cons.IH [OF this] show ?case using upt_conv_Cons [of "length a" "length a + length (e # es)"] by (simp del: upt_Suc)
    qed simp
    from this [OF run [unfolded EstimateEdgeSizes_def]] show ?thesis by simp
  qed
qed

section \<open>Ids of jumps\<close>

lemma fresh_id:
  assumes "ids_ok cm c" and "few cm c" and "(j, i) \<in> set (id_map c)"
  shows "\<exists>k < length (id_map c). i = cm_next_id cm + k \<and> id_map c ! k = (j, i)"
proof -
  from assms(3) obtain k where k: "k < length (id_map c)" "id_map c ! k = (j, i)" by (auto simp: in_set_conv_nth)
  have "i = map snd (id_map c) ! k" using k by simp
  also have "\<dots> = (cm_next_id cm + k) mod TWO32" using assms(1) k(1) by (simp add: ids_ok_def)
  also have "\<dots> = cm_next_id cm + k" using assms(2) k(1) by (simp add: few_def)
  finally show ?thesis using k by blast
qed

lemma id_inject: "ids_ok cm c \<Longrightarrow> few cm c \<Longrightarrow> (j, i) \<in> set (id_map c) \<Longrightarrow> (j', i) \<in> set (id_map c) \<Longrightarrow> j = j'"
  using fresh_id [of cm c j i] fresh_id [of cm c j' i] by auto

lemma id_bound: "ids_ok cm c \<Longrightarrow> few cm c \<Longrightarrow> (j, i) \<in> set (id_map c) \<Longrightarrow> i < UINT32_MAX"
  using fresh_id [of cm c j i] by (auto simp: few_def)

lemma patch_id_for_advance:
  assumes good: "good L cm c" and run: "patch_id_for j c = (c', i)"
  shows "advance L cm m c c' \<and> map_of (id_map c') j = Some i"
proof (cases "map_of (id_map c) j")
  case (Some k)
  then show ?thesis using run advance_refl [OF good] by (simp add: patch_id_for_def)
next
  case None
  let ?m = "id_map c" and ?i = "pc_next_id c"
  have c': "c' = c\<lparr>pc_table_keyed_patch_id_map := ?m @ [(j, ?i)], pc_next_id := (?i + 1) mod TWO32\<rparr>" "i = ?i"
    using run None by (auto simp: patch_id_for_def)
  have ids: "ids_ok cm c" and nodes: "\<forall>node r. pc_built_subsets c node = Some r \<longrightarrow> node_ok L cm c node r"
    using good by (simp_all add: good_def)
  have next_id: "?i = (cm_next_id cm + length ?m) mod TWO32" using ids by (simp add: ids_ok_def)
  have "j \<notin> fst ` set ?m" using None by (simp add: map_of_eq_None_iff)
  then have ids': "ids_ok cm c'" using ids next_id unfolding ids_ok_def c' by (auto simp: mod_Suc_eq)
  have same: "cut_context c' = cut_context c" "instance_of L cm c' = instance_of L cm c"
    by (simp_all add: c' cut_context_def instance_of_def fun_eq_iff)
  have font: "node_ok L cm c' node r = node_ok L cm c node r" for node r
    unfolding node_ok_def font_for_def same by (simp add: c')
  have glyph: "glyphs_ok L cm c' = glyphs_ok L cm c"
    unfolding glyphs_ok_def set_ok_def glyph_patch_def same by (simp add: c')
  have w: "widens c c'" unfolding widens_def same by (simp add: c')
  have sets: "sets_ok cm c'" using good by (simp add: good_def sets_ok_def c')
  have patches: "patches_ok L cm c'" if f: "few cm c'"
  proof -
    have fc: "few cm c" by (rule widens_few [OF w sets f])
    have "?i \<notin> members (pc_built_table_keyed_patches c)"
    proof
      assume "?i \<in> members (pc_built_table_keyed_patches c)"
      then obtain j' where "(j', ?i) \<in> set ?m" using ids by (auto simp: ids_ok_def)
      from fresh_id [OF ids fc this] obtain k where "k < length ?m" "?i = cm_next_id cm + k" by blast
      moreover have "?i = cm_next_id cm + length ?m" using next_id fc by (simp add: few_def)
      ultimately show False by simp
    qed
    moreover have "patches_ok L cm c" using good fc by (simp add: good_def)
    ultimately show ?thesis unfolding patches_ok_def c' by auto
  qed
  have "good L cm c'" unfolding good_def
  proof (intro conjI impI)
    show "cache_ok (lb_brotli L) (Some (pc_table_diff_cache c'))" using good_cache [OF good] by (simp add: c')
    show "\<forall>node r. pc_built_subsets c' node = Some r \<longrightarrow> node_ok L cm c' node r" using nodes unfolding font by (simp add: c')
    show "glyphs_ok L cm c'" if "few cm c'" unfolding glyph using good widens_few [OF w sets that] by (simp add: good_def)
  qed (use ids' sets patches in blast)+
  moreover have "map_of (id_map c') j = Some i" using None by (simp add: c' map_add_def)
  ultimately show ?thesis using advance_same [OF _ w] by (simp add: c')
qed

lemma widens_lookup: "widens c c' \<Longrightarrow> map_of (id_map c) j = Some i \<Longrightarrow> map_of (id_map c') j = Some i"
  by (auto simp: widens_def map_add_def)

lemma patch_ids_for_advance:
  assumes "good L cm c" and "patch_ids_for js c = (c', is')"
  shows "advance L cm m c c' \<and> list_all2 (\<lambda>j i. map_of (id_map c') j = Some i) js is'"
  using assms
proof (induction js arbitrary: c is')
  case (Cons j js)
  obtain c1 i where i: "patch_id_for j c = (c1, i)" by fastforce
  obtain is1 where is1: "patch_ids_for js c1 = (c', is1)" "is' = i # is1"
    using Cons.prems(2) by (auto simp: i Let_def split: prod.splits)
  have a: "advance L cm m c c1 \<and> map_of (id_map c1) j = Some i" by (rule patch_id_for_advance [OF Cons.prems(1) i])
  then have b: "advance L cm m c1 c' \<and> list_all2 (\<lambda>j i. map_of (id_map c') j = Some i) js is1"
    using Cons.IH [OF _ is1(1)] advance_good by blast
  then have "map_of (id_map c') j = Some i" using a widens_lookup advance_widens by blast
  with a b show ?case using advance_trans by (auto simp: is1(2))
qed (simp add: advance_refl)

lemma edge_condition_advance:
  assumes good: "good L cm c" and run: "edge_condition cm node encoding e a c = Some (c', Inr b)"
  shows "advance L cm m c c' \<and> (\<forall>j \<in> set (Jumps e node (cm_use_prefetch_lists cm)). map_of (id_map c') j \<noteq> None)"
proof -
  obtain is' where "patch_ids_for (Jumps e node (cm_use_prefetch_lists cm)) c = (c', is')"
    using run by (auto simp: edge_condition_def Let_def split: prod.splits if_splits)
  from patch_ids_for_advance [OF good this, of m] show ?thesis by (fastforce simp: list_all2_conv_all_nth in_set_conv_nth)
qed

lemma edge_conditions_advance:
  assumes "good L cm c" and "st_fold (edge_condition cm node encoding) es a c = Some (c', Inr b)"
  shows "advance L cm m c c' \<and> (\<forall>e \<in> set es. \<forall>j \<in> set (Jumps e node (cm_use_prefetch_lists cm)). map_of (id_map c') j \<noteq> None)"
  using assms
proof (induction es arbitrary: a c)
  case (Cons e es)
  obtain c1 x where x: "edge_condition cm node encoding e a c = Some (c1, Inr x)"
    "st_fold (edge_condition cm node encoding) es x c1 = Some (c', Inr b)" using Cons.prems(2) by (auto simp: st_bind_ok)
  note e = edge_condition_advance [OF Cons.prems(1) x(1), of m]
  then have "good L cm c1" using advance_good by blast
  note es = Cons.IH [OF this x(2)]
  have "map_of (id_map c') j \<noteq> None" if "map_of (id_map c1) j \<noteq> None" for j
    using that es widens_lookup advance_widens by (metis option.exhaust option.discI)
  with e es show ?case using advance_trans by auto
qed (simp add: advance_refl)

end
