(* ===== verification/Compiler_Glyph_Sets.thy ===== *)
theory Compiler_Glyph_Sets
  imports Compiler_Invariant
begin

text \<open>\<^verbatim>\<open>EnsureGlyphKeyedPatchesPopulated\<close> keeps the invariant and gives a design space its patches.\<close>

lemma add_glyph_patches:
  assumes "st_each (add_glyph_patch L cm differ t) is s = Some (s', Inr ())"
  shows "\<exists>P. s' = s\<lparr>pc_patches := P\<rparr> \<and> ((\<forall>i \<in> set is. PatchToUrl (lb_base32 L) (lb_base64 L) t (of_nat i) = Inr (u i)) \<and> inj_on u (set is) \<longrightarrow>
    (\<forall>i \<in> set is. \<exists>gids p. Mapping.lookup (cm_glyph_data_patches cm) i = Some gids \<and> CreatePatch (lb_hb L) (lb_brotli L) differ gids = Ok p \<and>
       P (u i) = Some p) \<and> (\<forall>url. url \<notin> u ` set is \<longrightarrow> P url = pc_patches s url))"
  using assms
proof (induction "is" arbitrary: s)
  case (Cons i "is")
  obtain s1 where s1: "add_glyph_patch L cm differ t i s = Some (s1, Inr ())" "st_each (add_glyph_patch L cm differ t) is s1 = Some (s', Inr ())"
    using Cons.prems by (auto simp: st_bind_ok)
  then obtain gids url p where p: "Mapping.lookup (cm_glyph_data_patches cm) i = Some gids"
    "PatchToUrl (lb_base32 L) (lb_base64 L) t (of_nat i) = Inr url" "CreatePatch (lb_hb L) (lb_brotli L) differ gids = Ok p"
    "s1 = s\<lparr>pc_patches := (pc_patches s)(url \<mapsto> p)\<rparr>"
    by (auto simp: add_glyph_patch_def st_bind_ok split: option.splits)
  from Cons.IH [OF s1(2)] obtain P where P: "s' = s1\<lparr>pc_patches := P\<rparr>"
    "(\<forall>i \<in> set is. PatchToUrl (lb_base32 L) (lb_base64 L) t (of_nat i) = Inr (u i)) \<and> inj_on u (set is) \<Longrightarrow>
      (\<forall>i \<in> set is. \<exists>gids p. Mapping.lookup (cm_glyph_data_patches cm) i = Some gids \<and> CreatePatch (lb_hb L) (lb_brotli L) differ gids = Ok p \<and>
        P (u i) = Some p) \<and> (\<forall>url. url \<notin> u ` set is \<longrightarrow> P url = pc_patches s1 url)" by blast
  show ?case
  proof (intro exI [of _ P] conjI impI)
    show "s' = s\<lparr>pc_patches := P\<rparr>" by (simp add: P(1) p(4))
    assume a: "(\<forall>i \<in> set (i # is). PatchToUrl (lb_base32 L) (lb_base64 L) t (of_nat i) = Inr (u i)) \<and> inj_on u (set (i # is))"
    then have url: "url = u i" and rest: "(\<forall>i \<in> set is. PatchToUrl (lb_base32 L) (lb_base64 L) t (of_nat i) = Inr (u i)) \<and> inj_on u (set is)"
      using p(2) by auto
    note P' = P(2) [OF rest]
    have "i \<notin> set is \<Longrightarrow> u i \<notin> u ` set is" using a by auto
    then have "i \<notin> set is \<Longrightarrow> P (u i) = Some p" using P' by (simp add: p(4) url)
    then show "\<forall>i \<in> set (i # is). \<exists>gids p. Mapping.lookup (cm_glyph_data_patches cm) i = Some gids \<and>
        CreatePatch (lb_hb L) (lb_brotli L) differ gids = Ok p \<and> P (u i) = Some p"
      using P' p(1,3) by (metis set_ConsD)
    show "\<forall>url. url \<notin> u ` set (i # is) \<longrightarrow> P url = pc_patches s url" using P' by (simp add: p(4) url)
  qed
qed (auto intro!: exI [of _ "pc_patches s'"])

lemma AllocatePatchSet_new:
  assumes "AllocatePatchSet L cm ds c = (c1, t, cid, True)" and "sets_ok cm c"
  shows "pc_patch_set_url_templates c ds = None \<and> pc_glyph_keyed_compat_ids c ds = None \<and> t = UrlTemplate cm (pc_next_patch_set_id c) \<and>
    (\<exists>n. c1 = c\<lparr>pc_next_patch_set_id := (pc_next_patch_set_id c + 1) mod TWO32, pc_random_count := n,
      pc_patch_set_url_templates := (pc_patch_set_url_templates c)(ds \<mapsto> t), pc_glyph_keyed_compat_ids := (pc_glyph_keyed_compat_ids c)(ds \<mapsto> cid)\<rparr>)"
proof -
  have "(\<exists>x. pc_patch_set_url_templates c ds = Some x) \<longleftrightarrow> (\<exists>x. pc_glyph_keyed_compat_ids c ds = Some x)"
    using assms(2) by (auto simp: sets_ok_def dom_def)
  then show ?thesis using assms(1) by (auto simp: AllocatePatchSet_def GenerateCompatId_def Let_def split: option.splits)
qed

lemma AllocatePatchSet_old:
  assumes "AllocatePatchSet L cm ds c = (c1, t, cid, False)"
  shows "c1 = c \<and> pc_patch_set_url_templates c ds = Some t \<and> pc_glyph_keyed_compat_ids c ds = Some cid"
  using assms by (auto simp: AllocatePatchSet_def GenerateCompatId_def Let_def split: option.splits)

text \<open>A new design space: its patches are the only ones that change.\<close>

lemma new_patch_set:
  assumes prefix: "prefix_ok L cm" and good: "good L cm c"
    and new: "pc_patch_set_url_templates c ds = None" "pc_glyph_keyed_compat_ids c ds = None"
    and t: "t = UrlTemplate cm (pc_next_patch_set_id c)"
    and c1: "c1 = c\<lparr>pc_next_patch_set_id := (pc_next_patch_set_id c + 1) mod TWO32, pc_random_count := n,
      pc_patch_set_url_templates := (pc_patch_set_url_templates c)(ds \<mapsto> t), pc_glyph_keyed_compat_ids := (pc_glyph_keyed_compat_ids c)(ds \<mapsto> cid)\<rparr>"
    and font: "instance_of L cm c ds = Ok font"
    and run: "st_each (add_glyph_patch L cm \<lparr>gk_font = font, gk_base_compat_id = cid, gk_tags = [kGlyf, kGvar, kCFF, kCFF2]\<rparr> t)
      (to_vector (reachable_segments cm)) c1 = Some (c', Inr ())"
  shows "advance L cm m c c'"
proof -
  let ?k = "pc_next_patch_set_id c" and ?I = "to_vector (reachable_segments cm)"
  define K where "K = 1 + card (dom (pc_patch_set_url_templates c))"
  have sets: "sets_ok cm c" using good by (simp add: good_def)
  have k: "?k = K mod TWO32" "finite (dom (pc_patch_set_url_templates c))" using sets by (simp_all add: sets_ok_def K_def)
  have fresh: "ds \<notin> dom (pc_patch_set_url_templates c)" using new(1) by auto
  obtain P where P: "c' = c1\<lparr>pc_patches := P\<rparr>"
    "(\<forall>i \<in> set ?I. PatchToUrl (lb_base32 L) (lb_base64 L) t (of_nat i) = Inr (glyph_url L cm ?k i)) \<and> inj_on (glyph_url L cm ?k) (set ?I) \<Longrightarrow>
      (\<forall>i \<in> set ?I. \<exists>gids p. Mapping.lookup (cm_glyph_data_patches cm) i = Some gids \<and> CreatePatch (lb_hb L) (lb_brotli L)
          \<lparr>gk_font = font, gk_base_compat_id = cid, gk_tags = [kGlyf, kGvar, kCFF, kCFF2]\<rparr> gids = Ok p \<and> P (glyph_url L cm ?k i) = Some p) \<and>
      (\<forall>url. url \<notin> glyph_url L cm ?k ` set ?I \<longrightarrow> P url = pc_patches c url)"
    using add_glyph_patches [OF run, of "glyph_url L cm ?k"] by (auto simp: c1)
  note c' = P(1) [unfolded c1, simplified]
  have same: "cut_context c' = cut_context c" "instance_of L cm c' = instance_of L cm c" "ids_ok cm c' = ids_ok cm c"
    by (simp_all add: c' cut_context_def instance_of_def ids_ok_def fun_eq_iff)
  have dom': "dom (pc_patch_set_url_templates c') = insert ds (dom (pc_patch_set_url_templates c))" by (simp add: c')
  have w: "widens c c'" unfolding widens_def same using new by (auto simp: c' map_le_def dom_def)
  have cardK: "card (dom (pc_patch_set_url_templates c')) = K" unfolding dom' using k(2) fresh by (simp add: K_def)
  have next_id: "pc_next_patch_set_id c' = (1 + K) mod TWO32" using k(1) by (simp add: c' mod_Suc_eq)
  have sets': "sets_ok cm c'" unfolding sets_ok_def cardK next_id unfolding dom' using sets k(2) by (simp add: sets_ok_def c')
  have node: "node_ok L cm c node r \<Longrightarrow> node_ok L cm c' node r" for node r
    unfolding node_ok_def font_for_def same using w by (simp add: c') (use new in auto)
  have few: "patches_ok L cm c' \<and> glyphs_ok L cm c'" if f: "few cm c'"
  proof
    have fc: "few cm c" by (rule widens_few [OF w sets' f])
    have K: "?k = K" "K < TWO32" using f k(1) unfolding few_def cardK by auto
    have inj: "glyph_url L cm a i = glyph_url L cm b j \<Longrightarrow> i \<in> members (reachable_segments cm) \<Longrightarrow> j \<in> members (reachable_segments cm) \<Longrightarrow> a = b \<and> i = j" for a b i j
      using glyph_url_inject [OF prefix, of a i b j] members_bound [of i "reachable_segments cm"] members_bound [of j "reachable_segments cm"] by auto
    have "PatchToUrl (lb_base32 L) (lb_base64 L) t (of_nat i) = Inr (glyph_url L cm ?k i)" for i
      unfolding t K by (rule glyph_url [OF prefix _ K(2)]) (simp add: K_def)
    moreover have "inj_on (glyph_url L cm ?k) (set ?I)" using inj by (auto simp: inj_on_def)
    ultimately have new': "\<forall>i \<in> members (reachable_segments cm). \<exists>gids p. Mapping.lookup (cm_glyph_data_patches cm) i = Some gids \<and>
        CreatePatch (lb_hb L) (lb_brotli L) \<lparr>gk_font = font, gk_base_compat_id = cid, gk_tags = [kGlyf, kGvar, kCFF, kCFF2]\<rparr> gids = Ok p \<and> P (glyph_url L cm K i) = Some p"
      and old: "\<And>url. url \<notin> glyph_url L cm K ` members (reachable_segments cm) \<Longrightarrow> P url = pc_patches c url"
      using P(2) K(1) by auto
    have "P (table_url L cm i) = pc_patches c (table_url L cm i)" for i
      using old [of "table_url L cm i"] table_glyph_url by (metis (no_types, lifting) image_iff)
    then show "patches_ok L cm c'" using good fc unfolding good_def patches_ok_def c' by simp
    have was: "set_ok L cm c ds' t' cid'" if "pc_patch_set_url_templates c ds' = Some t'" "pc_glyph_keyed_compat_ids c ds' = Some cid'" for ds' t' cid'
      using good fc that unfolding good_def glyphs_ok_def by blast
    show "glyphs_ok L cm c'" unfolding glyphs_ok_def
    proof (intro allI impI)
      fix ds' t' cid' assume d: "pc_patch_set_url_templates c' ds' = Some t' \<and> pc_glyph_keyed_compat_ids c' ds' = Some cid'"
      show "set_ok L cm c' ds' t' cid'"
      proof (cases "ds' = ds")
        case True
        then have "t' = UrlTemplate cm K" "cid' = cid" using d by (simp_all add: c' t K)
        moreover have "\<exists>p. pc_patches c' (glyph_url L cm K i) = Some p \<and> glyph_patch L cm c' ds cid i p" if "i \<in> members (reachable_segments cm)" for i
          using new' that font unfolding glyph_patch_def same by (auto simp: c')
        ultimately show ?thesis unfolding set_ok_def cardK using True by (intro exI [of _ K]) (simp add: K_def)
      next
        case False
        with d have "pc_patch_set_url_templates c ds' = Some t'" "pc_glyph_keyed_compat_ids c ds' = Some cid'" by (simp_all add: c')
        from was [OF this] obtain l where l: "0 < l" "l < K" "t' = UrlTemplate cm l"
          "\<forall>i \<in> members (reachable_segments cm). \<exists>p. pc_patches c (glyph_url L cm l i) = Some p \<and> glyph_patch L cm c ds' cid' i p"
          by (auto simp: set_ok_def K_def)
        have "P (glyph_url L cm l i) = pc_patches c (glyph_url L cm l i)" if "i \<in> members (reachable_segments cm)" for i
          using old [of "glyph_url L cm l i"] inj [of l i K] that l(2) by blast
        then show ?thesis unfolding set_ok_def cardK glyph_patch_def same using l by (intro exI [of _ l]) (auto simp: c' glyph_patch_def)
      qed
    qed
  qed
  have "good L cm c'" unfolding good_def
  proof (intro conjI impI)
    show "ids_ok cm c'" using good unfolding same by (simp add: good_def)
    show "cache_ok (lb_brotli L) (Some (pc_table_diff_cache c'))" using good_cache [OF good] by (simp add: c')
    show "\<forall>n r. pc_built_subsets c' n = Some r \<longrightarrow> node_ok L cm c' n r"
      using good node by (simp add: good_def c')
  qed (use sets' few in blast)+
  then show ?thesis by (rule advance_same [OF _ w]) (simp add: c')
qed

lemma EnsureGlyphKeyed_advance:
  assumes prefix: "prefix_ok L cm" and good: "good L cm c"
    and run: "EnsureGlyphKeyedPatchesPopulated L cm ds c = Some (c', Inr (t, cid))"
  shows "advance L cm m c c' \<and>
    (IsMixedMode cm \<longrightarrow> pc_patch_set_url_templates c' ds = Some t \<and> pc_glyph_keyed_compat_ids c' ds = Some cid)"
proof (cases "IsMixedMode cm")
  case False
  with run show ?thesis using advance_refl [OF good] by (simp add: EnsureGlyphKeyedPatchesPopulated_def)
next
  case True
  obtain c1 t1 cid1 allocated where a: "AllocatePatchSet L cm ds c = (c1, t1, cid1, allocated)" by (metis prod_cases4)
  show ?thesis
  proof (cases allocated)
    case False
    then have "c' = c1" "t1 = t" "cid1 = cid" using run True a by (simp_all add: EnsureGlyphKeyedPatchesPopulated_def)
    with AllocatePatchSet_old [of L cm ds c c1 t1 cid1] a False advance_refl [OF good] show ?thesis by simp
  next
    case True
    have sets: "sets_ok cm c" using good by (simp add: good_def)
    have "AllocatePatchSet L cm ds c = (c1, t1, cid1, True)" using a True by simp
    from AllocatePatchSet_new [OF this sets] obtain n where
      new: "pc_patch_set_url_templates c ds = None" "pc_glyph_keyed_compat_ids c ds = None" "t1 = UrlTemplate cm (pc_next_patch_set_id c)"
      "c1 = c\<lparr>pc_next_patch_set_id := (pc_next_patch_set_id c + 1) mod TWO32, pc_random_count := n,
        pc_patch_set_url_templates := (pc_patch_set_url_templates c)(ds \<mapsto> t1), pc_glyph_keyed_compat_ids := (pc_glyph_keyed_compat_ids c)(ds \<mapsto> cid1)\<rparr>"
      by blast
    let ?source = "if ds \<noteq> [] then Instance L cm (pc_force_long_loca_and_gvar c1) (pc_fully_expanded_subset c1) ds else Ok (pc_fully_expanded_subset c1)"
    let ?each = "\<lambda>font. st_each (add_glyph_patch L cm \<lparr>gk_font = font, gk_base_compat_id = cid1, gk_tags = [kGlyf, kGvar, kCFF, kCFF2]\<rparr> t1)
        (to_vector (reachable_segments cm))"
    have "st_bind (st_read ?source c1) (\<lambda>font ctx. st_bind (?each font ctx) (\<lambda>_ ctx. Some (ctx, Inr (t1, cid1)))) = Some (c', Inr (t, cid))"
      using run unfolding EnsureGlyphKeyedPatchesPopulated_def a prod.case Let_def by (simp only: True \<open>IsMixedMode cm\<close> not_True_eq_False if_False)
    then obtain font s where s: "st_read ?source c1 = Some (s, Inr font)"
      and rest: "st_bind (?each font s) (\<lambda>_ ctx. Some (ctx, Inr (t1, cid1))) = Some (c', Inr (t, cid))"
      unfolding st_bind_ok [of "st_read ?source c1"] by blast
    then have font: "s = c1" "?source = Ok font" by (simp_all only: st_read_ok)
    from rest obtain u where u: "?each font s = Some (c', Inr u)" and out: "t1 = t" "cid1 = cid"
      unfolding st_bind_ok [of "?each font s"] by blast
    have each: "?each font c1 = Some (c', Inr ())" using u unfolding font(1) unit_eq [of u] by assumption
    have "pc_force_long_loca_and_gvar c1 = pc_force_long_loca_and_gvar c" "pc_fully_expanded_subset c1 = pc_fully_expanded_subset c"
      unfolding new(4) by simp_all
    then have "instance_of L cm c ds = Ok font" using font(2) by (simp only: instance_of_def)
    from new_patch_set [OF prefix good new(1-4) this each] have "advance L cm m c c'" .
    moreover from add_glyph_patches [OF each] obtain P where "c' = c1\<lparr>pc_patches := P\<rparr>" by blast
    then have "pc_patch_set_url_templates c' ds = Some t1" "pc_glyph_keyed_compat_ids c' ds = Some cid1" unfolding new(4) by simp_all
    ultimately show ?thesis unfolding out by blast
  qed
qed

end
