(* ===== verification/Compiler_Nodes.thy ===== *)
theory Compiler_Nodes
  imports Compiler_Glyph_Sets
begin

text \<open>
  The compilation of a node keeps the invariant, builds every node that its jumps lead to, and leaves a
  patch for every jump from a node that it builds.
\<close>

definition compiler_ok :: "('i, 'p) library \<Rightarrow> compiler \<Rightarrow> bool" where
  "compiler_ok L cm \<longleftrightarrow> (\<forall>s \<in> set (cm_extension_subsets cm). sd_canonical s) \<and> sd_canonical (cm_init_subset cm) \<and>
     cm_next_id cm < TWO32 \<and> prefix_ok L cm"

section \<open>A jump\<close>

lemma mark_built:
  assumes ok: "compiler_ok L cm" and good: "good L cm c" and i: "map_of (id_map c) j = Some i"
    and ends: "pc_built_subsets c (jp_start j) = Some r1" "pc_built_subsets c (jp_end j) = Some r2" and p: "patch_between L cm r1 r2 p"
    and c': "c' = c\<lparr>pc_patches := (pc_patches c)(table_url L cm i \<mapsto> p), pc_built_table_keyed_patches := IntSet_insert i (pc_built_table_keyed_patches c)\<rparr>"
  shows "advance L cm m c c' \<and> (few cm c' \<longrightarrow> i \<in> members (pc_built_table_keyed_patches c'))"
proof -
  have ji: "(j, i) \<in> set (id_map c)" using i by (rule map_of_SomeD)
  have ids: "ids_ok cm c" using good by (simp add: good_def)
  have sub: "members (IntSet_insert i S) \<subseteq> insert i (members S)" "members S \<subseteq> members (IntSet_insert i S)" for S by auto
  have same: "cut_context c' = cut_context c" "instance_of L cm c' = instance_of L cm c" "id_map c' = id_map c"
    by (simp_all add: c' cut_context_def instance_of_def fun_eq_iff)
  have fewc: "few cm c' = few cm c" by (simp add: few_def c')
  have sets: "sets_ok cm c'" using good by (simp add: good_def sets_ok_def c')
  have ids': "ids_ok cm c'" using ids ji sub(1) [of "pc_built_table_keyed_patches c"] unfolding ids_ok_def c' by force
  have node: "node_ok L cm c' n r = node_ok L cm c n r" for n r unfolding node_ok_def font_for_def same by (simp add: c')
  have w: "widens c c'" unfolding widens_def same using sub(2) by (simp add: c')
  have few: "patches_ok L cm c' \<and> glyphs_ok L cm c' \<and> i \<in> members (pc_built_table_keyed_patches c')" if f: "few cm c"
  proof (intro conjI)
    have bound: "i' < TWO32" if "(j', i') \<in> set (id_map c)" for j' i' using id_bound [OF ids f that] by simp
    show "i \<in> members (pc_built_table_keyed_patches c')" using id_bound [OF ids f ji] by (simp add: c')
    have old: "patches_ok L cm c" "glyphs_ok L cm c" using good f by (simp_all add: good_def)
    show "patches_ok L cm c'" unfolding patches_ok_def
    proof (intro allI impI)
      fix j' i' assume a: "(j', i') \<in> set (id_map c') \<and> i' \<in> members (pc_built_table_keyed_patches c')"
      then have ji': "(j', i') \<in> set (id_map c)" by (simp add: same)
      show "\<exists>r1 r2 p. pc_built_subsets c' (jp_start j') = Some r1 \<and> pc_built_subsets c' (jp_end j') = Some r2 \<and>
        pc_patches c' (table_url L cm i') = Some p \<and> patch_between L cm r1 r2 p"
      proof (cases "i' = i")
        case True
        then have "j' = j" using id_inject [OF ids f] ji ji' by blast
        with True ends p show ?thesis by (auto simp: c')
      next
        case False
        then have "i' \<in> members (pc_built_table_keyed_patches c)" using a sub(1) [of "pc_built_table_keyed_patches c"] by (auto simp: c')
        moreover have "table_url L cm i' \<noteq> table_url L cm i"
          using False table_url_inject [of L cm i' i] bound [OF ji] bound [OF ji'] ok by (auto simp: compiler_ok_def)
        ultimately show ?thesis using old(1) ji' unfolding patches_ok_def by (auto simp: c')
      qed
    qed
    have "pc_patches c' (glyph_url L cm k index) = pc_patches c (glyph_url L cm k index)" for k index
      using table_glyph_url [of L cm i k index] by (auto simp: c')
    then show "glyphs_ok L cm c'" using old(2) unfolding glyphs_ok_def set_ok_def glyph_patch_def same by (simp add: c')
  qed
  have "good L cm c'" unfolding good_def fewc
  proof (intro conjI impI)
    show "cache_ok (lb_brotli L) (Some (pc_table_diff_cache c'))" using good_cache [OF good] by (simp add: c')
    show "\<forall>n r. pc_built_subsets c' n = Some r \<longrightarrow> node_ok L cm c' n r" using good unfolding node by (simp add: good_def c')
  qed (use ids' sets few in blast)+
  then show ?thesis using advance_same [OF _ w] few fewc by (simp add: c')
qed

lemma build_jump_advance:
  assumes ok: "compiler_ok L cm" and spec: "node_spec L cm m rec" and j: "sd_canonical (jp_end j)" "remaining cm (jp_end j) < m"
    and good: "good L cm c" and i: "map_of (id_map c) j = Some i" and w: "pc_built_subsets c (wk_subset w) = Some (wk_result w)"
    and run: "build_jump L cm rec (UrlTemplate cm 0) j w c = Some (c', Inr w')"
  shows "advance L cm m c c' \<and> pc_built_subsets c' (wk_subset w') = Some (wk_result w') \<and>
    (few cm c' \<longrightarrow> (\<exists>i. (j, i) \<in> set (id_map c') \<and> i \<in> members (pc_built_table_keyed_patches c')))"
proof -
  have url: "PatchToUrl (lb_base32 L) (lb_base64 L) (UrlTemplate cm 0) (of_nat k) = Inr (table_url L cm k)" for k
    using ok by (intro table_url) (simp add: compiler_ok_def)
  have start: "jp_start j = wk_subset w" using run i by (auto simp: build_jump_def split: if_splits)
  let ?replace = "\<lambda>r. IsMixedMode cm \<and> cr_glyph_keyed_url_template r \<noteq> cr_glyph_keyed_url_template (wk_result w)"
  let ?diff = "\<lambda>r. context_diff L (GetDifferFor cm (cr_table_keyed_compat_id (wk_result w)) (?replace r)) (cr_font_data (wk_result w)) (cr_font_data r)"
  have "st_bind (rec (jp_end j) c) (\<lambda>r ctx. if IntSet_contains (pc_built_table_keyed_patches ctx) i then Some (ctx, Inr (w\<lparr>wk_subset := jp_end j, wk_result := r\<rparr>))
      else st_bind (?diff r ctx) (\<lambda>patch ctx. Some (ctx\<lparr>pc_patches := (pc_patches ctx)(table_url L cm i \<mapsto> patch),
        pc_built_table_keyed_patches := IntSet_insert i (pc_built_table_keyed_patches ctx)\<rparr>, Inr (w\<lparr>wk_subset := jp_end j, wk_result := r\<rparr>)))) = Some (c', Inr w')"
    using run unfolding build_jump_def i option.case prod.case Let_def url st_read_def option.map st_bind.simps using start by simp
  then obtain c1 r where r: "rec (jp_end j) c = Some (c1, Inr r)"
    and rest: "(if IntSet_contains (pc_built_table_keyed_patches c1) i then Some (c1, Inr (w\<lparr>wk_subset := jp_end j, wk_result := r\<rparr>))
      else st_bind (?diff r c1) (\<lambda>patch ctx. Some (ctx\<lparr>pc_patches := (pc_patches ctx)(table_url L cm i \<mapsto> patch),
        pc_built_table_keyed_patches := IntSet_insert i (pc_built_table_keyed_patches ctx)\<rparr>, Inr (w\<lparr>wk_subset := jp_end j, wk_result := r\<rparr>)))) = Some (c', Inr w')"
    unfolding st_bind_ok [of "rec (jp_end j) c"] by blast
  from spec j good r have a: "advance L cm m c c1" and built: "pc_built_subsets c1 (jp_end j) = Some r"
    unfolding node_spec_def by blast+
  note good1 = advance_good [OF a]
  have i1: "map_of (id_map c1) j = Some i" by (rule widens_lookup [OF advance_widens [OF a] i])
  have w1: "pc_built_subsets c1 (jp_start j) = Some (wk_result w)"
    using advance_widens [OF a] w start unfolding widens_def map_le_def by (metis domI)
  show ?thesis
  proof (cases "IntSet_contains (pc_built_table_keyed_patches c1) i")
    case True
    then have "c' = c1" "w' = w\<lparr>wk_subset := jp_end j, wk_result := r\<rparr>" using rest by auto
    with a built True i1 show ?thesis by (auto dest: map_of_SomeD)
  next
    case False
    then obtain c2 p where d: "?diff r c1 = Some (c2, Inr p)" and out: "w' = w\<lparr>wk_subset := jp_end j, wk_result := r\<rparr>"
      and c': "c' = c2\<lparr>pc_patches := (pc_patches c2)(table_url L cm i \<mapsto> p), pc_built_table_keyed_patches := IntSet_insert i (pc_built_table_keyed_patches c2)\<rparr>"
      using rest by (auto simp: st_bind_ok)
    note diff = context_diff_ok [OF d good1]
    then have core: "same_core c1 c2" by blast
    have a2: "advance L cm m c1 c2" by (rule same_core_advance [OF core _ good1]) (use diff in blast)
    have p: "patch_between L cm (wk_result w) r p"
      unfolding patch_between_def using diff good_cache [OF good1] by blast
    have e: "map_of (id_map c2) j = Some i" "pc_built_subsets c2 (jp_start j) = Some (wk_result w)" "pc_built_subsets c2 (jp_end j) = Some r"
      using core i1 w1 built by (simp_all add: same_core_def)
    note m = mark_built [OF ok advance_good [OF a2] e p c']
    have "pc_built_subsets c' (jp_end j) = Some r" "(j, i) \<in> set (id_map c')" using e by (simp_all add: c' map_of_SomeD)
    then show ?thesis using m advance_trans [OF advance_trans [OF a a2]] by (auto simp: out)
  qed
qed

lemma has_id_widens:
  "widens c c' \<Longrightarrow> \<exists>i. (j, i) \<in> set (id_map c) \<and> i \<in> members (pc_built_table_keyed_patches c) \<Longrightarrow>
    \<exists>i. (j, i) \<in> set (id_map c') \<and> i \<in> members (pc_built_table_keyed_patches c')"
  unfolding widens_def by auto

lemma build_jumps_advance:
  assumes ok: "compiler_ok L cm" and spec: "node_spec L cm m rec"
    and js: "\<forall>j \<in> set js. sd_canonical (jp_end j) \<and> remaining cm (jp_end j) < m \<and> map_of (id_map c) j \<noteq> None"
    and "good L cm c" and "pc_built_subsets c (wk_subset w) = Some (wk_result w)"
    and "st_fold (build_jump L cm rec (UrlTemplate cm 0)) js w c = Some (c', Inr w')"
  shows "advance L cm m c c' \<and> (few cm c' \<longrightarrow> (\<forall>j \<in> set js. \<exists>i. (j, i) \<in> set (id_map c') \<and> i \<in> members (pc_built_table_keyed_patches c')))"
  using assms(3-)
proof (induction js arbitrary: c w)
  case (Cons j js)
  obtain c1 w1 where s: "build_jump L cm rec (UrlTemplate cm 0) j w c = Some (c1, Inr w1)"
    "st_fold (build_jump L cm rec (UrlTemplate cm 0)) js w1 c1 = Some (c', Inr w')" using Cons.prems(4) by (auto simp: st_bind_ok)
  obtain i where i: "map_of (id_map c) j = Some i" using Cons.prems(1) by auto
  have j: "sd_canonical (jp_end j)" "remaining cm (jp_end j) < m" using Cons.prems(1) by auto
  from build_jump_advance [OF ok spec j Cons.prems(2) i Cons.prems(3) s(1)]
  have a: "advance L cm m c c1" "pc_built_subsets c1 (wk_subset w1) = Some (wk_result w1)"
    "few cm c1 \<longrightarrow> (\<exists>i. (j, i) \<in> set (id_map c1) \<and> i \<in> members (pc_built_table_keyed_patches c1))" by blast+
  have "\<forall>j \<in> set js. sd_canonical (jp_end j) \<and> remaining cm (jp_end j) < m \<and> map_of (id_map c1) j \<noteq> None"
    using Cons.prems(1) widens_lookup [OF advance_widens [OF a(1)]] by fastforce
  from Cons.IH [OF this advance_good [OF a(1)] a(2) s(2)]
  have b: "advance L cm m c1 c'" "few cm c' \<longrightarrow> (\<forall>j \<in> set js. \<exists>i. (j, i) \<in> set (id_map c') \<and> i \<in> members (pc_built_table_keyed_patches c'))" by blast+
  have f: "few cm c' \<Longrightarrow> few cm c1" using widens_few [OF advance_widens [OF b(1)]] advance_good [OF b(1)] by (simp add: good_def)
  show ?case using advance_trans [OF a(1) b(1)] b(2) a(3) f has_id_widens [OF advance_widens [OF b(1)]] by (metis set_ConsD)
qed (simp add: advance_refl)

section \<open>All edges\<close>

lemma build_edges_advance:
  assumes ok: "compiler_ok L cm" and spec: "node_spec L cm m rec"
    and js: "\<forall>e \<in> set edges. \<forall>j \<in> set (Jumps e node (cm_use_prefetch_lists cm)). sd_canonical (jp_end j) \<and> remaining cm (jp_end j) < m"
    and ids: "\<forall>e \<in> set edges. \<forall>j \<in> set (Jumps e node (cm_use_prefetch_lists cm)). map_of (id_map c) j \<noteq> None"
    and "good L cm c" and "pc_built_subsets c node = Some r"
    and "st_each (build_edge L cm rec (UrlTemplate cm 0) node r) edges c = Some (c', Inr ())"
  shows "advance L cm m c c' \<and> (few cm c' \<longrightarrow> (\<forall>e \<in> set edges. \<forall>j \<in> set (Jumps e node (cm_use_prefetch_lists cm)).
    \<exists>i. (j, i) \<in> set (id_map c') \<and> i \<in> members (pc_built_table_keyed_patches c')))"
  using assms(3-)
proof (induction edges arbitrary: c)
  case (Cons e edges)
  let ?js = "Jumps e node (cm_use_prefetch_lists cm)" and ?w = "\<lparr>wk_subset = node, wk_result = r, wk_total = 0\<rparr>"
  obtain c1 where s: "build_edge L cm rec (UrlTemplate cm 0) node r e c = Some (c1, Inr ())"
    "st_each (build_edge L cm rec (UrlTemplate cm 0) node r) edges c1 = Some (c', Inr ())" using Cons.prems(5) by (auto simp: st_bind_ok)
  then obtain w where w: "st_fold (build_jump L cm rec (UrlTemplate cm 0)) ?js ?w c = Some (c1, Inr w)"
    by (auto simp: build_edge_def st_bind_ok)
  have "\<forall>j \<in> set ?js. sd_canonical (jp_end j) \<and> remaining cm (jp_end j) < m \<and> map_of (id_map c) j \<noteq> None" using Cons.prems(1,2) by simp
  from build_jumps_advance [OF ok spec this Cons.prems(3) _ w] Cons.prems(4) have
    a: "advance L cm m c c1" "few cm c1 \<longrightarrow> (\<forall>j \<in> set ?js. \<exists>i. (j, i) \<in> set (id_map c1) \<and> i \<in> members (pc_built_table_keyed_patches c1))" by simp_all
  have built: "pc_built_subsets c1 node = Some r"
    using advance_widens [OF a(1)] Cons.prems(4) unfolding widens_def map_le_def by (metis domI)
  have "\<forall>e \<in> set edges. \<forall>j \<in> set (Jumps e node (cm_use_prefetch_lists cm)). map_of (id_map c1) j \<noteq> None"
    using Cons.prems(2) widens_lookup [OF advance_widens [OF a(1)]] by fastforce
  from Cons.IH [OF _ this advance_good [OF a(1)] built s(2)] Cons.prems(1) have
    b: "advance L cm m c1 c'" "few cm c' \<longrightarrow> (\<forall>e \<in> set edges. \<forall>j \<in> set (Jumps e node (cm_use_prefetch_lists cm)).
      \<exists>i. (j, i) \<in> set (id_map c') \<and> i \<in> members (pc_built_table_keyed_patches c'))" by simp_all
  have f: "few cm c' \<Longrightarrow> few cm c1" using widens_few [OF advance_widens [OF b(1)]] advance_good [OF b(1)] by (simp add: good_def)
  show ?case using advance_trans [OF a(1) b(1)] b(2) a(2) f has_id_widens [OF advance_widens [OF b(1)]] by (metis set_ConsD)
qed (simp add: advance_refl)

section \<open>A node\<close>

lemma node_font_advance:
  assumes spec: "node_spec L cm m rec"
    and js: "\<forall>e \<in> set edges. \<forall>j \<in> set (Jumps e node (cm_use_prefetch_lists cm)). sd_canonical (jp_end j) \<and> remaining cm (jp_end j) < m"
    and good: "good L cm c" and run: "node_font L cm rec node is_root edges data tk_id gk_template gk_id c = Some (c', Inr font)"
  shows "advance L cm m c c' \<and> (\<forall>e \<in> set edges. \<forall>j \<in> set (Jumps e node (cm_use_prefetch_lists cm)). map_of (id_map c') j \<noteq> None) \<and>
    (\<exists>main extension new_data. it_id main = tk_id \<and> it_url_template main = UrlTemplate cm 0 \<and>
      (IsMixedMode cm \<longrightarrow> (\<exists>e. extension = Some e \<and> it_id e = gk_id \<and> it_url_template e = gk_template)) \<and>
      AddToFont (lb_hb L) (lb_conv L) (lb_fconv L) data main extension = Inr new_data \<and>
      (font = new_data \<or> RoundTripWoff2 L new_data False = Inr font))"
proof -
  let ?main = "SetUrlTemplate (UrlTemplate cm 0) (SetId tk_id IFTTable)" and ?ext = "SetUrlTemplate gk_template (SetId gk_id IFTTable)"
  obtain gm pm new_data where pm: "PopulateTableKeyedPatchMap L cm rec node data tk_id gk_template edges
        (if IsMixedMode cm then TABLE_KEYED_PARTIAL else TABLE_KEYED_FULL) (it_patch_map ?main) c = Some (c', Inr pm)"
    and add: "AddToFont (lb_hb L) (lb_conv L) (lb_fconv L) data (?main\<lparr>it_patch_map := pm\<rparr>)
        (if IsMixedMode cm then Some (?ext\<lparr>it_patch_map := gm\<rparr>) else None) = Inr new_data"
    and font: "font = new_data \<or> RoundTripWoff2 L new_data False = Inr font"
    using run unfolding node_font_def Let_def by (auto simp: st_bind_ok split: if_splits)
  from pm obtain c1 sizes conds where sizes: "EstimateEdgeSizes L cm rec node data tk_id gk_template edges c = Some (c1, Inr sizes)"
    and conds: "EdgesToActivationConditions cm node (map (\<lambda>(edge_index, _). edges ! edge_index) (sort_key snd sizes))
        (if IsMixedMode cm then TABLE_KEYED_PARTIAL else TABLE_KEYED_FULL) c1 = Some (c', Inr conds)"
    unfolding PopulateTableKeyedPatchMap_def Let_def by (auto simp: st_bind_ok)
  note est = EstimateEdgeSizes_advance [OF spec js good sizes]
  obtain x where "st_fold (edge_condition cm node (if IsMixedMode cm then TABLE_KEYED_PARTIAL else TABLE_KEYED_FULL))
      (map (\<lambda>(edge_index, _). edges ! edge_index) (sort_key snd sizes)) (\<lparr>es_index = Map.empty, es_next = 0, es_segments = Map.empty\<rparr>, []) c1 = Some (c', Inr x)"
    using conds unfolding EdgesToActivationConditions_def by (auto simp: st_bind_ok)
  from edge_conditions_advance [OF advance_good this] est have
    b: "advance L cm m c1 c'" "\<forall>e \<in> set (map (\<lambda>(edge_index, _). edges ! edge_index) (sort_key snd sizes)).
      \<forall>j \<in> set (Jumps e node (cm_use_prefetch_lists cm)). map_of (id_map c') j \<noteq> None" by blast+
  have "set (map (\<lambda>(edge_index, _). edges ! edge_index) (sort_key snd sizes)) = (\<lambda>i. edges ! i) ` set (map fst sizes)"
    by (force simp: image_iff)
  also have "set (map fst sizes) = {0..<length edges}" using est by (simp only: set_upt)
  also have "(\<lambda>i. edges ! i) ` {0..<length edges} = set edges" by (auto simp: in_set_conv_nth)
  finally have "\<forall>e \<in> set edges. \<forall>j \<in> set (Jumps e node (cm_use_prefetch_lists cm)). map_of (id_map c') j \<noteq> None" using b(2) by simp
  moreover have "\<exists>main extension new_data. it_id main = tk_id \<and> it_url_template main = UrlTemplate cm 0 \<and>
      (IsMixedMode cm \<longrightarrow> (\<exists>e. extension = Some e \<and> it_id e = gk_id \<and> it_url_template e = gk_template)) \<and>
      AddToFont (lb_hb L) (lb_conv L) (lb_fconv L) data main extension = Inr new_data \<and>
      (font = new_data \<or> RoundTripWoff2 L new_data False = Inr font)"
  proof (intro exI conjI)
    show "AddToFont (lb_hb L) (lb_conv L) (lb_fconv L) data (?main\<lparr>it_patch_map := pm\<rparr>)
        (if IsMixedMode cm then Some (?ext\<lparr>it_patch_map := gm\<rparr>) else None) = Inr new_data" by (rule add)
  qed (use font in \<open>auto simp: SetUrlTemplate_def SetId_def IFTTable_def\<close>)
  ultimately show ?thesis using advance_trans [OF _ b(1)] est by blast
qed

lemma store_good:
  assumes good: "good L cm c" and fresh: "pc_built_subsets c node = None" and ok: "node_ok L cm c node r"
  shows "good L cm (store_result node r c) \<and> widens c (store_result node r c)"
proof
  let ?c = "store_result node r c"
  have same: "cut_context ?c = cut_context c" "instance_of L cm ?c = instance_of L cm c" "id_map ?c = id_map c"
    by (simp_all add: store_result_def cut_context_def instance_of_def fun_eq_iff)
  have built: "pc_built_subsets ?c = (pc_built_subsets c)(node \<mapsto> r)" by (simp add: store_result_def)
  show "widens c ?c" unfolding widens_def same using fresh by (auto simp: store_result_def map_le_def)
  have nodes: "node_ok L cm ?c n x = node_ok L cm c n x" for n x unfolding node_ok_def font_for_def same by (simp add: store_result_def)
  have simple: "ids_ok cm ?c = ids_ok cm c" "sets_ok cm ?c = sets_ok cm c" "few cm ?c = few cm c"
    by (simp_all add: ids_ok_def sets_ok_def few_def store_result_def)
  have glyphs: "glyphs_ok L cm ?c = glyphs_ok L cm c"
    unfolding glyphs_ok_def set_ok_def glyph_patch_def same by (simp add: store_result_def)
  have patches: "patches_ok L cm ?c" if "patches_ok L cm c"
  proof -
    have ne: "pc_built_subsets c n = Some x \<Longrightarrow> n \<noteq> node" for n x using fresh by auto
    have "pc_patches ?c = pc_patches c" "pc_built_table_keyed_patches ?c = pc_built_table_keyed_patches c" by (simp_all add: store_result_def)
    then show ?thesis using that ne unfolding patches_ok_def same built by (metis fun_upd_apply)
  qed
  show "good L cm ?c" using good patches ok unfolding good_def nodes simple glyphs by (auto simp: built) (simp_all add: store_result_def)
qed

lemma CompileStep_advance:
  assumes ok: "compiler_ok L cm" and spec: "node_spec L cm (remaining cm node) rec" and node: "sd_canonical node" and good: "good L cm c"
    and run: "CompileStep L cm rec node is_root c = Some (c', Inr r)"
  shows "advance L cm (Suc (remaining cm node)) c c' \<and> pc_built_subsets c' node = Some r"
proof (cases "pc_built_subsets c node")
  case (Some x)
  with run advance_refl [OF good] show ?thesis by (simp add: CompileStep_def)
next
  case None
  let ?m = "remaining cm node" and ?ext = "cm_extension_subsets cm"
  obtain c0 tk_id where gen: "GenerateCompatId L c = (c0, tk_id)" by fastforce
  have a0: "advance L cm ?m c c0"
    by (rule same_core_advance) (use gen good good_cache [OF good] in \<open>auto simp: GenerateCompatId_def Let_def same_core_def\<close>)
  obtain c1 gk_template gk_id edges data where
    gk: "EnsureGlyphKeyedPatchesPopulated L cm (sd_design_space node) c0 = Some (c1, Inr (gk_template, gk_id))"
    and edges: "OutgoingEdges ?ext node (cm_jump_ahead cm) = Some edges"
    and data: "CutSubset L cm (cut_context c1) (pc_fully_expanded_subset c1) node (IsMixedMode cm) = Ok data"
    and rest: "(if edges = [] \<and> \<not> IsMixedMode cm
        then let result = \<lparr>cr_font_data = data, cr_table_keyed_compat_id = CompatId 0 0 0 0, cr_glyph_keyed_compat_id = CompatId 0 0 0 0,
                   cr_glyph_keyed_url_template = []\<rparr>
             in Some (store_result node result c1, Inr result)
        else st_bind (node_font L cm rec node is_root edges data tk_id gk_template gk_id c1)
          (\<lambda>node_data ctx.
             let result = \<lparr>cr_font_data = node_data, cr_table_keyed_compat_id = tk_id,
                   cr_glyph_keyed_compat_id = gk_id, cr_glyph_keyed_url_template = gk_template\<rparr>
             in st_bind (st_each (build_edge L cm rec (UrlTemplate cm 0) node result) edges (store_result node result ctx))
                  (\<lambda>_ ctx. Some (ctx, Inr result)))) = Some (c', Inr r)"
    using run unfolding CompileStep_def None option.case gen prod.case by (auto simp: st_bind_ok split: option.splits)
  have "prefix_ok L cm" using ok by (simp add: compiler_ok_def)
  from EnsureGlyphKeyed_advance [OF this advance_good [OF a0] gk, of ?m]
  have a1: "advance L cm ?m c c1" and templates: "IsMixedMode cm \<longrightarrow> pc_patch_set_url_templates c1 (sd_design_space node) = Some gk_template \<and>
      pc_glyph_keyed_compat_ids c1 (sd_design_space node) = Some gk_id" using advance_trans [OF a0] by blast+
  have fresh: "pc_built_subsets d node = None" if "advance L cm ?m c d" for d
    using that None unfolding advance_def by blast
  text \<open>The rest, from the context in which the result is stored on.\<close>
  have finish: "advance L cm (Suc ?m) c d' \<and> pc_built_subsets d' node = Some x"
    if a: "advance L cm ?m c d" and node_ok: "node_ok L cm d node x" and b: "advance L cm ?m (store_result node x d) d'"
      and made: "few cm d' \<longrightarrow> has_patches cm d' node" for d d' x
  proof -
    note st = store_good [OF advance_good [OF a] fresh [OF a] node_ok]
    have stored: "pc_built_subsets (store_result node x d) = (pc_built_subsets d)(node \<mapsto> x)" by (simp add: store_result_def)
    have w: "widens c d'" using advance_widens [OF a] st advance_widens [OF b] widens_trans by blast
    have built: "pc_built_subsets d' node = Some x"
      using advance_widens [OF b] unfolding widens_def map_le_def stored by (metis domI fun_upd_same)
    have f: "few cm d' \<Longrightarrow> few cm d"
      using widens_few [of d d'] st advance_widens [OF b] widens_trans advance_good [OF b] unfolding good_def by blast
    have "remaining cm n < Suc ?m \<and> sd_canonical n \<and> (few cm d' \<longrightarrow> has_patches cm d' n)"
      if n: "pc_built_subsets c n = None" "pc_built_subsets d' n \<noteq> None" for n
    proof (cases "n = node")
      case True
      with node made show ?thesis by simp
    next
      case False
      show ?thesis
      proof (cases "pc_built_subsets d n")
        case None
        then have "pc_built_subsets (store_result node x d) n = None" using False by (simp add: stored)
        with n(2) b show ?thesis unfolding advance_def by (meson less_SucI)
      next
        case (Some y)
        then have "remaining cm n < ?m \<and> sd_canonical n \<and> (few cm d \<longrightarrow> has_patches cm d n)" using a n(1) unfolding advance_def by blast
        moreover have "widens d d'" using st advance_widens [OF b] widens_trans by blast
        ultimately show ?thesis using f widens_has_patches by (meson less_SucI)
      qed
    qed
    with w built advance_good [OF b] show ?thesis unfolding advance_def by blast
  qed
  have js: "\<forall>e \<in> set edges. \<forall>j \<in> set (Jumps e node (cm_use_prefetch_lists cm)). sd_canonical (jp_end j) \<and> remaining cm (jp_end j) < ?m"
    using Jumps_spec(3) [OF _ node edges] ok unfolding compiler_ok_def by blast
  show ?thesis
  proof (cases "edges = [] \<and> \<not> IsMixedMode cm")
    case True
    define x where "x = \<lparr>cr_font_data = data, cr_table_keyed_compat_id = CompatId 0 0 0 0, cr_glyph_keyed_compat_id = CompatId 0 0 0 0,
      cr_glyph_keyed_url_template = []\<rparr>"
    have out: "c' = store_result node x c1" "r = x" using rest True by (auto simp: x_def Let_def)
    have nok: "node_ok L cm c1 node x" using data edges True by (auto simp: node_ok_def font_for_def x_def)
    have "good L cm c'" using store_good [OF advance_good [OF a1] fresh [OF a1] nok] out by simp
    moreover have "has_patches cm c' node" using edges True by (simp add: has_patches_def)
    moreover have "advance L cm ?m (store_result node x c1) c'" using calculation(1) advance_refl out(1) by simp
    ultimately show ?thesis using finish [OF a1 nok, of c'] out(2) by simp
  next
    case False
    obtain c2 font where font: "node_font L cm rec node is_root edges data tk_id gk_template gk_id c1 = Some (c2, Inr font)"
      and each: "st_each (build_edge L cm rec (UrlTemplate cm 0) node r) edges (store_result node r c2) = Some (c', Inr ())"
      and r: "r = \<lparr>cr_font_data = font, cr_table_keyed_compat_id = tk_id, cr_glyph_keyed_compat_id = gk_id, cr_glyph_keyed_url_template = gk_template\<rparr>"
      using rest unfolding if_not_P [OF False] Let_def by (auto simp: st_bind_ok)
    note nf = node_font_advance [OF spec js advance_good [OF a1] font]
    have a2: "advance L cm ?m c c2" using nf advance_trans [OF a1] by blast
    have w: "widens c1 c2" using nf advance_widens by blast
    have same: "pc_fully_expanded_subset c2 = pc_fully_expanded_subset c1" "cut_context c2 = cut_context c1" using w by (simp_all add: widens_def)
    have "font_for L cm c2 node r" unfolding font_for_def same r using data nf by auto
    moreover have "IsMixedMode cm \<longrightarrow> pc_patch_set_url_templates c2 (sd_design_space node) = Some gk_template \<and>
        pc_glyph_keyed_compat_ids c2 (sd_design_space node) = Some gk_id"
      using templates w unfolding widens_def map_le_def by (metis domI)
    ultimately have nok: "node_ok L cm c2 node r" by (simp add: node_ok_def r)
    note st = store_good [OF advance_good [OF a2] fresh [OF a2] nok]
    have ids: "\<forall>e \<in> set edges. \<forall>j \<in> set (Jumps e node (cm_use_prefetch_lists cm)). map_of (id_map (store_result node r c2)) j \<noteq> None"
      using nf by (simp add: store_result_def)
    have stored: "pc_built_subsets (store_result node r c2) node = Some r" by (simp add: store_result_def)
    note be = build_edges_advance [OF ok spec js ids _ stored each]
    have "few cm c' \<longrightarrow> has_patches cm c' node" using be st edges unfolding has_patches_def by auto
    then show ?thesis using finish [OF a2 nok, of c'] be st by blast
  qed
qed

section \<open>All depths\<close>

lemma CompileNode_spec:
  assumes "compiler_ok L cm"
  shows "node_spec L cm m (\<lambda>node. CompileNode L cm (\<lambda>_ _ _. None) depth node is_root)"
proof (induction depth arbitrary: m is_root)
  case (Suc depth)
  show ?case unfolding node_spec_def
  proof (intro allI impI)
    fix d c c' r assume d: "sd_canonical d" "remaining cm d < m" "good L cm c" "CompileNode L cm (\<lambda>_ _ _. None) (Suc depth) d is_root c = Some (c', Inr r)"
    from CompileStep_advance [OF assms Suc.IH d(1,3)] d(4) have "advance L cm (Suc (remaining cm d)) c c' \<and> pc_built_subsets c' d = Some r" by simp
    with d(2) advance_mono show "advance L cm m c c' \<and> pc_built_subsets c' d = Some r" by (meson Suc_leI)
  qed
qed (simp add: node_spec_def)

lemma initial_good:
  assumes "compiler_ok L cm" and "expanded_context L cm face = Ok c"
  shows "good L cm c \<and> pc_built_subsets c = Map.empty \<and> sd_canonical (pc_init_subset c)"
proof
  obtain full long where c: "c = (initial_context L cm face)\<lparr>pc_fully_expanded_subset := full, pc_force_long_loca_and_gvar := long\<rparr>"
    using assms(2) by (auto simp: expanded_context_def Let_def OTRY_eq_Ok)
  have "members (pc_built_table_keyed_patches c) = {}" by (simp add: c initial_context_def ProcessingContext_def Let_def)
  then show "good L cm c"
    using assms(1) by (simp add: compiler_ok_def good_def ids_ok_def sets_ok_def patches_ok_def glyphs_ok_def cache_ok_def c initial_context_def ProcessingContext_def Let_def)
  have "sd_canonical (cm_init_subset cm)" using assms(1) by (simp add: compiler_ok_def)
  then have "sd_canonical (AddInitSubsetDefaults (cm_init_subset cm))"
    by (simp add: sd_canonical_def AddInitSubsetDefaults_def sorted_fold_ins_sorted)
  then show "pc_built_subsets c = Map.empty \<and> sd_canonical (pc_init_subset c)"
    by (simp add: c initial_context_def ProcessingContext_def Let_def sd_canonical_def)
qed


section \<open>Nodes that are reached\<close>

text \<open>
  What is left in the processing context when the compilation of the root returns: every node that a client can
  reach is built, and every jump from it has its patch.
\<close>

inductive reaches :: "compiler \<Rightarrow> subset_definition \<Rightarrow> subset_definition \<Rightarrow> bool" for cm origin where
  start: "reaches cm origin origin"
| jump: "reaches cm origin node \<Longrightarrow> OutgoingEdges (cm_extension_subsets cm) node (cm_jump_ahead cm) = Some edges \<Longrightarrow> e \<in> set edges \<Longrightarrow>
    j \<in> set (Jumps e node (cm_use_prefetch_lists cm)) \<Longrightarrow> reaches cm origin (jp_end j)"

definition jump_from :: "compiler \<Rightarrow> subset_definition \<Rightarrow> jump \<Rightarrow> bool" where
  "jump_from cm node j \<longleftrightarrow> (\<exists>edges e. OutgoingEdges (cm_extension_subsets cm) node (cm_jump_ahead cm) = Some edges \<and> e \<in> set edges \<and>
     j \<in> set (Jumps e node (cm_use_prefetch_lists cm)))"

text \<open>Fonts and patches within the limits of the format.\<close>

definition within_limits :: "('i, 'p) library \<Rightarrow> processing_context \<Rightarrow> bool" where
  "within_limits L c \<longleftrightarrow> (\<forall>node r. pc_built_subsets c node = Some r \<longrightarrow>
     (\<forall>(t, b) \<in> set (hb_tables (lb_hb L) (cr_font_data r)). t < TWO32 \<and> length b < TWO32)) \<and>
     (\<forall>p \<in> ran (pc_patches c). length p < TWO32)"

lemma compiled_context:
  assumes ok: "compiler_ok L cm" and c0: "expanded_context L cm face = Ok c0"
    and run: "CompileNode L cm (\<lambda>_ _ _. None) depth (pc_init_subset c0) True c0 = Some (c, Inr r)"
  shows "advance L cm (Suc (remaining cm (pc_init_subset c0))) c0 c \<and> pc_built_subsets c (pc_init_subset c0) = Some r \<and>
    (few cm c \<longrightarrow> (\<forall>node. pc_built_subsets c node \<noteq> None \<longrightarrow> sd_canonical node \<and> has_patches cm c node))"
proof -
  note init = initial_good [OF ok c0]
  have "node_spec L cm (Suc (remaining cm (pc_init_subset c0))) (\<lambda>node. CompileNode L cm (\<lambda>_ _ _. None) depth node True)"
    by (rule CompileNode_spec [OF ok])
  then have a: "advance L cm (Suc (remaining cm (pc_init_subset c0))) c0 c \<and> pc_built_subsets c (pc_init_subset c0) = Some r"
    using init run unfolding node_spec_def by blast
  then show ?thesis using init unfolding advance_def by simp
qed

lemma jump_patch:
  assumes good: "good L cm c" and few: "few cm c" and p: "has_patches cm c node" and j: "jump_from cm node j"
  shows "\<exists>i r1 r2 p. map_of (id_map c) j = Some i \<and> pc_built_subsets c (jp_start j) = Some r1 \<and> pc_built_subsets c (jp_end j) = Some r2 \<and>
    pc_patches c (table_url L cm i) = Some p \<and> patch_between L cm r1 r2 p"
proof -
  obtain i where i: "(j, i) \<in> set (id_map c)" "i \<in> members (pc_built_table_keyed_patches c)"
    using p j unfolding has_patches_def jump_from_def by blast
  have "ids_ok cm c" "patches_ok L cm c" using good few by (simp_all add: good_def)
  then show ?thesis using i unfolding patches_ok_def ids_ok_def by (metis map_of_eq_Some_iff)
qed

lemma reaches_built:
  assumes "reaches cm origin node" and "pc_built_subsets c origin \<noteq> None" and "good L cm c" and "few cm c"
    and "\<forall>node. pc_built_subsets c node \<noteq> None \<longrightarrow> has_patches cm c node"
  shows "pc_built_subsets c node \<noteq> None"
  using assms(1)
proof induction
  case (jump node edges e j)
  then have "jump_from cm node j" by (auto simp: jump_from_def)
  from jump_patch [OF assms(3,4) _ this] assms(5) jump.IH show ?case by auto
qed (use assms(2) in simp)

lemma patch_between_applies:
  assumes decode: "\<And>b D p. lb_brotli L b D = Inr p \<Longrightarrow> decode b p (length D) = Some D"
    and p: "patch_between L cm r1 r2 p" and limits: "within_limits L c"
    and built: "pc_built_subsets c n1 = Some r1" "pc_built_subsets c n2 = Some r2" and here: "p \<in> ran (pc_patches c)"
  shows "\<exists>ps. parse_patch p = Inr (int (HB_TAG ''iftk''), CompatId_values (cr_table_keyed_compat_id r1), ps) \<and>
    apply_table_patches decode (tables_of (lb_hb L) (cr_font_data r1)) ps (tables_of (lb_hb L) (cr_font_data r1)) =
      Some (tables_after (GetDifferFor cm (cr_table_keyed_compat_id r1) (IsMixedMode cm \<and> cr_glyph_keyed_url_template r2 \<noteq> cr_glyph_keyed_url_template r1))
        (tables_of (lb_hb L) (cr_font_data r1)) (tables_of (lb_hb L) (cr_font_data r2)))"
proof -
  let ?d = "GetDifferFor cm (cr_table_keyed_compat_id r1) (IsMixedMode cm \<and> cr_glyph_keyed_url_template r2 \<noteq> cr_glyph_keyed_url_template r1)"
  obtain cache cache' where ok: "cache_ok (lb_brotli L) cache"
    and run: "TK_Diff (lb_hb L) (lb_brotli L) ?d cache (cr_font_data r1) (cr_font_data r2) = Inr (cache', p)"
    using p unfolding patch_between_def by blast
  have small: "length p < TWO32" "\<forall>t \<in> GetTags (lb_hb L) (cr_font_data r1) \<union> GetTags (lb_hb L) (cr_font_data r2). t < TWO32"
    "\<forall>t b. tables_of (lb_hb L) (cr_font_data r2) t = Some b \<longrightarrow> length b < TWO32"
    using limits built here unfolding within_limits_def GetTags_def by (fastforce dest: map_of_SomeD)+
  have "tk_base_compat_id ?d = cr_table_keyed_compat_id r1"
    by (simp add: GetDifferFor_def GetTableKeyedDifferFor_def TableKeyedDiff_def)
  with Diff_applies [OF decode ok run small] show ?thesis by simp
qed

section \<open>Glyph keyed patches of a node\<close>

lemma node_glyph_patches:
  assumes ok: "compiler_ok L cm" and good: "good L cm c" and few: "few cm c" and mixed: "IsMixedMode cm"
    and built: "pc_built_subsets c node = Some r" and index: "index \<in> members (reachable_segments cm)"
  shows "\<exists>url p. PatchToUrl (lb_base32 L) (lb_base64 L) (cr_glyph_keyed_url_template r) (of_nat index) = Inr url \<and> pc_patches c url = Some p \<and>
    glyph_patch L cm c (sd_design_space node) (cr_glyph_keyed_compat_id r) index p"
proof -
  have "node_ok L cm c node r" using good built by (simp add: good_def)
  then have "pc_patch_set_url_templates c (sd_design_space node) = Some (cr_glyph_keyed_url_template r)"
    "pc_glyph_keyed_compat_ids c (sd_design_space node) = Some (cr_glyph_keyed_compat_id r)" using mixed by (simp_all add: node_ok_def)
  moreover have "glyphs_ok L cm c" using good few by (simp add: good_def)
  ultimately have "set_ok L cm c (sd_design_space node) (cr_glyph_keyed_url_template r) (cr_glyph_keyed_compat_id r)"
    unfolding glyphs_ok_def by blast
  then obtain k where k: "0 < k" "k \<le> card (dom (pc_patch_set_url_templates c))" "cr_glyph_keyed_url_template r = UrlTemplate cm k"
    "\<exists>p. pc_patches c (glyph_url L cm k index) = Some p \<and> glyph_patch L cm c (sd_design_space node) (cr_glyph_keyed_compat_id r) index p"
    using index unfolding set_ok_def by blast
  have "k < TWO32" using k(2) few by (simp add: few_def)
  then have "PatchToUrl (lb_base32 L) (lb_base64 L) (UrlTemplate cm k) (of_nat index) = Inr (glyph_url L cm k index)"
    using ok k(1) by (intro glyph_url) (simp_all add: compiler_ok_def)
  with k(3,4) show ?thesis by auto
qed

end
