(* ===== verification/Compiler_Example.thy ===== *)
theory Compiler_Example
  imports Compiler_Nodes Patch_Properties
begin

text \<open>A font that is compiled with one extension subset, over the font format of the examples.\<close>

definition example_feature :: subset_definition where
  "example_feature = (SubsetDefinition [])\<lparr>sd_feature_tags := [1]\<rparr>"

definition feature_condition :: activation_condition where
  "feature_condition = and_segments (IntSet [0]) 0"

definition feature_node :: entry_node where
  "feature_node = EntryNode\<lparr>nd_features := [1]\<rparr>"

definition feature_graph :: entry_graph where
  "feature_graph = \<lparr>eg_patch_mappings = [(Normalize feature_condition, [0])], eg_patch_encodings = [Normalize feature_condition \<mapsto> TABLE_KEYED_FULL],
     eg_nodes = [feature_node], eg_edge_count = [1], eg_condition_node = [Normalize feature_condition \<mapsto> 0], eg_codepoints_node = Map.empty,
     eg_features_node = [[1] \<mapsto> 0], eg_design_space_node = Map.empty\<rparr>"

lemma feature_condition_unitary:
  "IsUnitary (Normalize feature_condition)" "unitary_segment [0 \<mapsto> example_feature] (Normalize feature_condition) = Some example_feature"
proof -
  have c: "ac_conditions (Normalize feature_condition) = [IntSet [0]]"
    by (simp add: feature_condition_def and_segments_def Simplify_def ActivationCondition_def ift_eval)
  have v: "to_vector (IntSet [0]) = [0]" by (simp add: ift_eval)
  show "IsUnitary (Normalize feature_condition)" by (simp only: IsUnitary_def c) (simp add: IntSet_size_def v)
  have "to_vector (TriggeringSegments (Normalize feature_condition)) = [0]"
    unfolding TriggeringSegments_def c by (simp add: ift_eval)
  then show "unitary_segment [0 \<mapsto> example_feature] (Normalize feature_condition) = Some example_feature"
    by (simp add: unitary_segment_def)
qed

lemma feature_graph_created:
  assumes "c = feature_condition\<lparr>ac_encoding := TABLE_KEYED_FULL\<rparr>"
  shows "EntryGraph_Create [c] [0 \<mapsto> example_feature] = Ok feature_graph"
proof -
  have N: "Normalize c = Normalize feature_condition" by (simp add: assms Normalize_def)
  have f: "AddUnitary example_feature 0 EntryGraph = Some (AddFeaturesOnly [1] 0 EntryGraph)"
    by (simp add: AddUnitary_def example_feature_def SubsetDefinition_def Let_def ift_eval)
  have a: "AC_activated c # AC_prefetches c = [0]"
    by (simp add: assms feature_condition_def and_segments_def AC_activated_def AC_prefetches_def)
  define g1 where "g1 = EntryGraph\<lparr>eg_nodes := [feature_node], eg_edge_count := [1], eg_features_node := [[1] \<mapsto> 0]\<rparr>"
  have g1: "AddFeaturesOnly [1] 0 EntryGraph = Ok (0, g1)"
    by (simp add: AddFeaturesOnly_def CreateNode_def EntryGraph_def add_edge_def upd_node_def g1_def feature_node_def EntryNode_def Let_def)
  have "eg_condition_node EntryGraph (Normalize feature_condition) = None" by (simp add: EntryGraph_def)
  then have m: "AddMapping c [0 \<mapsto> example_feature] 0 True EntryGraph = Ok (0, set_condition_node (Normalize feature_condition) 0 g1)"
    unfolding AddMapping.simps Let_def N by (simp add: feature_condition_unitary f [unfolded g1])
  have r: "RecordPatches c (set_condition_node (Normalize feature_condition) 0 g1) = Ok feature_graph"
    unfolding RecordPatches_def N a Let_def by (simp add: g1_def set_condition_node_def EntryGraph_def feature_graph_def) (simp add: assms)
  show ?thesis unfolding EntryGraph_Create_def Create_loop.simps m by (simp add: r)
qed


lemma feature_graph_sorted: "TopologicalSort feature_graph = Ok [0]"
proof -
  have "Kahn [feature_node] [0] [0] [] = Ok [0]"
    by (subst Kahn.simps) (simp add: queue_top_def feature_node_def EntryNode_def Kahn.simps ift_eval)
  then show ?thesis by (simp add: TopologicalSort_def feature_graph_def)
qed

lemma feature_graph_optimized:
  assumes "cost_of feature_node = Ok k"
  shows "Optimize cost_of feature_graph = Ok feature_graph"
proof -
  have f: "graph_fuel feature_graph = Suc (graph_fuel feature_graph - 1)" by (simp add: graph_fuel_def)
  have s: "GetDisjunctiveSummary (graph_fuel feature_graph) (eg_nodes feature_graph) 0 \<noteq> None"
    by (subst f) (simp add: feature_graph_def feature_node_def EntryNode_def Let_def ift_eval)
  have "CalculateSubsumptionCostDelta cost_of feature_graph 0 = Ok (SubsumptionResult 0)"
    using s assms by (auto simp: CalculateSubsumptionCostDelta_def CalculateDisjunctiveSubsumption_def feature_graph_def feature_node_def EntryNode_def Let_def ift_eval)
  then have "OptimizePass cost_of feature_graph = Ok (feature_graph, False)"
    by (simp add: OptimizePass_def feature_graph_sorted OptimizeNode_def SubsumptionResult_def)
  then show ?thesis by (simp add: Optimize.simps)
qed

definition feature_entry :: entry where
  "feature_entry = \<lparr>en_coverage = (Coverage IntSet_empty)\<lparr>cov_features := [1]\<rparr>, en_patch_indices = [0], en_encoding = TABLE_KEYED_FULL, en_ignored = False\<rparr>"

lemma feature_graph_entries: "ToPatchMapEntries TABLE_KEYED_FULL feature_graph = Ok [feature_entry]"
proof -
  have "IntSet_contains (ReachableNodes feature_graph) 0" by (simp add: ReachableNodes_def feature_graph_def)
  then show ?thesis
    by (simp add: ToPatchMapEntries_def feature_graph_sorted Let_def)
      (simp add: feature_graph_def map_patches_def node_entry_def feature_node_def EntryNode_def plain_entry_def Coverage_def feature_entry_def ift_eval)
qed


section \<open>Libraries\<close>

text \<open>Base 32 in two letters per byte; a subset has one table with the number of its features.\<close>

definition letters :: "byte \<Rightarrow> bytes" where
  "letters b = [of_nat (65 + unat b div 16), of_nat (65 + unat b mod 16)]"

definition two_letters :: "bytes \<Rightarrow> bytes" where
  "two_letters bs = concat (map letters bs)"

lemma letter_values: "\<exists>x y. letters b = [x, y] \<and> unat x = 65 + unat b div 16 \<and> unat y = 65 + unat b mod 16"
proof -
  have "unat b < 256" using unsigned_less [of b] by simp
  then have "unat b div 16 < 16" by (simp add: less_mult_imp_div_less)
  then show ?thesis by (simp add: letters_def unat_of_nat del: of_nat_add)
qed

lemma letters_inject: "letters a = letters b \<Longrightarrow> a = b"
proof -
  assume "letters a = letters b"
  then have "unat a div 16 = unat b div 16" "unat a mod 16 = unat b mod 16"
    using letter_values [of a] letter_values [of b] by auto
  then have "unat a = unat b" by (metis div_mult_mod_eq)
  then show ?thesis by (simp add: word_unat_eq_iff)
qed

lemma two_letters_inject: "two_letters a = two_letters b \<Longrightarrow> a = b"
proof (induction a arbitrary: b)
  case Nil
  then show ?case by (cases b) (simp_all add: two_letters_def letters_def)
next
  case (Cons x a)
  then obtain y b' where b: "b = y # b'" by (cases b) (simp_all add: two_letters_def letters_def)
  have "letters x @ two_letters a = letters y @ two_letters b'" using Cons.prems by (simp add: b two_letters_def)
  then have "letters x = letters y \<and> two_letters a = two_letters b'" by (simp add: letters_def)
  then show ?case using Cons.IH letters_inject b by blast
qed

lemma two_letters_large: "x \<in> set (two_letters a) \<Longrightarrow> 65 \<le> unat x"
proof -
  assume "x \<in> set (two_letters a)"
  then obtain b where "x \<in> set (letters b)" by (auto simp: two_letters_def)
  with letter_values [of b] show ?thesis by auto
qed

lemma two_letters_ok: "base32_ok two_letters"
proof -
  have ne: "61 \<notin> set (two_letters a)" for a using two_letters_large [of _ a] by force
  have "61 \<notin> set xs \<Longrightarrow> dropWhile (\<lambda>ch. ch = 61) xs = xs" for xs :: bytes by (cases xs) auto
  then have "strip_padding (two_letters a) = two_letters a" for a using ne [of a] by (simp add: strip_padding_def)
  then show ?thesis using two_letters_inject by (simp add: base32_ok_def inj_def)
qed

definition feature_input :: "hb_tag list subset_input_ops" where
  "feature_input = \<lparr>hb_union_unicodes = (\<lambda>_ i. i), hb_clear_features = (\<lambda>_. []), hb_add_feature = (#),
     hb_set_axis_range = (\<lambda>_ _ _ i. i), hb_union_glyphs = (\<lambda>_ i. i)\<rparr>"

definition feature_tables :: "nat \<Rightarrow> (hb_tag \<times> bytes) list" where
  "feature_tables n = [(5, [of_nat n]), (kHead, replicate 52 0)]"

definition feature_library :: "(hb_tag list, hb_tag list) library" where
  "feature_library = \<lparr>lb_hb = pack_harfbuzz, lb_input = feature_input, lb_create_input = Some [], lb_keep_everything = (\<lambda>i. i),
     lb_add_flags = (\<lambda>_ i. i), lb_plan = (\<lambda>_ i. Some i), lb_execute = (\<lambda>p. Some (feature_tables (length p))), lb_old_gids = (\<lambda>_. []),
     lb_subset = (\<lambda>face _. Some face), lb_blob = pack, lb_brotli = copy_diff, lb_encode_woff2 = (\<lambda>b _. Inr b), lb_decode_woff2 = Inr,
     lb_base32 = two_letters, lb_base64 = (\<lambda>b. b), lb_conv = (\<lambda>n. n), lb_fconv = id, lb_random = of_nat\<rparr>"

definition feature_font :: "nat \<Rightarrow> bytes" where
  "feature_font n = pack (feature_tables n)"

lemma feature_font_tables: "hb_tables pack_harfbuzz (feature_font n) = feature_tables n"
  unfolding feature_font_def by (rule pack_tables)

lemma ConfigureInput_features: "length (ConfigureInput feature_input d input) = length (sd_feature_tags d)"
proof -
  have "length (fold (#) xs ys) = length xs + length ys" for xs ys :: "hb_tag list" by (induction xs arbitrary: ys) simp_all
  moreover have "fold (\<lambda>(tag, rng) i. i) ds i = i" for ds :: design_space and i :: "hb_tag list" by (induction ds) auto
  ultimately show ?thesis by (simp add: ConfigureInput_def feature_input_def Let_def case_prod_unfold)
qed

lemma CutSubset_features:
  assumes "\<not> IsMixedMode cm"
  shows "CutSubset feature_library cm ctx face d False = Ok (feature_font (length (sd_feature_tags d)))"
  using assms by (simp add: CutSubset_def CutSubsetFaceBuilder_def CreateSubsetPlan_def SetMixedModeSubsettingFlagsIfNeeded_def
      feature_library_def ConfigureInput_features feature_font_def)

section \<open>Diffs of the fonts\<close>

lemma kHead_value: "kHead = 1751474532" "kIFT = 1229345824" "kIFTX = 1229345880"
  by (simp_all add: kHead_def kIFT_def kIFTX_def HB_TAG_def)

lemma cached_copy:
  assumes "cache_ok copy_diff (Some c)"
  shows "\<exists>c'. cached_diff copy_diff b d (Some c) = Inr (Some c', d)"
  using assms by (auto simp: cached_diff_def cache_ok_def copy_diff_def split: option.splits)

lemma feature_diff:
  assumes cache: "cache_ok copy_diff (Some c)" and n: "(of_nat n :: byte) \<noteq> of_nat m"
    and base: "hb_tables pack_harfbuzz base = feature_tables n @ extra" "extra = [] \<or> extra = [(kIFT, bs)]"
    and differ: "d = TableKeyedDiff k [] [] \<or> d = TableKeyedDiff k [kIFT, kIFTX] []"
  shows "\<exists>c' p. TK_Diff pack_harfbuzz copy_diff d (Some c) base (feature_font m) = Inr (Some c', p) \<and> length p < 200"
proof -
  obtain c' where c': "cached_diff copy_diff [of_nat n] [of_nat m] (Some c) = Inr (Some c', [of_nat m])" using cached_copy [OF cache] by blast
  have ne: "(of_nat m :: byte) \<noteq> of_nat n" using n by metis
  have len: "length (CompatId_WriteTo k out) = length out + 16" for out by (cases k) (simp add: u32.write_length)
  show ?thesis using base(2) differ n ne unfolding TK_Diff_def base(1) feature_font_tables
    by (auto simp: feature_tables_def TagsToDiff_def AddAllMatching_def TableKeyedDiff_def List.member_iff kHead_value
        diff_table_def Let_def GetTags_def TableData_def base(1) feature_font_tables c' write_patch_def write_table_patch_def patch_size_def
        List.insert_def WRITE_UINT8_def WRITE_UINT16_def WillIntOverflow_def to_unsigned_def u32.write_length u16.write_length u8.write_length len)
qed


section \<open>The run\<close>

text \<open>The run of the compiler on the example: the root, one jump, and the node that it leads to.\<close>

definition feature_compiler :: compiler where
  "feature_compiler = AddFeatureGroupSegment [1] (SetFace [] Compiler)"

definition feature_origin :: subset_definition where
  "feature_origin = AddInitSubsetDefaults (SubsetDefinition [])"

abbreviation feature_edge :: edge where "feature_edge \<equiv> Edge [example_feature]"

definition feature_end :: subset_definition where
  "feature_end = SD_Union feature_origin (ed_combined feature_edge)"

lemma feature_compiler_fields:
  "\<not> IsMixedMode feature_compiler" "cm_extension_subsets feature_compiler = [example_feature]" "cm_jump_ahead feature_compiler = 1"
  "cm_use_prefetch_lists feature_compiler = False" "cm_next_id feature_compiler = 0" "cm_init_subset feature_compiler = SubsetDefinition []"
  "cm_override_url_template_prefix feature_compiler = []" "cm_glyph_data_patches feature_compiler = Mapping.empty"
  by (simp_all add: feature_compiler_def AddFeatureGroupSegment_def AddNonGlyphDataSegment_def SetFace_def Compiler_def IsMixedMode_def
      example_feature_def)

lemma example_feature_canonical [simp]: "sd_canonical example_feature"
  by (simp add: sd_canonical_def example_feature_def SubsetDefinition_def ds_wf_def ds_sorted_def)

lemma feature_origin_canonical [simp]: "sd_canonical feature_origin"
proof -
  have "sd_canonical (SubsetDefinition [])" by simp
  then show ?thesis unfolding feature_origin_def by (simp add: sd_canonical_def AddInitSubsetDefaults_def sorted_fold_ins_sorted)
qed

lemma feature_compiler_ok: "compiler_ok feature_library feature_compiler"
proof -
  have "prefix_ok feature_library feature_compiler"
    by (rule prefix_ok_default) (simp_all add: feature_compiler_fields feature_library_def two_letters_ok)
  then show ?thesis by (simp add: compiler_ok_def feature_compiler_fields)
qed

lemma feature_edges:
  "OutgoingEdges [example_feature] feature_origin 1 = Some [feature_edge]"
  "Jumps feature_edge feature_origin False = [Jump feature_origin feature_end]"
  "OutgoingEdges [example_feature] feature_end 1 = Some []"
  "sd_canonical feature_end"
proof -
  have "1 \<notin> set DefaultFeatureTags" by (simp add: DefaultFeatureTags_def HB_TAG_def)
  then have new: "1 \<notin> set (sd_feature_tags feature_origin)"
    by (simp add: feature_origin_def AddInitSubsetDefaults_def set_fold_ins_sorted SubsetDefinition_def)
  have "SD_Subtract example_feature feature_origin = example_feature"
    using new by (simp add: SD_Subtract_def example_feature_def SubsetDefinition_def subtract_sets_branches subtract_design_space_def int_set_eq_iff)
  moreover have "\<not> SD_Empty example_feature" by (simp add: SD_Empty_def example_feature_def)
  ultimately have r: "RemainingSubsets [example_feature] feature_origin = [example_feature]" by (simp add: RemainingSubsets_def)
  then show e: "OutgoingEdges [example_feature] feature_origin 1 = Some [feature_edge]" by (simp add: OutgoingEdges_def)
  have ext: "\<forall>s \<in> set [example_feature]. sd_canonical s" by simp
  note spec = Jumps_spec [OF ext feature_origin_canonical e, where e = feature_edge and prefetch = False]
  then have "Jumps feature_edge feature_origin False \<noteq> []" by simp
  then show j: "Jumps feature_edge feature_origin False = [Jump feature_origin feature_end]"
    by (simp add: Jumps_def Let_def feature_end_def split: if_splits)
  have "length (RemainingSubsets [example_feature] feature_end) < 1" "sd_canonical feature_end"
    using spec(3) [where j = "Jump feature_origin feature_end"] j r by (simp_all add: Jump_def)
  then show "OutgoingEdges [example_feature] feature_end 1 = Some []" "sd_canonical feature_end"
    by (simp_all add: OutgoingEdges_def)
qed

section \<open>The end node\<close>

abbreviation feature_count :: "subset_definition \<Rightarrow> nat" where "feature_count d \<equiv> length (sd_feature_tags d)"

definition end_result :: compile_result where
  "end_result = \<lparr>cr_font_data = feature_font (feature_count feature_end), cr_table_keyed_compat_id = CompatId 0 0 0 0,
     cr_glyph_keyed_compat_id = CompatId 0 0 0 0, cr_glyph_keyed_url_template = []\<rparr>"

lemma end_node:
  assumes "pc_built_subsets c feature_end = None"
  shows "CompileStep feature_library feature_compiler rec feature_end False c =
    Some (store_result feature_end end_result (c\<lparr>pc_random_count := pc_random_count c + 4\<rparr>), Inr end_result)"
  using assms by (simp add: CompileStep_def GenerateCompatId_def Let_def EnsureGlyphKeyedPatchesPopulated_def feature_compiler_fields feature_edges
      CutSubset_features st_read_def end_result_def del: One_nat_def)

lemma end_node_again:
  "pc_built_subsets c feature_end = Some r \<Longrightarrow> CompileStep feature_library feature_compiler rec feature_end is_root c = Some (c, Inr r)"
  by (simp add: CompileStep_def)

section \<open>The font of the root\<close>

definition origin_table :: ift_table where
  "origin_table = \<lparr>it_url_template = UrlTemplate feature_compiler 0, it_id = CompatId 0 1 2 3, it_patch_map = [feature_entry]\<rparr>"

lemma origin_table_bytes: "\<exists>bs. Serialize (\<lambda>n. n) id origin_table None None = Inr bs \<and> length bs < TWO32"
  by (simp add: format_eval Serialize_def origin_table_def feature_entry_def UrlTemplate_def AppendLiteralToTemplate_def feature_compiler_fields
      PickDefaultEncoding_def count_encoding_def NumEntries_def header_min_length_def offset_field_def EncodeEntries_def Coverage_def)

lemma origin_font:
  "\<exists>font bs. AddToFont pack_harfbuzz (\<lambda>n. n) id (feature_font k) origin_table None = Inr font \<and>
    hb_tables pack_harfbuzz font = feature_tables k @ [(kIFT, bs)] \<and> length bs < TWO32"
proof -
  let ?face = "feature_font k"
  have none: "CffCharStringsOffset pack_harfbuzz ?face = Inr None" "Cff2CharStringsOffset pack_harfbuzz ?face = Inr None"
    by (simp_all add: CffCharStringsOffset_def Cff2CharStringsOffset_def CharStringsOffset_def TableData_def feature_font_tables feature_tables_def
        kHead_value kCFF_def kCFF2_def HB_TAG_def)
  have "table_offset pack_harfbuzz ?face t = 0" for t by (simp add: table_offset_def OffsetTo_def pack_harfbuzz_def)
  then have tags: "GetOrderedTags pack_harfbuzz ?face = [5, kHead]"
    by (simp add: GetOrderedTags_def feature_font_tables feature_tables_def kHead_value)
  obtain bs where bs: "Serialize (\<lambda>n. n) id origin_table None None = Inr bs" "length bs < TWO32" using origin_table_bytes by blast
  have "AddToFont pack_harfbuzz (\<lambda>n. n) id ?face origin_table None = Inr (pack (feature_tables k @ [(kIFT, bs)]))"
    by (simp add: AddToFont_def none bs AddTablesToFont_def tags with_tag_def List.member_iff kHead_value TableData_def feature_font_tables)
      (simp add: feature_tables_def pack_harfbuzz_def kHead_value)
  then show ?thesis using bs(2) by auto
qed

lemma feature_cost: "\<exists>k. EncodingCost (\<lambda>n. n) id feature_node = Ok k"
  by (simp add: EncodingCost_def node_entry_def feature_node_def EntryNode_def plain_entry_def Coverage_def IntSet_size_def EstimateEncodingCost_def
      format_eval ift_eval)

lemma feature_entries:
  "ActivationConditionsToPatchMapEntries feature_library [feature_condition\<lparr>ac_encoding := TABLE_KEYED_FULL\<rparr>] [0 \<mapsto> example_feature] = Ok [feature_entry]"
proof -
  obtain k where "EncodingCost (\<lambda>n. n) id feature_node = Ok k" using feature_cost by blast
  then have "Optimize (EncodingCost (lb_conv feature_library) (lb_fconv feature_library)) feature_graph = Ok feature_graph"
    by (intro feature_graph_optimized) (simp add: feature_library_def)
  moreover have "DefaultEncoding [feature_condition\<lparr>ac_encoding := TABLE_KEYED_FULL\<rparr>] = TABLE_KEYED_FULL"
    by (simp add: DefaultEncoding_def CountEncoding_def Let_def)
  ultimately show ?thesis
    by (simp add: ActivationConditionsToPatchMapEntries_def feature_graph_created [OF refl] feature_graph_entries)
qed


section \<open>The root\<close>

text \<open>The root of the example, from the initial context to the patch of its jump.\<close>

abbreviation feature_node_rec :: compile_node where
  "feature_node_rec \<equiv> \<lambda>n. CompileStep feature_library feature_compiler (\<lambda>_ _. None) n False"

lemma feature_start:
  "\<exists>c0. expanded_context feature_library feature_compiler [] = Ok c0 \<and> pc_init_subset c0 = feature_origin \<and> pc_built_subsets c0 = Map.empty \<and>
    pc_estimated_patch_sizes c0 = Map.empty \<and> pc_table_keyed_patch_id_map c0 = [] \<and> pc_next_id c0 = 0 \<and> pc_random_count c0 = 0 \<and>
    pc_patches c0 = Map.empty \<and> pc_built_table_keyed_patches c0 = IntSet_empty \<and> pc_table_diff_cache c0 = Map.empty \<and>
    pc_patch_set_url_templates c0 = Map.empty"
proof -
  have long: "HasLongLoca pack_harfbuzz (feature_font k) = Inr False" for k
    by (simp add: HasLongLoca_def TableData_def feature_font_tables feature_tables_def kHead_value)
  have h: "lb_hb feature_library = pack_harfbuzz" by (simp add: feature_library_def)
  show ?thesis
    by (simp add: expanded_context_def FullyExpandedSubset_def Let_def CutSubset_features feature_compiler_fields long h)
      (simp add: initial_context_def feature_compiler_fields ProcessingContext_def feature_origin_def)
qed

lemma features_grow: "(of_nat (feature_count feature_origin) :: byte) \<noteq> of_nat (feature_count feature_end)"
proof -
  have "1 \<notin> set DefaultFeatureTags" by (simp add: DefaultFeatureTags_def HB_TAG_def)
  then have new: "1 \<notin> set (sd_feature_tags feature_origin)"
    by (simp add: feature_origin_def AddInitSubsetDefaults_def set_fold_ins_sorted SubsetDefinition_def)
  have tags: "sd_feature_tags feature_end = ins_sorted 1 (sd_feature_tags feature_origin)"
    by (simp add: feature_end_def SD_Union_def Edge_def example_feature_def SubsetDefinition_def)
  have "length (ins_sorted x xs) = Suc (length xs)" if "x \<notin> set xs" for x :: nat and xs
    using that by (induction xs) auto
  then have "feature_count feature_end = Suc (feature_count feature_origin)" using new tags by simp
  then show ?thesis by simp
qed

definition sized_context :: "processing_context \<Rightarrow> processing_context \<Rightarrow> bool" where
  "sized_context c c' \<longleftrightarrow> pc_built_subsets c' = (pc_built_subsets c)(feature_end \<mapsto> end_result) \<and> cache_ok copy_diff (Some (pc_table_diff_cache c')) \<and>
     pc_table_keyed_patch_id_map c' = pc_table_keyed_patch_id_map c \<and> pc_next_id c' = pc_next_id c \<and> pc_patches c' = pc_patches c \<and>
     pc_built_table_keyed_patches c' = pc_built_table_keyed_patches c \<and> pc_patch_set_url_templates c' = pc_patch_set_url_templates c"

lemma feature_sizes:
  assumes "pc_built_subsets c feature_end = None" and "pc_estimated_patch_sizes c = Map.empty" and "cache_ok copy_diff (Some (pc_table_diff_cache c))"
  shows "\<exists>c' k. EstimateEdgeSizes feature_library feature_compiler feature_node_rec feature_origin (feature_font (feature_count feature_origin)) base_id []
    [feature_edge] c = Some (c', Inr [(0, k)]) \<and> sized_context c c'"
proof -
  have h: "lb_hb feature_library = pack_harfbuzz" "lb_brotli feature_library = copy_diff" by (simp_all add: feature_library_def)
  have differ: "GetTentativeDifferFor feature_compiler base_id False = TableKeyedDiff base_id [kIFT, kIFTX] []"
    by (simp add: GetTentativeDifferFor_def GetTableKeyedDifferFor_def feature_compiler_fields)
  define c1 where "c1 = store_result feature_end end_result (c\<lparr>pc_random_count := pc_random_count c + 4\<rparr>)"
  have c1: "pc_estimated_patch_sizes c1 = Map.empty" "cache_ok copy_diff (Some (pc_table_diff_cache c1))"
    using assms by (simp_all add: c1_def store_result_def)
  have "hb_tables pack_harfbuzz (feature_font (feature_count feature_origin)) = feature_tables (feature_count feature_origin) @ []"
    by (simp add: feature_font_tables)
  from feature_diff [OF c1(2) features_grow this, of _ "TableKeyedDiff base_id [kIFT, kIFTX] []" base_id]
  obtain cache p where diff: "TK_Diff pack_harfbuzz copy_diff (TableKeyedDiff base_id [kIFT, kIFTX] []) (Some (pc_table_diff_cache c1))
    (feature_font (feature_count feature_origin)) (feature_font (feature_count feature_end)) = Inr (Some cache, p)" by blast
  have cache: "cache_ok copy_diff (Some cache)" using TK_Diff_cache [OF diff c1(2)] by simp
  have end_font: "cr_font_data end_result = feature_font (feature_count feature_end)" by (simp add: end_result_def)
  show ?thesis
    using cache
    by (simp add: EstimateEdgeSizes_def estimate_edge_def feature_compiler_fields feature_edges estimate_jump_def Jump_def
        end_node [OF assms(1), folded c1_def] c1(1) context_diff_def differ h diff end_font sized_context_def)
      (simp add: c1_def store_result_def)
qed

text \<open>The jump gets the id 0.\<close>

abbreviation feature_jump :: jump where "feature_jump \<equiv> Jump feature_origin feature_end"

lemma feature_conditions:
  assumes "pc_table_keyed_patch_id_map c = []" and "pc_next_id c = 0"
  shows "EdgesToActivationConditions feature_compiler feature_origin [feature_edge] TABLE_KEYED_FULL c =
    Some (c\<lparr>pc_table_keyed_patch_id_map := [(feature_jump, 0)], pc_next_id := 1\<rparr>,
      Inr ([feature_condition\<lparr>ac_encoding := TABLE_KEYED_FULL\<rparr>], [0 \<mapsto> example_feature]))"
proof -
  have one: "IntSet_insert 0 IntSet_empty = IntSet [0]" by (simp add: int_set_eq_iff) auto
  have s: "fold segment_for (ed_subsets feature_edge) (\<lparr>es_index = Map.empty, es_next = 0, es_segments = Map.empty\<rparr>, IntSet_empty) =
      (\<lparr>es_index = [example_feature \<mapsto> 0], es_next = 1, es_segments = [0 \<mapsto> example_feature]\<rparr>, IntSet [0])"
    by (simp add: Edge_def segment_for_def one)
  have i: "patch_id_for feature_jump c = (c\<lparr>pc_table_keyed_patch_id_map := [(feature_jump, 0)], pc_next_id := 1\<rparr>, 0)"
    by (simp add: patch_id_for_def assms)
  have "AddPrefetches [] (SetEncoding TABLE_KEYED_FULL (and_segments (IntSet [0]) 0)) = feature_condition\<lparr>ac_encoding := TABLE_KEYED_FULL\<rparr>"
    by (simp add: AddPrefetches_def SetEncoding_def feature_condition_def and_segments_def)
  then show ?thesis
    by (simp add: EdgesToActivationConditions_def edge_condition_def feature_compiler_fields feature_edges s i del: One_nat_def)
qed

lemma feature_map:
  assumes c: "pc_built_subsets c feature_end = None" "pc_estimated_patch_sizes c = Map.empty" "cache_ok copy_diff (Some (pc_table_diff_cache c))"
    and ids: "pc_table_keyed_patch_id_map c = []" "pc_next_id c = 0"
  shows "\<exists>c1. PopulateTableKeyedPatchMap feature_library feature_compiler feature_node_rec feature_origin (feature_font (feature_count feature_origin)) base_id []
    [feature_edge] TABLE_KEYED_FULL [] c = Some (c1\<lparr>pc_table_keyed_patch_id_map := [(feature_jump, 0)], pc_next_id := 1\<rparr>, Inr [feature_entry]) \<and> sized_context c c1"
proof -
  obtain c1 k where e: "EstimateEdgeSizes feature_library feature_compiler feature_node_rec feature_origin (feature_font (feature_count feature_origin)) base_id []
    [feature_edge] c = Some (c1, Inr [(0, k)])" and s: "sized_context c c1" using feature_sizes [OF c] by blast
  have i: "pc_table_keyed_patch_id_map c1 = []" "pc_next_id c1 = 0" using s ids by (simp_all add: sized_context_def)
  have "AddEntry feature_entry [] = Inr [feature_entry]"
    by (simp add: AddEntry_def feature_entry_def Coverage_def ift_eval)
  then have "PopulateTableKeyedPatchMap feature_library feature_compiler feature_node_rec feature_origin (feature_font (feature_count feature_origin)) base_id []
    [feature_edge] TABLE_KEYED_FULL [] c = Some (c1\<lparr>pc_table_keyed_patch_id_map := [(feature_jump, 0)], pc_next_id := 1\<rparr>, Inr [feature_entry])"
    by (simp add: PopulateTableKeyedPatchMap_def e feature_conditions [OF i] feature_entries st_read_def del: One_nat_def)
  with s show ?thesis by blast
qed

lemma feature_node_font:
  assumes c: "pc_built_subsets c feature_end = None" "pc_estimated_patch_sizes c = Map.empty" "cache_ok copy_diff (Some (pc_table_diff_cache c))"
    and ids: "pc_table_keyed_patch_id_map c = []" "pc_next_id c = 0"
  shows "\<exists>c1 font bs. node_font feature_library feature_compiler feature_node_rec feature_origin True [feature_edge] (feature_font (feature_count feature_origin))
      (CompatId 0 1 2 3) [] (CompatId 0 0 0 0) c = Some (c1\<lparr>pc_table_keyed_patch_id_map := [(feature_jump, 0)], pc_next_id := 1\<rparr>, Inr font) \<and>
    sized_context c c1 \<and> hb_tables pack_harfbuzz font = feature_tables (feature_count feature_origin) @ [(kIFT, bs)] \<and> length bs < TWO32"
proof -
  obtain c1 where m: "PopulateTableKeyedPatchMap feature_library feature_compiler feature_node_rec feature_origin (feature_font (feature_count feature_origin))
      (CompatId 0 1 2 3) [] [feature_edge] TABLE_KEYED_FULL [] c = Some (c1\<lparr>pc_table_keyed_patch_id_map := [(feature_jump, 0)], pc_next_id := 1\<rparr>, Inr [feature_entry])"
    and s: "sized_context c c1" using feature_map [OF c ids] by blast
  obtain font bs where f: "AddToFont pack_harfbuzz (\<lambda>n. n) id (feature_font (feature_count feature_origin)) origin_table None = Inr font"
    "hb_tables pack_harfbuzz font = feature_tables (feature_count feature_origin) @ [(kIFT, bs)]" "length bs < TWO32" using origin_font by blast
  have l: "lb_hb feature_library = pack_harfbuzz" "lb_conv feature_library = (\<lambda>n. n)" "lb_fconv feature_library = id"
    "RoundTripWoff2 feature_library font False = Inr font" by (simp_all add: feature_library_def RoundTripWoff2_def)
  have t: "(SetUrlTemplate (UrlTemplate feature_compiler 0) (SetId (CompatId 0 1 2 3) IFTTable))\<lparr>it_patch_map := [feature_entry]\<rparr> = origin_table"
    "it_patch_map (SetUrlTemplate (UrlTemplate feature_compiler 0) (SetId (CompatId 0 1 2 3) IFTTable)) = []"
    by (simp_all add: origin_table_def SetUrlTemplate_def SetId_def IFTTable_def)
  have "node_font feature_library feature_compiler feature_node_rec feature_origin True [feature_edge] (feature_font (feature_count feature_origin))
      (CompatId 0 1 2 3) [] (CompatId 0 0 0 0) c = Some (c1\<lparr>pc_table_keyed_patch_id_map := [(feature_jump, 0)], pc_next_id := 1\<rparr>, Inr font)"
    unfolding node_font_def Let_def t
    by (simp add: PopulateGlyphKeyedPatchMap_def feature_compiler_fields m t f(1) l st_read_def del: One_nat_def)
  with s f(2,3) show ?thesis by blast
qed

section \<open>The patch\<close>

lemma feature_build:
  assumes c: "pc_built_subsets c feature_end = Some end_result" "pc_table_keyed_patch_id_map c = [(feature_jump, 0)]"
      "pc_built_table_keyed_patches c = IntSet_empty" "cache_ok copy_diff (Some (pc_table_diff_cache c))"
    and r: "hb_tables pack_harfbuzz (cr_font_data r) = feature_tables (feature_count feature_origin) @ [(kIFT, bs)]"
  shows "\<exists>c' p. st_each (build_edge feature_library feature_compiler feature_node_rec (UrlTemplate feature_compiler 0) feature_origin r) [feature_edge] c =
      Some (c', Inr ()) \<and> pc_built_subsets c' = pc_built_subsets c \<and> pc_table_keyed_patch_id_map c' = pc_table_keyed_patch_id_map c \<and>
    pc_patches c' = (pc_patches c)(table_url feature_library feature_compiler 0 \<mapsto> p) \<and> length p < 200 \<and> pc_patch_set_url_templates c' = pc_patch_set_url_templates c"
proof -
  let ?d = "TableKeyedDiff (cr_table_keyed_compat_id r) [] []"
  have h: "lb_hb feature_library = pack_harfbuzz" "lb_brotli feature_library = copy_diff" by (simp_all add: feature_library_def)
  have differ: "GetDifferFor feature_compiler (cr_table_keyed_compat_id r) False = ?d"
    by (simp add: GetDifferFor_def GetTableKeyedDifferFor_def feature_compiler_fields)
  obtain cache p where diff: "TK_Diff pack_harfbuzz copy_diff ?d (Some (pc_table_diff_cache c)) (cr_font_data r) (feature_font (feature_count feature_end)) =
      Inr (Some cache, p)" "length p < 200"
    using feature_diff [OF c(4) features_grow r, of bs ?d "cr_table_keyed_compat_id r"] by blast
  have url: "PatchToUrl (lb_base32 feature_library) (lb_base64 feature_library) (UrlTemplate feature_compiler 0) 0 = Inr (table_url feature_library feature_compiler 0)"
    using table_url [of feature_library feature_compiler 0] feature_compiler_ok by (simp add: compiler_ok_def)
  have end_font: "cr_font_data end_result = feature_font (feature_count feature_end)" by (simp add: end_result_def)
  have again: "CompileStep feature_library feature_compiler rec feature_end b c = Some (c, Inr end_result)" for rec b by (rule end_node_again [OF c(1)])
  have j: "jp_start feature_jump = feature_origin" "jp_end feature_jump = feature_end" by (simp_all add: Jump_def)
  define w where "w = \<lparr>wk_subset = feature_origin, wk_result = r, wk_total = 0\<rparr>"
  have w: "wk_subset w = feature_origin" "wk_result w = r" by (simp_all add: w_def)
  let ?c = "c\<lparr>pc_table_diff_cache := cache, pc_patches := (pc_patches c)(table_url feature_library feature_compiler 0 \<mapsto> p),
    pc_built_table_keyed_patches := IntSet_insert 0 IntSet_empty\<rparr>"
  have "build_jump feature_library feature_compiler feature_node_rec (UrlTemplate feature_compiler 0) feature_jump w c =
      Some (?c, Inr (w\<lparr>wk_subset := feature_end, wk_result := end_result\<rparr>))"
    unfolding build_jump_def j w by (simp add: c(2,3) again feature_compiler_fields differ context_diff_def h diff(1) end_font url st_read_def)
  then have "st_each (build_edge feature_library feature_compiler feature_node_rec (UrlTemplate feature_compiler 0) feature_origin r) [feature_edge] c = Some (?c, Inr ())"
    by (simp add: build_edge_def feature_compiler_fields feature_edges w_def)
  with diff(2) show ?thesis by fastforce
qed

section \<open>The run\<close>

lemma feature_tags_bound: "(t, b) \<in> set (feature_tables n @ extra) \<Longrightarrow> extra = [] \<or> (\<exists>bs. extra = [(kIFT, bs)] \<and> length bs < TWO32) \<Longrightarrow> t < TWO32 \<and> length b < TWO32"
  by (auto simp: feature_tables_def kHead_value)

lemma feature_run:
  "\<exists>c0 c r. expanded_context feature_library feature_compiler [] = Ok c0 \<and> pc_init_subset c0 = feature_origin \<and>
    CompileNode feature_library feature_compiler (\<lambda>_ _ _. None) 2 feature_origin True c0 = Some (c, Inr r) \<and>
    few feature_compiler c \<and> within_limits feature_library c"
proof -
  obtain c0 where c0: "expanded_context feature_library feature_compiler [] = Ok c0" "pc_init_subset c0 = feature_origin" "pc_built_subsets c0 = Map.empty"
    "pc_estimated_patch_sizes c0 = Map.empty" "pc_table_keyed_patch_id_map c0 = []" "pc_next_id c0 = 0" "pc_random_count c0 = 0" "pc_patches c0 = Map.empty"
    "pc_built_table_keyed_patches c0 = IntSet_empty" "pc_table_diff_cache c0 = Map.empty" "pc_patch_set_url_templates c0 = Map.empty"
    using feature_start by blast
  define c1 where "c1 = c0\<lparr>pc_random_count := 4\<rparr>"
  have c1: "pc_built_subsets c1 feature_end = None" "pc_estimated_patch_sizes c1 = Map.empty" "cache_ok copy_diff (Some (pc_table_diff_cache c1))"
    "pc_table_keyed_patch_id_map c1 = []" "pc_next_id c1 = 0" using c0 by (simp_all add: c1_def cache_ok_def)
  have id: "GenerateCompatId feature_library c0 = (c1, CompatId 0 1 2 3)" by (simp add: GenerateCompatId_def c0(7) c1_def feature_library_def)
  obtain c2 font bs where f: "node_font feature_library feature_compiler feature_node_rec feature_origin True [feature_edge] (feature_font (feature_count feature_origin))
      (CompatId 0 1 2 3) [] (CompatId 0 0 0 0) c1 = Some (c2\<lparr>pc_table_keyed_patch_id_map := [(feature_jump, 0)], pc_next_id := 1\<rparr>, Inr font)"
    "sized_context c1 c2" "hb_tables pack_harfbuzz font = feature_tables (feature_count feature_origin) @ [(kIFT, bs)]" "length bs < TWO32"
    using feature_node_font [OF c1] by blast
  define r where "r = \<lparr>cr_font_data = font, cr_table_keyed_compat_id = CompatId 0 1 2 3, cr_glyph_keyed_compat_id = CompatId 0 0 0 0, cr_glyph_keyed_url_template = []\<rparr>"
  define c3 where "c3 = store_result feature_origin r (c2\<lparr>pc_table_keyed_patch_id_map := [(feature_jump, 0)], pc_next_id := 1\<rparr>)"
  have ne: "feature_origin \<noteq> feature_end" using features_grow by auto
  have c3: "pc_built_subsets c3 feature_end = Some end_result" "pc_table_keyed_patch_id_map c3 = [(feature_jump, 0)]"
    "pc_built_table_keyed_patches c3 = IntSet_empty" "cache_ok copy_diff (Some (pc_table_diff_cache c3))"
    "pc_patches c3 = Map.empty" "pc_patch_set_url_templates c3 = Map.empty" "pc_built_subsets c3 = [feature_end \<mapsto> end_result, feature_origin \<mapsto> r]"
    using f(2) c0 ne by (simp_all add: c3_def store_result_def sized_context_def c1_def)
  have r: "hb_tables pack_harfbuzz (cr_font_data r) = feature_tables (feature_count feature_origin) @ [(kIFT, bs)]" using f(3) by (simp add: r_def)
  obtain c4 p where b: "st_each (build_edge feature_library feature_compiler feature_node_rec (UrlTemplate feature_compiler 0) feature_origin r) [feature_edge] c3 = Some (c4, Inr ())"
    "pc_built_subsets c4 = pc_built_subsets c3" "pc_table_keyed_patch_id_map c4 = [(feature_jump, 0)]" "pc_patches c4 = [table_url feature_library feature_compiler 0 \<mapsto> p]" "length p < 200"
    "pc_patch_set_url_templates c4 = Map.empty"
    using feature_build [OF c3(1-4) r] c3 by auto
  have "CompileStep feature_library feature_compiler feature_node_rec feature_origin True c0 = Some (c4, Inr r)"
    by (subst CompileStep_def) (simp add: id c0(3) EnsureGlyphKeyedPatchesPopulated_def feature_compiler_fields feature_edges CutSubset_features st_read_def f(1) Let_def
        r_def [symmetric] c3_def [symmetric] b(1) del: One_nat_def st_each.simps)
  then have run: "CompileNode feature_library feature_compiler (\<lambda>_ _ _. None) 2 feature_origin True c0 = Some (c4, Inr r)" by (simp add: numeral_2_eq_2)
  have few: "few feature_compiler c4" by (simp add: few_def b feature_compiler_fields)
  have h: "lb_hb feature_library = pack_harfbuzz" by (simp add: feature_library_def)
  have "\<forall>(t, b) \<in> set (hb_tables pack_harfbuzz (cr_font_data end_result)). t < TWO32 \<and> length b < TWO32"
    using feature_tags_bound [of _ _ _ "[]"] by (auto simp: end_result_def feature_font_tables)
  moreover have "\<forall>(t, b) \<in> set (hb_tables pack_harfbuzz (cr_font_data r)). t < TWO32 \<and> length b < TWO32"
    using feature_tags_bound [of _ _ _ "[(kIFT, bs)]"] f(4) unfolding r by blast
  ultimately have "within_limits feature_library c4" using b(5) by (auto simp: within_limits_def b(2,4) c3(7) h split: if_splits)
  with c0(1,2) run few show ?thesis by blast
qed

end
