(* ===== verification/Compiler_Properties.thy ===== *)
theory Compiler_Properties
  imports Compiler_Example
begin

text \<open>
  Properties of the compiler: the edges of a node, the depth of its recursion, and the patches of the graph
  that it encodes.
\<close>

section \<open>Edges\<close>

text \<open>
  C39: the edges of a node are, in order of their size, all combinations of at most as many of the subsets
  that it lacks as the jump ahead. The jumps of an edge form a path from the node to its union with the subsets
  of the edge; there is at least one, each starts where the one before it ends, and at the end of each fewer
  subsets are missing than at its start.
\<close>

theorem outgoing_edges:
  assumes "\<forall>s \<in> set ext. sd_canonical s" and "sd_canonical node" and "OutgoingEdges ext node n = Some edges"
  shows "map ed_subsets edges = concat (map (\<lambda>i. sized_subseqs i (RemainingSubsets ext node)) [1..<n + 1]) \<and>
    (\<forall>e \<in> set edges. edge_ok e \<and> path node (Jumps e node prefetch) (SD_Union node (ed_combined e)) \<and> Jumps e node prefetch \<noteq> [] \<and>
      (\<forall>j \<in> set (Jumps e node prefetch). length (RemainingSubsets ext (jp_end j)) < length (RemainingSubsets ext (jp_start j))))"
  using OutgoingEdges_subsets [OF assms(3)] OutgoingEdges_ok [OF assms] Jumps_spec(1,2) [OF assms] Jumps_descend [OF assms] by blast

lemma outgoing_edges_witness:
  "map ed_subsets [feature_edge] = concat (map (\<lambda>i. sized_subseqs i (RemainingSubsets [example_feature] feature_origin)) [1..<1 + 1]) \<and>
    path feature_origin (Jumps feature_edge feature_origin True) (SD_Union feature_origin (ed_combined feature_edge))"
proof -
  have "\<forall>s \<in> set [example_feature]. sd_canonical s" by simp
  from outgoing_edges [OF this feature_origin_canonical feature_edges(1), of True] show ?thesis by auto
qed

section \<open>The recursion\<close>

text \<open>
  C38: the recursion over the nodes ends: it is never deeper than the number of extension subsets, whatever
  the compilation of a node below that would return.
\<close>

theorem compilation_depth:
  assumes "\<forall>s \<in> set (cm_extension_subsets cm). sd_canonical s" and "sd_canonical node" and "length (cm_extension_subsets cm) < n"
  shows "CompileNode L cm deeper n node = CompileNode L cm (\<lambda>_ _ _. None) (Suc (length (cm_extension_subsets cm))) node"
  using assms by (rule Compile_depth_enough)

lemma compilation_depth_witness:
  "CompileNode feature_library feature_compiler (\<lambda>_ _ c. Some (c, Inl InternalError)) 5 feature_origin =
    CompileNode feature_library feature_compiler (\<lambda>_ _ _. None) 2 feature_origin"
  using compilation_depth [of feature_compiler feature_origin 5 feature_library "\<lambda>_ _ c. Some (c, Inl InternalError)"]
  by (simp add: feature_compiler_fields numeral_2_eq_2 del: CompileNode.simps)

section \<open>The patch graph\<close>

text \<open>
  The tables that a patch for a jump leaves to the glyph keyed patches: none without them, and with them the glyph
  data, of which the tables with variations are replaced, together with IFTX, when the URL template changes.
\<close>

definition kept_tags :: "compiler \<Rightarrow> compile_result \<Rightarrow> compile_result \<Rightarrow> hb_tag list" where
  "kept_tags cm r1 r2 = (if \<not> IsMixedMode cm then []
     else if cr_glyph_keyed_url_template r2 = cr_glyph_keyed_url_template r1 then [kIFTX, kGlyf, kLoca, kGvar, kCFF, kCFF2]
     else [kGlyf, kLoca, kCFF])"

lemma tables_after_differ:
  "tables_after (GetDifferFor cm cid (IsMixedMode cm \<and> cr_glyph_keyed_url_template r2 \<noteq> cr_glyph_keyed_url_template r1)) base derived t =
     (if t \<in> set (kept_tags cm r1 r2) then base t
      else if derived t = Some [] \<and> (base t = None \<or> IsMixedMode cm \<and> t \<in> {kIFTX, kGvar, kCFF2}) \<and>
        (base t = None \<or> cr_glyph_keyed_url_template r2 \<noteq> cr_glyph_keyed_url_template r1) then base t else derived t)"
  by (auto simp: tables_after_def GetDifferFor_def GetTableKeyedDifferFor_def TableKeyedDiff_def kept_tags_def)

text \<open>
  C1: when the root is compiled, every jump from every node that can be reached from it has an id, both of its
  ends are built, and the patch with the URL of the id is a table keyed patch for the font of the first end: it
  has the compatibility id of that font, and applied to its tables it gives those of the font of the second
  end, except for the tables that are left to the glyph keyed patches and for empty tables that are new or
  replaced, which stay as they are. This is for a compiler whose subsets are well formed and whose URL prefix gives
  different ids different URLs, when no counter of ids wraps around, the tables and patches are shorter than
  4 GB, and the decoder inverts the encoder of the diffs.
\<close>

theorem compiled_patch_graph:
  assumes ok: "compiler_ok L cm" and decode: "\<And>b D p. lb_brotli L b D = Inr p \<Longrightarrow> decode b p (length D) = Some D"
    and c0: "expanded_context L cm face = Ok c0"
    and run: "CompileNode L cm (\<lambda>_ _ _. None) depth (pc_init_subset c0) True c0 = Some (c, Inr r)"
    and few: "few cm c" and limits: "within_limits L c"
    and node: "reaches cm (pc_init_subset c0) node" and j: "jump_from cm node j"
  shows "\<exists>i r1 r2 patch ps result. map_of (pc_table_keyed_patch_id_map c) j = Some i \<and>
    pc_built_subsets c (jp_start j) = Some r1 \<and> pc_built_subsets c (jp_end j) = Some r2 \<and>
    PatchToUrl (lb_base32 L) (lb_base64 L) (UrlTemplate cm 0) (of_nat i) = Inr (table_url L cm i) \<and> pc_patches c (table_url L cm i) = Some patch \<and>
    parse_patch patch = Inr (int (HB_TAG ''iftk''), CompatId_values (cr_table_keyed_compat_id r1), ps) \<and>
    apply_table_patches decode (tables_of (lb_hb L) (cr_font_data r1)) ps (tables_of (lb_hb L) (cr_font_data r1)) = Some result \<and>
    result = tables_after (GetDifferFor cm (cr_table_keyed_compat_id r1) (IsMixedMode cm \<and> cr_glyph_keyed_url_template r2 \<noteq> cr_glyph_keyed_url_template r1))
      (tables_of (lb_hb L) (cr_font_data r1)) (tables_of (lb_hb L) (cr_font_data r2)) \<and>
    (\<forall>t. t \<in> set (kept_tags cm r1 r2) \<longrightarrow> result t = tables_of (lb_hb L) (cr_font_data r1) t) \<and>
    (\<forall>t. t \<notin> set (kept_tags cm r1 r2) \<longrightarrow> tables_of (lb_hb L) (cr_font_data r2) t \<noteq> Some [] \<longrightarrow>
      result t = tables_of (lb_hb L) (cr_font_data r2) t)"
proof -
  note compiled = compiled_context [OF ok c0 run]
  have good: "good L cm c" using compiled advance_good by blast
  have all: "\<forall>node. pc_built_subsets c node \<noteq> None \<longrightarrow> has_patches cm c node" using compiled few by blast
  have "pc_built_subsets c node \<noteq> None" using reaches_built [OF node _ good few all] compiled by simp
  from jump_patch [OF good few _ j] all this obtain i r1 r2 p where
    p: "map_of (pc_table_keyed_patch_id_map c) j = Some i" "pc_built_subsets c (jp_start j) = Some r1" "pc_built_subsets c (jp_end j) = Some r2"
      "pc_patches c (table_url L cm i) = Some p" "patch_between L cm r1 r2 p" by blast
  have url: "PatchToUrl (lb_base32 L) (lb_base64 L) (UrlTemplate cm 0) (of_nat i) = Inr (table_url L cm i)"
    using ok by (intro table_url) (simp add: compiler_ok_def)
  from patch_between_applies [where decode = decode, OF decode p(5) limits p(2,3) ranI [of "pc_patches c", OF p(4)]] obtain ps where
    ps: "parse_patch p = Inr (int (HB_TAG ''iftk''), CompatId_values (cr_table_keyed_compat_id r1), ps)"
    "apply_table_patches decode (tables_of (lb_hb L) (cr_font_data r1)) ps (tables_of (lb_hb L) (cr_font_data r1)) =
      Some (tables_after (GetDifferFor cm (cr_table_keyed_compat_id r1) (IsMixedMode cm \<and> cr_glyph_keyed_url_template r2 \<noteq> cr_glyph_keyed_url_template r1))
        (tables_of (lb_hb L) (cr_font_data r1)) (tables_of (lb_hb L) (cr_font_data r2)))" by blast
  show ?thesis by (intro exI conjI) ((rule p url ps refl)+, simp_all add: tables_after_differ)
qed

lemma compiled_patch_graph_witness:
  "\<exists>c0 c r i patch ps. expanded_context feature_library feature_compiler [] = Ok c0 \<and>
    CompileNode feature_library feature_compiler (\<lambda>_ _ _. None) 2 feature_origin True c0 = Some (c, Inr r) \<and>
    map_of (pc_table_keyed_patch_id_map c) feature_jump = Some i \<and> pc_patches c (table_url feature_library feature_compiler i) = Some patch \<and>
    parse_patch patch = Inr (int (HB_TAG ''iftk''), CompatId_values (cr_table_keyed_compat_id r), ps)"
proof -
  obtain c0 c r where run: "expanded_context feature_library feature_compiler [] = Ok c0" "pc_init_subset c0 = feature_origin"
    "CompileNode feature_library feature_compiler (\<lambda>_ _ _. None) 2 (pc_init_subset c0) True c0 = Some (c, Inr r)"
    "few feature_compiler c" "within_limits feature_library c" using feature_run by metis
  have decode: "lb_brotli feature_library b D = Inr p \<Longrightarrow> copy_patch b p (length D) = Some D" for b D p
    by (simp add: feature_library_def copy_decodes)
  have j: "jump_from feature_compiler (pc_init_subset c0) feature_jump"
    unfolding jump_from_def run(2)
    by (intro exI [of _ "[feature_edge]"] exI [of _ feature_edge]) (simp add: feature_compiler_fields feature_edges del: One_nat_def)
  from compiled_patch_graph [where decode = copy_patch, OF feature_compiler_ok decode run(1,3,4,5) reaches.start j]
  obtain i r1 patch ps where "map_of (pc_table_keyed_patch_id_map c) feature_jump = Some i" "pc_built_subsets c feature_origin = Some r1"
    "pc_patches c (table_url feature_library feature_compiler i) = Some patch"
    "parse_patch patch = Inr (int (HB_TAG ''iftk''), CompatId_values (cr_table_keyed_compat_id r1), ps)" by (auto simp: Jump_def)
  moreover have "pc_built_subsets c feature_origin = Some r" using compiled_context [OF feature_compiler_ok run(1,3)] run(2) by simp
  ultimately show ?thesis using run by auto
qed

end
