(* ===== verification/Compiler_Mixed.thy ===== *)
theory Compiler_Mixed
  imports Compiler_Properties
begin

text \<open>
  Glyph keyed patches of the compiled fonts, with an example: a compiler with one glyph segment, whose initial font
  has no jumps and one patch with a glyph.
\<close>

definition glyph_entry :: entry where
  "glyph_entry = \<lparr>en_coverage = Coverage (IntSet [97]), en_patch_indices = [1], en_encoding = GLYPH_KEYED, en_ignored = False\<rparr>"

definition mixed_compiler :: compiler where
  "mixed_compiler = Compiler\<lparr>cm_face := Some [], cm_glyph_data_patches := Mapping.update 1 (IntSet [1]) Mapping.empty,
     cm_glyph_patch_conditions := [glyph_entry], cm_next_id := 2\<rparr>"

text \<open>It is what the settings give.\<close>

lemma mixed_compiler_settings:
  "AddGlyphDataPatch pack_harfbuzz 1 (IntSet [1]) (SetFace [] Compiler) =
    Inr (Compiler\<lparr>cm_face := Some [], cm_glyph_data_patches := Mapping.update 1 (IntSet [1]) Mapping.empty, cm_next_id := 2\<rparr>)"
  "AddGlyphDataPatchCondition glyph_entry (Compiler\<lparr>cm_face := Some [], cm_glyph_data_patches := Mapping.update 1 (IntSet [1]) Mapping.empty, cm_next_id := 2\<rparr>) =
    Inr mixed_compiler"
proof -
  have "to_vector (IntSet [1]) = [1]" by (simp add: ift_eval)
  then show "AddGlyphDataPatch pack_harfbuzz 1 (IntSet [1]) (SetFace [] Compiler) =
    Inr (Compiler\<lparr>cm_face := Some [], cm_glyph_data_patches := Mapping.update 1 (IntSet [1]) Mapping.empty, cm_next_id := 2\<rparr>)"
    by (simp add: AddGlyphDataPatch_def SetFace_def Compiler_def pack_harfbuzz_def del: One_nat_def)
  show "AddGlyphDataPatchCondition glyph_entry (Compiler\<lparr>cm_face := Some [], cm_glyph_data_patches := Mapping.update 1 (IntSet [1]) Mapping.empty, cm_next_id := 2\<rparr>) =
    Inr mixed_compiler"
    by (simp add: AddGlyphDataPatchCondition_def glyph_entry_def Coverage_def mixed_compiler_def Compiler_def ift_eval)
qed

lemma mixed_compiler_fields:
  "IsMixedMode mixed_compiler" "cm_extension_subsets mixed_compiler = []" "cm_jump_ahead mixed_compiler = 1" "cm_next_id mixed_compiler = 2"
  "cm_init_subset mixed_compiler = SubsetDefinition []" "cm_override_url_template_prefix mixed_compiler = []"
  "Mapping.lookup (cm_glyph_data_patches mixed_compiler) 1 = Some (IntSet [1])" "cm_glyph_patch_conditions mixed_compiler = [glyph_entry]"
  "cm_face mixed_compiler = Some []"
  by (simp_all add: mixed_compiler_def Compiler_def IsMixedMode_def)

lemma mixed_compiler_ok: "compiler_ok feature_library mixed_compiler"
proof -
  have "prefix_ok feature_library mixed_compiler"
    by (rule prefix_ok_default) (simp_all add: mixed_compiler_fields feature_library_def two_letters_ok)
  then show ?thesis by (simp add: compiler_ok_def mixed_compiler_fields)
qed

lemma mixed_segments: "reachable_segments mixed_compiler = IntSet_insert 1 IntSet_empty" "to_vector (reachable_segments mixed_compiler) = [1]"
proof -
  show r: "reachable_segments mixed_compiler = IntSet_insert 1 IntSet_empty"
    by (simp add: reachable_segments_def mixed_compiler_fields glyph_entry_def)
  show "to_vector (reachable_segments mixed_compiler) = [1]" unfolding r by (simp add: ift_eval)
qed

lemma CutSubset_mixed: "\<exists>n. CutSubset feature_library cm ctx (feature_font k) d bases = Ok (feature_font n)"
proof -
  have t: "GetTags (lb_hb feature_library) (feature_font k) = {5, kHead}"
    by (simp add: GetTags_def feature_library_def feature_font_tables feature_tables_def)
  have v: "IsVariableFor d (GetDesignSpace (lb_hb feature_library) (feature_font k)) = Inr False"
    by (simp add: IsVariableFor_def GetDesignSpace_def feature_library_def pack_harfbuzz_def)
  show ?thesis unfolding CutSubset_def t v
    by (simp add: kHead_value kGvar_def kCFF2_def HB_TAG_def CutSubsetFaceBuilder_def CreateSubsetPlan_def)
      (auto simp: feature_library_def feature_font_def)
qed

lemma mixed_patch:
  "\<exists>p. CreatePatch pack_harfbuzz copy_diff \<lparr>gk_font = feature_font n, gk_base_compat_id = k, gk_tags = [kGlyf, kGvar, kCFF, kCFF2]\<rparr> (IntSet [1]) = Ok p"
proof -
  define d where "d = \<lparr>gk_font = feature_font n, gk_base_compat_id = k, gk_tags = [kGlyf, kGvar, kCFF, kCFF2]\<rparr>"
  have tags: "processed_tags pack_harfbuzz d = []"
    by (simp add: d_def processed_tags_def GetTags_def feature_font_tables feature_tables_def kHead_value kGlyf_def kGvar_def kCFF_def kCFF2_def HB_TAG_def)
  have gk: "gk_tags d = [kGlyf, kGvar, kCFF, kCFF2]" by (simp add: d_def)
  have one: "to_vector (IntSet [1]) = [1]" by (simp add: ift_eval)
  then have "members (IntSet [1]) = {1}" by auto
  then have v: "to_vector (IntSet [1]) = [1]" "IntSet_max (IntSet [1]) = Some 1" using one by (simp_all add: IntSet_max_eq del: One_nat_def)
  show ?thesis unfolding d_def [symmetric]
    by (simp add: CreatePatch_def v CreateDataStream_def tags Let_def del: One_nat_def)
      (simp add: IntSet_size_def v [unfolded One_nat_def] stream_header_size_def write_gid_def WRITE_UINT8_def WRITE_UINT16_def
        WRITE_UINT32_def WillIntOverflow_def to_unsigned_def u32.write_length u16.write_length u8.write_length copy_diff_def gk)
qed

section \<open>The run\<close>

lemma mixed_start:
  "\<exists>c0 n. expanded_context feature_library mixed_compiler [] = Ok c0 \<and> sd_design_space (pc_init_subset c0) = [] \<and> pc_built_subsets c0 = Map.empty \<and>
    pc_patch_set_url_templates c0 = Map.empty \<and> pc_glyph_keyed_compat_ids c0 = Map.empty \<and> pc_next_patch_set_id c0 = 1 \<and> pc_table_keyed_patch_id_map c0 = [] \<and>
    pc_fully_expanded_subset c0 = feature_font n"
proof -
  have long: "HasLongLoca pack_harfbuzz (feature_font k) = Inr False" for k
    by (simp add: HasLongLoca_def TableData_def feature_font_tables feature_tables_def kHead_value)
  have h: "lb_hb feature_library = pack_harfbuzz" by (simp add: feature_library_def)
  obtain n where n: "FullyExpandedSubset feature_library mixed_compiler (cut_context (initial_context feature_library mixed_compiler [])) [] = Ok (feature_font n)"
    unfolding FullyExpandedSubset_def Let_def CutSubset_def
    by (simp add: CutSubsetFaceBuilder_def CreateSubsetPlan_def) (auto simp: feature_library_def feature_font_def)
  have i: "sd_design_space (pc_init_subset (initial_context feature_library mixed_compiler [])) = []"
    "pc_built_subsets (initial_context feature_library mixed_compiler []) = Map.empty"
    "pc_patch_set_url_templates (initial_context feature_library mixed_compiler []) = Map.empty"
    "pc_glyph_keyed_compat_ids (initial_context feature_library mixed_compiler []) = Map.empty"
    "pc_next_patch_set_id (initial_context feature_library mixed_compiler []) = 1"
    "pc_table_keyed_patch_id_map (initial_context feature_library mixed_compiler []) = []"
    by (simp_all add: initial_context_def Let_def ProcessingContext_def AddInitSubsetDefaults_def mixed_compiler_fields SubsetDefinition_def)
  show ?thesis by (simp add: expanded_context_def Let_def n long h) (auto simp: i)
qed

lemma mixed_tables:
  "\<exists>font. AddToFont pack_harfbuzz (\<lambda>n. n) id (feature_font k) \<lparr>it_url_template = UrlTemplate mixed_compiler 0, it_id = id0, it_patch_map = []\<rparr>
     (Some \<lparr>it_url_template = UrlTemplate mixed_compiler 1, it_id = id1, it_patch_map = [glyph_entry]\<rparr>) = Inr font"
proof -
  let ?face = "feature_font k"
  have none: "CffCharStringsOffset pack_harfbuzz ?face = Inr None" "Cff2CharStringsOffset pack_harfbuzz ?face = Inr None"
    by (simp_all add: CffCharStringsOffset_def Cff2CharStringsOffset_def CharStringsOffset_def TableData_def feature_font_tables feature_tables_def
        kHead_value kCFF_def kCFF2_def HB_TAG_def)
  have "\<exists>bs. Serialize (\<lambda>n. n) id \<lparr>it_url_template = UrlTemplate mixed_compiler 0, it_id = id0, it_patch_map = []\<rparr> None None = Inr bs"
    by (cases id0) (simp add: format_eval Serialize_def UrlTemplate_def AppendLiteralToTemplate_def mixed_compiler_fields
        PickDefaultEncoding_def count_encoding_def NumEntries_def header_min_length_def offset_field_def EncodeEntries_def)
  moreover have "\<exists>bs. Serialize (\<lambda>n. n) id \<lparr>it_url_template = UrlTemplate mixed_compiler 1, it_id = id1, it_patch_map = [glyph_entry]\<rparr> None None = Inr bs"
    by (cases id1) (simp add: format_eval Serialize_def UrlTemplate_def AppendLiteralToTemplate_def mixed_compiler_fields glyph_entry_def decimal.simps
        PickDefaultEncoding_def count_encoding_def NumEntries_def header_min_length_def offset_field_def EncodeEntries_def Coverage_def)
  ultimately show ?thesis by (auto simp: AddToFont_def none)
qed

text \<open>The only node gets the first patch set.\<close>

lemma mixed_patch_set:
  assumes c: "pc_patch_set_url_templates c = Map.empty" "pc_next_patch_set_id c = 1" "pc_fully_expanded_subset c = feature_font n"
  shows "\<exists>c' k. EnsureGlyphKeyedPatchesPopulated feature_library mixed_compiler [] c = Some (c', Inr (UrlTemplate mixed_compiler 1, k)) \<and>
    pc_built_subsets c' = pc_built_subsets c \<and> pc_patch_set_url_templates c' = [[] \<mapsto> UrlTemplate mixed_compiler 1] \<and>
    pc_table_keyed_patch_id_map c' = pc_table_keyed_patch_id_map c \<and> pc_fully_expanded_subset c' = feature_font n"
proof -
  let ?c = "c\<lparr>pc_next_patch_set_id := (1 + 1) mod TWO32\<rparr>"
  obtain c1 k where g: "GenerateCompatId feature_library ?c = (c1, k)" by fastforce
  have c1: "c1 = ?c\<lparr>pc_random_count := pc_random_count c + 4\<rparr>" using g by (auto simp: GenerateCompatId_def Let_def)
  define c2 where "c2 = c1\<lparr>pc_patch_set_url_templates := (pc_patch_set_url_templates c1)([] \<mapsto> UrlTemplate mixed_compiler 1),
    pc_glyph_keyed_compat_ids := (pc_glyph_keyed_compat_ids c1)([] \<mapsto> k)\<rparr>"
  have a: "AllocatePatchSet feature_library mixed_compiler [] c = (c2, UrlTemplate mixed_compiler 1, k, True)"
    unfolding AllocatePatchSet_def c(1,2) g Let_def prod.case by (simp add: c2_def)
  obtain p where p: "CreatePatch pack_harfbuzz copy_diff \<lparr>gk_font = feature_font n, gk_base_compat_id = k, gk_tags = [kGlyf, kGvar, kCFF, kCFF2]\<rparr> (IntSet [1]) = Ok p"
    using mixed_patch by blast
  have full: "pc_fully_expanded_subset c2 = feature_font n" by (simp add: c2_def c1 c(3))
  have h: "lb_hb feature_library = pack_harfbuzz" "lb_brotli feature_library = copy_diff" by (simp_all add: feature_library_def)
  have url: "PatchToUrl (lb_base32 feature_library) (lb_base64 feature_library) (UrlTemplate mixed_compiler 1) (of_nat 1) = Inr (glyph_url feature_library mixed_compiler 1 1)"
    using mixed_compiler_ok by (intro glyph_url) (simp_all add: compiler_ok_def)
  have "add_glyph_patch feature_library mixed_compiler \<lparr>gk_font = feature_font n, gk_base_compat_id = k, gk_tags = [kGlyf, kGvar, kCFF, kCFF2]\<rparr>
      (UrlTemplate mixed_compiler 1) 1 c2 = Some (c2\<lparr>pc_patches := (pc_patches c2)(glyph_url feature_library mixed_compiler 1 1 \<mapsto> p)\<rparr>, Inr ())"
    unfolding add_glyph_patch_def url by (simp add: mixed_compiler_fields h p st_read_def del: One_nat_def)
  then have "EnsureGlyphKeyedPatchesPopulated feature_library mixed_compiler [] c =
      Some (c2\<lparr>pc_patches := (pc_patches c2)(glyph_url feature_library mixed_compiler 1 1 \<mapsto> p)\<rparr>, Inr (UrlTemplate mixed_compiler 1, k))"
    by (simp add: EnsureGlyphKeyedPatchesPopulated_def mixed_compiler_fields a full mixed_segments(2) Let_def st_read_def del: One_nat_def)
  then show ?thesis by (auto simp: c2_def c1 c)
qed

lemma mixed_run:
  "\<exists>c0 c r. expanded_context feature_library mixed_compiler [] = Ok c0 \<and>
    CompileNode feature_library mixed_compiler (\<lambda>_ _ _. None) 1 (pc_init_subset c0) True c0 = Some (c, Inr r) \<and> few mixed_compiler c"
proof -
  obtain c0 n where c0: "expanded_context feature_library mixed_compiler [] = Ok c0" "sd_design_space (pc_init_subset c0) = []" "pc_built_subsets c0 = Map.empty"
    "pc_patch_set_url_templates c0 = Map.empty" "pc_next_patch_set_id c0 = 1" "pc_table_keyed_patch_id_map c0 = []" "pc_fully_expanded_subset c0 = feature_font n"
    using mixed_start by blast
  obtain c1 id0 where id0: "GenerateCompatId feature_library c0 = (c1, id0)" by fastforce
  have c1: "c1 = c0\<lparr>pc_random_count := pc_random_count c0 + 4\<rparr>" using id0 by (auto simp: GenerateCompatId_def Let_def)
  obtain c2 id1 where e: "EnsureGlyphKeyedPatchesPopulated feature_library mixed_compiler [] c1 = Some (c2, Inr (UrlTemplate mixed_compiler 1, id1))"
    and c2: "pc_patch_set_url_templates c2 = [[] \<mapsto> UrlTemplate mixed_compiler 1]" "pc_table_keyed_patch_id_map c2 = []" "pc_fully_expanded_subset c2 = feature_font n"
    using mixed_patch_set [of c1 n] c0 by (auto simp: c1)
  obtain k where cut: "CutSubset feature_library mixed_compiler (cut_context c2) (feature_font n) (pc_init_subset c0) True = Ok (feature_font k)"
    using CutSubset_mixed by blast
  obtain font where font: "AddToFont pack_harfbuzz (\<lambda>n. n) id (feature_font k) \<lparr>it_url_template = UrlTemplate mixed_compiler 0, it_id = id0, it_patch_map = []\<rparr>
     (Some \<lparr>it_url_template = UrlTemplate mixed_compiler 1, it_id = id1, it_patch_map = [glyph_entry]\<rparr>) = Inr font" using mixed_tables by blast
  have l: "lb_hb feature_library = pack_harfbuzz" "lb_conv feature_library = (\<lambda>n. n)" "lb_fconv feature_library = id"
    "RoundTripWoff2 feature_library font False = Inr font" by (simp_all add: feature_library_def RoundTripWoff2_def)
  have none: "OutgoingEdges [] d 1 = Some []" for d by (simp add: OutgoingEdges_def RemainingSubsets_def)
  have g: "PopulateGlyphKeyedPatchMap mixed_compiler [] = Inr [glyph_entry]"
    by (simp add: PopulateGlyphKeyedPatchMap_def mixed_compiler_fields AddEntry_def glyph_entry_def Coverage_def ift_eval)
  have t: "PopulateTableKeyedPatchMap L cm rec d b i u [] encoding [] c2 = Some (c2, Inr [])" for L :: "('i, 'p) library" and cm rec d b i u encoding
    by (simp add: PopulateTableKeyedPatchMap_def EstimateEdgeSizes_def EdgesToActivationConditions_def ActivationConditionsToPatchMapEntries_def st_read_def)
  have f: "node_font feature_library mixed_compiler rec (pc_init_subset c0) True [] (feature_font k) id0 (UrlTemplate mixed_compiler 1) id1 c2 = Some (c2, Inr font)" for rec
    using font by (simp add: node_font_def Let_def SetUrlTemplate_def SetId_def IFTTable_def g t l mixed_compiler_fields st_read_def del: One_nat_def)
  define r where "r = \<lparr>cr_font_data = font, cr_table_keyed_compat_id = id0, cr_glyph_keyed_compat_id = id1, cr_glyph_keyed_url_template = UrlTemplate mixed_compiler 1\<rparr>"
  have "CompileStep feature_library mixed_compiler rec (pc_init_subset c0) True c0 = Some (store_result (pc_init_subset c0) r c2, Inr r)" for rec
    by (subst CompileStep_def) (simp add: id0 c0(2,3) e none c2(3) cut f r_def mixed_compiler_fields st_read_def Let_def del: One_nat_def)
  then have "CompileNode feature_library mixed_compiler (\<lambda>_ _ _. None) 1 (pc_init_subset c0) True c0 = Some (store_result (pc_init_subset c0) r c2, Inr r)" by simp
  moreover have "few mixed_compiler (store_result (pc_init_subset c0) r c2)" by (simp add: few_def store_result_def c2 mixed_compiler_fields)
  ultimately show ?thesis using c0(1) by blast
qed

section \<open>Glyph keyed patches\<close>

text \<open>
  C2: in mixed mode every node that is built, the root among them, has a patch for every glyph segment that a
  condition names, under the URL that the URL template of its glyph keyed mapping gives. It reads back to the
  compatibility id of this mapping, the glyphs of the segment, and the data of these glyphs in the fully expanded
  font at the design space of the node.
\<close>

theorem compiled_glyph_patches:
  assumes ok: "compiler_ok L cm" and decode: "\<And>b D p. lb_brotli L b D = Inr p \<Longrightarrow> decode b p (length D) = Some D"
    and c0: "expanded_context L cm face = Ok c0"
    and run: "CompileNode L cm (\<lambda>_ _ _. None) depth (pc_init_subset c0) True c0 = Some (c, Inr r)"
    and few: "few cm c" and mixed: "IsMixedMode cm" and index: "index \<in> members (reachable_segments cm)"
  shows "pc_built_subsets c (pc_init_subset c0) = Some r \<and> (\<forall>node x. pc_built_subsets c node = Some x \<longrightarrow>
    (\<exists>url patch gids font tags ds. PatchToUrl (lb_base32 L) (lb_base64 L) (cr_glyph_keyed_url_template x) (of_nat index) = Inr url \<and>
      pc_patches c url = Some patch \<and> Mapping.lookup (cm_glyph_data_patches cm) index = Some gids \<and>
      instance_of L cm c (sd_design_space node) = Ok font \<and>
      list_all2 (\<lambda>(tag, g) d. glyph_data (lb_hb L) font tag g = Ok d) (List.product tags (to_vector gids)) ds \<and>
      read_glyph_patch decode patch = Inr (int (HB_TAG ''ifgk''), CompatId_values (cr_glyph_keyed_compat_id x), map int (to_vector gids), map int tags, ds)))"
proof -
  note compiled = compiled_context [OF ok c0 run]
  have good: "good L cm c" using compiled advance_good by blast
  show ?thesis
  proof (intro conjI allI impI)
    show "pc_built_subsets c (pc_init_subset c0) = Some r" using compiled by blast
    fix node x assume x: "pc_built_subsets c node = Some x"
    from node_glyph_patches [OF ok good few mixed x index] obtain url p gids font where
      u: "PatchToUrl (lb_base32 L) (lb_base64 L) (cr_glyph_keyed_url_template x) (of_nat index) = Inr url" "pc_patches c url = Some p"
        "Mapping.lookup (cm_glyph_data_patches cm) index = Some gids" "instance_of L cm c (sd_design_space node) = Ok font"
      and p: "CreatePatch (lb_hb L) (lb_brotli L) \<lparr>gk_font = font, gk_base_compat_id = cr_glyph_keyed_compat_id x, gk_tags = [kGlyf, kGvar, kCFF, kCFF2]\<rparr> gids = Ok p"
      unfolding glyph_patch_def by blast
    from CreatePatch_reads [where decode = decode, OF p decode]
    show "\<exists>url patch gids font tags ds. PatchToUrl (lb_base32 L) (lb_base64 L) (cr_glyph_keyed_url_template x) (of_nat index) = Inr url \<and>
      pc_patches c url = Some patch \<and> Mapping.lookup (cm_glyph_data_patches cm) index = Some gids \<and>
      instance_of L cm c (sd_design_space node) = Ok font \<and>
      list_all2 (\<lambda>(tag, g) d. glyph_data (lb_hb L) font tag g = Ok d) (List.product tags (to_vector gids)) ds \<and>
      read_glyph_patch decode patch = Inr (int (HB_TAG ''ifgk''), CompatId_values (cr_glyph_keyed_compat_id x), map int (to_vector gids), map int tags, ds)"
      using u by fastforce
  qed
qed

lemma compiled_glyph_patches_witness:
  "\<exists>c0 c r url patch tags ds. expanded_context feature_library mixed_compiler [] = Ok c0 \<and>
    CompileNode feature_library mixed_compiler (\<lambda>_ _ _. None) 1 (pc_init_subset c0) True c0 = Some (c, Inr r) \<and>
    PatchToUrl two_letters (\<lambda>b. b) (cr_glyph_keyed_url_template r) 1 = Inr url \<and> pc_patches c url = Some patch \<and>
    read_glyph_patch copy_patch patch = Inr (int (HB_TAG ''ifgk''), CompatId_values (cr_glyph_keyed_compat_id r), [1], tags, ds)"
proof -
  obtain c0 c r where run: "expanded_context feature_library mixed_compiler [] = Ok c0"
    "CompileNode feature_library mixed_compiler (\<lambda>_ _ _. None) 1 (pc_init_subset c0) True c0 = Some (c, Inr r)" "few mixed_compiler c" using mixed_run by blast
  have decode: "lb_brotli feature_library b D = Inr p \<Longrightarrow> copy_patch b p (length D) = Some D" for b D p
    by (simp add: feature_library_def copy_decodes)
  have index: "1 \<in> members (reachable_segments mixed_compiler)" unfolding mixed_segments(1) by simp
  have v: "to_vector (IntSet [1]) = [1]" by (simp add: ift_eval)
  have l: "lb_base32 feature_library = two_letters" "lb_base64 feature_library = (\<lambda>b. b)" by (simp_all add: feature_library_def)
  from compiled_glyph_patches [where decode = copy_patch, OF mixed_compiler_ok decode run mixed_compiler_fields(1) index]
  obtain url patch gids tags ds where "PatchToUrl two_letters (\<lambda>b. b) (cr_glyph_keyed_url_template r) (of_nat 1) = Inr url" "pc_patches c url = Some patch"
    "Mapping.lookup (cm_glyph_data_patches mixed_compiler) 1 = Some gids"
    "read_glyph_patch copy_patch patch = Inr (int (HB_TAG ''ifgk''), CompatId_values (cr_glyph_keyed_compat_id r), map int (to_vector gids), map int tags, ds)"
    unfolding l by meson
  with run v show ?thesis by (auto simp: mixed_compiler_fields(7) simp del: One_nat_def)
qed

end
