(* ===== verification/Brotli_Bits.thy ===== *)
theory Brotli_Bits
  imports Bit_Buffer Outcome
begin

text \<open>
  \<^verbatim>\<open>BrotliBitBuffer\<close> (\<^verbatim>\<open>brotli/brotli_bit_buffer.cc\<close>, \<^verbatim>\<open>.h\<close>): numbers of any width written into bytes, least
  significant bit first. What a buffer holds is the list of the bits that were written.
\<close>

record brotli_bit_buffer =
  bb_buffer :: bytes
  bb_bit_index :: nat

definition BrotliBitBuffer :: brotli_bit_buffer where
  "BrotliBitBuffer = \<lparr>bb_buffer = [], bb_bit_index = 8\<rparr>"

text \<open>
  A round of the loop: the bits that fit in the current byte, or in a new one. An index above 8 does not
  occur; the loop has \<open>left\<close> bits to write.
\<close>

definition open_byte :: "brotli_bit_buffer \<Rightarrow> brotli_bit_buffer" where
  "open_byte b = (if bb_bit_index b = 8 then \<lparr>bb_buffer = bb_buffer b @ [0], bb_bit_index = 0\<rparr> else b)"

definition write_bits :: "32 word \<Rightarrow> nat \<Rightarrow> brotli_bit_buffer \<Rightarrow> brotli_bit_buffer" where
  "write_bits bits to_write_count b =
     b\<lparr>bb_buffer := update_last (\<lambda>x. x OR (ucast (push_bit (bb_bit_index b) bits) AND mask (to_write_count + bb_bit_index b))) (bb_buffer b),
       bb_bit_index := bb_bit_index b + to_write_count\<rparr>"

function append_loop :: "32 word \<Rightarrow> nat \<Rightarrow> brotli_bit_buffer \<Rightarrow> brotli_bit_buffer" where
  "append_loop bits left b =
     (if left = 0 \<or> 8 < bb_bit_index b then b
      else let b = open_byte b; to_write_count = min (8 - bb_bit_index b) left
           in append_loop (drop_bit to_write_count bits) (left - to_write_count) (write_bits bits to_write_count b))"
  by pat_completeness auto
termination by (relation "measure (\<lambda>(bits, left, b). left)") (auto simp: open_byte_def)

declare append_loop.simps [simp del]

definition append_number :: "32 word \<Rightarrow> nat \<Rightarrow> brotli_bit_buffer \<Rightarrow> brotli_bit_buffer" where
  "append_number bits cnt b = append_loop bits (min 32 cnt) b"

definition lookup :: "nat list" where
  "lookup = [0x0, 0x8, 0x4, 0xc, 0x2, 0xa, 0x6, 0xe, 0x1, 0x9, 0x5, 0xd, 0x3, 0xb, 0x7, 0xf]"

definition reverse_byte :: "byte \<Rightarrow> byte" where
  "reverse_byte v = push_bit 4 (of_nat (lookup ! unat (v AND 15))) OR of_nat (lookup ! unat (drop_bit 4 v))"

definition append_prefix_code :: "byte \<Rightarrow> nat \<Rightarrow> brotli_bit_buffer \<Rightarrow> brotli_bit_buffer" where
  "append_prefix_code bits cnt b = append_number (ucast (drop_bit (8 - min 8 cnt) (reverse_byte bits))) (min 8 cnt) b"

definition append_raw :: "bytes \<Rightarrow> brotli_bit_buffer \<Rightarrow> brotli_bit_buffer" where
  "append_raw bs b = b\<lparr>bb_buffer := bb_buffer b @ bs\<rparr>"

definition pad_to_end_of_byte :: "brotli_bit_buffer \<Rightarrow> brotli_bit_buffer" where
  "pad_to_end_of_byte b = b\<lparr>bb_bit_index := 8\<rparr>"

definition is_byte_aligned :: "brotli_bit_buffer \<Rightarrow> bool" where
  "is_byte_aligned b = (bb_bit_index b = 8)"

section \<open>The bits of a buffer\<close>

definition bb_bits :: "brotli_bit_buffer \<Rightarrow> bool list" where
  "bb_bits b = take (8 * length (bb_buffer b) - (8 - bb_bit_index b)) (stream (bb_buffer b))"

definition bb_ok :: "brotli_bit_buffer \<Rightarrow> bool" where
  "bb_ok b \<longleftrightarrow> 0 < bb_bit_index b \<and> bb_bit_index b \<le> 8 \<and> (bb_buffer b = [] \<longrightarrow> bb_bit_index b = 8) \<and>
     (\<forall>i. bb_bit_index b \<le> i \<longrightarrow> \<not> bit (last (bb_buffer b)) i)"

definition number_bits :: "32 word \<Rightarrow> nat \<Rightarrow> bool list" where
  "number_bits v n = map (bit v) [0..<n]"

lemma length_number_bits [simp]: "length (number_bits v n) = n"
  by (simp add: number_bits_def)

lemma bb_ok_start [simp]: "bb_ok BrotliBitBuffer" "bb_bits BrotliBitBuffer = []"
  by (simp_all add: bb_ok_def BrotliBitBuffer_def bb_bits_def)

text \<open>A buffer that is open at bit \<open>i\<close> of its last byte.\<close>

definition open_at :: "bytes \<Rightarrow> byte \<Rightarrow> nat \<Rightarrow> brotli_bit_buffer \<Rightarrow> bool" where
  "open_at xs x i b \<longleftrightarrow> b = \<lparr>bb_buffer = xs @ [x], bb_bit_index = i\<rparr> \<and> i \<le> 8 \<and> (\<forall>j. i \<le> j \<longrightarrow> \<not> bit x j)"

lemma open_at_bits: "open_at xs x i b \<Longrightarrow> bb_bits b = stream xs @ take i (byte_bits x)"
  by (auto simp: open_at_def bb_bits_def)

lemma open_at_ok: "open_at xs x i b \<Longrightarrow> 0 < i \<Longrightarrow> bb_ok b"
  by (auto simp: open_at_def bb_ok_def)

lemma open_byte:
  assumes "bb_ok b"
  shows "\<exists>xs x i. open_at xs x i (open_byte b) \<and> i < 8 \<and> stream xs @ take i (byte_bits x) = bb_bits b"
proof (cases "bb_bit_index b = 8")
  case True
  then have "open_at (bb_buffer b) 0 0 (open_byte b)" by (simp add: open_at_def open_byte_def)
  moreover have "bb_bits b = stream (bb_buffer b)" using True by (simp add: bb_bits_def)
  ultimately show ?thesis by (intro exI conjI) auto
next
  case False
  then obtain xs x where b: "bb_buffer b = xs @ [x]" using assms by (cases "bb_buffer b" rule: rev_cases) (auto simp: bb_ok_def)
  then have "open_at xs x (bb_bit_index b) (open_byte b)" using assms False by (auto simp: open_at_def open_byte_def bb_ok_def)
  moreover have "bb_bits b = stream xs @ take (bb_bit_index b) (byte_bits x)" using assms b by (auto simp: bb_bits_def bb_ok_def)
  ultimately show ?thesis using assms False by (intro exI conjI) (auto simp: bb_ok_def)
qed

lemma write_bits_open:
  assumes "open_at xs x i b" and "i + k \<le> 8"
  shows "\<exists>y. open_at xs y (i + k) (write_bits v k b) \<and> take (i + k) (byte_bits y) = take i (byte_bits x) @ number_bits v k"
proof -
  define y where "y = x OR (ucast (push_bit i v) AND mask (k + i))"
  have low: "bit y j \<longleftrightarrow> (if j < i then bit x j else j < i + k \<and> bit v (j - i))" for j
    using assms unfolding y_def open_at_def
    by (auto simp: bit_simps not_less dest: bit_imp_le_length)
  have "write_bits v k b = \<lparr>bb_buffer = xs @ [y], bb_bit_index = i + k\<rparr>"
    using assms by (simp add: write_bits_def open_at_def y_def update_last_snoc)
  then have "open_at xs y (i + k) (write_bits v k b)" using assms low by (simp add: open_at_def)
  moreover have "take (i + k) (byte_bits y) = take i (byte_bits x) @ number_bits v k"
    using assms by (intro nth_equalityI) (auto simp: byte_bits_def number_bits_def nth_append low)
  ultimately show ?thesis by blast
qed

lemma number_bits_split: "k \<le> n \<Longrightarrow> number_bits v n = number_bits v k @ number_bits (drop_bit k v) (n - k)"
  by (intro nth_equalityI) (auto simp: number_bits_def nth_append bit_simps)

lemma append_loop:
  assumes "bb_ok b"
  shows "bb_ok (append_loop v n b) \<and> bb_bits (append_loop v n b) = bb_bits b @ number_bits v n"
  using assms
proof (induction v n b rule: append_loop.induct)
  case (1 v n b)
  show ?case
  proof (cases "n = 0")
    case True
    with "1.prems" show ?thesis by (simp add: append_loop.simps number_bits_def)
  next
    case False
    have i8: "\<not> 8 < bb_bit_index b" using "1.prems" by (simp add: bb_ok_def)
    obtain xs x i where o: "open_at xs x i (open_byte b)" "i < 8" "stream xs @ take i (byte_bits x) = bb_bits b" using open_byte [OF "1.prems"] by blast
    define k where "k = min (8 - i) n"
    have i: "bb_bit_index (open_byte b) = i" using o(1) by (simp add: open_at_def)
    have step: "append_loop v n b = append_loop (drop_bit k v) (n - k) (write_bits v k (open_byte b))"
      using False i8 by (subst append_loop.simps) (simp add: Let_def i k_def)
    have "i + k \<le> 8" using o(2) by (simp add: k_def)
    from write_bits_open [OF o(1) this] obtain y where y: "open_at xs y (i + k) (write_bits v k (open_byte b))"
      "take (i + k) (byte_bits y) = take i (byte_bits x) @ number_bits v k" by blast
    have "0 < k" using False o(2) by (simp add: k_def)
    then have ok: "bb_ok (write_bits v k (open_byte b))" using open_at_ok [OF y(1)] by simp
    have IH: "bb_ok (append_loop (drop_bit k v) (n - k) (write_bits v k (open_byte b))) \<and>
      bb_bits (append_loop (drop_bit k v) (n - k) (write_bits v k (open_byte b))) = bb_bits (write_bits v k (open_byte b)) @ number_bits (drop_bit k v) (n - k)"
      using "1.IH" [OF _ refl _ _] ok False i8 by (simp add: i k_def)
    have "bb_bits (write_bits v k (open_byte b)) = bb_bits b @ number_bits v k" using open_at_bits [OF y(1)] y(2) o(3) by simp
    moreover have "number_bits v n = number_bits v k @ number_bits (drop_bit k v) (n - k)" by (rule number_bits_split) (simp add: k_def)
    ultimately show ?thesis using IH step by simp
  qed
qed

lemma append_number_bits:
  assumes "bb_ok b"
  shows "bb_ok (append_number v n b)" and "bb_bits (append_number v n b) = bb_bits b @ number_bits v (min 32 n)"
  using append_loop [OF assms] by (simp_all add: append_number_def)

lemma pad_bits:
  assumes "bb_ok b"
  shows "bb_ok (pad_to_end_of_byte b)" and "bb_bits (pad_to_end_of_byte b) = bb_bits b @ replicate (8 - bb_bit_index b) False"
    and "bb_bits (pad_to_end_of_byte b) = stream (bb_buffer b)"
proof -
  show "bb_ok (pad_to_end_of_byte b)" using assms by (auto simp: bb_ok_def pad_to_end_of_byte_def bit_word_def dest: bit_imp_le_length)
  show s: "bb_bits (pad_to_end_of_byte b) = stream (bb_buffer b)" by (simp add: bb_bits_def pad_to_end_of_byte_def)
  show "bb_bits (pad_to_end_of_byte b) = bb_bits b @ replicate (8 - bb_bit_index b) False"
  proof (cases "bb_buffer b" rule: rev_cases)
    case Nil
    then have "bb_bits b = []" by (simp add: bb_bits_def)
    then show ?thesis using assms Nil unfolding s by (simp add: bb_ok_def)
  next
    case (snoc xs x)
    have "byte_bits x = take (bb_bit_index b) (byte_bits x) @ replicate (8 - bb_bit_index b) False"
      using assms snoc by (intro nth_equalityI) (auto simp: nth_append byte_bits_def bb_ok_def)
    then have "stream (bb_buffer b) = stream xs @ take (bb_bit_index b) (byte_bits x) @ replicate (8 - bb_bit_index b) False" using snoc by simp
    moreover have "bb_bits b = stream xs @ take (bb_bit_index b) (byte_bits x)" using assms snoc by (auto simp: bb_bits_def bb_ok_def)
    ultimately show ?thesis using s by simp
  qed
qed

lemma raw_bits:
  assumes "bb_ok b" and "is_byte_aligned b"
  shows "bb_ok (append_raw bs b)" and "bb_bits (append_raw bs b) = bb_bits b @ stream bs"
  using assms by (auto simp: bb_ok_def append_raw_def is_byte_aligned_def bb_bits_def dest: bit_imp_le_length)

lemma aligned_pad [simp]: "is_byte_aligned (pad_to_end_of_byte b)"
  by (simp add: is_byte_aligned_def pad_to_end_of_byte_def)

lemma aligned_raw [simp]: "is_byte_aligned (append_raw bs b) = is_byte_aligned b"
  by (simp add: is_byte_aligned_def append_raw_def)

text \<open>The position in the last byte.\<close>

lemma bit_index_length:
  assumes "bb_ok b"
  shows "(length (bb_bits b) + (8 - bb_bit_index b)) mod 8 = 0" and "is_byte_aligned b \<longleftrightarrow> length (bb_bits b) mod 8 = 0"
proof -
  have l: "length (bb_bits b) + (8 - bb_bit_index b) = 8 * length (bb_buffer b)"
    using assms by (cases "bb_buffer b") (auto simp: bb_bits_def bb_ok_def)
  then show "(length (bb_bits b) + (8 - bb_bit_index b)) mod 8 = 0" by simp
  have "0 < bb_bit_index b" "bb_bit_index b \<le> 8" using assms by (simp_all add: bb_ok_def)
  then show "is_byte_aligned b \<longleftrightarrow> length (bb_bits b) mod 8 = 0"
    using l unfolding is_byte_aligned_def by presburger
qed

section \<open>Prefix codes\<close>

lemma lookup_reverses: "n < 16 \<Longrightarrow> i < 4 \<Longrightarrow> bit (lookup ! n) i = bit n (3 - i)"
proof -
  have "list_all (\<lambda>n. list_all (\<lambda>i. bit (lookup ! n) i = bit n (3 - i)) [0..<4]) [0..<16]" by code_simp
  then show "n < 16 \<Longrightarrow> i < 4 \<Longrightarrow> bit (lookup ! n) i = bit n (3 - i)" by (simp add: list_all_iff)
qed

lemma lookup_small: "n < 16 \<Longrightarrow> lookup ! n < 16"
proof -
  have "list_all (\<lambda>n. lookup ! n < 16) [0..<16]" by code_simp
  then show "n < 16 \<Longrightarrow> lookup ! n < 16" by (simp add: list_all_iff)
qed

lemma reverse_byte_bit:
  assumes "i < 8"
  shows "bit (reverse_byte v) i = bit v (7 - i)"
proof -
  have low: "unat (v AND 15) < 16" "unat (drop_bit 4 v) < 16"
  proof -
    have "v AND 15 \<le> 15" by (rule word_and_le1)
    then show "unat (v AND 15) < 16" by (simp add: word_le_nat_alt)
    have "unat v < 256" using unsigned_less [of v] by simp
    moreover have "unat (drop_bit 4 v) = unat v div 16" by (simp add: drop_bit_eq_div unat_div)
    ultimately show "unat (drop_bit 4 v) < 16" by (simp add: less_mult_imp_div_less)
  qed
  have small: "\<not> bit n j" if "n < 16" "4 \<le> j" for n j :: nat
  proof -
    have "(2 :: nat) ^ 4 \<le> 2 ^ j" using that(2) by (intro power_increasing) auto
    then have "n < 2 ^ j" using that(1) by simp
    then show ?thesis by (simp add: bit_iff_odd)
  qed
  show ?thesis
  proof (cases "i < 4")
    case True
    then have "bit (reverse_byte v) i = bit (lookup ! unat (drop_bit 4 v)) i"
      using assms by (simp add: reverse_byte_def bit_simps)
    also have "\<dots> = bit (unat (drop_bit 4 v)) (3 - i)" by (rule lookup_reverses [OF low(2) True])
    also have "\<dots> = bit v (7 - i)" using True by (auto simp: bit_simps)
    finally show ?thesis .
  next
    case False
    have "\<not> bit (lookup ! unat (drop_bit 4 v)) i" using False by (intro small lookup_small low) simp
    then have "bit (reverse_byte v) i = bit (lookup ! unat (v AND 15)) (i - 4)"
      using assms False by (auto simp: reverse_byte_def bit_simps)
    also have "\<dots> = bit (unat (v AND 15)) (3 - (i - 4))" using False assms by (intro lookup_reverses [OF low(1)]) auto
    also have "\<dots> = bit v (7 - i)" using False assms by (auto simp: bit_simps)
    finally show ?thesis .
  qed
qed

text \<open>A prefix code is written from its most significant bit on.\<close>

lemma append_prefix_code_bits:
  assumes "bb_ok b" and "n \<le> 8"
  shows "bb_ok (append_prefix_code v n b)" and "bb_bits (append_prefix_code v n b) = bb_bits b @ rev (map (bit v) [0..<n])"
proof -
  have "number_bits (ucast (drop_bit (8 - n) (reverse_byte v))) n = rev (map (bit v) [0..<n])"
    using assms(2) by (intro nth_equalityI) (auto simp: number_bits_def rev_nth bit_simps reverse_byte_bit)
  then show "bb_ok (append_prefix_code v n b)" "bb_bits (append_prefix_code v n b) = bb_bits b @ rev (map (bit v) [0..<n])"
    using append_number_bits [OF assms(1)] assms(2) by (simp_all add: append_prefix_code_def min_absorb2)
qed

end
