(* ===== verification/Brotli_Stream.thy ===== *)
theory Brotli_Stream
  imports Brotli_Bits
begin

text \<open>
  \<^verbatim>\<open>BrotliStream\<close> (\<^verbatim>\<open>brotli/brotli_stream.cc\<close>, \<^verbatim>\<open>.h\<close>) and \<^verbatim>\<open>SharedBrotliEncoder\<close>
  (\<^verbatim>\<open>brotli/shared_brotli_encoder.h\<close>): a compressed stream that is put together from references to a dictionary,
  uncompressed bytes, and what the encoder of the brotli library writes. The library is a record of functions.
\<close>

section \<open>The brotli library\<close>

text \<open>
  The encoder has states of type \<open>'e\<close>; \<open>None\<close> is a null pointer or a call that returns false. The call
  \<^verbatim>\<open>PrefixEncodeCopyDistance\<close> is a function from its inputs to the code and the extra bits.
\<close>

datatype encoder_parameter = QUALITY | SIZE_HINT | MODE_FONT | STREAM_OFFSET | LGWIN
datatype encoder_operation = OPERATION_PROCESS | OPERATION_FLUSH | OPERATION_FINISH

record 'e brotli_library =
  bl_create :: "'e option"
  bl_set_parameter :: "encoder_parameter \<Rightarrow> nat \<Rightarrow> 'e \<Rightarrow> 'e option"
  bl_prepare_dictionary :: "bytes \<Rightarrow> bool"
  bl_attach_dictionary :: "bytes \<Rightarrow> 'e \<Rightarrow> 'e option"
  bl_compress_stream :: "encoder_operation \<Rightarrow> bytes \<Rightarrow> 'e \<Rightarrow> bool \<times> nat \<times> 'e"
  bl_take_output :: "'e \<Rightarrow> bytes \<times> 'e"
  bl_is_finished :: "'e \<Rightarrow> bool"
  bl_has_more_output :: "'e \<Rightarrow> bool"
  bl_prefix_encode :: "nat \<Rightarrow> nat \<Rightarrow> nat \<Rightarrow> nat \<times> nat"

definition CreateDictionary :: "'e brotli_library \<Rightarrow> bytes \<Rightarrow> bytes option" where
  "CreateDictionary L dict = (if bl_prepare_dictionary L dict then Some dict else None)"

text \<open>\<open>None\<close> here: a parameter of a null pointer is set. \<open>Some None\<close>: no encoder.\<close>

definition CreateEncoder :: "'e brotli_library \<Rightarrow> nat \<Rightarrow> nat \<Rightarrow> nat \<Rightarrow> bytes option \<Rightarrow> 'e option option" where
  "CreateEncoder L quality font_size stream_offset dictionary = (case bl_create L of None \<Rightarrow> None | Some state \<Rightarrow>
     (case bl_set_parameter L QUALITY quality state of None \<Rightarrow> Some None | Some state \<Rightarrow>
     (case (if font_size \<noteq> 0 then bl_set_parameter L SIZE_HINT font_size state else Some state) of None \<Rightarrow> Some None | Some state \<Rightarrow>
     (case (case dictionary of Some d \<Rightarrow> bl_attach_dictionary L d state | None \<Rightarrow> Some state) of None \<Rightarrow> Some None | Some state \<Rightarrow>
     (case bl_set_parameter L MODE_FONT 0 state of None \<Rightarrow> Some None | Some state \<Rightarrow>
        Some (if stream_offset \<noteq> 0 then bl_set_parameter L STREAM_OFFSET stream_offset state else Some state))))))"

definition IsFinished :: "'e brotli_library \<Rightarrow> 'e \<Rightarrow> encoder_operation \<Rightarrow> bool \<Rightarrow> bool" where
  "IsFinished L state current_op is_last =
     (if current_op = OPERATION_PROCESS then False else if is_last then bl_is_finished L state else \<not> bl_has_more_output L state)"

text \<open>The loop of \<^verbatim>\<open>CompressToSink\<close>, which the library may keep running: then there is no result.\<close>

partial_function (option) compress_loop :: "'e brotli_library \<Rightarrow> bytes \<Rightarrow> bool \<Rightarrow> bool \<Rightarrow> nat \<Rightarrow> encoder_operation \<Rightarrow> 'e \<Rightarrow> bytes \<Rightarrow> (bool \<times> bytes) option" where
  "compress_loop L derived is_last ok source_index current_op state sink =
     (if ok \<and> (source_index < length derived \<or> \<not> IsFinished L state current_op is_last)
      then let sp = drop source_index derived;
               current_op = (if sp \<noteq> [] then OPERATION_PROCESS else if is_last then OPERATION_FINISH else OPERATION_FLUSH);
               (ok, available_in, state) = bl_compress_stream L current_op sp state;
               (buffer, state) = bl_take_output L state
           in compress_loop L derived is_last ok (source_index + (length sp - available_in)) current_op state (sink @ buffer)
      else Some (ok, sink))"

definition CompressToSink :: "'e brotli_library \<Rightarrow> bytes \<Rightarrow> bool \<Rightarrow> 'e \<Rightarrow> bytes \<Rightarrow> (bool \<times> bytes) option" where
  "CompressToSink L derived is_last state sink = compress_loop L derived is_last True 0 OPERATION_PROCESS state sink"

section \<open>Streams\<close>

record brotli_stream =
  bs_starting_offset :: nat
  bs_uncompressed_size :: nat
  bs_window_bits :: nat
  bs_window_size :: nat
  bs_dictionary_size :: nat
  bs_buffer :: brotli_bit_buffer

definition BrotliStream :: "nat \<Rightarrow> nat \<Rightarrow> nat \<Rightarrow> brotli_stream" where
  "BrotliStream window_bits dictionary_size starting_offset =
     (let window_bits = max (min window_bits 24) 10
      in \<lparr>bs_starting_offset = starting_offset, bs_uncompressed_size = starting_offset, bs_window_bits = window_bits,
          bs_window_size = 2 ^ window_bits - 16, bs_dictionary_size = dictionary_size, bs_buffer = BrotliBitBuffer\<rparr>)"

definition WindowBitsFor :: "nat \<Rightarrow> nat \<Rightarrow> nat" where
  "WindowBitsFor base_size derived_size =
     (case find (\<lambda>bits. (base_size + derived_size) mod TWO32 < 2 ^ bits - 16) [10..<25] of Some bits \<Rightarrow> bits | None \<Rightarrow> 24)"

definition MAX_METABLOCK_SIZE :: nat where "MAX_METABLOCK_SIZE = 2 ^ 24"

definition number :: "nat \<Rightarrow> nat \<Rightarrow> brotli_stream \<Rightarrow> brotli_stream" where
  "number bits cnt s = s\<lparr>bs_buffer := append_number (of_nat bits) cnt (bs_buffer s)\<rparr>"

definition window_codes :: "(nat \<times> nat) list" where
  "window_codes = [(0b0100001, 7), (0b0110001, 7), (0b1000001, 7), (0b1010001, 7), (0b1100001, 7), (0b1110001, 7), (0b0, 1),
     (0b0000001, 7), (0b0011, 4), (0b0101, 4), (0b0111, 4), (0b1001, 4), (0b1011, 4), (0b1101, 4), (0b1111, 4)]"

definition add_stream_header :: "brotli_stream \<Rightarrow> brotli_stream" where
  "add_stream_header s = (case window_codes ! (bs_window_bits s - 10) of (code, width) \<Rightarrow> number code width s)"

definition pad_stream :: "brotli_stream \<Rightarrow> brotli_stream" where
  "pad_stream s = s\<lparr>bs_buffer := pad_to_end_of_byte (bs_buffer s)\<rparr>"

definition add_mlen :: "nat \<Rightarrow> brotli_stream \<Rightarrow> bool \<times> brotli_stream" where
  "add_mlen n s =
     (if n = 0 then (True, pad_stream (number 0 2 (number 0 1 (number 3 2 (number 0 1 s)))))
      else if MAX_METABLOCK_SIZE < n then (False, s)
      else let (num_nibbles, num_nibbles_code) = (if n \<le> 2 ^ 16 then (4, 0) else if n \<le> 2 ^ 20 then (5, 1) else (6, 2));
               s = (if bs_uncompressed_size s = 0 then add_stream_header s else s)
           in (True, number (n - 1) (num_nibbles * 4) (number num_nibbles_code 2 (number 0 1 s))))"

definition add_prefix_tree :: "nat \<Rightarrow> nat \<Rightarrow> brotli_stream \<Rightarrow> brotli_stream" where
  "add_prefix_tree code width s = number code width (number 0 2 (number 1 2 s))"

definition num_of_postfix_bits :: "nat \<Rightarrow> nat" where
  "num_of_postfix_bits distance =
     (if distance \<le> 67108860 then 0 else if distance \<le> 134217720 then 1 else if distance \<le> 268435440 then 2 else 3)"

section \<open>Codes\<close>

definition code_to_extra_bits :: "nat list" where
  "code_to_extra_bits = [0, 0, 0, 0, 0, 0, 0, 0, 1, 1, 2, 2, 3, 3, 4, 4, 5, 5, 6, 7, 8, 9, 10, 24]"

function copy_code_loop :: "nat \<Rightarrow> nat \<Rightarrow> nat \<Rightarrow> nat \<Rightarrow> nat \<times> nat \<times> nat" where
  "copy_code_loop n code max_length prev_max_length =
     (if n \<le> max_length \<or> 23 \<le> code then (code, code_to_extra_bits ! code, sub32 (sub32 n prev_max_length) 1)
      else copy_code_loop n (code + 1) (max_length + 2 ^ (code_to_extra_bits ! (code + 1))) max_length)"
  by pat_completeness auto
termination by (relation "measure (\<lambda>(n, code, m, p). 23 - code)") auto

declare copy_code_loop.simps [simp del]

definition to_copy_code :: "nat \<Rightarrow> nat \<times> nat \<times> nat" where
  "to_copy_code n = copy_code_loop n 0 2 1"

definition insert_and_copy_code :: "nat \<Rightarrow> nat \<times> nat \<times> nat" where
  "insert_and_copy_code copy_length = (case to_copy_code copy_length of (copy_code, num_extra_bits, extra_bits) \<Rightarrow>
     (if copy_code \<le> 7 then (128 OR copy_code, num_extra_bits, extra_bits)
      else if copy_code \<le> 15 then (192 OR (copy_code - 8), num_extra_bits, extra_bits)
      else (384 OR (copy_code - 16), num_extra_bits, extra_bits)))"

definition to_distance_code :: "'e brotli_library \<Rightarrow> nat \<Rightarrow> nat \<Rightarrow> nat \<times> nat \<times> nat" where
  "to_distance_code L distance postfix_bits =
     (case bl_prefix_encode L ((distance + 15) mod TWO32) 0 postfix_bits of (composite_distance, extra_bits) \<Rightarrow>
        (composite_distance AND 1023, drop_bit 10 (composite_distance AND 0b1111110000000000), extra_bits))"

text \<open>The logarithms of 64, 112, 208 and 400 to the base 2, rounded up.\<close>

definition distance_code_width :: "nat \<Rightarrow> nat" where
  "distance_code_width postfix_bits = 6 + postfix_bits"

section \<open>Insertions\<close>

lemma add_mlen_False: "add_mlen n s = (False, s') \<Longrightarrow> MAX_METABLOCK_SIZE < n"
  by (auto simp: add_mlen_def Let_def split: if_splits)

definition dictionary_command :: "'e brotli_library \<Rightarrow> nat \<Rightarrow> nat \<Rightarrow> brotli_stream \<Rightarrow> brotli_stream" where
  "dictionary_command L distance n s =
     (let postfix_bits = num_of_postfix_bits distance;
          s = number 0 1 (number 0 1 (number 0 1 (number 0 1 s)));
          s = number 0 4 (number postfix_bits 2 s);
          s = number 0 1 (number 0 1 (number 0 2 s));
          s = add_prefix_tree 0 8 s;
          (copy_code, copy_num_extra_bits, copy_extra_bits) = insert_and_copy_code n;
          s = add_prefix_tree copy_code 10 s;
          (distance_code, dist_num_extra_bits, dist_extra_bits) = to_distance_code L distance postfix_bits;
          s = add_prefix_tree distance_code (distance_code_width postfix_bits) s;
          s = number dist_extra_bits dist_num_extra_bits (number copy_extra_bits copy_num_extra_bits s)
      in s\<lparr>bs_uncompressed_size := (bs_uncompressed_size s + n) mod TWO32\<rparr>)"

function insert_from_dictionary :: "'e brotli_library \<Rightarrow> nat \<Rightarrow> nat \<Rightarrow> brotli_stream \<Rightarrow> bool \<times> brotli_stream" where
  "insert_from_dictionary L offset n s =
     (if n = 0 then (True, s) else if n = 1 then (False, s)
      else let distance = sub32 ((bs_dictionary_size s + min (bs_window_size s) (bs_uncompressed_size s)) mod TWO32) offset
      in case add_mlen n s of
           (True, s) \<Rightarrow> (True, dictionary_command L distance n s)
         | (False, s) \<Rightarrow>
             let remainder_length = (if n - MAX_METABLOCK_SIZE \<le> 1 then 2 else n - MAX_METABLOCK_SIZE)
             in case insert_from_dictionary L offset (n - remainder_length) s of
                  (False, s) \<Rightarrow> (False, s)
                | (True, s) \<Rightarrow> insert_from_dictionary L ((offset + (n - remainder_length)) mod TWO32) remainder_length s)"
  by pat_completeness auto
termination
  by (relation "measure (\<lambda>(L, offset, n, s). n)") (auto dest!: add_mlen_False [OF sym] simp: MAX_METABLOCK_SIZE_def)

declare insert_from_dictionary.simps [simp del]

lemma long_bytes: "(False, s') = add_mlen (length bs mod TWO32) s \<Longrightarrow> MAX_METABLOCK_SIZE < length bs"
  by (drule sym, drule add_mlen_False) (erule order_less_le_trans, rule mod_less_eq_dividend)

function insert_uncompressed :: "bytes \<Rightarrow> brotli_stream \<Rightarrow> brotli_stream" where
  "insert_uncompressed bs s =
     (let n = length bs mod TWO32
      in case add_mlen n s of
           (False, s) \<Rightarrow> insert_uncompressed (drop MAX_METABLOCK_SIZE bs) (insert_uncompressed (take MAX_METABLOCK_SIZE bs) s)
         | (True, s) \<Rightarrow>
             let s = pad_stream (number 1 1 s)
             in s\<lparr>bs_buffer := append_raw bs (bs_buffer s), bs_uncompressed_size := (bs_uncompressed_size s + n) mod TWO32\<rparr>)"
  by pat_completeness auto
termination
  by (relation "measure (\<lambda>(bs, s). length bs)") (auto dest!: long_bytes simp: MAX_METABLOCK_SIZE_def)

declare insert_uncompressed.simps [simp del]

definition byte_align :: "brotli_stream \<Rightarrow> brotli_stream" where
  "byte_align s = (if is_byte_aligned (bs_buffer s) then s else snd (add_mlen 0 s))"

definition four_byte_align_uncompressed :: "brotli_stream \<Rightarrow> brotli_stream" where
  "four_byte_align_uncompressed s =
     (if bs_uncompressed_size s mod 4 \<noteq> 0 then insert_uncompressed (replicate (4 - bs_uncompressed_size s mod 4) 0) s else s)"

definition end_stream :: "brotli_stream \<Rightarrow> brotli_stream" where
  "end_stream s = pad_stream (number 1 1 (number 1 1 s))"

definition compressed_data :: "brotli_stream \<Rightarrow> bytes" where
  "compressed_data s = bb_buffer (bs_buffer s)"

text \<open>The other stream is aligned too.\<close>

definition append_stream :: "brotli_stream \<Rightarrow> brotli_stream \<Rightarrow> brotli_stream \<times> brotli_stream" where
  "append_stream other s =
     (let s = byte_align s; other = byte_align other
      in (other, s\<lparr>bs_buffer := append_raw (bb_buffer (bs_buffer other)) (bs_buffer s),
            bs_uncompressed_size := (bs_uncompressed_size s + sub32 (bs_uncompressed_size other) (bs_starting_offset other)) mod TWO32\<rparr>))"

section \<open>Compressed insertions\<close>

definition create_encoder :: "'e brotli_library \<Rightarrow> nat \<Rightarrow> bytes option \<Rightarrow> brotli_stream \<Rightarrow> 'e option option" where
  "create_encoder L stream_offset dictionary s = (case CreateEncoder L 5 0 stream_offset dictionary of
     None \<Rightarrow> None | Some None \<Rightarrow> Some None
   | Some (Some state) \<Rightarrow> Some (bl_set_parameter L LGWIN (bs_window_bits s) state))"

text \<open>The status and the stream, which keeps what was added before an error; \<open>None\<close>: no result.\<close>

definition insert_compressed_with_partial_dict :: "'e brotli_library \<Rightarrow> bytes \<Rightarrow> bytes \<Rightarrow> brotli_stream \<Rightarrow> (brotli_stream \<times> unit status_or) option" where
  "insert_compressed_with_partial_dict L bs partial_dict s =
     (if bs = [] then Some (s, Inr ())
      else
        let partial_dict = (if bs_dictionary_size s < length partial_dict then take (bs_dictionary_size s) partial_dict else partial_dict);
            s = (if bs_uncompressed_size s = 0 \<and> bs_dictionary_size s \<noteq> 0 then add_stream_header s else s);
            s = byte_align s;
            dictionary = (if partial_dict \<noteq> [] then CreateDictionary L partial_dict else None)
        in if partial_dict \<noteq> [] \<and> dictionary = None then Some (s, Inl InternalError)
           else
             let stream_offset = sub32 ((bs_uncompressed_size s + bs_dictionary_size s) mod TWO32) (length partial_dict)
             in if bs_window_size s < stream_offset then Some (s, Inl InternalError)
                else case create_encoder L stream_offset dictionary s of
                  None \<Rightarrow> None | Some None \<Rightarrow> Some (s, Inl InternalError)
                | Some (Some state) \<Rightarrow>
                    (case CompressToSink L bs False state (bb_buffer (bs_buffer s)) of None \<Rightarrow> None
                     | Some (ok, sink) \<Rightarrow>
                         let s = s\<lparr>bs_buffer := (bs_buffer s)\<lparr>bb_buffer := sink\<rparr>\<rparr>
                         in if \<not> ok then Some (s, Inl InternalError)
                            else Some (s\<lparr>bs_uncompressed_size := (bs_uncompressed_size s + length bs) mod TWO32\<rparr>, Inr ())))"

definition insert_compressed :: "'e brotli_library \<Rightarrow> bytes \<Rightarrow> brotli_stream \<Rightarrow> (brotli_stream \<times> unit status_or) option" where
  "insert_compressed L bs s = insert_compressed_with_partial_dict L bs [] s"

end
