(* ===== verification/Brotli_Decode.thy ===== *)
theory Brotli_Decode
  imports Brotli_Bits
begin

text \<open>
  A decoder for the meta-blocks that \<^verbatim>\<open>BrotliStream\<close> writes by itself, after RFC 7932 and its extension with a
  shared dictionary: empty and uncompressed meta-blocks, and meta-blocks with one command that copies from the
  output or from the dictionary. It reads a list of bits at a known position.
\<close>

section \<open>Reading bits\<close>

type_synonym 'a bit_reader = "nat \<times> bool list \<Rightarrow> ('a \<times> nat \<times> bool list) option"

definition br_return :: "'a \<Rightarrow> 'a bit_reader" where
  "br_return x s = Some (x, s)"

definition br_fail :: "'a bit_reader" where
  "br_fail s = None"

definition br_bind :: "'a bit_reader \<Rightarrow> ('a \<Rightarrow> 'b bit_reader) \<Rightarrow> 'b bit_reader" where
  "br_bind p f s = (case p s of None \<Rightarrow> None | Some (x, s) \<Rightarrow> f x s)"

definition br_number :: "nat \<Rightarrow> nat bit_reader" where
  "br_number n = (\<lambda>(pos, bs). if length bs < n then None else Some (bits_value (take n bs), pos + n, drop n bs))"

definition br_align :: "unit bit_reader" where
  "br_align = (\<lambda>(pos, bs). let n = (8 - pos mod 8) mod 8 in if length bs < n then None else Some ((), pos + n, drop n bs))"

definition bytes_of_bits :: "nat \<Rightarrow> bool list \<Rightarrow> bytes" where
  "bytes_of_bits n bs = map (\<lambda>i. of_nat (bits_value (take 8 (drop (8 * i) bs)))) [0..<n]"

definition br_bytes :: "nat \<Rightarrow> bytes bit_reader" where
  "br_bytes n = (\<lambda>(pos, bs). if length bs < 8 * n then None else Some (bytes_of_bits n bs, pos + 8 * n, drop (8 * n) bs))"

definition br_check :: "bool \<Rightarrow> 'a bit_reader \<Rightarrow> 'a bit_reader" where
  "br_check b p = (if b then p else br_fail)"

text \<open>A reader takes a code off the front of what follows.\<close>

definition reads_bits :: "'a bit_reader \<Rightarrow> nat \<Rightarrow> bool list \<Rightarrow> 'a \<Rightarrow> bool" where
  "reads_bits p pos bs x \<longleftrightarrow> (\<forall>rest. p (pos, bs @ rest) = Some (x, pos + length bs, rest))"

lemma reads_return: "reads_bits (br_return x) pos [] x"
  by (simp add: reads_bits_def br_return_def)

lemma reads_bind:
  "reads_bits p pos bs x \<Longrightarrow> reads_bits (f x) (pos + length bs) cs y \<Longrightarrow> reads_bits (br_bind p f) pos (bs @ cs) y"
  by (simp add: reads_bits_def br_bind_def add.assoc)

lemma reads_check: "b \<Longrightarrow> reads_bits p pos bs x \<Longrightarrow> reads_bits (br_check b p) pos bs x"
  by (simp add: br_check_def)

lemma bits_value_number: "n \<le> 32 \<Longrightarrow> bits_value (number_bits (of_nat k) n) = take_bit n k"
proof -
  assume "n \<le> 32"
  then have "number_bits (of_nat k) n = low_bits n k" by (auto simp: number_bits_def low_bits_def bit_simps)
  then show ?thesis by (simp add: bits_value_low_bits)
qed

lemma reads_number: "n \<le> 32 \<Longrightarrow> k < 2 ^ n \<Longrightarrow> reads_bits (br_number n) pos (number_bits (of_nat k) n) k"
  by (simp add: reads_bits_def br_number_def bits_value_number take_bit_nat_eq_self)

lemma reads_align: "n = (8 - pos mod 8) mod 8 \<Longrightarrow> reads_bits br_align pos (replicate n False) ()"
  by (simp add: reads_bits_def br_align_def)

lemma bytes_of_stream: "bytes_of_bits (length xs) (stream xs @ rest) = xs"
proof (rule nth_equalityI)
  fix i assume i: "i < length (bytes_of_bits (length xs) (stream xs @ rest))"
  then have l: "i < length xs" by (simp add: bytes_of_bits_def)
  have "stream xs = stream (take i xs) @ byte_bits (xs ! i) @ stream (drop (Suc i) xs)"
    using id_take_nth_drop [OF l] by (metis stream_simps(2,3))
  then have "take 8 (drop (8 * i) (stream xs @ rest)) = byte_bits (xs ! i)" using l by simp
  moreover have "byte_bits b = low_bits 8 (unat b)" for b by (auto simp: byte_bits_def low_bits_def bit_simps)
  ultimately have "bits_value (take 8 (drop (8 * i) (stream xs @ rest))) = take_bit 8 (unat (xs ! i))" by (simp add: bits_value_low_bits)
  also have "\<dots> = unat (xs ! i)"
  proof -
    have "unat (xs ! i) < 256" using unsigned_less [of "xs ! i"] by simp
    then show ?thesis by (simp add: take_bit_nat_eq_self)
  qed
  finally show "bytes_of_bits (length xs) (stream xs @ rest) ! i = xs ! i" using l by (simp add: bytes_of_bits_def)
qed (simp add: bytes_of_bits_def)

lemma reads_bytes: "reads_bits (br_bytes (length xs)) pos (stream xs) xs"
  by (simp add: reads_bits_def br_bytes_def bytes_of_stream)

section \<open>The format\<close>

definition read_window_bits :: "nat bit_reader" where
  "read_window_bits = br_bind (br_number 1) (\<lambda>b. if b = 0 then br_return 16
     else br_bind (br_number 3) (\<lambda>n. if n \<noteq> 0 then br_return (17 + n)
     else br_bind (br_number 3) (\<lambda>k. if k = 0 then br_return 17 else br_check (k \<noteq> 1) (br_return (8 + k)))))"

text \<open>A prefix code with one symbol.\<close>

definition read_tree :: "nat \<Rightarrow> nat bit_reader" where
  "read_tree width = br_bind (br_number 2) (\<lambda>t. br_check (t = 1) (br_bind (br_number 2) (\<lambda>k. br_check (k = 0) (br_number width))))"

text \<open>The codes of commands that insert nothing; base and number of extra bits of a copy length.\<close>

definition copy_code_of :: "nat \<Rightarrow> nat option" where
  "copy_code_of symbol = (if 128 \<le> symbol \<and> symbol < 136 then Some (symbol - 128)
     else if 192 \<le> symbol \<and> symbol < 200 then Some (8 + (symbol - 192))
     else if 384 \<le> symbol \<and> symbol < 392 then Some (16 + (symbol - 384)) else None)"

definition copy_lengths :: "(nat \<times> nat) list" where
  "copy_lengths = [(2, 0), (3, 0), (4, 0), (5, 0), (6, 0), (7, 0), (8, 0), (9, 0), (10, 1), (12, 1), (14, 2), (18, 2), (22, 3), (30, 3),
     (38, 4), (54, 4), (70, 5), (102, 5), (134, 6), (198, 7), (326, 8), (582, 9), (1094, 10), (2118, 24)]"

definition distance_bits :: "nat \<Rightarrow> nat \<Rightarrow> nat" where
  "distance_bits postfix_bits code = 1 + (code - 16) div 2 ^ (postfix_bits + 1)"

definition distance_of :: "nat \<Rightarrow> nat \<Rightarrow> nat \<Rightarrow> nat" where
  "distance_of postfix_bits code extra =
     (((2 + (code - 16) div 2 ^ postfix_bits mod 2) * 2 ^ distance_bits postfix_bits code - 4) + extra) * 2 ^ postfix_bits +
     (code - 16) mod 2 ^ postfix_bits + 1"

fun copy_back :: "nat \<Rightarrow> nat \<Rightarrow> bytes \<Rightarrow> bytes" where
  "copy_back 0 distance out = out"
| "copy_back (Suc n) distance out = copy_back n distance (out @ [out ! (length out - distance)])"

definition copy_at :: "bytes \<Rightarrow> nat \<Rightarrow> nat \<Rightarrow> nat \<Rightarrow> bytes \<Rightarrow> bytes option" where
  "copy_at dict window distance n out =
     (let back = min window (length out)
      in if distance = 0 then None
         else if distance \<le> back then Some (copy_back n distance out)
         else let k = distance - back in if k \<le> length dict \<and> n \<le> k then Some (out @ take n (drop (length dict - k) dict)) else None)"

datatype block = Last_Block | Block bytes

definition read_command :: "bytes \<Rightarrow> nat \<Rightarrow> bytes \<Rightarrow> nat \<Rightarrow> block bit_reader" where
  "read_command dict window out len =
     br_bind (br_number 1) (\<lambda>l. br_bind (br_number 1) (\<lambda>i. br_bind (br_number 1) (\<lambda>d. br_check (l = 0 \<and> i = 0 \<and> d = 0) (
     br_bind (br_number 2) (\<lambda>npostfix. br_bind (br_number 4) (\<lambda>ndirect. br_check (ndirect = 0) (
     br_bind (br_number 2) (\<lambda>_. br_bind (br_number 1) (\<lambda>tl. br_bind (br_number 1) (\<lambda>td. br_check (tl = 0 \<and> td = 0) (
     br_bind (read_tree 8) (\<lambda>_. br_bind (read_tree 10) (\<lambda>command. br_bind (read_tree (6 + npostfix)) (\<lambda>code.
       case copy_code_of command of None \<Rightarrow> br_fail
       | Some copy_code \<Rightarrow> (case copy_lengths ! copy_code of (base, extra_bits) \<Rightarrow>
           br_bind (br_number extra_bits) (\<lambda>copy_extra. br_check (base + copy_extra = len \<and> 16 \<le> code) (
           br_bind (br_number (distance_bits npostfix code)) (\<lambda>extra.
             case copy_at dict window (distance_of npostfix code extra) len out of None \<Rightarrow> br_fail | Some out \<Rightarrow> br_return (Block out)))))))))))))))))))"

definition read_meta_block :: "bytes \<Rightarrow> nat \<Rightarrow> bytes \<Rightarrow> block bit_reader" where
  "read_meta_block dict window out =
     br_bind (br_number 1) (\<lambda>is_last.
       if is_last = 1 then br_bind (br_number 1) (\<lambda>empty. br_check (empty = 1) (br_return Last_Block))
       else br_bind (br_number 2) (\<lambda>nibbles.
         if nibbles = 3 then br_bind (br_number 1) (\<lambda>reserved. br_bind (br_number 2) (\<lambda>skip. br_check (reserved = 0 \<and> skip = 0)
             (br_bind br_align (\<lambda>_. br_return (Block out)))))
         else br_bind (br_number (4 * (4 + nibbles))) (\<lambda>m. br_check (nibbles = 0 \<or> 16 ^ (3 + nibbles) \<le> m) (
           br_bind (br_number 1) (\<lambda>uncompressed.
             if uncompressed = 1 then br_bind br_align (\<lambda>_. br_bind (br_bytes (m + 1)) (\<lambda>bs. br_return (Block (out @ bs))))
             else read_command dict window out (m + 1))))))"

fun decode_blocks :: "nat \<Rightarrow> bytes \<Rightarrow> nat \<Rightarrow> bytes \<Rightarrow> nat \<times> bool list \<Rightarrow> bytes option" where
  "decode_blocks 0 dict window out s = None"
| "decode_blocks (Suc n) dict window out s = (case read_meta_block dict window out s of
     None \<Rightarrow> None
   | Some (Last_Block, s) \<Rightarrow> Some out
   | Some (Block out, s) \<Rightarrow> decode_blocks n dict window out s)"

text \<open>A meta-block takes at least a bit, so that there are no more of them than bits.\<close>

definition brotli_decode :: "bytes \<Rightarrow> bytes \<Rightarrow> bytes option" where
  "brotli_decode dict bs = (case read_window_bits (0, stream bs) of None \<Rightarrow> None
     | Some (window_bits, s) \<Rightarrow> decode_blocks (8 * length bs) dict (2 ^ window_bits - 16) [] s)"

section \<open>Sequences of meta-blocks\<close>

inductive blocks :: "bytes \<Rightarrow> nat \<Rightarrow> nat \<Rightarrow> bool list \<Rightarrow> bytes \<Rightarrow> bytes \<Rightarrow> bool" for dict window where
  none: "blocks dict window pos [] out out"
| block: "reads_bits (read_meta_block dict window out) pos bs (Block out') \<Longrightarrow> blocks dict window (pos + length bs) cs out' out'' \<Longrightarrow>
    blocks dict window pos (bs @ cs) out out''"

lemma blocks_append:
  assumes "blocks dict window pos bs out out'" and "blocks dict window (pos + length bs) cs out' out''"
  shows "blocks dict window pos (bs @ cs) out out''"
  using assms
proof (induction)
  case (block out pos bs out1 ds out2)
  from blocks.block [OF block.hyps(1) block.IH] block.prems show ?case by (simp add: add.assoc)
qed simp

lemma blocks_one: "reads_bits (read_meta_block dict window out) pos bs (Block out') \<Longrightarrow> blocks dict window pos bs out out'"
  using blocks.block [OF _ blocks.none] by fastforce

lemma reads_nonempty: "reads_bits (read_meta_block dict window out) pos bs x \<Longrightarrow> bs \<noteq> []"
proof
  assume r: "reads_bits (read_meta_block dict window out) pos bs x" and "bs = []"
  then have "read_meta_block dict window out (pos, []) \<noteq> None" by (simp add: reads_bits_def)
  then show False by (simp add: read_meta_block_def br_bind_def br_number_def)
qed

lemma decode_blocks_last:
  assumes "blocks dict window pos bs out out'"
    and "reads_bits (read_meta_block dict window out') (pos + length bs) es Last_Block" and "length bs < n"
  shows "decode_blocks n dict window out (pos, bs @ es @ rest) = Some out'"
  using assms
proof (induction arbitrary: n)
  case (none pos out)
  then obtain k where "n = Suc k" by (cases n) auto
  with none show ?case by (simp add: reads_bits_def)
next
  case (block out pos bs out1 cs out2)
  obtain k where n: "n = Suc k" using block.prems(2) by (cases n) auto
  have "length cs < k" using block.prems(2) reads_nonempty [OF block.hyps(1)] by (cases bs) (simp_all add: n)
  with block show ?case by (simp add: n reads_bits_def add.assoc)
qed

end
