(* ===== verification/Brotli_Content.thy ===== *)
theory Brotli_Content
  imports Brotli_Stream Brotli_Decode
begin

text \<open>
  What a stream holds: the decoder reads its bits as the header and meta-blocks that put out the inserted bytes.
\<close>

abbreviation num :: "nat \<Rightarrow> nat \<Rightarrow> bool list" where "num k n \<equiv> number_bits (of_nat k) n"

section \<open>What the operations emit\<close>

definition emits :: "brotli_stream \<Rightarrow> brotli_stream \<Rightarrow> bool list \<Rightarrow> bool" where
  "emits s t bs \<longleftrightarrow> bb_ok (bs_buffer t) \<and> bb_bits (bs_buffer t) = bb_bits (bs_buffer s) @ bs \<and> t = s\<lparr>bs_buffer := bs_buffer t\<rparr>"

lemma emits_refl: "bb_ok (bs_buffer s) \<Longrightarrow> emits s s []"
  by (simp add: emits_def)

lemma emits_number: "emits s t bs \<Longrightarrow> n \<le> 32 \<Longrightarrow> emits s (number k n t) (bs @ num k n)"
  by (cases t) (auto simp: emits_def number_def append_number_bits min_absorb2)

lemma emits_tree: "emits s t bs \<Longrightarrow> w \<le> 32 \<Longrightarrow> emits s (add_prefix_tree k w t) (bs @ num 1 2 @ num 0 2 @ num k w)"
proof -
  assume e: "emits s t bs" and w: "w \<le> 32"
  have a: "emits s (number 1 2 t) (bs @ num 1 2)" by (rule emits_number [OF e]) simp
  have b: "emits s (number 0 2 (number 1 2 t)) ((bs @ num 1 2) @ num 0 2)" by (rule emits_number [OF a]) simp
  from emits_number [OF b w, of k] show ?thesis by (simp add: add_prefix_tree_def)
qed

lemma padding: "0 < i \<Longrightarrow> i \<le> 8 \<Longrightarrow> (l + (8 - i)) mod 8 = 0 \<Longrightarrow> 8 - i = (8 - l mod 8) mod (8 :: nat)"
proof -
  assume i: "0 < i" "i \<le> 8" and m: "(l + (8 - i)) mod 8 = 0"
  have "(l mod 8 + (8 - i)) mod 8 = 0" using m by (simp only: mod_add_left_eq)
  then obtain q where q: "l mod 8 + (8 - i) = 8 * q" by (metis mod_0_imp_dvd dvdE)
  have "l mod 8 < 8" by simp
  then have "8 * q < 16" using i q by linarith
  then have "q = 0 \<or> q = 1" by linarith
  then show ?thesis
  proof
    assume "q = 0"
    then have "l mod 8 = 0" "i = 8" using q i by linarith+
    then show ?thesis by simp
  next
    assume "q = 1"
    then have e: "8 - l mod 8 = 8 - i" using q i \<open>l mod 8 < 8\<close> by linarith
    have "8 - i < 8" using i by linarith
    then show ?thesis unfolding e by simp
  qed
qed

lemma emits_pad: "emits s t bs \<Longrightarrow> emits s (pad_stream t) (bs @ replicate ((8 - length (bb_bits (bs_buffer s) @ bs) mod 8) mod 8) False)"
proof -
  assume e: "emits s t bs"
  then have ok: "bb_ok (bs_buffer t)" and bits: "bb_bits (bs_buffer t) = bb_bits (bs_buffer s) @ bs" by (simp_all add: emits_def)
  have "0 < bb_bit_index (bs_buffer t)" "bb_bit_index (bs_buffer t) \<le> 8" using ok by (simp_all add: bb_ok_def)
  then have "8 - bb_bit_index (bs_buffer t) = (8 - length (bb_bits (bs_buffer t)) mod 8) mod 8"
    by (rule padding) (rule bit_index_length(1) [OF ok])
  then show ?thesis using e pad_bits(1,2) [OF ok] by (cases t) (auto simp: emits_def pad_stream_def bits)
qed

lemma emits_fields:
  "emits s t bs \<Longrightarrow> bs_starting_offset t = bs_starting_offset s \<and> bs_uncompressed_size t = bs_uncompressed_size s \<and> bs_window_bits t = bs_window_bits s \<and>
    bs_window_size t = bs_window_size s \<and> bs_dictionary_size t = bs_dictionary_size s"
  unfolding emits_def by (cases t, cases s) auto

section \<open>Copy lengths\<close>

lemma upt_24: "[0..<24] = [0, 1, 2, 3, 4, 5, 6, 7, 8, 9, 10, 11, 12, 13, 14, 15, 16, 17, 18, 19, 20, 21, 22, 23]"
  by (simp add: upt_rec)

lemma copy_table:
  assumes "c < 24"
  shows "code_to_extra_bits ! c = snd (copy_lengths ! c)" and "c < 23 \<Longrightarrow> fst (copy_lengths ! (c + 1)) = fst (copy_lengths ! c) + 2 ^ snd (copy_lengths ! c)"
    and "0 < fst (copy_lengths ! c)" and "snd (copy_lengths ! c) \<le> 24"
proof -
  have "list_all (\<lambda>c. code_to_extra_bits ! c = snd (copy_lengths ! c) \<and> 0 < fst (copy_lengths ! c) \<and> snd (copy_lengths ! c) \<le> 24 \<and>
    (c < 23 \<longrightarrow> fst (copy_lengths ! (c + 1)) = fst (copy_lengths ! c) + 2 ^ snd (copy_lengths ! c))) [0..<24]"
    by (simp add: upt_24 copy_lengths_def code_to_extra_bits_def)
  then show "code_to_extra_bits ! c = snd (copy_lengths ! c)" "c < 23 \<Longrightarrow> fst (copy_lengths ! (c + 1)) = fst (copy_lengths ! c) + 2 ^ snd (copy_lengths ! c)"
    "0 < fst (copy_lengths ! c)" "snd (copy_lengths ! c) \<le> 24" using assms unfolding list_all_iff by auto
qed

lemma copy_code_loop_spec:
  assumes "c < 24" and "m = fst (copy_lengths ! c) + 2 ^ snd (copy_lengths ! c) - 1" and "p = fst (copy_lengths ! c) - 1" and "p < n" and "n \<le> 2 ^ 24"
  shows "\<exists>cc. cc < 24 \<and> copy_code_loop n c m p = (cc, snd (copy_lengths ! cc), n - fst (copy_lengths ! cc)) \<and>
    fst (copy_lengths ! cc) \<le> n \<and> n - fst (copy_lengths ! cc) < 2 ^ snd (copy_lengths ! cc)"
  using assms
proof (induction n c m p rule: copy_code_loop.induct)
  case (1 n c m p)
  note t = copy_table [OF "1.prems"(1)]
  show ?case
  proof (cases "n \<le> m \<or> 23 \<le> c")
    case True
    have "sub32 n p = n - p" "sub32 (n - p) 1 = n - p - 1" using "1.prems"(4,5) by (simp_all add: sub32_le)
    then have r: "copy_code_loop n c m p = (c, snd (copy_lengths ! c), n - fst (copy_lengths ! c))"
      using True "1.prems"(3) t(1,3) by (subst copy_code_loop.simps) auto
    have "n < fst (copy_lengths ! c) + 2 ^ snd (copy_lengths ! c)"
    proof (cases "n \<le> m")
      case True
      have "0 < (2 :: nat) ^ snd (copy_lengths ! c)" by simp
      with True "1.prems"(2) show ?thesis by linarith
    next
      case False
      with True "1.prems"(1) have "c = 23" by simp
      then show ?thesis using "1.prems"(5) by (simp add: copy_lengths_def)
    qed
    then show ?thesis using r "1.prems"(1,3,4) t(3) by auto
  next
    case False
    then have c: "c + 1 < 24" "c < 23" by auto
    note t' = copy_table [OF c(1)]
    have pos: "0 < (2 :: nat) ^ snd (copy_lengths ! c)" by simp
    have m: "m + 2 ^ (code_to_extra_bits ! (c + 1)) = fst (copy_lengths ! (c + 1)) + 2 ^ snd (copy_lengths ! (c + 1)) - 1"
      using "1.prems"(2) t(2) [OF c(2)] t(3) pos unfolding t'(1) by simp
    have p: "m = fst (copy_lengths ! (c + 1)) - 1" using "1.prems"(2) t(2) [OF c(2)] by simp
    have "copy_code_loop n c m p = copy_code_loop n (c + 1) (m + 2 ^ (code_to_extra_bits ! (c + 1))) m"
      using False by (subst copy_code_loop.simps) simp
    with "1.IH" [OF False c(1) m p] False "1.prems"(5) show ?thesis by simp
  qed
qed

lemma to_copy_code_spec:
  assumes "2 \<le> n" and "n \<le> 2 ^ 24"
  shows "\<exists>cc. cc < 24 \<and> to_copy_code n = (cc, snd (copy_lengths ! cc), n - fst (copy_lengths ! cc)) \<and>
    fst (copy_lengths ! cc) \<le> n \<and> n - fst (copy_lengths ! cc) < 2 ^ snd (copy_lengths ! cc)"
  unfolding to_copy_code_def using assms by (intro copy_code_loop_spec) (simp_all add: copy_lengths_def)

lemma insert_and_copy_code_spec:
  assumes "2 \<le> n" and "n \<le> 2 ^ 24"
  shows "\<exists>command cc extra_bits extra base. insert_and_copy_code n = (command, extra_bits, extra) \<and> copy_code_of command = Some cc \<and> command < 2 ^ 10 \<and>
    copy_lengths ! cc = (base, extra_bits) \<and> base + extra = n \<and> extra < 2 ^ extra_bits \<and> extra_bits \<le> 24"
proof -
  obtain cc where cc: "cc < 24" "to_copy_code n = (cc, snd (copy_lengths ! cc), n - fst (copy_lengths ! cc))"
    "fst (copy_lengths ! cc) \<le> n" "n - fst (copy_lengths ! cc) < 2 ^ snd (copy_lengths ! cc)" using to_copy_code_spec [OF assms] by blast
  define command where "command = (if cc \<le> 7 then 128 OR cc else if cc \<le> 15 then 192 OR (cc - 8) else 384 OR (cc - 16))"
  have "list_all (\<lambda>cc. copy_code_of (if cc \<le> 7 then 128 OR cc else if cc \<le> 15 then 192 OR (cc - 8) else 384 OR (cc - 16)) = Some cc \<and>
    (if cc \<le> 7 then 128 OR cc else if cc \<le> 15 then 192 OR (cc - 8) else 384 OR (cc - 16)) < (2 :: nat) ^ 10) [0..<24]"
    by (simp add: upt_24 copy_code_of_def)
  then have "copy_code_of command = Some cc \<and> command < 2 ^ 10" using cc(1) unfolding list_all_iff command_def by auto
  moreover have "insert_and_copy_code n = (command, snd (copy_lengths ! cc), n - fst (copy_lengths ! cc))"
    by (simp add: insert_and_copy_code_def cc(2) command_def)
  ultimately show ?thesis using cc copy_table(4) [OF cc(1)] by (metis le_add_diff_inverse prod.collapse)
qed

section \<open>Meta-blocks\<close>

lemma reads_tree: "w \<le> 32 \<Longrightarrow> k < 2 ^ w \<Longrightarrow> reads_bits (read_tree w) pos (num 1 2 @ num 0 2 @ num k w) k"
  unfolding read_tree_def
  by (intro reads_bind [where x = 1] reads_check reads_bind [where x = 0] reads_number) simp_all

definition command_bits :: "nat \<Rightarrow> nat \<Rightarrow> nat \<Rightarrow> nat \<Rightarrow> nat \<Rightarrow> nat \<Rightarrow> nat \<Rightarrow> bool list" where
  "command_bits postfix command code copy_extra copy_bits extra extra_bits =
     num 0 1 @ num 0 1 @ num 0 1 @ num postfix 2 @ num 0 4 @ num 0 2 @ num 0 1 @ num 0 1 @ (num 1 2 @ num 0 2 @ num 0 8) @
     (num 1 2 @ num 0 2 @ num command 10) @ (num 1 2 @ num 0 2 @ num code (6 + postfix)) @ num copy_extra copy_bits @ num extra extra_bits @ []"

lemma reads_command:
  assumes p: "postfix < 4" and command: "copy_code_of command = Some cc" "command < 2 ^ 10"
    and copy: "copy_lengths ! cc = (base, copy_bits)" "copy_extra < 2 ^ copy_bits" "copy_bits \<le> 32" "base + copy_extra = len"
    and code: "16 \<le> code" "code < 2 ^ (6 + postfix)"
    and extra: "distance_bits postfix code = extra_bits" "extra_bits \<le> 32" "extra < 2 ^ extra_bits"
    and out': "copy_at dict window (distance_of postfix code extra) len out = Some out'"
  shows "reads_bits (read_command dict window out len) pos (command_bits postfix command code copy_extra copy_bits extra extra_bits) (Block out')"
proof -
  have tail: "reads_bits (case copy_code_of command of None \<Rightarrow> br_fail
       | Some copy_code \<Rightarrow> (case copy_lengths ! copy_code of (base, extra_bits) \<Rightarrow>
           br_bind (br_number extra_bits) (\<lambda>copy_extra. br_check (base + copy_extra = len \<and> 16 \<le> code) (
           br_bind (br_number (distance_bits postfix code)) (\<lambda>extra.
             case copy_at dict window (distance_of postfix code extra) len out of None \<Rightarrow> br_fail | Some out \<Rightarrow> br_return (Block out)))))) q
      (num copy_extra copy_bits @ num extra extra_bits @ []) (Block out')" for q
    unfolding command(1) option.case copy(1) prod.case extra(1)
    using copy(2,3,4) code(1) extra(2,3)
    by (intro reads_bind [where x = copy_extra] reads_check reads_bind [where x = extra] reads_number)
      (simp_all add: out' reads_return)
  have w: "6 + postfix \<le> 32" using p by simp
  show ?thesis unfolding read_command_def command_bits_def
    apply (rule reads_bind [OF reads_number], simp, simp)+
    apply (rule reads_check, simp)
    apply (rule reads_bind [OF reads_number], simp, simp add: p)
    apply (rule reads_bind [OF reads_number], simp, simp)
    apply (rule reads_check, simp)
    apply (rule reads_bind [OF reads_number], simp, simp)+
    apply (rule reads_check, simp)
    apply (rule reads_bind [OF reads_tree], simp, simp)
    apply (rule reads_bind [OF reads_tree], simp, simp add: command(2) [simplified])
    apply (rule reads_bind [OF reads_tree], rule w, rule code(2))
    by (rule tail)
qed

text \<open>The length of a meta-block.\<close>

definition length_bits :: "nat \<Rightarrow> nat \<Rightarrow> bool list" where
  "length_bits nibbles n = num 0 1 @ num nibbles 2 @ num (n - 1) (4 * (4 + nibbles))"

lemma add_mlen_emits:
  assumes "0 < n" and "n \<le> MAX_METABLOCK_SIZE" and s': "s' = (if bs_uncompressed_size s = 0 then add_stream_header s else s)" and ok: "bb_ok (bs_buffer s')"
  shows "\<exists>nibbles. fst (add_mlen n s) \<and> emits s' (snd (add_mlen n s)) (length_bits nibbles n) \<and> nibbles < 3 \<and>
    n - 1 < 2 ^ (4 * (4 + nibbles)) \<and> (nibbles = 0 \<or> 16 ^ (3 + nibbles) \<le> n - 1)"
proof -
  define nibbles :: nat where "nibbles = (if n \<le> 2 ^ 16 then 0 else if n \<le> 2 ^ 20 then 1 else 2)"
  have small: "nibbles < 3" "n - 1 < 2 ^ (4 * (4 + nibbles))" "nibbles = 0 \<or> 16 ^ (3 + nibbles) \<le> n - 1"
    using assms(1,2) by (auto simp: nibbles_def MAX_METABLOCK_SIZE_def)
  have m: "add_mlen n s = (True, number (n - 1) (4 * (4 + nibbles)) (number nibbles 2 (number 0 1 s')))"
    using assms(1,2) by (simp add: add_mlen_def s' nibbles_def)
  have "emits s' (number 0 1 s') ([] @ num 0 1)" by (rule emits_number [OF emits_refl [OF ok]]) simp
  then have "emits s' (number nibbles 2 (number 0 1 s')) (([] @ num 0 1) @ num nibbles 2)" by (rule emits_number) simp
  then have "emits s' (snd (add_mlen n s)) ((([] @ num 0 1) @ num nibbles 2) @ num (n - 1) (4 * (4 + nibbles)))"
    unfolding m snd_conv by (rule emits_number) (use small(1) in simp)
  then show ?thesis using small m by (intro exI [of _ nibbles]) (simp add: length_bits_def)
qed

lemma reads_length:
  assumes "nibbles < 3" and "n - 1 < 2 ^ (4 * (4 + nibbles))" and "nibbles = 0 \<or> 16 ^ (3 + nibbles) \<le> n - 1" and "0 < n"
    and rest: "\<And>q. q = pos + length (length_bits nibbles n) \<Longrightarrow> reads_bits (br_bind (br_number 1) (\<lambda>uncompressed.
             if uncompressed = 1 then br_bind br_align (\<lambda>_. br_bind (br_bytes n) (\<lambda>bs. br_return (Block (out @ bs))))
             else read_command dict window out n)) q bs x"
  shows "reads_bits (read_meta_block dict window out) pos (length_bits nibbles n @ bs) x"
proof -
  have w: "4 * (4 + nibbles) \<le> 32" "nibbles < 2 ^ 2" "nibbles \<noteq> 3" using assms(1) by simp_all
  have n: "n - 1 + 1 = n" using assms(4) by simp
  show ?thesis unfolding length_bits_def append_assoc read_meta_block_def
    apply (rule reads_bind [OF reads_number], simp, simp)
    apply (simp only: zero_neq_one if_False)
    apply (rule reads_bind [OF reads_number], simp, rule w(2))
    apply (simp only: w(3) if_False)
    apply (rule reads_bind [OF reads_number], rule w(1), rule assms(2))
    apply (rule reads_check, rule assms(3))
    unfolding n by (rule rest) (simp add: length_bits_def)
qed

section \<open>The stream header\<close>

definition header_parts :: "nat \<Rightarrow> (nat \<times> nat) list" where
  "header_parts wb = (if wb = 16 then [(0, 1)] else if 17 < wb then [(1, 1), (wb - 17, 3)]
     else if wb = 17 then [(1, 1), (0, 3), (0, 3)] else [(1, 1), (0, 3), (wb - 8, 3)])"

lemma window_code_bits:
  assumes "10 \<le> wb" and "wb \<le> 24"
  shows "(case window_codes ! (wb - 10) of (code, width) \<Rightarrow> num code width) = concat (map (\<lambda>(k, n). num k n) (header_parts wb)) \<and>
    snd (window_codes ! (wb - 10)) \<le> 32"
proof -
  have upt: "[0..<15] = [0, 1, 2, 3, 4, 5, 6, 7, 8, 9, 10, 11, 12, 13, 14]" by (simp add: upt_rec)
  have "list_all (\<lambda>i. (case window_codes ! i of (code, width) \<Rightarrow> num code width) = concat (map (\<lambda>(k, n). num k n) (header_parts (i + 10))) \<and>
    snd (window_codes ! i) \<le> 32) [0..<15]"
    unfolding upt by (simp add: window_codes_def header_parts_def number_bits_def upt_rec)
  then have "\<forall>i < 15. (case window_codes ! i of (code, width) \<Rightarrow> num code width) = concat (map (\<lambda>(k, n). num k n) (header_parts (i + 10))) \<and>
    snd (window_codes ! i) \<le> 32" by (simp only: list_all_iff set_upt atLeastLessThan_iff) simp
  moreover have "wb - 10 < 15" "wb - 10 + 10 = wb" using assms by auto
  ultimately show ?thesis by metis
qed

lemma reads_header:
  assumes "10 \<le> wb" and "wb \<le> 24"
  shows "reads_bits read_window_bits pos (concat (map (\<lambda>(k, n). num k n) (header_parts wb))) wb"
proof -
  consider "wb = 16" | "wb = 17" | "17 < wb" | "wb < 16" by linarith
  then show ?thesis
  proof cases
    case 1
    have "reads_bits read_window_bits pos (num 0 1 @ []) 16" unfolding read_window_bits_def
      by (rule reads_bind [OF reads_number], simp, simp) (simp add: reads_return)
    then show ?thesis by (simp add: 1 header_parts_def)
  next
    case 2
    have "reads_bits read_window_bits pos (num 1 1 @ num 0 3 @ num 0 3 @ []) 17" unfolding read_window_bits_def
      apply (rule reads_bind [OF reads_number], simp, simp)
      apply (simp only: one_neq_zero if_False)
      apply (rule reads_bind [OF reads_number], simp, simp)
      apply (simp only: simp_thms if_False)
      by (rule reads_bind [OF reads_number], simp, simp) (simp add: reads_return)
    then show ?thesis by (simp add: 2 header_parts_def)
  next
    case 3
    have "reads_bits read_window_bits pos (num 1 1 @ num (wb - 17) 3 @ []) (17 + (wb - 17))" unfolding read_window_bits_def
      apply (rule reads_bind [OF reads_number], simp, simp)
      apply (simp only: one_neq_zero if_False)
      apply (rule reads_bind [OF reads_number], simp, use 3 assms in simp)
      using 3 by (simp add: reads_return)
    then show ?thesis using 3 by (simp add: header_parts_def)
  next
    case 4
    have "reads_bits read_window_bits pos (num 1 1 @ num 0 3 @ num (wb - 8) 3 @ []) (8 + (wb - 8))" unfolding read_window_bits_def
      apply (rule reads_bind [OF reads_number], simp, simp)
      apply (simp only: one_neq_zero if_False)
      apply (rule reads_bind [OF reads_number], simp, simp)
      apply (simp only: simp_thms if_False)
      apply (rule reads_bind [OF reads_number], simp, use 4 assms in simp)
      using 4 assms by (simp add: reads_return reads_check)
    then show ?thesis using 4 assms by (simp add: header_parts_def)
  qed
qed


section \<open>Contents of streams\<close>

text \<open>
  The content of a stream. A stream that starts at an offset holds what follows a prefix of that length; the
  stream at offset 0 has the stream header before its first meta-block.
\<close>

definition content :: "bytes \<Rightarrow> nat \<Rightarrow> bytes \<Rightarrow> bytes \<Rightarrow> bool list \<Rightarrow> bool" where
  "content dict wb before data bs \<longleftrightarrow> (\<exists>hdr body. bs = hdr @ body \<and> (if before = [] then reads_bits read_window_bits 0 hdr wb else hdr = []) \<and>
     (\<forall>pos. pos mod 8 = 0 \<longrightarrow> blocks dict (2 ^ wb - 16) (pos + length hdr) body before (before @ data)))"

definition stream_holds :: "bytes \<Rightarrow> bytes \<Rightarrow> bytes \<Rightarrow> brotli_stream \<Rightarrow> bool" where
  "stream_holds dict before data s \<longleftrightarrow> bb_ok (bs_buffer s) \<and> bs_starting_offset s = length before \<and>
     bs_uncompressed_size s = length before + length data \<and> bs_dictionary_size s = length dict \<and>
     10 \<le> bs_window_bits s \<and> bs_window_bits s \<le> 24 \<and> bs_window_size s = 2 ^ bs_window_bits s - 16 \<and>
     (if before = [] \<and> data = [] then bb_bits (bs_buffer s) = []
      else content dict (bs_window_bits s) before data (bb_bits (bs_buffer s)))"

lemma content_append:
  assumes c: "content dict wb before data bs"
    and meta: "\<And>pos. pos mod 8 = length bs mod 8 \<Longrightarrow> reads_bits (read_meta_block dict (2 ^ wb - 16) (before @ data)) pos cs (Block (before @ data @ new))"
  shows "content dict wb before (data @ new) (bs @ cs)"
proof -
  obtain h body where b: "bs = h @ body" "if before = [] then reads_bits read_window_bits 0 h wb else h = []"
    "\<And>pos. pos mod 8 = 0 \<Longrightarrow> blocks dict (2 ^ wb - 16) (pos + length h) body before (before @ data)" using c unfolding content_def by blast
  have all: "blocks dict (2 ^ wb - 16) (pos + length h) (body @ cs) before (before @ data @ new)" if pos: "pos mod 8 = 0" for pos
  proof -
    have "(pos + length h + length body) mod 8 = length bs mod 8"
      using pos unfolding b(1) by (metis add.assoc add.left_neutral length_append mod_add_left_eq)
    from blocks_append [OF b(3) [OF pos] blocks_one [OF meta [OF this]]] show ?thesis .
  qed
  with b(1,2) show ?thesis unfolding content_def by (intro exI [of _ h] exI [of _ "body @ cs"]) simp
qed

lemma content_start: "before \<noteq> [] \<Longrightarrow> content dict wb before [] []"
  by (simp add: content_def blocks.none)

lemma content_header: "reads_bits read_window_bits 0 hdr wb \<Longrightarrow> content dict wb [] [] hdr"
  unfolding content_def by (intro exI [of _ hdr] exI [of _ "[]"]) (simp add: blocks.none)

lemma holds_start:
  "stream_holds dict before [] (BrotliStream window_bits (length dict) (length before))"
  by (auto simp: stream_holds_def BrotliStream_def Let_def content_start)

text \<open>An operation that emits a meta-block, after the header if the stream has none.\<close>

lemma holds_extend:
  assumes holds: "stream_holds dict before data s" and s': "s' = (if bs_uncompressed_size s = 0 then add_stream_header s else s)"
    and e: "emits s' t bs" and new: "new \<noteq> []"
    and meta: "\<And>pos. pos mod 8 = length (bb_bits (bs_buffer s')) mod 8 \<Longrightarrow>
      reads_bits (read_meta_block dict (bs_window_size s) (before @ data)) pos bs (Block (before @ data @ new))"
  shows "stream_holds dict before (data @ new) (t\<lparr>bs_uncompressed_size := bs_uncompressed_size s + length new\<rparr>)"
proof -
  have ok: "bb_ok (bs_buffer s)" and size: "bs_uncompressed_size s = length before + length data"
    and wb: "10 \<le> bs_window_bits s" "bs_window_bits s \<le> 24" using holds by (simp_all add: stream_holds_def)
  have hdr: "emits s (add_stream_header s) (concat (map (\<lambda>(k, n). num k n) (header_parts (bs_window_bits s))))"
  proof -
    obtain code width where c: "window_codes ! (bs_window_bits s - 10) = (code, width)" by fastforce
    have "num code width = concat (map (\<lambda>(k, n). num k n) (header_parts (bs_window_bits s)))" "width \<le> 32"
      using window_code_bits [OF wb] by (simp_all add: c)
    with emits_number [OF emits_refl [OF ok], of width code] show ?thesis by (simp add: add_stream_header_def c)
  qed
  have fields: "bs_starting_offset t = bs_starting_offset s \<and> bs_window_bits t = bs_window_bits s \<and>
      bs_window_size t = bs_window_size s \<and> bs_dictionary_size t = bs_dictionary_size s"
    using emits_fields [OF hdr] emits_fields [OF e] by (simp add: s')
  have "content dict (bs_window_bits s) before data (bb_bits (bs_buffer s'))"
  proof (cases "before = [] \<and> data = []")
    case True
    then have "bb_bits (bs_buffer s') = concat (map (\<lambda>(k, n). num k n) (header_parts (bs_window_bits s)))"
      using hdr holds size by (simp add: emits_def s' stream_holds_def)
    with True show ?thesis using content_header [OF reads_header [OF wb]] by simp
  next
    case False
    then have "s' = s" using size by (auto simp: s')
    with False holds show ?thesis by (auto simp: stream_holds_def)
  qed
  from content_append [OF this] meta have "content dict (bs_window_bits s) before (data @ new) (bb_bits (bs_buffer s') @ bs)"
    using holds by (simp add: stream_holds_def)
  then show ?thesis using holds new fields e size by (auto simp: stream_holds_def emits_def)
qed

section \<open>Alignment\<close>

lemma mod_sum: "a mod m = b mod m \<Longrightarrow> (a + c) mod m = (b + c) mod (m :: nat)"
  by (metis mod_add_left_eq)

lemma byte_align_aligned: "bb_ok (bs_buffer s) \<Longrightarrow> is_byte_aligned (bs_buffer (byte_align s))"
  by (simp add: byte_align_def add_mlen_def pad_stream_def)

lemma holds_align:
  assumes holds: "stream_holds dict before data s"
  shows "stream_holds dict before data (byte_align s)"
proof (cases "is_byte_aligned (bs_buffer s)")
  case False
  have ok: "bb_ok (bs_buffer s)" using holds by (simp add: stream_holds_def)
  let ?n = "(8 - length (bb_bits (bs_buffer s) @ num 0 1 @ num 3 2 @ num 0 1 @ num 0 2) mod 8) mod 8"
  have e1: "emits s (number 0 1 s) ([] @ num 0 1)" by (rule emits_number [OF emits_refl [OF ok]]) simp
  have e2: "emits s (number 3 2 (number 0 1 s)) (([] @ num 0 1) @ num 3 2)" by (rule emits_number [OF e1]) simp
  have e3: "emits s (number 0 1 (number 3 2 (number 0 1 s))) ((([] @ num 0 1) @ num 3 2) @ num 0 1)" by (rule emits_number [OF e2]) simp
  have e4: "emits s (number 0 2 (number 0 1 (number 3 2 (number 0 1 s)))) (((([] @ num 0 1) @ num 3 2) @ num 0 1) @ num 0 2)"
    by (rule emits_number [OF e3]) simp
  have e: "emits s (byte_align s) (num 0 1 @ num 3 2 @ num 0 1 @ num 0 2 @ replicate ?n False)"
    using emits_pad [OF e4] False by (simp add: byte_align_def add_mlen_def)
  have "bb_bits (bs_buffer s) \<noteq> []" using bit_index_length(2) [OF ok] False by auto
  then have ne: "\<not> (before = [] \<and> data = [])" using holds by (auto simp: stream_holds_def)
  have meta: "reads_bits (read_meta_block dict (bs_window_size s) (before @ data)) pos (num 0 1 @ num 3 2 @ num 0 1 @ num 0 2 @ replicate ?n False) (Block (before @ data))"
    if pos: "pos mod 8 = length (bb_bits (bs_buffer s)) mod 8" for pos
  proof -
    have n: "?n = (8 - (pos + length (num 0 1) + length (num 3 2) + length (num 0 1) + length (num 0 2)) mod 8) mod 8"
      using mod_sum [OF pos, of 6] by (simp add: add.commute)
    have "reads_bits (read_meta_block dict (bs_window_size s) (before @ data)) pos (num 0 1 @ num 3 2 @ num 0 1 @ num 0 2 @ replicate ?n False @ []) (Block (before @ data))"
      unfolding read_meta_block_def
      apply (rule reads_bind [OF reads_number], simp, simp)
      apply (simp only: zero_neq_one if_False)
      apply (rule reads_bind [OF reads_number], simp, simp)
      apply (simp only: if_True simp_thms)
      apply (rule reads_bind [OF reads_number], simp, simp)
      apply (rule reads_bind [OF reads_number], simp, simp)
      apply (rule reads_check, simp)
      by (rule reads_bind [OF reads_align [OF n] reads_return])
    then show ?thesis by simp
  qed
  have c: "content dict (bs_window_bits s) before data (bb_bits (bs_buffer s))" using holds ne by (simp add: stream_holds_def)
  have "content dict (bs_window_bits s) before (data @ []) (bb_bits (bs_buffer s) @ num 0 1 @ num 3 2 @ num 0 1 @ num 0 2 @ replicate ?n False)"
    by (rule content_append [OF c]) (use meta holds in \<open>simp add: stream_holds_def\<close>)
  then show ?thesis using holds emits_fields [OF e] e ne by (auto simp: stream_holds_def emits_def)
qed (use assms in \<open>simp add: byte_align_def\<close>)

section \<open>Insertions\<close>

lemma holds_header_ok: "stream_holds dict before data s \<Longrightarrow> bb_ok (bs_buffer (if bs_uncompressed_size s = 0 then add_stream_header s else s))"
  by (auto simp: stream_holds_def add_stream_header_def number_def append_number_bits split: prod.split)

lemma holds_uncompressed_one:
  assumes holds: "stream_holds dict before data s" and n: "bs \<noteq> []" "length bs \<le> MAX_METABLOCK_SIZE"
    and total: "length before + length data + length bs < TWO32"
  shows "stream_holds dict before (data @ bs) (insert_uncompressed bs s)"
proof -
  define s' where "s' = (if bs_uncompressed_size s = 0 then add_stream_header s else s)"
  have ok: "bb_ok (bs_buffer s')" using holds_header_ok [OF holds] by (simp add: s'_def)
  from add_mlen_emits [OF _ n(2) s'_def ok] n(1) obtain nibbles where m: "fst (add_mlen (length bs) s)"
    "emits s' (snd (add_mlen (length bs) s)) (length_bits nibbles (length bs))" "nibbles < 3"
    "length bs - 1 < 2 ^ (4 * (4 + nibbles))" "nibbles = 0 \<or> 16 ^ (3 + nibbles) \<le> length bs - 1" by auto
  define t where "t = snd (add_mlen (length bs) s)"
  have a: "add_mlen (length bs) s = (True, t)" using m(1) by (simp add: t_def prod_eq_iff)
  note mt = m(2) [folded t_def]
  define u where "u = pad_stream (number 1 1 t)"
  define pad where "pad = replicate ((8 - length (bb_bits (bs_buffer s') @ (length_bits nibbles (length bs) @ num 1 1)) mod 8) mod 8) False"
  have "emits s' u ((length_bits nibbles (length bs) @ num 1 1) @ pad)"
    unfolding u_def pad_def by (rule emits_pad [OF emits_number [OF mt]]) simp
  then have eu: "emits s' u (length_bits nibbles (length bs) @ num 1 1 @ pad)" by simp
  define v where "v = u\<lparr>bs_buffer := append_raw bs (bs_buffer u)\<rparr>"
  have al: "is_byte_aligned (bs_buffer u)" by (simp add: u_def pad_stream_def)
  have okv: "bb_ok (bs_buffer u)" using eu by (simp add: emits_def)
  have ev: "emits s' v (length_bits nibbles (length bs) @ num 1 1 @ pad @ stream bs)"
    using eu raw_bits [OF okv al, of bs] by (cases u) (auto simp: emits_def v_def)
  have small: "length bs mod TWO32 = length bs" using n(2) by (simp add: MAX_METABLOCK_SIZE_def)
  have size: "bs_uncompressed_size u = bs_uncompressed_size s" using emits_fields [OF eu]
    by (simp add: s'_def add_stream_header_def number_def split: prod.split)
  have "bs_uncompressed_size s + length bs < TWO32" using holds total by (simp add: stream_holds_def)
  then have r: "insert_uncompressed bs s = v\<lparr>bs_uncompressed_size := bs_uncompressed_size s + length bs\<rparr>"
    by (subst insert_uncompressed.simps) (simp add: small a u_def [symmetric] v_def size Let_def del: One_nat_def)
  show ?thesis unfolding r
  proof (rule holds_extend [OF holds s'_def ev n(1)])
    fix pos assume pos: "pos mod 8 = length (bb_bits (bs_buffer s')) mod 8"
    show "reads_bits (read_meta_block dict (bs_window_size s) (before @ data)) pos (length_bits nibbles (length bs) @ num 1 1 @ pad @ stream bs) (Block (before @ data @ bs))"
    proof (rule reads_length [OF m(3-5)])
      show "0 < length bs" using n(1) by simp
      fix q assume q: "q = pos + length (length_bits nibbles (length bs))"
      have p: "(8 - length (bb_bits (bs_buffer s') @ (length_bits nibbles (length bs) @ num 1 1)) mod 8) mod 8 = (8 - (q + length (num 1 1)) mod 8) mod 8"
        using mod_sum [OF pos, of "length (length_bits nibbles (length bs)) + 1"] by (simp add: q add.assoc)
      have "reads_bits (br_bind (br_number 1) (\<lambda>uncompressed.
             if uncompressed = 1 then br_bind br_align (\<lambda>_. br_bind (br_bytes (length bs)) (\<lambda>xs. br_return (Block ((before @ data) @ xs))))
             else read_command dict (bs_window_size s) (before @ data) (length bs))) q (num 1 1 @ pad @ stream bs @ []) (Block ((before @ data) @ bs))"
        apply (rule reads_bind [OF reads_number], simp, simp)
        apply (simp only: if_True simp_thms)
        unfolding pad_def by (rule reads_bind [OF reads_align [OF p]], rule reads_bind [OF reads_bytes reads_return])
      then show "reads_bits (br_bind (br_number 1) (\<lambda>uncompressed.
             if uncompressed = 1 then br_bind br_align (\<lambda>_. br_bind (br_bytes (length bs)) (\<lambda>xs. br_return (Block ((before @ data) @ xs))))
             else read_command dict (bs_window_size s) (before @ data) (length bs))) q (num 1 1 @ pad @ stream bs) (Block (before @ data @ bs))" by simp
    qed
  qed
qed

lemma holds_uncompressed:
  assumes "stream_holds dict before data s" and "bs \<noteq> []" and "length before + length data + length bs < TWO32"
  shows "stream_holds dict before (data @ bs) (insert_uncompressed bs s)"
  using assms
proof (induction "length bs" arbitrary: bs data s rule: less_induct)
  case less
  show ?case
  proof (cases "length bs \<le> MAX_METABLOCK_SIZE")
    case True
    then show ?thesis using holds_uncompressed_one less.prems by blast
  next
    case False
    let ?a = "take MAX_METABLOCK_SIZE bs" and ?b = "drop MAX_METABLOCK_SIZE bs"
    have split: "bs = ?a @ ?b" by simp
    have "add_mlen (length bs) s = (False, s)" using False by (auto simp: add_mlen_def)
    moreover have "length bs mod TWO32 = length bs" using less.prems(3) by simp
    ultimately have r: "insert_uncompressed bs s = insert_uncompressed ?b (insert_uncompressed ?a s)"
      by (subst insert_uncompressed.simps) simp
    have "?a \<noteq> []" "length ?a < length bs" using False less.prems(2) by (auto simp: MAX_METABLOCK_SIZE_def)
    then have a: "stream_holds dict before (data @ ?a) (insert_uncompressed ?a s)" using less.prems by (intro less.hyps) auto
    have b: "?b \<noteq> []" "length ?b < length bs" using False by (auto simp: MAX_METABLOCK_SIZE_def)
    have "length before + length (data @ ?a) + length ?b < TWO32" using less.prems(3) False by simp
    from less.hyps [OF b(2) a b(1) this]
    have "stream_holds dict before ((data @ ?a) @ ?b) (insert_uncompressed ?b (insert_uncompressed ?a s))" .
    then show ?thesis unfolding r by simp
  qed
qed

section \<open>References to the dictionary\<close>

text \<open>What \<^verbatim>\<open>PrefixEncodeCopyDistance\<close> is for: a code with its extra bits, for a distance in the range of the postfix.\<close>

definition distance_codes_ok :: "'e brotli_library \<Rightarrow> bool" where
  "distance_codes_ok L \<longleftrightarrow> (\<forall>d postfix. postfix < 4 \<and> 0 < d \<and> d \<le> 67108860 * 2 ^ postfix \<longrightarrow>
     (case bl_prefix_encode L (d + 15) 0 postfix of (composite, extra) \<Rightarrow>
        composite < 2 ^ 16 \<and> 16 \<le> composite mod 1024 \<and> composite mod 1024 < 16 + 48 * 2 ^ postfix \<and>
        composite div 1024 = distance_bits postfix (composite mod 1024) \<and> extra < 2 ^ (composite div 1024) \<and>
        distance_of postfix (composite mod 1024) extra = d))"

lemma postfix_range: "d \<le> 536870880 \<Longrightarrow> num_of_postfix_bits d < 4 \<and> d \<le> 67108860 * 2 ^ num_of_postfix_bits d"
  by (simp add: num_of_postfix_bits_def)

lemma to_distance_code_spec:
  assumes ok: "distance_codes_ok L" and d: "0 < d" "d \<le> 536870880" and p: "postfix = num_of_postfix_bits d"
  shows "\<exists>code extra_bits extra. to_distance_code L d postfix = (code, extra_bits, extra) \<and> 16 \<le> code \<and> code < 2 ^ (6 + postfix) \<and>
    distance_bits postfix code = extra_bits \<and> extra_bits \<le> 32 \<and> extra < 2 ^ extra_bits \<and> distance_of postfix code extra = d"
proof -
  obtain composite extra where c: "bl_prefix_encode L (d + 15) 0 postfix = (composite, extra)" by fastforce
  have range: "postfix < 4" "d \<le> 67108860 * 2 ^ postfix" using postfix_range [OF d(2)] by (simp_all add: p)
  with ok d(1) c have f: "composite < 2 ^ 16" "16 \<le> composite mod 1024" "composite mod 1024 < 16 + 48 * 2 ^ postfix"
    "composite div 1024 = distance_bits postfix (composite mod 1024)" "extra < 2 ^ (composite div 1024)" "distance_of postfix (composite mod 1024) extra = d"
    unfolding distance_codes_ok_def by fastforce+
  have small: "composite div 1024 < 64" using f(1) by (simp add: less_mult_imp_div_less)
  have "composite AND 1023 = composite mod 1024" using and_mask_eq_mod [of composite 10] by (simp add: mask_eq_exp_minus_1)
  moreover have "drop_bit 10 (composite AND 0b1111110000000000) = drop_bit 10 composite AND 63" by (simp add: drop_bit_and)
  moreover have "drop_bit 10 composite AND 63 = composite div 1024"
    using and_mask_eq_mod [of "drop_bit 10 composite" 6] small by (simp add: mask_eq_exp_minus_1 drop_bit_eq_div)
  ultimately have t: "to_distance_code L d postfix = (composite mod 1024, composite div 1024, extra)"
    using d(2) by (simp add: to_distance_code_def c)
  have "postfix = 0 \<or> postfix = 1 \<or> postfix = 2 \<or> postfix = 3" using range(1) by linarith
  then have w: "16 + 48 * 2 ^ postfix \<le> (2 :: nat) ^ (6 + postfix)" by auto
  have "(composite mod 1024 - 16) div 2 ^ (postfix + 1) < 24"
    using f(3) by (intro less_mult_imp_div_less) (simp add: less_diff_conv2 [OF f(2)])
  then have "composite div 1024 \<le> 32" unfolding f(4) distance_bits_def by simp
  with t f w show ?thesis by auto
qed

lemma dictionary_command_emits:
  assumes t: "emits s t bs" and c: "insert_and_copy_code n = (command, copy_bits, copy_extra)" "copy_bits \<le> 32"
    and d: "to_distance_code L distance (num_of_postfix_bits distance) = (code, extra_bits, extra)" "extra_bits \<le> 32"
  shows "\<exists>u. dictionary_command L distance n t = u\<lparr>bs_uncompressed_size := (bs_uncompressed_size s + n) mod TWO32\<rparr> \<and>
    emits s u (bs @ num 0 1 @ command_bits (num_of_postfix_bits distance) command code copy_extra copy_bits extra extra_bits)"
proof -
  let ?p = "num_of_postfix_bits distance"
  have w: "6 + ?p \<le> 32" by (simp add: num_of_postfix_bits_def)
  define u1 where "u1 = number 0 1 (number 0 1 (number 0 1 (number 0 1 t)))"
  have e1: "emits s u1 ((((bs @ num 0 1) @ num 0 1) @ num 0 1) @ num 0 1)" unfolding u1_def by (intro emits_number t) simp_all
  define u2 where "u2 = number 0 4 (number ?p 2 u1)"
  have e2: "emits s u2 ((((((bs @ num 0 1) @ num 0 1) @ num 0 1) @ num 0 1) @ num ?p 2) @ num 0 4)" unfolding u2_def by (intro emits_number e1) simp_all
  define u3 where "u3 = number 0 1 (number 0 1 (number 0 2 u2))"
  have e3: "emits s u3 (((((((((bs @ num 0 1) @ num 0 1) @ num 0 1) @ num 0 1) @ num ?p 2) @ num 0 4) @ num 0 2) @ num 0 1) @ num 0 1)"
    unfolding u3_def by (intro emits_number e2) simp_all
  define u4 where "u4 = add_prefix_tree command 10 (add_prefix_tree 0 8 u3)"
  have e4: "emits s u4 (((((((((((bs @ num 0 1) @ num 0 1) @ num 0 1) @ num 0 1) @ num ?p 2) @ num 0 4) @ num 0 2) @ num 0 1) @ num 0 1) @
      (num 1 2 @ num 0 2 @ num 0 8)) @ (num 1 2 @ num 0 2 @ num command 10))"
    unfolding u4_def by (intro emits_tree e3) simp_all
  define u5 where "u5 = number extra extra_bits (number copy_extra copy_bits (add_prefix_tree code (6 + ?p) u4))"
  have e5: "emits s u5 (((((((((((((((bs @ num 0 1) @ num 0 1) @ num 0 1) @ num 0 1) @ num ?p 2) @ num 0 4) @ num 0 2) @ num 0 1) @ num 0 1) @
      (num 1 2 @ num 0 2 @ num 0 8)) @ (num 1 2 @ num 0 2 @ num command 10)) @ (num 1 2 @ num 0 2 @ num code (6 + ?p))) @
      num copy_extra copy_bits) @ num extra extra_bits))"
    unfolding u5_def by (intro emits_number emits_tree e4 w c(2) d(2))
  have "dictionary_command L distance n t = u5\<lparr>bs_uncompressed_size := (bs_uncompressed_size u5 + n) mod TWO32\<rparr>"
    unfolding dictionary_command_def Let_def c(1) d(1) prod.case distance_code_width_def u5_def u4_def u3_def u2_def u1_def ..
  moreover have "bs_uncompressed_size u5 = bs_uncompressed_size s" using emits_fields [OF e5] by simp
  ultimately show ?thesis using e5 by (intro exI [of _ u5]) (simp add: command_bits_def)
qed

lemma copy_from_dictionary:
  assumes "offset + n \<le> length dict" and "0 < n"
  shows "copy_at dict window (length dict + min window (length out) - offset) n out = Some (out @ take n (drop offset dict))"
  using assms by (auto simp: copy_at_def Let_def)

lemma holds_dictionary_one:
  assumes holds: "stream_holds dict before data s" and codes: "distance_codes_ok L" and n: "2 \<le> n" "n \<le> MAX_METABLOCK_SIZE"
    and offset: "offset + n \<le> length dict" and dict: "length dict + bs_window_size s \<le> 536870880"
    and total: "length before + length data + n < TWO32"
  shows "fst (insert_from_dictionary L offset n s) \<and>
    stream_holds dict before (data @ take n (drop offset dict)) (snd (insert_from_dictionary L offset n s))"
proof -
  define s' where "s' = (if bs_uncompressed_size s = 0 then add_stream_header s else s)"
  have ok: "bb_ok (bs_buffer s')" using holds_header_ok [OF holds] by (simp add: s'_def)
  define reach where "reach = min (bs_window_size s) (length before + length data)"
  define distance where "distance = length dict + reach - offset"
  have dsmall: "0 < distance" "distance \<le> 536870880" using offset n(1) dict by (auto simp: distance_def reach_def)
  obtain nibbles where m: "fst (add_mlen n s)" "emits s' (snd (add_mlen n s)) (length_bits nibbles n)" "nibbles < 3"
    "n - 1 < 2 ^ (4 * (4 + nibbles))" "nibbles = 0 \<or> 16 ^ (3 + nibbles) \<le> n - 1"
    using add_mlen_emits [OF _ n(2) s'_def ok] n(1) by auto
  define t where "t = snd (add_mlen n s)"
  have a: "add_mlen n s = (True, t)" using m(1) by (simp add: t_def prod_eq_iff)
  note mt = m(2) [folded t_def]
  have "n \<le> 2 ^ 24" using n(2) by (simp add: MAX_METABLOCK_SIZE_def)
  from insert_and_copy_code_spec [OF n(1) this] obtain command cc copy_bits copy_extra base where
    c: "insert_and_copy_code n = (command, copy_bits, copy_extra)" "copy_code_of command = Some cc" "command < 2 ^ 10"
      "copy_lengths ! cc = (base, copy_bits)" "base + copy_extra = n" "copy_extra < 2 ^ copy_bits" "copy_bits \<le> 24" by blast
  from to_distance_code_spec [OF codes dsmall refl] obtain code extra_bits extra where
    d: "to_distance_code L distance (num_of_postfix_bits distance) = (code, extra_bits, extra)" "16 \<le> code" "code < 2 ^ (6 + num_of_postfix_bits distance)"
      "distance_bits (num_of_postfix_bits distance) code = extra_bits" "extra_bits \<le> 32" "extra < 2 ^ extra_bits"
      "distance_of (num_of_postfix_bits distance) code extra = distance" by blast
  from dictionary_command_emits [OF mt c(1) _ d(1,5)] c(7) obtain u where
    u: "dictionary_command L distance n t = u\<lparr>bs_uncompressed_size := (bs_uncompressed_size s' + n) mod TWO32\<rparr>"
      "emits s' u (length_bits nibbles n @ num 0 1 @ command_bits (num_of_postfix_bits distance) command code copy_extra copy_bits extra extra_bits)" by auto
  have size: "bs_uncompressed_size s' = bs_uncompressed_size s" "bs_uncompressed_size s = length before + length data" "bs_dictionary_size s = length dict"
    using holds by (auto simp: s'_def add_stream_header_def number_def stream_holds_def split: prod.split)
  have wrap: "sub32 ((bs_dictionary_size s + min (bs_window_size s) (bs_uncompressed_size s)) mod TWO32) offset = distance"
    using offset dict by (auto simp: size distance_def reach_def)
  have new: "take n (drop offset dict) \<noteq> []" "length (take n (drop offset dict)) = n" using n(1) offset by auto
  have r: "insert_from_dictionary L offset n s = (True, u\<lparr>bs_uncompressed_size := bs_uncompressed_size s + length (take n (drop offset dict))\<rparr>)"
    using n(1) total by (subst insert_from_dictionary.simps) (simp add: Let_def wrap [unfolded size(2,3)] a u(1) size new(2) del: length_take)
  have "copy_at dict (bs_window_size s) distance n (before @ data) = Some ((before @ data) @ take n (drop offset dict))"
    using copy_from_dictionary [OF offset, of "bs_window_size s" "before @ data"] n(1) by (simp add: distance_def reach_def)
  then have copied: "copy_at dict (bs_window_size s) (distance_of (num_of_postfix_bits distance) code extra) n (before @ data) =
      Some (before @ data @ take n (drop offset dict))" unfolding d(7) by simp
  show ?thesis unfolding r fst_conv snd_conv
  proof (intro conjI TrueI holds_extend [OF holds s'_def u(2) new(1)])
    fix pos
    show "reads_bits (read_meta_block dict (bs_window_size s) (before @ data)) pos (length_bits nibbles n @ num 0 1 @
        command_bits (num_of_postfix_bits distance) command code copy_extra copy_bits extra extra_bits) (Block (before @ data @ take n (drop offset dict)))"
    proof (rule reads_length [OF m(3-5)])
      show "0 < n" using n(1) by simp
      fix q
      show "reads_bits (br_bind (br_number 1) (\<lambda>uncompressed.
             if uncompressed = 1 then br_bind br_align (\<lambda>_. br_bind (br_bytes n) (\<lambda>bs. br_return (Block ((before @ data) @ bs))))
             else read_command dict (bs_window_size s) (before @ data) n)) q (num 0 1 @
          command_bits (num_of_postfix_bits distance) command code copy_extra copy_bits extra extra_bits) (Block (before @ data @ take n (drop offset dict)))"
        apply (rule reads_bind [OF reads_number], simp, simp)
        apply (simp only: zero_neq_one if_False)
        by (rule reads_command [OF _ c(2,3,4,6) _ c(5) d(2,3,4,5,6) copied])
          (use c(7) postfix_range [OF dsmall(2)] in simp_all)
    qed
  qed
qed

lemma window_kept [simp]:
  "bs_window_bits (number k n s) = bs_window_bits s" "bs_window_bits (add_prefix_tree k n s) = bs_window_bits s" "bs_window_bits (pad_stream s) = bs_window_bits s"
  "bs_window_bits (add_stream_header s) = bs_window_bits s" "bs_window_bits (snd (add_mlen n s)) = bs_window_bits s"
  "bs_window_bits (dictionary_command L distance n s) = bs_window_bits s"
proof -
  show number: "bs_window_bits (number k n s) = bs_window_bits s" for k n s by (simp add: number_def)
  show tree: "bs_window_bits (add_prefix_tree k n s) = bs_window_bits s" for k n s by (simp add: add_prefix_tree_def number)
  show pad: "bs_window_bits (pad_stream s) = bs_window_bits s" for s by (simp add: pad_stream_def)
  show hdr: "bs_window_bits (add_stream_header s) = bs_window_bits s" by (simp add: add_stream_header_def number split: prod.split)
  show "bs_window_bits (snd (add_mlen n s)) = bs_window_bits s" by (simp add: add_mlen_def Let_def number pad hdr)
  show "bs_window_bits (dictionary_command L distance n s) = bs_window_bits s"
    by (simp add: dictionary_command_def Let_def number tree split: prod.split)
qed

lemma insert_large:
  assumes "MAX_METABLOCK_SIZE < n" and "k = (if n - MAX_METABLOCK_SIZE \<le> 1 then 2 else n - MAX_METABLOCK_SIZE)"
  shows "insert_from_dictionary L offset n s = (case insert_from_dictionary L offset (n - k) s of (False, s) \<Rightarrow> (False, s)
    | (True, s) \<Rightarrow> insert_from_dictionary L ((offset + (n - k)) mod TWO32) k s)"
proof -
  have "add_mlen n s = (False, s)" "n \<noteq> 0" "n \<noteq> 1" using assms(1) by (auto simp: add_mlen_def MAX_METABLOCK_SIZE_def)
  then show ?thesis
    by (subst insert_from_dictionary.simps) (simp only: Let_def prod.case bool.case if_False assms(2) [symmetric])
qed

lemma dictionary_window [simp]: "bs_window_bits (snd (insert_from_dictionary L offset n s)) = bs_window_bits s"
proof (induction n arbitrary: offset s rule: less_induct)
  case (less n)
  show ?case
  proof (cases "n \<le> 1 \<or> n \<le> MAX_METABLOCK_SIZE")
    case True
    obtain b t where t: "add_mlen n s = (b, t)" by fastforce
    have "b \<or> n \<le> 1" using True add_mlen_False [of n s t] t by (cases b) auto
    moreover have "bs_window_bits t = bs_window_bits s" using window_kept(5) [of n s] by (simp add: t)
    ultimately show ?thesis by (subst insert_from_dictionary.simps) (auto simp: Let_def t split: bool.split)
  next
    case False
    define k where "k = (if n - MAX_METABLOCK_SIZE \<le> 1 then 2 else n - MAX_METABLOCK_SIZE)"
    have k: "k < n" "n - k < n" using False by (auto simp: k_def MAX_METABLOCK_SIZE_def)
    obtain b u where u: "insert_from_dictionary L offset (n - k) s = (b, u)" by fastforce
    have "bs_window_bits u = bs_window_bits s" using less.IH [OF k(2), of offset s] by (simp add: u)
    then show ?thesis using less.IH [OF k(1), of _ u] False by (simp add: insert_large [OF _ k_def] u split: bool.split)
  qed
qed

lemma holds_window: "stream_holds dict before data s \<Longrightarrow> bs_window_size s = 2 ^ bs_window_bits s - 16"
  by (simp add: stream_holds_def)

lemma holds_dictionary:
  assumes "stream_holds dict before data s" and codes: "distance_codes_ok L" and "n \<noteq> 1" and "offset + n \<le> length dict"
    and "length dict + bs_window_size s \<le> 536870880" and "length before + length data + n < TWO32"
  shows "fst (insert_from_dictionary L offset n s) \<and>
    stream_holds dict before (data @ take n (drop offset dict)) (snd (insert_from_dictionary L offset n s))"
  using assms(1,3-)
proof (induction n arbitrary: offset data s rule: less_induct)
  case (less n)
  consider "n = 0" | "2 \<le> n" "n \<le> MAX_METABLOCK_SIZE" | "MAX_METABLOCK_SIZE < n" using less.prems(2) by linarith
  then show ?case
  proof cases
    case 1
    with less.prems show ?thesis by (simp add: insert_from_dictionary.simps)
  next
    case 2
    from holds_dictionary_one [OF less.prems(1) codes 2 less.prems(3,4,5)] show ?thesis .
  next
    case 3
    define k where "k = (if n - MAX_METABLOCK_SIZE \<le> 1 then 2 else n - MAX_METABLOCK_SIZE)"
    have k: "k < n" "n - k < n" "n - k \<noteq> 1" "k \<noteq> 1" "n - k + k = n" using 3 by (auto simp: k_def MAX_METABLOCK_SIZE_def)
    let ?a = "take (n - k) (drop offset dict)" and ?b = "take k (drop (offset + (n - k)) dict)"
    obtain b u where u: "insert_from_dictionary L offset (n - k) s = (b, u)" by fastforce
    have "offset + (n - k) \<le> length dict" "length before + length data + (n - k) < TWO32" using less.prems(3,5) by simp_all
    from less.IH [OF k(2) less.prems(1) k(3) this(1) less.prems(4) this(2)]
    have A: "b \<and> stream_holds dict before (data @ ?a) u" by (simp add: u)
    have wu: "bs_window_size u = bs_window_size s"
      using holds_window [OF less.prems(1)] holds_window [OF conjunct2 [OF A]] dictionary_window [of L offset "n - k" s] by (simp add: u)
    have len: "length ?a = n - k" using less.prems(3) by simp
    have B: "fst (insert_from_dictionary L (offset + (n - k)) k u) \<and>
        stream_holds dict before ((data @ ?a) @ ?b) (snd (insert_from_dictionary L (offset + (n - k)) k u))"
      by (rule less.IH [OF k(1) _ k(4)]) (use A less.prems(3-) k(5) wu len in auto)
    have join: "?a @ ?b = take n (drop offset dict)" using k(5) take_add [of "n - k" k "drop offset dict"] by (simp add: drop_drop add.commute)
    have "(offset + (n - k)) mod TWO32 = offset + (n - k)" using less.prems(3,4) by simp
    then have "insert_from_dictionary L offset n s = insert_from_dictionary L (offset + (n - k)) k u"
      using A by (simp add: insert_large [OF 3 k_def] u)
    then show ?thesis using B by (simp add: join [symmetric])
  qed
qed

section \<open>Appended streams\<close>

lemma append_window [simp]: "bs_window_bits (byte_align s) = bs_window_bits s" "bs_window_bits (insert_uncompressed bs s) = bs_window_bits s"
proof -
  show "bs_window_bits (byte_align s) = bs_window_bits s" by (simp add: byte_align_def)
  show "bs_window_bits (insert_uncompressed bs s) = bs_window_bits s"
  proof (induction "length bs" arbitrary: bs s rule: less_induct)
    case less
    obtain b t where t: "add_mlen (length bs mod TWO32) s = (b, t)" by fastforce
    have w: "bs_window_bits t = bs_window_bits s" using window_kept(5) [of "length bs mod TWO32" s] by (simp add: t)
    show ?case
    proof (cases b)
      case True
      then show ?thesis using w by (subst insert_uncompressed.simps) (simp add: t Let_def)
    next
      case False
      then have l: "MAX_METABLOCK_SIZE < length bs" using long_bytes [of t bs s] t by simp
      then have "length (take MAX_METABLOCK_SIZE bs) < length bs" "length (drop MAX_METABLOCK_SIZE bs) < length bs"
        by (auto simp: MAX_METABLOCK_SIZE_def)
      then show ?thesis using False w less by (subst insert_uncompressed.simps) (simp add: t)
    qed
  qed
qed

lemma holds_append:
  assumes holds: "stream_holds dict before data s" and other: "stream_holds dict (before @ data) added other"
    and window: "bs_window_bits other = bs_window_bits s" and total: "length before + length data + length added < TWO32"
  shows "stream_holds dict before (data @ added) (snd (append_stream other s))"
proof -
  define t where "t = byte_align s"
  define u where "u = byte_align other"
  have t: "stream_holds dict before data t" "is_byte_aligned (bs_buffer t)" "bs_window_bits t = bs_window_bits s"
    using holds_align [OF holds] byte_align_aligned holds by (auto simp: t_def stream_holds_def)
  have u: "stream_holds dict (before @ data) added u" "is_byte_aligned (bs_buffer u)" "bs_window_bits u = bs_window_bits s"
    using holds_align [OF other] byte_align_aligned other window by (auto simp: u_def stream_holds_def)
  have ok: "bb_ok (bs_buffer t)" "bb_ok (bs_buffer u)" using t(1) u(1) by (simp_all add: stream_holds_def)
  have bits: "stream (bb_buffer (bs_buffer u)) = bb_bits (bs_buffer u)" using u(2) by (simp add: bb_bits_def is_byte_aligned_def)
  define v where "v = snd (append_stream other s)"
  have v: "bs_buffer v = append_raw (bb_buffer (bs_buffer u)) (bs_buffer t)" "bs_starting_offset v = bs_starting_offset t"
    "bs_window_bits v = bs_window_bits t" "bs_window_size v = bs_window_size t" "bs_dictionary_size v = bs_dictionary_size t"
    "bs_uncompressed_size v = (bs_uncompressed_size t + sub32 (bs_uncompressed_size u) (bs_starting_offset u)) mod TWO32"
    by (simp_all add: v_def append_stream_def Let_def t_def u_def)
  have buf: "bb_ok (bs_buffer v)" "bb_bits (bs_buffer v) = bb_bits (bs_buffer t) @ bb_bits (bs_buffer u)"
    using raw_bits [OF ok(1) t(2)] by (simp_all add: v(1) bits)
  have size: "bs_uncompressed_size v = length before + length (data @ added)"
    using t(1) u(1) total by (simp add: v(6) stream_holds_def)
  show ?thesis
  proof (cases "before @ data = []")
    case True
    then have "bb_bits (bs_buffer t) = []" using t(1) by (simp add: stream_holds_def)
    then show ?thesis using t(1,3) u(1,3) True buf size v(2-5) unfolding v_def [symmetric] by (auto simp: stream_holds_def)
  next
    case False
    have c: "content dict (bs_window_bits s) before data (bb_bits (bs_buffer t))" using t False by (auto simp: stream_holds_def)
    then obtain h body where b: "bb_bits (bs_buffer t) = h @ body" "if before = [] then reads_bits read_window_bits 0 h (bs_window_bits s) else h = []"
      "\<And>pos. pos mod 8 = 0 \<Longrightarrow> blocks dict (2 ^ bs_window_bits s - 16) (pos + length h) body before (before @ data)" unfolding content_def by blast
    have "content dict (bs_window_bits s) (before @ data) added (bb_bits (bs_buffer u))" using u False by (auto simp: stream_holds_def)
    then have m: "\<And>pos. pos mod 8 = 0 \<Longrightarrow> blocks dict (2 ^ bs_window_bits s - 16) pos (bb_bits (bs_buffer u)) (before @ data) ((before @ data) @ added)"
      using False unfolding content_def by auto
    have al: "length (h @ body) mod 8 = 0" using bit_index_length(2) [OF ok(1)] t(2) by (simp add: b(1))
    have "blocks dict (2 ^ bs_window_bits s - 16) (pos + length h) (body @ bb_bits (bs_buffer u)) before (before @ data @ added)" if pos: "pos mod 8 = 0" for pos
    proof -
      have "(pos + length h + length body) mod 8 = 0" using mod_sum [of pos 8 0 "length (h @ body)"] pos al by (simp add: add.assoc)
      from blocks_append [OF b(3) [OF pos] m [OF this]] show ?thesis by simp
    qed
    then have "content dict (bs_window_bits s) before (data @ added) (bb_bits (bs_buffer v))"
      unfolding content_def buf(2) b(1) using b(2) by (intro exI [of _ h] exI [of _ "body @ bb_bits (bs_buffer u)"]) simp
    then show ?thesis using t(1,3) False buf(1) size v(2-5) unfolding v_def [symmetric] by (auto simp: stream_holds_def)
  qed
qed

section \<open>The end\<close>

lemma end_stream_decodes:
  assumes holds: "stream_holds dict [] data s" and data: "data \<noteq> []"
  shows "brotli_decode dict (compressed_data (end_stream s)) = Some data"
proof -
  have ok: "bb_ok (bs_buffer s)" using holds by (simp add: stream_holds_def)
  define pad where "pad = replicate ((8 - length (bb_bits (bs_buffer s) @ (([] @ num 1 1) @ num 1 1)) mod 8) mod 8) False"
  have e: "emits s (end_stream s) ((([] @ num 1 1) @ num 1 1) @ pad)"
    unfolding end_stream_def pad_def by (rule emits_pad) (intro emits_number emits_refl [OF ok], simp_all)
  obtain h body where b: "bb_bits (bs_buffer s) = h @ body" "reads_bits read_window_bits 0 h (bs_window_bits s)"
    "blocks dict (2 ^ bs_window_bits s - 16) (length h) body [] data"
    using holds data unfolding stream_holds_def content_def by (auto dest: spec [of _ 0])
  have "stream (compressed_data (end_stream s)) = bb_bits (bs_buffer (end_stream s))"
    by (simp add: compressed_data_def end_stream_def pad_stream_def bb_bits_def pad_to_end_of_byte_def)
  then have all: "stream (compressed_data (end_stream s)) = h @ body @ (num 1 1 @ num 1 1 @ []) @ pad" using e b(1) by (simp add: emits_def)
  have "reads_bits (read_meta_block dict (2 ^ bs_window_bits s - 16) data) (length h + length body) (num 1 1 @ num 1 1 @ []) Last_Block"
    unfolding read_meta_block_def
    apply (rule reads_bind [OF reads_number], simp, simp)
    apply (simp only: if_True simp_thms)
    apply (rule reads_bind [OF reads_number], simp, simp)
    by (rule reads_check, simp, rule reads_return)
  moreover have "length body < 8 * length (compressed_data (end_stream s))"
    using arg_cong [OF all, of length] by simp
  ultimately have "decode_blocks (8 * length (compressed_data (end_stream s))) dict (2 ^ bs_window_bits s - 16) [] (length h, body @ (num 1 1 @ num 1 1 @ []) @ pad) = Some data"
    by (rule decode_blocks_last [OF b(3)])
  moreover have "read_window_bits (0, stream (compressed_data (end_stream s))) = Some (bs_window_bits s, length h, body @ (num 1 1 @ num 1 1 @ []) @ pad)"
    using b(2) unfolding all reads_bits_def by simp
  ultimately show ?thesis by (simp add: brotli_decode_def)
qed

end
