(* ===== verification/Brotli_Properties.thy ===== *)
theory Brotli_Properties
  imports Brotli_Content Brotli_Decode "HOL-Library.Log_Nat"
begin

text \<open>
  Streams that are put together by any sequence of operations decode to the bytes the operations stand for.
  An appended stream is one that starts where the stream it is appended to ends, as \<^verbatim>\<open>TableRange\<close> makes it.
\<close>

section \<open>Sequences of operations\<close>

datatype operation = From_Dictionary nat nat | Uncompressed bytes | Byte_Align | Four_Byte_Align | Appended "operation list"

fun run_operation :: "'e brotli_library \<Rightarrow> operation \<Rightarrow> brotli_stream \<Rightarrow> bool \<times> brotli_stream"
  and run_operations :: "'e brotli_library \<Rightarrow> operation list \<Rightarrow> brotli_stream \<Rightarrow> bool \<times> brotli_stream" where
  "run_operation L (From_Dictionary offset n) s = insert_from_dictionary L offset n s"
| "run_operation L (Uncompressed bs) s = (True, insert_uncompressed bs s)"
| "run_operation L Byte_Align s = (True, byte_align s)"
| "run_operation L Four_Byte_Align s = (True, four_byte_align_uncompressed s)"
| "run_operation L (Appended ops) s = (case run_operations L ops (BrotliStream (bs_window_bits s) (bs_dictionary_size s) (bs_uncompressed_size s)) of
     (ok, other) \<Rightarrow> (ok, snd (append_stream other s)))"
| "run_operations L [] s = (True, s)"
| "run_operations L (x # xs) s = (case run_operation L x s of (False, s) \<Rightarrow> (False, s) | (True, s) \<Rightarrow> run_operations L xs s)"

fun operation_bytes :: "bytes \<Rightarrow> nat \<Rightarrow> operation \<Rightarrow> bytes" and operations_bytes :: "bytes \<Rightarrow> nat \<Rightarrow> operation list \<Rightarrow> bytes" where
  "operation_bytes dict sz (From_Dictionary offset n) = take n (drop offset dict)"
| "operation_bytes dict sz (Uncompressed bs) = bs"
| "operation_bytes dict sz Byte_Align = []"
| "operation_bytes dict sz Four_Byte_Align = replicate ((4 - sz mod 4) mod 4) 0"
| "operation_bytes dict sz (Appended ops) = operations_bytes dict sz ops"
| "operations_bytes dict sz [] = []"
| "operations_bytes dict sz (x # xs) =
     operation_bytes dict sz x @ operations_bytes dict (sz + length (operation_bytes dict sz x)) xs"

text \<open>A reference to one byte of the dictionary is refused; an empty insertion must not be made.\<close>

fun valid_operation :: "bytes \<Rightarrow> operation \<Rightarrow> bool" where
  "valid_operation dict (From_Dictionary offset n) \<longleftrightarrow> n \<noteq> 1 \<and> offset + n \<le> length dict"
| "valid_operation dict (Uncompressed bs) \<longleftrightarrow> bs \<noteq> []"
| "valid_operation dict (Appended ops) \<longleftrightarrow> list_all (valid_operation dict) ops"
| "valid_operation dict x \<longleftrightarrow> True"

definition stays :: "bytes \<Rightarrow> bytes \<Rightarrow> bytes \<Rightarrow> bytes \<Rightarrow> nat \<Rightarrow> bool \<times> brotli_stream \<Rightarrow> bool" where
  "stays dict before data new bits r \<longleftrightarrow> fst r \<and> stream_holds dict before (data @ new) (snd r) \<and> bs_window_bits (snd r) = bits"

lemma four_byte_align_holds:
  assumes holds: "stream_holds dict before data s" and size: "sz = length before + length data"
    and total: "sz + length (operation_bytes dict sz Four_Byte_Align) < TWO32"
  shows "stream_holds dict before (data @ operation_bytes dict sz Four_Byte_Align) (four_byte_align_uncompressed s) \<and>
    bs_window_bits (four_byte_align_uncompressed s) = bs_window_bits s"
proof (cases "sz mod 4 = 0")
  case True
  with holds size show ?thesis by (simp add: four_byte_align_uncompressed_def stream_holds_def)
next
  case False
  define z :: bytes where "z = replicate (4 - sz mod 4) 0"
  have z: "operation_bytes dict sz Four_Byte_Align = z" "z \<noteq> []" using False by (auto simp: z_def mod_less)
  have s: "four_byte_align_uncompressed s = insert_uncompressed z s"
    using False holds size by (simp add: four_byte_align_uncompressed_def stream_holds_def z_def)
  show ?thesis unfolding s z(1) using holds_uncompressed [OF holds z(2)] total [unfolded z(1)] size by simp
qed

lemma run_operation_stays:
  "stream_holds dict before data s \<Longrightarrow> distance_codes_ok L \<Longrightarrow> valid_operation dict x \<Longrightarrow>
     length dict + 2 ^ bs_window_bits s \<le> 536870896 \<Longrightarrow>
     length before + length data + length (operation_bytes dict (length before + length data) x) < TWO32 \<Longrightarrow>
     stays dict before data (operation_bytes dict (length before + length data) x) (bs_window_bits s) (run_operation L x s)"
  "stream_holds dict before data s \<Longrightarrow> distance_codes_ok L \<Longrightarrow> list_all (valid_operation dict) xs \<Longrightarrow>
     length dict + 2 ^ bs_window_bits s \<le> 536870896 \<Longrightarrow>
     length before + length data + length (operations_bytes dict (length before + length data) xs) < TWO32 \<Longrightarrow>
     stays dict before data (operations_bytes dict (length before + length data) xs) (bs_window_bits s) (run_operations L xs s)"
proof (induction L x s and L xs s arbitrary: before data and before data rule: run_operation_run_operations.induct)
  case (1 L offset n s)
  have "length dict + bs_window_size s \<le> 536870880"
    using "1.prems"(1,4) power_increasing [of 4 "bs_window_bits s" "2 :: nat"] by (simp add: stream_holds_def)
  moreover have "length (operation_bytes dict (length before + length data) (From_Dictionary offset n)) = n" using "1.prems"(3) by auto
  ultimately show ?case using holds_dictionary [OF "1.prems"(1,2), of n offset] "1.prems"(3,5) by (simp add: stays_def)
next
  case (2 L bs s)
  then show ?case using holds_uncompressed [OF "2.prems"(1), of bs] by (simp add: stays_def)
next
  case (3 L s)
  then show ?case using holds_align [of dict before data s] by (simp add: stays_def)
next
  case (4 L s)
  then show ?case using four_byte_align_holds [OF "4.prems"(1) refl] by (simp add: stays_def del: operation_bytes.simps)
next
  case (5 L ops s)
  define s0 where "s0 = BrotliStream (bs_window_bits s) (bs_dictionary_size s) (bs_uncompressed_size s)"
  have "s0 = BrotliStream (bs_window_bits s) (length dict) (length (before @ data))" using "5.prems"(1) by (simp add: s0_def stream_holds_def)
  then have start: "stream_holds dict (before @ data) [] s0" "bs_window_bits s0 = bs_window_bits s"
    using "5.prems"(1) holds_start [of dict "before @ data" "bs_window_bits s"] by (auto simp: BrotliStream_def Let_def stream_holds_def)
  obtain ok other where r: "run_operations L ops s0 = (ok, other)" by fastforce
  have IH: "stays dict (before @ data) [] (operations_bytes dict (length (before @ data) + length ([] :: bytes)) ops) (bs_window_bits s0) (run_operations L ops s0)"
    unfolding s0_def by (rule "5.IH") (use start "5.prems" in \<open>simp_all add: s0_def [symmetric]\<close>)
  have "stream_holds dict before (data @ operations_bytes dict (length before + length data) ops) (snd (append_stream other s))"
    by (rule holds_append [OF "5.prems"(1)]) (use IH start "5.prems"(5) in \<open>auto simp: stays_def r\<close>)
  then show ?case using IH start
    by (auto simp: stays_def s0_def [symmetric] r append_stream_def Let_def append_window)
next
  case (6 L s)
  then show ?case by (simp add: stays_def)
next
  case (7 L x xs s)
  let ?b = "operation_bytes dict (length before + length data) x"
  obtain ok t where r: "run_operation L x s = (ok, t)" by fastforce
  have "stays dict before data ?b (bs_window_bits s) (run_operation L x s)"
    by (rule "7.IH"(1)) (use "7.prems" in simp_all)
  then have t: "ok" "stream_holds dict before (data @ ?b) t" "bs_window_bits t = bs_window_bits s" by (simp_all add: stays_def r)
  have "stays dict before (data @ ?b) (operations_bytes dict (length before + length (data @ ?b)) xs) (bs_window_bits t) (run_operations L xs t)"
    by (rule "7.IH"(2) [of ok t]) (use t r "7.prems" in \<open>simp_all add: add.assoc\<close>)
  then show ?case using t(1,3) by (simp add: stays_def r add.assoc)
qed

section \<open>The library's code for distances\<close>

text \<open>
  A function that codes distances as \<^verbatim>\<open>PrefixEncodeCopyDistance\<close> is documented to, which shows that the
  hypothesis on it can hold.
\<close>

definition prefix_code :: "nat \<Rightarrow> nat \<Rightarrow> nat \<Rightarrow> nat \<times> nat" where
  "prefix_code d direct postfix_bits =
     (let k = 4 * 2 ^ postfix_bits + (d - 16); q = k div 2 ^ postfix_bits; n = floorlog 2 q - 2; prefix = q div 2 ^ n mod 2
      in (1024 * n + (16 + (2 * (n - 1) + prefix) * 2 ^ postfix_bits + k mod 2 ^ postfix_bits), q - (2 + prefix) * 2 ^ n))"

definition prefix_library :: "unit brotli_library" where
  "prefix_library = \<lparr>bl_create = None, bl_set_parameter = (\<lambda>p n e. None), bl_prepare_dictionary = (\<lambda>d. False), bl_attach_dictionary = (\<lambda>d e. None),
     bl_compress_stream = (\<lambda>c bs e. (False, 0, e)), bl_take_output = (\<lambda>e. ([], e)), bl_is_finished = (\<lambda>e. True), bl_has_more_output = (\<lambda>e. False),
     bl_prefix_encode = prefix_code\<rparr>"

lemma two_bits:
  assumes q: "4 \<le> q" and n: "n = floorlog 2 q - 2"
  shows "1 \<le> n" and "(2 + q div 2 ^ n mod 2) * 2 ^ n \<le> q" and "q - (2 + q div 2 ^ n mod 2) * 2 ^ n < 2 ^ n" and "4 * 2 ^ n \<le> 2 * q"
proof -
  have b: "2 ^ (floorlog 2 q - 1) \<le> q" "q < 2 ^ floorlog 2 q" using floorlog_bounds [of q 2] q by auto
  have "\<not> floorlog 2 q \<le> 2" using power_increasing [of "floorlog 2 q" 2 "2 :: nat"] b(2) q by auto
  then have f: "floorlog 2 q = n + 2" "1 \<le> n" by (auto simp: n)
  then show "1 \<le> n" by simp
  have r: "2 * 2 ^ n \<le> q" "q < 4 * 2 ^ n" using b by (simp_all add: f)
  then show "4 * 2 ^ n \<le> 2 * q" by simp
  have "2 \<le> q div 2 ^ n" "q div 2 ^ n < 4" using r by (simp_all add: less_eq_div_iff_mult_less_eq less_mult_imp_div_less)
  then have "q div 2 ^ n = 2 \<or> q div 2 ^ n = 3" by linarith
  then have p: "2 + q div 2 ^ n mod 2 = q div 2 ^ n" by auto
  show "(2 + q div 2 ^ n mod 2) * 2 ^ n \<le> q" "q - (2 + q div 2 ^ n mod 2) * 2 ^ n < 2 ^ n"
    unfolding p by (simp_all add: minus_div_mult_eq_mod)
qed

lemma prefix_code_ok: "distance_codes_ok prefix_library"
  unfolding distance_codes_ok_def
proof (intro allI impI)
  fix d p :: nat assume "p < 4 \<and> 0 < d \<and> d \<le> 67108860 * 2 ^ p"
  then have p: "p < 4" and d: "0 < d" "d \<le> 67108860 * 2 ^ p" by simp_all
  define k where "k = 4 * 2 ^ p + (d - 1)"
  define q where "q = k div 2 ^ p"
  define n where "n = floorlog 2 q - 2"
  define x where "x = q div 2 ^ n mod 2"
  define r where "r = k mod 2 ^ p"
  have "4 \<le> q" using less_eq_div_iff_mult_less_eq [of "2 ^ p" 4 k] by (simp add: q_def k_def)
  note tb = two_bits [OF this n_def, folded x_def]
  note four = \<open>4 \<le> q\<close>
  have "k < 67108864 * 2 ^ p" using d by (simp add: k_def)
  then have "q < 67108864" unfolding q_def by (rule less_mult_imp_div_less)
  then have "(2 :: nat) ^ n < 2 ^ 25" using tb(4) by simp
  then have n: "1 \<le> n" "n \<le> 24" using tb(1) power_less_imp_less_exp [of "2 :: nat" n 25] by auto
  have x: "x < 2" and r: "r < 2 ^ p" by (simp_all add: x_def r_def)
  define m where "m = 2 * (n - 1) + x"
  have m: "m \<le> 47" using n x by (simp add: m_def)
  have "m * 2 ^ p + r < Suc m * 2 ^ p" using r by simp
  also have "\<dots> \<le> 48 * 2 ^ p" using m by (intro mult_le_mono1) simp
  finally have code: "m * 2 ^ p + r < 48 * 2 ^ p" .
  have "p = 0 \<or> p = 1 \<or> p = 2 \<or> p = 3" using p by linarith
  then have "48 * 2 ^ p \<le> (384 :: nat)" by auto
  with code have small: "16 + m * 2 ^ p + r < 1024" by simp
  have dk: "d + 15 - 16 = d - 1" by simp
  have c: "bl_prefix_encode prefix_library (d + 15) 0 p = (1024 * n + (16 + m * 2 ^ p + r), q - (2 + x) * 2 ^ n)"
    by (simp only: prefix_library_def brotli_library.select_convs prefix_code_def Let_def dk k_def [symmetric] q_def [symmetric]
      n_def [symmetric] x_def [symmetric] r_def [symmetric] m_def [symmetric] add.assoc)
  have parts: "(1024 * n + (16 + m * 2 ^ p + r)) mod 1024 = 16 + m * 2 ^ p + r" "(1024 * n + (16 + m * 2 ^ p + r)) div 1024 = n"
    using small by (simp_all only: mod_mult_self4 div_mult_self4 mod_less div_less)
  have mp: "(m * 2 ^ p + r) div 2 ^ p = m" "(m * 2 ^ p + r) mod 2 ^ p = r" using r by simp_all
  have "(m * 2 ^ p + r) div 2 ^ (p + 1) = m div 2" using mp(1) div_mult2_eq [of "m * 2 ^ p + r" "2 ^ p" 2] by (simp add: mult.commute)
  moreover have "m div 2 = n - 1" "m mod 2 = x" using x by (simp_all add: m_def)
  ultimately have bits: "distance_bits p (16 + m * 2 ^ p + r) = n" using n(1) by (simp add: distance_bits_def)
  have "distance_of p (16 + m * 2 ^ p + r) (q - (2 + x) * 2 ^ n) = ((2 + x) * 2 ^ n - 4 + (q - (2 + x) * 2 ^ n)) * 2 ^ p + r + 1"
    unfolding distance_of_def bits using mp \<open>m mod 2 = x\<close> by simp
  also have "(2 + x) * 2 ^ n - 4 + (q - (2 + x) * 2 ^ n) = q - 4"
  proof -
    have "2 * 2 ^ 1 \<le> (2 + x) * 2 ^ n" using n(1) by (intro mult_le_mono power_increasing) auto
    then show ?thesis using tb(2) by simp
  qed
  also have "(q - 4) * 2 ^ p + r + 1 = d"
  proof -
    have "q * 2 ^ p + r = k" unfolding q_def r_def by (rule div_mult_mod_eq)
    moreover have "4 * 2 ^ p \<le> q * 2 ^ p" using four by (rule mult_le_mono1)
    ultimately show ?thesis using d(1) by (simp add: k_def diff_mult_distrib)
  qed
  finally have dist: "distance_of p (16 + m * 2 ^ p + r) (q - (2 + x) * 2 ^ n) = d" .
  have "1024 * n + (16 + m * 2 ^ p + r) < 2 ^ 16" using n(2) small by simp
  with small code bits dist tb(3) show "case bl_prefix_encode prefix_library (d + 15) 0 p of (composite, extra) \<Rightarrow>
        composite < 2 ^ 16 \<and> 16 \<le> composite mod 1024 \<and> composite mod 1024 < 16 + 48 * 2 ^ p \<and>
        composite div 1024 = distance_bits p (composite mod 1024) \<and> extra < 2 ^ (composite div 1024) \<and>
        distance_of p (composite mod 1024) extra = d"
    unfolding c prod.case parts by simp
qed

section \<open>Streams decode\<close>

text \<open>
  C40: the bytes of a stream, into which references to a dictionary, uncompressed bytes, alignments and other
  streams have been put and which has been ended, are a stream of meta-blocks that decodes with the dictionary to
  the referenced and inserted bytes in their order; no insertion fails.
\<close>

theorem brotli_stream_decodes:
  assumes "distance_codes_ok L" and "list_all (valid_operation dict) ops"
    and "length dict + 2 ^ bs_window_bits (BrotliStream window_bits (length dict) 0) \<le> 536870896"
    and "operations_bytes dict 0 ops \<noteq> []" and "length (operations_bytes dict 0 ops) < TWO32"
  shows "\<exists>s. run_operations L ops (BrotliStream window_bits (length dict) 0) = (True, s) \<and>
    brotli_decode dict (compressed_data (end_stream s)) = Some (operations_bytes dict 0 ops)"
proof -
  have start: "stream_holds dict [] [] (BrotliStream window_bits (length dict) 0)" using holds_start [of dict "[]"] by simp
  from run_operation_stays(2) [OF this assms(1,2,3)] assms(5)
  have "stays dict [] [] (operations_bytes dict 0 ops) (bs_window_bits (BrotliStream window_bits (length dict) 0))
    (run_operations L ops (BrotliStream window_bits (length dict) 0))" by simp
  then show ?thesis using end_stream_decodes [OF _ assms(4)]
    by (cases "run_operations L ops (BrotliStream window_bits (length dict) 0)") (auto simp: stays_def)
qed

theorem brotli_stream_decodes_witness:
  "\<exists>s. run_operations prefix_library [From_Dictionary 1 3, Uncompressed [9], Appended [From_Dictionary 0 2, Four_Byte_Align], Byte_Align]
       (BrotliStream 10 4 0) = (True, s) \<and>
     brotli_decode [5, 6, 7, 8] (compressed_data (end_stream s)) = Some [6, 7, 8, 9, 5, 6, 0, 0]"
proof -
  let ?ops = "[From_Dictionary 1 3, Uncompressed [9], Appended [From_Dictionary 0 2, Four_Byte_Align], Byte_Align]"
  have bs: "operations_bytes [5, 6, 7, 8] 0 ?ops = [6, 7, 8, 9, 5, 6, 0, 0]" by code_simp
  have ok: "list_all (valid_operation [5, 6, 7, 8]) ?ops" by simp
  have four: "length [5, 6, 7, 8 :: 8 word] = 4" by simp
  have "4 + 2 ^ bs_window_bits (BrotliStream 10 4 0) \<le> (536870896 :: nat)" by (simp add: BrotliStream_def)
  from brotli_stream_decodes [OF prefix_code_ok ok, of 10, unfolded bs four, OF this] show ?thesis by (simp del: run_operations.simps)
qed

end
