(* ===== verification/Spec2Isabelle.thy ===== *)
theory Spec2Isabelle
  imports Sparse_Properties Condition_Properties Font_Properties Encoder_Properties
    Entry_Subsumption Graph_Properties Segmentation_Properties Patch_Properties Compiler_Mixed Brotli_Properties
begin

text \<open>
  A verification development of the IFT encoder, the library under \<^verbatim>\<open>src/ift\<close> and \<^verbatim>\<open>src/brotli\<close> that turns a font
  into an incrementally transferred font: an initial font and patches that a client loads as it needs them.

  The program. A segmentation groups the codepoints and features of a font into segments. \<^verbatim>\<open>SegmentationContext\<close>
  finds for every glyph the condition on segments under which it is needed, from glyph closures that harfbuzz
  computes, and groups the glyphs of equal conditions into patches. The compiler takes the patches with their
  conditions and the subsets by which the font may be extended; it cuts the initial font and, for every jump between
  subsets that a client can make, a table keyed patch. Each font carries patch maps: entries that say which patches to
  load for which codepoints, features and axis ranges. The entries are made from the conditions by way of a graph, and
  their codepoint sets are written as sparse bit sets.

  Conventions. A value of a 32 bit type is a \<open>nat\<close> or \<open>int\<close> with the wrap-around written out (\<open>TWO32\<close>,
  \<open>sub32\<close>, \<open>to_unsigned\<close>), or a \<open>32 word\<close> where the code works on its bits. A status is \<open>status_or\<close>, with the code of
  the error and without its text; \<open>outcome\<close> and the operations \<open>st_bind\<close>, \<open>st_fold\<close> of \<open>Outcome\<close> add
  \<open>None\<close> for an exception, undefined behaviour, or a call that does not return. A \<open>float\<close> is a rational and a
  probability a real number: rounding is left out, except in the size estimates of \<open>Sparse_Choose\<close>. Hash maps are
  functions, mappings or association lists; where the code iterates over one, the list has one of the possible orders.
  Sets of integers are the strictly ascending lists of the type \<open>int_set\<close>. Harfbuzz, brotli, WOFF2, the base 32 and 64 encoders
  and the random numbers are records of functions or arguments; what a property needs of them is a hypothesis in
  its statement, and its witness gives functions for which the hypothesis holds.

  The theories.

  \<^item> \<open>Ift_Prelude\<close>, \<open>Outcome\<close>: shared lemmas, rewrite collections, the error values (\<^verbatim>\<open>ift/common/try.h\<close>), and slices of
    bytes. \<open>Int_Set\<close>: \<^verbatim>\<open>ift/common/int_set.h\<close>.
  \<^item> \<open>Branch_Factor\<close>, \<open>Bit_Buffer\<close>, \<open>Sparse_Bit_Set\<close>: \<^verbatim>\<open>branch_factor.h\<close>, \<^verbatim>\<open>bit_output_buffer.cc\<close>,
    \<^verbatim>\<open>bit_input_buffer.cc\<close>, \<^verbatim>\<open>sparse_bit_set.cc\<close> of \<^verbatim>\<open>ift/common\<close>. \<open>Sparse_Filled\<close>, \<open>Sparse_Layer\<close>, \<open>Sparse_Encode\<close> show that the
    encoder writes the layers of a tree of which filled nodes are cut, \<open>Sparse_Decode\<close> that the decoder reads such
    layers, \<open>Sparse_Grammar\<close> which bytes it takes and what it reads from them, \<open>Sparse_Choose\<close> models the choice of the branch factor; \<open>Sparse_Properties\<close> has the round trips.
  \<^item> \<open>Font_Ints\<close>, \<open>Font_Data\<close>, \<open>Font_Tables\<close>: integers, fixed point numbers, compatibility ids, axis ranges, offset tables,
    and the reading of fonts (\<^verbatim>\<open>font_helper.h\<close>, \<^verbatim>\<open>font_helper.cc\<close>, \<^verbatim>\<open>compat_id.h\<close>, \<^verbatim>\<open>axis_range.h\<close>, \<^verbatim>\<open>indexed_data_reader.h\<close>).
  \<^item> \<open>Condition_Cnf\<close>, \<open>Activation_Condition\<close>, \<open>Condition_Properties\<close>: \<^verbatim>\<open>ift/encoder/activation_condition.cc\<close>; its
    normal form, the meaning of the operations, the order and the probability bounds.
  \<^item> \<open>Patch_Map\<close>, \<open>Format_2\<close>, \<open>Format_2_Decode\<close>, \<open>Font_Properties\<close>: \<^verbatim>\<open>ift/proto/patch_map.cc\<close>,
    \<^verbatim>\<open>format_2_patch_map.cc\<close>, \<^verbatim>\<open>ift_table.h\<close>, with a parser after the specification that reads back what is written.
    \<open>Ift_In_Font\<close>: \<^verbatim>\<open>ift_table.cc\<close>. \<open>Url_Template\<close>: \<^verbatim>\<open>ift/url_template.cc\<close>.
  \<^item> \<open>Subset_Definition\<close>, \<open>Entry_Matching\<close>: \<^verbatim>\<open>ift/encoder/subset_definition.cc\<close> and when an entry matches a target.
    \<open>Lru_Cache\<close>, \<open>Glyph_Partition\<close>, \<open>Condition_Index\<close>: \<^verbatim>\<open>ift/freq/lru_cache.h\<close>, \<^verbatim>\<open>glyph_partition.cc\<close>,
    \<^verbatim>\<open>condition_to_glyphs_index.h\<close>; their properties are in \<open>Encoder_Properties\<close>.
  \<^item> \<open>Entry_Graph\<close>, \<open>Entry_Subsumption\<close>: \<^verbatim>\<open>ift/encoder/entry_graph.cc\<close>, its construction and its optimization.
    \<open>Entry_Sort\<close> is about its topological order; \<open>Entry_Invariant\<close>, \<open>Entry_Create\<close>, \<open>Entry_Conditions\<close>, \<open>Entry_Recursion\<close>,
    \<open>Entry_Meaning\<close> say by a key what each node stands for, and \<open>Entry_Output\<close> that the entries match what the
    keys say; \<open>Graph_Properties\<close> has the result.
  \<^item> \<open>Closure_Cache\<close>, \<open>Segment_Info\<close>, \<open>Segment_Closure\<close>, \<open>Glyph_Conditions\<close>, \<open>Complex_Conditions\<close>: \<^verbatim>\<open>glyph_closure_cache.cc\<close>,
    \<^verbatim>\<open>segment.h\<close>, \<^verbatim>\<open>requested_segmentation_information.cc\<close>, \<^verbatim>\<open>glyph_condition_set.h\<close>, \<^verbatim>\<open>complex_condition_finder.cc\<close>.
    \<open>Complex_Search\<close>, \<open>Complex_Cover\<close>: why the search for complex conditions ends and what it finds;
    \<open>Segment_Properties\<close>.
  \<^item> \<open>Glyph_Segmentation\<close>, \<open>Glyph_Groupings\<close>, \<open>Segmentation_Context\<close>: \<^verbatim>\<open>glyph_segmentation.cc\<close>, \<^verbatim>\<open>glyph_groupings.cc\<close>,
    \<^verbatim>\<open>segmentation_context.cc\<close>. \<open>Closure_Requirement\<close>, \<open>Segmentation_Properties\<close>: what a validated segmentation guarantees.
  \<^item> \<open>Table_Keyed\<close>, \<open>Glyph_Keyed\<close>, \<open>Patch_Properties\<close>: \<^verbatim>\<open>ift/table_keyed_diff.cc\<close>, \<^verbatim>\<open>ift/glyph_keyed_diff.cc\<close>, with readers
    after the specification that apply the patches.
  \<^item> \<open>Compiler_Edges\<close>, \<open>Compiler_Cut\<close>, \<open>Compiler_Graph\<close>: \<^verbatim>\<open>ift/encoder/compiler.cc\<close>, the edges and jumps, the
    fonts that are cut, the recursion over the nodes. \<open>Compiler_Depth\<close> also says which prefixes of the URL templates are
    usable (\<open>prefix_ok\<close>): the default, and every template in which different ids have different texts. \<open>Compiler_Depth\<close>, \<open>Compiler_Invariant\<close>, \<open>Compiler_Glyph_Sets\<close>,
    \<open>Compiler_Nodes\<close>: the depth of the recursion, and the invariant of the context that all nodes share;
    \<open>Compiler_Example\<close> is a compilation in full, \<open>Compiler_Properties\<close> and \<open>Compiler_Mixed\<close> have the results.
  \<^item> \<open>Brotli_Bits\<close>, \<open>Brotli_Stream\<close>: \<^verbatim>\<open>brotli_bit_buffer.cc\<close>, \<^verbatim>\<open>brotli_stream.cc\<close>, \<^verbatim>\<open>shared_brotli_encoder.h\<close> of
    \<^verbatim>\<open>src/brotli\<close>. \<open>Brotli_Decode\<close> is a decoder after RFC 7932, \<open>Brotli_Content\<close> says what the
    bits of a stream hold, \<open>Brotli_Properties\<close> that streams decode.

  Interfaces within the program are locales, interpreted on the definitions that model the code: \<open>node_sink\<close> and \<open>node_source\<close>
  (what the sparse bit set codec needs of the bit buffers), \<open>int_codec\<close> (the integers of fonts), \<open>partition_invariant\<close>
  (what the calls of a glyph partition keep, with a right cache and with a stale one), \<open>shared_nodes\<close> (the maps of the
  entry graph). Interfaces to libraries, which the model cannot provide, are records.

  Loops and recursion. Loops over data are structural or have a measure. The search for complex conditions, the
  paths of the glyph partition and the loop over the output of brotli are partial functions, and it is proved that the
  first two return. The recursion of the compiler over its nodes takes a depth as fuel: a node leads only to nodes from which fewer
  extension subsets are missing, so that one more than their number is enough, which \<open>compilation_depth\<close> states. The
  recursion of the optimization of the entry graph has \<open>graph_fuel\<close>, one more than the number of the nodes, which is above
  the height of any graph without a cycle. The decoder of brotli streams has the number of bits as fuel, and a meta-block takes at least one.

  Not modelled. \<^verbatim>\<open>merger.cc\<close> and \<^verbatim>\<open>candidate_merge.cc\<close> choose which segments to merge from sizes that brotli decides and
  from sums of doubles; the operations by which a merge changes the segmentation are modelled, the choice is not, and
  neither is its driver \<^verbatim>\<open>closure_glyph_segmenter.cc\<close>. The dependency graph (\<^verbatim>\<open>ift/dep_graph\<close>, \<^verbatim>\<open>dependency_closure.cc\<close>)
  reads an interface of harfbuzz and is an argument of the segmentation context. The probabilities of \<^verbatim>\<open>ift/freq\<close> are
  arguments of the bounds of conditions. \<^verbatim>\<open>ift/config\<close>, \<^verbatim>\<open>ift/client\<close> and \<^verbatim>\<open>util\<close> read messages, files and flags.
  \<^verbatim>\<open>brotli_font_diff.cc\<close> is a diff of whole fonts that the encoder does not use. Printing, logging, hashing and
  statistics are left out everywhere.
\<close>

end
